(* ===== verification/Prelude.thy ===== *)
theory Prelude
  imports Main "HOL-Library.Word" "HOL-Library.List_Lexorder"
begin

text \<open>
  Shared vocabulary of the development: machine integers and byte strings, the
  result type of fallible code, fixed-width little- and big-endian integers,
  cursors over a byte slice, and the sorted association list that stands for a
  Rust \<^verbatim>\<open>BTreeMap\<close>.

  Conventions.  A Rust \<^verbatim>\<open>u8\<close>, \<^verbatim>\<open>u16\<close>, \<^verbatim>\<open>u32\<close> or \<^verbatim>\<open>u64\<close> is a word of that
  width; a \<^verbatim>\<open>usize\<close> that counts bytes, lines or positions is a \<^typ>\<open>nat\<close>.
  \<^verbatim>\<open>&[u8]\<close>, \<^verbatim>\<open>Vec<u8>\<close>, \<^verbatim>\<open>BString\<close>, \<^verbatim>\<open>&str\<close> and \<^verbatim>\<open>String\<close> are byte lists, the
  last two restricted to valid UTF-8 where it matters.  A slice with a cursor
  (\<^verbatim>\<open>data\<close> and \<^verbatim>\<open>&mut at\<close>, or a reader) is the list of the bytes still to be
  read.  \<^verbatim>\<open>Result<T, E>\<close> is \<open>'e + 'a\<close> with \<open>Inl\<close> the error, and a call that may
  panic returns an option whose \<open>None\<close> is the panic.
\<close>

unbundle bit_operations_syntax

section \<open>Types and proof hints\<close>

type_synonym u8 = "8 word"
type_synonym u16 = "16 word"
type_synonym u32 = "32 word"
type_synonym u64 = "64 word"
type_synonym bytes = "u8 list"

named_theorems codec_simps
  \<open>equations that run a decoder over the output of its encoder\<close>

named_theorems reads
  \<open>a successful read leaves no more (or fewer) bytes than it was given\<close>

section \<open>Results\<close>

text \<open>The \<^verbatim>\<open>?\<close> operator of fallible code.\<close>

definition bindR :: "'e + 'a \<Rightarrow> ('a \<Rightarrow> 'e + 'b) \<Rightarrow> 'e + 'b" where
  "bindR m f = (case m of Inl e \<Rightarrow> Inl e | Inr x \<Rightarrow> f x)"

lemma bindR_simps [simp, code]:
  "bindR (Inl e) f = Inl e"
  "bindR (Inr x) f = f x"
  by (simp_all add: bindR_def)

lemma bindR_cong [fundef_cong]:
  "m = m' \<Longrightarrow> (\<And>x. m' = Inr x \<Longrightarrow> f x = f' x) \<Longrightarrow> bindR m f = bindR m' f'"
  by (cases m') auto

lemma bindR_eq_Inr:
  "bindR m f = Inr y \<longleftrightarrow> (\<exists>x. m = Inr x \<and> f x = Inr y)"
  by (cases m) auto

lemma bindR_eq_Inl:
  "bindR m f = Inl e \<longleftrightarrow> m = Inl e \<or> (\<exists>x. m = Inr x \<and> f x = Inl e)"
  by (cases m) auto

text \<open>\<^verbatim>\<open>ok_or\<close>, \<^verbatim>\<open>ok\<close> and \<^verbatim>\<open>map_err\<close>.\<close>

definition ok_or :: "'e \<Rightarrow> 'a option \<Rightarrow> 'e + 'a" where
  "ok_or e m = (case m of None \<Rightarrow> Inl e | Some x \<Rightarrow> Inr x)"

lemma ok_or_simps [simp, code]:
  "ok_or e None = Inl e"
  "ok_or e (Some x) = Inr x"
  by (simp_all add: ok_or_def)

lemma ok_or_eq_Inr [simp]: "ok_or e m = Inr x \<longleftrightarrow> m = Some x"
  by (cases m) auto

definition okR :: "'e + 'a \<Rightarrow> 'a option" where
  "okR m = (case m of Inl _ \<Rightarrow> None | Inr x \<Rightarrow> Some x)"

lemma okR_simps [simp, code]:
  "okR (Inl e) = None"
  "okR (Inr x) = Some x"
  by (simp_all add: okR_def)

lemma okR_eq_Some [simp]: "okR m = Some x \<longleftrightarrow> m = Inr x"
  by (cases m) auto

definition map_err :: "('e \<Rightarrow> 'f) \<Rightarrow> 'e + 'a \<Rightarrow> 'f + 'a" where
  "map_err g m = (case m of Inl e \<Rightarrow> Inl (g e) | Inr x \<Rightarrow> Inr x)"

lemma map_err_simps [simp, code]:
  "map_err g (Inl e) = Inl (g e)"
  "map_err g (Inr x) = Inr x"
  by (simp_all add: map_err_def)

lemma map_err_eq_Inr [simp]: "map_err g m = Inr x \<longleftrightarrow> m = Inr x"
  by (cases m) auto

section \<open>Byte literals\<close>

text \<open>\<^verbatim>\<open>b"PACK"\<close> is \<open>lit ''PACK''\<close>; the simplifier turns it into the list of its bytes.\<close>

definition lit :: "string \<Rightarrow> bytes" where
  [simp]: "lit s = map of_char s"

lemma length_lit: "length (lit s) = length s"
  by simp

section \<open>Fixed-width integers\<close>

text \<open>\<^verbatim>\<open>to_le_bytes\<close>, \<^verbatim>\<open>from_le_bytes\<close> and their big-endian twins, for \<open>n\<close> bytes.\<close>

fun le_bytes :: "nat \<Rightarrow> 'a::len word \<Rightarrow> bytes" where
  "le_bytes 0 w = []"
| "le_bytes (Suc n) w = ucast w # le_bytes n (drop_bit 8 w)"

fun from_le :: "bytes \<Rightarrow> 'a::len word" where
  "from_le [] = 0"
| "from_le (b # bs) = ucast b OR push_bit 8 (from_le bs)"

definition be_bytes :: "nat \<Rightarrow> 'a::len word \<Rightarrow> bytes" where
  "be_bytes n w = rev (le_bytes n w)"

definition from_be :: "bytes \<Rightarrow> 'a::len word" where
  "from_be bs = from_le (rev bs)"

lemma length_le_bytes [simp]: "length (le_bytes n w) = n"
  by (induction n arbitrary: w) auto

lemma length_be_bytes [simp]: "length (be_bytes n w) = n"
  by (simp add: be_bytes_def)

lemma from_le_le_bytes: "from_le (le_bytes n w) = take_bit (8 * n) (w :: 'a::len word)"
proof (induction n arbitrary: w)
  case 0
  then show ?case by simp
next
  case (Suc n)
  show ?case
    by (rule bit_word_eqI)
      (auto simp: Suc.IH bit_simps split: if_splits)
qed

lemma from_le_inverse:
  assumes "8 * n = LENGTH('a)"
  shows "from_le (le_bytes n (w :: 'a::len word)) = w"
  using assms by (simp add: from_le_le_bytes)

lemma ucast_or_push: "ucast (ucast (b :: u8) OR push_bit 8 (w :: 'a::len word)) = b"
  if "8 \<le> LENGTH('a)"
  using that by (intro bit_word_eqI) (auto simp: bit_simps)

lemma drop_or_push:
  "drop_bit 8 (ucast (b :: u8) OR push_bit 8 (w :: 'a::len word)) = take_bit (LENGTH('a) - 8) w"
  by (intro bit_word_eqI) (auto simp: bit_simps dest: bit_imp_le_length)

lemma le_bytes_take_bit:
  "8 * n \<le> m \<Longrightarrow> le_bytes n (take_bit m (w :: 'a::len word)) = le_bytes n w"
proof (induction n arbitrary: m w)
  case 0
  then show ?case by simp
next
  case (Suc n)
  have "ucast (take_bit m w) = (ucast w :: u8)"
    using Suc.prems by (intro bit_word_eqI) (auto simp: bit_simps)
  moreover have "drop_bit 8 (take_bit m w) = take_bit (m - 8) (drop_bit 8 w)"
    using Suc.prems by (intro bit_word_eqI) (auto simp: bit_simps)
  ultimately show ?case
    using Suc.prems by (simp add: Suc.IH)
qed

lemma le_bytes_from_le:
  "length xs = n \<Longrightarrow> 8 * n \<le> LENGTH('a) \<Longrightarrow> le_bytes n (from_le xs :: 'a::len word) = xs"
proof (induction n arbitrary: xs)
  case 0
  then show ?case by simp
next
  case (Suc n)
  then obtain b ys where xs: "xs = b # ys" and "length ys = n"
    by (cases xs) auto
  with Suc show ?case
    by (simp add: ucast_or_push drop_or_push le_bytes_take_bit del: drop_bit_or)
qed

lemma from_be_inverse:
  assumes "8 * n = LENGTH('a)"
  shows "from_be (be_bytes n (w :: 'a::len word)) = w"
  using assms by (simp add: from_be_def be_bytes_def from_le_inverse)

lemma from_be_be_bytes: "from_be (be_bytes n w) = take_bit (8 * n) (w :: 'a::len word)"
  by (simp add: from_be_def be_bytes_def from_le_le_bytes)

lemma be_bytes_from_be:
  "length xs = n \<Longrightarrow> 8 * n \<le> LENGTH('a) \<Longrightarrow> be_bytes n (from_be xs :: 'a::len word) = xs"
  by (simp add: from_be_def be_bytes_def le_bytes_from_le)

lemma from_le_u16 [codec_simps]: "from_le (le_bytes 2 (w :: u16)) = w"
  by (rule from_le_inverse) simp

lemma from_le_u32 [codec_simps]: "from_le (le_bytes 4 (w :: u32)) = w"
  by (rule from_le_inverse) simp

lemma from_le_u64 [codec_simps]: "from_le (le_bytes 8 (w :: u64)) = w"
  by (rule from_le_inverse) simp

lemma from_be_u16 [codec_simps]: "from_be (be_bytes 2 (w :: u16)) = w"
  by (rule from_be_inverse) simp

lemma from_be_u32 [codec_simps]: "from_be (be_bytes 4 (w :: u32)) = w"
  by (rule from_be_inverse) simp

lemma from_be_u64 [codec_simps]: "from_be (be_bytes 8 (w :: u64)) = w"
  by (rule from_be_inverse) simp

text \<open>A length cast to \<open>w\<close> bits and read back is the length, when it fits.\<close>

lemma unat_of_nat_u16 [codec_simps]: "n < 65536 \<Longrightarrow> unat (of_nat n :: u16) = n"
  by (simp add: unat_of_nat)

lemma unat_of_nat_u32 [codec_simps]: "n < 4294967296 \<Longrightarrow> unat (of_nat n :: u32) = n"
  by (simp add: unat_of_nat)

lemma unat_of_nat_u64 [codec_simps]: "n < 18446744073709551616 \<Longrightarrow> unat (of_nat n :: u64) = n"
  by (simp add: unat_of_nat)

lemma unat_u8_less: "unat (b :: u8) < 256"
proof -
  have "unat b < 2 ^ LENGTH(8)" by (rule unsigned_less)
  then show ?thesis by simp
qed

lemma unat_u32_less: "unat (w :: u32) < 4294967296"
proof -
  have "unat w < 2 ^ LENGTH(32)" by (rule unsigned_less)
  then show ?thesis by simp
qed

lemma unat_u64_less: "unat (w :: u64) < 18446744073709551616"
proof -
  have "unat w < 2 ^ LENGTH(64)" by (rule unsigned_less)
  then show ?thesis by simp
qed

section \<open>Cursors over a slice\<close>

text \<open>
  \<^verbatim>\<open>data.get(at..at + n)\<close> followed by \<^verbatim>\<open>at += n\<close>: the next \<open>n\<close> bytes and what
  follows them, or \<open>None\<close> when the slice is shorter.
\<close>

definition take_n :: "nat \<Rightarrow> 'a list \<Rightarrow> ('a list \<times> 'a list) option" where
  "take_n n xs = (if n \<le> length xs then Some (take n xs, drop n xs) else None)"

lemma take_n_append [codec_simps]:
  "length xs = n \<Longrightarrow> take_n n (xs @ ys) = Some (xs, ys)"
  by (simp add: take_n_def)

lemma take_n_exact [codec_simps]: "length xs = n \<Longrightarrow> take_n n xs = Some (xs, [])"
  by (simp add: take_n_def)

lemma take_n_eq_Some:
  "take_n n xs = Some (ys, zs) \<longleftrightarrow> xs = ys @ zs \<and> length ys = n"
  by (auto simp: take_n_def)

lemma take_n_consumes [reads]:
  "take_n n xs = Some (ys, zs) \<Longrightarrow> length zs + n = length xs"
  by (auto simp: take_n_eq_Some)

lemma take_n_eq_None: "take_n n xs = None \<longleftrightarrow> length xs < n"
  by (simp add: take_n_def)

text \<open>\<^verbatim>\<open>data.get(at)\<close> followed by \<^verbatim>\<open>at += 1\<close>.\<close>

fun next_byte :: "'a list \<Rightarrow> ('a \<times> 'a list) option" where
  "next_byte [] = None"
| "next_byte (b # xs) = Some (b, xs)"

lemma next_byte_eq_Some: "next_byte xs = Some (b, ys) \<longleftrightarrow> xs = b # ys"
  by (cases xs) auto

lemma next_byte_consumes [reads]:
  "next_byte xs = Some (b, ys) \<Longrightarrow> length ys + 1 = length xs"
  by (auto simp: next_byte_eq_Some)

text \<open>\<^verbatim>\<open>strip_prefix\<close> of slices and of strings.\<close>

fun strip_prefix :: "'a list \<Rightarrow> 'a list \<Rightarrow> 'a list option" where
  "strip_prefix [] xs = Some xs"
| "strip_prefix (p # ps) [] = None"
| "strip_prefix (p # ps) (x # xs) = (if p = x then strip_prefix ps xs else None)"

lemma strip_prefix_eq_Some: "strip_prefix ps xs = Some ys \<longleftrightarrow> xs = ps @ ys"
  by (induction ps xs rule: strip_prefix.induct) auto

lemma strip_prefix_append [simp]: "strip_prefix ps (ps @ ys) = Some ys"
  by (simp add: strip_prefix_eq_Some)

text \<open>
  The byte before which, and after which, a slice is cut at the first occurrence
  of \<open>b\<close>: \<^verbatim>\<open>s.find_byte(b)\<close>, \<^verbatim>\<open>iter().position(..)\<close> or \<^verbatim>\<open>split_once(b)\<close> with the two
  slices \<^verbatim>\<open>&s[..i]\<close> and \<^verbatim>\<open>&s[i + 1..]\<close> the callers take.
\<close>

fun split_first :: "'a \<Rightarrow> 'a list \<Rightarrow> ('a list \<times> 'a list) option" where
  "split_first b [] = None"
| "split_first b (x # xs) =
     (if x = b then Some ([], xs)
      else map_option (\<lambda>(l, r). (x # l, r)) (split_first b xs))"

lemma split_first_append [codec_simps]:
  "b \<notin> set xs \<Longrightarrow> split_first b (xs @ b # ys) = Some (xs, ys)"
  by (induction xs) auto

lemma split_first_eq_Some:
  "split_first b xs = Some (l, r) \<longleftrightarrow> xs = l @ b # r \<and> b \<notin> set l"
proof (induction xs arbitrary: l)
  case Nil
  then show ?case by simp
next
  case (Cons x xs)
  show ?case
    by (cases l) (auto simp: Cons.IH)
qed

lemma split_first_eq_None: "split_first b xs = None \<longleftrightarrow> b \<notin> set xs"
  by (induction xs) auto

lemma split_first_consumes [reads]:
  "split_first b xs = Some (l, r) \<Longrightarrow> length l + length r + 1 = length xs"
  by (auto simp: split_first_eq_Some)

text \<open>\<^verbatim>\<open>s.split(|x| x == b)\<close>: the pieces between the separators, one at least.\<close>

fun split_on :: "'a \<Rightarrow> 'a list \<Rightarrow> 'a list list" where
  "split_on b [] = [[]]"
| "split_on b (x # xs) =
     (if x = b then [] # split_on b xs
      else (case split_on b xs of [] \<Rightarrow> [[x]] | l # ls \<Rightarrow> (x # l) # ls))"

fun join_with :: "'a list \<Rightarrow> 'a list list \<Rightarrow> 'a list" where
  "join_with s [] = []"
| "join_with s [l] = l"
| "join_with s (l # ls) = l @ s @ join_with s ls"

lemma split_on_not_Nil [simp]: "split_on b xs \<noteq> []"
  by (induction xs) (auto split: list.splits)

lemma join_with_Cons: "ls \<noteq> [] \<Longrightarrow> join_with s (l # ls) = l @ s @ join_with s ls"
  by (cases ls) auto

lemma join_with_first: "join_with s ((x # l) # ls) = x # join_with s (l # ls)"
  by (cases ls) auto

lemma join_split_on: "join_with [b] (split_on b xs) = xs"
proof (induction xs)
  case Nil
  then show ?case by simp
next
  case (Cons x xs)
  obtain l ls where "split_on b xs = l # ls"
    by (meson neq_Nil_conv split_on_not_Nil)
  with Cons show ?case
    by (simp add: join_with_Cons join_with_first)
qed

lemma split_on_pieces: "l \<in> set (split_on b xs) \<Longrightarrow> b \<notin> set l"
  by (induction xs arbitrary: l) (auto split: list.splits if_splits)

lemma split_on_no_sep: "b \<notin> set l \<Longrightarrow> split_on b l = [l]"
  by (induction l) auto

lemma split_on_append:
  "b \<notin> set l \<Longrightarrow> split_on b (l @ b # xs) = l # split_on b xs"
  by (induction l) auto

lemma split_on_join:
  "ls \<noteq> [] \<Longrightarrow> (\<forall>l \<in> set ls. b \<notin> set l) \<Longrightarrow> split_on b (join_with [b] ls) = ls"
proof (induction ls)
  case Nil
  then show ?case by simp
next
  case (Cons l ls)
  then show ?case
    by (cases "ls = []") (auto simp: join_with_Cons split_on_append split_on_no_sep)
qed

section \<open>Repeated decoding\<close>

text \<open>
  \<^verbatim>\<open>for _ in 0..count { items.push(parse(..)?) }\<close>: \<open>n\<close> items, one after the other.
\<close>

fun repeat_parse :: "('s \<Rightarrow> 'e + ('a \<times> 's)) \<Rightarrow> nat \<Rightarrow> 's \<Rightarrow> 'e + ('a list \<times> 's)" where
  "repeat_parse p 0 s = Inr ([], s)"
| "repeat_parse p (Suc n) s =
     bindR (p s) (\<lambda>(x, s'). bindR (repeat_parse p n s') (\<lambda>(xs, s''). Inr (x # xs, s'')))"

text \<open>
  The contract between an encoder and the decoder that reads its output from the
  front of a longer slice.  Every codec below that is read item by item gives an
  instance, and gets the round trip of a sequence of items from it.
\<close>

locale prefix_codec =
  fixes enc :: "'a \<Rightarrow> bytes"
    and dec :: "bytes \<Rightarrow> 'e + ('a \<times> bytes)"
    and valid :: "'a \<Rightarrow> bool"
  assumes dec_enc: "valid x \<Longrightarrow> dec (enc x @ rest) = Inr (x, rest)"
begin

lemma repeat_dec_enc:
  "(\<forall>x \<in> set xs. valid x) \<Longrightarrow>
   repeat_parse dec (length xs) (concat (map enc xs) @ rest) = Inr (xs, rest)"
  by (induction xs) (auto simp: dec_enc)

lemma enc_prefix_free:
  assumes "valid x" and "valid y" and "enc x @ r = enc y @ s"
  shows "x = y \<and> r = s"
proof -
  have "dec (enc x @ r) = Inr (x, r)" and "dec (enc y @ s) = Inr (y, s)"
    using assms(1,2) by (simp_all add: dec_enc)
  then have "(Inr (x, r) :: 'e + ('a \<times> bytes)) = Inr (y, s)"
    by (simp only: assms(3))
  then show ?thesis by simp
qed

lemma enc_inj:
  assumes "valid x" and "valid y" and "enc x = enc y"
  shows "x = y"
  using enc_prefix_free [OF assms(1,2), of "[]" "[]"] assms(3) by simp

lemma concat_enc_inj:
  assumes "\<forall>x \<in> set xs. valid x" and "\<forall>y \<in> set ys. valid y" and "length xs = length ys"
    and "concat (map enc xs) = concat (map enc ys)"
  shows "xs = ys"
proof -
  have "repeat_parse dec (length xs) (concat (map enc xs)) = Inr (xs, [])"
    using repeat_dec_enc [OF assms(1), of "[]"] by simp
  moreover have "repeat_parse dec (length ys) (concat (map enc ys)) = Inr (ys, [])"
    using repeat_dec_enc [OF assms(2), of "[]"] by simp
  ultimately have "(Inr (xs, []) :: 'e + ('a list \<times> bytes)) = Inr (ys, [])"
    by (simp only: assms(3,4))
  then show ?thesis by simp
qed

end

text \<open>
  A codec whose decoder accepts nothing but encodings: what it has read is the encoding of
  what it returns.
\<close>

locale canonical_codec = prefix_codec enc dec valid
  for enc :: "'a \<Rightarrow> bytes" and dec :: "bytes \<Rightarrow> 'e + ('a \<times> bytes)" and valid :: "'a \<Rightarrow> bool" +
  assumes dec_canonical: "dec xs = Inr (x, r) \<Longrightarrow> xs = enc x @ r \<and> valid x"
begin

lemma repeat_dec_canonical:
  "repeat_parse dec n s = Inr (xs, r) \<Longrightarrow>
   s = concat (map enc xs) @ r \<and> length xs = n \<and> (\<forall>x \<in> set xs. valid x)"
proof (induction n arbitrary: s xs)
  case 0
  then show ?case by simp
next
  case (Suc n)
  then obtain x s' ys where "dec s = Inr (x, s')" "repeat_parse dec n s' = Inr (ys, r)" "xs = x # ys"
    by (auto simp: bindR_eq_Inr)
  with Suc.IH [of s' ys] dec_canonical [of s x s'] show ?case by simp
qed

end

text \<open>Fixed-width integers are the first such codec.\<close>

definition read_le :: "nat \<Rightarrow> 'e \<Rightarrow> bytes \<Rightarrow> 'e + ('a::len word \<times> bytes)" where
  "read_le n e xs = bindR (ok_or e (take_n n xs)) (\<lambda>(l, r). Inr (from_le l, r))"

lemma read_le_append [codec_simps]:
  "8 * n = LENGTH('a) \<Longrightarrow> read_le n e (le_bytes n (w :: 'a::len word) @ rest) = Inr (w, rest)"
  by (simp add: read_le_def take_n_append from_le_inverse)

lemma read_le_canonical:
  "8 * n \<le> LENGTH('a) \<Longrightarrow> read_le n e xs = Inr (w :: 'a::len word, r) \<Longrightarrow> xs = le_bytes n w @ r"
  by (auto simp: read_le_def bindR_eq_Inr take_n_eq_Some le_bytes_from_le)

interpretation le16: canonical_codec "le_bytes 2 :: u16 \<Rightarrow> bytes" "read_le 2 e" "\<lambda>_. True"
  by unfold_locales (simp_all add: read_le_append read_le_canonical)

interpretation le32: canonical_codec "le_bytes 4 :: u32 \<Rightarrow> bytes" "read_le 4 e" "\<lambda>_. True"
  by unfold_locales (simp_all add: read_le_append read_le_canonical)

interpretation le64: canonical_codec "le_bytes 8 :: u64 \<Rightarrow> bytes" "read_le 8 e" "\<lambda>_. True"
  by unfold_locales (simp_all add: read_le_append read_le_canonical)

end
