(* ===== verification/Rust_Str.thy ===== *)
theory Rust_Str
  imports Prelude
begin

text \<open>
  The operations of Rust's \<^verbatim>\<open>str\<close> and integer parsing that the program calls, on
  byte lists: UTF-8 validation (\<^verbatim>\<open>str::from_utf8\<close>), \<^verbatim>\<open>trim\<close>,
  \<^verbatim>\<open>split_whitespace\<close>, \<^verbatim>\<open>parse::<uN>\<close>, \<^verbatim>\<open>parse::<i64>\<close> and \<^verbatim>\<open>to_string\<close> of an
  unsigned integer.  White space is the Unicode \<^verbatim>\<open>White_Space\<close> property, which
  \<^verbatim>\<open>char::is_whitespace\<close> tests.
\<close>

section \<open>UTF-8\<close>

definition is_cont :: "u8 \<Rightarrow> bool" where
  "is_cont b \<longleftrightarrow> 0x80 \<le> b \<and> b \<le> 0xBF"

text \<open>
  The width a leading byte announces (0 for a byte that cannot lead), the range of
  the second byte, and the length of the well-formed character at the front.
\<close>

definition utf8_width :: "u8 \<Rightarrow> nat" where
  "utf8_width b0 =
     (if b0 \<le> 0x7F then 1
      else if 0xC2 \<le> b0 \<and> b0 \<le> 0xDF then 2
      else if 0xE0 \<le> b0 \<and> b0 \<le> 0xEF then 3
      else if 0xF0 \<le> b0 \<and> b0 \<le> 0xF4 then 4
      else 0)"

definition utf8_second :: "u8 \<Rightarrow> u8 \<Rightarrow> bool" where
  "utf8_second b0 b1 \<longleftrightarrow>
     (if b0 = 0xE0 then 0xA0 \<le> b1 \<and> b1 \<le> 0xBF
      else if b0 = 0xED then 0x80 \<le> b1 \<and> b1 \<le> 0x9F
      else if b0 = 0xF0 then 0x90 \<le> b1 \<and> b1 \<le> 0xBF
      else if b0 = 0xF4 then 0x80 \<le> b1 \<and> b1 \<le> 0x8F
      else is_cont b1)"

fun utf8_char :: "bytes \<Rightarrow> nat option" where
  "utf8_char [] = None"
| "utf8_char (b0 # r) =
     (let n = utf8_width b0
      in if n = 0 \<or> length r + 1 < n then None
      else if (2 \<le> n \<longrightarrow> utf8_second b0 (r ! 0)) \<and> (3 \<le> n \<longrightarrow> is_cont (r ! 1))
            \<and> (4 \<le> n \<longrightarrow> is_cont (r ! 2)) then Some n
      else None)"

lemma utf8_char_bounds:
  "utf8_char xs = Some n \<Longrightarrow> 0 < n \<and> n \<le> length xs"
  by (cases xs) (auto simp: Let_def split: if_splits)

lemma utf8_char_append:
  "utf8_char xs = Some n \<Longrightarrow> utf8_char (xs @ ys) = Some n"
  by (cases xs) (auto simp: Let_def nth_append split: if_splits)

function utf8 :: "bytes \<Rightarrow> bool" where
  "utf8 xs =
     (if xs = [] then True
      else case utf8_char xs of None \<Rightarrow> False | Some n \<Rightarrow> utf8 (drop n xs))"
  by pat_completeness auto
termination
  by (relation "measure length") (auto dest: utf8_char_bounds)

declare utf8.simps [simp del]

lemma utf8_Nil [simp]: "utf8 []"
  by (subst utf8.simps) simp

lemma utf8_append:
  "utf8 xs \<Longrightarrow> utf8 (xs @ ys) = utf8 ys"
proof (induction xs rule: utf8.induct)
  case (1 xs)
  show ?case
  proof (cases "xs = []")
    case True
    then show ?thesis by simp
  next
    case False
    with "1.prems" obtain n where n: "utf8_char xs = Some n" and rest: "utf8 (drop n xs)"
      by (subst (asm) utf8.simps) (auto split: option.splits)
    from n have "n \<le> length xs" and app: "utf8_char (xs @ ys) = Some n"
      by (auto dest: utf8_char_bounds utf8_char_append)
    moreover have "utf8 (drop n xs @ ys) = utf8 ys"
      using "1.IH" [OF False n rest] .
    ultimately show ?thesis
      using False by (subst utf8.simps) simp
  qed
qed

lemma utf8_ascii_Cons: "b \<le> 0x7F \<Longrightarrow> utf8 (b # xs) = utf8 xs"
  by (subst utf8.simps) (simp add: utf8_width_def)

lemma utf8_ascii: "\<forall>b \<in> set xs. b \<le> 0x7F \<Longrightarrow> utf8 xs"
  by (induction xs) (simp_all add: utf8_ascii_Cons)

text \<open>
  \<^verbatim>\<open>String::from_utf8_lossy\<close>: every maximal prefix of a broken sequence becomes one
  replacement character.
\<close>

definition utf8_bad_len :: "bytes \<Rightarrow> nat" where
  "utf8_bad_len xs =
     (let n = utf8_width (hd xs); r = tl xs
      in if n \<le> 1 \<or> r = [] \<or> \<not> utf8_second (hd xs) (r ! 0) then 1
         else if length r < 2 \<or> \<not> is_cont (r ! 1) then 2 else 3)"

function utf8_lossy :: "bytes \<Rightarrow> bytes" where
  "utf8_lossy xs =
     (if xs = [] then []
      else case utf8_char xs of
             Some n \<Rightarrow> take n xs @ utf8_lossy (drop n xs)
           | None \<Rightarrow> [0xEF, 0xBF, 0xBD] @ utf8_lossy (drop (utf8_bad_len xs) xs))"
  by pat_completeness auto
termination
  by (relation "measure length") (auto dest: utf8_char_bounds simp: utf8_bad_len_def Let_def)

declare utf8_lossy.simps [simp del]

lemma utf8_lossy_id: "utf8 xs \<Longrightarrow> utf8_lossy xs = xs"
proof (induction xs rule: utf8.induct)
  case (1 xs)
  show ?case
  proof (cases "xs = []")
    case False
    with "1.prems" obtain n where n: "utf8_char xs = Some n" "utf8 (drop n xs)"
      by (subst (asm) utf8.simps) (auto split: option.splits)
    with False "1.IH" show ?thesis
      by (subst utf8_lossy.simps) simp
  qed (simp add: utf8_lossy.simps)
qed

section \<open>White space\<close>

text \<open>The length of the white-space character at the front; 0 when there is none.\<close>

definition ascii_ws :: "u8 \<Rightarrow> bool" where
  "ascii_ws b \<longleftrightarrow> 0x09 \<le> b \<and> b \<le> 0x0D \<or> b = 0x20"

definition ws2 :: "u8 \<Rightarrow> u8 \<Rightarrow> bool" where
  "ws2 b0 b1 \<longleftrightarrow> b0 = 0xC2 \<and> (b1 = 0x85 \<or> b1 = 0xA0)"

definition ws3 :: "u8 \<Rightarrow> u8 \<Rightarrow> u8 \<Rightarrow> bool" where
  "ws3 b0 b1 b2 \<longleftrightarrow>
     b0 = 0xE1 \<and> b1 = 0x9A \<and> b2 = 0x80
   \<or> b0 = 0xE2 \<and> b1 = 0x80 \<and>
       (0x80 \<le> b2 \<and> b2 \<le> 0x8A \<or> b2 = 0xA8 \<or> b2 = 0xA9 \<or> b2 = 0xAF)
   \<or> b0 = 0xE2 \<and> b1 = 0x81 \<and> b2 = 0x9F
   \<or> b0 = 0xE3 \<and> b1 = 0x80 \<and> b2 = 0x80"

fun ws_char :: "bytes \<Rightarrow> nat" where
  "ws_char [] = 0"
| "ws_char (b0 # r) =
     (if ascii_ws b0 then 1
      else case r of [] \<Rightarrow> 0
           | b1 # r' \<Rightarrow> if ws2 b0 b1 then 2
                       else case r' of [] \<Rightarrow> 0 | b2 # _ \<Rightarrow> if ws3 b0 b1 b2 then 3 else 0)"

text \<open>The same for a reversed string, whose last character comes first.\<close>

fun ws_char_rev :: "bytes \<Rightarrow> nat" where
  "ws_char_rev [] = 0"
| "ws_char_rev (b0 # r) =
     (if ascii_ws b0 then 1
      else case r of [] \<Rightarrow> 0
           | b1 # r' \<Rightarrow> if ws2 b1 b0 then 2
                       else case r' of [] \<Rightarrow> 0 | b2 # _ \<Rightarrow> if ws3 b2 b1 b0 then 3 else 0)"

lemma ws_char_le: "ws_char xs \<le> length xs"
  by (cases xs) (auto split: list.splits)

lemma ws_char_rev_le: "ws_char_rev xs \<le> length xs"
  by (cases xs) (auto split: list.splits)

function trim_start :: "bytes \<Rightarrow> bytes" where
  "trim_start xs = (if ws_char xs = 0 then xs else trim_start (drop (ws_char xs) xs))"
  by pat_completeness auto
termination
proof (relation "measure length")
  fix xs :: bytes
  assume "ws_char xs \<noteq> 0"
  then show "(drop (ws_char xs) xs, xs) \<in> measure length"
    by (cases xs) auto
qed simp

function trim_start_rev :: "bytes \<Rightarrow> bytes" where
  "trim_start_rev xs =
     (if ws_char_rev xs = 0 then xs else trim_start_rev (drop (ws_char_rev xs) xs))"
  by pat_completeness auto
termination
proof (relation "measure length")
  fix xs :: bytes
  assume "ws_char_rev xs \<noteq> 0"
  then show "(drop (ws_char_rev xs) xs, xs) \<in> measure length"
    by (cases xs) auto
qed simp

declare trim_start.simps [simp del] trim_start_rev.simps [simp del]

definition trim :: "bytes \<Rightarrow> bytes" where
  "trim xs = rev (trim_start_rev (rev (trim_start xs)))"

text \<open>A string that neither begins nor ends with white space is its own \<^verbatim>\<open>trim\<close>.\<close>

lemma trim_id: "ws_char xs = 0 \<Longrightarrow> ws_char_rev (rev xs) = 0 \<Longrightarrow> trim xs = xs"
  by (simp add: trim_def trim_start.simps trim_start_rev.simps)

lemma ws_char_nonzero: "ws_char xs \<noteq> 0 \<Longrightarrow> xs \<noteq> []"
  by auto

text \<open>\<^verbatim>\<open>split_whitespace\<close>: the maximal runs of other characters.\<close>

function split_ws_from :: "bytes \<Rightarrow> bytes \<Rightarrow> bytes list" where
  "split_ws_from cur xs =
     (if xs = [] then (if cur = [] then [] else [cur])
      else if ws_char xs \<noteq> 0 then
        (if cur = [] then [] else [cur]) @ split_ws_from [] (drop (ws_char xs) xs)
      else split_ws_from (cur @ [hd xs]) (tl xs))"
  by pat_completeness auto
termination
  by (relation "measure (\<lambda>(cur, xs). length xs)") (auto dest: ws_char_nonzero)

declare split_ws_from.simps [simp del]

definition split_whitespace :: "bytes \<Rightarrow> bytes list" where
  "split_whitespace xs = split_ws_from [] xs"

text \<open>No suffix of a word begins with white space.\<close>

fun ws_free :: "bytes \<Rightarrow> bool" where
  "ws_free [] = True"
| "ws_free (b # xs) = (ws_char (b # xs) = 0 \<and> ws_free xs)"

lemma ws_char_space: "xs \<noteq> [] \<Longrightarrow> ws_char (xs @ 0x20 # ys) = ws_char xs"
  by (cases xs) (auto simp: ws2_def ws3_def split: list.splits)

lemma split_ws_word:
  "ws_free w \<Longrightarrow> split_ws_from cur w = (if cur @ w = [] then [] else [cur @ w])"
proof (induction w arbitrary: cur)
  case Nil
  then show ?case by (subst split_ws_from.simps) simp
next
  case (Cons b w)
  then show ?case by (subst split_ws_from.simps) simp
qed

lemma split_ws_word_space:
  "ws_free w \<Longrightarrow> cur @ w \<noteq> [] \<Longrightarrow>
   split_ws_from cur (w @ 0x20 # xs) = (cur @ w) # split_ws_from [] xs"
proof (induction w arbitrary: cur)
  case Nil
  then show ?case by (subst split_ws_from.simps) (simp add: ascii_ws_def)
next
  case (Cons b w)
  have "ws_char ((b # w) @ 0x20 # xs) = 0"
    using Cons.prems(1) by (subst ws_char_space) auto
  with Cons show ?case by (subst split_ws_from.simps) simp
qed

lemma split_whitespace_join:
  "(\<forall>w \<in> set ws. w \<noteq> [] \<and> ws_free w) \<Longrightarrow> split_whitespace (join_with [0x20] ws) = ws"
  unfolding split_whitespace_def
proof (induction ws)
  case Nil
  then show ?case by (subst split_ws_from.simps) simp
next
  case (Cons w ws)
  then show ?case
    by (cases "ws = []") (simp_all add: split_ws_word join_with_Cons split_ws_word_space)
qed

lemma graphic_not_ws:
  assumes "0x21 \<le> b" and "b \<le> 0x7F"
  shows "\<not> ascii_ws b" "\<not> ws2 b x" "\<not> ws2 x b" "\<not> ws3 b x y" "\<not> ws3 x y b"
proof -
  have n: "33 \<le> unat b" "unat b \<le> 127"
    using assms by (simp_all add: word_le_nat_alt)
  then show "\<not> ascii_ws b" "\<not> ws2 b x" "\<not> ws2 x b" "\<not> ws3 b x y"
    by (auto simp: ascii_ws_def ws2_def ws3_def word_le_nat_alt)
  from n show "\<not> ws3 x y b"
    by (auto simp: ws3_def word_le_nat_alt)
qed

lemma ws_free_graphic: "\<forall>b \<in> set xs. 0x21 \<le> b \<and> b \<le> 0x7F \<Longrightarrow> ws_free xs"
  by (induction xs) (auto simp: graphic_not_ws split: list.splits)

lemma ws_char_rev_graphic: "\<forall>b \<in> set xs. 0x21 \<le> b \<and> b \<le> 0x7F \<Longrightarrow> ws_char_rev xs = 0"
  by (cases xs) (auto simp: graphic_not_ws split: list.splits)

lemma trim_graphic: "\<forall>b \<in> set xs. 0x21 \<le> b \<and> b \<le> 0x7F \<Longrightarrow> trim xs = xs"
  using ws_free_graphic [of xs]
  by (intro trim_id) (cases xs; auto intro!: ws_char_rev_graphic)+

section \<open>Case\<close>

text \<open>\<^verbatim>\<open>u8::to_ascii_lowercase\<close>\<close>

definition ascii_lower :: "u8 \<Rightarrow> u8" where
  "ascii_lower b = (if 0x41 \<le> b \<and> b \<le> 0x5A then b + 0x20 else b)"

section \<open>Decimal numbers\<close>

text \<open>The digits of a number that fits; \<open>None\<close> on another byte or on overflow.\<close>

fun digits_value :: "nat \<Rightarrow> nat \<Rightarrow> bytes \<Rightarrow> nat option" where
  "digits_value limit acc [] = Some acc"
| "digits_value limit acc (b # xs) =
     (if 0x30 \<le> b \<and> b \<le> 0x39 then
        (let v = acc * 10 + unat (b - 0x30)
         in if v \<le> limit then digits_value limit v xs else None)
      else None)"

text \<open>\<^verbatim>\<open>parse::<uN>\<close>: an optional \<^verbatim>\<open>+\<close>, then at least one digit.\<close>

definition parse_uint :: "nat \<Rightarrow> bytes \<Rightarrow> nat option" where
  "parse_uint limit xs =
     (case xs of
        [] \<Rightarrow> None
      | b # r \<Rightarrow>
          if b = 0x2B then (if r = [] then None else digits_value limit 0 r)
          else digits_value limit 0 xs)"

text \<open>\<^verbatim>\<open>parse::<i64>\<close>: an optional sign, the bound one larger below zero.\<close>

definition parse_i64 :: "bytes \<Rightarrow> int option" where
  "parse_i64 xs =
     (case xs of
        [] \<Rightarrow> None
      | b # r \<Rightarrow>
          if b = 0x2B then
            (if r = [] then None else map_option int (digits_value (2 ^ 63 - 1) 0 r))
          else if b = 0x2D then
            (if r = [] then None else map_option (\<lambda>n. - int n) (digits_value (2 ^ 63) 0 r))
          else map_option int (digits_value (2 ^ 63 - 1) 0 xs))"

text \<open>\<^verbatim>\<open>n.to_string()\<close>.\<close>

fun to_decimal :: "nat \<Rightarrow> bytes" where
  "to_decimal n =
     (if n < 10 then [of_nat (48 + n)] else to_decimal (n div 10) @ [of_nat (48 + n mod 10)])"

declare to_decimal.simps [simp del]

definition digit :: "u8 \<Rightarrow> bool" where
  "digit b \<longleftrightarrow> 0x30 \<le> b \<and> b \<le> 0x39"

lemma unat_digit: "d < 10 \<Longrightarrow> unat ((of_nat (48 + d) :: u8) - 0x30) = d"
  by (simp add: unat_of_nat)

lemma digit_of_nat: "d < 10 \<Longrightarrow> digit (of_nat (48 + d))"
  by (simp add: digit_def word_le_nat_alt unat_of_nat del: of_nat_add)

lemma to_decimal_digits: "b \<in> set (to_decimal n) \<Longrightarrow> digit b"
proof (induction n rule: to_decimal.induct)
  case (1 n)
  then show ?case
    by (subst (asm) to_decimal.simps) (auto simp: digit_of_nat split: if_splits simp del: of_nat_add)
qed

lemma to_decimal_not_Nil [simp]: "to_decimal n \<noteq> []"
  by (subst to_decimal.simps) simp

lemma digits_value_append:
  "digits_value limit acc (xs @ ys) =
     (case digits_value limit acc xs of None \<Rightarrow> None | Some v \<Rightarrow> digits_value limit v ys)"
  by (induction limit acc xs rule: digits_value.induct) (auto simp: Let_def)

lemma digits_value_to_decimal:
  "n \<le> limit \<Longrightarrow> digits_value limit 0 (to_decimal n) = Some n"
proof (induction n rule: to_decimal.induct)
  case (1 n)
  show ?case
  proof (cases "n < 10")
    case True
    have "digit (of_nat (48 + n))" and "unat ((of_nat (48 + n) :: u8) - 0x30) = n"
      using True by (rule digit_of_nat, intro unat_digit True)
    then show ?thesis
      using True "1.prems" by (subst to_decimal.simps) (simp add: digit_def Let_def del: of_nat_add)
  next
    case False
    let ?d = "n mod 10"
    have "digit (of_nat (48 + ?d))" and "unat ((of_nat (48 + ?d) :: u8) - 0x30) = ?d"
      by (rule digit_of_nat, simp) (rule unat_digit, simp)
    moreover have "digits_value limit 0 (to_decimal (n div 10)) = Some (n div 10)"
      using False "1.prems" by (intro "1.IH") auto
    ultimately show ?thesis
      using False "1.prems"
      by (subst to_decimal.simps) (simp add: digits_value_append digit_def Let_def del: of_nat_add)
  qed
qed

lemma parse_uint_to_decimal [codec_simps]:
  assumes "n \<le> limit"
  shows "parse_uint limit (to_decimal n) = Some n"
proof (cases "to_decimal n")
  case Nil
  then show ?thesis by simp
next
  case (Cons b r)
  then have "digit b"
    by (intro to_decimal_digits [of b n]) simp
  then have "b \<noteq> 0x2B"
    by (auto simp: digit_def)
  with Cons digits_value_to_decimal [OF assms] show ?thesis
    by (simp add: parse_uint_def)
qed

lemma utf8_to_decimal: "utf8 (to_decimal n)"
  by (rule utf8_ascii) (auto dest!: to_decimal_digits simp: digit_def word_le_nat_alt)

lemma digits_value_limit: "acc \<le> limit \<Longrightarrow> digits_value limit acc xs = Some v \<Longrightarrow> v \<le> limit"
  by (induction limit acc xs rule: digits_value.induct) (auto simp: Let_def split: if_splits)

lemma parse_uint_limit: "parse_uint limit xs = Some v \<Longrightarrow> v \<le> limit"
  by (auto simp: parse_uint_def simp del: digits_value.simps split: list.splits if_splits
      dest: digits_value_limit [rotated])

section \<open>Trailing line ends\<close>

text \<open>
  \<^verbatim>\<open>trim_newline\<close>, of which every module of \<^verbatim>\<open>alt-wire\<close> has its own copy: the
  trailing \<^verbatim>\<open>\n\<close> and \<^verbatim>\<open>\r\<close> bytes are dropped.
\<close>

definition is_eol :: "u8 \<Rightarrow> bool" where
  [simp]: "is_eol b \<longleftrightarrow> b = 0x0A \<or> b = 0x0D"

definition trim_newline :: "bytes \<Rightarrow> bytes" where
  "trim_newline xs = rev (dropWhile is_eol (rev xs))"

lemma trim_newline_snoc [simp]: "trim_newline (xs @ [0x0A]) = trim_newline xs"
  by (simp add: trim_newline_def)

lemma trim_newline_id: "xs = [] \<or> \<not> is_eol (last xs) \<Longrightarrow> trim_newline xs = xs"
  by (cases xs rule: rev_cases) (auto simp: trim_newline_def)

lemma trim_newline_append:
  "ys \<noteq> [] \<Longrightarrow> \<not> is_eol (last ys) \<Longrightarrow> trim_newline (xs @ ys) = xs @ ys"
  by (rule trim_newline_id) simp

end
