(* ===== verification/Btree_Map.thy ===== *)
theory Btree_Map
  imports Prelude
begin

text \<open>
  Rust's \<^verbatim>\<open>BTreeMap\<close> and \<^verbatim>\<open>BTreeSet\<close> as association lists with strictly ascending keys,
  which is also the order their iterators yield.  Two such maps with the same lookups are
  the same list, so that derived equality is equality of lists.
\<close>

type_synonym ('k, 'v) btree = "('k \<times> 'v) list"

definition bt_ok :: "('k::linorder, 'v) btree \<Rightarrow> bool" where
  "bt_ok m \<longleftrightarrow> sorted_wrt (<) (map fst m)"

fun bt_insert :: "'k::linorder \<Rightarrow> 'v \<Rightarrow> ('k, 'v) btree \<Rightarrow> ('k, 'v) btree" where
  "bt_insert k v [] = [(k, v)]"
| "bt_insert k v ((k', v') # m) =
     (if k < k' then (k, v) # (k', v') # m
      else if k = k' then (k, v) # m
      else (k', v') # bt_insert k v m)"

definition bt_remove :: "'k::linorder \<Rightarrow> ('k, 'v) btree \<Rightarrow> ('k, 'v) btree" where
  "bt_remove k m = filter (\<lambda>(k', _). k' \<noteq> k) m"

abbreviation bt_get :: "('k, 'v) btree \<Rightarrow> 'k \<Rightarrow> 'v option" where
  "bt_get \<equiv> map_of"

text \<open>\<^verbatim>\<open>collect()\<close> into a map: later pairs win.\<close>

definition bt_of_list :: "('k::linorder \<times> 'v) list \<Rightarrow> ('k, 'v) btree" where
  "bt_of_list kvs = fold (\<lambda>(k, v). bt_insert k v) kvs []"

lemma bt_ok_simps [simp]:
  "bt_ok []"
  "bt_ok ((k, v) # m) \<longleftrightarrow> (\<forall>k' \<in> fst ` set m. k < k') \<and> bt_ok m"
  by (simp_all add: bt_ok_def)

lemma fst_set_bt_insert: "fst ` set (bt_insert k v m) = insert k (fst ` set m)"
  by (induction k v m rule: bt_insert.induct) auto

lemma bt_ok_insert [simp]: "bt_ok m \<Longrightarrow> bt_ok (bt_insert k v m)"
  by (induction k v m rule: bt_insert.induct) (auto simp: fst_set_bt_insert)

lemma map_of_not_mem: "k \<notin> fst ` set m \<Longrightarrow> map_of m k = None"
  by (simp add: map_of_eq_None_iff)

lemma bt_get_insert [simp]: "bt_ok m \<Longrightarrow> bt_get (bt_insert k v m) = (bt_get m)(k \<mapsto> v)"
proof (induction k v m rule: bt_insert.induct)
  case (1 k v)
  then show ?case by simp
next
  case (2 k v k' v' m)
  then show ?case by (auto simp: fun_eq_iff)
qed

lemma bt_ok_filter: "bt_ok m \<Longrightarrow> bt_ok (filter p m)"
  by (induction m) auto

lemma bt_ok_remove [simp]: "bt_ok m \<Longrightarrow> bt_ok (bt_remove k m)"
  by (simp add: bt_remove_def bt_ok_filter)

lemma bt_get_remove [simp]: "bt_get (bt_remove k m) = (bt_get m)(k := None)"
  unfolding bt_remove_def by (induction m) (auto simp: fun_eq_iff)

lemma bt_ok_distinct: "bt_ok m \<Longrightarrow> distinct (map fst m)"
  by (simp add: bt_ok_def strict_sorted_iff)

lemma bt_head_least: "bt_ok ((k, v) # m) \<Longrightarrow> bt_get ((k, v) # m) k' \<noteq> None \<Longrightarrow> k \<le> k'"
proof (cases "k' = k")
  case False
  assume "bt_ok ((k, v) # m)" and "bt_get ((k, v) # m) k' \<noteq> None"
  with False have "k' \<in> fst ` set m" and "\<forall>x \<in> fst ` set m. k < x"
    by (auto simp: map_of_eq_None_iff split: if_splits)
  then show ?thesis by (force intro: less_imp_le)
qed simp

lemma bt_eqI:
  "bt_ok m \<Longrightarrow> bt_ok m' \<Longrightarrow> bt_get m = bt_get m' \<Longrightarrow> m = m'"
proof (induction m arbitrary: m')
  case Nil
  then show ?case by (cases m') (auto simp: fun_eq_iff split: if_splits)
next
  case (Cons p m)
  obtain k v where p: "p = (k, v)" by fastforce
  have "bt_get m' k \<noteq> None"
    using fun_cong [OF Cons.prems(3), of k] unfolding p by (metis map_of_Cons_code(2) option.distinct(1))
  then obtain k' v' n where m': "m' = (k', v') # n"
    by (cases m') auto
  have "k = k'"
  proof (rule antisym)
    have "bt_get (p # m) k' \<noteq> None"
      using fun_cong [OF Cons.prems(3), of k'] by (simp add: m')
    with Cons.prems(1) show "k \<le> k'"
      unfolding p by (rule bt_head_least)
    show "k' \<le> k"
      using Cons.prems(2) \<open>bt_get m' k \<noteq> None\<close> unfolding m' by (rule bt_head_least)
  qed
  moreover have "v = v'"
    using fun_cong [OF Cons.prems(3), of k] calculation by (simp add: p m')
  moreover have "bt_get m = bt_get n"
  proof
    fix x
    have "bt_get m k = None" "bt_get n k' = None"
      using Cons.prems(1,2) by (auto simp: p m' map_of_eq_None_iff)
    then show "bt_get m x = bt_get n x"
      using fun_cong [OF Cons.prems(3), of x] \<open>k = k'\<close> by (cases "x = k") (auto simp: p m')
  qed
  ultimately show ?case
    using Cons.IH [of n] Cons.prems by (simp add: p m')
qed

lemma bt_ok_fold: "bt_ok m \<Longrightarrow> bt_ok (fold (\<lambda>(k, v). bt_insert k v) kvs m)"
  by (induction kvs arbitrary: m) auto

lemma bt_ok_of_list [simp]: "bt_ok (bt_of_list kvs)"
  by (simp add: bt_of_list_def bt_ok_fold)

lemma bt_get_fold:
  "bt_ok m \<Longrightarrow> bt_get (fold (\<lambda>(k, v). bt_insert k v) kvs m) = bt_get m ++ map_of (rev kvs)"
  by (induction kvs arbitrary: m) (auto simp: map_add_def fun_eq_iff split: option.splits)

lemma bt_get_of_list: "bt_get (bt_of_list kvs) = map_of (rev kvs)"
  by (simp add: bt_of_list_def bt_get_fold)

lemma distinct_map_of_rev: "distinct (map fst m) \<Longrightarrow> map_of (rev m) = map_of m"
  using map_of_inject_set [of "rev m" m] by (simp flip: rev_map)

lemma bt_insert_last:
  "\<forall>k' \<in> fst ` set m. k' < k \<Longrightarrow> bt_insert k v m = m @ [(k, v)]"
  by (induction m) auto

text \<open>Inserting the pairs of a map in order rebuilds it.\<close>

lemma bt_of_list_id:
  assumes "bt_ok m"
  shows "bt_of_list m = m"
proof (rule bt_eqI [OF bt_ok_of_list assms])
  have "map_of (rev m) = map_of m"
    using bt_ok_distinct [OF assms] by (simp add: distinct_map_of_rev)
  then show "bt_get (bt_of_list m) = bt_get m"
    by (simp add: bt_get_of_list)
qed

end
