(* ===== verification/Git_Object.thy ===== *)
theory Git_Object
  imports Rust_Str
begin

text \<open>
  \<^verbatim>\<open>alt-git-codec\<close>: object kinds (\<^verbatim>\<open>kind.rs\<close>), object ids and their hex form
  (\<^verbatim>\<open>oid.rs\<close>), the header block that commits and tags share (\<^verbatim>\<open>headers.rs\<close>), and
  the accessors of \<^verbatim>\<open>Commit\<close> and \<^verbatim>\<open>Tag\<close> (\<^verbatim>\<open>commit.rs\<close>, \<^verbatim>\<open>tag.rs\<close>).  SHA-1 and
  SHA-256 come from other crates: they are the parameter \<open>digest\<close>.
\<close>

section \<open>Object kinds\<close>

datatype object_kind = Blob | Tree | Commit | Tag

fun kind_as_bytes :: "object_kind \<Rightarrow> bytes" where
  "kind_as_bytes Blob = lit ''blob''"
| "kind_as_bytes Tree = lit ''tree''"
| "kind_as_bytes Commit = lit ''commit''"
| "kind_as_bytes Tag = lit ''tag''"

definition kind_from_bytes :: "bytes \<Rightarrow> object_kind option" where
  "kind_from_bytes name =
     (if name = lit ''blob'' then Some Blob
      else if name = lit ''tree'' then Some Tree
      else if name = lit ''commit'' then Some Commit
      else if name = lit ''tag'' then Some Tag
      else None)"

lemma kind_from_as_bytes [codec_simps]: "kind_from_bytes (kind_as_bytes k) = Some k"
  by (cases k) (simp_all add: kind_from_bytes_def)

lemma kind_from_bytes_eq_Some: "kind_from_bytes name = Some k \<longleftrightarrow> name = kind_as_bytes k"
  by (cases k) (auto simp: kind_from_bytes_def)

lemma kind_bytes_graphic: "b \<in> set (kind_as_bytes k) \<Longrightarrow> b \<noteq> 0x20 \<and> b \<noteq> 0"
  by (cases k) auto

section \<open>Object ids\<close>

datatype hash_algo = Sha1 | Sha256

fun raw_len :: "hash_algo \<Rightarrow> nat" where
  "raw_len Sha1 = 20"
| "raw_len Sha256 = 32"

definition hex_len :: "hash_algo \<Rightarrow> nat" where
  "hex_len a = raw_len a * 2"

lemma raw_len_pos [simp]: "0 < raw_len a"
  by (cases a) auto

lemma raw_len_inj: "raw_len a = raw_len b \<longleftrightarrow> a = b"
  by (cases a; cases b) auto

text \<open>\<^verbatim>\<open>ObjectId::Sha1([u8; 20])\<close> and \<^verbatim>\<open>ObjectId::Sha256([u8; 32])\<close>: the array length is \<open>wf_oid\<close>.\<close>

datatype object_id = OidSha1 bytes | OidSha256 bytes

fun oid_algo :: "object_id \<Rightarrow> hash_algo" where
  "oid_algo (OidSha1 _) = Sha1"
| "oid_algo (OidSha256 _) = Sha256"

fun oid_as_bytes :: "object_id \<Rightarrow> bytes" where
  "oid_as_bytes (OidSha1 b) = b"
| "oid_as_bytes (OidSha256 b) = b"

definition wf_oid :: "object_id \<Rightarrow> bool" where
  "wf_oid oid \<longleftrightarrow> length (oid_as_bytes oid) = raw_len (oid_algo oid)"

fun mk_oid :: "hash_algo \<Rightarrow> bytes \<Rightarrow> object_id" where
  "mk_oid Sha1 b = OidSha1 b"
| "mk_oid Sha256 b = OidSha256 b"

lemma mk_oid_simps [simp]:
  "oid_algo (mk_oid a b) = a"
  "oid_as_bytes (mk_oid a b) = b"
  "mk_oid (oid_algo oid) (oid_as_bytes oid) = oid"
proof -
  show "oid_algo (mk_oid a b) = a" and "oid_as_bytes (mk_oid a b) = b"
    by (cases a; simp)+
  show "mk_oid (oid_algo oid) (oid_as_bytes oid) = oid"
    by (cases oid) simp_all
qed

lemma wf_mk_oid: "wf_oid (mk_oid a b) \<longleftrightarrow> length b = raw_len a"
  by (simp add: wf_oid_def)

datatype parse_oid_error =
  InvalidHexLength nat | InvalidHexByte u8 | InvalidRawLength hash_algo nat nat

definition oid_from_bytes :: "hash_algo \<Rightarrow> bytes \<Rightarrow> parse_oid_error + object_id" where
  "oid_from_bytes algo b =
     (if length b = raw_len algo then Inr (mk_oid algo b)
      else Inl (InvalidRawLength algo (length b) (raw_len algo)))"

text \<open>The bytes that are hashed: kind, a space, the decimal length, a NUL, the payload.\<close>

definition digest_input :: "object_kind \<Rightarrow> bytes \<Rightarrow> bytes" where
  "digest_input kind data =
     kind_as_bytes kind @ lit '' '' @ to_decimal (length data) @ [0] @ data"

definition hash_object ::
    "(hash_algo \<Rightarrow> bytes \<Rightarrow> bytes) \<Rightarrow> hash_algo \<Rightarrow> object_kind \<Rightarrow> bytes \<Rightarrow> object_id" where
  "hash_object digest algo kind data = mk_oid algo (digest algo (digest_input kind data))"

section \<open>Hex\<close>

definition nibble :: "u8 \<Rightarrow> parse_oid_error + u8" where
  "nibble b =
     (if 0x30 \<le> b \<and> b \<le> 0x39 then Inr (b - 0x30)
      else if 0x61 \<le> b \<and> b \<le> 0x66 then Inr (b - 0x61 + 10)
      else if 0x41 \<le> b \<and> b \<le> 0x46 then Inr (b - 0x41 + 10)
      else Inl (InvalidHexByte b))"

fun decode_hex :: "bytes \<Rightarrow> parse_oid_error + bytes" where
  "decode_hex (hi # lo # r) =
     bindR (nibble hi) (\<lambda>h. bindR (nibble lo) (\<lambda>l.
       bindR (decode_hex r) (\<lambda>xs. Inr ((push_bit 4 h OR l) # xs))))"
| "decode_hex _ = Inr []"

definition oid_from_hex :: "bytes \<Rightarrow> parse_oid_error + object_id" where
  "oid_from_hex hex =
     (if length hex = 40 then bindR (decode_hex hex) (\<lambda>raw. Inr (OidSha1 raw))
      else if length hex = 64 then bindR (decode_hex hex) (\<lambda>raw. Inr (OidSha256 raw))
      else Inl (InvalidHexLength (length hex)))"

definition hex_digit :: "u8 \<Rightarrow> u8" where
  "hex_digit n = lit ''0123456789abcdef'' ! unat n"

definition hex_of_bytes :: "bytes \<Rightarrow> bytes" where
  "hex_of_bytes b =
     concat (map (\<lambda>x. [hex_digit (drop_bit 4 x), hex_digit (x AND 0x0F)]) b)"

text \<open>\<^verbatim>\<open>Display for ObjectId\<close>.\<close>

definition oid_to_string :: "object_id \<Rightarrow> bytes" where
  "oid_to_string oid = hex_of_bytes (oid_as_bytes oid)"

lemma hex_digit_cases:
  "\<forall>n \<in> set [0..<16].
     nibble (lit ''0123456789abcdef'' ! n) = Inr (of_nat n) \<and>
     (lit ''0123456789abcdef'' ! n \<le> 0x39 \<and> 0x30 \<le> lit ''0123456789abcdef'' ! n \<or>
      lit ''0123456789abcdef'' ! n \<le> 0x66 \<and> 0x61 \<le> lit ''0123456789abcdef'' ! n)"
  by (simp add: upt_conv_Cons nibble_def)

lemma nibble_hex_digit: "unat n < 16 \<Longrightarrow> nibble (hex_digit n) = Inr n"
  using hex_digit_cases by (simp add: hex_digit_def del: lit_def)

lemma hex_digit_graphic:
  "unat n < 16 \<Longrightarrow> 0x21 \<le> hex_digit n \<and> hex_digit n \<le> 0x7F"
proof -
  assume "unat n < 16"
  with hex_digit_cases have
    "hex_digit n \<le> 0x39 \<and> 0x30 \<le> hex_digit n \<or> hex_digit n \<le> 0x66 \<and> 0x61 \<le> hex_digit n"
    by (simp add: hex_digit_def del: lit_def)
  then show ?thesis
    by (auto simp: word_le_nat_alt)
qed

lemma unat_high_nibble: "unat (drop_bit 4 (x :: u8)) < 16"
proof -
  have "unat (drop_bit 4 x) = unat x div 16"
    by (simp add: drop_bit_eq_div unat_div)
  moreover have "unat x < 256"
    by (rule less_le_trans [OF unsigned_less]) simp
  ultimately show ?thesis by simp
qed

lemma unat_low_nibble: "unat ((x :: u8) AND 0x0F) < 16"
proof -
  have "x AND 0x0F \<le> 0x0F"
    by (rule word_and_le1)
  then show ?thesis by (simp add: word_le_nat_alt)
qed

lemma nibbles_join: "push_bit 4 (drop_bit 4 x) OR (x AND 0x0F) = (x :: u8)"
proof -
  have m: "(0x0F :: u8) = mask 4"
    by (simp add: mask_eq_exp_minus_1)
  show ?thesis
    unfolding m by (rule bit_word_eqI) (auto simp: bit_simps)
qed

lemma hex_of_bytes_simps [simp]:
  "hex_of_bytes [] = []"
  "hex_of_bytes (x # xs) =
     hex_digit (drop_bit 4 x) # hex_digit (x AND 0x0F) # hex_of_bytes xs"
  by (simp_all add: hex_of_bytes_def)

lemma length_hex_of_bytes [simp]: "length (hex_of_bytes b) = 2 * length b"
  by (induction b) auto

lemma decode_hex_of_bytes [codec_simps]: "decode_hex (hex_of_bytes b) = Inr b"
  by (induction b)
    (simp_all add: nibble_hex_digit unat_high_nibble unat_low_nibble nibbles_join)

lemma hex_of_bytes_graphic:
  "b \<in> set (hex_of_bytes xs) \<Longrightarrow> 0x21 \<le> b \<and> b \<le> 0x7F"
  by (induction xs) (auto simp: hex_digit_graphic unat_high_nibble unat_low_nibble)

lemma oid_hex_round_trip [codec_simps]:
  assumes "wf_oid oid"
  shows "oid_from_hex (oid_to_string oid) = Inr oid"
  using assms
  by (cases oid) (simp_all add: wf_oid_def oid_from_hex_def oid_to_string_def decode_hex_of_bytes)

lemma length_decode_hex: "decode_hex hex = Inr raw \<Longrightarrow> length raw = length hex div 2"
  by (induction hex arbitrary: raw rule: decode_hex.induct) (auto simp: bindR_eq_Inr)

lemma oid_from_hex_wf: "oid_from_hex hex = Inr oid \<Longrightarrow> wf_oid oid"
  by (auto simp: oid_from_hex_def wf_oid_def bindR_eq_Inr split: if_splits dest: length_decode_hex)

lemma oid_string_graphic: "b \<in> set (oid_to_string oid) \<Longrightarrow> 0x21 \<le> b \<and> b \<le> 0x7F"
  by (auto simp: oid_to_string_def dest: hex_of_bytes_graphic)

lemma oid_string_not_Nil: "wf_oid oid \<Longrightarrow> oid_to_string oid \<noteq> []"
  by (cases oid; cases "oid_as_bytes oid") (auto simp: oid_to_string_def wf_oid_def)

lemma utf8_oid_string: "utf8 (oid_to_string oid)"
  by (rule utf8_ascii) (auto dest: oid_string_graphic)

lemma oid_string_no_sep: "0x20 \<notin> set (oid_to_string oid)" "0x0A \<notin> set (oid_to_string oid)"
  "0 \<notin> set (oid_to_string oid)"
  by (auto dest!: oid_string_graphic)

lemma trim_oid_string [codec_simps]: "trim (oid_to_string oid) = oid_to_string oid"
  by (rule trim_graphic) (auto dest: oid_string_graphic)

section \<open>Header blocks\<close>

record header_block =
  headers :: "(bytes \<times> bytes) list"
  has_separator :: bool
  message :: bytes

datatype object_parse_error = HeadersError string | TreeError string

text \<open>The loop of \<^verbatim>\<open>HeaderBlock::parse\<close>, with the headers read so far and the rest of the data.\<close>

function parse_headers ::
    "(bytes \<times> bytes) list \<Rightarrow> bytes \<Rightarrow> object_parse_error + header_block" where
  "parse_headers hs rest =
     (if rest = [] then Inr \<lparr>headers = hs, has_separator = False, message = []\<rparr>
      else if hd rest = 0x0A then Inr \<lparr>headers = hs, has_separator = True, message = tl rest\<rparr>
      else case split_first 0x0A rest of
          None \<Rightarrow> Inl (HeadersError ''unterminated header line'')
        | Some (line, rest') \<Rightarrow>
            if hd line = 0x20 then
              (if hs = [] then Inl (HeadersError ''continuation before any header'')
               else parse_headers
                 (butlast hs @ [(fst (last hs), snd (last hs) @ [0x0A] @ tl line)]) rest')
            else case split_first 0x20 line of
                None \<Rightarrow> Inl (HeadersError ''header line without space'')
              | Some (name, value) \<Rightarrow> parse_headers (hs @ [(name, value)]) rest')"
  by pat_completeness auto
termination
  by (relation "measure (\<lambda>(hs, rest). length rest)") (auto dest!: split_first_consumes)

declare parse_headers.simps [simp del]

definition header_block_parse :: "bytes \<Rightarrow> object_parse_error + header_block" where
  "header_block_parse data = parse_headers [] data"

text \<open>One header: each line of the value after the first is a continuation line.\<close>

definition serialize_header :: "bytes \<times> bytes \<Rightarrow> bytes" where
  "serialize_header h =
     fst h @ [0x20] @ join_with [0x0A, 0x20] (split_on 0x0A (snd h)) @ [0x0A]"

definition header_block_serialize :: "header_block \<Rightarrow> bytes" where
  "header_block_serialize b =
     concat (map serialize_header (headers b))
     @ (if has_separator b then [0x0A] @ message b else [])"

definition header_value :: "header_block \<Rightarrow> bytes \<Rightarrow> bytes option" where
  "header_value b name = map_option snd (find (\<lambda>h. fst h = name) (headers b))"

definition header_values :: "header_block \<Rightarrow> bytes \<Rightarrow> bytes list" where
  "header_values b name = map snd (filter (\<lambda>h. fst h = name) (headers b))"

text \<open>A value that grows by a continuation line.\<close>

lemma split_on_snoc_line:
  "0x0A \<notin> set t \<Longrightarrow> split_on (0x0A :: u8) (v @ 0x0A # t) = split_on 0x0A v @ [t]"
proof (induction v)
  case Nil
  then show ?case by (simp add: split_on_no_sep)
next
  case (Cons x v)
  obtain l ls where "split_on 0x0A v = l # ls"
    by (meson neq_Nil_conv split_on_not_Nil)
  with Cons show ?case by simp
qed

lemma join_with_snoc: "ls \<noteq> [] \<Longrightarrow> join_with s (ls @ [l]) = join_with s ls @ s @ l"
proof (induction ls)
  case (Cons x ls)
  then show ?case by (cases "ls = []") (simp_all add: join_with_Cons)
qed simp

lemma serialize_header_continue:
  assumes "0x0A \<notin> set t"
  shows "serialize_header (n, v @ [0x0A] @ t) = serialize_header (n, v) @ 0x20 # t @ [0x0A]"
  using assms by (simp add: serialize_header_def split_on_snoc_line join_with_snoc)

lemma serialize_header_line:
  "0x0A \<notin> set v \<Longrightarrow> serialize_header (n, v) = n @ 0x20 # v @ [0x0A]"
  by (simp add: serialize_header_def split_on_no_sep)

lemma concat_serialize_continue:
  assumes "hs \<noteq> []" and "0x0A \<notin> set t"
  shows "concat (map serialize_header
           (butlast hs @ [(fst (last hs), snd (last hs) @ [0x0A] @ t)]))
       = concat (map serialize_header hs) @ 0x20 # t @ [0x0A]"
proof -
  obtain xs n v where "hs = xs @ [(n, v)]"
    using assms(1) by (metis rev_exhaust surj_pair)
  then show ?thesis
    using serialize_header_continue [OF assms(2), of n v] by simp
qed

text \<open>Every accepted block is written back byte for byte.\<close>

lemma parse_headers_serialize:
  "parse_headers hs rest = Inr b \<Longrightarrow>
   header_block_serialize b = concat (map serialize_header hs) @ rest"
proof (induction hs rest rule: parse_headers.induct)
  case (1 hs rest)
  consider (empty) "rest = []"
    | (sep) "rest \<noteq> []" "hd rest = 0x0A"
    | (line) "rest \<noteq> []" "hd rest \<noteq> 0x0A"
    by blast
  then show ?case
  proof cases
    case empty
    with "1.prems" show ?thesis
      by (subst (asm) parse_headers.simps) (auto simp: header_block_serialize_def)
  next
    case sep
    then have "rest = 0x0A # tl rest"
      by (cases rest) auto
    moreover have "b = \<lparr>headers = hs, has_separator = True, message = tl rest\<rparr>"
      using "1.prems" sep by (subst (asm) parse_headers.simps) simp
    ultimately show ?thesis
      by (simp add: header_block_serialize_def)
  next
    case line
    with "1.prems" obtain l r where sf: "split_first 0x0A rest = Some (l, r)"
      by (subst (asm) parse_headers.simps) (auto split: option.splits)
    then have rest: "rest = l @ 0x0A # r" and l: "0x0A \<notin> set l"
      by (auto simp: split_first_eq_Some)
    with line have lne: "l \<noteq> []"
      by auto
    show ?thesis
    proof (cases "hd l = 0x20")
      case True
      with "1.prems" line sf have hs: "hs \<noteq> []" and
        p: "parse_headers (butlast hs @ [(fst (last hs), snd (last hs) @ [0x0A] @ tl l)]) r = Inr b"
        by (subst (asm) parse_headers.simps; simp split: if_splits)+
      from "1.IH"(1) [OF line sf refl True hs p]
      have "header_block_serialize b
          = concat (map serialize_header hs) @ 0x20 # tl l @ [0x0A] @ r"
        using l lne by (subst (asm) concat_serialize_continue [OF hs]) (auto dest: list.set_sel(2))
      then show ?thesis
        using True lne rest by (cases l) auto
    next
      case False
      with "1.prems" line sf obtain n v where nv: "split_first 0x20 l = Some (n, v)" and
        p: "parse_headers (hs @ [(n, v)]) r = Inr b"
        by (subst (asm) parse_headers.simps) (auto split: option.splits)
      from nv have lv: "l = n @ 0x20 # v"
        by (auto simp: split_first_eq_Some)
      from "1.IH"(2) [OF line sf refl False nv refl p] l lv
      show ?thesis
        by (simp add: serialize_header_line rest)
    qed
  qed
qed

text \<open>What can be a header name: not empty, and free of the two separators.\<close>

definition wf_header :: "bytes \<times> bytes \<Rightarrow> bool" where
  "wf_header h \<longleftrightarrow> fst h \<noteq> [] \<and> 0x20 \<notin> set (fst h) \<and> 0x0A \<notin> set (fst h)"

definition wf_header_block :: "header_block \<Rightarrow> bool" where
  "wf_header_block b \<longleftrightarrow>
     (\<forall>h \<in> set (headers b). wf_header h) \<and> (\<not> has_separator b \<longrightarrow> message b = [])"

lemma parse_headers_continuations:
  "\<forall>t \<in> set ts. 0x0A \<notin> set t \<Longrightarrow>
   parse_headers (hs @ [(n, v)]) (concat (map (\<lambda>t. 0x20 # t @ [0x0A]) ts) @ rest)
     = parse_headers (hs @ [(n, v @ concat (map (\<lambda>t. 0x0A # t) ts))]) rest"
proof (induction ts arbitrary: v)
  case Nil
  then show ?case by simp
next
  case (Cons t ts)
  let ?more = "concat (map (\<lambda>t. 0x20 # t @ [0x0A]) ts) @ rest"
  have "split_first 0x0A ((0x20 # t) @ 0x0A # ?more) = Some (0x20 # t, ?more)"
    using Cons.prems by (intro split_first_append) simp
  then have "parse_headers (hs @ [(n, v)]) (0x20 # t @ 0x0A # ?more)
      = parse_headers (hs @ [(n, v @ [0x0A] @ t)]) ?more"
    by (subst parse_headers.simps) simp
  with Cons show ?case by simp
qed

lemma join_lines: "join_with s (l # ls) = l @ concat (map (\<lambda>t. s @ t) ls)"
  by (induction ls arbitrary: l) (auto simp: join_with_Cons)

lemma serialize_header_lines:
  assumes "split_on 0x0A v = l # ls"
  shows "serialize_header (n, v) = n @ 0x20 # l @ 0x0A # concat (map (\<lambda>t. 0x20 # t @ [0x0A]) ls)"
proof -
  have "l @ concat (map (\<lambda>t. [0x0A, 0x20] @ t) ls) @ [0x0A]
      = l @ 0x0A # concat (map (\<lambda>t. 0x20 # t @ [0x0A :: u8]) ls)"
    by (induction ls arbitrary: l) simp_all
  then show ?thesis
    by (simp add: serialize_header_def assms join_lines)
qed

lemma parse_headers_one:
  assumes "wf_header (n, v)"
  shows "parse_headers hs (serialize_header (n, v) @ rest) = parse_headers (hs @ [(n, v)]) rest"
proof -
  obtain l ls where sp: "split_on 0x0A v = l # ls"
    by (meson neq_Nil_conv split_on_not_Nil)
  then have pieces: "\<forall>t \<in> set (l # ls). 0x0A \<notin> set t"
    by (metis split_on_pieces)
  have v: "v = l @ concat (map (\<lambda>t. 0x0A # t) ls)"
    using join_split_on [of "0x0A" v] sp by (simp add: join_lines)
  from assms have n: "n \<noteq> []" "0x20 \<notin> set n" "0x0A \<notin> set n"
    by (simp_all add: wf_header_def)
  let ?more = "concat (map (\<lambda>t. 0x20 # t @ [0x0A]) ls) @ rest"
  have line: "split_first 0x0A ((n @ 0x20 # l) @ 0x0A # ?more) = Some (n @ 0x20 # l, ?more)"
    using n pieces by (intro split_first_append) simp
  have "hd (n @ 0x20 # l) \<noteq> 0x20" and "hd ((n @ 0x20 # l) @ 0x0A # ?more) \<noteq> 0x0A"
    using n by (cases n; auto)+
  then have "parse_headers hs ((n @ 0x20 # l) @ 0x0A # ?more) = parse_headers (hs @ [(n, l)]) ?more"
    using n line by (subst parse_headers.simps) (simp add: split_first_append)
  also have "\<dots> = parse_headers (hs @ [(n, v)]) rest"
    using pieces by (simp add: parse_headers_continuations v)
  finally show ?thesis
    by (simp add: serialize_header_lines [OF sp])
qed

lemma parse_headers_many:
  "\<forall>h \<in> set ks. wf_header h \<Longrightarrow>
   parse_headers hs (concat (map serialize_header ks) @ rest) = parse_headers (hs @ ks) rest"
proof (induction ks arbitrary: hs)
  case Nil
  then show ?case by simp
next
  case (Cons k ks)
  then show ?case
    using parse_headers_one [of "fst k" "snd k"] by simp
qed

section \<open>Commits and tags\<close>

text \<open>Both are a header block; the accessors read single headers.\<close>

type_synonym commit = header_block
type_synonym tag = header_block

definition commit_parse :: "bytes \<Rightarrow> object_parse_error + commit" where
  "commit_parse data = header_block_parse data"

definition commit_serialize :: "commit \<Rightarrow> bytes" where
  "commit_serialize c = header_block_serialize c"

definition commit_tree :: "commit \<Rightarrow> object_id option" where
  "commit_tree c =
     Option.bind (header_value c (lit ''tree'')) (\<lambda>v. okR (oid_from_hex v))"

definition commit_parents :: "commit \<Rightarrow> object_id list" where
  "commit_parents c =
     List.map_filter (\<lambda>v. okR (oid_from_hex v)) (header_values c (lit ''parent''))"

definition commit_author :: "commit \<Rightarrow> bytes option" where
  "commit_author c = header_value c (lit ''author'')"

definition commit_committer :: "commit \<Rightarrow> bytes option" where
  "commit_committer c = header_value c (lit ''committer'')"

text \<open>The second token from the right of the ident line.\<close>

definition committer_date :: "commit \<Rightarrow> int option" where
  "committer_date c =
     (case commit_committer c of
        None \<Rightarrow> None
      | Some ident \<Rightarrow>
          (case rev (split_on 0x20 ident) of
             _ # t # _ \<Rightarrow> if utf8 t then parse_i64 t else None
           | _ \<Rightarrow> None))"

definition tag_parse :: "bytes \<Rightarrow> object_parse_error + tag" where
  "tag_parse data = header_block_parse data"

definition tag_serialize :: "tag \<Rightarrow> bytes" where
  "tag_serialize t = header_block_serialize t"

definition tag_object :: "tag \<Rightarrow> object_id option" where
  "tag_object t =
     Option.bind (header_value t (lit ''object'')) (\<lambda>v. okR (oid_from_hex v))"

definition tag_target_kind :: "tag \<Rightarrow> object_kind option" where
  "tag_target_kind t = Option.bind (header_value t (lit ''type'')) kind_from_bytes"

definition tag_name :: "tag \<Rightarrow> bytes option" where
  "tag_name t = header_value t (lit ''tag'')"

definition tag_tagger :: "tag \<Rightarrow> bytes option" where
  "tag_tagger t = header_value t (lit ''tagger'')"

section \<open>Hex in both cases, and what is hashed\<close>

lemma word8_between:
  assumes "m \<le> unat (b :: u8)" and "unat b \<le> n"
  shows "b \<in> set (map of_nat [m..<Suc n])"
proof -
  have "b = of_nat (unat b)" by simp
  then show ?thesis using assms by (metis atLeastLessThanSuc_atLeastAtMost atLeastAtMost_iff imageI list.set_map set_upt)
qed

lemma hex_digit_nibble:
  assumes "nibble b = Inr n"
  shows "hex_digit n = ascii_lower b \<and> unat n < 16"
proof -
  have 1: "\<forall>b \<in> set (map of_nat [48..<58]) \<union> set (map of_nat [97..<103]) \<union> set (map of_nat [65..<71]).
     (case nibble b of Inr n \<Rightarrow> hex_digit n = ascii_lower b \<and> unat n < 16 | _ \<Rightarrow> False)"
    by (simp add: upt_conv_Cons nibble_def hex_digit_def ascii_lower_def)
  have "b \<in> set (map of_nat [48..<58]) \<union> set (map of_nat [97..<103]) \<union> set (map of_nat [65..<71])"
    using assms word8_between [of 48 b 57] word8_between [of 97 b 102] word8_between [of 65 b 70]
    by (auto simp: nibble_def word_le_nat_alt split: if_splits)
  with 1 have "case nibble b of Inr n \<Rightarrow> hex_digit n = ascii_lower b \<and> unat n < 16 | _ \<Rightarrow> False"
    by blast
  with assms show ?thesis by simp
qed

lemma small_bits: "unat (n :: u8) < 16 \<Longrightarrow> bit n i \<Longrightarrow> i < 4"
proof -
  assume n: "unat n < 16" and i: "bit n i"
  from n have "n < 2 ^ 4"
    by (simp add: word_less_nat_alt)
  then have "take_bit 4 n = n"
    by (simp add: less_mask_eq take_bit_eq_mask)
  then show ?thesis using i by (metis bit_take_bit_iff)
qed

lemma join_nibbles:
  assumes "unat (h :: u8) < 16" "unat l < 16"
  shows "drop_bit 4 (push_bit 4 h OR l) = h" "(push_bit 4 h OR l) AND 0x0F = l"
proof -
  have m: "(0x0F :: u8) = mask 4"
    by (simp add: mask_eq_exp_minus_1)
  show "drop_bit 4 (push_bit 4 h OR l) = h"
    by (rule bit_word_eqI) (auto simp: bit_simps dest: small_bits [OF assms(2)] small_bits [OF assms(1)] simp del: drop_bit_or)
  show "(push_bit 4 h OR l) AND 0x0F = l"
    unfolding m by (rule bit_word_eqI) (auto simp: bit_simps dest: small_bits [OF assms(2)])
qed

lemma hex_of_decode_hex:
  "even (length hex) \<Longrightarrow> decode_hex hex = Inr raw \<Longrightarrow> hex_of_bytes raw = map ascii_lower hex"
proof (induction hex arbitrary: raw rule: decode_hex.induct)
  case (1 hi lo r)
  from "1.prems" obtain h l xs where n: "nibble hi = Inr h" "nibble lo = Inr l"
    and xs: "decode_hex r = Inr xs" and raw: "raw = (push_bit 4 h OR l) # xs"
    by (auto simp: bindR_eq_Inr)
  have "hex_of_bytes xs = map ascii_lower r"
    using "1.prems" n xs by (intro "1.IH") auto
  with n raw show ?case
    by (auto dest!: hex_digit_nibble simp: join_nibbles simp del: drop_bit_or)
qed simp_all

lemma split_first_digest_input:
  "split_first 0 (digest_input k d) = Some (kind_as_bytes k @ 0x20 # to_decimal (length d), d)"
proof -
  have "0 \<notin> set (kind_as_bytes k @ 0x20 # to_decimal (length d))"
    using kind_bytes_graphic to_decimal_digits by (fastforce simp: digit_def)
  from split_first_append [OF this] show ?thesis
    by (simp add: digest_input_def)
qed

section \<open>Properties\<close>

text \<open>Every commit or tag text that parses is serialized back byte for byte, whatever
  its headers, continuation lines and message, so its object id does not change.\<close>

theorem header_block_fidelity:
  "header_block_parse data = Inr b \<Longrightarrow> header_block_serialize b = data"
  using parse_headers_serialize [of "[]" data b] by (simp add: header_block_parse_def)

definition sample_headers :: bytes where
  "sample_headers = lit ''tree ab'' @ [0x0A] @ lit ''sig x'' @ [0x0A] @ lit '' y'' @ [0x0A, 0x0A, 0x6D]"

definition sample_block :: header_block where
  "sample_block =
     \<lparr>headers = [(lit ''tree'', lit ''ab''), (lit ''sig'', lit ''x'' @ [0x0A] @ lit ''y'')],
      has_separator = True, message = [0x6D]\<rparr>"

lemma sample_parse: "header_block_parse sample_headers = Inr sample_block"
  by (simp add: header_block_parse_def sample_headers_def sample_block_def parse_headers.simps)

theorem header_block_fidelity_witness:
  "header_block_parse sample_headers = Inr sample_block \<and>
   header_block_serialize sample_block = sample_headers"
  using sample_parse header_block_fidelity [OF sample_parse] by simp

text \<open>Conversely a block whose header names are non-empty and free of spaces and line
  feeds, and which has a message only after a separator, survives serializing and
  parsing: no two such blocks have the same text.\<close>

theorem header_block_round_trip:
  assumes "wf_header_block b"
  shows "header_block_parse (header_block_serialize b) = Inr b"
proof -
  let ?tail = "if has_separator b then [0x0A] @ message b else []"
  have "header_block_parse (header_block_serialize b) = parse_headers (headers b) ?tail"
    using assms parse_headers_many [of "headers b" "[]" ?tail]
    by (simp add: header_block_parse_def header_block_serialize_def wf_header_block_def)
  also have "\<dots> = Inr b"
    using assms by (cases b) (simp add: parse_headers.simps wf_header_block_def)
  finally show ?thesis .
qed

theorem header_block_round_trip_witness:
  "wf_header_block sample_block \<and>
   header_block_parse (header_block_serialize sample_block) = Inr sample_block"
proof -
  have "wf_header_block sample_block"
    by (simp add: wf_header_block_def wf_header_def sample_block_def)
  then show ?thesis using header_block_round_trip by blast
qed

text \<open>A hex string that is accepted as an object id gives an id of its algorithm's raw
  length; printing the id gives the input in lower case, and reads back as the id.\<close>

theorem oid_hex_normal_form:
  "oid_from_hex hex = Inr oid \<Longrightarrow>
   wf_oid oid \<and> oid_to_string oid = map ascii_lower hex \<and> oid_from_hex (oid_to_string oid) = Inr oid"
  using oid_from_hex_wf [of hex oid]
  by (auto simp: oid_hex_round_trip)
    (auto simp: oid_from_hex_def oid_to_string_def bindR_eq_Inr split: if_splits
      intro!: hex_of_decode_hex)
definition sample_hex :: bytes where
  "sample_hex = lit ''E69de29bb2d1d6434b8b29ae775ad8c2e48c5391''"

theorem oid_hex_normal_form_witness:
  "\<exists>oid. oid_from_hex sample_hex = Inr oid \<and> oid_to_string oid = map ascii_lower sample_hex"
proof -
  obtain oid where "oid_from_hex sample_hex = Inr oid"
    by (simp add: oid_from_hex_def sample_hex_def nibble_def)
  then show ?thesis using oid_hex_normal_form by blast
qed

text \<open>Different objects are never hashed from the same bytes: the kind, the decimal
  length and the payload can be read off what the digest is given.\<close>

theorem digest_input_injective:
  "digest_input k d = digest_input k' d' \<longleftrightarrow> k = k' \<and> d = d'"
proof
  assume eq: "digest_input k d = digest_input k' d'"
  then have "split_first 0 (digest_input k d) = split_first 0 (digest_input k' d')"
    by simp
  then have d: "d = d'" and "kind_as_bytes k @ 0x20 # to_decimal (length d)
      = kind_as_bytes k' @ 0x20 # to_decimal (length d')"
    by (auto simp: split_first_digest_input)
  from this(2) have "kind_as_bytes k = kind_as_bytes k'"
    unfolding d by simp
  then have "kind_from_bytes (kind_as_bytes k) = kind_from_bytes (kind_as_bytes k')"
    by simp
  with d show "k = k' \<and> d = d'"
    by (simp add: kind_from_as_bytes)
qed simp
end
