(* ===== verification/Git_Tree.thy ===== *)
theory Git_Tree
  imports Git_Object
begin

text \<open>
  \<^verbatim>\<open>alt-git-codec\<close>, continued: tree objects and entry modes (\<^verbatim>\<open>tree.rs\<close>), and
  the header of a loose object (\<^verbatim>\<open>loose.rs\<close>).  Inflating a loose file is the zlib
  crate's work: the model starts from the inflated stream.
\<close>

section \<open>Entry modes\<close>

text \<open>A mode keeps its ASCII spelling: six bytes, zero-padded, and how many are used.\<close>

record entry_mode =
  mode_buf :: bytes
  mode_len :: u8

definition mode_from_bytes :: "bytes \<Rightarrow> object_parse_error + entry_mode" where
  "mode_from_bytes mode =
     (if mode = [] \<or> length mode > 6 then
        Inl (TreeError ''entry mode must be 1-6 octal digits'')
      else if \<not> list_all (\<lambda>b. 0x30 \<le> b \<and> b \<le> 0x37) mode then
        Inl (TreeError ''entry mode has non-octal digit'')
      else Inr \<lparr>mode_buf = mode @ replicate (6 - length mode) 0,
                mode_len = of_nat (length mode)\<rparr>)"

definition mode_as_bytes :: "entry_mode \<Rightarrow> bytes" where
  "mode_as_bytes m = take (unat (mode_len m)) (mode_buf m)"

definition mode_value :: "entry_mode \<Rightarrow> u32" where
  "mode_value m = fold (\<lambda>b acc. push_bit 3 acc OR ucast (b - 0x30)) (mode_as_bytes m) 0"

text \<open>\<^verbatim>\<open>0o170000\<close>, \<^verbatim>\<open>0o040000\<close>, \<^verbatim>\<open>0o160000\<close> and \<^verbatim>\<open>0o120000\<close>.\<close>

definition mode_is_tree :: "entry_mode \<Rightarrow> bool" where
  "mode_is_tree m \<longleftrightarrow> mode_value m AND 0xF000 = 0x4000"

definition mode_is_gitlink :: "entry_mode \<Rightarrow> bool" where
  "mode_is_gitlink m \<longleftrightarrow> mode_value m AND 0xF000 = 0xE000"

definition mode_is_symlink :: "entry_mode \<Rightarrow> bool" where
  "mode_is_symlink m \<longleftrightarrow> mode_value m AND 0xF000 = 0xA000"

definition mode_object_kind :: "entry_mode \<Rightarrow> object_kind" where
  "mode_object_kind m =
     (if mode_is_tree m then Tree else if mode_is_gitlink m then Commit else Blob)"

definition wf_mode :: "entry_mode \<Rightarrow> bool" where
  "wf_mode m \<longleftrightarrow> mode_from_bytes (mode_as_bytes m) = Inr m"

lemma mode_as_from_bytes: "mode_from_bytes b = Inr m \<Longrightarrow> mode_as_bytes m = b"
  by (auto simp: mode_from_bytes_def mode_as_bytes_def unat_of_nat split: if_splits)

lemma mode_from_bytes_wf: "mode_from_bytes b = Inr m \<Longrightarrow> wf_mode m"
  using mode_as_from_bytes [of b m] by (simp add: wf_mode_def)

lemma wf_mode_no_space: "wf_mode m \<Longrightarrow> 0x20 \<notin> set (mode_as_bytes m)"
  by (auto simp: wf_mode_def mode_from_bytes_def list_all_iff word_le_nat_alt split: if_splits)

section \<open>Trees\<close>

record tree_entry =
  te_mode :: entry_mode
  te_name :: bytes
  te_oid :: object_id

type_synonym tree = "tree_entry list"

function parse_entries ::
    "hash_algo \<Rightarrow> tree_entry list \<Rightarrow> bytes \<Rightarrow> object_parse_error + tree" where
  "parse_entries algo entries rest =
     (if rest = [] then Inr entries
      else
        bindR (ok_or (TreeError ''entry without space after mode'') (split_first 0x20 rest))
          (\<lambda>(m, rest1). bindR (mode_from_bytes m)
          (\<lambda>mode. bindR (ok_or (TreeError ''entry name not NUL-terminated'') (split_first 0 rest1))
          (\<lambda>(name, rest2). bindR (ok_or (TreeError ''truncated entry oid'')
             (take_n (raw_len algo) rest2))
          (\<lambda>(raw, rest3). parse_entries algo
             (entries @ [\<lparr>te_mode = mode, te_name = name, te_oid = mk_oid algo raw\<rparr>]) rest3)))))"
  by pat_completeness auto
termination
  by (relation "measure (\<lambda>(algo, entries, rest). length rest)")
    (auto dest!: split_first_consumes take_n_consumes)

declare parse_entries.simps [simp del]

definition tree_parse :: "bytes \<Rightarrow> hash_algo \<Rightarrow> object_parse_error + tree" where
  "tree_parse data algo = parse_entries algo [] data"

definition serialize_entry :: "tree_entry \<Rightarrow> bytes" where
  "serialize_entry e =
     mode_as_bytes (te_mode e) @ [0x20] @ te_name e @ [0] @ oid_as_bytes (te_oid e)"

definition tree_serialize :: "tree \<Rightarrow> bytes" where
  "tree_serialize t = concat (map serialize_entry t)"

definition wf_entry :: "hash_algo \<Rightarrow> tree_entry \<Rightarrow> bool" where
  "wf_entry algo e \<longleftrightarrow>
     wf_mode (te_mode e) \<and> 0 \<notin> set (te_name e) \<and> wf_oid (te_oid e) \<and> oid_algo (te_oid e) = algo"

lemma parse_entries_step:
  assumes "wf_entry algo e"
  shows "parse_entries algo es (serialize_entry e @ rest) = parse_entries algo (es @ [e]) rest"
proof -
  let ?m = "mode_as_bytes (te_mode e)" and ?o = "oid_as_bytes (te_oid e)"
  have m: "mode_from_bytes ?m = Inr (te_mode e)" and sp: "0x20 \<notin> set ?m"
    using assms wf_mode_no_space by (simp_all add: wf_entry_def wf_mode_def)
  have n: "0 \<notin> set (te_name e)" and o: "length ?o = raw_len algo" "mk_oid algo ?o = te_oid e"
    using assms by (auto simp: wf_entry_def wf_oid_def)
  have e: "\<lparr>te_mode = te_mode e, te_name = te_name e, te_oid = te_oid e\<rparr> = e"
    by simp
  show ?thesis
    by (simp add: parse_entries.simps [of algo es "serialize_entry e @ rest"])
      (simp add: serialize_entry_def split_first_append [OF sp] m split_first_append [OF n]
        take_n_append o e)
qed

lemma parse_entries_many:
  "\<forall>e \<in> set t. wf_entry algo e \<Longrightarrow>
   parse_entries algo es (tree_serialize t @ rest) = parse_entries algo (es @ t) rest"
  by (induction t arbitrary: es) (simp_all add: tree_serialize_def parse_entries_step)

lemma parse_entries_inverse:
  "parse_entries algo es rest = Inr t \<Longrightarrow>
   tree_serialize t = tree_serialize es @ rest \<and>
   ((\<forall>e \<in> set es. wf_entry algo e) \<longrightarrow> (\<forall>e \<in> set t. wf_entry algo e))"
proof (induction algo es rest rule: parse_entries.induct)
  case (1 algo es rest)
  show ?case
  proof (cases "rest = []")
    case True
    with "1.prems" show ?thesis
      by (subst (asm) parse_entries.simps) simp
  next
    case False
    with "1.prems" obtain m r1 mode name r2 raw r3 where
      s1: "split_first 0x20 rest = Some (m, r1)" and mode: "mode_from_bytes m = Inr mode" and
      s2: "split_first 0 r1 = Some (name, r2)" and s3: "take_n (raw_len algo) r2 = Some (raw, r3)" and
      p: "parse_entries algo (es @ [\<lparr>te_mode = mode, te_name = name, te_oid = mk_oid algo raw\<rparr>]) r3
          = Inr t"
      by (auto simp: parse_entries.simps [of algo es rest] bindR_eq_Inr)
    let ?e = "\<lparr>te_mode = mode, te_name = name, te_oid = mk_oid algo raw\<rparr>"
    have rest: "rest = serialize_entry ?e @ r3" and wf: "wf_entry algo ?e"
      using s1 s2 s3 mode mode_as_from_bytes [OF mode] mode_from_bytes_wf [OF mode]
      by (auto simp: split_first_eq_Some take_n_eq_Some serialize_entry_def wf_entry_def wf_mk_oid)
    have "tree_serialize t = tree_serialize (es @ [?e]) @ r3 \<and>
        ((\<forall>e \<in> set (es @ [?e]). wf_entry algo e) \<longrightarrow> (\<forall>e \<in> set t. wf_entry algo e))"
      using False s1 mode s2 s3 p by (intro "1.IH") simp_all
    then show ?thesis
      using wf by (auto simp: tree_serialize_def rest)
  qed
qed

section \<open>Loose object headers\<close>

datatype loose_error = LooseNotFound | LooseIo | LooseCorrupt string

definition MAX_HEADER :: nat where
  "MAX_HEADER = 32"

text \<open>Reads up to the NUL; the end of the stream is the reader's \<^verbatim>\<open>UnexpectedEof\<close>.\<close>

fun read_header :: "bytes \<Rightarrow> bytes \<Rightarrow> loose_error + (bytes \<times> bytes)" where
  "read_header header [] = Inl LooseIo"
| "read_header header (b # rest) =
     (if b = 0 then Inr (header, rest)
      else if length header = MAX_HEADER then
        Inl (LooseCorrupt ''header not NUL-terminated within 32 bytes'')
      else read_header (header @ [b]) rest)"

text \<open>\<^verbatim>\<open>parse_header\<close>: the kind, the size (a 64-bit \<^verbatim>\<open>usize\<close>), and the rest of the stream.\<close>

definition loose_parse_header :: "bytes \<Rightarrow> loose_error + (object_kind \<times> nat \<times> bytes)" where
  "loose_parse_header stream =
     bindR (read_header [] stream) (\<lambda>(header, rest).
       case split_first 0x20 header of
         None \<Rightarrow> Inl (LooseCorrupt ''header has no space separator'')
       | Some (k, digits) \<Rightarrow>
           bindR (ok_or (LooseCorrupt ''unknown object kind in header'') (kind_from_bytes k))
             (\<lambda>kind. bindR (ok_or (LooseCorrupt ''invalid decimal size in header'')
                (if utf8 digits then parse_uint (2 ^ 64 - 1) digits else None))
             (\<lambda>size. Inr (kind, size, rest))))"

text \<open>\<^verbatim>\<open>LooseStore::read\<close> after the file is open: \<open>stream\<close> is the inflated file.\<close>

definition loose_read :: "bytes \<Rightarrow> loose_error + (object_kind \<times> bytes)" where
  "loose_read stream =
     bindR (loose_parse_header stream) (\<lambda>(kind, size, data).
       if length data \<noteq> size then
         Inl (LooseCorrupt ''payload length does not match header size'')
       else Inr (kind, data))"

lemma length_to_decimal: "n < 10 ^ Suc k \<Longrightarrow> length (to_decimal n) \<le> Suc k"
proof (induction n arbitrary: k rule: to_decimal.induct)
  case (1 n)
  show ?case
  proof (cases "n < 10")
    case True
    then show ?thesis by (subst to_decimal.simps) simp
  next
    case False
    with "1.prems" obtain j where k: "k = Suc j"
      by (cases k) auto
    with "1.prems" have "n div 10 < 10 ^ Suc j"
      by (simp add: div_less_iff_less_mult)
    from "1.IH" [OF False this] False k show ?thesis
      by (subst to_decimal.simps) simp
  qed
qed

lemma read_header_append:
  "0 \<notin> set h \<Longrightarrow> length acc + length h \<le> MAX_HEADER \<Longrightarrow>
   read_header acc (h @ 0 # rest) = Inr (acc @ h, rest)"
  by (induction h arbitrary: acc) auto

section \<open>Properties\<close>

text \<open>Every tree object that parses is serialized back byte for byte, non-canonical modes
  included, and each of its entries is well formed for the repository's hash.\<close>

theorem tree_fidelity:
  "tree_parse data algo = Inr t \<Longrightarrow>
   tree_serialize t = data \<and> (\<forall>e \<in> set t. wf_entry algo e)"
  using parse_entries_inverse [of algo "[]" data t] by (simp add: tree_parse_def tree_serialize_def)

definition sample_tree :: bytes where
  "sample_tree = lit ''100664 a'' @ [0] @ replicate 20 7 @ lit ''40000 dir'' @ [0] @ replicate 20 9"

lemma sample_tree_parses: "\<exists>t. tree_parse sample_tree Sha1 = Inr t \<and> length t = 2"
  by (simp add: tree_parse_def sample_tree_def parse_entries.simps mode_from_bytes_def take_n_def)

theorem tree_fidelity_witness:
  "\<exists>t. tree_parse sample_tree Sha1 = Inr t \<and> tree_serialize t = sample_tree"
  using sample_tree_parses tree_fidelity by blast

text \<open>A tree whose entries are well formed (a mode of one to six octal digits, a name
  without a NUL, an id of the repository's hash) is read back from its serialization.\<close>

theorem tree_round_trip:
  assumes "\<forall>e \<in> set t. wf_entry algo e"
  shows "tree_parse (tree_serialize t) algo = Inr t"
  using parse_entries_many [OF assms, of "[]" "[]"]
  by (simp add: tree_parse_def parse_entries.simps)

definition sample_entry :: tree_entry where
  "sample_entry =
     \<lparr>te_mode = \<lparr>mode_buf = lit ''40000'' @ [0], mode_len = 5\<rparr>,
      te_name = lit ''dir'', te_oid = OidSha1 (replicate 20 7)\<rparr>"

theorem tree_round_trip_witness:
  "wf_entry Sha1 sample_entry \<and> tree_parse (tree_serialize [sample_entry]) Sha1 = Inr [sample_entry]"
proof -
  have "wf_entry Sha1 sample_entry"
    by (simp add: wf_entry_def sample_entry_def wf_mode_def mode_from_bytes_def mode_as_bytes_def
        wf_oid_def)
  then show ?thesis using tree_round_trip [of "[sample_entry]" Sha1] by simp
qed

text \<open>The stream \<^verbatim>\<open>hash_object\<close> digests is a loose object that decodes to the same kind
  and payload: its header never exceeds the 32 bytes the reader allows.\<close>

theorem loose_object_round_trip:
  assumes "length data < 2 ^ 64"
  shows "loose_read (digest_input kind data) = Inr (kind, data)"
proof -
  let ?d = "to_decimal (length data)"
  let ?h = "kind_as_bytes kind @ 0x20 # ?d"
  have "length data < 10 ^ Suc 19"
    using assms by simp
  then have "length ?d \<le> 20"
    using length_to_decimal by fastforce
  then have len: "length ?h \<le> MAX_HEADER"
    by (cases kind) (simp_all add: MAX_HEADER_def)
  have no0: "0 \<notin> set ?h"
    using kind_bytes_graphic to_decimal_digits by (fastforce simp: digit_def)
  have rd: "read_header [] (digest_input kind data) = Inr (?h, data)"
    using read_header_append [OF no0, of "[]" data] len by (simp add: digest_input_def)
  have "0x20 \<notin> set (kind_as_bytes kind)"
    using kind_bytes_graphic by blast
  from split_first_append [OF this] have "split_first 0x20 ?h = Some (kind_as_bytes kind, ?d)" .
  moreover have "parse_uint (2 ^ 64 - 1) ?d = Some (length data)"
    using assms by (intro parse_uint_to_decimal) simp
  ultimately show ?thesis
    by (simp add: loose_read_def loose_parse_header_def rd kind_from_as_bytes utf8_to_decimal)
qed

theorem loose_object_round_trip_witness:
  "length (lit ''hi'') < 2 ^ 64 \<and> loose_read (digest_input Blob (lit ''hi'')) = Inr (Blob, lit ''hi'')"
  using loose_object_round_trip [of "lit ''hi''" Blob] by simp

end
