(* ===== verification/Git_Delta.thy ===== *)
theory Git_Delta
  imports Git_Object
begin

text \<open>
  \<^verbatim>\<open>alt-git-pack/src/delta.rs\<close>: applying a git delta to its base.  The abstract side
  is a list of copy and insert operations with their git encoding, against which the
  decoder is proved complete, and every accepted delta is shown to be such a list.
\<close>

section \<open>The decoder\<close>

text \<open>
  \<open>PackPanic\<close> marks a slice index out of range, or an arithmetic overflow: a panic where
  overflow checks are on, a silently wrong value where they are off.  The delta decoder
  never yields it.
\<close>

datatype pack_error = PackIo | PackFormat string | PackPanic

text \<open>\<^verbatim>\<open>base.get(i..j)\<close>.\<close>

definition slice_get :: "nat \<Rightarrow> nat \<Rightarrow> 'a list \<Rightarrow> 'a list option" where
  "slice_get i j xs = (if i \<le> j \<and> j \<le> length xs then Some (take (j - i) (drop i xs)) else None)"

definition delta_next :: "bytes \<Rightarrow> pack_error + (u8 \<times> bytes)" where
  "delta_next d = ok_or (PackFormat ''truncated delta copy operands'') (next_byte d)"

text \<open>The loop of \<^verbatim>\<open>varint\<close>; \<^verbatim>\<open>checked_shl\<close> fails from a shift of 64 on.\<close>

fun delta_varint_from :: "u64 \<Rightarrow> nat \<Rightarrow> bytes \<Rightarrow> pack_error + (u64 \<times> bytes)" where
  "delta_varint_from v shift [] = Inl (PackFormat ''truncated delta size varint'')"
| "delta_varint_from v shift (b # d) =
     (if 64 \<le> shift then Inl (PackFormat ''delta size varint too long'')
      else let v' = v OR push_bit shift (ucast (b AND 0x7F))
           in if b AND 0x80 = 0 then Inr (v', d) else delta_varint_from v' (shift + 7) d)"

definition delta_varint :: "bytes \<Rightarrow> pack_error + (u64 \<times> bytes)" where
  "delta_varint d = delta_varint_from 0 0 d"

text \<open>The two \<^verbatim>\<open>for (i, bit)\<close> loops that gather little-endian operands.\<close>

fun copy_operand :: "u8 \<Rightarrow> u8 list \<Rightarrow> nat \<Rightarrow> u64 \<Rightarrow> bytes \<Rightarrow> pack_error + (u64 \<times> bytes)" where
  "copy_operand op [] i acc d = Inr (acc, d)"
| "copy_operand op (b # bits) i acc d =
     (if op AND b \<noteq> 0 then
        bindR (delta_next d) (\<lambda>(x, d').
          copy_operand op bits (Suc i) (acc OR push_bit (8 * i) (ucast x)) d')
      else copy_operand op bits (Suc i) acc d)"

lemma delta_next_consumes [reads]: "delta_next d = Inr (b, d') \<Longrightarrow> length d' < length d"
  by (auto simp: delta_next_def next_byte_eq_Some)

lemma copy_operand_consumes [reads]:
  "copy_operand op bits i acc d = Inr (v, d') \<Longrightarrow> length d' \<le> length d"
proof (induction op bits i acc d rule: copy_operand.induct)
  case (2 op b bits i acc d)
  then show ?case
    by (fastforce simp: bindR_eq_Inr dest: delta_next_consumes split: if_splits)
qed simp

declare copy_operand.simps [simp del]

function delta_ops :: "bytes \<Rightarrow> bytes \<Rightarrow> bytes \<Rightarrow> pack_error + bytes" where
  "delta_ops base out [] = Inr out"
| "delta_ops base out (op # d) =
     (if op AND 0x80 \<noteq> 0 then
        bindR (copy_operand op [0x01, 0x02, 0x04, 0x08] 0 0 d) (\<lambda>(off, d1).
        bindR (copy_operand op [0x10, 0x20, 0x40] 0 0 d1) (\<lambda>(len0, d2).
          let len = (if len0 = 0 then 0x10000 else len0)
          in bindR (ok_or (PackFormat ''delta copy out of base bounds'')
               (slice_get (unat off) (unat (off + len)) base)) (\<lambda>chunk.
             delta_ops base (out @ chunk) d2)))
      else if op \<noteq> 0 then
        bindR (ok_or (PackFormat ''truncated delta insert'') (take_n (unat op) d))
          (\<lambda>(chunk, d1). delta_ops base (out @ chunk) d1)
      else Inl (PackFormat ''reserved delta opcode 0''))"
  by pat_completeness auto
termination
  by (relation "measure (\<lambda>(base, out, delta). length delta)")
    (auto dest!: copy_operand_consumes take_n_consumes)

declare copy_operand.simps [simp del]

definition delta_apply :: "bytes \<Rightarrow> bytes \<Rightarrow> pack_error + bytes" where
  "delta_apply base delta =
     bindR (delta_varint delta) (\<lambda>(src_size, d1).
       if src_size \<noteq> of_nat (length base) then Inl (PackFormat ''delta source size mismatch'')
       else bindR (delta_varint d1) (\<lambda>(tgt_size, d2).
         bindR (delta_ops base [] d2) (\<lambda>out.
           if of_nat (length out) \<noteq> tgt_size then Inl (PackFormat ''delta target size mismatch'')
           else Inr out)))"

section \<open>The abstract delta and its encoding\<close>

datatype delta_op = Copy nat nat | Insert bytes

fun run_op :: "bytes \<Rightarrow> delta_op \<Rightarrow> bytes" where
  "run_op base (Copy off len) = take len (drop off base)"
| "run_op base (Insert xs) = xs"

fun wf_op :: "bytes \<Rightarrow> delta_op \<Rightarrow> bool" where
  "wf_op base (Copy off len) \<longleftrightarrow>
     off < 2 ^ 32 \<and> 0 < len \<and> len < 2 ^ 24 \<and> off + len \<le> length base"
| "wf_op base (Insert xs) \<longleftrightarrow> 0 < length xs \<and> length xs < 128"

text \<open>Sizes are written seven bits at a time, least significant first.\<close>

fun encode_varint :: "nat \<Rightarrow> bytes" where
  "encode_varint n =
     (if n < 128 then [of_nat n] else of_nat (128 + n mod 128) # encode_varint (n div 128))"

declare encode_varint.simps [simp del]

text \<open>
  A copy sets one opcode bit for each operand byte that is not zero and omits the
  others; a length of \<^verbatim>\<open>0x10000\<close> is written as zero.
\<close>

definition flag :: "u8 \<Rightarrow> u8 \<Rightarrow> u8" where
  "flag b x = (if x = 0 then 0 else b)"

definition copy_opcode :: "bytes \<Rightarrow> u8" where
  "copy_opcode xs =
     fold (OR) (map2 flag [0x01, 0x02, 0x04, 0x08, 0x10, 0x20, 0x40] xs) 0x80"

fun encode_op :: "delta_op \<Rightarrow> bytes" where
  "encode_op (Copy off len) =
     (let o4 = le_bytes 4 (of_nat off :: u64);
          l3 = le_bytes 3 (of_nat (if len = 0x10000 then 0 else len) :: u64)
      in copy_opcode (o4 @ l3) # filter (\<lambda>x. x \<noteq> 0) (o4 @ l3))"
| "encode_op (Insert xs) = of_nat (length xs) # xs"

definition encode_delta :: "bytes \<Rightarrow> delta_op list \<Rightarrow> bytes" where
  "encode_delta base ops =
     encode_varint (length base) @ encode_varint (length (concat (map (run_op base) ops)))
     @ concat (map encode_op ops)"

section \<open>Decoding an encoded delta\<close>

lemma bit_and_0x80: "(b :: u8) AND 0x80 = 0 \<longleftrightarrow> \<not> bit b 7"
  using and_exp_eq_0_iff_not_bit [of b 7] by simp

lemma ucast_low_seven: "(ucast ((b :: u8) AND 0x7F) :: u64) = take_bit 7 (ucast b)"
proof -
  have m: "(0x7F :: u8) = mask 7"
    by (simp add: mask_eq_exp_minus_1)
  show ?thesis
    unfolding m by (rule bit_word_eqI) (auto simp: bit_simps dest: bit_imp_le_length)
qed

text \<open>A byte of an encoded size: whether it continues, and the seven bits it carries.\<close>

lemma size_byte:
  assumes "m < 256"
  shows "(of_nat m :: u8) AND 0x80 = 0 \<longleftrightarrow> m < 128"
    and "(ucast ((of_nat m :: u8) AND 0x7F) :: u64) = of_nat (m mod 128)"
proof -
  have "odd (m div 128) \<longleftrightarrow> \<not> m < 128"
  proof (cases "m < 128")
    case False
    with assms have "m div 128 = 1" by simp
    with False show ?thesis by simp
  qed simp
  then show "(of_nat m :: u8) AND 0x80 = 0 \<longleftrightarrow> m < 128"
    unfolding bit_and_0x80 by (simp add: bit_simps) (simp add: bit_iff_odd)
  have "(ucast (of_nat m :: u8) :: u64) = of_nat m"
    using assms by (simp add: word_eq_iff_unsigned unsigned_ucast_eq unsigned_of_nat take_bit_nat_eq_self)
  then have "(ucast ((of_nat m :: u8) AND 0x7F) :: u64) = take_bit 7 (of_nat m)"
    unfolding ucast_low_seven by (simp only:)
  also have "\<dots> = of_nat (take_bit 7 m)"
    by (simp only: take_bit_of_nat)
  finally show "(ucast ((of_nat m :: u8) AND 0x7F) :: u64) = of_nat (m mod 128)"
    by (simp only: take_bit_eq_mod) simp
qed

lemma split_low_seven:
  "(of_nat (n mod 128) :: u64) OR push_bit 7 (of_nat (n div 128)) = of_nat n"
proof -
  have "n mod 128 = take_bit 7 n" "n div 128 = drop_bit 7 n"
    by (simp_all add: take_bit_eq_mod drop_bit_eq_div)
  then show ?thesis
    by (simp only:) (rule bit_word_eqI, auto simp: bit_simps)
qed

lemma delta_varint_encode:
  "shift < 64 \<Longrightarrow> n < 2 ^ (64 - shift) \<Longrightarrow>
   delta_varint_from v shift (encode_varint n @ rest) = Inr (v OR push_bit shift (of_nat n), rest)"
proof (induction n arbitrary: v shift rule: encode_varint.induct)
  case (1 n)
  show ?case
  proof (cases "n < 128")
    case True
    then show ?thesis
      using "1.prems" by (subst encode_varint.simps) (simp add: size_byte Let_def)
  next
    case False
    have "shift + 7 < 64"
    proof (rule ccontr)
      assume "\<not> shift + 7 < 64"
      then have "(2 :: nat) ^ (64 - shift) \<le> 2 ^ 7"
        by (intro power_increasing) auto
      with "1.prems" False show False by simp
    qed
    moreover have "n div 128 < 2 ^ (64 - (shift + 7))"
    proof -
      have "64 - shift = (64 - (shift + 7)) + 7"
        using \<open>shift + 7 < 64\<close> by simp
      then have "(2 :: nat) ^ (64 - shift) = 2 ^ (64 - (shift + 7)) * 128"
        by (simp only: power_add) simp
      with "1.prems" show ?thesis by (simp add: div_less_iff_less_mult)
    qed
    ultimately have "delta_varint_from (v OR push_bit shift (of_nat (n mod 128))) (shift + 7)
        (encode_varint (n div 128) @ rest)
      = Inr ((v OR push_bit shift (of_nat (n mod 128)))
             OR push_bit (shift + 7) (of_nat (n div 128)), rest)"
      using False by (intro "1.IH")
    moreover have "push_bit shift (of_nat (n mod 128)) OR push_bit (shift + 7) (of_nat (n div 128))
        = push_bit shift (of_nat n :: u64)"
      by (subst split_low_seven [symmetric]) (simp add: ac_simps)
    ultimately show ?thesis
      using False "1.prems" size_byte [of "128 + n mod 128"]
      by (subst encode_varint.simps) (simp add: Let_def or.assoc del: of_nat_add)
  qed
qed

lemma copy_operand_encode:
  "length bits = length xs \<Longrightarrow> (\<forall>(b, x) \<in> set (zip bits xs). (op AND b \<noteq> 0) = (x \<noteq> 0)) \<Longrightarrow>
   copy_operand op bits i acc (filter (\<lambda>x. x \<noteq> 0) xs @ rest)
     = Inr (acc OR push_bit (8 * i) (from_le xs), rest)"
proof (induction bits xs arbitrary: i acc rule: list_induct2)
  case Nil
  then show ?case by (simp add: copy_operand.simps)
next
  case (Cons b bits x xs)
  have "push_bit (8 * i) (push_bit 8 (w :: u64)) = push_bit (8 * Suc i) w" for w
    by (simp add: add.commute)
  with Cons show ?case
    by (simp add: copy_operand.simps delta_next_def or.assoc)
qed

lemma copy_opcode_flags:
  "copy_opcode [a, b, c, d, e, f, g] AND 0x80 \<noteq> 0"
  "(copy_opcode [a, b, c, d, e, f, g] AND 0x01 \<noteq> 0) = (a \<noteq> 0)"
  "(copy_opcode [a, b, c, d, e, f, g] AND 0x02 \<noteq> 0) = (b \<noteq> 0)"
  "(copy_opcode [a, b, c, d, e, f, g] AND 0x04 \<noteq> 0) = (c \<noteq> 0)"
  "(copy_opcode [a, b, c, d, e, f, g] AND 0x08 \<noteq> 0) = (d \<noteq> 0)"
  "(copy_opcode [a, b, c, d, e, f, g] AND 0x10 \<noteq> 0) = (e \<noteq> 0)"
  "(copy_opcode [a, b, c, d, e, f, g] AND 0x20 \<noteq> 0) = (f \<noteq> 0)"
  "(copy_opcode [a, b, c, d, e, f, g] AND 0x40 \<noteq> 0) = (g \<noteq> 0)"
  by (simp_all add: copy_opcode_def flag_def)

lemma le_bytes_word64:
  "n < 2 ^ (8 * k) \<Longrightarrow> from_le (le_bytes k (of_nat n :: u64)) = (of_nat n :: u64)"
  by (simp add: from_le_le_bytes take_bit_of_nat take_bit_nat_eq_self)

lemma le_bytes_4_3:
  obtains a b c d e f g where "le_bytes 4 (v :: u64) = [a, b, c, d]" and "le_bytes 3 (w :: u64) = [e, f, g]"
  by (simp add: numeral_eq_Suc)

lemma delta_ops_copy:
  assumes "wf_op base (Copy off len)"
  shows "delta_ops base out (encode_op (Copy off len) @ rest)
       = delta_ops base (out @ run_op base (Copy off len)) rest"
proof -
  let ?len = "if len = 0x10000 then 0 else len"
  obtain a b c d e f g where o4: "le_bytes 4 (of_nat off :: u64) = [a, b, c, d]"
    and l3: "le_bytes 3 (of_nat ?len :: u64) = [e, f, g]"
    using le_bytes_4_3 by metis
  let ?op = "copy_opcode [a, b, c, d, e, f, g]"
  let ?l = "filter (\<lambda>x. x \<noteq> 0) [e, f, g] @ rest"
  from assms have off: "off < 2 ^ (8 * 4)" and len: "?len < 2 ^ (8 * 3)" "0 < len" "len < 2 ^ 24"
    and range: "off + len \<le> length base"
    by auto
  have c1: "copy_operand ?op [0x01, 0x02, 0x04, 0x08] 0 0
      (filter (\<lambda>x. x \<noteq> 0) [a, b, c, d] @ ?l) = Inr (of_nat off, ?l)"
    using copy_operand_encode [of "[0x01, 0x02, 0x04, 0x08]" "[a, b, c, d]" ?op 0 0 ?l]
      le_bytes_word64 [OF off] copy_opcode_flags [of a b c d e f g]
    by (simp only: o4) simp
  have c2: "copy_operand ?op [0x10, 0x20, 0x40] 0 0 ?l = Inr (of_nat ?len, rest)"
    using copy_operand_encode [of "[0x10, 0x20, 0x40]" "[e, f, g]" ?op 0 0 rest]
      le_bytes_word64 [OF len(1)] copy_opcode_flags [of a b c d e f g]
    by (simp only: l3) simp
  have "(of_nat ?len :: u64) = 0 \<longleftrightarrow> len = 0x10000"
  proof -
    have "unat (of_nat ?len :: u64) = ?len"
      using len by (intro unat_of_nat_u64) auto
    then show ?thesis
      using len(2) by (auto split: if_splits)
  qed
  then have l: "(if (of_nat ?len :: u64) = 0 then 0x10000 else of_nat ?len) = of_nat len"
    by auto
  have u: "unat (of_nat off :: u64) = off" "unat (of_nat off + of_nat len :: u64) = off + len"
    using off len(3) unat_of_nat_u64 [of "off + len"] by (simp_all add: unat_of_nat_u64 flip: of_nat_add)
  have g: "slice_get off (off + len) base = Some (take len (drop off base))"
    using range by (simp add: slice_get_def)
  have "encode_op (Copy off len) @ rest = ?op # filter (\<lambda>x. x \<noteq> 0) [a, b, c, d] @ ?l"
    using o4 l3 by (simp add: Let_def)
  then show ?thesis
    using copy_opcode_flags(1) [of a b c d e f g]
    by (simp only: delta_ops.simps if_True c1 c2 bindR_simps prod.case Let_def l u g ok_or_simps
        run_op.simps simp_thms not_False_eq_True)
qed

lemma delta_ops_insert:
  assumes "wf_op base (Insert xs)"
  shows "delta_ops base out (encode_op (Insert xs) @ rest) = delta_ops base (out @ xs) rest"
proof -
  from assms have len: "0 < length xs" "length xs < 128"
    by auto
  then have "(of_nat (length xs) :: u8) AND 0x80 = 0" and u: "unat (of_nat (length xs) :: u8) = length xs"
    by (simp_all add: size_byte unat_of_nat)
  moreover have "(of_nat (length xs) :: u8) \<noteq> 0"
    using len u by force
  ultimately show ?thesis
    by (simp add: take_n_append)
qed

lemma delta_ops_encode:
  "\<forall>op \<in> set ops. wf_op base op \<Longrightarrow>
   delta_ops base out (concat (map encode_op ops)) = Inr (out @ concat (map (run_op base) ops))"
proof (induction ops arbitrary: out)
  case Nil
  then show ?case by simp
next
  case (Cons op ops)
  have "delta_ops base out (encode_op op @ concat (map encode_op ops))
      = delta_ops base (out @ run_op base op) (concat (map encode_op ops))"
    using Cons.prems by (cases op) (simp_all only: delta_ops_copy delta_ops_insert run_op.simps
        list.set_intros(1) ball_simps)
  with Cons show ?case by simp
qed

text \<open>An operand of \<open>k\<close> bytes has at most \<open>8 * k\<close> bits.\<close>

lemma take_bit_idD: "take_bit n w = w \<Longrightarrow> bit w k \<Longrightarrow> k < n"
  by (metis bit_take_bit_iff)

lemma copy_operand_bits:
  "copy_operand op bits i acc d = Inr (v, d') \<Longrightarrow> take_bit (8 * i) acc = acc \<Longrightarrow>
   take_bit (8 * (i + length bits)) v = v"
proof (induction op bits i acc d rule: copy_operand.induct)
  case (1 op i acc d)
  then show ?case by (simp add: copy_operand.simps)
next
  case (2 op b bits i acc d)
  have keep: "take_bit (8 * Suc i) acc = acc"
    by (rule bit_word_eqI) (auto simp: bit_simps dest: take_bit_idD [OF "2.prems"(2)])
  have "take_bit (8 * Suc i) (acc OR push_bit (8 * i) (ucast x)) = acc OR push_bit (8 * i) (ucast x)"
    for x :: u8
    by (rule bit_word_eqI) (auto simp: bit_simps dest: bit_imp_le_length take_bit_idD [OF keep])
  with 2 keep show ?case
    by (cases "op AND b = 0") (auto simp: copy_operand.simps bindR_eq_Inr)
qed

lemma unat_take_bit_bound: "take_bit n w = w \<Longrightarrow> unat (w :: u64) < 2 ^ n"
  by (metis take_bit_nat_less_exp unsigned_take_bit_eq)

text \<open>What one operation adds to the size of a delta, at the least.\<close>

fun op_cost :: "delta_op \<Rightarrow> nat" where
  "op_cost (Copy off len) = 1"
| "op_cost (Insert xs) = 1 + length xs"

lemma delta_ops_copy_sound:
  assumes "copy_operand op [0x01, 0x02, 0x04, 0x08] 0 0 d = Inr (off, d1)"
    and "copy_operand op [0x10, 0x20, 0x40] 0 0 d1 = Inr (len0, d2)"
    and "slice_get (unat off) (unat (off + (if len0 = 0 then 0x10000 else len0))) base = Some chunk"
  obtains n where "wf_op base (Copy (unat off) n)" and "chunk = run_op base (Copy (unat off) n)"
proof -
  let ?len = "if len0 = 0 then 0x10000 else len0"
  have "take_bit 32 off = off" "take_bit 24 len0 = len0"
    using copy_operand_bits [OF assms(1)] copy_operand_bits [OF assms(2)] by simp_all
  then have off: "unat off < 2 ^ 32" and "unat len0 < 2 ^ 24"
    by (blast dest: unat_take_bit_bound)+
  then have len: "0 < unat ?len" "unat ?len < 2 ^ 24"
    by (auto simp: unat_gt_0)
  have "off + ?len = of_nat (unat off + unat ?len)"
    by simp
  then have "unat (off + ?len) = unat off + unat ?len"
    using off len unat_of_nat_u64 [of "unat off + unat ?len"] by simp
  with assms(3) have "unat off + unat ?len \<le> length base" "chunk = take (unat ?len) (drop (unat off) base)"
    by (auto simp: slice_get_def split: if_splits)
  with off len that [of "unat ?len"] show thesis by simp
qed

lemma delta_ops_sound:
  "delta_ops base acc d = Inr r \<Longrightarrow>
   \<exists>ops. (\<forall>op \<in> set ops. wf_op base op) \<and> r = acc @ concat (map (run_op base) ops) \<and>
     sum_list (map op_cost ops) \<le> length d"
proof (induction base acc d rule: delta_ops.induct)
  case (1 base out)
  then show ?case by (intro exI [of _ "[]"]) simp
next
  case (2 base out op d)
  have step: ?case
    if "wf_op base p" "chunk = run_op base p" "op_cost p + length d' \<le> length (op # d)"
      "\<exists>ops. (\<forall>q \<in> set ops. wf_op base q) \<and> r = (out @ chunk) @ concat (map (run_op base) ops) \<and>
         sum_list (map op_cost ops) \<le> length d'" for p chunk d'
  proof -
    from that(4) obtain ops where "\<forall>q \<in> set ops. wf_op base q"
      "r = (out @ chunk) @ concat (map (run_op base) ops)" "sum_list (map op_cost ops) \<le> length d'"
      by blast
    with that(1-3) show ?thesis by (intro exI [of _ "p # ops"]) auto
  qed
  consider (copy) "op AND 0x80 \<noteq> 0" | (insert) "op AND 0x80 = 0" "op \<noteq> 0"
    using "2.prems" by (cases "op AND 0x80 = 0"; cases "op = 0") auto
  then show ?case
  proof cases
    case copy
    with "2.prems" obtain off d1 len0 d2 chunk where
      o: "copy_operand op [0x01, 0x02, 0x04, 0x08] 0 0 d = Inr (off, d1)"
      and l: "copy_operand op [0x10, 0x20, 0x40] 0 0 d1 = Inr (len0, d2)"
      and c: "slice_get (unat off) (unat (off + (if len0 = 0 then 0x10000 else len0))) base = Some chunk"
      and r: "delta_ops base (out @ chunk) d2 = Inr r"
      by (auto simp: bindR_eq_Inr Let_def)
    obtain n where "wf_op base (Copy (unat off) n)" "chunk = run_op base (Copy (unat off) n)"
      using delta_ops_copy_sound [OF o l c] .
    moreover have "op_cost (Copy (unat off) n) + length d2 \<le> length (op # d)"
      using copy_operand_consumes [OF o] copy_operand_consumes [OF l] by simp
    moreover have "\<exists>ops. (\<forall>q \<in> set ops. wf_op base q) \<and>
        r = (out @ chunk) @ concat (map (run_op base) ops) \<and> sum_list (map op_cost ops) \<le> length d2"
      using "2.IH"(1) [OF copy o refl l refl refl _ r] c by simp
    ultimately show ?thesis by (rule step)
  next
    case insert
    with "2.prems" obtain chunk d1 where
      c: "take_n (unat op) d = Some (chunk, d1)" and r: "delta_ops base (out @ chunk) d1 = Inr r"
      by (auto simp: bindR_eq_Inr)
    have "wf_op base (Insert chunk)"
      using c insert size_byte(1) [of "unat op"] unsigned_less [of op]
      by (auto simp: take_n_eq_Some unat_gt_0)
    moreover have "op_cost (Insert chunk) + length d1 \<le> length (op # d)"
      using c by (auto simp: take_n_eq_Some)
    moreover have "\<exists>ops. (\<forall>q \<in> set ops. wf_op base q) \<and>
        r = (out @ chunk) @ concat (map (run_op base) ops) \<and> sum_list (map op_cost ops) \<le> length d1"
      using "2.IH"(2) [OF _ _ _ refl r] insert c by simp
    moreover have "chunk = run_op base (Insert chunk)"
      by simp
    ultimately show ?thesis by (intro step [of "Insert chunk" chunk d1])
  qed
qed

section \<open>Properties\<close>

text \<open>C35. Applying the git encoding of any list of copies within the base and inserts of 1 to
  127 bytes yields exactly the concatenation of the copied ranges and inserted bytes.\<close>

theorem delta_apply_encode:
  assumes "\<forall>op \<in> set ops. wf_op base op"
    and "length base < 2 ^ 64" and "length (concat (map (run_op base) ops)) < 2 ^ 64"
  shows "delta_apply base (encode_delta base ops) = Inr (concat (map (run_op base) ops))"
proof -
  have vi: "delta_varint (encode_varint n @ rest) = Inr (of_nat n, rest)" if "n < 2 ^ 64" for n rest
    using delta_varint_encode [of 0 n 0 rest] that by (simp add: delta_varint_def)
  show ?thesis
    using delta_ops_encode [OF assms(1), of "[]"]
    by (simp add: delta_apply_def encode_delta_def vi [OF assms(2)] vi [OF assms(3)])
qed

definition sample_base :: bytes where
  "sample_base = lit ''hello world''"

definition sample_ops :: "delta_op list" where
  "sample_ops = [Copy 6 5, Insert (lit '' ''), Copy 0 3]"

theorem delta_apply_encode_witness:
  "list_all (wf_op sample_base) sample_ops \<and>
   delta_apply sample_base (encode_delta sample_base sample_ops) = Inr (lit ''world hel'')"
proof -
  have wf: "\<forall>op \<in> set sample_ops. wf_op sample_base op"
    by (simp add: sample_ops_def sample_base_def)
  have "concat (map (run_op sample_base) sample_ops) = lit ''world hel''"
    by (simp add: sample_ops_def sample_base_def)
  moreover have "length sample_base < 2 ^ 64"
    by (simp add: sample_base_def)
  ultimately show ?thesis
    using wf delta_apply_encode [OF wf] by (simp add: list_all_iff)
qed

text \<open>An accepted delta declares the length of the base and of its result (as 64-bit
  sizes), and its result is what some list of copies inside the base and of literal runs
  yields, each operation paid for by bytes of the delta (one for a copy, one more than its
  length for a literal run).\<close>

theorem delta_apply_sound:
  assumes "delta_apply base delta = Inr out"
  shows "\<exists>ops d1 d2. delta_varint delta = Inr (of_nat (length base), d1) \<and>
            delta_varint d1 = Inr (of_nat (length out), d2) \<and>
            (\<forall>op \<in> set ops. wf_op base op) \<and> out = concat (map (run_op base) ops) \<and>
            sum_list (map op_cost ops) \<le> length d2"
  using assms delta_ops_sound [of base "[]"]
  by (fastforce simp: delta_apply_def bindR_eq_Inr split: if_splits)

definition sample_delta :: bytes where
  "sample_delta = [0x0b, 0x09, 0x91, 0x06, 0x05, 0x01, 0x20, 0x90, 0x03]"

theorem delta_apply_sound_witness:
  "delta_apply sample_base sample_delta = Inr (lit ''world hel'') \<and>
   (\<exists>ops. list_all (wf_op sample_base) ops \<and>
      lit ''world hel'' = concat (map (run_op sample_base) ops))"
proof -
  have "delta_apply sample_base sample_delta = Inr (lit ''world hel'')"
    by (simp add: delta_apply_def delta_varint_def sample_base_def sample_delta_def
        copy_operand.simps delta_next_def slice_get_def take_n_def)
  then show ?thesis using delta_apply_sound unfolding list_all_iff by blast
qed

end
