(* ===== verification/Git_Pack.thy ===== *)
theory Git_Pack
  imports Git_Delta
begin

text \<open>
  \<^verbatim>\<open>alt-git-pack/src/pack.rs\<close> and the entry half of \<^verbatim>\<open>write.rs\<close>: the pack header, the
  entry headers as they are read (\<open>entry_info\<close>) and written (\<open>entry_header\<close>), and the
  distance varint of an ofs-delta.  The zlib codec is a parameter (\<open>inflate_raw\<close>,
  \<open>deflate\<close>).
\<close>

section \<open>Pack files\<close>

datatype entry_kind = Plain object_kind | OfsDelta u64 | RefDelta object_id

record pack_entry_info =
  ei_kind :: entry_kind
  ei_size :: u64
  ei_data_at :: nat

record pack =
  pk_map :: bytes
  pk_algo :: hash_algo

text \<open>\<^verbatim>\<open>read_u32\<close> and its callers index the slice, which panics out of range.\<close>

definition index_slice :: "nat \<Rightarrow> nat \<Rightarrow> bytes \<Rightarrow> pack_error + bytes" where
  "index_slice i j xs = ok_or PackPanic (slice_get i j xs)"

definition read_u32 :: "bytes \<Rightarrow> nat \<Rightarrow> pack_error + u32" where
  "read_u32 data at = bindR (index_slice at (at + 4) data) (\<lambda>s. Inr (from_be s))"

definition pack_parse :: "bytes \<Rightarrow> hash_algo \<Rightarrow> pack_error + pack" where
  "pack_parse data algo =
     (if length data < 12 + raw_len algo \<or> take 4 data \<noteq> lit ''PACK'' then
        Inl (PackFormat ''not a pack file (bad magic)'')
      else if read_u32 data 4 \<notin> {Inr 2, Inr 3} then Inl (PackFormat ''unsupported pack version'')
      else Inr \<lparr>pk_map = data, pk_algo = algo\<rparr>)"

definition object_count :: "pack \<Rightarrow> pack_error + u32" where
  "object_count p = read_u32 (pk_map p) 8"

section \<open>Reading an entry header\<close>

text \<open>
  The two loops of \<^verbatim>\<open>entry_info\<close>, each started with the byte already read.  Unlike the
  delta decoder they do not bound the shift: \<^verbatim>\<open><<\<close> by 64 or more overflows, and so does
  \<^verbatim>\<open>dist + 1\<close> on the largest distance.
\<close>

fun entry_size :: "u64 \<Rightarrow> nat \<Rightarrow> u8 \<Rightarrow> bytes \<Rightarrow> pack_error + (u64 \<times> bytes)" where
  "entry_size sz shift byte [] =
     (if byte AND 0x80 = 0 then Inr (sz, []) else Inl (PackFormat ''truncated entry size''))"
| "entry_size sz shift byte (b # d) =
     (if byte AND 0x80 = 0 then Inr (sz, b # d)
      else if 64 \<le> shift then Inl PackPanic
      else entry_size (sz OR push_bit shift (ucast (b AND 0x7F))) (shift + 7) b d)"

fun entry_dist :: "u64 \<Rightarrow> u8 \<Rightarrow> bytes \<Rightarrow> pack_error + (u64 \<times> bytes)" where
  "entry_dist dist byte [] =
     (if byte AND 0x80 = 0 then Inr (dist, []) else Inl (PackFormat ''truncated ofs-delta''))"
| "entry_dist dist byte (b # d) =
     (if byte AND 0x80 = 0 then Inr (dist, b # d)
      else if dist = - 1 then Inl PackPanic
      else entry_dist (push_bit 7 (dist + 1) OR ucast (b AND 0x7F)) b d)"

definition entry_base :: "hash_algo \<Rightarrow> u64 \<Rightarrow> u8 \<Rightarrow> bytes \<Rightarrow> pack_error + (entry_kind \<times> bytes)" where
  "entry_base algo offset type_id d =
     (if type_id = 1 then Inr (Plain Commit, d)
      else if type_id = 2 then Inr (Plain Tree, d)
      else if type_id = 3 then Inr (Plain Blob, d)
      else if type_id = 4 then Inr (Plain Tag, d)
      else if type_id = 6 then
        bindR (ok_or (PackFormat ''truncated ofs-delta'') (next_byte d)) (\<lambda>(byte, d1).
        bindR (entry_dist (ucast (byte AND 0x7F)) byte d1) (\<lambda>(dist, d2).
          if offset < dist then Inl (PackFormat ''ofs-delta points before pack start'')
          else Inr (OfsDelta (offset - dist), d2)))
      else if type_id = 7 then
        bindR (ok_or (PackFormat ''truncated ref-delta base id'') (take_n (raw_len algo) d))
          (\<lambda>(raw, d1). Inr (RefDelta (mk_oid algo raw), d1))
      else Inl (PackFormat ''invalid pack entry type''))"

definition entry_info :: "pack \<Rightarrow> u64 \<Rightarrow> pack_error + pack_entry_info" where
  "entry_info p offset =
     bindR (ok_or (PackFormat ''entry offset out of range'')
        (next_byte (drop (unat offset) (pk_map p)))) (\<lambda>(byte, d).
     bindR (entry_size (ucast (byte AND 0x0F)) 4 byte d) (\<lambda>(sz, d1).
     bindR (entry_base (pk_algo p) offset (drop_bit 4 byte AND 0x07) d1) (\<lambda>(kind, d2).
       Inr \<lparr>ei_kind = kind, ei_size = sz, ei_data_at = length (pk_map p) - length d2\<rparr>)))"

text \<open>\<^verbatim>\<open>Pack::inflate\<close>, over a zlib decoder that reads one stream from the front of a slice.\<close>

definition pack_inflate :: "(bytes \<Rightarrow> bytes option) \<Rightarrow> pack \<Rightarrow> nat \<Rightarrow> u64 \<Rightarrow> pack_error + bytes" where
  "pack_inflate inflate_raw p data_at sz =
     bindR (ok_or PackIo (inflate_raw (drop data_at (pk_map p)))) (\<lambda>out.
       if of_nat (length out) \<noteq> sz
       then Inl (PackFormat ''inflated size does not match entry header'') else Inr out)"

section \<open>Writing an entry\<close>

fun type_id :: "object_kind \<Rightarrow> u8" where
  "type_id Commit = 1"
| "type_id Tree = 2"
| "type_id Blob = 3"
| "type_id Tag = 4"

lemma unat_drop_7: "unat (drop_bit 7 (w :: u64)) = unat w div 128"
  by (simp add: drop_bit_eq_div unat_div)

lemma unat_drop_7_less: "w \<noteq> 0 \<Longrightarrow> unat (drop_bit 7 (w :: u64)) < unat w"
  by (simp add: unat_drop_7 unat_gt_0)

function size_header :: "u8 \<Rightarrow> u64 \<Rightarrow> bytes" where
  "size_header byte sz =
     (if sz = 0 then [byte]
      else (byte OR 0x80) # size_header (ucast (sz AND 0x7F)) (drop_bit 7 sz))"
  by pat_completeness auto
termination
  by (relation "measure (\<lambda>(byte, sz). unat sz)") (simp_all add: unat_drop_7_less)

declare size_header.simps [simp del]

definition entry_header :: "object_kind \<Rightarrow> nat \<Rightarrow> bytes" where
  "entry_header kind n =
     (let sz = of_nat n :: u64
      in size_header (push_bit 4 (type_id kind) OR ucast (sz AND 0x0F)) (drop_bit 4 sz))"

definition entry_bytes :: "(bytes \<Rightarrow> bytes) \<Rightarrow> object_kind \<Rightarrow> bytes \<Rightarrow> bytes" where
  "entry_bytes deflate kind data = entry_header kind (length data) @ deflate data"

section \<open>Reading back what was written\<close>

lemma size_header_not_Nil: "size_header b s \<noteq> []"
  by (subst size_header.simps) simp

lemma mask_bytes:
  "(0x7F :: u8) = mask 7" "(0x7F :: u64) = mask 7" "(0x0F :: u8) = mask 4" "(0x0F :: u64) = mask 4"
  "(0x07 :: u8) = mask 3"
  by (simp_all add: mask_eq_exp_minus_1)

text \<open>The low seven bits of the first byte, whatever its continuation flag.\<close>

lemma size_header_hd:
  assumes "size_header b s = c # cs"
  shows "c AND 0x7F = b AND 0x7F" and "s \<noteq> 0 \<Longrightarrow> bit c 7" and "s = 0 \<Longrightarrow> c = b"
proof -
  have "c = (if s = 0 then b else b OR 0x80)"
    using assms by (subst (asm) size_header.simps) (simp split: if_splits)
  then show "c AND 0x7F = b AND 0x7F" "s \<noteq> 0 \<Longrightarrow> bit c 7" "s = 0 \<Longrightarrow> c = b"
    by (auto simp: and.commute bit_or_iff bit.conj_disj_distrib)
qed

lemma ucast_seven: "(ucast ((ucast (s AND 0x7F) :: u8) AND 0x7F) :: u64) = take_bit 7 s"
  for s :: u64
  unfolding mask_bytes by (rule bit_word_eqI) (auto simp: bit_simps)

lemma not_bit_seven: "\<not> bit (ucast (s AND 0x7F) :: u8) 7" for s :: u64
  unfolding mask_bytes by (simp add: bit_simps)

lemma take_or_push: "take_bit n s OR push_bit n (drop_bit n s) = s" for s :: "'a::len word"
proof (rule bit_word_eqI)
  fix k
  show "bit (take_bit n s OR push_bit n (drop_bit n s)) k = bit s k" if "k < LENGTH('a)"
    by (cases "k < n") (use that in \<open>auto simp: bit_simps\<close>)
qed

lemma entry_size_header:
  "size_header b s = c # cs \<Longrightarrow> \<not> bit b 7 \<Longrightarrow> take_bit (64 - shift) s = s \<Longrightarrow>
   entry_size acc shift c (cs @ rest) = Inr (acc OR push_bit shift s, rest)"
proof (induction b s arbitrary: c cs acc shift rule: size_header.induct)
  case (1 b s)
  show ?case
  proof (cases "s = 0")
    case True
    with 1 show ?thesis
      by (cases rest) (auto simp: size_header.simps [of b 0] bit_and_0x80)
  next
    case False
    let ?b = "ucast (s AND 0x7F) :: u8"
    obtain c' cs' where h: "size_header ?b (drop_bit 7 s) = c' # cs'"
      by (meson neq_Nil_conv size_header_not_Nil)
    then have cs: "cs = c' # cs'" and flag: "bit c 7"
      using "1.prems"(1) size_header_hd(2) [OF "1.prems"(1) False] False
      by (auto simp: size_header.simps [of b s])
    have shift: "shift < 64"
      using "1.prems"(3) False by (cases "shift < 64") auto
    have fits: "take_bit (64 - (shift + 7)) (drop_bit 7 s) = drop_bit 7 s"
      by (subst (2) "1.prems"(3) [symmetric]) (rule bit_word_eqI, auto simp: bit_simps)
    let ?acc = "acc OR push_bit shift (take_bit 7 s)"
    have "entry_size acc shift c (cs @ rest) = entry_size ?acc (shift + 7) c' (cs' @ rest)"
      using flag shift size_header_hd(1) [OF h] ucast_seven [of s] by (simp add: cs bit_and_0x80)
    also have "\<dots> = Inr (?acc OR push_bit (shift + 7) (drop_bit 7 s), rest)"
      using "1.IH" [OF False h not_bit_seven fits] .
    also have "?acc OR push_bit (shift + 7) (drop_bit 7 s)
        = acc OR push_bit shift (take_bit 7 s OR push_bit 7 (drop_bit 7 s))"
      by (simp add: or.assoc push_bit_or add.commute)
    finally show ?thesis by (simp add: take_or_push)
  qed
qed

lemma entry_first_byte:
  fixes s :: u64 and t :: u8
  assumes "take_bit 3 t = t" and "c AND 0x7F = (push_bit 4 t OR ucast (s AND 0x0F)) AND 0x7F"
  shows "(ucast (c AND 0x0F) :: u64) = take_bit 4 s" and "drop_bit 4 c AND 0x07 = t"
    and "\<not> bit (push_bit 4 t OR ucast (s AND 0x0F)) 7"
proof -
  let ?b = "push_bit 4 t OR ucast (s AND 0x0F) :: u8"
  have eq: "take_bit 7 c = take_bit 7 ?b"
    using assms(2) unfolding mask_bytes by (simp only: take_bit_eq_mask)
  have bits: "bit c k = bit ?b k" if "k < 7" for k
    using eq that by (metis bit_take_bit_iff)
  have t: "bit t k \<Longrightarrow> k < 3" for k
    using assms(1) by (metis bit_take_bit_iff)
  show "(ucast (c AND 0x0F) :: u64) = take_bit 4 s"
    unfolding mask_bytes by (rule bit_word_eqI) (auto simp: bit_simps bits [unfolded mask_bytes])
  have "bit c (4 + k) \<and> k < 3 \<longleftrightarrow> bit t k" for k
    using bits [of "4 + k", unfolded mask_bytes] t [of k] by (auto simp: bit_simps)
  then show "drop_bit 4 c AND 0x07 = t"
    unfolding mask_bytes by (intro bit_word_eqI) (auto simp: bit_simps)
  show "\<not> bit ?b 7"
    unfolding mask_bytes by (auto simp: bit_simps dest: t)
qed

lemma type_id_bits: "take_bit 3 (type_id k) = type_id k"
  by (cases k) simp_all

lemma entry_base_plain: "entry_base algo offset (type_id k) d = Inr (Plain k, d)"
  by (cases k) (simp_all add: entry_base_def)

lemma entry_info_header:
  assumes "unat offset = length pre" and "n < 2 ^ 64"
  shows "entry_info \<lparr>pk_map = pre @ entry_header k n @ rest, pk_algo = algo\<rparr> offset =
    Inr \<lparr>ei_kind = Plain k, ei_size = of_nat n, ei_data_at = length (pre @ entry_header k n)\<rparr>"
proof -
  let ?s = "of_nat n :: u64"
  let ?b = "push_bit 4 (type_id k) OR ucast (?s AND 0x0F) :: u8"
  obtain c cs where h: "size_header ?b (drop_bit 4 ?s) = c # cs"
    by (meson neq_Nil_conv size_header_not_Nil)
  note first = entry_first_byte [OF type_id_bits size_header_hd(1) [OF h]]
  have "take_bit (64 - 4) (drop_bit 4 ?s) = drop_bit 4 ?s"
    by (rule bit_word_eqI) (auto simp: bit_simps)
  from entry_size_header [OF h first(3) this]
  have "entry_size (take_bit 4 ?s) 4 c (cs @ rest) = Inr (?s, rest)"
    by (simp add: take_or_push)
  moreover have "entry_header k n = c # cs"
    using h by (simp add: entry_header_def Let_def)
  ultimately show ?thesis
    using assms(1) by (simp add: entry_info_def first entry_base_plain)
qed

section \<open>The distance of an ofs-delta\<close>

text \<open>
  git writes a distance most significant group first, each group but the last flagged and
  reduced by one, so that no distance has two spellings.
\<close>

fun flagged_groups :: "nat \<Rightarrow> bytes" where
  "flagged_groups m =
     (if m = 0 then [] else flagged_groups ((m - 1) div 128) @ [of_nat (128 + (m - 1) mod 128)])"

declare flagged_groups.simps [simp del]

definition encode_distance :: "nat \<Rightarrow> bytes" where
  "encode_distance n = flagged_groups (n div 128) @ [of_nat (n mod 128)]"

lemma group_value:
  "push_bit 7 (of_nat (n div 128)) OR ucast ((of_nat (128 + n mod 128) :: u8) AND 0x7F)
     = (of_nat n :: u64)"
  using size_byte(2) [of "128 + n mod 128"] split_low_seven [of n]
  by (simp add: or.commute del: of_nat_add)

lemma flagged_groups_Suc:
  "flagged_groups (Suc n) = flagged_groups (n div 128) @ [of_nat (128 + n mod 128)]"
  by (subst flagged_groups.simps) (simp del: of_nat_add)

lemma flagged_groups_0: "flagged_groups 0 = []"
  by (simp add: flagged_groups.simps)

lemma flagged_groups_pos: "0 < m \<Longrightarrow> \<exists>h hs. flagged_groups m = h # hs"
  by (cases m) (auto simp: flagged_groups_Suc neq_Nil_conv [symmetric] simp del: of_nat_add)

lemma of_nat_not_max: "Suc n < 2 ^ 64 \<Longrightarrow> (of_nat n :: u64) \<noteq> - 1"
proof
  assume n: "Suc n < 2 ^ 64" and "(of_nat n :: u64) = - 1"
  then have "(of_nat (Suc n) :: u64) = 0" by simp
  with n unat_of_nat_u64 [of "Suc n"] show False by simp
qed

lemma entry_dist_flagged:
  "y AND 0x80 \<noteq> 0 \<Longrightarrow> v \<noteq> - 1 \<Longrightarrow>
   entry_dist v y (x # tail) = entry_dist (push_bit 7 (v + 1) OR ucast (x AND 0x7F)) x tail"
  by simp

lemma entry_dist_groups:
  "Suc n < 2 ^ 64 \<Longrightarrow> flagged_groups (Suc n) = h # hs \<Longrightarrow>
   entry_dist (ucast (h AND 0x7F)) h (hs @ x # tail)
     = entry_dist (push_bit 7 (of_nat (Suc n)) OR ucast (x AND 0x7F)) x tail"
proof (induction n arbitrary: h hs x tail rule: less_induct)
  case (less n)
  let ?y = "of_nat (128 + n mod 128) :: u8"
  have "?y AND 0x80 \<noteq> 0"
    using size_byte(1) [of "128 + n mod 128"] by (simp del: of_nat_add)
  then have last: "entry_dist (of_nat n) ?y (x # tail)
      = entry_dist (push_bit 7 (of_nat (Suc n)) OR ucast (x AND 0x7F)) x tail"
    using entry_dist_flagged [of ?y "of_nat n"] of_nat_not_max [OF less.prems(1)]
    by (simp only: of_nat_Suc add.commute simp_thms)
  show ?case
  proof (cases "n div 128")
    case 0
    with less.prems have h: "h = ?y" "hs = []"
      by (simp_all add: flagged_groups_Suc flagged_groups_0 del: of_nat_add)
    have "ucast (?y AND 0x7F) = (of_nat n :: u64)"
      using group_value [of n] 0 by (simp del: of_nat_add)
    with last h show ?thesis by (simp only: append_Nil)
  next
    case (Suc k)
    then obtain g gs where g: "flagged_groups (Suc k) = g # gs"
      using flagged_groups_pos by blast
    with less.prems(2) Suc have h: "h = g" "hs = gs @ [?y]"
      by (simp_all add: flagged_groups_Suc [of n] del: of_nat_add)
    have "Suc k \<le> n"
      using Suc div_le_dividend [of n 128] by simp
    then have "entry_dist (ucast (g AND 0x7F)) g (gs @ ?y # x # tail)
        = entry_dist (push_bit 7 (of_nat (Suc k)) OR ucast (?y AND 0x7F)) ?y (x # tail)"
      using less.prems(1) g by (intro less.IH) auto
    also have "push_bit 7 (of_nat (Suc k)) OR ucast (?y AND 0x7F) = (of_nat n :: u64)"
      using group_value [of n] unfolding Suc .
    finally show ?thesis
      unfolding h last [symmetric] by simp
  qed
qed

section \<open>Properties\<close>

text \<open>For every distance that stays inside the pack, the header of an ofs-delta entry is
  decoded to the base offset git meant, and no overflow occurs on the way.\<close>

theorem ofs_delta_distance:
  assumes "dist \<le> unat offset"
  shows "entry_base algo offset 6 (encode_distance dist @ rest)
       = Inr (OfsDelta (offset - of_nat dist), rest)"
proof -
  let ?x = "of_nat (dist mod 128) :: u8"
  have bound: "dist < 2 ^ 64"
  proof -
    have "unat offset < 2 ^ LENGTH(64)" by (rule unsigned_less)
    with assms show ?thesis by simp
  qed
  have x: "?x AND 0x80 = 0" and v: "push_bit 7 (of_nat (dist div 128)) OR ucast (?x AND 0x7F)
      = (of_nat dist :: u64)"
    using size_byte [of "dist mod 128"] split_low_seven [of dist] by (simp_all add: or.commute)
  have done_: "entry_dist w ?x rest = Inr (w, rest)" for w
    using x by (cases rest) simp_all
  have step: "\<exists>h hs. encode_distance dist = h # hs \<and>
      entry_dist (ucast (h AND 0x7F)) h (hs @ rest) = Inr (of_nat dist, rest)"
  proof (cases "dist div 128")
    case 0
    with v have "ucast (?x AND 0x7F) = (of_nat dist :: u64)" by simp
    with 0 done_ show ?thesis
      by (simp add: encode_distance_def flagged_groups_0)
  next
    case (Suc k)
    then obtain h hs where g: "flagged_groups (Suc k) = h # hs"
      using flagged_groups_pos by blast
    have "Suc k < 2 ^ 64"
      using bound Suc div_le_dividend [of dist 128] by linarith
    from entry_dist_groups [OF this g, of ?x rest] v Suc done_ g show ?thesis
      by (simp add: encode_distance_def)
  qed
  have "\<not> offset < of_nat dist"
    using assms bound unat_of_nat_u64 [of dist] by (simp add: word_less_nat_alt)
  with step show ?thesis
    by (auto simp: entry_base_def)
qed

theorem ofs_delta_distance_witness:
  "entry_base Sha1 5000 6 (encode_distance 1234 @ [0x78]) = Inr (OfsDelta 3766, [0x78])"
  using ofs_delta_distance [of 1234 5000 Sha1 "[0x78]"] by simp

text \<open>An entry whose first ten bytes all carry the continuation flag, and which goes on after
  them, makes \<open>entry_info\<close> shift a 64-bit word by 67 bits: the overflow the delta decoder
  was fixed for is still reachable here.\<close>

theorem entry_size_overflow:
  assumes "drop (unat offset) (pk_map p) = bs @ x # rest" and "length bs = 10"
    and "\<forall>b \<in> set bs. b AND 0x80 \<noteq> 0"
  shows "entry_info p offset = Inl PackPanic"
proof -
  obtain b0 b1 b2 b3 b4 b5 b6 b7 b8 b9 where "bs = [b0, b1, b2, b3, b4, b5, b6, b7, b8, b9]"
    using assms(2) by (auto simp: numeral_eq_Suc length_Suc_conv)
  with assms show ?thesis
    by (simp add: entry_info_def)
qed

theorem entry_size_overflow_witness:
  "entry_info \<lparr>pk_map = lit ''PACK'' @ replicate 11 0x91, pk_algo = Sha1\<rparr> 4 = Inl PackPanic"
proof -
  have "replicate 11 (0x91 :: u8) = replicate 10 0x91 @ [0x91]"
    by (metis Suc_numeral add_One_commute replicate_Suc replicate_append_same semiring_norm(5))
  then show ?thesis
    by (intro entry_size_overflow [where bs = "replicate 10 0x91" and x = "0x91" and rest = "[]"]) simp_all
qed

end
