(* ===== verification/Git_Idx.thy ===== *)
theory Git_Idx
  imports Git_Pack
begin

text \<open>
  \<^verbatim>\<open>alt-git-pack/src/idx.rs\<close>, the reader of version-2 pack indexes, and \<^verbatim>\<open>build_idx\<close> of
  \<^verbatim>\<open>write.rs\<close>, which writes them.  The reader addresses the mapped file at absolute
  offsets; reads out of range panic.  The digest over the file is a parameter.
\<close>

section \<open>Reading\<close>

record pack_index =
  ix_map :: bytes
  ix_algo :: hash_algo
  ix_len :: u32
  ix_oids_at :: nat
  ix_offsets_at :: nat
  ix_large_at :: nat
  ix_large_count :: nat

definition IDX_MAGIC :: bytes where
  "IDX_MAGIC = 0xFF # lit ''tOc''"

definition LARGE_OFFSET_FLAG :: u32 where
  "LARGE_OFFSET_FLAG = 0x80000000"

fun check_fanout :: "bytes \<Rightarrow> u32 \<Rightarrow> nat list \<Rightarrow> pack_error + unit" where
  "check_fanout data prev [] = Inr ()"
| "check_fanout data prev (i # is) =
     bindR (read_u32 data (8 + i * 4)) (\<lambda>v.
       if v < prev then Inl (PackFormat ''non-monotonic idx fan-out'') else check_fanout data v is)"

definition idx_parse :: "bytes \<Rightarrow> hash_algo \<Rightarrow> pack_error + pack_index" where
  "idx_parse data algo =
     (if length data < 8 + 256 * 4 \<or> take 4 data \<noteq> IDX_MAGIC then
        Inl (PackFormat ''not a v2 pack index (bad magic)'')
      else bindR (read_u32 data 4) (\<lambda>version.
        if version \<noteq> 2 then Inl (PackFormat ''unsupported pack index version'')
        else bindR (read_u32 data (8 + 255 * 4)) (\<lambda>len.
          bindR (check_fanout data 0 [0..<256]) (\<lambda>_.
            let n = unat len; raw = raw_len algo; oids_at = 8 + 256 * 4; crcs_at = oids_at + n * raw;
                offsets_at = crcs_at + n * 4; large_at = offsets_at + n * 4; trailer = 2 * raw
            in if length data < large_at + trailer then Inl (PackFormat ''pack index truncated'')
               else Inr \<lparr>ix_map = data, ix_algo = algo, ix_len = len, ix_oids_at = oids_at,
                      ix_offsets_at = offsets_at, ix_large_at = large_at,
                      ix_large_count = (length data - trailer - large_at) div 8\<rparr>))))"

definition idx_oid_at :: "pack_index \<Rightarrow> u32 \<Rightarrow> pack_error + object_id" where
  "idx_oid_at ix i =
     (let raw = raw_len (ix_algo ix); at = ix_oids_at ix + unat i * raw
      in bindR (index_slice at (at + raw) (ix_map ix)) (\<lambda>s. Inr (mk_oid (ix_algo ix) s)))"

definition idx_offset_at :: "pack_index \<Rightarrow> u32 \<Rightarrow> pack_error + u64" where
  "idx_offset_at ix i =
     bindR (read_u32 (ix_map ix) (ix_offsets_at ix + unat i * 4)) (\<lambda>word.
       if word AND LARGE_OFFSET_FLAG = 0 then Inr (ucast word)
       else let idx = unat (word AND NOT LARGE_OFFSET_FLAG)
            in if ix_large_count ix \<le> idx then Inl (PackFormat ''large-offset index out of range'')
               else let at = ix_large_at ix + idx * 8
                    in bindR (index_slice at (at + 8) (ix_map ix)) (\<lambda>s. Inr (from_be s)))"

lemma mid_bounds:
  fixes lo hi :: u32
  assumes "lo < hi"
  shows "unat (lo + (hi - lo) div 2) = unat lo + (unat hi - unat lo) div 2"
    and "unat lo \<le> unat (lo + (hi - lo) div 2)" and "unat (lo + (hi - lo) div 2) < unat hi"
    and "unat (lo + (hi - lo) div 2 + 1) = Suc (unat (lo + (hi - lo) div 2))"
proof -
  have lt: "unat lo < unat hi" and hi: "unat hi < 2 ^ 32"
    using assms unsigned_less [of hi] by (simp_all add: word_less_nat_alt)
  have "unat (hi - lo) = unat hi - unat lo"
    using assms by (simp add: unat_sub word_le_nat_alt word_less_nat_alt less_imp_le)
  then have half: "unat ((hi - lo) div 2) = (unat hi - unat lo) div 2"
    by (simp add: unat_div)
  have "lo + (hi - lo) div 2 = of_nat (unat lo + unat ((hi - lo) div 2))"
    by simp
  then have "lo + (hi - lo) div 2 = of_nat (unat lo + (unat hi - unat lo) div 2)"
    unfolding half .
  then show mid: "unat (lo + (hi - lo) div 2) = unat lo + (unat hi - unat lo) div 2"
    using lt hi by (simp only:) (subst unat_of_nat_u32; simp)
  show "unat lo \<le> unat (lo + (hi - lo) div 2)" "unat (lo + (hi - lo) div 2) < unat hi"
    unfolding mid using lt by auto
  then show "unat (lo + (hi - lo) div 2 + 1) = Suc (unat (lo + (hi - lo) div 2))"
    using hi unat_of_nat_u32 [of "Suc (unat (lo + (hi - lo) div 2))"] by (simp add: add.commute)
qed

text \<open>The binary search of \<^verbatim>\<open>lookup\<close>.\<close>

function idx_search :: "pack_index \<Rightarrow> bytes \<Rightarrow> u32 \<Rightarrow> u32 \<Rightarrow> pack_error + u32 option" where
  "idx_search ix want lo hi =
     (if lo < hi then
        let mid = lo + (hi - lo) div 2; raw = raw_len (ix_algo ix);
            at = ix_oids_at ix + unat mid * raw
        in bindR (index_slice at (at + raw) (ix_map ix)) (\<lambda>s.
             if s < want then idx_search ix want (mid + 1) hi
             else if want < s then idx_search ix want lo mid
             else Inr (Some mid))
      else Inr None)"
  by pat_completeness auto
termination
proof (relation "measure (\<lambda>(ix, want, lo, hi). unat hi - unat lo)", goal_cases)
  case 1
  then show ?case by simp
next
  case (2 ix want lo hi mid raw at s)
  show ?case
    using mid_bounds(2-4) [OF 2(1)] unfolding 2(2) in_measure prod.case by linarith
next
  case (3 ix want lo hi mid raw at s)
  show ?case
    using mid_bounds(2-4) [OF 3(1)] unfolding 3(2) in_measure prod.case by linarith
qed

declare idx_search.simps [simp del]

definition idx_lookup :: "pack_index \<Rightarrow> object_id \<Rightarrow> pack_error + u32 option" where
  "idx_lookup ix oid =
     (let want = oid_as_bytes oid
      in bindR (ok_or PackPanic (next_byte want)) (\<lambda>(b, _).
         let bucket = unat b
         in bindR (if bucket = 0 then Inr 0 else read_u32 (ix_map ix) (8 + (bucket - 1) * 4)) (\<lambda>lo.
            bindR (read_u32 (ix_map ix) (8 + bucket * 4)) (\<lambda>hi.
              idx_search ix want lo hi))))"

section \<open>Writing\<close>

type_synonym idx_entry = "object_id \<times> u64 \<times> u32"

abbreviation entry_oid :: "idx_entry \<Rightarrow> bytes" where
  "entry_oid e \<equiv> oid_as_bytes (fst e)"

text \<open>
  \<^verbatim>\<open>sort_unstable_by\<close> leaves the order of equal ids open; on distinct ids, the only case the
  properties speak of, this is the result of any sort.
\<close>

definition idx_sort :: "idx_entry list \<Rightarrow> idx_entry list" where
  "idx_sort es = sort_key entry_oid es"

definition fanout_counts :: "idx_entry list \<Rightarrow> u32 list" where
  "fanout_counts es =
     fold (\<lambda>e f. let b = unat (hd (entry_oid e)) in f[b := f ! b + 1]) es (replicate 256 0)"

fun cumulative :: "u32 \<Rightarrow> u32 list \<Rightarrow> u32 list" where
  "cumulative acc [] = []"
| "cumulative acc (c # cs) = (acc + c) # cumulative (acc + c) cs"

text \<open>The loop over the offsets: the 4-byte words, and the table of the large ones.\<close>

fun offset_words :: "u64 list \<Rightarrow> idx_entry list \<Rightarrow> bytes \<times> u64 list" where
  "offset_words large [] = ([], large)"
| "offset_words large ((oid, offset, crc) # es) =
     (if offset < 0x80000000 then
        (let (out, large') = offset_words large es in (be_bytes 4 (ucast offset :: u32) @ out, large'))
      else
        (let (out, large') = offset_words (large @ [offset]) es
         in (be_bytes 4 (LARGE_OFFSET_FLAG OR of_nat (length large)) @ out, large')))"

definition build_idx ::
  "(hash_algo \<Rightarrow> bytes \<Rightarrow> bytes) \<Rightarrow> hash_algo \<Rightarrow> idx_entry list \<Rightarrow> bytes \<Rightarrow> bytes" where
  "build_idx digest algo entries trailer =
     (let es = idx_sort entries;
          (words, large) = offset_words [] es;
          out = IDX_MAGIC @ be_bytes 4 (2 :: u32)
            @ concat (map (be_bytes 4) (cumulative 0 (fanout_counts es)))
            @ concat (map entry_oid es)
            @ concat (map (\<lambda>(_, _, crc). be_bytes 4 crc) es)
            @ words @ concat (map (be_bytes 8) large) @ trailer
      in out @ digest algo out)"

section \<open>Slices of a file made of sections\<close>

lemma slice_get_append:
  "length pre = i \<Longrightarrow> length xs = n \<Longrightarrow> slice_get i (i + n) (pre @ xs @ post) = Some xs"
  by (simp add: slice_get_def)

lemma length_concat_const: "\<forall>x \<in> set xs. length x = n \<Longrightarrow> length (concat xs) = length xs * n"
  by (induction xs) simp_all

lemma slice_get_concat:
  assumes "k < length xs" and "\<forall>x \<in> set xs. length x = n" and "length pre = i"
  shows "slice_get (i + k * n) (i + k * n + n) (pre @ concat xs @ post) = Some (xs ! k)"
proof -
  have xs: "concat xs = concat (take k xs) @ xs ! k @ concat (drop (Suc k) xs)"
    using id_take_nth_drop [OF assms(1)] by (metis concat.simps(2) concat_append)
  have "length (concat (take k xs)) = k * n"
    using assms(1,2) length_concat_const [of "take k xs" n] by (auto dest: in_set_takeD)
  then have "length (pre @ concat (take k xs)) = i + k * n"
    using assms(3) by simp
  from slice_get_append [OF this, of "xs ! k" n] show ?thesis
    using assms(1,2) by (simp add: xs)
qed

section \<open>The binary search\<close>

definition oid_table :: "pack_index \<Rightarrow> bytes list \<Rightarrow> bool" where
  "oid_table ix os \<longleftrightarrow> sorted_wrt (<) os \<and>
     (\<forall>i < length os. index_slice (ix_oids_at ix + i * raw_len (ix_algo ix))
        (ix_oids_at ix + i * raw_len (ix_algo ix) + raw_len (ix_algo ix)) (ix_map ix) = Inr (os ! i))"

lemma sorted_wrt_less_nth:
  "sorted_wrt (<) os \<Longrightarrow> i < length os \<Longrightarrow> j < length os \<Longrightarrow> os ! i < os ! j \<longleftrightarrow> i < j"
  for os :: "'a::linorder list"
  by (metis linorder_neqE_nat order_less_asym order_less_irrefl sorted_wrt_iff_nth_less)

text \<open>What a search between \<open>lo\<close> and \<open>hi\<close> may answer.\<close>

fun search_result :: "bytes list \<Rightarrow> bytes \<Rightarrow> nat \<Rightarrow> nat \<Rightarrow> u32 option \<Rightarrow> bool" where
  "search_result os want lo hi (Some m) \<longleftrightarrow> unat m < length os \<and> os ! unat m = want"
| "search_result os want lo hi None \<longleftrightarrow> (\<forall>i. lo \<le> i \<longrightarrow> i < hi \<longrightarrow> os ! i \<noteq> want)"

lemma search_result_widen:
  "search_result os want lo' hi' r \<Longrightarrow> (\<And>i. lo \<le> i \<Longrightarrow> i < hi \<Longrightarrow> \<not> (lo' \<le> i \<and> i < hi') \<Longrightarrow> os ! i \<noteq> want) \<Longrightarrow>
   search_result os want lo hi r"
  by (cases r) auto

lemma idx_search_correct:
  assumes "oid_table ix os"
  shows "unat hi \<le> length os \<Longrightarrow>
    \<exists>r. idx_search ix want lo hi = Inr r \<and> search_result os want (unat lo) (unat hi) r"
proof (induction "unat hi - unat lo" arbitrary: lo hi rule: less_induct)
  case less
  let ?mid = "lo + (hi - lo) div 2"
  show ?case
  proof (cases "lo < hi")
    case False
    then have "\<not> unat lo < unat hi" by (simp add: word_less_nat_alt)
    with False show ?thesis
      by (subst idx_search.simps) auto
  next
    case True
    note mid = mid_bounds(2-4) [OF True]
    then have len: "unat ?mid < length os" using less.prems by simp
    have step: "idx_search ix want lo hi =
        (if os ! unat ?mid < want then idx_search ix want (?mid + 1) hi
         else if want < os ! unat ?mid then idx_search ix want lo ?mid else Inr (Some ?mid))"
      using assms len True by (subst idx_search.simps) (simp add: oid_table_def Let_def)
    have sorted: "i < length os \<Longrightarrow> j < length os \<Longrightarrow> os ! i < os ! j \<longleftrightarrow> i < j" for i j
      using assms sorted_wrt_less_nth unfolding oid_table_def by blast
    consider (lt) "os ! unat ?mid < want" | (gt) "want < os ! unat ?mid" | (eq) "os ! unat ?mid = want"
      by (meson linorder_neqE)
    then show ?thesis
    proof cases
      case lt
      have rest: "os ! i \<noteq> want" if "i \<le> unat ?mid" for i
        using sorted [of "unat ?mid" i] that len lt by auto
      have "unat hi - unat (?mid + 1) < unat hi - unat lo"
        using mid by linarith
      from less.hyps [OF this less.prems] obtain r where
        r: "idx_search ix want (?mid + 1) hi = Inr r"
        and s: "search_result os want (Suc (unat ?mid)) (unat hi) r"
        unfolding mid(3) by blast
      have "search_result os want (unat lo) (unat hi) r"
        using rest by (intro search_result_widen [OF s]) (simp add: not_less_eq_eq)
      then show ?thesis
        using lt r by (simp add: step)
    next
      case gt
      have rest: "os ! i \<noteq> want" if "unat ?mid \<le> i" "i < unat hi" for i
        using sorted [of i "unat ?mid"] that len gt less.prems by auto
      have "unat ?mid - unat lo < unat hi - unat lo" "unat ?mid \<le> length os"
        using mid len by linarith+
      from less.hyps [OF this] obtain r where
        r: "idx_search ix want lo ?mid = Inr r" and s: "search_result os want (unat lo) (unat ?mid) r"
        by blast
      have "search_result os want (unat lo) (unat hi) r"
        using rest by (intro search_result_widen [OF s]) (simp add: not_less)
      then show ?thesis
        using gt less_not_sym [OF gt] r by (simp add: step)
    next
      case eq
      then show ?thesis using len by (simp add: step)
    qed
  qed
qed

section \<open>The fan-out table\<close>

definition fan :: "bytes list \<Rightarrow> nat \<Rightarrow> nat" where
  "fan os b = length (filter (\<lambda>x. unat (hd x) \<le> b) os)"

lemma fan_le: "fan os b \<le> length os"
  by (simp add: fan_def)

lemma fan_mono: "a \<le> b \<Longrightarrow> fan os a \<le> fan os b"
  by (induction os) (auto simp: fan_def)

lemma fan_all: "255 \<le> b \<Longrightarrow> fan os b = length os"
proof -
  assume "255 \<le> b"
  have "unat (x :: u8) \<le> b" for x
    using unat_u8_less [of x] \<open>255 \<le> b\<close> by simp
  then show ?thesis by (simp add: fan_def)
qed

text \<open>In a sorted table the ids of the buckets up to \<open>b\<close> are exactly the first \<open>fan os b\<close>.\<close>

lemma less_hd:
  fixes xs ys :: bytes
  assumes "xs < ys" and "xs \<noteq> []"
  shows "hd xs \<le> hd ys"
  using assms by (cases xs; cases ys) auto

lemma fan_bucket:
  "sorted_wrt (<) os \<Longrightarrow> [] \<notin> set os \<Longrightarrow> i < length os \<Longrightarrow> i < fan os b \<longleftrightarrow> unat (hd (os ! i)) \<le> b"
proof (induction os arbitrary: i)
  case Nil
  then show ?case by simp
next
  case (Cons x os)
  show ?case
  proof (cases "unat (hd x) \<le> b")
    case True
    with Cons show ?thesis
      by (cases i) (simp_all add: fan_def)
  next
    case False
    have after: "\<not> unat (hd y) \<le> b" if "y \<in> set (x # os)" for y
    proof -
      have "hd x \<le> hd y"
        using Cons.prems that less_hd [of x y] by auto
      with False show ?thesis by (simp add: word_le_nat_alt)
    qed
    then have "fan (x # os) b = 0"
      by (simp add: fan_def)
    moreover have "\<not> unat (hd ((x # os) ! i)) \<le> b"
      using Cons.prems(3) by (intro after nth_mem)
    ultimately show ?thesis by simp
  qed
qed

lemma fanout_fold:
  "length f = 256 \<Longrightarrow>
   length (fold (\<lambda>e f. let b = unat (hd (entry_oid e)) in f[b := f ! b + 1]) es f) = 256 \<and>
   (\<forall>b < 256. fold (\<lambda>e f. let b = unat (hd (entry_oid e)) in f[b := f ! b + 1]) es f ! b
      = f ! b + (of_nat (length (filter (\<lambda>e. unat (hd (entry_oid e)) = b) es)) :: u32))"
proof (induction es arbitrary: f)
  case Nil
  then show ?case by simp
next
  case (Cons e es)
  then show ?case
    using unat_u8_less [of "hd (entry_oid e)"]
    by (simp only: fold_simps Let_def length_list_update) (auto simp: nth_list_update)
qed

lemma length_fanout_counts [simp]: "length (fanout_counts es) = 256"
  using fanout_fold [of "replicate 256 0" es] by (simp add: fanout_counts_def)

lemma fanout_counts_nth:
  "b < 256 \<Longrightarrow>
   fanout_counts es ! b = of_nat (length (filter (\<lambda>e. unat (hd (entry_oid e)) = b) es))"
  using fanout_fold [of "replicate 256 0" es] by (simp add: fanout_counts_def)

lemma length_cumulative [simp]: "length (cumulative acc cs) = length cs"
  by (induction acc cs rule: cumulative.induct) simp_all

lemma cumulative_nth:
  "i < length cs \<Longrightarrow> cumulative acc cs ! i = acc + sum_list (take (Suc i) cs)"
  by (induction acc cs arbitrary: i rule: cumulative.induct) (auto simp: nth_Cons' add.assoc take_Cons')

lemma fan_Suc:
  "fan (map entry_oid es) (Suc b)
     = fan (map entry_oid es) b + length (filter (\<lambda>e. unat (hd (entry_oid e)) = Suc b) es)"
  by (induction es) (auto simp: fan_def)

lemma fan_0: "fan (map entry_oid es) 0 = length (filter (\<lambda>e. unat (hd (entry_oid e)) = 0) es)"
  by (induction es) (auto simp: fan_def)

lemma cumulative_fan:
  "b < 256 \<Longrightarrow> cumulative 0 (fanout_counts es) ! b = of_nat (fan (map entry_oid es) b)"
proof (induction b)
  case 0
  then show ?case
    by (simp add: cumulative_nth take_Suc_conv_app_nth fanout_counts_nth fan_0)
next
  case (Suc b)
  then have "sum_list (take (Suc (Suc b)) (fanout_counts es))
      = sum_list (take (Suc b) (fanout_counts es)) + fanout_counts es ! Suc b"
    by (simp add: take_Suc_conv_app_nth)
  with Suc show ?case
    by (simp add: cumulative_nth fanout_counts_nth fan_Suc)
qed

section \<open>Offsets\<close>

definition word_for :: "u64 list \<Rightarrow> u32 \<Rightarrow> u64 \<Rightarrow> bool" where
  "word_for large w offset \<longleftrightarrow>
     (if offset < 0x80000000 then w = ucast offset
      else \<exists>j < length large. w = LARGE_OFFSET_FLAG OR of_nat j \<and> large ! j = offset)"

lemma word_for_mono: "word_for large w offset \<Longrightarrow> word_for (large @ extra) w offset"
  by (auto simp: word_for_def nth_append split: if_splits)

lemma offset_words_correct:
  "offset_words large es = (out, large') \<Longrightarrow>
   \<exists>ws extra. out = concat (map (be_bytes 4) ws) \<and> large' = large @ extra \<and> length extra \<le> length es \<and>
     list_all2 (\<lambda>w e. word_for large' w (fst (snd e))) ws es"
proof (induction large es arbitrary: out large' rule: offset_words.induct)
  case (1 large)
  then show ?case by simp
next
  case (2 large oid offset crc es)
  show ?case
  proof (cases "offset < 0x80000000")
    case True
    obtain out1 where o: "offset_words large es = (out1, large')"
      and out: "out = be_bytes 4 (ucast offset :: u32) @ out1"
      using "2.prems" True by (auto simp: Let_def split: prod.splits)
    obtain ws extra where ws: "out1 = concat (map (be_bytes 4) ws)" "large' = large @ extra"
      "length extra \<le> length es" "list_all2 (\<lambda>w e. word_for large' w (fst (snd e))) ws es"
      using "2.IH"(1) [OF True o] by blast
    show ?thesis
      by (rule exI [of _ "ucast offset # ws"], rule exI [of _ extra])
        (use ws True in \<open>simp add: out word_for_def\<close>)
  next
    case False
    let ?w = "LARGE_OFFSET_FLAG OR of_nat (length large)"
    obtain out1 where o: "offset_words (large @ [offset]) es = (out1, large')"
      and out: "out = be_bytes 4 ?w @ out1"
      using "2.prems" False by (auto simp: Let_def split: prod.splits)
    obtain ws extra where ws: "out1 = concat (map (be_bytes 4) ws)" "large' = (large @ [offset]) @ extra"
      "length extra \<le> length es" "list_all2 (\<lambda>w e. word_for large' w (fst (snd e))) ws es"
      using "2.IH"(2) [OF False o] by blast
    have "word_for large' ?w offset"
      using False unfolding ws(2) word_for_def by (auto intro!: exI [of _ "length large"] simp: nth_append)
    then show ?thesis
      by (intro exI [of _ "?w # ws"] exI [of _ "offset # extra"]) (use ws in \<open>simp add: out\<close>)
  qed
qed

lemma large_flag_bit: "bit LARGE_OFFSET_FLAG k \<longleftrightarrow> k = 31"
  using bit_exp_iff [of 31 k, where 'a = u32] by (auto simp: LARGE_OFFSET_FLAG_def)

lemma flag_clear: "w AND LARGE_OFFSET_FLAG = 0 \<longleftrightarrow> \<not> bit w 31"
  using and_exp_eq_0_iff_not_bit [of w 31] by (simp add: LARGE_OFFSET_FLAG_def)

lemma flag_small:
  assumes "(offset :: u64) < 0x80000000"
  shows "(ucast offset :: u32) AND LARGE_OFFSET_FLAG = 0" and "ucast (ucast offset :: u32) = offset"
proof -
  have "take_bit 31 offset = offset"
    using assms less_mask_eq [of offset 31] by (simp add: take_bit_eq_mask)
  then have b: "bit offset k \<Longrightarrow> k < 31" for k
    by (metis bit_take_bit_iff)
  then show "(ucast offset :: u32) AND LARGE_OFFSET_FLAG = 0"
    unfolding flag_clear by (auto simp: bit_simps)
  show "ucast (ucast offset :: u32) = offset"
    by (rule bit_word_eqI) (auto simp: bit_simps dest: b)
qed

lemma flag_large:
  assumes "j < 2 ^ 31"
  shows "(LARGE_OFFSET_FLAG OR of_nat j) AND LARGE_OFFSET_FLAG \<noteq> 0"
    and "unat ((LARGE_OFFSET_FLAG OR of_nat j) AND NOT LARGE_OFFSET_FLAG) = j"
proof -
  show "(LARGE_OFFSET_FLAG OR of_nat j) AND LARGE_OFFSET_FLAG \<noteq> 0"
    unfolding flag_clear by (simp add: large_flag_bit bit_or_iff)
  have "take_bit 31 j = j"
    using assms by (rule take_bit_nat_eq_self)
  then have b: "bit j k \<Longrightarrow> k < 31" for k
    by (metis bit_take_bit_iff)
  have "(LARGE_OFFSET_FLAG OR of_nat j) AND NOT LARGE_OFFSET_FLAG = (of_nat j :: u32)"
    by (rule bit_word_eqI) (auto simp: bit_simps large_flag_bit dest: b)
  then show "unat ((LARGE_OFFSET_FLAG OR of_nat j) AND NOT LARGE_OFFSET_FLAG) = j"
    using assms by (simp add: unat_of_nat_u32)
qed

section \<open>Reading back a written index\<close>

text \<open>The sections of an index file, and the reader it opens to.\<close>

definition idx_file :: "idx_entry list \<Rightarrow> u32 list \<Rightarrow> u64 list \<Rightarrow> bytes \<Rightarrow> bytes" where
  "idx_file es ws large tail = (IDX_MAGIC @ be_bytes 4 (2 :: u32))
     @ concat (map (be_bytes 4) (cumulative 0 (fanout_counts es)))
     @ concat (map entry_oid es)
     @ concat (map (\<lambda>(_, _, crc). be_bytes 4 crc) es)
     @ concat (map (be_bytes 4) ws) @ concat (map (be_bytes 8) large) @ tail"

definition idx_reader ::
  "hash_algo \<Rightarrow> idx_entry list \<Rightarrow> u32 list \<Rightarrow> u64 list \<Rightarrow> bytes \<Rightarrow> pack_index" where
  "idx_reader algo es ws large tail =
     (let n = length es; raw = raw_len algo
      in \<lparr>ix_map = idx_file es ws large tail, ix_algo = algo, ix_len = of_nat n, ix_oids_at = 1032,
          ix_offsets_at = 1032 + n * raw + n * 4, ix_large_at = 1032 + n * raw + n * 4 + n * 4,
          ix_large_count = length large\<rparr>)"

definition idx_wf :: "hash_algo \<Rightarrow> idx_entry list \<Rightarrow> u32 list \<Rightarrow> bytes \<Rightarrow> bool" where
  "idx_wf algo es ws tail \<longleftrightarrow> (\<forall>e \<in> set es. length (entry_oid e) = raw_len algo) \<and>
     length ws = length es \<and> length tail = 2 * raw_len algo \<and> length es < 2 ^ 32"

lemma length_magic: "length (IDX_MAGIC @ be_bytes 4 (2 :: u32)) = 8"
  by (simp add: IDX_MAGIC_def)

lemma length_sections:
  "length (concat (map (be_bytes 4) (cumulative 0 (fanout_counts es)))) = 1024"
  "length (concat (map (be_bytes 4) (ws :: u32 list))) = length ws * 4"
  "length (concat (map (be_bytes 8) (large :: u64 list))) = length large * 8"
  "length (concat (map (\<lambda>(_, _, crc). be_bytes 4 crc) (es :: idx_entry list))) = length es * 4"
  by (subst length_concat_const; auto)+

lemma length_oids:
  "idx_wf algo es ws tail \<Longrightarrow> length (concat (map entry_oid es)) = length es * raw_len algo"
  by (subst length_concat_const) (auto simp: idx_wf_def)

lemma length_idx_file:
  assumes "idx_wf algo es ws tail"
  shows "length (idx_file es ws large tail)
    = 1032 + length es * raw_len algo + length es * 4 + length es * 4 + length large * 8 + 2 * raw_len algo"
  using assms length_oids [OF assms]
  by (simp add: idx_file_def length_sections idx_wf_def IDX_MAGIC_def)

lemma read_u32_fan:
  assumes "i < 256"
  shows "read_u32 (idx_file es ws large tail) (8 + i * 4) = Inr (of_nat (fan (map entry_oid es) i))"
proof -
  let ?f = "map (be_bytes 4) (cumulative 0 (fanout_counts es))"
  have "slice_get (8 + i * 4) (8 + i * 4 + 4) (idx_file es ws large tail) = Some (?f ! i)"
    unfolding idx_file_def using assms length_magic by (intro slice_get_concat) auto
  then show ?thesis
    using assms by (simp add: read_u32_def index_slice_def cumulative_fan from_be_u32)
qed

lemma read_version: "read_u32 (idx_file es ws large tail) 4 = Inr 2"
proof -
  have "slice_get 4 (4 + 4) (idx_file es ws large tail) = Some (be_bytes 4 (2 :: u32))"
    unfolding idx_file_def append_assoc by (rule slice_get_append) (simp_all add: IDX_MAGIC_def)
  then show ?thesis
    by (simp add: read_u32_def index_slice_def from_be_u32)
qed

lemma check_fanout_mono:
  "sorted is \<Longrightarrow> (\<And>i. i \<in> set is \<Longrightarrow> read_u32 data (8 + i * 4) = Inr (f i)) \<Longrightarrow>
   (\<And>i j. i \<le> j \<Longrightarrow> f i \<le> f j) \<Longrightarrow> (\<And>i. i \<in> set is \<Longrightarrow> prev \<le> f i) \<Longrightarrow>
   check_fanout data prev is = Inr ()"
proof (induction "is" arbitrary: prev)
  case Nil
  then show ?case by simp
next
  case (Cons i "is")
  have "\<not> f i < prev"
    using Cons.prems(4) by (simp add: not_less)
  with Cons show ?case by simp
qed

lemma of_nat_u32_mono: "a \<le> b \<Longrightarrow> b < 2 ^ 32 \<Longrightarrow> (of_nat a :: u32) \<le> of_nat b"
  by (simp add: word_le_nat_alt unat_of_nat_u32)

lemma idx_parse_file:
  assumes "idx_wf algo es ws tail"
  shows "idx_parse (idx_file es ws large tail) algo = Inr (idx_reader algo es ws large tail)"
proof -
  let ?D = "idx_file es ws large tail"
  let ?os = "map entry_oid es"
  have n: "length es < 2 ^ 32" and le: "fan ?os i < 2 ^ 32" for i
    using assms fan_le [of ?os i] by (simp_all add: idx_wf_def)
  have mono: "(of_nat (fan ?os i) :: u32) \<le> of_nat (fan ?os j)" if "i \<le> j" for i j
    using fan_mono [OF that] le by (rule of_nat_u32_mono)
  have "check_fanout ?D 0 [0..<256] = Inr ()"
    by (rule check_fanout_mono [where f = "\<lambda>i. of_nat (fan ?os i)"]) (auto simp: read_u32_fan mono)
  moreover have "read_u32 ?D (8 + 255 * 4) = Inr (of_nat (length es))"
    using read_u32_fan [of 255 es] by (simp add: fan_all)
  moreover have "take 4 ?D = IDX_MAGIC"
    by (simp add: idx_file_def IDX_MAGIC_def)
  moreover have "unat (of_nat (length es) :: u32) = length es"
    using n by (simp add: unat_of_nat_u32)
  ultimately show ?thesis
    using length_idx_file [OF assms, of large]
    by (simp add: idx_parse_def read_version Let_def idx_reader_def)
qed

lemma oid_table_reader:
  assumes "idx_wf algo es ws tail" and "sorted_wrt (<) (map entry_oid es)"
  shows "oid_table (idx_reader algo es ws large tail) (map entry_oid es)"
proof -
  let ?D = "idx_file es ws large tail" and ?raw = "raw_len algo"
  have "slice_get (1032 + i * ?raw) (1032 + i * ?raw + ?raw) ?D = Some (map entry_oid es ! i)"
    if "i < length es" for i
    unfolding idx_file_def append_assoc [symmetric, of _ "concat (map (be_bytes 4) (cumulative 0 _))"]
    using that assms(1) length_magic length_sections(1)
    by (intro slice_get_concat) (auto simp: idx_wf_def)
  with assms(2) show ?thesis
    by (simp add: oid_table_def idx_reader_def Let_def index_slice_def)
qed

lemma offset_at_reader:
  assumes "idx_wf algo es ws tail" and "i < length es" and "word_for large (ws ! i) offset"
    and "length large < 2 ^ 31"
  shows "idx_offset_at (idx_reader algo es ws large tail) (of_nat i) = Inr offset"
proof -
  let ?D = "idx_file es ws large tail" and ?raw = "raw_len algo"
  let ?at = "1032 + length es * ?raw + length es * 4"
  have i: "unat (of_nat i :: u32) = i"
    using assms(1,2) by (simp add: unat_of_nat_u32 idx_wf_def)
  let ?pre = "(IDX_MAGIC @ be_bytes 4 (2 :: u32))
     @ concat (map (be_bytes 4) (cumulative 0 (fanout_counts es)))
     @ concat (map entry_oid es) @ concat (map (\<lambda>(_, _, crc). be_bytes 4 crc) es)"
  have pre: "length ?pre = ?at"
    using length_magic length_sections length_oids [OF assms(1)] by simp
  have "slice_get (?at + i * 4) (?at + i * 4 + 4) (?pre @ concat (map (be_bytes 4) ws)
      @ (concat (map (be_bytes 8) large) @ tail)) = Some (map (be_bytes 4) ws ! i)"
    using pre assms(1,2) by (intro slice_get_concat) (auto simp: idx_wf_def)
  then have w: "read_u32 ?D (?at + i * 4) = Inr (ws ! i)"
    using assms(1,2) by (simp add: idx_file_def read_u32_def index_slice_def from_be_u32 idx_wf_def)
  show ?thesis
  proof (cases "offset < 0x80000000")
    case True
    with assms(3) have "ws ! i = ucast offset" by (simp add: word_for_def)
    with w show ?thesis
      using flag_small [OF True] by (simp add: idx_offset_at_def idx_reader_def Let_def i)
  next
    case False
    then obtain j where j: "j < length large" "ws ! i = LARGE_OFFSET_FLAG OR of_nat j" "large ! j = offset"
      using assms(3) by (auto simp: word_for_def)
    let ?large = "?at + length es * 4"
    have "slice_get (?large + j * 8) (?large + j * 8 + 8) ((?pre @ concat (map (be_bytes 4) ws))
        @ concat (map (be_bytes 8) large) @ tail) = Some (map (be_bytes 8) large ! j)"
      using pre assms(1) j(1) length_sections(2) [of ws] by (intro slice_get_concat) (auto simp: idx_wf_def)
    then have l: "index_slice (?large + j * 8) (?large + j * 8 + 8) ?D = Inr (be_bytes 8 offset)"
      using j by (simp add: idx_file_def index_slice_def)
    have "j < 2 ^ 31" using j(1) assms(4) by simp
    from flag_large [OF this] w l j show ?thesis
      by (simp add: idx_offset_at_def idx_reader_def Let_def i from_be_u64)
  qed
qed

lemma wf_oid_not_Nil: "wf_oid oid \<Longrightarrow> oid_as_bytes oid \<noteq> []"
  by (cases oid) (auto simp: wf_oid_def)

lemma lookup_reader:
  assumes "idx_wf algo es ws tail" and "sorted_wrt (<) (map entry_oid es)"
    and "wf_oid oid" and "[] \<notin> set (map entry_oid es)"
  obtains r where "idx_lookup (idx_reader algo es ws large tail) oid = Inr r"
    and "case r of Some m \<Rightarrow> unat m < length es \<and> entry_oid (es ! unat m) = oid_as_bytes oid
         | None \<Rightarrow> oid_as_bytes oid \<notin> set (map entry_oid es)"
proof -
  let ?ix = "idx_reader algo es ws large tail" and ?os = "map entry_oid es"
  let ?want = "oid_as_bytes oid"
  obtain b rest where want: "?want = b # rest"
    using wf_oid_not_Nil [OF assms(3)] by (auto simp: neq_Nil_conv)
  have small: "fan ?os i < 2 ^ 32" for i
    using assms(1) fan_le [of ?os i] by (simp add: idx_wf_def)
  let ?lo = "if unat b = 0 then 0 else of_nat (fan ?os (unat b - 1)) :: u32"
  let ?hi = "of_nat (fan ?os (unat b)) :: u32"
  have "read_u32 (ix_map ?ix) (8 + unat b * 4) = Inr ?hi"
    "unat b \<noteq> 0 \<Longrightarrow> read_u32 (ix_map ?ix) (8 + (unat b - 1) * 4) = Inr (of_nat (fan ?os (unat b - 1)))"
    using unat_u8_less [of b] by (simp_all add: idx_reader_def Let_def read_u32_fan)
  then have lookup: "idx_lookup ?ix oid = idx_search ?ix ?want ?lo ?hi"
    by (simp add: idx_lookup_def want Let_def)
  have hi: "unat ?hi = fan ?os (unat b)"
    using small by (simp add: unat_of_nat_u32)
  have lo: "unat ?lo = (if unat b = 0 then 0 else fan ?os (unat b - 1))"
    using small by (simp add: unat_of_nat_u32)
  have "unat ?hi \<le> length ?os"
    unfolding hi by (rule fan_le)
  from idx_search_correct [OF oid_table_reader [OF assms(1,2)] this]
  obtain r where r: "idx_search ?ix ?want ?lo ?hi = Inr r"
    and res: "search_result ?os ?want (unat ?lo) (unat ?hi) r"
    by blast
  have "?want \<notin> set ?os" if "r = None"
  proof
    assume "?want \<in> set ?os"
    then obtain i where i: "i < length ?os" "?os ! i = ?want"
      by (meson in_set_conv_nth)
    have "i < fan ?os k \<longleftrightarrow> unat b \<le> k" for k
      using fan_bucket [OF assms(2,4) i(1)] i(2) want by simp
    then have "unat ?lo \<le> i" "i < unat ?hi"
      unfolding lo hi by (auto simp: not_less [symmetric])
    with res that i(2) show False by simp
  qed
  with res show thesis
    by (intro that [of r]) (auto simp: lookup r split: option.splits)
qed

text \<open>What an index must say of the entries it was built from.\<close>

definition resolves :: "pack_index \<Rightarrow> idx_entry list \<Rightarrow> bool" where
  "resolves ix entries \<longleftrightarrow>
     (\<forall>oid. wf_oid oid \<longrightarrow> oid_algo oid = ix_algo ix \<longrightarrow>
       (case idx_lookup ix oid of
          Inl e \<Rightarrow> False
        | Inr None \<Rightarrow> oid \<notin> fst ` set entries
        | Inr (Some i) \<Rightarrow> \<exists>offset crc. (oid, offset, crc) \<in> set entries \<and> idx_offset_at ix i = Inr offset))"

definition idx_entries_ok :: "hash_algo \<Rightarrow> idx_entry list \<Rightarrow> bool" where
  "idx_entries_ok algo entries \<longleftrightarrow> distinct (map fst entries) \<and> length entries < 2 ^ 31 \<and>
     (\<forall>e \<in> set entries. wf_oid (fst e) \<and> oid_algo (fst e) = algo)"

lemma oid_as_bytes_inject:
  "oid_algo x = oid_algo y \<Longrightarrow> oid_as_bytes x = oid_as_bytes y \<Longrightarrow> x = y"
  by (cases x; cases y) auto

lemma built_idx_resolves:
  assumes ok: "idx_entries_ok algo entries" and "length trailer = raw_len algo"
    and "\<And>x. length (digest algo x) = raw_len algo"
  shows "\<exists>ix. idx_parse (build_idx digest algo entries trailer) algo = Inr ix \<and>
    ix_algo ix = algo \<and> resolves ix entries"
proof -
  let ?es = "idx_sort entries"
  have set_es: "set ?es = set entries" and len_es: "length ?es = length entries"
    by (simp_all add: idx_sort_def)
  obtain out large where words: "offset_words [] ?es = (out, large)"
    by fastforce
  then obtain ws where ws: "out = concat (map (be_bytes 4) ws)" "length large \<le> length ?es"
    "list_all2 (\<lambda>w e. word_for large w (fst (snd e))) ws ?es"
    using offset_words_correct [OF words] by auto
  have "\<exists>sum. length sum = raw_len algo \<and>
      build_idx digest algo entries trailer = idx_file ?es ws large (trailer @ sum)"
    using words ws(1) assms(3) by (simp add: build_idx_def idx_file_def Let_def)
  then obtain sum where "length sum = raw_len algo" and built:
    "build_idx digest algo entries trailer = idx_file ?es ws large (trailer @ sum)"
    by blast
  let ?ix = "idx_reader algo ?es ws large (trailer @ sum)"
  have raw: "oid_algo x = algo \<Longrightarrow> wf_oid x \<Longrightarrow> length (oid_as_bytes x) = raw_len algo" for x
    by (cases x) (auto simp: wf_oid_def)
  have wf: "idx_wf algo ?es ws (trailer @ sum)"
    using ok assms(2) \<open>length sum = raw_len algo\<close> list_all2_lengthD [OF ws(3)] raw
    by (auto simp: idx_wf_def set_es len_es idx_entries_ok_def)
  have "oid_algo x = algo" if "x \<in> fst ` set entries" for x
    using ok that by (auto simp: idx_entries_ok_def)
  then have "inj_on oid_as_bytes (fst ` set entries)"
    by (intro inj_onI oid_as_bytes_inject) simp
  with ok have "distinct (map oid_as_bytes (map fst entries))"
    by (simp add: distinct_map idx_entries_ok_def del: map_map)
  then have "distinct (map entry_oid entries)"
    by (simp add: comp_def)
  then have sorted: "sorted_wrt (<) (map entry_oid ?es)"
    unfolding strict_sorted_iff by (auto simp: idx_sort_def distinct_map)
  have nil: "[] \<notin> set (map entry_oid ?es)"
    using ok by (force simp: set_es idx_entries_ok_def dest: wf_oid_not_Nil)
  have "resolves ?ix entries"
    unfolding resolves_def
  proof (intro allI impI)
    fix oid assume oid: "wf_oid oid" "oid_algo oid = ix_algo ?ix"
    obtain r where r: "idx_lookup ?ix oid = Inr r" and res:
      "case r of Some m \<Rightarrow> unat m < length ?es \<and> entry_oid (?es ! unat m) = oid_as_bytes oid
       | None \<Rightarrow> oid_as_bytes oid \<notin> set (map entry_oid ?es)"
      using lookup_reader [OF wf sorted oid(1) nil] by blast
    show "case idx_lookup ?ix oid of Inl e \<Rightarrow> False
        | Inr None \<Rightarrow> oid \<notin> fst ` set entries
        | Inr (Some i) \<Rightarrow> \<exists>offset crc. (oid, offset, crc) \<in> set entries \<and> idx_offset_at ?ix i = Inr offset"
    proof (cases r)
      case None
      with r res set_es show ?thesis by force
    next
      case (Some m)
      obtain oid' offset crc where e: "?es ! unat m = (oid', offset, crc)"
        by (metis prod.exhaust)
      with res Some have m: "unat m < length ?es" "oid_as_bytes oid' = oid_as_bytes oid" by auto
      then have mem: "(oid', offset, crc) \<in> set entries"
        using nth_mem [of "unat m" ?es] by (simp add: e set_es)
      then have "oid_algo oid' = algo"
        using ok unfolding idx_entries_ok_def by force
      then have "oid' = oid"
        using m(2) oid(2) by (intro oid_as_bytes_inject) (simp_all add: idx_reader_def Let_def)
      moreover have "word_for large (ws ! unat m) offset"
        using list_all2_nthD2 [OF ws(3) m(1)] by (simp add: e)
      then have "idx_offset_at ?ix m = Inr offset"
        using offset_at_reader [OF wf m(1)] ws(2) ok len_es by (simp add: idx_entries_ok_def)
      ultimately show ?thesis
        using r Some mem by auto
    qed
  qed
  moreover have "ix_algo ?ix = algo"
    by (simp add: idx_reader_def Let_def)
  ultimately show ?thesis
    using idx_parse_file [OF wf] built by metis
qed

section \<open>Reads inside an accepted file\<close>

lemma check_fanout_sorted:
  "check_fanout data prev is = Inr () \<Longrightarrow>
   (\<forall>i \<in> set is. \<exists>v. read_u32 data (8 + i * 4) = Inr v \<and> prev \<le> v) \<and>
   sorted_wrt (\<lambda>i j. \<forall>v w. read_u32 data (8 + i * 4) = Inr v \<longrightarrow> read_u32 data (8 + j * 4) = Inr w \<longrightarrow> v \<le> w) is"
proof (induction "is" arbitrary: prev)
  case Nil
  then show ?case by simp
next
  case (Cons i "is")
  then obtain v where v: "read_u32 data (8 + i * 4) = Inr v" "\<not> v < prev" "check_fanout data v is = Inr ()"
    by (auto simp: bindR_eq_Inr split: if_splits)
  from Cons.IH [OF v(3)] v(1,2) show ?case
    by (fastforce simp: not_less)
qed

lemma index_slice_in: "i \<le> j \<Longrightarrow> j \<le> length xs \<Longrightarrow> \<exists>s. index_slice i j xs = Inr s"
  by (simp add: index_slice_def slice_get_def)

lemma index_slice_read: "at + 4 \<le> length data \<Longrightarrow> \<exists>v. read_u32 data at = Inr v"
  using index_slice_in [of at "at + 4" data] by (auto simp: read_u32_def)

text \<open>What the checks of \<open>idx_parse\<close> leave true of the reader.\<close>

definition idx_valid :: "pack_index \<Rightarrow> bool" where
  "idx_valid ix \<longleftrightarrow>
     (let n = unat (ix_len ix); raw = raw_len (ix_algo ix); data = ix_map ix
      in ix_offsets_at ix + n * 4 + ix_large_count ix * 8 \<le> length data \<and>
         ix_oids_at ix + n * raw \<le> length data \<and>
         ix_large_at ix + ix_large_count ix * 8 \<le> length data \<and>
         (\<forall>b < 256. \<exists>v. read_u32 data (8 + b * 4) = Inr v \<and> v \<le> ix_len ix))"

lemma idx_parse_valid:
  assumes "idx_parse data algo = Inr ix"
  shows "idx_valid ix \<and> ix_algo ix = algo"
proof -
  obtain len where len: "read_u32 data (8 + 255 * 4) = Inr len"
    and fo: "check_fanout data 0 [0..<256] = Inr ()"
    and size_ok: "1032 + unat len * raw_len algo + unat len * 4 + unat len * 4 + 2 * raw_len algo \<le> length data"
    and ix: "ix = \<lparr>ix_map = data, ix_algo = algo, ix_len = len, ix_oids_at = 8 + 256 * 4,
        ix_offsets_at = 8 + 256 * 4 + unat len * raw_len algo + unat len * 4,
        ix_large_at = 8 + 256 * 4 + unat len * raw_len algo + unat len * 4 + unat len * 4,
        ix_large_count = (length data - 2 * raw_len algo -
          (8 + 256 * 4 + unat len * raw_len algo + unat len * 4 + unat len * 4)) div 8\<rparr>"
    using assms by (auto simp: idx_parse_def bindR_eq_Inr Let_def not_less split: if_splits)
  have "\<exists>v. read_u32 data (8 + b * 4) = Inr v \<and> v \<le> len" if "b < 256" for b
  proof -
    have "b \<in> set [0..<256]"
      using \<open>b < 256\<close> by simp
    then obtain v where v: "read_u32 data (8 + b * 4) = Inr v"
      using check_fanout_sorted [OF fo] by blast
    have "v \<le> len" if "b < 255"
      using check_fanout_sorted [OF fo] v len that
      by (auto simp: sorted_wrt_iff_nth_less dest!: spec [of _ b] spec [of _ 255])
    moreover have "v = len" if "b = 255"
      using v len that by simp
    ultimately show ?thesis
      using v \<open>b < 256\<close> by (cases "b = 255") auto
  qed
  then show ?thesis
    using size_ok by (simp add: ix idx_valid_def Let_def)
qed

lemma idx_search_total:
  assumes "idx_valid ix"
  shows "hi \<le> ix_len ix \<Longrightarrow> \<exists>r. idx_search ix want lo hi = Inr r \<and>
    (\<forall>i. r = Some i \<longrightarrow> i < ix_len ix \<and> idx_oid_at ix i = Inr (mk_oid (ix_algo ix) want))"
proof (induction "unat hi - unat lo" arbitrary: lo hi rule: less_induct)
  case less
  let ?mid = "lo + (hi - lo) div 2" and ?raw = "raw_len (ix_algo ix)"
  show ?case
  proof (cases "lo < hi")
    case False
    then show ?thesis by (subst idx_search.simps) auto
  next
    case True
    note mid = mid_bounds(2-4) [OF True]
    have in_len: "unat ?mid < unat (ix_len ix)"
      using mid(2) less.prems by (simp add: word_le_nat_alt)
    then have lt: "?mid < ix_len ix" and le: "?mid \<le> ix_len ix"
      by (simp_all add: word_less_nat_alt word_le_nat_alt)
    have "unat ?mid * ?raw + ?raw \<le> unat (ix_len ix) * ?raw"
      using in_len mult_le_mono1 [of "Suc (unat ?mid)" "unat (ix_len ix)" ?raw] by simp
    then have "ix_oids_at ix + unat ?mid * ?raw + ?raw \<le> length (ix_map ix)"
      using assms by (simp add: idx_valid_def Let_def)
    then obtain s where s: "index_slice (ix_oids_at ix + unat ?mid * ?raw)
        (ix_oids_at ix + unat ?mid * ?raw + ?raw) (ix_map ix) = Inr s"
      using index_slice_in le_add1 by blast
    have step: "idx_search ix want lo hi = (if s < want then idx_search ix want (?mid + 1) hi
         else if want < s then idx_search ix want lo ?mid else Inr (Some ?mid))"
      using s True by (subst idx_search.simps) (simp add: Let_def)
    consider "s < want" | "want < s" | "s = want"
      by (meson linorder_neqE)
    then show ?thesis
    proof cases
      case 1
      have "unat hi - unat (?mid + 1) < unat hi - unat lo"
        using mid by linarith
      from less.hyps [OF this less.prems] 1 show ?thesis by (simp add: step)
    next
      case 2
      have "unat ?mid - unat lo < unat hi - unat lo"
        using mid by linarith
      from less.hyps [OF this le] 2 show ?thesis
        by (simp add: step less_not_sym)
    next
      case 3
      then show ?thesis
        using s lt by (simp add: step idx_oid_at_def Let_def)
    qed
  qed
qed

lemma idx_offset_total:
  assumes "idx_valid ix" and "i < ix_len ix"
  shows "idx_offset_at ix i \<noteq> Inl PackPanic"
proof -
  have "unat i < unat (ix_len ix)"
    using assms(2) by (simp add: word_less_nat_alt)
  then have "ix_offsets_at ix + unat i * 4 + 4 \<le> length (ix_map ix)"
    using assms(1) by (simp add: idx_valid_def Let_def)
  then obtain w where w: "read_u32 (ix_map ix) (ix_offsets_at ix + unat i * 4) = Inr w"
    using index_slice_read by blast
  have "\<exists>s. index_slice (ix_large_at ix + k * 8) (ix_large_at ix + k * 8 + 8) (ix_map ix) = Inr s"
    if "k < ix_large_count ix" for k
    using assms(1) that by (intro index_slice_in) (simp_all add: idx_valid_def Let_def)
  with w show ?thesis
    by (auto simp: idx_offset_at_def Let_def not_le) (metis bindR_simps(2) sum.distinct(1))
qed

section \<open>Properties\<close>

text \<open>The index written for entries with distinct ids is accepted by the reader, and looking
  up any id of the hash algorithm finds an entry exactly when there is one, with its pack
  offset, small or large.\<close>

theorem idx_round_trip:
  assumes "idx_entries_ok algo entries" and "length trailer = raw_len algo"
    and "\<And>x. length (digest algo x) = raw_len algo"
  shows "\<exists>ix. idx_parse (build_idx digest algo entries trailer) algo = Inr ix \<and>
    ix_algo ix = algo \<and> resolves ix entries"
  using assms by (rule built_idx_resolves)

definition sample_entries :: "idx_entry list" where
  "sample_entries = [(OidSha1 (replicate 20 7), 12, 1), (OidSha1 (replicate 20 3), 0x123456789, 2)]"

definition zero_digest :: "hash_algo \<Rightarrow> bytes \<Rightarrow> bytes" where
  "zero_digest algo x = replicate (raw_len algo) 0"

theorem idx_round_trip_witness:
  "\<exists>ix. idx_parse (build_idx zero_digest Sha1 sample_entries (replicate 20 0)) Sha1 = Inr ix \<and>
    ix_algo ix = Sha1 \<and> resolves ix sample_entries"
  by (rule idx_round_trip)
    (simp_all add: idx_entries_ok_def sample_entries_def zero_digest_def wf_oid_def)

text \<open>On any file the reader accepts, however it was made, a lookup ends without an index out
  of range; what it finds is the asked id, at a position whose offset is read in range too.\<close>

theorem idx_reads_in_range:
  assumes "idx_parse data algo = Inr ix" and "wf_oid oid" and "oid_algo oid = algo"
  shows "\<exists>r. idx_lookup ix oid = Inr r \<and>
    (\<forall>i. r = Some i \<longrightarrow> i < ix_len ix \<and> idx_oid_at ix i = Inr oid \<and> idx_offset_at ix i \<noteq> Inl PackPanic)"
proof -
  have valid: "idx_valid ix" and algo: "ix_algo ix = algo"
    using idx_parse_valid [OF assms(1)] by simp_all
  obtain b rest where want: "oid_as_bytes oid = b # rest"
    using wf_oid_not_Nil [OF assms(2)] by (auto simp: neq_Nil_conv)
  have rd: "\<exists>v. read_u32 (ix_map ix) (8 + k * 4) = Inr v \<and> v \<le> ix_len ix" if "k < 256" for k
    using valid that by (simp add: idx_valid_def Let_def)
  obtain hi where hi: "read_u32 (ix_map ix) (8 + unat b * 4) = Inr hi" "hi \<le> ix_len ix"
    using rd [of "unat b"] unat_u8_less by blast
  obtain lo where "(if unat b = 0 then Inr 0 else read_u32 (ix_map ix) (8 + (unat b - 1) * 4)) = Inr lo"
  proof -
    have "unat b - 1 < 256"
      using unat_u8_less [of b] by simp
    from rd [OF this] show thesis
      using that by (cases "unat b = 0") auto
  qed
  then have "idx_lookup ix oid = idx_search ix (oid_as_bytes oid) lo hi"
    using hi(1) by (simp add: idx_lookup_def want Let_def)
  moreover have "mk_oid algo (oid_as_bytes oid) = oid"
    using assms(3) by (cases oid) auto
  ultimately show ?thesis
    using idx_search_total [OF valid hi(2)] idx_offset_total [OF valid] algo by metis
qed

theorem idx_reads_in_range_witness:
  "\<exists>ix r. idx_parse (build_idx zero_digest Sha1 sample_entries (replicate 20 0)) Sha1 = Inr ix \<and>
    idx_lookup ix (OidSha1 (replicate 20 7)) = Inr r"
proof -
  obtain ix where ix: "idx_parse (build_idx zero_digest Sha1 sample_entries (replicate 20 0)) Sha1 = Inr ix"
    using built_idx_resolves [of Sha1 sample_entries "replicate 20 0" zero_digest]
    by (auto simp: idx_entries_ok_def sample_entries_def zero_digest_def wf_oid_def)
  then show ?thesis
    using idx_reads_in_range [OF ix, of "OidSha1 (replicate 20 7)"] by (auto simp: wf_oid_def)
qed

end
