(* ===== verification/Delta_Cache.thy ===== *)
theory Delta_Cache
  imports Git_Object "HOL-Library.AList" "HOL-Library.Multiset" "HOL-Library.Product_Lexorder"
begin

text \<open>
  \<^verbatim>\<open>alt-git-pack/src/cache.rs\<close>: the delta-base cache, a least-recently-used map from
  pack offsets to objects with a byte budget.  The \<^verbatim>\<open>HashMap\<close> is an association list
  with distinct keys; its iteration order is not observable, since eviction sorts.
\<close>

section \<open>The cache\<close>

record cache_entry =
  ce_kind :: object_kind
  ce_data :: bytes
  ce_last :: u64

record delta_cache =
  dc_map :: "(u64 \<times> cache_entry) list"
  dc_bytes :: nat
  dc_budget :: nat
  dc_tick :: u64

definition DEFAULT_BUDGET :: nat where
  "DEFAULT_BUDGET = 96 * 1024 * 1024"

definition cache_new :: "nat \<Rightarrow> delta_cache" where
  "cache_new budget = \<lparr>dc_map = [], dc_bytes = 0, dc_budget = budget, dc_tick = 0\<rparr>"

definition cache_get :: "delta_cache \<Rightarrow> u64 \<Rightarrow> (object_kind \<times> bytes) option \<times> delta_cache" where
  "cache_get c offset =
     (let c' = c\<lparr>dc_tick := dc_tick c + 1\<rparr>
      in case map_of (dc_map c') offset of
           None \<Rightarrow> (None, c')
         | Some e \<Rightarrow> (Some (ce_kind e, ce_data e),
             c'\<lparr>dc_map := AList.update offset (e\<lparr>ce_last := dc_tick c'\<rparr>) (dc_map c')\<rparr>))"

fun evict_loop :: "nat \<Rightarrow> (u64 \<times> u64 \<times> nat) list \<Rightarrow> delta_cache \<Rightarrow> delta_cache" where
  "evict_loop target [] c = c"
| "evict_loop target ((_, off, sz) # rest) c =
     (if dc_bytes c \<le> target then c
      else evict_loop target rest
        (c\<lparr>dc_map := AList.delete off (dc_map c), dc_bytes := dc_bytes c - sz\<rparr>))"

definition by_age :: "(u64 \<times> cache_entry) list \<Rightarrow> (u64 \<times> u64 \<times> nat) list" where
  "by_age m = sort (map (\<lambda>(off, e). (ce_last e, off, length (ce_data e))) m)"

definition evict_to :: "nat \<Rightarrow> delta_cache \<Rightarrow> delta_cache" where
  "evict_to target c = evict_loop target (by_age (dc_map c)) c"

definition cache_put :: "u64 \<Rightarrow> object_kind \<Rightarrow> bytes \<Rightarrow> delta_cache \<Rightarrow> delta_cache" where
  "cache_put offset kind data c =
     (if dc_budget c div 4 < length data then c
      else
        let c1 = c\<lparr>dc_tick := dc_tick c + 1\<rparr>;
            old = map_of (dc_map c1) offset;
            c2 = c1\<lparr>dc_map := AList.update offset
              \<lparr>ce_kind = kind, ce_data = data, ce_last = dc_tick c1\<rparr> (dc_map c1)\<rparr>;
            c3 = c2\<lparr>dc_bytes := (case old of None \<Rightarrow> dc_bytes c2
              | Some e \<Rightarrow> dc_bytes c2 - length (ce_data e))\<rparr>;
            c4 = c3\<lparr>dc_bytes := dc_bytes c3 + length data\<rparr>
        in if dc_budget c4 < dc_bytes c4 then evict_to (dc_budget c4 div 2) c4 else c4)"

text \<open>What the cache holds, its ages left aside.\<close>

definition cached :: "delta_cache \<Rightarrow> u64 \<Rightarrow> (object_kind \<times> bytes) option" where
  "cached c off = map_option (\<lambda>e. (ce_kind e, ce_data e)) (map_of (dc_map c) off)"

section \<open>Accounting\<close>

definition map_bytes :: "(u64 \<times> cache_entry) list \<Rightarrow> nat" where
  "map_bytes m = (\<Sum>(off, e) \<leftarrow> m. length (ce_data e))"

definition cache_ok :: "delta_cache \<Rightarrow> bool" where
  "cache_ok c \<longleftrightarrow> distinct (map fst (dc_map c)) \<and> dc_bytes c = map_bytes (dc_map c) \<and>
     dc_bytes c \<le> dc_budget c \<and>
     (\<forall>(off, e) \<in> set (dc_map c). length (ce_data e) \<le> dc_budget c div 4 \<and> ce_last e \<le> dc_tick c)"

lemma map_bytes_simps [simp]:
  "map_bytes [] = 0"
  "map_bytes ((off, e) # m) = length (ce_data e) + map_bytes m"
  by (simp_all add: map_bytes_def)

lemma map_bytes_update:
  "distinct (map fst m) \<Longrightarrow>
   map_bytes (AList.update off e m) + (case map_of m off of None \<Rightarrow> 0 | Some e0 \<Rightarrow> length (ce_data e0))
     = map_bytes m + length (ce_data e)"
  by (induction m) (auto split: option.split simp del: map_of_eq_Some_iff)

lemma map_bytes_delete:
  "distinct (map fst m) \<Longrightarrow> map_of m off = Some e \<Longrightarrow>
   map_bytes (AList.delete off m) + length (ce_data e) = map_bytes m"
proof (induction m)
  case Nil
  then show ?case by simp
next
  case (Cons p m)
  obtain off' e' where p: "p = (off', e')" by fastforce
  have "AList.delete off m = m" if "off \<notin> fst ` set m"
    using that by (simp add: delete_id)
  with Cons p show ?case
    by (cases "off' = off") (auto simp: AList.delete_eq dest: map_of_SomeD)
qed

lemma map_of_entry_le: "map_of m off = Some e \<Longrightarrow> length (ce_data e) \<le> map_bytes m"
  by (induction m) (auto split: if_splits)

section \<open>Eviction\<close>

definition age_entry :: "u64 \<times> cache_entry \<Rightarrow> u64 \<times> u64 \<times> nat" where
  "age_entry = (\<lambda>(off, e). (ce_last e, off, length (ce_data e)))"

definition offs :: "(u64 \<times> u64 \<times> nat) list \<Rightarrow> u64 list" where
  "offs = map (\<lambda>x. fst (snd x))"

text \<open>The list still to be looked at names exactly the entries still in the map.\<close>

definition lists_map :: "(u64 \<times> u64 \<times> nat) list \<Rightarrow> (u64 \<times> cache_entry) list \<Rightarrow> bool" where
  "lists_map ages m \<longleftrightarrow> distinct (map fst m) \<and> distinct (offs ages) \<and> age_entry ` set m = set ages"

lemma lists_map_by_age:
  assumes "distinct (map fst m)"
  shows "lists_map (by_age m) m"
proof -
  have "mset (offs (by_age m)) = mset (map fst m)"
    unfolding by_age_def offs_def mset_map mset_sort
    by (simp add: comp_def case_prod_unfold flip: mset_map)
  then have "distinct (offs (by_age m))"
    using assms mset_eq_imp_distinct_iff by blast
  with assms show ?thesis
    by (simp add: lists_map_def by_age_def age_entry_def)
qed

lemma lists_map_head:
  assumes "lists_map ((l, off, sz) # rest) m"
  obtains e where "map_of m off = Some e" and "length (ce_data e) = sz"
    and "lists_map rest (AList.delete off m)"
proof -
  have d: "distinct (map fst m)" and mem: "(l, off, sz) \<in> age_entry ` set m"
    using assms by (auto simp: lists_map_def)
  then obtain e where e: "(off, e) \<in> set m" "length (ce_data e) = sz"
    by (auto simp: age_entry_def)
  then have "map_of m off = Some e" using d by simp
  moreover have "lists_map rest (AList.delete off m)"
  proof -
    have "age_entry ` set (AList.delete off m) = {x \<in> age_entry ` set m. fst (snd x) \<noteq> off}"
      by (auto simp: AList.delete_eq age_entry_def)
    also have "\<dots> = {x \<in> set ((l, off, sz) # rest). fst (snd x) \<noteq> off}"
      using assms by (simp add: lists_map_def)
    also have "\<dots> = {x \<in> set rest. fst (snd x) \<noteq> off}"
      by auto
    also have "\<dots> = set rest"
    proof -
      have "off \<notin> (\<lambda>x. fst (snd x)) ` set rest"
        using assms by (simp add: lists_map_def offs_def)
      then show ?thesis by auto
    qed
    finally show ?thesis
      using assms by (simp add: lists_map_def distinct_delete offs_def)
  qed
  ultimately show thesis using e(2) that by blast
qed

lemma lists_map_Nil: "lists_map [] m \<longleftrightarrow> m = []"
  by (auto simp: lists_map_def offs_def)

text \<open>
  An eviction drops a prefix of the list, just long enough to reach the target, and keeps
  the rest as it was.
\<close>

definition evicts ::
  "nat \<Rightarrow> delta_cache \<Rightarrow> delta_cache \<Rightarrow> (u64 \<times> u64 \<times> nat) list \<Rightarrow> (u64 \<times> u64 \<times> nat) list \<Rightarrow> bool" where
  "evicts target c c' dropped kept \<longleftrightarrow>
     lists_map kept (dc_map c') \<and> dc_bytes c' = map_bytes (dc_map c') \<and> dc_bytes c' \<le> target \<and>
     dc_budget c' = dc_budget c \<and> dc_tick c' = dc_tick c \<and>
     (\<forall>off. map_of (dc_map c') off = (if off \<in> set (offs dropped) then None else map_of (dc_map c) off)) \<and>
     dc_bytes c = dc_bytes c' + sum_list (map (snd \<circ> snd) dropped) \<and>
     (dropped \<noteq> [] \<longrightarrow> target < dc_bytes c' + snd (snd (last dropped)))"

lemma evict_loop_splits:
  "lists_map ages (dc_map c) \<Longrightarrow> dc_bytes c = map_bytes (dc_map c) \<Longrightarrow>
   \<exists>dropped kept. ages = dropped @ kept \<and> evicts target c (evict_loop target ages c) dropped kept"
proof (induction target ages c rule: evict_loop.induct)
  case (1 target c)
  then show ?case
    by (intro exI [of _ "[]"]) (simp add: lists_map_Nil offs_def evicts_def)
next
  case (2 target l off sz rest c)
  obtain e where e: "map_of (dc_map c) off = Some e" "length (ce_data e) = sz"
    and lists: "lists_map rest (AList.delete off (dc_map c))"
    using lists_map_head [OF "2.prems"(1)] .
  show ?case
  proof (cases "dc_bytes c \<le> target")
    case True
    with "2.prems" show ?thesis
      by (intro exI [of _ "[]"] exI [of _ "(l, off, sz) # rest"]) (simp add: offs_def evicts_def)
  next
    case False
    define c1 where "c1 = c\<lparr>dc_map := AList.delete off (dc_map c), dc_bytes := dc_bytes c - sz\<rparr>"
    have d: "distinct (map fst (dc_map c))"
      using "2.prems"(1) by (simp add: lists_map_def)
    have bytes: "dc_bytes c1 + sz = dc_bytes c"
      using map_of_entry_le [OF e(1)] e(2) "2.prems"(2) by (simp add: c1_def)
    then have "dc_bytes c1 = map_bytes (dc_map c1)"
      using map_bytes_delete [OF d e(1)] e(2) "2.prems"(2) by (simp add: c1_def)
    then obtain dropped kept where split: "rest = dropped @ kept"
      and ev: "evicts target c1 (evict_loop target rest c1) dropped kept"
      using "2.IH" [OF False] lists by (auto simp: c1_def)
    have "evicts target c (evict_loop target rest c1) ((l, off, sz) # dropped) kept"
      using ev bytes False
      by (auto simp: evicts_def offs_def c1_def map_of_delete delete_conv' split: if_splits)
    with split False show ?thesis
      by (intro exI [of _ "(l, off, sz) # dropped"] exI [of _ kept]) (simp add: c1_def)
  qed
qed

section \<open>Every operation keeps the accounts\<close>

lemma cached_get: "cached (snd (cache_get c off)) = cached c" and fst_cache_get: "fst (cache_get c off) = cached c off"
  by (auto simp: cache_get_def cached_def Let_def fun_eq_iff update_conv' split: option.splits)

text \<open>The state of \<^verbatim>\<open>put\<close> before it evicts.\<close>

definition inserted :: "u64 \<Rightarrow> object_kind \<Rightarrow> bytes \<Rightarrow> delta_cache \<Rightarrow> delta_cache" where
  "inserted off kind data c =
     c\<lparr>dc_tick := dc_tick c + 1,
       dc_map := AList.update off \<lparr>ce_kind = kind, ce_data = data, ce_last = dc_tick c + 1\<rparr> (dc_map c),
       dc_bytes := (case map_of (dc_map c) off of None \<Rightarrow> dc_bytes c
         | Some e \<Rightarrow> dc_bytes c - length (ce_data e)) + length data\<rparr>"

lemma cache_put_inserted:
  "cache_put off kind data c =
     (if dc_budget c div 4 < length data then c
      else let c4 = inserted off kind data c
           in if dc_budget c < dc_bytes c4 then evict_to (dc_budget c div 2) c4 else c4)"
  by (cases "map_of (dc_map c) off") (simp_all add: cache_put_def inserted_def Let_def)

lemma word_succ_le:
  fixes t :: u64
  assumes "t \<noteq> - 1" and "x \<le> t"
  shows "x \<le> t + 1" and "x \<noteq> t + 1"
proof -
  have "1 + t \<noteq> 0"
    using assms(1) by (simp add: add_eq_0_iff)
  then have "t < t + 1"
    using unatSuc [of t] by (simp add: word_less_nat_alt add.commute)
  with assms(2) show "x \<le> t + 1" "x \<noteq> t + 1" by auto
qed

lemma set_update_subset: "set (AList.update k v m) \<subseteq> insert (k, v) (set m)"
  by (induction m) auto

lemma inserted_accounts:
  assumes "cache_ok c" and "dc_tick c \<noteq> - 1" and "length data \<le> dc_budget c div 4"
  shows "distinct (map fst (dc_map (inserted off kind data c)))"
    and "dc_bytes (inserted off kind data c) = map_bytes (dc_map (inserted off kind data c))"
    and "\<forall>(o', e) \<in> set (dc_map (inserted off kind data c)).
      length (ce_data e) \<le> dc_budget c div 4 \<and> ce_last e \<le> dc_tick c + 1"
proof -
  let ?e = "\<lparr>ce_kind = kind, ce_data = data, ce_last = dc_tick c + 1\<rparr>"
  have d: "distinct (map fst (dc_map c))" and b: "dc_bytes c = map_bytes (dc_map c)"
    and each: "\<forall>(off, e) \<in> set (dc_map c). length (ce_data e) \<le> dc_budget c div 4 \<and> ce_last e \<le> dc_tick c"
    using assms(1) by (auto simp: cache_ok_def)
  show "distinct (map fst (dc_map (inserted off kind data c)))"
    using d by (simp add: inserted_def distinct_update)
  show "dc_bytes (inserted off kind data c) = map_bytes (dc_map (inserted off kind data c))"
    using map_bytes_update [OF d, of off ?e] map_of_entry_le [of "dc_map c" off] b
    by (auto simp: inserted_def split: option.splits simp del: map_of_eq_Some_iff)
  show "\<forall>(o', e) \<in> set (dc_map (inserted off kind data c)).
      length (ce_data e) \<le> dc_budget c div 4 \<and> ce_last e \<le> dc_tick c + 1"
    using set_update_subset [of off ?e "dc_map c"] each assms(3) word_succ_le(1) [OF assms(2)]
    by (fastforce simp: inserted_def)
qed

lemma by_age_sorted: "sorted (by_age m)"
  by (simp add: by_age_def)

lemma evict_to_splits:
  assumes "distinct (map fst (dc_map c))" and "dc_bytes c = map_bytes (dc_map c)"
  obtains dropped kept where "by_age (dc_map c) = dropped @ kept"
    and "evicts target c (evict_to target c) dropped kept"
  using evict_loop_splits [OF lists_map_by_age [OF assms(1)] assms(2), of target]
  by (auto simp: evict_to_def)

lemma evicts_subset:
  assumes "evicts target c c' dropped kept"
  shows "map_of (dc_map c') off = Some e \<Longrightarrow> map_of (dc_map c) off = Some e"
  using assms by (auto simp: evicts_def split: if_splits)

lemma cache_put_ok:
  assumes "cache_ok c" and "dc_tick c \<noteq> - 1"
  shows "cache_ok (cache_put off kind data c)"
proof (cases "dc_budget c div 4 < length data")
  case True
  with assms(1) show ?thesis by (simp add: cache_put_inserted)
next
  case False
  then have le: "length data \<le> dc_budget c div 4" by simp
  let ?c = "inserted off kind data c"
  note acc = inserted_accounts [OF assms le]
  have budget: "dc_budget ?c = dc_budget c" "dc_tick ?c = dc_tick c + 1"
    by (simp_all add: inserted_def)
  show ?thesis
  proof (cases "dc_budget c < dc_bytes ?c")
    case True
    obtain dropped kept where ev: "evicts (dc_budget c div 2) ?c (evict_to (dc_budget c div 2) ?c) dropped kept"
      using evict_to_splits [OF acc(1,2)] by blast
    let ?c' = "evict_to (dc_budget c div 2) ?c"
    have dist: "distinct (map fst (dc_map ?c'))"
      using ev by (simp add: evicts_def lists_map_def)
    have "set (dc_map ?c') \<subseteq> set (dc_map ?c)"
      using evicts_subset [OF ev] dist acc(1) by auto
    with acc(3) budget have "\<forall>(o', e) \<in> set (dc_map ?c').
        length (ce_data e) \<le> dc_budget ?c' div 4 \<and> ce_last e \<le> dc_tick ?c'"
      using ev by (fastforce simp: evicts_def)
    with dist ev budget have "cache_ok ?c'"
      by (auto simp: cache_ok_def evicts_def)
    with True False show ?thesis
      by (simp add: cache_put_inserted Let_def)
  next
    case False
    with acc budget le show ?thesis
      by (simp add: cache_put_inserted Let_def cache_ok_def not_less)
  qed
qed

lemma cache_get_ok:
  assumes "cache_ok c" and "dc_tick c \<noteq> - 1"
  shows "cache_ok (snd (cache_get c off))"
proof (cases "map_of (dc_map c) off")
  case None
  with assms word_succ_le(1) [OF assms(2)] show ?thesis
    by (fastforce simp: cache_get_def cache_ok_def Let_def)
next
  case (Some e)
  let ?e = "e\<lparr>ce_last := dc_tick c + 1\<rparr>"
  have d: "distinct (map fst (dc_map c))"
    using assms(1) by (simp add: cache_ok_def)
  have "map_bytes (AList.update off ?e (dc_map c)) = map_bytes (dc_map c)"
    using map_bytes_update [OF d, of off ?e] Some by simp
  moreover have "\<forall>(o', e) \<in> set (AList.update off ?e (dc_map c)).
      length (ce_data e) \<le> dc_budget c div 4 \<and> ce_last e \<le> dc_tick c + 1"
  proof -
    have "length (ce_data e) \<le> dc_budget c div 4"
      "\<forall>(o', e) \<in> set (dc_map c). length (ce_data e) \<le> dc_budget c div 4 \<and> ce_last e \<le> dc_tick c + 1"
      using assms(1) map_of_SomeD [OF Some] word_succ_le(1) [OF assms(2)]
      by (auto simp: cache_ok_def)
    then show ?thesis
      using set_update_subset [of off ?e "dc_map c"] by auto
  qed
  ultimately show ?thesis
    using assms(1) Some by (simp add: cache_get_def cache_ok_def Let_def distinct_update)
qed

section \<open>What a put leaves in the cache\<close>

lemma sorted_le_last: "sorted xs \<Longrightarrow> x \<in> set xs \<Longrightarrow> x \<le> last xs"
  by (induction xs) auto

lemma inserted_lookup:
  "map_of (dc_map (inserted off kind data c)) =
     (map_of (dc_map c))(off \<mapsto> \<lparr>ce_kind = kind, ce_data = data, ce_last = dc_tick c + 1\<rparr>)"
  by (simp add: inserted_def update_conv')

text \<open>The entry just put is the youngest.\<close>

lemma youngest_last:
  assumes "cache_ok c" and "dc_tick c \<noteq> - 1" and "length data \<le> dc_budget c div 4"
  shows "last (by_age (dc_map (inserted off kind data c))) = (dc_tick c + 1, off, length data)"
    (is "last ?ages = ?top")
proof -
  let ?c = "inserted off kind data c"
  note acc = inserted_accounts [OF assms]
  have ages: "set ?ages = age_entry ` set (dc_map ?c)"
    by (simp add: by_age_def age_entry_def)
  have "(off, \<lparr>ce_kind = kind, ce_data = data, ce_last = dc_tick c + 1\<rparr>) \<in> set (dc_map ?c)"
    by (intro map_of_SomeD) (simp add: inserted_lookup)
  then have "?top \<in> set ?ages"
    unfolding ages by (force simp: age_entry_def)
  moreover have "x \<le> ?top" if x_in: "x \<in> set ?ages" for x
  proof -
    obtain o' e where x: "x = (ce_last e, o', length (ce_data e))" and mem: "(o', e) \<in> set (dc_map ?c)"
      using x_in unfolding ages by (auto simp: age_entry_def)
    then have look: "map_of (dc_map ?c) o' = Some e"
      using acc(1) by simp
    show ?thesis
    proof (cases "o' = off")
      case True
      with look show ?thesis by (auto simp: x inserted_lookup)
    next
      case False
      with look have "(o', e) \<in> set (dc_map c)"
        by (auto simp: inserted_lookup dest: map_of_SomeD)
      then have "ce_last e \<le> dc_tick c"
        using assms(1) by (auto simp: cache_ok_def)
      then have "ce_last e < dc_tick c + 1"
        using word_succ_le [OF assms(2)] by (metis order_less_le)
      then show ?thesis by (simp add: x)
    qed
  qed
  moreover have "?ages \<noteq> []"
    using calculation(1) by auto
  ultimately show ?thesis
    using sorted_le_last [OF by_age_sorted] by (meson last_in_set order_antisym)
qed

text \<open>It is no larger than the target either, so that eviction stops before it.\<close>

lemma put_survives:
  assumes "cache_ok c" and "dc_tick c \<noteq> - 1" and "length data \<le> dc_budget c div 4"
    and split: "by_age (dc_map (inserted off kind data c)) = dropped @ kept"
    and ev: "evicts (dc_budget c div 2) (inserted off kind data c) c' dropped kept"
  shows "off \<notin> set (offs dropped)"
proof
  assume "off \<in> set (offs dropped)"
  then have "dropped \<noteq> []" by (auto simp: offs_def)
  have dist: "distinct (offs (dropped @ kept))"
    using lists_map_by_age [OF inserted_accounts(1) [OF assms(1-3)], of off kind] unfolding split
    by (simp add: lists_map_def)
  have top: "last (dropped @ kept) = (dc_tick c + 1, off, length data)"
    using youngest_last [OF assms(1-3), of off kind] unfolding split .
  have "kept = []"
  proof (rule ccontr)
    assume "kept \<noteq> []"
    then have "last (dropped @ kept) \<in> set kept" by simp
    then have "off \<in> set (offs kept)"
      unfolding top by (force simp: offs_def)
    moreover have "offs (dropped @ kept) = offs dropped @ offs kept"
      by (simp add: offs_def)
    ultimately show False
      using dist \<open>off \<in> set (offs dropped)\<close> by auto
  qed
  then have "dc_map c' = []" "dc_bytes c' = 0" "snd (snd (last dropped)) = length data"
    using ev top by (simp_all add: evicts_def lists_map_Nil)
  moreover have "dc_budget c div 4 \<le> dc_budget c div 2"
    by (simp add: div_le_mono2)
  ultimately show False
    using ev \<open>dropped \<noteq> []\<close> assms(3) by (simp add: evicts_def)
qed

lemma cached_put:
  assumes "cache_ok c" and "dc_tick c \<noteq> - 1" and "length data \<le> dc_budget c div 4"
  shows "cached (cache_put off kind data c) off = Some (kind, data)"
    and "off' \<noteq> off \<Longrightarrow> cached (cache_put off kind data c) off' \<in> {None, cached c off'}"
proof -
  let ?c = "inserted off kind data c" and ?t = "dc_budget c div 2"
  obtain dropped kept where split: "by_age (dc_map ?c) = dropped @ kept"
    and ev: "evicts ?t ?c (evict_to ?t ?c) dropped kept"
    using evict_to_splits [OF inserted_accounts(1,2) [OF assms]] .
  have "map_of (dc_map (evict_to ?t ?c)) off = map_of (dc_map ?c) off"
    using put_survives [OF assms split ev] ev by (simp add: evicts_def)
  then show "cached (cache_put off kind data c) off = Some (kind, data)"
    using assms(3) by (simp add: cache_put_inserted Let_def cached_def inserted_lookup)
  assume "off' \<noteq> off"
  then show "cached (cache_put off kind data c) off' \<in> {None, cached c off'}"
    using ev assms(3) by (auto simp: cache_put_inserted Let_def cached_def inserted_lookup evicts_def)
qed

section \<open>A cache that may forget\<close>

text \<open>
  All a reader may assume of a cache: a get answers with what the cache holds and changes
  nothing of it, and after a put every key holds what it held, or nothing, or, for the key
  of the put, the value put.
\<close>

locale lossy_cache =
  fixes get :: "'c \<Rightarrow> 'k \<Rightarrow> 'v option \<times> 'c"
    and put :: "'k \<Rightarrow> 'v \<Rightarrow> 'c \<Rightarrow> 'c"
    and view :: "'c \<Rightarrow> 'k \<Rightarrow> 'v option"
  assumes get_view: "fst (get c k) = view c k"
    and get_keeps: "view (snd (get c k)) = view c"
    and put_view: "view (put k v c) k' = Some w \<Longrightarrow> view c k' = Some w \<or> (k' = k \<and> w = v)"
begin

lemma sound_get:
  assumes "\<forall>k v. view c k = Some v \<longrightarrow> R k v" and "get c k = (r, c')"
  shows "(\<forall>k v. view c' k = Some v \<longrightarrow> R k v) \<and> (\<forall>v. r = Some v \<longrightarrow> R k v)"
  using assms get_view [of c k] get_keeps [of c k] by simp

lemma sound_put:
  assumes "\<forall>k v. view c k = Some v \<longrightarrow> R k v" and "R k v"
  shows "\<forall>k' w. view (put k v c) k' = Some w \<longrightarrow> R k' w"
  using assms put_view by blast

end

lemma evict_loop_forgets:
  "map_of (dc_map (evict_loop target ages c)) off = Some e \<Longrightarrow> map_of (dc_map c) off = Some e"
  by (induction target ages c rule: evict_loop.induct)
    (auto simp: delete_conv' split: if_splits)

interpretation dc: lossy_cache cache_get "\<lambda>off (kind, data). cache_put off kind data" cached
proof unfold_locales
  show "fst (cache_get c k) = cached c k" for c k by (rule fst_cache_get)
  show "cached (snd (cache_get c k)) = cached c" for c k by (rule cached_get)
  show "cached ((case v of (kind, data) \<Rightarrow> cache_put k kind data) c) k' = Some w \<Longrightarrow>
      cached c k' = Some w \<or> (k' = k \<and> w = v)" for k v c k' w
    by (cases v) (auto simp: cache_put_inserted evict_to_def Let_def cached_def inserted_lookup
        split: if_splits dest!: evict_loop_forgets)
qed

section \<open>Sequences of operations\<close>

datatype cache_op = Get u64 | Put u64 object_kind bytes

fun run_cache_op :: "cache_op \<Rightarrow> delta_cache \<Rightarrow> delta_cache" where
  "run_cache_op (Get off) c = snd (cache_get c off)"
| "run_cache_op (Put off kind data) c = cache_put off kind data c"

lemma evict_to_tick: "dc_tick (evict_to t c) = dc_tick c" "dc_budget (evict_to t c) = dc_budget c"
proof -
  have "dc_tick (evict_loop t ages c) = dc_tick c \<and> dc_budget (evict_loop t ages c) = dc_budget c" for ages
    by (induction t ages c rule: evict_loop.induct) auto
  then show "dc_tick (evict_to t c) = dc_tick c" "dc_budget (evict_to t c) = dc_budget c"
    by (simp_all add: evict_to_def)
qed

lemma cache_op_tick: "dc_tick (run_cache_op op c) \<in> {dc_tick c, dc_tick c + 1}"
  by (cases op) (auto simp: cache_get_def cache_put_inserted evict_to_tick inserted_def Let_def
      split: option.splits)

lemma cache_op_budget: "dc_budget (run_cache_op op c) = dc_budget c"
  by (cases op) (auto simp: cache_get_def cache_put_inserted evict_to_tick inserted_def Let_def
      split: option.splits)

lemma unat_max: "unat (- 1 :: u64) = 2 ^ 64 - 1"
  by (simp add: unsigned_minus_1_eq_mask mask_eq_exp_minus_1)

lemma cache_ops_ok:
  "cache_ok c \<Longrightarrow> unat (dc_tick c) + length ops < 2 ^ 64 \<Longrightarrow>
   cache_ok (fold run_cache_op ops c) \<and> dc_budget (fold run_cache_op ops c) = dc_budget c \<and>
   unat (dc_tick (fold run_cache_op ops c)) \<le> unat (dc_tick c) + length ops"
proof (induction ops arbitrary: c)
  case Nil
  then show ?case by simp
next
  case (Cons op ops)
  have "dc_tick c \<noteq> - 1"
  proof
    assume "dc_tick c = - 1"
    with Cons.prems(2) show False by (simp add: unat_max)
  qed
  then have "1 + dc_tick c \<noteq> 0"
    by (simp add: add_eq_0_iff)
  then have "unat (dc_tick c + 1) = Suc (unat (dc_tick c))"
    by (subst add.commute) (rule unatSuc)
  then have t: "unat (dc_tick (run_cache_op op c)) \<le> Suc (unat (dc_tick c))"
    using cache_op_tick [of op c] by auto
  have "cache_ok (run_cache_op op c)"
    using Cons.prems(1) \<open>dc_tick c \<noteq> - 1\<close> by (cases op) (auto simp: cache_get_ok cache_put_ok)
  from Cons.IH [OF this] t Cons.prems(2) show ?case
    by (auto simp: cache_op_budget)
qed

lemma cache_new_ok: "cache_ok (cache_new budget)"
  by (simp add: cache_ok_def cache_new_def)

section \<open>Properties\<close>

text \<open>After any sequence of fewer than \<open>2 ^ 64\<close> gets and puts on a new cache, the byte count is
  exactly the size of the cached objects and within the budget.\<close>

theorem cache_accounts:
  assumes "length ops < 2 ^ 64"
  shows "cache_ok (fold run_cache_op ops (cache_new budget)) \<and>
    dc_bytes (fold run_cache_op ops (cache_new budget)) \<le> budget"
proof -
  have "unat (dc_tick (cache_new budget)) + length ops < 2 ^ 64"
    using assms by (simp add: cache_new_def)
  from cache_ops_ok [OF cache_new_ok this]
  show ?thesis by (auto simp: cache_ok_def cache_new_def)
qed

definition sample_cache_ops :: "cache_op list" where
  "sample_cache_ops = [Put 12 Blob (lit ''a''), Get 12, Put 40 Tree (lit ''bb''), Put 60 Blob (lit ''cc'')]"

theorem cache_accounts_witness:
  "cache_ok (fold run_cache_op sample_cache_ops (cache_new 8)) \<and>
   dc_bytes (fold run_cache_op sample_cache_ops (cache_new 8)) = 5"
proof
  show "cache_ok (fold run_cache_op sample_cache_ops (cache_new 8))"
    using cache_accounts [of sample_cache_ops 8] by (simp add: sample_cache_ops_def)
  show "dc_bytes (fold run_cache_op sample_cache_ops (cache_new 8)) = 5"
    by (simp add: sample_cache_ops_def cache_new_def cache_put_def cache_get_def Let_def)
qed

text \<open>An object of at most a quarter of the budget is in the cache right after it is put,
  whatever was evicted for it; every other offset either keeps its object or is evicted, and
  a get answers with what is cached and changes nothing but the ages.\<close>

theorem cache_put_get:
  assumes "cache_ok c" and "dc_tick c \<noteq> - 1" and "length data \<le> dc_budget c div 4"
  shows "fst (cache_get (cache_put off kind data c) off) = Some (kind, data) \<and>
    (\<forall>off'. off' \<noteq> off \<longrightarrow> fst (cache_get (cache_put off kind data c) off') \<in> {None, fst (cache_get c off')}) \<and>
    (\<forall>off'. cached (snd (cache_get c off')) = cached c)"
  using cached_put(1) [OF assms, of off kind] cached_put(2) [OF assms, of _ off kind]
  by (simp add: fst_cache_get cached_get)

theorem cache_put_get_witness:
  "fst (cache_get (cache_put 60 Blob (lit ''ccc'') (fold run_cache_op sample_cache_ops (cache_new 16))) 60)
     = Some (Blob, lit ''ccc'')"
proof -
  have ops: "unat (dc_tick (cache_new 16)) + length sample_cache_ops < 2 ^ 64"
    by (simp add: cache_new_def sample_cache_ops_def)
  have "dc_tick (fold run_cache_op sample_cache_ops (cache_new 16)) \<noteq> - 1"
  proof
    assume "dc_tick (fold run_cache_op sample_cache_ops (cache_new 16)) = - 1"
    then show False
      using cache_ops_ok [OF cache_new_ok ops]
      by (simp add: cache_new_def sample_cache_ops_def unat_max)
  qed
  then show ?thesis
    using cache_put_get [of "fold run_cache_op sample_cache_ops (cache_new 16)" "lit ''ccc''" 60 Blob]
      cache_ops_ok [OF cache_new_ok ops] by (simp add: cache_new_def)
qed

end
