(* ===== verification/Pack_Store.thy ===== *)
theory Pack_Store
  imports Git_Idx Delta_Cache
begin

text \<open>
  \<^verbatim>\<open>alt-git-pack/src/lib.rs\<close>, reading objects out of an indexed pack through delta chains
  and the delta-base cache, and \<^verbatim>\<open>PackWriter\<close> of \<^verbatim>\<open>write.rs\<close>.  The zlib codec
  (\<open>inflate_raw\<close>, \<open>deflate\<close>), the pack digest and the crc are parameters.
\<close>

section \<open>Reading\<close>

record indexed_pack =
  ip_idx :: pack_index
  ip_pack :: pack

type_synonym packed_object = "object_kind \<times> bytes"

definition indexed_pack_open :: "bytes \<Rightarrow> bytes \<Rightarrow> hash_algo \<Rightarrow> pack_error + indexed_pack \<times> delta_cache" where
  "indexed_pack_open idx_data pack_data algo =
     bindR (idx_parse idx_data algo) (\<lambda>idx.
     bindR (pack_parse pack_data algo) (\<lambda>pack.
       Inr (\<lparr>ip_idx = idx, ip_pack = pack\<rparr>, cache_new DEFAULT_BUDGET)))"

text \<open>
  One turn of the loop of \<^verbatim>\<open>read_at\<close> down the delta chain: it breaks with an object (or
  fails), or pushes a frame and goes on at the base of the delta.
\<close>

type_synonym frames = "(u64 \<times> pack_entry_info) list"

datatype turn = Stop "pack_error + packed_object" delta_cache | Down pack_entry_info u64 delta_cache

definition walk_turn ::
  "(bytes \<Rightarrow> bytes option) \<Rightarrow> indexed_pack \<Rightarrow> delta_cache \<Rightarrow> u64 \<Rightarrow> turn" where
  "walk_turn inflate_raw ip c cur =
     (let (hit, c') = cache_get c cur
      in case hit of
           Some obj \<Rightarrow> Stop (Inr obj) c'
         | None \<Rightarrow>
             (case entry_info (ip_pack ip) cur of
                Inl e \<Rightarrow> Stop (Inl e) c'
              | Inr info \<Rightarrow>
                  (case ei_kind info of
                     Plain kind \<Rightarrow>
                       (case pack_inflate inflate_raw (ip_pack ip) (ei_data_at info) (ei_size info) of
                          Inl e \<Rightarrow> Stop (Inl e) c'
                        | Inr data \<Rightarrow> Stop (Inr (kind, data)) (cache_put cur kind data c'))
                   | OfsDelta base_at \<Rightarrow> Down info base_at c'
                   | RefDelta base \<Rightarrow>
                       (case idx_lookup (ip_idx ip) base of
                          Inl e \<Rightarrow> Stop (Inl e) c'
                        | Inr None \<Rightarrow> Stop (Inl (PackFormat ''ref-delta base not in pack'')) c'
                        | Inr (Some i) \<Rightarrow>
                            (case idx_offset_at (ip_idx ip) i of
                               Inl e \<Rightarrow> Stop (Inl e) c'
                             | Inr off \<Rightarrow> Down info off c')))))"

text \<open>
  Nothing bounds the loop, so it is a partial function whose \<open>None\<close> is a loop that does
  not end.  \<open>frames\<close> has the newest frame first, the order the second loop takes them in.
\<close>

partial_function (option) walk_chain ::
  "(bytes \<Rightarrow> bytes option) \<Rightarrow> indexed_pack \<Rightarrow> delta_cache \<Rightarrow> frames \<Rightarrow> u64
     \<Rightarrow> ((pack_error + packed_object) \<times> frames \<times> delta_cache) option" where
  "walk_chain inflate_raw ip c frames cur =
     (case walk_turn inflate_raw ip c cur of
        Stop r c' \<Rightarrow> Some (r, frames, c')
      | Down info base_at c' \<Rightarrow> walk_chain inflate_raw ip c' ((cur, info) # frames) base_at)"

text \<open>The loop back up, caching every intermediate result.\<close>

fun apply_frames ::
  "(bytes \<Rightarrow> bytes option) \<Rightarrow> indexed_pack \<Rightarrow> object_kind \<Rightarrow> frames \<Rightarrow> bytes \<Rightarrow> delta_cache
     \<Rightarrow> (pack_error + packed_object) \<times> delta_cache" where
  "apply_frames inflate_raw ip kind [] data c = (Inr (kind, data), c)"
| "apply_frames inflate_raw ip kind ((off, info) # frames) data c =
     (case bindR (pack_inflate inflate_raw (ip_pack ip) (ei_data_at info) (ei_size info)) (delta_apply data) of
        Inl e \<Rightarrow> (Inl e, c)
      | Inr out \<Rightarrow> apply_frames inflate_raw ip kind frames out (cache_put off kind out c))"

definition pack_read_at ::
  "(bytes \<Rightarrow> bytes option) \<Rightarrow> indexed_pack \<Rightarrow> delta_cache \<Rightarrow> u64
     \<Rightarrow> ((pack_error + packed_object) \<times> delta_cache) option" where
  "pack_read_at inflate_raw ip c offset =
     (case walk_chain inflate_raw ip c [] offset of
        None \<Rightarrow> None
      | Some (Inl e, frames, c') \<Rightarrow> Some (Inl e, c')
      | Some (Inr (kind, data), frames, c') \<Rightarrow> Some (apply_frames inflate_raw ip kind frames data c'))"

definition pack_read ::
  "(bytes \<Rightarrow> bytes option) \<Rightarrow> indexed_pack \<Rightarrow> delta_cache \<Rightarrow> object_id
     \<Rightarrow> ((pack_error + packed_object option) \<times> delta_cache) option" where
  "pack_read inflate_raw ip c oid =
     (case idx_lookup (ip_idx ip) oid of
        Inl e \<Rightarrow> Some (Inl e, c)
      | Inr None \<Rightarrow> Some (Inr None, c)
      | Inr (Some i) \<Rightarrow>
          (case idx_offset_at (ip_idx ip) i of
             Inl e \<Rightarrow> Some (Inl e, c)
           | Inr off \<Rightarrow>
               map_option (\<lambda>(r, c'). (bindR r (\<lambda>obj. Inr (Some obj)), c'))
                 (pack_read_at inflate_raw ip c off)))"

section \<open>What an offset denotes\<close>

text \<open>The object at an offset, by the entries alone: no cache, no order of evaluation.\<close>

inductive entry_at :: "(bytes \<Rightarrow> bytes option) \<Rightarrow> indexed_pack \<Rightarrow> u64 \<Rightarrow> packed_object \<Rightarrow> bool"
  for infl :: "bytes \<Rightarrow> bytes option" and ip :: indexed_pack where
  plain: "entry_info (ip_pack ip) off = Inr info \<Longrightarrow> ei_kind info = Plain kind \<Longrightarrow>
    pack_inflate infl (ip_pack ip) (ei_data_at info) (ei_size info) = Inr data \<Longrightarrow>
    entry_at infl ip off (kind, data)"
| ofs: "entry_info (ip_pack ip) off = Inr info \<Longrightarrow> ei_kind info = OfsDelta base_at \<Longrightarrow>
    entry_at infl ip base_at (kind, base) \<Longrightarrow>
    pack_inflate infl (ip_pack ip) (ei_data_at info) (ei_size info) = Inr delta \<Longrightarrow>
    delta_apply base delta = Inr data \<Longrightarrow> entry_at infl ip off (kind, data)"
| ref: "entry_info (ip_pack ip) off = Inr info \<Longrightarrow> ei_kind info = RefDelta oid \<Longrightarrow>
    idx_lookup (ip_idx ip) oid = Inr (Some i) \<Longrightarrow> idx_offset_at (ip_idx ip) i = Inr base_at \<Longrightarrow>
    entry_at infl ip base_at (kind, base) \<Longrightarrow>
    pack_inflate infl (ip_pack ip) (ei_data_at info) (ei_size info) = Inr delta \<Longrightarrow>
    delta_apply base delta = Inr data \<Longrightarrow> entry_at infl ip off (kind, data)"

inductive_cases entry_atE: "entry_at infl ip off (kind, data)"

lemma entry_at_unique:
  "entry_at infl ip off obj \<Longrightarrow> entry_at infl ip off obj' \<Longrightarrow> obj' = obj"
proof (induction arbitrary: obj' rule: entry_at.induct)
  case (plain off info kind data)
  obtain kind' data' where obj': "obj' = (kind', data')" by fastforce
  from plain.prems[unfolded obj'] show ?case
    by (rule entry_atE) (use plain.hyps obj' in auto)
next
  case (ofs off info base_at kind base delta data)
  obtain kind' data' where obj': "obj' = (kind', data')" by fastforce
  from ofs.prems[unfolded obj'] obtain base' where
    "entry_at infl ip base_at (kind', base')" "delta_apply base' delta = Inr data'"
    by (rule entry_atE) (use ofs.hyps in auto)
  with ofs.IH ofs.hyps show ?case unfolding obj' by force
next
  case (ref off info oid i base_at kind base delta data)
  obtain kind' data' where obj': "obj' = (kind', data')" by fastforce
  from ref.prems[unfolded obj'] obtain base' where
    "entry_at infl ip base_at (kind', base')" "delta_apply base' delta = Inr data'"
    by (rule entry_atE) (use ref.hyps in auto)
  with ref.IH ref.hyps show ?case unfolding obj' by force
qed

text \<open>A cache that holds only what the entries denote.\<close>

definition cache_sound :: "(bytes \<Rightarrow> bytes option) \<Rightarrow> indexed_pack \<Rightarrow> delta_cache \<Rightarrow> bool" where
  "cache_sound infl ip c \<longleftrightarrow> (\<forall>off obj. cached c off = Some obj \<longrightarrow> entry_at infl ip off obj)"

lemma cache_sound_get:
  "cache_sound infl ip c \<Longrightarrow> cache_get c off = (r, c') \<Longrightarrow>
   cache_sound infl ip c' \<and> (\<forall>obj. r = Some obj \<longrightarrow> entry_at infl ip off obj)"
  unfolding cache_sound_def by (rule dc.sound_get)

lemma cache_sound_put:
  "cache_sound infl ip c \<Longrightarrow> entry_at infl ip off (kind, data) \<Longrightarrow>
   cache_sound infl ip (cache_put off kind data c)"
  unfolding cache_sound_def by (rule dc.sound_put [where v = "(kind, data)", unfolded prod.case])

lemma cache_sound_new: "cache_sound infl ip (cache_new budget)"
  by (simp add: cache_sound_def cached_def cache_new_def)

section \<open>Chains of frames\<close>

definition delta_base :: "indexed_pack \<Rightarrow> pack_entry_info \<Rightarrow> u64 option" where
  "delta_base ip info =
     (case ei_kind info of
        Plain kind \<Rightarrow> None
      | OfsDelta base_at \<Rightarrow> Some base_at
      | RefDelta oid \<Rightarrow>
          (case idx_lookup (ip_idx ip) oid of
             Inr (Some i) \<Rightarrow> okR (idx_offset_at (ip_idx ip) i)
           | _ \<Rightarrow> None))"

lemma entry_at_delta:
  assumes "entry_info (ip_pack ip) off = Inr info" and "delta_base ip info = Some base_at"
  shows "entry_at infl ip off (kind, data) \<longleftrightarrow>
    (\<exists>base delta. entry_at infl ip base_at (kind, base) \<and>
      pack_inflate infl (ip_pack ip) (ei_data_at info) (ei_size info) = Inr delta \<and>
      delta_apply base delta = Inr data)" (is "_ \<longleftrightarrow> ?R")
proof
  assume "entry_at infl ip off (kind, data)"
  then show ?R
    by (rule entry_atE) (use assms in \<open>auto simp: delta_base_def\<close>)
next
  assume ?R
  with assms show "entry_at infl ip off (kind, data)"
    by (auto simp: delta_base_def intro: entry_at.intros split: entry_kind.splits sum.splits option.splits)
qed

text \<open>Each frame is a delta entry whose base is the one the walk was at next.\<close>

fun chain :: "indexed_pack \<Rightarrow> frames \<Rightarrow> u64 \<Rightarrow> bool" where
  "chain ip [] cur \<longleftrightarrow> True"
| "chain ip ((off, info) # frames) cur \<longleftrightarrow>
     entry_info (ip_pack ip) off = Inr info \<and> delta_base ip info = Some cur \<and> chain ip frames off"

fun chain_top :: "frames \<Rightarrow> u64 \<Rightarrow> u64" where
  "chain_top [] cur = cur"
| "chain_top ((off, info) # frames) cur = chain_top frames off"

lemma apply_frames_sound:
  "chain ip frames cur \<Longrightarrow> entry_at infl ip cur (kind, data) \<Longrightarrow> cache_sound infl ip c \<Longrightarrow>
   apply_frames infl ip kind frames data c = (r, c') \<Longrightarrow>
   cache_sound infl ip c' \<and> (\<forall>obj. r = Inr obj \<longrightarrow> entry_at infl ip (chain_top frames cur) obj)"
proof (induction frames arbitrary: cur data c)
  case Nil
  then show ?case by auto
next
  case (Cons f frames)
  obtain off info where f: "f = (off, info)" by fastforce
  let ?step = "bindR (pack_inflate infl (ip_pack ip) (ei_data_at info) (ei_size info)) (delta_apply data)"
  show ?case
  proof (cases ?step)
    case (Inl e)
    with Cons.prems show ?thesis by (auto simp: f)
  next
    case (Inr out)
    then have "entry_at infl ip off (kind, out)"
      using Cons.prems(1,2) entry_at_delta [of ip off info cur infl kind out]
      by (auto simp: f bindR_eq_Inr)
    with Cons.IH [of off out "cache_put off kind out c"] Cons.prems Inr show ?thesis
      by (simp add: f cache_sound_put)
  qed
qed

lemma chain_bottom:
  "chain ip frames cur \<Longrightarrow> entry_at infl ip (chain_top frames cur) (kind, data) \<Longrightarrow>
   \<exists>base. entry_at infl ip cur (kind, base) \<and>
     (\<forall>c. \<exists>c'. apply_frames infl ip kind frames base c = (Inr (kind, data), c'))"
proof (induction frames arbitrary: cur)
  case Nil
  then show ?case by auto
next
  case (Cons f frames)
  obtain off info where f: "f = (off, info)" by fastforce
  obtain mid where mid: "entry_at infl ip off (kind, mid)"
    and up: "\<forall>c. \<exists>c'. apply_frames infl ip kind frames mid c = (Inr (kind, data), c')"
    using Cons.IH [of off] Cons.prems by (auto simp: f)
  obtain base delta where "entry_at infl ip cur (kind, base)"
    "pack_inflate infl (ip_pack ip) (ei_data_at info) (ei_size info) = Inr delta"
    "delta_apply base delta = Inr mid"
    using mid Cons.prems(1) entry_at_delta [of ip off info cur] by (auto simp: f)
  with up show ?case
    by (intro exI [of _ base]) (simp add: f)
qed

section \<open>The walk\<close>

lemma walk_turn_Stop:
  assumes "walk_turn infl ip c cur = Stop r c'" and "cache_sound infl ip c"
  shows "cache_sound infl ip c' \<and> (\<forall>obj. r = Inr obj \<longrightarrow> entry_at infl ip cur obj)"
proof -
  obtain hit c1 where g: "cache_get c cur = (hit, c1)" by fastforce
  note sound = cache_sound_get [OF assms(2) g]
  have "entry_at infl ip cur (kind, data)"
    if "entry_info (ip_pack ip) cur = Inr info" "ei_kind info = Plain kind"
      "pack_inflate infl (ip_pack ip) (ei_data_at info) (ei_size info) = Inr data" for info kind data
    using that by (rule entry_at.plain)
  with assms(1) sound show ?thesis
    by (auto simp: walk_turn_def g cache_sound_put
        split: option.splits sum.splits entry_kind.splits)
qed

lemma walk_turn_Down:
  assumes "walk_turn infl ip c cur = Down info base_at c'"
  shows "cache_get c cur = (None, c')" and "entry_info (ip_pack ip) cur = Inr info"
    and "delta_base ip info = Some base_at"
  using assms
  by (auto simp: walk_turn_def delta_base_def Let_def
      split: prod.splits option.splits sum.splits entry_kind.splits)

lemma walk_turn_entry:
  assumes "entry_at infl ip cur obj" and "cache_sound infl ip c"
  shows "(\<exists>c'. walk_turn infl ip c cur = Stop (Inr obj) c') \<or>
    (\<exists>info base_at c'. walk_turn infl ip c cur = Down info base_at c')"
proof -
  obtain hit c1 where g: "cache_get c cur = (hit, c1)" by fastforce
  have "hit = Some obj' \<Longrightarrow> obj' = obj" for obj'
    using cache_sound_get [OF assms(2) g] entry_at_unique [OF assms(1)] by blast
  with assms(1) show ?thesis
    by (cases rule: entry_at.cases) (auto simp: walk_turn_def g split: option.splits)
qed

definition walk_post ::
  "(bytes \<Rightarrow> bytes option) \<Rightarrow> indexed_pack \<Rightarrow> delta_cache \<Rightarrow> frames \<Rightarrow> u64
     \<Rightarrow> (pack_error + packed_object) \<times> frames \<times> delta_cache \<Rightarrow> bool" where
  "walk_post infl ip c frames cur = (\<lambda>(r, frames', c').
     cache_sound infl ip c \<longrightarrow> chain ip frames cur \<longrightarrow> cache_sound infl ip c' \<and>
     (\<exists>bottom. chain ip frames' bottom \<and> chain_top frames' bottom = chain_top frames cur \<and>
       (\<forall>obj. r = Inr obj \<longrightarrow> entry_at infl ip bottom obj)))"

lemma walk_chain_sound:
  "walk_chain infl ip c frames cur = Some y \<Longrightarrow> walk_post infl ip c frames cur y"
proof (induct rule: walk_chain.raw_induct [rotated, consumes 1, case_names turn])
  case (turn walk infl ip c frames cur y)
  show ?case
  proof (cases "walk_turn infl ip c cur")
    case (Stop r1 c1)
    with turn(2) walk_turn_Stop [OF Stop] show ?thesis by (auto simp: walk_post_def)
  next
    case (Down info base_at c1)
    note d = walk_turn_Down [OF Down]
    from turn(2) Down have "walk infl ip c1 ((cur, info) # frames) base_at = Some y" by simp
    from turn(1) [OF this] d show ?thesis
      using cache_sound_get [OF _ d(1)] by (auto simp: walk_post_def)
  qed
qed

lemma walk_chain_ends_step:
  assumes "entry_at infl ip off obj" and "delta_base ip info = Some base_at"
    and "entry_info (ip_pack ip) off = Inr info"
    and IH: "\<And>c frames. cache_sound infl ip c \<Longrightarrow>
      \<exists>obj' frames' c'. walk_chain infl ip c frames base_at = Some (Inr obj', frames', c')"
    and "cache_sound infl ip c"
  shows "\<exists>obj' frames' c'. walk_chain infl ip c frames off = Some (Inr obj', frames', c')"
proof -
  consider c' where "walk_turn infl ip c off = Stop (Inr obj) c'"
    | info' b c' where "walk_turn infl ip c off = Down info' b c'"
    using walk_turn_entry [OF assms(1,5)] by blast
  then show ?thesis
  proof cases
    case 1
    then show ?thesis by (subst walk_chain.simps) simp
  next
    case (2 info' b c')
    note d = walk_turn_Down [OF 2]
    with assms(2,3) have "info' = info" "b = base_at" by auto
    moreover have "cache_sound infl ip c'"
      using cache_sound_get [OF assms(5) d(1)] by simp
    ultimately show ?thesis
      using 2 IH by (subst walk_chain.simps) simp
  qed
qed

lemma walk_chain_ends:
  "entry_at infl ip cur obj \<Longrightarrow> cache_sound infl ip c \<Longrightarrow>
   \<exists>obj' frames' c'. walk_chain infl ip c frames cur = Some (Inr obj', frames', c')"
proof (induction arbitrary: c frames rule: entry_at.induct)
  case (plain off info kind data)
  have "entry_at infl ip off (kind, data)"
    using plain.hyps by (rule entry_at.plain)
  moreover have "walk_turn infl ip c off \<noteq> Down info' b c'" for info' b c'
    using plain.hyps walk_turn_Down [of infl ip c off info' b c'] by (auto simp: delta_base_def)
  ultimately show ?case
    using walk_turn_entry [of infl ip off _ c] plain.prems
    by (subst walk_chain.simps) fastforce
next
  case (ofs off info base_at kind base delta data)
  have "entry_at infl ip off (kind, data)"
    using ofs.hyps by (rule entry_at.ofs)
  moreover have "delta_base ip info = Some base_at"
    using ofs.hyps by (simp add: delta_base_def)
  ultimately show ?case
    using ofs.hyps(1) ofs.IH ofs.prems by (rule walk_chain_ends_step)
next
  case (ref off info oid i base_at kind base delta data)
  have "entry_at infl ip off (kind, data)"
    using ref.hyps by (rule entry_at.ref)
  moreover have "delta_base ip info = Some base_at"
    using ref.hyps by (simp add: delta_base_def)
  ultimately show ?case
    using ref.hyps(1) ref.IH ref.prems by (rule walk_chain_ends_step)
qed

section \<open>Reading an object\<close>

lemma read_at_correct:
  assumes "cache_sound infl ip c"
  shows "(\<exists>c'. pack_read_at infl ip c off = Some (Inr obj, c')) \<longleftrightarrow> entry_at infl ip off obj"
    and "pack_read_at infl ip c off = Some (r, c') \<Longrightarrow> cache_sound infl ip c'"
proof -
  have sound: "cache_sound infl ip c' \<and> (\<forall>obj. r = Inr obj \<longrightarrow> entry_at infl ip off obj)"
    if read: "pack_read_at infl ip c off = Some (r, c')" for r c'
  proof -
    obtain r0 frames c0 where w: "walk_chain infl ip c [] off = Some (r0, frames, c0)"
      using read by (auto simp: pack_read_at_def split: option.splits)
    from walk_chain_sound [OF w] assms obtain bottom where c0: "cache_sound infl ip c0"
      and b: "chain ip frames bottom" "chain_top frames bottom = off"
      and e: "\<forall>obj. r0 = Inr obj \<longrightarrow> entry_at infl ip bottom obj"
      by (auto simp: walk_post_def)
    show ?thesis
    proof (cases r0)
      case (Inl err)
      with read w c0 show ?thesis by (auto simp: pack_read_at_def)
    next
      case (Inr obj0)
      obtain kind data where obj0: "obj0 = (kind, data)" by fastforce
      have "apply_frames infl ip kind frames data c0 = (r, c')"
        using read w Inr by (simp add: pack_read_at_def obj0)
      with apply_frames_sound [OF b(1) _ c0] e Inr obj0 b(2) show ?thesis by blast
    qed
  qed
  then show "pack_read_at infl ip c off = Some (r, c') \<Longrightarrow> cache_sound infl ip c'"
    by blast
  show "(\<exists>c'. pack_read_at infl ip c off = Some (Inr obj, c')) \<longleftrightarrow> entry_at infl ip off obj"
  proof
    assume "\<exists>c'. pack_read_at infl ip c off = Some (Inr obj, c')"
    then show "entry_at infl ip off obj" using sound by blast
  next
    assume obj: "entry_at infl ip off obj"
    obtain kind0 data0 frames c0 where w: "walk_chain infl ip c [] off = Some (Inr (kind0, data0), frames, c0)"
      using walk_chain_ends [OF obj assms, of "[]"] by force
    from walk_chain_sound [OF w] assms obtain bottom where
      b: "chain ip frames bottom" "chain_top frames bottom = off" "entry_at infl ip bottom (kind0, data0)"
      by (auto simp: walk_post_def)
    obtain kind data where kd: "obj = (kind, data)" by fastforce
    obtain base where base: "entry_at infl ip bottom (kind, base)"
      and up: "\<forall>c. \<exists>c'. apply_frames infl ip kind frames base c = (Inr (kind, data), c')"
      using chain_bottom [OF b(1), of infl kind data] b(2) obj kd by auto
    have "(kind, base) = (kind0, data0)"
      using entry_at_unique [OF b(3) base] .
    with up w kd show "\<exists>c'. pack_read_at infl ip c off = Some (Inr obj, c')"
      by (auto simp: pack_read_at_def)
  qed
qed

lemma pack_read_correct:
  assumes "resolves (ip_idx ip) entries" and "wf_oid oid" and "oid_algo oid = ix_algo (ip_idx ip)"
    and "cache_sound infl ip c" and "distinct (map fst entries)"
  shows "oid \<notin> fst ` set entries \<Longrightarrow> pack_read infl ip c oid = Some (Inr None, c)"
    and "(oid, off, crc) \<in> set entries \<Longrightarrow> entry_at infl ip off obj \<Longrightarrow>
      \<exists>c'. pack_read infl ip c oid = Some (Inr (Some obj), c')"
proof -
  note res = assms(1) [unfolded resolves_def, rule_format, OF assms(2,3)]
  show "pack_read infl ip c oid = Some (Inr None, c)" if "oid \<notin> fst ` set entries"
    using res that by (force simp: pack_read_def split: sum.splits option.splits)
  assume mem: "(oid, off, crc) \<in> set entries" and obj: "entry_at infl ip off obj"
  then have "oid \<in> fst ` set entries" by force
  with res obtain i off' crc' where i: "idx_lookup (ip_idx ip) oid = Inr (Some i)"
    and e: "(oid, off', crc') \<in> set entries" "idx_offset_at (ip_idx ip) i = Inr off'"
    by (auto split: sum.splits option.splits)
  have "off' = off"
    using assms(5) mem e(1) by (auto dest: eq_key_imp_eq_value)
  moreover obtain c' where "pack_read_at infl ip c off = Some (Inr obj, c')"
    using read_at_correct(1) [OF assms(4)] obj by blast
  ultimately show "\<exists>c'. pack_read infl ip c oid = Some (Inr (Some obj), c')"
    using i e(2) by (simp add: pack_read_def)
qed

section \<open>Writing\<close>

record pack_writer =
  pw_out :: bytes
  pw_algo :: hash_algo
  pw_entries :: "idx_entry list"
  pw_declared :: u32

definition pw_create :: "hash_algo \<Rightarrow> u32 \<Rightarrow> pack_writer" where
  "pw_create algo cnt =
     \<lparr>pw_out = lit ''PACK'' @ be_bytes 4 (2 :: u32) @ be_bytes 4 cnt, pw_algo = algo,
      pw_entries = [], pw_declared = cnt\<rparr>"

definition pw_add ::
  "(bytes \<Rightarrow> bytes) \<Rightarrow> (bytes \<Rightarrow> u32) \<Rightarrow> object_id \<Rightarrow> object_kind \<Rightarrow> bytes \<Rightarrow> pack_writer \<Rightarrow> pack_writer" where
  "pw_add deflate crc oid kind data w =
     (let offset = of_nat (length (pw_out w)); written = entry_bytes deflate kind data
      in w\<lparr>pw_out := pw_out w @ written, pw_entries := pw_entries w @ [(oid, offset, crc written)]\<rparr>)"

text \<open>The files \<^verbatim>\<open>finish\<close> leaves behind, pack first, and the digest they are named by.\<close>

definition pw_finish ::
  "(hash_algo \<Rightarrow> bytes \<Rightarrow> bytes) \<Rightarrow> pack_writer \<Rightarrow> pack_error + (bytes \<times> bytes \<times> bytes)" where
  "pw_finish digest w =
     (if of_nat (length (pw_entries w)) \<noteq> pw_declared w then Inl (PackFormat ''declared object count not met'')
      else let trailer = digest (pw_algo w) (pw_out w)
           in Inr (pw_out w @ trailer, build_idx digest (pw_algo w) (pw_entries w) trailer, trailer))"

type_synonym named_object = "object_id \<times> packed_object"

definition write_pack ::
  "(bytes \<Rightarrow> bytes) \<Rightarrow> (bytes \<Rightarrow> u32) \<Rightarrow> hash_algo \<Rightarrow> named_object list \<Rightarrow> pack_writer" where
  "write_pack deflate crc algo objs =
     fold (\<lambda>(oid, kind, data). pw_add deflate crc oid kind data) objs
       (pw_create algo (of_nat (length objs)))"

lemma pw_adds:
  "w' = fold (\<lambda>(oid, kind, data). pw_add deflate crc oid kind data) objs w \<Longrightarrow>
   pw_algo w' = pw_algo w \<and> pw_declared w' = pw_declared w \<and>
   map fst (pw_entries w') = map fst (pw_entries w) @ map fst objs \<and>
   (\<exists>tail. pw_out w' = pw_out w @ tail) \<and> (\<exists>tail. pw_entries w' = pw_entries w @ tail) \<and>
   (\<forall>(oid, kind, data) \<in> set objs. \<exists>pre post. pw_out w' = pre @ entry_bytes deflate kind data @ post \<and>
      (oid, of_nat (length pre), crc (entry_bytes deflate kind data)) \<in> set (pw_entries w'))"
proof (induction objs arbitrary: w)
  case Nil
  then show ?case by simp
next
  case (Cons obj objs)
  obtain oid kind data where obj: "obj = (oid, kind, data)" by (metis prod.exhaust)
  let ?w = "pw_add deflate crc oid kind data w"
  have w': "w' = fold (\<lambda>(oid, kind, data). pw_add deflate crc oid kind data) objs ?w"
    using Cons.prems by (simp add: obj)
  have head: "\<exists>pre post. pw_out w' = pre @ entry_bytes deflate kind data @ post \<and>
      (oid, of_nat (length pre), crc (entry_bytes deflate kind data)) \<in> set (pw_entries w')"
  proof -
    obtain tail tail' where "pw_out w' = pw_out ?w @ tail" "pw_entries w' = pw_entries ?w @ tail'"
      using Cons.IH [OF w'] by blast
    then show ?thesis
      by (intro exI [of _ "pw_out w"] exI [of _ tail]) (simp add: pw_add_def Let_def)
  qed
  from Cons.IH [OF w'] have "map fst (pw_entries w') = map fst (pw_entries w) @ map fst (obj # objs)"
    "pw_algo w' = pw_algo w" "pw_declared w' = pw_declared w"
    "\<exists>tail. pw_out w' = pw_out w @ tail" "\<exists>tail. pw_entries w' = pw_entries w @ tail"
    by (auto simp: pw_add_def Let_def obj)
  with Cons.IH [OF w'] head show ?case by (auto simp: obj)
qed

lemma pack_parse_written:
  assumes "length trailer = raw_len algo"
  shows "pack_parse ((lit ''PACK'' @ be_bytes 4 (2 :: u32) @ be_bytes 4 (cnt :: u32)) @ body @ trailer) algo
    = Inr \<lparr>pk_map = (lit ''PACK'' @ be_bytes 4 (2 :: u32) @ be_bytes 4 cnt) @ body @ trailer, pk_algo = algo\<rparr>"
proof -
  have "slice_get 4 (4 + 4) (lit ''PACK'' @ be_bytes 4 (2 :: u32) @ (be_bytes 4 cnt @ body @ trailer))
      = Some (be_bytes 4 (2 :: u32))"
    by (rule slice_get_append) simp_all
  then have "read_u32 (lit ''PACK'' @ be_bytes 4 (2 :: u32) @ be_bytes 4 cnt @ body @ trailer) 4 = Inr 2"
    by (simp add: read_u32_def index_slice_def from_be_u32)
  with assms show ?thesis
    by (simp add: pack_parse_def)
qed

lemma entry_at_written:
  assumes "ip_pack ip = \<lparr>pk_map = pre @ entry_bytes deflate kind data @ post, pk_algo = algo\<rparr>"
    and "length pre < 2 ^ 64" and "length data < 2 ^ 64"
    and "\<And>d rest. infl (deflate d @ rest) = Some d"
  shows "entry_at infl ip (of_nat (length pre)) (kind, data)"
proof -
  let ?hdr = "entry_header kind (length data)"
  have off: "unat (of_nat (length pre) :: u64) = length pre"
    using assms(2) by (simp add: unat_of_nat_u64)
  have "entry_info (ip_pack ip) (of_nat (length pre)) =
      Inr \<lparr>ei_kind = Plain kind, ei_size = of_nat (length data), ei_data_at = length (pre @ ?hdr)\<rparr>"
    using entry_info_header [OF off assms(3), of kind "deflate data @ post" algo] assms(1)
    by (simp add: entry_bytes_def)
  moreover have "pack_inflate infl (ip_pack ip) (length (pre @ ?hdr)) (of_nat (length data)) = Inr data"
    using assms(1,4) by (simp add: pack_inflate_def entry_bytes_def)
  ultimately show ?thesis
    by (intro entry_at.plain) auto
qed

text \<open>A stand-in for zlib on which the properties are tried: each byte is announced by a one.\<close>

fun stored :: "bytes \<Rightarrow> bytes" where
  "stored [] = [0]"
| "stored (b # d) = 1 # b # stored d"

fun unstored :: "bytes \<Rightarrow> bytes option" where
  "unstored [] = None"
| "unstored [c] = (if c = 0 then Some [] else None)"
| "unstored (c # b # r) = (if c = 0 then Some [] else map_option ((#) b) (unstored r))"

lemma unstored_stored: "unstored (stored d @ rest) = Some d"
proof (induction d)
  case Nil
  then show ?case by (cases rest) simp_all
qed simp

definition sample_pack :: indexed_pack where
  "sample_pack =
     \<lparr>ip_idx = \<lparr>ix_map = [], ix_algo = Sha1, ix_len = 0, ix_oids_at = 0, ix_offsets_at = 0,
        ix_large_at = 0, ix_large_count = 0\<rparr>,
      ip_pack = \<lparr>pk_map = replicate 12 0 @ entry_bytes stored Blob (lit ''hi'') @ [], pk_algo = Sha1\<rparr>\<rparr>"

definition sample_objects :: "named_object list" where
  "sample_objects = [(OidSha1 (replicate 20 7), Blob, lit ''hi''), (OidSha1 (replicate 20 3), Commit, lit ''x'')]"

section \<open>Properties\<close>

text \<open>C29. Reading at an offset returns an object exactly when the entries of the pack denote it:
  through any chain of deltas, whatever the cache holds, as long as it holds only what the
  entries denote; and the cache it leaves is of that kind again, also after an error.\<close>

theorem read_at_exact:
  assumes "cache_sound infl ip c"
  shows "((\<exists>c'. pack_read_at infl ip c off = Some (Inr obj, c')) \<longleftrightarrow> entry_at infl ip off obj) \<and>
    (\<forall>r c'. pack_read_at infl ip c off = Some (r, c') \<longrightarrow> cache_sound infl ip c')"
  using read_at_correct [OF assms] by blast

theorem read_at_exact_witness:
  "\<exists>c'. pack_read_at unstored sample_pack (cache_new 8) 12 = Some (Inr (Blob, lit ''hi''), c')"
proof -
  have "entry_at unstored sample_pack (of_nat (length (replicate 12 (0 :: u8)))) (Blob, lit ''hi'')"
    by (rule entry_at_written [where post = "[]" and algo = Sha1, OF _ _ _ unstored_stored])
      (simp_all add: sample_pack_def)
  then show ?thesis
    using read_at_exact [OF cache_sound_new] by simp
qed

text \<open>C12. The pack and index written for any objects with distinct ids open again, and reading an id
  of the hash algorithm from them, whatever a sound cache holds, ends and gives that
  object's kind and data, or nothing when there is no such object.\<close>

theorem pack_write_read:
  assumes "distinct (map fst objs)" and "length objs < 2 ^ 31"
    and "\<forall>(oid, kind, data) \<in> set objs. wf_oid oid \<and> oid_algo oid = algo \<and> length data < 2 ^ 64"
    and "length (pw_out (write_pack deflate crc algo objs)) < 2 ^ 64"
    and "\<And>a x. length (digest a x) = raw_len a"
    and "\<And>d rest. infl (deflate d @ rest) = Some d"
  shows "\<exists>pack_file idx_file trailer ip c0.
    pw_finish digest (write_pack deflate crc algo objs) = Inr (pack_file, idx_file, trailer) \<and>
    indexed_pack_open idx_file pack_file algo = Inr (ip, c0) \<and> cache_sound infl ip c0 \<and>
    (\<forall>oid c. wf_oid oid \<longrightarrow> oid_algo oid = algo \<longrightarrow> cache_sound infl ip c \<longrightarrow>
      (\<exists>c'. pack_read infl ip c oid = Some (Inr (map_of objs oid), c')))"
proof -
  let ?w = "write_pack deflate crc algo objs"
  let ?trailer = "digest algo (pw_out ?w)"
  let ?pack = "\<lparr>pk_map = pw_out ?w @ ?trailer, pk_algo = algo\<rparr>"
  note adds = pw_adds [OF write_pack_def]
  have w: "pw_algo ?w = algo" "pw_declared ?w = of_nat (length objs)" "map fst (pw_entries ?w) = map fst objs"
    and each: "\<forall>(oid, kind, data) \<in> set objs. \<exists>pre post. pw_out ?w = pre @ entry_bytes deflate kind data @ post \<and>
      (oid, of_nat (length pre), crc (entry_bytes deflate kind data)) \<in> set (pw_entries ?w)"
    using adds [of deflate crc algo objs] by (simp_all add: pw_create_def)
  obtain body where out: "pw_out ?w = (lit ''PACK'' @ be_bytes 4 (2 :: u32) @ be_bytes 4 (of_nat (length objs) :: u32)) @ body"
    using adds [of deflate crc algo objs] by (auto simp: pw_create_def)
  have len: "length (pw_entries ?w) = length objs"
    using w(3) by (metis length_map)
  have fin: "pw_finish digest ?w = Inr (pw_out ?w @ ?trailer, build_idx digest algo (pw_entries ?w) ?trailer, ?trailer)"
    using w(1,2) len by (simp add: pw_finish_def Let_def)
  have "e \<in> set (pw_entries ?w) \<Longrightarrow> fst e \<in> fst ` set objs" for e
    using w(3) by (metis image_eqI image_set)
  then have "idx_entries_ok algo (pw_entries ?w)"
    using assms(1-3) w(3) len by (fastforce simp: idx_entries_ok_def)
  then obtain ix where ix: "idx_parse (build_idx digest algo (pw_entries ?w) ?trailer) algo = Inr ix"
      "ix_algo ix = algo" "resolves ix (pw_entries ?w)"
    using built_idx_resolves [of algo "pw_entries ?w" ?trailer digest] assms(5) by blast
  let ?ip = "\<lparr>ip_idx = ix, ip_pack = ?pack\<rparr>"
  have "pack_parse (pw_out ?w @ ?trailer) algo = Inr ?pack"
    using pack_parse_written [of ?trailer algo _ body] assms(5) unfolding out by simp
  then have op: "indexed_pack_open (build_idx digest algo (pw_entries ?w) ?trailer) (pw_out ?w @ ?trailer) algo
      = Inr (?ip, cache_new DEFAULT_BUDGET)"
    using ix(1) by (simp add: indexed_pack_open_def)
  have "\<exists>c'. pack_read infl ?ip c oid = Some (Inr (map_of objs oid), c')"
    if oid: "wf_oid oid" "oid_algo oid = algo" and c: "cache_sound infl ?ip c" for oid c
  proof -
    have res: "resolves (ip_idx ?ip) (pw_entries ?w)" "oid_algo oid = ix_algo (ip_idx ?ip)"
      using ix oid by simp_all
    have dist: "distinct (map fst (pw_entries ?w))"
      using assms(1) w(3) by simp
    note read = pack_read_correct [OF res(1) oid(1) res(2) c dist]
    show ?thesis
    proof (cases "map_of objs oid")
      case None
      then have "oid \<notin> fst ` set (pw_entries ?w)"
        using w(3) by (metis image_set map_of_eq_None_iff)
      with None read(1) show ?thesis by simp
    next
      case (Some obj)
      obtain kind data where obj: "obj = (kind, data)" by fastforce
      with Some have mem: "(oid, kind, data) \<in> set objs"
        by (auto dest: map_of_SomeD)
      with each obtain pre post where pre: "pw_out ?w = pre @ entry_bytes deflate kind data @ post"
        "(oid, of_nat (length pre), crc (entry_bytes deflate kind data)) \<in> set (pw_entries ?w)"
        by fast
      have "entry_at infl ?ip (of_nat (length pre)) (kind, data)"
      proof (rule entry_at_written [OF _ _ _ assms(6)])
        show "ip_pack ?ip = \<lparr>pk_map = pre @ entry_bytes deflate kind data @ post @ ?trailer, pk_algo = algo\<rparr>"
          using pre(1) by simp
        show "length pre < 2 ^ 64" using assms(4) pre(1) by simp
        show "length data < 2 ^ 64" using assms(3) mem by auto
      qed
      from read(2) [OF pre(2) this] Some obj show ?thesis by simp
    qed
  qed
  with fin op cache_sound_new show ?thesis by blast
qed

theorem pack_write_read_witness:
  "\<exists>pack_file idx_file trailer ip c0 c'.
    pw_finish zero_digest (write_pack stored (\<lambda>_. 0) Sha1 sample_objects) = Inr (pack_file, idx_file, trailer) \<and>
    indexed_pack_open idx_file pack_file Sha1 = Inr (ip, c0) \<and>
    pack_read unstored ip c0 (OidSha1 (replicate 20 7)) = Some (Inr (Some (Blob, lit ''hi'')), c')"
proof -
  have hdr: "length (entry_header Blob (Suc (Suc 0))) = 1" "length (entry_header Commit (Suc 0)) = 1"
    by (simp_all add: entry_header_def size_header.simps)
  have "length (pw_out (write_pack stored (\<lambda>_. 0) Sha1 sample_objects)) < 2 ^ 64"
    by (simp add: write_pack_def sample_objects_def pw_add_def pw_create_def entry_bytes_def hdr Let_def)
  from pack_write_read [OF _ _ _ this, of zero_digest unstored] unstored_stored
  obtain pack_file idx_file trailer ip c0 where
    "pw_finish zero_digest (write_pack stored (\<lambda>_. 0) Sha1 sample_objects) = Inr (pack_file, idx_file, trailer)"
    "indexed_pack_open idx_file pack_file Sha1 = Inr (ip, c0)" "cache_sound unstored ip c0"
    "\<forall>oid c. wf_oid oid \<longrightarrow> oid_algo oid = Sha1 \<longrightarrow> cache_sound unstored ip c \<longrightarrow>
      (\<exists>c'. pack_read unstored ip c oid = Some (Inr (map_of sample_objects oid), c'))"
    by (auto simp: sample_objects_def wf_oid_def zero_digest_def)
  moreover have "map_of sample_objects (OidSha1 (replicate 20 7)) = Some (Blob, lit ''hi'')"
    by (simp add: sample_objects_def)
  moreover have "wf_oid (OidSha1 (replicate 20 7))" "oid_algo (OidSha1 (replicate 20 7)) = Sha1"
    by (simp_all add: wf_oid_def)
  ultimately show ?thesis by metis
qed

text \<open>An ofs-delta entry that names itself as its base sends \<open>pack_read_at\<close> into a loop that does
  not end, on every cache that does not hold the offset.\<close>

theorem self_delta_never_ends:
  assumes "entry_info (ip_pack ip) off = Inr info" and "ei_kind info = OfsDelta off"
    and "cached c off = None"
  shows "pack_read_at infl ip c off = None"
proof -
  have "entry_info (ip_pack ip) cur = Inr info \<longrightarrow> ei_kind info = OfsDelta cur \<longrightarrow> cached c cur \<noteq> None"
    if "walk_chain infl ip c frames cur = Some y" for infl ip c frames cur y
    using that
  proof (induct rule: walk_chain.raw_induct [rotated, consumes 1, case_names turn])
    case (turn walk infl ip c frames cur y)
    show ?case
    proof (intro impI notI)
      assume self: "entry_info (ip_pack ip) cur = Inr info" "ei_kind info = OfsDelta cur" "cached c cur = None"
      obtain hit c' where g: "cache_get c cur = (hit, c')" by fastforce
      have "hit = None" "cached c' = cached c"
        using fst_cache_get [of c cur] cached_get [of c cur] self(3) by (simp_all add: g)
      with self g have "walk_turn infl ip c cur = Down info cur c'"
        by (simp add: walk_turn_def)
      with turn(2) have "walk infl ip c' ((cur, info) # frames) cur = Some y" by simp
      from turn(1) [OF this] self \<open>cached c' = cached c\<close> show False by simp
    qed
  qed
  with assms have "walk_chain infl ip c [] off = None"
    by (metis option.exhaust)
  then show ?thesis by (simp add: pack_read_at_def)
qed

definition self_pack :: indexed_pack where
  "self_pack = sample_pack\<lparr>ip_pack := \<lparr>pk_map = replicate 12 0 @ [0x60, 0x00], pk_algo = Sha1\<rparr>\<rparr>"

theorem self_delta_never_ends_witness:
  "pack_read_at unstored self_pack (cache_new 8) 12 = None"
  by (rule self_delta_never_ends [where info = "\<lparr>ei_kind = OfsDelta 12, ei_size = 0, ei_data_at = 14\<rparr>"])
    (simp_all add: self_pack_def entry_info_def entry_base_def cached_def cache_new_def)

end
