(* ===== verification/Git_Index.thy ===== *)
theory Git_Index
  imports Git_Object "HOL-Library.Product_Lexorder" "HOL-Library.Multiset"
begin

text \<open>
  \<^verbatim>\<open>alt-git-index/src/lib.rs\<close>: the git index, read in its versions 2 to 4 and written in version 2 or
  3.  The position in the file is the bytes still to come; they go to the end of the file, behind
  which the trailer is, as the code slices the whole file.
\<close>

section \<open>The index\<close>

record index_entry =
  ie_ctime :: "u32 \<times> u32"
  ie_mtime :: "u32 \<times> u32"
  ie_dev :: u32
  ie_ino :: u32
  ie_mode :: u32
  ie_uid :: u32
  ie_gid :: u32
  ie_size :: u32
  ie_oid :: object_id
  ie_flags :: u16
  ie_extended_flags :: "u16 option"
  ie_path :: bytes

definition ie_stage :: "index_entry \<Rightarrow> u8" where
  "ie_stage e = ucast (drop_bit 12 (ie_flags e) AND 3)"

definition assume_valid :: "index_entry \<Rightarrow> bool" where
  "assume_valid e \<longleftrightarrow> ie_flags e AND 0x8000 \<noteq> 0"

definition skip_worktree :: "index_entry \<Rightarrow> bool" where
  "skip_worktree e \<longleftrightarrow> (case ie_extended_flags e of None \<Rightarrow> False | Some f \<Rightarrow> f AND 0x4000 \<noteq> 0)"

definition intent_to_add :: "index_entry \<Rightarrow> bool" where
  "intent_to_add e \<longleftrightarrow> (case ie_extended_flags e of None \<Rightarrow> False | Some f \<Rightarrow> f AND 0x2000 \<noteq> 0)"

record extension =
  ex_signature :: bytes
  ex_data :: bytes

record git_index =
  ix_version :: u32
  ix_entries :: "index_entry list"
  ix_extensions :: "extension list"

section \<open>Reading\<close>

text \<open>The chained varint; the shift may drop bits, the addition may not wrap.\<close>

fun varint_more :: "u64 \<Rightarrow> bytes \<Rightarrow> string + u64 \<times> bytes" where
  "varint_more v [] = Inl ''truncated varint''"
| "varint_more v (b # r) =
     (if v = - 1 then Inl ''varint overflow''
      else
        let v' = push_bit 7 (v + 1) OR ucast (b AND 0x7f)
        in if b AND 0x80 \<noteq> 0 then varint_more v' r else Inr (v', r))"

fun chained_varint :: "bytes \<Rightarrow> string + u64 \<times> bytes" where
  "chained_varint [] = Inl ''truncated varint''"
| "chained_varint (b # r) =
     (let v = ucast (b AND 0x7f) in if b AND 0x80 \<noteq> 0 then varint_more v r else Inr (v, r))"

text \<open>The path of version 4, and the path before it that the next one is relative to.\<close>

definition parse_path_v4 :: "bytes \<Rightarrow> bytes \<Rightarrow> string + bytes \<times> bytes" where
  "parse_path_v4 prev r =
     bindR (chained_varint r) (\<lambda>(strip, r1).
       case split_first 0 r1 of
         None \<Rightarrow> Inl ''unterminated v4 path''
       | Some (suffix, r2) \<Rightarrow>
           if length prev < unat strip then Inl ''v4 prefix strip exceeds previous path''
           else Inr (take (length prev - unat strip) prev @ suffix, r2))"

text \<open>The path of versions 2 and 3; \<open>n\<close> bytes of the entry came before \<open>r\<close>.\<close>

definition parse_path_padded :: "nat \<Rightarrow> nat \<Rightarrow> bytes \<Rightarrow> string + bytes \<times> bytes" where
  "parse_path_padded n name_len r =
     bindR (if name_len = 0xFFF then
              (case split_first 0 r of None \<Rightarrow> Inl ''unterminated long path'' | Some (name, _) \<Rightarrow> Inr name)
            else if length r < name_len then Inl ''truncated entry path'' else Inr (take name_len r)) (\<lambda>name.
       let r1 = drop (length name) r;
           pad = 8 - (n + length name) mod 8
       in if length r1 < pad \<or> \<not> list_all (\<lambda>b. b = 0) (take pad r1) then Inl ''bad entry padding''
          else Inr (name, drop pad r1))"

definition be_at :: "bytes \<Rightarrow> nat \<Rightarrow> u32" where
  "be_at b i = from_be (take 4 (drop i b))"

definition parse_index_entry ::
  "u32 \<Rightarrow> hash_algo \<Rightarrow> bytes \<Rightarrow> bytes \<Rightarrow> string + (index_entry \<times> bytes) \<times> bytes" where
  "parse_index_entry version algo prev r =
     (case take_n (40 + raw_len algo + 2) r of
        None \<Rightarrow> Inl ''truncated index entry''
      | Some (b, r1) \<Rightarrow>
          let flags = from_be (drop (40 + raw_len algo) b) :: u16 in
          bindR (if flags AND 0x4000 \<noteq> 0 then
                   if version < 3 then Inl ''extended flag in a v2 index''
                   else (case take_n 2 r1 of
                           None \<Rightarrow> Inl ''truncated extended flags''
                         | Some (ext, r2) \<Rightarrow> Inr (Some (from_be ext), r2))
                 else Inr (None, r1)) (\<lambda>(ext, r2).
          bindR (if version = 4 then map_sum (\<lambda>e. e) (\<lambda>(path, r3). ((path, path), r3)) (parse_path_v4 prev r2)
                 else map_sum (\<lambda>e. e) (\<lambda>(path, r3). ((path, prev), r3))
                        (parse_path_padded (length r - length r2) (unat (flags AND 0x0FFF)) r2)) (\<lambda>((path, prev'), r3).
            Inr ((\<lparr>ie_ctime = (be_at b 0, be_at b 4), ie_mtime = (be_at b 8, be_at b 12), ie_dev = be_at b 16,
                   ie_ino = be_at b 20, ie_mode = be_at b 24, ie_uid = be_at b 28, ie_gid = be_at b 32, ie_size = be_at b 36,
                   ie_oid = mk_oid algo (take (raw_len algo) (drop 40 b)), ie_flags = flags,
                   ie_extended_flags = ext, ie_path = path\<rparr>, prev'), r3))))"

fun parse_index_entries :: "u32 \<Rightarrow> hash_algo \<Rightarrow> nat \<Rightarrow> bytes \<Rightarrow> bytes \<Rightarrow> string + index_entry list \<times> bytes" where
  "parse_index_entries version algo 0 prev r = Inr ([], r)"
| "parse_index_entries version algo (Suc n) prev r =
     bindR (parse_index_entry version algo prev r) (\<lambda>((e, prev'), r').
     bindR (parse_index_entries version algo n prev' r') (\<lambda>(es, r''). Inr (e # es, r'')))"

text \<open>The extensions up to the trailer of \<open>raw\<close> bytes; a payload is only checked against the end of the file.\<close>

function parse_extensions :: "nat \<Rightarrow> bytes \<Rightarrow> string + extension list" where
  "parse_extensions raw r =
     (if length r \<le> raw then Inr []
      else if length r < raw + 8 then Inl ''truncated extension header''
      else case take_n (unat (be_at r 4)) (drop 8 r) of
             None \<Rightarrow> Inl ''extension payload overruns file''
           | Some (payload, r') \<Rightarrow>
               bindR (parse_extensions raw r') (\<lambda>exts. Inr (\<lparr>ex_signature = take 4 r, ex_data = payload\<rparr> # exts)))"
  by pat_completeness auto
termination
  by (relation "measure (\<lambda>(raw, r). length r)") (auto dest!: take_n_consumes)

declare parse_extensions.simps [simp del]

definition index_parse :: "(hash_algo \<Rightarrow> bytes \<Rightarrow> bytes) \<Rightarrow> hash_algo \<Rightarrow> bytes \<Rightarrow> string + git_index" where
  "index_parse digest algo data =
     (let raw = raw_len algo in
      if length data < 12 + raw \<or> take 4 data \<noteq> lit ''DIRC'' then Inl ''not an index file (bad magic)''
      else
        let version = be_at data 4; count = unat (be_at data 8); content_end = length data - raw in
        if \<not> (2 \<le> version \<and> version \<le> 4) then Inl ''unsupported index version''
        else if drop content_end data \<noteq> digest algo (take content_end data) then Inl ''index checksum mismatch''
        else
          bindR (parse_index_entries version algo count [] (drop 12 data)) (\<lambda>(entries, r).
          bindR (parse_extensions raw r) (\<lambda>extensions.
            Inr \<lparr>ix_version = version, ix_entries = entries, ix_extensions = extensions\<rparr>)))"

section \<open>Writing\<close>

text \<open>The flags as they are written: the control bits, the name length and the extended bit.\<close>

definition written_flags :: "index_entry \<Rightarrow> u16" where
  "written_flags e =
     (let name_len = of_nat (min (length (ie_path e)) 0x0FFF) :: u16;
          flags = ie_flags e AND 0xF000 OR name_len
      in case ie_extended_flags e of Some _ \<Rightarrow> flags OR 0x4000 | None \<Rightarrow> flags AND NOT 0x4000)"

definition index_entry_bytes :: "index_entry \<Rightarrow> bytes" where
  "index_entry_bytes e =
     (let out = concat (map (be_bytes 4)
                  [fst (ie_ctime e), snd (ie_ctime e), fst (ie_mtime e), snd (ie_mtime e), ie_dev e, ie_ino e,
                   ie_mode e, ie_uid e, ie_gid e, ie_size e])
                @ oid_as_bytes (ie_oid e) @ be_bytes 2 (written_flags e)
                @ (case ie_extended_flags e of None \<Rightarrow> [] | Some ext \<Rightarrow> be_bytes 2 ext)
                @ ie_path e
      in out @ replicate (8 - length out mod 8) 0)"

definition extension_bytes :: "extension \<Rightarrow> bytes" where
  "extension_bytes x = ex_signature x @ be_bytes 4 (of_nat (length (ex_data x)) :: u32) @ ex_data x"

definition index_key :: "index_entry \<Rightarrow> bytes \<times> u8" where
  "index_key e = (ie_path e, ie_stage e)"

definition index_serialize :: "(hash_algo \<Rightarrow> bytes \<Rightarrow> bytes) \<Rightarrow> hash_algo \<Rightarrow> git_index \<Rightarrow> bytes" where
  "index_serialize digest algo ix =
     (let has_extended = list_ex (\<lambda>e. ie_extended_flags e \<noteq> None) (ix_entries ix);
          version = (if has_extended then 3 else 2) :: u32;
          sorted = sort_key index_key (ix_entries ix);
          out = lit ''DIRC'' @ be_bytes 4 version @ be_bytes 4 (of_nat (length sorted) :: u32)
                @ concat (map index_entry_bytes sorted) @ concat (map extension_bytes (ix_extensions ix))
      in out @ digest algo out)"

section \<open>Flags\<close>

lemma name_length_bits: "n \<le> 0xFFF \<Longrightarrow> (of_nat n :: u16) AND 0xFFF = of_nat n"
proof -
  assume "n \<le> 0xFFF"
  then have "unat (of_nat n :: u16) = n" by (simp add: codec_simps)
  then have "take_bit 12 (of_nat n :: u16) = of_nat n"
    using \<open>n \<le> 0xFFF\<close> by (simp add: word_unat_eq_iff unsigned_take_bit_eq take_bit_nat_eq_self)
  moreover have "(0xFFF :: u16) = mask 12" by (simp add: mask_eq_exp_minus_1)
  ultimately show ?thesis by (simp only: take_bit_eq_mask)
qed

lemma name_length_high: "n \<le> 0xFFF \<Longrightarrow> (of_nat n :: u16) AND 0xF000 = 0" "n \<le> 0xFFF \<Longrightarrow> (of_nat n :: u16) AND 0x4000 = 0"
  "n \<le> 0xFFF \<Longrightarrow> (of_nat n :: u16) AND 0x3000 = 0"
proof -
  have z: "(of_nat n :: u16) AND c = 0" if "n \<le> 0xFFF" "(0xFFF :: u16) AND c = 0" for c
  proof -
    have "(of_nat n :: u16) AND c = (of_nat n AND 0xFFF) AND c" using name_length_bits [OF that(1)] by simp
    also have "\<dots> = of_nat n AND (0xFFF AND c)" by (simp only: and.assoc)
    finally show ?thesis using that(2) by simp
  qed
  show "n \<le> 0xFFF \<Longrightarrow> (of_nat n :: u16) AND 0xF000 = 0" "n \<le> 0xFFF \<Longrightarrow> (of_nat n :: u16) AND 0x4000 = 0"
    "n \<le> 0xFFF \<Longrightarrow> (of_nat n :: u16) AND 0x3000 = 0" by (auto intro: z)
qed

lemma written_flags_mask:
  "ie_extended_flags e = Some x \<Longrightarrow> written_flags e AND c =
     ((ie_flags e AND (0xF000 AND c)) OR (of_nat (min (length (ie_path e)) 0xFFF) AND c)) OR (0x4000 AND c)"
  "ie_extended_flags e = None \<Longrightarrow> written_flags e AND c =
     (ie_flags e AND (0xF000 AND (NOT 0x4000 AND c))) OR (of_nat (min (length (ie_path e)) 0xFFF) AND (NOT 0x4000 AND c))"
  unfolding written_flags_def Let_def
  by (simp_all only: option.case bit.conj_disj_distrib2 and.assoc)

lemma name_length_other: "(of_nat (min k 0xFFF) :: u16) AND 0xB000 = 0"
proof -
  have "(of_nat (min k 0xFFF) :: u16) AND 0xB000 = (of_nat (min k 0xFFF) AND 0xF000) AND 0xB000" by (simp add: and.assoc)
  then show ?thesis by (simp add: name_length_high)
qed

lemma written_flags_bits:
  "written_flags e AND 0xFFF = of_nat (min (length (ie_path e)) 0xFFF)"
  "written_flags e AND 0x4000 \<noteq> 0 \<longleftrightarrow> ie_extended_flags e \<noteq> None"
  "written_flags e AND 0x3000 = ie_flags e AND 0x3000"
  by (cases "ie_extended_flags e"; simp add: written_flags_mask name_length_bits name_length_high)+

lemma written_flags_again: "written_flags (e\<lparr>ie_flags := written_flags e\<rparr>) = written_flags e"
proof (cases "ie_extended_flags e")
  case None
  let ?n = "of_nat (min (length (ie_path e)) 0xFFF) :: u16"
  have "written_flags e AND 0xF000 = ie_flags e AND 0xB000"
    using None by (simp add: written_flags_mask name_length_other)
  then have "written_flags (e\<lparr>ie_flags := written_flags e\<rparr>) = (ie_flags e AND 0xB000 OR ?n) AND NOT 0x4000"
    using None unfolding written_flags_def [of "e\<lparr>ie_flags := written_flags e\<rparr>"] by (simp add: Let_def)
  also have "\<dots> = (ie_flags e AND 0xF000 OR ?n) AND NOT 0x4000"
    by (simp add: bit.conj_disj_distrib2 and.assoc)
  finally show ?thesis using None by (simp add: written_flags_def Let_def)
next
  case (Some x)
  have "written_flags e AND 0xF000 = ie_flags e AND 0xF000 OR 0x4000"
    using Some by (simp add: written_flags_mask name_length_high)
  then show ?thesis
    using Some unfolding written_flags_def [of "e\<lparr>ie_flags := written_flags e\<rparr>"]
    by (simp add: Let_def written_flags_def or.assoc or.commute or.left_commute)
qed

section \<open>Reading what was written\<close>

text \<open>The entry a written one reads back as: its flags are the ones that were written.\<close>

definition norm_entry :: "index_entry \<Rightarrow> index_entry" where
  "norm_entry e = e\<lparr>ie_flags := written_flags e\<rparr>"

definition index_entry_ok :: "hash_algo \<Rightarrow> index_entry \<Rightarrow> bool" where
  "index_entry_ok algo e \<longleftrightarrow> wf_oid (ie_oid e) \<and> oid_algo (ie_oid e) = algo \<and>
     (0xFFF \<le> length (ie_path e) \<longrightarrow> 0 \<notin> set (ie_path e))"

lemma norm_entry_simps [simp]:
  "ie_path (norm_entry e) = ie_path e" "ie_oid (norm_entry e) = ie_oid e"
  "ie_extended_flags (norm_entry e) = ie_extended_flags e"
  by (simp_all add: norm_entry_def)

lemma norm_entry_bytes: "index_entry_bytes (norm_entry e) = index_entry_bytes e"
  by (simp add: index_entry_bytes_def norm_entry_def written_flags_again)

lemma norm_entry_ok: "index_entry_ok algo (norm_entry e) \<longleftrightarrow> index_entry_ok algo e"
  by (simp add: index_entry_ok_def)

lemma norm_entry_stage: "ie_stage (norm_entry e) = ie_stage e"
proof -
  have stage: "drop_bit 12 f AND 3 = drop_bit 12 (f AND 0x3000)" for f :: u16
    by (simp add: drop_bit_and)
  show ?thesis by (simp only: ie_stage_def stage) (simp add: norm_entry_def written_flags_bits)
qed

lemma index_key_norm: "index_key (norm_entry e) = index_key e"
  by (simp add: index_key_def norm_entry_stage)

lemma split_zeros: "0 \<notin> set path \<Longrightarrow> 0 < k \<Longrightarrow> \<exists>t. split_first 0 (path @ replicate k (0 :: u8) @ r) = Some (path, t)"
  by (cases k) (auto simp: split_first_append)

lemma parse_path_padded_ok:
  assumes "0xFFF \<le> length path \<longrightarrow> 0 \<notin> set path"
  shows "parse_path_padded n (min (length path) 0xFFF) (path @ replicate (8 - (n + length path) mod 8) 0 @ r) = Inr (path, r)"
proof -
  define pad where "pad = 8 - (n + length path) mod 8"
  have "0 < pad" by (simp add: pad_def)
  then obtain t where t: "0xFFF \<le> length path \<Longrightarrow> split_first 0 (path @ replicate pad 0 @ r) = Some (path, t)"
    using split_zeros assms by blast
  have name: "(if min (length path) 0xFFF = 0xFFF then
           (case split_first 0 (path @ replicate pad 0 @ r) of None \<Rightarrow> Inl ''unterminated long path'' | Some (name, _) \<Rightarrow> Inr name)
         else if length (path @ replicate pad 0 @ r) < min (length path) 0xFFF then Inl ''truncated entry path''
         else Inr (take (min (length path) 0xFFF) (path @ replicate pad 0 @ r))) = Inr path"
    using t by (auto simp: min_def)
  then show ?thesis
    unfolding pad_def [symmetric] parse_path_padded_def name bindR_simps Let_def
    by (simp add: pad_def [symmetric] list_all_iff cong: conj_cong)
qed

lemma be_at_append: "length a = i \<Longrightarrow> be_at (a @ be_bytes 4 w @ b) i = w"
  by (simp add: be_at_def codec_simps)

lemma parse_index_entry_bytes:
  assumes ok: "index_entry_ok algo e" and version: "version = 2 \<and> ie_extended_flags e = None \<or> version = 3"
  shows "parse_index_entry version algo prev (index_entry_bytes e @ r) = Inr ((norm_entry e, prev), r)"
proof -
  let ?oid = "oid_as_bytes (ie_oid e)" and ?fl = "be_bytes 2 (written_flags e)"
  let ?words = "[fst (ie_ctime e), snd (ie_ctime e), fst (ie_mtime e), snd (ie_mtime e), ie_dev e, ie_ino e, ie_mode e, ie_uid e, ie_gid e, ie_size e]"
  let ?F = "concat (map (be_bytes 4) ?words) @ ?oid @ ?fl"
  let ?ext = "case ie_extended_flags e of None \<Rightarrow> [] | Some ext \<Rightarrow> be_bytes 2 ext"
  let ?n = "40 + raw_len algo + 2 + length ?ext"
  let ?tail = "ie_path e @ replicate (8 - (?n + length (ie_path e)) mod 8) 0 @ r"
  have oid: "length ?oid = raw_len algo" "mk_oid algo ?oid = ie_oid e" using ok by (auto simp: index_entry_ok_def wf_oid_def)
  have F: "length ?F = 40 + raw_len algo + 2" using oid(1) by simp
  have bytes: "index_entry_bytes e @ r = ?F @ ?ext @ ?tail"
    using oid(1) by (simp add: index_entry_bytes_def Let_def add.assoc)
  have take: "take_n (40 + raw_len algo + 2) (index_entry_bytes e @ r) = Some (?F, ?ext @ ?tail)"
    unfolding bytes by (rule take_n_append [OF F])
  have words: "be_at ?F 0 = fst (ie_ctime e)" "be_at ?F 4 = snd (ie_ctime e)" "be_at ?F 8 = fst (ie_mtime e)" "be_at ?F 12 = snd (ie_mtime e)"
    "be_at ?F 16 = ie_dev e" "be_at ?F 20 = ie_ino e" "be_at ?F 24 = ie_mode e" "be_at ?F 28 = ie_uid e" "be_at ?F 32 = ie_gid e"
    "be_at ?F 36 = ie_size e" by (simp_all add: be_at_def codec_simps)
  have flags: "from_be (drop (40 + raw_len algo) ?F) = written_flags e" using oid(1) by (simp add: codec_simps)
  have id: "mk_oid algo (take (raw_len algo) (drop 40 ?F)) = ie_oid e" using oid by simp
  have len: "length (index_entry_bytes e @ r) - length ?tail = ?n" unfolding bytes using F by simp
  have name: "unat (written_flags e AND 0x0FFF) = min (length (ie_path e)) 0xFFF"
    by (simp add: written_flags_bits codec_simps)
  have path: "parse_path_padded ?n (min (length (ie_path e)) 0xFFF) ?tail = Inr (ie_path e, r)"
    using ok by (intro parse_path_padded_ok) (simp add: index_entry_ok_def)
  have ext: "(if written_flags e AND 0x4000 \<noteq> 0 then
         if version < 3 then Inl ''extended flag in a v2 index''
         else (case take_n 2 (?ext @ ?tail) of None \<Rightarrow> Inl ''truncated extended flags'' | Some (x, r2) \<Rightarrow> Inr (Some (from_be x), r2))
       else Inr (None, ?ext @ ?tail)) = Inr (ie_extended_flags e, ?tail)"
    using version written_flags_bits(2) [of e]
    by (cases "ie_extended_flags e") (auto simp: codec_simps take_n_append)
  have v4: "version \<noteq> 4" using version by auto
  show ?thesis
    unfolding parse_index_entry_def take option.case prod.case flags Let_def ext bindR_simps words id if_not_P [OF v4] len name path
    by (simp add: norm_entry_def)
qed

lemma parse_index_entries_bytes:
  assumes "\<forall>e \<in> set es. index_entry_ok algo e" and "version = 2 \<and> (\<forall>e \<in> set es. ie_extended_flags e = None) \<or> version = 3"
  shows "parse_index_entries version algo (length es) prev (concat (map index_entry_bytes es) @ r) = Inr (map norm_entry es, r)"
  using assms
proof (induction es)
  case (Cons e es)
  have "parse_index_entry version algo prev (index_entry_bytes e @ concat (map index_entry_bytes es) @ r) =
      Inr ((norm_entry e, prev), concat (map index_entry_bytes es) @ r)"
    using Cons.prems by (intro parse_index_entry_bytes) auto
  moreover have "parse_index_entries version algo (length es) prev (concat (map index_entry_bytes es) @ r) = Inr (map norm_entry es, r)"
    using Cons.prems by (intro Cons.IH) auto
  ultimately show ?case by simp
qed simp

definition extension_ok :: "extension \<Rightarrow> bool" where
  "extension_ok x \<longleftrightarrow> length (ex_signature x) = 4 \<and> length (ex_data x) < 2 ^ 32"

lemma parse_extensions_bytes:
  assumes "length trailer = raw"
  shows "\<forall>x \<in> set xs. extension_ok x \<Longrightarrow> parse_extensions raw (concat (map extension_bytes xs) @ trailer) = Inr xs"
proof (induction xs)
  case Nil
  show ?case using assms by (simp add: parse_extensions.simps)
next
  case (Cons x xs)
  let ?rest = "concat (map extension_bytes xs) @ trailer"
  have x: "length (ex_signature x) = 4" "length (ex_data x) < 2 ^ 32" using Cons.prems by (simp_all add: extension_ok_def)
  let ?r = "ex_signature x @ be_bytes 4 (of_nat (length (ex_data x)) :: u32) @ ex_data x @ ?rest"
  have "be_at ?r 4 = of_nat (length (ex_data x))" by (rule be_at_append [OF x(1)])
  then have "unat (be_at ?r 4) = length (ex_data x)" using x(2) by (simp add: codec_simps)
  moreover have "drop 8 ?r = ex_data x @ ?rest" "take 4 ?r = ex_signature x" using x(1) by simp_all
  moreover have "\<not> length ?r \<le> raw" "\<not> length ?r < raw + 8" using x(1) assms by simp_all
  ultimately have "parse_extensions raw ?r = bindR (parse_extensions raw ?rest) (\<lambda>exts. Inr (\<lparr>ex_signature = ex_signature x, ex_data = ex_data x\<rparr> # exts))"
    by (subst parse_extensions.simps) (simp add: take_n_append)
  moreover have "parse_extensions raw ?rest = Inr xs" using Cons.prems by (intro Cons.IH) simp
  ultimately have "parse_extensions raw ?r = Inr (x # xs)" by simp
  moreover have "concat (map extension_bytes (x # xs)) @ trailer = ?r" by (simp add: extension_bytes_def)
  ultimately show ?case by (simp only:)
qed

section \<open>The whole file\<close>

text \<open>The index that is read back: in version 2 or 3, sorted by path and stage, every flag as written.\<close>

definition index_written :: "git_index \<Rightarrow> git_index" where
  "index_written ix =
     \<lparr>ix_version = (if list_ex (\<lambda>e. ie_extended_flags e \<noteq> None) (ix_entries ix) then 3 else 2),
      ix_entries = map norm_entry (sort_key index_key (ix_entries ix)), ix_extensions = ix_extensions ix\<rparr>"

definition git_index_ok :: "hash_algo \<Rightarrow> git_index \<Rightarrow> bool" where
  "git_index_ok algo ix \<longleftrightarrow> list_all (index_entry_ok algo) (ix_entries ix) \<and> length (ix_entries ix) < 2 ^ 32 \<and>
     list_all extension_ok (ix_extensions ix)"

lemma index_written_sorted: "sorted (map index_key (ix_entries (index_written ix)))"
  by (simp add: index_written_def index_key_norm comp_def)

lemma index_written_again: "index_serialize digest algo (index_written ix) = index_serialize digest algo ix"
proof -
  have sorted: "sort_key index_key (ix_entries (index_written ix)) = ix_entries (index_written ix)"
    by (rule sort_key_id_if_sorted [OF index_written_sorted])
  have "list_ex (\<lambda>e. ie_extended_flags e \<noteq> None) (ix_entries (index_written ix)) \<longleftrightarrow>
      list_ex (\<lambda>e. ie_extended_flags e \<noteq> None) (ix_entries ix)"
    by (auto simp: index_written_def list_ex_iff)
  moreover have "map index_entry_bytes (ix_entries (index_written ix)) = map index_entry_bytes (sort_key index_key (ix_entries ix))"
    by (simp add: index_written_def norm_entry_bytes)
  moreover have "length (ix_entries (index_written ix)) = length (ix_entries ix)" "ix_extensions (index_written ix) = ix_extensions ix"
    by (simp_all add: index_written_def)
  ultimately show ?thesis by (simp only: index_serialize_def Let_def sorted length_sort)
qed

lemma index_parse_serialize:
  assumes digest: "\<And>m. length (digest algo m) = raw_len algo" and ok: "git_index_ok algo ix"
  shows "index_parse digest algo (index_serialize digest algo ix) = Inr (index_written ix)"
proof -
  let ?extended = "list_ex (\<lambda>e. ie_extended_flags e \<noteq> None) (ix_entries ix)"
  let ?version = "(if ?extended then 3 else 2) :: u32" and ?sorted = "sort_key index_key (ix_entries ix)"
  let ?count = "of_nat (length ?sorted) :: u32"
  let ?body = "concat (map index_entry_bytes ?sorted)" and ?exts = "concat (map extension_bytes (ix_extensions ix))"
  let ?out = "lit ''DIRC'' @ be_bytes 4 ?version @ be_bytes 4 ?count @ ?body @ ?exts"
  let ?data = "?out @ digest algo ?out"
  have data: "index_serialize digest algo ix = ?data" by (simp add: index_serialize_def Let_def)
  have magic: "length (lit ''DIRC'') = 4" by (simp add: lit_def)
  have version: "be_at ?data 4 = ?version" unfolding append.assoc by (rule be_at_append [OF magic])
  have "be_at ((lit ''DIRC'' @ be_bytes 4 ?version) @ be_bytes 4 ?count @ ?body @ ?exts @ digest algo ?out) 8 = ?count"
    by (rule be_at_append) (simp add: magic)
  then have count: "unat (be_at ?data 8) = length ?sorted" using ok by (simp add: git_index_ok_def codec_simps)
  have content: "length (out @ digest algo out) - raw_len algo = length out"
    and trailer: "drop (length out) (out @ digest algo out) = digest algo (take (length out) (out @ digest algo out))" for out
    by (simp_all add: digest)
  have guard: "\<not> (length ?data < 12 + raw_len algo \<or> take 4 ?data \<noteq> lit ''DIRC'')" using magic by (simp add: digest)
  have entries: "parse_index_entries ?version algo (length ?sorted) [] (drop 12 ?data) = Inr (map norm_entry ?sorted, ?exts @ digest algo ?out)"
  proof -
    have "drop 12 ?data = ?body @ ?exts @ digest algo ?out" using magic by simp
    moreover have "parse_index_entries ?version algo (length ?sorted) [] (?body @ ?exts @ digest algo ?out) =
        Inr (map norm_entry ?sorted, ?exts @ digest algo ?out)"
      using ok by (intro parse_index_entries_bytes) (auto simp: git_index_ok_def list_all_iff list_ex_iff)
    ultimately show ?thesis by (simp only:)
  qed
  have exts: "parse_extensions (raw_len algo) (?exts @ digest algo ?out) = Inr (ix_extensions ix)"
    using ok by (intro parse_extensions_bytes digest) (simp add: git_index_ok_def list_all_iff)
  have range: "\<not> \<not> (2 \<le> ?version \<and> ?version \<le> 4)" by simp
  show ?thesis
    unfolding data index_parse_def Let_def content if_not_P [OF guard] version if_not_P [OF range] count
    using trailer [of ?out] by (simp only: entries bindR_simps prod.case exts index_written_def if_False not_False_eq_True simp_thms)
qed

text \<open>C28. A git index written to bytes reads back: whatever the entries (any flags, extended flags and stages,
  also paths longer than the length field can say, if they have no NUL), the parser returns every entry and extension, in the order of path and stage, with
  the flags as they were written, in version 3 exactly when an entry has extended flags.  Writing what was read gives the
  same bytes again, so a written index is a fixed point of reading and writing.\<close>

theorem index_reads_back:
  assumes "\<forall>m. length (digest algo m) = raw_len algo" and "git_index_ok algo ix"
  shows "index_parse digest algo (index_serialize digest algo ix) = Inr (index_written ix) \<and>
    index_serialize digest algo (index_written ix) = index_serialize digest algo ix \<and>
    sorted (map index_key (ix_entries (index_written ix))) \<and>
    mset (ix_entries (index_written ix)) = image_mset norm_entry (mset (ix_entries ix))"
proof (intro conjI)
  show "index_parse digest algo (index_serialize digest algo ix) = Inr (index_written ix)"
    using assms by (intro index_parse_serialize) auto
  show "mset (ix_entries (index_written ix)) = image_mset norm_entry (mset (ix_entries ix))"
    by (simp add: index_written_def)
qed (rule index_written_again index_written_sorted)+

definition sample_index_entry :: "bytes \<Rightarrow> u16 option \<Rightarrow> index_entry" where
  "sample_index_entry path ext =
     \<lparr>ie_ctime = (1, 2), ie_mtime = (3, 4), ie_dev = 5, ie_ino = 6, ie_mode = 0x81A4, ie_uid = 7, ie_gid = 8, ie_size = 9,
      ie_oid = mk_oid Sha1 (replicate 20 7), ie_flags = 0x1FFF, ie_extended_flags = ext, ie_path = path\<rparr>"

definition sample_index :: git_index where
  "sample_index =
     \<lparr>ix_version = 4, ix_entries = [sample_index_entry (lit ''b'') (Some 0x4000), sample_index_entry (lit ''a'') None],
      ix_extensions = [\<lparr>ex_signature = lit ''TREE'', ex_data = [1, 2]\<rparr>]\<rparr>"

theorem index_reads_back_witness:
  "map (\<lambda>e. (ie_path e, ie_flags e)) (ix_entries (index_written sample_index)) = [(lit ''a'', 0x1001), (lit ''b'', 0x5001)] \<and>
   index_parse (\<lambda>algo m. replicate (raw_len algo) 0) Sha1
     (index_serialize (\<lambda>algo m. replicate (raw_len algo) 0) Sha1 sample_index) = Inr (index_written sample_index)"
proof
  show "map (\<lambda>e. (ie_path e, ie_flags e)) (ix_entries (index_written sample_index)) = [(lit ''a'', 0x1001), (lit ''b'', 0x5001)]"
    by (simp add: index_written_def sample_index_def sample_index_entry_def index_key_def ie_stage_def norm_entry_def
        written_flags_def)
  have "git_index_ok Sha1 sample_index"
    by (simp add: git_index_ok_def sample_index_def sample_index_entry_def index_entry_ok_def extension_ok_def wf_oid_def)
  then show "index_parse (\<lambda>algo m. replicate (raw_len algo) 0) Sha1
     (index_serialize (\<lambda>algo m. replicate (raw_len algo) 0) Sha1 sample_index) = Inr (index_written sample_index)"
    using index_reads_back [of "\<lambda>algo m. replicate (raw_len algo) 0" Sha1 sample_index] by simp
qed

section \<open>An extension over the trailer\<close>

text \<open>The payload of an extension is checked against the end of the file and not against the trailer, so the bytes of the
  checksum itself are accepted as the payload of an extension.\<close>

lemma extension_takes_trailer:
  assumes "\<And>m. length (digest Sha1 m) = 20"
  defines "out \<equiv> lit ''DIRC'' @ be_bytes 4 (2 :: u32) @ be_bytes 4 (0 :: u32) @ lit ''TREE'' @ be_bytes 4 (20 :: u32)"
  shows "index_parse digest Sha1 (out @ digest Sha1 out) =
    Inr \<lparr>ix_version = 2, ix_entries = [], ix_extensions = [\<lparr>ex_signature = lit ''TREE'', ex_data = digest Sha1 out\<rparr>]\<rparr>"
proof -
  let ?t = "digest Sha1 out"
  have out: "length out = 20" "take 4 out = lit ''DIRC''" "be_at (out @ t) 4 = 2" "be_at (out @ t) 8 = 0"
    "drop 12 out = lit ''TREE'' @ be_bytes 4 (20 :: u32)" for t
    by (simp_all add: out_def be_at_def codec_simps)
  have "be_at (lit ''TREE'' @ be_bytes 4 (20 :: u32) @ ?t) 4 = 20" by (rule be_at_append) simp
  moreover have "take_n 20 ?t = Some (?t, [])" using take_n_append [of ?t 20 "[]"] by (simp add: assms(1))
  ultimately have "parse_extensions 20 ((lit ''TREE'' @ be_bytes 4 (20 :: u32)) @ ?t) = Inr [\<lparr>ex_signature = lit ''TREE'', ex_data = ?t\<rparr>]"
    by (subst parse_extensions.simps) (simp add: assms(1) parse_extensions.simps)
  then show ?thesis by (simp add: index_parse_def out assms(1) Let_def del: lit_def)
qed

end
