(* ===== verification/Wire_Pkt.thy ===== *)
theory Wire_Pkt
  imports Prelude
begin

text \<open>
  \<^verbatim>\<open>alt-wire/src/pkt.rs\<close>: pkt-line framing.  A reader is the bytes still to come, ending
  where the stream ends; a writer appends, so that a write is the bytes it appends, and
  \<open>None\<close> is its \<^verbatim>\<open>assert!\<close> failing.
\<close>

section \<open>Frames\<close>

datatype frame = Data bytes | Flush | Delim | ResponseEnd

datatype pkt_error = PktIo | BadLength bytes | LengthOutOfBounds nat | Truncated nat nat

definition MAX_LINE_LEN :: nat where
  "MAX_LINE_LEN = 0xFFF0"

definition hex_val :: "u8 \<Rightarrow> u32 option" where
  "hex_val c =
     (if 0x30 \<le> c \<and> c \<le> 0x39 then Some (ucast (c - 0x30))
      else if 0x61 \<le> c \<and> c \<le> 0x66 then Some (ucast (c - 0x61 + 10))
      else if 0x41 \<le> c \<and> c \<le> 0x46 then Some (ucast (c - 0x41 + 10))
      else None)"

fun parse_hex_from :: "u32 \<Rightarrow> bytes \<Rightarrow> nat option" where
  "parse_hex_from v [] = Some (unat v)"
| "parse_hex_from v (c # cs) =
     (case hex_val c of None \<Rightarrow> None | Some d \<Rightarrow> parse_hex_from (push_bit 4 v OR d) cs)"

definition parse_hex_len :: "bytes \<Rightarrow> nat option" where
  "parse_hex_len b = parse_hex_from 0 b"

definition hex4_digit :: "u32 \<Rightarrow> u8" where
  "hex4_digit x = (if x \<le> 9 then 0x30 + ucast x else 0x61 + ucast (x - 10))"

definition hex4 :: "u32 \<Rightarrow> bytes" where
  "hex4 v = [hex4_digit (drop_bit 12 v AND 0xF), hex4_digit (drop_bit 8 v AND 0xF),
     hex4_digit (drop_bit 4 v AND 0xF), hex4_digit (v AND 0xF)]"

definition read_frame :: "bytes \<Rightarrow> pkt_error + (frame \<times> bytes)" where
  "read_frame r =
     bindR (ok_or PktIo (take_n 4 r)) (\<lambda>(hdr, r1).
     bindR (ok_or (BadLength hdr) (parse_hex_len hdr)) (\<lambda>l.
       if l = 0 then Inr (Flush, r1)
       else if l = 1 then Inr (Delim, r1)
       else if l = 2 then Inr (ResponseEnd, r1)
       else if l = 3 then Inl (LengthOutOfBounds 3)
       else if MAX_LINE_LEN < l then Inl (LengthOutOfBounds l)
       else
         let payload = l - 4
         in bindR (ok_or (Truncated payload 0) (take_n payload r1)) (\<lambda>(d, r2). Inr (Data d, r2))))"

definition write_data :: "bytes \<Rightarrow> bytes option" where
  "write_data payload =
     (if length payload \<le> MAX_LINE_LEN - 4
      then let total = of_nat (length payload + 4) :: u16 in Some (hex4 (ucast total) @ payload)
      else None)"

definition write_flush :: bytes where
  "write_flush = lit ''0000''"

definition write_delim :: bytes where
  "write_delim = lit ''0001''"

definition write_response_end :: bytes where
  "write_response_end = lit ''0002''"

text \<open>What the four writers append, for the frames they accept.\<close>

fun frame_bytes :: "frame \<Rightarrow> bytes" where
  "frame_bytes (Data d) = hex4 (ucast (of_nat (length d + 4) :: u16)) @ d"
| "frame_bytes Flush = write_flush"
| "frame_bytes Delim = write_delim"
| "frame_bytes ResponseEnd = write_response_end"

fun frame_ok :: "frame \<Rightarrow> bool" where
  "frame_ok (Data d) \<longleftrightarrow> length d \<le> MAX_LINE_LEN - 4"
| "frame_ok _ \<longleftrightarrow> True"

lemma write_data_frame:
  "write_data d = (if frame_ok (Data d) then Some (frame_bytes (Data d)) else None)"
  by (simp add: write_data_def Let_def)

section \<open>The length prefix\<close>

lemma hex4_digits:
  "\<forall>n \<in> set [0..<16]. hex_val (hex4_digit (of_nat n)) = Some (of_nat n)"
  by (simp add: upt_rec hex_val_def hex4_digit_def)

lemma hex_val_digit: "unat x < 16 \<Longrightarrow> hex_val (hex4_digit x) = Some x"
  using hex4_digits [rule_format, of "unat x"] by simp

lemma nibble_small: "unat ((x :: u32) AND 0xF) < 16"
proof -
  have "(0xF :: u32) = mask 4"
    by (simp add: mask_eq_exp_minus_1)
  then have "x AND 0xF = take_bit 4 x"
    by (simp add: take_bit_eq_mask)
  then show ?thesis
    using take_bit_nat_less_exp [of 4 "unat x"] by (simp add: unsigned_take_bit_eq)
qed

lemma hex4_nibbles:
  assumes "take_bit 16 v = (v :: u32)"
  shows "push_bit 4 (push_bit 4 (push_bit 4 (drop_bit 12 v AND 0xF) OR (drop_bit 8 v AND 0xF))
      OR (drop_bit 4 v AND 0xF)) OR (v AND 0xF) = v"
proof -
  have m: "(0xF :: u32) = mask 4"
    by (simp add: mask_eq_exp_minus_1)
  have b: "bit v k \<Longrightarrow> k < 16" for k
    using assms by (metis bit_take_bit_iff)
  show ?thesis
    unfolding m
  proof (rule bit_word_eqI)
    fix k assume "k < LENGTH(32)"
    consider "k < 4" | "4 \<le> k" "k < 8" | "8 \<le> k" "k < 12" | "12 \<le> k" "k < 16" | "16 \<le> k"
      by linarith
    then show "bit (push_bit 4 (push_bit 4 (push_bit 4 (drop_bit 12 v AND mask 4) OR drop_bit 8 v AND mask 4)
        OR drop_bit 4 v AND mask 4) OR v AND mask 4) k = bit v k"
      using \<open>k < LENGTH(32)\<close> by cases (auto simp: bit_simps dest: b)
  qed
qed

lemma parse_hex4:
  assumes "n < 65536"
  shows "parse_hex_len (hex4 (of_nat n)) = Some n"
proof -
  have "take_bit 16 (of_nat n :: u32) = of_nat n"
    using assms by (simp only: take_bit_of_nat) (simp add: take_bit_nat_eq_self)
  from hex4_nibbles [OF this] show ?thesis
    using assms by (simp add: parse_hex_len_def hex4_def hex_val_digit nibble_small or.assoc
        unat_of_nat_u32 del: push_bit_or)
qed

lemma length_hex4 [simp]: "length (hex4 v) = 4"
  by (simp add: hex4_def)

section \<open>Reading what was written\<close>

lemma special_prefixes [simp]:
  "parse_hex_len write_flush = Some 0"
  "parse_hex_len write_delim = Some 1"
  "parse_hex_len write_response_end = Some 2"
  by (simp_all add: parse_hex_len_def write_flush_def write_delim_def write_response_end_def hex_val_def)

lemma length_special [simp]:
  "length write_flush = 4" "length write_delim = 4" "length write_response_end = 4"
  by (simp_all add: write_flush_def write_delim_def write_response_end_def)

lemma read_frame_bytes [codec_simps]:
  assumes "frame_ok f"
  shows "read_frame (frame_bytes f @ rest) = Inr (f, rest)"
proof (cases f)
  case (Data d)
  with assms have len: "length d + 4 < 65536" "length d + 4 \<le> MAX_LINE_LEN"
    by (simp_all add: MAX_LINE_LEN_def)
  then have "ucast (of_nat (length d + 4) :: u16) = (of_nat (length d + 4) :: u32)"
    by (simp add: word_eq_iff_unsigned unsigned_ucast_eq unsigned_of_nat take_bit_nat_eq_self del: of_nat_add)
  then have "parse_hex_len (hex4 (ucast (of_nat (length d + 4) :: u16))) = Some (length d + 4)"
    using parse_hex4 [OF len(1)] by simp
  then show ?thesis
    using Data len by (simp add: read_frame_def take_n_append)
qed (simp_all add: read_frame_def take_n_append)

interpretation frames: prefix_codec frame_bytes read_frame frame_ok
  by unfold_locales (rule read_frame_bytes)

declare frame_bytes.simps(1) [simp del]

lemma read_frame_consumes [reads]:
  "read_frame r = Inr (f, r') \<Longrightarrow> length r' + 4 \<le> length r"
  by (auto simp: read_frame_def bindR_eq_Inr take_n_eq_Some Let_def split: if_splits)

lemma read_frame_split:
  assumes "read_frame r = Inr (f, r')"
  obtains hdr where "length hdr = 4" and "r = hdr @ (case f of Data d \<Rightarrow> d | _ \<Rightarrow> []) @ r'" and "frame_ok f"
    and "parse_hex_len hdr = Some (case f of Data d \<Rightarrow> length d + 4 | Flush \<Rightarrow> 0 | Delim \<Rightarrow> 1 | ResponseEnd \<Rightarrow> 2)"
proof -
  obtain hdr r1 l where h: "r = hdr @ r1" "length hdr = 4" "parse_hex_len hdr = Some l"
    using assms by (auto simp: read_frame_def bindR_eq_Inr take_n_eq_Some)
  have eq: "read_frame r = (if l = 0 then Inr (Flush, r1) else if l = 1 then Inr (Delim, r1)
      else if l = 2 then Inr (ResponseEnd, r1) else if l = 3 then Inl (LengthOutOfBounds 3)
      else if MAX_LINE_LEN < l then Inl (LengthOutOfBounds l)
      else bindR (ok_or (Truncated (l - 4) 0) (take_n (l - 4) r1)) (\<lambda>(d, r2). Inr (Data d, r2)))"
    using h by (simp add: read_frame_def take_n_append Let_def)
  consider "l = 0" | "l = 1" | "l = 2" | "4 \<le> l" "l \<le> MAX_LINE_LEN"
    using assms eq by (cases "l = 3"; cases "MAX_LINE_LEN < l") (auto split: if_splits)
  then show thesis
  proof cases
    case 4
    then have "bindR (ok_or (Truncated (l - 4) 0) (take_n (l - 4) r1)) (\<lambda>(d, r2). Inr (Data d, r2)) = Inr (f, r')"
      using assms eq by simp
    then obtain d where "f = Data d" "r1 = d @ r'" "length d = l - 4"
      by (auto simp: bindR_eq_Inr take_n_eq_Some)
    with h 4 show thesis by (intro that [of hdr]) simp_all
  qed (use assms eq h that in auto)
qed

lemma read_frame_eof: "length r < 4 \<Longrightarrow> read_frame r = Inl PktIo"
  by (simp add: read_frame_def take_n_def)

text \<open>The writers, as the callers chain them: one that fails stops the rest.\<close>

fun write_frames :: "bytes option list \<Rightarrow> bytes option" where
  "write_frames [] = Some []"
| "write_frames (None # ws) = None"
| "write_frames (Some b # ws) = map_option ((@) b) (write_frames ws)"

lemma write_frames_eq_Some:
  "write_frames ws = Some out \<longleftrightarrow> (\<exists>bs. ws = map Some bs \<and> out = concat bs)"
proof (induction ws arbitrary: out)
  case Nil
  then show ?case by auto
next
  case (Cons w ws)
  show ?case
  proof (cases w)
    case None
    then show ?thesis by (auto simp: Cons_eq_map_conv)
  next
    case (Some b)
    then show ?thesis by (auto simp: Cons.IH Cons_eq_map_conv)
  qed
qed

lemma write_frames_data:
  "write_frames (map write_data ds) =
     (if \<forall>d \<in> set ds. frame_ok (Data d) then Some (concat (map (frame_bytes \<circ> Data) ds)) else None)"
  by (induction ds) (auto simp: write_data_frame comp_def)

lemma write_frames_Cons_data:
  "write_frames (write_data d # ws) = Some out \<longleftrightarrow>
     frame_ok (Data d) \<and> (\<exists>o'. write_frames ws = Some o' \<and> out = frame_bytes (Data d) @ o')"
  by (auto simp: write_data_frame simp del: frame_ok.simps)

lemma write_frames_Cons_Some:
  "write_frames (Some b # ws) = Some out \<longleftrightarrow> (\<exists>o'. write_frames ws = Some o' \<and> out = b @ o')"
  by auto

lemma write_frames_map_data:
  "write_frames (map (\<lambda>x. write_data (f x)) xs @ ws) = Some out \<longleftrightarrow>
     (\<forall>x \<in> set xs. frame_ok (Data (f x))) \<and>
     (\<exists>o'. write_frames ws = Some o' \<and> out = concat (map (\<lambda>x. frame_bytes (Data (f x))) xs) @ o')"
proof (induction xs arbitrary: out)
  case Nil
  then show ?case by auto
next
  case (Cons x xs)
  then show ?case by (auto simp: write_frames_Cons_data simp del: frame_ok.simps)
qed

lemmas write_frames_out = write_frames_Cons_data write_frames_Cons_Some write_frames_map_data

lemma special_frame_bytes:
  "write_flush = frame_bytes Flush" "write_delim = frame_bytes Delim"
  "write_response_end = frame_bytes ResponseEnd"
  by simp_all

lemma write_frames_append:
  "write_frames (xs @ ys) =
     (case write_frames xs of None \<Rightarrow> None | Some a \<Rightarrow> map_option ((@) a) (write_frames ys))"
proof (induction xs)
  case Nil
  then show ?case by (cases "write_frames ys") auto
next
  case (Cons w ws)
  then show ?case
    by (cases w; cases "write_frames ys") (auto split: option.splits)
qed

section \<open>Properties\<close>

text \<open>Any sequence of frames, each with a payload of at most 65516 bytes, is read back frame by
  frame from its written form, with the bytes after it untouched; and no two sequences of the
  same length have the same written form.\<close>

theorem frames_round_trip:
  assumes "\<forall>f \<in> set fs. frame_ok f"
  shows "repeat_parse read_frame (length fs) (concat (map frame_bytes fs) @ rest) = Inr (fs, rest) \<and>
    (\<forall>gs. (\<forall>g \<in> set gs. frame_ok g) \<longrightarrow> length gs = length fs \<longrightarrow>
      concat (map frame_bytes gs) = concat (map frame_bytes fs) \<longrightarrow> gs = fs)"
  using frames.repeat_dec_enc [OF assms, of rest] frames.concat_enc_inj [OF _ assms] by blast

theorem frames_round_trip_witness:
  "repeat_parse read_frame 3 (concat (map frame_bytes [Data (lit ''want''), Delim, Flush]) @ lit ''PACK'')
     = Inr ([Data (lit ''want''), Delim, Flush], lit ''PACK'')"
proof -
  have "\<forall>f \<in> set [Data (lit ''want''), Delim, Flush]. frame_ok f"
    by (simp add: MAX_LINE_LEN_def)
  from frames_round_trip [OF this, THEN conjunct1] show ?thesis
    by (simp only: list.size add_0 add_Suc_right add_0_right numeral_3_eq_3 One_nat_def)
qed

text \<open>Whatever a peer sends, a frame that is read took at least its four header bytes, its payload
  is the bytes that follow them and never exceeds the line limit.\<close>

theorem read_frame_bounds:
  assumes "read_frame r = Inr (f, r')"
  shows "\<exists>hdr payload. r = hdr @ payload @ r' \<and> length hdr = 4 \<and> length payload \<le> 65516 \<and>
    f \<in> {Data payload, Flush, Delim, ResponseEnd}"
proof -
  obtain hdr where h: "length hdr = 4" "frame_ok f" "r = hdr @ (case f of Data d \<Rightarrow> d | _ \<Rightarrow> []) @ r'"
    using assms by (rule read_frame_split)
  then show ?thesis
    by (intro exI [of _ hdr] exI [of _ "case f of Data d \<Rightarrow> d | _ \<Rightarrow> []"])
      (cases f; simp add: MAX_LINE_LEN_def)
qed

theorem read_frame_bounds_witness:
  "read_frame (lit ''0006abc'') = Inr (Data (lit ''ab''), lit ''c'') \<and>
   (\<exists>hdr payload. lit ''0006abc'' = hdr @ payload @ lit ''c'' \<and> length payload \<le> 65516)"
proof -
  have r: "read_frame (lit ''0006abc'') = Inr (Data (lit ''ab''), lit ''c'')"
    by (simp add: read_frame_def take_n_def parse_hex_len_def hex_val_def MAX_LINE_LEN_def)
  then show ?thesis using read_frame_bounds [OF r] by blast
qed

end
