(* ===== verification/Wire_Lines.thy ===== *)
theory Wire_Lines
  imports Wire_Pkt Rust_Str Git_Object Btree_Map
begin

text \<open>
  What the message modules of \<^verbatim>\<open>alt-wire\<close> share: the loop over the frames of a message,
  and the text lines that are the payloads.
\<close>

section \<open>The frame loop\<close>

text \<open>
  \<^verbatim>\<open>loop { match read_frame(r)? { .. } }\<close>: \<open>step\<close> is the match, with \<open>Inl\<close> to go round
  again and \<open>Inr\<close> to \<^verbatim>\<open>break\<close>.  A frame takes four bytes at least, so the loop ends on
  every stream.
\<close>

function frame_loop ::
  "(pkt_error \<Rightarrow> 'e) \<Rightarrow> ('s \<Rightarrow> frame \<Rightarrow> 'e + ('s + 't)) \<Rightarrow> 's \<Rightarrow> bytes \<Rightarrow> 'e + ('t \<times> bytes)" where
  "frame_loop err step s r =
     (case read_frame r of
        Inl e \<Rightarrow> Inl (err e)
      | Inr (f, r') \<Rightarrow>
          (case step s f of
             Inl e \<Rightarrow> Inl e
           | Inr (Inl s') \<Rightarrow> frame_loop err step s' r'
           | Inr (Inr t) \<Rightarrow> Inr (t, r')))"
  by pat_completeness auto
termination
  by (relation "measure (\<lambda>(err, step, s, r). length r)") (auto dest!: read_frame_consumes)

declare frame_loop.simps [simp del]

lemma frame_loop_frame [codec_simps]:
  "frame_ok f \<Longrightarrow> frame_loop err step s (frame_bytes f @ rest) =
     (case step s f of
        Inl e \<Rightarrow> Inl e
      | Inr (Inl s') \<Rightarrow> frame_loop err step s' rest
      | Inr (Inr t) \<Rightarrow> Inr (t, rest))"
  by (subst frame_loop.simps) (simp add: read_frame_bytes)

lemma frame_loop_special [codec_simps]:
  "frame_loop err step s (write_flush @ rest) =
     (case step s Flush of Inl e \<Rightarrow> Inl e | Inr (Inl s') \<Rightarrow> frame_loop err step s' rest | Inr (Inr t) \<Rightarrow> Inr (t, rest))"
  "frame_loop err step s (write_delim @ rest) =
     (case step s Delim of Inl e \<Rightarrow> Inl e | Inr (Inl s') \<Rightarrow> frame_loop err step s' rest | Inr (Inr t) \<Rightarrow> Inr (t, rest))"
  unfolding special_frame_bytes by (simp_all only: frame_loop_frame frame_ok.simps)

lemma frame_loop_data:
  "frame_ok (Data d) \<Longrightarrow> step s (Data d) = Inr (Inl s') \<Longrightarrow>
   frame_loop err step s (frame_bytes (Data d) @ rest) = frame_loop err step s' rest"
  by (simp add: frame_loop_frame)

text \<open>Frames that each take the loop round once more.\<close>

lemma frame_loop_fold:
  "\<forall>x \<in> set xs. frame_ok (g x) \<and> (\<forall>s. P s \<longrightarrow> step s (g x) = Inr (Inl (upd x s)) \<and> P (upd x s)) \<Longrightarrow>
   P s \<Longrightarrow>
   frame_loop err step s (concat (map (\<lambda>x. frame_bytes (g x)) xs) @ rest)
     = frame_loop err step (fold upd xs s) rest"
proof (induction xs arbitrary: s)
  case Nil
  then show ?case by simp
next
  case (Cons x xs)
  then show ?case by (simp add: frame_loop_frame)
qed

text \<open>A loop that ended has taken whole frames off the front of the stream.\<close>

lemma frame_loop_suffix:
  "frame_loop err step s r = Inr (t, r') \<Longrightarrow> \<exists>used. r = used @ r' \<and> 4 \<le> length used"
proof (induction err step s r rule: frame_loop.induct)
  case (1 err step s r)
  obtain f r1 where f: "read_frame r = Inr (f, r1)"
    using "1.prems" by (subst (asm) frame_loop.simps) (auto split: sum.splits)
  obtain hdr where hdr: "length hdr = 4" "r = hdr @ (case f of Data d \<Rightarrow> d | _ \<Rightarrow> []) @ r1"
    using read_frame_split [OF f] by metis
  have "r1 = r' \<or> (\<exists>used. r1 = used @ r')"
    using "1.prems" "1.IH" [OF f refl] f
    by (subst (asm) frame_loop.simps) (auto split: sum.splits)
  then obtain used where "r1 = used @ r'"
    by (metis append_Nil)
  with hdr show ?case
    by (intro exI [of _ "hdr @ (case f of Data d \<Rightarrow> d | _ \<Rightarrow> []) @ used"]) simp
qed

section \<open>Lines\<close>

text \<open>The start of every line handler: \<^verbatim>\<open>from_utf8(trim_newline(line))\<close>.\<close>

definition line_str :: "(bytes \<Rightarrow> 'e) \<Rightarrow> bytes \<Rightarrow> 'e + bytes" where
  "line_str bad line = (let l = trim_newline line in if utf8 l then Inr l else Inl (bad l))"

text \<open>Text that a line can carry, and text that can be one of its space-separated tokens.\<close>

definition plain :: "bytes \<Rightarrow> bool" where
  "plain s \<longleftrightarrow> utf8 s \<and> 0x0A \<notin> set s \<and> 0x0D \<notin> set s"

definition token :: "bytes \<Rightarrow> bool" where
  "token s \<longleftrightarrow> plain s \<and> 0x20 \<notin> set s"

lemma plain_append [simp]: "plain a \<Longrightarrow> plain (a @ b) = plain b"
  by (auto simp: plain_def utf8_append)

lemma plain_ascii_Cons [simp]: "b \<le> 0x7F \<Longrightarrow> b \<noteq> 0x0A \<Longrightarrow> b \<noteq> 0x0D \<Longrightarrow> plain (b # s) = plain s"
  by (auto simp: plain_def utf8_ascii_Cons)

lemma plain_Nil [simp]: "plain []"
  by (simp add: plain_def)

lemma token_plain [simp]: "token s \<Longrightarrow> plain s"
  by (simp add: token_def)

lemma token_no_space: "token s \<Longrightarrow> 0x20 \<notin> set s"
  by (simp add: token_def)

lemma token_append [simp]: "token a \<Longrightarrow> token (a @ b) = token b"
  by (auto simp: token_def)

lemma token_ascii_Cons [simp]:
  "b \<le> 0x7F \<Longrightarrow> b \<noteq> 0x0A \<Longrightarrow> b \<noteq> 0x0D \<Longrightarrow> b \<noteq> 0x20 \<Longrightarrow> token (b # s) = token s"
  by (auto simp: token_def)

lemma token_Nil [simp]: "token []"
  by (simp add: token_def)

lemma trim_newline_plain: "plain s \<Longrightarrow> trim_newline s = s"
  by (intro trim_newline_id) (auto simp: plain_def dest: last_in_set)

lemma line_str_plain [codec_simps]: "plain s \<Longrightarrow> line_str bad (s @ [0x0A]) = Inr s"
  by (simp add: line_str_def trim_newline_plain Let_def) (simp add: plain_def)

lemma line_str_plain' [codec_simps]: "plain s \<Longrightarrow> line_str bad s = Inr s"
  by (simp add: line_str_def trim_newline_plain Let_def) (simp add: plain_def)

lemma oid_token [simp]: "token (oid_to_string oid)"
  using utf8_oid_string oid_string_no_sep oid_string_graphic
  by (fastforce simp: token_def plain_def)

lemma digits_token [simp]: "token (to_decimal n)"
  using utf8_to_decimal to_decimal_digits
  by (fastforce simp: token_def plain_def digit_def)

lemma plain_join: "\<forall>t \<in> set ts. plain t \<Longrightarrow> plain (join_with [0x20] ts)"
proof (induction ts)
  case (Cons t ts)
  then show ?case by (cases "ts = []") (auto simp: join_with_Cons)
qed simp

lemma split_tokens:
  "ts \<noteq> [] \<Longrightarrow> \<forall>t \<in> set ts. token t \<Longrightarrow> split_on 0x20 (join_with [0x20] ts) = ts"
  by (rule split_on_join) (auto simp: token_def)

lemma join_with_space:
  "join_with [0x20] (t # ts) = t @ concat (map ((#) 0x20) ts)"
  by (induction ts arbitrary: t) auto

end
