(* ===== verification/Wire_LsRefs.thy ===== *)
theory Wire_LsRefs
  imports Wire_Lines
begin

text \<open>
  \<^verbatim>\<open>alt-wire/src/ls_refs.rs\<close>: the \<^verbatim>\<open>ls-refs\<close> command, both sides.
\<close>

section \<open>Messages\<close>

record ls_refs_request =
  lr_symrefs :: bool
  lr_peel :: bool
  lr_ref_prefixes :: "bytes list"

record ref_record =
  rr_oid :: object_id
  rr_name :: bytes
  rr_symref_target :: "bytes option"
  rr_peeled :: "object_id option"
  rr_other :: "(bytes, bytes) btree"

datatype ls_refs_error = LsPkt pkt_error | BadRefLine bytes | BadObjectFormat bytes

definition ls_refs_request_default :: ls_refs_request where
  "ls_refs_request_default = \<lparr>lr_symrefs = False, lr_peel = False, lr_ref_prefixes = []\<rparr>"

section \<open>Requests\<close>

definition encode_ls_refs_request :: "ls_refs_request \<Rightarrow> bytes option \<Rightarrow> bytes option" where
  "encode_ls_refs_request req object_format =
     write_frames
       ([write_data (lit ''command=ls-refs'' @ [0x0A])]
        @ (case object_format of None \<Rightarrow> []
           | Some fmt \<Rightarrow> [write_data (lit ''object-format='' @ fmt @ [0x0A])])
        @ [Some write_delim]
        @ (if lr_peel req then [write_data (lit ''peel'' @ [0x0A])] else [])
        @ (if lr_symrefs req then [write_data (lit ''symrefs'' @ [0x0A])] else [])
        @ map (\<lambda>p. write_data (lit ''ref-prefix '' @ p @ [0x0A])) (lr_ref_prefixes req)
        @ [Some write_flush])"

text \<open>The loop before the delimiter.  A flush ends the request there: \<open>Inr\<close> of a pair is its
  early return, \<open>Inl\<close> the \<^verbatim>\<open>break\<close>.\<close>

definition ls_request_header ::
  "bytes option \<Rightarrow> frame \<Rightarrow> ls_refs_error + (bytes option + (bytes option + bytes option))" where
  "ls_request_header object_format f =
     (case f of
        Delim \<Rightarrow> Inr (Inr (Inl object_format))
      | Flush \<Rightarrow> Inr (Inr (Inr object_format))
      | ResponseEnd \<Rightarrow> Inr (Inr (Inr object_format))
      | Data l \<Rightarrow>
          bindR (line_str BadRefLine l) (\<lambda>s.
            if s = lit ''command=ls-refs'' then Inr (Inl object_format)
            else case strip_prefix (lit ''object-format='') s of
                   Some v \<Rightarrow> Inr (Inl (Some (trim v)))
                 | None \<Rightarrow> Inr (Inl object_format)))"

definition ls_request_arg ::
  "ls_refs_request \<Rightarrow> frame \<Rightarrow> ls_refs_error + (ls_refs_request + ls_refs_request)" where
  "ls_request_arg req f =
     (case f of
        Data l \<Rightarrow>
          bindR (line_str BadRefLine l) (\<lambda>s.
            if s = lit ''peel'' then Inr (Inl (req\<lparr>lr_peel := True\<rparr>))
            else if s = lit ''symrefs'' then Inr (Inl (req\<lparr>lr_symrefs := True\<rparr>))
            else case strip_prefix (lit ''ref-prefix '') s of
                   Some p \<Rightarrow> Inr (Inl (req\<lparr>lr_ref_prefixes := lr_ref_prefixes req @ [p]\<rparr>))
                 | None \<Rightarrow> Inr (Inl req))
      | _ \<Rightarrow> Inr (Inr req))"

definition parse_ls_refs_request ::
  "bytes \<Rightarrow> ls_refs_error + ((ls_refs_request \<times> bytes option) \<times> bytes)" where
  "parse_ls_refs_request r =
     bindR (frame_loop LsPkt ls_request_header None r) (\<lambda>(h, r1).
       case h of
         Inr object_format \<Rightarrow> Inr ((ls_refs_request_default, object_format), r1)
       | Inl object_format \<Rightarrow>
           bindR (frame_loop LsPkt ls_request_arg ls_refs_request_default r1) (\<lambda>(req, r2).
             Inr ((req, object_format), r2)))"

section \<open>Responses\<close>

definition parse_oid :: "bytes \<Rightarrow> hash_algo \<Rightarrow> bytes \<Rightarrow> ls_refs_error + object_id" where
  "parse_oid s algo l =
     (case oid_from_hex s of
        Inr oid \<Rightarrow> if oid_algo oid = algo then Inr oid else Inl (BadRefLine l)
      | Inl _ \<Rightarrow> Inl (BadRefLine l))"

definition parse_annotation ::
  "hash_algo \<Rightarrow> bytes \<Rightarrow> bytes \<Rightarrow> ref_record \<Rightarrow> ls_refs_error + ref_record" where
  "parse_annotation algo l tok record =
     (case split_first 0x3A tok of
        None \<Rightarrow> Inr (record\<lparr>rr_other := bt_insert tok [] (rr_other record)\<rparr>)
      | Some (k, v) \<Rightarrow>
          if k = lit ''symref-target'' then Inr (record\<lparr>rr_symref_target := Some v\<rparr>)
          else if k = lit ''peeled'' then
            bindR (parse_oid v algo l) (\<lambda>oid. Inr (record\<lparr>rr_peeled := Some oid\<rparr>))
          else Inr (record\<lparr>rr_other := bt_insert k v (rr_other record)\<rparr>))"

fun parse_annotations ::
  "hash_algo \<Rightarrow> bytes \<Rightarrow> bytes list \<Rightarrow> ref_record \<Rightarrow> ls_refs_error + ref_record" where
  "parse_annotations algo l [] record = Inr record"
| "parse_annotations algo l (tok # toks) record =
     bindR (parse_annotation algo l tok record) (parse_annotations algo l toks)"

definition parse_ref_line :: "bytes \<Rightarrow> hash_algo \<Rightarrow> ls_refs_error + ref_record" where
  "parse_ref_line l0 algo =
     (let l = trim_newline l0
      in bindR (line_str BadRefLine l0) (\<lambda>s.
         bindR (ok_or (BadRefLine l) (next_byte (split_on 0x20 s))) (\<lambda>(oid_s, toks1).
         bindR (ok_or (BadRefLine l) (next_byte toks1)) (\<lambda>(name, toks).
         bindR (parse_oid oid_s algo l) (\<lambda>oid.
           parse_annotations algo l toks
             \<lparr>rr_oid = oid, rr_name = name, rr_symref_target = None, rr_peeled = None, rr_other = []\<rparr>)))))"

definition ls_response_step ::
  "hash_algo \<Rightarrow> ref_record list \<Rightarrow> frame \<Rightarrow> ls_refs_error + (ref_record list + ref_record list)" where
  "ls_response_step algo refs f =
     (case f of
        Data l \<Rightarrow> bindR (parse_ref_line l algo) (\<lambda>r. Inr (Inl (refs @ [r])))
      | _ \<Rightarrow> Inr (Inr refs))"

definition parse_ls_refs_response :: "bytes \<Rightarrow> hash_algo \<Rightarrow> ls_refs_error + (ref_record list \<times> bytes)" where
  "parse_ls_refs_response r algo = frame_loop LsPkt (ls_response_step algo) [] r"

definition encode_ref_record :: "ref_record \<Rightarrow> bytes" where
  "encode_ref_record r =
     oid_to_string (rr_oid r) @ [0x20] @ rr_name r
     @ (case rr_symref_target r of None \<Rightarrow> [] | Some t \<Rightarrow> lit '' symref-target:'' @ t)
     @ (case rr_peeled r of None \<Rightarrow> [] | Some p \<Rightarrow> lit '' peeled:'' @ oid_to_string p)
     @ concat (map (\<lambda>(k, v). [0x20] @ k @ (if v \<noteq> [] then [0x3A] @ v else [])) (rr_other r))
     @ [0x0A]"

definition encode_ls_refs_response :: "ref_record list \<Rightarrow> bytes option" where
  "encode_ls_refs_response refs =
     write_frames (map (\<lambda>r. write_data (encode_ref_record r)) refs @ [Some write_flush])"

section \<open>Responses read back\<close>

text \<open>A response line as its list of tokens.\<close>

definition other_token :: "bytes \<times> bytes \<Rightarrow> bytes" where
  "other_token = (\<lambda>(k, v). if v \<noteq> [] then k @ 0x3A # v else k)"

definition annotation_tokens :: "ref_record \<Rightarrow> bytes list" where
  "annotation_tokens r =
     (case rr_symref_target r of None \<Rightarrow> [] | Some t \<Rightarrow> [lit ''symref-target:'' @ t])
     @ (case rr_peeled r of None \<Rightarrow> [] | Some p \<Rightarrow> [lit ''peeled:'' @ oid_to_string p])
     @ map other_token (rr_other r)"

lemma encode_ref_record_tokens:
  "encode_ref_record r
     = join_with [0x20] (oid_to_string (rr_oid r) # rr_name r # annotation_tokens r) @ [0x0A]"
proof -
  have "concat (map (\<lambda>(k, v). [0x20] @ k @ (if v \<noteq> [] then [0x3A] @ v else [])) m)
      = concat (map ((#) 0x20) (map other_token m))" for m
    by (induction m) (auto simp: other_token_def)
  then show ?thesis
    unfolding encode_ref_record_def annotation_tokens_def join_with_space
    by (simp split: option.splits)
qed

definition other_ok :: "bytes \<times> bytes \<Rightarrow> bool" where
  "other_ok = (\<lambda>(k, v). token k \<and> token v \<and> 0x3A \<notin> set k \<and>
     (v \<noteq> [] \<longrightarrow> k \<noteq> lit ''symref-target'' \<and> k \<noteq> lit ''peeled''))"

definition ref_record_ok :: "hash_algo \<Rightarrow> ref_record \<Rightarrow> bool" where
  "ref_record_ok algo r \<longleftrightarrow>
     wf_oid (rr_oid r) \<and> oid_algo (rr_oid r) = algo \<and> token (rr_name r) \<and>
     pred_option token (rr_symref_target r) \<and>
     pred_option (\<lambda>p. wf_oid p \<and> oid_algo p = algo) (rr_peeled r) \<and>
     bt_ok (rr_other r) \<and> list_all other_ok (rr_other r)"

lemma parse_oid_string: "wf_oid oid \<Longrightarrow> parse_oid (oid_to_string oid) (oid_algo oid) l = Inr oid"
  by (simp add: parse_oid_def oid_hex_round_trip)

lemma parse_annotations_append:
  "parse_annotations algo l (xs @ ys) r = bindR (parse_annotations algo l xs r) (parse_annotations algo l ys)"
proof (induction xs arbitrary: r)
  case (Cons x xs)
  then show ?case by (cases "parse_annotation algo l x r") auto
qed simp

lemma bt_ok_snocD: "bt_ok (m @ [(k, v)]) \<Longrightarrow> bt_ok m \<and> (\<forall>k' \<in> fst ` set m. k' < k)"
  by (simp add: bt_ok_def sorted_wrt_append)

lemma parse_symref_token:
  "parse_annotation algo l (lit ''symref-target:'' @ t) r = Inr (r\<lparr>rr_symref_target := Some t\<rparr>)"
  by (simp add: parse_annotation_def)

lemma parse_peeled_token:
  "wf_oid p \<Longrightarrow> oid_algo p = algo \<Longrightarrow>
   parse_annotation algo l (lit ''peeled:'' @ oid_to_string p) r = Inr (r\<lparr>rr_peeled := Some p\<rparr>)"
  by (auto simp: parse_annotation_def parse_oid_string)

lemma parse_other_token:
  assumes "other_ok (k, v)"
  shows "parse_annotation algo l (other_token (k, v)) r = Inr (r\<lparr>rr_other := bt_insert k v (rr_other r)\<rparr>)"
proof (cases "v = []")
  case True
  have "split_first 0x3A k = None"
    using assms by (simp add: other_ok_def split_first_eq_None)
  with True show ?thesis
    by (simp add: parse_annotation_def other_token_def)
next
  case False
  have "split_first 0x3A (k @ 0x3A # v) = Some (k, v)"
    using assms by (intro split_first_append) (simp add: other_ok_def)
  moreover have "k \<noteq> lit ''symref-target''" "k \<noteq> lit ''peeled''"
    using assms False unfolding other_ok_def by blast+
  ultimately show ?thesis
    using False by (simp add: parse_annotation_def other_token_def del: lit_def)
qed

lemma parse_other:
  "bt_ok m \<Longrightarrow> list_all other_ok m \<Longrightarrow> rr_other r = [] \<Longrightarrow>
   parse_annotations algo l (map other_token m) r = Inr (r\<lparr>rr_other := m\<rparr>)"
proof (induction m rule: rev_induct)
  case Nil
  then show ?case by simp
next
  case (snoc p m)
  obtain k v where p: "p = (k, v)" by fastforce
  note m = bt_ok_snocD [OF snoc.prems(1) [unfolded p]]
  have "other_ok (k, v)"
    using snoc.prems(2) by (simp add: p)
  with snoc.IH [OF m [THEN conjunct1]] snoc.prems(2,3) show ?case
    by (simp add: parse_annotations_append p parse_other_token bt_insert_last [OF m [THEN conjunct2]])
qed

lemma token_other: "other_ok p \<Longrightarrow> token (other_token p)"
  by (cases p) (simp add: other_ok_def other_token_def)

lemma token_annotation:
  "token (lit ''symref-target:'' @ t) = token t" "token (lit ''peeled:'' @ t) = token t"
  by simp_all

lemma annotation_tokens_ok:
  assumes "ref_record_ok algo r"
  shows "list_all token (annotation_tokens r)"
proof -
  have "list_all token (map other_token (rr_other r))"
    using assms token_other by (auto simp: ref_record_ok_def list_all_iff)
  then show ?thesis
    using assms
    by (cases "rr_symref_target r"; cases "rr_peeled r")
      (simp_all add: annotation_tokens_def ref_record_ok_def token_annotation del: lit_def)
qed

lemma parse_encoded_record:
  assumes "ref_record_ok algo r"
  shows "parse_ref_line (encode_ref_record r) algo = Inr r"
proof -
  let ?toks = "oid_to_string (rr_oid r) # rr_name r # annotation_tokens r"
  have toks: "\<forall>t \<in> set ?toks. token t"
    using assms annotation_tokens_ok [OF assms] by (simp add: ref_record_ok_def list_all_iff)
  then have "\<forall>t \<in> set ?toks. plain t" by simp
  then have str: "line_str BadRefLine (encode_ref_record r) = Inr (join_with [0x20] ?toks)"
    unfolding encode_ref_record_tokens by (intro line_str_plain plain_join)
  have split: "split_on 0x20 (join_with [0x20] ?toks) = ?toks"
    using toks by (intro split_tokens) simp_all
  have oid: "parse_oid (oid_to_string (rr_oid r)) algo l = Inr (rr_oid r)" for l
    using assms parse_oid_string [of "rr_oid r"] by (auto simp: ref_record_ok_def)
  have anns: "parse_annotations algo l (annotation_tokens r)
      \<lparr>rr_oid = rr_oid r, rr_name = rr_name r, rr_symref_target = None, rr_peeled = None, rr_other = []\<rparr>
      = Inr r" for l
    using assms
    by (cases "rr_symref_target r"; cases "rr_peeled r")
      (simp_all add: annotation_tokens_def ref_record_ok_def parse_annotations_append parse_symref_token
        parse_peeled_token parse_other del: lit_def)
  show ?thesis
    unfolding parse_ref_line_def Let_def str bindR_simps split by (simp add: oid anns)
qed

lemma ls_response_loop:
  assumes "list_all (ref_record_ok algo) refs" and "\<forall>r \<in> set refs. frame_ok (Data (encode_ref_record r))"
  shows "frame_loop LsPkt (ls_response_step algo) []
      (concat (map (\<lambda>r. frame_bytes (Data (encode_ref_record r))) refs) @ write_flush @ rest)
    = Inr (refs, rest)"
proof -
  have "fold (\<lambda>r s. s @ [r]) refs s = s @ refs" for s
    by (induction refs arbitrary: s) auto
  moreover have "ls_response_step algo s (Data (encode_ref_record r)) = Inr (Inl (s @ [r]))"
    if "r \<in> set refs" for r s
    using assms(1) that parse_encoded_record by (auto simp: ls_response_step_def list_all_iff)
  ultimately show ?thesis
    using assms(2)
    by (subst frame_loop_fold [where P = "\<lambda>_. True" and upd = "\<lambda>r s. s @ [r]"])
      (auto simp: frame_loop_special ls_response_step_def simp del: frame_ok.simps)
qed

section \<open>Requests read back\<close>

definition ls_request_ok :: "ls_refs_request \<Rightarrow> bytes option \<Rightarrow> bool" where
  "ls_request_ok req fmt \<longleftrightarrow>
     pred_option (\<lambda>f. plain f \<and> trim f = f) fmt \<and> list_all plain (lr_ref_prefixes req)"

lemma ls_header_lines:
  "ls_request_header fmt (Data (lit ''command=ls-refs'' @ [0x0A])) = Inr (Inl fmt)"
  "plain v \<Longrightarrow> trim v = v \<Longrightarrow>
   ls_request_header fmt (Data (lit ''object-format='' @ v @ [0x0A])) = Inr (Inl (Some v))"
proof -
  have "line_str BadRefLine (lit ''command=ls-refs'' @ [0x0A]) = Inr (lit ''command=ls-refs'')"
    by (rule line_str_plain) simp
  then show "ls_request_header fmt (Data (lit ''command=ls-refs'' @ [0x0A])) = Inr (Inl fmt)"
    by (simp add: ls_request_header_def del: lit_def)
  assume v: "plain v" "trim v = v"
  have "line_str BadRefLine ((lit ''object-format='' @ v) @ [0x0A]) = Inr (lit ''object-format='' @ v)"
    using v(1) by (intro line_str_plain) simp
  moreover have "lit ''object-format='' @ v \<noteq> lit ''command=ls-refs''"
    by simp
  ultimately show "ls_request_header fmt (Data (lit ''object-format='' @ v @ [0x0A])) = Inr (Inl (Some v))"
    using v(2) by (simp add: ls_request_header_def del: lit_def)
qed

lemma ls_arg_lines:
  "ls_request_arg req (Data (lit ''peel'' @ [0x0A])) = Inr (Inl (req\<lparr>lr_peel := True\<rparr>))"
  "ls_request_arg req (Data (lit ''symrefs'' @ [0x0A])) = Inr (Inl (req\<lparr>lr_symrefs := True\<rparr>))"
  "plain p \<Longrightarrow> ls_request_arg req (Data (lit ''ref-prefix '' @ p @ [0x0A]))
     = Inr (Inl (req\<lparr>lr_ref_prefixes := lr_ref_prefixes req @ [p]\<rparr>))"
proof -
  have "line_str BadRefLine (lit ''peel'' @ [0x0A]) = Inr (lit ''peel'')"
    "line_str BadRefLine (lit ''symrefs'' @ [0x0A]) = Inr (lit ''symrefs'')"
    by (rule line_str_plain, simp)+
  moreover have "lit ''symrefs'' \<noteq> lit ''peel''" by simp
  ultimately show "ls_request_arg req (Data (lit ''peel'' @ [0x0A])) = Inr (Inl (req\<lparr>lr_peel := True\<rparr>))"
    "ls_request_arg req (Data (lit ''symrefs'' @ [0x0A])) = Inr (Inl (req\<lparr>lr_symrefs := True\<rparr>))"
    by (simp_all add: ls_request_arg_def del: lit_def)
  assume "plain p"
  then have "line_str BadRefLine ((lit ''ref-prefix '' @ p) @ [0x0A]) = Inr (lit ''ref-prefix '' @ p)"
    by (intro line_str_plain) simp
  moreover have "lit ''ref-prefix '' @ p \<noteq> lit ''peel''" "lit ''ref-prefix '' @ p \<noteq> lit ''symrefs''"
    by simp_all
  ultimately show "ls_request_arg req (Data (lit ''ref-prefix '' @ p @ [0x0A]))
      = Inr (Inl (req\<lparr>lr_ref_prefixes := lr_ref_prefixes req @ [p]\<rparr>))"
    by (simp add: ls_request_arg_def del: lit_def)
qed

lemma ls_prefix_loop:
  assumes "list_all plain ps" and "\<forall>p \<in> set ps. frame_ok (Data (lit ''ref-prefix '' @ p @ [0x0A]))"
  shows "frame_loop LsPkt ls_request_arg req
      (concat (map (\<lambda>p. frame_bytes (Data (lit ''ref-prefix '' @ p @ [0x0A]))) ps) @ rest)
    = frame_loop LsPkt ls_request_arg (req\<lparr>lr_ref_prefixes := lr_ref_prefixes req @ ps\<rparr>) rest"
proof -
  let ?upd = "\<lambda>p (req :: ls_refs_request). req\<lparr>lr_ref_prefixes := lr_ref_prefixes req @ [p]\<rparr>"
  have "fold ?upd ps req = req\<lparr>lr_ref_prefixes := lr_ref_prefixes req @ ps\<rparr>" for req
    by (induction ps arbitrary: req) auto
  with assms ls_arg_lines(3) show ?thesis
    by (subst frame_loop_fold [where P = "\<lambda>_. True" and upd = ?upd])
      (simp_all add: list_all_iff del: lit_def frame_ok.simps)
qed

lemma ls_request_parse:
  assumes ok: "ls_request_ok req fmt" and out: "encode_ls_refs_request req fmt = Some out"
  shows "parse_ls_refs_request (out @ rest) = Inr ((req, fmt), rest)"
proof -
  let ?cmd = "lit ''command=ls-refs'' @ [0x0A]" and ?pfx = "\<lambda>p. lit ''ref-prefix '' @ p @ [0x0A]"
  let ?fmt = "case fmt of None \<Rightarrow> [] | Some f \<Rightarrow> frame_bytes (Data (lit ''object-format='' @ f @ [0x0A]))"
  let ?peel = "if lr_peel req then frame_bytes (Data (lit ''peel'' @ [0x0A])) else []"
  let ?sym = "if lr_symrefs req then frame_bytes (Data (lit ''symrefs'' @ [0x0A])) else []"
  let ?pre = "concat (map (\<lambda>p. frame_bytes (Data (?pfx p))) (lr_ref_prefixes req))"
  from out have frames: "out = frame_bytes (Data ?cmd) @ ?fmt @ write_delim @ ?peel @ ?sym @ ?pre @ write_flush"
    and fmt_ok: "fmt = Some f \<Longrightarrow> frame_ok (Data (lit ''object-format='' @ f @ [0x0A]))"
    and pre_ok: "\<forall>p \<in> set (lr_ref_prefixes req). frame_ok (Data (?pfx p))" for f
    unfolding encode_ls_refs_request_def
    by (auto simp: write_frames_out simp del: lit_def frame_ok.simps split: option.splits if_splits)
  have small: "frame_ok (Data ?cmd)" "frame_ok (Data (lit ''peel'' @ [0x0A]))"
    "frame_ok (Data (lit ''symrefs'' @ [0x0A]))"
    by (simp_all add: MAX_LINE_LEN_def)
  have header: "frame_loop LsPkt ls_request_header None (frame_bytes (Data ?cmd) @ ?fmt @ write_delim @ tail)
      = Inr (Inl fmt, tail)" for tail
  proof (cases fmt)
    case None
    then show ?thesis
      by (simp add: frame_loop_data [where step = ls_request_header, OF small(1) ls_header_lines(1)] frame_loop_special
          ls_request_header_def del: lit_def)
  next
    case (Some f)
    with ok have "plain f" "trim f = f"
      by (simp_all add: ls_request_ok_def)
    with Some show ?thesis
      by (simp add: frame_loop_data [where step = ls_request_header, OF small(1) ls_header_lines(1)] frame_loop_special
          frame_loop_data [where step = ls_request_header, OF fmt_ok [OF Some] ls_header_lines(2)] ls_request_header_def del: lit_def)
  qed
  have flush: "frame_loop LsPkt ls_request_arg r (write_flush @ rest) = Inr (r, rest)" for r
    by (simp add: frame_loop_special ls_request_arg_def)
  have pre: "frame_loop LsPkt ls_request_arg r (?pre @ write_flush @ rest)
      = Inr (r\<lparr>lr_ref_prefixes := lr_ref_prefixes r @ lr_ref_prefixes req\<rparr>, rest)" for r
    using ok pre_ok by (subst ls_prefix_loop) (simp_all add: flush ls_request_ok_def)
  have "frame_loop LsPkt ls_request_arg ls_refs_request_default (?peel @ ?sym @ ?pre @ write_flush @ rest)
      = Inr (req, rest)"
    by (cases "lr_peel req"; cases "lr_symrefs req")
      (simp_all add: frame_loop_data [where step = ls_request_arg, OF small(2) ls_arg_lines(1)] frame_loop_data [where step = ls_request_arg, OF small(3) ls_arg_lines(2)]
        pre ls_refs_request_default_def del: lit_def)
  with header show ?thesis
    unfolding parse_ls_refs_request_def frames by (simp del: lit_def)
qed

section \<open>Properties\<close>

text \<open>Every list of ref records that the server can write as an \<^verbatim>\<open>ls-refs\<close> response comes back
  from the client's parser record by record, annotations included, with the bytes after it
  untouched.  The side conditions are those the line format imposes: names, keys and values
  without space or line end, keys without colon, ids of the negotiated hash.\<close>

theorem ls_refs_response_round_trip:
  assumes "list_all (ref_record_ok algo) refs" and "encode_ls_refs_response refs = Some out"
  shows "parse_ls_refs_response (out @ rest) algo = Inr (refs, rest)"
proof -
  from assms(2) have "\<forall>r \<in> set refs. frame_ok (Data (encode_ref_record r))"
    and "out = concat (map (\<lambda>r. frame_bytes (Data (encode_ref_record r))) refs) @ write_flush"
    unfolding encode_ls_refs_response_def by (auto simp: write_frames_out simp del: frame_ok.simps)
  with ls_response_loop [OF assms(1)] show ?thesis
    by (simp add: parse_ls_refs_response_def)
qed

definition sample_refs :: "ref_record list" where
  "sample_refs =
     [\<lparr>rr_oid = OidSha1 (replicate 20 7), rr_name = lit ''HEAD'', rr_symref_target = Some (lit ''refs/heads/main''),
       rr_peeled = None, rr_other = [(lit ''new'', []), (lit ''x'', lit ''1'')]\<rparr>,
      \<lparr>rr_oid = OidSha1 (replicate 20 3), rr_name = lit ''refs/tags/v1'', rr_symref_target = None,
       rr_peeled = Some (OidSha1 (replicate 20 9)), rr_other = []\<rparr>]"

theorem ls_refs_response_round_trip_witness:
  "\<exists>out. encode_ls_refs_response sample_refs = Some out \<and>
     parse_ls_refs_response (out @ lit ''PACK'') Sha1 = Inr (sample_refs, lit ''PACK'')"
proof -
  have ok: "list_all (ref_record_ok Sha1) sample_refs"
    by (simp add: sample_refs_def ref_record_ok_def wf_oid_def other_ok_def)
  have "length (oid_to_string (OidSha1 (replicate 20 b))) = 40" for b
    by (simp add: oid_to_string_def hex_of_bytes_def length_concat sum_list_replicate)
  then have "\<exists>out. encode_ls_refs_response sample_refs = Some out"
    by (simp add: encode_ls_refs_response_def sample_refs_def write_data_def encode_ref_record_def
        MAX_LINE_LEN_def)
  then show ?thesis using ls_refs_response_round_trip [OF ok] by blast
qed

text \<open>Every \<^verbatim>\<open>ls-refs\<close> request the client can write, with any prefixes and object format that are
  single lines, is the request the server's parser reads.\<close>

theorem ls_refs_request_round_trip:
  assumes "ls_request_ok req fmt" and "encode_ls_refs_request req fmt = Some out"
  shows "parse_ls_refs_request (out @ rest) = Inr ((req, fmt), rest)"
  using assms by (rule ls_request_parse)

definition sample_ls_request :: ls_refs_request where
  "sample_ls_request =
     \<lparr>lr_symrefs = True, lr_peel = False, lr_ref_prefixes = [lit ''refs/heads/'', lit ''refs/tags/'']\<rparr>"

theorem ls_refs_request_round_trip_witness:
  "\<exists>out. encode_ls_refs_request sample_ls_request (Some (lit ''sha1'')) = Some out \<and>
     parse_ls_refs_request (out @ []) = Inr ((sample_ls_request, Some (lit ''sha1'')), [])"
proof -
  have "trim (lit ''sha1'') = lit ''sha1''"
    by (rule trim_graphic) simp
  then have ok: "ls_request_ok sample_ls_request (Some (lit ''sha1''))"
    by (simp add: ls_request_ok_def sample_ls_request_def)
  have "\<exists>out. encode_ls_refs_request sample_ls_request (Some (lit ''sha1'')) = Some out"
    by (simp add: encode_ls_refs_request_def sample_ls_request_def write_data_def MAX_LINE_LEN_def)
  then show ?thesis using ls_refs_request_round_trip [OF ok] by blast
qed

end
