(* ===== verification/Wire_Caps.thy ===== *)
theory Wire_Caps
  imports Wire_Lines
begin

text \<open>
  \<^verbatim>\<open>alt-wire/src/caps.rs\<close>: the protocol v2 capability advertisement.
\<close>

section \<open>The advertisement\<close>

record capability_ad =
  ca_version :: nat
  ca_agent :: "bytes option"
  ca_object_format :: "bytes option"
  ca_caps :: "(bytes, bytes option) btree"

datatype caps_error =
    CapsPkt pkt_error
  | BadService bytes
  | MissingVersion
  | UnsupportedVersion nat
  | BadCapability bytes

definition capability_ad_default :: capability_ad where
  "capability_ad_default =
     \<lparr>ca_version = 0, ca_agent = None, ca_object_format = None, ca_caps = []\<rparr>"

definition caps_supports :: "capability_ad \<Rightarrow> bytes \<Rightarrow> bool" where
  "caps_supports ad name \<longleftrightarrow> bt_get (ca_caps ad) name \<noteq> None"

definition sub_features :: "capability_ad \<Rightarrow> bytes \<Rightarrow> bytes list option" where
  "sub_features ad name =
     map_option (\<lambda>v. case v of None \<Rightarrow> [] | Some s \<Rightarrow> split_whitespace s) (bt_get (ca_caps ad) name)"

section \<open>Parsing\<close>

definition parse_cap_str :: "bytes \<Rightarrow> capability_ad \<Rightarrow> caps_error + capability_ad" where
  "parse_cap_str s ad =
     (case strip_prefix (lit ''version '') s of
        Some v \<Rightarrow> bindR (ok_or (BadCapability s) (parse_uint (2 ^ 32 - 1) (trim v)))
          (\<lambda>n. Inr (ad\<lparr>ca_version := n\<rparr>))
      | None \<Rightarrow>
     (case strip_prefix (lit ''agent='') s of
        Some v \<Rightarrow> Inr (ad\<lparr>ca_agent := Some (trim v),
          ca_caps := bt_insert (lit ''agent'') (Some (trim v)) (ca_caps ad)\<rparr>)
      | None \<Rightarrow>
     (case strip_prefix (lit ''object-format='') s of
        Some v \<Rightarrow> Inr (ad\<lparr>ca_object_format := Some (trim v),
          ca_caps := bt_insert (lit ''object-format'') (Some (trim v)) (ca_caps ad)\<rparr>)
      | None \<Rightarrow>
     (case split_first 0x3D s of
        Some (name, val) \<Rightarrow> Inr (ad\<lparr>ca_caps := bt_insert name (Some (trim val)) (ca_caps ad)\<rparr>)
      | None \<Rightarrow> Inr (ad\<lparr>ca_caps := bt_insert s None (ca_caps ad)\<rparr>)))))"

definition parse_one_cap_line :: "bytes \<Rightarrow> capability_ad \<Rightarrow> caps_error + capability_ad" where
  "parse_one_cap_line l ad = bindR (line_str BadCapability l) (\<lambda>s. parse_cap_str s ad)"

definition caps_step :: "capability_ad \<Rightarrow> frame \<Rightarrow> caps_error + (capability_ad + capability_ad)" where
  "caps_step ad f =
     (case f of
        Data d \<Rightarrow> bindR (parse_one_cap_line d ad) (\<lambda>ad'. Inr (Inl ad'))
      | Flush \<Rightarrow> Inr (Inr ad)
      | _ \<Rightarrow> Inl (BadCapability (lit ''unexpected non-data'')))"

text \<open>Before the loop: an optional service header with its flush, and the first capability line.\<close>

definition caps_service_line :: "bytes \<Rightarrow> bytes \<Rightarrow> bytes \<Rightarrow> caps_error + bytes" where
  "caps_service_line expected_service svc r =
     (let svc = trim_newline svc
      in if \<not> utf8 svc \<or> svc \<noteq> expected_service then Inl (BadService svc)
         else bindR (map_err CapsPkt (read_frame r)) (\<lambda>(flush, r1).
                if flush \<noteq> Flush then Inl (BadCapability (lit ''expected flush after # service=''))
                else Inr r1))"

definition caps_first_line :: "bytes \<Rightarrow> caps_error + (capability_ad \<times> bytes)" where
  "caps_first_line r =
     bindR (map_err CapsPkt (read_frame r)) (\<lambda>(f, r1).
       case f of
         Data d \<Rightarrow> bindR (parse_one_cap_line d capability_ad_default) (\<lambda>ad. Inr (ad, r1))
       | Flush \<Rightarrow> Inl MissingVersion
       | _ \<Rightarrow> Inl (BadCapability (lit ''unexpected non-data'')))"

definition caps_start :: "bytes \<Rightarrow> bytes \<Rightarrow> caps_error + (capability_ad \<times> bytes)" where
  "caps_start expected_service r =
     bindR (map_err CapsPkt (read_frame r)) (\<lambda>(first, r1).
       case first of
         Data d \<Rightarrow>
           (case strip_prefix (lit ''# service='') d of
              Some svc \<Rightarrow> bindR (caps_service_line expected_service svc r1) caps_first_line
            | None \<Rightarrow> bindR (parse_one_cap_line d capability_ad_default) (\<lambda>ad. Inr (ad, r1)))
       | Flush \<Rightarrow> Inl MissingVersion
       | _ \<Rightarrow> Inl (BadCapability (lit ''unexpected delim/end'')))"

definition parse_capability_advertisement ::
  "bytes \<Rightarrow> bytes \<Rightarrow> caps_error + (capability_ad \<times> bytes)" where
  "parse_capability_advertisement r expected_service =
     bindR (caps_start expected_service r) (\<lambda>(ad, r1).
     bindR (frame_loop CapsPkt caps_step ad r1) (\<lambda>(ad, r2).
       if ca_version ad = 0 then Inl MissingVersion
       else if ca_version ad \<noteq> 2 then Inl (UnsupportedVersion (ca_version ad))
       else Inr (ad, r2)))"

section \<open>Encoding\<close>

definition command_text :: "bytes \<times> bytes option \<Rightarrow> bytes" where
  "command_text = (\<lambda>(cmd, features).
     case features of
       Some f \<Rightarrow> if f \<noteq> [] then cmd @ [0x3D] @ f else cmd
     | None \<Rightarrow> cmd)"

definition encode_capability_advertisement ::
  "bytes \<Rightarrow> bytes \<Rightarrow> bytes option \<Rightarrow> (bytes \<times> bytes option) list \<Rightarrow> bytes option" where
  "encode_capability_advertisement service agent object_format commands =
     write_frames
       ([write_data (lit ''# service='' @ service @ [0x0A]), Some write_flush,
         write_data (lit ''version 2'' @ [0x0A]),
         write_data (lit ''agent='' @ agent @ [0x0A])]
        @ (case object_format of None \<Rightarrow> []
           | Some fmt \<Rightarrow> [write_data (lit ''object-format='' @ fmt @ [0x0A])])
        @ map (\<lambda>c. write_data (command_text c @ [0x0A])) commands
        @ [Some write_flush])"

section \<open>Round trip\<close>

text \<open>What the parsed advertisement holds: the capabilities in the order they are inserted.\<close>

definition command_cap :: "bytes \<times> bytes option \<Rightarrow> bytes \<times> bytes option" where
  "command_cap = (\<lambda>(cmd, features). (cmd, if features = Some [] then None else features))"

definition advertised ::
  "bytes \<Rightarrow> bytes option \<Rightarrow> (bytes \<times> bytes option) list \<Rightarrow> capability_ad" where
  "advertised agent object_format commands =
     \<lparr>ca_version = 2, ca_agent = Some agent, ca_object_format = object_format,
      ca_caps = bt_of_list ([(lit ''agent'', Some agent)]
        @ (case object_format of None \<Rightarrow> [] | Some f \<Rightarrow> [(lit ''object-format'', Some f)])
        @ map command_cap commands)\<rparr>"

definition trimmed :: "bytes \<Rightarrow> bool" where
  "trimmed s \<longleftrightarrow> plain s \<and> trim s = s"

definition command_ok :: "bytes \<times> bytes option \<Rightarrow> bool" where
  "command_ok = (\<lambda>(cmd, features).
     plain cmd \<and> 0x3D \<notin> set cmd \<and> strip_prefix (lit ''version '') cmd = None \<and>
     cmd \<noteq> lit ''agent'' \<and> cmd \<noteq> lit ''object-format'' \<and> pred_option trimmed features)"

lemma strip_prefix_append_None:
  assumes "strip_prefix p xs = None" and "c \<notin> set p"
  shows "strip_prefix p (xs @ c # ys) = None"
proof (rule ccontr)
  assume "strip_prefix p (xs @ c # ys) \<noteq> None"
  then obtain zs where "xs @ (c # ys) = p @ zs"
    by (auto simp: strip_prefix_eq_Some)
  then consider us where "xs = p @ us" | us where "p = xs @ us" "c # ys = us @ zs"
    unfolding append_eq_append_conv2 by blast
  then show False
  proof cases
    case 1
    with assms(1) show False by simp
  next
    case 2
    with assms show False
      using strip_prefix_append [of xs "[]"] by (cases us) auto
  qed
qed

lemma strip_prefix_eq_sign:
  assumes "0x3D \<notin> set cmd" and "cmd \<noteq> p" and "0x3D \<notin> set p"
  shows "strip_prefix (p @ [0x3D]) (cmd @ 0x3D # f) = None" and "strip_prefix (p @ [0x3D]) cmd = None"
proof -
  show "strip_prefix (p @ [0x3D]) cmd = None"
    using assms(1) by (cases "strip_prefix (p @ [0x3D]) cmd") (auto simp: strip_prefix_eq_Some)
  show "strip_prefix (p @ [0x3D]) (cmd @ 0x3D # f) = None"
  proof (rule ccontr)
    assume "strip_prefix (p @ [0x3D]) (cmd @ 0x3D # f) \<noteq> None"
    then obtain zs where zs: "cmd @ 0x3D # f = p @ 0x3D # zs"
      by (auto simp: strip_prefix_eq_Some)
    have "split_first 0x3D (cmd @ 0x3D # f) = Some (cmd, f)" "split_first 0x3D (p @ 0x3D # zs) = Some (p, zs)"
      using assms(1,3) by (simp_all add: split_first_append)
    with zs assms(2) show False by simp
  qed
qed

lemma parse_command:
  assumes "command_ok c"
  shows "parse_cap_str (command_text c) ad
    = Inr (ad\<lparr>ca_caps := bt_insert (fst (command_cap c)) (snd (command_cap c)) (ca_caps ad)\<rparr>)"
proof -
  obtain cmd features where c: "c = (cmd, features)" by fastforce
  have ok: "0x3D \<notin> set cmd" "strip_prefix (lit ''version '') cmd = None"
      "cmd \<noteq> lit ''agent''" "cmd \<noteq> lit ''object-format''" "pred_option trimmed features"
    using assms unfolding command_ok_def c prod.case by blast+
  have names: "0x3D \<notin> set (lit ''agent'')" "0x3D \<notin> set (lit ''object-format'')"
    "lit ''agent='' = lit ''agent'' @ [0x3D]" "lit ''object-format='' = lit ''object-format'' @ [0x3D]"
    by simp_all
  note none = strip_prefix_eq_sign [OF ok(1) ok(3) names(1)] strip_prefix_eq_sign [OF ok(1) ok(4) names(2)]
  consider (bare) "command_text c = cmd" "snd (command_cap c) = None"
    | (valued) f where "features = Some f" "f \<noteq> []" "command_text c = cmd @ 0x3D # f" "snd (command_cap c) = Some f"
    by (cases features; cases "features = Some []") (auto simp: c command_text_def command_cap_def)
  then show ?thesis
  proof cases
    case bare
    have "split_first 0x3D cmd = None"
      using ok(1) by (simp add: split_first_eq_None)
    with bare ok(2) none show ?thesis
      by (simp add: parse_cap_str_def names(3,4) c command_cap_def del: lit_def)
  next
    case (valued f)
    have "strip_prefix (lit ''version '') (cmd @ 0x3D # f) = None"
      using ok(2) by (rule strip_prefix_append_None) simp
    moreover have "split_first 0x3D (cmd @ 0x3D # f) = Some (cmd, f)"
      using ok(1) by (rule split_first_append)
    moreover have "trim f = f"
      using ok(5) valued by (simp add: trimmed_def)
    ultimately show ?thesis
      using valued none by (simp add: parse_cap_str_def names(3,4) c command_cap_def del: lit_def)
  qed
qed

lemma caps_step_line:
  assumes "plain s" and "parse_cap_str s ad = Inr ad'"
  shows "caps_step ad (Data (s @ [0x0A])) = Inr (Inl ad')"
  using assms by (simp add: caps_step_def parse_one_cap_line_def line_str_plain)

lemma command_plain: "command_ok c \<Longrightarrow> plain (command_text c)"
  by (cases c) (auto simp: command_ok_def command_text_def trimmed_def split: option.splits)

lemma commands_loop:
  assumes "list_all command_ok cs" and "\<forall>c \<in> set cs. frame_ok (Data (command_text c @ [0x0A]))"
  shows "frame_loop CapsPkt caps_step ad
      (concat (map (\<lambda>c. frame_bytes (Data (command_text c @ [0x0A]))) cs) @ rest)
    = frame_loop CapsPkt caps_step
        (ad\<lparr>ca_caps := fold (\<lambda>(k, v). bt_insert k v) (map command_cap cs) (ca_caps ad)\<rparr>) rest"
proof -
  let ?upd = "\<lambda>c (ad :: capability_ad).
    ad\<lparr>ca_caps := bt_insert (fst (command_cap c)) (snd (command_cap c)) (ca_caps ad)\<rparr>"
  have "fold ?upd cs ad = ad\<lparr>ca_caps := fold (\<lambda>(k, v). bt_insert k v) (map command_cap cs) (ca_caps ad)\<rparr>" for ad
    by (induction cs arbitrary: ad) (auto simp: case_prod_unfold)
  moreover have "caps_step ad (Data (command_text c @ [0x0A])) = Inr (Inl (?upd c ad))"
    if "c \<in> set cs" for c ad
    using assms(1) that by (intro caps_step_line command_plain parse_command) (auto simp: list_all_iff)
  ultimately show ?thesis
    using assms(2)
    by (subst frame_loop_fold [where P = "\<lambda>_. True" and upd = ?upd]) (simp_all del: frame_ok.simps)
qed

lemma fixed_lines:
  "parse_cap_str (lit ''version 2'') ad = Inr (ad\<lparr>ca_version := 2\<rparr>)"
  "trim a = a \<Longrightarrow> parse_cap_str (lit ''agent='' @ a) ad
     = Inr (ad\<lparr>ca_agent := Some a, ca_caps := bt_insert (lit ''agent'') (Some a) (ca_caps ad)\<rparr>)"
  "trim f = f \<Longrightarrow> parse_cap_str (lit ''object-format='' @ f) ad
     = Inr (ad\<lparr>ca_object_format := Some f, ca_caps := bt_insert (lit ''object-format'') (Some f) (ca_caps ad)\<rparr>)"
proof -
  have "trim [0x32] = [0x32]"
    by (rule trim_graphic) simp
  then show "parse_cap_str (lit ''version 2'') ad = Inr (ad\<lparr>ca_version := 2\<rparr>)"
    by (simp add: parse_cap_str_def parse_uint_def Let_def)
  show "parse_cap_str (lit ''agent='' @ a) ad
     = Inr (ad\<lparr>ca_agent := Some a, ca_caps := bt_insert (lit ''agent'') (Some a) (ca_caps ad)\<rparr>)" if "trim a = a"
    using that by (simp add: parse_cap_str_def)
  show "parse_cap_str (lit ''object-format='' @ f) ad
     = Inr (ad\<lparr>ca_object_format := Some f, ca_caps := bt_insert (lit ''object-format'') (Some f) (ca_caps ad)\<rparr>)"
    if "trim f = f"
    using that by (simp add: parse_cap_str_def)
qed

lemma caps_start_header:
  assumes "plain service" and "frame_ok (Data (lit ''# service='' @ service @ [0x0A]))"
  shows "caps_start service (frame_bytes (Data (lit ''# service='' @ service @ [0x0A])) @ write_flush
      @ frame_bytes (Data (lit ''version 2'' @ [0x0A])) @ rest)
    = Inr (capability_ad_default\<lparr>ca_version := 2\<rparr>, rest)"
proof -
  have svc: "trim_newline (service @ [0x0A]) = service" and "utf8 service"
    using assms(1) by (simp_all add: trim_newline_plain) (simp add: plain_def)
  have flush: "read_frame (write_flush @ tail) = Inr (Flush, tail)" for tail
    unfolding special_frame_bytes by (rule read_frame_bytes) simp
  have version: "read_frame (frame_bytes (Data (lit ''version 2'' @ [0x0A])) @ rest)
      = Inr (Data (lit ''version 2'' @ [0x0A]), rest)"
    by (rule read_frame_bytes) (simp add: MAX_LINE_LEN_def)
  have "line_str BadCapability (lit ''version 2'' @ [0x0A]) = Inr (lit ''version 2'')"
    by (rule line_str_plain) simp
  then have "parse_one_cap_line (lit ''version 2'' @ [0x0A]) capability_ad_default
      = Inr (capability_ad_default\<lparr>ca_version := 2\<rparr>)"
    by (simp add: parse_one_cap_line_def fixed_lines(1) del: lit_def)
  with svc \<open>utf8 service\<close> flush version read_frame_bytes [OF assms(2)] show ?thesis
    by (simp add: caps_start_def caps_service_line_def caps_first_line_def Let_def del: lit_def frame_ok.simps)
qed

lemma caps_parse:
  assumes "plain service" and "trimmed agent" and "pred_option trimmed fmt" and "list_all command_ok commands"
    and out: "encode_capability_advertisement service agent fmt commands = Some out"
  shows "parse_capability_advertisement (out @ rest) service = Inr (advertised agent fmt commands, rest)"
proof -
  let ?svc = "lit ''# service='' @ service @ [0x0A]" and ?ver = "lit ''version 2'' @ [0x0A]"
  let ?agent = "lit ''agent='' @ agent @ [0x0A]"
  let ?fmt = "case fmt of None \<Rightarrow> [] | Some f \<Rightarrow> frame_bytes (Data (lit ''object-format='' @ f @ [0x0A]))"
  let ?cmds = "concat (map (\<lambda>c. frame_bytes (Data (command_text c @ [0x0A]))) commands)"
  from out have frames: "out = frame_bytes (Data ?svc) @ write_flush @ frame_bytes (Data ?ver)
      @ frame_bytes (Data ?agent) @ ?fmt @ ?cmds @ write_flush"
    and svc_ok: "frame_ok (Data ?svc)" and agent_ok: "frame_ok (Data ?agent)"
    and fmt_ok: "fmt = Some f \<Longrightarrow> frame_ok (Data (lit ''object-format='' @ f @ [0x0A]))"
    and cmds_ok: "\<forall>c \<in> set commands. frame_ok (Data (command_text c @ [0x0A]))" for f
    unfolding encode_capability_advertisement_def
    by (auto simp: write_frames_out simp del: lit_def frame_ok.simps split: option.splits)
  have agent_line: "caps_step ad (Data ?agent) = Inr (Inl (ad\<lparr>ca_agent := Some agent,
      ca_caps := bt_insert (lit ''agent'') (Some agent) (ca_caps ad)\<rparr>))" for ad
    using caps_step_line [of "lit ''agent='' @ agent"] fixed_lines(2) assms(2) by (simp add: trimmed_def)
  have flush: "frame_loop CapsPkt caps_step ad (write_flush @ rest) = Inr (ad, rest)" for ad
    by (simp add: frame_loop_special caps_step_def)
  have fmt_loop: "frame_loop CapsPkt caps_step ad (?fmt @ tail) = frame_loop CapsPkt caps_step
      (case fmt of None \<Rightarrow> ad | Some f \<Rightarrow> ad\<lparr>ca_object_format := Some f,
         ca_caps := bt_insert (lit ''object-format'') (Some f) (ca_caps ad)\<rparr>) tail" for ad tail
  proof (cases fmt)
    case (Some f)
    have "caps_step ad (Data (lit ''object-format='' @ f @ [0x0A])) = Inr (Inl (ad\<lparr>ca_object_format := Some f,
         ca_caps := bt_insert (lit ''object-format'') (Some f) (ca_caps ad)\<rparr>))"
      using caps_step_line [of "lit ''object-format='' @ f"] fixed_lines(3) assms(3) Some
      by (simp add: trimmed_def)
    from frame_loop_data [OF fmt_ok [OF Some], of caps_step, OF this] Some show ?thesis
      by (simp del: lit_def)
  qed simp
  let ?ad = "capability_ad_default\<lparr>ca_version := 2\<rparr>"
  have "frame_loop CapsPkt caps_step ?ad (frame_bytes (Data ?agent) @ ?fmt @ ?cmds @ write_flush @ rest)
      = Inr (advertised agent fmt commands, rest)"
    unfolding frame_loop_data [where step = caps_step, OF agent_ok agent_line] fmt_loop
      commands_loop [OF assms(4) cmds_ok] flush
    by (cases fmt) (simp_all add: advertised_def capability_ad_default_def bt_of_list_def del: lit_def)
  then show ?thesis
    unfolding parse_capability_advertisement_def frames append_assoc caps_start_header [OF assms(1) svc_ok]
    by (simp add: advertised_def)
qed

section \<open>Properties\<close>

text \<open>Every capability advertisement the server can write is read by the client: version 2, the
  agent and object format given, and each command as a capability with its features (an empty
  feature list like a missing one).  The texts must be single lines without outer white space,
  and no command may look like one of the fixed lines.\<close>

theorem capabilities_round_trip:
  assumes "plain service" and "trimmed agent" and "pred_option trimmed fmt" and "list_all command_ok commands"
    and "encode_capability_advertisement service agent fmt commands = Some out"
  shows "parse_capability_advertisement (out @ rest) service = Inr (advertised agent fmt commands, rest)"
  using assms by (rule caps_parse)

definition sample_commands :: "(bytes \<times> bytes option) list" where
  "sample_commands =
     [(lit ''ls-refs'', Some (lit ''unborn'')), (lit ''fetch'', Some (lit ''shallow wait-for-done'')),
      (lit ''bundle'', Some [])]"

theorem capabilities_round_trip_witness:
  "\<exists>out. encode_capability_advertisement (lit ''git-upload-pack'') (lit ''alt/1'') (Some (lit ''sha1''))
       sample_commands = Some out \<and>
     parse_capability_advertisement (out @ []) (lit ''git-upload-pack'')
       = Inr (advertised (lit ''alt/1'') (Some (lit ''sha1'')) sample_commands, [])"
proof -
  have "trim (lit ''alt/1'') = lit ''alt/1''" "trim (lit ''sha1'') = lit ''sha1''"
    "trim (lit ''unborn'') = lit ''unborn''"
    by (rule trim_graphic, simp)+
  moreover have "trim (lit ''shallow wait-for-done'') = lit ''shallow wait-for-done''"
    by (rule trim_id) (simp_all add: ascii_ws_def ws2_def ws3_def)
  moreover have "trim [] = []"
    by (rule trim_id) simp_all
  ultimately have ok: "plain (lit ''git-upload-pack'')" "trimmed (lit ''alt/1'')"
    "pred_option trimmed (Some (lit ''sha1''))" "list_all command_ok sample_commands"
    by (simp_all add: trimmed_def sample_commands_def command_ok_def)
  have "\<exists>out. encode_capability_advertisement (lit ''git-upload-pack'') (lit ''alt/1'') (Some (lit ''sha1''))
       sample_commands = Some out"
    by (simp add: encode_capability_advertisement_def sample_commands_def command_text_def write_data_def
        MAX_LINE_LEN_def)
  then show ?thesis using capabilities_round_trip [OF ok] by blast
qed

end
