(* ===== verification/Wire_Fetch.thy ===== *)
theory Wire_Fetch
  imports Wire_Lines
begin

text \<open>
  \<^verbatim>\<open>alt-wire/src/fetch.rs\<close>: the \<^verbatim>\<open>fetch\<close> command, both sides: the request, the
  structured sections before the pack, and the sideband stream that carries it.
\<close>

section \<open>Messages\<close>

record fetch_request =
  fr_wants :: "object_id list"
  fr_haves :: "object_id list"
  fr_done :: bool
  fr_no_progress :: bool
  fr_thin_pack :: bool
  fr_ofs_delta :: bool
  fr_include_tag :: bool
  fr_filter :: "bytes option"

datatype fetch_ack = Nak | Ack object_id | Ready

datatype shallow_info = Shallow object_id | Unshallow object_id

record wanted_ref =
  wr_oid :: object_id
  wr_name :: bytes

record fetch_preamble =
  fp_acknowledgments :: "fetch_ack list"
  fp_shallow_info :: "shallow_info list"
  fp_wanted_refs :: "wanted_ref list"
  fp_packfile_uris :: "bytes list"
  fp_packfile_missing :: bool

datatype fetch_error =
    FetchPkt pkt_error
  | BadLine string bytes
  | UnknownSection bytes
  | ServerError bytes
  | BadSideband u8
  | EmptySidebandPkt

definition fetch_request_default :: fetch_request where
  "fetch_request_default =
     \<lparr>fr_wants = [], fr_haves = [], fr_done = False, fr_no_progress = False, fr_thin_pack = False,
      fr_ofs_delta = False, fr_include_tag = False, fr_filter = None\<rparr>"

definition fetch_preamble_default :: fetch_preamble where
  "fetch_preamble_default =
     \<lparr>fp_acknowledgments = [], fp_shallow_info = [], fp_wanted_refs = [], fp_packfile_uris = [],
      fp_packfile_missing = False\<rparr>"

section \<open>Requests\<close>

definition text_line :: "bytes \<Rightarrow> bytes option" where
  "text_line s = write_data (s @ [0x0A])"

definition encode_fetch_request :: "fetch_request \<Rightarrow> bytes option \<Rightarrow> bytes option" where
  "encode_fetch_request req object_format =
     write_frames
       ([text_line (lit ''command=fetch'')]
        @ (case object_format of None \<Rightarrow> [] | Some fmt \<Rightarrow> [text_line (lit ''object-format='' @ fmt)])
        @ [Some write_delim]
        @ (if fr_thin_pack req then [text_line (lit ''thin-pack'')] else [])
        @ (if fr_no_progress req then [text_line (lit ''no-progress'')] else [])
        @ (if fr_include_tag req then [text_line (lit ''include-tag'')] else [])
        @ (if fr_ofs_delta req then [text_line (lit ''ofs-delta'')] else [])
        @ (case fr_filter req of None \<Rightarrow> [] | Some spec \<Rightarrow> [text_line (lit ''filter '' @ spec)])
        @ map (\<lambda>oid. text_line (lit ''want '' @ oid_to_string oid)) (fr_wants req)
        @ map (\<lambda>oid. text_line (lit ''have '' @ oid_to_string oid)) (fr_haves req)
        @ (if fr_done req then [text_line (lit ''done'')] else [])
        @ [Some write_flush])"

definition fetch_parse_oid :: "bytes \<Rightarrow> hash_algo \<Rightarrow> bytes \<Rightarrow> string \<Rightarrow> fetch_error + object_id" where
  "fetch_parse_oid s algo l sec =
     (case oid_from_hex s of
        Inr oid \<Rightarrow> if oid_algo oid = algo then Inr oid else Inl (BadLine sec l)
      | Inl _ \<Rightarrow> Inl (BadLine sec l))"

definition fetch_header_step ::
  "bytes option \<Rightarrow> frame \<Rightarrow> fetch_error + (bytes option + (bytes option + bytes option))" where
  "fetch_header_step object_format f =
     (case f of
        Delim \<Rightarrow> Inr (Inr (Inl object_format))
      | Flush \<Rightarrow> Inr (Inr (Inr object_format))
      | ResponseEnd \<Rightarrow> Inr (Inr (Inr object_format))
      | Data l \<Rightarrow>
          bindR (line_str (BadLine ''header'') l) (\<lambda>s.
            if s = lit ''command=fetch'' then Inr (Inl object_format)
            else case strip_prefix (lit ''object-format='') s of
                   Some v \<Rightarrow> Inr (Inl (Some (trim v)))
                 | None \<Rightarrow> Inr (Inl object_format)))"

text \<open>One argument line; ids are read as SHA-1 whatever the object format says.\<close>

definition fetch_arg :: "bytes \<Rightarrow> fetch_request \<Rightarrow> fetch_error + fetch_request" where
  "fetch_arg s req =
     (if s = lit ''done'' then Inr (req\<lparr>fr_done := True\<rparr>)
      else if s = lit ''no-progress'' then Inr (req\<lparr>fr_no_progress := True\<rparr>)
      else if s = lit ''thin-pack'' then Inr (req\<lparr>fr_thin_pack := True\<rparr>)
      else if s = lit ''ofs-delta'' then Inr (req\<lparr>fr_ofs_delta := True\<rparr>)
      else if s = lit ''include-tag'' then Inr (req\<lparr>fr_include_tag := True\<rparr>)
      else
        (case strip_prefix (lit ''want '') s of
           Some hex \<Rightarrow> bindR (fetch_parse_oid (trim hex) Sha1 s ''want/have'')
             (\<lambda>oid. Inr (req\<lparr>fr_wants := fr_wants req @ [oid]\<rparr>))
         | None \<Rightarrow>
        (case strip_prefix (lit ''have '') s of
           Some hex \<Rightarrow> bindR (fetch_parse_oid (trim hex) Sha1 s ''want/have'')
             (\<lambda>oid. Inr (req\<lparr>fr_haves := fr_haves req @ [oid]\<rparr>))
         | None \<Rightarrow>
        (case strip_prefix (lit ''filter '') s of
           Some spec \<Rightarrow> Inr (req\<lparr>fr_filter := Some (trim spec)\<rparr>)
         | None \<Rightarrow> Inr req))))"

definition fetch_arg_step :: "fetch_request \<Rightarrow> frame \<Rightarrow> fetch_error + (fetch_request + fetch_request)" where
  "fetch_arg_step req f =
     (case f of
        Data l \<Rightarrow> bindR (line_str (BadLine ''args'') l) (\<lambda>s. bindR (fetch_arg s req) (\<lambda>r. Inr (Inl r)))
      | _ \<Rightarrow> Inr (Inr req))"

definition parse_fetch_request :: "bytes \<Rightarrow> fetch_error + ((fetch_request \<times> bytes option) \<times> bytes)" where
  "parse_fetch_request r =
     bindR (frame_loop FetchPkt fetch_header_step None r) (\<lambda>(h, r1).
       case h of
         Inr object_format \<Rightarrow> Inr ((fetch_request_default, object_format), r1)
       | Inl object_format \<Rightarrow>
           bindR (frame_loop FetchPkt fetch_arg_step fetch_request_default r1) (\<lambda>(req, r2).
             Inr ((req, object_format), r2)))"

section \<open>The sections before the pack\<close>

definition parse_ack :: "bytes \<Rightarrow> hash_algo \<Rightarrow> fetch_error + fetch_ack" where
  "parse_ack l algo =
     (if \<not> utf8 l then Inl (BadLine ''acknowledgments'' l)
      else if l = lit ''NAK'' then Inr Nak
      else if l = lit ''ready'' then Inr Ready
      else case strip_prefix (lit ''ACK '') l of
             Some rest \<Rightarrow> bindR (fetch_parse_oid (trim rest) algo l ''acknowledgments'') (\<lambda>oid. Inr (Ack oid))
           | None \<Rightarrow> Inl (BadLine ''acknowledgments'' l))"

definition parse_shallow :: "bytes \<Rightarrow> hash_algo \<Rightarrow> fetch_error + shallow_info" where
  "parse_shallow l algo =
     (if \<not> utf8 l then Inl (BadLine ''shallow-info'' l)
      else case strip_prefix (lit ''shallow '') l of
             Some rest \<Rightarrow> bindR (fetch_parse_oid (trim rest) algo l ''shallow-info'') (\<lambda>oid. Inr (Shallow oid))
           | None \<Rightarrow>
          (case strip_prefix (lit ''unshallow '') l of
             Some rest \<Rightarrow> bindR (fetch_parse_oid (trim rest) algo l ''shallow-info'') (\<lambda>oid. Inr (Unshallow oid))
           | None \<Rightarrow> Inl (BadLine ''shallow-info'' l)))"

definition parse_wanted_ref :: "bytes \<Rightarrow> hash_algo \<Rightarrow> fetch_error + wanted_ref" where
  "parse_wanted_ref l algo =
     (if \<not> utf8 l then Inl (BadLine ''wanted-refs'' l)
      else bindR (ok_or (BadLine ''wanted-refs'' l) (split_first 0x20 l)) (\<lambda>(oid_s, name).
           bindR (fetch_parse_oid (trim oid_s) algo l ''wanted-refs'') (\<lambda>oid.
             Inr \<lparr>wr_oid = oid, wr_name = trim name\<rparr>)))"

datatype fetch_section = Acknowledgments | ShallowSection | WantedRefs | PackfileUris

text \<open>The first line of a section is its name; \<^verbatim>\<open>packfile\<close> ends the preamble.\<close>

definition section_header ::
  "bytes \<Rightarrow> fetch_preamble
     \<Rightarrow> fetch_error + ((fetch_preamble \<times> fetch_section option) + fetch_preamble)" where
  "section_header l pre =
     (if l = lit ''acknowledgments'' then Inr (Inl (pre, Some Acknowledgments))
      else if l = lit ''shallow-info'' then Inr (Inl (pre, Some ShallowSection))
      else if l = lit ''wanted-refs'' then Inr (Inl (pre, Some WantedRefs))
      else if l = lit ''packfile-uris'' then Inr (Inl (pre, Some PackfileUris))
      else if l = lit ''packfile'' then Inr (Inr pre)
      else Inl (UnknownSection (utf8_lossy l)))"

definition section_line ::
  "hash_algo \<Rightarrow> bytes \<Rightarrow> fetch_section \<Rightarrow> fetch_preamble \<Rightarrow> fetch_error + fetch_preamble" where
  "section_line algo l sec pre =
     (case sec of
        Acknowledgments \<Rightarrow> bindR (parse_ack l algo)
          (\<lambda>a. Inr (pre\<lparr>fp_acknowledgments := fp_acknowledgments pre @ [a]\<rparr>))
      | ShallowSection \<Rightarrow> bindR (parse_shallow l algo)
          (\<lambda>s. Inr (pre\<lparr>fp_shallow_info := fp_shallow_info pre @ [s]\<rparr>))
      | WantedRefs \<Rightarrow> bindR (parse_wanted_ref l algo)
          (\<lambda>w. Inr (pre\<lparr>fp_wanted_refs := fp_wanted_refs pre @ [w]\<rparr>))
      | PackfileUris \<Rightarrow> Inr (pre\<lparr>fp_packfile_uris := fp_packfile_uris pre @ [utf8_lossy l]\<rparr>))"

definition preamble_step ::
  "hash_algo \<Rightarrow> fetch_preamble \<times> fetch_section option \<Rightarrow> frame
     \<Rightarrow> fetch_error + ((fetch_preamble \<times> fetch_section option) + fetch_preamble)" where
  "preamble_step algo = (\<lambda>(pre, sec) f.
     case f of
       Flush \<Rightarrow> Inr (Inr (pre\<lparr>fp_packfile_missing := True\<rparr>))
     | ResponseEnd \<Rightarrow> Inr (Inr (pre\<lparr>fp_packfile_missing := True\<rparr>))
     | Delim \<Rightarrow> Inr (Inl (pre, None))
     | Data l \<Rightarrow>
         (case sec of
            None \<Rightarrow> section_header (trim_newline l) pre
          | Some s \<Rightarrow> bindR (section_line algo (trim_newline l) s pre) (\<lambda>p. Inr (Inl (p, sec)))))"

definition read_fetch_preamble :: "bytes \<Rightarrow> hash_algo \<Rightarrow> fetch_error + (fetch_preamble \<times> bytes)" where
  "read_fetch_preamble r algo = frame_loop FetchPkt (preamble_step algo) (fetch_preamble_default, None) r"

section \<open>The sideband\<close>

text \<open>
  \<^verbatim>\<open>drain_packfile\<close>: the sink and the progress callback are the bytes written and the
  list of payloads reported so far; they are kept when an error ends the stream.
\<close>

record drained =
  dr_pack :: bytes
  dr_progress :: "bytes list"

function drain_from ::
  "bytes \<Rightarrow> drained \<Rightarrow> u64 \<Rightarrow> (fetch_error + (u64 \<times> bytes)) \<times> drained" where
  "drain_from r d written =
     (case read_frame r of
        Inl e \<Rightarrow> (Inl (FetchPkt e), d)
      | Inr (f, r') \<Rightarrow>
          (case f of
             Flush \<Rightarrow> (Inr (written, r'), d)
           | ResponseEnd \<Rightarrow> (Inr (written, r'), d)
           | Delim \<Rightarrow> (Inl (BadLine ''packfile'' (lit ''unexpected delim'')), d)
           | Data [] \<Rightarrow> (Inl EmptySidebandPkt, d)
           | Data (band # body) \<Rightarrow>
               if band = 1 then
                 drain_from r' (d\<lparr>dr_pack := dr_pack d @ body\<rparr>) (written + of_nat (length body))
               else if band = 2 then drain_from r' (d\<lparr>dr_progress := dr_progress d @ [body]\<rparr>) written
               else if band = 3 then (Inl (ServerError (trim (utf8_lossy body))), d)
               else (Inl (BadSideband band), d)))"
  by pat_completeness auto
termination
  by (relation "measure (\<lambda>(r, d, written). length r)") (auto dest!: read_frame_consumes)

declare drain_from.simps [simp del]

definition drain_packfile :: "bytes \<Rightarrow> (fetch_error + (u64 \<times> bytes)) \<times> drained" where
  "drain_packfile r = drain_from r \<lparr>dr_pack = [], dr_progress = []\<rparr> 0"

definition SIDEBAND_CHUNK :: nat where
  "SIDEBAND_CHUNK = MAX_LINE_LEN - 5"

text \<open>\<^verbatim>\<open>slice.chunks(n)\<close>.\<close>

function chunks :: "nat \<Rightarrow> 'a list \<Rightarrow> 'a list list" where
  "chunks n xs = (if n = 0 \<or> xs = [] then [] else take n xs # chunks n (drop n xs))"
  by pat_completeness auto
termination
  by (relation "measure (\<lambda>(n, xs). length xs)") auto

declare chunks.simps [simp del]

definition encode_fetch_response_packfile :: "bytes \<Rightarrow> bytes option" where
  "encode_fetch_response_packfile pack_bytes =
     write_frames
       ([text_line (lit ''packfile'')]
        @ map (\<lambda>chunk. write_data (0x01 # chunk)) (chunks SIDEBAND_CHUNK pack_bytes)
        @ [Some write_flush])"

section \<open>Requests read back\<close>

text \<open>The argument lines of a request, as texts.\<close>

definition fetch_args :: "fetch_request \<Rightarrow> bytes list" where
  "fetch_args req =
     (if fr_thin_pack req then [lit ''thin-pack''] else [])
     @ (if fr_no_progress req then [lit ''no-progress''] else [])
     @ (if fr_include_tag req then [lit ''include-tag''] else [])
     @ (if fr_ofs_delta req then [lit ''ofs-delta''] else [])
     @ (case fr_filter req of None \<Rightarrow> [] | Some spec \<Rightarrow> [lit ''filter '' @ spec])
     @ map (\<lambda>oid. lit ''want '' @ oid_to_string oid) (fr_wants req)
     @ map (\<lambda>oid. lit ''have '' @ oid_to_string oid) (fr_haves req)
     @ (if fr_done req then [lit ''done''] else [])"

lemma encode_fetch_request_args:
  "encode_fetch_request req fmt =
     write_frames
       ([text_line (lit ''command=fetch'')]
        @ (case fmt of None \<Rightarrow> [] | Some f \<Rightarrow> [text_line (lit ''object-format='' @ f)])
        @ [Some write_delim] @ map text_line (fetch_args req) @ [Some write_flush])"
  by (cases "fr_filter req")
    (simp_all add: encode_fetch_request_def fetch_args_def comp_def del: lit_def write_frames.simps)

fun run_args :: "bytes list \<Rightarrow> fetch_request \<Rightarrow> fetch_error + fetch_request" where
  "run_args [] req = Inr req"
| "run_args (s # ss) req = bindR (fetch_arg s req) (run_args ss)"

lemma run_args_append: "run_args (xs @ ys) req = bindR (run_args xs req) (run_args ys)"
proof (induction xs arbitrary: req)
  case (Cons x xs)
  then show ?case by (cases "fetch_arg x req") auto
qed simp

lemma args_loop:
  "list_all plain ss \<Longrightarrow> \<forall>s \<in> set ss. frame_ok (Data (s @ [0x0A])) \<Longrightarrow> run_args ss req = Inr req' \<Longrightarrow>
   frame_loop FetchPkt fetch_arg_step req (concat (map (\<lambda>s. frame_bytes (Data (s @ [0x0A]))) ss) @ rest)
     = frame_loop FetchPkt fetch_arg_step req' rest"
proof (induction ss arbitrary: req)
  case Nil
  then show ?case by simp
next
  case (Cons s ss)
  then obtain r1 where r1: "fetch_arg s req = Inr r1" "run_args ss r1 = Inr req'"
    by (auto simp: bindR_eq_Inr)
  have "fetch_arg_step req (Data (s @ [0x0A])) = Inr (Inl r1)"
    using Cons.prems(1) r1 by (simp add: fetch_arg_step_def line_str_plain)
  with Cons r1 show ?case
    by (simp add: frame_loop_data [where step = fetch_arg_step] del: frame_ok.simps)
qed

lemma fetch_flags:
  "fetch_arg (lit ''done'') req = Inr (req\<lparr>fr_done := True\<rparr>)"
  "fetch_arg (lit ''no-progress'') req = Inr (req\<lparr>fr_no_progress := True\<rparr>)"
  "fetch_arg (lit ''thin-pack'') req = Inr (req\<lparr>fr_thin_pack := True\<rparr>)"
  "fetch_arg (lit ''ofs-delta'') req = Inr (req\<lparr>fr_ofs_delta := True\<rparr>)"
  "fetch_arg (lit ''include-tag'') req = Inr (req\<lparr>fr_include_tag := True\<rparr>)"
  by (simp_all add: fetch_arg_def)

lemma fetch_parse_oid_string:
  "wf_oid oid \<Longrightarrow> oid_algo oid = algo \<Longrightarrow>
   fetch_parse_oid (trim (oid_to_string oid)) algo l sec = Inr oid"
  by (simp add: fetch_parse_oid_def trim_oid_string oid_hex_round_trip)

lemma fetch_valued:
  "wf_oid oid \<Longrightarrow> oid_algo oid = Sha1 \<Longrightarrow>
   fetch_arg (lit ''want '' @ oid_to_string oid) req = Inr (req\<lparr>fr_wants := fr_wants req @ [oid]\<rparr>)"
  "wf_oid oid \<Longrightarrow> oid_algo oid = Sha1 \<Longrightarrow>
   fetch_arg (lit ''have '' @ oid_to_string oid) req = Inr (req\<lparr>fr_haves := fr_haves req @ [oid]\<rparr>)"
  "trim spec = spec \<Longrightarrow> fetch_arg (lit ''filter '' @ spec) req = Inr (req\<lparr>fr_filter := Some spec\<rparr>)"
  by (simp_all add: fetch_arg_def fetch_parse_oid_string)

definition fetch_request_ok :: "fetch_request \<Rightarrow> bytes option \<Rightarrow> bool" where
  "fetch_request_ok req fmt \<longleftrightarrow>
     list_all (\<lambda>oid. wf_oid oid \<and> oid_algo oid = Sha1) (fr_wants req @ fr_haves req) \<and>
     pred_option (\<lambda>s. plain s \<and> trim s = s) (fr_filter req) \<and> pred_option (\<lambda>s. plain s \<and> trim s = s) fmt"

lemma run_wants:
  "list_all (\<lambda>oid. wf_oid oid \<and> oid_algo oid = Sha1) oids \<Longrightarrow>
   run_args (map (\<lambda>oid. lit ''want '' @ oid_to_string oid) oids) req
     = Inr (req\<lparr>fr_wants := fr_wants req @ oids\<rparr>)"
  by (induction oids arbitrary: req) (simp_all add: fetch_valued del: lit_def)

lemma run_haves:
  "list_all (\<lambda>oid. wf_oid oid \<and> oid_algo oid = Sha1) oids \<Longrightarrow>
   run_args (map (\<lambda>oid. lit ''have '' @ oid_to_string oid) oids) req
     = Inr (req\<lparr>fr_haves := fr_haves req @ oids\<rparr>)"
  by (induction oids arbitrary: req) (simp_all add: fetch_valued del: lit_def)

lemma run_fetch_args:
  assumes "fetch_request_ok req fmt"
  shows "run_args (fetch_args req) fetch_request_default = Inr req"
proof -
  have oids: "list_all (\<lambda>oid. wf_oid oid \<and> oid_algo oid = Sha1) (fr_wants req)"
    "list_all (\<lambda>oid. wf_oid oid \<and> oid_algo oid = Sha1) (fr_haves req)"
    using assms by (simp_all add: fetch_request_ok_def)
  have flags: "run_args (if b then [lit ''thin-pack''] else []) r = Inr (if b then r\<lparr>fr_thin_pack := True\<rparr> else r)"
    "run_args (if b then [lit ''no-progress''] else []) r = Inr (if b then r\<lparr>fr_no_progress := True\<rparr> else r)"
    "run_args (if b then [lit ''include-tag''] else []) r = Inr (if b then r\<lparr>fr_include_tag := True\<rparr> else r)"
    "run_args (if b then [lit ''ofs-delta''] else []) r = Inr (if b then r\<lparr>fr_ofs_delta := True\<rparr> else r)"
    "run_args (if b then [lit ''done''] else []) r = Inr (if b then r\<lparr>fr_done := True\<rparr> else r)" for b r
    by (simp_all add: fetch_flags del: lit_def)
  have filt: "run_args (case fr_filter req of None \<Rightarrow> [] | Some spec \<Rightarrow> [lit ''filter '' @ spec]) r
      = Inr (case fr_filter req of None \<Rightarrow> r | Some spec \<Rightarrow> r\<lparr>fr_filter := Some spec\<rparr>)" for r
    using assms by (cases "fr_filter req") (simp_all add: fetch_request_ok_def fetch_valued del: lit_def)
  show ?thesis
    unfolding fetch_args_def run_args_append flags filt bindR_simps run_wants [OF oids(1)] run_haves [OF oids(2)]
    by (cases "fr_filter req") (simp_all add: fetch_request_default_def)
qed

lemma fetch_args_plain:
  assumes "fetch_request_ok req fmt"
  shows "list_all plain (fetch_args req)"
proof -
  have "plain (lit ''want '' @ oid_to_string oid)" "plain (lit ''have '' @ oid_to_string oid)" for oid
    by simp_all
  then show ?thesis
    using assms by (cases "fr_filter req") (auto simp: fetch_args_def fetch_request_ok_def list_all_iff)
qed

lemma fetch_header_lines:
  "fetch_header_step fmt (Data (lit ''command=fetch'' @ [0x0A])) = Inr (Inl fmt)"
  "plain v \<Longrightarrow> trim v = v \<Longrightarrow>
   fetch_header_step fmt (Data ((lit ''object-format='' @ v) @ [0x0A])) = Inr (Inl (Some v))"
proof -
  have "line_str (BadLine ''header'') (lit ''command=fetch'' @ [0x0A]) = Inr (lit ''command=fetch'')"
    by (rule line_str_plain) simp
  then show "fetch_header_step fmt (Data (lit ''command=fetch'' @ [0x0A])) = Inr (Inl fmt)"
    by (simp add: fetch_header_step_def del: lit_def)
  assume v: "plain v" "trim v = v"
  have "line_str (BadLine ''header'') ((lit ''object-format='' @ v) @ [0x0A]) = Inr (lit ''object-format='' @ v)"
    using v(1) by (intro line_str_plain) simp
  moreover have "lit ''object-format='' @ v \<noteq> lit ''command=fetch''"
    by simp
  ultimately show "fetch_header_step fmt (Data ((lit ''object-format='' @ v) @ [0x0A])) = Inr (Inl (Some v))"
    using v(2) by (simp add: fetch_header_step_def del: lit_def append_assoc)
qed

lemma fetch_request_parse:
  assumes ok: "fetch_request_ok req fmt" and out: "encode_fetch_request req fmt = Some out"
  shows "parse_fetch_request (out @ rest) = Inr ((req, fmt), rest)"
proof -
  let ?cmd = "lit ''command=fetch'' @ [0x0A]"
  let ?fmt = "case fmt of None \<Rightarrow> [] | Some f \<Rightarrow> frame_bytes (Data ((lit ''object-format='' @ f) @ [0x0A]))"
  let ?args = "concat (map (\<lambda>s. frame_bytes (Data (s @ [0x0A]))) (fetch_args req))"
  from out have frames: "out = frame_bytes (Data ?cmd) @ ?fmt @ write_delim @ ?args @ write_flush"
    and fmt_ok: "fmt = Some f \<Longrightarrow> frame_ok (Data ((lit ''object-format='' @ f) @ [0x0A]))"
    and args_ok: "\<forall>s \<in> set (fetch_args req). frame_ok (Data (s @ [0x0A]))" for f
    unfolding encode_fetch_request_args
    by (cases fmt; auto simp: text_line_def [abs_def] write_frames_out simp del: lit_def frame_ok.simps append_assoc)+
  have cmd_ok: "frame_ok (Data ?cmd)"
    by (simp add: MAX_LINE_LEN_def)
  have header: "frame_loop FetchPkt fetch_header_step None (frame_bytes (Data ?cmd) @ ?fmt @ write_delim @ tail)
      = Inr (Inl fmt, tail)" for tail
  proof (cases fmt)
    case None
    then show ?thesis
      by (simp add: frame_loop_data [where step = fetch_header_step, OF cmd_ok fetch_header_lines(1)]
          frame_loop_special fetch_header_step_def del: lit_def)
  next
    case (Some f)
    with ok have f: "plain f" "trim f = f"
      by (simp_all add: fetch_request_ok_def)
    show ?thesis
      unfolding Some option.case
        frame_loop_data [where step = fetch_header_step, OF cmd_ok fetch_header_lines(1)]
        frame_loop_data [where step = fetch_header_step, OF fmt_ok [OF Some] fetch_header_lines(2) [OF f]]
      by (simp add: frame_loop_special fetch_header_step_def)
  qed
  have "frame_loop FetchPkt fetch_arg_step fetch_request_default (?args @ write_flush @ rest) = Inr (req, rest)"
    unfolding args_loop [OF fetch_args_plain [OF ok] args_ok run_fetch_args [OF ok]]
    by (simp add: frame_loop_special fetch_arg_step_def)
  with header show ?thesis
    unfolding parse_fetch_request_def frames by (simp del: lit_def)
qed

section \<open>The sideband read back\<close>

lemma chunks_parts:
  "0 < n \<Longrightarrow> concat (chunks n xs) = xs \<and> (\<forall>c \<in> set (chunks n xs). c \<noteq> [] \<and> length c \<le> n)"
proof (induction n xs rule: chunks.induct)
  case (1 n xs)
  then show ?case
    by (cases "xs = []") (simp_all add: chunks.simps [of n xs] chunks.simps [of n "[]"])
qed

type_synonym band_message = "u8 \<times> bytes"

definition band_frame :: "band_message \<Rightarrow> frame" where
  "band_frame = (\<lambda>(band, body). Data (band # body))"

definition band_bodies :: "u8 \<Rightarrow> band_message list \<Rightarrow> bytes list" where
  "band_bodies band msgs = map snd (filter (\<lambda>m. fst m = band) msgs)"

definition band_ok :: "band_message \<Rightarrow> bool" where
  "band_ok = (\<lambda>(band, body). (band = 1 \<or> band = 2) \<and> length body \<le> 65515)"

lemma drain_band:
  assumes "band_ok (band, body)"
  shows "drain_from (frame_bytes (band_frame (band, body)) @ rest) d written =
    (if band = 1 then drain_from rest (d\<lparr>dr_pack := dr_pack d @ body\<rparr>) (written + of_nat (length body))
     else drain_from rest (d\<lparr>dr_progress := dr_progress d @ [body]\<rparr>) written)"
proof -
  have "frame_ok (band_frame (band, body))"
    using assms by (simp add: band_ok_def band_frame_def MAX_LINE_LEN_def)
  then show ?thesis
    using assms by (subst drain_from.simps) (auto simp: read_frame_bytes band_ok_def band_frame_def)
qed

lemma drain_bands:
  "list_all band_ok msgs \<Longrightarrow>
   drain_from (concat (map (\<lambda>m. frame_bytes (band_frame m)) msgs) @ rest) d written =
     drain_from rest
       \<lparr>dr_pack = dr_pack d @ concat (band_bodies 1 msgs), dr_progress = dr_progress d @ band_bodies 2 msgs\<rparr>
       (written + of_nat (length (concat (band_bodies 1 msgs))))"
proof (induction msgs arbitrary: d written)
  case Nil
  then show ?case by (cases d) (simp add: band_bodies_def)
next
  case (Cons m msgs)
  obtain band body where m: "m = (band, body)" by fastforce
  have "band = 1 \<or> band = 2"
    using Cons.prems by (simp add: m band_ok_def)
  with Cons show ?case
    using drain_band [of band body] by (auto simp: m band_bodies_def add.assoc)
qed

lemma drain_flush: "drain_from (write_flush @ rest) d written = (Inr (written, rest), d)"
  unfolding special_frame_bytes
  by (subst drain_from.simps) (simp add: read_frame_bytes del: frame_bytes.simps)

section \<open>The sections read back\<close>

definition ack_text :: "fetch_ack \<Rightarrow> bytes" where
  "ack_text a = (case a of Nak \<Rightarrow> lit ''NAK'' | Ack oid \<Rightarrow> lit ''ACK '' @ oid_to_string oid | Ready \<Rightarrow> lit ''ready'')"

definition shallow_text :: "shallow_info \<Rightarrow> bytes" where
  "shallow_text s =
     (case s of Shallow oid \<Rightarrow> lit ''shallow '' @ oid_to_string oid
      | Unshallow oid \<Rightarrow> lit ''unshallow '' @ oid_to_string oid)"

definition wanted_text :: "wanted_ref \<Rightarrow> bytes" where
  "wanted_text w = oid_to_string (wr_oid w) @ 0x20 # wr_name w"

definition oid_ok :: "hash_algo \<Rightarrow> object_id \<Rightarrow> bool" where
  "oid_ok algo oid \<longleftrightarrow> wf_oid oid \<and> oid_algo oid = algo"

definition ack_ok :: "hash_algo \<Rightarrow> fetch_ack \<Rightarrow> bool" where
  "ack_ok algo a = (case a of Ack oid \<Rightarrow> oid_ok algo oid | _ \<Rightarrow> True)"

definition shallow_ok :: "hash_algo \<Rightarrow> shallow_info \<Rightarrow> bool" where
  "shallow_ok algo s = (case s of Shallow oid \<Rightarrow> oid_ok algo oid | Unshallow oid \<Rightarrow> oid_ok algo oid)"

definition wanted_ok :: "hash_algo \<Rightarrow> wanted_ref \<Rightarrow> bool" where
  "wanted_ok algo w \<longleftrightarrow> oid_ok algo (wr_oid w) \<and> plain (wr_name w) \<and> trim (wr_name w) = wr_name w"

lemma plain_utf8: "plain s \<Longrightarrow> utf8 s"
  by (simp add: plain_def)

lemma text_plain: "plain (ack_text a)" "plain (shallow_text s)" "plain (wr_name w) \<Longrightarrow> plain (wanted_text w)"
  by (cases a; cases s; simp add: ack_text_def shallow_text_def wanted_text_def)+

lemma parse_ack_text: "ack_ok algo a \<Longrightarrow> parse_ack (ack_text a) algo = Inr a"
  using plain_utf8 [OF text_plain(1) [of a]]
  by (cases a) (simp_all add: ack_ok_def oid_ok_def parse_ack_def ack_text_def fetch_parse_oid_string)

lemma parse_shallow_text: "shallow_ok algo s \<Longrightarrow> parse_shallow (shallow_text s) algo = Inr s"
  using plain_utf8 [OF text_plain(2) [of s]]
  by (cases s) (simp_all add: shallow_ok_def oid_ok_def parse_shallow_def shallow_text_def fetch_parse_oid_string)

lemma parse_wanted_text: "wanted_ok algo w \<Longrightarrow> parse_wanted_ref (wanted_text w) algo = Inr w"
  using plain_utf8 [OF text_plain(3) [of w]] oid_string_no_sep(1) [of "wr_oid w"]
  by (simp add: wanted_ok_def oid_ok_def parse_wanted_ref_def wanted_text_def fetch_parse_oid_string split_first_append)

text \<open>One section as frames: its name, its lines, a delimiter.\<close>

definition section_frames :: "bytes \<Rightarrow> bytes list \<Rightarrow> bytes" where
  "section_frames name ls =
     concat (map (\<lambda>s. frame_bytes (Data (s @ [0x0A]))) (name # ls)) @ write_delim"

lemma section_lines_loop:
  "\<forall>x \<in> set xs. plain (text x) \<and> frame_ok (Data (text x @ [0x0A])) \<and>
     (\<forall>p. section_line algo (text x) sec p = Inr (upd x p)) \<Longrightarrow>
   frame_loop FetchPkt (preamble_step algo) (p, Some sec)
     (concat (map (\<lambda>s. frame_bytes (Data (s @ [0x0A]))) (map text xs)) @ rest)
   = frame_loop FetchPkt (preamble_step algo) (fold upd xs p, Some sec) rest"
proof (induction xs arbitrary: p)
  case Nil
  then show ?case by simp
next
  case (Cons x xs)
  then have "preamble_step algo (p, Some sec) (Data (text x @ [0x0A])) = Inr (Inl (upd x p, Some sec))"
    by (simp add: preamble_step_def trim_newline_plain)
  with Cons show ?case
    by (simp add: frame_loop_data [where step = "preamble_step algo"] del: frame_ok.simps)
qed

lemma section_loop:
  assumes "\<forall>x \<in> set xs. plain (text x) \<and> frame_ok (Data (text x @ [0x0A])) \<and>
      (\<forall>p. section_line algo (text x) sec p = Inr (upd x p))"
    and "plain name" and "frame_ok (Data (name @ [0x0A]))"
    and "\<And>p. section_header name p = Inr (Inl (p, Some sec))"
  shows "frame_loop FetchPkt (preamble_step algo) (p, None) (section_frames name (map text xs) @ rest)
    = frame_loop FetchPkt (preamble_step algo) (fold upd xs p, None) rest"
proof -
  have "preamble_step algo (p, None) (Data (name @ [0x0A])) = Inr (Inl (p, Some sec))"
    using assms(2,4) by (simp add: preamble_step_def trim_newline_plain)
  then show ?thesis
    using frame_loop_data [OF assms(3), of "preamble_step algo"] section_lines_loop [OF assms(1)]
    by (simp add: section_frames_def frame_loop_special preamble_step_def)
qed

lemma preamble_sections:
  assumes "list_all (ack_ok algo) acks" and "list_all (shallow_ok algo) shallows" and "list_all (wanted_ok algo) wanted"
    and "list_all plain uris"
    and "\<forall>t \<in> set (map ack_text acks @ map shallow_text shallows @ map wanted_text wanted @ uris).
      frame_ok (Data (t @ [0x0A]))"
  shows "read_fetch_preamble
      (section_frames (lit ''acknowledgments'') (map ack_text acks)
       @ section_frames (lit ''shallow-info'') (map shallow_text shallows)
       @ section_frames (lit ''wanted-refs'') (map wanted_text wanted)
       @ section_frames (lit ''packfile-uris'') (map (\<lambda>u. u) uris)
       @ frame_bytes (Data (lit ''packfile'' @ [0x0A])) @ rest) algo
    = Inr (\<lparr>fp_acknowledgments = acks, fp_shallow_info = shallows, fp_wanted_refs = wanted,
        fp_packfile_uris = uris, fp_packfile_missing = False\<rparr>, rest)"
proof -
  let ?ack = "\<lambda>a (p :: fetch_preamble). p\<lparr>fp_acknowledgments := fp_acknowledgments p @ [a]\<rparr>"
  let ?sh = "\<lambda>s (p :: fetch_preamble). p\<lparr>fp_shallow_info := fp_shallow_info p @ [s]\<rparr>"
  let ?wr = "\<lambda>w (p :: fetch_preamble). p\<lparr>fp_wanted_refs := fp_wanted_refs p @ [w]\<rparr>"
  let ?uri = "\<lambda>u (p :: fetch_preamble). p\<lparr>fp_packfile_uris := fp_packfile_uris p @ [u]\<rparr>"
  have folds: "fold ?ack acks p = p\<lparr>fp_acknowledgments := fp_acknowledgments p @ acks\<rparr>"
    "fold ?sh shallows p = p\<lparr>fp_shallow_info := fp_shallow_info p @ shallows\<rparr>"
    "fold ?wr wanted p = p\<lparr>fp_wanted_refs := fp_wanted_refs p @ wanted\<rparr>"
    "fold ?uri uris p = p\<lparr>fp_packfile_uris := fp_packfile_uris p @ uris\<rparr>" for p
    by (induction acks arbitrary: p, simp_all) (induction shallows arbitrary: p, simp_all,
        induction wanted arbitrary: p, simp_all, induction uris arbitrary: p, simp_all)
  have names: "plain (lit ''acknowledgments'')" "plain (lit ''shallow-info'')" "plain (lit ''wanted-refs'')"
    "plain (lit ''packfile-uris'')" "plain (lit ''packfile'')"
    "frame_ok (Data (lit ''acknowledgments'' @ [0x0A]))" "frame_ok (Data (lit ''shallow-info'' @ [0x0A]))"
    "frame_ok (Data (lit ''wanted-refs'' @ [0x0A]))" "frame_ok (Data (lit ''packfile-uris'' @ [0x0A]))"
    "frame_ok (Data (lit ''packfile'' @ [0x0A]))"
    by (simp_all add: MAX_LINE_LEN_def)
  have headers: "section_header (lit ''acknowledgments'') p = Inr (Inl (p, Some Acknowledgments))"
    "section_header (lit ''shallow-info'') p = Inr (Inl (p, Some ShallowSection))"
    "section_header (lit ''wanted-refs'') p = Inr (Inl (p, Some WantedRefs))"
    "section_header (lit ''packfile-uris'') p = Inr (Inl (p, Some PackfileUris))"
    "section_header (lit ''packfile'') p = Inr (Inr p)" for p
    by (simp_all add: section_header_def)
  have lines: "\<forall>a \<in> set acks. plain (ack_text a) \<and> frame_ok (Data (ack_text a @ [0x0A])) \<and>
      (\<forall>p. section_line algo (ack_text a) Acknowledgments p = Inr (?ack a p))"
    "\<forall>s \<in> set shallows. plain (shallow_text s) \<and> frame_ok (Data (shallow_text s @ [0x0A])) \<and>
      (\<forall>p. section_line algo (shallow_text s) ShallowSection p = Inr (?sh s p))"
    "\<forall>w \<in> set wanted. plain (wanted_text w) \<and> frame_ok (Data (wanted_text w @ [0x0A])) \<and>
      (\<forall>p. section_line algo (wanted_text w) WantedRefs p = Inr (?wr w p))"
    "\<forall>u \<in> set uris. plain u \<and> frame_ok (Data (u @ [0x0A])) \<and>
      (\<forall>p. section_line algo u PackfileUris p = Inr (?uri u p))"
    using assms text_plain
    by (auto simp: section_line_def list_all_iff parse_ack_text parse_shallow_text parse_wanted_text
        utf8_lossy_id plain_utf8 wanted_ok_def simp del: frame_ok.simps)
  have "frame_loop FetchPkt (preamble_step algo) (p, None) (frame_bytes (Data (lit ''packfile'' @ [0x0A])) @ rest)
      = Inr (p, rest)" for p
    using names(5) by (simp only: frame_loop_frame [OF names(10)])
      (simp add: preamble_step_def trim_newline_plain headers del: lit_def)
  then show ?thesis
    unfolding read_fetch_preamble_def append_assoc
      section_loop [OF lines(1) names(1,6) headers(1)] section_loop [OF lines(2) names(2,7) headers(2)]
      section_loop [OF lines(3) names(3,8) headers(3)] section_loop [OF lines(4) names(4,9) headers(4)]
      folds fetch_preamble_default_def by simp
qed

section \<open>Properties\<close>

text \<open>Every fetch request with SHA-1 ids, and filter and object format that are single lines
  without outer white space, is read back by the server as the client wrote it.\<close>

theorem fetch_request_round_trip:
  assumes "fetch_request_ok req fmt" and "encode_fetch_request req fmt = Some out"
  shows "parse_fetch_request (out @ rest) = Inr ((req, fmt), rest)"
  using assms by (rule fetch_request_parse)

definition sample_fetch :: fetch_request where
  "sample_fetch =
     \<lparr>fr_wants = [OidSha1 (replicate 20 7)], fr_haves = [OidSha1 (replicate 20 3)], fr_done = True,
      fr_no_progress = False, fr_thin_pack = False, fr_ofs_delta = True, fr_include_tag = True,
      fr_filter = Some (lit ''blob:none'')\<rparr>"

lemma length_sample_oid: "length (oid_to_string (OidSha1 (replicate 20 b))) = 40"
  by (simp add: oid_to_string_def)

theorem fetch_request_round_trip_witness:
  "\<exists>out. encode_fetch_request sample_fetch None = Some out \<and>
     parse_fetch_request (out @ lit ''x'') = Inr ((sample_fetch, None), lit ''x'')"
proof -
  have "trim (lit ''blob:none'') = lit ''blob:none''"
    by (rule trim_graphic) simp
  then have ok: "fetch_request_ok sample_fetch None"
    by (simp add: fetch_request_ok_def sample_fetch_def wf_oid_def)
  have "\<exists>out. encode_fetch_request sample_fetch None = Some out"
    by (simp add: encode_fetch_request_def sample_fetch_def text_line_def write_data_def MAX_LINE_LEN_def
        length_sample_oid)
  then show ?thesis using fetch_request_round_trip [OF ok] by blast
qed

text \<open>For every pack, of any size, the server's response is written without failing its length
  check; the client's preamble is empty and the sideband stream after it yields exactly the
  pack, with the bytes after the response untouched.\<close>

theorem packfile_response_round_trip:
  "\<exists>out r. encode_fetch_response_packfile pack_bytes = Some out \<and>
     read_fetch_preamble (out @ rest) algo = Inr (fetch_preamble_default, r) \<and>
     drain_packfile r = (Inr (of_nat (length pack_bytes), rest), \<lparr>dr_pack = pack_bytes, dr_progress = []\<rparr>)"
proof -
  let ?cs = "chunks SIDEBAND_CHUNK pack_bytes"
  let ?msgs = "map (Pair 1) ?cs"
  have chunk: "SIDEBAND_CHUNK = 65515"
    by (simp add: SIDEBAND_CHUNK_def MAX_LINE_LEN_def)
  have parts: "concat ?cs = pack_bytes" "\<forall>c \<in> set ?cs. length c \<le> 65515"
    using chunks_parts [of SIDEBAND_CHUNK pack_bytes] unfolding chunk by auto
  have head: "frame_ok (Data (lit ''packfile'' @ [0x0A]))"
    by (simp add: MAX_LINE_LEN_def)
  let ?body = "concat (map (\<lambda>m. frame_bytes (band_frame m)) ?msgs)"
  have body: "?body = concat (map (\<lambda>c. frame_bytes (Data (0x01 # c))) ?cs)"
    by (simp add: comp_def band_frame_def)
  have "\<forall>c \<in> set ?cs. frame_ok (Data (0x01 # c))"
    using parts(2) by (simp add: MAX_LINE_LEN_def)
  then have out: "encode_fetch_response_packfile pack_bytes
      = Some (frame_bytes (Data (lit ''packfile'' @ [0x0A])) @ ?body @ write_flush)"
    unfolding encode_fetch_response_packfile_def text_line_def body
    using head by (simp add: write_frames_out del: lit_def frame_ok.simps write_frames.simps(3))
  have "section_header (lit ''packfile'') p = Inr (Inr p)" "plain (lit ''packfile'')" for p
    by (simp_all add: section_header_def)
  then have pre: "read_fetch_preamble (frame_bytes (Data (lit ''packfile'' @ [0x0A])) @ r) algo
      = Inr (fetch_preamble_default, r)" for r
    by (simp only: read_fetch_preamble_def frame_loop_frame [OF head])
      (simp add: preamble_step_def trim_newline_plain del: lit_def)
  have "list_all band_ok ?msgs" "concat (band_bodies 1 ?msgs) = pack_bytes" "band_bodies 2 ?msgs = []"
    using parts by (auto simp: band_bodies_def band_ok_def list_all_iff comp_def)
  then have "drain_packfile (?body @ write_flush @ rest)
      = (Inr (of_nat (length pack_bytes), rest), \<lparr>dr_pack = pack_bytes, dr_progress = []\<rparr>)"
    by (simp add: drain_packfile_def drain_bands drain_flush del: map_map)
  with out pre show ?thesis
    by (intro exI [of _ "frame_bytes (Data (lit ''packfile'' @ [0x0A])) @ ?body @ write_flush"]
        exI [of _ "?body @ write_flush @ rest"]) (simp del: lit_def map_map)
qed

text \<open>Whatever interleaving of pack data and progress messages the server sends, the client
  writes the concatenation of the pack data, in order, and reports the progress payloads, in
  order; an error message ends the stream with that error and with what came before it
  delivered.\<close>

theorem sideband_demux:
  assumes "list_all band_ok msgs" and "length e \<le> 65515"
  shows "drain_packfile (concat (map (\<lambda>m. frame_bytes (band_frame m)) msgs) @ write_flush @ rest)
      = (Inr (of_nat (length (concat (band_bodies 1 msgs))), rest),
         \<lparr>dr_pack = concat (band_bodies 1 msgs), dr_progress = band_bodies 2 msgs\<rparr>) \<and>
    drain_packfile (concat (map (\<lambda>m. frame_bytes (band_frame m)) msgs) @ frame_bytes (band_frame (3, e)) @ rest)
      = (Inl (ServerError (trim (utf8_lossy e))),
         \<lparr>dr_pack = concat (band_bodies 1 msgs), dr_progress = band_bodies 2 msgs\<rparr>)"
proof -
  have "frame_ok (band_frame (3, e))"
    using assms(2) by (simp add: band_frame_def MAX_LINE_LEN_def)
  then have "drain_from (frame_bytes (band_frame (3, e)) @ rest) d w = (Inl (ServerError (trim (utf8_lossy e))), d)"
    for d w
    by (subst drain_from.simps) (simp add: read_frame_bytes, simp add: band_frame_def)
  with assms(1) show ?thesis
    by (simp add: drain_packfile_def drain_bands drain_flush)
qed

theorem sideband_demux_witness:
  "fst (drain_packfile (concat (map (\<lambda>m. frame_bytes (band_frame m))
       [(1, lit ''PA''), (2, lit ''50%''), (1, lit ''CK'')]) @ write_flush @ []))
     = Inr (4, [])"
proof -
  have "list_all band_ok [(1, lit ''PA''), (2, lit ''50%''), (1, lit ''CK'')]"
    by (simp add: band_ok_def)
  from sideband_demux [OF this, of "[]" "[]"] show ?thesis
    by (simp add: band_bodies_def)
qed

text \<open>The sections a server may send before the pack, each with any number of lines, are read
  into the preamble in order and completely, up to the pack header.\<close>

theorem fetch_preamble_sections:
  assumes "list_all (ack_ok algo) acks" and "list_all (shallow_ok algo) shallows" and "list_all (wanted_ok algo) wanted"
    and "list_all plain uris"
    and "\<forall>t \<in> set (map ack_text acks @ map shallow_text shallows @ map wanted_text wanted @ uris).
      frame_ok (Data (t @ [0x0A]))"
  shows "read_fetch_preamble
      (section_frames (lit ''acknowledgments'') (map ack_text acks)
       @ section_frames (lit ''shallow-info'') (map shallow_text shallows)
       @ section_frames (lit ''wanted-refs'') (map wanted_text wanted)
       @ section_frames (lit ''packfile-uris'') (map (\<lambda>u. u) uris)
       @ frame_bytes (Data (lit ''packfile'' @ [0x0A])) @ rest) algo
    = Inr (\<lparr>fp_acknowledgments = acks, fp_shallow_info = shallows, fp_wanted_refs = wanted,
        fp_packfile_uris = uris, fp_packfile_missing = False\<rparr>, rest)"
  using assms by (rule preamble_sections)

theorem fetch_preamble_sections_witness:
  "\<exists>stream. read_fetch_preamble stream Sha1
    = Inr (\<lparr>fp_acknowledgments = [Ack (OidSha1 (replicate 20 7)), Ready],
        fp_shallow_info = [Shallow (OidSha1 (replicate 20 3))], fp_wanted_refs = [],
        fp_packfile_uris = [lit ''https://x''], fp_packfile_missing = False\<rparr>, lit ''PACK'')"
  using fetch_preamble_sections [of Sha1 "[Ack (OidSha1 (replicate 20 7)), Ready]"
      "[Shallow (OidSha1 (replicate 20 3))]" "[]" "[lit ''https://x'']" "lit ''PACK''"]
  by (auto simp: ack_ok_def shallow_ok_def oid_ok_def wf_oid_def ack_text_def shallow_text_def
      MAX_LINE_LEN_def length_sample_oid)

end
