(* ===== verification/Wire_Push.thy ===== *)
theory Wire_Push
  imports Wire_Fetch "HOL-Library.Multiset"
begin

text \<open>
  \<^verbatim>\<open>alt-wire/src/push.rs\<close>: the \<^verbatim>\<open>receive-pack\<close> side of the wire, both ends: the ref
  advertisement, the update commands with the pack behind them, the payload that a push signature
  covers, and the status report, plain and in a sideband.
\<close>

section \<open>Messages\<close>

record ref_update =
  up_old :: "object_id option"
  up_new :: "object_id option"
  up_name :: bytes

record v1_ref_advertisement =
  adv_refs :: "(bytes, object_id) btree"
  adv_caps :: "bytes list"

datatype push_error =
    PushPkt pkt_error
  | BadService bytes
  | BadRefLine bytes
  | BadStatusLine bytes
  | PushBadSideband u8
  | PushServerError bytes

datatype command_status = CmdOk bytes | CmdNg bytes bytes

record report_status =
  rs_unpack :: "bytes + unit"
  rs_commands :: "command_status list"

record push_head =
  ph_updates :: "ref_update list"
  ph_caps :: "bytes list"

record push_request =
  pr_updates :: "ref_update list"
  pr_caps :: "bytes list"
  pr_pack :: bytes

definition adv_supports :: "v1_ref_advertisement \<Rightarrow> bytes \<Rightarrow> bool" where
  "adv_supports ad cap \<longleftrightarrow> list_ex (\<lambda>c. c = cap) (adv_caps ad)"

fun first_value :: "bytes \<Rightarrow> bytes list \<Rightarrow> bytes option" where
  "first_value prefix [] = None"
| "first_value prefix (c # cs) =
     (case strip_prefix prefix c of Some v \<Rightarrow> Some v | None \<Rightarrow> first_value prefix cs)"

definition adv_cap_value :: "v1_ref_advertisement \<Rightarrow> bytes \<Rightarrow> bytes option" where
  "adv_cap_value ad key = first_value (key @ lit ''='') (adv_caps ad)"

definition zero_oid :: "hash_algo \<Rightarrow> object_id" where
  "zero_oid algo = mk_oid algo (replicate (raw_len algo) 0)"

definition or_zero :: "hash_algo \<Rightarrow> object_id option \<Rightarrow> object_id" where
  "or_zero algo oid = (case oid of None \<Rightarrow> zero_oid algo | Some x \<Rightarrow> x)"

text \<open>\<^verbatim>\<open>format!("{old} {new} {name}")\<close>.\<close>

definition update_text :: "hash_algo \<Rightarrow> ref_update \<Rightarrow> bytes" where
  "update_text algo u =
     oid_to_string (or_zero algo (up_old u)) @ 0x20 #
     oid_to_string (or_zero algo (up_new u)) @ 0x20 # up_name u"

section \<open>The signed payload\<close>

text \<open>\<^verbatim>\<open>lines.sort()\<close> orders strings by their bytes.\<close>

definition canonical_push_payload_with_nonce :: "ref_update list \<Rightarrow> bytes option \<Rightarrow> hash_algo \<Rightarrow> bytes" where
  "canonical_push_payload_with_nonce updates nonce algo =
     (let lines = sort (map (\<lambda>u. update_text algo u @ [0x0A]) updates)
      in (case nonce of None \<Rightarrow> [] | Some n \<Rightarrow> lit ''nonce '' @ n @ [0x0A]) @ concat lines)"

definition canonical_push_payload :: "ref_update list \<Rightarrow> hash_algo \<Rightarrow> bytes" where
  "canonical_push_payload updates algo = canonical_push_payload_with_nonce updates None algo"

section \<open>Requests\<close>

definition command_line :: "hash_algo \<Rightarrow> bytes list \<Rightarrow> nat \<times> ref_update \<Rightarrow> bytes" where
  "command_line algo caps = (\<lambda>(i, u).
     update_text algo u @ (if i = 0 then 0 # join_with [0x20] caps else []) @ [0x0A])"

definition encode_push_request ::
  "ref_update list \<Rightarrow> bytes list \<Rightarrow> hash_algo \<Rightarrow> bytes \<Rightarrow> bytes option" where
  "encode_push_request updates caps algo pack_bytes =
     write_frames
       (map (\<lambda>iu. write_data (command_line algo caps iu)) (enumerate 0 updates)
        @ [Some write_flush] @ (if pack_bytes \<noteq> [] then [Some pack_bytes] else []))"

text \<open>A line and the capabilities behind its first NUL.\<close>

definition split_caps :: "bytes \<Rightarrow> bytes \<times> bytes option" where
  "split_caps l = (case split_first 0 l of None \<Rightarrow> (l, None) | Some (h, c) \<Rightarrow> (h, Some c))"

definition add_caps :: "bytes list \<Rightarrow> bytes option \<Rightarrow> push_error + bytes list" where
  "add_caps capabilities caps =
     (case caps of
        None \<Rightarrow> Inr capabilities
      | Some c \<Rightarrow> if utf8 c then Inr (capabilities @ split_whitespace c) else Inl (BadRefLine c))"

definition push_parse_oid :: "hash_algo \<Rightarrow> bytes \<Rightarrow> bytes \<Rightarrow> push_error + object_id" where
  "push_parse_oid algo head s =
     (case oid_from_hex s of
        Inr oid \<Rightarrow> if oid_algo oid = algo then Inr oid else Inl (BadRefLine head)
      | Inl _ \<Rightarrow> Inl (BadRefLine head))"

definition none_if_zero :: "hash_algo \<Rightarrow> object_id \<Rightarrow> object_id option" where
  "none_if_zero algo oid = (if oid = zero_oid algo then None else Some oid)"

definition push_command :: "hash_algo \<Rightarrow> bytes \<Rightarrow> push_head \<Rightarrow> push_error + push_head" where
  "push_command algo l ph =
     (let (head, caps) = split_caps (trim_newline l)
      in if \<not> utf8 head then Inl (BadRefLine head)
         else bindR (ok_or (BadRefLine head) (split_first 0x20 head)) (\<lambda>(old_s, r).
              bindR (ok_or (BadRefLine head) (split_first 0x20 r)) (\<lambda>(new_s, name).
              bindR (push_parse_oid algo head old_s) (\<lambda>old_oid.
              bindR (push_parse_oid algo head new_s) (\<lambda>new_oid.
              bindR (add_caps (ph_caps ph) caps) (\<lambda>capabilities.
                Inr \<lparr>ph_updates = ph_updates ph @
                       [\<lparr>up_old = none_if_zero algo old_oid, up_new = none_if_zero algo new_oid,
                         up_name = name\<rparr>],
                     ph_caps = capabilities\<rparr>))))))"

definition push_head_step :: "hash_algo \<Rightarrow> push_head \<Rightarrow> frame \<Rightarrow> push_error + (push_head + push_head)" where
  "push_head_step algo ph f =
     (case f of
        Data l \<Rightarrow> bindR (push_command algo l ph) (\<lambda>ph'. Inr (Inl ph'))
      | _ \<Rightarrow> Inr (Inr ph))"

definition parse_push_request_head :: "bytes \<Rightarrow> hash_algo \<Rightarrow> push_error + (push_head \<times> bytes)" where
  "parse_push_request_head r algo =
     frame_loop PushPkt (push_head_step algo) \<lparr>ph_updates = [], ph_caps = []\<rparr> r"

text \<open>\<^verbatim>\<open>read_to_end\<close> takes all that the head left.\<close>

definition parse_push_request :: "bytes \<Rightarrow> hash_algo \<Rightarrow> push_error + push_request" where
  "parse_push_request r algo =
     bindR (parse_push_request_head r algo) (\<lambda>(ph, r').
       Inr \<lparr>pr_updates = ph_updates ph, pr_caps = ph_caps ph, pr_pack = r'\<rparr>)"

section \<open>Ref advertisements\<close>

definition adv_ref_line :: "bytes \<Rightarrow> hash_algo \<Rightarrow> v1_ref_advertisement \<Rightarrow> push_error + v1_ref_advertisement" where
  "adv_ref_line l algo ad =
     (let (head, caps) = split_caps (trim_newline l)
      in if \<not> utf8 head then Inl (BadRefLine head)
         else bindR (ok_or (BadRefLine head) (split_first 0x20 head)) (\<lambda>(oid_s, name).
              bindR (push_parse_oid algo head oid_s) (\<lambda>oid.
              bindR (add_caps (adv_caps ad) caps) (\<lambda>capabilities.
                Inr \<lparr>adv_refs = (if name \<noteq> lit ''capabilities^{}'' then bt_insert name oid (adv_refs ad)
                                 else adv_refs ad),
                     adv_caps = capabilities\<rparr>))))"

definition adv_step ::
  "hash_algo \<Rightarrow> v1_ref_advertisement \<Rightarrow> frame
     \<Rightarrow> push_error + (v1_ref_advertisement + v1_ref_advertisement)" where
  "adv_step algo ad f =
     (case f of
        Data d \<Rightarrow> bindR (adv_ref_line d algo ad) (\<lambda>ad'. Inr (Inl ad'))
      | _ \<Rightarrow> Inr (Inr ad))"

text \<open>\<^verbatim>\<open>{:?}\<close> of a byte slice.\<close>

definition debug_bytes :: "bytes \<Rightarrow> bytes" where
  "debug_bytes b = lit ''['' @ join_with (lit '', '') (map (\<lambda>x. to_decimal (unat x)) b) @ lit '']''"

definition parse_v1_ref_advertisement :: "bytes \<Rightarrow> hash_algo \<Rightarrow> push_error + (v1_ref_advertisement \<times> bytes)" where
  "parse_v1_ref_advertisement r algo =
     (let ad = \<lparr>adv_refs = [], adv_caps = []\<rparr>
      in bindR (map_err PushPkt (read_frame r)) (\<lambda>(first, r1).
         case first of
           Data d \<Rightarrow>
             (case strip_prefix (lit ''# service='') d of
                Some svc \<Rightarrow>
                  let svc = trim_newline svc
                  in if \<not> utf8 svc then Inl (BadService (debug_bytes svc))
                     else if svc \<noteq> lit ''git-receive-pack'' then Inl (BadService svc)
                     else bindR (map_err PushPkt (read_frame r1)) (\<lambda>(flush, r2).
                          if flush \<noteq> Flush then Inl (BadRefLine (lit ''expected flush after # service=''))
                          else frame_loop PushPkt (adv_step algo) ad r2)
              | None \<Rightarrow>
                  bindR (adv_ref_line d algo ad) (\<lambda>ad'. frame_loop PushPkt (adv_step algo) ad' r1))
         | Flush \<Rightarrow> Inr (ad, r1)
         | _ \<Rightarrow> Inl (BadRefLine (lit ''unexpected non-data frame''))))"

definition adv_line :: "bytes list \<Rightarrow> nat \<times> bytes \<times> object_id \<Rightarrow> bytes" where
  "adv_line caps = (\<lambda>(i, name, oid).
     oid_to_string oid @ 0x20 # name @ (if i = 0 then 0 # join_with [0x20] caps else []) @ [0x0A])"

definition encode_v1_ref_advertisement ::
  "(bytes \<times> object_id) list \<Rightarrow> bytes list \<Rightarrow> hash_algo \<Rightarrow> bytes option" where
  "encode_v1_ref_advertisement refs caps algo =
     write_frames
       ([write_data (lit ''# service=git-receive-pack'' @ [0x0A]), Some write_flush]
        @ (if refs = []
           then [write_data (oid_to_string (zero_oid algo) @ lit '' capabilities^{}'' @ 0
                   # join_with [0x20] caps @ [0x0A])]
           else map (\<lambda>ir. write_data (adv_line caps ir)) (enumerate 0 refs))
        @ [Some write_flush])"

section \<open>Status reports\<close>

definition status_line :: "bytes \<Rightarrow> report_status \<Rightarrow> push_error + report_status" where
  "status_line s rs =
     (case strip_prefix (lit ''unpack '') s of
        Some rest \<Rightarrow> Inr (rs\<lparr>rs_unpack := if rest = lit ''ok'' then Inr () else Inl rest\<rparr>)
      | None \<Rightarrow>
     (case strip_prefix (lit ''ok '') s of
        Some name \<Rightarrow> Inr (rs\<lparr>rs_commands := rs_commands rs @ [CmdOk name]\<rparr>)
      | None \<Rightarrow>
     (case strip_prefix (lit ''ng '') s of
        Some rest \<Rightarrow>
          bindR (ok_or (BadStatusLine s) (split_first 0x20 rest)) (\<lambda>(name, reason).
            Inr (rs\<lparr>rs_commands := rs_commands rs @ [CmdNg name reason]\<rparr>))
      | None \<Rightarrow> Inl (BadStatusLine s))))"

definition report_step :: "report_status \<Rightarrow> frame \<Rightarrow> push_error + (report_status + report_status)" where
  "report_step rs f =
     (case f of
        Flush \<Rightarrow> Inr (Inr rs)
      | ResponseEnd \<Rightarrow> Inr (Inr rs)
      | Delim \<Rightarrow> Inr (Inl rs)
      | Data l \<Rightarrow>
          bindR (line_str BadStatusLine l) (\<lambda>s. bindR (status_line s rs) (\<lambda>rs'. Inr (Inl rs'))))"

definition report_start :: report_status where
  "report_start = \<lparr>rs_unpack = Inl (lit ''(no unpack line)''), rs_commands = []\<rparr>"

definition parse_report_status :: "bytes \<Rightarrow> push_error + (report_status \<times> bytes)" where
  "parse_report_status r = frame_loop PushPkt report_step report_start r"

text \<open>The bands of a report: what band 1 carried, and the payloads given to the progress callback.\<close>

function report_bands ::
  "bytes \<Rightarrow> bytes \<Rightarrow> bytes list \<Rightarrow> (push_error + (bytes \<times> bytes)) \<times> bytes list" where
  "report_bands r band1 progress =
     (case read_frame r of
        Inl e \<Rightarrow> (Inl (PushPkt e), progress)
      | Inr (f, r') \<Rightarrow>
          (case f of
             Flush \<Rightarrow> (Inr (band1, r'), progress)
           | ResponseEnd \<Rightarrow> (Inr (band1, r'), progress)
           | Delim \<Rightarrow> report_bands r' band1 progress
           | Data [] \<Rightarrow> (Inl (BadStatusLine (lit ''empty sideband pkt'')), progress)
           | Data (band # body) \<Rightarrow>
               if band = 1 then report_bands r' (band1 @ body) progress
               else if band = 2 then report_bands r' band1 (progress @ [body])
               else if band = 3 then (Inl (PushServerError (trim (utf8_lossy body))), progress)
               else (Inl (PushBadSideband band), progress)))"
  by pat_completeness auto
termination
  by (relation "measure (\<lambda>(r, band1, progress). length r)") (auto dest!: read_frame_consumes)

declare report_bands.simps [simp del]

definition parse_report_status_sideband ::
  "bytes \<Rightarrow> (push_error + (report_status \<times> bytes)) \<times> bytes list" where
  "parse_report_status_sideband r =
     (case report_bands r [] [] of
        (Inl e, progress) \<Rightarrow> (Inl e, progress)
      | (Inr (band1, r'), progress) \<Rightarrow>
          (bindR (parse_report_status band1) (\<lambda>(rs, _). Inr (rs, r')), progress))"

definition unpack_text :: "bytes + unit \<Rightarrow> bytes" where
  "unpack_text unpack = lit ''unpack '' @ (case unpack of Inr _ \<Rightarrow> lit ''ok'' | Inl reason \<Rightarrow> reason)"

definition status_text :: "command_status \<Rightarrow> bytes" where
  "status_text c =
     (case c of
        CmdOk name \<Rightarrow> lit ''ok '' @ name
      | CmdNg name reason \<Rightarrow> lit ''ng '' @ name @ lit '' '' @ reason)"

definition encode_report_status :: "bytes + unit \<Rightarrow> command_status list \<Rightarrow> bytes option" where
  "encode_report_status unpack commands =
     write_frames
       ([text_line (unpack_text unpack)] @ map (\<lambda>c. text_line (status_text c)) commands
        @ [Some write_flush])"

definition encode_report_status_sideband :: "bytes + unit \<Rightarrow> command_status list \<Rightarrow> bytes option" where
  "encode_report_status_sideband unpack commands =
     (case encode_report_status unpack commands of
        None \<Rightarrow> None
      | Some inner \<Rightarrow>
          write_frames
            (map (\<lambda>chunk. write_data (0x01 # chunk)) (chunks SIDEBAND_CHUNK inner) @ [Some write_flush]))"

section \<open>Commands read back\<close>

definition cap_ok :: "bytes \<Rightarrow> bool" where
  "cap_ok c \<longleftrightarrow> c \<noteq> [] \<and> plain c \<and> ws_free c"

lemma cap_ok_graphic: "c \<noteq> [] \<Longrightarrow> plain c \<Longrightarrow> \<forall>b \<in> set c. 0x21 \<le> b \<and> b \<le> 0x7F \<Longrightarrow> cap_ok c"
  by (simp add: cap_ok_def ws_free_graphic)

definition name_ok :: "bytes \<Rightarrow> bool" where
  "name_ok n \<longleftrightarrow> plain n \<and> 0 \<notin> set n"

definition update_ok :: "hash_algo \<Rightarrow> ref_update \<Rightarrow> bool" where
  "update_ok algo u \<longleftrightarrow>
     name_ok (up_name u) \<and>
     pred_option (\<lambda>oid. oid_ok algo oid \<and> oid \<noteq> zero_oid algo) (up_old u) \<and>
     pred_option (\<lambda>oid. oid_ok algo oid \<and> oid \<noteq> zero_oid algo) (up_new u)"

lemma oid_ok_zero [simp]: "oid_ok algo (zero_oid algo)"
  by (simp add: oid_ok_def zero_oid_def wf_mk_oid)

lemma oid_ok_or_zero:
  "pred_option (\<lambda>oid. oid_ok algo oid \<and> P oid) m \<Longrightarrow> oid_ok algo (or_zero algo m)"
  by (cases m) (simp_all add: or_zero_def)

lemma none_if_or_zero:
  "pred_option (\<lambda>oid. Q oid \<and> oid \<noteq> zero_oid algo) m \<Longrightarrow> none_if_zero algo (or_zero algo m) = m"
  by (cases m) (simp_all add: or_zero_def none_if_zero_def)

lemma push_parse_oid_string [codec_simps]:
  "oid_ok algo oid \<Longrightarrow> push_parse_oid algo head (oid_to_string oid) = Inr oid"
  by (simp add: push_parse_oid_def oid_ok_def oid_hex_round_trip)

lemma trim_newline_capped:
  "plain h \<Longrightarrow> plain c \<Longrightarrow> trim_newline (h @ 0 # c) = h @ 0 # c"
  by (rule trim_newline_id) (auto simp: plain_def dest: last_in_set)

lemma split_caps_line [codec_simps]:
  "plain h \<Longrightarrow> 0 \<notin> set h \<Longrightarrow> split_caps (trim_newline h) = (h, None)"
  by (simp add: split_caps_def trim_newline_plain split_first_eq_None [THEN iffD2])

lemma split_caps_capped [codec_simps]:
  assumes "plain h" "0 \<notin> set h" "plain c"
  shows "split_caps (trim_newline (h @ 0 # c @ [0x0A])) = (h, Some c)"
proof -
  have "trim_newline (h @ 0 # c @ [0x0A]) = h @ 0 # c"
    using trim_newline_snoc [of "h @ 0 # c"] trim_newline_capped [OF assms(1,3)] by simp
  then show ?thesis
    using assms(2) by (simp add: split_caps_def split_first_append)
qed

lemma plain_caps: "list_all cap_ok caps \<Longrightarrow> plain (join_with [0x20] caps)"
  by (rule plain_join) (auto simp: cap_ok_def list_all_iff)

lemma add_caps_join:
  "list_all cap_ok caps \<Longrightarrow> add_caps cs (Some (join_with [0x20] caps)) = Inr (cs @ caps)"
  using plain_utf8 [OF plain_caps [of caps]]
  by (simp add: add_caps_def) (rule split_whitespace_join, auto simp: cap_ok_def list_all_iff)

lemma update_text_ok:
  assumes "update_ok algo u"
  shows "plain (update_text algo u)" "0 \<notin> set (update_text algo u)" "0x0A \<notin> set (update_text algo u)"
proof -
  show "plain (update_text algo u)" "0 \<notin> set (update_text algo u)"
    using assms by (simp_all add: update_ok_def update_text_def name_ok_def oid_string_no_sep)
  then show "0x0A \<notin> set (update_text algo u)"
    by (simp add: plain_def)
qed

lemma push_command_fields:
  assumes u: "update_ok algo u" and caps: "add_caps (ph_caps ph) caps = Inr cs"
    and l: "split_caps (trim_newline l) = (update_text algo u, caps)"
  shows "push_command algo l ph = Inr \<lparr>ph_updates = ph_updates ph @ [u], ph_caps = cs\<rparr>"
proof -
  have "split_first 0x20 (update_text algo u)
      = Some (oid_to_string (or_zero algo (up_old u)), oid_to_string (or_zero algo (up_new u)) @ 0x20 # up_name u)"
    by (simp add: update_text_def split_first_append oid_string_no_sep)
  moreover have "push_parse_oid algo head (oid_to_string (or_zero algo (up_old u))) = Inr (or_zero algo (up_old u))"
    "push_parse_oid algo head (oid_to_string (or_zero algo (up_new u))) = Inr (or_zero algo (up_new u))"
    "none_if_zero algo (or_zero algo (up_old u)) = up_old u" "none_if_zero algo (or_zero algo (up_new u)) = up_new u" for head
    using u by (auto simp: update_ok_def intro!: push_parse_oid_string oid_ok_or_zero none_if_or_zero)
  ultimately show ?thesis
    using plain_utf8 [OF update_text_ok(1) [OF u]]
    by (simp add: push_command_def l caps split_first_append oid_string_no_sep)
qed

lemma push_command_line:
  assumes "update_ok algo u" "list_all cap_ok caps"
  shows "push_command algo (command_line algo caps (i, u)) ph
    = Inr \<lparr>ph_updates = ph_updates ph @ [u], ph_caps = ph_caps ph @ (if i = 0 then caps else [])\<rparr>"
proof (cases "i = 0")
  case True
  with assms show ?thesis
    by (intro push_command_fields [where caps = "Some (join_with [0x20] caps)"])
      (simp_all add: command_line_def add_caps_join split_caps_capped update_text_ok plain_caps)
next
  case False
  with assms show ?thesis
    by (intro push_command_fields [where caps = None])
      (simp_all add: command_line_def add_caps_def split_caps_line update_text_ok)
qed

lemma updates_loop:
  assumes "list_all (update_ok algo) us" "list_all cap_ok caps"
    and "\<forall>iu \<in> set (enumerate n us). frame_ok (Data (command_line algo caps iu))"
  shows "frame_loop PushPkt (push_head_step algo) ph
      (concat (map (\<lambda>iu. frame_bytes (Data (command_line algo caps iu))) (enumerate n us)) @ rest)
    = frame_loop PushPkt (push_head_step algo)
        \<lparr>ph_updates = ph_updates ph @ us, ph_caps = ph_caps ph @ (if n = 0 \<and> us \<noteq> [] then caps else [])\<rparr> rest"
  using assms
proof (induction us arbitrary: n ph)
  case Nil
  then show ?case by (cases ph) simp
next
  case (Cons u us)
  then have "push_head_step algo ph (Data (command_line algo caps (n, u)))
      = Inr (Inl \<lparr>ph_updates = ph_updates ph @ [u], ph_caps = ph_caps ph @ (if n = 0 then caps else [])\<rparr>)"
    by (simp add: push_head_step_def push_command_line)
  with Cons show ?case
    by (simp add: frame_loop_data [where step = "push_head_step algo"] del: frame_ok.simps)
qed

section \<open>Advertisements read back\<close>

lemma adv_ref_line_fields:
  assumes "oid_ok algo oid" "name_ok name" and caps: "add_caps (adv_caps ad) caps = Inr cs"
    and l: "split_caps (trim_newline l) = (oid_to_string oid @ 0x20 # name, caps)"
  shows "adv_ref_line l algo ad = Inr
    \<lparr>adv_refs = (if name \<noteq> lit ''capabilities^{}'' then bt_insert name oid (adv_refs ad) else adv_refs ad),
     adv_caps = cs\<rparr>"
proof -
  have "utf8 (oid_to_string oid @ 0x20 # name)"
    using assms(2) by (intro plain_utf8) (simp add: name_ok_def)
  then show ?thesis
    using assms(1) by (simp add: adv_ref_line_def l caps split_first_append oid_string_no_sep push_parse_oid_string
        del: lit_def)
qed

lemma adv_ref_line_line:
  assumes "oid_ok algo oid" "name_ok name" "list_all cap_ok caps"
  shows "adv_ref_line (adv_line caps (i, name, oid)) algo ad = Inr
    \<lparr>adv_refs = (if name \<noteq> lit ''capabilities^{}'' then bt_insert name oid (adv_refs ad) else adv_refs ad),
     adv_caps = adv_caps ad @ (if i = 0 then caps else [])\<rparr>"
proof -
  let ?h = "oid_to_string oid @ 0x20 # name"
  have h: "plain ?h" "0 \<notin> set ?h"
    using assms(2) by (simp_all add: name_ok_def oid_string_no_sep)
  show ?thesis
  proof (cases "i = 0")
    case True
    with assms show ?thesis
      using split_caps_capped [OF h plain_caps [OF assms(3)]]
      by (intro adv_ref_line_fields [where caps = "Some (join_with [0x20] caps)"])
        (simp_all add: adv_line_def add_caps_join)
  next
    case False
    then have "adv_line caps (i, name, oid) = ?h @ [0x0A]"
      by (simp add: adv_line_def)
    then have "split_caps (trim_newline (adv_line caps (i, name, oid))) = (?h, None)"
      by (simp only: trim_newline_snoc split_caps_line [OF h])
    with assms False show ?thesis
      by (intro adv_ref_line_fields [where caps = None]) (simp_all add: add_caps_def)
  qed
qed

definition ref_ok :: "hash_algo \<Rightarrow> bytes \<times> object_id \<Rightarrow> bool" where
  "ref_ok algo = (\<lambda>(name, oid). oid_ok algo oid \<and> name_ok name \<and> name \<noteq> lit ''capabilities^{}'')"

lemma adv_lines_loop:
  assumes "list_all (ref_ok algo) refs" "list_all cap_ok caps"
    and "\<forall>ir \<in> set (enumerate n refs). frame_ok (Data (adv_line caps ir))"
  shows "frame_loop PushPkt (adv_step algo) ad
      (concat (map (\<lambda>ir. frame_bytes (Data (adv_line caps ir))) (enumerate n refs)) @ rest)
    = frame_loop PushPkt (adv_step algo)
        \<lparr>adv_refs = fold (\<lambda>(k, v). bt_insert k v) refs (adv_refs ad),
         adv_caps = adv_caps ad @ (if n = 0 \<and> refs \<noteq> [] then caps else [])\<rparr> rest"
  using assms
proof (induction refs arbitrary: n ad)
  case Nil
  then show ?case by (cases ad) simp
next
  case (Cons r refs)
  obtain name oid where r: "r = (name, oid)" by fastforce
  have "adv_step algo ad (Data (adv_line caps (n, name, oid)))
      = Inr (Inl \<lparr>adv_refs = bt_insert name oid (adv_refs ad), adv_caps = adv_caps ad @ (if n = 0 then caps else [])\<rparr>)"
    using Cons.prems by (simp add: r adv_step_def adv_ref_line_line ref_ok_def del: lit_def)
  with Cons show ?case
    by (simp add: r frame_loop_data [where step = "adv_step algo"] del: frame_ok.simps)
qed

section \<open>Reports read back\<close>

definition command_status_ok :: "command_status \<Rightarrow> bool" where
  "command_status_ok c =
     (case c of CmdOk name \<Rightarrow> plain name | CmdNg name reason \<Rightarrow> token name \<and> plain reason)"

definition unpack_ok :: "bytes + unit \<Rightarrow> bool" where
  "unpack_ok unpack = (case unpack of Inr _ \<Rightarrow> True | Inl reason \<Rightarrow> plain reason \<and> reason \<noteq> lit ''ok'')"

lemma status_unpack:
  "unpack_ok unpack \<Longrightarrow> status_line (unpack_text unpack) rs = Inr (rs\<lparr>rs_unpack := unpack\<rparr>)"
  by (cases unpack) (simp_all add: status_line_def unpack_text_def unpack_ok_def)

lemma status_command:
  "command_status_ok c \<Longrightarrow>
   status_line (status_text c) rs = Inr (rs\<lparr>rs_commands := rs_commands rs @ [c]\<rparr>)"
  by (cases c) (simp_all add: status_line_def status_text_def command_status_ok_def split_first_append token_no_space)

lemma report_texts_plain:
  "unpack_ok unpack \<Longrightarrow> plain (unpack_text unpack)" "command_status_ok c \<Longrightarrow> plain (status_text c)"
  by (cases unpack; cases c; simp add: unpack_text_def status_text_def unpack_ok_def command_status_ok_def)+

lemma report_step_line:
  assumes "plain t" "status_line t rs = Inr rs'"
  shows "report_step rs (Data (t @ [0x0A])) = Inr (Inl rs')"
  using assms by (simp add: report_step_def line_str_plain)

lemma commands_report_loop:
  "list_all command_status_ok cs \<Longrightarrow> \<forall>c \<in> set cs. frame_ok (Data (status_text c @ [0x0A])) \<Longrightarrow>
   frame_loop PushPkt report_step rs
     (concat (map (\<lambda>c. frame_bytes (Data (status_text c @ [0x0A]))) cs) @ rest)
   = frame_loop PushPkt report_step (rs\<lparr>rs_commands := rs_commands rs @ cs\<rparr>) rest"
proof (induction cs arbitrary: rs)
  case Nil
  then show ?case by (cases rs) simp
next
  case (Cons c cs)
  then show ?case
    by (simp add: frame_loop_data [where step = report_step, OF _ report_step_line [OF report_texts_plain(2) status_command]]
        del: frame_ok.simps)
qed

lemma report_status_parse:
  assumes ok: "unpack_ok unpack" "list_all command_status_ok cs" and out: "encode_report_status unpack cs = Some out"
  shows "parse_report_status (out @ rest) = Inr (\<lparr>rs_unpack = unpack, rs_commands = cs\<rparr>, rest)"
proof -
  from out have frames: "out = frame_bytes (Data (unpack_text unpack @ [0x0A]))
      @ concat (map (\<lambda>c. frame_bytes (Data (status_text c @ [0x0A]))) cs) @ write_flush"
    and fits: "frame_ok (Data (unpack_text unpack @ [0x0A]))"
      "\<forall>c \<in> set cs. frame_ok (Data (status_text c @ [0x0A]))"
    by (auto simp: encode_report_status_def text_line_def write_frames_out simp del: frame_ok.simps)
  have "report_step report_start (Data (unpack_text unpack @ [0x0A])) = Inr (Inl (report_start\<lparr>rs_unpack := unpack\<rparr>))"
    by (rule report_step_line [OF report_texts_plain(1) [OF ok(1)] status_unpack [OF ok(1)]])
  then show ?thesis
    unfolding parse_report_status_def frames append_assoc
    by (simp add: frame_loop_data [where step = report_step, OF fits(1)] commands_report_loop [OF ok(2) fits(2)]
        frame_loop_special report_step_def report_start_def)
qed

lemma report_band1:
  assumes "length body \<le> 65515"
  shows "report_bands (frame_bytes (Data (0x01 # body)) @ rest) band1 progress
    = report_bands rest (band1 @ body) progress"
proof -
  have "frame_ok (Data (0x01 # body))"
    using assms by (simp add: MAX_LINE_LEN_def)
  then show ?thesis
    by (subst report_bands.simps) (simp add: read_frame_bytes del: frame_bytes.simps)
qed

lemma report_bands_chunks:
  "\<forall>c \<in> set cs. length c \<le> 65515 \<Longrightarrow>
   report_bands (concat (map (\<lambda>c. frame_bytes (Data (0x01 # c))) cs) @ write_flush @ rest) band1 progress
     = (Inr (band1 @ concat cs, rest), progress)"
proof (induction cs arbitrary: band1)
  case Nil
  then show ?case
    unfolding special_frame_bytes
    by (subst report_bands.simps) (simp add: read_frame_bytes del: frame_bytes.simps)
next
  case (Cons c cs)
  then show ?case by (simp add: report_band1 del: frame_bytes.simps)
qed

lemma report_sideband_parse:
  assumes ok: "unpack_ok unpack" "list_all command_status_ok cs" and out: "encode_report_status unpack cs = Some inner"
  shows "\<exists>out. encode_report_status_sideband unpack cs = Some out \<and>
    parse_report_status_sideband (out @ rest) = (Inr (\<lparr>rs_unpack = unpack, rs_commands = cs\<rparr>, rest), [])"
proof -
  let ?cs = "chunks SIDEBAND_CHUNK inner"
  have parts: "concat ?cs = inner" "\<forall>c \<in> set ?cs. length c \<le> 65515"
    using chunks_parts [of SIDEBAND_CHUNK inner] by (simp_all add: SIDEBAND_CHUNK_def MAX_LINE_LEN_def)
  have fits: "\<forall>c \<in> set ?cs. frame_ok (Data (0x01 # c))"
    using parts(2) by (simp add: MAX_LINE_LEN_def)
  then have "encode_report_status_sideband unpack cs
      = Some (concat (map (\<lambda>c. frame_bytes (Data (0x01 # c))) ?cs) @ write_flush)"
    unfolding encode_report_status_sideband_def out option.case
    by (simp add: write_frames_out del: frame_ok.simps frame_bytes.simps)
  then show ?thesis
    using report_status_parse [OF ok out, of "[]"]
    by (simp add: parse_report_status_sideband_def report_bands_chunks [OF parts(2)] parts(1))
qed

section \<open>What a push signature covers\<close>

text \<open>The lines of the payload, without their line ends.\<close>

definition signed_lines :: "hash_algo \<Rightarrow> ref_update list \<Rightarrow> bytes option \<Rightarrow> bytes list" where
  "signed_lines algo updates nonce =
     (case nonce of None \<Rightarrow> [] | Some n \<Rightarrow> [lit ''nonce '' @ n])
     @ map butlast (sort (map (\<lambda>u. update_text algo u @ [0x0A]) updates))"

lemma concat_lines_inj:
  assumes "\<forall>t \<in> set ts. b \<notin> set t" "\<forall>t \<in> set ts'. b \<notin> set t"
    and eq: "concat (map (\<lambda>t. t @ [b]) ts) = concat (map (\<lambda>t. t @ [b]) ts')"
  shows "ts = ts'"
proof -
  have split: "\<forall>t \<in> set xs. b \<notin> set t \<Longrightarrow> split_on b (concat (map (\<lambda>t. t @ [b]) xs)) = xs @ [[]]" for xs
    by (induction xs) (simp_all add: split_on_append)
  show ?thesis
    using arg_cong [where f = "split_on b", OF eq] split [OF assms(1)] split [OF assms(2)] by simp
qed

lemma sorted_lines_map:
  "map (\<lambda>t. t @ [0x0A]) (map butlast (sort (map (\<lambda>u. update_text algo u @ [0x0A]) us)))
     = sort (map (\<lambda>u. update_text algo u @ [0x0A]) us)"
  by (simp add: map_idI o_def) (rule map_idI, auto)

lemma payload_lines:
  "canonical_push_payload_with_nonce us nonce algo = concat (map (\<lambda>t. t @ [0x0A]) (signed_lines algo us nonce))"
  by (cases nonce)
    (simp_all add: canonical_push_payload_with_nonce_def signed_lines_def sorted_lines_map del: map_map)

lemma oid_text_inj:
  "oid_ok algo x \<Longrightarrow> oid_ok algo y \<Longrightarrow> oid_to_string x = oid_to_string y \<Longrightarrow> x = y"
  by (metis oid_hex_round_trip oid_ok_def sum.inject(2))

lemma or_zero_ok:
  assumes "update_ok algo u"
  shows "oid_ok algo (or_zero algo (up_old u))" "oid_ok algo (or_zero algo (up_new u))"
    "none_if_zero algo (or_zero algo (up_old u)) = up_old u" "none_if_zero algo (or_zero algo (up_new u)) = up_new u"
  using assms by (auto simp: update_ok_def intro!: oid_ok_or_zero none_if_or_zero)

lemma update_text_inj:
  assumes u: "update_ok algo u" and v: "update_ok algo v" and eq: "update_text algo u = update_text algo v"
  shows "u = v"
proof -
  have "split_first 0x20 (update_text algo w) = Some (oid_to_string (or_zero algo (up_old w)),
      oid_to_string (or_zero algo (up_new w)) @ 0x20 # up_name w)"
    "split_first 0x20 (oid_to_string (or_zero algo (up_new w)) @ 0x20 # up_name w)
      = Some (oid_to_string (or_zero algo (up_new w)), up_name w)" for w
    by (simp_all add: update_text_def split_first_append oid_string_no_sep)
  note first = this
  have "Some (oid_to_string (or_zero algo (up_old u)), oid_to_string (or_zero algo (up_new u)) @ 0x20 # up_name u)
      = Some (oid_to_string (or_zero algo (up_old v)), oid_to_string (or_zero algo (up_new v)) @ 0x20 # up_name v)"
    unfolding first(1) [symmetric] eq ..
  moreover from this have "Some (oid_to_string (or_zero algo (up_new u)), up_name u)
      = Some (oid_to_string (or_zero algo (up_new v)), up_name v)"
    unfolding first(2) [symmetric] by simp
  ultimately have texts: "oid_to_string (or_zero algo (up_old u)) = oid_to_string (or_zero algo (up_old v))"
    "oid_to_string (or_zero algo (up_new u)) = oid_to_string (or_zero algo (up_new v))" "up_name u = up_name v"
    by simp_all
  have "or_zero algo (up_old u) = or_zero algo (up_old v)" "or_zero algo (up_new u) = or_zero algo (up_new v)"
    using oid_text_inj [OF or_zero_ok(1) [OF u] or_zero_ok(1) [OF v] texts(1)]
      oid_text_inj [OF or_zero_ok(2) [OF u] or_zero_ok(2) [OF v] texts(2)] by blast+
  then have "up_old u = up_old v" "up_new u = up_new v"
    using or_zero_ok(3,4) [OF u] or_zero_ok(3,4) [OF v] by metis+
  with texts show ?thesis by simp
qed

lemma signed_lines_no_newline:
  assumes "list_all (update_ok algo) us" "pred_option (\<lambda>n. 0x0A \<notin> set n) nonce"
  shows "\<forall>t \<in> set (signed_lines algo us nonce). 0x0A \<notin> set t"
  using assms update_text_ok(3) by (cases nonce) (auto simp: signed_lines_def list_all_iff)

lemma update_line_not_nonce: "u \<in> set us \<Longrightarrow> list_all (update_ok algo) us \<Longrightarrow> update_text algo u \<noteq> lit ''nonce '' @ n"
proof
  assume u: "u \<in> set us" "list_all (update_ok algo) us" and "update_text algo u = lit ''nonce '' @ n"
  then have "split_first 0x20 (update_text algo u) = Some (lit ''nonce'', n)" by simp
  then have "oid_to_string (or_zero algo (up_old u)) = lit ''nonce''"
    by (simp add: update_text_def split_first_append oid_string_no_sep del: lit_def)
  then have "length (oid_to_string (or_zero algo (up_old u))) = 5" by simp
  moreover have "oid_ok algo (or_zero algo (up_old u))"
    using u by (auto simp: list_all_iff intro: or_zero_ok)
  ultimately show False
    by (cases algo) (simp_all add: oid_to_string_def oid_ok_def wf_oid_def)
qed

lemma signed_lines_updates:
  "mset (map butlast (sort (map (\<lambda>u. update_text algo u @ [0x0A]) us))) = image_mset (update_text algo) (mset us)"
  by (simp add: image_mset.compositionality comp_def)

lemma texts_inj:
  assumes "list_all (update_ok algo) us" "list_all (update_ok algo) vs"
    and eq: "image_mset (update_text algo) (mset us) = image_mset (update_text algo) (mset vs)"
  shows "mset us = mset vs"
proof -
  have "inj_on (update_text algo) (set_mset (mset us) \<union> set_mset (mset vs))"
    using assms(1,2) by (auto simp: list_all_iff intro!: inj_onI update_text_inj)
  from image_mset_eq_image_mset_plusD [OF _ this, of "{#}"] eq show ?thesis by auto
qed

lemma payload_determines:
  assumes us: "list_all (update_ok algo) us" "pred_option (\<lambda>n. 0x0A \<notin> set n) nonce"
    and vs: "list_all (update_ok algo) vs" "pred_option (\<lambda>n. 0x0A \<notin> set n) nonce'"
    and eq: "canonical_push_payload_with_nonce us nonce algo = canonical_push_payload_with_nonce vs nonce' algo"
  shows "mset us = mset vs \<and> nonce = nonce'"
proof -
  let ?T = "\<lambda>us. map butlast (sort (map (\<lambda>u. update_text algo u @ [0x0A]) us))"
  have lines: "signed_lines algo us nonce = signed_lines algo vs nonce'"
    using concat_lines_inj [OF signed_lines_no_newline [OF us] signed_lines_no_newline [OF vs]] eq
    unfolding payload_lines by blast
  have no_nonce: "lit ''nonce '' @ n \<notin> set (?T ws)" if "list_all (update_ok algo) ws" for ws n
    using update_line_not_nonce [OF _ that] by (auto simp del: lit_def) metis
  have same: "nonce = nonce'"
    using lines no_nonce [OF us(1)] no_nonce [OF vs(1)]
  proof -
    have mem: "lit ''nonce '' @ n \<in> set (signed_lines algo ws (Some n))" for n ws
      by (simp add: signed_lines_def)
    show ?thesis
      using lines no_nonce [OF us(1)] no_nonce [OF vs(1)] mem [of _ us] mem [of _ vs]
      by (cases nonce; cases nonce') (auto simp: signed_lines_def simp del: lit_def set_map set_sort)
  qed
  with lines have "?T us = ?T vs"
    by (simp add: signed_lines_def)
  then have "mset us = mset vs"
    using texts_inj [OF us(1) vs(1)] signed_lines_updates by metis
  with same show ?thesis by blast
qed

section \<open>Properties\<close>

text \<open>The server reads a push request back as the client sent it: the updates in order, creations
  and deletions included, the capabilities, and the pack byte for byte.\<close>

theorem push_request_round_trip:
  assumes "list_all (update_ok algo) us" and "list_all cap_ok caps" and "us \<noteq> []"
    and "encode_push_request us caps algo pack = Some out"
  shows "parse_push_request out algo = Inr \<lparr>pr_updates = us, pr_caps = caps, pr_pack = pack\<rparr>"
proof -
  from assms(4) have frames: "out = concat (map (\<lambda>iu. frame_bytes (Data (command_line algo caps iu))) (enumerate 0 us))
      @ write_flush @ pack"
    and fits: "\<forall>iu \<in> set (enumerate 0 us). frame_ok (Data (command_line algo caps iu))"
    by (auto simp: encode_push_request_def write_frames_out split: if_splits simp del: frame_ok.simps)
  show ?thesis
    using assms(3) unfolding parse_push_request_def parse_push_request_head_def frames
    by (simp add: updates_loop [OF assms(1,2) fits] frame_loop_special push_head_step_def)
qed

definition sample_updates :: "ref_update list" where
  "sample_updates =
     [\<lparr>up_old = None, up_new = Some (OidSha1 (replicate 20 7)), up_name = lit ''refs/heads/a b''\<rparr>,
      \<lparr>up_old = Some (OidSha1 (replicate 20 3)), up_new = None, up_name = lit ''refs/tags/v1''\<rparr>]"

lemma sample_updates_ok: "list_all (update_ok Sha1) sample_updates"
proof -
  have "OidSha1 (replicate 20 b) \<noteq> zero_oid Sha1" if "b \<noteq> 0" for b
    using that by (simp add: zero_oid_def replicate_eq_replicate)
  then show ?thesis
    by (simp add: sample_updates_def update_ok_def name_ok_def oid_ok_def wf_oid_def)
qed

lemma length_zero_oid_text: "length (oid_to_string (zero_oid Sha1)) = 40"
  by (simp add: zero_oid_def oid_to_string_def)

theorem push_request_round_trip_witness:
  "\<exists>out. encode_push_request sample_updates [lit ''report-status'', lit ''ofs-delta''] Sha1 (lit ''PACK'') = Some out \<and>
     parse_push_request out Sha1 = Inr \<lparr>pr_updates = sample_updates,
       pr_caps = [lit ''report-status'', lit ''ofs-delta''], pr_pack = lit ''PACK''\<rparr>"
proof -
  let ?caps = "[lit ''report-status'', lit ''ofs-delta'']"
  have caps: "list_all cap_ok ?caps"
    by (simp add: cap_ok_graphic)
  have "\<exists>out. encode_push_request sample_updates ?caps Sha1 (lit ''PACK'') = Some out"
    by (simp add: encode_push_request_def sample_updates_def command_line_def update_text_def or_zero_def
        write_data_def MAX_LINE_LEN_def length_sample_oid length_zero_oid_text)
  then show ?thesis
    using push_request_round_trip [OF sample_updates_ok caps] by (auto simp: sample_updates_def)
qed

text \<open>The client reads a ref advertisement back as the server's refs and capabilities, and an
  empty repository's as no refs with the capabilities all the same.\<close>

theorem ref_advertisement_round_trip:
  assumes "list_all (ref_ok algo) refs" and "list_all cap_ok caps"
    and "encode_v1_ref_advertisement refs caps algo = Some out"
  shows "parse_v1_ref_advertisement (out @ rest) algo
    = Inr (\<lparr>adv_refs = bt_of_list refs, adv_caps = caps\<rparr>, rest)"
proof -
  let ?ad = "\<lparr>adv_refs = [], adv_caps = []\<rparr> :: v1_ref_advertisement"
  let ?svc = "lit ''# service=git-receive-pack'' @ [0x0A]"
  have svc: "frame_ok (Data ?svc)" by (simp add: MAX_LINE_LEN_def)
  have svc_name: "strip_prefix (lit ''# service='') ?svc = Some (lit ''git-receive-pack'' @ [0x0A])"
    "trim_newline (lit ''git-receive-pack'' @ [0x0A]) = lit ''git-receive-pack''" "utf8 (lit ''git-receive-pack'')"
    by (simp, rule trans [OF trim_newline_snoc trim_newline_plain], simp, rule plain_utf8, simp)
  have start: "parse_v1_ref_advertisement (frame_bytes (Data ?svc) @ write_flush @ body) algo
      = frame_loop PushPkt (adv_step algo) ?ad body" for body
    unfolding parse_v1_ref_advertisement_def special_frame_bytes
    by (simp only: read_frame_bytes [OF svc] read_frame_bytes frame_ok.simps map_err_simps bindR_simps Let_def
        case_prod_conv frame.case svc_name option.case) simp
  show ?thesis
  proof (cases "refs = []")
    case True
    let ?l = "adv_line caps (0, lit ''capabilities^{}'', zero_oid algo)"
    from assms(3) True have out: "out = frame_bytes (Data ?svc) @ write_flush @ frame_bytes (Data ?l) @ write_flush"
      and l: "frame_ok (Data ?l)"
      by (auto simp: encode_v1_ref_advertisement_def write_frames_out adv_line_def simp del: frame_ok.simps)
    have step: "adv_step algo ?ad (Data ?l) = Inr (Inl \<lparr>adv_refs = [], adv_caps = caps\<rparr>)"
      using assms(2) by (simp add: adv_step_def adv_ref_line_line name_ok_def)
    show ?thesis
      unfolding out append_assoc start frame_loop_data [where step = "adv_step algo", OF l step]
      by (simp add: True bt_of_list_def frame_loop_special adv_step_def)
  next
    case False
    from assms(3) False have out: "out = frame_bytes (Data ?svc) @ write_flush
        @ concat (map (\<lambda>ir. frame_bytes (Data (adv_line caps ir))) (enumerate 0 refs)) @ write_flush"
      and fits: "\<forall>ir \<in> set (enumerate 0 refs). frame_ok (Data (adv_line caps ir))"
      by (auto simp: encode_v1_ref_advertisement_def write_frames_out simp del: frame_ok.simps)
    show ?thesis
      unfolding out append_assoc start adv_lines_loop [OF assms(1,2) fits]
      by (simp add: False bt_of_list_def frame_loop_special adv_step_def)
  qed
qed

theorem ref_advertisement_round_trip_witness:
  "\<exists>out. encode_v1_ref_advertisement [(lit ''refs/heads/main'', OidSha1 (replicate 20 7))] [lit ''report-status''] Sha1
       = Some out \<and>
     parse_v1_ref_advertisement (out @ []) Sha1
       = Inr (\<lparr>adv_refs = bt_of_list [(lit ''refs/heads/main'', OidSha1 (replicate 20 7))],
               adv_caps = [lit ''report-status'']\<rparr>, [])"
proof -
  let ?refs = "[(lit ''refs/heads/main'', OidSha1 (replicate 20 7))]"
  have "list_all (ref_ok Sha1) ?refs" "list_all cap_ok [lit ''report-status'']"
    by (simp_all add: ref_ok_def name_ok_def oid_ok_def wf_oid_def cap_ok_graphic)
  moreover have "\<exists>out. encode_v1_ref_advertisement ?refs [lit ''report-status''] Sha1 = Some out"
    by (simp add: encode_v1_ref_advertisement_def adv_line_def write_data_def MAX_LINE_LEN_def length_sample_oid)
  ultimately show ?thesis using ref_advertisement_round_trip by blast
qed

text \<open>A status report is read back as written, plainly and through the sideband, whatever its
  length: the sideband writer's chunks do not disturb the lines, and no progress is reported.\<close>

theorem report_status_round_trip:
  assumes "unpack_ok unpack" and "list_all command_status_ok cs"
    and "encode_report_status unpack cs = Some out"
  shows "parse_report_status (out @ rest) = Inr (\<lparr>rs_unpack = unpack, rs_commands = cs\<rparr>, rest) \<and>
    (\<exists>banded. encode_report_status_sideband unpack cs = Some banded \<and>
      parse_report_status_sideband (banded @ rest) = (Inr (\<lparr>rs_unpack = unpack, rs_commands = cs\<rparr>, rest), []))"
  using report_status_parse [OF assms] report_sideband_parse [OF assms] by blast

theorem report_status_round_trip_witness:
  "\<exists>out. encode_report_status (Inr ()) [CmdOk (lit ''refs/heads/a''), CmdNg (lit ''refs/heads/b'') (lit ''not a fast-forward'')]
       = Some out \<and>
     parse_report_status (out @ []) = Inr (\<lparr>rs_unpack = Inr (),
       rs_commands = [CmdOk (lit ''refs/heads/a''), CmdNg (lit ''refs/heads/b'') (lit ''not a fast-forward'')]\<rparr>, [])"
proof -
  let ?cs = "[CmdOk (lit ''refs/heads/a''), CmdNg (lit ''refs/heads/b'') (lit ''not a fast-forward'')]"
  have "unpack_ok (Inr ())" "list_all command_status_ok ?cs"
    by (simp_all add: unpack_ok_def command_status_ok_def)
  moreover have "\<exists>out. encode_report_status (Inr ()) ?cs = Some out"
    by (simp add: encode_report_status_def text_line_def unpack_text_def status_text_def write_data_def MAX_LINE_LEN_def)
  ultimately show ?thesis using report_status_round_trip by blast
qed

text \<open>C38. The bytes a push signature covers depend on the set of updates and the nonce and on nothing
  else: two well-formed pushes have the same payload exactly when they make the same updates, in
  whatever order, under the same nonce; a payload signed with a nonce is never one without.\<close>

theorem push_payload_binds:
  assumes "list_all (update_ok algo) us" and "list_all (update_ok algo) vs"
    and "pred_option (\<lambda>n. 0x0A \<notin> set n) nonce" and "pred_option (\<lambda>n. 0x0A \<notin> set n) nonce'"
  shows "canonical_push_payload_with_nonce us nonce algo = canonical_push_payload_with_nonce vs nonce' algo
    \<longleftrightarrow> mset us = mset vs \<and> nonce = nonce'"
proof
  assume "canonical_push_payload_with_nonce us nonce algo = canonical_push_payload_with_nonce vs nonce' algo"
  then show "mset us = mset vs \<and> nonce = nonce'"
    using payload_determines assms by blast
next
  assume same: "mset us = mset vs \<and> nonce = nonce'"
  have "mset (map (\<lambda>u. update_text algo u @ [0x0A]) us) = mset (map (\<lambda>u. update_text algo u @ [0x0A]) vs)"
    using same by simp
  then have "sort (map (\<lambda>u. update_text algo u @ [0x0A]) us) = sort (map (\<lambda>u. update_text algo u @ [0x0A]) vs)"
    by (intro properties_for_sort) simp_all
  with same show "canonical_push_payload_with_nonce us nonce algo = canonical_push_payload_with_nonce vs nonce' algo"
    by (simp add: canonical_push_payload_with_nonce_def)
qed

theorem push_payload_binds_witness:
  "canonical_push_payload_with_nonce sample_updates (Some (lit ''5f'')) Sha1
     = canonical_push_payload_with_nonce (rev sample_updates) (Some (lit ''5f'')) Sha1 \<and>
   canonical_push_payload_with_nonce sample_updates (Some (lit ''5f'')) Sha1
     \<noteq> canonical_push_payload_with_nonce sample_updates None Sha1"
  using sample_updates_ok push_payload_binds [of Sha1 sample_updates "rev sample_updates" "Some (lit ''5f'')" "Some (lit ''5f'')"]
    push_payload_binds [of Sha1 sample_updates sample_updates "Some (lit ''5f'')" None]
  by simp

end
