(* ===== verification/Op_Log.thy ===== *)
theory Op_Log
  imports Rust_Str
begin

text \<open>
  \<^verbatim>\<open>alt-oplog/src/lib.rs\<close>: the append-only operation log, a hash chain of records in one file
  that several processes share.  A process holds an \<open>op_log\<close>, its replayed copy; the files
  are a \<open>log_disk\<close>.  BLAKE3 is the parameter \<open>h\<close>.  The operations that hold the file lock are
  single steps on the disk; where the code drops the lock in between, what other processes do
  meanwhile is an argument.  I/O errors are left out.
\<close>

section \<open>Records\<close>

datatype op_log_error = LogFormat string | LogTooLarge nat

definition MAGIC :: bytes where "MAGIC = lit ''ALTL''"
definition VERSION :: u8 where "VERSION = 1"
definition HEADER_LEN :: nat where "HEADER_LEN = 5"
definition BODY_FIXED_LEN :: nat where "BODY_FIXED_LEN = 78"
definition CHECKSUM_LEN :: nat where "CHECKSUM_LEN = 8"

text \<open>An \<^verbatim>\<open>OpId\<close> is 32 bytes.\<close>

type_synonym op_id = bytes

definition ROOT :: op_id where "ROOT = replicate 32 0"

definition file_header :: bytes where "file_header = MAGIC @ [VERSION]"

record op_entry =
  op_id :: op_id
  op_parent :: op_id
  op_change_id :: bytes
  op_timestamp_ms :: u64
  op_actor :: bytes
  op_payload :: bytes

definition encode_body :: "op_id \<Rightarrow> u64 \<Rightarrow> bytes \<Rightarrow> bytes \<Rightarrow> bytes" where
  "encode_body parent timestamp_ms actor payload =
     parent @ replicate 32 0 @ le_bytes 8 timestamp_ms
     @ le_bytes 2 (of_nat (length actor) :: u16) @ actor
     @ le_bytes 4 (of_nat (length payload) :: u32) @ payload"

definition parse_body :: "(bytes \<Rightarrow> bytes) \<Rightarrow> bytes \<Rightarrow> op_log_error + op_entry" where
  "parse_body h body =
     (if length body < BODY_FIXED_LEN then Inl (LogFormat ''op body too short'')
      else
        let parent = take 32 body;
            change_id = take 32 (drop 32 body);
            timestamp_ms = from_le (take 8 (drop 64 body)) :: u64;
            actor_len = unat (from_le (take 2 (drop 72 body)) :: u16);
            rest = drop 74 body
        in if length rest < actor_len + 4 then Inl (LogFormat ''op actor length mismatch'')
           else if \<not> utf8 (take actor_len rest) then Inl (LogFormat ''op actor is not utf-8'')
           else
             let payload_len = unat (from_le (take 4 (drop actor_len rest)) :: u32);
                 payload = drop (actor_len + 4) rest
             in if length payload \<noteq> payload_len then Inl (LogFormat ''op payload length mismatch'')
                else Inr \<lparr>op_id = h body, op_parent = parent, op_change_id = change_id,
                          op_timestamp_ms = timestamp_ms, op_actor = take actor_len rest,
                          op_payload = payload\<rparr>)"

text \<open>\<^verbatim>\<open>by_id\<close>, from an id to its position in the chain.\<close>

type_synonym op_index = "op_id \<Rightarrow> u32 option"

text \<open>
  \<^verbatim>\<open>replay_records\<close> from the front of \<open>data\<close>: the number of bytes of whole records or the
  error, and the ops and index as far as they were extended, on an error too.
\<close>

function replay_records ::
  "(bytes \<Rightarrow> bytes) \<Rightarrow> bytes \<Rightarrow> nat \<Rightarrow> op_id \<Rightarrow> op_entry list \<Rightarrow> op_index
     \<Rightarrow> (op_log_error + nat) \<times> op_entry list \<times> op_index" where
  "replay_records h data valid prev_head ops by_id =
     (case take_n 4 data of
        None \<Rightarrow> (Inr valid, ops, by_id)
      | Some (len_bytes, r) \<Rightarrow>
          let body_len = unat (from_le len_bytes :: u32)
          in case take_n (body_len + CHECKSUM_LEN) r of
               None \<Rightarrow> (Inr valid, ops, by_id)
             | Some (rec, r') \<Rightarrow>
                 let body = take body_len rec; check = drop body_len rec
                 in if take CHECKSUM_LEN (h body) \<noteq> check then
                      (if r' = [] then (Inr valid, ops, by_id)
                       else (Inl (LogFormat ''oplog record corrupt''), ops, by_id))
                    else
                      case parse_body h body of
                        Inl e \<Rightarrow> (Inl e, ops, by_id)
                      | Inr entry \<Rightarrow>
                          if op_parent entry \<noteq> prev_head then (Inl (LogFormat ''oplog chain broken''), ops, by_id)
                          else replay_records h r' (valid + 4 + body_len + CHECKSUM_LEN) (op_id entry)
                                 (ops @ [entry]) (by_id(op_id entry \<mapsto> of_nat (length ops))))"
  by pat_completeness auto
termination
  by (relation "measure (\<lambda>(h, data, _). length data)") (auto simp: take_n_eq_Some)

declare replay_records.simps [simp del]

section \<open>Opening\<close>

record scanned =
  sc_ops :: "op_entry list"
  sc_by_id :: op_index
  sc_valid_len :: nat
  sc_file_len :: nat

definition needs_repair :: "scanned \<Rightarrow> bool" where
  "needs_repair sc \<longleftrightarrow> sc_valid_len sc < HEADER_LEN \<or> sc_valid_len sc < sc_file_len sc"

definition scan :: "(bytes \<Rightarrow> bytes) \<Rightarrow> bytes \<Rightarrow> op_log_error + scanned" where
  "scan h data =
     (if length data < HEADER_LEN \<and> strip_prefix data file_header = None
      then Inl (LogFormat ''bad oplog header'')
      else if \<not> length data < HEADER_LEN \<and> take 4 data \<noteq> MAGIC then Inl (LogFormat ''bad oplog header'')
      else if \<not> length data < HEADER_LEN \<and> data ! 4 \<noteq> VERSION
      then Inl (LogFormat ''unsupported oplog version'')
      else
        let start = min HEADER_LEN (length data);
            (res, ops, by_id) = replay_records h (drop start data) start ROOT [] (\<lambda>_. None)
        in bindR res (\<lambda>valid_len.
             Inr \<lparr>sc_ops = ops, sc_by_id = by_id, sc_valid_len = valid_len, sc_file_len = length data\<rparr>))"

text \<open>
  The files: \<open>dk_log\<close> is the log, of which the first \<open>dk_synced\<close> bytes have survived an fsync
  since they were last written, and \<open>dk_marker\<close> the contents of the marker file.
\<close>

record log_disk =
  dk_log :: bytes
  dk_synced :: nat
  dk_marker :: bytes

definition read_durable :: "log_disk \<Rightarrow> nat" where
  "read_durable d = (if 8 \<le> length (dk_marker d) then unat (from_le (take 8 (dk_marker d)) :: u64) else 0)"

definition write_durable :: "nat \<Rightarrow> log_disk \<Rightarrow> log_disk" where
  "write_durable n d = d\<lparr>dk_marker := le_bytes 8 (of_nat n :: u64)\<rparr>"

text \<open>\<^verbatim>\<open>set_len\<close>, \<^verbatim>\<open>sync_all\<close>, and \<^verbatim>\<open>write_all\<close> after a \<^verbatim>\<open>seek\<close>.\<close>

definition set_len :: "nat \<Rightarrow> log_disk \<Rightarrow> log_disk" where
  "set_len n d = d\<lparr>dk_log := take n (dk_log d) @ replicate (n - length (dk_log d)) 0,
                   dk_synced := min n (dk_synced d)\<rparr>"

definition sync_all :: "log_disk \<Rightarrow> log_disk" where
  "sync_all d = d\<lparr>dk_synced := length (dk_log d)\<rparr>"

definition write_at :: "nat \<Rightarrow> bytes \<Rightarrow> log_disk \<Rightarrow> log_disk" where
  "write_at pos b d =
     d\<lparr>dk_log := take pos (dk_log d) @ replicate (pos - length (dk_log d)) 0 @ b
                 @ drop (pos + length b) (dk_log d),
       dk_synced := min pos (dk_synced d)\<rparr>"

definition scan_and_repair ::
  "(bytes \<Rightarrow> bytes) \<Rightarrow> log_disk \<Rightarrow> (op_log_error + scanned) \<times> log_disk" where
  "scan_and_repair h d =
     (case scan h (dk_log d) of
        Inl e \<Rightarrow> (Inl e, d)
      | Inr sc \<Rightarrow>
          if sc_valid_len sc < HEADER_LEN then
            (Inr (sc\<lparr>sc_valid_len := HEADER_LEN, sc_file_len := HEADER_LEN\<rparr>),
             sync_all (write_at 0 file_header (set_len 0 d)))
          else if sc_valid_len sc < sc_file_len sc then
            (Inr (sc\<lparr>sc_file_len := sc_valid_len sc\<rparr>), sync_all (set_len (sc_valid_len sc) d))
          else (Inr (sc\<lparr>sc_file_len := sc_valid_len sc\<rparr>), d))"

record op_log =
  log_ops :: "op_entry list"
  log_by_id :: op_index
  log_len_bytes :: nat
  log_defer :: bool
  log_write_count :: u64

definition log_of_scan :: "scanned \<Rightarrow> op_log" where
  "log_of_scan sc =
     \<lparr>log_ops = sc_ops sc, log_by_id = sc_by_id sc, log_len_bytes = sc_valid_len sc, log_defer = False,
      log_write_count = 0\<rparr>"

text \<open>
  \<^verbatim>\<open>OpLog::open\<close>; \<open>meanwhile\<close> is what others do to the files between the shared lock that
  the file was read under and the exclusive one that it is repaired under.
\<close>

definition log_open ::
  "(bytes \<Rightarrow> bytes) \<Rightarrow> (log_disk \<Rightarrow> log_disk) \<Rightarrow> log_disk \<Rightarrow> (op_log_error + op_log) \<times> log_disk" where
  "log_open h meanwhile d =
     (case scan h (dk_log d) of
        Inl e \<Rightarrow> (Inl e, d)
      | Inr sc \<Rightarrow>
          if needs_repair sc then
            (let (r, d') = scan_and_repair h (meanwhile d) in (bindR r (\<lambda>sc'. Inr (log_of_scan sc')), d'))
          else (Inr (log_of_scan sc), d))"

section \<open>Appending\<close>

definition log_head :: "op_log \<Rightarrow> op_id option" where
  "log_head log = (if log_ops log = [] then None else Some (op_id (last (log_ops log))))"

definition head_or_root :: "op_log \<Rightarrow> op_id" where
  "head_or_root log = (case log_head log of None \<Rightarrow> ROOT | Some i \<Rightarrow> i)"

definition catch_up ::
  "(bytes \<Rightarrow> bytes) \<Rightarrow> op_log \<Rightarrow> log_disk \<Rightarrow> (op_log_error + unit) \<times> op_log \<times> log_disk" where
  "catch_up h log d =
     (if length (dk_log d) \<le> log_len_bytes log then (Inr (), log, d)
      else
        let tail = drop (log_len_bytes log) (dk_log d);
            (res, ops, by_id) = replay_records h tail 0 (head_or_root log) (log_ops log) (log_by_id log);
            log' = log\<lparr>log_ops := ops, log_by_id := by_id\<rparr>
        in case res of
             Inl e \<Rightarrow> (Inl e, log', d)
           | Inr valid \<Rightarrow>
               let new_len = log_len_bytes log + valid
               in (Inr (), log'\<lparr>log_len_bytes := new_len\<rparr>,
                   if valid < length tail then sync_all (set_len new_len d) else d))"

definition write_record ::
  "(bytes \<Rightarrow> bytes) \<Rightarrow> bytes \<Rightarrow> u64 \<Rightarrow> bytes \<Rightarrow> op_log \<Rightarrow> log_disk \<Rightarrow> op_id \<times> op_log \<times> log_disk" where
  "write_record h actor timestamp_ms payload log d =
     (let parent = head_or_root log;
          body = encode_body parent timestamp_ms actor payload;
          hash = h body;
          rec = le_bytes 4 (of_nat (length body) :: u32) @ body @ take CHECKSUM_LEN hash;
          entry = \<lparr>op_id = hash, op_parent = parent, op_change_id = replicate 32 0,
                   op_timestamp_ms = timestamp_ms, op_actor = actor, op_payload = payload\<rparr>
      in (hash,
          log\<lparr>log_ops := log_ops log @ [entry],
              log_by_id := (log_by_id log)(hash \<mapsto> of_nat (length (log_ops log))),
              log_len_bytes := log_len_bytes log + length rec\<rparr>,
          write_at (log_len_bytes log) rec d))"

definition append_locked ::
  "(bytes \<Rightarrow> bytes) \<Rightarrow> bytes \<Rightarrow> u64 \<Rightarrow> bytes \<Rightarrow> op_log \<Rightarrow> log_disk
     \<Rightarrow> (op_log_error + op_id) \<times> op_log \<times> log_disk" where
  "append_locked h actor timestamp_ms payload log d =
     (case catch_up h log d of
        (Inl e, log', d') \<Rightarrow> (Inl e, log', d')
      | (Inr _, log', d') \<Rightarrow>
          let (hash, log'', d'') = write_record h actor timestamp_ms payload log' d' in (Inr hash, log'', d''))"

definition log_append ::
  "(bytes \<Rightarrow> bytes) \<Rightarrow> bytes \<Rightarrow> u64 \<Rightarrow> bytes \<Rightarrow> op_log \<Rightarrow> log_disk
     \<Rightarrow> (op_log_error + op_id) \<times> op_log \<times> log_disk" where
  "log_append h actor timestamp_ms payload log d =
     (if 65535 < length actor then (Inl (LogTooLarge (length actor)), log, d)
      else if 4294967295 < length payload then (Inl (LogTooLarge (length payload)), log, d)
      else append_locked h actor timestamp_ms payload log d)"

text \<open>
  \<^verbatim>\<open>append_checked\<close>: \<open>build\<close> is the caller's closure, with the variables it captures as the
  state \<open>s\<close>, and \<open>conv\<close> the caller's \<^verbatim>\<open>From<OpLogError>\<close>.
\<close>

definition append_checked_locked ::
  "(bytes \<Rightarrow> bytes) \<Rightarrow> (op_log_error \<Rightarrow> 'e) \<Rightarrow> bytes \<Rightarrow> u64
     \<Rightarrow> (op_entry list \<Rightarrow> 's \<Rightarrow> ('e + bytes) \<times> 's) \<Rightarrow> 's \<Rightarrow> op_log \<Rightarrow> log_disk
     \<Rightarrow> ('e + op_id) \<times> 's \<times> op_log \<times> log_disk" where
  "append_checked_locked h conv actor timestamp_ms build s log d =
     (case catch_up h log d of
        (Inl e, log', d') \<Rightarrow> (Inl (conv e), s, log', d')
      | (Inr _, log', d') \<Rightarrow>
          (case build (log_ops log') s of
             (Inl e, s') \<Rightarrow> (Inl e, s', log', d')
           | (Inr payload, s') \<Rightarrow>
               if 4294967295 < length payload then (Inl (conv (LogTooLarge (length payload))), s', log', d')
               else let (hash, log'', d'') = write_record h actor timestamp_ms payload log' d'
                    in (Inr hash, s', log'', d'')))"

definition append_checked ::
  "(bytes \<Rightarrow> bytes) \<Rightarrow> (op_log_error \<Rightarrow> 'e) \<Rightarrow> bytes \<Rightarrow> u64
     \<Rightarrow> (op_entry list \<Rightarrow> 's \<Rightarrow> ('e + bytes) \<times> 's) \<Rightarrow> 's \<Rightarrow> op_log \<Rightarrow> log_disk
     \<Rightarrow> ('e + op_id) \<times> 's \<times> op_log \<times> log_disk" where
  "append_checked h conv actor timestamp_ms build s log d =
     (if 65535 < length actor then (Inl (conv (LogTooLarge (length actor))), s, log, d)
      else append_checked_locked h conv actor timestamp_ms build s log d)"

definition log_refresh ::
  "(bytes \<Rightarrow> bytes) \<Rightarrow> op_log \<Rightarrow> log_disk \<Rightarrow> (op_log_error + unit) \<times> op_log \<times> log_disk" where
  "log_refresh h log d = catch_up h log d"

definition log_index_of :: "op_log \<Rightarrow> op_id \<Rightarrow> nat option" where
  "log_index_of log i = map_option unat (log_by_id log i)"

definition log_get :: "op_log \<Rightarrow> op_id \<Rightarrow> op_entry option" where
  "log_get log i = map_option (\<lambda>at. log_ops log ! unat at) (log_by_id log i)"

section \<open>Durability\<close>

text \<open>
  \<^verbatim>\<open>sync_to\<close>: the marker is read once without the lock and again under it, after the \<open>others\<close>
  have run.
\<close>

definition sync_to :: "(log_disk \<Rightarrow> log_disk) \<Rightarrow> nat \<Rightarrow> log_disk \<Rightarrow> log_disk" where
  "sync_to meanwhile target d =
     (if target \<le> read_durable d then d
      else
        let d' = meanwhile d
        in if target \<le> read_durable d' then d'
           else let eof = length (dk_log d') in write_durable eof (sync_all d'))"

definition log_sync :: "bool \<Rightarrow> (log_disk \<Rightarrow> log_disk) \<Rightarrow> op_log \<Rightarrow> log_disk \<Rightarrow> op_log \<times> log_disk" where
  "log_sync relaxed meanwhile log d =
     (if relaxed then (log, d)
      else if log_defer log then (log\<lparr>log_write_count := log_write_count log + 1\<rparr>, d)
      else (log, sync_to meanwhile (log_len_bytes log) d))"

lemma write_durable_log [simp]: "dk_log (write_durable n d) = dk_log d" "dk_synced (write_durable n d) = dk_synced d"
  by (simp_all add: write_durable_def)

lemma sync_all_simps [simp]: "dk_log (sync_all d) = dk_log d" "dk_synced (sync_all d) = length (dk_log d)"
  "read_durable (sync_all d) = read_durable d"
  by (simp_all add: sync_all_def read_durable_def)

lemma read_durable_other [simp]: "read_durable (set_len n d) = read_durable d"
  "read_durable (d\<lparr>dk_log := l\<rparr>) = read_durable d" "read_durable (d\<lparr>dk_synced := n\<rparr>) = read_durable d"
  by (simp_all add: set_len_def read_durable_def)

section \<open>Records as bytes\<close>

definition body_of :: "op_entry \<Rightarrow> bytes" where
  "body_of e =
     op_parent e @ op_change_id e @ le_bytes 8 (op_timestamp_ms e)
     @ le_bytes 2 (of_nat (length (op_actor e)) :: u16) @ op_actor e
     @ le_bytes 4 (of_nat (length (op_payload e)) :: u32) @ op_payload e"

definition record_of :: "op_entry \<Rightarrow> bytes" where
  "record_of e = le_bytes 4 (of_nat (length (body_of e)) :: u32) @ body_of e @ take CHECKSUM_LEN (op_id e)"

definition records :: "op_entry list \<Rightarrow> bytes" where
  "records es = concat (map record_of es)"

lemma records_simps [simp]:
  "records [] = []" "records (e # es) = record_of e @ records es" "records (es @ fs) = records es @ records fs"
  by (simp_all add: records_def)

text \<open>What is needed of the hash function: 32 bytes out.\<close>

definition hash_ok :: "(bytes \<Rightarrow> bytes) \<Rightarrow> bool" where
  "hash_ok h \<longleftrightarrow> (\<forall>x. length (h x) = 32)"

definition entry_ok :: "(bytes \<Rightarrow> bytes) \<Rightarrow> op_entry \<Rightarrow> bool" where
  "entry_ok h e \<longleftrightarrow>
     length (op_parent e) = 32 \<and> length (op_change_id e) = 32 \<and> utf8 (op_actor e) \<and>
     length (op_actor e) < 65536 \<and> length (op_payload e) < 4294967296 \<and>
     length (body_of e) < 4294967296 \<and> op_id e = h (body_of e)"

lemma length_body_of:
  "length (op_parent e) = 32 \<Longrightarrow> length (op_change_id e) = 32 \<Longrightarrow>
   length (body_of e) = 78 + length (op_actor e) + length (op_payload e)"
  by (simp add: body_of_def)

lemma parse_body_of:
  assumes "entry_ok h e"
  shows "parse_body h (body_of e) = Inr e"
proof -
  let ?a = "le_bytes 2 (of_nat (length (op_actor e)) :: u16)"
  let ?p = "le_bytes 4 (of_nat (length (op_payload e)) :: u32)"
  let ?t = "le_bytes 8 (op_timestamp_ms e)"
  have len: "length (op_parent e) = 32" "length (op_change_id e) = 32"
    "length (op_actor e) < 65536" "length (op_payload e) < 4294967296"
    using assms by (simp_all add: entry_ok_def)
  have slices: "take 32 (body_of e) = op_parent e" "take 32 (drop 32 (body_of e)) = op_change_id e"
    "take 8 (drop 64 (body_of e)) = ?t" "take 2 (drop 72 (body_of e)) = ?a"
    "drop 74 (body_of e) = op_actor e @ ?p @ op_payload e"
    using len by (simp_all add: body_of_def)
  have nums: "unat (from_le ?a :: u16) = length (op_actor e)" "unat (from_le ?p :: u32) = length (op_payload e)"
    "from_le ?t = op_timestamp_ms e"
    using len by (simp_all add: codec_simps)
  show ?thesis
    using assms nums by (simp add: parse_body_def slices length_body_of BODY_FIXED_LEN_def entry_ok_def)
qed

lemma slice_join: "take n (drop m xs) @ drop (m + n) xs = drop m xs"
  by (metis add.commute append_take_drop_id drop_drop)

lemma parse_body_eq:
  assumes p: "parse_body h body = Inr e" and small: "length body < 4294967296"
  shows "body_of e = body \<and> entry_ok h e"
proof -
  let ?rest = "drop 74 body"
  let ?al = "unat (from_le (take 2 (drop 72 body)) :: u16)"
  let ?pl = "take 4 (drop ?al ?rest)"
  from p have len: "78 \<le> length body" "?al + 4 \<le> length ?rest" "utf8 (take ?al ?rest)"
    and pl: "length (drop (?al + 4) ?rest) = unat (from_le ?pl :: u32)"
    and e: "e = \<lparr>op_id = h body, op_parent = take 32 body, op_change_id = take 32 (drop 32 body),
      op_timestamp_ms = from_le (take 8 (drop 64 body)), op_actor = take ?al ?rest, op_payload = drop (?al + 4) ?rest\<rparr>"
    by (auto simp: parse_body_def Let_def BODY_FIXED_LEN_def not_less split: if_splits)
  have al: "length (take ?al ?rest) = ?al" using len by simp
  have "?al < 65536"
    using unsigned_less [of "from_le (take 2 (drop 72 body)) :: u16"] by simp
  have "length (take 2 (drop 72 body)) = 2" using len by simp
  then have "le_bytes 2 (of_nat ?al :: u16) = take 2 (drop 72 body)"
    by (simp add: le_bytes_from_le)
  moreover have "length ?pl = 4" using len by simp
  then have "le_bytes 4 (of_nat (length (drop (?al + 4) ?rest)) :: u32) = ?pl"
    unfolding pl by (simp add: le_bytes_from_le)
  moreover have "length (take 8 (drop 64 body)) = 8" using len by simp
  then have "le_bytes 8 (from_le (take 8 (drop 64 body)) :: u64) = take 8 (drop 64 body)"
    by (simp add: le_bytes_from_le)
  ultimately have "body_of e = take 32 body @ take 32 (drop 32 body) @ take 8 (drop 64 body) @ take 2 (drop 72 body)
      @ take ?al ?rest @ take 4 (drop ?al ?rest) @ drop (?al + 4) ?rest"
    unfolding body_of_def e op_entry.simps al by simp
  also have "\<dots> = body"
    using slice_join [of 4 ?al ?rest] slice_join [of 2 72 body] slice_join [of 8 64 body] slice_join [of 32 32 body]
      slice_join [of ?al 74 body]
    by (simp add: add.commute)
  finally have body: "body_of e = body" .
  have "op_id e = h body" "length (op_parent e) = 32" "length (op_change_id e) = 32" "length (op_actor e) = ?al"
    "utf8 (op_actor e)" "length (op_payload e) = unat (from_le ?pl :: u32)"
    using len al pl by (simp_all add: e)
  with body small \<open>?al < 65536\<close> unat_u32_less [of "from_le ?pl"] show ?thesis
    by (simp add: entry_ok_def)
qed

section \<open>Chains\<close>

fun chained :: "(bytes \<Rightarrow> bytes) \<Rightarrow> op_id \<Rightarrow> op_entry list \<Rightarrow> bool" where
  "chained h prev [] = True"
| "chained h prev (e # es) = (entry_ok h e \<and> op_parent e = prev \<and> chained h (op_id e) es)"

definition tip :: "op_id \<Rightarrow> op_entry list \<Rightarrow> op_id" where
  "tip prev es = (if es = [] then prev else op_id (last es))"

fun index_ops :: "nat \<Rightarrow> op_entry list \<Rightarrow> op_index \<Rightarrow> op_index" where
  "index_ops n [] m = m"
| "index_ops n (e # es) m = index_ops (Suc n) es (m(op_id e \<mapsto> of_nat n))"

lemma tip_simps [simp]:
  "tip prev [] = prev" "tip prev (e # es) = tip (op_id e) es" "tip prev (es @ [e]) = op_id e"
  by (simp_all add: tip_def)

lemma tip_append: "tip prev (es @ fs) = tip (tip prev es) fs"
  by (simp add: tip_def)

lemma chained_append: "chained h prev (es @ fs) = (chained h prev es \<and> chained h (tip prev es) fs)"
  by (induction es arbitrary: prev) auto

lemma index_ops_append: "index_ops n (es @ fs) m = index_ops (n + length es) fs (index_ops n es m)"
  by (induction es arbitrary: n m) auto

lemma length_record_of:
  assumes "hash_ok h" "entry_ok h e"
  shows "length (record_of e) = 4 + length (body_of e) + 8"
  using assms by (simp add: record_of_def CHECKSUM_LEN_def hash_ok_def entry_ok_def)

text \<open>A record at the front of the data is replayed; what follows it is replayed next.\<close>

lemma replay_record:
  assumes h: "hash_ok h" and e: "entry_ok h e" and prev: "op_parent e = prev"
  shows "replay_records h (record_of e @ t) valid prev ops m
    = replay_records h t (valid + length (record_of e)) (op_id e) (ops @ [e]) (m(op_id e \<mapsto> of_nat (length ops)))"
proof -
  let ?l = "le_bytes 4 (of_nat (length (body_of e)) :: u32)"
  have small: "length (body_of e) < 4294967296" and id: "op_id e = h (body_of e)"
    using e by (simp_all add: entry_ok_def)
  have first: "take_n 4 (record_of e @ t) = Some (?l, body_of e @ take CHECKSUM_LEN (op_id e) @ t)"
    by (simp add: record_of_def take_n_append)
  have len: "unat (from_le ?l :: u32) = length (body_of e)"
    using small by (simp add: codec_simps)
  have "length (body_of e @ take CHECKSUM_LEN (op_id e)) = length (body_of e) + CHECKSUM_LEN"
    using h by (simp add: id hash_ok_def CHECKSUM_LEN_def)
  then have second: "take_n (length (body_of e) + CHECKSUM_LEN) (body_of e @ take CHECKSUM_LEN (op_id e) @ t)
      = Some (body_of e @ take CHECKSUM_LEN (op_id e), t)"
    using take_n_append [of "body_of e @ take CHECKSUM_LEN (op_id e)" "length (body_of e) + CHECKSUM_LEN" t] by simp
  show ?thesis
    by (subst replay_records.simps)
      (simp add: first len second [unfolded id CHECKSUM_LEN_def] parse_body_of [OF e] prev id
        length_record_of [OF h e] CHECKSUM_LEN_def Let_def add.assoc)
qed

lemma replay_chain:
  "hash_ok h \<Longrightarrow> chained h prev es \<Longrightarrow>
   replay_records h (records es @ t) valid prev ops m
     = replay_records h t (valid + length (records es)) (tip prev es) (ops @ es) (index_ops (length ops) es m)"
proof (induction es arbitrary: prev valid ops m)
  case Nil
  then show ?case by simp
next
  case (Cons e es)
  then show ?case by (simp add: replay_record add.assoc)
qed

text \<open>A tail that a crashed writer left: the front of a record, at most the record without its last byte.\<close>

definition torn :: "(bytes \<Rightarrow> bytes) \<Rightarrow> bytes \<Rightarrow> bool" where
  "torn h t \<longleftrightarrow> t = [] \<or> (\<exists>e n. entry_ok h e \<and> n < length (record_of e) \<and> t = take n (record_of e))"

lemma torn_Nil [simp]: "torn h []"
  by (simp add: torn_def)

lemma replay_nil [simp]: "replay_records h [] valid prev ops m = (Inr valid, ops, m)"
  by (subst replay_records.simps) (simp add: take_n_def)

lemma replay_torn:
  assumes "hash_ok h" "torn h t"
  shows "replay_records h t valid prev ops m = (Inr valid, ops, m)"
proof (cases "t = []")
  case True
  then show ?thesis by simp
next
  case False
  then obtain e n where e: "entry_ok h e" "n < length (record_of e)" "t = take n (record_of e)"
    using assms(2) by (auto simp: torn_def)
  let ?l = "le_bytes 4 (of_nat (length (body_of e)) :: u32)"
  show ?thesis
  proof (cases "n < 4")
    case True
    then have "take_n 4 t = None"
      using e by (simp add: take_n_eq_None)
    then show ?thesis by (subst replay_records.simps) simp
  next
    case False
    then have "t = ?l @ take (n - 4) (body_of e @ take CHECKSUM_LEN (op_id e))"
      by (simp add: e record_of_def)
    then have first: "take_n 4 t = Some (?l, take (n - 4) (body_of e @ take CHECKSUM_LEN (op_id e)))"
      by (simp add: take_n_append)
    have len: "unat (from_le ?l :: u32) = length (body_of e)"
      using e by (simp add: codec_simps entry_ok_def)
    have "n - 4 < length (body_of e) + CHECKSUM_LEN"
      using e(2) False length_record_of [OF assms(1) e(1)] by (simp add: CHECKSUM_LEN_def)
    then have "take_n (length (body_of e) + CHECKSUM_LEN) (take (n - 4) (body_of e @ take CHECKSUM_LEN (op_id e))) = None"
      by (simp add: take_n_eq_None)
    with first len show ?thesis by (subst replay_records.simps) simp
  qed
qed

text \<open>What was replayed without an error was a chain, byte for byte.\<close>

lemma replay_sound:
  "replay_records h data valid prev ops m = (Inr v, ops', m') \<Longrightarrow>
   \<exists>es t. data = records es @ t \<and> chained h prev es \<and> ops' = ops @ es \<and> m' = index_ops (length ops) es m \<and>
     v = valid + length (records es)"
proof (induction h data valid prev ops m rule: replay_records.induct)
  case (1 h data valid prev ops m)
  show ?case
  proof (cases "ops' = ops \<and> m' = m \<and> v = valid")
    case True
    then show ?thesis by (intro exI [of _ "[]"] exI [of _ data]) simp
  next
    case False
    then obtain lb r rc r' e where s: "take_n 4 data = Some (lb, r)"
      "take_n (unat (from_le lb :: u32) + CHECKSUM_LEN) r = Some (rc, r')"
      "take CHECKSUM_LEN (h (take (unat (from_le lb :: u32)) rc)) = drop (unat (from_le lb :: u32)) rc"
      "parse_body h (take (unat (from_le lb :: u32)) rc) = Inr e" "op_parent e = prev"
      and rest: "replay_records h r' (valid + 4 + unat (from_le lb :: u32) + CHECKSUM_LEN) (op_id e)
        (ops @ [e]) (m(op_id e \<mapsto> of_nat (length ops))) = (Inr v, ops', m')"
      using "1.prems" by (subst (asm) replay_records.simps) (auto simp: Let_def split: option.splits if_splits sum.splits)
    let ?n = "unat (from_le lb :: u32)"
    have data: "data = lb @ rc @ r'" "length lb = 4" "length rc = ?n + CHECKSUM_LEN"
      using s(1,2) by (auto simp: take_n_eq_Some)
    have body: "body_of e = take ?n rc" "entry_ok h e"
      using parse_body_eq [OF s(4)] data(3) unat_u32_less [of "from_le lb"] by simp_all
    have "record_of e = lb @ rc"
    proof -
      have "le_bytes 4 (of_nat (length (body_of e)) :: u32) = lb"
        using data(2,3) body(1) by (simp add: le_bytes_from_le)
      moreover have "take CHECKSUM_LEN (op_id e) = drop ?n rc"
        using body s(3) by (simp add: entry_ok_def)
      ultimately show ?thesis by (simp add: record_of_def body(1))
    qed
    moreover obtain es t where "r' = records es @ t" "chained h (op_id e) es" "ops' = (ops @ [e]) @ es"
      "m' = index_ops (length (ops @ [e])) es (m(op_id e \<mapsto> of_nat (length ops)))"
      "v = valid + 4 + ?n + CHECKSUM_LEN + length (records es)"
      using "1.IH" [OF s(1) _ refl s(2) _ refl refl _ s(4) _ rest] s(3,5)
      by (auto simp del: fun_upd_apply)
    ultimately show ?thesis
      using data body s(5) by (intro exI [of _ "e # es"] exI [of _ t]) simp
  qed
qed

section \<open>The file and a process's copy of it\<close>

definition log_file :: "op_entry list \<Rightarrow> bytes" where
  "log_file es = file_header @ records es"

definition index_of_all :: "op_entry list \<Rightarrow> op_index" where
  "index_of_all es = index_ops 0 es (\<lambda>_. None)"

text \<open>A process that has replayed \<open>es\<close>.\<close>

definition knows :: "op_log \<Rightarrow> op_entry list \<Rightarrow> bool" where
  "knows log es \<longleftrightarrow>
     log_ops log = es \<and> log_by_id log = index_of_all es \<and> log_len_bytes log = length (log_file es)"

lemma length_file_header [simp]: "length file_header = 5"
  by (simp add: file_header_def MAGIC_def)

lemma log_file_append: "log_file (es @ fs) = log_file es @ records fs"
  by (simp add: log_file_def)

lemma knows_head: "knows log es \<Longrightarrow> head_or_root log = tip ROOT es"
  by (simp add: knows_def head_or_root_def log_head_def tip_def)

lemma length_tip: "hash_ok h \<Longrightarrow> chained h ROOT es \<Longrightarrow> length (tip ROOT es) = 32"
  by (cases es rule: rev_cases) (auto simp: ROOT_def chained_append entry_ok_def hash_ok_def)

lemma scan_file:
  assumes "hash_ok h" "chained h ROOT es" "torn h t"
  shows "scan h (log_file es @ t) = Inr
    \<lparr>sc_ops = es, sc_by_id = index_of_all es, sc_valid_len = length (log_file es),
     sc_file_len = length (log_file es @ t)\<rparr>"
proof -
  have parts: "take 4 file_header = MAGIC" "(file_header @ records es @ t) ! 4 = VERSION"
    by (simp_all add: file_header_def MAGIC_def nth_append)
  have "replay_records h (records es @ t) 5 ROOT [] (\<lambda>_. None)
      = (Inr (length (log_file es)), es, index_of_all es)"
    by (simp add: replay_chain [OF assms(1,2)] replay_torn [OF assms(1,3)] index_of_all_def log_file_def)
  then show ?thesis
    by (simp add: scan_def parts HEADER_LEN_def log_file_def min_def)
qed

lemma scan_short:
  "n < 5 \<Longrightarrow> scan h (take n file_header) = Inr
    \<lparr>sc_ops = [], sc_by_id = index_of_all [], sc_valid_len = n, sc_file_len = n\<rparr>"
  using strip_prefix_append [of "take n file_header" "drop n file_header"]
  by (simp add: scan_def HEADER_LEN_def min_def index_of_all_def del: strip_prefix_append)

lemma knows_log_of_scan:
  "sc_ops sc = es \<Longrightarrow> sc_by_id sc = index_of_all es \<Longrightarrow> sc_valid_len sc = length (log_file es) \<Longrightarrow>
   knows (log_of_scan sc) es"
  by (simp add: knows_def log_of_scan_def)

lemma repair_file:
  assumes "hash_ok h" "chained h ROOT es" "torn h t" "dk_log d = log_file es @ t"
  shows "\<exists>sc d'. scan_and_repair h d = (Inr sc, d') \<and> knows (log_of_scan sc) es \<and> dk_log d' = log_file es \<and>
    (t \<noteq> [] \<longrightarrow> dk_synced d' = length (log_file es))"
  using scan_file [OF assms(1-3)] assms(4)
  by (cases "t = []")
    (auto simp: scan_and_repair_def HEADER_LEN_def log_file_def sync_all_def set_len_def intro!: knows_log_of_scan)

lemma log_open_known:
  assumes "hash_ok h" and "chained h ROOT es" and "torn h t" and "dk_log d = log_file es @ t"
    and "chained h ROOT es'" and "torn h t'" and "dk_log (meanwhile d) = log_file es' @ t'"
  shows "\<exists>log d'. log_open h meanwhile d = (Inr log, d') \<and>
    (if t = [] then knows log es \<and> d' = d else knows log es' \<and> dk_log d' = log_file es')"
proof -
  obtain sc d' where r: "scan_and_repair h (meanwhile d) = (Inr sc, d')" "knows (log_of_scan sc) es'"
    "dk_log d' = log_file es'"
    using repair_file [OF assms(1,5,6,7)] by blast
  have "5 \<le> length (log_file es)" by (simp add: log_file_def)
  then show ?thesis
    using scan_file [OF assms(1-3)] r
    by (auto simp: log_open_def assms(4) needs_repair_def HEADER_LEN_def intro!: knows_log_of_scan)
qed

section \<open>Catching up and writing\<close>

lemma catch_up_known:
  assumes h: "hash_ok h" and log: "knows log es" and c: "chained h ROOT (es @ fs)" and t: "torn h t"
    and d: "dk_log d = log_file (es @ fs) @ t"
  shows "\<exists>log'. catch_up h log d = (Inr (), log',
      if t = [] then d else sync_all (set_len (length (log_file (es @ fs))) d)) \<and>
    knows log' (es @ fs) \<and> log_defer log' = log_defer log"
proof (cases "fs = [] \<and> t = []")
  case True
  then show ?thesis
    using log d by (auto simp: catch_up_def knows_def)
next
  case False
  have len: "log_len_bytes log = length (log_file es)" using log by (simp add: knows_def)
  have tail: "drop (log_len_bytes log) (dk_log d) = records fs @ t"
    by (simp add: len d log_file_append)
  have "replay_records h (records fs @ t) 0 (tip ROOT es) (log_ops log) (log_by_id log)
      = (Inr (length (records fs)), es @ fs, index_of_all (es @ fs))"
    using log c by (simp add: replay_chain [OF h] chained_append replay_torn [OF h t] knows_def index_of_all_def index_ops_append)
  moreover have "\<not> length (dk_log d) \<le> log_len_bytes log"
  proof -
    have "fs \<noteq> [] \<Longrightarrow> 0 < length (records fs)"
      by (cases fs) (simp_all add: record_of_def)
    then show ?thesis using False by (cases "fs = []") (simp_all add: len d log_file_append)
  qed
  ultimately show ?thesis
    unfolding catch_up_def tail knows_head [OF log]
    by (simp add: len log_file_append Let_def) (simp add: knows_def log_file_append)
qed

text \<open>The entry that a write records.\<close>

definition new_entry :: "(bytes \<Rightarrow> bytes) \<Rightarrow> op_id \<Rightarrow> bytes \<Rightarrow> u64 \<Rightarrow> bytes \<Rightarrow> op_entry" where
  "new_entry h parent actor timestamp_ms payload =
     \<lparr>op_id = h (encode_body parent timestamp_ms actor payload), op_parent = parent,
      op_change_id = replicate 32 0, op_timestamp_ms = timestamp_ms, op_actor = actor, op_payload = payload\<rparr>"

lemma body_of_new: "body_of (new_entry h parent actor ts payload) = encode_body parent ts actor payload"
  by (simp add: body_of_def new_entry_def encode_body_def)

lemma new_entry_ok:
  "length parent = 32 \<Longrightarrow> utf8 actor \<Longrightarrow> length actor < 65536 \<Longrightarrow> 78 + length actor + length payload < 4294967296 \<Longrightarrow>
   entry_ok h (new_entry h parent actor ts payload)"
  using length_body_of [of "new_entry h parent actor ts payload"]
  by (simp add: entry_ok_def body_of_new) (simp add: new_entry_def)

lemma write_record_known:
  assumes "knows log es" "dk_log d = log_file es"
  shows "\<exists>log' d'. let e = new_entry h (tip ROOT es) actor ts payload
    in write_record h actor ts payload log d = (op_id e, log', d') \<and> knows log' (es @ [e]) \<and>
      log_defer log' = log_defer log \<and>
      d' = d\<lparr>dk_log := log_file (es @ [e]), dk_synced := min (length (log_file es)) (dk_synced d)\<rparr>"
proof -
  let ?e = "new_entry h (tip ROOT es) actor ts payload"
  have rc: "le_bytes 4 (of_nat (length (encode_body (tip ROOT es) ts actor payload)) :: u32)
      @ encode_body (tip ROOT es) ts actor payload @ take CHECKSUM_LEN (h (encode_body (tip ROOT es) ts actor payload))
      = record_of ?e"
    by (simp add: record_of_def body_of_new) (simp add: new_entry_def)
  have len: "log_len_bytes log = length (log_file es)" using assms(1) by (simp add: knows_def)
  show ?thesis
    using assms(1)
    unfolding write_record_def knows_head [OF assms(1)] Let_def rc
    by (simp add: len write_at_def assms(2) log_file_append knows_def index_of_all_def index_ops_append)
      (simp add: new_entry_def)
qed

lemma append_checked_known:
  assumes h: "hash_ok h" and log: "knows log es" and c: "chained h ROOT (es @ fs)" and t: "torn h t"
    and d: "dk_log d = log_file (es @ fs) @ t" and actor: "utf8 actor" "length actor < 65536"
    and b: "build (es @ fs) s = (r, s')"
  shows "\<exists>log' d'. log_defer log' = log_defer log \<and>
    (case r of
       Inl err \<Rightarrow> append_checked h conv actor ts build s log d = (Inl err, s', log', d') \<and>
         knows log' (es @ fs) \<and> dk_log d' = log_file (es @ fs)
     | Inr payload \<Rightarrow> 78 + length actor + length payload < 4294967296 \<longrightarrow>
         (let e = new_entry h (tip ROOT (es @ fs)) actor ts payload
          in append_checked h conv actor ts build s log d = (Inr (op_id e), s', log', d') \<and>
            chained h ROOT (es @ fs @ [e]) \<and> knows log' (es @ fs @ [e]) \<and> dk_log d' = log_file (es @ fs @ [e])))"
proof -
  let ?d = "if t = [] then d else sync_all (set_len (length (log_file (es @ fs))) d)"
  obtain log1 where up: "catch_up h log d = (Inr (), log1, ?d)" "knows log1 (es @ fs)" "log_defer log1 = log_defer log"
    using catch_up_known [OF h log c t d] by blast
  have d1: "dk_log ?d = log_file (es @ fs)"
    by (simp add: d sync_all_def set_len_def)
  have ops: "log_ops log1 = es @ fs" using up(2) by (simp add: knows_def)
  have start: "append_checked h conv actor ts build s log d = (case r of
      Inl err \<Rightarrow> (Inl err, s', log1, ?d)
    | Inr payload \<Rightarrow> if 4294967295 < length payload then (Inl (conv (LogTooLarge (length payload))), s', log1, ?d)
        else let (hash, log'', d'') = write_record h actor ts payload log1 ?d in (Inr hash, s', log'', d''))"
    using actor(2) by (simp add: append_checked_def append_checked_locked_def up(1) ops b)
  show ?thesis
  proof (cases r)
    case (Inl err)
    with start up(2,3) d1 show ?thesis by auto
  next
    case (Inr payload)
    let ?e = "new_entry h (tip ROOT (es @ fs)) actor ts payload"
    obtain log2 d2 where w: "write_record h actor ts payload log1 ?d = (op_id ?e, log2, d2)"
      "knows log2 ((es @ fs) @ [?e])" "log_defer log2 = log_defer log1" "dk_log d2 = log_file ((es @ fs) @ [?e])"
      using write_record_known [OF up(2) d1, of h actor ts payload] unfolding Let_def by auto
    have "chained h ROOT ((es @ fs) @ [?e])" if "78 + length actor + length payload < 4294967296"
      using c new_entry_ok [OF length_tip [OF h c] actor that] unfolding chained_append [of h ROOT "es @ fs"]
      by (simp add: new_entry_def)
    with w start up(3) show ?thesis
      by (intro exI [of _ log2] exI [of _ d2]) (simp add: Inr Let_def)
  qed
qed

lemma log_append_known:
  assumes "hash_ok h" and "knows log es" and "chained h ROOT (es @ fs)" and "torn h t"
    and "dk_log d = log_file (es @ fs) @ t" and "utf8 actor" and "length actor < 65536"
    and "78 + length actor + length payload < 4294967296"
  shows "\<exists>e log' d'. log_append h actor ts payload log d = (Inr (op_id e), log', d') \<and>
    op_parent e = tip ROOT (es @ fs) \<and> op_actor e = actor \<and> op_payload e = payload \<and> op_timestamp_ms e = ts \<and>
    chained h ROOT (es @ fs @ [e]) \<and> dk_log d' = log_file (es @ fs @ [e]) \<and> knows log' (es @ fs @ [e])"
proof -
  have eq: "append_checked h (\<lambda>e. e) actor ts (\<lambda>ops s. (Inr payload, s)) () log d
      = (case log_append h actor ts payload log d of (r, log', d') \<Rightarrow> (r, (), log', d'))"
    using assms(7,8)
    by (auto simp: append_checked_def append_checked_locked_def log_append_def append_locked_def Let_def
        split: prod.splits sum.splits)
  let ?e = "new_entry h (tip ROOT (es @ fs)) actor ts payload"
  have "\<exists>log' d'. append_checked h (\<lambda>e. e) actor ts (\<lambda>ops s. (Inr payload, s)) () log d = (Inr (op_id ?e), (), log', d') \<and>
      chained h ROOT (es @ fs @ [?e]) \<and> knows log' (es @ fs @ [?e]) \<and> dk_log d' = log_file (es @ fs @ [?e])"
    using append_checked_known [OF assms(1-7), of "\<lambda>ops s. (Inr payload, s)" "()" "Inr payload" "()" "\<lambda>e. e" ts] assms(8)
    unfolding Let_def by auto
  then show ?thesis
    unfolding eq by (intro exI [of _ ?e]) (auto simp: new_entry_def split: prod.splits)
qed

section \<open>Several processes on one file\<close>

text \<open>
  A world is the files and the logs that processes hold.  A step is one critical section of one
  process, a process that dies after writing the first \<open>n\<close> bytes of its record, or one that
  goes away.
\<close>

type_synonym log_world = "log_disk \<times> (nat \<Rightarrow> op_log option)"

inductive log_step :: "(bytes \<Rightarrow> bytes) \<Rightarrow> log_world \<Rightarrow> log_world \<Rightarrow> bool" for h where
  Step_open: "log_open h (\<lambda>d. d) d = (Inr log, d') \<Longrightarrow> log_step h (d, ps) (d', ps(p \<mapsto> log))"
| Step_append: "ps p = Some log \<Longrightarrow> utf8 actor \<Longrightarrow> 78 + length actor + length payload < 4294967296 \<Longrightarrow>
    log_append h actor ts payload log d = (r, log', d') \<Longrightarrow> log_step h (d, ps) (d', ps(p \<mapsto> log'))"
| Step_refresh: "ps p = Some log \<Longrightarrow> log_refresh h log d = (r, log', d') \<Longrightarrow> log_step h (d, ps) (d', ps(p \<mapsto> log'))"
| Step_sync: "ps p = Some log \<Longrightarrow> log_sync relaxed (\<lambda>d. d) log d = (log', d') \<Longrightarrow> log_step h (d, ps) (d', ps(p \<mapsto> log'))"
| Step_crash: "ps p = Some log \<Longrightarrow> utf8 actor \<Longrightarrow> length actor < 65536 \<Longrightarrow> 78 + length actor + length payload < 4294967296 \<Longrightarrow>
    catch_up h log d = (Inr (), log1, d1) \<Longrightarrow> write_record h actor ts payload log1 d1 = (hash, log2, d2) \<Longrightarrow>
    length (dk_log d1) \<le> n \<Longrightarrow> n < length (dk_log d2) \<Longrightarrow>
    log_step h (d, ps) (set_len n d2, ps(p := None))"
| Step_exit: "log_step h (d, ps) (d, ps(p := None))"

inductive_cases log_stepE: "log_step h w w'"

inductive log_run :: "(bytes \<Rightarrow> bytes) \<Rightarrow> log_world \<Rightarrow> log_world \<Rightarrow> bool" for h where
  Run_refl: "log_run h w w"
| Run_step: "log_run h w w' \<Longrightarrow> log_step h w' w'' \<Longrightarrow> log_run h w w''"

text \<open>The history is \<open>es\<close>: the file holds it, and every process knows a part from the front of it.\<close>

definition world_holds :: "(bytes \<Rightarrow> bytes) \<Rightarrow> log_world \<Rightarrow> op_entry list \<Rightarrow> bool" where
  "world_holds h w es \<longleftrightarrow>
     chained h ROOT es \<and> (\<exists>t. torn h t \<and> dk_log (fst w) = log_file es @ t) \<and>
     (\<forall>p log. snd w p = Some log \<longrightarrow> (\<exists>fs gs. es = fs @ gs \<and> knows log fs))"

lemma knows_defer: "knows (log\<lparr>log_write_count := c\<rparr>) es = knows log es"
  by (simp add: knows_def)

lemma world_update:
  assumes w: "world_holds h (d, ps) es" and c: "chained h ROOT (es @ fs)"
    and d: "\<exists>t. torn h t \<and> dk_log d' = log_file (es @ fs) @ t"
    and l: "case l of None \<Rightarrow> True | Some log \<Rightarrow> \<exists>as bs. es @ fs = as @ bs \<and> knows log as"
  shows "world_holds h (d', ps(p := l)) (es @ fs)"
  unfolding world_holds_def
proof (intro conjI allI impI)
  fix q log assume q: "snd (d', ps(p := l)) q = Some log"
  show "\<exists>as bs. es @ fs = as @ bs \<and> knows log as"
  proof (cases "q = p")
    case True
    with q l show ?thesis by simp
  next
    case False
    with q w obtain as bs where "es = as @ bs" "knows log as"
      unfolding world_holds_def by auto metis
    then show ?thesis by (intro exI [of _ as] exI [of _ "bs @ fs"]) simp
  qed
qed (use c d in auto)

lemma log_sync_log:
  "log_sync relaxed (\<lambda>d. d) log d = (log', d') \<Longrightarrow> dk_log d' = dk_log d \<and> (knows log es \<longrightarrow> knows log' es)"
  by (auto simp: log_sync_def sync_to_def Let_def knows_defer write_durable_def sync_all_def split: if_splits)

lemma log_step_holds:
  assumes h: "hash_ok h" and step: "log_step h w w'" and w: "world_holds h w es"
  shows "\<exists>fs. world_holds h w' (es @ fs)"
proof -
  have c: "chained h ROOT es" and "\<exists>t. torn h t \<and> dk_log (fst w) = log_file es @ t"
    using w by (auto simp: world_holds_def)
  then obtain t where t: "torn h t" "dk_log (fst w) = log_file es @ t" by blast
  have parts: "\<exists>as bs. es = as @ bs \<and> knows log as" if "snd w p = Some log" for p log
    using w that by (auto simp: world_holds_def)
  have upd: "\<exists>fs. world_holds h (d', ps(p := l)) (es @ fs)"
    if "w = (d, ps)" "chained h ROOT (es @ fs)" "torn h t'" "dk_log d' = log_file (es @ fs) @ t'"
      "case l of None \<Rightarrow> True | Some log \<Rightarrow> \<exists>as bs. es @ fs = as @ bs \<and> knows log as" for d ps d' p l fs t'
    using world_update [of h d ps es fs d' l p] w that by blast
  from step show ?thesis
  proof (cases rule: log_step.cases)
    case (Step_open d log d' ps p)
    have m: "dk_log d = log_file es @ t" using t(2) Step_open(1) by simp
    have "knows log es" "dk_log d' = log_file es"
      using log_open_known [of h es t d es t "\<lambda>d. d", OF h c t(1) m c t(1) m] Step_open(3) m by (auto split: if_splits)
    then show ?thesis
      using upd [OF Step_open(1), of "[]" "[]" d' "Some log" p] c Step_open(2) by force
  next
    case (Step_append ps p log actor payload ts d r log' d')
    obtain as bs where ab: "es = as @ bs" "knows log as"
      using parts [of p log] Step_append(1,3) by auto
    show ?thesis
    proof (cases "length actor < 65536")
      case True
      have cc: "chained h ROOT (as @ bs)" and dd: "dk_log d = log_file (as @ bs) @ t"
        using c t(2) ab(1) Step_append(1) by simp_all
      obtain e log2 d2 where e: "log_append h actor ts payload log d = (Inr (op_id e), log2, d2)"
        "chained h ROOT (as @ bs @ [e])" "dk_log d2 = log_file (as @ bs @ [e])" "knows log2 (as @ bs @ [e])"
        using log_append_known [of h log as bs t d actor payload ts, OF h ab(2) cc t(1) dd Step_append(4) True Step_append(5)]
        by blast
      have "d' = d2" "log' = log2"
        using e(1) Step_append(6) by simp_all
      then have "chained h ROOT (es @ [e])" "dk_log d' = log_file (es @ [e]) @ []" "knows log' (es @ [e])"
        using e(2-4) by (simp_all add: ab(1))
      then show ?thesis
        unfolding Step_append(2) by (intro upd [OF Step_append(1), of "[e]" "[]"]) auto
    next
      case False
      then have "d' = d" "log' = log"
        using Step_append(6) by (simp_all add: log_append_def)
      then show ?thesis
        using upd [OF Step_append(1), of "[]" t d "Some log" p] Step_append(1,2) ab c t by force
    qed
  next
    case (Step_refresh ps p log d r log' d')
    obtain as bs where ab: "es = as @ bs" "knows log as"
      using parts [of p log] Step_refresh(1,3) by auto
    have "knows log' es" "dk_log d' = log_file es"
      using catch_up_known [OF h ab(2), of bs t d] Step_refresh(1,4) ab(1) c t
      by (auto simp: log_refresh_def set_len_def split: if_splits)
    then show ?thesis
      using upd [OF Step_refresh(1), of "[]" "[]" d' "Some log'" p] Step_refresh(2) c by force
  next
    case (Step_sync ps p log relaxed d log' d')
    obtain as bs where ab: "es = as @ bs" "knows log as"
      using parts [of p log] Step_sync(1,3) by auto
    then show ?thesis
      using upd [OF Step_sync(1), of "[]" t d' "Some log'" p] log_sync_log [OF Step_sync(4)] Step_sync(1,2) c t
      by force
  next
    case (Step_crash ps p log actor payload d log1 d1 ts hash log2 d2 n)
    obtain as bs where ab: "es = as @ bs" "knows log as"
      using parts [of p log] Step_crash(1,3) by auto
    have d1: "dk_log d1 = log_file es" "knows log1 es"
      using catch_up_known [OF h ab(2), of bs t d] Step_crash(1,7) ab(1) c t
      by (auto simp: set_len_def split: if_splits)
    let ?e = "new_entry h (tip ROOT es) actor ts payload"
    have d2: "dk_log d2 = log_file es @ record_of ?e"
      using write_record_known [OF d1(2,1), of h actor ts payload] Step_crash(8)
      by (auto simp: Let_def log_file_append)
    have "entry_ok h ?e"
      by (rule new_entry_ok [OF length_tip [OF h c]]) (use Step_crash in auto)
    moreover have n: "n - length (log_file es) < length (record_of ?e)" "length (log_file es) \<le> n"
      using Step_crash(9,10) d1 d2 by simp_all
    ultimately have "torn h (take (n - length (log_file es)) (record_of ?e))"
      unfolding torn_def by blast
    moreover have "dk_log (set_len n d2) = log_file es @ take (n - length (log_file es)) (record_of ?e)"
      using n d2 by (simp add: set_len_def)
    ultimately show ?thesis
      using upd [OF Step_crash(1), of "[]" _ "set_len n d2" None p] c Step_crash(2) by force
  next
    case (Step_exit d ps p)
    then show ?thesis
      using upd [OF Step_exit(1), of "[]" t d None p] c t by force
  qed
qed

lemma log_run_holds:
  "log_run h w w' \<Longrightarrow> hash_ok h \<Longrightarrow> world_holds h w es \<Longrightarrow> \<exists>fs. world_holds h w' (es @ fs)"
proof (induction rule: log_run.induct)
  case (Run_refl w)
  then show ?case by (metis append_Nil2)
next
  case (Run_step w w' w'')
  then obtain fs where "world_holds h w' (es @ fs)" by blast
  from log_step_holds [OF Run_step.prems(1) Run_step.hyps(2) this] show ?case by auto
qed

section \<open>What an accepted log is\<close>

lemma scan_sound:
  assumes s: "scan h data = Inr sc"
  shows "chained h ROOT (sc_ops sc) \<and>
    (if length data < 5 then sc_ops sc = [] else \<exists>t. data = log_file (sc_ops sc) @ t)"
proof (cases "length data < 5")
  case True
  with s show ?thesis by (auto simp: scan_def HEADER_LEN_def Let_def split: if_splits)
next
  case False
  then have magic: "take 4 data = MAGIC" "data ! 4 = VERSION"
    using s by (auto simp: scan_def HEADER_LEN_def split: if_splits)
  have "take 5 data = take 4 data @ [data ! 4]"
    using False take_Suc_conv_app_nth [of 4 data] by simp
  then have head: "data = file_header @ drop 5 data"
    using magic append_take_drop_id [of 5 data] by (simp add: file_header_def)
  obtain res ops m where r: "replay_records h (drop 5 data) 5 ROOT [] (\<lambda>_. None) = (res, ops, m)"
    by (metis prod.exhaust)
  with s False magic obtain v where v: "res = Inr v" "sc_ops sc = ops"
    by (auto simp: scan_def HEADER_LEN_def bindR_eq_Inr min_def)
  obtain es t where "drop 5 data = records es @ t" "chained h ROOT es" "ops = es"
    using replay_sound [OF r [unfolded v(1)]] by auto
  with False v head show ?thesis
    by (auto simp: log_file_def)
qed

lemma chain_tip_inj:
  "chained h prev es \<Longrightarrow> chained h prev fs \<Longrightarrow> tip prev es = tip prev fs \<Longrightarrow>
   inj_on h (body_of ` (set es \<union> set fs)) \<Longrightarrow> prev \<notin> h ` body_of ` (set es \<union> set fs) \<Longrightarrow> es = fs"
proof (induction es arbitrary: fs rule: rev_induct)
  case Nil
  then show ?case
    by (cases fs rule: rev_cases) (auto simp: chained_append entry_ok_def)
next
  case (snoc e es)
  then have e: "entry_ok h e" "op_parent e = tip prev es"
    by (simp_all add: chained_append)
  then have "h (body_of e) \<noteq> prev"
    using snoc.prems(5) by auto
  then obtain f gs where fs: "fs = gs @ [f]"
    using e(1) snoc.prems(3) by (cases fs rule: rev_cases) (auto simp: entry_ok_def)
  then have f: "entry_ok h f" "op_parent f = tip prev gs" "h (body_of e) = h (body_of f)"
    using snoc.prems(2,3) e(1) by (simp_all add: chained_append) (simp add: entry_ok_def)
  have "body_of e = body_of f"
    using f(3) by (rule inj_onD [OF snoc.prems(4)]) (simp_all add: fs)
  then have "Inr e = (Inr f :: op_log_error + op_entry)"
    using parse_body_of [OF e(1)] parse_body_of [OF f(1)] by metis
  then have "e = f" by simp
  moreover have "es = gs"
    using snoc.prems fs f(2) e(2) \<open>e = f\<close>
    by (intro snoc.IH) (auto simp: chained_append intro: inj_on_subset)
  ultimately show ?case by (simp add: fs)
qed

text \<open>The marker file claims no more than what an fsync has made durable.\<close>

definition marker_sound :: "log_disk \<Rightarrow> bool" where
  "marker_sound d \<longleftrightarrow> read_durable d \<le> dk_synced d"

lemma read_write_durable: "n < 18446744073709551616 \<Longrightarrow> read_durable (write_durable n d) = n"
  by (simp add: read_durable_def write_durable_def codec_simps)

section \<open>Properties\<close>

text \<open>C37. Opening a log whose last writer crashed in the middle of a record yields exactly the whole
  records before it and cuts the file back to them; opening an intact log changes nothing.  The
  repair works from the file as it is under the exclusive lock, whatever other processes
  appended or repaired since it was first read.\<close>

theorem open_recovers:
  assumes "hash_ok h" and "chained h ROOT es" and "torn h t" and "dk_log d = log_file es @ t"
    and "chained h ROOT es'" and "torn h t'" and "dk_log (meanwhile d) = log_file es' @ t'"
  shows "\<exists>log d'. log_open h meanwhile d = (Inr log, d') \<and>
    (if t = [] then knows log es \<and> d' = d else knows log es' \<and> dk_log d' = log_file es')"
  using log_open_known [of h es t d es' t' meanwhile, OF assms] .

definition zero_hash :: "bytes \<Rightarrow> bytes" where
  "zero_hash b = replicate 32 0"

lemma zero_hash_ok: "hash_ok zero_hash"
  by (simp add: hash_ok_def zero_hash_def)

definition sample_op :: "(bytes \<Rightarrow> bytes) \<Rightarrow> op_entry" where
  "sample_op h = new_entry h ROOT (lit ''alice'') 1000 (lit ''op a'')"

lemma sample_op_ok: "entry_ok h (sample_op h)"
proof -
  have "utf8 (lit ''alice'')" by (rule utf8_ascii) simp
  then show ?thesis
    unfolding sample_op_def by (rule new_entry_ok [rotated]) (simp_all add: ROOT_def)
qed

lemma sample_torn:
  assumes "hash_ok h" "0 < n" "n \<le> 20"
  shows "torn h (take n (record_of (sample_op h)))" "take n (record_of (sample_op h)) \<noteq> []"
proof -
  have len: "20 < length (record_of (sample_op h))"
    using length_record_of [OF assms(1) sample_op_ok] by (simp add: sample_op_def body_of_new encode_body_def)
  then show "torn h (take n (record_of (sample_op h)))"
    using sample_op_ok assms(3) unfolding torn_def by (intro disjI2 exI [of _ "sample_op h"] exI [of _ n]) simp
  from len assms(2) show "take n (record_of (sample_op h)) \<noteq> []"
    by (cases "record_of (sample_op h)") auto
qed

lemma sample_chain: "chained h ROOT [sample_op h]"
  using sample_op_ok by (simp add: sample_op_def new_entry_def)

theorem open_recovers_witness:
  "\<exists>log d'. log_open zero_hash (\<lambda>d. d)
      \<lparr>dk_log = log_file [sample_op zero_hash] @ take 20 (record_of (sample_op zero_hash)), dk_synced = 0,
       dk_marker = []\<rparr> = (Inr log, d') \<and>
    log_ops log = [sample_op zero_hash] \<and> dk_log d' = log_file [sample_op zero_hash]"
proof -
  let ?t = "take 20 (record_of (sample_op zero_hash))"
  let ?d = "\<lparr>dk_log = log_file [sample_op zero_hash] @ ?t, dk_synced = 0, dk_marker = []\<rparr>"
  have t: "torn zero_hash ?t" "?t \<noteq> []"
    using sample_torn [OF zero_hash_ok, of 20] by simp_all
  have "dk_log ?d = log_file [sample_op zero_hash] @ ?t" by simp
  from open_recovers [OF zero_hash_ok sample_chain t(1) this sample_chain t(1), of "\<lambda>d. d"] t(2)
  show ?thesis unfolding knows_def by auto
qed

text \<open>An append by a process that has seen only the first \<open>es\<close> records lands after the \<open>fs\<close> that
  others have appended meanwhile, replacing the torn tail \<open>t\<close> of a crashed writer: the new
  record names the true head as its parent, the file is again a chain of whole records, and the
  process now knows all of it.\<close>

theorem append_links:
  assumes "hash_ok h" and "knows log es" and "chained h ROOT (es @ fs)" and "torn h t"
    and "dk_log d = log_file (es @ fs) @ t" and "utf8 actor" and "length actor < 65536"
    and "78 + length actor + length payload < 4294967296"
  shows "\<exists>e log' d'. log_append h actor ts payload log d = (Inr (op_id e), log', d') \<and>
    op_parent e = tip ROOT (es @ fs) \<and> op_actor e = actor \<and> op_payload e = payload \<and> op_timestamp_ms e = ts \<and>
    chained h ROOT (es @ fs @ [e]) \<and> dk_log d' = log_file (es @ fs @ [e]) \<and> knows log' (es @ fs @ [e])"
  using log_append_known [of h log es fs t d actor payload ts, OF assms] .

theorem append_links_witness:
  "\<exists>e log' d'. log_append zero_hash (lit ''bob'') 2000 (lit ''op b'')
      \<lparr>log_ops = [], log_by_id = \<lambda>_. None, log_len_bytes = 5, log_defer = False, log_write_count = 0\<rparr>
      \<lparr>dk_log = log_file [sample_op zero_hash], dk_synced = 0, dk_marker = []\<rparr> = (Inr (op_id e), log', d') \<and>
    dk_log d' = log_file [sample_op zero_hash, e] \<and> op_parent e = op_id (sample_op zero_hash)"
proof -
  let ?log = "\<lparr>log_ops = [], log_by_id = \<lambda>_. None, log_len_bytes = 5, log_defer = False, log_write_count = 0\<rparr>"
  have "knows ?log []"
    by (simp add: knows_def index_of_all_def log_file_def)
  moreover have "utf8 (lit ''bob'')"
    by (rule utf8_ascii) simp
  ultimately show ?thesis
    using append_links [OF zero_hash_ok, of ?log "[]" "[sample_op zero_hash]" "[]"
        "\<lparr>dk_log = log_file [sample_op zero_hash], dk_synced = 0, dk_marker = []\<rparr>" "lit ''bob''" "lit ''op b''" 2000]
      sample_chain
    by fastforce
qed

text \<open>C39. The head of an accepted log determines its whole history: two files that are accepted and
  have the same head id hold the same operations, unless the hash function collides on their
  bodies (or produces the id reserved for the root).\<close>

theorem head_determines_history:
  assumes "scan h data = Inr sc" and "scan h data' = Inr sc'" and "tip ROOT (sc_ops sc) = tip ROOT (sc_ops sc')"
    and "inj_on h (body_of ` (set (sc_ops sc) \<union> set (sc_ops sc')))"
    and "ROOT \<notin> h ` body_of ` (set (sc_ops sc) \<union> set (sc_ops sc'))"
  shows "sc_ops sc = sc_ops sc'"
  using chain_tip_inj scan_sound [OF assms(1)] scan_sound [OF assms(2)] assms(3-5) by blast

theorem head_determines_history_witness:
  "let h = (\<lambda>b. replicate 32 1); e = sample_op h
   in \<exists>sc sc'. scan h (log_file [e]) = Inr sc \<and> scan h (log_file [e] @ take 3 (record_of e)) = Inr sc' \<and>
      sc_ops sc = sc_ops sc'"
proof -
  let ?h = "\<lambda>b :: bytes. replicate 32 (1 :: u8)"
  let ?e = "sample_op ?h"
  have h: "hash_ok ?h" by (simp add: hash_ok_def)
  have t: "torn ?h (take 3 (record_of ?e))"
    using sample_torn(1) [OF h] by simp
  obtain sc sc' where sc: "scan ?h (log_file [?e]) = Inr sc" "sc_ops sc = [?e]"
    "scan ?h (log_file [?e] @ take 3 (record_of ?e)) = Inr sc'" "sc_ops sc' = [?e]"
    using scan_file [OF h sample_chain torn_Nil] scan_file [OF h sample_chain t] by fastforce
  have "ROOT \<noteq> replicate 32 1"
    by (simp add: ROOT_def replicate_eq_replicate)
  then show ?thesis
    using head_determines_history [OF sc(1,3)] sc by (auto simp: Let_def)
qed

text \<open>C13. However the processes interleave their critical sections, die in the middle of a write or
  reopen, the file stays one unbroken chain of records with at most one torn record behind it,
  no operation once recorded is lost or reordered, and every process's copy is a part of the
  chain from its front.\<close>

theorem history_only_grows:
  assumes "hash_ok h" and "log_run h w w'" and "world_holds h w es"
  shows "\<exists>fs. world_holds h w' (es @ fs)"
  using log_run_holds [OF assms(2,1,3)] .

theorem history_only_grows_witness:
  "\<exists>w'. log_run zero_hash (\<lparr>dk_log = log_file [sample_op zero_hash], dk_synced = 0, dk_marker = []\<rparr>, \<lambda>p. None) w' \<and>
     snd w' 1 \<noteq> None \<and> (\<exists>fs. world_holds zero_hash w' ([sample_op zero_hash] @ fs))"
proof -
  let ?d = "\<lparr>dk_log = log_file [sample_op zero_hash], dk_synced = 0, dk_marker = []\<rparr>"
  let ?w = "(?d, \<lambda>p. None) :: log_world"
  have d: "dk_log ?d = log_file [sample_op zero_hash] @ []" by simp
  obtain log where "log_open zero_hash (\<lambda>d. d) ?d = (Inr log, ?d)"
    using log_open_known [of zero_hash "[sample_op zero_hash]" "[]" ?d "[sample_op zero_hash]" "[]" "\<lambda>d. d",
        OF zero_hash_ok sample_chain torn_Nil d sample_chain torn_Nil d] by auto
  then have run: "log_run zero_hash ?w (?d, (\<lambda>p. None)(1 \<mapsto> log))"
    by (rule Run_step [OF Run_refl Step_open])
  have "world_holds zero_hash ?w [sample_op zero_hash]"
    unfolding world_holds_def using sample_chain torn_Nil d by (metis fst_conv option.distinct(1) snd_conv)
  from history_only_grows [OF zero_hash_ok run this] run show ?thesis by fastforce
qed

text \<open>As long as the marker is sound, a sync that returns (durability neither relaxed nor
  deferred) has made every byte of the caller's records durable, whether it fsynced itself or
  relied on another process's marker, and leaves the marker sound.\<close>

theorem sync_makes_durable:
  assumes "marker_sound d" and "marker_sound (meanwhile d)" and "\<not> log_defer log"
    and "log_len_bytes log \<le> length (dk_log (meanwhile d))"
    and "length (dk_log (meanwhile d)) < 18446744073709551616"
  shows "log_len_bytes log \<le> dk_synced (snd (log_sync False meanwhile log d)) \<and>
    marker_sound (snd (log_sync False meanwhile log d))"
  using assms by (auto simp: log_sync_def sync_to_def Let_def marker_sound_def read_write_durable)

theorem sync_makes_durable_witness:
  "dk_synced (snd (log_sync False (\<lambda>d. d)
     \<lparr>log_ops = [], log_by_id = \<lambda>_. None, log_len_bytes = 5, log_defer = False, log_write_count = 0\<rparr>
     \<lparr>dk_log = file_header, dk_synced = 0, dk_marker = []\<rparr>)) \<ge> 5"
  using sync_makes_durable [of "\<lparr>dk_log = file_header, dk_synced = 0, dk_marker = []\<rparr>" "\<lambda>d. d"
      "\<lparr>log_ops = [], log_by_id = \<lambda>_. None, log_len_bytes = 5, log_defer = False, log_write_count = 0\<rparr>"]
  by (simp add: marker_sound_def read_durable_def)

text \<open>Cutting a torn tail does not lower the marker.  When a sync has put the length of the file
  with a torn tail behind it into the marker, the next append cuts the tail, and if its record
  is no longer than the tail was, the sync after it returns without an fsync and leaves the
  new record not durable.\<close>

theorem stale_marker_skips_sync:
  assumes "hash_ok h" and "knows log es" and "chained h ROOT es" and "torn h t"
    and "dk_log d = log_file es @ t" and "read_durable d < log_len_bytes log" and "\<not> log_defer log"
    and "utf8 actor" and "length actor < 65536" and "78 + length actor + length payload < 4294967296"
    and "90 + length actor + length payload \<le> length t" and "length (log_file es @ t) < 18446744073709551616"
  shows "\<exists>id log' d'. log_append h actor ts payload log (snd (log_sync False (\<lambda>d. d) log d)) = (Inr id, log', d') \<and>
    log_sync False (\<lambda>d. d) log' d' = (log', d') \<and> dk_synced d' < log_len_bytes log' \<and>
    log_len_bytes log' = length (dk_log d')"
proof -
  let ?d = "write_durable (length (log_file es @ t)) (sync_all d)"
  have sync: "snd (log_sync False (\<lambda>d. d) log d) = ?d"
    using assms(5-7) by (simp add: log_sync_def sync_to_def Let_def)
  have d: "dk_log ?d = log_file (es @ []) @ t" "read_durable ?d = length (log_file es @ t)"
    using assms(5,12) by (simp_all add: read_write_durable)
  have t: "t \<noteq> []" using assms(11) by auto
  obtain log1 where up: "catch_up h log ?d = (Inr (), log1, sync_all (set_len (length (log_file es)) ?d))"
    "knows log1 es" "log_defer log1 = log_defer log"
    using catch_up_known [OF assms(1,2) _ assms(4) d(1)] assms(3) t by auto
  let ?d1 = "sync_all (set_len (length (log_file es)) ?d)"
  have d1: "dk_log ?d1 = log_file es" "dk_synced ?d1 = length (log_file es)" "read_durable ?d1 = length (log_file es @ t)"
    using d by (simp_all, simp_all add: set_len_def)
  let ?e = "new_entry h (tip ROOT es) actor ts payload"
  obtain log2 where w: "write_record h actor ts payload log1 ?d1 = (op_id ?e, log2,
      ?d1\<lparr>dk_log := log_file (es @ [?e]), dk_synced := length (log_file es)\<rparr>)"
    "knows log2 (es @ [?e])" "log_defer log2 = log_defer log1"
    using write_record_known [OF up(2) d1(1), of h actor ts payload] d1(2) unfolding Let_def by auto
  let ?d2 = "?d1\<lparr>dk_log := log_file (es @ [?e]), dk_synced := length (log_file es)\<rparr>"
  have ok: "entry_ok h ?e"
    by (rule new_entry_ok [OF length_tip [OF assms(1,3)] assms(8-10)])
  have len: "log_len_bytes log2 = length (log_file es) + (90 + length actor + length payload)"
    using w(2) length_record_of [OF assms(1) ok] length_tip [OF assms(1,3)]
    by (simp add: knows_def log_file_append body_of_new encode_body_def)
  have "log_append h actor ts payload log ?d = (Inr (op_id ?e), log2, ?d2)"
    using assms(9,10) unfolding log_append_def append_locked_def up(1)
    by (simp only: prod.case sum.case Let_def w(1)) simp
  moreover have "read_durable ?d2 = length (log_file es @ t)"
    using d1(3) by simp
  then have "log_sync False (\<lambda>d. d) log2 ?d2 = (log2, ?d2)"
    using assms(11) len by (simp add: log_sync_def sync_to_def w(3) up(3) assms(7))
  ultimately show ?thesis
    unfolding sync using len w(2) by (auto simp: knows_def)
qed

theorem stale_marker_skips_sync_witness:
  "\<exists>log d id log' d'. knows log [] \<and> log_append zero_hash [] 0 [] log (snd (log_sync False (\<lambda>d. d) log d)) = (Inr id, log', d') \<and>
     log_sync False (\<lambda>d. d) log' d' = (log', d') \<and> dk_synced d' < log_len_bytes log'"
proof -
  let ?log = "\<lparr>log_ops = [], log_by_id = \<lambda>_. None, log_len_bytes = 5, log_defer = False, log_write_count = 0\<rparr>"
  let ?t = "take 92 (record_of (sample_op zero_hash))"
  let ?d = "\<lparr>dk_log = log_file [] @ ?t, dk_synced = 0, dk_marker = []\<rparr>"
  have knows: "knows ?log []"
    by (simp add: knows_def index_of_all_def log_file_def)
  have len: "92 < length (record_of (sample_op zero_hash))"
    using length_record_of [OF zero_hash_ok sample_op_ok]
    by (simp add: sample_op_def body_of_new encode_body_def ROOT_def)
  then have t: "torn zero_hash ?t"
    using sample_op_ok unfolding torn_def by (intro disjI2 exI [of _ "sample_op zero_hash"] exI [of _ 92]) simp
  have "length ?t = 92" using len by simp
  then show ?thesis
    using stale_marker_skips_sync [OF zero_hash_ok knows _ t, of ?d "[]" "[]" 0] knows
    by (fastforce simp: read_durable_def log_file_def)
qed

end
