(* ===== verification/Ref_Tx.thy ===== *)
theory Ref_Tx
  imports Git_Object Btree_Map Op_Log
begin

text \<open>
  \<^verbatim>\<open>alt-refs/src/tx.rs\<close> and \<^verbatim>\<open>alt-refs/src/snapshot.rs\<close>: the payload of an operation that
  changes refs, and the file that caches the whole ref map as of one operation.
\<close>

section \<open>Ref transactions\<close>

datatype ref_target = TargetOid object_id | TargetSymbolic bytes

datatype ref_error =
    RefOpLog op_log_error
  | RefFormat string
  | RefConflict bytes
  | SymrefDepth bytes
  | ReservedPayload u8
  | CapabilityDenied bytes
  | Rejected bytes

record ref_change =
  rc_name :: bytes
  rc_old :: "ref_target option"
  rc_new :: "ref_target option"

type_synonym idem_key = bytes

record parsed_tx =
  px_changes :: "ref_change list"
  px_key :: "idem_key option"

definition PAYLOAD_REF_TX :: u8 where "PAYLOAD_REF_TX = 1"
definition TX_VERSION :: u8 where "TX_VERSION = 2"
definition TARGET_ABSENT :: u8 where "TARGET_ABSENT = 0"
definition TARGET_OID :: u8 where "TARGET_OID = 1"
definition TARGET_SYMBOLIC :: u8 where "TARGET_SYMBOLIC = 2"

text \<open>A name with its length in front, which is cut to 16 bits.\<close>

definition encode_name :: "bytes \<Rightarrow> bytes" where
  "encode_name n = le_bytes 2 (of_nat (length n) :: u16) @ n"

definition algo_tag :: "hash_algo \<Rightarrow> u8" where
  "algo_tag a = (case a of Sha1 \<Rightarrow> 1 | Sha256 \<Rightarrow> 2)"

fun encode_target :: "ref_target option \<Rightarrow> bytes" where
  "encode_target None = [TARGET_ABSENT]"
| "encode_target (Some (TargetOid oid)) = TARGET_OID # algo_tag (oid_algo oid) # oid_as_bytes oid"
| "encode_target (Some (TargetSymbolic n)) = TARGET_SYMBOLIC # encode_name n"

definition encode_change :: "ref_change \<Rightarrow> bytes" where
  "encode_change c = encode_name (rc_name c) @ encode_target (rc_old c) @ encode_target (rc_new c)"

definition encode_tx :: "ref_change list \<Rightarrow> idem_key option \<Rightarrow> bytes" where
  "encode_tx changes key =
     [PAYLOAD_REF_TX, TX_VERSION] @ le_bytes 4 (of_nat (length changes) :: u32)
     @ concat (map encode_change changes)
     @ (case key of Some k \<Rightarrow> of_nat (length k) # k | None \<Rightarrow> [0])"

text \<open>The parsers, on the bytes that remain.\<close>

definition parse_name :: "string \<Rightarrow> bytes \<Rightarrow> ref_error + (bytes \<times> bytes)" where
  "parse_name not_utf8 d =
     bindR (read_le 2 (RefFormat ''ref tx truncated'') d) (\<lambda>(len :: u16, d).
     bindR (ok_or (RefFormat ''ref tx truncated'') (take_n (unat len) d)) (\<lambda>(raw, d).
       if utf8 raw then Inr (raw, d) else Inl (RefFormat not_utf8)))"

definition parse_algo :: "bytes \<Rightarrow> ref_error + (hash_algo \<times> bytes)" where
  "parse_algo d =
     (case next_byte d of
        Some (tag, d) \<Rightarrow>
          if tag = 1 then Inr (Sha1, d) else if tag = 2 then Inr (Sha256, d)
          else Inl (RefFormat ''bad hash algo in ref tx'')
      | None \<Rightarrow> Inl (RefFormat ''bad hash algo in ref tx''))"

definition parse_target :: "bytes \<Rightarrow> ref_error + (ref_target option \<times> bytes)" where
  "parse_target d =
     bindR (ok_or (RefFormat ''ref tx truncated'') (next_byte d)) (\<lambda>(tag, d).
       if tag = TARGET_ABSENT then Inr (None, d)
       else if tag = TARGET_OID then
         bindR (parse_algo d) (\<lambda>(algo, d).
         bindR (ok_or (RefFormat ''ref tx truncated'') (take_n (raw_len algo) d)) (\<lambda>(raw, d).
         bindR (map_err (\<lambda>_. RefFormat ''bad oid in ref tx'') (oid_from_bytes algo raw)) (\<lambda>oid.
           Inr (Some (TargetOid oid), d))))
       else if tag = TARGET_SYMBOLIC then
         bindR (parse_name ''symref target is not utf-8'' d) (\<lambda>(name, d). Inr (Some (TargetSymbolic name), d))
       else Inl (RefFormat ''bad target tag in ref tx''))"

definition parse_change :: "bytes \<Rightarrow> ref_error + (ref_change \<times> bytes)" where
  "parse_change d =
     bindR (parse_name ''ref name is not utf-8'' d) (\<lambda>(name, d).
     bindR (parse_target d) (\<lambda>(old, d).
     bindR (parse_target d) (\<lambda>(new, d).
       Inr (\<lparr>rc_name = name, rc_old = old, rc_new = new\<rparr>, d))))"

definition parse_key :: "bytes \<Rightarrow> ref_error + (idem_key option \<times> bytes)" where
  "parse_key d =
     bindR (ok_or (RefFormat ''ref tx truncated'') (next_byte d)) (\<lambda>(key_len, d).
       if key_len = 0 then Inr (None, d)
       else if key_len = 16 then
         bindR (ok_or (RefFormat ''ref tx truncated'') (take_n 16 d)) (\<lambda>(raw, d). Inr (Some raw, d))
       else Inl (RefFormat ''bad idempotency key length in ref tx''))"

definition parse_tx :: "bytes \<Rightarrow> ref_error + parsed_tx option" where
  "parse_tx payload =
     (if payload = [] \<or> hd payload \<noteq> PAYLOAD_REF_TX then Inr None
      else
        let version = map_option fst (next_byte (tl payload))
        in if version \<noteq> Some 1 \<and> version \<noteq> Some TX_VERSION then Inl (RefFormat ''unsupported ref tx version'')
           else
             bindR (read_le 4 (RefFormat ''ref tx truncated'') (drop 2 payload)) (\<lambda>(n :: u32, d).
             bindR (repeat_parse parse_change (unat n) d) (\<lambda>(changes, d).
             bindR (if version = Some 1 then Inr (None, d) else parse_key d) (\<lambda>(key, d).
               if d = [] then Inr (Some \<lparr>px_changes = changes, px_key = key\<rparr>)
               else Inl (RefFormat ''ref tx has trailing bytes'')))))"

section \<open>Snapshots\<close>

definition SNAPSHOT_MAGIC :: bytes where "SNAPSHOT_MAGIC = lit ''ALTS''"
definition SNAPSHOT_VERSION :: u8 where "SNAPSHOT_VERSION = 1"

definition encode_ref :: "bytes \<times> ref_target \<Rightarrow> bytes" where
  "encode_ref = (\<lambda>(name, target). encode_name name @ encode_target (Some target))"

definition snapshot_body :: "op_id \<Rightarrow> (bytes, ref_target) btree \<Rightarrow> bytes" where
  "snapshot_body at_op refs =
     SNAPSHOT_MAGIC @ [SNAPSHOT_VERSION] @ at_op @ le_bytes 4 (of_nat (length refs) :: u32)
     @ concat (map encode_ref refs)"

definition snapshot_write :: "(bytes \<Rightarrow> bytes) \<Rightarrow> op_id \<Rightarrow> (bytes, ref_target) btree \<Rightarrow> bytes" where
  "snapshot_write h at_op refs =
     (let buf = snapshot_body at_op refs in buf @ take 8 (h buf))"

text \<open>One ref of a snapshot; every failure is the same, the snapshot is then ignored.\<close>

definition snapshot_name :: "bytes \<Rightarrow> unit + (bytes \<times> bytes)" where
  "snapshot_name d =
     bindR (read_le 2 () d) (\<lambda>(len :: u16, d).
     bindR (ok_or () (take_n (unat len) d)) (\<lambda>(raw, d).
       if utf8 raw then Inr (raw, d) else Inl ()))"

definition snapshot_target :: "bytes \<Rightarrow> unit + (ref_target \<times> bytes)" where
  "snapshot_target d =
     bindR (ok_or () (next_byte d)) (\<lambda>(tag, d).
       if tag = TARGET_OID then
         bindR (ok_or () (next_byte d)) (\<lambda>(a, d).
         bindR (if a = 1 then Inr Sha1 else if a = 2 then Inr Sha256 else Inl ()) (\<lambda>algo.
         bindR (ok_or () (take_n (raw_len algo) d)) (\<lambda>(raw, d).
         bindR (map_err (\<lambda>_. ()) (oid_from_bytes algo raw)) (\<lambda>oid. Inr (TargetOid oid, d)))))
       else if tag = TARGET_SYMBOLIC then
         bindR (snapshot_name d) (\<lambda>(sym, d). Inr (TargetSymbolic sym, d))
       else Inl ())"

definition snapshot_ref :: "bytes \<Rightarrow> unit + ((bytes \<times> ref_target) \<times> bytes)" where
  "snapshot_ref d =
     bindR (snapshot_name d) (\<lambda>(name, d). bindR (snapshot_target d) (\<lambda>(target, d). Inr ((name, target), d)))"

definition snapshot_read :: "(bytes \<Rightarrow> bytes) \<Rightarrow> bytes \<Rightarrow> (op_id \<times> (bytes, ref_target) btree) option" where
  "snapshot_read h data =
     (if length data < 49 \<or> take 4 data \<noteq> SNAPSHOT_MAGIC \<or> data ! 4 \<noteq> SNAPSHOT_VERSION then None
      else
        let body = take (length data - 8) data; check = drop (length data - 8) data
        in if take 8 (h body) \<noteq> check then None
           else
             okR (bindR (repeat_parse snapshot_ref (unat (from_le (take 4 (drop 37 body)) :: u32)) (drop 41 body))
               (\<lambda>(refs, d). if d = [] then Inr (take 32 (drop 5 body), bt_of_list refs) else Inl ())))"

section \<open>Transactions read back\<close>

definition tx_name_ok :: "bytes \<Rightarrow> bool" where
  "tx_name_ok n \<longleftrightarrow> utf8 n \<and> length n < 65536"

definition target_ok :: "ref_target \<Rightarrow> bool" where
  "target_ok t = (case t of TargetOid oid \<Rightarrow> wf_oid oid | TargetSymbolic n \<Rightarrow> tx_name_ok n)"

definition change_ok :: "ref_change \<Rightarrow> bool" where
  "change_ok c \<longleftrightarrow> tx_name_ok (rc_name c) \<and> pred_option target_ok (rc_old c) \<and> pred_option target_ok (rc_new c)"

definition tx_ok :: "ref_change list \<Rightarrow> idem_key option \<Rightarrow> bool" where
  "tx_ok changes key \<longleftrightarrow>
     list_all change_ok changes \<and> length changes < 4294967296 \<and> pred_option (\<lambda>k. length k = 16) key"

lemma parse_name_enc: "tx_name_ok n \<Longrightarrow> parse_name msg (encode_name n @ rest) = Inr (n, rest)"
  by (simp add: parse_name_def encode_name_def tx_name_ok_def codec_simps)

lemma parse_algo_tag: "parse_algo (algo_tag a # rest) = Inr (a, rest)"
  by (cases a) (simp_all add: parse_algo_def algo_tag_def)

lemma oid_from_as_bytes: "wf_oid oid \<Longrightarrow> oid_from_bytes (oid_algo oid) (oid_as_bytes oid) = Inr oid"
  by (simp add: oid_from_bytes_def wf_oid_def)

lemma target_tags [simp]: "TARGET_OID \<noteq> TARGET_ABSENT" "TARGET_SYMBOLIC \<noteq> TARGET_ABSENT" "TARGET_SYMBOLIC \<noteq> TARGET_OID"
  by (simp_all add: TARGET_OID_def TARGET_ABSENT_def TARGET_SYMBOLIC_def)

lemma parse_target_enc:
  "pred_option target_ok t \<Longrightarrow> parse_target (encode_target t @ rest) = Inr (t, rest)"
  by (cases t rule: encode_target.cases)
    (simp_all add: parse_target_def target_ok_def parse_algo_tag take_n_append wf_oid_def parse_name_enc oid_from_bytes_def)

lemma parse_name_canonical:
  "parse_name msg d = Inr (n, r) \<Longrightarrow> d = encode_name n @ r \<and> tx_name_ok n"
  using unsigned_less [where ?'b = 16]
  by (auto simp: parse_name_def bindR_eq_Inr take_n_eq_Some encode_name_def tx_name_ok_def
      dest!: le16.dec_canonical split: if_splits)

lemma parse_algo_canonical: "parse_algo d = Inr (a, r) \<Longrightarrow> d = algo_tag a # r"
  by (auto simp: parse_algo_def algo_tag_def next_byte_eq_Some split: option.splits if_splits)

lemma parse_target_canonical:
  "parse_target d = Inr (t, r) \<Longrightarrow> d = encode_target t @ r \<and> pred_option target_ok t"
  by (auto simp: parse_target_def bindR_eq_Inr next_byte_eq_Some take_n_eq_Some target_ok_def oid_from_bytes_def
      wf_mk_oid dest!: parse_algo_canonical parse_name_canonical split: if_splits)

interpretation tx_targets: canonical_codec encode_target parse_target "pred_option target_ok"
  by unfold_locales (rule parse_target_enc, assumption, rule parse_target_canonical)

interpretation tx_changes: canonical_codec encode_change parse_change change_ok
proof unfold_locales
  show "parse_change (encode_change c @ rest) = Inr (c, rest)" if "change_ok c" for c rest
    using that by (simp add: parse_change_def encode_change_def change_ok_def parse_name_enc tx_targets.dec_enc)
  show "d = encode_change c @ r \<and> change_ok c" if "parse_change d = Inr (c, r)" for d c r
    using that by (auto simp: parse_change_def encode_change_def change_ok_def bindR_eq_Inr
        dest!: parse_name_canonical tx_targets.dec_canonical)
qed

lemma parse_key_enc:
  "pred_option (\<lambda>k. length k = 16) key \<Longrightarrow>
   parse_key (case key of Some k \<Rightarrow> of_nat (length k) # k | None \<Rightarrow> [0]) = Inr (key, [])"
  by (cases key) (simp_all add: parse_key_def take_n_exact)

lemma parse_encode_tx:
  assumes "tx_ok changes key"
  shows "parse_tx (encode_tx changes key) = Inr (Some \<lparr>px_changes = changes, px_key = key\<rparr>)"
proof -
  have "unat (of_nat (length changes) :: u32) = length changes"
    using assms by (simp add: tx_ok_def codec_simps)
  moreover have "repeat_parse parse_change (length changes) (concat (map encode_change changes) @ r) = Inr (changes, r)" for r
    using assms by (intro tx_changes.repeat_dec_enc) (simp add: tx_ok_def list_all_iff)
  ultimately show ?thesis
    using assms
    by (simp add: parse_tx_def encode_tx_def TX_VERSION_def read_le_append parse_key_enc tx_ok_def)
qed

lemma parse_tx_canonical:
  assumes p: "parse_tx payload = Inr (Some px)" and v: "take 2 payload \<noteq> [PAYLOAD_REF_TX, 1]"
  shows "payload = encode_tx (px_changes px) (px_key px) \<and> tx_ok (px_changes px) (px_key px)"
proof -
  from p obtain n :: u32 and changes d key where
    head: "payload \<noteq> []" "hd payload = PAYLOAD_REF_TX" "map_option fst (next_byte (tl payload)) \<in> {Some 1, Some TX_VERSION}"
    and n: "read_le 4 (RefFormat ''ref tx truncated'') (drop 2 payload) = Inr (n, fst d)"
    and changes: "repeat_parse parse_change (unat n) (fst d) = Inr (changes, snd d)"
    and key: "map_option fst (next_byte (tl payload)) \<noteq> Some 1 \<Longrightarrow> parse_key (snd d) = Inr (key, [])"
    and px: "px = \<lparr>px_changes = changes, px_key = key\<rparr>"
    by (auto simp: parse_tx_def Let_def bindR_eq_Inr split: if_splits)
  obtain r where pl: "payload = PAYLOAD_REF_TX # TX_VERSION # r"
    using head v by (cases payload; cases "tl payload") auto
  then have key': "snd d = (case key of Some k \<Rightarrow> of_nat (length k) # k | None \<Rightarrow> [0])"
    and key_ok: "pred_option (\<lambda>k. length k = 16) key"
    using key by (auto simp: parse_key_def bindR_eq_Inr next_byte_eq_Some take_n_eq_Some TX_VERSION_def split: if_splits)
  have "r = le_bytes 4 n @ fst d"
    using le32.dec_canonical [OF n] by (simp add: pl)
  moreover note tx_changes.repeat_dec_canonical [OF changes]
  moreover have "unat n < 4294967296" by (rule unat_u32_less)
  ultimately show ?thesis
    using key' key_ok by (auto simp: px encode_tx_def pl tx_ok_def list_all_iff)
qed

section \<open>Snapshots read back\<close>

lemma snapshot_name_enc: "tx_name_ok n \<Longrightarrow> snapshot_name (encode_name n @ rest) = Inr (n, rest)"
  by (simp add: snapshot_name_def encode_name_def tx_name_ok_def codec_simps)

lemma snapshot_target_enc:
  "target_ok t \<Longrightarrow> snapshot_target (encode_target (Some t) @ rest) = Inr (t, rest)"
proof (cases t)
  case (TargetOid oid)
  then show "target_ok t \<Longrightarrow> ?thesis"
    by (cases oid) (simp_all add: snapshot_target_def target_ok_def algo_tag_def take_n_append wf_oid_def oid_from_bytes_def)
qed (simp add: snapshot_target_def target_ok_def snapshot_name_enc)

interpretation snapshot_refs: prefix_codec encode_ref snapshot_ref "\<lambda>(name, t). tx_name_ok name \<and> target_ok t"
  by unfold_locales (auto simp: snapshot_ref_def encode_ref_def snapshot_name_enc snapshot_target_enc)

definition refs_ok :: "(bytes, ref_target) btree \<Rightarrow> bool" where
  "refs_ok refs \<longleftrightarrow> bt_ok refs \<and> list_all (\<lambda>(name, t). tx_name_ok name \<and> target_ok t) refs"

lemma snapshot_read_write:
  assumes h: "hash_ok h" and at_op: "length at_op = 32" and refs: "refs_ok refs" "length refs < 4294967296"
  shows "snapshot_read h (snapshot_write h at_op refs) = Some (at_op, refs)"
proof -
  let ?n = "le_bytes 4 (of_nat (length refs) :: u32)"
  let ?body = "snapshot_body at_op refs"
  have body: "?body = (SNAPSHOT_MAGIC @ [SNAPSHOT_VERSION]) @ at_op @ ?n @ concat (map encode_ref refs)"
    by (simp add: snapshot_body_def)
  have magic: "length SNAPSHOT_MAGIC = 4" by (simp add: SNAPSHOT_MAGIC_def)
  have slices: "take 32 (drop 5 ?body) = at_op" "take 4 (drop 37 ?body) = ?n" "drop 41 ?body = concat (map encode_ref refs)"
    using at_op magic by (simp_all add: body)
  have check: "length (take 8 (h ?body)) = 8" using h by (simp add: hash_ok_def)
  have "unat (from_le ?n :: u32) = length refs"
    using refs(2) by (simp add: codec_simps)
  moreover have "repeat_parse snapshot_ref (length refs) (concat (map encode_ref refs)) = Inr (refs, [])"
    using snapshot_refs.repeat_dec_enc [of refs "[]"] refs(1) by (simp add: refs_ok_def list_all_iff)
  moreover have "49 \<le> length (?body @ take 8 (h ?body))" "take 4 (?body @ take 8 (h ?body)) = SNAPSHOT_MAGIC"
    "(?body @ take 8 (h ?body)) ! 4 = SNAPSHOT_VERSION"
    using at_op magic check by (simp_all add: body nth_append)
  ultimately show ?thesis
    using refs(1) check
    by (simp add: snapshot_read_def snapshot_write_def Let_def slices refs_ok_def bt_of_list_id)
qed

section \<open>Properties\<close>

text \<open>Every ref transaction with names and symref targets of fewer than 65536 bytes is read back
  from the payload it is recorded as, with its idempotency key; and a payload of the current
  version that parses is exactly the one its transaction would be recorded as.\<close>

theorem tx_round_trip:
  "(tx_ok changes key \<longrightarrow> parse_tx (encode_tx changes key) = Inr (Some \<lparr>px_changes = changes, px_key = key\<rparr>)) \<and>
   (parse_tx payload = Inr (Some px) \<longrightarrow> take 2 payload \<noteq> [PAYLOAD_REF_TX, 1] \<longrightarrow>
     payload = encode_tx (px_changes px) (px_key px))"
  using parse_encode_tx parse_tx_canonical by blast

definition sample_change :: ref_change where
  "sample_change = \<lparr>rc_name = lit ''refs/heads/main'', rc_old = None, rc_new = Some (TargetOid (OidSha1 (replicate 20 7)))\<rparr>"

lemma sample_change_ok: "change_ok sample_change"
proof -
  have "utf8 (lit ''refs/heads/main'')" by (rule utf8_ascii) simp
  then show ?thesis by (simp add: change_ok_def sample_change_def tx_name_ok_def target_ok_def wf_oid_def)
qed

theorem tx_round_trip_witness:
  "parse_tx (encode_tx [sample_change] (Some (replicate 16 9)))
     = Inr (Some \<lparr>px_changes = [sample_change], px_key = Some (replicate 16 9)\<rparr>)"
  using tx_round_trip [of "[sample_change]" "Some (replicate 16 9)"] sample_change_ok
  by (simp add: tx_ok_def)

text \<open>The length of a name is cut to 16 bits when a transaction is recorded: a change of a ref
  with a name of 65536 bytes is recorded as a payload that does not parse.\<close>

theorem long_name_unreadable:
  "parse_tx (encode_tx [c\<lparr>rc_name := replicate 65536 0x61\<rparr>] key) = Inl (RefFormat ''bad target tag in ref tx'')"
proof -
  have len: "(of_nat 65536 :: u16) = 0"
    by (rule word_of_nat_eq_0_iff [THEN iffD2]) simp
  have name: "replicate 65536 (0x61 :: u8) = 0x61 # replicate 65535 0x61"
    by (subst replicate_Suc [symmetric]) (simp del: replicate.simps)
  have "parse_name msg (le_bytes 2 (0 :: u16) @ d) = Inr ([], d)" for msg d
    by (simp add: parse_name_def read_le_append take_n_def)
  moreover have "parse_target (0x61 # d) = Inl (RefFormat ''bad target tag in ref tx'')" for d
    by (simp add: parse_target_def TARGET_ABSENT_def TARGET_OID_def TARGET_SYMBOLIC_def)
  ultimately show ?thesis
    by (simp add: parse_tx_def encode_tx_def TX_VERSION_def read_le_append parse_change_def encode_change_def
        encode_name_def len name del: replicate.simps of_nat_numeral)
qed

text \<open>A snapshot that was written is read back as the same operation and the same refs.\<close>

theorem snapshot_round_trip:
  assumes "hash_ok h" and "length at_op = 32" and "refs_ok refs" and "length refs < 4294967296"
  shows "snapshot_read h (snapshot_write h at_op refs) = Some (at_op, refs)"
  using snapshot_read_write [OF assms] .

theorem snapshot_round_trip_witness:
  "snapshot_read zero_hash (snapshot_write zero_hash ROOT [(lit ''HEAD'', TargetSymbolic (lit ''refs/heads/main''))])
     = Some (ROOT, [(lit ''HEAD'', TargetSymbolic (lit ''refs/heads/main''))])"
proof -
  have "utf8 (lit ''HEAD'')" "utf8 (lit ''refs/heads/main'')"
    by (rule utf8_ascii, simp)+
  then show ?thesis
    by (intro snapshot_round_trip [OF zero_hash_ok])
      (simp_all add: ROOT_def refs_ok_def tx_name_ok_def target_ok_def)
qed

end
