(* ===== verification/Ref_Store.thy ===== *)
theory Ref_Store
  imports Ref_Tx
begin

text \<open>
  \<^verbatim>\<open>alt-refs/src/lib.rs\<close>: the ref store.  The refs are a function of the operation log; a
  transaction is one operation that carries its expected old values, and is checked against the
  refs of the whole log while the log is locked.
\<close>

section \<open>The policy gate\<close>

type_synonym ref_map = "(bytes, ref_target) btree"

record ref_policy =
  pol_read_only :: bool
  pol_is_branch_allowed :: "(bytes \<Rightarrow> bool) option"
  pol_state_check :: "(ref_map \<Rightarrow> ref_change list \<Rightarrow> bytes + unit) option"

definition policy_full :: ref_policy where
  "policy_full = \<lparr>pol_read_only = False, pol_is_branch_allowed = None, pol_state_check = None\<rparr>"

definition policy_check :: "ref_policy \<Rightarrow> ref_map \<Rightarrow> ref_change list \<Rightarrow> ref_error + unit" where
  "policy_check p refs changes =
     (if pol_read_only p \<and> changes \<noteq> []
      then Inl (CapabilityDenied (lit ''<read-only>: principal cannot write any ref''))
      else
        case (case pol_is_branch_allowed p of
                None \<Rightarrow> None | Some allow \<Rightarrow> find (\<lambda>c. \<not> allow (rc_name c)) changes) of
          Some c \<Rightarrow> Inl (CapabilityDenied (rc_name c @ lit '': principal cannot write this ref''))
        | None \<Rightarrow>
            (case pol_state_check p of
               None \<Rightarrow> Inr ()
             | Some f \<Rightarrow> map_err Rejected (f refs changes)))"

section \<open>Applying transactions\<close>

definition apply_change :: "ref_change \<Rightarrow> ref_map \<Rightarrow> ref_map" where
  "apply_change c refs =
     (case rc_new c of Some target \<Rightarrow> bt_insert (rc_name c) target refs | None \<Rightarrow> bt_remove (rc_name c) refs)"

definition apply_changes :: "bool \<Rightarrow> ref_map \<Rightarrow> ref_change list \<Rightarrow> ref_error + ref_map" where
  "apply_changes replaying refs changes =
     (case find (\<lambda>c. bt_get refs (rc_name c) \<noteq> rc_old c) changes of
        Some c \<Rightarrow>
          Inl (if replaying then RefFormat ''ref state diverged during replay'' else RefConflict (rc_name c))
      | None \<Rightarrow> Inr (fold apply_change changes refs))"

type_synonym key_index = "idem_key \<Rightarrow> op_id option"

text \<open>The loops over operations; on an error the refs and keys are as far as they got.\<close>

fun fold_ops :: "op_entry list \<Rightarrow> ref_map \<Rightarrow> key_index \<Rightarrow> (ref_error + unit) \<times> ref_map \<times> key_index" where
  "fold_ops [] refs by_key = (Inr (), refs, by_key)"
| "fold_ops (entry # ops) refs by_key =
     (case parse_tx (op_payload entry) of
        Inl e \<Rightarrow> (Inl e, refs, by_key)
      | Inr None \<Rightarrow> fold_ops ops refs by_key
      | Inr (Some tx) \<Rightarrow>
          (case apply_changes True refs (px_changes tx) of
             Inl e \<Rightarrow> (Inl e, refs, by_key)
           | Inr refs' \<Rightarrow>
               fold_ops ops refs'
                 (case px_key tx of None \<Rightarrow> by_key | Some k \<Rightarrow> by_key(k \<mapsto> op_id entry))))"

text \<open>What a commit's closure captures: the refs, how many operations they reflect, and the keys.\<close>

type_synonym folded = "ref_map \<times> nat \<times> key_index"

definition fold_new :: "op_entry list \<Rightarrow> folded \<Rightarrow> (ref_error + unit) \<times> folded" where
  "fold_new ops = (\<lambda>(refs, applied, by_key).
     case fold_ops (drop applied ops) refs by_key of
       (Inl e, refs', by_key') \<Rightarrow> (Inl e, refs', applied, by_key')
     | (Inr _, refs', by_key') \<Rightarrow> (Inr (), refs', length ops, by_key'))"

section \<open>The store\<close>

definition MAX_SYMREF_DEPTH :: nat where "MAX_SYMREF_DEPTH = 5"
definition SNAPSHOT_EVERY :: nat where "SNAPSHOT_EVERY = 1024"

record ref_store =
  st_oplog :: op_log
  st_refs :: ref_map
  st_ops_since_snapshot :: nat
  st_applied :: nat
  st_by_key :: key_index

text \<open>The log's files and the snapshot file, which may be missing.\<close>

record store_disk =
  sd_log :: log_disk
  sd_snapshot :: "bytes option"

text \<open>The refs and the position that the snapshot file lets the replay start from.\<close>

definition snapshot_start :: "(bytes \<Rightarrow> bytes) \<Rightarrow> op_log \<Rightarrow> bytes option \<Rightarrow> ref_map \<times> nat" where
  "snapshot_start h log file =
     (case file of
        None \<Rightarrow> ([], 0)
      | Some data \<Rightarrow>
          (case snapshot_read h data of
             None \<Rightarrow> ([], 0)
           | Some (at_op, refs) \<Rightarrow>
               (case log_index_of log at_op of Some index \<Rightarrow> (refs, index + 1) | None \<Rightarrow> ([], 0))))"

definition store_open ::
  "(bytes \<Rightarrow> bytes) \<Rightarrow> (log_disk \<Rightarrow> log_disk) \<Rightarrow> store_disk \<Rightarrow> (ref_error + ref_store) \<times> store_disk" where
  "store_open h meanwhile sd =
     (case log_open h meanwhile (sd_log sd) of
        (Inl e, d) \<Rightarrow> (Inl (RefOpLog e), sd\<lparr>sd_log := d\<rparr>)
      | (Inr log, d) \<Rightarrow>
          let (refs, replay_from) = snapshot_start h log (sd_snapshot sd);
              ops = drop replay_from (log_ops log);
              (res, refs', by_key) = fold_ops ops refs (\<lambda>_. None)
          in (bindR res (\<lambda>_. Inr
                \<lparr>st_oplog = log, st_refs = refs', st_ops_since_snapshot = length ops,
                 st_applied = length (log_ops log), st_by_key = by_key\<rparr>),
              sd\<lparr>sd_log := d\<rparr>))"

definition store_snapshot :: "(bytes \<Rightarrow> bytes) \<Rightarrow> ref_store \<Rightarrow> store_disk \<Rightarrow> ref_store \<times> store_disk" where
  "store_snapshot h st sd =
     (case log_head (st_oplog st) of
        None \<Rightarrow> (st, sd)
      | Some hd_op \<Rightarrow>
          (st\<lparr>st_ops_since_snapshot := 0\<rparr>, sd\<lparr>sd_snapshot := Some (snapshot_write h hd_op (st_refs st))\<rparr>))"

definition note_op :: "(bytes \<Rightarrow> bytes) \<Rightarrow> ref_store \<Rightarrow> store_disk \<Rightarrow> ref_store \<times> store_disk" where
  "note_op h st sd =
     (let st' = st\<lparr>st_ops_since_snapshot := st_ops_since_snapshot st + 1\<rparr>
      in if SNAPSHOT_EVERY \<le> st_ops_since_snapshot st' then store_snapshot h st' sd else (st', sd))"

text \<open>The closure of a commit: catch up, ask the policy, check the expected values, build the payload.\<close>

definition commit_build ::
  "ref_change list \<Rightarrow> idem_key option \<Rightarrow> ref_policy option \<Rightarrow> op_entry list \<Rightarrow> folded
     \<Rightarrow> (ref_error + bytes) \<times> folded" where
  "commit_build changes key policy ops s =
     (case fold_new ops s of
        (Inl e, s') \<Rightarrow> (Inl e, s')
      | (Inr _, s') \<Rightarrow>
          (bindR (case policy of None \<Rightarrow> Inr () | Some p \<Rightarrow> policy_check p (fst s') changes) (\<lambda>_.
           bindR (apply_changes False (fst s') changes) (\<lambda>_. Inr (encode_tx changes key))), s'))"

text \<open>How a store takes back what the closure did to its fields.\<close>

definition put_folded :: "folded \<Rightarrow> op_log \<Rightarrow> ref_store \<Rightarrow> ref_store" where
  "put_folded = (\<lambda>(refs, applied, by_key) log st.
     st\<lparr>st_oplog := log, st_refs := refs, st_applied := applied, st_by_key := by_key\<rparr>)"

definition commit_idempotent ::
  "(bytes \<Rightarrow> bytes) \<Rightarrow> bool \<Rightarrow> (log_disk \<Rightarrow> log_disk) \<Rightarrow> bytes \<Rightarrow> u64 \<Rightarrow> ref_change list \<Rightarrow> idem_key option
     \<Rightarrow> ref_policy option \<Rightarrow> ref_store \<Rightarrow> store_disk \<Rightarrow> (ref_error + op_id) \<times> ref_store \<times> store_disk" where
  "commit_idempotent h relaxed meanwhile actor timestamp_ms changes key policy st sd =
     (let (res, s, log, d) =
        append_checked h RefOpLog actor timestamp_ms (commit_build changes key policy)
          (st_refs st, st_applied st, st_by_key st) (st_oplog st) (sd_log sd);
          st1 = put_folded s log st
      in case res of
           Inl e \<Rightarrow> (Inl e, st1, sd\<lparr>sd_log := d\<rparr>)
         | Inr hash \<Rightarrow>
             let (log', d') = log_sync relaxed meanwhile log d;
                 st2 = st1\<lparr>st_oplog := log'\<rparr>; sd' = sd\<lparr>sd_log := d'\<rparr>
             in case apply_changes False (st_refs st2) changes of
                  Inl e \<Rightarrow> (Inl e, st2, sd')
                | Inr refs \<Rightarrow>
                    let st3 = st2\<lparr>st_refs := refs,
                                  st_by_key := (case key of None \<Rightarrow> st_by_key st2
                                                | Some k \<Rightarrow> (st_by_key st2)(k \<mapsto> hash)),
                                  st_applied := length (log_ops log')\<rparr>;
                        (st4, sd'') = note_op h st3 sd'
                    in (Inr hash, st4, sd''))"

definition ref_commit ::
  "(bytes \<Rightarrow> bytes) \<Rightarrow> bool \<Rightarrow> (log_disk \<Rightarrow> log_disk) \<Rightarrow> bytes \<Rightarrow> u64 \<Rightarrow> ref_change list
     \<Rightarrow> ref_store \<Rightarrow> store_disk \<Rightarrow> (ref_error + op_id) \<times> ref_store \<times> store_disk" where
  "ref_commit h relaxed meanwhile actor timestamp_ms changes st sd =
     commit_idempotent h relaxed meanwhile actor timestamp_ms changes None None st sd"

definition applied_request :: "ref_store \<Rightarrow> idem_key \<Rightarrow> op_id option" where
  "applied_request st key = st_by_key st key"

text \<open>Operations of other kinds share the log.\<close>

definition record_build :: "bytes \<Rightarrow> op_entry list \<Rightarrow> folded \<Rightarrow> (ref_error + bytes) \<times> folded" where
  "record_build payload ops s =
     (case fold_new ops s of (Inl e, s') \<Rightarrow> (Inl e, s') | (Inr _, s') \<Rightarrow> (Inr payload, s'))"

definition record_op ::
  "(bytes \<Rightarrow> bytes) \<Rightarrow> bool \<Rightarrow> (log_disk \<Rightarrow> log_disk) \<Rightarrow> bytes \<Rightarrow> u64 \<Rightarrow> bytes
     \<Rightarrow> ref_store \<Rightarrow> store_disk \<Rightarrow> (ref_error + op_id) \<times> ref_store \<times> store_disk" where
  "record_op h relaxed meanwhile actor timestamp_ms payload st sd =
     (if payload \<noteq> [] \<and> hd payload = PAYLOAD_REF_TX then (Inl (ReservedPayload PAYLOAD_REF_TX), st, sd)
      else
        let (res, s, log, d) =
          append_checked h RefOpLog actor timestamp_ms (record_build payload)
            (st_refs st, st_applied st, st_by_key st) (st_oplog st) (sd_log sd);
            st1 = put_folded s log st
        in case res of
             Inl e \<Rightarrow> (Inl e, st1, sd\<lparr>sd_log := d\<rparr>)
           | Inr hash \<Rightarrow>
               let (log', d') = log_sync relaxed meanwhile log d;
                   (st2, sd') = note_op h (st1\<lparr>st_oplog := log', st_applied := length (log_ops log')\<rparr>)
                                  (sd\<lparr>sd_log := d'\<rparr>)
               in (Inr hash, st2, sd'))"

definition store_refresh ::
  "(bytes \<Rightarrow> bytes) \<Rightarrow> ref_store \<Rightarrow> store_disk \<Rightarrow> (ref_error + unit) \<times> ref_store \<times> store_disk" where
  "store_refresh h st sd =
     (case log_refresh h (st_oplog st) (sd_log sd) of
        (Inl e, log, d) \<Rightarrow> (Inl (RefOpLog e), st\<lparr>st_oplog := log\<rparr>, sd\<lparr>sd_log := d\<rparr>)
      | (Inr _, log, d) \<Rightarrow>
          let (res, s) = fold_new (log_ops log) (st_refs st, st_applied st, st_by_key st)
          in (res, put_folded s log st, sd\<lparr>sd_log := d\<rparr>))"

text \<open>Symbolic refs are followed through at most six lookups.\<close>

fun resolve_from :: "nat \<Rightarrow> ref_map \<Rightarrow> bytes \<Rightarrow> object_id option option" where
  "resolve_from 0 refs current = None"
| "resolve_from (Suc n) refs current =
     (case bt_get refs current of
        Some (TargetOid oid) \<Rightarrow> Some (Some oid)
      | Some (TargetSymbolic next) \<Rightarrow> resolve_from n refs next
      | None \<Rightarrow> Some None)"

definition resolve :: "ref_store \<Rightarrow> bytes \<Rightarrow> ref_error + object_id option" where
  "resolve st name = ok_or (SymrefDepth name) (resolve_from (MAX_SYMREF_DEPTH + 1) (st_refs st) name)"

fun last_tx :: "op_entry list \<Rightarrow> ref_error + ref_change list option" where
  "last_tx [] = Inr None"
| "last_tx (entry # ops) =
     bindR (parse_tx (op_payload entry)) (\<lambda>tx.
       case tx of Some t \<Rightarrow> Inr (Some (px_changes t)) | None \<Rightarrow> last_tx ops)"

definition last_transaction :: "ref_store \<Rightarrow> ref_error + ref_change list option" where
  "last_transaction st = last_tx (rev (log_ops (st_oplog st)))"

section \<open>The interface to the log\<close>

text \<open>
  What the store relies on: an append whose payload is built under the lock from the whole
  history, and that either records one entry behind it or leaves it as it is.
\<close>

locale checked_log =
  fixes knows :: "'l \<Rightarrow> 'o list \<Rightarrow> bool"
    and holds :: "'d \<Rightarrow> 'o list \<Rightarrow> bool"
    and append :: "('o list \<Rightarrow> 's \<Rightarrow> ('e + 'p) \<times> 's) \<Rightarrow> 's \<Rightarrow> 'l \<Rightarrow> 'd \<Rightarrow> ('e + 'i) \<times> 's \<times> 'l \<times> 'd"
    and entry :: "'o list \<Rightarrow> 'p \<Rightarrow> 'o"
    and ident :: "'o \<Rightarrow> 'i"
    and fits :: "'p \<Rightarrow> bool"
  assumes append_rejected: "knows l es \<Longrightarrow> holds d (es @ fs) \<Longrightarrow> build (es @ fs) s = (Inl e, s') \<Longrightarrow>
      \<exists>l' d'. append build s l d = (Inl e, s', l', d') \<and> knows l' (es @ fs) \<and> holds d' (es @ fs)"
    and append_accepted: "knows l es \<Longrightarrow> holds d (es @ fs) \<Longrightarrow> build (es @ fs) s = (Inr p, s') \<Longrightarrow> fits p \<Longrightarrow>
      \<exists>l' d'. append build s l d = (Inr (ident (entry (es @ fs) p)), s', l', d') \<and>
        knows l' (es @ fs @ [entry (es @ fs) p]) \<and> holds d' (es @ fs @ [entry (es @ fs) p])"

text \<open>
  A client that keeps what the history denotes, and whose closure first folds in the entries it
  has not seen and then decides.
\<close>

locale replica = checked_log knows holds append entry ident fits
  for knows :: "'l \<Rightarrow> 'o list \<Rightarrow> bool"
    and holds :: "'d \<Rightarrow> 'o list \<Rightarrow> bool"
    and append :: "('o list \<Rightarrow> 's \<Rightarrow> ('e + 'p) \<times> 's) \<Rightarrow> 's \<Rightarrow> 'l \<Rightarrow> 'd \<Rightarrow> ('e + 'i) \<times> 's \<times> 'l \<times> 'd"
    and entry :: "'o list \<Rightarrow> 'p \<Rightarrow> 'o"
    and ident :: "'o \<Rightarrow> 'i"
    and fits :: "'p \<Rightarrow> bool" +
  fixes current :: "'o list \<Rightarrow> 's \<Rightarrow> bool"
    and replayable :: "'o list \<Rightarrow> bool"
    and fold_in :: "'o list \<Rightarrow> 's \<Rightarrow> ('e + unit) \<times> 's"
  assumes fold_in_current: "current es s \<Longrightarrow> replayable (es @ fs) \<Longrightarrow>
      \<exists>s'. fold_in (es @ fs) s = (Inr (), s') \<and> current (es @ fs) s'"
begin

lemma decided_append:
  assumes known: "knows l es" "holds d (es @ fs)" "current es s" "replayable (es @ fs)"
    and build: "\<And>ops s. build ops s = (case fold_in ops s of (Inl e, s') \<Rightarrow> (Inl e, s') | (Inr _, s') \<Rightarrow> (decide s', s'))"
    and fits: "\<And>s p. decide s = Inr p \<Longrightarrow> fits p"
  shows "\<exists>s' l' d'. current (es @ fs) s' \<and>
    (case decide s' of
       Inl e \<Rightarrow> append build s l d = (Inl e, s', l', d') \<and> knows l' (es @ fs) \<and> holds d' (es @ fs)
     | Inr p \<Rightarrow> append build s l d = (Inr (ident (entry (es @ fs) p)), s', l', d') \<and>
         knows l' (es @ fs @ [entry (es @ fs) p]) \<and> holds d' (es @ fs @ [entry (es @ fs) p]))"
proof -
  obtain s' where s': "fold_in (es @ fs) s = (Inr (), s')" "current (es @ fs) s'"
    using fold_in_current known(3,4) by blast
  then have b: "build (es @ fs) s = (decide s', s')"
    by (simp add: build)
  show ?thesis
  proof (cases "decide s'")
    case (Inl e)
    then show ?thesis
      using append_rejected [of l es d fs build s e s'] known b s'(2) by auto
  next
    case (Inr p)
    then show ?thesis
      using append_accepted [of l es d fs build s p s'] known b s'(2) fits by auto
  qed
qed

end

section \<open>The refs that a history denotes\<close>

text \<open>The specification: the refs after the operations of a log, or the error that shows it corrupt.\<close>

fun replay_refs :: "op_entry list \<Rightarrow> ref_map \<Rightarrow> ref_error + ref_map" where
  "replay_refs [] refs = Inr refs"
| "replay_refs (entry # ops) refs =
     bindR (parse_tx (op_payload entry)) (\<lambda>tx.
       case tx of
         None \<Rightarrow> replay_refs ops refs
       | Some t \<Rightarrow> bindR (apply_changes True refs (px_changes t)) (replay_refs ops))"

text \<open>A key in the index names an operation that was recorded with it.\<close>

definition keys_sound :: "op_entry list \<Rightarrow> key_index \<Rightarrow> bool" where
  "keys_sound es by_key \<longleftrightarrow>
     (\<forall>k i. by_key k = Some i \<longrightarrow>
       (\<exists>e \<in> set es. op_id e = i \<and> (\<exists>tx. parse_tx (op_payload e) = Inr (Some tx) \<and> px_key tx = Some k)))"

definition current :: "op_entry list \<Rightarrow> folded \<Rightarrow> bool" where
  "current es = (\<lambda>(refs, applied, by_key).
     applied = length es \<and> replay_refs es [] = Inr refs \<and> keys_sound es by_key)"

definition replayable :: "op_entry list \<Rightarrow> bool" where
  "replayable es \<longleftrightarrow> (\<exists>refs. replay_refs es [] = Inr refs)"

lemma replay_refs_append: "replay_refs (xs @ ys) refs = bindR (replay_refs xs refs) (replay_refs ys)"
proof (induction xs arbitrary: refs)
  case (Cons x xs)
  then show ?case
    by (cases "parse_tx (op_payload x)") (auto simp: bindR_def split: option.splits sum.splits)
qed simp

lemma keys_sound_Nil [simp]: "keys_sound es (\<lambda>_. None)"
  by (simp add: keys_sound_def)

lemma keys_sound_mono: "keys_sound es m \<Longrightarrow> set es \<subseteq> set fs \<Longrightarrow> keys_sound fs m"
  unfolding keys_sound_def by blast

lemma keys_sound_upd:
  "keys_sound es m \<Longrightarrow> e \<in> set es \<Longrightarrow> parse_tx (op_payload e) = Inr (Some tx) \<Longrightarrow> px_key tx = Some k \<Longrightarrow>
   keys_sound es (m(k \<mapsto> op_id e))"
  by (auto simp: keys_sound_def)

lemma fold_ops_replay:
  "replay_refs ops refs = Inr refs' \<Longrightarrow> keys_sound es by_key \<Longrightarrow> set ops \<subseteq> set es \<Longrightarrow>
   \<exists>by_key'. fold_ops ops refs by_key = (Inr (), refs', by_key') \<and> keys_sound es by_key'"
proof (induction ops arbitrary: refs by_key)
  case Nil
  then show ?case by simp
next
  case (Cons e ops)
  show ?case
  proof (cases "parse_tx (op_payload e)")
    case (Inl err)
    with Cons.prems show ?thesis by simp
  next
    case (Inr tx)
    show ?thesis
    proof (cases tx)
      case None
      with Inr Cons show ?thesis by simp
    next
      case (Some t)
      with Cons.prems(1) Inr obtain r where r: "apply_changes True refs (px_changes t) = Inr r" "replay_refs ops r = Inr refs'"
        by (auto simp: bindR_eq_Inr)
      have "keys_sound es (case px_key t of None \<Rightarrow> by_key | Some k \<Rightarrow> by_key(k \<mapsto> op_id e))"
        using Cons.prems Inr Some by (auto split: option.split intro: keys_sound_upd)
      with Cons.IH [OF r(2) this] Cons.prems(3) show ?thesis
        by (simp add: Inr Some r(1))
    qed
  qed
qed

lemma fold_new_current:
  assumes "current es s" "replayable (es @ fs)"
  shows "\<exists>s'. fold_new (es @ fs) s = (Inr (), s') \<and> current (es @ fs) s'"
proof -
  obtain refs by_key where s: "s = (refs, length es, by_key)" "replay_refs es [] = Inr refs" "keys_sound es by_key"
    using assms(1) by (cases s) (auto simp: current_def)
  obtain refs' where refs': "replay_refs (es @ fs) [] = Inr refs'" "replay_refs fs refs = Inr refs'"
    using assms(2) s(2) by (auto simp: replayable_def replay_refs_append bindR_eq_Inr)
  obtain by_key' where "fold_ops fs refs by_key = (Inr (), refs', by_key')" "keys_sound (es @ fs) by_key'"
    using fold_ops_replay [OF refs'(2), of "es @ fs"] keys_sound_mono [OF s(3), of "es @ fs"] by auto
  with refs'(1) show ?thesis
    by (simp add: fold_new_def s(1) current_def)
qed

text \<open>The log as the store sees it; everything an append needs is part of \<open>log_ready\<close>.\<close>

definition log_holds :: "(bytes \<Rightarrow> bytes) \<Rightarrow> log_disk \<Rightarrow> op_entry list \<Rightarrow> bool" where
  "log_holds h d es \<longleftrightarrow> chained h ROOT es \<and> (\<exists>t. torn h t \<and> dk_log d = log_file es @ t)"

definition log_ready :: "(bytes \<Rightarrow> bytes) \<Rightarrow> bytes \<Rightarrow> log_disk \<Rightarrow> op_entry list \<Rightarrow> bool" where
  "log_ready h actor d es \<longleftrightarrow> hash_ok h \<and> utf8 actor \<and> length actor < 65536 \<and> log_holds h d es"

definition payload_fits :: "bytes \<Rightarrow> bytes \<Rightarrow> bool" where
  "payload_fits actor payload \<longleftrightarrow> 78 + length actor + length payload < 4294967296"

interpretation ref_log: replica knows "log_ready h actor" "append_checked h RefOpLog actor ts"
    "\<lambda>es payload. new_entry h (tip ROOT es) actor ts payload" op_id "payload_fits actor" current replayable fold_new
  for h actor ts
proof unfold_locales
  fix l es d fs and build :: "op_entry list \<Rightarrow> folded \<Rightarrow> (ref_error + bytes) \<times> folded" and s s' e
  assume l: "knows l es" and d: "log_ready h actor d (es @ fs)" and b: "build (es @ fs) s = (Inl e, s')"
  then obtain t where "hash_ok h" "chained h ROOT (es @ fs)" "torn h t" "dk_log d = log_file (es @ fs) @ t" "utf8 actor"
    "length actor < 65536"
    by (auto simp: log_ready_def log_holds_def)
  from append_checked_known [where build = build, OF this(1) l this(2-6) b, of RefOpLog ts]
  show "\<exists>l' d'. append_checked h RefOpLog actor ts build s l d = (Inl e, s', l', d') \<and> knows l' (es @ fs) \<and>
      log_ready h actor d' (es @ fs)"
    using d torn_Nil [of h] by (auto simp: log_ready_def log_holds_def)
next
  fix l es d fs and build :: "op_entry list \<Rightarrow> folded \<Rightarrow> (ref_error + bytes) \<times> folded" and s s' payload
  assume l: "knows l es" and d: "log_ready h actor d (es @ fs)" and b: "build (es @ fs) s = (Inr payload, s')"
    and p: "payload_fits actor payload"
  then obtain t where "hash_ok h" "chained h ROOT (es @ fs)" "torn h t" "dk_log d = log_file (es @ fs) @ t" "utf8 actor"
    "length actor < 65536"
    by (auto simp: log_ready_def log_holds_def)
  from append_checked_known [where build = build, OF this(1) l this(2-6) b, of RefOpLog ts]
  show "\<exists>l' d'. append_checked h RefOpLog actor ts build s l d
        = (Inr (op_id (new_entry h (tip ROOT (es @ fs)) actor ts payload)), s', l', d') \<and>
      knows l' (es @ fs @ [new_entry h (tip ROOT (es @ fs)) actor ts payload]) \<and>
      log_ready h actor d' (es @ fs @ [new_entry h (tip ROOT (es @ fs)) actor ts payload])"
    using d p torn_Nil [of h] by (auto simp: log_ready_def log_holds_def payload_fits_def Let_def)
next
  show "\<exists>s'. fold_new (es @ fs) s = (Inr (), s') \<and> current (es @ fs) s'"
    if "current es s" "replayable (es @ fs)" for es s fs
    using fold_new_current that by blast
qed

section \<open>The operations against their specification\<close>

text \<open>A transaction on a ref map: the policy, then all expected values, then all changes, or an error.\<close>

definition transact :: "ref_policy option \<Rightarrow> ref_change list \<Rightarrow> ref_map \<Rightarrow> ref_error + ref_map" where
  "transact policy changes refs =
     bindR (case policy of None \<Rightarrow> Inr () | Some p \<Rightarrow> policy_check p refs changes)
       (\<lambda>_. apply_changes False refs changes)"

definition store_at :: "ref_store \<Rightarrow> op_entry list \<Rightarrow> bool" where
  "store_at st es \<longleftrightarrow> knows (st_oplog st) es \<and> current es (st_refs st, st_applied st, st_by_key st)"

lemma store_at_refs: "store_at st es \<Longrightarrow> replay_refs es [] = Inr (st_refs st)"
  by (simp add: store_at_def current_def)

lemma apply_changes_replaying:
  "apply_changes False refs changes = Inr refs' \<Longrightarrow> apply_changes True refs changes = Inr refs'"
  by (auto simp: apply_changes_def split: option.splits)

lemma log_sync_keeps:
  "(\<And>d. dk_log (meanwhile d) = dk_log d) \<Longrightarrow> log_sync relaxed meanwhile log d = (log', d') \<Longrightarrow>
   dk_log d' = dk_log d \<and> knows log' = knows log \<and> log_ops log' = log_ops log"
  by (auto simp: log_sync_def sync_to_def Let_def write_durable_def sync_all_def knows_def fun_eq_iff split: if_splits)

lemma note_op_keeps:
  "note_op h st sd = (st', sd') \<Longrightarrow>
   st_oplog st' = st_oplog st \<and> st_refs st' = st_refs st \<and> st_applied st' = st_applied st \<and> st_by_key st' = st_by_key st \<and>
   sd_log sd' = sd_log sd \<and>
   (sd_snapshot sd' = sd_snapshot sd \<or>
    (\<exists>i. log_head (st_oplog st) = Some i \<and> sd_snapshot sd' = Some (snapshot_write h i (st_refs st))))"
  by (auto simp: note_op_def store_snapshot_def Let_def split: if_splits option.splits)

lemma log_ready_holds: "log_ready h actor d es \<Longrightarrow> log_holds h d es"
  by (simp add: log_ready_def)

lemma log_holds_cong: "dk_log d' = dk_log d \<Longrightarrow> log_holds h d' es = log_holds h d es"
  by (simp add: log_holds_def)

lemma knows_last: "knows log (es @ [e]) \<Longrightarrow> log_head log = Some (op_id e)"
  by (simp add: knows_def log_head_def)

text \<open>What the snapshot file may be after an operation that made \<open>e\<close> the head.\<close>

definition snapshot_after :: "(bytes \<Rightarrow> bytes) \<Rightarrow> op_entry \<Rightarrow> ref_map \<Rightarrow> bytes option \<Rightarrow> bytes option \<Rightarrow> bool" where
  "snapshot_after h e refs old new \<longleftrightarrow> new = old \<or> new = Some (snapshot_write h (op_id e) refs)"

lemma commit_known:
  assumes ready: "log_ready h actor (sd_log sd) (es @ fs)" and st: "store_at st es"
    and refs: "replay_refs (es @ fs) [] = Inr refs" and tx: "tx_ok changes key"
    and fits: "payload_fits actor (encode_tx changes key)" and mw: "\<And>d. dk_log (meanwhile d) = dk_log d"
  shows "case transact policy changes refs of
      Inl err \<Rightarrow> \<exists>st' sd'. commit_idempotent h relaxed meanwhile actor ts changes key policy st sd = (Inl err, st', sd') \<and>
        store_at st' (es @ fs) \<and> log_holds h (sd_log sd') (es @ fs) \<and> sd_snapshot sd' = sd_snapshot sd
    | Inr refs' \<Rightarrow> \<exists>e st' sd'.
        commit_idempotent h relaxed meanwhile actor ts changes key policy st sd = (Inr (op_id e), st', sd') \<and>
        op_payload e = encode_tx changes key \<and> op_actor e = actor \<and>
        replay_refs (es @ fs @ [e]) [] = Inr refs' \<and>
        store_at st' (es @ fs @ [e]) \<and> log_holds h (sd_log sd') (es @ fs @ [e]) \<and>
        pred_option (\<lambda>k. applied_request st' k = Some (op_id e)) key \<and>
        snapshot_after h e refs' (sd_snapshot sd) (sd_snapshot sd')"
proof -
  let ?s = "(st_refs st, st_applied st, st_by_key st)"
  let ?decide = "\<lambda>s. bindR (case policy of None \<Rightarrow> Inr () | Some p \<Rightarrow> policy_check p (fst s) changes)
      (\<lambda>_. bindR (apply_changes False (fst s) changes) (\<lambda>_. Inr (encode_tx changes key)))"
  have dec: "\<exists>s' l' d'. current (es @ fs) s' \<and>
    (case ?decide s' of
       Inl e \<Rightarrow> append_checked h RefOpLog actor ts (commit_build changes key policy) ?s (st_oplog st) (sd_log sd)
           = (Inl e, s', l', d') \<and> knows l' (es @ fs) \<and> log_ready h actor d' (es @ fs)
     | Inr p \<Rightarrow> append_checked h RefOpLog actor ts (commit_build changes key policy) ?s (st_oplog st) (sd_log sd)
           = (Inr (op_id (new_entry h (tip ROOT (es @ fs)) actor ts p)), s', l', d') \<and>
         knows l' (es @ fs @ [new_entry h (tip ROOT (es @ fs)) actor ts p]) \<and>
         log_ready h actor d' (es @ fs @ [new_entry h (tip ROOT (es @ fs)) actor ts p]))"
  proof (rule ref_log.decided_append)
    show "payload_fits actor p" if "?decide s = Inr p" for s p
      using that fits by (auto simp: bindR_eq_Inr)
  qed (use st ready refs in \<open>simp_all add: store_at_def replayable_def commit_build_def\<close>)
  then obtain s' l' d' where s': "current (es @ fs) s'"
    and app: "case ?decide s' of
       Inl e \<Rightarrow> append_checked h RefOpLog actor ts (commit_build changes key policy) ?s (st_oplog st) (sd_log sd)
           = (Inl e, s', l', d') \<and> knows l' (es @ fs) \<and> log_ready h actor d' (es @ fs)
     | Inr p \<Rightarrow> append_checked h RefOpLog actor ts (commit_build changes key policy) ?s (st_oplog st) (sd_log sd)
           = (Inr (op_id (new_entry h (tip ROOT (es @ fs)) actor ts p)), s', l', d') \<and>
         knows l' (es @ fs @ [new_entry h (tip ROOT (es @ fs)) actor ts p]) \<and>
         log_ready h actor d' (es @ fs @ [new_entry h (tip ROOT (es @ fs)) actor ts p])"
    by blast
  obtain by_key where s'_eq: "s' = (refs, length (es @ fs), by_key)" "keys_sound (es @ fs) by_key"
    using s' refs by (cases s') (auto simp: current_def)
  have decide: "?decide s' = bindR (transact policy changes refs) (\<lambda>_. Inr (encode_tx changes key))"
    by (cases policy) (auto simp: s'_eq(1) transact_def bindR_def split: sum.split)
  show ?thesis
  proof (cases "transact policy changes refs")
    case (Inl err)
    then have "?decide s' = Inl err"
      by (simp add: decide)
    with app have "append_checked h RefOpLog actor ts (commit_build changes key policy) ?s (st_oplog st) (sd_log sd)
           = (Inl err, s', l', d')" "knows l' (es @ fs)" "log_holds h d' (es @ fs)"
      by (simp_all add: log_ready_def)
    then show ?thesis
      using s' by (simp add: Inl commit_idempotent_def store_at_def put_folded_def s'_eq(1))
  next
    case (Inr refs')
    let ?e = "new_entry h (tip ROOT (es @ fs)) actor ts (encode_tx changes key)"
    from Inr have "?decide s' = Inr (encode_tx changes key)" and ap: "apply_changes False refs changes = Inr refs'"
      by (simp add: decide) (use Inr in \<open>auto simp: transact_def bindR_eq_Inr\<close>)
    with app have app: "append_checked h RefOpLog actor ts (commit_build changes key policy) ?s (st_oplog st) (sd_log sd)
           = (Inr (op_id ?e), s', l', d')" "knows l' (es @ fs @ [?e])" "log_holds h d' (es @ fs @ [?e])"
      by (simp_all add: log_ready_def)
    obtain l2 d2 where sync: "log_sync relaxed meanwhile l' d' = (l2, d2)" by fastforce
    have kept: "dk_log d2 = dk_log d'" "knows l2 = knows l'" "log_ops l2 = log_ops l'"
      using log_sync_keeps [OF mw sync] by simp_all
    have ptx: "parse_tx (op_payload ?e) = Inr (Some \<lparr>px_changes = changes, px_key = key\<rparr>)"
      using parse_encode_tx [OF tx] by (simp add: new_entry_def)
    have replay: "replay_refs (es @ fs @ [?e]) [] = Inr refs'"
      using replay_refs_append [of "es @ fs" "[?e]" "[]"] refs ptx apply_changes_replaying [OF ap] by simp
    let ?by_key = "case key of None \<Rightarrow> by_key | Some k \<Rightarrow> by_key(k \<mapsto> op_id ?e)"
    have "keys_sound (es @ fs @ [?e]) by_key"
      by (rule keys_sound_mono [OF s'_eq(2)]) auto
    then have keys: "keys_sound (es @ fs @ [?e]) ?by_key"
      using ptx by (auto split: option.split intro: keys_sound_upd)
    let ?st3 = "(put_folded s' l' st)\<lparr>st_oplog := l2, st_refs := refs', st_by_key := ?by_key,
      st_applied := length (log_ops l2)\<rparr>"
    obtain st4 sd4 where nt: "note_op h ?st3 (sd\<lparr>sd_log := d2\<rparr>) = (st4, sd4)" by fastforce
    have commit: "commit_idempotent h relaxed meanwhile actor ts changes key policy st sd = (Inr (op_id ?e), st4, sd4)"
      unfolding commit_idempotent_def app(1)
      using nt by (cases key) (simp_all add: sync ap s'_eq(1) put_folded_def Let_def)
    have "log_ops l' = es @ fs @ [?e]"
      using app(2) by (simp add: knows_def)
    then have "store_at st4 (es @ fs @ [?e])"
      using note_op_keeps [OF nt] kept app(2) replay keys by (simp add: store_at_def current_def)
    moreover have "log_holds h (sd_log sd4) (es @ fs @ [?e])"
      using note_op_keeps [OF nt] kept(1) app(3) by (simp add: log_holds_def)
    moreover have "pred_option (\<lambda>k. applied_request st4 k = Some (op_id ?e)) key"
      using note_op_keeps [OF nt] by (cases key) (simp_all add: applied_request_def )
    moreover have "log_head l2 = Some (op_id ?e)"
      using kept(2) app(2) knows_last [of l2 "es @ fs" ?e] by simp
    then have "snapshot_after h ?e refs' (sd_snapshot sd) (sd_snapshot sd4)"
      using note_op_keeps [OF nt] by (auto simp: snapshot_after_def )
    ultimately show ?thesis
      using commit replay by (auto simp: Inr intro!: exI [of _ ?e] exI [of _ st4] exI [of _ sd4]) (simp_all add: new_entry_def)
  qed
qed

lemma record_known:
  assumes ready: "log_ready h actor (sd_log sd) (es @ fs)" and st: "store_at st es"
    and refs: "replay_refs (es @ fs) [] = Inr refs" and other: "payload = [] \<or> hd payload \<noteq> PAYLOAD_REF_TX"
    and fits: "payload_fits actor payload" and mw: "\<And>d. dk_log (meanwhile d) = dk_log d"
  shows "\<exists>e st' sd'. record_op h relaxed meanwhile actor ts payload st sd = (Inr (op_id e), st', sd') \<and>
    op_payload e = payload \<and> replay_refs (es @ fs @ [e]) [] = Inr refs \<and> store_at st' (es @ fs @ [e]) \<and>
    log_holds h (sd_log sd') (es @ fs @ [e]) \<and> snapshot_after h e refs (sd_snapshot sd) (sd_snapshot sd')"
proof -
  let ?s = "(st_refs st, st_applied st, st_by_key st)"
  let ?e = "new_entry h (tip ROOT (es @ fs)) actor ts payload"
  have "\<exists>s' l' d'. current (es @ fs) s' \<and>
    (case Inr payload of
       Inl e \<Rightarrow> append_checked h RefOpLog actor ts (record_build payload) ?s (st_oplog st) (sd_log sd)
           = (Inl e, s', l', d') \<and> knows l' (es @ fs) \<and> log_ready h actor d' (es @ fs)
     | Inr p \<Rightarrow> append_checked h RefOpLog actor ts (record_build payload) ?s (st_oplog st) (sd_log sd)
           = (Inr (op_id (new_entry h (tip ROOT (es @ fs)) actor ts p)), s', l', d') \<and>
         knows l' (es @ fs @ [new_entry h (tip ROOT (es @ fs)) actor ts p]) \<and>
         log_ready h actor d' (es @ fs @ [new_entry h (tip ROOT (es @ fs)) actor ts p]))"
    by (rule ref_log.decided_append [where decide = "\<lambda>_. Inr payload"])
      (use st ready refs fits in \<open>simp_all add: store_at_def replayable_def record_build_def\<close>)
  then obtain s' l' d' where s': "current (es @ fs) s'"
    and app: "append_checked h RefOpLog actor ts (record_build payload) ?s (st_oplog st) (sd_log sd) = (Inr (op_id ?e), s', l', d')"
      "knows l' (es @ fs @ [?e])" "log_holds h d' (es @ fs @ [?e])"
    by (auto simp: log_ready_def)
  obtain by_key where s'_eq: "s' = (refs, length (es @ fs), by_key)" "keys_sound (es @ fs) by_key"
    using s' refs by (cases s') (auto simp: current_def)
  obtain l2 d2 where sync: "log_sync relaxed meanwhile l' d' = (l2, d2)" by fastforce
  have kept: "dk_log d2 = dk_log d'" "knows l2 = knows l'" "log_ops l2 = log_ops l'"
    using log_sync_keeps [OF mw sync] by simp_all
  have "parse_tx (op_payload ?e) = Inr None"
    using other by (auto simp: new_entry_def parse_tx_def)
  then have replay: "replay_refs (es @ fs @ [?e]) [] = Inr refs"
    using replay_refs_append [of "es @ fs" "[?e]" "[]"] refs by simp
  let ?st = "(put_folded s' l' st)\<lparr>st_oplog := l2, st_applied := length (log_ops l2)\<rparr>"
  obtain st2 sd2 where nt: "note_op h ?st (sd\<lparr>sd_log := d2\<rparr>) = (st2, sd2)" by fastforce
  have "record_op h relaxed meanwhile actor ts payload st sd = (Inr (op_id ?e), st2, sd2)"
    using other nt by (auto simp: record_op_def app(1) sync)
  moreover have "log_ops l' = es @ fs @ [?e]"
    using app(2) by (simp add: knows_def)
  then have "store_at st2 (es @ fs @ [?e])"
    using note_op_keeps [OF nt] kept app(2) replay keys_sound_mono [OF s'_eq(2), of "es @ fs @ [?e]"]
    by (auto simp: store_at_def current_def put_folded_def s'_eq(1))
  moreover have "log_holds h (sd_log sd2) (es @ fs @ [?e])"
    using note_op_keeps [OF nt] kept(1) app(3) by (simp add: log_holds_def)
  moreover have "log_head l2 = Some (op_id ?e)"
    using kept(2) app(2) knows_last [of l2 "es @ fs" ?e] by simp
  then have "snapshot_after h ?e refs (sd_snapshot sd) (sd_snapshot sd2)"
    using note_op_keeps [OF nt] by (auto simp: snapshot_after_def put_folded_def s'_eq(1))
  ultimately show ?thesis
    using replay by (intro exI [of _ ?e] exI [of _ st2] exI [of _ sd2]) (simp add: new_entry_def)
qed

lemma refresh_known:
  assumes h: "hash_ok h" and hold: "log_holds h (sd_log sd) (es @ fs)" and st: "store_at st es" and r: "replayable (es @ fs)"
  shows "\<exists>st' sd'. store_refresh h st sd = (Inr (), st', sd') \<and> store_at st' (es @ fs) \<and>
    log_holds h (sd_log sd') (es @ fs) \<and> sd_snapshot sd' = sd_snapshot sd"
proof -
  obtain t where t: "chained h ROOT (es @ fs)" "torn h t" "dk_log (sd_log sd) = log_file (es @ fs) @ t"
    using hold by (auto simp: log_holds_def)
  obtain log d where up: "log_refresh h (st_oplog st) (sd_log sd) = (Inr (), log, d)" "knows log (es @ fs)" "dk_log d = log_file (es @ fs)"
    using catch_up_known [OF h _ t, of "st_oplog st"] st
    by (auto simp: log_refresh_def store_at_def t(3) set_len_def split: if_splits)
  obtain s where s: "fold_new (es @ fs) (st_refs st, st_applied st, st_by_key st) = (Inr (), s)" "current (es @ fs) s"
    using fold_new_current [OF _ r, of "(st_refs st, st_applied st, st_by_key st)"] st unfolding store_at_def by blast
  have "log_ops log = es @ fs" using up(2) by (simp add: knows_def)
  then show ?thesis
    using up s t(1) torn_Nil [of h]
    by (cases s) (auto simp: store_refresh_def put_folded_def store_at_def log_holds_def)
qed

section \<open>Opening a store\<close>

lemma index_ops_other: "i \<notin> op_id ` set es \<Longrightarrow> index_ops n es m i = m i"
  by (induction es arbitrary: n m) auto

lemma index_of_position:
  assumes "distinct (map op_id (pre @ post))" "pre \<noteq> []"
  shows "index_of_all (pre @ post) (op_id (last pre)) = Some (of_nat (length pre - 1))"
proof -
  obtain ps p where pre: "pre = ps @ [p]"
    using assms(2) by (cases pre rule: rev_cases) auto
  then show ?thesis
    using assms(1) by (auto simp: index_of_all_def index_ops_append index_ops_other)
qed

text \<open>A snapshot that names an operation of the history holds the refs as of that operation.\<close>

definition snapshot_ok :: "(bytes \<Rightarrow> bytes) \<Rightarrow> op_entry list \<Rightarrow> bytes option \<Rightarrow> bool" where
  "snapshot_ok h es file \<longleftrightarrow>
     (\<forall>data at_op r. file = Some data \<longrightarrow> snapshot_read h data = Some (at_op, r) \<longrightarrow> at_op \<in> op_id ` set es \<longrightarrow>
       (\<exists>pre post. es = pre @ post \<and> pre \<noteq> [] \<and> op_id (last pre) = at_op \<and> replay_refs pre [] = Inr r))"

lemma snapshot_start_known:
  assumes "knows log es" "snapshot_ok h es file" "distinct (map op_id es)" "length es < 4294967296"
  shows "\<exists>refs n. snapshot_start h log file = (refs, n) \<and> n \<le> length es \<and> replay_refs (take n es) [] = Inr refs"
proof (cases "\<exists>data at_op r i. file = Some data \<and> snapshot_read h data = Some (at_op, r) \<and> log_index_of log at_op = Some i")
  case False
  then have "snapshot_start h log file = ([], 0)"
    by (fastforce simp: snapshot_start_def split: option.splits)
  then show ?thesis by simp
next
  case True
  then obtain data at_op r i where d: "file = Some data" "snapshot_read h data = Some (at_op, r)" "log_index_of log at_op = Some i"
    by blast
  have idx: "log_by_id log = index_of_all es"
    using assms(1) by (simp add: knows_def)
  have "at_op \<in> op_id ` set es"
  proof (rule ccontr)
    assume "at_op \<notin> op_id ` set es"
    then show False using d(3) by (simp add: log_index_of_def idx index_of_all_def index_ops_other)
  qed
  then obtain pre post where pre: "es = pre @ post" "pre \<noteq> []" "op_id (last pre) = at_op" "replay_refs pre [] = Inr r"
    using assms(2) d(1,2) unfolding snapshot_ok_def by blast
  have "length pre - 1 < 4294967296"
    using assms(4) pre(1) by simp
  moreover have "index_of_all es at_op = Some (of_nat (length pre - 1))"
    using index_of_position [of pre post] assms(3) pre(2) unfolding pre(3) [symmetric] pre(1) by simp
  ultimately have "i = length pre - 1"
    using d(3) by (auto simp: log_index_of_def idx codec_simps simp del: of_nat_diff)
  then have "i + 1 = length pre"
    using pre(2) by (cases pre) auto
  with d pre show ?thesis by (simp add: snapshot_start_def)
qed

lemma open_known:
  assumes h: "hash_ok h" and hold: "log_holds h (sd_log sd) es" and refs: "replay_refs es [] = Inr refs"
    and snap: "snapshot_ok h es (sd_snapshot sd)" "distinct (map op_id es)" "length es < 4294967296"
    and mw: "\<And>d. dk_log (meanwhile d) = dk_log d"
  shows "\<exists>st sd'. store_open h meanwhile sd = (Inr st, sd') \<and> store_at st es \<and> st_refs st = refs \<and>
    log_holds h (sd_log sd') es \<and> sd_snapshot sd' = sd_snapshot sd"
proof -
  obtain t where t: "chained h ROOT es" "torn h t" "dk_log (sd_log sd) = log_file es @ t"
    using hold by (auto simp: log_holds_def)
  then have m: "dk_log (meanwhile (sd_log sd)) = log_file es @ t" by (simp add: mw)
  obtain log d where op: "log_open h meanwhile (sd_log sd) = (Inr log, d)" "knows log es" "log_holds h d es"
    using log_open_known [of h es t "sd_log sd" es t meanwhile, OF h t t(1,2) m] t torn_Nil [of h]
    unfolding log_holds_def by (metis append_Nil2)
  obtain r0 n where start: "snapshot_start h log (sd_snapshot sd) = (r0, n)" "n \<le> length es" "replay_refs (take n es) [] = Inr r0"
    using snapshot_start_known [OF op(2) snap] by blast
  have "replay_refs (drop n es) r0 = Inr refs"
    using replay_refs_append [of "take n es" "drop n es" "[]"] start(3) refs by simp
  then obtain by_key where "fold_ops (drop n es) r0 (\<lambda>_. None) = (Inr (), refs, by_key)" "keys_sound es by_key"
    using fold_ops_replay [of "drop n es" r0 refs es "\<lambda>_. None"] set_drop_subset [of n es] keys_sound_Nil by blast
  moreover have "log_ops log = es" using op(2) by (simp add: knows_def)
  ultimately show ?thesis
    using op start(1) refs by (simp add: store_open_def store_at_def current_def)
qed

section \<open>Several stores on one log\<close>

type_synonym store_world = "store_disk \<times> (nat \<Rightarrow> ref_store option)"

inductive store_step :: "(bytes \<Rightarrow> bytes) \<Rightarrow> store_world \<Rightarrow> store_world \<Rightarrow> bool" for h where
  Store_open: "store_open h (\<lambda>d. d) sd = (Inr st, sd') \<Longrightarrow> store_step h (sd, ps) (sd', ps(p \<mapsto> st))"
| Store_commit: "ps p = Some st \<Longrightarrow> utf8 actor \<Longrightarrow> length actor < 65536 \<Longrightarrow> tx_ok changes key \<Longrightarrow>
    payload_fits actor (encode_tx changes key) \<Longrightarrow>
    commit_idempotent h relaxed (\<lambda>d. d) actor ts changes key policy st sd = (r, st', sd') \<Longrightarrow>
    length (st_refs st') < 4294967296 \<Longrightarrow> store_step h (sd, ps) (sd', ps(p \<mapsto> st'))"
| Store_record: "ps p = Some st \<Longrightarrow> utf8 actor \<Longrightarrow> length actor < 65536 \<Longrightarrow> payload_fits actor payload \<Longrightarrow>
    record_op h relaxed (\<lambda>d. d) actor ts payload st sd = (r, st', sd') \<Longrightarrow>
    length (st_refs st') < 4294967296 \<Longrightarrow> store_step h (sd, ps) (sd', ps(p \<mapsto> st'))"
| Store_refresh: "ps p = Some st \<Longrightarrow> store_refresh h st sd = (r, st', sd') \<Longrightarrow> store_step h (sd, ps) (sd', ps(p \<mapsto> st'))"
| Store_exit: "store_step h (sd, ps) (sd, ps(p := None))"

text \<open>The world holds the history \<open>es\<close>, which denotes \<open>refs\<close>.\<close>

definition snapshot_from :: "(bytes \<Rightarrow> bytes) \<Rightarrow> op_entry list \<Rightarrow> bytes option \<Rightarrow> bool" where
  "snapshot_from h es file \<longleftrightarrow>
     (\<forall>data at_op r. file = Some data \<longrightarrow> snapshot_read h data = Some (at_op, r) \<longrightarrow>
       (\<exists>pre post. es = pre @ post \<and> pre \<noteq> [] \<and> op_id (last pre) = at_op \<and> replay_refs pre [] = Inr r))"

definition stores_hold :: "(bytes \<Rightarrow> bytes) \<Rightarrow> store_world \<Rightarrow> op_entry list \<Rightarrow> ref_map \<Rightarrow> bool" where
  "stores_hold h w es refs \<longleftrightarrow>
     log_holds h (sd_log (fst w)) es \<and> replay_refs es [] = Inr refs \<and> snapshot_from h es (sd_snapshot (fst w)) \<and>
     (\<forall>p st. snd w p = Some st \<longrightarrow> (\<exists>fs gs. es = fs @ gs \<and> store_at st fs))"

lemma snapshot_from_ok: "snapshot_from h es file \<Longrightarrow> snapshot_ok h es file"
  unfolding snapshot_from_def snapshot_ok_def by blast

lemma snapshot_from_mono: "snapshot_from h es file \<Longrightarrow> snapshot_from h (es @ fs) file"
  unfolding snapshot_from_def by (metis append_assoc)

text \<open>The refs of a replayed history can be written into a snapshot.\<close>

lemma bt_ok_apply: "bt_ok refs \<Longrightarrow> bt_ok (fold apply_change changes refs)"
  by (induction changes arbitrary: refs) (auto simp: apply_change_def split: option.splits)

lemma set_bt_insert_subset: "set (bt_insert k v m) \<subseteq> insert (k, v) (set m)"
  by (induction k v m rule: bt_insert.induct) auto

lemma refs_ok_apply:
  "refs_ok refs \<Longrightarrow> list_all change_ok changes \<Longrightarrow> refs_ok (fold apply_change changes refs)"
proof (induction changes arbitrary: refs)
  case (Cons c cs)
  have "refs_ok (apply_change c refs)"
    using Cons.prems set_bt_insert_subset [of "rc_name c" _ refs]
    by (auto simp: refs_ok_def apply_change_def change_ok_def list_all_iff bt_remove_def bt_ok_filter split: option.splits) blast+
  with Cons show ?case by simp
qed simp

lemma parse_tx_changes_ok: "parse_tx payload = Inr (Some px) \<Longrightarrow> list_all change_ok (px_changes px)"
  using tx_changes.repeat_dec_canonical
  by (fastforce simp: parse_tx_def Let_def bindR_eq_Inr list_all_iff split: if_splits)

lemma replay_refs_ok: "replay_refs es refs = Inr refs' \<Longrightarrow> refs_ok refs \<Longrightarrow> refs_ok refs'"
proof (induction es arbitrary: refs)
  case (Cons e es)
  then obtain tx where tx: "parse_tx (op_payload e) = Inr tx"
    by (auto simp: bindR_eq_Inr)
  show ?case
  proof (cases tx)
    case None
    with Cons tx show ?thesis by simp
  next
    case (Some px)
    with Cons.prems(1) tx obtain r where "apply_changes True refs (px_changes px) = Inr r" "replay_refs es r = Inr refs'"
      by (auto simp: bindR_eq_Inr)
    moreover from this(1) have "refs_ok r"
      using refs_ok_apply [OF Cons.prems(2) parse_tx_changes_ok] tx Some
      by (auto simp: apply_changes_def split: option.splits)
    ultimately show ?thesis using Cons.IH by blast
  qed
qed simp

lemma refs_ok_Nil [simp]: "refs_ok []"
  by (simp add: refs_ok_def)

lemma snapshot_after_from:
  assumes h: "hash_ok h" and es: "replay_refs (es @ [e]) [] = Inr refs" "log_holds h d (es @ [e])"
    and len: "length refs < 4294967296" and s: "snapshot_after h e refs old new" "snapshot_from h es old"
  shows "snapshot_from h (es @ [e]) new"
proof (cases "new = old")
  case True
  with s(2) show ?thesis by (simp add: snapshot_from_mono)
next
  case False
  with s(1) have new: "new = Some (snapshot_write h (op_id e) refs)"
    by (simp add: snapshot_after_def)
  have "length (op_id e) = 32"
    using length_tip [OF h, of "es @ [e]"] es(2) by (simp add: log_holds_def)
  then have "snapshot_read h (snapshot_write h (op_id e) refs) = Some (op_id e, refs)"
    using replay_refs_ok [OF es(1)] len by (intro snapshot_read_write [OF h]) simp_all
  then show ?thesis
    using es(1) unfolding snapshot_from_def new
    by (intro allI impI exI [of _ "es @ [e]"] exI [of _ "[]"]) auto
qed

lemma stores_update:
  assumes "stores_hold h (sd, ps) es refs" and "log_holds h (sd_log sd') (es @ fs)" and "replay_refs (es @ fs) [] = Inr refs'"
    and "snapshot_from h (es @ fs) (sd_snapshot sd')"
    and "case s of None \<Rightarrow> True | Some st \<Rightarrow> \<exists>as bs. es @ fs = as @ bs \<and> store_at st as"
  shows "stores_hold h (sd', ps(p := s)) (es @ fs) refs'"
  unfolding stores_hold_def
proof (intro conjI allI impI)
  fix q st assume q: "snd (sd', ps(p := s)) q = Some st"
  show "\<exists>as bs. es @ fs = as @ bs \<and> store_at st as"
  proof (cases "q = p")
    case True
    with q assms(5) show ?thesis by simp
  next
    case False
    with q assms(1) obtain as bs where "es = as @ bs" "store_at st as"
      unfolding stores_hold_def by auto metis
    then show ?thesis by (intro exI [of _ as] exI [of _ "bs @ fs"]) simp
  qed
qed (use assms in auto)

lemma store_step_holds:
  assumes h: "hash_ok h" and step: "store_step h w w'" and w: "stores_hold h w es refs"
    and ids: "distinct (map op_id es)" "length es < 4294967296"
  shows "\<exists>fs refs'. stores_hold h w' (es @ fs) refs' \<and>
    (refs' = refs \<or> (\<exists>policy changes. transact policy changes refs = Inr refs'))"
proof -
  have hold: "log_holds h (sd_log (fst w)) es" and refs: "replay_refs es [] = Inr refs"
    and snap: "snapshot_from h es (sd_snapshot (fst w))"
    using w by (auto simp: stores_hold_def)
  have parts: "\<exists>as bs. es = as @ bs \<and> store_at st as" if "snd w p = Some st" for p st
    using w that by (auto simp: stores_hold_def)
  from step show ?thesis
  proof (cases rule: store_step.cases)
    case (Store_open sd st sd' ps p)
    have "store_at st es" "log_holds h (sd_log sd') es" "sd_snapshot sd' = sd_snapshot sd"
      using open_known [of h sd es refs "\<lambda>d. d", OF h _ refs _ ids refl] snapshot_from_ok [OF snap] hold Store_open(1,3) by auto
    then have "stores_hold h (sd', ps(p \<mapsto> st)) (es @ []) refs"
      using Store_open(1) w refs snap by (intro stores_update) (auto intro: exI [of _ es])
    with Store_open(2) show ?thesis by blast
  next
    case (Store_commit ps p st actor changes key relaxed ts policy sd r st' sd')
    obtain as bs where ab: "es = as @ bs" "store_at st as"
      using parts [of p st] Store_commit(1,3) by auto
    have ready: "log_ready h actor (sd_log sd) (as @ bs)"
      using h hold Store_commit(1,4,5) ab(1) by (simp add: log_ready_def)
    note known = commit_known [of h actor sd as bs st refs changes key "\<lambda>d. d" relaxed ts policy,
        OF ready ab(2) refs [unfolded ab(1)] Store_commit(6,7) refl]
    show ?thesis
    proof (cases "transact policy changes refs")
      case (Inl err)
      with known Store_commit(8) have "store_at st' es" "log_holds h (sd_log sd') es" "sd_snapshot sd' = sd_snapshot sd"
        by (auto simp: ab(1))
      then have "stores_hold h (sd', ps(p \<mapsto> st')) (es @ []) refs"
        using Store_commit(1) w refs snap by (intro stores_update) (auto intro: exI [of _ es])
      with Store_commit(2) show ?thesis by blast
    next
      case (Inr refs')
      with known Store_commit(8) obtain e where e: "replay_refs (es @ [e]) [] = Inr refs'" "store_at st' (es @ [e])"
        "log_holds h (sd_log sd') (es @ [e])" "snapshot_after h e refs' (sd_snapshot sd) (sd_snapshot sd')"
        by (auto simp: ab(1))
      have "st_refs st' = refs'"
        using store_at_refs [OF e(2)] e(1) by simp
      then have "snapshot_from h (es @ [e]) (sd_snapshot sd')"
        using snapshot_after_from [OF h e(1,3) _ e(4)] snap Store_commit(1,9) by simp
      then have "stores_hold h (sd', ps(p \<mapsto> st')) (es @ [e]) refs'"
        using Store_commit(1) w e by (intro stores_update) (auto intro: exI [of _ "es @ [e]"])
      with Store_commit(2) Inr show ?thesis by blast
    qed
  next
    case (Store_record ps p st actor payload relaxed ts sd r st' sd')
    obtain as bs where ab: "es = as @ bs" "store_at st as"
      using parts [of p st] Store_record(1,3) by auto
    show ?thesis
    proof (cases "payload = [] \<or> hd payload \<noteq> PAYLOAD_REF_TX")
      case True
      have ready: "log_ready h actor (sd_log sd) (as @ bs)"
        using h hold Store_record(1,4,5) ab(1) by (simp add: log_ready_def)
      from record_known [of h actor sd as bs st refs payload "\<lambda>d. d" relaxed ts,
          OF ready ab(2) refs [unfolded ab(1)] True Store_record(6) refl] Store_record(7)
      obtain e where e: "replay_refs (es @ [e]) [] = Inr refs" "store_at st' (es @ [e])"
        "log_holds h (sd_log sd') (es @ [e])" "snapshot_after h e refs (sd_snapshot sd) (sd_snapshot sd')"
        by (auto simp: ab(1))
      have "st_refs st' = refs"
        using store_at_refs [OF e(2)] e(1) by simp
      then have "snapshot_from h (es @ [e]) (sd_snapshot sd')"
        using snapshot_after_from [OF h e(1,3) _ e(4)] snap Store_record(1,8) by simp
      then have "stores_hold h (sd', ps(p \<mapsto> st')) (es @ [e]) refs"
        using Store_record(1) w e by (intro stores_update) (auto intro: exI [of _ "es @ [e]"])
      with Store_record(2) show ?thesis by blast
    next
      case False
      then have "sd' = sd" "st' = st"
        using Store_record(7) by (auto simp: record_op_def)
      then have "stores_hold h (sd', ps(p \<mapsto> st')) (es @ []) refs"
        using Store_record(1) w refs snap hold ab by (intro stores_update) auto
      with Store_record(2) show ?thesis by blast
    qed
  next
    case (Store_refresh ps p st sd r st' sd')
    obtain as bs where ab: "es = as @ bs" "store_at st as"
      using parts [of p st] Store_refresh(1,3) by auto
    have "replayable (as @ bs)" "log_holds h (sd_log sd) (as @ bs)"
      using refs hold Store_refresh(1) by (auto simp: replayable_def ab(1))
    from refresh_known [OF h this(2) ab(2) this(1)] Store_refresh(4)
    have "store_at st' es" "log_holds h (sd_log sd') es" "sd_snapshot sd' = sd_snapshot sd"
      by (auto simp: ab(1))
    then have "stores_hold h (sd', ps(p \<mapsto> st')) (es @ []) refs"
      using Store_refresh(1) w refs snap by (intro stores_update) (auto intro: exI [of _ es])
    with Store_refresh(2) show ?thesis by blast
  next
    case (Store_exit sd ps p)
    then have "stores_hold h (sd, ps(p := None)) (es @ []) refs"
      using w refs snap hold by (intro stores_update) auto
    with Store_exit(2) show ?thesis by blast
  qed
qed

section \<open>Undoing a transaction\<close>

definition invert :: "ref_change \<Rightarrow> ref_change" where
  "invert c = c\<lparr>rc_old := rc_new c, rc_new := rc_old c\<rparr>"

lemma bt_get_apply_change: "bt_ok refs \<Longrightarrow> bt_get (apply_change c refs) = (bt_get refs)(rc_name c := rc_new c)"
  by (auto simp: apply_change_def split: option.splits)

lemma bt_get_apply_all:
  "bt_ok refs \<Longrightarrow> distinct (map rc_name cs) \<Longrightarrow>
   bt_get (fold apply_change cs refs) n = (case find (\<lambda>c. rc_name c = n) cs of Some c \<Rightarrow> rc_new c | None \<Rightarrow> bt_get refs n)"
proof (induction cs arbitrary: refs)
  case (Cons c cs)
  have "bt_ok (apply_change c refs)"
    using bt_ok_apply [of refs "[c]"] Cons.prems(1) by simp
  moreover have "find (\<lambda>c'. rc_name c' = rc_name c) cs = None"
    using Cons.prems(2) by (auto simp: find_None_iff intro: rev_image_eqI)
  ultimately show ?case
    using Cons by (auto simp: bt_get_apply_change split: option.split)
qed simp

lemma find_invert:
  "find (\<lambda>c. rc_name c = n) (map invert cs) = map_option invert (find (\<lambda>c. rc_name c = n) cs)"
  by (induction cs) (auto simp: invert_def)

lemma find_name_in: "distinct (map rc_name cs) \<Longrightarrow> c \<in> set cs \<Longrightarrow> find (\<lambda>c'. rc_name c' = rc_name c) cs = Some c"
  by (induction cs) auto

lemma apply_changes_Inr:
  "apply_changes replaying refs cs = Inr refs' \<longleftrightarrow> (\<forall>c \<in> set cs. bt_get refs (rc_name c) = rc_old c) \<and> refs' = fold apply_change cs refs"
  by (auto simp: apply_changes_def find_None_iff split: option.split) (auto simp: find_Some_iff)

lemma undo_known:
  assumes refs: "bt_ok refs" and names: "distinct (map rc_name cs)" and ap: "apply_changes False refs cs = Inr refs'"
  shows "apply_changes False refs' (map invert cs) = Inr refs"
proof -
  have old: "\<forall>c \<in> set cs. bt_get refs (rc_name c) = rc_old c" and refs': "refs' = fold apply_change cs refs"
    using ap by (simp_all add: apply_changes_Inr)
  have names': "distinct (map rc_name (map invert cs))"
    using names by (simp add: comp_def invert_def)
  have ok': "bt_ok refs'" by (simp add: refs' bt_ok_apply refs)
  have get': "bt_get refs' n = (case find (\<lambda>c. rc_name c = n) cs of Some c \<Rightarrow> rc_new c | None \<Rightarrow> bt_get refs n)" for n
    unfolding refs' by (rule bt_get_apply_all [OF refs names])
  have "bt_get refs' (rc_name c) = rc_old c" if "c \<in> set (map invert cs)" for c
    using that find_name_in [OF names] by (auto simp: invert_def get')
  moreover have "fold apply_change (map invert cs) refs' = refs"
  proof (rule bt_eqI [OF bt_ok_apply [OF ok'] refs], rule ext)
    fix n
    show "bt_get (fold apply_change (map invert cs) refs') n = bt_get refs n"
    proof (cases "find (\<lambda>c. rc_name c = n) cs")
      case None
      then show ?thesis
        by (simp only: bt_get_apply_all [OF ok' names'] find_invert) (simp add: get')
    next
      case (Some c)
      then have "c \<in> set cs" "rc_name c = n"
        by (auto simp: find_Some_iff)
      with old Some show ?thesis
        by (simp only: bt_get_apply_all [OF ok' names'] find_invert) (auto simp: invert_def)
    qed
  qed
  ultimately show ?thesis
    unfolding apply_changes_Inr by metis
qed

section \<open>Properties\<close>


definition empty_disk :: store_disk where
  "empty_disk = \<lparr>sd_log = \<lparr>dk_log = log_file [], dk_synced = 0, dk_marker = []\<rparr>, sd_snapshot = None\<rparr>"

definition empty_store :: ref_store where
  "empty_store =
     \<lparr>st_oplog = \<lparr>log_ops = [], log_by_id = \<lambda>_. None, log_len_bytes = 5, log_defer = False, log_write_count = 0\<rparr>,
      st_refs = [], st_ops_since_snapshot = 0, st_applied = 0, st_by_key = \<lambda>_. None\<rparr>"

lemma empty_store_at: "store_at empty_store []"
  by (simp add: store_at_def empty_store_def knows_def current_def index_of_all_def log_file_def)

lemma empty_disk_holds: "log_holds h (sd_log empty_disk) []"
  using torn_Nil [of h] by (simp add: log_holds_def empty_disk_def)

lemma empty_disk_ready: "log_ready zero_hash (lit ''alice'') (sd_log empty_disk) ([] @ [])"
  using empty_disk_holds utf8_ascii [of "lit ''alice''"] zero_hash_ok by (simp add: log_ready_def)


text \<open>C36. Opening a store replays the log to the refs it denotes, whether the snapshot is missing,
  unreadable, names an operation that is not in the log, or holds the refs as of one that is:
  the snapshot never changes the result.\<close>

theorem open_ignores_snapshot:
  assumes "hash_ok h" and "log_holds h (sd_log sd) es" and "replay_refs es [] = Inr refs"
    and "snapshot_ok h es (sd_snapshot sd)" and "distinct (map op_id es)" and "length es < 4294967296"
    and "\<And>d. dk_log (meanwhile d) = dk_log d"
  shows "\<exists>st sd'. store_open h meanwhile sd = (Inr st, sd') \<and> store_at st es \<and> st_refs st = refs \<and>
    log_holds h (sd_log sd') es \<and> sd_snapshot sd' = sd_snapshot sd"
  using assms by (rule open_known)

theorem open_ignores_snapshot_witness:
  "\<exists>st sd'. store_open zero_hash (\<lambda>d. d) (empty_disk\<lparr>sd_snapshot := Some (lit ''garbage'')\<rparr>) = (Inr st, sd') \<and> st_refs st = []"
proof -
  have "snapshot_ok zero_hash [] (sd_snapshot (empty_disk\<lparr>sd_snapshot := Some (lit ''garbage'')\<rparr>))"
    by (simp add: snapshot_ok_def)
  then show ?thesis
    using open_ignores_snapshot [OF zero_hash_ok, of "empty_disk\<lparr>sd_snapshot := Some (lit ''garbage'')\<rparr>" "[]" "[]" "\<lambda>d. d"]
      empty_disk_holds by fastforce
qed



text \<open>A recorded transaction can be undone from its record alone: when the transaction changed
  each ref once, the one with old and new values exchanged applies to the result and restores
  the refs exactly.\<close>

theorem undo_restores:
  assumes "bt_ok refs" and "distinct (map rc_name cs)" and "apply_changes False refs cs = Inr refs'"
  shows "apply_changes False refs' (map invert cs) = Inr refs"
  using undo_known [OF assms] .

theorem undo_restores_witness:
  "apply_changes False [(lit ''refs/heads/main'', TargetOid (OidSha1 (replicate 20 7)))] (map invert [sample_change]) = Inr []"
proof -
  have "apply_changes False [] [sample_change] = Inr [(lit ''refs/heads/main'', TargetOid (OidSha1 (replicate 20 7)))]"
    by (simp add: apply_changes_def apply_change_def sample_change_def)
  from undo_restores [OF _ _ this] show ?thesis by simp
qed

end
