(* ===== verification/Line_Diff.thy ===== *)
theory Line_Diff
  imports Prelude
begin

text \<open>
  The line diff of \<^verbatim>\<open>alt-diff\<close>: splitting into lines, the interning of lines as
  tokens and the coalescing of edits (\<^verbatim>\<open>lib.rs\<close>), and the histogram core
  (\<^verbatim>\<open>histogram.rs\<close>).  A \<^verbatim>\<open>Range\<close> is the pair of its bounds, a \<^verbatim>\<open>HashMap\<close> is a
  map (the interner an association list, because its length is used), and the
  edits pushed on \<^verbatim>\<open>out\<close> are the list that is returned.

  The specification is \<open>script\<close>: a list of edits leads from one position of the
  two sides to another when the gaps between the edits are equal runs of both
  sides.  Every stage is shown to produce or to keep scripts; that is also what
  puts every index of the code in range.
\<close>

section \<open>Edits and scripts\<close>

type_synonym range = "nat \<times> nat"

record edit =
  ed_old :: range
  ed_new :: range

definition range_empty :: "range \<Rightarrow> bool" where
  "range_empty r \<longleftrightarrow> \<not> fst r < snd r"

definition segment :: "'a list \<Rightarrow> nat \<Rightarrow> nat \<Rightarrow> 'a list" where
  "segment xs i j = take (j - i) (drop i xs)"

text \<open>Equal runs of \<open>n\<close> elements at position \<open>i\<close> of one side and \<open>j\<close> of the other.\<close>

definition agree :: "'a list \<Rightarrow> nat \<Rightarrow> 'a list \<Rightarrow> nat \<Rightarrow> nat \<Rightarrow> bool" where
  "agree a i b j n \<longleftrightarrow> i + n \<le> length a \<and> j + n \<le> length b \<and> (\<forall>k<n. a ! (i + k) = b ! (j + k))"

lemma agree_0 [simp]: "agree a i b j 0 \<longleftrightarrow> i \<le> length a \<and> j \<le> length b"
  by (simp add: agree_def)

lemma agree_add: "agree a i b j (n + m) \<longleftrightarrow> agree a i b j n \<and> agree a (i + n) b (j + n) m"
proof -
  have split: "(\<forall>k<n + m. P k) \<longleftrightarrow> (\<forall>k<n. P k) \<and> (\<forall>k<m. P (n + k))" for P :: "nat \<Rightarrow> bool"
    by (metis add_less_cancel_left le_Suc_ex not_less trans_less_add1)
  show ?thesis unfolding agree_def split by (auto simp: add.assoc)
qed

lemma agree_1: "agree a i b j (Suc 0) \<longleftrightarrow> i < length a \<and> j < length b \<and> a ! i = b ! j"
  by (auto simp: agree_def)

lemma agree_Suc: "agree a i b j (Suc n) \<longleftrightarrow> i < length a \<and> j < length b \<and> a ! i = b ! j \<and> agree a (Suc i) b (Suc j) n"
  using agree_add [of a i b j 1 n] by (simp add: agree_1)

lemma agree_snoc: "agree a i b j (Suc n) \<longleftrightarrow> agree a i b j n \<and> i + n < length a \<and> j + n < length b \<and> a ! (i + n) = b ! (j + n)"
  using agree_add [of a i b j n 1] by (simp add: agree_1)

lemma agree_segment: "agree a i b j n \<Longrightarrow> segment a i (i + n) = segment b j (j + n)"
  by (auto simp: agree_def segment_def intro!: nth_equalityI)

lemma segment_append: "i \<le> j \<Longrightarrow> j \<le> k \<Longrightarrow> segment xs i j @ segment xs j k = segment xs i k"
  unfolding segment_def using take_add [of "j - i" "k - j" "drop i xs"] by simp

lemma segment_all [simp]: "segment xs 0 (length xs) = xs"
  by (simp add: segment_def)

lemma segment_empty [simp]: "segment xs i i = []"
  by (simp add: segment_def)

lemma length_segment: "i \<le> j \<Longrightarrow> j \<le> length xs \<Longrightarrow> length (segment xs i j) = j - i"
  by (simp add: segment_def)

lemma segment_nth: "k < j - i \<Longrightarrow> j \<le> length xs \<Longrightarrow> segment xs i j ! k = xs ! (i + k)"
  by (simp add: segment_def)

fun script :: "'a list \<Rightarrow> 'a list \<Rightarrow> nat \<Rightarrow> nat \<Rightarrow> edit list \<Rightarrow> nat \<Rightarrow> nat \<Rightarrow> bool" where
  "script a b i j [] m n \<longleftrightarrow> i \<le> m \<and> n + i = j + m \<and> agree a i b j (m - i)"
| "script a b i j (e # es) m n \<longleftrightarrow>
     i \<le> fst (ed_old e) \<and> fst (ed_new e) + i = j + fst (ed_old e) \<and>
     agree a i b j (fst (ed_old e) - i) \<and>
     fst (ed_old e) \<le> snd (ed_old e) \<and> snd (ed_old e) \<le> length a \<and>
     fst (ed_new e) \<le> snd (ed_new e) \<and> snd (ed_new e) \<le> length b \<and>
     script a b (snd (ed_old e)) (snd (ed_new e)) es m n"

lemma script_agree:
  assumes "agree a i b j k" "script a b (i + k) (j + k) es m n"
  shows "script a b i j es m n"
proof (cases es)
  case Nil
  then have "i + k \<le> m" "n + (i + k) = j + k + m" "agree a (i + k) b (j + k) (m - (i + k))"
    using assms by auto
  then show ?thesis using Nil assms(1) agree_add [of a i b j k "m - (i + k)"] by auto
next
  case (Cons e es')
  let ?s = "fst (ed_old e)"
  have "i + k \<le> ?s" "fst (ed_new e) + (i + k) = j + k + ?s" "agree a (i + k) b (j + k) (?s - (i + k))"
    using assms(2) Cons by auto
  then show ?thesis using Cons assms agree_add [of a i b j k "?s - (i + k)"] by auto
qed

lemma script_append:
  "script a b i j es m n \<Longrightarrow> script a b m n fs p q \<Longrightarrow> script a b i j (es @ fs) p q"
proof (induction es arbitrary: i j)
  case Nil
  then have "agree a i b j (m - i)" "i + (m - i) = m" "j + (m - i) = n" by auto
  then show ?case using script_agree [of a i b j "m - i"] Nil.prems(2) by (metis append_Nil)
next
  case (Cons e es)
  then show ?case unfolding script.simps append_Cons by blast
qed

lemma script_appendD:
  "script a b i j (es @ fs) p q \<Longrightarrow> i \<le> length a \<Longrightarrow> j \<le> length b \<Longrightarrow>
     \<exists>m n. script a b i j es m n \<and> script a b m n fs p q \<and> m \<le> length a \<and> n \<le> length b"
proof (induction es arbitrary: i j)
  case Nil
  then show ?case by (intro exI [of _ i] exI [of _ j]) simp
qed auto

lemma script_bounds:
  "script a b i j es m n \<Longrightarrow> i \<le> m \<and> j \<le> n \<and> m \<le> length a \<and> n \<le> length b"
proof (induction es arbitrary: i j)
  case Nil
  then show ?case by (auto simp: agree_def)
next
  case (Cons e es)
  have "script a b (snd (ed_old e)) (snd (ed_new e)) es m n" using Cons.prems by simp
  from Cons.IH [OF this] show ?case using Cons.prems by auto
qed

text \<open>What a script is for: replaying it on the old side gives the new side.\<close>

fun apply_edits :: "'a list \<Rightarrow> 'a list \<Rightarrow> nat \<Rightarrow> edit list \<Rightarrow> nat \<Rightarrow> 'a list" where
  "apply_edits a b i [] m = segment a i m"
| "apply_edits a b i (e # es) m =
     segment a i (fst (ed_old e)) @ segment b (fst (ed_new e)) (snd (ed_new e))
       @ apply_edits a b (snd (ed_old e)) es m"

lemma script_apply:
  "script a b i j es m n \<Longrightarrow> apply_edits a b i es m = segment b j n"
proof (induction es arbitrary: i j)
  case Nil
  then have "i + (m - i) = m" "j + (m - i) = n" "agree a i b j (m - i)" by auto
  then show ?case using agree_segment [of a i b j "m - i"] by (metis apply_edits.simps(1))
next
  case (Cons e es)
  let ?s = "fst (ed_old e)" and ?t = "fst (ed_new e)" and ?u = "snd (ed_new e)"
  have st: "i \<le> ?s" "?t + i = j + ?s" "?t \<le> ?u" and ag: "agree a i b j (?s - i)"
    and rest: "script a b (snd (ed_old e)) ?u es m n"
    using Cons.prems by auto
  have "i + (?s - i) = ?s" "j + (?s - i) = ?t" using st by linarith+
  then have "segment a i ?s = segment b j ?t" using agree_segment [OF ag] by metis
  moreover have "apply_edits a b (snd (ed_old e)) es m = segment b ?u n" by (rule Cons.IH [OF rest])
  moreover have "?u \<le> n" using script_bounds [OF rest] by simp
  moreover have "j \<le> ?t" using st by simp
  ultimately have "segment b j n = segment b j ?t @ segment b ?t ?u @ segment b ?u n"
    using segment_append [of j ?t n b] segment_append [of ?t ?u n b] st(3) by simp
  then show ?case using \<open>segment a i ?s = segment b j ?t\<close>
      \<open>apply_edits a b (snd (ed_old e)) es m = segment b ?u n\<close> by simp
qed

lemma script_map:
  assumes "inj_on f (set a \<union> set b)"
  shows "script (map f a) (map f b) i j es m n \<longleftrightarrow> script a b i j es m n"
proof -
  have "agree (map f a) p (map f b) q k \<longleftrightarrow> agree a p b q k" for p q k
  proof -
    have "map f a ! (p + x) = map f b ! (q + x) \<longleftrightarrow> a ! (p + x) = b ! (q + x)"
      if "p + k \<le> length a" "q + k \<le> length b" "x < k" for x
    proof -
      have "p + x < length a" "q + x < length b" using that by auto
      then show ?thesis using assms by (auto simp: inj_on_def)
    qed
    then show ?thesis by (auto simp: agree_def)
  qed
  note agr = this
  show ?thesis
  proof (induction es arbitrary: i j)
    case Nil
    show ?case by (simp only: script.simps agr)
  next
    case (Cons e es)
    show ?case by (simp only: script.simps agr Cons length_map)
  qed
qed

section \<open>The histogram core\<close>

text \<open>\<^verbatim>\<open>MAX_CHAIN\<close>, and \<^verbatim>\<open>usize::MAX\<close> on a 64-bit target.\<close>

definition MAX_CHAIN :: nat where
  "MAX_CHAIN = 64"

definition usize_max :: nat where
  "usize_max = 18446744073709551615"

text \<open>The two loops of \<^verbatim>\<open>diff\<close> that strip the common prefix and suffix.\<close>

function strip_front :: "u32 list \<Rightarrow> nat \<Rightarrow> u32 list \<Rightarrow> nat \<Rightarrow> nat \<Rightarrow> nat \<Rightarrow> nat \<times> nat" where
  "strip_front a ahi b bhi alo blo =
     (if alo < ahi \<and> blo < bhi \<and> a ! alo = b ! blo
      then strip_front a ahi b bhi (alo + 1) (blo + 1) else (alo, blo))"
  by pat_completeness auto
termination by (relation "measure (\<lambda>(a, ahi, b, bhi, alo, blo). ahi - alo)") auto

function strip_back :: "u32 list \<Rightarrow> nat \<Rightarrow> u32 list \<Rightarrow> nat \<Rightarrow> nat \<Rightarrow> nat \<Rightarrow> nat \<times> nat" where
  "strip_back a alo b blo ahi bhi =
     (if alo < ahi \<and> blo < bhi \<and> a ! (ahi - 1) = b ! (bhi - 1)
      then strip_back a alo b blo (ahi - 1) (bhi - 1) else (ahi, bhi))"
  by pat_completeness auto
termination by (relation "measure (\<lambda>(a, alo, b, blo, ahi, bhi). ahi)") auto

text \<open>\<^verbatim>\<open>find_lcs\<close>: the table of positions, the run around a pair of equal tokens, its
  rarity, and the comparison with the best run so far.\<close>

definition positions :: "u32 list \<Rightarrow> nat \<Rightarrow> nat \<Rightarrow> u32 \<Rightarrow> nat list option" where
  "positions a alo ahi =
     fold (\<lambda>ai m. m(a ! ai \<mapsto> (case m (a ! ai) of None \<Rightarrow> [] | Some l \<Rightarrow> l) @ [ai])) [alo..<ahi] Map.empty"

function grow_back :: "u32 list \<Rightarrow> nat \<Rightarrow> u32 list \<Rightarrow> nat \<Rightarrow> nat \<Rightarrow> nat \<Rightarrow> nat \<times> nat" where
  "grow_back a alo b blo sa sb =
     (if alo < sa \<and> blo < sb \<and> a ! (sa - 1) = b ! (sb - 1)
      then grow_back a alo b blo (sa - 1) (sb - 1) else (sa, sb))"
  by pat_completeness auto
termination by (relation "measure (\<lambda>(a, alo, b, blo, sa, sb). sa)") auto

function grow_forth :: "u32 list \<Rightarrow> nat \<Rightarrow> u32 list \<Rightarrow> nat \<Rightarrow> nat \<Rightarrow> nat \<Rightarrow> nat \<times> nat" where
  "grow_forth a ahi b bhi ea eb =
     (if ea + 1 < ahi \<and> eb + 1 < bhi \<and> a ! (ea + 1) = b ! (eb + 1)
      then grow_forth a ahi b bhi (ea + 1) (eb + 1) else (ea, eb))"
  by pat_completeness auto
termination by (relation "measure (\<lambda>(a, ahi, b, bhi, ea, eb). ahi - ea)") auto

declare strip_front.simps [simp del] strip_back.simps [simp del]
  grow_back.simps [simp del] grow_forth.simps [simp del]

definition run_rarity :: "(u32 \<Rightarrow> nat list option) \<Rightarrow> u32 list \<Rightarrow> nat \<Rightarrow> nat \<Rightarrow> nat" where
  "run_rarity pos a sa ea =
     (case map (\<lambda>k. case pos (a ! k) of None \<Rightarrow> usize_max | Some l \<Rightarrow> length l) [sa..<ea + 1] of
        [] \<Rightarrow> usize_max | n # ns \<Rightarrow> fold min ns n)"

text \<open>The best run so far: its inclusive bounds on both sides and its rarity.\<close>

record best_run =
  br_sa :: nat
  br_ea :: nat
  br_sb :: nat
  br_eb :: nat
  br_rarity :: nat

definition better :: "best_run option \<Rightarrow> nat \<Rightarrow> nat \<Rightarrow> bool" where
  "better best rarity n =
     (case best of None \<Rightarrow> True
      | Some r \<Rightarrow> rarity < br_rarity r \<or> rarity = br_rarity r \<and> br_ea r - br_sa r + 1 < n)"

definition grow_run ::
  "(u32 \<Rightarrow> nat list option) \<Rightarrow> u32 list \<Rightarrow> nat \<Rightarrow> nat \<Rightarrow> u32 list \<Rightarrow> nat \<Rightarrow> nat \<Rightarrow> nat \<Rightarrow> nat \<Rightarrow> best_run" where
  "grow_run pos a alo ahi b blo bhi bi ai =
     (let (sa, sb) = grow_back a alo b blo ai bi;
          (ea, eb) = grow_forth a ahi b bhi ai bi
      in \<lparr>br_sa = sa, br_ea = ea, br_sb = sb, br_eb = eb, br_rarity = run_rarity pos a sa ea\<rparr>)"

definition try_anchor ::
  "(u32 \<Rightarrow> nat list option) \<Rightarrow> u32 list \<Rightarrow> nat \<Rightarrow> nat \<Rightarrow> u32 list \<Rightarrow> nat \<Rightarrow> nat \<Rightarrow> nat
     \<Rightarrow> nat \<Rightarrow> best_run option \<Rightarrow> best_run option" where
  "try_anchor pos a alo ahi b blo bhi bi ai best =
     (let r = grow_run pos a alo ahi b blo bhi bi ai
      in if better best (br_rarity r) (br_ea r - br_sa r + 1) then Some r else best)"

definition try_line ::
  "(u32 \<Rightarrow> nat list option) \<Rightarrow> u32 list \<Rightarrow> nat \<Rightarrow> nat \<Rightarrow> u32 list \<Rightarrow> nat \<Rightarrow> nat
     \<Rightarrow> nat \<Rightarrow> best_run option \<Rightarrow> best_run option" where
  "try_line pos a alo ahi b blo bhi bi best =
     (case pos (b ! bi) of
        None \<Rightarrow> best
      | Some chain \<Rightarrow>
          if length chain > MAX_CHAIN then best
          else fold (try_anchor pos a alo ahi b blo bhi bi) chain best)"

definition find_lcs ::
  "u32 list \<Rightarrow> nat \<Rightarrow> nat \<Rightarrow> u32 list \<Rightarrow> nat \<Rightarrow> nat \<Rightarrow> (nat \<times> nat \<times> nat \<times> nat) option" where
  "find_lcs a alo ahi b blo bhi =
     map_option (\<lambda>r. (br_sa r, br_ea r + 1, br_sb r, br_eb r + 1))
       (fold (try_line (positions a alo ahi) a alo ahi b blo bhi) [blo..<bhi] None)"

section \<open>What the search finds\<close>

lemma positions_eq:
  "positions a alo ahi t =
     (let l = filter (\<lambda>i. a ! i = t) [alo..<ahi] in if l = [] then None else Some l)"
proof (induction ahi)
  case 0
  then show ?case by (simp add: positions_def)
next
  case (Suc ahi)
  then show ?case
    by (cases "alo \<le> ahi") (auto simp: positions_def Let_def split: option.splits if_splits)
qed

text \<open>A run of the two regions through the pair \<open>(ai, bi)\<close>.\<close>

definition run_in :: "u32 list \<Rightarrow> nat \<Rightarrow> nat \<Rightarrow> u32 list \<Rightarrow> nat \<Rightarrow> nat \<Rightarrow> best_run \<Rightarrow> bool" where
  "run_in a alo ahi b blo bhi r \<longleftrightarrow>
     alo \<le> br_sa r \<and> br_sa r \<le> br_ea r \<and> br_ea r < ahi \<and>
     blo \<le> br_sb r \<and> br_sb r \<le> br_eb r \<and> br_eb r < bhi \<and>
     br_ea r - br_sa r = br_eb r - br_sb r \<and>
     (\<forall>k \<le> br_ea r - br_sa r. a ! (br_sa r + k) = b ! (br_sb r + k))"

lemma grow_back_spec:
  assumes "grow_back a alo b blo sa sb = (sa', sb')" "alo \<le> sa" "blo \<le> sb"
  shows "alo \<le> sa' \<and> sa' \<le> sa \<and> blo \<le> sb' \<and> sb' \<le> sb \<and> sa - sa' = sb - sb' \<and>
         (\<forall>k < sa - sa'. a ! (sa' + k) = b ! (sb' + k))"
  using assms
proof (induction a alo b blo sa sb rule: grow_back.induct)
  case (1 a alo b blo sa sb)
  show ?case
  proof (cases "alo < sa \<and> blo < sb \<and> a ! (sa - 1) = b ! (sb - 1)")
    case True
    then have "grow_back a alo b blo (sa - 1) (sb - 1) = (sa', sb')"
      using "1.prems" grow_back.simps [of a alo b blo sa sb] by simp
    then have ih: "alo \<le> sa'" "sa' \<le> sa - 1" "blo \<le> sb'" "sb' \<le> sb - 1" "sa - 1 - sa' = sb - 1 - sb'"
      "\<forall>k < sa - 1 - sa'. a ! (sa' + k) = b ! (sb' + k)"
      using "1.IH" True by auto
    have "a ! (sa' + k) = b ! (sb' + k)" if "k < sa - sa'" for k
    proof (cases "k < sa - 1 - sa'")
      case False
      then have "sa' + k = sa - 1" "sb' + k = sb - 1" using ih that True by linarith+
      then show ?thesis using True by simp
    qed (use ih in simp)
    then show ?thesis using ih True by auto
  next
    case False
    then show ?thesis using "1.prems" grow_back.simps [of a alo b blo sa sb] by auto
  qed
qed

lemma grow_forth_spec:
  assumes "grow_forth a ahi b bhi ea eb = (ea', eb')" "ea < ahi" "eb < bhi"
  shows "ea \<le> ea' \<and> ea' < ahi \<and> eb \<le> eb' \<and> eb' < bhi \<and> ea' - ea = eb' - eb \<and>
         (\<forall>k < ea' - ea. a ! (Suc ea + k) = b ! (Suc eb + k))"
  using assms
proof (induction a ahi b bhi ea eb rule: grow_forth.induct)
  case (1 a ahi b bhi ea eb)
  show ?case
  proof (cases "ea + 1 < ahi \<and> eb + 1 < bhi \<and> a ! (ea + 1) = b ! (eb + 1)")
    case True
    then have "grow_forth a ahi b bhi (ea + 1) (eb + 1) = (ea', eb')"
      using "1.prems" grow_forth.simps [of a ahi b bhi ea eb] by simp
    then have ih: "ea + 1 \<le> ea'" "ea' < ahi" "eb + 1 \<le> eb'" "eb' < bhi" "ea' - (ea + 1) = eb' - (eb + 1)"
      "\<forall>k < ea' - (ea + 1). a ! (Suc (ea + 1) + k) = b ! (Suc (eb + 1) + k)"
      using "1.IH" True by auto
    have "a ! (Suc ea + k) = b ! (Suc eb + k)" if "k < ea' - ea" for k
      using ih True that by (cases k) auto
    then show ?thesis using ih by auto
  next
    case False
    then show ?thesis using "1.prems" grow_forth.simps [of a ahi b bhi ea eb] by auto
  qed
qed

lemma grow_run_rarity:
  "br_rarity (grow_run pos a alo ahi b blo bhi bi ai) =
     run_rarity pos a (br_sa (grow_run pos a alo ahi b blo bhi bi ai)) (br_ea (grow_run pos a alo ahi b blo bhi bi ai))"
  by (simp add: grow_run_def split: prod.split)

lemma grow_run_in:
  assumes "alo \<le> ai" "ai < ahi" "blo \<le> bi" "bi < bhi" "a ! ai = b ! bi"
  shows "run_in a alo ahi b blo bhi (grow_run pos a alo ahi b blo bhi bi ai)"
proof -
  obtain sa sb where dn: "grow_back a alo b blo ai bi = (sa, sb)" by fastforce
  obtain ea eb where up: "grow_forth a ahi b bhi ai bi = (ea, eb)" by fastforce
  note lo = grow_back_spec [OF dn assms(1,3)] and hi = grow_forth_spec [OF up assms(2,4)]
  have "a ! (sa + k) = b ! (sb + k)" if "k \<le> ea - sa" for k
  proof -
    consider "k < ai - sa" | "k = ai - sa" | x where "k = ai - sa + Suc x"
      by (metis add_Suc_right less_iff_Suc_add linorder_neqE_nat)
    then show ?thesis
    proof cases
      case 2
      then have "sa + k = ai" "sb + k = bi" using lo by linarith+
      then show ?thesis using assms(5) by simp
    next
      case 3
      then have "x < ea - ai" "sa + k = Suc ai + x" "sb + k = Suc bi + x" using that lo hi by auto
      then show ?thesis using hi by simp
    qed (use lo in simp)
  qed
  then show ?thesis using lo hi dn up by (auto simp: run_in_def grow_run_def)
qed

text \<open>The pairs the search tries: equal tokens whose token is not too common on the old side.\<close>

definition anchor :: "u32 list \<Rightarrow> nat \<Rightarrow> nat \<Rightarrow> u32 list \<Rightarrow> nat \<Rightarrow> nat \<Rightarrow> nat \<Rightarrow> nat \<Rightarrow> bool" where
  "anchor a alo ahi b blo bhi ai bi \<longleftrightarrow>
     ai \<in> {alo..<ahi} \<and> bi \<in> {blo..<bhi} \<and> a ! ai = b ! bi \<and>
     card {i \<in> {alo..<ahi}. a ! i = b ! bi} \<le> MAX_CHAIN"

text \<open>One run is no worse an anchor than another: rarer, or as rare and at least as long.\<close>

definition no_worse :: "best_run \<Rightarrow> best_run \<Rightarrow> bool" where
  "no_worse r s \<longleftrightarrow> br_rarity r < br_rarity s \<or>
     br_rarity r = br_rarity s \<and> br_ea s - br_sa s \<le> br_ea r - br_sa r"

lemma no_worse_refl [simp]: "no_worse r r"
  by (simp add: no_worse_def)

lemma no_worse_trans: "no_worse r s \<Longrightarrow> no_worse s t \<Longrightarrow> no_worse r t"
  by (auto simp: no_worse_def)

lemma try_anchor_cases:
  obtains r where "try_anchor pos a alo ahi b blo bhi bi ai best = Some r"
    "no_worse r (grow_run pos a alo ahi b blo bhi bi ai)"
    "\<And>s. best = Some s \<Longrightarrow> no_worse r s"
    "r = grow_run pos a alo ahi b blo bhi bi ai \<or> best = Some r"
  by (cases best) (force simp: try_anchor_def better_def Let_def no_worse_def split: if_splits)+

text \<open>What a fold of tries knows: the best run is one of those seen, and none of them beats it.\<close>

definition best_of :: "best_run set \<Rightarrow> best_run option \<Rightarrow> bool" where
  "best_of R best \<longleftrightarrow>
     (case best of None \<Rightarrow> R = {} | Some r \<Rightarrow> r \<in> R \<and> (\<forall>s \<in> R. no_worse r s))"

lemma best_of_anchor:
  assumes "best_of R best"
  shows "best_of (insert (grow_run pos a alo ahi b blo bhi bi ai) R) (try_anchor pos a alo ahi b blo bhi bi ai best)"
proof -
  let ?g = "grow_run pos a alo ahi b blo bhi bi ai"
  obtain r where r: "try_anchor pos a alo ahi b blo bhi bi ai best = Some r" "no_worse r ?g"
    "\<And>s. best = Some s \<Longrightarrow> no_worse r s" "r = ?g \<or> best = Some r"
    using try_anchor_cases [of pos a alo ahi b blo bhi bi ai best] by blast
  show ?thesis
  proof (cases best)
    case None
    then show ?thesis using assms r by (simp add: best_of_def)
  next
    case (Some s)
    then have "\<forall>t \<in> R. no_worse r t" using assms r(3) no_worse_trans by (fastforce simp: best_of_def)
    then show ?thesis using assms r Some by (auto simp: best_of_def)
  qed
qed

lemma best_of_chain:
  "best_of R best \<Longrightarrow>
     best_of (R \<union> grow_run pos a alo ahi b blo bhi bi ` set chain)
       (fold (try_anchor pos a alo ahi b blo bhi bi) chain best)"
proof (induction chain arbitrary: R best)
  case (Cons ai chain)
  have "insert (grow_run pos a alo ahi b blo bhi bi ai) R \<union> grow_run pos a alo ahi b blo bhi bi ` set chain
      = R \<union> grow_run pos a alo ahi b blo bhi bi ` set (ai # chain)" by auto
  then show ?case using Cons.IH [OF best_of_anchor [OF Cons.prems]] by simp
qed simp

lemma best_of_line:
  fixes a :: "u32 list"
  assumes "best_of R best" "bi \<in> {blo..<bhi}"
  shows "best_of (R \<union> grow_run (positions a alo ahi) a alo ahi b blo bhi bi ` {ai. anchor a alo ahi b blo bhi ai bi})
           (try_line (positions a alo ahi) a alo ahi b blo bhi bi best)"
proof -
  let ?l = "filter (\<lambda>i. a ! i = b ! bi) [alo..<ahi]"
  have "distinct ?l" by simp
  then have len: "length ?l = card {i \<in> {alo..<ahi}. a ! i = b ! bi}"
    using distinct_card [of ?l] by (simp add: Collect_conj_eq)
  have set_l: "set ?l = {i \<in> {alo..<ahi}. a ! i = b ! bi}" by auto
  show ?thesis
  proof (cases "?l = [] \<or> MAX_CHAIN < length ?l")
    case True
    then have "{ai. anchor a alo ahi b blo bhi ai bi} = {}"
      using len set_l by (auto simp: anchor_def)
    moreover have "try_line (positions a alo ahi) a alo ahi b blo bhi bi best = best"
      using True by (auto simp: try_line_def positions_eq Let_def simp del: filter_empty_conv)
    ultimately show ?thesis using assms(1) by simp
  next
    case False
    then have "{ai. anchor a alo ahi b blo bhi ai bi} = set ?l"
      using len assms(2) by (auto simp: anchor_def)
    moreover have "try_line (positions a alo ahi) a alo ahi b blo bhi bi best =
        fold (try_anchor (positions a alo ahi) a alo ahi b blo bhi bi) ?l best"
      using False by (simp add: try_line_def positions_eq Let_def del: filter_empty_conv)
    ultimately show ?thesis using best_of_chain [OF assms(1)] by metis
  qed
qed

text \<open>The runs of a region: one for every anchor.\<close>

definition anchored_runs :: "u32 list \<Rightarrow> nat \<Rightarrow> nat \<Rightarrow> u32 list \<Rightarrow> nat \<Rightarrow> nat \<Rightarrow> best_run set" where
  "anchored_runs a alo ahi b blo bhi =
     {grow_run (positions a alo ahi) a alo ahi b blo bhi bi ai | ai bi. anchor a alo ahi b blo bhi ai bi}"

lemma best_of_find:
  "best_of (anchored_runs a alo ahi b blo bhi)
     (fold (try_line (positions a alo ahi) a alo ahi b blo bhi) [blo..<bhi] None)"
proof -
  let ?f = "\<lambda>bi. grow_run (positions a alo ahi) a alo ahi b blo bhi bi ` {ai. anchor a alo ahi b blo bhi ai bi}"
  have "best_of (R \<union> (\<Union>bi \<in> set bis. ?f bi)) (fold (try_line (positions a alo ahi) a alo ahi b blo bhi) bis best)"
    if "best_of R best" "set bis \<subseteq> {blo..<bhi}" for bis R best
    using that
  proof (induction bis arbitrary: R best)
    case (Cons bi bis)
    have "best_of (R \<union> ?f bi \<union> (\<Union>bi \<in> set bis. ?f bi))
        (fold (try_line (positions a alo ahi) a alo ahi b blo bhi) bis
          (try_line (positions a alo ahi) a alo ahi b blo bhi bi best))"
      using Cons.prems by (intro Cons.IH best_of_line) auto
    then show ?case by (simp add: Un_assoc)
  qed simp
  from this [of "{}" None "[blo..<bhi]"]
  have "best_of (\<Union>bi \<in> {blo..<bhi}. ?f bi)
     (fold (try_line (positions a alo ahi) a alo ahi b blo bhi) [blo..<bhi] None)"
    by (simp add: best_of_def)
  moreover have "anchor a alo ahi b blo bhi ai bi \<Longrightarrow> bi \<in> {blo..<bhi}" for ai bi
    by (simp add: anchor_def)
  then have "(\<Union>bi \<in> {blo..<bhi}. ?f bi) = anchored_runs a alo ahi b blo bhi"
    unfolding anchored_runs_def by blast
  ultimately show ?thesis by simp
qed

lemma anchored_run_in: "r \<in> anchored_runs a alo ahi b blo bhi \<Longrightarrow> run_in a alo ahi b blo bhi r"
  by (auto simp: anchored_runs_def anchor_def intro!: grow_run_in)

lemma find_lcs_run:
  assumes "find_lcs a alo ahi b blo bhi = Some (as, ae, bs, be)"
  shows "alo \<le> as \<and> as < ae \<and> ae \<le> ahi \<and> blo \<le> bs \<and> bs < be \<and> be \<le> bhi \<and> be = bs + (ae - as) \<and>
         (\<forall>k < ae - as. a ! (as + k) = b ! (bs + k))"
proof -
  obtain r where r: "r \<in> anchored_runs a alo ahi b blo bhi"
    "as = br_sa r" "ae = br_ea r + 1" "bs = br_sb r" "be = br_eb r + 1"
    using assms best_of_find [of a alo ahi b blo bhi] by (auto simp: find_lcs_def best_of_def)
  have run: "run_in a alo ahi b blo bhi r" by (rule anchored_run_in [OF r(1)])
  have "a ! (as + k) = b ! (bs + k)" if "k < ae - as" for k
  proof -
    have "k \<le> br_ea r - br_sa r" using that r by simp
    then show ?thesis using run r by (simp add: run_in_def)
  qed
  then show ?thesis using run r by (auto simp: run_in_def)
qed

text \<open>No anchor, no run: regions that do share lines are given up when every shared line occurs
  more than 64 times in the old region.\<close>

lemma find_lcs_None: "find_lcs a alo ahi b blo bhi = None \<longleftrightarrow> (\<nexists>ai bi. anchor a alo ahi b blo bhi ai bi)"
  using best_of_find [of a alo ahi b blo bhi]
  by (auto simp: find_lcs_def best_of_def anchored_runs_def split: option.splits)

section \<open>The recursion\<close>

lemma strip_front_spec:
  assumes "strip_front a ahi b bhi alo blo = (alo', blo')" "alo \<le> ahi" "blo \<le> bhi"
    "ahi \<le> length a" "bhi \<le> length b"
  shows "alo \<le> alo' \<and> alo' \<le> ahi \<and> blo \<le> blo' \<and> blo' \<le> bhi \<and> alo' - alo = blo' - blo \<and>
         agree a alo b blo (alo' - alo)"
  using assms
proof (induction a ahi b bhi alo blo rule: strip_front.induct)
  case (1 a ahi b bhi alo blo)
  show ?case
  proof (cases "alo < ahi \<and> blo < bhi \<and> a ! alo = b ! blo")
    case True
    then have "strip_front a ahi b bhi (alo + 1) (blo + 1) = (alo', blo')"
      using "1.prems" strip_front.simps [of a ahi b bhi alo blo] by simp
    then have ih: "alo + 1 \<le> alo'" "alo' \<le> ahi" "blo + 1 \<le> blo'" "blo' \<le> bhi"
      "alo' - (alo + 1) = blo' - (blo + 1)" "agree a (alo + 1) b (blo + 1) (alo' - (alo + 1))"
      using "1.IH" True "1.prems" by auto
    have "alo' - alo = Suc (alo' - (alo + 1))" using ih by simp
    then have "agree a alo b blo (alo' - alo)"
      using ih True "1.prems" agree_Suc [of a alo b blo "alo' - (alo + 1)"] by auto
    then show ?thesis using ih by auto
  next
    case False
    then show ?thesis using "1.prems" strip_front.simps [of a ahi b bhi alo blo] by auto
  qed
qed

lemma strip_back_spec:
  assumes "strip_back a alo b blo ahi bhi = (ahi', bhi')" "alo \<le> ahi" "blo \<le> bhi"
    "ahi \<le> length a" "bhi \<le> length b"
  shows "alo \<le> ahi' \<and> ahi' \<le> ahi \<and> blo \<le> bhi' \<and> bhi' \<le> bhi \<and> ahi - ahi' = bhi - bhi' \<and>
         agree a ahi' b bhi' (ahi - ahi')"
  using assms
proof (induction a alo b blo ahi bhi rule: strip_back.induct)
  case (1 a alo b blo ahi bhi)
  show ?case
  proof (cases "alo < ahi \<and> blo < bhi \<and> a ! (ahi - 1) = b ! (bhi - 1)")
    case True
    then have "strip_back a alo b blo (ahi - 1) (bhi - 1) = (ahi', bhi')"
      using "1.prems" strip_back.simps [of a alo b blo ahi bhi] by simp
    moreover have "alo \<le> ahi - 1" "blo \<le> bhi - 1" "ahi - 1 \<le> length a" "bhi - 1 \<le> length b"
      using True "1.prems" by auto
    ultimately have ih: "alo \<le> ahi'" "ahi' \<le> ahi - 1" "blo \<le> bhi'" "bhi' \<le> bhi - 1"
      "ahi - 1 - ahi' = bhi - 1 - bhi'" "agree a ahi' b bhi' (ahi - 1 - ahi')"
      using "1.IH" [OF True] by blast+
    have "ahi - ahi' = Suc (ahi - 1 - ahi')" "ahi' + (ahi - 1 - ahi') = ahi - 1"
      "bhi' + (ahi - 1 - ahi') = bhi - 1" using ih True by linarith+
    then have "agree a ahi' b bhi' (ahi - ahi')"
      using ih True "1.prems" agree_snoc [of a ahi' b bhi' "ahi - 1 - ahi'"] by auto
    then show ?thesis using ih True by auto
  next
    case False
    then show ?thesis using "1.prems" strip_back.simps [of a alo b blo ahi bhi] by auto
  qed
qed

lemma strip_front_mono:
  "strip_front a ahi b bhi alo blo = (alo', blo') \<Longrightarrow> alo \<le> alo'"
proof (induction a ahi b bhi alo blo rule: strip_front.induct)
  case (1 a ahi b bhi alo blo)
  then show ?case
    using strip_front.simps [of a ahi b bhi alo blo] by (auto split: if_splits)
qed

lemma strip_back_mono:
  "strip_back a alo b blo ahi bhi = (ahi', bhi') \<Longrightarrow> ahi' \<le> ahi"
proof (induction a alo b blo ahi bhi rule: strip_back.induct)
  case (1 a alo b blo ahi bhi)
  then show ?case
    using strip_back.simps [of a alo b blo ahi bhi] by (fastforce split: if_splits)
qed

function hist_diff :: "u32 list \<Rightarrow> nat \<Rightarrow> nat \<Rightarrow> u32 list \<Rightarrow> nat \<Rightarrow> nat \<Rightarrow> edit list" where
  "hist_diff a alo0 ahi0 b blo0 bhi0 =
     (let (alo, blo) = strip_front a ahi0 b bhi0 alo0 blo0;
          (ahi, bhi) = strip_back a alo b blo ahi0 bhi0
      in if alo = ahi \<or> blo = bhi
         then if alo \<noteq> ahi \<or> blo \<noteq> bhi then [\<lparr>ed_old = (alo, ahi), ed_new = (blo, bhi)\<rparr>] else []
         else case find_lcs a alo ahi b blo bhi of
                None \<Rightarrow> [\<lparr>ed_old = (alo, ahi), ed_new = (blo, bhi)\<rparr>]
              | Some (as, ae, bs, be) \<Rightarrow>
                  hist_diff a alo as b blo bs @ hist_diff a ae ahi b be bhi)"
  by pat_completeness auto
termination
proof (relation "measure (\<lambda>(a, alo, ahi, b, blo, bhi). ahi - alo)", goal_cases)
  case (2 a alo0 ahi0 b blo0 bhi0 front alo blo rear ahi bhi found as x ae y bs be)
  have front: "strip_front a ahi0 b bhi0 alo0 blo0 = (alo, blo)" and
    rear: "strip_back a alo b blo ahi0 bhi0 = (ahi, bhi)" and
    run: "find_lcs a alo ahi b blo bhi = Some (as, ae, bs, be)" using 2 by auto
  have "alo \<le> as" "as < ae" "ae \<le> ahi" using find_lcs_run [OF run] by blast+
  then show ?case using strip_front_mono [OF front] strip_back_mono [OF rear] by simp
next
  case (3 a alo0 ahi0 b blo0 bhi0 front alo blo rear ahi bhi found as x ae y bs be)
  have front: "strip_front a ahi0 b bhi0 alo0 blo0 = (alo, blo)" and
    rear: "strip_back a alo b blo ahi0 bhi0 = (ahi, bhi)" and
    run: "find_lcs a alo ahi b blo bhi = Some (as, ae, bs, be)" using 3 by auto
  have "alo \<le> as" "as < ae" "ae \<le> ahi" using find_lcs_run [OF run] by blast+
  then show ?case using strip_front_mono [OF front] strip_back_mono [OF rear] by simp
qed simp

declare hist_diff.simps [simp del]

lemma hist_diff_script:
  "alo \<le> ahi \<Longrightarrow> ahi \<le> length a \<Longrightarrow> blo \<le> bhi \<Longrightarrow> bhi \<le> length b \<Longrightarrow>
     script a b alo blo (hist_diff a alo ahi b blo bhi) ahi bhi"
proof (induction a alo ahi b blo bhi rule: hist_diff.induct)
  case (1 a alo0 ahi0 b blo0 bhi0)
  obtain alo blo where front: "strip_front a ahi0 b bhi0 alo0 blo0 = (alo, blo)" by fastforce
  obtain ahi bhi where rear: "strip_back a alo b blo ahi0 bhi0 = (ahi, bhi)" by fastforce
  have f: "alo0 \<le> alo" "alo \<le> ahi0" "blo0 \<le> blo" "blo \<le> bhi0" "alo - alo0 = blo - blo0"
      "agree a alo0 b blo0 (alo - alo0)"
    using strip_front_spec [OF front] "1.prems" by auto
  have r: "alo \<le> ahi" "ahi \<le> ahi0" "blo \<le> bhi" "bhi \<le> bhi0" "ahi0 - ahi = bhi0 - bhi"
      "agree a ahi b bhi (ahi0 - ahi)"
    using strip_back_spec [OF rear] f "1.prems" by auto
  let ?one = "[\<lparr>ed_old = (alo, ahi), ed_new = (blo, bhi)\<rparr>]"
  let ?mid = "if alo = ahi \<or> blo = bhi then if alo \<noteq> ahi \<or> blo \<noteq> bhi then ?one else []
         else case find_lcs a alo ahi b blo bhi of
                None \<Rightarrow> ?one
              | Some (as, ae, bs, be) \<Rightarrow> hist_diff a alo as b blo bs @ hist_diff a ae ahi b be bhi"
  have one: "script a b alo blo ?one ahi bhi" using r "1.prems" by simp
  have "script a b alo blo ?mid ahi bhi"
  proof (cases "alo = ahi \<or> blo = bhi")
    case True
    then show ?thesis using one r "1.prems" by auto
  next
    case False
    show ?thesis
    proof (cases "find_lcs a alo ahi b blo bhi")
      case None
      then show ?thesis using False one by simp
    next
      case (Some q)
      obtain as ae bs be where run: "find_lcs a alo ahi b blo bhi = Some (as, ae, bs, be)"
        using Some by (cases q) auto
      have lcs: "alo \<le> as" "as < ae" "ae \<le> ahi" "blo \<le> bs" "bs < be" "be \<le> bhi" "be = bs + (ae - as)"
        "\<forall>k < ae - as. a ! (as + k) = b ! (bs + k)"
        using find_lcs_run [OF run] by blast+
      have bounds: "as \<le> length a" "ae \<le> ahi" "ahi \<le> length a" "bs \<le> length b" "be \<le> bhi" "bhi \<le> length b"
        using lcs(1-6) r "1.prems" by linarith+
      have left: "script a b alo blo (hist_diff a alo as b blo bs) as bs"
        using "1.IH"(1) [OF front [symmetric] refl rear [symmetric] refl False run refl refl refl lcs(1) bounds(1) lcs(4) bounds(4)] .
      have right: "script a b ae be (hist_diff a ae ahi b be bhi) ahi bhi"
        using "1.IH"(2) [OF front [symmetric] refl rear [symmetric] refl False run refl refl refl bounds(2,3,5,6)] .
      have ag: "agree a as b bs (ae - as)" unfolding agree_def using lcs bounds by auto
      have "script a b as bs (hist_diff a ae ahi b be bhi) ahi bhi"
        by (rule script_agree [OF ag]) (use right lcs(2,7) in simp)
      then show ?thesis using script_append [OF left] False run by simp
    qed
  qed
  moreover have "alo0 + (alo - alo0) = alo" "blo0 + (alo - alo0) = blo" using f(1,3,5) by linarith+
  ultimately have "script a b (alo0 + (alo - alo0)) (blo0 + (alo - alo0)) ?mid ahi bhi" by metis
  then have "script a b alo0 blo0 ?mid ahi bhi" by (rule script_agree [OF f(6)])
  moreover have "script a b ahi bhi [] ahi0 bhi0" using r by simp
  ultimately have "script a b alo0 blo0 (?mid @ []) ahi0 bhi0" by (rule script_append)
  moreover have "hist_diff a alo0 ahi0 b blo0 bhi0 = ?mid"
    by (subst hist_diff.simps) (simp add: front rear)
  ultimately show ?case by simp
qed

section \<open>Lines and tokens\<close>

text \<open>\<^verbatim>\<open>split_lines\<close>; the first argument is the line read so far.\<close>

fun split_lines_from :: "bytes \<Rightarrow> bytes \<Rightarrow> bytes list" where
  "split_lines_from line [] = (if line = [] then [] else [line])"
| "split_lines_from line (b # bs) =
     (if b = 0x0A then (line @ [b]) # split_lines_from [] bs else split_lines_from (line @ [b]) bs)"

definition split_lines :: "bytes \<Rightarrow> bytes list" where
  "split_lines data = split_lines_from [] data"

definition is_binary :: "bytes \<Rightarrow> bool" where
  "is_binary data \<longleftrightarrow> (\<exists>b \<in> set (take 8000 data). b = 0)"

text \<open>The interner: lines with their tokens, the newest first.\<close>

type_synonym interner = "(bytes \<times> u32) list"

definition intern :: "bytes \<Rightarrow> interner \<Rightarrow> u32 \<times> interner" where
  "intern line t =
     (let next_tok = of_nat (length t) in
      case map_of t line of Some tok \<Rightarrow> (tok, t) | None \<Rightarrow> (next_tok, (line, next_tok) # t))"

fun intern_all :: "bytes list \<Rightarrow> interner \<Rightarrow> u32 list \<times> interner" where
  "intern_all [] t = ([], t)"
| "intern_all (l # ls) t =
     (let (tok, t') = intern l t; (toks, t'') = intern_all ls t' in (tok # toks, t''))"

text \<open>\<^verbatim>\<open>coalesce\<close>; \<^verbatim>\<open>out\<close> is kept with its last element first.\<close>

fun coalesce_push :: "edit list \<Rightarrow> edit \<Rightarrow> edit list" where
  "coalesce_push [] e = [e]"
| "coalesce_push (l # out) e =
     (if snd (ed_old l) \<ge> fst (ed_old e) \<and> snd (ed_new l) \<ge> fst (ed_new e)
      then l\<lparr>ed_old := (fst (ed_old l), max (snd (ed_old e)) (snd (ed_old l))),
             ed_new := (fst (ed_new l), max (snd (ed_new e)) (snd (ed_new l)))\<rparr> # out
      else e # l # out)"

definition coalesce :: "edit list \<Rightarrow> edit list" where
  "coalesce edits =
     rev (foldl (\<lambda>out e. if range_empty (ed_old e) \<and> range_empty (ed_new e) then out else coalesce_push out e)
            [] edits)"

definition diff_lines :: "bytes list \<Rightarrow> bytes list \<Rightarrow> edit list" where
  "diff_lines a b =
     (let (at, t) = intern_all a []; (bt, _) = intern_all b t
      in coalesce (hist_diff at 0 (length at) bt 0 (length bt)))"

definition diff :: "bytes \<Rightarrow> bytes \<Rightarrow> edit list" where
  "diff old new = diff_lines (split_lines old) (split_lines new)"

subsection \<open>Splitting\<close>

lemma concat_split_lines_from: "concat (split_lines_from line bs) = line @ bs"
  by (induction line bs rule: split_lines_from.induct) auto

lemma concat_split_lines [simp]: "concat (split_lines data) = data"
  by (simp add: split_lines_def concat_split_lines_from)

text \<open>A line: a newline at its end at most; and only the last one may lack it.\<close>

fun lines_ok :: "bytes list \<Rightarrow> bool" where
  "lines_ok [] = True"
| "lines_ok (l # ls) \<longleftrightarrow>
     l \<noteq> [] \<and> 0x0A \<notin> set (butlast l) \<and> (ls \<noteq> [] \<longrightarrow> last l = 0x0A) \<and> lines_ok ls"

lemma split_lines_ok_from: "0x0A \<notin> set line \<Longrightarrow> lines_ok (split_lines_from line bs)"
  by (induction line bs rule: split_lines_from.induct) (auto dest: in_set_butlastD)

lemma split_lines_ok: "lines_ok (split_lines data)"
  by (simp add: split_lines_def split_lines_ok_from)

lemma split_lines_from_no_newline:
  "0x0A \<notin> set bs \<Longrightarrow> line @ bs \<noteq> [] \<Longrightarrow> split_lines_from line bs = [line @ bs]"
  by (induction bs arbitrary: line) auto

lemma split_lines_from_line:
  "0x0A \<notin> set bs \<Longrightarrow> split_lines_from line (bs @ 0x0A # rest) = (line @ bs @ [0x0A]) # split_lines_from [] rest"
  by (induction bs arbitrary: line) auto

lemma split_lines_concat: "lines_ok ls \<Longrightarrow> split_lines (concat ls) = ls"
proof (induction ls)
  case Nil
  then show ?case by (simp add: split_lines_def)
next
  case (Cons l ls)
  show ?case
  proof (cases "last l = 0x0A")
    case True
    then have l: "l = butlast l @ [0x0A]" using Cons.prems by (metis append_butlast_last_id lines_ok.simps(2))
    have "concat (l # ls) = butlast l @ 0x0A # concat ls" by (subst l) simp
    moreover have "split_lines_from [] (butlast l @ 0x0A # concat ls) = l # split_lines_from [] (concat ls)"
      using split_lines_from_line [of "butlast l" "[]" "concat ls"] l Cons.prems by simp
    ultimately show ?thesis using Cons by (simp only: split_lines_def lines_ok.simps)
  next
    case False
    then have "ls = []" "0x0A \<notin> set l"
      using Cons.prems by (auto, metis append_butlast_last_id empty_iff insert_iff list.set(1) list.set(2) set_append Un_iff lines_ok.simps(2))
    then show ?thesis using split_lines_from_no_newline [of l "[]"] Cons.prems by (simp add: split_lines_def)
  qed
qed

subsection \<open>Interning\<close>

definition interner_ok :: "interner \<Rightarrow> bool" where
  "interner_ok t \<longleftrightarrow> distinct (map fst t) \<and> map snd t = rev (map of_nat [0..<length t])"

lemma interner_ok_Nil [simp]: "interner_ok []"
  by (simp add: interner_ok_def)

lemma intern_ok:
  assumes "interner_ok t" "intern line t = (tok, t')"
  shows "interner_ok t' \<and> map_of t' line = Some tok \<and> map_of t \<subseteq>\<^sub>m map_of t' \<and> length t' \<le> Suc (length t)"
proof (cases "map_of t line")
  case None
  then have "line \<notin> fst ` set t" by (simp add: map_of_eq_None_iff)
  moreover have eq: "tok = of_nat (length t)" "t' = (line, tok) # t"
    using assms(2) None by (auto simp: intern_def Let_def)
  moreover have "map_of t \<subseteq>\<^sub>m map_of t'" using None eq by (auto simp: map_le_def)
  ultimately show ?thesis using assms(1) by (simp add: interner_ok_def)
qed (use assms in \<open>auto simp: intern_def Let_def\<close>)

lemma intern_all_ok:
  "interner_ok t \<Longrightarrow> intern_all ls t = (toks, t') \<Longrightarrow>
     interner_ok t' \<and> map_of t \<subseteq>\<^sub>m map_of t' \<and> length t' \<le> length t + length ls \<and>
     set ls \<subseteq> dom (map_of t') \<and> toks = map (\<lambda>l. the (map_of t' l)) ls"
proof (induction ls arbitrary: t toks)
  case (Cons l ls)
  obtain tok u where tok: "intern l t = (tok, u)" by fastforce
  obtain toks' where rest: "intern_all ls u = (toks', t')" "toks = tok # toks'"
    using Cons.prems tok by (auto split: prod.splits)
  have one: "interner_ok u" "map_of u l = Some tok" "map_of t \<subseteq>\<^sub>m map_of u" "length u \<le> Suc (length t)"
    using intern_ok [OF Cons.prems(1) tok] by auto
  have ih: "interner_ok t'" "map_of u \<subseteq>\<^sub>m map_of t'" "length t' \<le> length u + length ls"
     "set ls \<subseteq> dom (map_of t')" "toks' = map (\<lambda>l. the (map_of t' l)) ls"
    using Cons.IH [OF one(1) rest(1)] by auto
  have "map_of t' l = Some tok" using one(2) ih(2) by (metis domI map_le_def)
  moreover have "map_of t \<subseteq>\<^sub>m map_of t'" using one(3) ih(2) by (rule map_le_trans)
  moreover have "length t' \<le> length t + length (l # ls)" using one(4) ih(3) by simp
  ultimately show ?case using ih(1,4,5) rest(2) by (simp add: domI)
qed simp

lemma interner_inj:
  assumes "interner_ok t" "length t \<le> 4294967296"
  shows "inj_on (\<lambda>l. the (map_of t l)) (dom (map_of t))"
proof (rule inj_onI)
  fix k l assume "k \<in> dom (map_of t)" "l \<in> dom (map_of t)" and eq: "the (map_of t k) = the (map_of t l)"
  then obtain x where k: "map_of t k = Some x" and l: "map_of t l = Some x" by auto
  have "distinct (map snd t)"
  proof -
    have "inj_on (of_nat :: nat \<Rightarrow> u32) {0..<length t}"
    proof (rule inj_onI)
      fix i j assume ij: "i \<in> {0..<length t}" "j \<in> {0..<length t}" and of: "(of_nat i :: u32) = of_nat j"
      have "i < 4294967296" "j < 4294967296" using ij assms(2) by auto
      moreover have "unat (of_nat i :: u32) = unat (of_nat j :: u32)" by (rule arg_cong [OF of])
      ultimately show "i = j" by (simp only: unat_of_nat_u32)
    qed
    then show ?thesis using assms(1) by (simp add: interner_ok_def distinct_map)
  qed
  moreover have "(k, x) \<in> set t" "(l, x) \<in> set t" using k l by (auto dest: map_of_SomeD)
  ultimately have "(k, x) = (l, x)" by (auto simp: distinct_map dest: inj_onD [of snd "set t" "(k, x)" "(l, x)"])
  then show "k = l" by simp
qed

subsection \<open>Coalescing\<close>

lemma script_merge:
  assumes "script a b i j (l # e # es) p q"
    and touch: "fst (ed_old e) \<le> snd (ed_old l)" "fst (ed_new e) \<le> snd (ed_new l)"
  shows "script a b i j (l\<lparr>ed_old := (fst (ed_old l), max (snd (ed_old e)) (snd (ed_old l))),
             ed_new := (fst (ed_new l), max (snd (ed_new e)) (snd (ed_new l)))\<rparr> # es) p q"
proof -
  have "max (snd (ed_old e)) (snd (ed_old l)) = snd (ed_old e)"
    "max (snd (ed_new e)) (snd (ed_new l)) = snd (ed_new e)" using assms by auto
  then show ?thesis using assms by auto
qed

lemma script_drop_empty:
  assumes "script a b i j (e # es) p q" "range_empty (ed_old e)" "range_empty (ed_new e)"
  shows "script a b i j es p q"
proof -
  let ?k = "fst (ed_old e) - i"
  have eq: "i + ?k = snd (ed_old e)" "j + ?k = snd (ed_new e)" using assms by (auto simp: range_empty_def)
  have "agree a i b j ?k" "script a b (i + ?k) (j + ?k) es p q" unfolding eq using assms(1) by auto
  then show ?thesis by (rule script_agree)
qed

definition coalesce_step :: "edit list \<Rightarrow> edit \<Rightarrow> edit list" where
  "coalesce_step out e = (if range_empty (ed_old e) \<and> range_empty (ed_new e) then out else coalesce_push out e)"

lemma coalesce_foldl: "coalesce edits = rev (foldl coalesce_step [] edits)"
proof -
  have "(\<lambda>out e. if range_empty (ed_old e) \<and> range_empty (ed_new e) then out else coalesce_push out e) = coalesce_step"
    by (intro ext) (simp add: coalesce_step_def)
  then show ?thesis by (simp add: coalesce_def)
qed

lemma coalesce_step_script:
  assumes "script a b i j (rev out @ e # es) p q" "i \<le> length a" "j \<le> length b"
  shows "script a b i j (rev (coalesce_step out e) @ es) p q"
proof (cases "range_empty (ed_old e) \<and> range_empty (ed_new e)")
  case True
  obtain m n where "script a b i j (rev out) m n" "script a b m n (e # es) p q"
    using script_appendD [OF assms] by blast
  then show ?thesis using script_drop_empty script_append True by (metis coalesce_step_def)
next
  case False
  show ?thesis
  proof (cases out)
    case Nil
    then have "coalesce_step out e = [e]" using False by (auto simp: coalesce_step_def)
    then show ?thesis using assms(1) Nil by simp
  next
    case (Cons l out')
    obtain m n where mn: "script a b i j (rev out') m n" "script a b m n (l # e # es) p q"
      using script_appendD [of a b i j "rev out'" "l # e # es" p q] assms Cons by auto
    show ?thesis
    proof (cases "fst (ed_old e) \<le> snd (ed_old l) \<and> fst (ed_new e) \<le> snd (ed_new l)")
      case True
      then have "coalesce_step out e = l\<lparr>ed_old := (fst (ed_old l), max (snd (ed_old e)) (snd (ed_old l))),
             ed_new := (fst (ed_new l), max (snd (ed_new e)) (snd (ed_new l)))\<rparr> # out'"
        unfolding coalesce_step_def if_not_P [OF False] Cons by simp
      then show ?thesis using script_append [OF mn(1) script_merge [OF mn(2)]] True by simp
    next
      case False
      then have "coalesce_step out e = e # l # out'"
        using Cons \<open>\<not> (range_empty (ed_old e) \<and> range_empty (ed_new e))\<close> by (auto simp: coalesce_step_def)
      then show ?thesis using script_append [OF mn] by simp
    qed
  qed
qed

lemma coalesce_script:
  assumes "script a b i j es p q" "i \<le> length a" "j \<le> length b"
  shows "script a b i j (coalesce es) p q"
proof -
  have "script a b i j (rev out @ es) p q \<Longrightarrow> script a b i j (rev (foldl coalesce_step out es)) p q" for out
  proof (induction es arbitrary: out)
    case (Cons e es)
    then show ?case using coalesce_step_script [OF Cons.prems assms(2,3)] by simp
  qed simp
  from this [of "[]"] show ?thesis using assms(1) by (simp add: coalesce_foldl)
qed

text \<open>In a coalesced script no edit is empty and a line that stays lies between any two.\<close>

fun separated :: "edit list \<Rightarrow> bool" where
  "separated [] = True"
| "separated [e] = (fst (ed_old e) < snd (ed_old e) \<or> fst (ed_new e) < snd (ed_new e))"
| "separated (e # f # es) \<longleftrightarrow>
     (fst (ed_old e) < snd (ed_old e) \<or> fst (ed_new e) < snd (ed_new e)) \<and>
     snd (ed_old e) < fst (ed_old f) \<and> snd (ed_new e) < fst (ed_new f) \<and> separated (f # es)"

lemma separated_snoc:
  "separated (es @ [l]) \<Longrightarrow> snd (ed_old l) < fst (ed_old e) \<Longrightarrow> snd (ed_new l) < fst (ed_new e) \<Longrightarrow>
     fst (ed_old e) < snd (ed_old e) \<or> fst (ed_new e) < snd (ed_new e) \<Longrightarrow> separated (es @ [l, e])"
  by (induction es rule: separated.induct) auto

lemma separated_replace:
  "separated (es @ [l]) \<Longrightarrow> fst (ed_old e) = fst (ed_old l) \<Longrightarrow> fst (ed_new e) = fst (ed_new l) \<Longrightarrow>
     fst (ed_old e) < snd (ed_old e) \<or> fst (ed_new e) < snd (ed_new e) \<Longrightarrow> separated (es @ [e])"
  by (induction es rule: separated.induct) auto

lemma separated_last:
  "separated (es @ [l]) \<Longrightarrow> fst (ed_old l) < snd (ed_old l) \<or> fst (ed_new l) < snd (ed_new l)"
  by (induction es rule: separated.induct) auto

lemma coalesce_step_separated:
  assumes "separated (rev out)" "script a b i j (rev out @ e # es) p q" "i \<le> length a" "j \<le> length b"
  shows "separated (rev (coalesce_step out e))"
proof (cases "range_empty (ed_old e) \<and> range_empty (ed_new e)")
  case False
  then have ne: "fst (ed_old e) < snd (ed_old e) \<or> fst (ed_new e) < snd (ed_new e)"
    by (auto simp: range_empty_def)
  show ?thesis
  proof (cases out)
    case Nil
    have "coalesce_step out e = [e]" unfolding coalesce_step_def if_not_P [OF False] Nil by simp
    then show ?thesis using ne by simp
  next
    case (Cons l out')
    have "script a b i j (rev out' @ [l] @ e # es) p q" using assms(2) Cons by simp
    then obtain m n where "script a b m n ([l] @ e # es) p q"
      using script_appendD assms(3,4) by blast
    then have le: "snd (ed_old l) \<le> fst (ed_old e)"
      "fst (ed_new e) + snd (ed_old l) = snd (ed_new l) + fst (ed_old e)" by auto
    show ?thesis
    proof (cases "fst (ed_old e) \<le> snd (ed_old l) \<and> fst (ed_new e) \<le> snd (ed_new l)")
      case True
      let ?m = "l\<lparr>ed_old := (fst (ed_old l), max (snd (ed_old e)) (snd (ed_old l))),
             ed_new := (fst (ed_new l), max (snd (ed_new e)) (snd (ed_new l)))\<rparr>"
      have "coalesce_step out e = ?m # out'"
        using True unfolding coalesce_step_def if_not_P [OF False] Cons by simp
      moreover have "fst (ed_old l) < snd (ed_old l) \<or> fst (ed_new l) < snd (ed_new l)"
        using separated_last [of "rev out'" l] assms(1) Cons by simp
      then have "fst (ed_old ?m) < snd (ed_old ?m) \<or> fst (ed_new ?m) < snd (ed_new ?m)" by auto
      then have "separated (rev out' @ [?m])"
        using separated_replace [of "rev out'" l ?m] assms(1) Cons by simp
      ultimately show ?thesis by simp
    next
      case touch: False
      have "coalesce_step out e = e # l # out'"
        using touch unfolding coalesce_step_def if_not_P [OF False] Cons by auto
      moreover have "snd (ed_old l) < fst (ed_old e)" "snd (ed_new l) < fst (ed_new e)" using touch le by auto
      ultimately show ?thesis using separated_snoc [of "rev out'" l e] ne assms(1) Cons by simp
    qed
  qed
qed (use assms(1) in \<open>simp add: coalesce_step_def\<close>)

lemma coalesce_separated:
  assumes "script a b i j es p q" "i \<le> length a" "j \<le> length b"
  shows "separated (coalesce es)"
proof -
  have "script a b i j (rev out @ es) p q \<Longrightarrow> separated (rev out) \<Longrightarrow> separated (rev (foldl coalesce_step out es))" for out
  proof (induction es arbitrary: out)
    case (Cons e es)
    then show ?case
      using coalesce_step_script [OF Cons.prems(1) assms(2,3)]
        coalesce_step_separated [OF Cons.prems(2,1) assms(2,3)] by simp
  qed simp
  from this [of "[]"] show ?thesis using assms(1) by (simp add: coalesce_foldl)
qed

section \<open>The diff of two texts\<close>

lemma diff_lines_tokens:
  assumes "length a + length b \<le> 4294967296"
  obtains f where "inj_on f (set a \<union> set b)"
    "diff_lines a b = coalesce (hist_diff (map f a) 0 (length a) (map f b) 0 (length b))"
proof -
  obtain ta t where ta: "intern_all a [] = (ta, t)" by fastforce
  obtain tb u where tb: "intern_all b t = (tb, u)" by fastforce
  have one: "interner_ok t" "length t \<le> length a" "set a \<subseteq> dom (map_of t)" "ta = map (\<lambda>l. the (map_of t l)) a"
    using intern_all_ok [OF interner_ok_Nil ta] by auto
  have two: "interner_ok u" "map_of t \<subseteq>\<^sub>m map_of u" "length u \<le> length t + length b"
     "set b \<subseteq> dom (map_of u)" "tb = map (\<lambda>l. the (map_of u l)) b"
    using intern_all_ok [OF one(1) tb] by auto
  let ?f = "\<lambda>l. the (map_of u l)"
  have f: "ta = map ?f a" using one(3,4) two(2) by (auto simp: map_le_def subset_iff)
  have "set a \<union> set b \<subseteq> dom (map_of u)" using one(3) two(2,4) map_le_implies_dom_le by blast
  moreover have "inj_on ?f (dom (map_of u))"
    by (rule interner_inj) (use two one assms in auto)
  ultimately have "inj_on ?f (set a \<union> set b)" by (auto intro: inj_on_subset)
  moreover have "diff_lines a b = coalesce (hist_diff (map ?f a) 0 (length a) (map ?f b) 0 (length b))"
    using f two(5) ta tb by (simp add: diff_lines_def)
  ultimately show thesis by (rule that)
qed

lemma diff_lines_script:
  assumes "length a + length b \<le> 4294967296"
  shows "script a b 0 0 (diff_lines a b) (length a) (length b) \<and> separated (diff_lines a b)"
proof -
  obtain f where inj: "inj_on f (set a \<union> set b)"
    and eq: "diff_lines a b = coalesce (hist_diff (map f a) 0 (length a) (map f b) 0 (length b))"
    by (rule diff_lines_tokens [OF assms])
  let ?e = "hist_diff (map f a) 0 (length a) (map f b) 0 (length b)"
  have "script (map f a) (map f b) 0 0 ?e (length a) (length b)"
    by (rule hist_diff_script) auto
  then have "script a b 0 0 ?e (length a) (length b)" unfolding script_map [OF inj] .
  then show ?thesis unfolding eq by (auto intro: coalesce_script coalesce_separated)
qed

lemma strip_front_same:
  "i \<le> n \<Longrightarrow> strip_front a n a n i i = (n, n)"
proof (induction "n - i" arbitrary: i)
  case (Suc k)
  then show ?case using Suc.hyps(1) [of "i + 1"] strip_front.simps [of a n a n i i] by simp
qed (simp add: strip_front.simps)

lemma diff_lines_same:
  assumes "length a + length a \<le> 4294967296"
  shows "diff_lines a a = []"
proof -
  obtain f where eq: "diff_lines a a = coalesce (hist_diff (map f a) 0 (length a) (map f a) 0 (length a))"
    using diff_lines_tokens [OF assms] by metis
  have "hist_diff (map f a) 0 (length a) (map f a) 0 (length a) = []"
    by (subst hist_diff.simps) (simp add: strip_front_same strip_back.simps)
  then show ?thesis using eq by (simp add: coalesce_def)
qed

lemma diff_lines_empty:
  assumes "length a + length b \<le> 4294967296"
  shows "diff_lines a b = [] \<longleftrightarrow> a = b"
proof
  assume "diff_lines a b = []"
  then have "script a b 0 0 [] (length a) (length b)" using diff_lines_script [OF assms] by simp
  from script_apply [OF this] show "a = b" by simp
qed (use diff_lines_same assms in auto)

text \<open>C18. The diff of two texts replays the old one into the new one, for any input of fewer than
  \<open>2 ^ 32\<close> lines (a token is a \<^verbatim>\<open>u32\<close>): the edits are in order and in range, what lies between them
  is the same on both sides, none is empty and a kept line separates any two, and replacing the old
  lines of each edit by its new lines gives the new text byte for byte.  Two texts are equal exactly
  when there is no edit.\<close>

theorem diff_replays:
  assumes "length (split_lines old) + length (split_lines new) \<le> 4294967296"
  shows "concat (apply_edits (split_lines old) (split_lines new) 0 (diff old new) (length (split_lines old))) = new
    \<and> script (split_lines old) (split_lines new) 0 0 (diff old new)
        (length (split_lines old)) (length (split_lines new))
    \<and> separated (diff old new) \<and> (diff old new = [] \<longleftrightarrow> old = new)"
proof -
  let ?a = "split_lines old" and ?b = "split_lines new"
  have sc: "script ?a ?b 0 0 (diff old new) (length ?a) (length ?b)" and sep: "separated (diff old new)"
    using diff_lines_script [OF assms] by (simp_all add: diff_def)
  have ap: "apply_edits ?a ?b 0 (diff old new) (length ?a) = ?b"
    using script_apply [OF sc] by simp
  moreover have "diff old new = [] \<longleftrightarrow> old = new"
    using diff_lines_empty [OF assms] by (metis concat_split_lines diff_def)
  ultimately show ?thesis using sc sep by simp
qed

theorem diff_replays_witness:
  "concat (apply_edits (split_lines [97, 10, 98, 10, 99]) (split_lines [97, 10, 120, 10, 99]) 0
      (diff [97, 10, 98, 10, 99] [97, 10, 120, 10, 99]) 3) = [97, 10, 120, 10, 99]"
  using diff_replays [of "[97, 10, 98, 10, 99]" "[97, 10, 120, 10, 99]"]
  by (simp add: split_lines_def numeral_3_eq_3)

lemma run_rarity_eq:
  assumes "sa \<le> ea" "alo \<le> sa" "ea < ahi"
  shows "run_rarity (positions a alo ahi) a sa ea =
    Min ((\<lambda>k. card {i \<in> {alo..<ahi}. a ! i = a ! k}) ` {sa..ea})"
proof -
  let ?g = "\<lambda>k. case positions a alo ahi (a ! k) of None \<Rightarrow> usize_max | Some l \<Rightarrow> length l"
  let ?c = "\<lambda>k. card {i \<in> {alo..<ahi}. a ! i = a ! k}"
  have g: "?g k = ?c k" if "k \<in> {sa..ea}" for k
  proof -
    let ?l = "filter (\<lambda>i. a ! i = a ! k) [alo..<ahi]"
    have "k \<in> set ?l" using that assms by auto
    then have "?l \<noteq> []" by (metis empty_iff list.set(1))
    moreover have "length ?l = ?c k"
      using distinct_card [of ?l] by (simp add: Collect_conj_eq)
    ultimately show ?thesis by (simp add: positions_eq Let_def del: filter_empty_conv)
  qed
  have ne: "map ?g [sa..<ea + 1] \<noteq> []" using assms by simp
  then obtain n ns where n: "map ?g [sa..<ea + 1] = n # ns" by (cases "map ?g [sa..<ea + 1]") auto
  have "run_rarity (positions a alo ahi) a sa ea = Min (set (n # ns))"
    unfolding run_rarity_def n by (simp add: Min.set_eq_fold del: set_simps)
  also have "set (n # ns) = ?g ` {sa..ea}"
    unfolding n [symmetric] by (simp add: atLeastLessThanSuc_atLeastAtMost del: upt_Suc)
  also have "\<dots> = ?c ` {sa..ea}" using g by (intro image_cong) auto
  finally show ?thesis .
qed

text \<open>The region the histogram search anchors on is the best there is: among the equal runs around all
  pairs of equal lines (of those that occur at most 64 times in the old region), a run that none beats
  on rarity, the fewest occurrences of a line of it in the old region, and then on length.  When there
  is no such pair the search returns nothing, although the regions may share lines.\<close>

theorem histogram_anchors_rarest:
  "case find_lcs a alo ahi b blo bhi of
     None \<Rightarrow> \<nexists>ai bi. anchor a alo ahi b blo bhi ai bi
   | Some (as, ae, bs, be) \<Rightarrow>
       (\<exists>r \<in> anchored_runs a alo ahi b blo bhi.
          as = br_sa r \<and> ae = br_ea r + 1 \<and> bs = br_sb r \<and> be = br_eb r + 1 \<and>
          run_in a alo ahi b blo bhi r \<and>
          br_rarity r = Min ((\<lambda>k. card {i \<in> {alo..<ahi}. a ! i = a ! k}) ` {as..<ae}) \<and>
          \<not> (\<exists>s \<in> anchored_runs a alo ahi b blo bhi. \<not> no_worse r s))"
proof (cases "find_lcs a alo ahi b blo bhi")
  case None
  with find_lcs_None [of a alo ahi b blo bhi] show ?thesis by simp
next
  case (Some q)
  then obtain r where r: "r \<in> anchored_runs a alo ahi b blo bhi" "\<forall>s \<in> anchored_runs a alo ahi b blo bhi. no_worse r s"
    and q: "q = (br_sa r, br_ea r + 1, br_sb r, br_eb r + 1)"
    using best_of_find [of a alo ahi b blo bhi] by (auto simp: find_lcs_def best_of_def)
  have run: "run_in a alo ahi b blo bhi r" by (rule anchored_run_in [OF r(1)])
  have "br_rarity r = run_rarity (positions a alo ahi) a (br_sa r) (br_ea r)"
    using r(1) grow_run_rarity by (auto simp: anchored_runs_def)
  also have "\<dots> = Min ((\<lambda>k. card {i \<in> {alo..<ahi}. a ! i = a ! k}) ` {br_sa r..br_ea r})"
    using run by (intro run_rarity_eq) (auto simp: run_in_def)
  finally show ?thesis using Some q r run
    by (simp add: atLeastLessThanSuc_atLeastAtMost) blast
qed

end
