(* ===== verification/Diff_Hunks.thy ===== *)
theory Diff_Hunks
  imports Line_Diff Rust_Str
begin

text \<open>
  Unified-diff hunks (\<^verbatim>\<open>alt-diff/src/lib.rs\<close>): edits are grouped when their context
  windows touch, each group becomes a hunk with its \<^verbatim>\<open>@@\<close> coordinates, and the hunks
  are printed.  The reference is \<open>patch_hunks\<close>, what \<^verbatim>\<open>patch\<close> does with hunks: copy the
  lines in between, check the old side of a hunk, put its new side.
\<close>

record hunk =
  hk_old_start :: nat
  hk_old_len :: nat
  hk_new_start :: nat
  hk_new_len :: nat
  hk_lines :: "(u8 \<times> bytes) list"

text \<open>The loop of \<^verbatim>\<open>hunks\<close> that groups the edits; the last group is kept first.\<close>

fun group_push :: "nat \<Rightarrow> edit list list \<Rightarrow> edit \<Rightarrow> edit list list" where
  "group_push context_lines [] e = [[e]]"
| "group_push context_lines (g # groups) e =
     (if fst (ed_old e) \<le> snd (ed_old (last g)) + 2 * context_lines then (g @ [e]) # groups else [e] # g # groups)"

text \<open>The body of \<^verbatim>\<open>build_hunk\<close>: the context up to an edit, its removed and its added lines, and after
  the last edit the context up to \<open>old_to\<close>.\<close>

fun hunk_body :: "bytes list \<Rightarrow> bytes list \<Rightarrow> nat \<Rightarrow> edit list \<Rightarrow> nat \<Rightarrow> (u8 \<times> bytes) list" where
  "hunk_body a b oi [] old_to = map (\<lambda>k. (0x20, a ! k)) [oi..<old_to]"
| "hunk_body a b oi (e # es) old_to =
     map (\<lambda>k. (0x20, a ! k)) [oi..<fst (ed_old e)]
       @ map (\<lambda>k. (0x2D, a ! k)) [fst (ed_old e)..<snd (ed_old e)]
       @ map (\<lambda>k. (0x2B, b ! k)) [fst (ed_new e)..<snd (ed_new e)]
       @ hunk_body a b (snd (ed_old e)) es old_to"

definition build_hunk :: "bytes list \<Rightarrow> bytes list \<Rightarrow> edit list \<Rightarrow> nat \<Rightarrow> hunk" where
  "build_hunk a b grp context_lines =
     (let old_from = fst (ed_old (hd grp)) - context_lines;
          new_from = fst (ed_new (hd grp)) - context_lines;
          old_to = min (snd (ed_old (last grp)) + context_lines) (length a);
          new_to = min (snd (ed_new (last grp)) + context_lines) (length b)
      in \<lparr>hk_old_start = old_from + 1, hk_old_len = old_to - old_from,
          hk_new_start = new_from + 1, hk_new_len = new_to - new_from,
          hk_lines = hunk_body a b old_from grp old_to\<rparr>)"

definition hunks :: "bytes \<Rightarrow> bytes \<Rightarrow> nat \<Rightarrow> hunk list" where
  "hunks old new context_lines =
     (let a = split_lines old; b = split_lines new; edits = diff_lines a b
      in if edits = [] then []
         else map (\<lambda>g. build_hunk a b g context_lines) (rev (foldl (group_push context_lines) [] edits)))"

text \<open>\<^verbatim>\<open>range_str\<close> and \<^verbatim>\<open>write_unified\<close>; the result is what is appended to \<^verbatim>\<open>out\<close>.\<close>

definition range_str :: "nat \<Rightarrow> nat \<Rightarrow> bytes" where
  "range_str start len =
     (if len = 1 then to_decimal start
      else if len = 0 then to_decimal (start - 1) @ lit '',0''
      else to_decimal start @ lit '','' @ to_decimal len)"

definition ends_newline :: "bytes \<Rightarrow> bool" where
  "ends_newline line \<longleftrightarrow> line \<noteq> [] \<and> last line = 0x0A"

definition no_newline_marker :: bytes where
  "no_newline_marker = 0x5C # lit '' No newline at end of file'' @ [0x0A]"

fun unified_lines :: "bool \<Rightarrow> bool \<Rightarrow> (u8 \<times> bytes) list \<Rightarrow> bytes" where
  "unified_lines old_no_nl new_no_nl [] = []"
| "unified_lines old_no_nl new_no_nl ((tag, line) # rest) =
     tag # line
       @ (if ends_newline line then []
          else 0x0A #
            (if tag \<noteq> 0x2B \<and> old_no_nl \<or> tag = 0x2B \<and> new_no_nl \<or> rest = []
             then no_newline_marker else []))
       @ unified_lines old_no_nl new_no_nl rest"

definition unified_hunk :: "bool \<Rightarrow> bool \<Rightarrow> hunk \<Rightarrow> bytes" where
  "unified_hunk old_no_nl new_no_nl h =
     lit ''@@ -'' @ range_str (hk_old_start h) (hk_old_len h) @ lit '' +''
       @ range_str (hk_new_start h) (hk_new_len h) @ lit '' @@'' @ [0x0A]
       @ unified_lines old_no_nl new_no_nl (hk_lines h)"

definition write_unified :: "bytes \<Rightarrow> bytes \<Rightarrow> nat \<Rightarrow> bool \<times> bytes" where
  "write_unified old new context_lines =
     (let hs = hunks old new context_lines;
          old_no_nl = (old \<noteq> [] \<and> \<not> ends_newline old);
          new_no_nl = (new \<noteq> [] \<and> \<not> ends_newline new)
      in if hs = [] then (False, [])
         else (True, concat (map (unified_hunk old_no_nl new_no_nl) hs)))"

section \<open>The reference: applying hunks\<close>

definition old_side :: "(u8 \<times> bytes) list \<Rightarrow> bytes list" where
  "old_side ls = map snd (filter (\<lambda>l. fst l \<noteq> 0x2B) ls)"

definition new_side :: "(u8 \<times> bytes) list \<Rightarrow> bytes list" where
  "new_side ls = map snd (filter (\<lambda>l. fst l \<noteq> 0x2D) ls)"

fun patch_hunks :: "bytes list \<Rightarrow> nat \<Rightarrow> hunk list \<Rightarrow> bytes list option" where
  "patch_hunks a p [] = (if p \<le> length a then Some (drop p a) else None)"
| "patch_hunks a p (h # hs) =
     (let s = hk_old_start h - 1; t = s + hk_old_len h in
      if p \<le> s \<and> t \<le> length a \<and> segment a s t = old_side (hk_lines h)
         \<and> length (new_side (hk_lines h)) = hk_new_len h
      then map_option (\<lambda>rest. segment a p s @ new_side (hk_lines h) @ rest) (patch_hunks a t hs)
      else None)"

section \<open>The hunks of a script\<close>

lemma segment_map: "j \<le> length a \<Longrightarrow> segment a i j = map ((!) a) [i..<j]"
  by (rule nth_equalityI) (auto simp: segment_def)

lemma old_side_append [simp]: "old_side (xs @ ys) = old_side xs @ old_side ys"
  by (simp add: old_side_def)

lemma new_side_append [simp]: "new_side (xs @ ys) = new_side xs @ new_side ys"
  by (simp add: new_side_def)

lemma side_tagged [simp]:
  "old_side (map (\<lambda>k. (0x20, f k)) ks) = map f ks"
  "new_side (map (\<lambda>k. (0x20, f k)) ks) = map f ks"
  "old_side (map (\<lambda>k. (0x2D, f k)) ks) = map f ks"
  "new_side (map (\<lambda>k. (0x2D, f k)) ks) = []"
  "old_side (map (\<lambda>k. (0x2B, f k)) ks) = []"
  "new_side (map (\<lambda>k. (0x2B, f k)) ks) = map f ks"
  by (simp_all add: old_side_def new_side_def filter_map comp_def)

lemma hunk_body_sides:
  "script a b i j g m n \<Longrightarrow>
     old_side (hunk_body a b i g m) = segment a i m \<and> new_side (hunk_body a b i g m) = segment b j n"
proof (induction g arbitrary: i j)
  case Nil
  then have ij: "i + (m - i) = m" "j + (m - i) = n" "agree a i b j (m - i)" "m \<le> length a"
    by (auto simp: agree_def)
  have "segment a i m = segment b j n" using agree_segment [OF ij(3)] unfolding ij(1,2) .
  then show ?case using ij(4) by (simp add: segment_map [of m])
next
  case (Cons e g)
  let ?s = "fst (ed_old e)" and ?t = "snd (ed_old e)" and ?u = "fst (ed_new e)" and ?v = "snd (ed_new e)"
  have e: "i \<le> ?s" "?u + i = j + ?s" "agree a i b j (?s - i)" "?s \<le> ?t" "?t \<le> length a" "?u \<le> ?v" "?v \<le> length b"
    and rest: "script a b ?t ?v g m n" using Cons.prems by auto
  have ih: "old_side (hunk_body a b ?t g m) = segment a ?t m" "new_side (hunk_body a b ?t g m) = segment b ?v n"
    using Cons.IH [OF rest] by auto
  have mn: "?t \<le> m" "?v \<le> n" using script_bounds [OF rest] by auto
  have "i + (?s - i) = ?s" "j + (?s - i) = ?u" using e by linarith+
  then have ctx: "segment a i ?s = segment b j ?u" using agree_segment [OF e(3)] by metis
  have "segment a i m = segment a i ?s @ segment a ?s ?t @ segment a ?t m"
    using segment_append [of i ?s m a] segment_append [of ?s ?t m a] e(1,4) mn by simp
  moreover have "segment b j n = segment b j ?u @ segment b ?u ?v @ segment b ?v n"
    using segment_append [of j ?u n b] segment_append [of ?u ?v n b] e(1,2,6) mn by simp
  moreover have "segment a i ?s = map ((!) a) [i..<?s]" "segment a ?s ?t = map ((!) a) [?s..<?t]"
    "segment b ?u ?v = map ((!) b) [?u..<?v]" using e by (auto intro: segment_map)
  ultimately show ?case using ih ctx by simp
qed

lemma agree_sub:
  assumes "agree a i b j n" "i \<le> x" "z + i = j + x" "x + k \<le> i + n"
  shows "agree a x b z k"
proof -
  obtain d where d: "x = i + d" using assms(2) le_Suc_ex by blast
  then have z: "z = j + d" and n: "n = d + (k + (n - d - k))" using assms(3,4) by auto
  show ?thesis using assms(1) agree_add [of a i b j d "k + (n - d - k)"] agree_add [of a x b z k "n - d - k"]
    unfolding d z n [symmetric] by (simp add: add.assoc)
qed

lemma agree_segment_to:
  assumes "agree a x b z (y - x)" "x \<le> y" "w + x = z + y"
  shows "segment a x y = segment b z w"
proof -
  have "x + (y - x) = y" "z + (y - x) = w" using assms by linarith+
  then show ?thesis using agree_segment [OF assms(1)] by metis
qed

lemma script_last:
  assumes "script a b i j (g @ rest) p q" "g \<noteq> []" "i \<le> length a" "j \<le> length b"
  shows "script a b i j g (snd (ed_old (last g))) (snd (ed_new (last g)))
    \<and> script a b (snd (ed_old (last g))) (snd (ed_new (last g))) rest p q"
proof -
  have g: "g = butlast g @ [last g]" using assms(2) by simp
  have "script a b i j (butlast g @ last g # rest) p q" using assms(1) g by (metis append_Cons append_assoc append_Nil)
  then obtain m n where mn: "script a b i j (butlast g) m n" "script a b m n (last g # rest) p q"
    using script_appendD assms(3,4) by blast
  then have "script a b m n [last g] (snd (ed_old (last g))) (snd (ed_new (last g)))" by auto
  with mn show ?thesis using script_append g by fastforce
qed

fun spaced :: "nat \<Rightarrow> edit list list \<Rightarrow> bool" where
  "spaced c (g # h # gs) \<longleftrightarrow> snd (ed_old (last g)) + 2 * c < fst (ed_old (hd h)) \<and> spaced c (h # gs)"
| "spaced c gs = True"

text \<open>The windows of a group, between a script position \<open>(i, j)\<close> and the rest of the script: the
  leading and the trailing context are equal runs of both sides.\<close>

lemma hunk_window:
  assumes sc: "script a b i j (g @ concat gs) (length a) (length b)"
    and g: "g \<noteq> []" and gs: "spaced c (g # gs)" "\<forall>h \<in> set gs. h \<noteq> []"
    and ij: "i \<le> length a" "j \<le> length b"
    and lead: "i + 2 * c < fst (ed_old (hd g)) \<or> i = 0 \<and> j = 0"
  defines "s \<equiv> fst (ed_old (hd g)) - c" and "u \<equiv> fst (ed_new (hd g)) - c"
    and "t \<equiv> min (snd (ed_old (last g)) + c) (length a)" and "v \<equiv> min (snd (ed_new (last g)) + c) (length b)"
  shows "u + i = j + s \<and> agree a i b j (s - i) \<and> i \<le> s \<and> script a b s u g t v
    \<and> agree a (snd (ed_old (last g))) b (snd (ed_new (last g))) (t - snd (ed_old (last g)))
    \<and> v + snd (ed_old (last g)) = snd (ed_new (last g)) + t"
proof -
  let ?oe = "snd (ed_old (last g))" and ?ne = "snd (ed_new (last g))"
  obtain e g' where eg: "g = e # g'" using g by (cases g) auto
  let ?os = "fst (ed_old e)" and ?ns = "fst (ed_new e)"
  have here: "script a b i j g ?oe ?ne" and rest: "script a b ?oe ?ne (concat gs) (length a) (length b)"
    using script_last [OF sc g ij] by auto
  have e: "i \<le> ?os" "?ns + i = j + ?os" "agree a i b j (?os - i)" using here eg by auto
  have s: "u + i = j + s" "i \<le> s" "s \<le> ?os" "u \<le> ?ns" "?ns + s = u + ?os"
    using lead e(1,2) eg by (auto simp: s_def u_def)
  have "agree a i b j (s - i)" using e(3) by (rule agree_sub) (use s e in auto)
  moreover have "agree a s b u (?os - s)" using e(3) by (rule agree_sub) (use s e in auto)
  then have start: "script a b s u g ?oe ?ne" using here s eg by auto
  have "agree a ?oe b ?ne (t - ?oe) \<and> v + ?oe = ?ne + t \<and> ?oe \<le> t"
  proof (cases gs)
    case Nil
    then have "length b + ?oe = ?ne + length a" "agree a ?oe b ?ne (length a - ?oe)" "?oe \<le> length a"
      using rest by auto
    then show ?thesis by (auto simp: t_def v_def intro: agree_sub)
  next
    case (Cons h hs)
    then obtain f h' where f: "h = f # h'" using gs(2) by (cases h) auto
    then have f': "?oe \<le> fst (ed_old f)" "fst (ed_new f) + ?oe = ?ne + fst (ed_old f)"
      "agree a ?oe b ?ne (fst (ed_old f) - ?oe)" "fst (ed_old f) \<le> length a" "fst (ed_new f) \<le> length b"
      using rest Cons by auto
    have "?oe + 2 * c < fst (ed_old f)" using gs(1) Cons f by simp
    then show ?thesis using f' by (auto simp: t_def v_def intro: agree_sub)
  qed
  moreover from this have "script a b ?oe ?ne [] t v" by auto
  then have "script a b s u g t v" using script_append [OF start] by fastforce
  ultimately show ?thesis using s by blast
qed

lemma patch_groups:
  assumes "script a b i j (concat gs) (length a) (length b)" "\<forall>g \<in> set gs. g \<noteq> []" "spaced c gs"
    "i \<le> length a" "j \<le> length b"
    "i \<le> p" "q + i = j + p" "agree a i b j (p - i)" "p \<le> i + c"
    "gs \<noteq> [] \<longrightarrow> i + 2 * c < fst (ed_old (hd (hd gs))) \<or> i = 0 \<and> j = 0 \<and> p = 0"
  shows "patch_hunks a p (map (\<lambda>g. build_hunk a b g c) gs) = Some (drop q b)"
  using assms
proof (induction gs arbitrary: i j p q)
  case Nil
  then have len: "length b + i = j + length a" "agree a i b j (length a - i)" "p \<le> length a"
    by (auto simp: agree_def)
  have "agree a p b q (length a - p)" using len(2) by (rule agree_sub) (use Nil len in auto)
  then have "segment a p (length a) = segment b q (length b)"
    by (rule agree_segment_to) (use Nil.prems(7) len in linarith)+
  then show ?case using len(3) by (simp add: segment_def)
next
  case (Cons g gs)
  let ?s = "fst (ed_old (hd g)) - c" and ?u = "fst (ed_new (hd g)) - c"
  let ?oe = "snd (ed_old (last g))" and ?ne = "snd (ed_new (last g))"
  let ?t = "min (?oe + c) (length a)" and ?v = "min (?ne + c) (length b)"
  have g: "g \<noteq> []" using Cons.prems(2) by simp
  have sc: "script a b i j (g @ concat gs) (length a) (length b)" using Cons.prems(1) by simp
  have w: "?u + i = j + ?s" "agree a i b j (?s - i)" "i \<le> ?s" "script a b ?s ?u g ?t ?v"
    "agree a ?oe b ?ne (?t - ?oe)" "?v + ?oe = ?ne + ?t"
    using hunk_window [OF sc g Cons.prems(3) _ Cons.prems(4,5)] Cons.prems(2,10) by auto
  have ps: "p \<le> ?s" using Cons.prems(9,10) by auto
  have b: "?s \<le> ?t" "?u \<le> ?v" using script_bounds [OF w(4)] by auto
  have rest: "script a b ?oe ?ne (concat gs) (length a) (length b)" and "script a b i j g ?oe ?ne"
    using script_last [OF sc g Cons.prems(4,5)] by auto
  then have oe: "?oe \<le> length a" "?ne \<le> length b" using script_bounds by blast+
  have "patch_hunks a ?t (map (\<lambda>g. build_hunk a b g c) gs) = Some (drop ?v b)"
    using Cons.prems(2,3) rest oe w(5,6) by (intro Cons.IH [of ?oe ?ne]) (auto split: list.splits, (cases gs; auto)+)
  moreover have "segment a p ?s = segment b q ?u"
  proof (rule agree_segment_to)
    show "agree a p b q (?s - p)" using w(2) by (rule agree_sub) (use Cons.prems w ps in auto)
  qed (use ps Cons.prems(7) w(1) in linarith)+
  moreover have "old_side (hunk_body a b ?s g ?t) = segment a ?s ?t" "new_side (hunk_body a b ?s g ?t) = segment b ?u ?v"
    using hunk_body_sides [OF w(4)] by auto
  moreover have "segment b q ?u @ segment b ?u ?v @ drop ?v b = drop q b"
  proof -
    have "drop ?v b = segment b ?v (length b)" "drop q b = segment b q (length b)" by (simp_all add: segment_def)
    moreover have "q \<le> ?u" using ps Cons.prems(7) w(1) by linarith
    ultimately show ?thesis using b(2) segment_append [of q ?u "length b" b] segment_append [of ?u ?v "length b" b]
      by simp
  qed
  ultimately show ?case using b ps by (simp add: build_hunk_def Let_def length_segment)
qed

section \<open>Grouping\<close>

lemma spaced_snoc:
  "spaced c (gs @ [g]) \<Longrightarrow> snd (ed_old (last g)) + 2 * c < fst (ed_old (hd h)) \<Longrightarrow> spaced c (gs @ [g, h])"
  by (induction c gs rule: spaced.induct) auto

lemma spaced_extend:
  "spaced c (gs @ [g]) \<Longrightarrow> g \<noteq> [] \<Longrightarrow> spaced c (gs @ [g @ [e]])"
  by (induction c gs rule: spaced.induct) auto

lemma group_push_ok:
  assumes "\<forall>g \<in> set gs. g \<noteq> []" "spaced c (rev gs)"
  shows "concat (rev (group_push c gs e)) = concat (rev gs) @ [e] \<and>
    (\<forall>g \<in> set (group_push c gs e). g \<noteq> []) \<and> spaced c (rev (group_push c gs e))"
proof (cases gs)
  case (Cons g gs')
  then show ?thesis using assms spaced_snoc [of c "rev gs'" g "[e]"] spaced_extend [of c "rev gs'" g e] by auto
qed simp

lemma group_edits_ok:
  "\<forall>g \<in> set gs. g \<noteq> [] \<Longrightarrow> spaced c (rev gs) \<Longrightarrow>
     concat (rev (foldl (group_push c) gs es)) = concat (rev gs) @ es \<and>
     (\<forall>g \<in> set (foldl (group_push c) gs es). g \<noteq> []) \<and> spaced c (rev (foldl (group_push c) gs es))"
proof (induction es arbitrary: gs)
  case (Cons e es)
  have ok: "concat (rev (group_push c gs e)) = concat (rev gs) @ [e]"
    "\<forall>g \<in> set (group_push c gs e). g \<noteq> []" "spaced c (rev (group_push c gs e))"
    using group_push_ok [OF Cons.prems] by auto
  then show ?case using Cons.IH [OF ok(2,3)] by simp
qed simp

lemma hunks_groups:
  assumes "length (split_lines old) + length (split_lines new) \<le> 4294967296"
  shows "patch_hunks (split_lines old) 0 (hunks old new c) = Some (split_lines new)"
proof -
  let ?a = "split_lines old" and ?b = "split_lines new"
  let ?es = "diff_lines ?a ?b"
  have sc: "script ?a ?b 0 0 ?es (length ?a) (length ?b)"
    using diff_lines_script [OF assms] by simp
  show ?thesis
  proof (cases "?es = []")
    case True
    then show ?thesis using script_apply [OF sc] by (simp add: hunks_def)
  next
    case False
    let ?gs = "rev (foldl (group_push c) [] ?es)"
    have gs: "concat ?gs = ?es" "\<forall>g \<in> set ?gs. g \<noteq> []" "spaced c ?gs"
      using group_edits_ok [of "[]" c ?es] by auto
    have "patch_hunks ?a 0 (map (\<lambda>g. build_hunk ?a ?b g c) ?gs) = Some (drop 0 ?b)"
      by (rule patch_groups [of ?a ?b 0 0]) (use gs sc in auto)
    then show ?thesis using False by (simp add: hunks_def Let_def)
  qed
qed

text \<open>The hunks are a patch: for every amount of context, each hunk's removed and context lines are the old
  lines its \<^verbatim>\<open>@@\<close> coordinates name, its length on the new side is as announced, the hunks are in order and
  do not overlap, and applying them to the old text gives the new text.\<close>

theorem hunks_patch:
  assumes "length (split_lines old) + length (split_lines new) \<le> 4294967296"
  shows "map_option concat (patch_hunks (split_lines old) 0 (hunks old new c)) = Some new
    \<and> (fst (write_unified old new c) \<longleftrightarrow> old \<noteq> new)"
proof -
  let ?a = "split_lines old" and ?b = "split_lines new"
  have "hunks old new c = [] \<longleftrightarrow> diff_lines ?a ?b = []"
    using group_edits_ok [of "[]" c "diff_lines ?a ?b"] by (auto simp: hunks_def Let_def)
  also have "\<dots> \<longleftrightarrow> old = new" using diff_lines_empty [OF assms] by (metis concat_split_lines)
  finally show ?thesis using hunks_groups [OF assms, of c] by (simp add: write_unified_def Let_def)
qed

theorem hunks_patch_witness:
  "map_option concat (patch_hunks (split_lines [97, 10, 98, 10, 99]) 0 (hunks [97, 10, 98, 10, 99] [98, 10, 120] 1))
     = Some [98, 10, 120]"
  using hunks_patch [of "[97, 10, 98, 10, 99]" "[98, 10, 120]" 1] by (simp add: split_lines_def)

end
