(* ===== verification/Unified_Text.thy ===== *)
theory Unified_Text
  imports Diff_Hunks
begin

text \<open>
  The text of a unified diff, read back: a reference reader for what
  \<^verbatim>\<open>write_unified\<close> prints (the reader is a specification, the repository has
  none), and the round trip.  Together with the patch property of the hunks it says that the printed text
  and the old file determine the new file.
\<close>

section \<open>A reader\<close>

definition read_range :: "bytes \<Rightarrow> (nat \<times> nat) option" where
  "read_range r =
     (case split_first 0x2C r of
        None \<Rightarrow> map_option (\<lambda>s. (s, 1)) (parse_uint usize_max r)
      | Some (x, y) \<Rightarrow>
          (case parse_uint usize_max x of None \<Rightarrow> None
           | Some s \<Rightarrow> map_option (\<lambda>n. (if n = 0 then s + 1 else s, n)) (parse_uint usize_max y)))"

definition read_line :: "bytes \<Rightarrow> (bytes \<times> bytes) option" where
  "read_line text =
     (case split_first 0x0A text of None \<Rightarrow> None
      | Some (l, r) \<Rightarrow>
          (case strip_prefix no_newline_marker r of
             Some r' \<Rightarrow> Some (l, r') | None \<Rightarrow> Some (l @ [0x0A], r)))"

function read_body :: "nat \<Rightarrow> nat \<Rightarrow> bytes \<Rightarrow> ((u8 \<times> bytes) list \<times> bytes) option" where
  "read_body olds news text =
     (if olds = 0 \<and> news = 0 then Some ([], text)
      else case text of [] \<Rightarrow> None
       | tag # r \<Rightarrow>
           (case read_line r of None \<Rightarrow> None
            | Some (line, r') \<Rightarrow>
                if tag = 0x20 \<and> 0 < olds \<and> 0 < news
                then map_option (\<lambda>(ls, t). ((tag, line) # ls, t)) (read_body (olds - 1) (news - 1) r')
                else if tag = 0x2D \<and> 0 < olds
                then map_option (\<lambda>(ls, t). ((tag, line) # ls, t)) (read_body (olds - 1) news r')
                else if tag = 0x2B \<and> 0 < news
                then map_option (\<lambda>(ls, t). ((tag, line) # ls, t)) (read_body olds (news - 1) r')
                else None))"
  by pat_completeness auto
termination by (relation "measure (\<lambda>(olds, news, text). olds + news)") auto

declare read_body.simps [simp del]

definition read_hunk :: "bytes \<Rightarrow> (hunk \<times> bytes) option" where
  "read_hunk text =
     Option.bind (strip_prefix (lit ''@@ -'') text) (\<lambda>t1.
     Option.bind (split_first 0x20 t1) (\<lambda>(old_range, t2).
     Option.bind (strip_prefix [0x2B] t2) (\<lambda>t3.
     Option.bind (split_first 0x20 t3) (\<lambda>(new_range, t4).
     Option.bind (strip_prefix (lit ''@@'' @ [0x0A]) t4) (\<lambda>t5.
     Option.bind (read_range old_range) (\<lambda>(ostart, olen).
     Option.bind (read_range new_range) (\<lambda>(nstart, nlen).
     map_option (\<lambda>(ls, rest).
       (\<lparr>hk_old_start = ostart, hk_old_len = olen, hk_new_start = nstart, hk_new_len = nlen, hk_lines = ls\<rparr>, rest))
       (read_body olen nlen t5))))))))"

fun read_hunks :: "nat \<Rightarrow> bytes \<Rightarrow> hunk list option" where
  "read_hunks 0 text = (if text = [] then Some [] else None)"
| "read_hunks (Suc fuel) text =
     (if text = [] then Some []
      else Option.bind (read_hunk text) (\<lambda>(h, rest). map_option ((#) h) (read_hunks fuel rest)))"

definition read_unified :: "bytes \<Rightarrow> hunk list option" where
  "read_unified text = read_hunks (length text) text"

section \<open>Reading what was printed\<close>

lemma digits_free: "\<not> digit b \<Longrightarrow> b \<notin> set (to_decimal n)"
  using to_decimal_digits by blast

lemma not_digits [simp]: "\<not> digit 0x2C" "\<not> digit 0x20"
  by (simp_all add: digit_def)

lemma lit_comma [simp]: "lit '','' = [0x2C]" "lit '',0'' = [0x2C, 0x30]"
  by (simp_all add: lit_def)

lemma read_range_str:
  assumes "1 \<le> start" "start \<le> usize_max" "n \<le> usize_max"
  shows "read_range (range_str start n) = Some (start, n)"
proof -
  have dec: "split_first 0x2C (to_decimal k) = None" for k
    by (simp add: split_first_eq_None digits_free)
  have pair: "split_first 0x2C (to_decimal k @ 0x2C # r) = Some (to_decimal k, r)" for k r
    by (rule split_first_append) (simp add: digits_free)
  have zero: "parse_uint usize_max [0x30] = Some 0" by (simp add: parse_uint_def usize_max_def)
  consider "n = 1" | "n = 0" | "n \<noteq> 0" "n \<noteq> 1" by blast
  then show ?thesis
    using assms by cases (simp_all add: read_range_def range_str_def dec pair zero parse_uint_to_decimal)
qed

lemma range_str_no_space: "0x20 \<notin> set (range_str start n)"
  by (simp add: range_str_def digits_free)

text \<open>A line a hunk may hold: a newline at its end at most, and none only on the last line of a side that
  lacks it.\<close>

definition hunk_line :: "bool \<Rightarrow> bool \<Rightarrow> u8 \<times> bytes \<Rightarrow> bool" where
  "hunk_line old_no_nl new_no_nl l \<longleftrightarrow>
     fst l \<in> {0x20, 0x2D, 0x2B} \<and> snd l \<noteq> [] \<and> 0x0A \<notin> set (butlast (snd l)) \<and>
     (ends_newline (snd l) \<or> (if fst l = 0x2B then new_no_nl else old_no_nl))"

definition printed_line :: "bytes \<Rightarrow> bytes" where
  "printed_line line = (if ends_newline line then line else line @ 0x0A # no_newline_marker)"

lemma unified_lines_printed:
  "\<forall>l \<in> set ls. hunk_line on nn l \<Longrightarrow>
     unified_lines on nn ls = concat (map (\<lambda>l. fst l # printed_line (snd l)) ls)"
proof (induction ls)
  case (Cons l ls)
  then show ?case by (cases l) (auto simp: hunk_line_def printed_line_def split: if_splits)
qed simp

text \<open>No marker ahead.\<close>

definition unmarked :: "bytes \<Rightarrow> bool" where
  "unmarked text \<longleftrightarrow> text = [] \<or> hd text \<noteq> 0x5C"

lemma strip_marker_unmarked: "unmarked t \<Longrightarrow> strip_prefix no_newline_marker t = None"
  by (cases t) (auto simp: unmarked_def no_newline_marker_def)

lemma read_printed_line:
  assumes "line \<noteq> []" "0x0A \<notin> set (butlast line)" "unmarked t"
  shows "read_line (printed_line line @ t) = Some (line, t)"
proof (cases "ends_newline line")
  case True
  then have line: "line = butlast line @ [0x0A]" by (metis append_butlast_last_id ends_newline_def)
  have "printed_line line @ t = butlast line @ 0x0A # t"
    using True by (subst line) (simp add: printed_line_def, metis append_Cons append_Nil append_assoc line)
  then have "split_first 0x0A (printed_line line @ t) = Some (butlast line, t)"
    using split_first_append [OF assms(2)] by simp
  then show ?thesis
    using assms(3) line by (simp add: read_line_def strip_marker_unmarked)
next
  case False
  have "last line \<noteq> 0x0A" using False assms(1) by (simp add: ends_newline_def)
  then have "0x0A \<notin> set line"
    using assms(1,2) by (metis append_butlast_last_id empty_iff insert_iff list.set(1,2) set_append Un_iff)
  then show ?thesis
    using False by (simp add: printed_line_def read_line_def split_first_append strip_prefix_append)
qed

lemma read_body_printed:
  "\<forall>l \<in> set ls. hunk_line on nn l \<Longrightarrow> unmarked t \<Longrightarrow>
     read_body (length (old_side ls)) (length (new_side ls))
       (concat (map (\<lambda>l. fst l # printed_line (snd l)) ls) @ t) = Some (ls, t)"
proof (induction ls)
  case Nil
  then show ?case by (simp add: read_body.simps old_side_def new_side_def)
next
  case (Cons l ls)
  obtain tag line where l: "l = (tag, line)" by (cases l)
  let ?r = "concat (map (\<lambda>l. fst l # printed_line (snd l)) ls) @ t"
  have line: "tag \<in> {0x20, 0x2D, 0x2B}" "line \<noteq> []" "0x0A \<notin> set (butlast line)"
    using Cons.prems(1) l by (auto simp: hunk_line_def)
  have "unmarked ?r"
  proof (cases ls)
    case (Cons l' ls')
    then have "fst l' \<noteq> 0x5C" using Cons.prems(1) by (auto simp: hunk_line_def)
    then show ?thesis using Cons by (simp add: unmarked_def)
  qed (use Cons.prems(2) in simp)
  then have rl: "read_line (printed_line line @ ?r) = Some (line, ?r)"
    using read_printed_line line by blast
  have ih: "read_body (length (old_side ls)) (length (new_side ls)) ?r = Some (ls, t)"
    using Cons by simp
  show ?case
    using line(1) rl ih l by (subst read_body.simps) (auto simp: old_side_def new_side_def)
qed

section \<open>The hunks of a diff are printable\<close>

definition printable :: "bool \<Rightarrow> bool \<Rightarrow> hunk \<Rightarrow> bool" where
  "printable on nn h \<longleftrightarrow>
     1 \<le> hk_old_start h \<and> hk_old_start h \<le> usize_max \<and> hk_old_len h \<le> usize_max \<and>
     1 \<le> hk_new_start h \<and> hk_new_start h \<le> usize_max \<and> hk_new_len h \<le> usize_max \<and>
     hk_old_len h = length (old_side (hk_lines h)) \<and> hk_new_len h = length (new_side (hk_lines h)) \<and>
     (\<forall>l \<in> set (hk_lines h). hunk_line on nn l)"

lemma read_hunk_printed:
  assumes "printable on nn h" "unmarked t"
  shows "read_hunk (unified_hunk on nn h @ t) = Some (h, t)"
proof -
  let ?orng = "range_str (hk_old_start h) (hk_old_len h)" and ?nrng = "range_str (hk_new_start h) (hk_new_len h)"
  let ?body = "concat (map (\<lambda>l. fst l # printed_line (snd l)) (hk_lines h))"
  have sp: "lit '' +'' = [0x20, 0x2B]" "lit '' @@'' = 0x20 # lit ''@@''" by (simp_all add: lit_def)
  have printed: "unified_hunk on nn h @ t =
      lit ''@@ -'' @ ?orng @ 0x20 # [0x2B] @ ?nrng @ 0x20 # (lit ''@@'' @ [0x0A]) @ ?body @ t"
    using assms(1) by (simp add: unified_hunk_def printable_def unified_lines_printed sp)
  have s1: "split_first 0x20 (?orng @ 0x20 # r) = Some (?orng, r)" for r
    by (rule split_first_append [OF range_str_no_space])
  have s2: "split_first 0x20 (?nrng @ 0x20 # r) = Some (?nrng, r)" for r
    by (rule split_first_append [OF range_str_no_space])
  have r: "read_range ?orng = Some (hk_old_start h, hk_old_len h)" "read_range ?nrng = Some (hk_new_start h, hk_new_len h)"
    using assms(1) by (simp_all add: printable_def read_range_str)
  have body: "read_body (hk_old_len h) (hk_new_len h) (?body @ t) = Some (hk_lines h, t)"
    using assms read_body_printed [of "hk_lines h" on nn t] by (simp add: printable_def)
  show ?thesis
    unfolding printed read_hunk_def by (simp only: strip_prefix_append s1 s2 r body bind.simps prod.case option.map) simp
qed

lemma unified_hunk_starts: "hd (unified_hunk on nn h @ t) = 0x40 \<and> unified_hunk on nn h @ t \<noteq> []"
  by (simp add: unified_hunk_def lit_def)

lemma read_hunks_printed:
  "\<forall>h \<in> set hs. printable on nn h \<Longrightarrow> length hs \<le> fuel \<Longrightarrow>
     read_hunks fuel (concat (map (unified_hunk on nn) hs)) = Some hs"
proof (induction hs arbitrary: fuel)
  case Nil
  then show ?case by (cases fuel) auto
next
  case (Cons h hs)
  then obtain n where n: "fuel = Suc n" "length hs \<le> n" by (cases fuel) auto
  let ?t = "concat (map (unified_hunk on nn) hs)"
  have "unmarked ?t"
  proof (cases hs)
    case (Cons h' hs')
    then show ?thesis using unified_hunk_starts [of on nn h' "concat (map (unified_hunk on nn) hs')"]
      by (simp add: unmarked_def)
  qed (simp add: unmarked_def)
  then have "read_hunk (unified_hunk on nn h @ ?t) = Some (h, ?t)" using Cons.prems read_hunk_printed by simp
  moreover have "read_hunks n ?t = Some hs" using Cons n by simp
  ultimately show ?case using n unified_hunk_starts [of on nn h ?t] by simp
qed

lemma patch_hunks_parts:
  "patch_hunks a p hs = Some r \<Longrightarrow> h \<in> set hs \<Longrightarrow>
     hk_old_len h = length (old_side (hk_lines h)) \<and> hk_new_len h = length (new_side (hk_lines h)) \<and>
     hk_old_start h - 1 + hk_old_len h \<le> length a \<and>
     set (old_side (hk_lines h)) \<subseteq> set a \<and> set (new_side (hk_lines h)) \<subseteq> set r \<and>
     hk_new_len h \<le> length r"
proof (induction a p hs arbitrary: r rule: patch_hunks.induct)
  case (2 a p h' hs)
  let ?s = "hk_old_start h' - 1"
  let ?t = "?s + hk_old_len h'"
  have ok: "p \<le> ?s" "?t \<le> length a" "segment a ?s ?t = old_side (hk_lines h')"
    "length (new_side (hk_lines h')) = hk_new_len h'"
    using "2.prems"(1) by (auto simp: Let_def split: if_splits)
  then obtain r' where r': "patch_hunks a ?t hs = Some r'" "r = segment a p ?s @ new_side (hk_lines h') @ r'"
    using "2.prems"(1) by (auto simp: Let_def)
  show ?case
  proof (cases "h = h'")
    case True
    have "length (old_side (hk_lines h')) = hk_old_len h'"
      unfolding ok(3) [symmetric] using ok(2) by (simp add: length_segment)
    moreover have "set (old_side (hk_lines h')) \<subseteq> set a"
      unfolding ok(3) [symmetric] segment_def by (meson set_drop_subset set_take_subset subset_trans)
    ultimately show ?thesis using ok r' True by auto
  next
    case False
    then have "h \<in> set hs" using "2.prems"(2) by simp
    then show ?thesis using "2.IH" [OF refl refl _ r'(1)] ok r' by auto
  qed
qed simp

lemma lines_ok_mem:
  "lines_ok ls \<Longrightarrow> l \<in> set ls \<Longrightarrow>
     l \<noteq> [] \<and> 0x0A \<notin> set (butlast l) \<and> (ends_newline l \<or> concat ls \<noteq> [] \<and> \<not> ends_newline (concat ls))"
proof (induction ls)
  case (Cons k ls)
  show ?case
  proof (cases ls)
    case Nil
    then show ?thesis using Cons.prems by (auto simp: ends_newline_def)
  next
    case (Cons m ms)
    then have "concat ls \<noteq> []" using Cons.prems(1) by auto
    then have "ends_newline (concat (k # ls)) = ends_newline (concat ls)" by (simp add: ends_newline_def)
    moreover have "ends_newline k" using Cons.prems(1) Cons by (simp add: ends_newline_def)
    ultimately show ?thesis using Cons.IH Cons.prems \<open>concat ls \<noteq> []\<close> by auto
  qed
qed simp

lemma hunk_body_tags: "l \<in> set (hunk_body a b i g m) \<Longrightarrow> fst l \<in> {0x20, 0x2D, 0x2B}"
  by (induction a b i g m rule: hunk_body.induct) auto

lemma script_new_starts:
  "script a b i j es m n \<Longrightarrow> e \<in> set es \<Longrightarrow> fst (ed_new e) \<le> length b"
  by (induction es arbitrary: i j) auto

lemma hunks_shape:
  assumes "length (split_lines old) + length (split_lines new) \<le> 4294967296" "h \<in> set (hunks old new c)"
  shows "1 \<le> hk_old_start h \<and> 1 \<le> hk_new_start h \<and> hk_new_start h \<le> length (split_lines new) + 1 \<and>
    (\<forall>l \<in> set (hk_lines h). fst l \<in> {0x20, 0x2D, 0x2B})"
proof -
  let ?a = "split_lines old" and ?b = "split_lines new"
  let ?es = "diff_lines ?a ?b"
  let ?gs = "foldl (group_push c) [] ?es"
  obtain g where g: "g \<in> set ?gs" and h: "h = build_hunk ?a ?b g c"
    using assms(2) by (auto simp: hunks_def Let_def split: if_splits)
  have gs: "concat (rev ?gs) = ?es" "g \<noteq> []" using group_edits_ok [of "[]" c ?es] g by auto
  have "hd g \<in> set (concat (rev ?gs))" using g hd_in_set [OF gs(2)] by auto
  then have "fst (ed_new (hd g)) \<le> length ?b"
    unfolding gs(1) using diff_lines_script [OF assms(1)] script_new_starts by blast
  then show ?thesis using hunk_body_tags by (fastforce simp: h build_hunk_def Let_def)
qed

lemma hunks_printable:
  assumes "length (split_lines old) + length (split_lines new) \<le> 4294967295" "h \<in> set (hunks old new c)"
  shows "printable (old \<noteq> [] \<and> \<not> ends_newline old) (new \<noteq> [] \<and> \<not> ends_newline new) h"
proof -
  let ?a = "split_lines old" and ?b = "split_lines new"
  have bound: "length ?a + length ?b \<le> 4294967296" using assms(1) by simp
  have parts: "hk_old_len h = length (old_side (hk_lines h))" "hk_new_len h = length (new_side (hk_lines h))"
    "hk_old_start h - 1 + hk_old_len h \<le> length ?a"
    "set (old_side (hk_lines h)) \<subseteq> set ?a" "set (new_side (hk_lines h)) \<subseteq> set ?b" "hk_new_len h \<le> length ?b"
    using patch_hunks_parts [OF hunks_groups [OF bound, of c] assms(2)] by auto
  have shape: "1 \<le> hk_old_start h" "1 \<le> hk_new_start h" "hk_new_start h \<le> length ?b + 1"
    "\<forall>l \<in> set (hk_lines h). fst l \<in> {0x20, 0x2D, 0x2B}"
    using hunks_shape [OF bound assms(2)] by auto
  have "hunk_line (old \<noteq> [] \<and> \<not> ends_newline old) (new \<noteq> [] \<and> \<not> ends_newline new) l"
    if l: "l \<in> set (hk_lines h)" for l
  proof (cases "fst l = 0x2B")
    case True
    then have "snd l \<in> set ?b" using parts(5) l by (force simp: new_side_def)
    then show ?thesis using lines_ok_mem [OF split_lines_ok, of "snd l" new] True by (auto simp: hunk_line_def)
  next
    case False
    then have "snd l \<in> set ?a" using parts(4) l by (force simp: old_side_def)
    then show ?thesis using lines_ok_mem [OF split_lines_ok, of "snd l" old] False shape(4) l
      by (auto simp: hunk_line_def)
  qed
  then show ?thesis using parts shape assms(1) by (auto simp: printable_def usize_max_def)
qed

text \<open>C27. The printed diff reads back: a reader that knows only the format (the \<^verbatim>\<open>@@\<close> coordinates, the line tags and
  the marker for a missing final newline) gets exactly the hunks, and so the printed text and the old file give the
  new file, final newline or not.\<close>

theorem unified_text_reads_back:
  assumes "length (split_lines old) + length (split_lines new) \<le> 4294967295"
  shows "read_unified (snd (write_unified old new c)) = Some (hunks old new c)
    \<and> map_option concat (Option.bind (read_unified (snd (write_unified old new c))) (patch_hunks (split_lines old) 0))
        = Some new"
proof -
  let ?on = "old \<noteq> [] \<and> \<not> ends_newline old" and ?nn = "new \<noteq> [] \<and> \<not> ends_newline new"
  let ?hs = "hunks old new c"
  let ?text = "concat (map (unified_hunk ?on ?nn) ?hs)"
  have printed: "snd (write_unified old new c) = ?text"
    by (simp add: write_unified_def Let_def)
  have "length hs \<le> length (concat (map (unified_hunk ?on ?nn) hs))" for hs
  proof (induction hs)
    case (Cons h hs)
    have "1 \<le> length (unified_hunk ?on ?nn h)" by (simp add: unified_hunk_def)
    then show ?case using Cons unfolding list.map concat.simps length_append list.size by linarith
  qed simp
  then have "read_hunks (length ?text) ?text = Some ?hs"
    using hunks_printable [OF assms] by (intro read_hunks_printed) auto
  then have read: "read_unified (snd (write_unified old new c)) = Some ?hs"
    unfolding printed read_unified_def .
  have "patch_hunks (split_lines old) 0 ?hs = Some (split_lines new)"
    by (rule hunks_groups) (use assms in simp)
  then show ?thesis unfolding read by simp
qed

theorem unified_text_reads_back_witness:
  "read_unified (snd (write_unified [97, 10, 98, 10, 99] [98, 10, 120] 1)) = Some (hunks [97, 10, 98, 10, 99] [98, 10, 120] 1)"
  using unified_text_reads_back [of "[97, 10, 98, 10, 99]" "[98, 10, 120]" 1] by (simp add: split_lines_def)

end
