(* ===== verification/Merge3.thy ===== *)
theory Merge3
  imports Diff_Hunks
begin

text \<open>
  The three-way merge of \<^verbatim>\<open>alt-merge/src/lib.rs\<close>: the two edit scripts from the base,
  their pure insertions and deletions slid down to a canonical place, walked
  together.  The positions \<^verbatim>\<open>pa\<close> and \<^verbatim>\<open>pb\<close> in the scripts are the edits still to
  come; a slice of one of the sides that is out of range (a panic) is \<open>None\<close>, and the
  whole merge is shown never to get there.

  The specification is the list of regions: it cuts the base, ours and theirs
  into the same number of pieces, and the merge resolves each region on its own.
\<close>

record labels =
  lb_ours :: bytes
  lb_theirs :: bytes

record merge_result =
  mg_content :: bytes
  mg_conflicts :: nat

definition is_clean :: "merge_result \<Rightarrow> bool" where
  "is_clean m \<longleftrightarrow> mg_conflicts m = 0"

definition labels_default :: labels where
  "labels_default = \<lparr>lb_ours = lit ''ours'', lb_theirs = lit ''theirs''\<rparr>"

section \<open>Sliding edits down\<close>

definition shift :: "edit \<Rightarrow> edit" where
  "shift e = \<lparr>ed_old = (fst (ed_old e) + 1, snd (ed_old e) + 1), ed_new = (fst (ed_new e) + 1, snd (ed_new e) + 1)\<rparr>"

function slide_insertion :: "bytes list \<Rightarrow> bytes list \<Rightarrow> nat \<Rightarrow> nat \<Rightarrow> edit \<Rightarrow> edit" where
  "slide_insertion base side old_limit new_limit e =
     (if fst (ed_old e) < old_limit \<and> snd (ed_new e) < new_limit
         \<and> base ! fst (ed_old e) = side ! fst (ed_new e)
      then slide_insertion base side old_limit new_limit (shift e) else e)"
  by pat_completeness auto
termination
  by (relation "measure (\<lambda>(base, side, old_limit, new_limit, e). old_limit - fst (ed_old e))")
     (auto simp: shift_def)

function slide_deletion :: "bytes list \<Rightarrow> nat \<Rightarrow> nat \<Rightarrow> edit \<Rightarrow> edit" where
  "slide_deletion base old_limit new_limit e =
     (if snd (ed_old e) < old_limit \<and> fst (ed_new e) < new_limit
         \<and> base ! fst (ed_old e) = base ! snd (ed_old e)
      then slide_deletion base old_limit new_limit (shift e) else e)"
  by pat_completeness auto
termination
  by (relation "measure (\<lambda>(base, old_limit, new_limit, e). old_limit - snd (ed_old e))")
     (auto simp: shift_def)

declare slide_insertion.simps [simp del] slide_deletion.simps [simp del]

definition slide_edit :: "bytes list \<Rightarrow> bytes list \<Rightarrow> nat \<times> nat \<Rightarrow> edit \<Rightarrow> edit" where
  "slide_edit base side limits e =
     (if range_empty (ed_old e) then slide_insertion base side (fst limits) (snd limits) e
      else if range_empty (ed_new e) then slide_deletion base (fst limits) (snd limits) e
      else e)"

fun slide_down :: "edit list \<Rightarrow> bytes list \<Rightarrow> bytes list \<Rightarrow> edit list" where
  "slide_down [] base side = []"
| "slide_down (e # es) base side =
     slide_edit base side
       (case es of [] \<Rightarrow> (length base, length side) | n # _ \<Rightarrow> (fst (ed_old n), fst (ed_new n))) e
     # slide_down es base side"

section \<open>The walk\<close>

text \<open>Growing a region: the edits of one side that touch its end.\<close>

fun take_touching :: "nat \<Rightarrow> edit list \<Rightarrow> nat \<times> edit list \<times> edit list" where
  "take_touching to [] = (to, [], [])"
| "take_touching to (e # es) =
     (if fst (ed_old e) \<le> to
      then let (to', taken, rest) = take_touching (max to (snd (ed_old e))) es in (to', e # taken, rest)
      else (to, [], e # es))"

lemma take_touching_split: "take_touching to es = (to', taken, rest) \<Longrightarrow> es = taken @ rest \<and> to \<le> to'"
proof (induction to es arbitrary: to' taken rest rule: take_touching.induct)
  case (2 to e es)
  show ?case
  proof (cases "fst (ed_old e) \<le> to")
    case True
    obtain t k r where r: "take_touching (max to (snd (ed_old e))) es = (t, k, r)"
      by (cases "take_touching (max to (snd (ed_old e))) es") auto
    with "2.prems" True have "to' = t" "taken = e # k" "rest = r" by auto
    then show ?thesis using "2.IH" [OF True r] by simp
  qed (use "2.prems" in simp)
qed simp

function grow_region :: "nat \<Rightarrow> edit list \<Rightarrow> edit list \<Rightarrow> nat \<times> edit list \<times> edit list \<times> edit list \<times> edit list" where
  "grow_region to ea eb =
     (let (to1, ta, ea') = take_touching to ea;
          (to2, tb, eb') = take_touching to1 eb
      in if ta = [] \<and> tb = [] then (to2, [], [], ea', eb')
         else let (to3, ta', tb', ea'', eb'') = grow_region to2 ea' eb'
              in (to3, ta @ ta', tb @ tb', ea'', eb''))"
  by pat_completeness auto
termination
proof (relation "measure (\<lambda>(to, ea, eb). length ea + length eb)", goal_cases)
  case (2 to ea eb x to1 y ta ea' z to2 w tb eb')
  then have "take_touching to ea = (to1, ta, ea')" "take_touching to1 eb = (to2, tb, eb')" by auto
  then have "ea = ta @ ea'" "eb = tb @ eb'" by (auto dest: take_touching_split)
  then show ?case using 2 by (cases ta; cases tb) auto
qed simp

declare grow_region.simps [simp del]

definition range_len :: "range \<Rightarrow> nat" where
  "range_len r = snd r - fst r"

definition len_change :: "edit list \<Rightarrow> int" where
  "len_change es =
     sum_list (map (\<lambda>e. int (range_len (ed_new e)) - int (range_len (ed_old e))) es)"

text \<open>The slice \<^verbatim>\<open>&xs[i..j]\<close>, where \<^verbatim>\<open>j\<close> was computed as an \<^verbatim>\<open>isize\<close>.\<close>

definition checked_segment :: "'a list \<Rightarrow> nat \<Rightarrow> int \<Rightarrow> 'a list option" where
  "checked_segment xs i j = (if int i \<le> j \<and> j \<le> int (length xs) then Some (segment xs i (nat j)) else None)"

definition slices_eq :: "bytes list \<Rightarrow> bytes list \<Rightarrow> bool" where
  "slices_eq x y \<longleftrightarrow> length x = length y \<and> (\<forall>(p, q) \<in> set (zip x y). p = q)"

lemma slices_eq_iff [simp]: "slices_eq x y \<longleftrightarrow> x = y"
  by (auto simp: slices_eq_def list_eq_iff_zip_eq set_zip)

definition push_lines :: "bytes \<Rightarrow> bytes list \<Rightarrow> bytes" where
  "push_lines out ls = out @ concat ls"

definition push_lines_nl :: "bytes \<Rightarrow> bytes list \<Rightarrow> bytes" where
  "push_lines_nl out ls = out @ concat (map (\<lambda>l. if ends_newline l then l else l @ [0x0A]) ls)"

definition ensure_newline :: "bytes \<Rightarrow> bytes" where
  "ensure_newline out = (if out \<noteq> [] \<and> \<not> ends_newline out then out @ [0x0A] else out)"

text \<open>One region: its lines in the base, in ours and in theirs.\<close>

type_synonym region = "bytes list \<times> bytes list \<times> bytes list"

definition push_region :: "labels \<Rightarrow> region \<Rightarrow> merge_result \<Rightarrow> merge_result" where
  "push_region labels r m =
     (let (base_slice, ours_slice, theirs_slice) = r; out = mg_content m in
      if slices_eq ours_slice base_slice then m\<lparr>mg_content := push_lines out theirs_slice\<rparr>
      else if slices_eq theirs_slice base_slice then m\<lparr>mg_content := push_lines out ours_slice\<rparr>
      else if slices_eq ours_slice theirs_slice then m\<lparr>mg_content := push_lines out ours_slice\<rparr>
      else let out1 = ensure_newline out @ lit ''<<<<<<< '' @ lb_ours labels @ [0x0A];
               out2 = push_lines_nl out1 ours_slice @ lit ''======='' @ [0x0A];
               out3 = push_lines_nl out2 theirs_slice @ lit ''>>>>>>> '' @ lb_theirs labels @ [0x0A]
           in \<lparr>mg_content = out3, mg_conflicts = mg_conflicts m + 1\<rparr>)"

definition edit_here :: "nat \<Rightarrow> edit list \<Rightarrow> bool" where
  "edit_here oi es = (case es of [] \<Rightarrow> False | e # _ \<Rightarrow> fst (ed_old e) = oi)"

lemma grow_region_shrinks:
  "grow_region to ea eb = (to', ta, tb, ea', eb') \<Longrightarrow>
     ea = ta @ ea' \<and> eb = tb @ eb' \<and> to \<le> to' \<and> (edit_here to ea \<or> edit_here to eb \<longrightarrow> ta \<noteq> [] \<or> tb \<noteq> [])"
proof (induction to ea eb arbitrary: to' ta tb ea' eb' rule: grow_region.induct)
  case (1 to ea eb)
  obtain to1 ta1 ea1 where a: "take_touching to ea = (to1, ta1, ea1)" by (cases "take_touching to ea") auto
  obtain to2 tb1 eb1 where b: "take_touching to1 eb = (to2, tb1, eb1)" by (cases "take_touching to1 eb") auto
  have sp: "ea = ta1 @ ea1" "to \<le> to1" "eb = tb1 @ eb1" "to1 \<le> to2"
    using take_touching_split [OF a] take_touching_split [OF b] by auto
  have here: "edit_here to ea \<or> edit_here to eb \<Longrightarrow> ta1 \<noteq> [] \<or> tb1 \<noteq> []"
    using a b by (auto simp: edit_here_def split: list.splits prod.splits if_splits)
  show ?case
  proof (cases "ta1 = [] \<and> tb1 = []")
    case True
    then show ?thesis using "1.prems" a b sp here by (subst (asm) grow_region.simps) auto
  next
    case False
    obtain to3 ta2 tb2 ea2 eb2 where r: "grow_region to2 ea1 eb1 = (to3, ta2, tb2, ea2, eb2)"
      by (cases "grow_region to2 ea1 eb1") auto
    have "(to', ta, tb, ea', eb') = (to3, ta1 @ ta2, tb1 @ tb2, ea2, eb2)"
      using "1.prems" a b r False by (subst (asm) grow_region.simps) auto
    then show ?thesis
      using "1.IH" [OF a [symmetric] refl refl b [symmetric] refl refl False r] sp False by auto
  qed
qed

lemma walk_measure:
  assumes "grow_region oi ea eb = (to, ta, tb, ea', eb')" "\<not> (\<not> edit_here oi ea \<and> \<not> edit_here oi eb)"
  shows "(n - to) + length ea' + length eb' < (n - oi) + length ea + length eb"
proof -
  have g: "ea = ta @ ea'" "eb = tb @ eb'" "oi \<le> to" "ta \<noteq> [] \<or> tb \<noteq> []"
    using grow_region_shrinks [OF assms(1)] assms(2) by auto
  then have "1 \<le> length ta + length tb" by (cases ta; cases tb) auto
  moreover have "n - to \<le> n - oi" using g(3) by (rule diff_le_mono2)
  moreover have "length ea = length ta + length ea'" "length eb = length tb + length eb'"
    using g(1,2) by simp_all
  ultimately show ?thesis by linarith
qed

function merge_walk ::
  "bytes list \<Rightarrow> bytes list \<Rightarrow> bytes list \<Rightarrow> labels \<Rightarrow> nat \<Rightarrow> nat \<Rightarrow> nat \<Rightarrow> edit list \<Rightarrow> edit list
     \<Rightarrow> merge_result \<Rightarrow> merge_result option" where
  "merge_walk base a b labels oi ai bi ea eb m =
     (if \<not> edit_here oi ea \<and> \<not> edit_here oi eb then
        if length base \<le> oi then Some m
        else merge_walk base a b labels (oi + 1) (ai + 1) (bi + 1) ea eb
               (m\<lparr>mg_content := mg_content m @ base ! oi\<rparr>)
      else
        let (to, ta, tb, ea', eb') = grow_region oi ea eb;
            span = to - oi;
            a_end = int ai + int span + len_change ta;
            b_end = int bi + int span + len_change tb
        in case checked_segment base oi (int to) of None \<Rightarrow> None | Some base_slice \<Rightarrow>
           (case checked_segment a ai a_end of None \<Rightarrow> None | Some ours_slice \<Rightarrow>
           (case checked_segment b bi b_end of None \<Rightarrow> None | Some theirs_slice \<Rightarrow>
              merge_walk base a b labels to (nat a_end) (nat b_end) ea' eb'
                (push_region labels (base_slice, ours_slice, theirs_slice) m))))"
  by pat_completeness auto
termination
proof (relation "measure (\<lambda>(base, a, b, labels, oi, ai, bi, ea, eb, m). (length base - oi) + length ea + length eb)", goal_cases)
  case (3 base a b labels oi ai bi ea eb m x to x1 ta x2 tb x3 ea' eb')
  then show ?case using walk_measure [of oi ea eb to ta tb ea' eb' "length base"] by simp
qed auto

declare merge_walk.simps [simp del]

definition merge_edits ::
  "bytes list \<Rightarrow> bytes list \<Rightarrow> bytes list \<Rightarrow> edit list \<Rightarrow> edit list \<Rightarrow> labels \<Rightarrow> merge_result option" where
  "merge_edits base a b ea eb labels =
     merge_walk base a b labels 0 0 0 ea eb \<lparr>mg_content = [], mg_conflicts = 0\<rparr>"

definition merge :: "bytes \<Rightarrow> bytes \<Rightarrow> bytes \<Rightarrow> labels \<Rightarrow> merge_result option" where
  "merge base ours theirs labels =
     (let base_lines = split_lines base; a = split_lines ours; b = split_lines theirs;
          ea = diff_lines base_lines a; eb = diff_lines base_lines b
      in merge_edits base_lines a b (slide_down ea base_lines a) (slide_down eb base_lines b) labels)"

section \<open>Sliding keeps a script\<close>

lemma agree_extend:
  assumes "agree a i b j k" "i + k < length a" "j + k < length b" "a ! (i + k) = b ! (j + k)"
  shows "agree a i b j (Suc k)"
  using assms by (simp add: agree_snoc)

lemma slide_insertion_script:
  assumes "script a b i j (e # es) p q" "fst (ed_old e) = snd (ed_old e)"
    "script a b (snd (ed_old e)) (snd (ed_new e)) es p q"
    "case es of [] \<Rightarrow> ol = p \<and> nl = q | n # _ \<Rightarrow> ol = fst (ed_old n) \<and> nl = fst (ed_new n)"
  shows "script a b i j (slide_insertion a b ol nl e # es) p q"
  using assms
proof (induction a b ol nl e rule: slide_insertion.induct)
  case (1 a b ol nl e)
  let ?c = "fst (ed_old e) < ol \<and> snd (ed_new e) < nl \<and> a ! fst (ed_old e) = b ! fst (ed_new e)"
  show ?case
  proof (cases ?c)
    case True
    let ?o = "fst (ed_old e)" and ?n = "fst (ed_new e)" and ?m = "snd (ed_new e)"
    have e: "i \<le> ?o" "?n + i = j + ?o" "agree a i b j (?o - i)" "?n \<le> ?m" "?m \<le> length b" "?o \<le> length a"
      using "1.prems"(1,2) by auto
    have gap: "agree a ?o b ?m (ol - ?o)" "nl + ?o = ?m + ol" "ol \<le> length a" "nl \<le> length b"
      using "1.prems"(2,3,4) True script_bounds [OF "1.prems"(3)] by (auto split: list.splits)
    have eq: "i + (?o - i) = ?o" "j + (?o - i) = ?n" "Suc ?o - i = Suc (?o - i)" using e by linarith+
    have "agree a i b j (Suc (?o - i))"
      using e(3) by (rule agree_extend) (use e gap True eq in auto)
    then have lead: "agree a i b j (Suc ?o - i)" by (simp only: eq)
    have "agree a ?o b ?m 1" using gap(1) by (rule agree_sub) (use True in auto)
    then have one: "?o < length a" "?m < length b" "a ! ?o = b ! ?m" by (simp_all add: agree_1)
    have sub: "agree a (Suc ?o) b (Suc ?m) (ol - Suc ?o)"
      using gap(1) by (rule agree_sub) (use True in auto)
    have rest: "script a b (Suc ?o) (Suc ?m) es p q"
    proof (cases es)
      case Nil
      then show ?thesis using "1.prems"(4) sub gap True by auto
    next
      case (Cons n ns)
      then show ?thesis using "1.prems"(2,3,4) sub gap True by auto
    qed
    have "script a b i j (slide_insertion a b ol nl (shift e) # es) p q"
    proof (rule "1.IH" [OF True])
      show "script a b i j (shift e # es) p q"
        using e lead rest one "1.prems"(2) by (simp add: shift_def)
      show "fst (ed_old (shift e)) = snd (ed_old (shift e))" using "1.prems"(2) by (simp add: shift_def)
      show "script a b (snd (ed_old (shift e))) (snd (ed_new (shift e))) es p q"
        using rest "1.prems"(2) by (simp add: shift_def)
    qed (rule "1.prems"(4))
    then show ?thesis using True by (subst slide_insertion.simps) simp
  next
    case False
    then show ?thesis using "1.prems"(1) by (subst slide_insertion.simps) auto
  qed
qed

lemma slide_deletion_script:
  assumes "script a b i j (e # es) p q" "fst (ed_new e) = snd (ed_new e)"
    "script a b (snd (ed_old e)) (snd (ed_new e)) es p q"
    "case es of [] \<Rightarrow> ol = p \<and> nl = q | n # _ \<Rightarrow> ol = fst (ed_old n) \<and> nl = fst (ed_new n)"
  shows "script a b i j (slide_deletion a ol nl e # es) p q"
  using assms
proof (induction a ol nl e rule: slide_deletion.induct)
  case (1 a ol nl e)
  let ?c = "snd (ed_old e) < ol \<and> fst (ed_new e) < nl \<and> a ! fst (ed_old e) = a ! snd (ed_old e)"
  show ?case
  proof (cases ?c)
    case True
    let ?o = "fst (ed_old e)" and ?x = "snd (ed_old e)" and ?n = "fst (ed_new e)"
    have e: "i \<le> ?o" "?n + i = j + ?o" "agree a i b j (?o - i)" "?o \<le> ?x" "?x \<le> length a" "?n \<le> length b"
      using "1.prems"(1,2) by auto
    have gap: "agree a ?x b ?n (ol - ?x)" "nl + ?x = ?n + ol" "ol \<le> length a" "nl \<le> length b"
      using "1.prems"(2,3,4) True script_bounds [OF "1.prems"(3)] by (auto split: list.splits)
    have "agree a ?x b ?n 1" using gap(1) by (rule agree_sub) (use True in auto)
    then have one: "?x < length a" "?n < length b" "a ! ?x = b ! ?n" by (simp_all add: agree_1)
    have eq: "i + (?o - i) = ?o" "j + (?o - i) = ?n" "Suc ?o - i = Suc (?o - i)" using e by linarith+
    have "agree a i b j (Suc (?o - i))"
      using e(3) by (rule agree_extend) (use e one True eq in auto)
    then have lead: "agree a i b j (Suc ?o - i)" by (simp only: eq)
    have sub: "agree a (Suc ?x) b (Suc ?n) (ol - Suc ?x)"
      using gap(1) by (rule agree_sub) (use True in auto)
    have rest: "script a b (Suc ?x) (Suc ?n) es p q"
    proof (cases es)
      case Nil
      then show ?thesis using "1.prems"(4) sub gap True by auto
    next
      case (Cons n ns)
      then show ?thesis using "1.prems"(2,3,4) sub gap True by auto
    qed
    have "script a b i j (slide_deletion a ol nl (shift e) # es) p q"
    proof (rule "1.IH" [OF True])
      show "script a b i j (shift e # es) p q"
        using e lead rest one "1.prems"(2) by (simp add: shift_def)
      show "fst (ed_new (shift e)) = snd (ed_new (shift e))" using "1.prems"(2) by (simp add: shift_def)
      show "script a b (snd (ed_old (shift e))) (snd (ed_new (shift e))) es p q"
        using rest "1.prems"(2) by (simp add: shift_def)
    qed (rule "1.prems"(4))
    then show ?thesis using True by (subst slide_deletion.simps) simp
  next
    case False
    then show ?thesis using "1.prems"(1) by (subst slide_deletion.simps) auto
  qed
qed

lemma slide_down_script:
  "script base side i j es (length base) (length side) \<Longrightarrow>
     script base side i j (slide_down es base side) (length base) (length side)"
proof (induction es arbitrary: i j)
  case (Cons e es)
  let ?lim = "case es of [] \<Rightarrow> (length base, length side) | n # _ \<Rightarrow> (fst (ed_old n), fst (ed_new n))"
  have lim: "case es of [] \<Rightarrow> fst ?lim = length base \<and> snd ?lim = length side
      | n # _ \<Rightarrow> fst ?lim = fst (ed_old n) \<and> snd ?lim = fst (ed_new n)" by (simp split: list.split)
  have rest: "script base side (snd (ed_old e)) (snd (ed_new e)) es (length base) (length side)"
    and le: "fst (ed_old e) \<le> snd (ed_old e)" "fst (ed_new e) \<le> snd (ed_new e)" using Cons.prems by auto
  have "script base side i j (slide_edit base side ?lim e # es) (length base) (length side)"
    using slide_insertion_script [OF Cons.prems _ rest lim] slide_deletion_script [OF Cons.prems _ rest lim]
      Cons.prems le by (simp only: slide_edit_def range_empty_def split: if_split) force
  then show ?case using Cons.IH by simp
qed simp

section \<open>The regions\<close>

text \<open>The walk without its output: the regions it passes through, a line that stays being a region of its own.\<close>

function region_walk ::
  "bytes list \<Rightarrow> bytes list \<Rightarrow> bytes list \<Rightarrow> nat \<Rightarrow> nat \<Rightarrow> nat \<Rightarrow> edit list \<Rightarrow> edit list \<Rightarrow> region list option" where
  "region_walk base a b oi ai bi ea eb =
     (if \<not> edit_here oi ea \<and> \<not> edit_here oi eb then
        if length base \<le> oi then Some []
        else map_option ((#) ([base ! oi], [base ! oi], [base ! oi])) (region_walk base a b (oi + 1) (ai + 1) (bi + 1) ea eb)
      else
        let (to, ta, tb, ea', eb') = grow_region oi ea eb;
            a_end = int ai + int (to - oi) + len_change ta;
            b_end = int bi + int (to - oi) + len_change tb
        in case checked_segment base oi (int to) of None \<Rightarrow> None | Some base_slice \<Rightarrow>
           (case checked_segment a ai a_end of None \<Rightarrow> None | Some ours_slice \<Rightarrow>
           (case checked_segment b bi b_end of None \<Rightarrow> None | Some theirs_slice \<Rightarrow>
              map_option ((#) (base_slice, ours_slice, theirs_slice))
                (region_walk base a b to (nat a_end) (nat b_end) ea' eb'))))"
  by pat_completeness auto
termination
proof (relation "measure (\<lambda>(base, a, b, oi, ai, bi, ea, eb). (length base - oi) + length ea + length eb)", goal_cases)
  case (3 base a b oi ai bi ea eb x to x1 ta x2 tb x3 ea' eb')
  then show ?case using walk_measure [of oi ea eb to ta tb ea' eb' "length base"] by auto
qed auto

declare region_walk.simps [simp del]

lemma push_region_same: "push_region labels ([l], [l], [l]) m = m\<lparr>mg_content := mg_content m @ l\<rparr>"
  by (simp add: push_region_def push_lines_def)

lemma merge_walk_regions:
  "merge_walk base a b labels oi ai bi ea eb m =
     map_option (\<lambda>rs. fold (push_region labels) rs m) (region_walk base a b oi ai bi ea eb)"
proof (induction base a b labels oi ai bi ea eb m rule: merge_walk.induct)
  case (1 base a b labels oi ai bi ea eb m)
  show ?case
  proof (cases "\<not> edit_here oi ea \<and> \<not> edit_here oi eb")
    case True
    then show ?thesis using "1.IH"(1) [OF True]
      by (subst merge_walk.simps, subst region_walk.simps)
         (simp add: option.map_comp comp_def push_region_same)
  next
    case False
    obtain to ta tb ea' eb' where g: "grow_region oi ea eb = (to, ta, tb, ea', eb')"
      by (cases "grow_region oi ea eb") auto
    let ?x = "int ai + int (to - oi) + len_change ta" and ?y = "int bi + int (to - oi) + len_change tb"
    show ?thesis
    proof (cases "checked_segment base oi (int to)"; cases "checked_segment a ai ?x"; cases "checked_segment b bi ?y")
      fix u v w assume seg: "checked_segment base oi (int to) = Some u" "checked_segment a ai ?x = Some v"
        "checked_segment b bi ?y = Some w"
      have "merge_walk base a b labels to (nat ?x) (nat ?y) ea' eb' (push_region labels (u, v, w) m) =
          map_option (\<lambda>rs. fold (push_region labels) rs (push_region labels (u, v, w) m))
            (region_walk base a b to (nat ?x) (nat ?y) ea' eb')"
        using "1.IH"(2) [OF False g [symmetric] refl refl refl refl refl refl refl seg] .
      then show ?thesis
        unfolding merge_walk.simps [of base a b labels oi ai bi ea eb m]
          region_walk.simps [of base a b oi ai bi ea eb] if_not_P [OF False]
        by (simp add: g seg Let_def option.map_comp comp_def)
    qed (simp_all only: merge_walk.simps [of base a b labels oi ai bi ea eb m]
          region_walk.simps [of base a b oi ai bi ea eb] if_not_P [OF False] g Let_def prod.case option.case option.map)
  qed
qed

text \<open>A script up to the point a region ends at.\<close>

lemma script_cut:
  assumes "script a b i j (es @ fs) p q" "i \<le> x" "x \<le> p" "\<forall>e \<in> set es. snd (ed_old e) \<le> x"
    "fs = [] \<or> x \<le> fst (ed_old (hd fs))" "i \<le> length a" "j \<le> length b"
  shows "\<exists>n. int n = int j + int (x - i) + len_change es \<and> script a b i j es x n \<and> script a b x n fs p q"
  using assms
proof (induction es arbitrary: i j)
  case Nil
  let ?n = "j + (x - i)"
  show ?case
  proof (cases fs)
    case Nil
    then have pq: "q + i = j + p" "agree a i b j (p - i)" using Nil.prems(1) by auto
    have "agree a i b j (x - i)" using pq(2) by (rule agree_sub) (use Nil.prems in auto)
    moreover have "agree a x b ?n (p - x)" using pq(2) by (rule agree_sub) (use Nil.prems in auto)
    ultimately show ?thesis using Nil Nil.prems pq by (intro exI [of _ ?n]) (auto simp: len_change_def)
  next
    case (Cons f fs')
    let ?s = "fst (ed_old f)"
    have f: "i \<le> ?s" "fst (ed_new f) + i = j + ?s" "agree a i b j (?s - i)" "x \<le> ?s"
      using Nil.prems(1,5) Cons by auto
    have "agree a i b j (x - i)" using f(3) by (rule agree_sub) (use Nil.prems f in auto)
    moreover have "agree a x b ?n (?s - x)" using f(3) by (rule agree_sub) (use Nil.prems f in auto)
    ultimately show ?thesis using Cons Nil.prems f by (intro exI [of _ ?n]) (auto simp: len_change_def)
  qed
next
  case (Cons e es)
  let ?s = "fst (ed_old e)" and ?t = "snd (ed_old e)" and ?u = "fst (ed_new e)" and ?v = "snd (ed_new e)"
  have e: "i \<le> ?s" "?u + i = j + ?s" "?s \<le> ?t" "?t \<le> length a" "?u \<le> ?v" "?v \<le> length b"
    "script a b ?t ?v (es @ fs) p q" and ag: "agree a i b j (?s - i)" using Cons.prems(1) by auto
  obtain n where n: "int n = int ?v + int (x - ?t) + len_change es" "script a b ?t ?v es x n" "script a b x n fs p q"
    using Cons.IH [of ?t ?v] e Cons.prems by auto
  have "?t \<le> x" using Cons.prems(4) by simp
  then have "int n = int j + int (x - i) + len_change (e # es)"
    using n(1) e Cons.prems(2) by (simp add: len_change_def range_len_def)
  then show ?case using e ag n by auto
qed

lemma script_old_ends:
  "script a b i j es m n \<Longrightarrow> e \<in> set es \<Longrightarrow> snd (ed_old e) \<le> length a"
  by (induction es arbitrary: i j) auto

lemma len_change_Nil [simp]: "len_change [] = 0"
  by (simp add: len_change_def)

text \<open>What a region ends at: the first point from \<open>to\<close> on that no edit crosses.\<close>

definition closed_at :: "nat \<Rightarrow> edit list \<Rightarrow> bool" where
  "closed_at x es \<longleftrightarrow> (\<forall>e \<in> set es. fst (ed_old e) \<le> x \<longrightarrow> snd (ed_old e) \<le> x)"

lemma take_touching_spec:
  "take_touching to es = (to', taken, rest) \<Longrightarrow>
     (\<forall>e \<in> set taken. snd (ed_old e) \<le> to') \<and> (\<forall>e \<in> set taken. fst (ed_old e) \<le> to') \<and>
     (rest = [] \<or> to' < fst (ed_old (hd rest))) \<and> (taken = [] \<longrightarrow> to' = to) \<and>
     (\<forall>x. to \<le> x \<and> closed_at x es \<longrightarrow> to' \<le> x)"
proof (induction to es arbitrary: to' taken rest rule: take_touching.induct)
  case (2 to e es)
  show ?case
  proof (cases "fst (ed_old e) \<le> to")
    case True
    obtain t k r where r: "take_touching (max to (snd (ed_old e))) es = (t, k, r)"
      by (cases "take_touching (max to (snd (ed_old e))) es") auto
    with "2.prems" True have eq: "to' = t" "taken = e # k" "rest = r" by auto
    have "max to (snd (ed_old e)) \<le> t" using take_touching_split [OF r] by simp
    then show ?thesis using "2.IH" [OF True r] True eq by (auto simp: closed_at_def)
  qed (use "2.prems" in auto)
qed simp

lemma grow_region_spec:
  "grow_region to ea eb = (to', ta, tb, ea', eb') \<Longrightarrow>
     (\<forall>e \<in> set ta \<union> set tb. fst (ed_old e) \<le> to' \<and> snd (ed_old e) \<le> to') \<and>
     (ea' = [] \<or> to' < fst (ed_old (hd ea'))) \<and> (eb' = [] \<or> to' < fst (ed_old (hd eb'))) \<and>
     (\<forall>x. to \<le> x \<and> closed_at x ea \<and> closed_at x eb \<longrightarrow> to' \<le> x)"
proof (induction to ea eb arbitrary: to' ta tb ea' eb' rule: grow_region.induct)
  case (1 to ea eb)
  obtain to1 ta1 ea1 where a: "take_touching to ea = (to1, ta1, ea1)" by (cases "take_touching to ea") auto
  obtain to2 tb1 eb1 where b: "take_touching to1 eb = (to2, tb1, eb1)" by (cases "take_touching to1 eb") auto
  note sa = take_touching_spec [OF a] and sb = take_touching_spec [OF b]
    and pa = take_touching_split [OF a] and pb = take_touching_split [OF b]
  show ?case
  proof (cases "ta1 = [] \<and> tb1 = []")
    case True
    then have "(to', ta, tb, ea', eb') = (to2, [], [], ea1, eb1)"
      using "1.prems" a b by (subst (asm) grow_region.simps) simp
    then show ?thesis using True sa sb by auto
  next
    case False
    obtain to3 ta2 tb2 ea2 eb2 where r: "grow_region to2 ea1 eb1 = (to3, ta2, tb2, ea2, eb2)"
      by (cases "grow_region to2 ea1 eb1") auto
    have eq: "(to', ta, tb, ea', eb') = (to3, ta1 @ ta2, tb1 @ tb2, ea2, eb2)"
      using "1.prems" a b r False by (subst (asm) grow_region.simps) simp
    have ih: "\<forall>e \<in> set ta2 \<union> set tb2. fst (ed_old e) \<le> to3 \<and> snd (ed_old e) \<le> to3"
      "ea2 = [] \<or> to3 < fst (ed_old (hd ea2))" "eb2 = [] \<or> to3 < fst (ed_old (hd eb2))"
      "\<forall>x. to2 \<le> x \<and> closed_at x ea1 \<and> closed_at x eb1 \<longrightarrow> to3 \<le> x"
      using "1.IH" [OF a [symmetric] refl refl b [symmetric] refl refl False r] by auto
    have mono: "to2 \<le> to3" using grow_region_shrinks [OF r] by simp
    have "to3 \<le> x" if x: "to \<le> x" "closed_at x ea" "closed_at x eb" for x
    proof -
      have "to1 \<le> x" using sa x by blast
      then have "to2 \<le> x" using sb x by blast
      then show ?thesis using ih(4) x pa pb by (auto simp: closed_at_def)
    qed
    moreover have "\<forall>e \<in> set ta1 \<union> set tb1. fst (ed_old e) \<le> to3 \<and> snd (ed_old e) \<le> to3"
      using sa sb pb mono by fastforce
    ultimately show ?thesis using eq ih(1-3) by auto
  qed
qed

text \<open>No step of the walk is stuck, and the regions cut all three texts into pieces.\<close>

definition base_of :: "region list \<Rightarrow> bytes list" where
  "base_of rs = concat (map fst rs)"

definition ours_of :: "region list \<Rightarrow> bytes list" where
  "ours_of rs = concat (map (fst \<circ> snd) rs)"

definition theirs_of :: "region list \<Rightarrow> bytes list" where
  "theirs_of rs = concat (map (snd \<circ> snd) rs)"

lemma script_end: "script a b (length a) j es (length a) (length b) \<Longrightarrow> \<not> edit_here (length a) es \<Longrightarrow> es = [] \<and> j = length b"
  by (cases es) (auto simp: edit_here_def)

lemma script_step:
  assumes "script a b i j es (length a) (length b)" "\<not> edit_here i es" "i < length a"
  shows "j < length b \<and> a ! i = b ! j \<and> script a b (Suc i) (Suc j) es (length a) (length b)"
proof -
  let ?s = "case es of [] \<Rightarrow> length a | e # _ \<Rightarrow> fst (ed_old e)"
  have s: "i < ?s" "?s \<le> length a" and ag: "agree a i b j (?s - i)"
    using assms by (auto simp: edit_here_def split: list.splits)
  have "agree a i b j 1" using ag by (rule agree_sub) (use s in auto)
  moreover have "agree a (Suc i) b (Suc j) (?s - Suc i)" using ag by (rule agree_sub) (use s in auto)
  ultimately show ?thesis using assms(1) s by (cases es) (auto simp: agree_1)
qed

text \<open>The walk over two scripts never gets stuck; what holds of its regions is shown region by region.\<close>

lemma region_walk_induct [consumes 2, case_names finish line region]:
  assumes "script base a oi ai ea (length base) (length a)" "script base b oi bi eb (length base) (length b)"
    and finish: "P (length base) (length a) (length b) [] [] []"
    and line: "\<And>oi ai bi ea eb rs.
      oi < length base \<Longrightarrow> ai < length a \<Longrightarrow> bi < length b \<Longrightarrow> base ! oi = a ! ai \<Longrightarrow> base ! oi = b ! bi \<Longrightarrow>
      \<not> edit_here oi ea \<Longrightarrow> \<not> edit_here oi eb \<Longrightarrow>
      P (Suc oi) (Suc ai) (Suc bi) ea eb rs \<Longrightarrow>
      P oi ai bi ea eb (([base ! oi], [base ! oi], [base ! oi]) # rs)"
    and region: "\<And>oi ai bi ea eb to ta tb ea' eb' x y rs.
      script base a oi ai ea (length base) (length a) \<Longrightarrow> script base b oi bi eb (length base) (length b) \<Longrightarrow>
      edit_here oi ea \<or> edit_here oi eb \<Longrightarrow> grow_region oi ea eb = (to, ta, tb, ea', eb') \<Longrightarrow>
      oi \<le> to \<Longrightarrow> to \<le> length base \<Longrightarrow>
      int x = int ai + int (to - oi) + len_change ta \<Longrightarrow> int y = int bi + int (to - oi) + len_change tb \<Longrightarrow>
      script base a oi ai ta to x \<Longrightarrow> script base b oi bi tb to y \<Longrightarrow>
      P to x y ea' eb' rs \<Longrightarrow>
      P oi ai bi ea eb ((segment base oi to, segment a ai x, segment b bi y) # rs)"
  shows "\<exists>rs. region_walk base a b oi ai bi ea eb = Some rs \<and> P oi ai bi ea eb rs"
  using assms(1,2)
proof (induction "(length base - oi) + length ea + length eb" arbitrary: oi ai bi ea eb rule: less_induct)
  case less
  have in_a: "oi \<le> length base" "ai \<le> length a" "bi \<le> length b"
    using script_bounds [OF less.prems(1)] script_bounds [OF less.prems(2)] by auto
  show ?case
  proof (cases "\<not> edit_here oi ea \<and> \<not> edit_here oi eb")
    case True
    show ?thesis
    proof (cases "length base \<le> oi")
      case end': True
      then have oi: "oi = length base" using in_a by simp
      then have "ai = length a" "bi = length b" "ea = []" "eb = []"
        using script_end [of base a ai ea] script_end [of base b bi eb] less.prems True by auto
      then show ?thesis
        using oi True finish by (subst region_walk.simps) simp
    next
      case False
      then have oi: "oi < length base" by simp
      have a: "ai < length a" "base ! oi = a ! ai" "script base a (Suc oi) (Suc ai) ea (length base) (length a)"
        using script_step [OF less.prems(1) _ oi] True by auto
      have b: "bi < length b" "base ! oi = b ! bi" "script base b (Suc oi) (Suc bi) eb (length base) (length b)"
        using script_step [OF less.prems(2) _ oi] True by auto
      have "length base - Suc oi + length ea + length eb < length base - oi + length ea + length eb" using oi by simp
      from less.hyps [OF this a(3) b(3)]
      obtain rs where rs: "region_walk base a b (oi + 1) (ai + 1) (bi + 1) ea eb = Some rs"
        "P (Suc oi) (Suc ai) (Suc bi) ea eb rs" by auto
      have "region_walk base a b oi ai bi ea eb = Some (([base ! oi], [base ! oi], [base ! oi]) # rs)"
        using True False rs(1) by (subst region_walk.simps) simp
      then show ?thesis using line [OF oi a(1) b(1) a(2) b(2) _ _ rs(2)] True by blast
    qed
  next
    case False
    obtain to ta tb ea' eb' where g: "grow_region oi ea eb = (to, ta, tb, ea', eb')"
      by (cases "grow_region oi ea eb") auto
    have sp: "ea = ta @ ea'" "eb = tb @ eb'" "oi \<le> to" using grow_region_shrinks [OF g] by auto
    have ends: "\<forall>e \<in> set ta \<union> set tb. snd (ed_old e) \<le> to" "ea' = [] \<or> to < fst (ed_old (hd ea'))"
      "eb' = [] \<or> to < fst (ed_old (hd eb'))" "\<forall>x. oi \<le> x \<and> closed_at x ea \<and> closed_at x eb \<longrightarrow> to \<le> x"
      using grow_region_spec [OF g] by auto
    have "closed_at (length base) ea" "closed_at (length base) eb"
      using script_old_ends less.prems by (auto simp: closed_at_def)
    then have to: "to \<le> length base" using ends(4) in_a by blast
    obtain x where x: "int x = int ai + int (to - oi) + len_change ta" "script base a oi ai ta to x"
      "script base a to x ea' (length base) (length a)"
      using script_cut [of base a oi ai ta ea' "length base" "length a" to] less.prems(1) sp ends to in_a by fastforce
    obtain y where y: "int y = int bi + int (to - oi) + len_change tb" "script base b oi bi tb to y"
      "script base b to y eb' (length base) (length b)"
      using script_cut [of base b oi bi tb eb' "length base" "length b" to] less.prems(2) sp ends to in_a by fastforce
    have le: "ai \<le> x" "x \<le> length a" "bi \<le> y" "y \<le> length b"
      using script_bounds [OF x(2)] script_bounds [OF y(2)] by auto
    have seg: "checked_segment base oi (int to) = Some (segment base oi to)"
      "checked_segment a ai (int ai + int (to - oi) + len_change ta) = Some (segment a ai x)"
      "checked_segment b bi (int bi + int (to - oi) + len_change tb) = Some (segment b bi y)"
      unfolding x(1) [symmetric] y(1) [symmetric] using le sp(3) to by (simp_all add: checked_segment_def)
    have xy: "nat (int ai + int (to - oi) + len_change ta) = x" "nat (int bi + int (to - oi) + len_change tb) = y"
      unfolding x(1) [symmetric] y(1) [symmetric] by simp_all
    obtain rs where rs: "region_walk base a b to x y ea' eb' = Some rs" "P to x y ea' eb' rs"
      using less.hyps [OF walk_measure [OF g False] x(3) y(3)] by blast
    have "region_walk base a b oi ai bi ea eb = Some ((segment base oi to, segment a ai x, segment b bi y) # rs)"
      unfolding region_walk.simps [of base a b oi ai bi ea eb] if_not_P [OF False]
      by (simp add: g Let_def seg xy rs(1))
    moreover have "P oi ai bi ea eb ((segment base oi to, segment a ai x, segment b bi y) # rs)"
      using region [OF less.prems _ g sp(3) to x(1) y(1) x(2) y(2) rs(2)] False by blast
    ultimately show ?thesis by blast
  qed
qed

lemma segment_drop: "i \<le> j \<Longrightarrow> j \<le> length xs \<Longrightarrow> segment xs i j @ drop j xs = drop i xs"
  using segment_append [of i j "length xs" xs] by (simp add: segment_def)

lemma region_walk_pieces:
  assumes "script base a oi ai ea (length base) (length a)" "script base b oi bi eb (length base) (length b)"
  shows "\<exists>rs. region_walk base a b oi ai bi ea eb = Some rs \<and>
    base_of rs = drop oi base \<and> ours_of rs = drop ai a \<and> theirs_of rs = drop bi b"
  using assms
proof (induction rule: region_walk_induct)
  case (line oi ai bi ea eb rs)
  have "drop oi base = base ! oi # drop (Suc oi) base" "drop ai a = base ! oi # drop (Suc ai) a"
    "drop bi b = base ! oi # drop (Suc bi) b"
    using Cons_nth_drop_Suc [OF line(1)] Cons_nth_drop_Suc [OF line(2)] Cons_nth_drop_Suc [OF line(3)] line(4,5)
    by simp_all
  then show ?case using line by (simp add: base_of_def ours_of_def theirs_of_def)
next
  case (region oi ai bi ea eb to ta tb ea' eb' x y rs)
  then show ?case
    using script_bounds [OF region(9)] script_bounds [OF region(10)]
    by (simp add: base_of_def ours_of_def theirs_of_def segment_drop)
qed (simp add: base_of_def ours_of_def theirs_of_def)

lemma script_Nil_segment: "script base a oi ai [] to x \<Longrightarrow> segment a ai x = segment base oi to"
  using script_apply [of base a oi ai "[]" to x] by simp

text \<open>A side without edits is the base in every region; two equal sides are equal in every region.\<close>

lemma region_walk_idle:
  assumes "script base a oi ai ea (length base) (length a)" "script base b oi bi eb (length base) (length b)"
  shows "\<exists>rs. region_walk base a b oi ai bi ea eb = Some rs \<and>
    (ea = [] \<longrightarrow> (\<forall>r \<in> set rs. fst (snd r) = fst r)) \<and> (eb = [] \<longrightarrow> (\<forall>r \<in> set rs. snd (snd r) = fst r))"
  using assms
proof (induction rule: region_walk_induct)
  case (region oi ai bi ea eb to ta tb ea' eb' x y rs)
  have "segment a ai x = segment base oi to" if "ta = []"
    using region(9) that script_Nil_segment by blast
  moreover have "segment b bi y = segment base oi to" if "tb = []"
    using region(10) that script_Nil_segment by blast
  ultimately show ?case using grow_region_shrinks [OF region(4)] region(11) by auto
qed auto

lemma grow_region_prefix:
  assumes "grow_region to ea eb = (to', ta, tb, ea', eb')"
  shows "ta = takeWhile (\<lambda>e. fst (ed_old e) \<le> to') ea \<and> ea' = dropWhile (\<lambda>e. fst (ed_old e) \<le> to') ea \<and>
         tb = takeWhile (\<lambda>e. fst (ed_old e) \<le> to') eb \<and> eb' = dropWhile (\<lambda>e. fst (ed_old e) \<le> to') eb"
proof -
  let ?P = "\<lambda>e. fst (ed_old e) \<le> to'"
  have *: "takeWhile ?P (ts @ rest) = ts \<and> dropWhile ?P (ts @ rest) = rest"
    if "\<forall>e \<in> set ts. ?P e" "rest = [] \<or> to' < fst (ed_old (hd rest))" for ts rest
    using that by (cases rest) (auto simp: takeWhile_append2 dropWhile_append2)
  have sp: "ea = ta @ ea'" "eb = tb @ eb'" using grow_region_shrinks [OF assms] by auto
  have "\<forall>e \<in> set ta. ?P e" "\<forall>e \<in> set tb. ?P e" "ea' = [] \<or> to' < fst (ed_old (hd ea'))"
    "eb' = [] \<or> to' < fst (ed_old (hd eb'))" using grow_region_spec [OF assms] by auto
  then show ?thesis using * [of ta ea'] * [of tb eb'] unfolding sp by simp
qed

lemma region_walk_twins:
  assumes "script base a oi ai ea (length base) (length a)" "script base b oi bi eb (length base) (length b)"
  shows "\<exists>rs. region_walk base a b oi ai bi ea eb = Some rs \<and>
    (a = b \<longrightarrow> ai = bi \<longrightarrow> ea = eb \<longrightarrow> list_all (\<lambda>r. fst (snd r) = snd (snd r)) rs)"
  using assms
proof (induction rule: region_walk_induct)
  case (region oi ai bi ea eb to ta tb ea' eb' x y rs)
  have "ta = tb \<and> ea' = eb'" if "ea = eb" using grow_region_prefix [OF region(4)] that by simp
  moreover have "x = y" if "ai = bi" "ta = tb" using region(7,8) that by (metis of_nat_eq_iff)
  ultimately show ?case using region(11) by simp
next
  case (line oi ai bi ea eb rs)
  show ?case using line(8) by simp
qed simp

text \<open>Ours and theirs can be exchanged: a region grows to the same end.\<close>

lemma script_starts:
  "script a b i j es m n \<Longrightarrow> e \<in> set es \<Longrightarrow> i \<le> fst (ed_old e)"
proof (induction es arbitrary: i j)
  case (Cons f es)
  then have f: "i \<le> fst (ed_old f)" "fst (ed_old f) \<le> snd (ed_old f)"
    "script a b (snd (ed_old f)) (snd (ed_new f)) es m n" by auto
  show ?case
  proof (cases "e = f")
    case False
    then show ?thesis using Cons.IH [OF f(3)] Cons.prems(2) f by auto
  qed (use f in simp)
qed simp

lemma grow_region_closed:
  assumes "grow_region oi ea eb = (to, ta, tb, ea', eb')"
    "script base a oi ai ea (length base) (length a)" "script base b oi bi eb (length base) (length b)"
  shows "closed_at to ea \<and> closed_at to eb"
proof -
  have beyond: "\<forall>e \<in> set es. to < fst (ed_old e)"
    if tail: "script base c oi ci (ts @ es) (length base) (length c)" "es = [] \<or> to < fst (ed_old (hd es))"
      "oi \<le> length base" "ci \<le> length c" for c ci ts es
  proof (cases es)
    case (Cons f fs)
    obtain m n where "script base c m n (f # fs) (length base) (length c)"
      using script_appendD [OF tail(1,3,4)] Cons by blast
    then have rest: "script base c (snd (ed_old f)) (snd (ed_new f)) fs (length base) (length c)" and
      f: "fst (ed_old f) \<le> snd (ed_old f)" by auto
    show "\<forall>e \<in> set es. to < fst (ed_old e)" using script_starts [OF rest] f tail(2) Cons by fastforce
  qed simp
  have sp: "ea = ta @ ea'" "eb = tb @ eb'" using grow_region_shrinks [OF assms(1)] by auto
  have b: "oi \<le> length base" "ai \<le> length a" "bi \<le> length b"
    using script_bounds [OF assms(2)] script_bounds [OF assms(3)] by auto
  have "\<forall>e \<in> set ea'. to < fst (ed_old e)" "\<forall>e \<in> set eb'. to < fst (ed_old e)"
    using beyond [of a ai ta ea'] beyond [of b bi tb eb'] assms(2,3) sp b grow_region_spec [OF assms(1)] by auto
  then show ?thesis using grow_region_spec [OF assms(1)] unfolding sp closed_at_def by fastforce
qed

lemma grow_region_swap:
  assumes "grow_region oi ea eb = (to, ta, tb, ea', eb')"
    "script base a oi ai ea (length base) (length a)" "script base b oi bi eb (length base) (length b)"
  shows "grow_region oi eb ea = (to, tb, ta, eb', ea')"
proof -
  obtain to2 sb sa eb2 ea2 where r: "grow_region oi eb ea = (to2, sb, sa, eb2, ea2)"
    by (cases "grow_region oi eb ea") auto
  have "to2 = to"
    using grow_region_closed [OF r assms(3,2)] grow_region_closed [OF assms] grow_region_spec [OF r]
      grow_region_spec [OF assms(1)] grow_region_shrinks [OF r] grow_region_shrinks [OF assms(1)]
    by (meson le_antisym)
  then show ?thesis using r grow_region_prefix [OF r] grow_region_prefix [OF assms(1)] by simp
qed

definition swap_region :: "region \<Rightarrow> region" where
  "swap_region r = (fst r, snd (snd r), fst (snd r))"

lemma region_walk_swap:
  assumes "script base a oi ai ea (length base) (length a)" "script base b oi bi eb (length base) (length b)"
  shows "\<exists>rs. region_walk base a b oi ai bi ea eb = Some rs \<and>
    region_walk base b a oi bi ai eb ea = Some (map swap_region rs)"
  using assms
proof (induction rule: region_walk_induct)
  case finish
  then show ?case by (subst region_walk.simps) (simp add: edit_here_def)
next
  case (line oi ai bi ea eb rs)
  then show ?case by (subst region_walk.simps) (simp add: swap_region_def)
next
  case (region oi ai bi ea eb to ta tb ea' eb' x y rs)
  have here: "\<not> (\<not> edit_here oi eb \<and> \<not> edit_here oi ea)" using region(3) by blast
  have le: "ai \<le> x" "x \<le> length a" "bi \<le> y" "y \<le> length b"
    using script_bounds [OF region(9)] script_bounds [OF region(10)] by auto
  have seg: "checked_segment base oi (int to) = Some (segment base oi to)"
      "checked_segment a ai (int x) = Some (segment a ai x)"
      "checked_segment b bi (int y) = Some (segment b bi y)"
    using le region(5,6) by (simp_all add: checked_segment_def)
  show ?case
    unfolding region_walk.simps [of base b a oi bi ai eb ea] if_not_P [OF here]
    using region(11) by (simp add: grow_region_swap [OF region(4,1,2)] Let_def region(7,8) [symmetric] seg swap_region_def)
qed

text \<open>Edits of the two sides that neither overlap nor touch.\<close>

definition apart :: "edit \<Rightarrow> edit \<Rightarrow> bool" where
  "apart e f \<longleftrightarrow> snd (ed_old e) < fst (ed_old f) \<or> snd (ed_old f) < fst (ed_old e)"

lemma take_touching_chain:
  "take_touching to es = (to', taken, rest) \<Longrightarrow> to < s \<Longrightarrow> s \<le> to' \<Longrightarrow>
     \<exists>e \<in> set taken. fst (ed_old e) < s \<and> s \<le> snd (ed_old e)"
proof (induction to es arbitrary: to' taken rest rule: take_touching.induct)
  case (2 to e es)
  show ?case
  proof (cases "fst (ed_old e) \<le> to")
    case True
    obtain t k r where r: "take_touching (max to (snd (ed_old e))) es = (t, k, r)"
      by (cases "take_touching (max to (snd (ed_old e))) es") auto
    with "2.prems" True have eq: "to' = t" "taken = e # k" by auto
    show ?thesis
    proof (cases "s \<le> snd (ed_old e)")
      case True
      then show ?thesis using \<open>fst (ed_old e) \<le> to\<close> "2.prems"(2) eq by auto
    next
      case False
      then show ?thesis using "2.IH" [OF True r] "2.prems"(2,3) eq by auto
    qed
  qed (use "2.prems" in auto)
qed auto

lemma take_touching_none: "es = [] \<or> to < fst (ed_old (hd es)) \<Longrightarrow> take_touching to es = (to, [], es)"
  by (cases es) auto

lemma grow_region_one_sided:
  assumes chain: "take_touching oi ea = (to, ta, ea')" and here: "edit_here oi ea"
    and apart: "\<forall>e \<in> set ea. \<forall>f \<in> set eb. apart e f"
    and sorted: "eb = [] \<or> oi \<le> fst (ed_old (hd eb)) \<and> fst (ed_old (hd eb)) \<le> snd (ed_old (hd eb))"
    and lead: "fst (ed_old (hd ea)) \<le> snd (ed_old (hd ea))"
  shows "take_touching to eb = (to, [], eb) \<and> ta \<noteq> []"
proof -
  obtain e es where ea: "ea = e # es" "fst (ed_old e) = oi" using here by (cases ea) (auto simp: edit_here_def)
  have ta: "e \<in> set ta" "set ta \<subseteq> set ea" "ta \<noteq> []"
    using chain ea take_touching_split [OF chain] by (auto split: prod.splits)
  have "eb = [] \<or> to < fst (ed_old (hd eb))"
  proof (rule ccontr)
    assume "\<not> (eb = [] \<or> to < fst (ed_old (hd eb)))"
    then obtain f fs where f: "eb = f # fs" "fst (ed_old f) \<le> to" by (cases eb) auto
    have "\<exists>g \<in> set ta. fst (ed_old g) \<le> fst (ed_old f) \<and> fst (ed_old f) \<le> snd (ed_old g)"
    proof (cases "oi < fst (ed_old f)")
      case True
      then show ?thesis using take_touching_chain [OF chain True f(2)] by (meson less_imp_le)
    next
      case False
      then show ?thesis using ta(1) ea lead sorted f by (intro bexI [of _ e]) auto
    qed
    then obtain g where g: "g \<in> set ea" "fst (ed_old g) \<le> fst (ed_old f)" "fst (ed_old f) \<le> snd (ed_old g)"
      using ta(2) by blast
    have "apart g f" using apart g(1) f(1) by simp
    then show False using g sorted f by (auto simp: apart_def)
  qed
  then show ?thesis using take_touching_none ta(3) by blast
qed

lemma apart_sym: "apart e f \<Longrightarrow> apart f e"
  by (auto simp: apart_def)

lemma grow_region_apart:
  assumes g: "grow_region oi ea eb = (to, ta, tb, ea', eb')" and here: "edit_here oi ea \<or> edit_here oi eb"
    and apart: "\<forall>e \<in> set ea. \<forall>f \<in> set eb. apart e f"
    and sc: "script base a oi ai ea (length base) (length a)" "script base b oi bi eb (length base) (length b)"
  shows "ta = [] \<or> tb = []"
proof -
  have sorted: "es = [] \<or> oi \<le> fst (ed_old (hd es)) \<and> fst (ed_old (hd es)) \<le> snd (ed_old (hd es))"
    if "script base c oi ci es m n" for c ci es m n using that by (cases es) auto
  have one: "tb = []"
    if gr: "grow_region oi ea eb = (to, ta, tb, ea', eb')" and here: "edit_here oi ea"
      and ap: "\<forall>e \<in> set ea. \<forall>f \<in> set eb. apart e f"
      and s: "script base a oi ai ea (length base) (length a)" "script base b oi bi eb (length base) (length b)"
    for ea eb to ta tb ea' eb' a b ai bi
  proof -
    obtain t1 t ea1 where t: "take_touching oi ea = (t1, t, ea1)" by (cases "take_touching oi ea") auto
    have "ea \<noteq> []" using here by (auto simp: edit_here_def)
    then have none: "take_touching t1 eb = (t1, [], eb)" "t \<noteq> []"
      using grow_region_one_sided [OF t here ap sorted [OF s(2)]] sorted [OF s(1)] by auto
    have "take_touching t1 ea1 = (t1, [], ea1)"
      using take_touching_spec [OF t] by (intro take_touching_none) auto
    then have "grow_region t1 ea1 eb = (t1, [], [], ea1, eb)"
      using none by (subst grow_region.simps) simp
    then have "grow_region oi ea eb = (t1, t, [], ea1, eb)"
      using none t by (subst grow_region.simps) simp
    then show ?thesis using gr by simp
  qed
  show ?thesis
  proof (cases "edit_here oi ea")
    case True
    then show ?thesis using one [OF g True apart sc] by simp
  next
    case False
    then have "edit_here oi eb" using here by simp
    moreover have "\<forall>f \<in> set eb. \<forall>e \<in> set ea. apart f e" using apart apart_sym by blast
    ultimately have "ta = []" using one [OF grow_region_swap [OF g sc]] sc by blast
    then show ?thesis by simp
  qed
qed

lemma region_walk_apart:
  assumes "script base a oi ai ea (length base) (length a)" "script base b oi bi eb (length base) (length b)"
  shows "\<exists>rs. region_walk base a b oi ai bi ea eb = Some rs \<and>
    ((\<forall>e \<in> set ea. \<forall>f \<in> set eb. apart e f) \<longrightarrow> list_all (\<lambda>r. fst (snd r) = fst r \<or> snd (snd r) = fst r) rs)"
  using assms
proof (induction rule: region_walk_induct)
  case (line oi ai bi ea eb rs)
  show ?case using line(8) by simp
next
  case (region oi ai bi ea eb to ta tb ea' eb' x y rs)
  have sp: "ea = ta @ ea'" "eb = tb @ eb'" using grow_region_shrinks [OF region(4)] by auto
  show ?case
  proof
    assume ap: "\<forall>e \<in> set ea. \<forall>f \<in> set eb. apart e f"
    have "ta = [] \<or> tb = []" by (rule grow_region_apart [OF region(4,3) ap region(1,2)])
    then have "segment a ai x = segment base oi to \<or> segment b bi y = segment base oi to"
      using region(9,10) script_Nil_segment by blast
    moreover have "\<forall>e \<in> set ea'. \<forall>f \<in> set eb'. apart e f" using ap sp by simp
    ultimately show "list_all (\<lambda>r. fst (snd r) = fst r \<or> snd (snd r) = fst r)
        ((segment base oi to, segment a ai x, segment b bi y) # rs)"
      using region(11) by simp
  qed
qed simp

section \<open>What a merge returns\<close>

definition conflicting :: "region \<Rightarrow> bool" where
  "conflicting r \<longleftrightarrow> fst (snd r) \<noteq> fst r \<and> snd (snd r) \<noteq> fst r \<and> fst (snd r) \<noteq> snd (snd r)"

text \<open>The side that changed a region.\<close>

definition changed_side :: "region \<Rightarrow> bytes list" where
  "changed_side r = (if fst (snd r) = fst r then snd (snd r) else fst (snd r))"

lemma push_region_conflicts:
  "mg_conflicts (push_region labels r m) = mg_conflicts m + (if conflicting r then 1 else 0)"
  by (cases r) (simp add: push_region_def conflicting_def Let_def)

lemma fold_push_conflicts:
  "mg_conflicts (fold (push_region labels) rs m) = mg_conflicts m + length (filter conflicting rs)"
  by (induction rs arbitrary: m) (simp_all add: push_region_conflicts)

lemma push_region_clean:
  "\<not> conflicting r \<Longrightarrow> push_region labels r m = m\<lparr>mg_content := mg_content m @ concat (changed_side r)\<rparr>"
  by (cases r) (auto simp: push_region_def conflicting_def changed_side_def push_lines_def Let_def)

lemma fold_push_clean:
  "\<forall>r \<in> set rs. \<not> conflicting r \<Longrightarrow>
     fold (push_region labels) rs m = m\<lparr>mg_content := mg_content m @ concat (concat (map changed_side rs))\<rparr>"
  by (induction rs arbitrary: m) (simp_all add: push_region_clean)

definition merge_regions :: "bytes \<Rightarrow> bytes \<Rightarrow> bytes \<Rightarrow> region list option" where
  "merge_regions base ours theirs =
     (let bl = split_lines base; a = split_lines ours; b = split_lines theirs
      in region_walk bl a b 0 0 0 (slide_down (diff_lines bl a) bl a) (slide_down (diff_lines bl b) bl b))"

lemma merge_eq:
  "merge base ours theirs labels =
     map_option (\<lambda>rs. fold (push_region labels) rs \<lparr>mg_content = [], mg_conflicts = 0\<rparr>) (merge_regions base ours theirs)"
  by (simp add: merge_def merge_edits_def merge_regions_def merge_walk_regions Let_def)

definition mergeable :: "bytes \<Rightarrow> bytes \<Rightarrow> bytes \<Rightarrow> bool" where
  "mergeable base ours theirs \<longleftrightarrow>
     length (split_lines base) + length (split_lines ours) \<le> 4294967296 \<and>
     length (split_lines base) + length (split_lines theirs) \<le> 4294967296"

lemma slid_scripts:
  assumes "length (split_lines base) + length (split_lines side) \<le> 4294967296"
  shows "script (split_lines base) (split_lines side) 0 0
     (slide_down (diff_lines (split_lines base) (split_lines side)) (split_lines base) (split_lines side))
     (length (split_lines base)) (length (split_lines side))"
  using diff_lines_script [OF assms] by (intro slide_down_script) simp


lemma mergeable_sample: "mergeable [97, 10, 98, 10, 99, 10] [97, 10, 120, 10, 99, 10] [97, 10, 98, 10, 99, 10, 100]"
  by (simp add: mergeable_def split_lines_def)


lemma fold_push_picks:
  assumes "\<forall>r \<in> set rs. \<not> conflicting r" "concat (concat (map changed_side rs)) = out"
  shows "fold (push_region labels) rs \<lparr>mg_content = [], mg_conflicts = 0\<rparr> = \<lparr>mg_content = out, mg_conflicts = 0\<rparr>"
  using fold_push_clean [OF assms(1), of labels "\<lparr>mg_content = [], mg_conflicts = 0\<rparr>"] assms(2) by simp

text \<open>When only one side changed the file, the merge is that side; when both made the same change, it is that
  change; always without a conflict.\<close>

theorem merge_one_sided:
  assumes "mergeable base side base" "mergeable base base side" "mergeable base side side"
  shows "merge base base side labels = Some \<lparr>mg_content = side, mg_conflicts = 0\<rparr>
    \<and> merge base side base labels = Some \<lparr>mg_content = side, mg_conflicts = 0\<rparr>
    \<and> merge base side side labels = Some \<lparr>mg_content = side, mg_conflicts = 0\<rparr>"
proof -
  let ?b = "split_lines base" and ?s = "split_lines side"
  let ?es = "slide_down (diff_lines ?b ?s) ?b ?s"
  have len: "length ?b + length ?b \<le> 4294967296" "length ?b + length ?s \<le> 4294967296"
    using assms by (auto simp: mergeable_def)
  have sb: "script ?b ?b 0 0 [] (length ?b) (length ?b)" and ss: "script ?b ?s 0 0 ?es (length ?b) (length ?s)"
    using slid_scripts [OF len(1)] slid_scripts [OF len(2)] by (simp_all add: diff_lines_same [OF len(1)])
  have regs: "merge_regions base base side = region_walk ?b ?b ?s 0 0 0 [] ?es"
    "merge_regions base side base = region_walk ?b ?s ?b 0 0 0 ?es []"
    "merge_regions base side side = region_walk ?b ?s ?s 0 0 0 ?es ?es"
    by (simp_all add: merge_regions_def Let_def diff_lines_same [OF len(1)])
  have picks: "map changed_side rs = map (snd \<circ> snd) rs" if "\<forall>r \<in> set rs. fst (snd r) = fst r" for rs
    using that by (simp add: changed_side_def)
  have picks': "map changed_side rs = map (fst \<circ> snd) rs"
    if "\<forall>r \<in> set rs. snd (snd r) = fst r \<or> snd (snd r) = fst (snd r)" for rs
    using that by (force simp: changed_side_def)
  obtain r1 where r1: "region_walk ?b ?b ?s 0 0 0 [] ?es = Some r1" "\<forall>r \<in> set r1. fst (snd r) = fst r" "theirs_of r1 = ?s"
    using region_walk_idle [OF sb ss] region_walk_pieces [OF sb ss] by auto
  obtain r2 where r2: "region_walk ?b ?s ?b 0 0 0 ?es [] = Some r2" "\<forall>r \<in> set r2. snd (snd r) = fst r" "ours_of r2 = ?s"
    using region_walk_idle [OF ss sb] region_walk_pieces [OF ss sb] by auto
  obtain r3 where r3: "region_walk ?b ?s ?s 0 0 0 ?es ?es = Some r3" "\<forall>r \<in> set r3. fst (snd r) = snd (snd r)" "ours_of r3 = ?s"
    using region_walk_twins [OF ss ss] region_walk_pieces [OF ss ss] by (auto simp: list_all_iff)
  have "merge base base side labels = Some \<lparr>mg_content = side, mg_conflicts = 0\<rparr>"
  proof -
    have "fold (push_region labels) r1 \<lparr>mg_content = [], mg_conflicts = 0\<rparr> = \<lparr>mg_content = side, mg_conflicts = 0\<rparr>"
    proof (rule fold_push_picks)
      show "concat (concat (map changed_side r1)) = side"
        unfolding picks [OF r1(2)] using r1(3) by (simp add: theirs_of_def)
    qed (use r1(2) in \<open>simp add: conflicting_def\<close>)
    then show ?thesis by (simp add: merge_eq regs r1)
  qed
  moreover have "merge base side base labels = Some \<lparr>mg_content = side, mg_conflicts = 0\<rparr>"
  proof -
    have "fold (push_region labels) r2 \<lparr>mg_content = [], mg_conflicts = 0\<rparr> = \<lparr>mg_content = side, mg_conflicts = 0\<rparr>"
    proof (rule fold_push_picks)
      have "map changed_side r2 = map (fst \<circ> snd) r2" by (rule picks') (use r2(2) in auto)
      then show "concat (concat (map changed_side r2)) = side" using r2(3) by (simp add: ours_of_def del: map_eq_conv)
    qed (use r2(2) in \<open>auto simp: conflicting_def\<close>)
    then show ?thesis by (simp add: merge_eq regs r2)
  qed
  moreover have "merge base side side labels = Some \<lparr>mg_content = side, mg_conflicts = 0\<rparr>"
  proof -
    have "fold (push_region labels) r3 \<lparr>mg_content = [], mg_conflicts = 0\<rparr> = \<lparr>mg_content = side, mg_conflicts = 0\<rparr>"
    proof (rule fold_push_picks)
      have "map changed_side r3 = map (fst \<circ> snd) r3" by (rule picks') (use r3(2) in auto)
      then show "concat (concat (map changed_side r3)) = side" using r3(3) by (simp add: ours_of_def del: map_eq_conv)
    qed (use r3(2) in \<open>auto simp: conflicting_def\<close>)
    then show ?thesis by (simp add: merge_eq regs r3)
  qed
  ultimately show ?thesis by blast
qed

theorem merge_one_sided_witness:
  "merge [97, 10, 98] [97, 10, 98] [97, 10, 120, 10] labels_default = Some \<lparr>mg_content = [97, 10, 120, 10], mg_conflicts = 0\<rparr>"
  using merge_one_sided [of "[97, 10, 98]" "[97, 10, 120, 10]"] by (simp add: mergeable_def split_lines_def)

text \<open>C26. Exchanging ours and theirs changes nothing but the order inside the conflict markers: the same number of
  conflicts, and the same text when there is none.  And changes that neither overlap nor touch (no edit of one
  side within or next to an edit of the other) never conflict.\<close>

theorem merge_symmetric:
  assumes "mergeable base ours theirs"
  shows "\<exists>m m'. merge base ours theirs labels = Some m \<and> merge base theirs ours labels' = Some m'
    \<and> mg_conflicts m' = mg_conflicts m \<and> (is_clean m \<longrightarrow> mg_content m' = mg_content m)
    \<and> ((\<forall>e \<in> set (slide_down (diff base ours) (split_lines base) (split_lines ours)).
         \<forall>f \<in> set (slide_down (diff base theirs) (split_lines base) (split_lines theirs)). apart e f) \<longrightarrow> is_clean m)"
proof -
  have b: "length (split_lines base) + length (split_lines ours) \<le> 4294967296"
    "length (split_lines base) + length (split_lines theirs) \<le> 4294967296"
    using assms by (auto simp: mergeable_def)
  let ?apart = "\<forall>e \<in> set (slide_down (diff base ours) (split_lines base) (split_lines ours)).
         \<forall>f \<in> set (slide_down (diff base theirs) (split_lines base) (split_lines theirs)). apart e f"
  obtain rs where rs: "merge_regions base ours theirs = Some rs"
    "merge_regions base theirs ours = Some (map swap_region rs)"
    "?apart \<longrightarrow> list_all (\<lambda>r. fst (snd r) = fst r \<or> snd (snd r) = fst r) rs"
    using region_walk_swap [OF slid_scripts [OF b(1)] slid_scripts [OF b(2)]]
      region_walk_apart [OF slid_scripts [OF b(1)] slid_scripts [OF b(2)]]
    by (auto simp: merge_regions_def diff_def Let_def)
  let ?m = "fold (push_region labels) rs \<lparr>mg_content = [], mg_conflicts = 0\<rparr>"
  let ?m' = "fold (push_region labels') (map swap_region rs) \<lparr>mg_content = [], mg_conflicts = 0\<rparr>"
  have sw: "conflicting (swap_region r) = conflicting r" for r
    by (auto simp: conflicting_def swap_region_def)
  have n: "mg_conflicts ?m = length (filter conflicting rs)" "mg_conflicts ?m' = length (filter conflicting rs)"
    by (simp_all add: fold_push_conflicts filter_map comp_def sw)
  have "mg_content ?m' = mg_content ?m" if "is_clean ?m"
  proof -
    have cl: "\<forall>r \<in> set rs. \<not> conflicting r" using that n by (simp add: is_clean_def filter_empty_conv)
    then have "map changed_side (map swap_region rs) = map changed_side rs"
      by (auto simp: changed_side_def swap_region_def conflicting_def)
    then show ?thesis using cl by (simp add: fold_push_clean sw del: map_map map_eq_conv)
  qed
  moreover have "is_clean ?m" if ?apart
    using that rs(3) n by (auto simp: is_clean_def filter_empty_conv list_all_iff conflicting_def)
  ultimately show ?thesis using rs(1,2) n by (intro exI [of _ ?m] exI [of _ ?m']) (simp add: merge_eq)
qed

theorem merge_symmetric_witness:
  "\<exists>m m'. merge [97, 10, 98, 10, 99, 10] [97, 10, 120, 10, 99, 10] [97, 10, 98, 10, 99, 10, 100] labels_default = Some m
    \<and> merge [97, 10, 98, 10, 99, 10] [97, 10, 98, 10, 99, 10, 100] [97, 10, 120, 10, 99, 10] labels_default = Some m'
    \<and> mg_conflicts m' = mg_conflicts m"
  using merge_symmetric [OF mergeable_sample, of labels_default labels_default] by blast

end
