(* ===== verification/Policy_Glob.thy ===== *)
theory Policy_Glob
  imports Rust_Str "HOL-Library.Sublist"
begin

text \<open>
  The globs of the capability policy (\<^verbatim>\<open>alt-cli/src/policy.rs\<close>): \<^verbatim>\<open>*\<close> for a non-empty
  part of one path segment, \<^verbatim>\<open>**\<close> for anything.  The matcher keeps one point to go back
  to, the last \<^verbatim>\<open>**\<close>; the specification is the language of the parts.
\<close>

datatype part = LitPart bytes | AnySegment | AnyChars

type_synonym glob = "part list"

text \<open>\<^verbatim>\<open>bytes[i] as char\<close>: the byte is taken as a Latin-1 character and pushed in UTF-8.\<close>

definition push_as_char :: "u8 \<Rightarrow> bytes" where
  "push_as_char b = (if b < 0x80 then [b] else [0xC0 OR drop_bit 6 b, 0x80 OR (b AND 0x3F)])"

definition flush_lit :: "bytes \<Rightarrow> part list" where
  "flush_lit buf = (if buf = [] then [] else [LitPart buf])"

function glob_parts :: "bytes \<Rightarrow> bytes \<Rightarrow> part list" where
  "glob_parts buf [] = flush_lit buf"
| "glob_parts buf (b # r) =
     (if b = 0x2A then
        if r \<noteq> [] \<and> hd r = 0x2A then
          let buf' = (if buf \<noteq> [] \<and> last buf = 0x2F then butlast buf else buf);
              r' = tl r;
              r'' = (if r' \<noteq> [] \<and> hd r' = 0x2F then tl r' else r')
          in flush_lit buf' @ AnyChars # glob_parts [] r''
        else flush_lit buf @ AnySegment # glob_parts [] r
      else glob_parts (buf @ push_as_char b) r)"
  by pat_completeness auto
termination by (relation "measure (\<lambda>(buf, r). length r)") auto

definition glob_new :: "bytes \<Rightarrow> glob" where
  "glob_new pat = glob_parts [] pat"

text \<open>The loop of \<^verbatim>\<open>match_parts\<close>.  The parts after the last \<^verbatim>\<open>**\<close> (all of them before the first) are \<open>qs\<close>,
  \<open>p\<close> counts from there, and \<open>bt\<close> is the input from which that \<^verbatim>\<open>**\<close> was last tried.  A \<^verbatim>\<open>*\<close> is not a step of the loop:
  \<^verbatim>\<open>match_anysegment\<close> decides the whole match, from its longest run to its shortest.\<close>

definition segment_len :: "bytes \<Rightarrow> nat" where
  "segment_len input = length (takeWhile (\<lambda>b. b \<noteq> 0x2F) input)"

definition lit_here :: "part list \<Rightarrow> nat \<Rightarrow> bytes \<Rightarrow> bytes option" where
  "lit_here qs p input =
     (if p < length qs
      then case qs ! p of
             LitPart s \<Rightarrow> if take (length s) input = s then Some (drop (length s) input) else None
           | _ \<Rightarrow> None
      else None)"

lemma lit_here_Some:
  "lit_here qs p input = Some rest \<longleftrightarrow>
     p < length qs \<and> (\<exists>s. qs ! p = LitPart s \<and> take (length s) input = s \<and> rest = drop (length s) input)"
  by (auto simp: lit_here_def split: part.splits)

function match_loop :: "part list \<Rightarrow> nat \<Rightarrow> bytes option \<Rightarrow> bytes \<Rightarrow> bool" where
  "match_loop qs p bt input =
     (if length qs \<le> p \<and> input = [] then True
      else case lit_here qs p input of Some rest \<Rightarrow> match_loop qs (p + 1) bt rest | None \<Rightarrow>
      if p < length qs \<and> qs ! p = AnySegment then
        list_ex (\<lambda>n. match_loop (drop (p + 1) qs) 0 None (drop n input)) (rev [1..<Suc (segment_len input)])
      else if p < length qs \<and> qs ! p = AnyChars then
        match_loop (drop (p + 1) qs) 0 (Some input) input
      else (case bt of
              None \<Rightarrow> False
            | Some [] \<Rightarrow> False
            | Some (b # again) \<Rightarrow> match_loop qs 0 (Some again) again))"
  by pat_completeness auto
termination
  by (relation "inv_image (less_than <*lex*> less_than <*lex*> less_than)
        (\<lambda>(qs, p, bt, input). (length qs, case bt of None \<Rightarrow> 0 | Some again \<Rightarrow> length again, length qs - p))")
     (auto simp: lit_here_Some)

declare match_loop.simps [simp del]

definition match_parts :: "part list \<Rightarrow> bytes \<Rightarrow> bool" where
  "match_parts parts input = match_loop parts 0 None input"

definition glob_matches :: "glob \<Rightarrow> bytes \<Rightarrow> bool" where
  "glob_matches g input = match_parts g input"

section \<open>The language of a glob\<close>

fun glob_spec :: "part list \<Rightarrow> bytes \<Rightarrow> bool" where
  "glob_spec [] xs \<longleftrightarrow> xs = []"
| "glob_spec (LitPart s # ps) xs \<longleftrightarrow> (\<exists>ys. xs = s @ ys \<and> glob_spec ps ys)"
| "glob_spec (AnySegment # ps) xs \<longleftrightarrow> (\<exists>ys zs. xs = ys @ zs \<and> ys \<noteq> [] \<and> 0x2F \<notin> set ys \<and> glob_spec ps zs)"
| "glob_spec (AnyChars # ps) xs \<longleftrightarrow> (\<exists>ys. suffix ys xs \<and> glob_spec ps ys)"

lemma segment_splits:
  "(\<exists>n \<in> {1..<Suc (segment_len xs)}. P (drop n xs)) \<longleftrightarrow>
     (\<exists>ys zs. xs = ys @ zs \<and> ys \<noteq> [] \<and> 0x2F \<notin> set ys \<and> P zs)"
proof
  assume "\<exists>n \<in> {1..<Suc (segment_len xs)}. P (drop n xs)"
  then obtain n where n: "1 \<le> n" "n \<le> segment_len xs" "P (drop n xs)" by auto
  let ?w = "takeWhile (\<lambda>b. b \<noteq> 0x2F) xs"
  have "take n ?w = take n (take (length ?w) xs)" by (simp only: takeWhile_eq_take [symmetric])
  then have t: "take n xs = take n ?w" using n(2) by (simp add: segment_len_def min_absorb1)
  have "0x2F \<notin> set (take n xs)"
  proof
    assume "0x2F \<in> set (take n xs)"
    then have "0x2F \<in> set ?w" unfolding t by (rule in_set_takeD)
    then show False by (auto dest: set_takeWhileD)
  qed
  moreover have "xs \<noteq> []" using n by (auto simp: segment_len_def)
  ultimately show "\<exists>ys zs. xs = ys @ zs \<and> ys \<noteq> [] \<and> 0x2F \<notin> set ys \<and> P zs"
    using n by (intro exI [of _ "take n xs"] exI [of _ "drop n xs"]) auto
next
  assume "\<exists>ys zs. xs = ys @ zs \<and> ys \<noteq> [] \<and> 0x2F \<notin> set ys \<and> P zs"
  then obtain ys zs where s: "xs = ys @ zs" "ys \<noteq> []" "0x2F \<notin> set ys" "P zs" by blast
  have "takeWhile (\<lambda>b. b \<noteq> 0x2F) (ys @ zs) = ys @ takeWhile (\<lambda>b. b \<noteq> 0x2F) zs"
    by (rule takeWhile_append2) (use s(3) in auto)
  then have "length ys \<le> segment_len xs" using s(1) by (simp add: segment_len_def)
  then show "\<exists>n \<in> {1..<Suc (segment_len xs)}. P (drop n xs)"
    using s by (intro bexI [of _ "length ys"]) (auto simp: Suc_le_eq)
qed

text \<open>No \<^verbatim>\<open>*\<close> after a \<^verbatim>\<open>**\<close>.\<close>

fun no_segments :: "part list \<Rightarrow> bool" where
  "no_segments [] = True"
| "no_segments (AnySegment # ps) = False"
| "no_segments (_ # ps) = no_segments ps"

fun segments_first :: "part list \<Rightarrow> bool" where
  "segments_first [] = True"
| "segments_first (AnyChars # ps) = no_segments ps"
| "segments_first (_ # ps) = segments_first ps"

lemma no_segments_set: "no_segments ps \<longleftrightarrow> AnySegment \<notin> set ps"
  by (induction ps rule: no_segments.induct) auto

lemma no_segments_first: "no_segments ps \<Longrightarrow> segments_first ps"
  by (induction ps rule: no_segments.induct) auto

lemma segments_first_drop: "segments_first ps \<Longrightarrow> segments_first (drop n ps)"
proof (induction ps arbitrary: n)
  case (Cons q ps)
  then show ?case
  proof (cases n)
    case (Suc m)
    have "segments_first ps" using Cons.prems no_segments_first by (cases q) auto
    then show ?thesis using Cons.IH Suc by simp
  qed simp
qed simp

lemma lit_step: "take (length s) xs = s \<longleftrightarrow> (\<exists>ys. xs = s @ ys)"
  by (metis append_eq_conv_conj)

lemma glob_spec_lit: "glob_spec (LitPart s # ps) xs \<longleftrightarrow> take (length s) xs = s \<and> glob_spec ps (drop (length s) xs)"
  by (auto simp: append_eq_conv_conj) (metis append_take_drop_id)

text \<open>The literal text of the parts matched since the last \<^verbatim>\<open>**\<close>.\<close>

fun lit_text :: "part list \<Rightarrow> bytes option" where
  "lit_text [] = Some []"
| "lit_text (LitPart s # ps) = map_option ((@) s) (lit_text ps)"
| "lit_text (_ # ps) = None"

lemma lit_text_snoc: "lit_text ps = Some t \<Longrightarrow> lit_text (ps @ [LitPart s]) = Some (t @ s)"
  by (induction ps arbitrary: t rule: lit_text.induct) auto

lemma glob_spec_lit_text: "lit_text ps = Some t \<Longrightarrow> glob_spec (ps @ qs) xs \<Longrightarrow> \<exists>ys. xs = t @ ys \<and> glob_spec qs ys"
  by (induction ps arbitrary: t xs rule: lit_text.induct) auto

text \<open>What the loop decides.\<close>

lemma match_loop_spec:
  assumes "segments_first qs" "bt \<noteq> None \<Longrightarrow> no_segments qs" "p \<le> length qs"
    "\<And>again. bt = Some again \<Longrightarrow> \<exists>t. lit_text (take p qs) = Some t \<and> again = t @ input"
  shows "match_loop qs p bt input \<longleftrightarrow>
     glob_spec (drop p qs) input \<or> (\<exists>again zs. bt = Some again \<and> strict_suffix zs again \<and> glob_spec qs zs)"
  using assms
proof (induction qs p bt input rule: match_loop.induct)
  case (1 qs p bt input)
  let ?retry = "\<exists>again zs. bt = Some again \<and> strict_suffix zs again \<and> glob_spec qs zs"
  have retry: "(case bt of None \<Rightarrow> False | Some [] \<Rightarrow> False
      | Some (b # again) \<Rightarrow> match_loop qs 0 (Some again) again) \<longleftrightarrow> ?retry"
    if ih: "\<And>b again. bt = Some (b # again) \<Longrightarrow>
        match_loop qs 0 (Some again) again \<longleftrightarrow> glob_spec qs again \<or> (\<exists>zs. strict_suffix zs again \<and> glob_spec qs zs)"
  proof (cases bt)
    case (Some w)
    show ?thesis
    proof (cases w)
      case Nil
      then show ?thesis using Some by (simp add: strict_suffix_def)
    next
      case (Cons b again)
      have "strict_suffix zs (b # again) \<longleftrightarrow> zs = again \<or> strict_suffix zs again" for zs
        by (auto simp: strict_suffix_def suffix_Cons)
           (metis append_Cons append_eq_append_conv not_Cons_self2 suffix_def suffix_length_le impossible_Cons)+
      then show ?thesis using ih Some Cons by auto
    qed
  qed simp
  consider (fin) "length qs \<le> p" "input = []"
    | (lit) s where "p < length qs" "qs ! p = LitPart s" "take (length s) input = s"
    | (seg) "p < length qs" "qs ! p = AnySegment"
    | (star) "p < length qs" "qs ! p = AnyChars"
    | (miss) "\<not> (length qs \<le> p \<and> input = [])" "lit_here qs p input = None"
        "\<not> (p < length qs \<and> qs ! p = AnySegment)" "\<not> (p < length qs \<and> qs ! p = AnyChars)"
    using lit_here_Some [of qs p input] by (cases "lit_here qs p input") auto
  then show ?case
  proof cases
    case fin
    then show ?thesis by (subst match_loop.simps) simp
  next
    case lit
    have d: "drop p qs = LitPart s # drop (Suc p) qs" using lit Cons_nth_drop_Suc [OF lit(1)] by simp
    have c: "\<not> (length qs \<le> p \<and> input = [])" "lit_here qs p input = Some (drop (length s) input)"
      using lit by (auto simp: lit_here_Some)
    have "match_loop qs p bt input = match_loop qs (p + 1) bt (drop (length s) input)"
      using c by (subst match_loop.simps) auto
    also have "\<dots> \<longleftrightarrow> glob_spec (drop (Suc p) qs) (drop (length s) input) \<or> ?retry"
    proof -
      have inv: "\<exists>t. lit_text (take (p + 1) qs) = Some t \<and> again = t @ drop (length s) input" if b: "bt = Some again" for again
      proof -
        obtain t where t: "lit_text (take p qs) = Some t" "again = t @ input" using "1.prems"(4) [OF b] by blast
        have "take (p + 1) qs = take p qs @ [LitPart s]" using lit(1,2) by (simp add: take_Suc_conv_app_nth)
        then have "lit_text (take (p + 1) qs) = Some (t @ s)" using lit_text_snoc [OF t(1)] by simp
        moreover have "again = (t @ s) @ drop (length s) input" using t(2) lit(3) by (metis append.assoc append_take_drop_id)
        ultimately show ?thesis by blast
      qed
      show ?thesis
        using "1.IH"(4) [OF c "1.prems"(1,2)] lit inv by simp
    qed
    also have "glob_spec (drop (Suc p) qs) (drop (length s) input) \<longleftrightarrow> glob_spec (drop p qs) input"
      unfolding d glob_spec_lit using lit(3) by simp
    finally show ?thesis .
  next
    case seg
    have d: "drop p qs = AnySegment # drop (Suc p) qs" using seg Cons_nth_drop_Suc [OF seg(1)] by simp
    have "AnySegment \<in> set qs" using seg by (metis nth_mem)
    then have bt: "bt = None" using "1.prems"(2) no_segments_set by blast
    have c: "\<not> (length qs \<le> p \<and> input = [])" "lit_here qs p input = None"
      "p < length qs \<and> qs ! p = AnySegment" using seg by (auto simp: lit_here_def)
    have ih: "match_loop (drop (p + 1) qs) 0 None (drop n input) = glob_spec (drop (Suc p) qs) (drop n input)"
      if "n \<in> set (rev [1..<Suc (segment_len input)])" for n
      using "1.IH"(1) [OF c that] "1.prems"(1) by (simp add: segments_first_drop)
    have "match_loop qs p bt input =
        list_ex (\<lambda>n. match_loop (drop (p + 1) qs) 0 None (drop n input)) (rev [1..<Suc (segment_len input)])"
      using c by (subst match_loop.simps) auto
    also have "\<dots> \<longleftrightarrow> (\<exists>n \<in> {1..<Suc (segment_len input)}. glob_spec (drop (Suc p) qs) (drop n input))"
      using ih by (auto simp: list_ex_iff simp del: upt_Suc)
    also have "\<dots> \<longleftrightarrow> glob_spec (drop p qs) input"
      unfolding d by (simp only: segment_splits glob_spec.simps)
    finally show ?thesis using bt by simp
  next
    case star
    have d: "drop p qs = AnyChars # drop (Suc p) qs" using star Cons_nth_drop_Suc [OF star(1)] by simp
    have c: "\<not> (length qs \<le> p \<and> input = [])" "lit_here qs p input = None"
      "\<not> (p < length qs \<and> qs ! p = AnySegment)" "p < length qs \<and> qs ! p = AnyChars" using star by (auto simp: lit_here_def)
    have "segments_first (AnyChars # drop (Suc p) qs)" using "1.prems"(1) segments_first_drop d by metis
    then have ns: "no_segments (drop (Suc p) qs)" by simp
    have "match_loop qs p bt input = match_loop (drop (p + 1) qs) 0 (Some input) input"
      using c by (subst match_loop.simps) auto
    also have "\<dots> \<longleftrightarrow> glob_spec (drop (Suc p) qs) input \<or> (\<exists>zs. strict_suffix zs input \<and> glob_spec (drop (Suc p) qs) zs)"
      using "1.IH"(2) [OF c] ns no_segments_first by simp
    also have "\<dots> \<longleftrightarrow> glob_spec (drop p qs) input"
      unfolding d by (auto simp: strict_suffix_def)
    finally have *: "match_loop qs p bt input = glob_spec (drop p qs) input" .
    have "glob_spec (drop p qs) input" if again: ?retry
    proof -
      obtain again zs where z: "bt = Some again" "strict_suffix zs again" "glob_spec qs zs" using again by blast
      obtain t where t: "lit_text (take p qs) = Some t" "again = t @ input" using "1.prems"(4) [OF z(1)] by blast
      have "glob_spec (take p qs @ drop p qs) zs" using z(3) by simp
      then obtain ys where ys: "zs = t @ ys" "glob_spec (drop p qs) ys"
        using glob_spec_lit_text [OF t(1)] by blast
      have "suffix ys (t @ input)" using z(2) t(2) ys(1) by (auto simp: strict_suffix_def suffix_def)
      moreover have "length ys \<le> length input"
        using z(2) t(2) ys(1) by (auto simp: strict_suffix_def dest: suffix_length_le)
      ultimately have "suffix ys input" by (metis suffix_appendI suffix_length_suffix suffix_def)
      moreover obtain ws where "suffix ws ys" "glob_spec (drop (Suc p) qs) ws" using ys(2) d by auto
      ultimately show ?thesis unfolding d glob_spec.simps using suffix_order.trans by blast
    qed
    then show ?thesis using * by blast
  next
    case miss
    have "match_loop qs p bt input = (case bt of None \<Rightarrow> False | Some [] \<Rightarrow> False
      | Some (b # again) \<Rightarrow> match_loop qs 0 (Some again) again)"
      by (subst match_loop.simps) (simp only: miss if_False option.case)
    also have "\<dots> \<longleftrightarrow> ?retry"
    proof (rule retry)
      fix b again assume b: "bt = Some (b # again)"
      then have ns: "no_segments qs" using "1.prems"(2) by simp
      show "match_loop qs 0 (Some again) again \<longleftrightarrow> glob_spec qs again \<or> (\<exists>zs. strict_suffix zs again \<and> glob_spec qs zs)"
        using "1.IH"(3) [OF miss b refl "1.prems"(1)] ns by simp
    qed
    finally have *: "match_loop qs p bt input \<longleftrightarrow> ?retry" .
    have "\<not> glob_spec (drop p qs) input"
    proof (cases "p < length qs")
      case True
      then obtain s where s: "qs ! p = LitPart s" "take (length s) input \<noteq> s"
        using miss by (cases "qs ! p") (auto simp: lit_here_def split: if_splits)
      have "drop p qs = LitPart s # drop (Suc p) qs" using s(1) Cons_nth_drop_Suc [OF True] by simp
      then show ?thesis using s(2) by (simp only: glob_spec_lit) simp
    qed (use miss(1) "1.prems"(3) in auto)
    then show ?thesis using * by blast
  qed
qed

section \<open>Patterns and names\<close>

lemma glob_matches_spec: "segments_first g \<Longrightarrow> glob_matches g input \<longleftrightarrow> glob_spec g input"
  using match_loop_spec [of g None 0 input] by (simp add: glob_matches_def match_parts_def)

text \<open>ASCII text without a star.\<close>

definition plain_pat :: "bytes \<Rightarrow> bool" where
  "plain_pat s \<longleftrightarrow> (\<forall>b \<in> set s. b < 0x80 \<and> b \<noteq> 0x2A)"

lemma glob_parts_plain: "plain_pat s \<Longrightarrow> glob_parts buf (s @ r) = glob_parts (buf @ s) r"
  by (induction s arbitrary: buf) (auto simp: plain_pat_def push_as_char_def)

lemma glob_new_plain: "plain_pat s \<Longrightarrow> glob_new s = flush_lit s"
  using glob_parts_plain [of s "[]" "[]"] by (simp add: glob_new_def)

lemma glob_new_dir: "plain_pat s \<Longrightarrow> glob_new (s @ [0x2F, 0x2A, 0x2A]) = flush_lit s @ [AnyChars]"
proof -
  assume "plain_pat s"
  then have "plain_pat (s @ [0x2F])" by (auto simp: plain_pat_def)
  from glob_parts_plain [OF this, of "[]" "[0x2A, 0x2A]"] show ?thesis by (simp add: glob_new_def flush_lit_def)
qed

text \<open>C30. What the glob matcher of the policy decides: for every glob with no \<^verbatim>\<open>*\<close> after a \<^verbatim>\<open>**\<close>, exactly the language
  of its parts, although the matcher goes back only to the last \<^verbatim>\<open>**\<close>.  A pattern of ASCII text matches exactly
  itself.  A pattern \<^verbatim>\<open>dir/**\<close> matches every name that begins with \<^verbatim>\<open>dir\<close>, the ones outside the directory
  included (\<^verbatim>\<open>refs/heads/bot/**\<close> matches \<^verbatim>\<open>refs/heads/botnet\<close>).\<close>

theorem glob_language:
  "(segments_first g \<longrightarrow> glob_matches g input = glob_spec g input)
   \<and> (plain_pat s \<longrightarrow> glob_matches (glob_new s) input = (input = s))
   \<and> (plain_pat s \<longrightarrow> glob_matches (glob_new (s @ [0x2F, 0x2A, 0x2A])) input = prefix s input)"
proof (intro conjI)
  show "segments_first g \<longrightarrow> glob_matches g input = glob_spec g input"
    using glob_matches_spec by blast
  have lit: "flush_lit s = (if s = [] then [] else [LitPart s])" by (simp add: flush_lit_def)
  show "plain_pat s \<longrightarrow> glob_matches (glob_new s) input = (input = s)"
  proof (cases "plain_pat s")
    case True
    have "glob_matches (flush_lit s) input = glob_spec (flush_lit s) input"
      by (rule glob_matches_spec) (simp add: lit)
    then show ?thesis using glob_new_plain [OF True] by (simp add: lit)
  qed simp
  show "plain_pat s \<longrightarrow> glob_matches (glob_new (s @ [0x2F, 0x2A, 0x2A])) input = prefix s input"
  proof (cases "plain_pat s")
    case True
    have "glob_matches (flush_lit s @ [AnyChars]) input = glob_spec (flush_lit s @ [AnyChars]) input"
      by (rule glob_matches_spec) (simp add: lit)
    also have "\<dots> = prefix s input" by (auto simp: lit prefix_def)
    finally show ?thesis using glob_new_dir [OF True] by simp
  qed simp
qed

theorem glob_language_witness:
  "glob_matches (glob_new (lit ''refs/heads/bot/**'')) (lit ''refs/heads/botnet'')
   \<and> glob_matches (glob_new (lit ''src'')) (lit ''src'')"
proof -
  have p: "plain_pat (lit ''refs/heads/bot'')" "plain_pat (lit ''src'')" by (simp_all add: plain_pat_def lit_def)
  have eq: "lit ''refs/heads/bot/**'' = lit ''refs/heads/bot'' @ [0x2F, 0x2A, 0x2A]" by (simp add: lit_def)
  have "prefix (lit ''refs/heads/bot'') (lit ''refs/heads/botnet'')" by (simp add: lit_def)
  moreover have "segments_first []" by simp
  ultimately show ?thesis
    unfolding eq
    using glob_language [of "[]" "lit ''refs/heads/botnet''" "lit ''refs/heads/bot''"] p
      glob_language [of "[]" "lit ''src''" "lit ''src''"] by blast
qed

lemma push_as_char_len: "length (push_as_char b) = (if b < 0x80 then 1 else 2)"
  by (simp add: push_as_char_def)

text \<open>A pattern of text without stars that is not ASCII.\<close>

lemma glob_parts_text: "0x2A \<notin> set s \<Longrightarrow> glob_parts buf s = flush_lit (buf @ concat (map push_as_char s))"
  by (induction s arbitrary: buf) auto

lemma push_as_char_longer:
  "length s \<le> length (concat (map push_as_char s)) \<and>
   ((\<exists>b \<in> set s. \<not> b < 0x80) \<longrightarrow> length s < length (concat (map push_as_char s)))"
  by (induction s) (auto simp: push_as_char_len)

text \<open>Two ways a rule misses what it is written for.  A pattern of text with a non-ASCII character in it does not
  match its own name, nor any name of its length: a deny rule for such a branch denies nothing.  And a \<^verbatim>\<open>*\<close>
  after a \<^verbatim>\<open>**\<close> is tried only at the first place the text between them fits: the glob \<^verbatim>\<open>refs/**/r-*\<close> does not match
  \<^verbatim>\<open>refs/r-a/r-1\<close>, which is in its language.\<close>

theorem glob_misses:
  "(0x2A \<notin> set s \<and> (\<exists>b \<in> set s. 0x80 \<le> b) \<and> length input = length s \<longrightarrow> \<not> glob_matches (glob_new s) input)
   \<and> \<not> glob_matches (glob_new (lit ''refs/**/r-*'')) (lit ''refs/r-a/r-1'')
   \<and> glob_spec (glob_new (lit ''refs/**/r-*'')) (lit ''refs/r-a/r-1'')"
proof (intro conjI)
  show "0x2A \<notin> set s \<and> (\<exists>b \<in> set s. 0x80 \<le> b) \<and> length input = length s \<longrightarrow> \<not> glob_matches (glob_new s) input"
  proof (intro impI notI)
    assume "0x2A \<notin> set s \<and> (\<exists>b \<in> set s. 0x80 \<le> b) \<and> length input = length s" and m: "glob_matches (glob_new s) input"
    then have h: "0x2A \<notin> set s" "\<exists>b \<in> set s. \<not> b < 0x80" "length input = length s"
      by (auto simp: not_less)
    let ?t = "concat (map push_as_char s)"
    have longer: "length s < length ?t" using push_as_char_longer h(2) by blast
    then have "?t \<noteq> []" by force
    then have g: "glob_new s = [LitPart ?t]"
      using glob_parts_text [OF h(1), of "[]"] by (simp add: glob_new_def flush_lit_def del: concat_eq_Nil_conv)
    have "segments_first [LitPart ?t]" by simp
    then have "glob_spec [LitPart ?t] input" using m glob_matches_spec g by metis
    then show False using longer h(3) by simp
  qed
  have g: "glob_new (lit ''refs/**/r-*'') = [LitPart (lit ''refs''), AnyChars, LitPart (lit ''r-''), AnySegment]"
    by (simp add: glob_new_def flush_lit_def lit_def push_as_char_def)
  show "\<not> glob_matches (glob_new (lit ''refs/**/r-*'')) (lit ''refs/r-a/r-1'')"
    unfolding g by (simp add: glob_matches_def match_parts_def match_loop.simps lit_here_def segment_len_def lit_def)
  have "suffix (lit ''r-1'') (lit ''/r-a/r-1'')" by (simp add: lit_def suffix_Cons)
  moreover have "glob_spec [LitPart (lit ''r-''), AnySegment] (lit ''r-1'')"
    by (simp add: lit_def)
  ultimately show "glob_spec (glob_new (lit ''refs/**/r-*'')) (lit ''refs/r-a/r-1'')"
    unfolding g by (auto simp: lit_def)
qed

theorem glob_misses_witness:
  "\<not> glob_matches (glob_new [0xC3, 0xA9]) [0xC3, 0xA9]"
  using glob_misses [of "[0xC3, 0xA9]" "[0xC3, 0xA9]"] by simp

end
