(* ===== verification/Policy.thy ===== *)
theory Policy
  imports Policy_Glob Line_Diff
begin

text \<open>
  Who writes and what they may write: principals and the actor field of the operation log
  (\<^verbatim>\<open>alt-cli/src/native/identity.rs\<close>), and the capability policy, its file format and its
  checks (\<^verbatim>\<open>alt-cli/src/policy.rs\<close>).  The process environment is the lookup function the
  code takes, and reading the policy file is its outcome.
\<close>

section \<open>Principals\<close>

datatype principal_kind = Human | Agent

definition kind_as_str :: "principal_kind \<Rightarrow> bytes" where
  "kind_as_str k = (case k of Human \<Rightarrow> lit ''human'' | Agent \<Rightarrow> lit ''agent'')"

definition kind_parse :: "bytes \<Rightarrow> principal_kind option" where
  "kind_parse s = (if s = lit ''human'' then Some Human else if s = lit ''agent'' then Some Agent else None)"

record principal =
  pr_kind :: principal_kind
  pr_id :: bytes
  pr_session :: "bytes option"

text \<open>\<^verbatim>\<open>s.replace([';', ':'], "_")\<close>\<close>

definition sanitize :: "bytes \<Rightarrow> bytes" where
  "sanitize s = map (\<lambda>b. if b = 0x3B \<or> b = 0x3A then 0x5F else b) s"

definition actor_string :: "principal \<Rightarrow> bytes \<Rightarrow> bytes \<Rightarrow> bytes" where
  "actor_string p user verb =
     kind_as_str (pr_kind p) @ 0x3A # sanitize (pr_id p)
       @ (case pr_session p of None \<Rightarrow> [] | Some s \<Rightarrow> lit '';session:'' @ sanitize s)
       @ lit '';user:'' @ sanitize user @ lit '';verb:'' @ sanitize verb"

definition actor_field :: "bytes \<Rightarrow> principal \<times> bytes \<Rightarrow> principal \<times> bytes" where
  "actor_field kv pv =
     (case split_first 0x3A kv of
        None \<Rightarrow> pv
      | Some (k, v) \<Rightarrow>
          if k = lit ''session'' then ((fst pv)\<lparr>pr_session := Some v\<rparr>, snd pv)
          else if k = lit ''verb'' then (fst pv, v) else pv)"

definition parse_structured_actor :: "bytes \<Rightarrow> principal \<times> bytes" where
  "parse_structured_actor s =
     (let parts = split_on 0x3B s; head_part = hd parts;
          (kind_str, ident) =
            (case split_first 0x3A head_part of Some (k, i) \<Rightarrow> (k, i) | None \<Rightarrow> (lit ''human'', head_part));
          kind = (case kind_parse kind_str of Some k \<Rightarrow> k | None \<Rightarrow> Human)
      in fold actor_field (tl parts) (\<lparr>pr_kind = kind, pr_id = ident, pr_session = None\<rparr>, []))"

definition parse_actor :: "bytes \<Rightarrow> principal \<times> bytes" where
  "parse_actor s =
     (case Option.bind (strip_prefix (lit ''cli/'') s) (split_first 0x40) of
        Some (verb, user) \<Rightarrow> (\<lparr>pr_kind = Human, pr_id = user, pr_session = None\<rparr>, verb)
      | None \<Rightarrow> parse_structured_actor s)"

text \<open>The caller's identity, from the environment of the process or of the request.\<close>

record identity =
  idt_principal :: principal
  idt_user :: bytes
  idt_author_name :: bytes
  idt_author_email :: bytes
  idt_controlling :: "bytes option"

definition identity_from_lookup :: "(bytes \<Rightarrow> bytes option) \<Rightarrow> identity" where
  "identity_from_lookup get =
     (let user = (case get (lit ''USER'') of Some u \<Rightarrow> u | None \<Rightarrow> lit ''unknown'');
          kind = (case Option.bind (get (lit ''ALT_PRINCIPAL_KIND'')) kind_parse of Some k \<Rightarrow> k | None \<Rightarrow> Human);
          ident = (case get (lit ''ALT_PRINCIPAL_ID'') of Some i \<Rightarrow> i | None \<Rightarrow> user);
          session = get (lit ''ALT_SESSION_ID'');
          author_name = (case get (lit ''GIT_AUTHOR_NAME'') of Some n \<Rightarrow> n
            | None \<Rightarrow> (case get (lit ''USER'') of Some n \<Rightarrow> n | None \<Rightarrow> lit ''alt''));
          author_email = (case get (lit ''GIT_AUTHOR_EMAIL'') of Some e \<Rightarrow> e
            | None \<Rightarrow> author_name @ lit ''@localhost'')
      in \<lparr>idt_principal = \<lparr>pr_kind = kind, pr_id = ident, pr_session = session\<rparr>, idt_user = user,
          idt_author_name = author_name, idt_author_email = author_email,
          idt_controlling = (case get (lit ''ALT_CONTROLLING'') of Some v \<Rightarrow> if v = [] then None else Some v
                             | None \<Rightarrow> None)\<rparr>)"

definition identity_from_map :: "(bytes \<times> bytes) list \<Rightarrow> identity" where
  "identity_from_map env = identity_from_lookup (map_of env)"

definition identity_actor :: "identity \<Rightarrow> bytes \<Rightarrow> bytes" where
  "identity_actor i verb = actor_string (idt_principal i) (idt_user i) verb"

definition identity_sig :: "identity \<Rightarrow> bytes \<times> bytes" where
  "identity_sig i = (idt_author_name i, idt_author_email i)"

section \<open>Capabilities\<close>

record capabilities =
  cap_read_only :: bool
  cap_branch_allow :: "glob list"
  cap_branch_deny :: "glob list"
  cap_path_allow :: "glob list"
  cap_forbid_force :: bool
  cap_require_signed :: bool
  cap_require_signed_commits :: bool

definition capabilities_full :: capabilities where
  "capabilities_full =
     \<lparr>cap_read_only = False, cap_branch_allow = [], cap_branch_deny = [], cap_path_allow = [],
      cap_forbid_force = False, cap_require_signed = False, cap_require_signed_commits = False\<rparr>"

definition any_match :: "glob list \<Rightarrow> bytes \<Rightarrow> bool" where
  "any_match gs name = list_ex (\<lambda>g. glob_matches g name) gs"

definition allows_branch_name :: "capabilities \<Rightarrow> bytes \<Rightarrow> bool" where
  "allows_branch_name c name =
     (if cap_branch_allow c \<noteq> [] \<and> \<not> any_match (cap_branch_allow c) name then False
      else \<not> any_match (cap_branch_deny c) name)"

definition allows_branch :: "capabilities \<Rightarrow> bytes \<Rightarrow> bool" where
  "allows_branch c name = (if cap_read_only c then False else allows_branch_name c name)"

definition allows_path_name :: "capabilities \<Rightarrow> bytes \<Rightarrow> bool" where
  "allows_path_name c path = (if cap_path_allow c = [] then True else any_match (cap_path_allow c) path)"

definition allows_path :: "capabilities \<Rightarrow> bytes \<Rightarrow> bool" where
  "allows_path c path = (if cap_read_only c then False else allows_path_name c path)"

section \<open>The policy file\<close>

record rule =
  rule_principal :: glob
  rule_caps :: capabilities

type_synonym policy = "rule list"

datatype syntax_msg = MissingArrow | UnknownToken bytes

datatype policy_error = PolicyIo | PolicySyntax nat syntax_msg

text \<open>\<^verbatim>\<open>str::lines\<close> and \<^verbatim>\<open>split_once\<close> on a string.\<close>

definition str_lines :: "bytes \<Rightarrow> bytes list" where
  "str_lines s =
     map (\<lambda>l. if l \<noteq> [] \<and> last l = 0x0A
               then (let l' = butlast l in if l' \<noteq> [] \<and> last l' = 0x0D then butlast l' else l') else l)
       (split_lines s)"

fun split_once :: "bytes \<Rightarrow> bytes \<Rightarrow> (bytes \<times> bytes) option" where
  "split_once pat s =
     (case strip_prefix pat s of
        Some r \<Rightarrow> Some ([], r)
      | None \<Rightarrow> (case s of [] \<Rightarrow> None | b # s' \<Rightarrow> map_option (\<lambda>(l, r). (b # l, r)) (split_once pat s')))"

declare split_once.simps [simp del]

definition cap_token :: "capabilities \<Rightarrow> bytes \<Rightarrow> capabilities option" where
  "cap_token caps tok =
     (if tok = lit ''read-only'' then Some (caps\<lparr>cap_read_only := True\<rparr>)
      else if tok = lit ''forbid-force'' then Some (caps\<lparr>cap_forbid_force := True\<rparr>)
      else if tok = lit ''require-signed'' then Some (caps\<lparr>cap_require_signed := True\<rparr>)
      else if tok = lit ''require-signed-commits'' then Some (caps\<lparr>cap_require_signed_commits := True\<rparr>)
      else case strip_prefix (lit ''branch='') tok of
             Some v \<Rightarrow> Some (caps\<lparr>cap_branch_allow := cap_branch_allow caps @ [glob_new v]\<rparr>)
           | None \<Rightarrow>
             (case strip_prefix (lit ''branch_deny='') tok of
                Some v \<Rightarrow> Some (caps\<lparr>cap_branch_deny := cap_branch_deny caps @ [glob_new v]\<rparr>)
              | None \<Rightarrow>
                (case strip_prefix (lit ''path='') tok of
                   Some v \<Rightarrow> Some (caps\<lparr>cap_path_allow := cap_path_allow caps @ [glob_new v]\<rparr>)
                 | None \<Rightarrow> None)))"

fun parse_tokens :: "nat \<Rightarrow> capabilities \<Rightarrow> bytes list \<Rightarrow> policy_error + capabilities" where
  "parse_tokens line_no caps [] = Inr caps"
| "parse_tokens line_no caps (tok # toks) =
     (case cap_token caps tok of
        Some caps' \<Rightarrow> parse_tokens line_no caps' toks
      | None \<Rightarrow> Inl (PolicySyntax line_no (UnknownToken tok)))"

definition parse_caps :: "bytes \<Rightarrow> nat \<Rightarrow> policy_error + capabilities" where
  "parse_caps spec line_no = parse_tokens line_no capabilities_full (split_whitespace spec)"

text \<open>One line of the file: nothing, an error or a rule.\<close>

definition policy_line :: "nat \<Rightarrow> bytes \<Rightarrow> policy_error + rule option" where
  "policy_line line_no raw =
     (let line = trim raw in
      if line = [] \<or> hd line = 0x23 then Inr None
      else case split_once (lit ''->'') line of
             None \<Rightarrow> Inl (PolicySyntax line_no MissingArrow)
           | Some (lhs, rhs) \<Rightarrow>
               bindR (parse_caps (trim rhs) line_no) (\<lambda>caps.
                 Inr (Some \<lparr>rule_principal = glob_new (trim lhs), rule_caps = caps\<rparr>)))"

fun policy_lines :: "nat \<Rightarrow> bytes list \<Rightarrow> policy_error + policy" where
  "policy_lines n [] = Inr []"
| "policy_lines n (raw # raws) =
     bindR (policy_line (n + 1) raw) (\<lambda>r. bindR (policy_lines (n + 1) raws) (\<lambda>rs.
       Inr (case r of None \<Rightarrow> rs | Some rule \<Rightarrow> rule # rs)))"

definition policy_parse :: "bytes \<Rightarrow> policy_error + policy" where
  "policy_parse s = policy_lines 0 (str_lines s)"

definition policy_empty :: policy where
  "policy_empty = []"

text \<open>\<^verbatim>\<open>fs::read_to_string\<close>: the bytes of the file, that there is none, or another error.\<close>

datatype file_read = FileBytes bytes | FileMissing | FileFailed

definition policy_load :: "file_read \<Rightarrow> policy_error + policy" where
  "policy_load r =
     (case r of
        FileBytes s \<Rightarrow> if utf8 s then policy_parse s else Inl PolicyIo
      | FileMissing \<Rightarrow> Inr policy_empty
      | FileFailed \<Rightarrow> Inl PolicyIo)"

definition principal_target :: "principal \<Rightarrow> bytes" where
  "principal_target p = kind_as_str (pr_kind p) @ 0x3A # pr_id p"

fun policy_lookup_target :: "policy \<Rightarrow> bytes \<Rightarrow> capabilities" where
  "policy_lookup_target [] target = capabilities_full"
| "policy_lookup_target (r # rs) target =
     (if glob_matches (rule_principal r) target then rule_caps r else policy_lookup_target rs target)"

definition policy_lookup :: "policy \<Rightarrow> principal \<Rightarrow> capabilities" where
  "policy_lookup rules p = policy_lookup_target rules (principal_target p)"

section \<open>The actor field\<close>

lemma sanitize_clean: "0x3B \<notin> set (sanitize s)" "0x3A \<notin> set (sanitize s)"
  by (auto simp: sanitize_def)

lemma sanitize_id: "0x3B \<notin> set s \<Longrightarrow> 0x3A \<notin> set s \<Longrightarrow> sanitize s = s"
  by (induction s) (auto simp: sanitize_def)

definition actor_parts :: "principal \<Rightarrow> bytes \<Rightarrow> bytes \<Rightarrow> bytes list" where
  "actor_parts p user verb =
     (kind_as_str (pr_kind p) @ 0x3A # sanitize (pr_id p))
       # (case pr_session p of None \<Rightarrow> [] | Some s \<Rightarrow> [lit ''session'' @ 0x3A # sanitize s])
       @ [lit ''user'' @ 0x3A # sanitize user, lit ''verb'' @ 0x3A # sanitize verb]"

lemma actor_string_parts: "actor_string p user verb = join_with [0x3B] (actor_parts p user verb)"
  by (simp add: actor_string_def actor_parts_def lit_def split: option.split)

lemma actor_parts_clean: "\<forall>l \<in> set (actor_parts p user verb). 0x3B \<notin> set l"
  using sanitize_clean
  by (auto simp: actor_parts_def kind_as_str_def lit_def split: option.splits principal_kind.splits)

lemma kind_str_clean: "0x3A \<notin> set (kind_as_str k)"
  by (cases k) (simp_all add: kind_as_str_def lit_def)

lemma kind_parse_str [simp]: "kind_parse (kind_as_str k) = Some k"
  by (cases k) (simp_all add: kind_as_str_def kind_parse_def lit_def)

lemma not_legacy: "strip_prefix (lit ''cli/'') (actor_string p user verb) = None"
  by (cases "pr_kind p") (simp_all add: actor_string_def kind_as_str_def lit_def)

lemma actor_field_known:
  "actor_field (lit ''session'' @ 0x3A # v) (p, w) = (p\<lparr>pr_session := Some v\<rparr>, w)"
  "actor_field (lit ''user'' @ 0x3A # v) (p, w) = (p, w)"
  "actor_field (lit ''verb'' @ 0x3A # v) (p, w) = (p, v)"
proof -
  have s: "split_first 0x3A (lit ''session'' @ 0x3A # v) = Some (lit ''session'', v)"
    "split_first 0x3A (lit ''user'' @ 0x3A # v) = Some (lit ''user'', v)"
    "split_first 0x3A (lit ''verb'' @ 0x3A # v) = Some (lit ''verb'', v)"
    by (rule split_first_append, simp add: lit_def)+
  show "actor_field (lit ''session'' @ 0x3A # v) (p, w) = (p\<lparr>pr_session := Some v\<rparr>, w)"
    "actor_field (lit ''user'' @ 0x3A # v) (p, w) = (p, w)"
    "actor_field (lit ''verb'' @ 0x3A # v) (p, w) = (p, v)"
    unfolding actor_field_def s by (simp_all add: lit_def)
qed

text \<open>The actor field of the log reads back: parsing what \<^verbatim>\<open>actor_string\<close> writes gives the kind, the id, the
  session and the verb with every \<^verbatim>\<open>:\<close> and \<^verbatim>\<open>;\<close> in them replaced, so no value can forge a field of another, and
  values without those characters come back unchanged.\<close>

theorem actor_reads_back:
  "parse_actor (actor_string p user verb) =
     (\<lparr>pr_kind = pr_kind p, pr_id = sanitize (pr_id p), pr_session = map_option sanitize (pr_session p)\<rparr>, sanitize verb)
   \<and> (0x3B \<notin> set s \<and> 0x3A \<notin> set s \<longrightarrow> sanitize s = s)"
proof
  let ?parts = "actor_parts p user verb"
  have "split_on 0x3B (actor_string p user verb) = ?parts"
    unfolding actor_string_parts by (rule split_on_join) (use actor_parts_clean in \<open>auto simp: actor_parts_def\<close>)
  moreover have "split_first 0x3A (hd ?parts) = Some (kind_as_str (pr_kind p), sanitize (pr_id p))"
    unfolding actor_parts_def list.sel by (rule split_first_append [OF kind_str_clean])
  ultimately have "parse_structured_actor (actor_string p user verb) =
      fold actor_field (tl ?parts) (\<lparr>pr_kind = pr_kind p, pr_id = sanitize (pr_id p), pr_session = None\<rparr>, [])"
    by (simp add: parse_structured_actor_def Let_def)
  also have "\<dots> = (\<lparr>pr_kind = pr_kind p, pr_id = sanitize (pr_id p), pr_session = map_option sanitize (pr_session p)\<rparr>, sanitize verb)"
    by (cases "pr_session p") (simp_all add: actor_parts_def actor_field_known del: lit_def)
  finally show "parse_actor (actor_string p user verb) =
     (\<lparr>pr_kind = pr_kind p, pr_id = sanitize (pr_id p), pr_session = map_option sanitize (pr_session p)\<rparr>, sanitize verb)"
    by (simp add: parse_actor_def not_legacy del: lit_def)
qed (use sanitize_id in blast)

theorem actor_reads_back_witness:
  "parse_actor (actor_string \<lparr>pr_kind = Agent, pr_id = lit ''bot'', pr_session = None\<rparr> (lit ''u'') (lit ''push''))
     = (\<lparr>pr_kind = Agent, pr_id = lit ''bot'', pr_session = None\<rparr>, sanitize (lit ''push''))"
proof -
  have "0x3B \<notin> set (lit ''bot'') \<and> 0x3A \<notin> set (lit ''bot'')" by (simp add: lit_def)
  then show ?thesis
    using actor_reads_back [of "\<lparr>pr_kind = Agent, pr_id = lit ''bot'', pr_session = None\<rparr>" "lit ''u''" "lit ''push''" "lit ''bot''"]
    by simp
qed

section \<open>Reading a policy\<close>

definition line_rules :: "nat \<Rightarrow> bytes \<Rightarrow> policy" where
  "line_rules n raw = (case policy_line n raw of Inr (Some r) \<Rightarrow> [r] | _ \<Rightarrow> [])"

lemma policy_lines_known:
  "case policy_lines n raws of
     Inr rules \<Rightarrow> rules = concat (map (\<lambda>i. line_rules (n + i + 1) (raws ! i)) [0..<length raws])
       \<and> (\<forall>i<length raws. \<exists>r. policy_line (n + i + 1) (raws ! i) = Inr r)
   | Inl e \<Rightarrow> \<exists>i<length raws. policy_line (n + i + 1) (raws ! i) = Inl e
       \<and> (\<forall>j<i. \<exists>r. policy_line (n + j + 1) (raws ! j) = Inr r)"
proof (induction raws arbitrary: n)
  case (Cons raw raws)
  have shift: "map (\<lambda>i. line_rules (n + i + 1) ((raw # raws) ! i)) [0..<length (raw # raws)] =
      line_rules (n + 1) raw # map (\<lambda>i. line_rules (n + 1 + i + 1) (raws ! i)) [0..<length raws]"
    by (simp add: upt_conv_Cons map_Suc_upt [symmetric] comp_def del: upt_Suc map_Suc_upt)
  show ?case
  proof (cases "policy_line (n + 1) raw")
    case (Inl e)
    then show ?thesis by (auto intro!: exI [of _ 0])
  next
    case (Inr r)
    show ?thesis
    proof (cases "policy_lines (n + 1) raws")
      case (Inl e)
      then obtain i where i: "i < length raws" "policy_line (n + 1 + i + 1) (raws ! i) = Inl e"
        "\<forall>j<i. \<exists>r. policy_line (n + 1 + j + 1) (raws ! j) = Inr r"
        using Cons.IH [where n = "n + 1"] by auto
      have "\<exists>r. policy_line (n + j + 1) ((raw # raws) ! j) = Inr r" if "j < Suc i" for j
        using that i(3) Inr by (cases j) auto
      then show ?thesis using i(1,2) Inl Inr by (intro sum.case_eq_if [THEN iffD2]) (auto intro!: exI [of _ "Suc i"])
    next
      case rs: (Inr rs)
      then have ih: "rs = concat (map (\<lambda>i. line_rules (n + 1 + i + 1) (raws ! i)) [0..<length raws])"
        "\<forall>i<length raws. \<exists>r. policy_line (n + 1 + i + 1) (raws ! i) = Inr r"
        using Cons.IH [where n = "n + 1"] by auto
      have "\<exists>r. policy_line (n + i + 1) ((raw # raws) ! i) = Inr r" if "i < length (raw # raws)" for i
        using that ih(2) Inr by (cases i) auto
      moreover have "policy_lines n (raw # raws) = Inr (line_rules (n + 1) raw @ rs)"
        using Inr rs by (cases r) (simp_all add: line_rules_def)
      ultimately show ?thesis unfolding shift using ih(1) by simp
    qed
  qed
qed simp

lemma policy_line_syntax: "policy_line n raw = Inl e \<Longrightarrow> \<exists>m. e = PolicySyntax n m"
proof -
  have tok: "parse_tokens n caps toks = Inl e \<Longrightarrow> \<exists>m. e = PolicySyntax n m" for caps toks
    by (induction n caps toks rule: parse_tokens.induct) (auto split: option.splits)
  show "policy_line n raw = Inl e \<Longrightarrow> \<exists>m. e = PolicySyntax n m"
    using tok by (auto simp: policy_line_def Let_def parse_caps_def bindR_eq_Inl split: if_splits option.splits)
qed



text \<open>The checks of a capability set: a denied name is refused whatever the allow list says, an empty list is no
  constraint, and a read-only principal is refused everything.\<close>

lemma allows_branch_iff:
  "allows_branch c name \<longleftrightarrow> \<not> cap_read_only c \<and> \<not> any_match (cap_branch_deny c) name \<and>
     (cap_branch_allow c = [] \<or> any_match (cap_branch_allow c) name)"
  by (auto simp: allows_branch_def allows_branch_name_def)

end
