(* ===== verification/Flow.thy ===== *)
theory Flow
  imports Rust_Str
begin

text \<open>
  The git-flow branch model of \<^verbatim>\<open>alt-flow/src/lib.rs\<close>: the long-lived branches, the
  prefixes of the topic branches, and where each flow starts and ends.
\<close>

record branch_model =
  bm_main :: bytes
  bm_develop :: bytes
  bm_feature_prefix :: bytes
  bm_release_prefix :: bytes
  bm_hotfix_prefix :: bytes

definition branch_model_default :: branch_model where
  "branch_model_default =
     \<lparr>bm_main = lit ''master'', bm_develop = lit ''develop'', bm_feature_prefix = lit ''feature/'',
      bm_release_prefix = lit ''release/'', bm_hotfix_prefix = lit ''hotfix/''\<rparr>"

datatype flow_error = BadName bytes

record flow =
  fl_branch :: bytes
  fl_base :: bytes
  fl_target :: bytes

definition for_repo :: "(bytes \<Rightarrow> bool) \<Rightarrow> branch_model" where
  "for_repo has_branch =
     (if \<not> has_branch (lit ''master'') \<and> has_branch (lit ''main'')
      then branch_model_default\<lparr>bm_main := lit ''main''\<rparr> else branch_model_default)"

fun two_dots :: "bytes \<Rightarrow> bool" where
  "two_dots (a # b # r) \<longleftrightarrow> a = 0x2E \<and> b = 0x2E \<or> two_dots (b # r)"
| "two_dots _ = False"

definition check_name :: "bytes \<Rightarrow> flow_error + bytes" where
  "check_name name =
     (if name = [] \<or> hd name = 0x2E \<or> 0x2F \<in> set name \<or> two_dots name
         \<or> list_ex (\<lambda>b. b \<le> 0x20 \<or> b = 0x7F) name
      then Inl (BadName name) else Inr name)"

definition flow_feature :: "branch_model \<Rightarrow> bytes \<Rightarrow> flow_error + flow" where
  "flow_feature m name = bindR (check_name name) (\<lambda>n.
     Inr \<lparr>fl_branch = bm_feature_prefix m @ n, fl_base = bm_develop m, fl_target = bm_develop m\<rparr>)"

definition flow_release :: "branch_model \<Rightarrow> bytes \<Rightarrow> flow_error + flow" where
  "flow_release m name = bindR (check_name name) (\<lambda>n.
     Inr \<lparr>fl_branch = bm_release_prefix m @ n, fl_base = bm_develop m, fl_target = bm_main m\<rparr>)"

definition flow_hotfix :: "branch_model \<Rightarrow> bytes \<Rightarrow> flow_error + flow" where
  "flow_hotfix m name = bindR (check_name name) (\<lambda>n.
     Inr \<lparr>fl_branch = bm_hotfix_prefix m @ n, fl_base = bm_main m, fl_target = bm_main m\<rparr>)"

text \<open>A topic branch of a repository's model is none of its long-lived branches, and no topic branch is one of
  another kind.\<close>

lemma flow_branches:
  assumes "m = for_repo has_branch"
  shows "flow_feature m name = Inr f \<Longrightarrow> fl_branch f \<noteq> bm_main m \<and> fl_branch f \<noteq> bm_develop m"
    "flow_release m name = Inr f \<Longrightarrow> fl_branch f \<noteq> bm_main m \<and> fl_branch f \<noteq> bm_develop m"
    "flow_hotfix m name = Inr f \<Longrightarrow> fl_branch f \<noteq> bm_main m \<and> fl_branch f \<noteq> bm_develop m"
  using assms
  by (auto simp: flow_feature_def flow_release_def flow_hotfix_def bindR_eq_Inr for_repo_def branch_model_default_def
      split: if_splits)

lemma flow_names_disjoint:
  assumes "m = for_repo has_branch" "flow_feature m x = Inr f" "flow_release m y = Inr g" "flow_hotfix m z = Inr h"
  shows "fl_branch f \<noteq> fl_branch g \<and> fl_branch f \<noteq> fl_branch h \<and> fl_branch g \<noteq> fl_branch h"
  using assms
  by (auto simp: flow_feature_def flow_release_def flow_hotfix_def bindR_eq_Inr for_repo_def branch_model_default_def
      split: if_splits)

end
