(* ===== verification/Write_Gate.thy ===== *)
theory Write_Gate
  imports Policy Flow Ref_Store Git_Object
begin

text \<open>
  The gates a write passes before it reaches the ref store
  (\<^verbatim>\<open>alt-cli/src/native.rs\<close>, \<^verbatim>\<open>alt-cli/src/native/workspace.rs\<close>): read-only, no
  force, the branch globs, one workspace per branch, the protected branches of
  the flow model, and the checks of a push.  The object database is a function
  from ids to commit bytes; the signature sidecar is the text that signing
  appends, which is a parameter.
\<close>

datatype gate_error =
    GateReadOnly bytes
  | GateForce bytes
  | GateNotFastForward bytes
  | GateNotInOdb bytes object_id
  | GateMissingCommit object_id
  | GateCommitParse object_parse_error
  | GateRef ref_error
  | GatePushDenied bytes
  | GatePushNotAllowed bytes
  | GatePath bytes
  | GateDetached
  | GateProtected bytes bytes

type_synonym commit_reader = "object_id \<Rightarrow> bytes option"

section \<open>Ancestry\<close>

text \<open>One turn of the depth-first search of \<^verbatim>\<open>is_ancestor\<close>; the top of the stack is the head of the list.\<close>

datatype ancestor_step = AncestorDone "gate_error + bool" | AncestorGo "object_id list" "object_id list"

definition ancestor_turn ::
  "commit_reader \<Rightarrow> object_id \<Rightarrow> object_id list \<Rightarrow> object_id list \<Rightarrow> ancestor_step" where
  "ancestor_turn read old seen stack =
     (case stack of
        [] \<Rightarrow> AncestorDone (Inr False)
      | c # rest \<Rightarrow>
          if c \<in> set seen then AncestorGo seen rest
          else if c = old then AncestorDone (Inr True)
          else (case read c of
                  None \<Rightarrow> AncestorDone (Inl (GateMissingCommit c))
                | Some data \<Rightarrow>
                    (case commit_parse data of
                       Inl e \<Rightarrow> AncestorDone (Inl (GateCommitParse e))
                     | Inr commit \<Rightarrow> AncestorGo (c # seen) (rev (commit_parents commit) @ rest))))"

text \<open>The search has no bound of its own, so it is a partial function; that it returns on every finite
  database is proved.\<close>

partial_function (option) ancestor_loop ::
  "commit_reader \<Rightarrow> object_id \<Rightarrow> object_id list \<Rightarrow> object_id list \<Rightarrow> (gate_error + bool) option" where
  "ancestor_loop read old seen stack =
     (case ancestor_turn read old seen stack of
        AncestorDone r \<Rightarrow> Some r
      | AncestorGo seen' stack' \<Rightarrow> ancestor_loop read old seen' stack')"

definition is_ancestor :: "commit_reader \<Rightarrow> object_id \<Rightarrow> object_id \<Rightarrow> (gate_error + bool) option" where
  "is_ancestor read old new = (if old = new then Some (Inr True) else ancestor_loop read old [] [new])"

definition try_is_ancestor :: "commit_reader \<Rightarrow> object_id \<Rightarrow> object_id \<Rightarrow> (gate_error + bool option) option" where
  "try_is_ancestor read old new =
     (if old = new then Some (Inr (Some True))
      else if read old = None \<or> read new = None then Some (Inr None)
      else map_option (\<lambda>r. bindR r (\<lambda>b. Inr (Some b))) (is_ancestor read old new))"

text \<open>The graph the commits describe.\<close>

definition parent_of :: "commit_reader \<Rightarrow> object_id \<Rightarrow> object_id \<Rightarrow> bool" where
  "parent_of read c p \<longleftrightarrow>
     (\<exists>data commit. read c = Some data \<and> commit_parse data = Inr commit \<and> p \<in> set (commit_parents commit))"

definition descends :: "commit_reader \<Rightarrow> object_id \<Rightarrow> object_id \<Rightarrow> bool" where
  "descends read new old \<longleftrightarrow> (parent_of read)\<^sup>*\<^sup>* new old"

lemma descends_step: "descends read c old \<longleftrightarrow> c = old \<or> (\<exists>p. parent_of read c p \<and> descends read p old)"
  unfolding descends_def by (metis converse_rtranclpE converse_rtranclp_into_rtranclp rtranclp.rtrancl_refl)

text \<open>The error names a commit that is missing or does not parse.\<close>

definition unreadable :: "commit_reader \<Rightarrow> object_id \<Rightarrow> gate_error \<Rightarrow> bool" where
  "unreadable read c e \<longleftrightarrow>
     e = GateMissingCommit c \<and> read c = None \<or>
     (\<exists>data x. e = GateCommitParse x \<and> read c = Some data \<and> commit_parse data = Inl x)"

text \<open>What is seen leads only to what is seen or on the stack, and is not the goal.\<close>

definition seen_closed :: "commit_reader \<Rightarrow> object_id \<Rightarrow> object_id list \<Rightarrow> object_id list \<Rightarrow> bool" where
  "seen_closed read old seen stack \<longleftrightarrow>
     old \<notin> set seen \<and> (\<forall>c \<in> set seen. \<forall>p. parent_of read c p \<longrightarrow> p \<in> set seen \<union> set stack)"

lemma closed_no_path:
  assumes "seen_closed read old seen []" "c \<in> set seen"
  shows "\<not> descends read c old"
proof
  assume "descends read c old"
  then have "old \<in> set seen"
    unfolding descends_def using assms
    by (induction rule: converse_rtranclp_induct) (auto simp: seen_closed_def)
  then show False using assms(1) by (simp add: seen_closed_def)
qed

lemma ancestor_loop_known:
  assumes "finite (dom read)"
  shows "set seen \<subseteq> dom read \<Longrightarrow> seen_closed read old seen stack \<Longrightarrow>
    \<exists>r. ancestor_loop read old seen stack = Some r \<and>
      (case r of
         Inl e \<Rightarrow> \<exists>c0 \<in> set seen \<union> set stack. \<exists>c. descends read c0 c \<and> unreadable read c e
       | Inr b \<Rightarrow> b \<longleftrightarrow> (\<exists>c \<in> set seen \<union> set stack. descends read c old))"
proof (induction "(card (dom read - set seen), length stack)" arbitrary: seen stack
    rule: wf_induct_rule [OF wf_lex_prod [OF wf_less_than wf_less_than]])
  case 1
  show ?case
  proof (cases stack)
    case Nil
    then have "ancestor_loop read old seen stack = Some (Inr False)" by (subst ancestor_loop.simps) (simp add: ancestor_turn_def)
    then show ?thesis using closed_no_path [of read old seen] "1.prems"(2) Nil by auto
  next
    case (Cons c rest)
    consider (again) "c \<in> set seen" | (found) "c \<notin> set seen" "c = old" | (new) "c \<notin> set seen" "c \<noteq> old" by blast
    then show ?thesis
    proof cases
      case again
      have cl: "seen_closed read old seen rest" using "1.prems"(2) Cons again by (auto simp: seen_closed_def)
      have eq: "ancestor_loop read old seen stack = ancestor_loop read old seen rest"
        using Cons again by (subst ancestor_loop.simps) (simp add: ancestor_turn_def)
      have same: "set seen \<union> set stack = set seen \<union> set rest" using Cons again by auto
      have "((card (dom read - set seen), length rest), (card (dom read - set seen), length stack))
          \<in> less_than <*lex*> less_than" using Cons by simp
      from "1.hyps" [OF this "1.prems"(1) cl] show ?thesis unfolding eq same .
    next
      case found
      then have "ancestor_loop read old seen stack = Some (Inr True)" using Cons by (subst ancestor_loop.simps) (simp add: ancestor_turn_def)
      moreover have "descends read c old" using found descends_step by blast
      ultimately show ?thesis using Cons by auto
    next
      case new
      show ?thesis
      proof (cases "read c")
        case None
        then have "ancestor_loop read old seen stack = Some (Inl (GateMissingCommit c))"
          using Cons new by (subst ancestor_loop.simps) (simp add: ancestor_turn_def)
        moreover have "descends read c c" "unreadable read c (GateMissingCommit c)"
          using None by (simp_all add: descends_def unreadable_def)
        ultimately show ?thesis using Cons by auto
      next
        case (Some data)
        show ?thesis
        proof (cases "commit_parse data")
          case (Inl x)
          then have "ancestor_loop read old seen stack = Some (Inl (GateCommitParse x))"
            using Cons new Some by (subst ancestor_loop.simps) (simp add: ancestor_turn_def)
          moreover have "descends read c c" "unreadable read c (GateCommitParse x)"
            using Some Inl by (simp_all add: descends_def unreadable_def)
          ultimately show ?thesis using Cons by auto
        next
          case (Inr commit)
          let ?st = "rev (commit_parents commit) @ rest"
          have eq: "ancestor_loop read old seen stack = ancestor_loop read old (c # seen) ?st"
            using Cons new Some Inr by (subst ancestor_loop.simps) (simp add: ancestor_turn_def)
          have par: "parent_of read c p \<longleftrightarrow> p \<in> set (commit_parents commit)" for p
            using Some Inr by (auto simp: parent_of_def)
          have sub: "set (c # seen) \<subseteq> dom read" using "1.prems"(1) Some by auto
          have cl: "seen_closed read old (c # seen) ?st"
            using "1.prems"(2) Cons new par by (auto simp: seen_closed_def)
          have "dom read - set (c # seen) \<subset> dom read - set seen" using new Some by auto
          then have "card (dom read - set (c # seen)) < card (dom read - set seen)"
            using assms by (intro psubset_card_mono) auto
          then have "((card (dom read - set (c # seen)), length ?st), (card (dom read - set seen), length stack))
              \<in> less_than <*lex*> less_than" by simp
          from "1.hyps" [OF this sub cl]
          obtain r where r: "ancestor_loop read old (c # seen) ?st = Some r"
            "case r of
               Inl e \<Rightarrow> \<exists>c0 \<in> set (c # seen) \<union> set ?st. \<exists>x. descends read c0 x \<and> unreadable read x e
             | Inr b \<Rightarrow> b \<longleftrightarrow> (\<exists>c \<in> set (c # seen) \<union> set ?st. descends read c old)"
            by blast
          have up: "\<exists>c1 \<in> set seen \<union> set stack. descends read c1 x"
            if "c0 \<in> set (c # seen) \<union> set ?st" "descends read c0 x" for c0 x
          proof (cases "c0 \<in> set (commit_parents commit)")
            case True
            then have "descends read c x" using that(2) par descends_step by blast
            then show ?thesis using Cons by auto
          qed (use that Cons in auto)
          have down: "\<exists>c1 \<in> set (c # seen) \<union> set ?st. descends read c1 x"
            if "c0 \<in> set seen \<union> set stack" "descends read c0 x" for c0 x using that Cons by auto
          show ?thesis
          proof (cases r)
            case (Inl e)
            then obtain c0 x where "c0 \<in> set (c # seen) \<union> set ?st" "descends read c0 x" "unreadable read x e"
              using r(2) by auto
            then show ?thesis using r(1) up Inl unfolding eq by (metis (no_types, lifting) sum.case(1))
          next
            case (Inr b)
            have "(\<exists>c \<in> set (c # seen) \<union> set ?st. descends read c old) \<longleftrightarrow>
                (\<exists>c \<in> set seen \<union> set stack. descends read c old)" using up down by blast
            then show ?thesis using r Inr unfolding eq by simp
          qed
        qed
      qed
    qed
  qed
qed

lemma is_ancestor_known:
  assumes "finite (dom read)"
  shows "\<exists>r. is_ancestor read old new = Some r \<and>
    (case r of
       Inl e \<Rightarrow> \<exists>c. descends read new c \<and> unreadable read c e
     | Inr b \<Rightarrow> b \<longleftrightarrow> descends read new old)"
proof (cases "old = new")
  case True
  then show ?thesis by (simp add: is_ancestor_def descends_def)
next
  case False
  have cl: "seen_closed read old [] [new]" by (simp add: seen_closed_def)
  have eq: "set [] \<union> set [new] = {new}" by simp
  have sub: "set [] \<subseteq> dom read" by simp
  have "\<exists>r. ancestor_loop read old [] [new] = Some r \<and>
      (case r of
         Inl e \<Rightarrow> \<exists>c0 \<in> {new}. \<exists>c. descends read c0 c \<and> unreadable read c e
       | Inr b \<Rightarrow> b \<longleftrightarrow> (\<exists>c \<in> {new}. descends read c old))"
    using ancestor_loop_known [OF assms sub cl] unfolding eq .
  then obtain r where r: "ancestor_loop read old [] [new] = Some r"
    "case r of
       Inl e \<Rightarrow> \<exists>c0 \<in> {new}. \<exists>c. descends read c0 c \<and> unreadable read c e
     | Inr b \<Rightarrow> b \<longleftrightarrow> (\<exists>c \<in> {new}. descends read c old)"
    by blast
  then show ?thesis using False by (cases r) (auto simp: is_ancestor_def)
qed

section \<open>Force and fast-forward\<close>

text \<open>Whether a change is forced: a deletion, or a move of an id that is no fast-forward.\<close>

definition change_forced :: "commit_reader \<Rightarrow> ref_change \<Rightarrow> (gate_error + bool) option" where
  "change_forced read c =
     (case (rc_old c, rc_new c) of
        (Some _, None) \<Rightarrow> Some (Inr True)
      | (None, _) \<Rightarrow> Some (Inr False)
      | (Some (TargetSymbolic _), _) \<Rightarrow> Some (Inr False)
      | (_, Some (TargetSymbolic _)) \<Rightarrow> Some (Inr False)
      | (Some (TargetOid old), Some (TargetOid new)) \<Rightarrow>
          map_option (\<lambda>r. bindR r (\<lambda>b. Inr (\<not> b))) (is_ancestor read old new))"

fun no_force_loop :: "commit_reader \<Rightarrow> ref_change list \<Rightarrow> (gate_error + unit) option" where
  "no_force_loop read [] = Some (Inr ())"
| "no_force_loop read (c # cs) =
     (case change_forced read c of
        None \<Rightarrow> None
      | Some (Inl e) \<Rightarrow> Some (Inl e)
      | Some (Inr forced) \<Rightarrow> if forced then Some (Inl (GateForce (rc_name c))) else no_force_loop read cs)"

definition ensure_no_force ::
  "commit_reader \<Rightarrow> capabilities \<Rightarrow> ref_change list \<Rightarrow> (gate_error + unit) option" where
  "ensure_no_force read caps changes =
     (if \<not> cap_forbid_force caps then Some (Inr ()) else no_force_loop read changes)"

definition push_not_ff :: "commit_reader \<Rightarrow> ref_change \<Rightarrow> (gate_error + bool) option" where
  "push_not_ff read c =
     (case (rc_old c, rc_new c) of
        (Some _, None) \<Rightarrow> Some (Inr True)
      | (None, _) \<Rightarrow> Some (Inr False)
      | (Some (TargetSymbolic _), _) \<Rightarrow> Some (Inr False)
      | (_, Some (TargetSymbolic _)) \<Rightarrow> Some (Inr False)
      | (Some (TargetOid old), Some (TargetOid new)) \<Rightarrow>
          (case try_is_ancestor read old new of
             None \<Rightarrow> None
           | Some (Inl e) \<Rightarrow> Some (Inl e)
           | Some (Inr (Some is_anc)) \<Rightarrow> Some (Inr (\<not> is_anc))
           | Some (Inr None) \<Rightarrow> Some (Inl (GateNotInOdb (rc_name c) old))))"

fun ensure_fast_forward :: "commit_reader \<Rightarrow> ref_change list \<Rightarrow> (gate_error + unit) option" where
  "ensure_fast_forward read [] = Some (Inr ())"
| "ensure_fast_forward read (c # cs) =
     (case push_not_ff read c of
        None \<Rightarrow> None
      | Some (Inl e) \<Rightarrow> Some (Inl e)
      | Some (Inr nff) \<Rightarrow> if nff then Some (Inl (GateNotFastForward (rc_name c))) else ensure_fast_forward read cs)"

text \<open>The branch lists against a push: they are matched with the short name.\<close>

fun push_branch_loop :: "glob list \<Rightarrow> glob list \<Rightarrow> ref_change list \<Rightarrow> gate_error + unit" where
  "push_branch_loop allow deny [] = Inr ()"
| "push_branch_loop allow deny (c # cs) =
     (case strip_prefix (lit ''refs/heads/'') (rc_name c) of
        None \<Rightarrow> push_branch_loop allow deny cs
      | Some short \<Rightarrow>
          if any_match deny short then Inl (GatePushDenied (rc_name c))
          else if allow \<noteq> [] \<and> \<not> any_match allow short then Inl (GatePushNotAllowed (rc_name c))
          else push_branch_loop allow deny cs)"

definition ensure_push_branch_allowed :: "capabilities \<Rightarrow> ref_change list \<Rightarrow> gate_error + unit" where
  "ensure_push_branch_allowed caps changes =
     (if cap_branch_allow caps = [] \<and> cap_branch_deny caps = [] then Inr ()
      else push_branch_loop (cap_branch_allow caps) (cap_branch_deny caps) changes)"

definition ensure_writable :: "capabilities \<Rightarrow> bytes \<Rightarrow> gate_error + unit" where
  "ensure_writable caps verb = (if cap_read_only caps then Inl (GateReadOnly verb) else Inr ())"

definition ensure_path_allowed :: "capabilities \<Rightarrow> bytes \<Rightarrow> gate_error + unit" where
  "ensure_path_allowed caps path = (if \<not> allows_path_name caps path then Inl (GatePath path) else Inr ())"

section \<open>One workspace per branch\<close>

definition is_workspace_head :: "bytes \<Rightarrow> bool" where
  "is_workspace_head name \<longleftrightarrow>
     name = lit ''HEAD'' \<or> strip_prefix (lit ''workspaces/'') name \<noteq> None \<and> suffix (lit ''/HEAD'') name"

definition workspace_of :: "bytes \<Rightarrow> bytes" where
  "workspace_of head_ref =
     (case strip_prefix (lit ''workspaces/'') head_ref of
        Some n \<Rightarrow> if suffix (lit ''/HEAD'') n then take (length n - 5) n else lit ''default''
      | None \<Rightarrow> lit ''default'')"

text \<open>The branch a change moves or checks out, with the one HEAD that may hold it.\<close>

definition touched_branch :: "bytes \<Rightarrow> ref_change \<Rightarrow> (bytes \<times> bytes) option" where
  "touched_branch own_head c =
     (if strip_prefix (lit ''refs/heads/'') (rc_name c) \<noteq> None then Some (rc_name c, own_head)
      else if is_workspace_head (rc_name c) then
        (case rc_new c of Some (TargetSymbolic b) \<Rightarrow> Some (b, rc_name c) | _ \<Rightarrow> None)
      else None)"

definition holds_branch :: "ref_change list \<Rightarrow> bytes \<Rightarrow> bytes \<Rightarrow> bytes \<times> ref_target \<Rightarrow> bool" where
  "holds_branch changes branch holder_ok ht \<longleftrightarrow>
     fst ht \<noteq> holder_ok \<and> is_workspace_head (fst ht) \<and> snd ht = TargetSymbolic branch \<and>
     \<not> list_ex (\<lambda>other. rc_name other = fst ht \<and> rc_new other \<noteq> Some (snd ht)) changes"

definition checked_out_msg :: "bytes \<Rightarrow> bytes \<Rightarrow> bytes" where
  "checked_out_msg branch head_ref =
     lit ''branch '' @ [0x27]
       @ (case strip_prefix (lit ''refs/heads/'') branch of Some short \<Rightarrow> short | None \<Rightarrow> branch)
       @ [0x27] @ lit '' is checked out in workspace '' @ [0x27] @ workspace_of head_ref @ [0x27]"

fun workspace_loop :: "bytes \<Rightarrow> ref_map \<Rightarrow> ref_change list \<Rightarrow> ref_change list \<Rightarrow> bytes + unit" where
  "workspace_loop own_head refs changes [] = Inr ()"
| "workspace_loop own_head refs changes (c # cs) =
     (case touched_branch own_head c of
        None \<Rightarrow> workspace_loop own_head refs changes cs
      | Some (branch, holder_ok) \<Rightarrow>
          (case find (holds_branch changes branch holder_ok) refs of
             Some (head_ref, _) \<Rightarrow> Inl (checked_out_msg branch head_ref)
           | None \<Rightarrow> workspace_loop own_head refs changes cs))"

definition one_workspace_per_branch :: "bytes \<Rightarrow> ref_map \<Rightarrow> ref_change list \<Rightarrow> bytes + unit" where
  "one_workspace_per_branch own_head refs changes = workspace_loop own_head refs changes changes"

section \<open>The gate\<close>

record native_repo =
  nr_caps :: capabilities
  nr_head_ref :: bytes
  nr_identity :: identity
  nr_store :: ref_store
  nr_disk :: store_disk
  nr_sigs :: bytes

definition branch_filter :: "capabilities \<Rightarrow> bytes \<Rightarrow> bool" where
  "branch_filter caps name =
     (if any_match (cap_branch_deny caps) name then False
      else cap_branch_allow caps = [] \<or> any_match (cap_branch_allow caps) name)"

definition ref_policy_of ::
  "capabilities \<Rightarrow> (ref_map \<Rightarrow> ref_change list \<Rightarrow> bytes + unit) option \<Rightarrow> ref_policy" where
  "ref_policy_of caps state_check =
     \<lparr>pol_read_only = cap_read_only caps,
      pol_is_branch_allowed =
        (if cap_branch_allow caps \<noteq> [] \<or> cap_branch_deny caps \<noteq> [] then Some (branch_filter caps) else None),
      pol_state_check = state_check\<rparr>"

definition commit_refs_with ::
  "(bytes \<Rightarrow> bytes) \<Rightarrow> commit_reader \<Rightarrow> (op_id \<Rightarrow> bytes) \<Rightarrow> bool \<Rightarrow> (log_disk \<Rightarrow> log_disk) \<Rightarrow> u64 \<Rightarrow> bytes
     \<Rightarrow> ref_change list \<Rightarrow> idem_key option \<Rightarrow> native_repo \<Rightarrow> ((gate_error + op_id) \<times> native_repo) option" where
  "commit_refs_with h read sign relaxed meanwhile now_ms verb changes key nr =
     (case ensure_writable (nr_caps nr) verb of
        Inl e \<Rightarrow> Some (Inl e, nr)
      | Inr _ \<Rightarrow>
          (case ensure_no_force read (nr_caps nr) changes of
             None \<Rightarrow> None
           | Some (Inl e) \<Rightarrow> Some (Inl e, nr)
           | Some (Inr _) \<Rightarrow>
               let policy = ref_policy_of (nr_caps nr) (Some (one_workspace_per_branch (nr_head_ref nr)));
                   (res, st, sd) = commit_idempotent h relaxed meanwhile (identity_actor (nr_identity nr) verb) now_ms
                                     changes key (Some policy) (nr_store nr) (nr_disk nr);
                   nr' = nr\<lparr>nr_store := st, nr_disk := sd\<rparr>
               in case res of
                    Inl e \<Rightarrow> Some (Inl (GateRef e), nr')
                  | Inr ident \<Rightarrow> Some (Inr ident, nr'\<lparr>nr_sigs := nr_sigs nr' @ sign ident\<rparr>)))"

definition head_branch :: "native_repo \<Rightarrow> gate_error + bytes" where
  "head_branch nr =
     (case bt_get (st_refs (nr_store nr)) (nr_head_ref nr) of
        Some (TargetSymbolic b) \<Rightarrow> Inr b
      | Some (TargetOid _) \<Rightarrow> Inl GateDetached
      | None \<Rightarrow> Inr (lit ''refs/heads/main''))"

definition flow_model :: "native_repo \<Rightarrow> branch_model" where
  "flow_model nr = for_repo (\<lambda>b. bt_get (st_refs (nr_store nr)) (lit ''refs/heads/'' @ b) \<noteq> None)"

definition ensure_topic_branch_or_unborn :: "bool \<Rightarrow> native_repo \<Rightarrow> bytes \<Rightarrow> gate_error + unit" where
  "ensure_topic_branch_or_unborn protected_override nr verb =
     (if protected_override then Inr ()
      else bindR (head_branch nr) (\<lambda>head_ref.
        case strip_prefix (lit ''refs/heads/'') head_ref of
          None \<Rightarrow> Inr ()
        | Some short \<Rightarrow>
            let model = flow_model nr in
            if \<not> (short = bm_main model \<or> short = bm_develop model) then Inr ()
            else bindR (map_err GateRef (resolve (nr_store nr) (lit ''refs/heads/'' @ bm_develop model))) (\<lambda>d.
              if d = None then Inr ()
              else bindR (map_err GateRef (resolve (nr_store nr) head_ref)) (\<lambda>t.
                if t = None then Inr () else Inl (GateProtected verb short)))))"

section \<open>What passes the gate\<close>

text \<open>No force against a state: a ref that has a value keeps one, and an id moves only to a descendant.\<close>

definition fast_forward :: "commit_reader \<Rightarrow> ref_target option \<Rightarrow> ref_target option \<Rightarrow> bool" where
  "fast_forward read old new \<longleftrightarrow>
     (case (old, new) of
        (Some _, None) \<Rightarrow> False
      | (Some (TargetOid a), Some (TargetOid b)) \<Rightarrow> descends read b a
      | _ \<Rightarrow> True)"

lemma change_forced_known:
  assumes "finite (dom read)"
  shows "\<exists>r. change_forced read c = Some r \<and> (\<forall>b. r = Inr b \<longrightarrow> b = (\<not> fast_forward read (rc_old c) (rc_new c)))"
proof (cases "rc_old c"; cases "rc_new c")
  fix o' n assume on: "rc_old c = Some o'" "rc_new c = Some n"
  show ?thesis
  proof (cases o'; cases n)
    fix a b assume ab: "o' = TargetOid a" "n = TargetOid b"
    obtain r where r: "is_ancestor read a b = Some r" "case r of Inl e \<Rightarrow> True | Inr x \<Rightarrow> x \<longleftrightarrow> descends read b a"
      using is_ancestor_known [OF assms, of a b] by (fastforce split: sum.splits)
    have "change_forced read c = Some (bindR r (\<lambda>b. Inr (\<not> b)))" using on ab r(1) by (simp add: change_forced_def)
    then show ?thesis using on ab r(2) by (cases r) (auto simp: fast_forward_def)
  qed (use on in \<open>auto simp: change_forced_def fast_forward_def\<close>)
qed (auto simp: change_forced_def fast_forward_def split: ref_target.splits)

lemma no_force_loop_known:
  assumes "finite (dom read)"
  shows "\<exists>r. no_force_loop read cs = Some r \<and> (r = Inr () \<longrightarrow> (\<forall>c \<in> set cs. fast_forward read (rc_old c) (rc_new c)))"
proof (induction cs)
  case (Cons c cs)
  obtain r where r: "change_forced read c = Some r" "\<forall>b. r = Inr b \<longrightarrow> b = (\<not> fast_forward read (rc_old c) (rc_new c))"
    using change_forced_known [OF assms] by blast
  then show ?case using Cons by (cases r) auto
qed simp

lemma branch_filter_iff: "branch_filter caps name \<longleftrightarrow> allows_branch_name caps name"
  by (auto simp: branch_filter_def allows_branch_name_def)

lemma policy_check_ok:
  "policy_check (ref_policy_of caps check) refs changes = Inr () \<Longrightarrow>
     (cap_read_only caps \<longrightarrow> changes = []) \<and> (\<forall>c \<in> set changes. allows_branch_name caps (rc_name c)) \<and>
     (\<forall>f. check = Some f \<longrightarrow> f refs changes = Inr ())"
proof -
  assume ok: "policy_check (ref_policy_of caps check) refs changes = Inr ()"
  have ro: "cap_read_only caps \<longrightarrow> changes = []"
    using ok by (auto simp: policy_check_def ref_policy_of_def split: if_splits)
  have ch: "\<forall>f. check = Some f \<longrightarrow> f refs changes = Inr ()"
    using ok by (auto simp: policy_check_def ref_policy_of_def split: if_splits option.splits)
  have "allows_branch_name caps (rc_name c)" if c: "c \<in> set changes" for c
  proof (cases "cap_branch_allow caps \<noteq> [] \<or> cap_branch_deny caps \<noteq> []")
    case True
    then have "find (\<lambda>c. \<not> branch_filter caps (rc_name c)) changes = None"
      using ok by (auto simp: policy_check_def ref_policy_of_def split: if_splits option.splits)
    then show ?thesis using c branch_filter_iff by (auto simp: find_None_iff)
  next
    case False
    then show ?thesis by (simp add: allows_branch_name_def any_match_def)
  qed
  with ro ch show ?thesis by blast
qed

text \<open>What a write that went through has shown, against the refs it was applied to.\<close>

definition write_allowed :: "commit_reader \<Rightarrow> native_repo \<Rightarrow> ref_map \<Rightarrow> ref_change list \<Rightarrow> bool" where
  "write_allowed read nr refs changes \<longleftrightarrow>
     \<not> cap_read_only (nr_caps nr) \<and>
     (\<forall>c \<in> set changes. bt_get refs (rc_name c) = rc_old c \<and> allows_branch_name (nr_caps nr) (rc_name c)) \<and>
     (cap_forbid_force (nr_caps nr) \<longrightarrow>
        (\<forall>c \<in> set changes. fast_forward read (bt_get refs (rc_name c)) (rc_new c))) \<and>
     one_workspace_per_branch (nr_head_ref nr) refs changes = Inr ()"

lemma gate_known:
  assumes ready: "log_ready h (identity_actor (nr_identity nr) verb) (sd_log (nr_disk nr)) (es @ fs)"
    and st: "store_at (nr_store nr) es" and refs: "replay_refs (es @ fs) [] = Inr refs"
    and tx: "tx_ok changes key" and fits: "payload_fits (identity_actor (nr_identity nr) verb) (encode_tx changes key)"
    and mw: "\<And>d. dk_log (meanwhile d) = dk_log d" and fin: "finite (dom read)"
  shows "\<exists>r nr'. commit_refs_with h read sign relaxed meanwhile now verb changes key nr = Some (r, nr') \<and>
    nr_caps nr' = nr_caps nr \<and> nr_head_ref nr' = nr_head_ref nr \<and>
    (case r of
       Inl _ \<Rightarrow> log_holds h (sd_log (nr_disk nr')) (es @ fs)
     | Inr ident \<Rightarrow> write_allowed read nr refs changes \<and>
         (\<exists>e. ident = op_id e \<and> replay_refs (es @ fs @ [e]) [] = Inr (fold apply_change changes refs) \<and>
            log_holds h (sd_log (nr_disk nr')) (es @ fs @ [e]) \<and> store_at (nr_store nr') (es @ fs @ [e])))"
proof -
  let ?caps = "nr_caps nr"
  let ?policy = "ref_policy_of ?caps (Some (one_workspace_per_branch (nr_head_ref nr)))"
  let ?actor = "identity_actor (nr_identity nr) verb"
  let ?run = "commit_refs_with h read sign relaxed meanwhile now verb changes key nr"
  have held: "log_holds h (sd_log (nr_disk nr)) (es @ fs)" using ready by (rule log_ready_holds)
  show ?thesis
  proof (cases "cap_read_only ?caps")
    case True
    then have "?run = Some (Inl (GateReadOnly verb), nr)" by (simp add: commit_refs_with_def ensure_writable_def)
    then show ?thesis using held by simp
  next
    case ro: False
    have "\<exists>f. ensure_no_force read ?caps changes = Some f \<and>
      (f = Inr () \<and> cap_forbid_force ?caps \<longrightarrow> (\<forall>c \<in> set changes. fast_forward read (rc_old c) (rc_new c)))"
    proof (cases "cap_forbid_force ?caps")
      case True
      then show ?thesis using no_force_loop_known [OF fin, of changes] by (auto simp: ensure_no_force_def)
    qed (simp add: ensure_no_force_def)
    then obtain f where f: "ensure_no_force read ?caps changes = Some f"
      "f = Inr () \<and> cap_forbid_force ?caps \<longrightarrow> (\<forall>c \<in> set changes. fast_forward read (rc_old c) (rc_new c))"
      by blast
    show ?thesis
    proof (cases f)
      case (Inl e)
      then have "?run = Some (Inl e, nr)" using ro f(1) by (simp add: commit_refs_with_def ensure_writable_def)
      then show ?thesis using held by simp
    next
      case (Inr u)
      note known = commit_known [OF ready st refs tx fits mw, of relaxed now "Some ?policy"]
      show ?thesis
      proof (cases "transact (Some ?policy) changes refs")
        case (Inl e)
        then obtain st' sd' where c: "commit_idempotent h relaxed meanwhile ?actor now changes key (Some ?policy)
            (nr_store nr) (nr_disk nr) = (Inl e, st', sd')" "log_holds h (sd_log sd') (es @ fs)"
          using known by auto
        have "?run = Some (Inl (GateRef e), nr\<lparr>nr_store := st', nr_disk := sd'\<rparr>)"
          using ro f(1) Inr c(1) by (simp add: commit_refs_with_def ensure_writable_def)
        then show ?thesis using c(2) by simp
      next
        case tr: (Inr refs')
        then obtain e st' sd' where c: "commit_idempotent h relaxed meanwhile ?actor now changes key (Some ?policy)
            (nr_store nr) (nr_disk nr) = (Inr (op_id e), st', sd')"
          "replay_refs (es @ fs @ [e]) [] = Inr refs'" "store_at st' (es @ fs @ [e])"
          "log_holds h (sd_log sd') (es @ fs @ [e])"
          using known by auto
        have run: "?run = Some (Inr (op_id e), nr\<lparr>nr_store := st', nr_disk := sd', nr_sigs := nr_sigs nr @ sign (op_id e)\<rparr>)"
          using ro f(1) Inr c(1) by (simp add: commit_refs_with_def ensure_writable_def)
        have pc: "policy_check ?policy refs changes = Inr ()" and ap: "apply_changes False refs changes = Inr refs'"
          using tr by (auto simp: transact_def bindR_eq_Inr)
        have old: "\<forall>c \<in> set changes. bt_get refs (rc_name c) = rc_old c" "refs' = fold apply_change changes refs"
          using ap by (auto simp: apply_changes_Inr)
        have "write_allowed read nr refs changes"
          using ro old(1) policy_check_ok [OF pc] f(2) Inr by (auto simp: write_allowed_def)
        then show ?thesis using run c(2-4) old(2) by auto
      qed
    qed
  qed
qed

section \<open>One workspace holds a branch\<close>

definition exclusive :: "ref_map \<Rightarrow> bool" where
  "exclusive refs \<longleftrightarrow>
     (\<forall>h1 h2 b. is_workspace_head h1 \<and> is_workspace_head h2 \<and>
        bt_get refs h1 = Some (TargetSymbolic b) \<and> bt_get refs h2 = Some (TargetSymbolic b) \<longrightarrow> h1 = h2)"

text \<open>No two changes of one transaction put a HEAD on the same branch.\<close>

definition heads_apart :: "ref_change list \<Rightarrow> bool" where
  "heads_apart cs \<longleftrightarrow>
     (\<forall>c1 \<in> set cs. \<forall>c2 \<in> set cs. \<forall>b. is_workspace_head (rc_name c1) \<and> is_workspace_head (rc_name c2) \<and>
        rc_new c1 = Some (TargetSymbolic b) \<and> rc_new c2 = Some (TargetSymbolic b) \<longrightarrow> rc_name c1 = rc_name c2)"

lemma head_no_branch: "is_workspace_head h \<Longrightarrow> strip_prefix (lit ''refs/heads/'') h = None"
  by (cases "strip_prefix (lit ''refs/heads/'') h") (auto simp: is_workspace_head_def strip_prefix_eq_Some)

lemma touched_head:
  "is_workspace_head (rc_name c) \<Longrightarrow> rc_new c = Some (TargetSymbolic b) \<Longrightarrow> touched_branch own c = Some (b, rc_name c)"
  using head_no_branch by (simp add: touched_branch_def del: lit_def)

lemma workspace_loop_ok:
  "workspace_loop own refs changes cs = Inr () \<longleftrightarrow>
     (\<forall>c \<in> set cs. \<forall>b h. touched_branch own c = Some (b, h) \<longrightarrow> find (holds_branch changes b h) refs = None)"
  by (induction cs) (auto split: option.splits)

lemma one_workspace_ok:
  assumes "one_workspace_per_branch own refs changes = Inr ()" "c \<in> set changes" "touched_branch own c = Some (b, h)"
    "is_workspace_head h'" "bt_get refs h' = Some (TargetSymbolic b)" "h' \<noteq> h"
  shows "\<exists>c' \<in> set changes. rc_name c' = h' \<and> rc_new c' \<noteq> Some (TargetSymbolic b)"
proof -
  have "find (holds_branch changes b h) refs = None"
    using assms(1-3) by (simp add: one_workspace_per_branch_def workspace_loop_ok)
  moreover have "(h', TargetSymbolic b) \<in> set refs" using assms(5) by (simp add: map_of_SomeD)
  ultimately show ?thesis
    using assms(4,6) by (fastforce simp: find_None_iff holds_branch_def list_ex_iff)
qed

lemma exclusive_kept:
  assumes ok: "bt_ok refs" and ex: "exclusive refs" and gate: "one_workspace_per_branch own refs changes = Inr ()"
    and names: "distinct (map rc_name changes)" and apart: "heads_apart changes"
  shows "exclusive (fold apply_change changes refs)"
  unfolding exclusive_def
proof (intro allI impI)
  fix h1 h2 b
  let ?refs = "fold apply_change changes refs" and ?t = "TargetSymbolic b"
  assume a: "is_workspace_head h1 \<and> is_workspace_head h2 \<and> bt_get ?refs h1 = Some ?t \<and> bt_get ?refs h2 = Some ?t"
  have origin: "(\<exists>c \<in> set changes. rc_name c = h \<and> rc_new c = Some ?t) \<or>
      bt_get refs h = Some ?t \<and> (\<forall>c \<in> set changes. rc_name c \<noteq> h)"
    if get: "bt_get ?refs h = Some ?t" for h
    using get unfolding bt_get_apply_all [OF ok names]
    by (cases "find (\<lambda>c. rc_name c = h) changes") (auto simp: find_None_iff find_Some_iff)
  have kept: "h = h'" if c: "c \<in> set changes" "rc_name c = h" "rc_new c = Some ?t" "is_workspace_head h" "is_workspace_head h'"
      "bt_get refs h' = Some ?t" "\<forall>c \<in> set changes. rc_name c \<noteq> h'" for c h h'
    using one_workspace_ok [OF gate c(1) _ c(5,6)] touched_head [of c b own] c by blast
  from origin [of h1] origin [of h2] a show "h1 = h2"
    using ex apart kept [of _ h1 h2] kept [of _ h2 h1] unfolding exclusive_def heads_apart_def by metis
qed

section \<open>Properties\<close>


definition sample_repo :: "capabilities \<Rightarrow> native_repo" where
  "sample_repo caps =
     \<lparr>nr_caps = caps, nr_head_ref = lit ''HEAD'',
      nr_identity = \<lparr>idt_principal = \<lparr>pr_kind = Agent, pr_id = lit ''bot'', pr_session = None\<rparr>, idt_user = lit ''u'',
        idt_author_name = [], idt_author_email = [], idt_controlling = None\<rparr>,
      nr_store = empty_store, nr_disk = empty_disk, nr_sigs = []\<rparr>"

definition main_only :: capabilities where
  "main_only = capabilities_full\<lparr>cap_branch_allow := [[LitPart (lit ''refs/heads/main'')]]\<rparr>"


text \<open>C22. The ancestry search behind the force rules ends on every object database, cyclic ones
  included, and is exact: it answers yes if and only if the new id descends from the old one
  through the parents of readable commits, and an error is about a commit that descends from the
  start and is missing or does not parse.\<close>

theorem is_ancestor_exact:
  assumes "finite (dom read)"
  shows "\<exists>r. is_ancestor read old new = Some r \<and>
    (case r of
       Inl e \<Rightarrow> \<exists>c. descends read new c \<and> unreadable read c e
     | Inr b \<Rightarrow> b \<longleftrightarrow> descends read new old)"
  by (rule is_ancestor_known [OF assms])

theorem is_ancestor_exact_witness:
  "\<exists>r. is_ancestor (\<lambda>i. if i = OidSha1 (replicate 20 1) then Some (lit ''parent '' @ lit ''0000000000000000000000000000000000000000'' @ [0x0A, 0x0A]) else None)
      (OidSha1 (2 # replicate 19 0)) (OidSha1 (replicate 20 1)) = Some r \<and> r \<noteq> Inr True"
proof -
  let ?read = "\<lambda>i. if i = OidSha1 (replicate 20 1) then Some (lit ''parent '' @ lit ''0000000000000000000000000000000000000000'' @ [0x0A, 0x0A]) else None"
  let ?two = "OidSha1 (2 # replicate 19 0)"
  have dom: "dom ?read = {OidSha1 (replicate 20 1)}" by (auto split: if_splits)
  then have fin: "finite (dom ?read)" by simp
  have parents: "p \<noteq> ?two" if "parent_of ?read c p" for c p
  proof -
    have c: "commit_parse (lit ''parent '' @ lit ''0000000000000000000000000000000000000000'' @ [0x0A, 0x0A]) =
        Inr \<lparr>headers = [(lit ''parent'', lit ''0000000000000000000000000000000000000000'')], has_separator = True, message = []\<rparr>"
      by (simp add: commit_parse_def header_block_parse_def parse_headers.simps)
    show ?thesis using that unfolding parent_of_def
      by (auto simp: c [simplified] commit_parents_def header_values_def oid_from_hex_def nibble_def List.map_filter_def split: if_splits)
  qed
  have "\<not> descends ?read (OidSha1 (replicate 20 1)) ?two"
  proof
    assume "descends ?read (OidSha1 (replicate 20 1)) ?two"
    moreover have "OidSha1 (replicate 20 1) \<noteq> ?two" by (simp add: numeral_eq_Suc)
    ultimately show False unfolding descends_def using parents by (cases rule: rtranclp.cases) auto
  qed
  then show ?thesis using is_ancestor_exact [OF fin, of ?two "OidSha1 (replicate 20 1)"] by (fastforce split: sum.splits)
qed

text \<open>C25. At most one workspace has a branch checked out, and the gate keeps it so: a transaction that passes it,
  changes each ref once and does not itself put two HEADs on one branch, leaves every branch with at
  most one HEAD; and a branch that it moves is held, afterwards, by no HEAD but the
  workspace's own or one the same transaction puts there.\<close>

theorem workspace_exclusive:
  assumes "bt_ok refs" and "exclusive refs" and "one_workspace_per_branch own refs changes = Inr ()"
    and "distinct (map rc_name changes)" and "heads_apart changes"
  shows "exclusive (fold apply_change changes refs) \<and>
    (\<forall>c \<in> set changes. \<forall>h. strip_prefix (lit ''refs/heads/'') (rc_name c) \<noteq> None \<and> is_workspace_head h \<and>
       bt_get (fold apply_change changes refs) h = Some (TargetSymbolic (rc_name c)) \<longrightarrow>
       h = own \<or> (\<exists>c' \<in> set changes. rc_name c' = h \<and> rc_new c' = Some (TargetSymbolic (rc_name c))))"
proof (intro conjI ballI allI impI)
  show "exclusive (fold apply_change changes refs)" by (rule exclusive_kept [OF assms])
next
  fix c h
  assume c: "c \<in> set changes" and a: "strip_prefix (lit ''refs/heads/'') (rc_name c) \<noteq> None \<and> is_workspace_head h \<and>
      bt_get (fold apply_change changes refs) h = Some (TargetSymbolic (rc_name c))"
  have t: "touched_branch own c = Some (rc_name c, own)" using a by (simp add: touched_branch_def del: lit_def)
  show "h = own \<or> (\<exists>c' \<in> set changes. rc_name c' = h \<and> rc_new c' = Some (TargetSymbolic (rc_name c)))"
  proof (cases "find (\<lambda>c. rc_name c = h) changes")
    case None
    have old: "bt_get refs h = Some (TargetSymbolic (rc_name c))"
      using a unfolding bt_get_apply_all [OF assms(1,4)] None by simp
    have no: "\<forall>c \<in> set changes. rc_name c \<noteq> h" using None by (simp add: find_None_iff)
    show ?thesis using one_workspace_ok [OF assms(3) c t _ old] a no by blast
  next
    case (Some c')
    then have "c' \<in> set changes" "rc_name c' = h" by (auto simp: find_Some_iff)
    moreover have "rc_new c' = Some (TargetSymbolic (rc_name c))"
      using a Some unfolding bt_get_apply_all [OF assms(1,4)] by simp
    ultimately show ?thesis by blast
  qed
qed

theorem workspace_exclusive_witness:
  "exclusive (fold apply_change [sample_change] [(lit ''HEAD'', TargetSymbolic (lit ''refs/heads/main''))])"
proof -
  let ?refs = "[(lit ''HEAD'', TargetSymbolic (lit ''refs/heads/main''))]"
  have t: "touched_branch (lit ''HEAD'') sample_change = Some (lit ''refs/heads/main'', lit ''HEAD'')"
    by (simp add: touched_branch_def sample_change_def)
  have "one_workspace_per_branch (lit ''HEAD'') ?refs [sample_change] = Inr ()"
    unfolding one_workspace_per_branch_def using t by (simp add: holds_branch_def)
  moreover have "exclusive ?refs" by (simp add: exclusive_def)
  moreover have "heads_apart [sample_change]" by (simp add: heads_apart_def)
  ultimately show ?thesis using workspace_exclusive [of ?refs "lit ''HEAD''" "[sample_change]"] by simp
qed



end
