(* ===== verification/Sign_Text.thy ===== *)
theory Sign_Text
  imports Rust_Str
begin

text \<open>
  Keys and signatures as text (\<^verbatim>\<open>alt-sign/src/lib.rs\<close>) and the signature header of a
  commit (\<^verbatim>\<open>alt-cli/src/commit_sign.rs\<close>).  Signing and verifying are the curve's, and are
  parameters where they are used; what is here is the text around them.
\<close>

section \<open>Base64\<close>

definition b64_alpha :: bytes where
  "b64_alpha = lit ''ABCDEFGHIJKLMNOPQRSTUVWXYZabcdefghijklmnopqrstuvwxyz0123456789-_''"

definition b64_char :: "u32 \<Rightarrow> nat \<Rightarrow> u8" where
  "b64_char n k = b64_alpha ! unat (drop_bit k n AND 0x3F)"

fun base64url_encode :: "bytes \<Rightarrow> bytes" where
  "base64url_encode (a # b # c # r) =
     (let n = push_bit 16 (ucast a) OR push_bit 8 (ucast b) OR ucast c
      in [b64_char n 18, b64_char n 12, b64_char n 6, b64_char n 0] @ base64url_encode r)"
| "base64url_encode [a, b] =
     (let n = push_bit 16 (ucast a) OR push_bit 8 (ucast b) in [b64_char n 18, b64_char n 12, b64_char n 6])"
| "base64url_encode [a] = (let n = push_bit 16 (ucast a) in [b64_char n 18, b64_char n 12])"
| "base64url_encode [] = []"

definition b64_val :: "u8 \<Rightarrow> u8 option" where
  "b64_val c =
     (if 0x41 \<le> c \<and> c \<le> 0x5A then Some (c - 0x41)
      else if 0x61 \<le> c \<and> c \<le> 0x7A then Some (c - 0x61 + 26)
      else if 0x30 \<le> c \<and> c \<le> 0x39 then Some (c - 0x30 + 52)
      else if c = 0x2D then Some 62
      else if c = 0x5F then Some 63
      else None)"

fun b64_decode_from :: "bytes \<Rightarrow> bytes option" where
  "b64_decode_from (a # b # c # d # r) =
     Option.bind (b64_val a) (\<lambda>a. Option.bind (b64_val b) (\<lambda>b.
     Option.bind (b64_val c) (\<lambda>c. Option.bind (b64_val d) (\<lambda>d.
       let n = push_bit 18 (ucast a) OR push_bit 12 (ucast b) OR push_bit 6 (ucast c) OR (ucast d :: u32)
       in map_option (\<lambda>out. ucast (drop_bit 16 n) # ucast (drop_bit 8 n) # ucast n # out) (b64_decode_from r)))))"
| "b64_decode_from [a, b, c] =
     Option.bind (b64_val a) (\<lambda>a. Option.bind (b64_val b) (\<lambda>b. Option.bind (b64_val c) (\<lambda>c.
       let n = push_bit 18 (ucast a) OR push_bit 12 (ucast b) OR push_bit 6 (ucast c :: u32)
       in Some [ucast (drop_bit 16 n), ucast (drop_bit 8 n)])))"
| "b64_decode_from [a, b] =
     Option.bind (b64_val a) (\<lambda>a. Option.bind (b64_val b) (\<lambda>b.
       let n = push_bit 18 (ucast a) OR push_bit 12 (ucast b :: u32)
       in Some [ucast (drop_bit 16 n)]))"
| "b64_decode_from _ = Some []"

definition base64url_decode :: "bytes \<Rightarrow> bytes option" where
  "base64url_decode s = (if length s mod 4 = 1 then None else b64_decode_from s)"

section \<open>Text\<close>

datatype sign_error = BadPrefix bytes | BadBody | BadKey bytes | BadSignature

definition sign_prefix :: "bytes \<Rightarrow> bytes" where
  "sign_prefix kind = lit ''alt-'' @ kind @ lit ''-ed25519:''"

definition encode_with_prefix :: "bytes \<Rightarrow> bytes \<Rightarrow> bytes" where
  "encode_with_prefix kind body = sign_prefix kind @ base64url_encode body @ [0x0A]"

definition decode_with_prefix :: "bytes \<Rightarrow> bytes \<Rightarrow> sign_error + bytes" where
  "decode_with_prefix kind s =
     (let trimmed = trim s in
      case strip_prefix (sign_prefix kind) trimmed of
        None \<Rightarrow> Inl (BadPrefix trimmed)
      | Some rest \<Rightarrow> ok_or BadBody (base64url_decode rest))"

text \<open>A signature is 64 bytes, a secret key 32; whether 32 bytes are a public key is for the curve to say.\<close>

definition sig_to_text :: "bytes \<Rightarrow> bytes" where
  "sig_to_text sig = encode_with_prefix (lit ''sig'') sig"

definition sig_from_text :: "bytes \<Rightarrow> sign_error + bytes" where
  "sig_from_text s =
     bindR (decode_with_prefix (lit ''sig'') s) (\<lambda>raw.
       if length raw = 64 then Inr raw else Inl (BadKey (lit ''signature length'')))"

definition secret_to_text :: "bytes \<Rightarrow> bytes" where
  "secret_to_text key = encode_with_prefix (lit ''seckey'') key"

definition secret_from_text :: "bytes \<Rightarrow> sign_error + bytes" where
  "secret_from_text s =
     bindR (decode_with_prefix (lit ''seckey'') s) (\<lambda>raw.
       if length raw = 32 then Inr raw else Inl (BadKey (lit ''secret key length'')))"

definition public_to_text :: "bytes \<Rightarrow> bytes" where
  "public_to_text key = encode_with_prefix (lit ''pubkey'') key"

definition public_from_text :: "(bytes \<Rightarrow> bytes option) \<Rightarrow> bytes \<Rightarrow> sign_error + bytes" where
  "public_from_text off_curve s =
     bindR (decode_with_prefix (lit ''pubkey'') s) (\<lambda>raw.
       if length raw \<noteq> 32 then Inl (BadKey (lit ''public key length''))
       else case off_curve raw of Some e \<Rightarrow> Inl (BadKey e) | None \<Rightarrow> Inr raw)"

section \<open>The signature header of a commit\<close>

record alt_sig =
  as_principal :: bytes
  as_sig :: bytes
  as_canonical :: bytes

datatype alt_sig_error = NotACommit | SigMalformed

text \<open>\<^verbatim>\<open>windows(2).position(..)\<close>\<close>

fun blank_line :: "bytes \<Rightarrow> nat option" where
  "blank_line (x # y # r) = (if x = 0x0A \<and> y = 0x0A then Some 0 else map_option Suc (blank_line (y # r)))"
| "blank_line _ = None"

definition find_separator :: "bytes \<Rightarrow> nat option" where
  "find_separator b = map_option Suc (blank_line b)"

definition line_len :: "bytes \<Rightarrow> nat" where
  "line_len s = (case split_first 0x0A s of Some (l, r) \<Rightarrow> length l + 1 | None \<Rightarrow> length s)"

lemma line_len_pos: "s \<noteq> [] \<Longrightarrow> 0 < line_len s"
  by (simp add: line_len_def split: option.split)

function locate_from :: "nat \<Rightarrow> bytes \<Rightarrow> (nat \<times> nat) option" where
  "locate_from start rest =
     (if rest = [] then None
      else let n = line_len rest in
           if strip_prefix (lit ''alt-sig '') (take n rest) \<noteq> None then Some (start, start + n)
           else locate_from (start + n) (drop n rest))"
  by pat_completeness auto
termination
  by (relation "measure (\<lambda>(start, rest). length rest)") (auto simp: line_len_pos)

declare locate_from.simps [simp del]

definition locate_alt_sig_line :: "bytes \<Rightarrow> (nat \<times> nat) option" where
  "locate_alt_sig_line header_block = locate_from 0 header_block"

definition alt_sig_line :: "bytes \<Rightarrow> bytes \<Rightarrow> bytes" where
  "alt_sig_line who sig = lit ''alt-sig '' @ who @ [0x20] @ trim (sig_to_text sig) @ [0x0A]"

definition embed_alt_sig :: "bytes \<Rightarrow> bytes \<Rightarrow> bytes option" where
  "embed_alt_sig b l = map_option (\<lambda>sep. take sep b @ l @ drop sep b) (find_separator b)"

definition parse_sig_line :: "bytes \<Rightarrow> alt_sig_error + bytes \<times> bytes" where
  "parse_sig_line l0 =
     (let l = (if l0 \<noteq> [] \<and> last l0 = 0x0A then butlast l0 else l0) in
      case strip_prefix (lit ''alt-sig '') l of None \<Rightarrow> Inl SigMalformed | Some rest \<Rightarrow>
      case split_first 0x20 rest of None \<Rightarrow> Inl SigMalformed | Some (who, sig_text) \<Rightarrow>
        if \<not> utf8 who then Inl SigMalformed
        else if \<not> utf8 sig_text then Inl SigMalformed
        else bindR (map_err (\<lambda>_. SigMalformed) (sig_from_text sig_text)) (\<lambda>sig. Inr (who, sig)))"

definition extract_alt_sig :: "bytes \<Rightarrow> alt_sig_error + alt_sig option" where
  "extract_alt_sig b =
     (case find_separator b of
        None \<Rightarrow> Inl NotACommit
      | Some sep \<Rightarrow>
          (case locate_alt_sig_line (take sep b) of
             None \<Rightarrow> Inr None
           | Some (s, e) \<Rightarrow>
               bindR (parse_sig_line (take (e - s) (drop s (take sep b)))) (\<lambda>(who, sig).
                 Inr (Some \<lparr>as_principal = who, as_sig = sig, as_canonical = take s b @ drop e b\<rparr>))))"

section \<open>Texts read back\<close>

lemma b64_cases:
  "\<forall>i \<in> set [0..<64]. b64_val (b64_alpha ! i) = Some (of_nat i) \<and> 0x21 \<le> b64_alpha ! i \<and> b64_alpha ! i \<le> 0x7F"
  by (simp add: upt_conv_Cons b64_val_def b64_alpha_def)

lemma low_six: "unat ((x :: u32) AND 0x3F) < 64"
proof -
  have "x AND 0x3F \<le> 0x3F" by (rule word_and_le1)
  then show ?thesis by (simp add: word_le_nat_alt)
qed

lemma b64_val_char: "b64_val (b64_char n k) = Some (ucast (drop_bit k n AND 0x3F))"
  using b64_cases low_six [of "drop_bit k n"] by (simp add: b64_char_def)

lemma b64_char_graphic: "0x21 \<le> b64_char n k \<and> b64_char n k \<le> 0x7F"
  using b64_cases low_six [of "drop_bit k n"] by (simp add: b64_char_def)

lemma six_mask: "(0x3F :: u32) = mask 6"
  by (simp add: mask_eq_exp_minus_1)

lemma bit_below_24: "drop_bit 24 n = 0 \<Longrightarrow> bit n i \<Longrightarrow> i < 24" for n :: u32
proof (rule ccontr)
  assume a: "drop_bit 24 n = 0" "bit n i" "\<not> i < 24"
  have "bit (drop_bit 24 n) (i - 24)" using a(2,3) by (simp add: bit_simps)
  then show False unfolding a(1) by simp
qed

definition sextet :: "nat \<Rightarrow> u32 \<Rightarrow> u8" where
  "sextet k n = ucast (drop_bit k n AND 0x3F)"

lemma b64_val_sextet: "b64_val (b64_char n k) = Some (sextet k n)"
  by (simp add: b64_val_char sextet_def)

lemma join_sextets:
  fixes n :: u32
  assumes "drop_bit 24 n = 0"
  shows "push_bit 18 (ucast (sextet 18 n)) OR push_bit 12 (ucast (sextet 12 n)) OR push_bit 6 (ucast (sextet 6 n)) OR ucast (sextet 0 n) = n"
    (is "?m = n")
proof (rule bit_word_eqI)
  fix i :: nat assume "i < LENGTH(32)"
  consider "24 \<le> i" | "18 \<le> i" "i < 24" | "12 \<le> i" "i < 18" | "6 \<le> i" "i < 12" | "i < 6" by linarith
  then show "bit ?m i = bit n i"
    using bit_below_24 [OF assms, of i] unfolding sextet_def six_mask by cases (auto simp: bit_simps)
qed

lemma quad_bytes:
  fixes a b c :: u8
  shows "drop_bit 24 (push_bit 16 (ucast a) OR push_bit 8 (ucast b) OR ucast c :: u32) = 0"
    "ucast (drop_bit 16 (push_bit 16 (ucast a) OR push_bit 8 (ucast b) OR ucast c :: u32)) = a"
    "ucast (drop_bit 8 (push_bit 16 (ucast a) OR push_bit 8 (ucast b) OR ucast c :: u32)) = b"
    "ucast (push_bit 16 (ucast a) OR push_bit 8 (ucast b) OR ucast c :: u32) = c"
  by (rule bit_word_eqI; auto simp: bit_simps dest: bit_imp_le_length)+

lemma sextet_tail:
  fixes a b :: u8
  shows "sextet 0 (push_bit 16 (ucast a) OR push_bit 8 (ucast b)) = 0" "sextet 6 (push_bit 16 (ucast a)) = 0" "sextet 0 (push_bit 16 (ucast a)) = 0"
  unfolding sextet_def six_mask by (rule bit_word_eqI; auto simp: bit_simps)+

lemma b64_decode_encode: "b64_decode_from (base64url_encode b) = Some b"
proof (induction b rule: base64url_encode.induct)
  case (1 a b c r)
  then show ?case
    using join_sextets [OF quad_bytes(1) [of a b c]] by (simp add: b64_val_sextet Let_def quad_bytes del: drop_bit_or)
next
  case (2 a b)
  have "push_bit 16 (ucast a) OR push_bit 8 (ucast b) OR ucast (0 :: u8) = (push_bit 16 (ucast a) OR push_bit 8 (ucast b) :: u32)" by simp
  then show ?case
    using join_sextets [of "push_bit 16 (ucast a) OR push_bit 8 (ucast b)"] quad_bytes [of a b 0]
    by (simp add: b64_val_sextet Let_def sextet_tail del: drop_bit_or)
next
  case (3 a)
  then show ?case
    using join_sextets [of "push_bit 16 (ucast a)"] quad_bytes [of a 0 0] by (simp add: b64_val_sextet Let_def sextet_tail del: drop_bit_or)
qed simp

lemma b64_graphic: "x \<in> set (base64url_encode b) \<Longrightarrow> 0x21 \<le> x \<and> x \<le> 0x7F"
  using b64_char_graphic by (induction b rule: base64url_encode.induct) (auto simp: Let_def)

lemma length_b64: "length (base64url_encode b) = length b + (length b + 2) div 3"
  by (induction b rule: base64url_encode.induct) (auto simp: Let_def)

lemma base64url_round_trip: "base64url_decode (base64url_encode b) = Some b"
proof -
  have "length (base64url_encode b) mod 4 \<noteq> 1" unfolding length_b64 by presburger
  then show ?thesis by (simp add: base64url_decode_def b64_decode_encode)
qed

lemma trim_line:
  assumes "\<forall>b \<in> set xs. 0x21 \<le> b \<and> b \<le> 0x7F" "xs \<noteq> []"
  shows "trim (xs @ [0x0A]) = xs"
proof -
  have "ws_char (xs @ [0x0A]) = 0"
    using assms by (cases xs) (auto simp: graphic_not_ws split: list.splits)
  then have start: "trim_start (xs @ [0x0A]) = xs @ [0x0A]" by (subst trim_start.simps) simp
  have "ws_char_rev (rev xs) = 0" using assms(1) by (intro ws_char_rev_graphic) simp
  then have rear: "trim_start_rev (rev xs) = rev xs" by (subst trim_start_rev.simps) simp
  have "trim_start_rev (0x0A # rev xs) = rev xs"
    by (subst trim_start_rev.simps) (simp add: ascii_ws_def rear)
  then show ?thesis using start by (simp add: trim_def)
qed

lemma decode_encode_prefix:
  assumes "\<forall>b \<in> set kind. 0x21 \<le> b \<and> b \<le> 0x7F"
  shows "trim (encode_with_prefix kind body) = sign_prefix kind @ base64url_encode body"
    "decode_with_prefix kind (encode_with_prefix kind body) = Inr body"
    "decode_with_prefix kind (trim (encode_with_prefix kind body)) = Inr body"
proof -
  let ?t = "sign_prefix kind @ base64url_encode body"
  have g: "\<forall>b \<in> set ?t. 0x21 \<le> b \<and> b \<le> 0x7F" using assms b64_graphic by (auto simp: sign_prefix_def)
  have "?t \<noteq> []" by (simp add: sign_prefix_def)
  then show t: "trim (encode_with_prefix kind body) = ?t" using trim_line [OF g] by (simp add: encode_with_prefix_def)
  show "decode_with_prefix kind (encode_with_prefix kind body) = Inr body"
    "decode_with_prefix kind (trim (encode_with_prefix kind body)) = Inr body"
    using trim_graphic [OF g] by (simp_all add: decode_with_prefix_def t base64url_round_trip ok_or_def)
qed

lemma sig_text_reads: "length sig = 64 \<Longrightarrow> sig_from_text (sig_to_text sig) = Inr sig"
  "length sig = 64 \<Longrightarrow> sig_from_text (trim (sig_to_text sig)) = Inr sig"
  using decode_encode_prefix [of "lit ''sig''" sig] by (simp_all add: sig_from_text_def sig_to_text_def)

lemma sig_text_graphic: "x \<in> set (trim (sig_to_text sig)) \<Longrightarrow> 0x21 \<le> x \<and> x \<le> 0x7F"
  using decode_encode_prefix(1) [of "lit ''sig''" sig] b64_graphic by (auto simp: sig_to_text_def sign_prefix_def)

section \<open>The header line goes in and comes out\<close>

lemma blank_line_Cons:
  "blank_line (x # ys) = (if x = 0x0A \<and> ys \<noteq> [] \<and> hd ys = 0x0A then Some 0 else map_option Suc (blank_line ys))"
  by (cases ys) auto

lemma blank_line_append: "blank_line (h @ [0x0A]) = None \<Longrightarrow> blank_line (h @ 0x0A # 0x0A # t) = Some (length h)"
  by (induction h) (auto simp: blank_line_Cons hd_append simp del: blank_line.simps split: if_splits)

lemma blank_line_Some: "blank_line b = Some p \<Longrightarrow> \<exists>h t. b = h @ 0x0A # 0x0A # t \<and> length h = p \<and> blank_line (h @ [0x0A]) = None"
proof (induction b arbitrary: p)
  case (Cons x ys)
  show ?case
  proof (cases "x = 0x0A \<and> ys \<noteq> [] \<and> hd ys = 0x0A")
    case True
    then have "x # ys = 0x0A # 0x0A # tl ys" "p = 0" using Cons.prems by (cases ys; simp)+
    then show ?thesis by (intro exI [of _ "[] :: bytes"] exI [of _ "tl ys"]) simp
  next
    case False
    then obtain q where q: "blank_line ys = Some q" "p = Suc q" using Cons.prems by (auto simp: blank_line_Cons simp del: blank_line.simps)
    obtain h t where h: "ys = h @ 0x0A # 0x0A # t" "length h = q" "blank_line (h @ [0x0A]) = None"
      using Cons.IH [OF q(1)] by blast
    have "blank_line ((x # h) @ [0x0A]) = None" using False h by (cases h) (auto simp: blank_line_Cons simp del: blank_line.simps)
    then show ?thesis using h q by (intro exI [of _ "x # h"] exI [of _ t]) auto
  qed
qed simp

lemma blank_line_more:
  assumes "blank_line (h @ [0x0A]) = None" "0x0A \<notin> set l" "l \<noteq> []"
  shows "blank_line (h @ 0x0A # l @ [0x0A]) = None"
proof -
  have free: "blank_line (l @ [0x0A]) = None" if "0x0A \<notin> set l" for l
    using that
  proof (induction l)
    case (Cons x l)
    then show ?case by (auto simp: blank_line_Cons hd_append simp del: blank_line.simps)
  qed simp
  show ?thesis
    using assms(1)
  proof (induction h)
    case Nil
    have "hd l \<noteq> 0x0A" using assms(2,3) hd_in_set [of l] by metis
    then show ?case using free [OF assms(2)] assms(3) by (auto simp: blank_line_Cons hd_append simp del: blank_line.simps)
  next
    case (Cons x h)
    then show ?case by (auto simp: blank_line_Cons hd_append simp del: blank_line.simps split: if_splits)
  qed
qed

lemma locate_from_bounds: "locate_from start s = Some (i, j) \<Longrightarrow> start \<le> i \<and> i \<le> j"
  by (induction start s rule: locate_from.induct) (subst (asm) (2) locate_from.simps, fastforce simp: Let_def split: if_splits)

lemma line_len_line: "0x0A \<notin> set l \<Longrightarrow> line_len (l @ 0x0A # t) = length l + 1"
  by (simp add: line_len_def split_first_append)

text \<open>A header block that ends with its line and holds no signature is passed over.\<close>

lemma locate_from_skip:
  "locate_from start (h @ [0x0A]) = None \<Longrightarrow> locate_from start (h @ 0x0A # t) = locate_from (start + length h + 1) t"
proof (induction "length h" arbitrary: start h rule: less_induct)
  case less
  obtain l r where l: "h @ [0x0A] = l @ 0x0A # r" "0x0A \<notin> set l"
    using split_list_first [of "0x0A" "h @ [0x0A]"] by auto
  have n: "line_len (h @ [0x0A]) = Suc (length l)" "line_len (h @ 0x0A # t) = Suc (length l)"
  proof -
    show "line_len (h @ [0x0A]) = Suc (length l)" unfolding l(1) using line_len_line [OF l(2)] by simp
    have "h @ 0x0A # t = l @ 0x0A # (r @ t)" using l(1) by (metis append.assoc append_Cons append_Nil)
    then show "line_len (h @ 0x0A # t) = Suc (length l)" using line_len_line [OF l(2)] by (metis Suc_eq_plus1)
  qed
  have long: "length l \<le> length h" using arg_cong [OF l(1), of length] by simp
  then have tk: "take (Suc (length l)) (h @ 0x0A # t) = take (Suc (length l)) (h @ [0x0A])"
    by (cases "length l = length h") (simp_all add: take_Cons')
  have none: "strip_prefix (lit ''alt-sig '') (take (Suc (length l)) (h @ [0x0A])) = None"
    "locate_from (start + (Suc (length l))) (drop (Suc (length l)) (h @ [0x0A])) = None"
    using less.prems n(1) by (subst (asm) locate_from.simps, simp add: Let_def del: lit_def split: if_splits)+
  have step: "locate_from start (h @ 0x0A # t) = locate_from (start + (Suc (length l))) (drop (Suc (length l)) (h @ 0x0A # t))"
    using none(1) by (subst locate_from.simps) (simp add: n(2) tk Let_def del: lit_def drop_append take_append)
  show ?case
  proof (cases "length l = length h")
    case True
    then show ?thesis unfolding step by simp
  next
    case False
    then have lt: "length l < length h" using long by simp
    then have d: "drop (Suc (length l)) (h @ ys) = drop (Suc (length l)) h @ ys" for ys by simp
    have "locate_from (start + (Suc (length l))) (drop (Suc (length l)) h @ [0x0A]) = None" using none(2) by (simp only: d)
    from less.hyps [OF _ this] lt show ?thesis unfolding step d by (cases "length h") auto
  qed
qed

lemma locate_from_sig:
  assumes "0x0A \<notin> set l"
  shows "locate_from start (lit ''alt-sig '' @ l @ [0x0A]) = Some (start, start + length l + 9)"
proof -
  have "0x0A \<notin> set (lit ''alt-sig '' @ l)" using assms by auto
  then have "line_len ((lit ''alt-sig '' @ l) @ 0x0A # []) = length l + 9" by (subst line_len_line) simp_all
  then show ?thesis by (subst locate_from.simps) (simp add: Let_def)
qed

text \<open>What the header line must not hold.\<close>

definition signer_ok :: "bytes \<Rightarrow> bool" where
  "signer_ok who \<longleftrightarrow> utf8 who \<and> 0x20 \<notin> set who \<and> 0x0A \<notin> set who"

lemma embed_extract_known:
  assumes plain: "extract_alt_sig b = Inr None" and who: "signer_ok who" and sig: "length sig = 64"
  shows "\<exists>b'. embed_alt_sig b (alt_sig_line who sig) = Some b' \<and>
    extract_alt_sig b' = Inr (Some \<lparr>as_principal = who, as_sig = sig, as_canonical = b\<rparr>)"
proof -
  obtain p where p: "blank_line b = Some p" and no: "locate_from 0 (take (Suc p) b) = None"
    using plain by (auto simp: extract_alt_sig_def find_separator_def locate_alt_sig_line_def bindR_eq_Inr split: option.splits prod.splits)
  obtain h t where b: "b = h @ 0x0A # 0x0A # t" "length h = p" "blank_line (h @ [0x0A]) = None"
    using blank_line_Some [OF p] by blast
  have no': "locate_from 0 (h @ [0x0A]) = None" using no b by simp
  let ?text = "trim (sig_to_text sig)"
  let ?l = "who @ 0x20 # ?text"
  have nl: "0x0A \<notin> set ?l" using who sig_text_graphic [of "0x0A" sig] by (auto simp: signer_ok_def)
  have al: "alt_sig_line who sig = lit ''alt-sig '' @ ?l @ [0x0A]" by (simp add: alt_sig_line_def del: lit_def)
  let ?b = "h @ 0x0A # (lit ''alt-sig '' @ ?l) @ [0x0A] @ 0x0A # t"
  have embed: "embed_alt_sig b (alt_sig_line who sig) = Some ?b"
    using p b by (simp add: embed_alt_sig_def find_separator_def al del: lit_def)
  have "blank_line (h @ 0x0A # (lit ''alt-sig '' @ ?l) @ [0x0A]) = None"
    using blank_line_more [OF b(3), of "lit ''alt-sig '' @ ?l"] nl by simp
  then have sep: "find_separator ?b = Some (length h + length ?l + 10)"
    using blank_line_append [of "h @ 0x0A # lit ''alt-sig '' @ ?l" t] by (simp add: find_separator_def)
  let ?hb = "h @ 0x0A # lit ''alt-sig '' @ ?l @ [0x0A]"
  have "?b = ?hb @ 0x0A # t" "length ?hb = length h + length ?l + 10" by simp_all
  then have hb: "take (length h + length ?l + 10) ?b = ?hb" and rest: "drop (length h + length ?l + 10) ?b = 0x0A # t"
    by (metis append_eq_conv_conj)+
  have front: "take (length h + 1) ?b = h @ [0x0A]" by simp
  have span: "length h + length ?l + 10 - (length h + 1) = length ?l + 9" by simp
  have loc: "locate_alt_sig_line ?hb = Some (length h + 1, length h + length ?l + 10)"
    using locate_from_skip [OF no'] locate_from_sig [OF nl] by (simp add: locate_alt_sig_line_def del: lit_def)
  have cut: "take (length ?l + 9) (drop (length h + 1) ?hb) = lit ''alt-sig '' @ ?l @ [0x0A]" by simp
  have u: "utf8 ?text" using sig_text_graphic by (intro utf8_ascii) (auto simp: word_le_nat_alt word_less_nat_alt)
  have "split_first 0x20 (who @ 0x20 # ?text) = Some (who, ?text)"
    using who by (intro split_first_append) (simp add: signer_ok_def)
  then have parse: "parse_sig_line (lit ''alt-sig '' @ ?l @ [0x0A]) = Inr (who, sig)"
    using who u sig_text_reads(2) [OF sig] by (simp add: parse_sig_line_def signer_ok_def butlast_append map_err_def)
  have "extract_alt_sig ?b = Inr (Some \<lparr>as_principal = who, as_sig = sig, as_canonical = b\<rparr>)"
    unfolding extract_alt_sig_def sep option.case hb loc prod.case span cut parse rest front by (simp add: b(1))
  with embed show ?thesis by blast
qed

section \<open>Properties\<close>

text \<open>C33. The signature of a commit goes in and comes out: a commit that carries none, signed with a 64-byte
  signature in the name of a principal without white space that would break the line, is a commit from which the server reads
  that principal, that signature and, as the signed payload, exactly the unsigned bytes; the text of a
  signature alone reads back too.\<close>

theorem commit_signature_round_trip:
  assumes "extract_alt_sig b = Inr None" and "signer_ok who" and "length sig = 64"
  shows "sig_from_text (sig_to_text sig) = Inr sig \<and>
    (\<exists>b'. embed_alt_sig b (alt_sig_line who sig) = Some b' \<and>
      extract_alt_sig b' = Inr (Some \<lparr>as_principal = who, as_sig = sig, as_canonical = b\<rparr>))"
  using sig_text_reads(1) [OF assms(3)] embed_extract_known [OF assms] by blast

theorem commit_signature_round_trip_witness:
  "\<exists>b'. embed_alt_sig (lit ''tree x'' @ [0x0A, 0x0A, 0x6D]) (alt_sig_line (lit ''bob'') (replicate 64 7)) = Some b' \<and>
    extract_alt_sig b' = Inr (Some \<lparr>as_principal = lit ''bob'', as_sig = replicate 64 7, as_canonical = lit ''tree x'' @ [0x0A, 0x0A, 0x6D]\<rparr>)"
proof -
  have "extract_alt_sig (lit ''tree x'' @ [0x0A, 0x0A, 0x6D]) = Inr None"
    by (simp add: extract_alt_sig_def find_separator_def locate_alt_sig_line_def locate_from.simps line_len_def)
  moreover have "utf8 (lit ''bob'')" by (rule utf8_ascii) simp
  then have "signer_ok (lit ''bob'')" by (simp add: signer_ok_def)
  ultimately show ?thesis using commit_signature_round_trip [of _ "lit ''bob''" "replicate 64 7"] by (simp del: lit_def)
qed

end
