(* ===== verification/Group_Commit.thy ===== *)
theory Group_Commit
  imports Prelude
begin

text \<open>
  The group commit of the daemon and the server (\<^verbatim>\<open>alt-cli/src/group_commit.rs\<close>): a commit
  takes a ticket when its bytes are appended and then waits until a flush has covered it.  One
  waiting thread at a time leads, that is flushes for all; the mutex makes every pass of the loop of
  \<^verbatim>\<open>await_durable_with\<close> atomic, up to the places where it is released: the condition variable
  and the flush.
\<close>

section \<open>The code\<close>

record group_inner =
  gi_next_ticket :: u64
  gi_durable :: u64
  gi_syncing :: bool
  gi_last_error :: "bytes option"
  gi_fsync_count :: u64

definition group_new :: group_inner where
  "group_new =
     \<lparr>gi_next_ticket = 0, gi_durable = 0, gi_syncing = False, gi_last_error = None, gi_fsync_count = 0\<rparr>"

definition group_assign :: "group_inner \<Rightarrow> u64 \<times> group_inner" where
  "group_assign g = (let t = gi_next_ticket g + 1 in (t, g\<lparr>gi_next_ticket := t\<rparr>))"

text \<open>What one pass of the loop comes to: it returns, waits on the condition variable, or leads a flush
  that covers the tickets up to the given one.\<close>

datatype await_turn = AwaitOk | AwaitWait | AwaitErr bytes | AwaitLead u64 group_inner

definition await_pass :: "group_inner \<Rightarrow> u64 \<Rightarrow> bool \<Rightarrow> await_turn" where
  "await_pass g ticket led =
     (if ticket \<le> gi_durable g then AwaitOk
      else if gi_syncing g then AwaitWait
      else if led then
        AwaitErr (case gi_last_error g of Some e \<Rightarrow> e | None \<Rightarrow> lit ''durability failed'')
      else AwaitLead (gi_next_ticket g) (g\<lparr>gi_syncing := True\<rparr>))"

text \<open>The leader has the mutex again; it keeps it through its next pass.\<close>

definition flush_done :: "bytes + u64 \<Rightarrow> group_inner \<Rightarrow> group_inner" where
  "flush_done outcome g =
     (let g' = g\<lparr>gi_syncing := False, gi_fsync_count := gi_fsync_count g + 1\<rparr> in
      case outcome of
        Inr covered \<Rightarrow> g'\<lparr>gi_durable := max (gi_durable g) covered, gi_last_error := None\<rparr>
      | Inl e \<Rightarrow> g'\<lparr>gi_last_error := Some e\<rparr>)"

section \<open>Threads\<close>

text \<open>Where a thread stands: before its commit, in the loop, waiting, flushing up to a ticket, or returned.\<close>

datatype phase =
    Idle
  | Trying u64
  | Waiting u64
  | Flushing u64 u64
  | Returned u64 "bytes + unit"

text \<open>\<open>gw_synced\<close> is the last ticket whose bytes, and those of all before it, are on disk.\<close>

record group_world =
  gw_group :: group_inner
  gw_synced :: u64
  gw_phase :: "nat \<Rightarrow> phase"

definition world_new :: group_world where
  "world_new = \<lparr>gw_group = group_new, gw_synced = 0, gw_phase = \<lambda>_. Idle\<rparr>"

definition resume :: "await_turn \<Rightarrow> u64 \<Rightarrow> phase" where
  "resume r ticket =
     (case r of
        AwaitOk \<Rightarrow> Returned ticket (Inr ())
      | AwaitWait \<Rightarrow> Waiting ticket
      | AwaitErr e \<Rightarrow> Returned ticket (Inl e)
      | AwaitLead c _ \<Rightarrow> Flushing ticket c)"

text \<open>\<^verbatim>\<open>notify_all\<close>\<close>

definition notified :: "(nat \<Rightarrow> phase) \<Rightarrow> nat \<Rightarrow> phase" where
  "notified ph p = (case ph p of Waiting t \<Rightarrow> Trying t | x \<Rightarrow> x)"

definition after_flush :: "bytes + u64 \<Rightarrow> nat \<Rightarrow> u64 \<Rightarrow> u64 \<Rightarrow> group_world \<Rightarrow> group_world" where
  "after_flush outcome p ticket synced w =
     (let g = flush_done outcome (gw_group w)
      in w\<lparr>gw_group := g, gw_synced := synced,
           gw_phase := (notified (gw_phase w))(p := resume (await_pass g ticket True) ticket)\<rparr>)"

text \<open>The steps.  A thread may wake on its own.  A flush that succeeds has written at least the bytes of the
  tickets handed out when it began; one that fails may have written some.\<close>

inductive group_step :: "group_world \<Rightarrow> group_world \<Rightarrow> bool" where
  Commit: "gw_phase w p = Idle \<Longrightarrow> gi_next_ticket (gw_group w) \<noteq> - 1 \<Longrightarrow> group_assign (gw_group w) = (t, g) \<Longrightarrow>
    group_step w (w\<lparr>gw_group := g, gw_phase := (gw_phase w)(p := Trying t)\<rparr>)"
| Pass: "gw_phase w p = Trying t \<Longrightarrow> await_pass (gw_group w) t False = r \<Longrightarrow>
    g = (case r of AwaitLead _ g \<Rightarrow> g | _ \<Rightarrow> gw_group w) \<Longrightarrow>
    group_step w (w\<lparr>gw_group := g, gw_phase := (gw_phase w)(p := resume r t)\<rparr>)"
| Wake: "gw_phase w p = Waiting t \<Longrightarrow> group_step w (w\<lparr>gw_phase := (gw_phase w)(p := Trying t)\<rparr>)"
| Flushed: "gw_phase w p = Flushing t c \<Longrightarrow> c \<le> s \<Longrightarrow> gw_synced w \<le> s \<Longrightarrow> s \<le> gi_next_ticket (gw_group w) \<Longrightarrow>
    group_step w (after_flush (Inr c) p t s w)"
| Failed: "gw_phase w p = Flushing t c \<Longrightarrow> gw_synced w \<le> s \<Longrightarrow> s \<le> gi_next_ticket (gw_group w) \<Longrightarrow>
    group_step w (after_flush (Inl e) p t s w)"

inductive_cases group_stepE: "group_step w w'"

section \<open>The invariant\<close>

definition phase_ok :: "group_world \<Rightarrow> nat \<Rightarrow> bool" where
  "phase_ok w p \<longleftrightarrow>
     (case gw_phase w p of
        Idle \<Rightarrow> True
      | Trying t \<Rightarrow> t \<le> gi_next_ticket (gw_group w)
      | Waiting t \<Rightarrow> t \<le> gi_next_ticket (gw_group w) \<and> gi_syncing (gw_group w)
      | Flushing t c \<Rightarrow>
          t \<le> c \<and> c \<le> gi_next_ticket (gw_group w) \<and> gi_durable (gw_group w) < t \<and> gi_syncing (gw_group w)
      | Returned t r \<Rightarrow> r = Inr () \<longrightarrow> t \<le> gw_synced w)"

definition flushing :: "group_world \<Rightarrow> nat \<Rightarrow> bool" where
  "flushing w p \<longleftrightarrow> (\<exists>t c. gw_phase w p = Flushing t c)"

definition group_ok :: "group_world \<Rightarrow> bool" where
  "group_ok w \<longleftrightarrow>
     gi_durable (gw_group w) \<le> gw_synced w \<and> gw_synced w \<le> gi_next_ticket (gw_group w) \<and>
     (gi_syncing (gw_group w) \<longrightarrow> (\<exists>p. flushing w p)) \<and>
     (\<forall>p q. flushing w p \<and> flushing w q \<longrightarrow> p = q) \<and>
     (\<forall>p. phase_ok w p)"

lemma word_less_Suc: "x \<noteq> - 1 \<Longrightarrow> x < x + 1" for x :: u64
proof -
  assume x: "x \<noteq> - 1"
  have "unat x \<noteq> 2 ^ 64 - 1"
  proof
    assume "unat x = 2 ^ 64 - 1"
    then have "unat x = unat (- 1 :: u64)" by (simp add: unsigned_minus_1_eq_mask mask_eq_exp_minus_1)
    then show False using x by (simp only: word_unat_eq_iff)
  qed
  moreover have "unat x < 2 ^ 64" by (rule less_le_trans [OF unsigned_less]) simp
  ultimately have "unat x + 1 < 2 ^ 64" by linarith
  then have "unat (x + 1) = unat x + 1" by (simp add: unat_word_ariths)
  then show ?thesis by (simp add: word_less_nat_alt)
qed

lemma group_okI:
  "gi_durable (gw_group w) \<le> gw_synced w \<Longrightarrow> gw_synced w \<le> gi_next_ticket (gw_group w) \<Longrightarrow>
   (gi_syncing (gw_group w) \<Longrightarrow> \<exists>p. flushing w p) \<Longrightarrow> (\<And>p q. flushing w p \<Longrightarrow> flushing w q \<Longrightarrow> p = q) \<Longrightarrow>
   (\<And>p. phase_ok w p) \<Longrightarrow> group_ok w"
  unfolding group_ok_def by blast

lemma group_okD:
  assumes "group_ok w"
  shows "gi_durable (gw_group w) \<le> gw_synced w" "gw_synced w \<le> gi_next_ticket (gw_group w)"
    "gi_syncing (gw_group w) \<Longrightarrow> \<exists>p. flushing w p" "flushing w p \<Longrightarrow> flushing w q \<Longrightarrow> p = q" "phase_ok w p"
  using assms unfolding group_ok_def by blast+

lemma group_new_ok: "group_ok world_new"
  by (simp add: group_ok_def world_new_def group_new_def flushing_def phase_ok_def)

lemma phase_ok_other:
  assumes "phase_ok w q" "gw_phase w' q = gw_phase w q" "gi_next_ticket (gw_group w) \<le> gi_next_ticket (gw_group w')"
    "gi_syncing (gw_group w) \<longrightarrow> gi_syncing (gw_group w')" "gi_durable (gw_group w') = gi_durable (gw_group w)"
    "gw_synced w \<le> gw_synced w'"
  shows "phase_ok w' q"
  using assms by (auto simp: phase_ok_def split: phase.splits intro: order_trans)

lemma commit_keeps:
  assumes ok: "group_ok w" and p: "gw_phase w p = Idle" and n: "gi_next_ticket (gw_group w) \<noteq> - 1"
    and a: "group_assign (gw_group w) = (t, g)"
  shows "group_ok (w\<lparr>gw_group := g, gw_phase := (gw_phase w)(p := Trying t)\<rparr>)" (is "group_ok ?w")
proof -
  let ?n = "gi_next_ticket (gw_group w)"
  have g: "g = (gw_group w)\<lparr>gi_next_ticket := ?n + 1\<rparr>" "t = ?n + 1" using a by (auto simp: group_assign_def Let_def)
  have less: "?n < ?n + 1" using word_less_Suc [OF n] .
  have fl: "flushing ?w q \<longleftrightarrow> flushing w q" for q using p by (auto simp: flushing_def)
  have "phase_ok ?w q" for q
  proof (cases "q = p")
    case False
    have "phase_ok w q" using ok by (simp add: group_ok_def)
    then show ?thesis by (rule phase_ok_other) (use False less in \<open>simp_all add: g\<close>)
  qed (simp add: phase_ok_def g)
  then have ph: "\<forall>q. phase_ok ?w q" by blast
  have "gi_durable (gw_group w) \<le> gw_synced w" "gw_synced w \<le> ?n" "gi_syncing (gw_group w) \<longrightarrow> (\<exists>p. flushing w p)"
    "\<forall>p q. flushing w p \<and> flushing w q \<longrightarrow> p = q" using ok by (simp_all add: group_ok_def)
  moreover from this(2) less have "gw_synced w \<le> ?n + 1" by (rule order_trans [OF _ less_imp_le])
  ultimately show ?thesis using ph unfolding group_ok_def fl by (simp add: g(1))
qed

lemma pass_keeps:
  assumes ok: "group_ok w" and p: "gw_phase w p = Trying t" and r: "await_pass (gw_group w) t False = r"
    and g: "g = (case r of AwaitLead _ g \<Rightarrow> g | _ \<Rightarrow> gw_group w)"
  shows "group_ok (w\<lparr>gw_group := g, gw_phase := (gw_phase w)(p := resume r t)\<rparr>)" (is "group_ok ?w")
proof -
  have o: "gi_durable (gw_group w) \<le> gw_synced w" "gw_synced w \<le> gi_next_ticket (gw_group w)"
    "gi_syncing (gw_group w) \<Longrightarrow> \<exists>p. flushing w p" "\<And>p q. flushing w p \<Longrightarrow> flushing w q \<Longrightarrow> p = q" "\<And>p. phase_ok w p"
    using ok by (auto simp: group_ok_def)
  have t: "t \<le> gi_next_ticket (gw_group w)" using o(5) [of p] p by (simp add: phase_ok_def)
  have np: "\<not> flushing w p" using p by (simp add: flushing_def)
  have some: "gi_syncing (gw_group w)" if "flushing w q" for q
    using o(5) [of q] that by (auto simp: phase_ok_def flushing_def)
  have other: "phase_ok ?w q" if "q \<noteq> p" for q
    by (rule phase_ok_other [OF o(5) [of q]]) (use that g r in \<open>auto simp: await_pass_def split: if_splits\<close>)
  have fl: "flushing ?w q \<longleftrightarrow> (if q = p then (\<exists>c. resume r t = Flushing t c) else flushing w q)" for q
    by (auto simp: flushing_def resume_def split: await_turn.splits)
  consider (ok) "r = AwaitOk" "t \<le> gi_durable (gw_group w)"
    | (wait) "r = AwaitWait" "gi_syncing (gw_group w)"
    | (lead) "r = AwaitLead (gi_next_ticket (gw_group w)) ((gw_group w)\<lparr>gi_syncing := True\<rparr>)"
        "\<not> t \<le> gi_durable (gw_group w)" "\<not> gi_syncing (gw_group w)"
    using r by (auto simp: await_pass_def split: if_splits)
  then show ?thesis
  proof cases
    case ok
    then have "phase_ok ?w q" for q using other o(1) by (cases "q = p") (auto simp: phase_ok_def resume_def)
    moreover have same: "flushing ?w q \<longleftrightarrow> flushing w q" for q using fl [of q] ok(1) np by (auto simp: resume_def)
    ultimately show ?thesis using ok o(1-4) g by (intro group_okI) (auto simp: same)
  next
    case wait
    then have "phase_ok ?w q" for q using other t g by (cases "q = p") (auto simp: phase_ok_def resume_def)
    moreover have same: "flushing ?w q \<longleftrightarrow> flushing w q" for q using fl [of q] wait(1) np by (auto simp: resume_def)
    ultimately show ?thesis using wait o(1-4) g by (intro group_okI) (auto simp: same)
  next
    case lead
    then have "phase_ok ?w q" for q using other t g by (cases "q = p") (auto simp: phase_ok_def resume_def)
    moreover have same: "flushing ?w q \<longleftrightarrow> q = p" for q using fl [of q] some lead(1,3) by (auto simp: resume_def)
    ultimately show ?thesis using lead o(1,2) g by (intro group_okI) (auto simp: same)
  qed
qed

text \<open>Where the leader goes after its flush: it returns, with its own error if the flush failed.\<close>

lemma leader_returns:
  assumes ok: "group_ok w" and p: "gw_phase w p = Flushing t c" and out: "\<And>x. outcome = Inr x \<Longrightarrow> x = c"
  shows "resume (await_pass (flush_done outcome (gw_group w)) t True) t = Returned t (map_sum (\<lambda>e. e) (\<lambda>_. ()) outcome)"
proof -
  have "phase_ok w p" using ok by (simp add: group_ok_def)
  then have "t \<le> c" "\<not> t \<le> gi_durable (gw_group w)" using p by (auto simp: phase_ok_def)
  then show ?thesis
    using out by (cases outcome) (auto simp: flush_done_def await_pass_def resume_def Let_def max_def)
qed

lemma flush_keeps:
  assumes ok: "group_ok w" and p: "gw_phase w p = Flushing t c" and s: "gw_synced w \<le> s" "s \<le> gi_next_ticket (gw_group w)"
    and out: "\<And>x. outcome = Inr x \<Longrightarrow> x = c \<and> c \<le> s"
  shows "group_ok (after_flush outcome p t s w)" (is "group_ok ?w")
proof -
  let ?g = "flush_done outcome (gw_group w)"
  have o: "gi_durable (gw_group w) \<le> gw_synced w" "gw_synced w \<le> gi_next_ticket (gw_group w)"
    "\<And>p q. flushing w p \<Longrightarrow> flushing w q \<Longrightarrow> p = q" "\<And>p. phase_ok w p"
    using ok by (auto simp: group_ok_def)
  have t: "t \<le> c" using o(4) [of p] p by (simp add: phase_ok_def)
  have w: "gw_group ?w = ?g" "gw_synced ?w = s"
    "gw_phase ?w = (notified (gw_phase w))(p := Returned t (map_sum (\<lambda>e. e) (\<lambda>_. ()) outcome))"
    using leader_returns [OF ok p, of outcome] out by (simp_all add: after_flush_def Let_def)
  have g: "gi_next_ticket ?g = gi_next_ticket (gw_group w)" "\<not> gi_syncing ?g"
    by (simp_all add: flush_done_def Let_def split: sum.split)
  have d: "gi_durable ?g \<le> s" using o(1) s(1) out by (cases outcome) (auto simp: flush_done_def Let_def)
  have "flushing w p" using p by (auto simp: flushing_def)
  then have one: "\<not> flushing w q" if "q \<noteq> p" for q using o(3) that by blast
  have none: "\<not> flushing ?w q" for q
    using one [of q] by (cases "q = p") (auto simp: w flushing_def notified_def split: phase.splits)
  have "phase_ok ?w q" for q
  proof (cases "q = p")
    case True
    then show ?thesis using t out w(2,3) by (cases outcome) (auto simp: phase_ok_def)
  next
    case False
    then show ?thesis using o(4) [of q] one [OF False] s
      by (auto simp: phase_ok_def w g notified_def flushing_def split: phase.splits intro: order_trans)
  qed
  then show ?thesis using none g d s(2) by (intro group_okI) (simp_all add: w)
qed

lemma group_step_keeps: "group_step w w' \<Longrightarrow> group_ok w \<Longrightarrow> group_ok w'"
proof (induction rule: group_step.induct)
  case (Wake w p t)
  have fl: "flushing (w\<lparr>gw_phase := (gw_phase w)(p := Trying t)\<rparr>) q \<longleftrightarrow> flushing w q" for q
    using Wake(1) by (auto simp: flushing_def)
  have "phase_ok (w\<lparr>gw_phase := (gw_phase w)(p := Trying t)\<rparr>) q" for q
    using group_okD(5) [OF Wake(2), of q] group_okD(5) [OF Wake(2), of p] Wake(1)
    by (cases "q = p") (auto simp: phase_ok_def split: phase.splits)
  then show ?case using group_okD [OF Wake(2)] by (intro group_okI) (auto simp: fl)
qed (auto intro: commit_keeps pass_keeps flush_keeps)

abbreviation group_steps :: "group_world \<Rightarrow> group_world \<Rightarrow> bool" where
  "group_steps \<equiv> group_step\<^sup>*\<^sup>*"

lemma group_steps_keep: "group_steps w w' \<Longrightarrow> group_ok w \<Longrightarrow> group_ok w'"
  by (induction rule: rtranclp_induct) (auto intro: group_step_keeps)

lemma group_reachable_ok: "group_steps world_new w \<Longrightarrow> group_ok w"
  using group_steps_keep group_new_ok by blast

section \<open>Everyone can return\<close>

lemma flush_all:
  assumes ok: "group_ok w" and p: "gw_phase w p = Flushing t c"
  shows "\<exists>w'. group_step w w' \<and> gw_phase w' p = Returned t (Inr ()) \<and> \<not> gi_syncing (gw_group w') \<and>
    (\<forall>q. q \<noteq> p \<longrightarrow> gw_phase w' q = notified (gw_phase w) q)"
proof -
  let ?n = "gi_next_ticket (gw_group w)"
  let ?w = "after_flush (Inr c) p t ?n w"
  have "c \<le> ?n" using group_okD(5) [OF ok, of p] p by (simp add: phase_ok_def)
  then have "group_step w ?w" using p group_okD(2) [OF ok] by (intro Flushed) auto
  moreover have "gw_phase ?w p = Returned t (Inr ())"
    using leader_returns [OF ok p, of "Inr c"] by (simp add: after_flush_def Let_def)
  moreover have "\<not> gi_syncing (gw_group ?w)" by (simp add: after_flush_def flush_done_def Let_def)
  moreover have "\<forall>q. q \<noteq> p \<longrightarrow> gw_phase ?w q = notified (gw_phase w) q" by (simp add: after_flush_def Let_def)
  ultimately show ?thesis by blast
qed

lemma idle_disk_returns:
  assumes ok: "group_ok w" and p: "gw_phase w p = Trying t" and idle: "\<not> gi_syncing (gw_group w)"
  shows "\<exists>w'. group_steps w w' \<and> gw_phase w' p = Returned t (Inr ())"
proof -
  obtain w1 where w1: "group_step w w1"
    "gw_phase w1 p = Returned t (Inr ()) \<or> (\<exists>c. gw_phase w1 p = Flushing t c)"
  proof (cases "t \<le> gi_durable (gw_group w)")
    case True
    then show ?thesis using that [OF Pass [OF p refl refl]] by (simp add: await_pass_def resume_def)
  next
    case False
    then show ?thesis using that [OF Pass [OF p refl refl]] idle by (simp add: await_pass_def resume_def)
  qed
  have ok1: "group_ok w1" using group_step_keeps [OF w1(1) ok] .
  from w1(2) show ?thesis
  proof
    assume "\<exists>c. gw_phase w1 p = Flushing t c"
    then obtain c where "gw_phase w1 p = Flushing t c" by blast
    from flush_all [OF ok1 this] w1(1) show ?thesis by (meson converse_rtranclp_into_rtranclp r_into_rtranclp)
  qed (use w1(1) in blast)
qed

lemma trying_returns:
  assumes ok: "group_ok w" and p: "gw_phase w p = Trying t"
  shows "\<exists>w'. group_steps w w' \<and> gw_phase w' p = Returned t (Inr ())"
proof (cases "gi_syncing (gw_group w)")
  case True
  then obtain q u c where q: "gw_phase w q = Flushing u c" using group_okD(3) [OF ok] by (auto simp: flushing_def)
  obtain w1 where w1: "group_step w w1" "\<not> gi_syncing (gw_group w1)"
      "\<forall>r. r \<noteq> q \<longrightarrow> gw_phase w1 r = notified (gw_phase w) r"
    using flush_all [OF ok q] by blast
  have "q \<noteq> p" using p q by auto
  then have "gw_phase w1 p = Trying t" using w1(3) p by (simp add: notified_def)
  from idle_disk_returns [OF group_step_keeps [OF w1(1) ok] this w1(2)] w1(1) show ?thesis
    by (meson converse_rtranclp_into_rtranclp)
qed (rule idle_disk_returns [OF ok p])

section \<open>No more flushes than commits\<close>

definition returned :: "group_world \<Rightarrow> nat set" where
  "returned w = {p. \<exists>t r. gw_phase w p = Returned t r}"

definition flushes_bounded :: "group_world \<Rightarrow> bool" where
  "flushes_bounded w \<longleftrightarrow> finite (returned w) \<and> unat (gi_fsync_count (gw_group w)) \<le> card (returned w)"

lemma unat_Suc_le: "unat (x + 1) \<le> Suc (unat x)" for x :: u64
  by (simp add: unat_word_ariths)

lemma notified_returned: "(\<exists>t r. notified ph q = Returned t r) \<longleftrightarrow> (\<exists>t r. ph q = Returned t r)"
  by (cases "ph q") (auto simp: notified_def)

lemma returned_insert:
  assumes "flushes_bounded w" "returned w' = insert p (returned w)" "p \<notin> returned w"
    "gi_fsync_count (gw_group w') = gi_fsync_count (gw_group w) + 1"
  shows "flushes_bounded w'"
  using assms unat_Suc_le [of "gi_fsync_count (gw_group w)"] by (simp add: flushes_bounded_def)

lemma returned_more:
  assumes "flushes_bounded w" "returned w \<subseteq> returned w'" "finite (returned w')"
    "gi_fsync_count (gw_group w') = gi_fsync_count (gw_group w)"
  shows "flushes_bounded w'"
  using assms card_mono [OF assms(3,2)] by (simp add: flushes_bounded_def)

lemma flush_bounded:
  assumes ok: "group_ok w" and p: "gw_phase w p = Flushing t c" and out: "\<And>x. outcome = Inr x \<Longrightarrow> x = c"
    and b: "flushes_bounded w"
  shows "flushes_bounded (after_flush outcome p t s w)"
proof (rule returned_insert [OF b])
  show "returned (after_flush outcome p t s w) = insert p (returned w)"
    using leader_returns [OF ok p, of outcome] out
    by (auto simp: returned_def after_flush_def notified_returned Let_def)
  show "p \<notin> returned w" using p by (simp add: returned_def)
  show "gi_fsync_count (gw_group (after_flush outcome p t s w)) = gi_fsync_count (gw_group w) + 1"
    by (simp add: after_flush_def flush_done_def Let_def split: sum.split)
qed

lemma group_step_bounded: "group_step w w' \<Longrightarrow> group_ok w \<Longrightarrow> flushes_bounded w \<Longrightarrow> flushes_bounded w'"
proof (induction rule: group_step.induct)
  case (Commit w p t g)
  have "returned (w\<lparr>gw_group := g, gw_phase := (gw_phase w)(p := Trying t)\<rparr>) = returned w"
    using Commit(1) by (auto simp: returned_def)
  then show ?case using Commit(3,5) by (auto simp: flushes_bounded_def group_assign_def Let_def)
next
  case (Pass w p t r g)
  have sub: "returned (w\<lparr>gw_group := g, gw_phase := (gw_phase w)(p := resume r t)\<rparr>) \<subseteq> insert p (returned w)"
    by (auto simp: returned_def)
  have fin: "finite (returned w)" using Pass(5) by (simp add: flushes_bounded_def)
  then have fin': "finite (returned (w\<lparr>gw_group := g, gw_phase := (gw_phase w)(p := resume r t)\<rparr>))"
    using finite_subset [OF sub] by simp
  have count: "gi_fsync_count g = gi_fsync_count (gw_group w)"
    using Pass(2,3) by (auto simp: await_pass_def split: if_splits)
  show ?case
    by (rule returned_more [OF Pass(5)])
      (use Pass(1) fin' count in \<open>auto simp: returned_def\<close>)
next
  case (Wake w p t)
  have "returned (w\<lparr>gw_phase := (gw_phase w)(p := Trying t)\<rparr>) = returned w" using Wake(1) by (auto simp: returned_def)
  then show ?case using Wake(3) by (simp add: flushes_bounded_def)
qed (auto intro: flush_bounded)

lemma group_reachable_bounded: "group_steps world_new w \<Longrightarrow> flushes_bounded w"
proof (induction rule: rtranclp_induct)
  case base
  then show ?case by (simp add: flushes_bounded_def returned_def world_new_def group_new_def)
next
  case (step w w')
  then show ?case using group_step_bounded group_reachable_ok by blast
qed

section \<open>Properties\<close>

text \<open>C14. A commit that is told it is durable is: in every run of any number of threads, with wake-ups in any
  order and flushes that fail, a thread that returns without an error has its ticket on disk, only one
  thread flushes at a time, and a thread whose flush fails returns the error of that flush and no other's.\<close>

theorem group_commit_sound:
  assumes "group_steps world_new w"
  shows "(\<forall>p t. gw_phase w p = Returned t (Inr ()) \<longrightarrow> t \<le> gw_synced w) \<and>
    (\<forall>p q. flushing w p \<and> flushing w q \<longrightarrow> p = q) \<and>
    (\<forall>p t c e s. gw_phase w p = Flushing t c \<longrightarrow> gw_phase (after_flush (Inl e) p t s w) p = Returned t (Inl e))"
proof (intro conjI allI impI)
  have ok: "group_ok w" using group_reachable_ok [OF assms] .
  show "t \<le> gw_synced w" if r: "gw_phase w p = Returned t (Inr ())" for p t
    using group_okD(5) [OF ok, of p] r by (simp add: phase_ok_def)
  show "p = q" if f: "flushing w p \<and> flushing w q" for p q using group_okD(4) [OF ok] f by blast
  show "gw_phase (after_flush (Inl e) p t s w) p = Returned t (Inl e)" if f: "gw_phase w p = Flushing t c" for p t c e s
    using leader_returns [OF ok f, of "Inl e"] by (simp add: after_flush_def Let_def)
qed

lemma one_commit: "\<exists>w. group_steps world_new w \<and> gw_phase w 7 = Returned 1 (Inr ())"
proof -
  let ?w = "world_new\<lparr>gw_group := group_new\<lparr>gi_next_ticket := 1\<rparr>, gw_phase := (gw_phase world_new)(7 := Trying 1)\<rparr>"
  have step: "group_step world_new ?w"
    by (rule Commit) (simp_all add: world_new_def group_assign_def group_new_def)
  have "group_ok ?w" using group_step_keeps [OF step group_new_ok] .
  then show ?thesis using trying_returns [of ?w 7 1] step by (auto intro: converse_rtranclp_into_rtranclp)
qed

theorem group_commit_sound_witness:
  "\<exists>w :: group_world. gw_phase w 7 = Returned 1 (Inr ()) \<and> 1 \<le> gw_synced w"
proof -
  obtain w where w: "group_steps world_new w" "gw_phase w 7 = Returned 1 (Inr ())" using one_commit by blast
  from group_commit_sound [OF w(1)] w(2) show ?thesis by (intro exI [of _ w]) simp
qed

text \<open>C23. No wake-up is lost and no thread is stuck: whenever a thread waits, another is flushing, and from every state
  a run can reach, every thread that has committed can still return with its ticket durable.\<close>

theorem group_commit_live:
  assumes "group_steps world_new w" and "gw_phase w p \<in> {Trying t, Waiting t, Flushing t c}"
  shows "(gw_phase w p = Waiting t \<longrightarrow> (\<exists>q. flushing w q)) \<and>
    (\<exists>w'. group_steps w w' \<and> gw_phase w' p = Returned t (Inr ()) \<and> t \<le> gw_synced w')"
proof
  have ok: "group_ok w" using group_reachable_ok [OF assms(1)] .
  show "gw_phase w p = Waiting t \<longrightarrow> (\<exists>q. flushing w q)"
    using group_okD(5) [OF ok, of p] group_okD(3) [OF ok] by (auto simp: phase_ok_def)
  consider "gw_phase w p = Trying t" | (wait) "gw_phase w p = Waiting t" | (flush) "gw_phase w p = Flushing t c"
    using assms(2) by blast
  then have "\<exists>w'. group_steps w w' \<and> gw_phase w' p = Returned t (Inr ())"
  proof cases
    case wait
    let ?w = "w\<lparr>gw_phase := (gw_phase w)(p := Trying t)\<rparr>"
    have step: "group_step w ?w" using wait by (rule Wake)
    from trying_returns [OF group_step_keeps [OF this ok], of p t] step show ?thesis
      by (auto intro: converse_rtranclp_into_rtranclp)
  next
    case flush
    from flush_all [OF ok this] show ?thesis by blast
  qed (rule trying_returns [OF ok])
  then obtain w' where w': "group_steps w w'" "gw_phase w' p = Returned t (Inr ())" by blast
  have "t \<le> gw_synced w'"
    using group_okD(5) [OF group_steps_keep [OF w'(1) ok], of p] w'(2) by (simp add: phase_ok_def)
  with w' show "\<exists>w'. group_steps w w' \<and> gw_phase w' p = Returned t (Inr ()) \<and> t \<le> gw_synced w'" by blast
qed

theorem group_commit_live_witness:
  "\<exists>w w'. gw_phase w 7 = Trying 1 \<and> group_steps w w' \<and> gw_phase w' 7 = Returned 1 (Inr ())"
proof -
  let ?w = "world_new\<lparr>gw_group := group_new\<lparr>gi_next_ticket := 1\<rparr>, gw_phase := (gw_phase world_new)(7 := Trying 1)\<rparr>"
  have "group_step world_new ?w"
    by (rule Commit) (simp_all add: world_new_def group_assign_def group_new_def)
  then have "group_steps world_new ?w" by blast
  from group_commit_live [OF this, of 7 1 0] have "\<exists>w'. group_steps ?w w' \<and> gw_phase w' 7 = Returned 1 (Inr ())" by auto
  moreover have "gw_phase ?w 7 = Trying 1" by simp
  ultimately show ?thesis by blast
qed

text \<open>The flushes coalesce: however the threads interleave, at most one flush is made for each commit that has
  returned.\<close>

theorem flushes_coalesce:
  assumes "group_steps world_new w"
  shows "finite (returned w) \<and> unat (gi_fsync_count (gw_group w)) \<le> card (returned w)"
  using group_reachable_bounded [OF assms] by (simp add: flushes_bounded_def)

theorem flushes_coalesce_witness: "gi_fsync_count (gw_group world_new) = 0"
  using flushes_coalesce [of world_new] by (simp add: returned_def world_new_def group_new_def)

end
