(* ===== verification/Wire_Receive.thy ===== *)
theory Wire_Receive
  imports Wire_Push Sign_Text Write_Gate Group_Commit
begin

text \<open>
  The \<^verbatim>\<open>receive-pack\<close> side of the server (\<^verbatim>\<open>alt-cli/src/bin/altd_server.rs\<close>): the table of
  single-use nonces, the check of a push signature, the principal a push counts as, the gate on signed
  commits, and the one ref transaction a push becomes.  Verifying a signature with a key is a parameter, and
  so are the trusted keys, what the pack unpacks to and how a message reads.
\<close>

section \<open>Nonces\<close>

record nonce_inner =
  ni_queue :: "bytes list"
  ni_set :: "bytes set"

definition nonce_new :: nonce_inner where
  "nonce_new = \<lparr>ni_queue = [], ni_set = {}\<rparr>"

text \<open>\<^verbatim>\<open>buf\<close> is what \<^verbatim>\<open>/dev/urandom\<close>, or the clock, gave.\<close>

definition nonce_issue :: "bytes \<Rightarrow> nonce_inner \<Rightarrow> bytes \<times> nonce_inner" where
  "nonce_issue buf g =
     (let nonce = hex_of_bytes buf;
          g1 = (if 1024 \<le> length (ni_queue g)
                then (case ni_queue g of
                        old # queue \<Rightarrow> \<lparr>ni_queue = queue, ni_set = ni_set g - {old}\<rparr>
                      | [] \<Rightarrow> g)
                else g)
      in (nonce, \<lparr>ni_queue = ni_queue g1 @ [nonce], ni_set = insert nonce (ni_set g1)\<rparr>))"

definition nonce_consume :: "bytes \<Rightarrow> nonce_inner \<Rightarrow> bool \<times> nonce_inner" where
  "nonce_consume nonce g =
     (if nonce \<in> ni_set g
      then (True, \<lparr>ni_queue = remove1 nonce (ni_queue g), ni_set = ni_set g - {nonce}\<rparr>)
      else (False, g))"

section \<open>The push signature\<close>

datatype sig_reason = SigText sign_error | NonceInactive | SigMismatch

datatype sig_outcome = Verified bytes | NoSignature | BadSig sig_reason | UnknownPrincipal bytes

type_synonym verifier = "bytes \<Rightarrow> bytes \<Rightarrow> bytes \<Rightarrow> bool"

text \<open>The trusted keys, or why they could not be read.\<close>

type_synonym trust_store = "bytes + (bytes \<times> bytes) list"

definition verify_push_signature ::
  "verifier \<Rightarrow> trust_store \<Rightarrow> push_head \<Rightarrow> nonce_inner \<Rightarrow> (bytes + sig_outcome) \<times> nonce_inner" where
  "verify_push_signature verify trust head nonces =
     (case (first_value (lit ''alt-principal='') (ph_caps head), first_value (lit ''alt-sig='') (ph_caps head)) of
        (Some who, Some sig_text) \<Rightarrow>
          (case trust of
             Inl e \<Rightarrow> (Inl e, nonces)
           | Inr keys \<Rightarrow>
               (case map_of keys who of
                  None \<Rightarrow> (Inr (UnknownPrincipal who), nonces)
                | Some pubkey \<Rightarrow>
                    (case sig_from_text sig_text of
                       Inl e \<Rightarrow> (Inr (BadSig (SigText e)), nonces)
                     | Inr sig \<Rightarrow>
                         (case first_value (lit ''alt-nonce='') (ph_caps head) of
                            Some nonce \<Rightarrow>
                              let (active, nonces') = nonce_consume nonce nonces in
                              if \<not> active then (Inr (BadSig NonceInactive), nonces')
                              else if verify pubkey (canonical_push_payload_with_nonce (ph_updates head) (Some nonce) Sha1) sig
                              then (Inr (Verified who), nonces')
                              else (Inr (BadSig SigMismatch), nonces')
                          | None \<Rightarrow>
                              if verify pubkey (canonical_push_payload (ph_updates head) Sha1) sig
                              then (Inr (Verified who), nonces)
                              else (Inr (BadSig SigMismatch), nonces)))))
      | _ \<Rightarrow> (Inr NoSignature, nonces))"

definition pick_principal :: "sig_outcome \<Rightarrow> bytes option \<Rightarrow> principal \<times> bytes" where
  "pick_principal outcome auth_user =
     (let fallback = (case auth_user of Some u \<Rightarrow> u | None \<Rightarrow> lit ''anonymous'');
          (ident, label) =
            (case outcome of
               Verified who \<Rightarrow> (who, lit ''ed25519'')
             | NoSignature \<Rightarrow> (fallback, lit ''none'')
             | BadSig _ \<Rightarrow> (fallback, lit ''bad'')
             | UnknownPrincipal _ \<Rightarrow> (fallback, lit ''unknown-principal''))
      in (\<lparr>pr_kind = Human, pr_id = ident, pr_session = None\<rparr>, label))"

section \<open>The server\<close>

record wire_server =
  ws_nonces :: nonce_inner
  ws_policy :: policy
  ws_store :: ref_store
  ws_disk :: store_disk
  ws_group :: group_inner

definition capabilities_for :: "wire_server \<Rightarrow> principal \<Rightarrow> capabilities" where
  "capabilities_for ws who = policy_lookup (ws_policy ws) who"

definition require_signed_for :: "wire_server \<Rightarrow> principal \<Rightarrow> bool" where
  "require_signed_for ws who = cap_require_signed (capabilities_for ws who)"

text \<open>Why a push is refused as a whole.\<close>

datatype push_block =
    SignatureRequired sig_outcome
  | CommitMissing object_id
  | CommitUnsigned object_id
  | CommitSigner object_id bytes
  | CommitBadSig object_id bytes

datatype server_error = TrustUnreadable bytes | CommitSig alt_sig_error

fun signed_commits_block ::
  "verifier \<Rightarrow> (bytes \<times> bytes) list \<Rightarrow> commit_reader \<Rightarrow> object_id list \<Rightarrow> server_error + push_block option" where
  "signed_commits_block verify keys read [] = Inr None"
| "signed_commits_block verify keys read (oid # oids) =
     (case read oid of
        None \<Rightarrow> Inr (Some (CommitMissing oid))
      | Some data \<Rightarrow>
          bindR (map_err CommitSig (extract_alt_sig data)) (\<lambda>found.
            case found of
              None \<Rightarrow> Inr (Some (CommitUnsigned oid))
            | Some parsed \<Rightarrow>
                (case map_of keys (as_principal parsed) of
                   None \<Rightarrow> Inr (Some (CommitSigner oid (as_principal parsed)))
                 | Some pubkey \<Rightarrow>
                     if verify pubkey (as_canonical parsed) (as_sig parsed)
                     then signed_commits_block verify keys read oids
                     else Inr (Some (CommitBadSig oid (as_principal parsed))))))"

definition require_signed_commits_block ::
  "verifier \<Rightarrow> trust_store \<Rightarrow> commit_reader \<Rightarrow> wire_server \<Rightarrow> principal \<Rightarrow> object_id list
     \<Rightarrow> server_error + push_block option" where
  "require_signed_commits_block verify trust read ws who new_commits =
     (if \<not> cap_require_signed_commits (capabilities_for ws who) then Inr None
      else bindR (map_err TrustUnreadable trust) (\<lambda>keys. signed_commits_block verify keys read new_commits))"

definition update_change :: "ref_update \<Rightarrow> ref_change" where
  "update_change u =
     \<lparr>rc_name = up_name u, rc_old = map_option TargetOid (up_old u), rc_new = map_option TargetOid (up_new u)\<rparr>"

definition wire_actor :: "principal \<Rightarrow> bytes \<Rightarrow> bytes" where
  "wire_actor who label =
     kind_as_str (pr_kind who) @ 0x3A # pr_id who @ lit '';verb:wire/receive-pack;sig:'' @ label"

definition commit_ref_updates ::
  "(bytes \<Rightarrow> bytes) \<Rightarrow> bool \<Rightarrow> (log_disk \<Rightarrow> log_disk) \<Rightarrow> u64 \<Rightarrow> ref_update list \<Rightarrow> principal \<Rightarrow> bytes
     \<Rightarrow> wire_server \<Rightarrow> (ref_error + u64 option) \<times> wire_server" where
  "commit_ref_updates h relaxed meanwhile now updates who label ws =
     (if updates = [] then (Inr None, ws)
      else
        let caps = capabilities_for ws who;
            (res, st, sd) = commit_idempotent h relaxed meanwhile (wire_actor who label) now (map update_change updates)
                              None (Some (ref_policy_of caps None)) (ws_store ws) (ws_disk ws);
            ws' = ws\<lparr>ws_store := st, ws_disk := sd\<rparr>
        in case res of
             Inl e \<Rightarrow> (Inl e, ws')
           | Inr _ \<Rightarrow>
               let (ticket, g) = group_assign (ws_group ws') in (Inr (Some ticket), ws'\<lparr>ws_group := g\<rparr>))"

section \<open>The request\<close>

text \<open>\<^verbatim>\<open>Store::refresh\<close> for refs and policy; an error leaves the policy as it was.\<close>

definition server_refresh :: "(bytes \<Rightarrow> bytes) \<Rightarrow> file_read \<Rightarrow> wire_server \<Rightarrow> wire_server" where
  "server_refresh h policy_file ws =
     (let (res, st, sd) = store_refresh h (ws_store ws) (ws_disk ws);
          ws' = ws\<lparr>ws_store := st, ws_disk := sd\<rparr>
      in case res of
           Inl _ \<Rightarrow> ws'
         | Inr _ \<Rightarrow> (case policy_load policy_file of Inl _ \<Rightarrow> ws' | Inr p \<Rightarrow> ws'\<lparr>ws_policy := p\<rparr>))"

datatype status_reason = Blocked push_block | NotDurable bytes | RefTx ref_error | UnpackFailed

text \<open>What a push meets outside the code modelled here: the keys of the trust directory, the policy file,
  the objects there are once the pack is in, the new commits or the error of unpacking, and the outcome of the flush.\<close>

record push_env =
  pe_trust :: trust_store
  pe_policy_file :: file_read
  pe_pack_len :: u64
  pe_unpack :: "bytes + object_id list"
  pe_read :: commit_reader
  pe_durable :: "bytes + unit"

definition all_ng :: "(status_reason \<Rightarrow> bytes) \<Rightarrow> ref_update list \<Rightarrow> status_reason \<Rightarrow> command_status list" where
  "all_ng render updates reason = map (\<lambda>u. CmdNg (up_name u) (render reason)) updates"

definition receive_commands ::
  "(status_reason \<Rightarrow> bytes) \<Rightarrow> (bytes \<Rightarrow> bytes) \<Rightarrow> bool \<Rightarrow> (log_disk \<Rightarrow> log_disk) \<Rightarrow> u64 \<Rightarrow> push_env \<Rightarrow> push_head
     \<Rightarrow> principal \<Rightarrow> bytes \<Rightarrow> push_block option \<Rightarrow> bytes + unit \<Rightarrow> wire_server
     \<Rightarrow> command_status list \<times> bool \<times> wire_server" where
  "receive_commands render h relaxed meanwhile now env head who label any_block unpack ws =
     (let updates = ph_updates head in
      case any_block of
        Some b \<Rightarrow> (all_ng render updates (Blocked b), False, ws)
      | None \<Rightarrow>
          if unpack = Inr () then
            (case commit_ref_updates h relaxed meanwhile now updates who label ws of
               (Inr ticket, ws') \<Rightarrow>
                 let durable = (case ticket of Some _ \<Rightarrow> pe_durable env | None \<Rightarrow> Inr ()) in
                 (case durable of
                    Inl e \<Rightarrow> (all_ng render updates (NotDurable e), True, ws')
                  | Inr _ \<Rightarrow> (map (\<lambda>u. CmdOk (up_name u)) updates, True, ws'))
             | (Inl e, ws') \<Rightarrow> (all_ng render updates (RefTx e), False, ws'))
          else (all_ng render updates UnpackFailed, False, ws))"

text \<open>The answer, if the handler gets to one: the status report, whether the push was committed (if not, the
  objects of the pack are taken back), and the server afterwards.  \<open>Inr None\<close> is the refusal of a body over the cap.\<close>

definition receive_pack ::
  "verifier \<Rightarrow> (status_reason \<Rightarrow> bytes) \<Rightarrow> (bytes \<Rightarrow> bytes) \<Rightarrow> bool \<Rightarrow> (log_disk \<Rightarrow> log_disk) \<Rightarrow> u64 \<Rightarrow> u64 \<Rightarrow> push_env
     \<Rightarrow> push_head \<Rightarrow> bytes option \<Rightarrow> wire_server
     \<Rightarrow> (server_error + (report_status \<times> bool) option) \<times> wire_server" where
  "receive_pack verify render h relaxed meanwhile now cap env head auth_user ws0 =
     (let ws1 = server_refresh h (pe_policy_file env) ws0;
          (sig, nonces) = verify_push_signature verify (pe_trust env) head (ws_nonces ws1);
          ws = ws1\<lparr>ws_nonces := nonces\<rparr>
      in case sig of
           Inl e \<Rightarrow> (Inl (TrustUnreadable e), ws)
         | Inr outcome \<Rightarrow>
             let (who, label) = pick_principal outcome auth_user;
                 sig_block = (case outcome of
                                Verified _ \<Rightarrow> None
                              | _ \<Rightarrow> if require_signed_for ws who then Some (SignatureRequired outcome) else None)
             in if cap < pe_pack_len env then (Inr None, ws)
                else
                  let (unpack, new_commits) =
                        (if sig_block \<noteq> None \<or> pe_pack_len env = 0 then (Inr (), [])
                         else case pe_unpack env of Inl e \<Rightarrow> (Inl e, []) | Inr oids \<Rightarrow> (Inr (), oids));
                      commit_block =
                        (if sig_block = None \<and> unpack = Inr ()
                         then require_signed_commits_block verify (pe_trust env) (pe_read env) ws who new_commits
                         else Inr None)
                  in case commit_block of
                       Inl e \<Rightarrow> (Inl e, ws)
                     | Inr cb \<Rightarrow>
                         let any_block = (case sig_block of Some b \<Rightarrow> Some b | None \<Rightarrow> cb);
                             (commands, committed, ws') =
                               receive_commands render h relaxed meanwhile now env head who label any_block unpack ws
                         in (Inr (Some (\<lparr>rs_unpack = unpack, rs_commands = commands\<rparr>, committed)), ws'))"

section \<open>A nonce counts once\<close>

datatype nonce_op = Issue bytes | Consume bytes

text \<open>A run of the table, with the nonces issued and those consumed with success.\<close>

fun nonce_run :: "nonce_op list \<Rightarrow> nonce_inner \<Rightarrow> bytes list \<times> bytes list \<times> nonce_inner" where
  "nonce_run [] g = ([], [], g)"
| "nonce_run (Issue buf # ops) g =
     (let (n, g1) = nonce_issue buf g; (is, cs, g2) = nonce_run ops g1 in (n # is, cs, g2))"
| "nonce_run (Consume n # ops) g =
     (let (ok, g1) = nonce_consume n g; (is, cs, g2) = nonce_run ops g1 in (is, if ok then n # cs else cs, g2))"

definition nonce_ok :: "nonce_inner \<Rightarrow> bool" where
  "nonce_ok g \<longleftrightarrow> ni_set g \<subseteq> set (ni_queue g) \<and> length (ni_queue g) \<le> 1024"

definition tokens :: "bytes \<Rightarrow> nonce_inner \<Rightarrow> nat" where
  "tokens n g = (if n \<in> ni_set g then 1 else 0)"

lemma set_remove1_super: "A \<subseteq> set xs \<Longrightarrow> A - {x} \<subseteq> set (remove1 x xs)"
  by (metis DiffE in_set_remove1 insertI1 subset_iff)

lemma nonce_issue_ok: "nonce_ok g \<Longrightarrow> nonce_issue buf g = (n, g') \<Longrightarrow> nonce_ok g'"
  by (cases "ni_queue g") (auto simp: nonce_ok_def nonce_issue_def Let_def split: if_splits)

lemma nonce_consume_ok: "nonce_ok g \<Longrightarrow> nonce_consume n g = (ok, g') \<Longrightarrow> nonce_ok g'"
  using set_remove1_super [of "ni_set g" "ni_queue g" n]
  by (auto simp: nonce_ok_def nonce_consume_def length_remove1 split: if_splits)

lemma nonce_issue_tokens: "nonce_issue buf g = (m, g') \<Longrightarrow> tokens n g' \<le> tokens n g + (if m = n then 1 else 0)"
  by (auto simp: tokens_def nonce_issue_def Let_def split: if_splits list.splits)

lemma nonce_consume_tokens: "nonce_consume m g = (ok, g') \<Longrightarrow> tokens n g' + (if ok \<and> m = n then 1 else 0) \<le> tokens n g"
  by (auto simp: tokens_def nonce_consume_def split: if_splits)

lemma nonce_run_known:
  "nonce_run ops g = (is, cs, g') \<Longrightarrow>
     (nonce_ok g \<longrightarrow> nonce_ok g') \<and> count_list cs n + tokens n g' \<le> count_list is n + tokens n g"
proof (induction ops g arbitrary: "is" cs rule: nonce_run.induct)
  case (2 buf ops g)
  obtain m g1 where i: "nonce_issue buf g = (m, g1)" by (cases "nonce_issue buf g")
  obtain is1 where r: "nonce_run ops g1 = (is1, cs, g')" "is = m # is1"
    using "2.prems" i by (auto split: prod.splits)
  show ?case
    using "2.IH" [OF i [symmetric] refl r(1)] nonce_issue_ok [OF _ i] nonce_issue_tokens [OF i, of n] r(2) by auto
next
  case (3 m ops g)
  obtain ok g1 where i: "nonce_consume m g = (ok, g1)" by (cases "nonce_consume m g")
  obtain cs1 where r: "nonce_run ops g1 = (is, cs1, g')" "cs = (if ok then m # cs1 else cs1)"
    using "3.prems" i by (auto split: prod.splits)
  show ?case
    using "3.IH" [OF i [symmetric] refl r(1)] nonce_consume_ok [OF _ i] nonce_consume_tokens [OF i, of n] r(2) by auto
qed simp

text \<open>Where a nonce stands that has been issued and is to be kept for \<open>k\<close> more.\<close>

definition kept :: "bytes \<Rightarrow> nat \<Rightarrow> nonce_inner \<Rightarrow> bool" where
  "kept n k g \<longleftrightarrow> n \<in> ni_set g \<and>
     (\<exists>a b. ni_queue g = a @ n # b \<and> n \<notin> set a \<and> n \<notin> set b \<and> length b + k < 1024)"

lemma keptI: "n \<in> ni_set g \<Longrightarrow> ni_queue g = a @ n # b \<Longrightarrow> n \<notin> set a \<Longrightarrow> n \<notin> set b \<Longrightarrow> length b + k < 1024 \<Longrightarrow> kept n k g"
  unfolding kept_def by blast

lemma kept_issue:
  assumes "kept n (Suc k) g" "nonce_issue buf g = (m, g')" "m \<noteq> n"
  shows "kept n k g'"
proof -
  obtain a b where q: "ni_queue g = a @ n # b" "n \<notin> set a" "n \<notin> set b" "length b + Suc k < 1024" "n \<in> ni_set g"
    using assms(1) by (auto simp: kept_def)
  show ?thesis
  proof (cases "1024 \<le> length (ni_queue g)")
    case True
    then obtain x a' where a: "a = x # a'" using q(1,4) by (cases a) auto
    have "ni_queue g' = a' @ n # (b @ [m])" "n \<in> ni_set g'"
      using assms(2) True q a by (auto simp: nonce_issue_def Let_def)
    from keptI [OF this(2,1)] show ?thesis using q a assms(3) by auto
  next
    case False
    then have "ni_queue g' = a @ n # (b @ [m])" "n \<in> ni_set g'" using assms(2) q by (auto simp: nonce_issue_def Let_def)
    from keptI [OF this(2,1)] show ?thesis using q assms(3) by auto
  qed
qed

lemma kept_consume:
  assumes "kept n k g" "nonce_consume m g = (ok, g')" "m \<noteq> n"
  shows "kept n k g'"
proof -
  obtain a b where q: "ni_queue g = a @ n # b" "n \<notin> set a" "n \<notin> set b" "length b + k < 1024" "n \<in> ni_set g"
    using assms(1) by (auto simp: kept_def)
  have "\<exists>a' b'. remove1 m (a @ n # b) = a' @ n # b' \<and> set a' \<subseteq> set a \<and> set b' \<subseteq> set b \<and> length b' \<le> length b"
  proof (cases "m \<in> set a")
    case True
    then have "remove1 m (a @ n # b) = remove1 m a @ n # b" "set (remove1 m a) \<subseteq> set a"
      by (simp_all add: remove1_append List.set_remove1_subset)
    then show ?thesis by blast
  next
    case False
    then have "remove1 m (a @ n # b) = a @ n # remove1 m b" "set (remove1 m b) \<subseteq> set b" "length (remove1 m b) \<le> length b"
      using assms(3) by (auto simp: remove1_append length_remove1 dest: List.set_remove1_subset [THEN subsetD])
    then show ?thesis by blast
  qed
  then obtain a' b' where r: "remove1 m (a @ n # b) = a' @ n # b'" "set a' \<subseteq> set a" "set b' \<subseteq> set b" "length b' \<le> length b"
    by blast
  show ?thesis
  proof (cases "m \<in> ni_set g")
    case True
    then have "ni_queue g' = a' @ n # b'" "n \<in> ni_set g'" using assms(2,3) q r by (auto simp: nonce_consume_def)
    moreover have "n \<notin> set a'" "n \<notin> set b'" "length b' + k < 1024" using q r by auto
    ultimately show ?thesis unfolding kept_def by blast
  next
    case False
    then show ?thesis using assms(1,2) by (simp add: nonce_consume_def)
  qed
qed

lemma kept_run:
  "nonce_run ops g = (is, cs, g') \<Longrightarrow> kept n (length is) g \<Longrightarrow> n \<notin> set is \<Longrightarrow> Consume n \<notin> set ops \<Longrightarrow> n \<in> ni_set g'"
proof (induction ops g arbitrary: "is" cs rule: nonce_run.induct)
  case (1 g)
  then show ?case by (simp add: kept_def)
next
  case (2 buf ops g)
  obtain m g1 where i: "nonce_issue buf g = (m, g1)" by (cases "nonce_issue buf g")
  obtain is1 where r: "nonce_run ops g1 = (is1, cs, g')" "is = m # is1"
    using "2.prems" i by (auto split: prod.splits)
  have "kept n (length is1) g1" using kept_issue [OF _ i] "2.prems" r(2) by auto
  then show ?case using "2.IH" [OF i [symmetric] refl r(1)] "2.prems" r(2) by auto
next
  case (3 m ops g)
  obtain ok g1 where i: "nonce_consume m g = (ok, g1)" by (cases "nonce_consume m g")
  obtain cs1 where r: "nonce_run ops g1 = (is, cs1, g')"
    using "3.prems" i by (auto split: prod.splits)
  have "kept n (length is) g1" using kept_consume [OF _ i] "3.prems" by auto
  then show ?case using "3.IH" [OF i [symmetric] refl r] "3.prems" by auto
qed

lemma issued_kept: "nonce_ok g \<Longrightarrow> n \<notin> set (ni_queue g) \<Longrightarrow> nonce_issue buf g = (n, g') \<Longrightarrow> kept n 1023 g'"
  by (cases "ni_queue g") (auto simp: kept_def nonce_issue_def Let_def split: if_splits)

lemma kept_less: "kept n k g \<Longrightarrow> j \<le> k \<Longrightarrow> kept n j g"
  unfolding kept_def by fastforce

section \<open>What a signature shows\<close>

lemma map_err_Inr [simp]: "map_err f m = Inr x \<longleftrightarrow> m = Inr x"
  by (cases m) (auto simp: map_err_def)

lemma verified_known:
  assumes "verify_push_signature verify trust head g = (Inr (Verified who), g')"
  shows "\<exists>keys pubkey sig. trust = Inr keys \<and> map_of keys who = Some pubkey \<and>
    (case first_value (lit ''alt-nonce='') (ph_caps head) of
       None \<Rightarrow> g' = g
     | Some n \<Rightarrow> n \<in> ni_set g \<and> n \<notin> ni_set g') \<and>
    verify pubkey (canonical_push_payload_with_nonce (ph_updates head) (first_value (lit ''alt-nonce='') (ph_caps head)) Sha1) sig"
  using assms unfolding verify_push_signature_def canonical_push_payload_def
  by (auto simp: nonce_consume_def simp del: lit_def split: option.splits sum.splits if_splits prod.splits)

section \<open>What a push does\<close>

text \<open>A push was allowed on refs: signed if it must be, its commits too, by a principal that may write, with every
  update's branch allowed and its expected value there.\<close>

definition commits_signed :: "verifier \<Rightarrow> (bytes \<times> bytes) list \<Rightarrow> commit_reader \<Rightarrow> object_id list \<Rightarrow> bool" where
  "commits_signed verify keys read oids \<longleftrightarrow>
     (\<forall>oid \<in> set oids. \<exists>data parsed pubkey. read oid = Some data \<and> extract_alt_sig data = Inr (Some parsed) \<and>
        map_of keys (as_principal parsed) = Some pubkey \<and> verify pubkey (as_canonical parsed) (as_sig parsed))"

lemma signed_commits_none: "signed_commits_block verify keys read oids = Inr None \<Longrightarrow> commits_signed verify keys read oids"
proof (induction oids)
  case (Cons oid oids)
  obtain data where d: "read oid = Some data" using Cons.prems by (cases "read oid") auto
  obtain parsed where p: "extract_alt_sig data = Inr (Some parsed)"
    using Cons.prems d by (cases "extract_alt_sig data") (auto simp: map_err_def split: option.splits)
  obtain pubkey where k: "map_of keys (as_principal parsed) = Some pubkey"
    using Cons.prems d p by (cases "map_of keys (as_principal parsed)") (auto simp: map_err_def)
  have v: "verify pubkey (as_canonical parsed) (as_sig parsed)" and r: "signed_commits_block verify keys read oids = Inr None"
    using Cons.prems d p k by (auto simp: map_err_def split: if_splits)
  have "commits_signed verify keys read oids" by (rule Cons.IH [OF r])
  then show ?case using d p k v by (auto simp: commits_signed_def)
qed (simp add: commits_signed_def)

definition updates_allowed :: "capabilities \<Rightarrow> ref_map \<Rightarrow> ref_update list \<Rightarrow> bool" where
  "updates_allowed caps refs updates \<longleftrightarrow>
     \<not> cap_read_only caps \<and>
     (\<forall>u \<in> set updates. allows_branch_name caps (up_name u) \<and> bt_get refs (up_name u) = map_option TargetOid (up_old u))"

text \<open>One operation, the updates and nothing else, is on record after \<open>es\<close>.\<close>

definition pushed ::
  "(bytes \<Rightarrow> bytes) \<Rightarrow> op_entry list \<Rightarrow> ref_map \<Rightarrow> ref_update list \<Rightarrow> bytes \<Rightarrow> wire_server \<Rightarrow> bool" where
  "pushed h es refs updates actor ws \<longleftrightarrow>
     (\<exists>e. op_actor e = actor \<and> replay_refs (es @ [e]) [] = Inr (fold apply_change (map update_change updates) refs) \<and>
        store_at (ws_store ws) (es @ [e]) \<and> log_holds h (sd_log (ws_disk ws)) (es @ [e]))"

lemma commit_updates_known:
  assumes ready: "log_ready h (wire_actor who label) (sd_log (ws_disk ws)) es" and st: "store_at (ws_store ws) es"
    and refs: "replay_refs es [] = Inr refs" and tx: "tx_ok (map update_change updates) None"
    and fits: "payload_fits (wire_actor who label) (encode_tx (map update_change updates) None)"
    and mw: "\<And>d. dk_log (meanwhile d) = dk_log d"
  shows "\<exists>r ws'. commit_ref_updates h relaxed meanwhile now updates who label ws = (r, ws') \<and>
    (case r of
       Inl _ \<Rightarrow> log_holds h (sd_log (ws_disk ws')) es \<and> store_at (ws_store ws') es
     | Inr _ \<Rightarrow> if updates = [] then ws' = ws
               else updates_allowed (capabilities_for ws who) refs updates \<and>
                    pushed h es refs updates (wire_actor who label) ws')"
proof (cases "updates = []")
  case True
  then show ?thesis by (simp add: commit_ref_updates_def)
next
  case some: False
  let ?caps = "capabilities_for ws who" and ?cs = "map update_change updates"
  let ?policy = "ref_policy_of ?caps None"
  note known = commit_known [where es = es and fs = "[]" and policy = "Some ?policy" and relaxed = relaxed and ts = now,
      unfolded append_Nil append_Nil2, OF ready st refs tx fits mw]
  show ?thesis
  proof (cases "transact (Some ?policy) ?cs refs")
    case (Inl e)
    then obtain st' sd' where c: "commit_idempotent h relaxed meanwhile (wire_actor who label) now ?cs None (Some ?policy)
        (ws_store ws) (ws_disk ws) = (Inl e, st', sd')" "store_at st' es" "log_holds h (sd_log sd') es"
      using known by auto
    then show ?thesis using some by (simp add: commit_ref_updates_def)
  next
    case (Inr refs')
    then obtain e st' sd' where c: "commit_idempotent h relaxed meanwhile (wire_actor who label) now ?cs None (Some ?policy)
        (ws_store ws) (ws_disk ws) = (Inr (op_id e), st', sd')" "op_actor e = wire_actor who label"
      "replay_refs (es @ [e]) [] = Inr refs'" "store_at st' (es @ [e])" "log_holds h (sd_log sd') (es @ [e])"
      using known by auto
    have pc: "policy_check ?policy refs ?cs = Inr ()" and ap: "apply_changes False refs ?cs = Inr refs'"
      using Inr by (auto simp: transact_def bindR_eq_Inr)
    have old: "\<forall>c \<in> set ?cs. bt_get refs (rc_name c) = rc_old c" "refs' = fold apply_change ?cs refs"
      using ap by (auto simp: apply_changes_Inr)
    have "updates_allowed ?caps refs updates"
      using policy_check_ok [OF pc] old(1) some by (auto simp: updates_allowed_def update_change_def)
    moreover obtain t g where "group_assign (ws_group ws) = (t, g)" by fastforce
    ultimately show ?thesis using some c(1-5) old(2) by (auto simp: commit_ref_updates_def pushed_def)
  qed
qed

definition refused :: "command_status list \<Rightarrow> bool" where
  "refused cmds \<longleftrightarrow> (\<forall>c \<in> set cmds. \<exists>n why. c = CmdNg n why)"

lemma all_ng_refused [simp]: "refused (all_ng render updates reason)"
  by (auto simp: refused_def all_ng_def)

lemma receive_commands_known:
  assumes ready: "log_ready h (wire_actor who label) (sd_log (ws_disk ws)) es" and st: "store_at (ws_store ws) es"
    and refs: "replay_refs es [] = Inr refs" and tx: "tx_ok (map update_change (ph_updates head)) None"
    and fits: "payload_fits (wire_actor who label) (encode_tx (map update_change (ph_updates head)) None)"
    and mw: "\<And>d. dk_log (meanwhile d) = dk_log d"
  shows "\<exists>cmds committed ws'.
    receive_commands render h relaxed meanwhile now env head who label block unpack ws = (cmds, committed, ws') \<and>
    (if committed
     then block = None \<and> unpack = Inr () \<and>
       (ph_updates head = [] \<or> updates_allowed (capabilities_for ws who) refs (ph_updates head) \<and>
          pushed h es refs (ph_updates head) (wire_actor who label) ws')
     else log_holds h (sd_log (ws_disk ws')) es \<and> refused cmds)"
proof -
  have held: "log_holds h (sd_log (ws_disk ws)) es" using ready by (rule log_ready_holds)
  obtain r ws' where c: "commit_ref_updates h relaxed meanwhile now (ph_updates head) who label ws = (r, ws')"
    "case r of
       Inl _ \<Rightarrow> log_holds h (sd_log (ws_disk ws')) es \<and> store_at (ws_store ws') es
     | Inr _ \<Rightarrow> if ph_updates head = [] then ws' = ws
               else updates_allowed (capabilities_for ws who) refs (ph_updates head) \<and>
                    pushed h es refs (ph_updates head) (wire_actor who label) ws'"
    using commit_updates_known [OF ready st refs tx fits mw] by blast
  show ?thesis
  proof (cases "block = None \<and> unpack = Inr ()")
    case True
    show ?thesis
    proof (cases r)
      case (Inl e)
      then have "receive_commands render h relaxed meanwhile now env head who label block unpack ws =
          (all_ng render (ph_updates head) (RefTx e), False, ws')"
        using True c(1) by (simp add: receive_commands_def)
      then show ?thesis using c(2) Inl by simp blast
    next
      case (Inr ticket)
      have "receive_commands render h relaxed meanwhile now env head who label block unpack ws =
          (case (case ticket of Some _ \<Rightarrow> pe_durable env | None \<Rightarrow> Inr ()) of
             Inl e \<Rightarrow> (all_ng render (ph_updates head) (NotDurable e), True, ws')
           | Inr _ \<Rightarrow> (map (\<lambda>u. CmdOk (up_name u)) (ph_updates head), True, ws'))"
        using True c(1) Inr by (simp add: receive_commands_def Let_def)
      then show ?thesis using True c(2) Inr by (auto split: sum.splits if_splits)
    qed
  next
    case False
    then show ?thesis using held by (cases block) (auto simp: receive_commands_def)
  qed
qed

lemma refresh_keeps: "server_refresh h pf ws = ws1 \<Longrightarrow> ws_nonces ws1 = ws_nonces ws \<and> ws_group ws1 = ws_group ws"
  by (auto simp: server_refresh_def Let_def split: prod.splits sum.splits)

lemma server_refresh_known:
  assumes h: "hash_ok h" and hold: "log_holds h (sd_log (ws_disk ws)) (es @ fs)" and st: "store_at (ws_store ws) es"
    and refs: "replay_refs (es @ fs) [] = Inr refs"
  shows "store_at (ws_store (server_refresh h pf ws)) (es @ fs) \<and> log_holds h (sd_log (ws_disk (server_refresh h pf ws))) (es @ fs)"
proof -
  have "replayable (es @ fs)" using refs by (simp add: replayable_def)
  from refresh_known [OF h hold st this] obtain st' sd' where
    "store_refresh h (ws_store ws) (ws_disk ws) = (Inr (), st', sd')" "store_at st' (es @ fs)" "log_holds h (sd_log sd') (es @ fs)"
    by blast
  then show ?thesis by (cases "policy_load pf") (auto simp: server_refresh_def Let_def)
qed

lemma or_else_None: "(case s of Some b \<Rightarrow> Some b | None \<Rightarrow> t) = None \<longleftrightarrow> s = None \<and> t = None"
  by (cases s) auto

lemma receive_pack_known:
  assumes h: "hash_ok h" and hold: "log_holds h (sd_log (ws_disk ws)) (es @ fs)" and st: "store_at (ws_store ws) es"
    and refs: "replay_refs (es @ fs) [] = Inr refs" and mw: "\<And>d. dk_log (meanwhile d) = dk_log d"
    and sig: "verify_push_signature verify (pe_trust env) head (ws_nonces ws) = (Inr outcome, nonces)"
    and who: "pick_principal outcome auth_user = (who, label)"
    and actor: "utf8 (wire_actor who label)" "length (wire_actor who label) < 65536"
    and tx: "tx_ok (map update_change (ph_updates head)) None"
    and fits: "payload_fits (wire_actor who label) (encode_tx (map update_change (ph_updates head)) None)"
    and caps: "caps = capabilities_for (server_refresh h (pe_policy_file env) ws) who"
  shows "\<exists>r ws'. receive_pack verify render h relaxed meanwhile now cap env head auth_user ws = (r, ws') \<and>
    (case r of
       Inr (Some (report, True)) \<Rightarrow>
         (cap_require_signed caps \<longrightarrow> (\<exists>p. outcome = Verified p)) \<and>
         (cap_require_signed_commits caps \<and> pe_pack_len env \<noteq> 0 \<longrightarrow>
            (\<exists>keys oids. pe_trust env = Inr keys \<and> pe_unpack env = Inr oids \<and> commits_signed verify keys (pe_read env) oids)) \<and>
         (ph_updates head = [] \<or> updates_allowed caps refs (ph_updates head) \<and>
            pushed h (es @ fs) refs (ph_updates head) (wire_actor who label) ws')
     | Inr (Some (report, False)) \<Rightarrow> log_holds h (sd_log (ws_disk ws')) (es @ fs) \<and> refused (rs_commands report)
     | _ \<Rightarrow> log_holds h (sd_log (ws_disk ws')) (es @ fs))"
proof -
  let ?ws1 = "server_refresh h (pe_policy_file env) ws"
  let ?ws = "?ws1\<lparr>ws_nonces := nonces\<rparr>"
  let ?run = "receive_pack verify render h relaxed meanwhile now cap env head auth_user ws"
  have at: "store_at (ws_store ?ws) (es @ fs)" and held: "log_holds h (sd_log (ws_disk ?ws)) (es @ fs)"
    using server_refresh_known [OF h hold st refs] by auto
  have ready: "log_ready h (wire_actor who label) (sd_log (ws_disk ?ws)) (es @ fs)"
    using h held actor by (simp add: log_ready_def)
  have sig1: "verify_push_signature verify (pe_trust env) head (ws_nonces ?ws1) = (Inr outcome, nonces)"
    using sig refresh_keeps [OF refl, of h "pe_policy_file env" ws] by simp
  have c: "capabilities_for ?ws who = caps" by (simp add: caps capabilities_for_def)
  let ?sb = "case outcome of
      Verified _ \<Rightarrow> None
    | _ \<Rightarrow> if require_signed_for ?ws who then Some (SignatureRequired outcome) else None"
  let ?in = "if ?sb \<noteq> None \<or> pe_pack_len env = 0 then (Inr (), [])
    else case pe_unpack env of Inl e \<Rightarrow> (Inl e, []) | Inr oids \<Rightarrow> (Inr (), oids)"
  obtain unpack oids where inp: "?in = (unpack, oids)" by (cases ?in)
  let ?cb = "if ?sb = None \<and> unpack = Inr ()
    then require_signed_commits_block verify (pe_trust env) (pe_read env) ?ws who oids else Inr None"
  have run: "?run =
     (if cap < pe_pack_len env then (Inr None, ?ws)
      else case ?cb of
             Inl e \<Rightarrow> (Inl e, ?ws)
           | Inr cb \<Rightarrow>
               (let (commands, committed, ws') =
                  receive_commands render h relaxed meanwhile now env head who label (case ?sb of Some b \<Rightarrow> Some b | None \<Rightarrow> cb) unpack ?ws
                in (Inr (Some (\<lparr>rs_unpack = unpack, rs_commands = commands\<rparr>, committed)), ws')))"
    unfolding receive_pack_def Let_def sig1 prod.case sum.case who inp by (rule refl)
  show ?thesis
  proof (cases "cap < pe_pack_len env")
    case True
    then have "?run = (Inr None, ?ws)" unfolding run by simp
    then show ?thesis using held by simp
  next
    case fits_cap: False
    show ?thesis
    proof (cases ?cb)
      case (Inl e)
      then have "?run = (Inl e, ?ws)" unfolding run using fits_cap by simp
      then show ?thesis using held by simp
    next
      case cb: (Inr cb)
      let ?block = "case ?sb of Some b \<Rightarrow> Some b | None \<Rightarrow> cb"
      obtain cmds committed ws' where r: "receive_commands render h relaxed meanwhile now env head who label ?block unpack ?ws = (cmds, committed, ws')"
        "if committed
         then ?block = None \<and> unpack = Inr () \<and>
           (ph_updates head = [] \<or> updates_allowed (capabilities_for ?ws who) refs (ph_updates head) \<and>
              pushed h (es @ fs) refs (ph_updates head) (wire_actor who label) ws')
         else log_holds h (sd_log (ws_disk ws')) (es @ fs) \<and> refused cmds"
        using receive_commands_known [OF ready at refs tx fits mw] by blast
      have out: "?run = (Inr (Some (\<lparr>rs_unpack = unpack, rs_commands = cmds\<rparr>, committed)), ws')"
        unfolding run cb sum.case r(1) using fits_cap by simp
      show ?thesis
      proof (cases committed)
        case False
        then show ?thesis unfolding out using r(2) by simp
      next
        case True
        then have r2: "?block = None" and un: "unpack = Inr ()"
          and done': "ph_updates head = [] \<or> updates_allowed (capabilities_for ?ws who) refs (ph_updates head) \<and>
            pushed h (es @ fs) refs (ph_updates head) (wire_actor who label) ws'"
          using r(2) by meson+
        have sb: "?sb = None" and cbn: "cb = None" using r2 unfolding or_else_None by blast+
        have signed: "cap_require_signed caps \<longrightarrow> (\<exists>p. outcome = Verified p)"
          using sb c by (auto simp: require_signed_for_def split: sig_outcome.splits if_splits)
        have "require_signed_commits_block verify (pe_trust env) (pe_read env) ?ws who oids = Inr None"
          using cb sb un cbn by simp
        then have "cap_require_signed_commits caps \<longrightarrow> (\<exists>keys. pe_trust env = Inr keys \<and> commits_signed verify keys (pe_read env) oids)"
          using signed_commits_none c by (auto simp: require_signed_commits_block_def bindR_eq_Inr)
        moreover have "pe_pack_len env \<noteq> 0 \<Longrightarrow> pe_unpack env = Inr oids"
        proof -
          assume "pe_pack_len env \<noteq> 0"
          then have "(case pe_unpack env of Inl e \<Rightarrow> (Inl e, []) | Inr oids \<Rightarrow> (Inr (), oids)) = (Inr (), oids)"
            using inp unfolding sb un by simp
          then show "pe_unpack env = Inr oids" by (cases "pe_unpack env") simp_all
        qed
        ultimately have commits: "cap_require_signed_commits caps \<and> pe_pack_len env \<noteq> 0 \<longrightarrow>
            (\<exists>keys oids. pe_trust env = Inr keys \<and> pe_unpack env = Inr oids \<and> commits_signed verify keys (pe_read env) oids)"
          by blast
        have "ph_updates head = [] \<or> updates_allowed caps refs (ph_updates head) \<and>
            pushed h (es @ fs) refs (ph_updates head) (wire_actor who label) ws'"
          using done' unfolding c .
        with signed commits True show ?thesis unfolding out by simp
      qed
    qed
  qed
qed

section \<open>Properties\<close>


definition sample_server :: wire_server where
  "sample_server =
     \<lparr>ws_nonces = nonce_new, ws_policy = policy_empty, ws_store = empty_store, ws_disk = empty_disk, ws_group = group_new\<rparr>"

definition sample_push :: push_head where
  "sample_push =
     \<lparr>ph_updates = [\<lparr>up_old = None, up_new = Some (OidSha1 (replicate 20 7)), up_name = lit ''refs/heads/main''\<rparr>], ph_caps = []\<rparr>"

definition sample_env :: push_env where
  "sample_env =
     \<lparr>pe_trust = Inr [], pe_policy_file = FileMissing, pe_pack_len = 0, pe_unpack = Inr [], pe_read = \<lambda>_. None, pe_durable = Inr ()\<rparr>"


text \<open>C21. A push that counts as signed is one the principal signed: if a trusted key only verifies payloads of the requests its
  holder \<open>asked\<close> for, then an accepted signature means that the holder asked for exactly these updates, in some order, under exactly
  the nonce that the push names, if any; and that nonce was active and is used up.\<close>

theorem verified_push_was_asked:
  assumes "verify_push_signature verify trust head g = (Inr (Verified who), g')"
    and "\<And>keys key m s. trust = Inr keys \<Longrightarrow> map_of keys who = Some key \<Longrightarrow> verify key m s \<Longrightarrow>
      \<exists>(us, n) \<in> set asked. m = canonical_push_payload_with_nonce us n Sha1"
    and "\<And>us n. (us, n) \<in> set asked \<Longrightarrow> list_all (update_ok Sha1) us \<and> pred_option (\<lambda>n. 0x0A \<notin> set n) n"
    and "list_all (update_ok Sha1) (ph_updates head)"
    and "pred_option (\<lambda>n. 0x0A \<notin> set n) (first_value (lit ''alt-nonce='') (ph_caps head))"
  shows "\<exists>us n. (us, n) \<in> set asked \<and> mset us = mset (ph_updates head) \<and> n = first_value (lit ''alt-nonce='') (ph_caps head) \<and>
    (\<forall>x. n = Some x \<longrightarrow> x \<in> ni_set g \<and> x \<notin> ni_set g')"
proof -
  let ?nonce = "first_value (lit ''alt-nonce='') (ph_caps head)"
  obtain keys key sig where k: "trust = Inr keys" "map_of keys who = Some key"
    "verify key (canonical_push_payload_with_nonce (ph_updates head) ?nonce Sha1) sig"
    "case ?nonce of None \<Rightarrow> g' = g | Some n \<Rightarrow> n \<in> ni_set g \<and> n \<notin> ni_set g'"
    using verified_known [OF assms(1)] by blast
  obtain us n where a: "(us, n) \<in> set asked"
    "canonical_push_payload_with_nonce (ph_updates head) ?nonce Sha1 = canonical_push_payload_with_nonce us n Sha1"
    using assms(2) [OF k(1-3)] by blast
  have "mset us = mset (ph_updates head)" "n = ?nonce"
    using payload_determines [OF assms(4,5) _ _ a(2)] assms(3) [OF a(1)] by auto
  then show ?thesis using a(1) k(4) by auto
qed

theorem verified_push_was_asked_witness:
  "\<exists>us n. (us, n) \<in> set [(sample_updates, Some (lit ''5f''))] \<and> mset us = mset sample_updates"
proof -
  let ?sig = "replicate 64 7"
  let ?caps = "[lit ''alt-principal=bob'', lit ''alt-sig='' @ trim (sig_to_text ?sig), lit ''alt-nonce=5f'']"
  let ?head = "\<lparr>ph_updates = rev sample_updates, ph_caps = ?caps\<rparr>"
  let ?g = "\<lparr>ni_queue = [lit ''5f''], ni_set = {lit ''5f''}\<rparr>"
  let ?m = "canonical_push_payload_with_nonce sample_updates (Some (lit ''5f'')) Sha1"
  let ?verify = "\<lambda>k m s. m = ?m \<and> s = ?sig"
  have first: "first_value (lit ''alt-principal='') ?caps = Some (lit ''bob'')"
    "first_value (lit ''alt-sig='') ?caps = Some (trim (sig_to_text ?sig))" "first_value (lit ''alt-nonce='') ?caps = Some (lit ''5f'')"
    by simp_all
  have same: "canonical_push_payload_with_nonce (rev sample_updates) (Some (lit ''5f'')) Sha1 = ?m"
    by (simp add: canonical_push_payload_with_nonce_def rev_map [symmetric] sorted_list_of_multiset_mset [symmetric])
  have v: "verify_push_signature ?verify (Inr [(lit ''bob'', [])]) ?head ?g = (Inr (Verified (lit ''bob'')), \<lparr>ni_queue = [], ni_set = {}\<rparr>)"
    unfolding verify_push_signature_def push_head.select_convs first
    by (simp add: sig_text_reads(2) nonce_consume_def same del: lit_def)
  have ok: "list_all (update_ok Sha1) sample_updates" "list_all (update_ok Sha1) (rev sample_updates)"
    using sample_updates_ok by simp_all
  have "pred_option (\<lambda>n. 0x0A \<notin> set n) (Some (lit ''5f''))" by simp
  with verified_push_was_asked [OF v, of "[(sample_updates, Some (lit ''5f''))]"] ok first(3)
  show ?thesis by (auto simp del: lit_def)
qed

text \<open>C24. A nonce counts once.  In every run of the table, whatever is issued and tried in between, no nonce is
  consumed more often than it was issued; and the table never holds more than 1024.\<close>

theorem nonce_single_use:
  assumes "nonce_run ops nonce_new = (issued, used, g)"
  shows "(\<forall>n. count_list used n \<le> count_list issued n) \<and> ni_set g \<subseteq> set (ni_queue g) \<and> length (ni_queue g) \<le> 1024"
proof -
  have ok: "nonce_ok nonce_new" by (simp add: nonce_ok_def nonce_new_def)
  have "count_list used n \<le> count_list issued n" for n
    using nonce_run_known [OF assms, of n] by (simp add: tokens_def nonce_new_def split: if_splits)
  then show ?thesis using nonce_run_known [OF assms] ok by (simp add: nonce_ok_def)
qed

theorem nonce_single_use_witness:
  "fst (snd (nonce_run [Issue [0x5F], Consume (lit ''5f''), Consume (lit ''5f'')] nonce_new)) = [lit ''5f'']"
proof -
  let ?ops = "[Issue [0x5F], Consume (lit ''5f''), Consume (lit ''5f'')]"
  have hex: "hex_of_bytes [0x5F] = lit ''5f''" by (simp add: hex_digit_def)
  have run: "nonce_run ?ops nonce_new = ([lit ''5f''], [lit ''5f''], \<lparr>ni_queue = [], ni_set = {}\<rparr>)"
    by (simp add: nonce_issue_def nonce_consume_def nonce_new_def hex Let_def del: lit_def hex_of_bytes_simps)
  from nonce_single_use [OF run] run show ?thesis by simp
qed

text \<open>C31. An honest client is served: a fresh nonce is still active after any traffic in which fewer than 1024 others are
  issued and nobody uses it up.\<close>

theorem nonce_lives:
  assumes "nonce_run before nonce_new = (bi, bu, g)" and "nonce_issue buf g = (n, g1)" and "n \<notin> set (ni_queue g)"
    and "nonce_run ops g1 = (issued, used, g2)" and "length issued < 1024" and "n \<notin> set issued" and "Consume n \<notin> set ops"
  shows "fst (nonce_consume n g2)"
proof -
  have "nonce_ok nonce_new" by (simp add: nonce_ok_def nonce_new_def)
  then have "nonce_ok g" using nonce_run_known [OF assms(1)] by blast
  then have "kept n 1023 g1" using issued_kept assms(2,3) by blast
  then have "kept n (length issued) g1" using kept_less assms(5) by fastforce
  then have "n \<in> ni_set g2" using kept_run assms(4,6,7) by blast
  then show ?thesis by (simp add: nonce_consume_def)
qed

theorem nonce_lives_witness:
  "fst (nonce_consume (lit ''5f'') (snd (nonce_issue [0x5F] nonce_new)))"
proof -
  have hex: "hex_of_bytes [0x5F] = lit ''5f''" by (simp add: hex_digit_def)
  have run: "nonce_run [] nonce_new = ([], [], nonce_new)" by simp
  have i: "nonce_issue [0x5F] nonce_new = (lit ''5f'', snd (nonce_issue [0x5F] nonce_new))"
    by (simp add: nonce_issue_def nonce_new_def hex Let_def del: lit_def hex_of_bytes_simps)
  show ?thesis
    by (rule nonce_lives [OF run i _ nonce_run.simps(1)]) (simp_all add: nonce_new_def)
qed

text \<open>What the wire does not check: a push is treated the same whether or not the policy forbids force, so a
  principal under \<^verbatim>\<open>forbid-force\<close> can delete a branch or move it back through a push.\<close>

theorem wire_ignores_forbid_force:
  "let ws' = ws\<lparr>ws_policy := map (\<lambda>r. r\<lparr>rule_caps := (rule_caps r)\<lparr>cap_forbid_force := b\<rparr>\<rparr>) (ws_policy ws)\<rparr>;
       (r, out) = commit_ref_updates h relaxed meanwhile now updates who label ws;
       (r', out') = commit_ref_updates h relaxed meanwhile now updates who label ws'
   in r' = r \<and> ws_store out' = ws_store out \<and> ws_disk out' = ws_disk out"
proof -
  let ?force = "\<lambda>caps. caps\<lparr>cap_forbid_force := b\<rparr>"
  let ?rules = "map (\<lambda>r. r\<lparr>rule_caps := ?force (rule_caps r)\<rparr>) (ws_policy ws)"
  have same: "ref_policy_of (?force c) None = ref_policy_of c None" for c
    by (simp add: ref_policy_of_def branch_filter_def [abs_def])
  have "policy_lookup_target (map (\<lambda>r. r\<lparr>rule_caps := ?force (rule_caps r)\<rparr>) rules) t
      \<in> {policy_lookup_target rules t, ?force (policy_lookup_target rules t)}" for rules t
    by (induction rules) auto
  then have "ref_policy_of (policy_lookup ?rules who) None = ref_policy_of (policy_lookup (ws_policy ws) who) None"
  proof -
    assume look: "\<And>rules t. policy_lookup_target (map (\<lambda>r. r\<lparr>rule_caps := ?force (rule_caps r)\<rparr>) rules) t
      \<in> {policy_lookup_target rules t, ?force (policy_lookup_target rules t)}"
    show ?thesis
      using look [of "ws_policy ws" "principal_target who"] same unfolding policy_lookup_def insert_iff empty_iff
      by (elim disjE) simp_all
  qed
  then show ?thesis
    by (auto simp: commit_ref_updates_def capabilities_for_def Let_def split: prod.splits sum.splits)
qed

end
