(* ===== verification/Wire_Auth.thy ===== *)
theory Wire_Auth
  imports Policy Sign_Text
begin

text \<open>
  Who may talk to a served repository (\<^verbatim>\<open>alt-cli/src/bin/altd_server.rs\<close>): HTTP Basic credentials, the
  users file with its per-repository permissions, the action a request needs, and the repository its path
  names.  BLAKE3 in hex is a parameter.
\<close>

section \<open>Base64\<close>

definition base64_table :: "u8 \<Rightarrow> u8" where
  "base64_table c =
     (if 0x41 \<le> c \<and> c \<le> 0x5A then c - 0x41
      else if 0x61 \<le> c \<and> c \<le> 0x7A then c - 0x61 + 26
      else if 0x30 \<le> c \<and> c \<le> 0x39 then c - 0x30 + 52
      else if c = 0x2B then 62
      else if c = 0x2F then 63
      else 0xFF)"

text \<open>The value of one character of a chunk; \<^verbatim>\<open>=\<close> stands for zero and counts as padding wherever it is.\<close>

definition base64_digit :: "u8 \<Rightarrow> u8 option" where
  "base64_digit c =
     (if c = 0x3D then Some 0 else if base64_table c = 0xFF then None else Some (base64_table c))"

definition base64_chunk :: "u8 \<Rightarrow> u8 \<Rightarrow> u8 \<Rightarrow> u8 \<Rightarrow> bytes option" where
  "base64_chunk a b c d =
     Option.bind (base64_digit a) (\<lambda>v0. Option.bind (base64_digit b) (\<lambda>v1.
     Option.bind (base64_digit c) (\<lambda>v2. Option.bind (base64_digit d) (\<lambda>v3.
       let pad = length (filter (\<lambda>x. x = 0x3D) [a, b, c, d]);
           n = push_bit 18 (ucast v0) OR push_bit 12 (ucast v1) OR push_bit 6 (ucast v2) OR (ucast v3 :: u32)
       in Some ([ucast (drop_bit 16 n)] @ (if pad < 2 then [ucast (drop_bit 8 n)] else []) @ (if pad < 1 then [ucast n] else []))))))"

fun base64_chunks :: "bytes \<Rightarrow> bytes option" where
  "base64_chunks (a # b # c # d # r) =
     Option.bind (base64_chunk a b c d) (\<lambda>out. map_option (\<lambda>more. out @ more) (base64_chunks r))"
| "base64_chunks _ = Some []"

definition base64_decode :: "bytes \<Rightarrow> bytes option" where
  "base64_decode input = (if length input mod 4 \<noteq> 0 then None else base64_chunks input)"

section \<open>Permissions\<close>

record acl_rule =
  ar_repo :: bytes
  ar_read :: bool
  ar_write :: bool

datatype action = ReadAction | WriteAction

datatype http_method = GetMethod | PostMethod | OtherMethod

text \<open>\<^verbatim>\<open>str::contains\<close>\<close>

fun contains :: "bytes \<Rightarrow> bytes \<Rightarrow> bool" where
  "contains pat [] \<longleftrightarrow> pat = []"
| "contains pat (x # xs) \<longleftrightarrow> strip_prefix pat (x # xs) \<noteq> None \<or> contains pat xs"

definition action_from_request :: "http_method \<Rightarrow> bytes \<Rightarrow> bytes \<Rightarrow> action option" where
  "action_from_request method path query =
     (if method = GetMethod \<and> suffix (lit ''/info/refs'') path then
        (if contains (lit ''service=git-upload-pack'') query then Some ReadAction
         else if contains (lit ''service=git-receive-pack'') query then Some WriteAction
         else None)
      else if method = PostMethod \<and> suffix (lit ''/git-upload-pack'') path then Some ReadAction
      else if method = PostMethod \<and> suffix (lit ''/git-receive-pack'') path then Some WriteAction
      else None)"

fun acl_allows :: "acl_rule list \<Rightarrow> bytes \<Rightarrow> action \<Rightarrow> bool" where
  "acl_allows [] repo action = False"
| "acl_allows (rule # acl) repo action =
     (if ar_repo rule \<noteq> lit ''*'' \<and> ar_repo rule \<noteq> repo then acl_allows acl repo action
      else case action of
             ReadAction \<Rightarrow> if ar_read rule then True else acl_allows acl repo action
           | WriteAction \<Rightarrow> if ar_write rule then True else acl_allows acl repo action)"

definition acl_perm :: "bytes \<Rightarrow> (bool \<times> bool) option" where
  "acl_perm perm =
     (if perm = lit ''r'' then Some (True, False)
      else if perm = lit ''w'' then Some (False, True)
      else if perm = lit ''rw'' \<or> perm = lit ''wr'' then Some (True, True)
      else if perm = lit ''n'' \<or> perm = [] then Some (False, False)
      else None)"

definition acl_token :: "bytes \<Rightarrow> acl_rule option" where
  "acl_token token =
     Option.bind (split_first 0x3A token) (\<lambda>(repo, perm).
       map_option (\<lambda>(r, w). \<lparr>ar_repo = repo, ar_read = r, ar_write = w\<rparr>) (acl_perm perm))"

definition parse_acl :: "bytes \<Rightarrow> acl_rule list" where
  "parse_acl field = List.map_filter acl_token (split_whitespace field)"

section \<open>Users\<close>

record user_entry =
  ue_token_hash :: bytes
  ue_acl :: "acl_rule list option"

type_synonym users = "bytes \<rightharpoonup> user_entry"

text \<open>\<^verbatim>\<open>splitn(3, '\t')\<close> of one line, and the map it is put into.\<close>

definition users_line :: "bytes \<Rightarrow> users \<Rightarrow> users" where
  "users_line l table =
     (let trimmed = trim l in
      if trimmed = [] \<or> hd trimmed = 0x23 then table
      else case split_first 0x09 trimmed of
             None \<Rightarrow> table
           | Some (user, r) \<Rightarrow>
               let (hash, acl) = (case split_first 0x09 r of None \<Rightarrow> (r, None) | Some (hash, field) \<Rightarrow> (hash, Some (parse_acl field)))
               in table(trim user \<mapsto> \<lparr>ue_token_hash = trim hash, ue_acl = acl\<rparr>))"

definition read_users :: "file_read \<Rightarrow> users option" where
  "read_users file =
     (case file of
        FileBytes s \<Rightarrow> if utf8 s then Some (fold users_line (str_lines s) Map.empty) else None
      | _ \<Rightarrow> None)"

section \<open>Credentials\<close>

definition constant_time_eq_ignore_ascii_case :: "bytes \<Rightarrow> bytes \<Rightarrow> bool" where
  "constant_time_eq_ignore_ascii_case a b =
     (if length a \<noteq> length b then False
      else fold (\<lambda>(x, y) diff. diff OR (ascii_lower x XOR ascii_lower y)) (zip a b) 0 = 0)"

datatype reject =
    MissingAuthorization
  | OnlyBasic
  | BadBase64
  | NotUtf8
  | MissingColon
  | UsersUnreadable
  | UnknownUser
  | BadToken

datatype auth_outcome = AllowUser "bytes option" "acl_rule list option" | Reject reject

definition check_auth :: "(bytes \<Rightarrow> bytes) \<Rightarrow> (bytes \<times> bytes) list \<Rightarrow> file_read \<Rightarrow> auth_outcome" where
  "check_auth hash_hex headers users_file =
     (case find (\<lambda>(field, _). map ascii_lower field = lit ''authorization'') headers of
        None \<Rightarrow> Reject MissingAuthorization
      | Some (_, header_value) \<Rightarrow>
      case strip_prefix (lit ''Basic '') header_value of
        None \<Rightarrow> Reject OnlyBasic
      | Some b64 \<Rightarrow>
      case base64_decode (trim b64) of
        None \<Rightarrow> Reject BadBase64
      | Some decoded \<Rightarrow>
      if \<not> utf8 decoded then Reject NotUtf8
      else case split_first 0x3A decoded of
        None \<Rightarrow> Reject MissingColon
      | Some (user, token) \<Rightarrow>
      case read_users users_file of
        None \<Rightarrow> Reject UsersUnreadable
      | Some table \<Rightarrow>
      case table user of
        None \<Rightarrow> Reject UnknownUser
      | Some entry \<Rightarrow>
          if \<not> constant_time_eq_ignore_ascii_case (ue_token_hash entry) (hash_hex token) then Reject BadToken
          else AllowUser (Some user) (ue_acl entry))"

section \<open>The dispatcher\<close>

text \<open>The repository that a path names under the server root, and the rest of the path.\<close>

definition repo_of_path :: "bytes \<Rightarrow> (bytes \<times> bytes) option" where
  "repo_of_path path =
     (let trimmed = dropWhile (\<lambda>b. b = 0x2F) path;
          (name, rest) = (case split_first 0x2F trimmed of Some (n, r) \<Rightarrow> (n, 0x2F # r) | None \<Rightarrow> (trimmed, []))
      in if name = [] \<or> contains (lit ''..'') name \<or> 0x5C \<in> set name then None else Some (name, rest))"

datatype dispatch = Unauthorized reject | NotFound | Forbidden | Proceed "bytes option" bytes bytes

text \<open>What a request to a server of several repositories meets before its handler; \<open>users_file\<close> is
  \<open>None\<close> when there is no users file, and \<open>served\<close> says which names under the root are repositories.\<close>

definition dispatch_gate ::
  "(bytes \<Rightarrow> bytes) \<Rightarrow> file_read option \<Rightarrow> (bytes \<Rightarrow> bool) \<Rightarrow> http_method \<Rightarrow> bytes \<Rightarrow> (bytes \<times> bytes) list \<Rightarrow> dispatch" where
  "dispatch_gate hash_hex users_file served method url headers =
     (let auth = (case users_file of None \<Rightarrow> AllowUser None None | Some f \<Rightarrow> check_auth hash_hex headers f) in
      case auth of
        Reject why \<Rightarrow> Unauthorized why
      | AllowUser user acl \<Rightarrow>
          let (path, query) = (case split_first 0x3F url of Some (p, q) \<Rightarrow> (p, q) | None \<Rightarrow> (url, [])) in
          (case repo_of_path path of
             None \<Rightarrow> NotFound
           | Some (name, rest) \<Rightarrow>
               if \<not> served name then NotFound
               else case acl of
                      None \<Rightarrow> Proceed user name rest
                    | Some rules \<Rightarrow>
                        (case action_from_request method rest query of
                           None \<Rightarrow> Proceed user name rest
                         | Some action \<Rightarrow>
                             if acl_allows rules name action then Proceed user name rest else Forbidden)))"

text \<open>Where the dispatcher sends a request that may proceed, and the service an \<^verbatim>\<open>info/refs\<close> handler reads
  from the query.\<close>

datatype endpoint = InfoRefs | UploadPack | ReceivePack

definition route :: "http_method \<Rightarrow> bytes \<Rightarrow> endpoint option" where
  "route method path =
     (if method = GetMethod \<and> suffix (lit ''/info/refs'') path then Some InfoRefs
      else if method = PostMethod \<and> suffix (lit ''/git-upload-pack'') path then Some UploadPack
      else if method = PostMethod \<and> suffix (lit ''/git-receive-pack'') path then Some ReceivePack
      else None)"

fun query_value :: "bytes \<Rightarrow> bytes list \<Rightarrow> bytes option" where
  "query_value key [] = None"
| "query_value key (chunk # chunks) =
     (case split_first 0x3D chunk of
        Some (k, v) \<Rightarrow> if k = key then Some v else query_value key chunks
      | None \<Rightarrow> query_value key chunks)"

definition parse_query :: "bytes \<Rightarrow> bytes \<Rightarrow> bytes option" where
  "parse_query query key = query_value key (split_on 0x26 query)"

section \<open>Base64 reads what base64 writes\<close>

text \<open>The encoder of RFC 4648, with padding.\<close>

definition std_char :: "u32 \<Rightarrow> nat \<Rightarrow> u8" where
  "std_char n k = (let c = b64_char n k in if c = 0x2D then 0x2B else if c = 0x5F then 0x2F else c)"

fun base64_encode :: "bytes \<Rightarrow> bytes" where
  "base64_encode (a # b # c # r) =
     (let n = push_bit 16 (ucast a) OR push_bit 8 (ucast b) OR ucast c
      in [std_char n 18, std_char n 12, std_char n 6, std_char n 0] @ base64_encode r)"
| "base64_encode [a, b] =
     (let n = push_bit 16 (ucast a) OR push_bit 8 (ucast b) in [std_char n 18, std_char n 12, std_char n 6, 0x3D])"
| "base64_encode [a] = (let n = push_bit 16 (ucast a) in [std_char n 18, std_char n 12, 0x3D, 0x3D])"
| "base64_encode [] = []"

lemma std_cases:
  "\<forall>i \<in> set [0..<64]. (let c = b64_alpha ! i; d = if c = 0x2D then 0x2B else if c = 0x5F then 0x2F else c
     in base64_digit d = Some (of_nat i) \<and> d \<noteq> 0x3D)"
  by (simp add: upt_conv_Cons base64_digit_def base64_table_def b64_alpha_def)

lemma std_char_digit: "base64_digit (std_char n k) = Some (sextet k n)" "std_char n k \<noteq> 0x3D"
  using std_cases low_six [of "drop_bit k n"] by (auto simp: std_char_def b64_char_def sextet_def Let_def)

lemma base64_decode_encode: "base64_decode (base64_encode b) = Some b"
proof -
  have "base64_chunks (base64_encode b) = Some b"
  proof (induction b rule: base64_encode.induct)
    case (1 a b c r)
    then show ?case
      using join_sextets [OF quad_bytes(1) [of a b c]]
      by (simp add: base64_chunk_def std_char_digit Let_def quad_bytes del: drop_bit_or)
  next
    case (2 a b)
    then show ?case
      using join_sextets [of "push_bit 16 (ucast a) OR push_bit 8 (ucast b)"] quad_bytes [of a b 0]
      by (simp add: base64_chunk_def std_char_digit Let_def sextet_tail base64_digit_def [of "0x3D"] del: drop_bit_or)
  next
    case (3 a)
    then show ?case
      using join_sextets [of "push_bit 16 (ucast a)"] quad_bytes [of a 0 0]
      by (simp add: base64_chunk_def std_char_digit Let_def sextet_tail base64_digit_def [of "0x3D"] del: drop_bit_or)
  qed simp
  moreover have "length (base64_encode b) mod 4 = 0"
    by (induction b rule: base64_encode.induct) (simp_all add: Let_def)
  ultimately show ?thesis by (simp add: base64_decode_def)
qed

section \<open>Comparing hashes\<close>

lemma fold_or_zero:
  fixes d :: u8
  shows "fold (\<lambda>(x, y) diff. diff OR (f x XOR f y)) ps d = 0 \<longleftrightarrow> d = 0 \<and> (\<forall>(x, y) \<in> set ps. f x = f y)"
proof (induction ps arbitrary: d)
  case (Cons p ps)
  have "d OR e = 0 \<longleftrightarrow> d = 0 \<and> e = 0" for e by (auto simp: bit_eq_iff bit_simps)
  moreover have "x XOR y = 0 \<longleftrightarrow> x = y" for x y :: u8 by (auto simp: bit_eq_iff bit_simps)
  ultimately show ?case using Cons by (cases p) auto
qed simp

lemma constant_time_eq: "constant_time_eq_ignore_ascii_case a b \<longleftrightarrow> map ascii_lower a = map ascii_lower b"
  unfolding constant_time_eq_ignore_ascii_case_def fold_or_zero
  by (auto simp: list_eq_iff_nth_eq set_zip)

section \<open>The users file\<close>

definition graphic :: "bytes \<Rightarrow> bool" where
  "graphic xs \<longleftrightarrow> xs \<noteq> [] \<and> (\<forall>b \<in> set xs. 0x21 \<le> b \<and> b \<le> 0x7F)"

text \<open>A line of the file: a user, the hash of the token and, for a scoped user, the permissions.\<close>

type_synonym user_line = "bytes \<times> bytes \<times> (bytes \<times> bytes) list option"

definition acl_text :: "(bytes \<times> bytes) list \<Rightarrow> bytes" where
  "acl_text rules = join_with [0x20] (map (\<lambda>(repo, perm). repo @ 0x3A # perm) rules)"

definition user_text :: "user_line \<Rightarrow> bytes" where
  "user_text = (\<lambda>(user, hash, acl). user @ 0x09 # hash @ (case acl of None \<Rightarrow> [] | Some rules \<Rightarrow> 0x09 # acl_text rules) @ [0x0A])"

definition rule_ok :: "bytes \<times> bytes \<Rightarrow> bool" where
  "rule_ok = (\<lambda>(repo, perm). graphic repo \<and> 0x3A \<notin> set repo \<and> perm \<in> {lit ''r'', lit ''w'', lit ''rw'', lit ''n''})"

definition user_line_ok :: "user_line \<Rightarrow> bool" where
  "user_line_ok = (\<lambda>(user, hash, acl).
     graphic user \<and> hd user \<noteq> 0x23 \<and> graphic hash \<and> pred_option (list_all rule_ok) acl)"

definition rule_of :: "bytes \<times> bytes \<Rightarrow> acl_rule" where
  "rule_of = (\<lambda>(repo, perm).
     \<lparr>ar_repo = repo, ar_read = perm \<in> {lit ''r'', lit ''rw''}, ar_write = perm \<in> {lit ''w'', lit ''rw''}\<rparr>)"

definition entry_of :: "user_line \<Rightarrow> user_entry" where
  "entry_of = (\<lambda>(user, hash, acl).
     \<lparr>ue_token_hash = hash, ue_acl = (if acl = Some [] then None else map_option (map rule_of) acl)\<rparr>)"

lemma trim_ends:
  assumes "xs \<noteq> []" "0x21 \<le> hd xs" "hd xs \<le> 0x7F" "0x21 \<le> last xs" "last xs \<le> 0x7F"
  shows "trim xs = xs" "ascii_ws b \<Longrightarrow> trim (xs @ [b]) = xs"
proof -
  have front: "ws_char (xs @ ys) = 0" for ys
    using assms(1-3) by (cases xs) (auto simp: graphic_not_ws split: list.splits)
  have rear: "ws_char_rev (rev xs) = 0"
    using assms(1,4,5) by (cases xs rule: rev_cases) (auto simp: graphic_not_ws split: list.splits)
  show "trim xs = xs" using trim_id rear front [of "[]"] by simp
  assume b: "ascii_ws b"
  have "trim_start (xs @ [b]) = xs @ [b]" using front [of "[b]"] by (subst trim_start.simps) simp
  moreover have "trim_start_rev (rev xs) = rev xs" using rear by (subst trim_start_rev.simps) simp
  then have "trim_start_rev (b # rev xs) = rev xs" using b by (subst trim_start_rev.simps) simp
  ultimately show "trim (xs @ [b]) = xs" by (simp add: trim_def)
qed

lemma graphicD: "graphic xs \<Longrightarrow> xs \<noteq> []" "graphic xs \<Longrightarrow> 0x21 \<le> hd xs \<and> hd xs \<le> 0x7F" "graphic xs \<Longrightarrow> 0x21 \<le> last xs \<and> last xs \<le> 0x7F"
  "graphic xs \<Longrightarrow> 0x09 \<notin> set xs" "graphic xs \<Longrightarrow> 0x0A \<notin> set xs" "graphic xs \<Longrightarrow> trim xs = xs" "graphic xs \<Longrightarrow> ws_free xs"
  by (auto simp: graphic_def intro: trim_graphic ws_free_graphic)

lemma perm_graphic: "perm \<in> {lit ''r'', lit ''w'', lit ''rw'', lit ''n''} \<Longrightarrow> graphic perm"
  by (auto simp: graphic_def)

lemma token_graphic: "rule_ok (repo, perm) \<Longrightarrow> graphic (repo @ 0x3A # perm)"
  using perm_graphic [of perm] by (auto simp: rule_ok_def graphic_def simp del: lit_def)

lemma map_filter_all: "(\<And>x. x \<in> set xs \<Longrightarrow> f (h x) = Some (g x)) \<Longrightarrow> List.map_filter f (map h xs) = map g xs"
  by (induction xs) (simp_all add: List.map_filter_simps)

lemma space_below: "(0x21 :: u8) \<le> x \<Longrightarrow> 0x20 \<le> x"
  by (simp add: word_le_nat_alt)

lemma acl_text_reads: "list_all rule_ok rules \<Longrightarrow> parse_acl (acl_text rules) = map rule_of rules"
proof -
  assume ok: "list_all rule_ok rules"
  let ?tokens = "map (\<lambda>(repo, perm). repo @ 0x3A # perm) rules"
  have "\<forall>w \<in> set ?tokens. w \<noteq> [] \<and> ws_free w"
  proof
    fix w assume "w \<in> set ?tokens"
    then obtain repo perm where w: "(repo, perm) \<in> set rules" "w = repo @ 0x3A # perm" by auto
    then have "graphic w" using ok token_graphic by (auto simp: list_all_iff)
    then show "w \<noteq> [] \<and> ws_free w" using graphicD by blast
  qed
  then have split: "split_whitespace (acl_text rules) = ?tokens" unfolding acl_text_def by (rule split_whitespace_join)
  have "acl_token (repo @ 0x3A # perm) = Some (rule_of (repo, perm))" if "rule_ok (repo, perm)" for repo perm
  proof -
    have "split_first 0x3A (repo @ 0x3A # perm) = Some (repo, perm)"
      by (rule split_first_append) (use that in \<open>simp add: rule_ok_def\<close>)
    moreover have "perm \<in> {lit ''r'', lit ''w'', lit ''rw'', lit ''n''}" using that by (simp add: rule_ok_def)
    then have "acl_perm perm = Some (perm \<in> {lit ''r'', lit ''rw''}, perm \<in> {lit ''w'', lit ''rw''})"
      by (elim insertE emptyE) (simp_all add: acl_perm_def)
    ultimately show ?thesis by (simp add: acl_token_def rule_of_def del: lit_def)
  qed
  then have "List.map_filter acl_token ?tokens = map rule_of rules"
    using ok by (intro map_filter_all [of rules acl_token "\<lambda>(repo, perm). repo @ 0x3A # perm" rule_of])
      (clarsimp simp: list_all_iff)
  then show ?thesis by (simp add: parse_acl_def split)
qed

lemma acl_text_bytes: "list_all rule_ok rules \<Longrightarrow> b \<in> set (acl_text rules) \<Longrightarrow> 0x20 \<le> b \<and> b \<le> 0x7F"
proof (induction rules)
  case (Cons rule rules)
  obtain repo perm where r: "rule = (repo, perm)" by (cases rule)
  have "graphic (repo @ 0x3A # perm)" using token_graphic Cons.prems(1) r by simp
  then have t: "x \<in> set (repo @ 0x3A # perm) \<Longrightarrow> 0x20 \<le> x \<and> x \<le> 0x7F" for x
    using space_below unfolding graphic_def by blast
  have "b \<in> set (repo @ 0x3A # perm) \<or> b = 0x20 \<or> b \<in> set (acl_text rules)"
    using Cons.prems(2) by (cases rules) (auto simp: acl_text_def r)
  then show ?case using Cons t by (elim disjE) auto
qed (simp add: acl_text_def)

lemma acl_text_last: "list_all rule_ok rules \<Longrightarrow> rules \<noteq> [] \<Longrightarrow>
  acl_text rules \<noteq> [] \<and> 0x21 \<le> last (acl_text rules) \<and> last (acl_text rules) \<le> 0x7F"
proof (induction rules)
  case (Cons rule rules)
  obtain repo perm where r: "rule = (repo, perm)" by (cases rule)
  have g: "graphic (repo @ 0x3A # perm)" using token_graphic Cons.prems(1) r by simp
  show ?case
  proof (cases rules)
    case Nil
    then have "acl_text (rule # rules) = repo @ 0x3A # perm" by (simp add: acl_text_def r)
    then show ?thesis using graphicD(1,3) [OF g] by simp
  next
    case (Cons r2 rs)
    then have "acl_text (rule # rules) = (repo @ 0x3A # perm) @ 0x20 # acl_text rules" by (simp add: acl_text_def r)
    then show ?thesis using Cons.IH Cons.prems Cons by simp
  qed
qed simp

definition user_body :: "user_line \<Rightarrow> bytes" where
  "user_body = (\<lambda>(user, hash, acl). user @ 0x09 # hash @ (case acl of None \<Rightarrow> [] | Some rules \<Rightarrow> 0x09 # acl_text rules))"

lemma user_text_body: "user_text l = user_body l @ [0x0A]"
  by (cases l) (simp add: user_text_def user_body_def)

text \<open>What is left of a line once it is trimmed: an empty third column is lost.\<close>

definition user_trimmed :: "user_line \<Rightarrow> bytes" where
  "user_trimmed = (\<lambda>(user, hash, acl). user_body (user, hash, if acl = Some [] then None else acl))"

lemma trim_user:
  assumes "user_line_ok l"
  shows "trim (user_body l) = user_trimmed l"
proof -
  obtain u h acl where l: "l = (u, h, acl)" by (cases l) auto
  have ok: "graphic u" "graphic h" "pred_option (list_all rule_ok) acl" using assms by (auto simp: user_line_ok_def l)
  have hd: "hd (u @ ys) = hd u" for ys using graphicD(1) [OF ok(1)] by simp
  have base: "trim (u @ 0x09 # h) = u @ 0x09 # h" "trim ((u @ 0x09 # h) @ [0x09]) = u @ 0x09 # h"
    using trim_ends [of "u @ 0x09 # h"] graphicD(1-3) [OF ok(1)] graphicD(1-3) [OF ok(2)] by (simp_all add: ascii_ws_def)
  show ?thesis
  proof (cases acl)
    case None
    then show ?thesis using base(1) by (simp add: l user_trimmed_def user_body_def)
  next
    case (Some rules)
    show ?thesis
    proof (cases "rules = []")
      case True
      then show ?thesis using base(2) Some by (simp add: l user_trimmed_def user_body_def acl_text_def)
    next
      case False
      then have "trim (u @ 0x09 # h @ 0x09 # acl_text rules) = u @ 0x09 # h @ 0x09 # acl_text rules"
        using trim_ends(1) [of "u @ 0x09 # h @ 0x09 # acl_text rules"] acl_text_last [of rules] ok Some graphicD(1-2) [OF ok(1)] by simp
      then show ?thesis using False Some by (simp add: l user_trimmed_def user_body_def)
    qed
  qed
qed

lemma users_line_reads:
  assumes "user_line_ok l"
  shows "users_line (user_body l) table = table(fst l \<mapsto> entry_of l)"
proof -
  obtain u h acl where l: "l = (u, h, acl)" by (cases l) auto
  have ok: "graphic u" "graphic h" "pred_option (list_all rule_ok) acl" "hd u \<noteq> 0x23" using assms by (auto simp: user_line_ok_def l)
  obtain rest where t: "user_trimmed l = u @ 0x09 # rest"
    "rest = h @ (if acl = None \<or> acl = Some [] then [] else 0x09 # acl_text (the acl))"
    by (cases acl) (auto simp: l user_trimmed_def user_body_def)
  have u: "split_first 0x09 (u @ 0x09 # rest) = Some (u, rest)"
    using graphicD(4) [OF ok(1)] by (rule split_first_append)
  have hd: "hd (u @ 0x09 # rest) = hd u" "u @ 0x09 # rest \<noteq> []" using graphicD(1) [OF ok(1)] by simp_all
  have h: "split_first 0x09 h = None" using graphicD(4) [OF ok(2)] by (simp add: split_first_eq_None)
  have h2: "split_first 0x09 (h @ 0x09 # a) = Some (h, a)" for a using graphicD(4) [OF ok(2)] by (rule split_first_append)
  show ?thesis
  proof -
    have tr: "trim (user_body l) = u @ 0x09 # rest" using trim_user [OF assms] t(1) by simp
    have "users_line (user_body l) table =
        (case (case split_first 0x09 rest of None \<Rightarrow> (rest, None) | Some (hash, field) \<Rightarrow> (hash, Some (parse_acl field))) of
           (hash, acl) \<Rightarrow> table(u \<mapsto> \<lparr>ue_token_hash = trim hash, ue_acl = acl\<rparr>))"
      unfolding users_line_def tr Let_def using hd ok(4) u graphicD(6) [OF ok(1)] by simp
    then show ?thesis
      using h h2 graphicD(6) [OF ok(2)] acl_text_reads ok(3) by (cases acl) (auto simp: t(2) l entry_of_def)
  qed
qed

lemma user_body_bytes: "user_line_ok l \<Longrightarrow> b \<in> set (user_body l) \<Longrightarrow> b = 0x09 \<or> 0x20 \<le> b \<and> b \<le> 0x7F"
proof -
  assume ok: "user_line_ok l" and b: "b \<in> set (user_body l)"
  obtain u h acl where l: "l = (u, h, acl)" by (cases l) auto
  have g: "graphic u" "graphic h" "pred_option (list_all rule_ok) acl" using ok by (auto simp: user_line_ok_def l)
  have "b \<in> set u \<union> set h \<or> b = 0x09 \<or> (\<exists>rules. acl = Some rules \<and> b \<in> set (acl_text rules))"
    using b by (auto simp: l user_body_def split: option.splits)
  then show ?thesis using g acl_text_bytes space_below unfolding graphic_def by fastforce
qed

lemma users_lines_read:
  assumes "list_all user_line_ok ls"
  shows "str_lines (concat (map user_text ls)) = map user_body ls"
proof -
  have nl: "0x0A \<notin> set (user_body l)" and cr: "0x0D \<notin> set (user_body l)" if "l \<in> set ls" for l
  proof -
    have ok: "user_line_ok l" using assms that by (simp add: list_all_iff)
    show "0x0A \<notin> set (user_body l)" using user_body_bytes [OF ok, of "0x0A"] by auto
    show "0x0D \<notin> set (user_body l)" using user_body_bytes [OF ok, of "0x0D"] by auto
  qed
  have "lines_ok (map user_text ls)" using nl by (induction ls) (auto simp: user_text_body)
  then have "split_lines (concat (map user_text ls)) = map user_text ls" by (rule split_lines_concat)
  moreover have "last (user_body l) \<noteq> 0x0D" if "l \<in> set ls" "user_body l \<noteq> []" for l
    using cr [OF that(1)] last_in_set [OF that(2)] by metis
  ultimately show ?thesis by (auto simp: str_lines_def user_text_body Let_def)
qed

lemma users_known:
  assumes "list_all user_line_ok ls"
  shows "read_users (FileBytes (concat (map user_text ls))) = Some (fold (\<lambda>l table. table(fst l \<mapsto> entry_of l)) ls Map.empty)"
proof -
  have "utf8 (concat (map user_text ls))"
  proof (rule utf8_ascii, rule ballI)
    fix b assume "b \<in> set (concat (map user_text ls))"
    then obtain l where "l \<in> set ls" "b \<in> set (user_text l)" by auto
    then have "l \<in> set ls" "b \<in> set (user_body l) \<or> b = 0x0A" by (auto simp: user_text_body)
    then show "b \<le> 0x7F" using assms user_body_bytes [of l b] by (auto simp: list_all_iff)
  qed
  moreover have "fold users_line (map user_body ls) t = fold (\<lambda>l table. table(fst l \<mapsto> entry_of l)) ls t" for t
    using assms by (induction ls arbitrary: t) (simp_all add: users_line_reads)
  ultimately show ?thesis by (simp add: read_users_def users_lines_read [OF assms])
qed

section \<open>What the dispatcher lets through\<close>

lemma acl_allows_iff:
  "acl_allows acl repo action \<longleftrightarrow>
     (\<exists>r \<in> set acl. (ar_repo r = lit ''*'' \<or> ar_repo r = repo) \<and>
        (case action of ReadAction \<Rightarrow> ar_read r | WriteAction \<Rightarrow> ar_write r))"
  by (induction acl repo action rule: acl_allows.induct) (auto split: action.splits)

lemma check_auth_known:
  assumes "check_auth hash_hex headers f = AllowUser user acl"
  shows "\<exists>u token table entry field b64. user = Some u \<and> read_users f = Some table \<and> table u = Some entry \<and> acl = ue_acl entry \<and>
    (field, lit ''Basic '' @ b64) \<in> set headers \<and> base64_decode (trim b64) = Some (u @ 0x3A # token) \<and> 0x3A \<notin> set u \<and>
    map ascii_lower (ue_token_hash entry) = map ascii_lower (hash_hex token)"
proof -
  let ?find = "find (\<lambda>(field, _). map ascii_lower field = lit ''authorization'') headers"
  obtain field hval where f: "?find = Some (field, hval)"
    using assms by (cases ?find) (auto simp: check_auth_def)
  obtain b64 where b: "strip_prefix (lit ''Basic '') hval = Some b64"
    using assms f by (cases "strip_prefix (lit ''Basic '') hval") (auto simp: check_auth_def simp del: lit_def)
  obtain decoded where d: "base64_decode (trim b64) = Some decoded" "utf8 decoded"
    using assms f b by (cases "base64_decode (trim b64)") (auto simp: check_auth_def simp del: lit_def split: if_splits)
  obtain u token where t: "split_first 0x3A decoded = Some (u, token)"
    using assms f b d by (cases "split_first 0x3A decoded") (auto simp: check_auth_def simp del: lit_def)
  obtain table where r: "read_users f = Some table"
    using assms f b d t by (cases "read_users f") (auto simp: check_auth_def simp del: lit_def)
  obtain entry where e: "table u = Some entry"
    using assms f b d t r by (cases "table u") (auto simp: check_auth_def simp del: lit_def)
  have "user = Some u" "acl = ue_acl entry" "constant_time_eq_ignore_ascii_case (ue_token_hash entry) (hash_hex token)"
    using assms f b d t r e by (auto simp: check_auth_def simp del: lit_def split: if_splits)
  moreover have "(field, hval) \<in> set headers" using f by (metis (no_types, lifting) find_Some_iff nth_mem)
  moreover have "hval = lit ''Basic '' @ b64" using b by (simp add: strip_prefix_eq_Some del: lit_def)
  moreover have "decoded = u @ 0x3A # token" "0x3A \<notin> set u" using t by (auto simp: split_first_eq_Some)
  ultimately show ?thesis using d(1) r e constant_time_eq by blast
qed

lemma repo_of_path_name: "repo_of_path path = Some (name, rest) \<Longrightarrow>
  name \<noteq> [] \<and> 0x2F \<notin> set name \<and> 0x5C \<notin> set name \<and> \<not> contains (lit ''..'') name"
  by (auto simp: repo_of_path_def Let_def split_first_eq_Some split_first_eq_None simp del: lit_def split: option.splits if_splits)

definition permits :: "user_entry \<Rightarrow> bytes \<Rightarrow> action \<Rightarrow> bool" where
  "permits entry name action \<longleftrightarrow>
     (case ue_acl entry of
        None \<Rightarrow> True
      | Some rules \<Rightarrow>
          \<exists>r \<in> set rules. (ar_repo r = lit ''*'' \<or> ar_repo r = name) \<and>
            (case action of ReadAction \<Rightarrow> ar_read r | WriteAction \<Rightarrow> ar_write r))"

lemma dispatch_known:
  assumes "dispatch_gate hash_hex (Some f) served method url headers = Proceed user name rest"
  shows "\<exists>u token table entry field b64. user = Some u \<and> read_users f = Some table \<and> table u = Some entry \<and>
    (field, lit ''Basic '' @ b64) \<in> set headers \<and> base64_decode (trim b64) = Some (u @ 0x3A # token) \<and> 0x3A \<notin> set u \<and>
    map ascii_lower (ue_token_hash entry) = map ascii_lower (hash_hex token) \<and>
    (route method rest = Some ReceivePack \<longrightarrow> permits entry name WriteAction) \<and>
    (route method rest = Some UploadPack \<longrightarrow> permits entry name ReadAction) \<and>
    served name \<and> name \<noteq> [] \<and> 0x2F \<notin> set name \<and> 0x5C \<notin> set name \<and> \<not> contains (lit ''..'') name"
proof -
  obtain acl where a: "check_auth hash_hex headers f = AllowUser user acl"
    using assms by (auto simp: dispatch_gate_def Let_def split: auth_outcome.splits option.splits prod.splits if_splits)
  obtain path query where pq: "(case split_first 0x3F url of Some (p, q) \<Rightarrow> (p, q) | None \<Rightarrow> (url, [])) = (path, query)" by fastforce
  have repo: "repo_of_path path = Some (name, rest)" and served: "served name" and
    allow: "\<forall>rules action. acl = Some rules \<and> action_from_request method rest query = Some action \<longrightarrow> acl_allows rules name action"
    using assms a pq by (auto simp: dispatch_gate_def Let_def split: option.splits if_splits)
  obtain u token table entry field b64 where k: "user = Some u" "read_users f = Some table" "table u = Some entry" "acl = ue_acl entry"
    "(field, lit ''Basic '' @ b64) \<in> set headers" "base64_decode (trim b64) = Some (u @ 0x3A # token)" "0x3A \<notin> set u"
    "map ascii_lower (ue_token_hash entry) = map ascii_lower (hash_hex token)"
    using check_auth_known [OF a] by blast
  have act: "route method rest = Some ReceivePack \<Longrightarrow> action_from_request method rest query = Some WriteAction"
    "route method rest = Some UploadPack \<Longrightarrow> action_from_request method rest query = Some ReadAction"
    by (auto simp: route_def action_from_request_def simp del: lit_def split: if_splits)
  have "route method rest = Some ReceivePack \<longrightarrow> permits entry name WriteAction"
    "route method rest = Some UploadPack \<longrightarrow> permits entry name ReadAction"
    using allow act k(4) by (auto simp: permits_def acl_allows_iff simp del: lit_def split: option.splits)
  then show ?thesis using k served repo_of_path_name [OF repo] by blast
qed

section \<open>Properties\<close>

text \<open>C15. A request that reaches a handler of a server with a users file is authenticated and permitted: it carries Basic credentials
  of a user of the file whose stored hash is that of the token, whatever the case of its letters; a push needs a rule that
  lets the user write that repository, a fetch one that lets the user read it, unless the user is not scoped; and the
  repository's name is one path component without \<^verbatim>\<open>..\<close>, so it cannot leave the server root.\<close>

theorem dispatch_authorizes:
  assumes "dispatch_gate hash_hex (Some f) served method url headers = Proceed user name rest"
  shows "\<exists>u token table entry field b64. user = Some u \<and> read_users f = Some table \<and> table u = Some entry \<and>
    (field, lit ''Basic '' @ b64) \<in> set headers \<and> base64_decode (trim b64) = Some (u @ 0x3A # token) \<and> 0x3A \<notin> set u \<and>
    map ascii_lower (ue_token_hash entry) = map ascii_lower (hash_hex token) \<and>
    (route method rest = Some ReceivePack \<longrightarrow> permits entry name WriteAction) \<and>
    (route method rest = Some UploadPack \<longrightarrow> permits entry name ReadAction) \<and>
    served name \<and> name \<noteq> [] \<and> 0x2F \<notin> set name \<and> 0x5C \<notin> set name \<and> \<not> contains (lit ''..'') name"
  by (rule dispatch_known [OF assms])

text \<open>A scoped user with the right to read, in all the witnesses below.\<close>

definition bob_file :: file_read where
  "bob_file = FileBytes (concat (map user_text [(lit ''bob'', lit ''cafe'', Some [(lit ''proj'', lit ''r'')])]))"

lemma bob_reads: "read_users bob_file = Some [lit ''bob'' \<mapsto>
  \<lparr>ue_token_hash = lit ''cafe'', ue_acl = Some [\<lparr>ar_repo = lit ''proj'', ar_read = True, ar_write = False\<rparr>]\<rparr>]"
proof -
  have "list_all user_line_ok [(lit ''bob'', lit ''cafe'', Some [(lit ''proj'', lit ''r'')])]"
    by (simp add: user_line_ok_def graphic_def rule_ok_def)
  from users_known [OF this] show ?thesis by (simp add: bob_file_def entry_of_def rule_of_def)
qed

definition bob_headers :: "(bytes \<times> bytes) list" where
  "bob_headers = [(lit ''Authorization'', lit ''Basic '' @ base64_encode (lit ''bob:pw''))]"

lemma bob_allowed: "check_auth (\<lambda>_. lit ''CAFE'') bob_headers bob_file =
  AllowUser (Some (lit ''bob'')) (Some [\<lparr>ar_repo = lit ''proj'', ar_read = True, ar_write = False\<rparr>])"
proof -
  have b64: "base64_encode (lit ''bob:pw'') = lit ''Ym9iOnB3''"
    by (simp add: std_char_def b64_char_def b64_alpha_def Let_def)
  have t: "trim (lit ''Ym9iOnB3'') = lit ''Ym9iOnB3''" by (rule trim_graphic) simp
  have d: "base64_decode (lit ''Ym9iOnB3'') = Some (lit ''bob:pw'')" using base64_decode_encode b64 by metis
  have find: "find (\<lambda>(field, _). map ascii_lower field = lit ''authorization'') bob_headers =
      Some (lit ''Authorization'', lit ''Basic '' @ lit ''Ym9iOnB3'')"
    by (simp only: bob_headers_def b64) (simp add: ascii_lower_def)
  have u: "utf8 (lit ''bob:pw'')" by (rule utf8_ascii) simp
  have s: "split_first 0x3A (lit ''bob:pw'') = Some (lit ''bob'', lit ''pw'')" by simp
  have same: "constant_time_eq_ignore_ascii_case (lit ''cafe'') (lit ''CAFE'')" by (simp add: constant_time_eq ascii_lower_def)
  show ?thesis
    unfolding check_auth_def find option.case prod.case strip_prefix_append t d s bob_reads using u same by (simp del: lit_def)
qed

theorem dispatch_authorizes_witness:
  "\<exists>table entry. read_users bob_file = Some table \<and> table (lit ''bob'') = Some entry \<and> permits entry (lit ''proj'') ReadAction"
proof -
  have p: "repo_of_path (lit ''/proj/git-upload-pack'') = Some (lit ''proj'', lit ''/git-upload-pack'')"
    by (simp add: repo_of_path_def)
  have q: "split_first 0x3F (lit ''/proj/git-upload-pack'') = None" by simp
  have act: "action_from_request PostMethod (lit ''/git-upload-pack'') [] = Some ReadAction" "route PostMethod (lit ''/git-upload-pack'') = Some UploadPack"
    by (simp_all add: action_from_request_def route_def)
  have run: "dispatch_gate (\<lambda>_. lit ''CAFE'') (Some bob_file) (\<lambda>_. True) PostMethod (lit ''/proj/git-upload-pack'') bob_headers =
      Proceed (Some (lit ''bob'')) (lit ''proj'') (lit ''/git-upload-pack'')"
    unfolding dispatch_gate_def option.case bob_allowed Let_def auth_outcome.case q prod.case p act by simp
  from dispatch_authorizes [OF run] act(2) show ?thesis by (auto simp del: lit_def)
qed

text \<open>The permission to list refs is decided on another reading of the query than the one that is served: a
  user who may only read gets the \<^verbatim>\<open>receive-pack\<close> advertisement, which is for writers, by naming the other service further on.\<close>

theorem info_refs_service_confused:
  "dispatch_gate (\<lambda>_. lit ''CAFE'') (Some bob_file) (\<lambda>_. True) GetMethod
      (lit ''/proj/info/refs?service=git-receive-pack&x=service=git-upload-pack'') bob_headers =
     Proceed (Some (lit ''bob'')) (lit ''proj'') (lit ''/info/refs'')
   \<and> parse_query (lit ''service=git-receive-pack&x=service=git-upload-pack'') (lit ''service'') = Some (lit ''git-receive-pack'')
   \<and> \<not> acl_allows [\<lparr>ar_repo = lit ''proj'', ar_read = True, ar_write = False\<rparr>] (lit ''proj'') WriteAction"
proof (intro conjI)
  let ?query = "lit ''service=git-receive-pack&x=service=git-upload-pack''"
  have p: "repo_of_path (lit ''/proj/info/refs'') = Some (lit ''proj'', lit ''/info/refs'')" by (simp add: repo_of_path_def)
  have q: "split_first 0x3F (lit ''/proj/info/refs?service=git-receive-pack&x=service=git-upload-pack'') = Some (lit ''/proj/info/refs'', ?query)"
    by simp
  have act: "action_from_request GetMethod (lit ''/info/refs'') ?query = Some ReadAction" by (simp add: action_from_request_def)
  show "dispatch_gate (\<lambda>_. lit ''CAFE'') (Some bob_file) (\<lambda>_. True) GetMethod
      (lit ''/proj/info/refs?service=git-receive-pack&x=service=git-upload-pack'') bob_headers =
     Proceed (Some (lit ''bob'')) (lit ''proj'') (lit ''/info/refs'')"
    unfolding dispatch_gate_def option.case bob_allowed Let_def auth_outcome.case q prod.case p act by simp
qed (simp_all add: parse_query_def)

text \<open>The users file reads back, and the last line for a user counts: each line gives its user the hash and the
  permissions it states.  But a scoped user whose list of permissions is empty is read as one who is not scoped, that
  is with every permission.  And the decoder of credentials inverts base64.\<close>

theorem users_file_reads_back:
  assumes "list_all user_line_ok ls"
  shows "read_users (FileBytes (concat (map user_text ls))) = Some (fold (\<lambda>l table. table(fst l \<mapsto> entry_of l)) ls Map.empty)
   \<and> ue_acl (entry_of (user, hash, Some [])) = None
   \<and> base64_decode (base64_encode b) = Some b"
  using users_known [OF assms] base64_decode_encode by (simp add: entry_of_def)

theorem users_file_reads_back_witness:
  "\<exists>table entry. read_users (FileBytes (lit ''eve'' @ [0x09] @ lit ''cafe'' @ [0x09, 0x0A])) = Some table \<and>
     table (lit ''eve'') = Some entry \<and> permits entry (lit ''proj'') WriteAction"
proof -
  have "list_all user_line_ok [(lit ''eve'', lit ''cafe'', Some [])]" by (simp add: user_line_ok_def graphic_def)
  from users_file_reads_back [OF this] show ?thesis by (simp add: user_text_def acl_text_def permits_def entry_of_def)
qed

end
