(* ===== verification/Cdc.thy ===== *)
theory Cdc
  imports Prelude
begin

text \<open>
  Content-defined chunking, \<^verbatim>\<open>alt-cdc/src/lib.rs\<close>: the frozen gear table, the cut point of the next
  chunk and the chunks of a byte stream.  A panic (an assertion of \<^verbatim>\<open>validate\<close>, or a mask whose
  shift is out of range) is \<open>None\<close>.
\<close>

section \<open>Parameters\<close>

record cdc_params =
  cp_min :: nat
  cp_avg :: nat
  cp_max :: nat

definition DEFAULT_PARAMS :: cdc_params where
  "DEFAULT_PARAMS = \<lparr>cp_min = 16 * 1024, cp_avg = 64 * 1024, cp_max = 256 * 1024\<rparr>"

text \<open>\<^verbatim>\<open>u64::MAX << (64 - bits)\<close>: the subtraction underflows beyond 64, the shift overflows at 0.\<close>

definition cdc_mask :: "nat \<Rightarrow> u64 option" where
  "cdc_mask bits = (if bits = 0 \<or> 64 < bits then None else Some (push_bit (64 - bits) (- 1)))"

function trailing_zeros :: "nat \<Rightarrow> nat" where
  "trailing_zeros n = (if n = 0 then 64 else if odd n then 0 else Suc (trailing_zeros (n div 2)))"
  by pat_completeness auto
termination
  by (relation "measure (\<lambda>n. n)") (auto elim: evenE)

declare trailing_zeros.simps [simp del]

definition avg_bits :: "cdc_params \<Rightarrow> nat" where
  "avg_bits p = trailing_zeros (cp_avg p)"

definition mask_strict :: "cdc_params \<Rightarrow> u64 option" where
  "mask_strict p = cdc_mask (avg_bits p + 2)"

definition mask_lax :: "cdc_params \<Rightarrow> u64 option" where
  "mask_lax p = (if avg_bits p < 2 then None else cdc_mask (avg_bits p - 2))"

definition is_power_of_two :: "nat \<Rightarrow> bool" where
  "is_power_of_two n \<longleftrightarrow> 0 < n \<and> n = 2 ^ trailing_zeros n"

definition cdc_valid :: "cdc_params \<Rightarrow> bool" where
  "cdc_valid p \<longleftrightarrow> 64 \<le> cp_min p \<and> cp_min p < cp_avg p \<and> cp_avg p < cp_max p \<and> is_power_of_two (cp_avg p)"

section \<open>The gear table\<close>

definition GEAR_SEED :: u64 where "GEAR_SEED = 0x616c745f63646331"

definition GEAR_STEP :: u64 where "GEAR_STEP = 0x9e3779b97f4a7c15"

definition gear_mix :: "u64 \<Rightarrow> u64" where
  "gear_mix state =
     (let z0 = state;
          z1 = (z0 XOR drop_bit 30 z0) * 0xbf58476d1ce4e5b9;
          z2 = (z1 XOR drop_bit 27 z1) * 0x94d049bb133111eb
      in z2 XOR drop_bit 31 z2)"

fun gear_table :: "nat \<Rightarrow> u64 \<Rightarrow> u64 list" where
  "gear_table 0 state = []"
| "gear_table (Suc n) state = (let state' = state + GEAR_STEP in gear_mix state' # gear_table n state')"

definition GEAR :: "u64 list" where "GEAR = gear_table 256 GEAR_SEED"

lemma gear_table_nth:
  "i < n \<Longrightarrow> gear_table n s ! i = gear_mix (s + of_nat (Suc i) * GEAR_STEP)"
  by (induction n arbitrary: s i) (auto simp: nth_Cons Let_def algebra_simps split: nat.splits)

lemma length_gear_table [simp]: "length (gear_table n s) = n"
  by (induction n arbitrary: s) (auto simp: Let_def)

lemma gear_index: "unat (b :: u8) < length GEAR"
  using unat_u8_less [of b] by (simp add: GEAR_def)

text \<open>The two canary values of the source's own test.\<close>

lemma gear_frozen: "GEAR ! 0 = 0xdd97d862b0cf28ec" "GEAR ! 255 = 0x128afc719cb3c413"
proof -
  have "gear_mix (GEAR_SEED + 1 * GEAR_STEP) = 0xdd97d862b0cf28ec"
    "gear_mix (GEAR_SEED + 256 * GEAR_STEP) = 0x128afc719cb3c413" by code_simp+
  then show "GEAR ! 0 = 0xdd97d862b0cf28ec" "GEAR ! 255 = 0x128afc719cb3c413"
    by (simp_all add: GEAR_def gear_table_nth)
qed

section \<open>Cut points\<close>

text \<open>One of the two loops of \<^verbatim>\<open>next_cut\<close>: \<open>Inl\<close> is the cut, \<open>Inr\<close> the hash the loop ran off with.\<close>

function gear_loop :: "u64 option \<Rightarrow> bytes \<Rightarrow> nat \<Rightarrow> nat \<Rightarrow> u64 \<Rightarrow> (nat + u64) option" where
  "gear_loop msk data i stop fp =
     (if i < stop then
        let fp' = push_bit 1 fp + GEAR ! unat (data ! i) in
        (case msk of
           None \<Rightarrow> None
         | Some m \<Rightarrow> if fp' AND m = 0 then Some (Inl (i + 1)) else gear_loop msk data (i + 1) stop fp')
      else Some (Inr fp))"
  by pat_completeness auto
termination
  by (relation "measure (\<lambda>(msk, data, i, stop, fp). stop - i)") simp_all

declare gear_loop.simps [simp del]

definition next_cut :: "bytes \<Rightarrow> cdc_params \<Rightarrow> nat option" where
  "next_cut data p =
     (if \<not> cdc_valid p then None
      else if length data \<le> cp_min p then Some (length data)
      else
        let cap = min (length data) (cp_max p);
            normal = min (cp_avg p) cap
        in case gear_loop (mask_strict p) data (cp_min p) normal 0 of
             None \<Rightarrow> None
           | Some (Inl edge) \<Rightarrow> Some edge
           | Some (Inr fp) \<Rightarrow>
               (case gear_loop (mask_lax p) data normal cap fp of
                  None \<Rightarrow> None
                | Some (Inl edge) \<Rightarrow> Some edge
                | Some (Inr _) \<Rightarrow> Some cap))"

lemma gear_loop_Inl:
  "gear_loop msk data i stop fp = Some (Inl edge) \<Longrightarrow> i < edge \<and> edge \<le> stop"
proof (induction msk data i stop fp rule: gear_loop.induct)
  case (1 msk data i stop fp)
  from "1.prems" show ?case
    by (auto simp: gear_loop.simps [of msk data i] Let_def split: if_splits option.splits dest: "1.IH")
qed

lemma next_cut_bounds:
  assumes "next_cut data p = Some edge"
  shows "edge \<le> length data" "edge \<le> max (cp_min p) (cp_max p)" "data \<noteq> [] \<longrightarrow> 0 < edge"
    "edge < length data \<longrightarrow> cp_min p < edge" "cdc_valid p"
  using assms
  by (auto simp: next_cut_def Let_def cdc_valid_def split: if_splits option.splits sum.splits dest!: gear_loop_Inl)

lemma gear_loop_total: "gear_loop (Some m) data i stop fp \<noteq> None"
proof (induction "Some m" data i stop fp rule: gear_loop.induct)
  case (1 data i stop fp)
  then show ?case by (simp add: gear_loop.simps [of _ data i] Let_def)
qed

text \<open>Only the bytes before the cap are looked at.\<close>

lemma gear_loop_cong:
  "take stop data = take stop data' \<Longrightarrow> stop \<le> length data \<Longrightarrow> stop \<le> length data' \<Longrightarrow>
   gear_loop msk data i stop fp = gear_loop msk data' i stop fp"
proof (induction msk data i stop fp rule: gear_loop.induct)
  case (1 msk data i stop fp)
  have nth: "i < stop \<Longrightarrow> data ! i = data' ! i" using "1.prems" by (metis nth_take)
  show ?case
    using 1 nth by (auto simp: gear_loop.simps [of msk data i] gear_loop.simps [of msk data' i] Let_def
        simp del: gear_loop.simps split: option.split)
qed

section \<open>The chunks of a stream\<close>

text \<open>The iterator, run to its end.\<close>

function cdc_chunks :: "bytes \<Rightarrow> cdc_params \<Rightarrow> bytes list option" where
  "cdc_chunks rest p =
     (if rest = [] then Some []
      else case next_cut rest p of
             None \<Rightarrow> None
           | Some edge \<Rightarrow> map_option (Cons (take edge rest)) (cdc_chunks (drop edge rest) p))"
  by pat_completeness auto
termination
  by (relation "measure (\<lambda>(rest, p). length rest)") (auto dest: next_cut_bounds)

declare cdc_chunks.simps [simp del]

lemma chunks_Nil [simp]: "cdc_chunks [] p = Some []"
  by (simp add: cdc_chunks.simps)

lemma chunks_Cons:
  "data \<noteq> [] \<Longrightarrow> cdc_chunks data p = Some cs \<longleftrightarrow>
     (\<exists>edge ds. next_cut data p = Some edge \<and> cdc_chunks (drop edge data) p = Some ds \<and> cs = take edge data # ds)"
  by (subst cdc_chunks.simps) (auto split: option.splits)

lemma chunks_step:
  assumes "cdc_chunks data p = Some (c # cs)"
  obtains edge where "next_cut data p = Some edge" "cdc_chunks (drop edge data) p = Some cs" "c = take edge data"
    "c \<noteq> []" "length c = edge" "edge \<le> length data" "edge \<le> cp_max p" "edge < length data \<longrightarrow> cp_min p < edge"
proof -
  have "data \<noteq> []" using assms by auto
  then obtain edge where edge: "next_cut data p = Some edge" "cdc_chunks (drop edge data) p = Some cs" "c = take edge data"
    using assms by (auto simp: chunks_Cons)
  note next_cut_bounds [OF edge(1)]
  moreover from this have "cp_min p < cp_max p" by (simp add: cdc_valid_def)
  ultimately show thesis using that [OF edge] edge(3) \<open>data \<noteq> []\<close> by auto
qed

lemma chunks_concat: "cdc_chunks data p = Some cs \<Longrightarrow> concat cs = data"
proof (induction cs arbitrary: data)
  case Nil
  then show ?case by (cases "data = []") (auto simp: chunks_Cons)
next
  case (Cons c cs)
  from Cons.prems show ?case by (rule chunks_step) (use Cons.IH in auto)
qed

lemma chunks_sizes:
  "cdc_chunks data p = Some cs \<Longrightarrow> c \<in> set cs \<Longrightarrow> c \<noteq> [] \<and> length c \<le> cp_max p"
proof (induction cs arbitrary: data)
  case (Cons d cs)
  from Cons.prems(1) show ?case by (rule chunks_step) (use Cons in auto)
qed simp

lemma chunks_min:
  "cdc_chunks data p = Some cs \<Longrightarrow> c \<in> set (butlast cs) \<Longrightarrow> cp_min p < length c"
proof (induction cs arbitrary: data)
  case (Cons d cs)
  from Cons.prems(1) show ?case
  proof (rule chunks_step)
    fix edge
    assume edge: "cdc_chunks (drop edge data) p = Some cs" "length d = edge" "edge < length data \<longrightarrow> cp_min p < edge"
    have "cs \<noteq> []" using Cons.prems by auto
    then have "edge < length data" using edge by (cases "drop edge data = []") auto
    then show ?thesis using edge Cons.IH [OF edge(1)] Cons.prems \<open>cs \<noteq> []\<close> by auto
  qed
qed simp

text \<open>The masks of valid parameters are in range up to an average of \<open>2 ^ 62\<close>.\<close>

lemma trailing_zeros_power [simp]: "trailing_zeros (2 ^ k) = k"
proof (induction k)
  case 0
  show ?case by (simp add: trailing_zeros.simps [of "Suc 0"])
next
  case (Suc k)
  then show ?case by (simp add: trailing_zeros.simps [of "2 * 2 ^ k"])
qed

lemma power_of_two: "is_power_of_two n \<Longrightarrow> \<exists>k. n = 2 ^ k"
  by (auto simp: is_power_of_two_def)

lemma masks_in_range:
  assumes "cdc_valid p" and "cp_avg p \<le> 2 ^ 62"
  shows "\<exists>m. mask_strict p = Some m" "\<exists>m. mask_lax p = Some m"
proof -
  obtain k where k: "cp_avg p = 2 ^ k" using assms power_of_two by (auto simp: cdc_valid_def)
  have "k \<le> 62" using assms(2) unfolding k by (rule power_le_imp_le_exp [rotated]) simp
  moreover have "(2::nat) ^ 6 < 2 ^ k" using assms k by (simp add: cdc_valid_def)
  then have "6 < k" using power_less_imp_less_exp by (metis one_less_numeral_iff semiring_norm(76))
  ultimately show "\<exists>m. mask_strict p = Some m" "\<exists>m. mask_lax p = Some m"
    using k by (simp_all add: mask_strict_def mask_lax_def cdc_mask_def avg_bits_def)
qed

lemma next_cut_total:
  assumes "cdc_valid p" and "cp_avg p \<le> 2 ^ 62"
  shows "next_cut data p \<noteq> None"
proof -
  obtain m l where "mask_strict p = Some m" "mask_lax p = Some l" using masks_in_range [OF assms] by auto
  then show ?thesis
    using assms by (auto simp: next_cut_def Let_def gear_loop_total split: option.split sum.split)
qed

lemma chunks_total:
  assumes "cdc_valid p" and "cp_avg p \<le> 2 ^ 62"
  shows "cdc_chunks data p \<noteq> None"
proof (induction data rule: length_induct)
  case (1 data)
  obtain edge where edge: "next_cut data p = Some edge" using next_cut_total [OF assms] by blast
  then show ?case using 1 next_cut_bounds [OF edge] by (cases "data = []") (auto simp: cdc_chunks.simps [of data])
qed

text \<open>After a common cut point the chunks are those of the common rest.\<close>

lemma chunks_rest:
  "cdc_chunks (a @ t) p = Some (as @ cs) \<Longrightarrow> concat as = a \<Longrightarrow> cdc_chunks t p = Some cs"
proof (induction as arbitrary: a)
  case (Cons c as)
  from Cons.prems(1) have "cdc_chunks (a @ t) p = Some (c # as @ cs)" by simp
  then show ?case
  proof (rule chunks_step)
    fix edge
    assume edge: "cdc_chunks (drop edge (a @ t)) p = Some (as @ cs)" "length c = edge"
    have "drop edge (a @ t) = concat as @ t" using Cons.prems(2) edge(2) by auto
    with edge Cons.IH show ?thesis by simp
  qed
qed simp

text \<open>C17. 
  A valid parameter set never panics (up to an average of \<open>2 ^ 62\<close> bytes).  The cdc_chunks are non-empty,
  put together they are the input, none exceeds the maximum and all but the last exceed the minimum.
  Two streams that share a suffix and each have a cut at its start have the same cdc_chunks from there on:
  an edit in front of a cut point moves nothing behind it.
\<close>

theorem chunks_partition:
  assumes "cdc_valid p" and "cp_avg p \<le> 2 ^ 62"
  shows "\<exists>cs. cdc_chunks data p = Some cs \<and> concat cs = data \<and> (\<forall>c \<in> set cs. c \<noteq> [] \<and> length c \<le> cp_max p) \<and>
    (\<forall>c \<in> set (butlast cs). cp_min p < length c) \<and>
    (\<forall>as bs a b t ds es. data = a @ t \<and> cs = as @ ds \<and> concat as = a \<and>
       cdc_chunks (b @ t) p = Some (bs @ es) \<and> concat bs = b \<longrightarrow> ds = es)"
proof -
  obtain cs where cs: "cdc_chunks data p = Some cs" using chunks_total [OF assms] by blast
  have "ds = es" if "data = a @ t" "cs = as @ ds" "concat as = a" "cdc_chunks (b @ t) p = Some (bs @ es)" "concat bs = b"
    for as bs a b t ds es
    using chunks_rest [of a t p as ds] chunks_rest [of b t p bs es] that cs by simp
  then show ?thesis using cs chunks_concat [OF cs] chunks_sizes [OF cs] chunks_min [OF cs] by blast
qed

text \<open>The default parameters, on an input of one small chunk.\<close>

lemma default_valid: "cdc_valid DEFAULT_PARAMS"
proof -
  have "(65536::nat) = 2 ^ 16" by simp
  then have "is_power_of_two 65536" unfolding is_power_of_two_def by (metis trailing_zeros_power zero_less_numeral)
  then show ?thesis by (simp add: cdc_valid_def DEFAULT_PARAMS_def)
qed

lemma chunks_small: "cdc_chunks [1, 2, 3] DEFAULT_PARAMS = Some [[1, 2, 3]]"
  using default_valid by (simp add: cdc_chunks.simps next_cut_def) (simp add: DEFAULT_PARAMS_def)

theorem chunks_partition_witness:
  "cdc_chunks [1, 2, 3] DEFAULT_PARAMS = Some [[1, 2, 3]] \<and>
   (\<exists>cs. cdc_chunks [1, 2, 3] DEFAULT_PARAMS = Some cs \<and> concat cs = [1, 2, 3])"
proof -
  have "cp_avg DEFAULT_PARAMS \<le> 2 ^ 62" by (simp add: DEFAULT_PARAMS_def)
  then obtain cs where "cdc_chunks [1, 2, 3] DEFAULT_PARAMS = Some cs" "concat cs = [1, 2, 3]"
    using chunks_partition [OF default_valid, of "[1, 2, 3]"] by blast
  moreover note chunks_small
  ultimately show ?thesis by blast
qed

end
