(* ===== verification/Alt_Pack.thy ===== *)
theory Alt_Pack
  imports Prelude
begin

text \<open>
  The files of the chunk store, \<^verbatim>\<open>alt-store/src/pack.rs\<close> and \<^verbatim>\<open>idx.rs\<close>: record headers, the
  sequential scan of an altpack that doubles as crash recovery, and the altidx of a sealed pack.
  Lengths and offsets are naturals; the scan's \<^verbatim>\<open>checked_add\<close> and the index reader's
  \<^verbatim>\<open>checked_mul\<close> can only fail for files longer than the address space.
\<close>

type_synonym chunk_id = bytes
type_synonym blob_id = bytes

datatype store_error =
    StoreIo string
  | StoreFormat string
  | ChunkNotFound chunk_id
  | BlobNotFound blob_id
  | ChunkCorrupt chunk_id string
  | ChunkTooLarge nat

section \<open>Records\<close>

definition ALTP_MAGIC :: bytes where "ALTP_MAGIC = lit ''ALTP''"
definition ALTP_VERSION :: u8 where "ALTP_VERSION = 1"
definition ALTP_HEADER_LEN :: nat where "ALTP_HEADER_LEN = 5"
definition REC_HEADER_LEN :: nat where "REC_HEADER_LEN = 32 + 1 + 4 + 4"

definition ENC_RAW :: u8 where "ENC_RAW = 0"
definition ENC_ZSTD :: u8 where "ENC_ZSTD = 1"
definition ENC_DELTA :: u8 where "ENC_DELTA = 2"
definition ENC_RESERVED_MAX :: u8 where "ENC_RESERVED_MAX = 3"

definition altp_file_header :: bytes where "altp_file_header = ALTP_MAGIC @ [ALTP_VERSION]"

record rec_header =
  rh_id :: chunk_id
  rh_encoding :: u8
  rh_orig_len :: u32
  rh_stored_len :: u32

definition rh_encode :: "rec_header \<Rightarrow> bytes" where
  "rh_encode r = rh_id r @ [rh_encoding r] @ le_bytes 4 (rh_orig_len r) @ le_bytes 4 (rh_stored_len r)"

definition rh_parse :: "bytes \<Rightarrow> rec_header" where
  "rh_parse buf =
     \<lparr>rh_id = take 32 buf, rh_encoding = buf ! 32,
      rh_orig_len = from_le (take 4 (drop 33 buf)), rh_stored_len = from_le (take 4 (drop 37 buf))\<rparr>"

definition check_altp_header :: "bytes \<Rightarrow> store_error + unit" where
  "check_altp_header data =
     (if length data < ALTP_HEADER_LEN \<or> take 4 data \<noteq> ALTP_MAGIC then Inl (StoreFormat ''bad altpack header'')
      else if data ! 4 \<noteq> ALTP_VERSION then Inl (StoreFormat ''unsupported altpack version'')
      else Inr ())"

function scan_records :: "bytes \<Rightarrow> nat \<Rightarrow> (rec_header \<times> nat) list \<times> nat" where
  "scan_records data at =
     (if length data < at + REC_HEADER_LEN then ([], at)
      else
        let hdr = rh_parse (take REC_HEADER_LEN (drop at data));
            end_at = at + REC_HEADER_LEN + unat (rh_stored_len hdr)
        in if ENC_RESERVED_MAX < rh_encoding hdr then ([], at)
           else if length data < end_at then ([], at)
           else let (entries, valid) = scan_records data end_at in ((hdr, at) # entries, valid))"
  by pat_completeness auto
termination
  by (relation "measure (\<lambda>(data, at). length data - at)") (auto simp: REC_HEADER_LEN_def)

declare scan_records.simps [simp del]

definition altpack_scan :: "bytes \<Rightarrow> store_error + (rec_header \<times> nat) list \<times> nat" where
  "altpack_scan data = bindR (check_altp_header data) (\<lambda>_. Inr (scan_records data ALTP_HEADER_LEN))"

section \<open>What a scan reads back\<close>

type_synonym chunk_rec = "rec_header \<times> bytes"

definition rec_ok :: "chunk_rec \<Rightarrow> bool" where
  "rec_ok r \<longleftrightarrow> length (rh_id (fst r)) = 32 \<and> rh_encoding (fst r) \<le> ENC_RESERVED_MAX \<and>
     unat (rh_stored_len (fst r)) = length (snd r)"

definition rec_bytes :: "chunk_rec \<Rightarrow> bytes" where
  "rec_bytes r = rh_encode (fst r) @ snd r"

definition recs_bytes :: "chunk_rec list \<Rightarrow> bytes" where
  "recs_bytes rs = concat (map rec_bytes rs)"

fun rec_offsets :: "nat \<Rightarrow> chunk_rec list \<Rightarrow> (rec_header \<times> nat) list" where
  "rec_offsets at [] = []"
| "rec_offsets at (r # rs) = (fst r, at) # rec_offsets (at + length (rec_bytes r)) rs"

lemma recs_bytes_simps [simp]:
  "recs_bytes [] = []" "recs_bytes (r # rs) = rec_bytes r @ recs_bytes rs"
  "recs_bytes (rs @ qs) = recs_bytes rs @ recs_bytes qs"
  by (simp_all add: recs_bytes_def)

lemma length_rh_encode: "length (rh_id r) = 32 \<Longrightarrow> length (rh_encode r) = REC_HEADER_LEN"
  by (simp add: rh_encode_def REC_HEADER_LEN_def)

lemma length_rec_bytes: "rec_ok r \<Longrightarrow> length (rec_bytes r) = REC_HEADER_LEN + length (snd r)"
  by (simp add: rec_bytes_def rec_ok_def length_rh_encode)

lemma rh_parse_encode: "length (rh_id r) = 32 \<Longrightarrow> rh_parse (rh_encode r) = r"
  by (simp add: rh_parse_def rh_encode_def nth_append codec_simps)

lemma rh_parse_prefix:
  "rec_ok r \<Longrightarrow> rh_parse (take REC_HEADER_LEN (rec_bytes r @ rest)) = fst r"
  by (simp add: rec_bytes_def rec_ok_def length_rh_encode rh_parse_encode)

text \<open>Where no record starts: the scan stops at once.\<close>

definition no_record :: "bytes \<Rightarrow> bool" where
  "no_record t \<longleftrightarrow> scan_records t 0 = ([], 0)"

lemma scan_at_end:
  "no_record t \<Longrightarrow> scan_records (pre @ t) (length pre) = ([], length pre)"
  by (subst scan_records.simps, subst (asm) no_record_def, subst (asm) scan_records.simps)
    (auto simp: Let_def split: if_splits prod.splits)

lemma scan_recs:
  "list_all rec_ok rs \<Longrightarrow> no_record t \<Longrightarrow>
   scan_records (pre @ recs_bytes rs @ t) (length pre) =
     (rec_offsets (length pre) rs, length pre + length (recs_bytes rs))"
proof (induction rs arbitrary: pre)
  case Nil
  then show ?case by (simp add: scan_at_end)
next
  case (Cons r rs)
  let ?rest = "recs_bytes rs @ t"
  have ok: "rec_ok r" using Cons.prems by simp
  have parse: "rh_parse (take REC_HEADER_LEN (rec_bytes r @ ?rest)) = fst r" by (rule rh_parse_prefix [OF ok])
  have more: "scan_records (pre @ rec_bytes r @ ?rest) (length pre + length (rec_bytes r))
      = (rec_offsets (length pre + length (rec_bytes r)) rs, length pre + length (rec_bytes r) + length (recs_bytes rs))"
    using Cons.IH [of "pre @ rec_bytes r"] Cons.prems by simp
  have "scan_records (pre @ rec_bytes r @ ?rest) (length pre) =
      ((fst r, length pre) # rec_offsets (length pre + length (rec_bytes r)) rs,
       length pre + length (rec_bytes r) + length (recs_bytes rs))"
    using ok more parse length_rec_bytes [OF ok]
    by (subst scan_records.simps) (simp add: Let_def rec_ok_def add.assoc not_less)
  then show ?case by simp
qed

lemma check_header_ok [simp]: "check_altp_header (altp_file_header @ rest) = Inr ()"
  by (simp add: check_altp_header_def altp_file_header_def ALTP_MAGIC_def ALTP_HEADER_LEN_def lit_def nth_append)

lemma length_altp_header [simp]: "length altp_file_header = ALTP_HEADER_LEN"
  by (simp add: altp_file_header_def ALTP_MAGIC_def ALTP_HEADER_LEN_def lit_def)

text \<open>A file of whole records and a tail that starts none is read back record by record.\<close>

definition pack_file :: "chunk_rec list \<Rightarrow> bytes" where
  "pack_file rs = altp_file_header @ recs_bytes rs"

lemma altpack_scan_file:
  assumes "list_all rec_ok rs" and "no_record t"
  shows "altpack_scan (pack_file rs @ t) = Inr (rec_offsets ALTP_HEADER_LEN rs, length (pack_file rs))"
  using scan_recs [OF assms, of altp_file_header] by (simp add: altpack_scan_def pack_file_def)

text \<open>A record that was cut short is no record.\<close>

lemma torn_no_record:
  assumes "rec_ok r" and "k < length (rec_bytes r)"
  shows "no_record (take k (rec_bytes r))"
proof (cases "k < REC_HEADER_LEN")
  case True
  then show ?thesis using assms by (simp add: no_record_def scan_records.simps [of "take k (rec_bytes r)" 0])
next
  case False
  have len: "length (take k (rec_bytes r)) = k" using assms by simp
  have "take REC_HEADER_LEN (take k (rec_bytes r)) = take REC_HEADER_LEN (rec_bytes r @ [])"
    using False by (simp add: min_def)
  then have "rh_parse (take REC_HEADER_LEN (take k (rec_bytes r))) = fst r"
    using rh_parse_prefix [OF assms(1)] by metis
  then show ?thesis
    using assms False len length_rec_bytes [OF assms(1)]
    by (simp add: no_record_def scan_records.simps [of "take k (rec_bytes r)" 0] Let_def rec_ok_def)
qed

text \<open>
  The scan has no checksum to go by: garbage that parses is taken for a record.  A tail of zeroes,
  what some file systems leave after a crash, is one record of no bytes per 41 zeroes.
\<close>

lemma zero_tail_scans:
  "altpack_scan (pack_file [] @ replicate 41 0) =
     Inr ([(\<lparr>rh_id = replicate 32 0, rh_encoding = ENC_RAW, rh_orig_len = 0, rh_stored_len = 0\<rparr>, 5)], 46)"
  by code_simp

section \<open>The index of a sealed pack\<close>

definition ALTI_MAGIC :: bytes where "ALTI_MAGIC = lit ''ALTI''"
definition ALTI_VERSION :: u8 where "ALTI_VERSION = 1"
definition ALTI_HEADER_LEN :: nat where "ALTI_HEADER_LEN = 13"
definition ALTI_ENTRY_LEN :: nat where "ALTI_ENTRY_LEN = 40"

text \<open>\<open>usort\<close> is \<^verbatim>\<open>sort_unstable_by_key\<close>: which of several entries with one id comes first is open.\<close>

type_synonym idx_entries = "(chunk_id \<times> nat) list"

definition altidx_write :: "(idx_entries \<Rightarrow> idx_entries) \<Rightarrow> idx_entries \<Rightarrow> bytes" where
  "altidx_write usort entries =
     (let sorted_entries = usort entries
      in ALTI_MAGIC @ [ALTI_VERSION] @ le_bytes 8 (of_nat (length sorted_entries) :: u64)
         @ concat (map (\<lambda>(i, off). i @ le_bytes 8 (of_nat off :: u64)) sorted_entries))"

fun altidx_entries :: "nat \<Rightarrow> bytes \<Rightarrow> idx_entries" where
  "altidx_entries 0 data = []"
| "altidx_entries (Suc n) data =
     (take 32 data, unat (from_le (take 8 (drop 32 data)) :: u64)) # altidx_entries n (drop ALTI_ENTRY_LEN data)"

definition altidx_read :: "bytes \<Rightarrow> store_error + idx_entries" where
  "altidx_read data =
     (if length data < ALTI_HEADER_LEN \<or> take 4 data \<noteq> ALTI_MAGIC then Inl (StoreFormat ''bad altidx header'')
      else if data ! 4 \<noteq> ALTI_VERSION then Inl (StoreFormat ''unsupported altidx version'')
      else
        let n = unat (from_le (take 8 (drop 5 data)) :: u64)
        in if n * ALTI_ENTRY_LEN + ALTI_HEADER_LEN \<noteq> length data then Inl (StoreFormat ''altidx length mismatch'')
           else Inr (altidx_entries n (drop ALTI_HEADER_LEN data)))"

definition idx_ok :: "idx_entries \<Rightarrow> bool" where
  "idx_ok es \<longleftrightarrow> (\<forall>(i, off) \<in> set es. length i = 32 \<and> off < 2 ^ 64) \<and> length es < 2 ^ 64"

lemma altidx_entries_read:
  "\<forall>(i, off) \<in> set es. length i = 32 \<and> off < 2 ^ 64 \<Longrightarrow>
   altidx_entries (length es) (concat (map (\<lambda>(i, off). i @ le_bytes 8 (of_nat off :: u64)) es)) = es"
  by (induction es) (auto simp: ALTI_ENTRY_LEN_def codec_simps)

lemma altidx_round_trip:
  assumes "idx_ok (usort es)"
  shows "altidx_read (altidx_write usort es) = Inr (usort es)"
proof -
  let ?es = "usort es"
  let ?b = "concat (map (\<lambda>(i, off). i @ le_bytes 8 (of_nat off :: u64)) ?es)"
  have len: "\<forall>(i, off) \<in> set xs. length i = 32 \<Longrightarrow>
    length (concat (map (\<lambda>(i, off). i @ le_bytes 8 (of_nat off :: u64)) xs)) = 40 * length xs" for xs :: idx_entries
    by (induction xs) auto
  have "length ?b = 40 * length ?es" using assms by (intro len) (auto simp: idx_ok_def)
  moreover have "altidx_entries (length ?es) ?b = ?es" using assms by (intro altidx_entries_read) (simp add: idx_ok_def)
  moreover have "length ?es < 18446744073709551616" using assms by (simp add: idx_ok_def)
  ultimately show ?thesis
    by (simp add: altidx_write_def altidx_read_def Let_def ALTI_MAGIC_def ALTI_HEADER_LEN_def ALTI_ENTRY_LEN_def
        lit_def nth_append codec_simps)
qed

end
