(* ===== verification/Chunk_Store.thy ===== *)
theory Chunk_Store
  imports Alt_Pack Btree_Map "HOL-Library.AList" "HOL-Library.Product_Lexorder"
begin

text \<open>
  The chunk store, \<^verbatim>\<open>alt-store/src/lib.rs\<close>: a directory of altpack files, of which the highest
  is appended to, an index of the records by the BLAKE3 of their content, lineage deltas, compaction
  and rewinding.

  The directory is a state of its own, so that what a process knows and what is on disk can differ.
  A \<^verbatim>\<open>HashMap\<close> is an association list.  An open file is the file of that pack; the cursor of
  the writer is \<open>ap_len\<close>, as the source maintains it.  The libraries the store calls, BLAKE3, zstd and the
  unstable sort, are the fields of \<open>store_env\<close>.  Of the input and output errors only reads past
  the end and missing files are kept.
\<close>

section \<open>Libraries, options, files\<close>

record store_env =
  se_hash :: "bytes \<Rightarrow> bytes"
  se_encode :: "int \<Rightarrow> bytes \<Rightarrow> bytes option"
  se_decode :: "bytes \<Rightarrow> bytes option"
  se_encode_with :: "bytes \<Rightarrow> bytes \<Rightarrow> int \<Rightarrow> bytes option"
  se_decode_with :: "bytes \<Rightarrow> bytes \<Rightarrow> nat \<Rightarrow> bytes option"
  se_usort :: "idx_entries \<Rightarrow> idx_entries"

definition MAX_DELTA_DEPTH :: nat where "MAX_DELTA_DEPTH = 16"
definition DELTA_CACHE_BUDGET :: nat where "DELTA_CACHE_BUDGET = 64 * 2 ^ 20"

record chunk_opts =
  co_seal_threshold :: nat
  co_zstd_level :: int
  co_raw_threshold :: nat

definition chunk_opts_default :: chunk_opts where
  "chunk_opts_default = \<lparr>co_seal_threshold = 2 ^ 30, co_zstd_level = 3, co_raw_threshold = 64\<rparr>"

text \<open>The pack directory; \<open>cd_synced\<close> is how much of each pack is known to be durable.\<close>

record chunk_disk =
  cd_packs :: "(nat, bytes) btree"
  cd_idxs :: "(nat, bytes) btree"
  cd_synced :: "nat \<Rightarrow> nat"

definition pack_bytes_of :: "chunk_disk \<Rightarrow> nat \<Rightarrow> bytes" where
  "pack_bytes_of d seq = (case bt_get (cd_packs d) seq of None \<Rightarrow> [] | Some f \<Rightarrow> f)"

definition put_pack :: "nat \<Rightarrow> bytes \<Rightarrow> chunk_disk \<Rightarrow> chunk_disk" where
  "put_pack seq f d = d\<lparr>cd_packs := bt_insert seq f (cd_packs d)\<rparr>"

definition put_idx :: "nat \<Rightarrow> bytes \<Rightarrow> chunk_disk \<Rightarrow> chunk_disk" where
  "put_idx seq f d = d\<lparr>cd_idxs := bt_insert seq f (cd_idxs d)\<rparr>"

definition sync_pack :: "nat \<Rightarrow> chunk_disk \<Rightarrow> chunk_disk" where
  "sync_pack seq d = d\<lparr>cd_synced := (cd_synced d)(seq := length (pack_bytes_of d seq))\<rparr>"

definition list_pack_seqs :: "chunk_disk \<Rightarrow> nat list" where
  "list_pack_seqs d = map fst (cd_packs d)"

definition file_write :: "nat \<Rightarrow> bytes \<Rightarrow> bytes \<Rightarrow> bytes" where
  "file_write at bs f = take at f @ replicate (at - length f) 0 @ bs @ drop (at + length bs) f"

definition read_exact_at :: "bytes \<Rightarrow> nat \<Rightarrow> nat \<Rightarrow> store_error + bytes" where
  "read_exact_at f n offset =
     (if offset + n \<le> length f then Inr (take n (drop offset f)) else Inl (StoreIo ''unexpected end of file''))"

section \<open>The state of a store\<close>

type_synonym location = "nat \<times> nat"

record counters =
  cn_puts :: nat
  cn_dedup_hits :: nat
  cn_bytes_in :: nat
  cn_bytes_written :: nat
  cn_lineage_deltas :: nat
  cn_bytes_superseded :: nat

definition counters_default :: counters where
  "counters_default = \<lparr>cn_puts = 0, cn_dedup_hits = 0, cn_bytes_in = 0, cn_bytes_written = 0,
     cn_lineage_deltas = 0, cn_bytes_superseded = 0\<rparr>"

record delta_cache_state =
  dk_map :: "(chunk_id \<times> bytes) list"
  dk_order :: "chunk_id list"
  dk_bytes :: nat

definition delta_cache_new :: delta_cache_state where
  "delta_cache_new = \<lparr>dk_map = [], dk_order = [], dk_bytes = 0\<rparr>"

fun delta_cache_evict :: "chunk_id list \<Rightarrow> delta_cache_state \<Rightarrow> delta_cache_state" where
  "delta_cache_evict [] c = c"
| "delta_cache_evict (old # order) c =
     (if dk_bytes c \<le> DELTA_CACHE_BUDGET then c
      else delta_cache_evict order
             (case map_of (dk_map c) old of
                None \<Rightarrow> c\<lparr>dk_order := order\<rparr>
              | Some data \<Rightarrow> \<lparr>dk_map = AList.delete old (dk_map c), dk_order = order, dk_bytes = dk_bytes c - length data\<rparr>))"

definition delta_cache_put :: "chunk_id \<Rightarrow> bytes \<Rightarrow> delta_cache_state \<Rightarrow> delta_cache_state" where
  "delta_cache_put i data c =
     (if map_of (dk_map c) i \<noteq> None then c
      else
        let c' = \<lparr>dk_map = AList.update i data (dk_map c), dk_order = dk_order c @ [i],
                  dk_bytes = dk_bytes c + length data\<rparr>
        in delta_cache_evict (dk_order c') c')"

record active_pack =
  ap_seq :: nat
  ap_len :: nat
  ap_entries :: idx_entries

type_synonym chunk_index = "(chunk_id \<times> location) list"
type_synonym sealed_packs = "(nat, bytes) btree"

record chunk_store =
  cs_opts :: chunk_opts
  cs_sealed :: sealed_packs
  cs_active :: active_pack
  cs_index :: chunk_index
  cs_counters :: counters
  cs_cache :: delta_cache_state

section \<open>Opening\<close>

definition open_active :: "nat \<Rightarrow> bool \<Rightarrow> chunk_disk \<Rightarrow> (store_error + active_pack) \<times> chunk_disk" where
  "open_active seq create d =
     (let fresh = (Inr \<lparr>ap_seq = seq, ap_len = ALTP_HEADER_LEN, ap_entries = []\<rparr>,
                   sync_pack seq (put_pack seq altp_file_header d))
      in case bt_get (cd_packs d) seq of
           None \<Rightarrow> if create then fresh else (Inl (StoreIo ''not found''), d)
         | Some f \<Rightarrow>
             (case (if f = [] then Inr ([], 0)
                    else if length f < ALTP_HEADER_LEN then
                      (if f = take (length f) altp_file_header then Inr ([], 0)
                       else Inl (StoreFormat ''bad altpack header''))
                    else altpack_scan f) of
                Inl e \<Rightarrow> (Inl e, d)
              | Inr (recs, valid_len) \<Rightarrow>
                  if valid_len = 0 then fresh
                  else (Inr \<lparr>ap_seq = seq, ap_len = valid_len, ap_entries = map (\<lambda>(hdr, off). (rh_id hdr, off)) recs\<rparr>,
                        if valid_len < length f then sync_pack seq (put_pack seq (take valid_len f) d) else d)))"

definition index_pack :: "nat \<Rightarrow> idx_entries \<Rightarrow> chunk_index \<Rightarrow> chunk_index" where
  "index_pack seq entries index = fold (\<lambda>(i, off). AList.update i (seq, off)) entries index"

definition sealed_entries ::
  "store_env \<Rightarrow> nat \<Rightarrow> bytes \<Rightarrow> chunk_disk \<Rightarrow> (store_error + idx_entries) \<times> chunk_disk" where
  "sealed_entries env seq map_bytes d =
     (let stored = (case bt_get (cd_idxs d) seq of None \<Rightarrow> Inl (StoreIo ''not found'') | Some b \<Rightarrow> altidx_read b)
      in case stored of
           Inr entries \<Rightarrow> (Inr entries, d)
         | Inl _ \<Rightarrow>
             (case altpack_scan map_bytes of
                Inl e \<Rightarrow> (Inl e, d)
              | Inr (recs, valid_len) \<Rightarrow>
                  if valid_len \<noteq> length map_bytes then (Inl (StoreFormat ''sealed pack truncated''), d)
                  else let entries = map (\<lambda>(hdr, off). (rh_id hdr, off)) recs
                       in (Inr entries, put_idx seq (altidx_write (se_usort env) entries) d)))"

fun load_sealed ::
  "store_env \<Rightarrow> nat list \<Rightarrow> sealed_packs \<Rightarrow> chunk_index \<Rightarrow> chunk_disk
     \<Rightarrow> (store_error + sealed_packs \<times> chunk_index) \<times> chunk_disk" where
  "load_sealed env [] sealed index d = (Inr (sealed, index), d)"
| "load_sealed env (seq # seqs) sealed index d =
     (case bt_get (cd_packs d) seq of
        None \<Rightarrow> (Inl (StoreIo ''not found''), d)
      | Some map_bytes \<Rightarrow>
          (case check_altp_header map_bytes of
             Inl e \<Rightarrow> (Inl e, d)
           | Inr _ \<Rightarrow>
               (case sealed_entries env seq map_bytes d of
                  (Inl e, d') \<Rightarrow> (Inl e, d')
                | (Inr entries, d') \<Rightarrow>
                    load_sealed env seqs (bt_insert seq map_bytes sealed) (index_pack seq entries index) d')))"

definition chunk_load ::
  "store_env \<Rightarrow> chunk_disk \<Rightarrow> (store_error + sealed_packs \<times> active_pack \<times> chunk_index) \<times> chunk_disk" where
  "chunk_load env d =
     (let seqs = list_pack_seqs d in
      if seqs = [] then
        (case open_active 1 True d of
           (Inl e, d') \<Rightarrow> (Inl e, d')
         | (Inr active, d') \<Rightarrow> (Inr ([], active, []), d'))
      else
        (case load_sealed env (butlast seqs) [] [] d of
           (Inl e, d') \<Rightarrow> (Inl e, d')
         | (Inr (sealed, index), d') \<Rightarrow>
             (case open_active (last seqs) False d' of
                (Inl e, d'') \<Rightarrow> (Inl e, d'')
              | (Inr active, d'') \<Rightarrow>
                  (Inr (sealed, active, index_pack (last seqs) (ap_entries active) index), d''))))"

definition chunk_open :: "store_env \<Rightarrow> chunk_opts \<Rightarrow> chunk_disk \<Rightarrow> (store_error + chunk_store) \<times> chunk_disk" where
  "chunk_open env opts d =
     (case chunk_load env d of
        (Inl e, d') \<Rightarrow> (Inl e, d')
      | (Inr (sealed, active, index), d') \<Rightarrow>
          (Inr \<lparr>cs_opts = opts, cs_sealed = sealed, cs_active = active, cs_index = index,
                cs_counters = counters_default, cs_cache = delta_cache_new\<rparr>, d'))"

definition disk_changed :: "chunk_store \<Rightarrow> chunk_disk \<Rightarrow> bool" where
  "disk_changed st d \<longleftrightarrow>
     list_pack_seqs d \<noteq> sort (map fst (cs_sealed st) @ [ap_seq (cs_active st)]) \<or>
     length (pack_bytes_of d (ap_seq (cs_active st))) \<noteq> ap_len (cs_active st)"

definition chunk_sync_from_disk ::
  "store_env \<Rightarrow> chunk_store \<Rightarrow> chunk_disk \<Rightarrow> (store_error + unit) \<times> chunk_store \<times> chunk_disk" where
  "chunk_sync_from_disk env st d =
     (if \<not> disk_changed st d then (Inr (), st, d)
      else case chunk_load env d of
             (Inl e, d') \<Rightarrow> (Inl e, st, d')
           | (Inr (sealed, active, index), d') \<Rightarrow>
               (Inr (), st\<lparr>cs_sealed := sealed, cs_active := active, cs_index := index\<rparr>, d'))"

section \<open>Reading records\<close>

definition read_rec_header :: "chunk_store \<Rightarrow> chunk_disk \<Rightarrow> chunk_id \<Rightarrow> location \<Rightarrow> store_error + rec_header" where
  "read_rec_header st d i loc =
     (let (seq, off) = loc in
      if seq = ap_seq (cs_active st) then
        bindR (read_exact_at (pack_bytes_of d seq) REC_HEADER_LEN off) (\<lambda>buf. Inr (rh_parse buf))
      else case bt_get (cs_sealed st) seq of
             None \<Rightarrow> Inl (StoreFormat ''unknown pack'')
           | Some f \<Rightarrow>
               if off + REC_HEADER_LEN \<le> length f then Inr (rh_parse (take REC_HEADER_LEN (drop off f)))
               else Inl (ChunkCorrupt i ''record out of bounds''))"

definition read_record :: "chunk_store \<Rightarrow> chunk_disk \<Rightarrow> chunk_id \<Rightarrow> location \<Rightarrow> store_error + chunk_rec" where
  "read_record st d i loc =
     bindR (read_rec_header st d i loc) (\<lambda>header.
       let (seq, off) = loc; at = off + REC_HEADER_LEN; n = unat (rh_stored_len header) in
       if seq = ap_seq (cs_active st) then
         bindR (read_exact_at (pack_bytes_of d seq) n at) (\<lambda>payload. Inr (header, payload))
       else case bt_get (cs_sealed st) seq of
              None \<Rightarrow> Inl (StoreFormat ''unknown pack'')
            | Some f \<Rightarrow>
                if at + n \<le> length f then Inr (header, take n (drop at f))
                else Inl (ChunkCorrupt i ''record out of bounds''))"

definition read_base_id :: "chunk_store \<Rightarrow> chunk_disk \<Rightarrow> chunk_id \<Rightarrow> location \<Rightarrow> store_error + chunk_id" where
  "read_base_id st d i loc =
     (let (seq, off) = loc; at = off + REC_HEADER_LEN in
      if seq = ap_seq (cs_active st) then read_exact_at (pack_bytes_of d seq) 32 at
      else case bt_get (cs_sealed st) seq of
             None \<Rightarrow> Inl (StoreFormat ''unknown pack'')
           | Some f \<Rightarrow>
               if at + 32 \<le> length f then Inr (take 32 (drop at f))
               else Inl (ChunkCorrupt i ''record out of bounds''))"

section \<open>Resolving a chunk\<close>

datatype verify = VerifyNone | VerifyBoundary | VerifyDeep

definition hash_at :: "verify \<Rightarrow> bool \<Rightarrow> bool" where
  "hash_at verify is_boundary \<longleftrightarrow> verify = VerifyDeep \<or> (verify = VerifyBoundary \<and> is_boundary)"

definition sized :: "chunk_id \<Rightarrow> bytes \<Rightarrow> nat \<Rightarrow> store_error + bytes" where
  "sized i data orig_len = (if length data \<noteq> orig_len then Inl (ChunkCorrupt i ''length mismatch'') else Inr data)"

definition check_hash :: "store_env \<Rightarrow> chunk_id \<Rightarrow> bytes \<Rightarrow> store_error + unit" where
  "check_hash env i data = (if se_hash env data \<noteq> i then Inl (ChunkCorrupt i ''hash mismatch'') else Inr ())"

definition verified :: "store_env \<Rightarrow> verify \<Rightarrow> bool \<Rightarrow> chunk_id \<Rightarrow> bytes \<Rightarrow> store_error + bytes" where
  "verified env verify is_boundary i data =
     (if hash_at verify is_boundary then bindR (check_hash env i data) (\<lambda>_. Inr data) else Inr data)"

type_synonym delta_frame = "chunk_id \<times> nat \<times> bytes"

text \<open>The first loop of \<^verbatim>\<open>resolve\<close>; \<open>frames\<close> has the newest frame first.\<close>

function descend ::
  "store_env \<Rightarrow> chunk_store \<Rightarrow> chunk_disk \<Rightarrow> verify \<Rightarrow> delta_frame list \<Rightarrow> chunk_id
     \<Rightarrow> store_error + delta_frame list \<times> chunk_id \<times> bytes" where
  "descend env st d verify frames cur =
     (case (if verify \<noteq> VerifyDeep \<and> frames \<noteq> [] then map_of (dk_map (cs_cache st)) cur else None) of
        Some hit \<Rightarrow> Inr (frames, cur, hit)
      | None \<Rightarrow>
          if cur \<in> set (map fst frames) then Inl (ChunkCorrupt cur ''delta chain cycle'')
          else case map_of (cs_index st) cur of
                 None \<Rightarrow> Inl (ChunkNotFound cur)
               | Some loc \<Rightarrow>
                   (case read_record st d cur loc of
                      Inl e \<Rightarrow> Inl e
                    | Inr (header, payload) \<Rightarrow>
                        if rh_id header \<noteq> cur then Inl (ChunkCorrupt cur ''record id mismatch'')
                        else if rh_encoding header = ENC_RAW then
                          bindR (sized cur payload (unat (rh_orig_len header))) (\<lambda>data.
                          bindR (verified env verify (frames = []) cur data) (\<lambda>data. Inr (frames, cur, data)))
                        else if rh_encoding header = ENC_ZSTD then
                          (case se_decode env payload of
                             None \<Rightarrow> Inl (ChunkCorrupt cur ''zstd decode failed'')
                           | Some raw \<Rightarrow>
                               bindR (sized cur raw (unat (rh_orig_len header))) (\<lambda>data.
                               bindR (verified env verify (frames = []) cur data) (\<lambda>data. Inr (frames, cur, data))))
                        else if rh_encoding header = ENC_DELTA then
                          (if length payload < 32 then Inl (ChunkCorrupt cur ''delta payload too short'')
                           else descend env st d verify
                                  ((cur, unat (rh_orig_len header), drop 32 payload) # frames) (take 32 payload))
                        else Inl (StoreFormat ''reserved record encoding'')))"
  by pat_completeness auto
termination
proof (relation "measure (\<lambda>(env, st, d, verify, frames, cur). card (fst ` set (cs_index st) - set (map fst frames)))", goal_cases)
  case (2 env st d verify frames cur)
  then have "cur \<in> fst ` set (cs_index st) - set (map fst frames)" by (auto dest!: map_of_SomeD intro: rev_image_eqI)
  then have "card (fst ` set (cs_index st) - set (map fst frames) - {cur}) < card (fst ` set (cs_index st) - set (map fst frames))"
    by (intro card_Diff1_less) auto
  moreover have "fst ` set (cs_index st) - insert cur (set (map fst frames)) = fst ` set (cs_index st) - set (map fst frames) - {cur}"
    by auto
  ultimately show ?case by simp
qed simp

declare descend.simps [simp del]

text \<open>The second loop: the frames are applied newest first, the oldest is the requested chunk.\<close>

fun unwind ::
  "store_env \<Rightarrow> verify \<Rightarrow> delta_frame list \<Rightarrow> chunk_id \<Rightarrow> bytes \<Rightarrow> delta_cache_state
     \<Rightarrow> (store_error + bytes) \<times> delta_cache_state" where
  "unwind env verify [] base_id data c = (Inr data, c)"
| "unwind env verify ((fid, orig_len, z) # frames) base_id data c =
     (case se_decode_with env z data orig_len of
        None \<Rightarrow> (Inl (ChunkCorrupt fid ''delta decode failed''), c)
      | Some out \<Rightarrow>
          (case bindR (sized fid out orig_len) (\<lambda>out. verified env verify (frames = []) fid out) of
             Inl e \<Rightarrow> (Inl e, c)
           | Inr out \<Rightarrow> unwind env verify frames fid out (delta_cache_put base_id data c)))"

definition chunk_resolve ::
  "store_env \<Rightarrow> chunk_disk \<Rightarrow> verify \<Rightarrow> chunk_id \<Rightarrow> chunk_store \<Rightarrow> (store_error + bytes) \<times> chunk_store" where
  "chunk_resolve env d verify i st =
     (case descend env st d verify [] i of
        Inl e \<Rightarrow> (Inl e, st)
      | Inr (frames, base_id, data) \<Rightarrow>
          let (r, c) = unwind env verify frames base_id data (cs_cache st) in (r, st\<lparr>cs_cache := c\<rparr>))"

definition chunk_get :: "store_env \<Rightarrow> chunk_disk \<Rightarrow> chunk_id \<Rightarrow> chunk_store \<Rightarrow> (store_error + bytes) \<times> chunk_store" where
  "chunk_get env d i st = chunk_resolve env d VerifyBoundary i st"

definition verify_chunk :: "store_env \<Rightarrow> chunk_disk \<Rightarrow> chunk_id \<Rightarrow> chunk_store \<Rightarrow> (store_error + unit) \<times> chunk_store" where
  "verify_chunk env d i st =
     (let (r, st') = chunk_resolve env d VerifyDeep i st in (bindR r (\<lambda>_. Inr ()), st'))"

definition read_unverified :: "store_env \<Rightarrow> chunk_disk \<Rightarrow> chunk_id \<Rightarrow> chunk_store \<Rightarrow> (store_error + bytes) \<times> chunk_store" where
  "read_unverified env d i st = chunk_resolve env d VerifyNone i st"

definition read_deep :: "store_env \<Rightarrow> chunk_disk \<Rightarrow> chunk_id \<Rightarrow> chunk_store \<Rightarrow> (store_error + bytes) \<times> chunk_store" where
  "read_deep env d i st = chunk_resolve env d VerifyDeep i st"

definition chunk_contains :: "chunk_store \<Rightarrow> chunk_id \<Rightarrow> bool" where
  "chunk_contains st i \<longleftrightarrow> map_of (cs_index st) i \<noteq> None"

datatype encoding = EncRaw | EncZstd | EncDelta

record chunk_stat =
  ck_encoding :: encoding
  ck_orig_len :: u32
  ck_stored_len :: u32

definition chunk_stat_of :: "chunk_disk \<Rightarrow> chunk_id \<Rightarrow> chunk_store \<Rightarrow> store_error + chunk_stat" where
  "chunk_stat_of d i st =
     (case map_of (cs_index st) i of
        None \<Rightarrow> Inl (ChunkNotFound i)
      | Some loc \<Rightarrow>
          bindR (read_rec_header st d i loc) (\<lambda>header.
            let stat = (\<lambda>enc. Inr \<lparr>ck_encoding = enc, ck_orig_len = rh_orig_len header, ck_stored_len = rh_stored_len header\<rparr>)
            in if rh_encoding header = ENC_RAW then stat EncRaw
               else if rh_encoding header = ENC_ZSTD then stat EncZstd
               else if rh_encoding header = ENC_DELTA then stat EncDelta
               else Inl (StoreFormat ''reserved record encoding'')))"

section \<open>Writing\<close>

definition seal_and_roll :: "store_env \<Rightarrow> chunk_store \<Rightarrow> chunk_disk \<Rightarrow> (store_error + unit) \<times> chunk_store \<times> chunk_disk" where
  "seal_and_roll env st d =
     (let a = cs_active st;
          d1 = put_idx (ap_seq a) (altidx_write (se_usort env) (ap_entries a)) (sync_pack (ap_seq a) d);
          st1 = st\<lparr>cs_sealed := bt_insert (ap_seq a) (pack_bytes_of d1 (ap_seq a)) (cs_sealed st)\<rparr>
      in case open_active (ap_seq a + 1) True d1 of
           (Inl e, d2) \<Rightarrow> (Inl e, st1, d2)
         | (Inr active, d2) \<Rightarrow> (Inr (), st1\<lparr>cs_active := active\<rparr>, d2))"

definition append_record ::
  "store_env \<Rightarrow> rec_header \<Rightarrow> bytes \<Rightarrow> chunk_store \<Rightarrow> chunk_disk \<Rightarrow> (store_error + unit) \<times> chunk_store \<times> chunk_disk" where
  "append_record env header payload st d =
     (let a = cs_active st;
          offset = ap_len a;
          d1 = put_pack (ap_seq a) (file_write offset (rh_encode header @ payload) (pack_bytes_of d (ap_seq a))) d;
          n = REC_HEADER_LEN + length payload;
          st1 = st\<lparr>cs_active := a\<lparr>ap_len := ap_len a + n, ap_entries := ap_entries a @ [(rh_id header, offset)]\<rparr>,
                   cs_counters := (cs_counters st)\<lparr>cn_bytes_written := cn_bytes_written (cs_counters st) + n\<rparr>,
                   cs_index := AList.update (rh_id header) (ap_seq a, offset) (cs_index st)\<rparr>
      in if co_seal_threshold (cs_opts st) \<le> ap_len (cs_active st1) then seal_and_roll env st1 d1
         else (Inr (), st1, d1))"

definition chunk_put ::
  "store_env \<Rightarrow> bytes \<Rightarrow> chunk_store \<Rightarrow> chunk_disk \<Rightarrow> (store_error + chunk_id) \<times> chunk_store \<times> chunk_disk" where
  "chunk_put env data st0 d =
     (let i = se_hash env data;
          cn = cs_counters st0;
          st = st0\<lparr>cs_counters := cn\<lparr>cn_puts := cn_puts cn + 1, cn_bytes_in := cn_bytes_in cn + length data\<rparr>\<rparr>
      in if map_of (cs_index st) i \<noteq> None then
           (Inr i, st\<lparr>cs_counters := (cs_counters st)\<lparr>cn_dedup_hits := cn_dedup_hits (cs_counters st) + 1\<rparr>\<rparr>, d)
         else if 2 ^ 32 \<le> length data then (Inl (ChunkTooLarge (length data)), st, d)
         else
           let compressed =
                 (if length data < co_raw_threshold (cs_opts st) then Inr None
                  else case se_encode env (co_zstd_level (cs_opts st)) data of
                         None \<Rightarrow> Inl (StoreIo ''zstd'') | Some z \<Rightarrow> Inr (Some z))
           in case compressed of
                Inl e \<Rightarrow> (Inl e, st, d)
              | Inr c \<Rightarrow>
                  let (enc, payload) =
                        (case c of Some z \<Rightarrow> if length z < length data then (ENC_ZSTD, z) else (ENC_RAW, data)
                                 | None \<Rightarrow> (ENC_RAW, data));
                      header = \<lparr>rh_id = i, rh_encoding = enc, rh_orig_len = of_nat (length data),
                                rh_stored_len = of_nat (length payload)\<rparr>
                  in (case append_record env header payload st d of
                        (Inl e, st', d') \<Rightarrow> (Inl e, st', d')
                      | (Inr _, st', d') \<Rightarrow> (Inr i, st', d')))"

text \<open>The walk over the chain of the base: \<open>Inr True\<close> when it ends in a full record.\<close>

function base_walk :: "chunk_store \<Rightarrow> chunk_disk \<Rightarrow> chunk_id \<Rightarrow> chunk_id \<Rightarrow> nat \<Rightarrow> store_error + bool" where
  "base_walk st d i node hops =
     (if node = i then Inr False
      else case map_of (cs_index st) node of
             None \<Rightarrow> Inl (ChunkNotFound node)
           | Some loc \<Rightarrow>
               (case read_rec_header st d node loc of
                  Inl e \<Rightarrow> Inl e
                | Inr header \<Rightarrow>
                    if rh_encoding header \<noteq> ENC_DELTA then Inr True
                    else if MAX_DELTA_DEPTH < hops + 1 then Inr False
                    else (case read_base_id st d node loc of
                            Inl e \<Rightarrow> Inl e
                          | Inr base \<Rightarrow> base_walk st d i base (hops + 1))))"
  by pat_completeness auto
termination
  by (relation "measure (\<lambda>(st, d, i, node, hops). MAX_DELTA_DEPTH - hops)") auto

declare base_walk.simps [simp del]

definition reencode_as_delta ::
  "store_env \<Rightarrow> chunk_id \<Rightarrow> chunk_id \<Rightarrow> chunk_store \<Rightarrow> chunk_disk \<Rightarrow> (store_error + bool) \<times> chunk_store \<times> chunk_disk" where
  "reencode_as_delta env i base st d =
     (if i = base then (Inr False, st, d)
      else case map_of (cs_index st) i of
        None \<Rightarrow> (Inl (ChunkNotFound i), st, d)
      | Some i_loc \<Rightarrow>
      if map_of (cs_index st) base = None then (Inl (ChunkNotFound base), st, d)
      else case read_rec_header st d i i_loc of
        Inl e \<Rightarrow> (Inl e, st, d)
      | Inr current \<Rightarrow>
      if rh_encoding current = ENC_DELTA then (Inr False, st, d)
      else case base_walk st d i base 1 of
        Inl e \<Rightarrow> (Inl e, st, d)
      | Inr False \<Rightarrow> (Inr False, st, d)
      | Inr True \<Rightarrow>
      (case chunk_get env d i st of
        (Inl e, st1) \<Rightarrow> (Inl e, st1, d)
      | (Inr data, st1) \<Rightarrow>
      (case chunk_get env d base st1 of
        (Inl e, st2) \<Rightarrow> (Inl e, st2, d)
      | (Inr base_data, st2) \<Rightarrow>
      (case se_encode_with env data base_data (co_zstd_level (cs_opts st2)) of
        None \<Rightarrow> (Inr False, st2, d)
      | Some z \<Rightarrow>
      let stored = 32 + length z in
      if unat (rh_stored_len current) \<le> stored then (Inr False, st2, d)
      else
        let header = \<lparr>rh_id = i, rh_encoding = ENC_DELTA, rh_orig_len = rh_orig_len current, rh_stored_len = of_nat stored\<rparr>
        in (case append_record env header (base @ z) st2 d of
              (Inl e, st3, d') \<Rightarrow> (Inl e, st3, d')
            | (Inr _, st3, d') \<Rightarrow>
                let cn = cs_counters st3
                in (Inr True,
                    st3\<lparr>cs_counters := cn\<lparr>cn_lineage_deltas := cn_lineage_deltas cn + 1,
                          cn_bytes_superseded := cn_bytes_superseded cn + REC_HEADER_LEN + unat (rh_stored_len current)\<rparr>\<rparr>,
                    d'))))))"

section \<open>Compacting, rewinding, syncing\<close>

record compact_report =
  cr_packs_before :: nat
  cr_packs_after :: nat
  cr_bytes_before :: nat
  cr_bytes_after :: nat
  cr_records :: nat

definition total_pack_bytes :: "chunk_disk \<Rightarrow> nat" where
  "total_pack_bytes d = sum_list (map (length \<circ> snd) (cd_packs d))"

fun copy_live ::
  "chunk_store \<Rightarrow> chunk_disk \<Rightarrow> (chunk_id \<times> location) list \<Rightarrow> bytes \<Rightarrow> store_error + bytes \<times> idx_entries" where
  "copy_live st d [] out = Inr (out, [])"
| "copy_live st d ((i, loc) # live) out =
     bindR (read_record st d i loc) (\<lambda>(header, payload).
     bindR (copy_live st d live (out @ rh_encode header @ payload)) (\<lambda>(out', entries).
       Inr (out', (i, length out) # entries)))"

definition chunk_compact ::
  "store_env \<Rightarrow> chunk_store \<Rightarrow> chunk_disk \<Rightarrow> (store_error + compact_report) \<times> chunk_store \<times> chunk_disk" where
  "chunk_compact env st d =
     (let d0 = sync_pack (ap_seq (cs_active st)) d;
          old_seqs = list_pack_seqs d0;
          comp_seq = (if old_seqs = [] then 0 else Max (set old_seqs)) + 1;
          live = sort_key snd (cs_index st)
      in case copy_live st d0 live altp_file_header of
           Inl e \<Rightarrow> (Inl e, st, d0)
         | Inr (merged, entries) \<Rightarrow>
             let d1 = sync_pack comp_seq (put_pack comp_seq merged (put_idx comp_seq (altidx_write (se_usort env) entries) d0))
             in case open_active (comp_seq + 1) True d1 of
                  (Inl e, d2) \<Rightarrow> (Inl e, st, d2)
                | (Inr active, d2) \<Rightarrow>
                    let d3 = d2\<lparr>cd_packs := fold bt_remove old_seqs (cd_packs d2),
                                cd_idxs := fold bt_remove old_seqs (cd_idxs d2)\<rparr>
                    in (Inr \<lparr>cr_packs_before = length old_seqs, cr_packs_after = length (list_pack_seqs d3),
                             cr_bytes_before = total_pack_bytes d0, cr_bytes_after = total_pack_bytes d3,
                             cr_records = length entries\<rparr>,
                        st\<lparr>cs_sealed := [(comp_seq, merged)],
                           cs_index := map (\<lambda>(i, off). (i, (comp_seq, off))) entries,
                           cs_active := active,
                           cs_counters := (cs_counters st)\<lparr>cn_bytes_superseded := 0\<rparr>\<rparr>,
                        d3))"

record chunk_checkpoint =
  kp_pack_seq :: nat
  kp_pack_len :: nat

definition chunk_checkpoint_of :: "chunk_store \<Rightarrow> chunk_checkpoint" where
  "chunk_checkpoint_of st = \<lparr>kp_pack_seq = ap_seq (cs_active st), kp_pack_len = ap_len (cs_active st)\<rparr>"

definition set_pack_len :: "nat \<Rightarrow> nat \<Rightarrow> chunk_disk \<Rightarrow> chunk_disk" where
  "set_pack_len seq n d =
     (let f = pack_bytes_of d seq in put_pack seq (take n f @ replicate (n - length f) 0) d)"

definition chunk_rewind ::
  "store_env \<Rightarrow> chunk_checkpoint \<Rightarrow> chunk_store \<Rightarrow> chunk_disk \<Rightarrow> (store_error + unit) \<times> chunk_store \<times> chunk_disk" where
  "chunk_rewind env kp st d =
     (if kp_pack_seq kp \<noteq> ap_seq (cs_active st) then
        (Inl (StoreFormat ''chunk store rolled between checkpoint and rewind''), st, d)
      else if ap_len (cs_active st) < kp_pack_len kp then
        (Inl (StoreFormat ''chunk rewind target above active cursor''), st, d)
      else if kp_pack_len kp < ALTP_HEADER_LEN then
        (Inl (StoreFormat ''chunk rewind target below header''), st, d)
      else
        let d1 = sync_pack (ap_seq (cs_active st)) (set_pack_len (ap_seq (cs_active st)) (kp_pack_len kp) d)
        in case chunk_load env d1 of
             (Inl e, d2) \<Rightarrow> (Inl e, st, d2)
           | (Inr (sealed, active, index), d2) \<Rightarrow>
               (Inr (), st\<lparr>cs_sealed := sealed, cs_active := active, cs_index := index, cs_cache := delta_cache_new\<rparr>, d2))"

text \<open>\<^verbatim>\<open>flush\<close> and \<^verbatim>\<open>fsync\<close>; \<open>relaxed\<close> is the environment switch.\<close>

definition chunk_fsync :: "chunk_store \<Rightarrow> chunk_disk \<Rightarrow> chunk_disk" where
  "chunk_fsync st d = sync_pack (ap_seq (cs_active st)) d"

definition chunk_flush :: "bool \<Rightarrow> chunk_store \<Rightarrow> chunk_disk \<Rightarrow> chunk_disk" where
  "chunk_flush relaxed st d = (if relaxed then d else chunk_fsync st d)"

definition chunk_sink_fsync :: "chunk_disk \<Rightarrow> chunk_disk" where
  "chunk_sink_fsync d = (if list_pack_seqs d = [] then d else sync_pack (Max (set (list_pack_seqs d))) d)"

section \<open>A read never lies\<close>

text \<open>Nothing is assumed of the store: not the index, not the files, not the cache.\<close>

lemma verified_eq: "verified env verify b i data = Inr x \<longleftrightarrow> x = data \<and> (hash_at verify b \<longrightarrow> se_hash env data = i)"
  by (auto simp: verified_def check_hash_def)

lemma unwind_last:
  "unwind env verify frames base_id data c = (Inr out, c') \<Longrightarrow> frames \<noteq> [] \<Longrightarrow> verify \<noteq> VerifyNone \<Longrightarrow>
   se_hash env out = fst (last frames)"
proof (induction env verify frames base_id data c rule: unwind.induct)
  case (2 env verify fid orig_len z frames base_id data c)
  then show ?case
    by (cases "frames = []")
      (auto simp: bindR_eq_Inr verified_eq hash_at_def split: option.splits sum.splits intro: verify.exhaust [of verify])
qed simp

text \<open>The content of a full record.\<close>

definition full_decode :: "store_env \<Rightarrow> chunk_rec \<Rightarrow> bytes option" where
  "full_decode env r =
     (let (header, payload) = r;
          data = (if rh_encoding header = ENC_RAW then Some payload
                  else if rh_encoding header = ENC_ZSTD then se_decode env payload else None)
      in case data of
           None \<Rightarrow> None
         | Some x \<Rightarrow> if length x = unat (rh_orig_len header) then Some x else None)"

text \<open>The successful runs of the first loop as a relation.\<close>

inductive chunk_descends ::
  "store_env \<Rightarrow> chunk_store \<Rightarrow> chunk_disk \<Rightarrow> verify \<Rightarrow> delta_frame list \<Rightarrow> chunk_id \<Rightarrow> delta_frame list \<Rightarrow> chunk_id \<Rightarrow> bytes \<Rightarrow> bool"
  for env st d verify where
  hit: "verify \<noteq> VerifyDeep \<Longrightarrow> frames \<noteq> [] \<Longrightarrow> map_of (dk_map (cs_cache st)) cur = Some data \<Longrightarrow>
    chunk_descends env st d verify frames cur frames cur data"
| full: "cur \<notin> fst ` set frames \<Longrightarrow> map_of (cs_index st) cur = Some loc \<Longrightarrow> read_record st d cur loc = Inr r \<Longrightarrow>
    rh_id (fst r) = cur \<Longrightarrow> full_decode env r = Some data \<Longrightarrow>
    hash_at verify (frames = []) \<longrightarrow> se_hash env data = cur \<Longrightarrow>
    chunk_descends env st d verify frames cur frames cur data"
| delta: "cur \<notin> fst ` set frames \<Longrightarrow> map_of (cs_index st) cur = Some loc \<Longrightarrow> read_record st d cur loc = Inr (header, payload) \<Longrightarrow>
    rh_id header = cur \<Longrightarrow> rh_encoding header = ENC_DELTA \<Longrightarrow> 32 \<le> length payload \<Longrightarrow>
    chunk_descends env st d verify ((cur, unat (rh_orig_len header), drop 32 payload) # frames) (take 32 payload) frames' base data \<Longrightarrow>
    chunk_descends env st d verify frames cur frames' base data"

lemma encodings_differ [simp]: "ENC_DELTA \<noteq> ENC_RAW" "ENC_DELTA \<noteq> ENC_ZSTD" "ENC_ZSTD \<noteq> ENC_RAW"
  "ENC_RAW \<noteq> ENC_DELTA" "ENC_ZSTD \<noteq> ENC_DELTA" "ENC_RAW \<noteq> ENC_ZSTD"
  by (simp_all add: ENC_DELTA_def ENC_RAW_def ENC_ZSTD_def)

lemma sized_eq: "sized i data n = Inr x \<longleftrightarrow> x = data \<and> length data = n"
  by (auto simp: sized_def)

lemma descend_descends:
  "descend env st d verify frames cur = Inr (frames', base, data) \<Longrightarrow> chunk_descends env st d verify frames cur frames' base data"
proof (induction env st d verify frames cur rule: descend.induct)
  case (1 env st d verify frames cur)
  let ?cached = "if verify \<noteq> VerifyDeep \<and> frames \<noteq> [] then map_of (dk_map (cs_cache st)) cur else None"
  note run = "1.prems" [unfolded descend.simps [of env st d verify frames cur]]
  show ?case
  proof (cases ?cached)
    case (Some hit)
    with run have "frames' = frames" "base = cur" "data = hit" by simp_all
    with Some show ?thesis by (auto intro: chunk_descends.hit split: if_splits)
  next
    case None
    with run obtain loc header payload where new: "cur \<notin> set (map fst frames)" and loc: "map_of (cs_index st) cur = Some loc"
      and r: "read_record st d cur loc = Inr (header, payload)" and same: "rh_id header = cur"
      by (auto split: if_splits option.splits sum.splits prod.splits)
    show ?thesis
    proof (cases "rh_encoding header = ENC_DELTA")
      case True
      with run None new loc r same have long: "\<not> length payload < 32"
        and more: "descend env st d verify ((cur, unat (rh_orig_len header), drop 32 payload) # frames) (take 32 payload)
          = Inr (frames', base, data)" by (auto split: if_splits)
      have "chunk_descends env st d verify ((cur, unat (rh_orig_len header), drop 32 payload) # frames) (take 32 payload) frames' base data"
        by (rule "1.IH" [OF None new loc r refl _ _ _ True long more]) (use same True in auto)
      with new loc r same True long show ?thesis by (auto intro: chunk_descends.delta)
    next
      case False
      with run None new loc r same have "frames' = frames" "base = cur" "full_decode env (header, payload) = Some data"
        "hash_at verify (frames = []) \<longrightarrow> se_hash env data = cur"
        by (auto simp: full_decode_def bindR_eq_Inr verified_eq sized_eq split: if_splits option.splits)
      with new loc r same show ?thesis by (auto intro!: chunk_descends.full)
    qed
  qed
qed

lemma descends_last:
  "chunk_descends env st d verify frames cur frames' base data \<Longrightarrow>
   (frames' = [] \<longrightarrow> base = cur \<and> frames = [] \<and> (verify \<noteq> VerifyNone \<longrightarrow> se_hash env data = cur)) \<and>
   (frames' \<noteq> [] \<longrightarrow> fst (last frames') = (if frames = [] then cur else fst (last frames)))"
proof (induction rule: chunk_descends.induct)
  case (full cur frames loc r data)
  then show ?case by (cases verify) (auto simp: hash_at_def)
qed auto

lemma chunk_reads_hash:
  assumes "chunk_resolve env d verify i st = (Inr data, st')" and "verify \<noteq> VerifyNone"
  shows "se_hash env data = i"
proof -
  obtain frames base x where down: "descend env st d verify [] i = Inr (frames, base, x)"
    and up: "fst (unwind env verify frames base x (cs_cache st)) = Inr data"
    using assms(1) by (auto simp: chunk_resolve_def split: sum.splits prod.splits)
  show ?thesis
    using descends_last [OF descend_descends [OF down]] up assms(2) unwind_last [of env verify frames base x "cs_cache st" data]
    by (cases "frames = []") (auto simp: prod_eq_iff)
qed

end
