(* ===== verification/Chunk_Inv.thy ===== *)
theory Chunk_Inv
  imports Chunk_Store "HOL-Library.Multiset"
begin

text \<open>
  What the chunk store promises: a map from content addresses to contents, put-if-absent, which
  re-encoding, sealing, compaction, a reload and a crash in the middle of an append leave as it is.
\<close>

section \<open>Records in files\<close>

definition rec_in :: "bytes \<Rightarrow> nat \<Rightarrow> chunk_rec option" where
  "rec_in f off =
     (let hdr = rh_parse (take REC_HEADER_LEN (drop off f)); n = unat (rh_stored_len hdr)
      in if off + REC_HEADER_LEN + n \<le> length f then Some (hdr, take n (drop (off + REC_HEADER_LEN) f)) else None)"

fun recs_at :: "nat \<Rightarrow> chunk_rec list \<Rightarrow> (nat \<times> chunk_rec) list" where
  "recs_at at [] = []"
| "recs_at at (r # rs) = (at, r) # recs_at (at + length (rec_bytes r)) rs"

definition entries_of :: "chunk_rec list \<Rightarrow> idx_entries" where
  "entries_of rs = map (\<lambda>(off, r). (rh_id (fst r), off)) (recs_at ALTP_HEADER_LEN rs)"

lemma rec_offsets_recs_at: "rec_offsets at rs = map (\<lambda>(off, r). (fst r, off)) (recs_at at rs)"
  by (induction rs arbitrary: at) auto

lemma recs_at_append [simp]: "recs_at at (rs @ qs) = recs_at at rs @ recs_at (at + length (recs_bytes rs)) qs"
  by (induction rs arbitrary: at) (auto simp: add.assoc)

lemma entries_of_snoc: "entries_of (rs @ [r]) = entries_of rs @ [(rh_id (fst r), length (pack_file rs))]"
  by (simp add: entries_of_def pack_file_def)

lemma entries_of_scan: "map (\<lambda>(hdr, off). (rh_id hdr, off)) (rec_offsets ALTP_HEADER_LEN rs) = entries_of rs"
  by (simp add: rec_offsets_recs_at entries_of_def case_prod_unfold comp_def)

lemma entries_of_mem: "(i, off) \<in> set (entries_of rs) \<longleftrightarrow> (\<exists>r. (off, r) \<in> set (recs_at ALTP_HEADER_LEN rs) \<and> rh_id (fst r) = i)"
  by (force simp: entries_of_def)

lemma rec_in_here:
  assumes "rec_ok r"
  shows "rec_in (pre @ rec_bytes r @ post) (length pre) = Some r"
proof -
  have "rh_parse (take REC_HEADER_LEN (rec_bytes r @ post)) = fst r" by (rule rh_parse_prefix [OF assms])
  moreover have "take (length (snd r)) (drop REC_HEADER_LEN (rec_bytes r @ post)) = snd r"
    using assms by (simp add: rec_bytes_def rec_ok_def length_rh_encode)
  moreover have "take (length (snd r)) (drop (length pre + REC_HEADER_LEN) (pre @ rec_bytes r @ post)) =
      take (length (snd r)) (drop REC_HEADER_LEN (rec_bytes r @ post))" by simp
  ultimately show ?thesis
    using assms length_rec_bytes [OF assms] by (simp add: rec_in_def Let_def rec_ok_def)
qed

lemma rec_in_recs_at:
  "list_all rec_ok rs \<Longrightarrow> (off, r) \<in> set (recs_at (length pre) rs) \<Longrightarrow> rec_in (pre @ recs_bytes rs @ post) off = Some r"
proof (induction rs arbitrary: pre)
  case (Cons q rs)
  show ?case
  proof (cases "(off, r) = (length pre, q)")
    case True
    then show ?thesis using Cons.prems rec_in_here [of r pre "recs_bytes rs @ post"] by simp
  next
    case False
    then show ?thesis using Cons.IH [of "pre @ rec_bytes q"] Cons.prems by auto
  qed
qed simp

lemma rec_in_pack_file:
  "list_all rec_ok rs \<Longrightarrow> (off, r) \<in> set (recs_at ALTP_HEADER_LEN rs) \<Longrightarrow> rec_in (pack_file rs) off = Some r"
  using rec_in_recs_at [of rs off r altp_file_header "[]"] by (simp add: pack_file_def)

lemma rec_in_append: "rec_in f off = Some r \<Longrightarrow> rec_in (f @ g) off = Some r"
  by (auto simp: rec_in_def Let_def split: if_splits)

lemma recs_at_ok: "list_all rec_ok rs \<Longrightarrow> (off, r) \<in> set (recs_at at rs) \<Longrightarrow> rec_ok r"
  by (induction rs arbitrary: at) auto

lemma recs_at_less: "(off, r) \<in> set (recs_at at rs) \<Longrightarrow> at \<le> off \<and> off \<le> at + length (recs_bytes rs)"
proof (induction rs arbitrary: at)
  case (Cons q rs)
  from Cons.prems show ?case by (auto dest!: Cons.IH)
qed simp

lemma pack_file_snoc: "pack_file (rs @ [r]) = pack_file rs @ rec_bytes r"
  by (simp add: pack_file_def)

lemma pack_file_nonempty [simp]: "pack_file rs \<noteq> []" "ALTP_HEADER_LEN \<le> length (pack_file rs)"
  by (simp_all add: pack_file_def flip: length_greater_0_conv) (simp add: ALTP_HEADER_LEN_def)

section \<open>What a record set stores\<close>

type_synonym rec_map = "chunk_id \<Rightarrow> chunk_rec option"

inductive chunk_at :: "store_env \<Rightarrow> rec_map \<Rightarrow> nat \<Rightarrow> chunk_id \<Rightarrow> bytes \<Rightarrow> bool" for env recs where
  full: "recs i = Some r \<Longrightarrow> rh_id (fst r) = i \<Longrightarrow> full_decode env r = Some x \<Longrightarrow> chunk_at env recs 0 i x"
| delta: "recs i = Some (hdr, p) \<Longrightarrow> rh_id hdr = i \<Longrightarrow> rh_encoding hdr = ENC_DELTA \<Longrightarrow> 32 \<le> length p \<Longrightarrow>
    chunk_at env recs n (take 32 p) b \<Longrightarrow> se_decode_with env (drop 32 p) b (unat (rh_orig_len hdr)) = Some x \<Longrightarrow>
    length x = unat (rh_orig_len hdr) \<Longrightarrow> chunk_at env recs (Suc n) i x"

inductive_cases chunk_at_cases: "chunk_at env recs n i x"

lemma full_decode_delta [simp]: "rh_encoding hdr = ENC_DELTA \<Longrightarrow> full_decode env (hdr, p) = None"
  by (simp add: full_decode_def)

lemma chunk_at_det: "chunk_at env recs n i x \<Longrightarrow> chunk_at env recs k i y \<Longrightarrow> k = n \<and> y = x"
proof (induction arbitrary: k y rule: chunk_at.induct)
  case (full i r x)
  from full.prems show ?case by (rule chunk_at_cases) (use full.hyps in auto)
next
  case (delta i hdr p n b x)
  from delta.prems show ?case
  proof (rule chunk_at_cases)
    fix hdr' p' n' b'
    assume "k = Suc n'" "recs i = Some (hdr', p')" "chunk_at env recs n' (take 32 p') b'"
      "se_decode_with env (drop 32 p') b' (unat (rh_orig_len hdr')) = Some y"
    then show ?thesis using delta.hyps delta.IH [of n' b'] by simp
  next
    fix r
    assume "recs i = Some r" "full_decode env r = Some y"
    then show ?thesis using delta.hyps(1,3) by (cases r) simp
  qed
qed

definition chunk_stored :: "store_env \<Rightarrow> rec_map \<Rightarrow> chunk_id \<Rightarrow> bytes \<Rightarrow> bool" where
  "chunk_stored env recs i x \<longleftrightarrow> (\<exists>n. chunk_at env recs n i x)"

lemma stored_full: "recs i = Some r \<Longrightarrow> rh_id (fst r) = i \<Longrightarrow> full_decode env r = Some x \<Longrightarrow> chunk_stored env recs i x"
  by (auto simp: chunk_stored_def intro: chunk_at.full)

lemma stored_delta:
  "recs i = Some (hdr, p) \<Longrightarrow> rh_id hdr = i \<Longrightarrow> rh_encoding hdr = ENC_DELTA \<Longrightarrow> 32 \<le> length p \<Longrightarrow>
   chunk_stored env recs (take 32 p) b \<Longrightarrow> se_decode_with env (drop 32 p) b (unat (rh_orig_len hdr)) = Some x \<Longrightarrow>
   length x = unat (rh_orig_len hdr) \<Longrightarrow> chunk_stored env recs i x"
  by (auto simp: chunk_stored_def intro: chunk_at.delta)

lemma stored_cases:
  assumes "chunk_stored env recs i x"
  obtains (full) r where "recs i = Some r" "rh_id (fst r) = i" "full_decode env r = Some x"
  | (delta) hdr p b where "recs i = Some (hdr, p)" "rh_id hdr = i" "rh_encoding hdr = ENC_DELTA" "32 \<le> length p"
      "chunk_stored env recs (take 32 p) b" "se_decode_with env (drop 32 p) b (unat (rh_orig_len hdr)) = Some x"
      "length x = unat (rh_orig_len hdr)"
  using assms unfolding chunk_stored_def by (blast elim: chunk_at_cases)

lemma stored_det: "chunk_stored env recs i x \<Longrightarrow> chunk_stored env recs i y \<Longrightarrow> y = x"
  by (auto simp: chunk_stored_def dest: chunk_at_det)

text \<open>Another record set that has the same record for an address, or one that holds the content in full.\<close>

lemma stored_transfer:
  assumes "\<And>j y. chunk_stored env recs j y \<Longrightarrow> recs' j = recs j \<or> chunk_stored env recs' j y"
  shows "chunk_stored env recs i x \<Longrightarrow> chunk_stored env recs' i x"
proof -
  have "chunk_at env recs n i x \<Longrightarrow> chunk_stored env recs' i x" for n i x
  proof (induction rule: chunk_at.induct)
    case (full i r x)
    then have "chunk_stored env recs i x" by (blast intro: stored_full)
    then show ?case using assms [of i x] full by (auto intro: stored_full)
  next
    case (delta i hdr p n b x)
    then have "chunk_stored env recs i x" by (blast intro: stored_delta chunk_stored_def [THEN iffD2])
    then show ?case using assms [of i x] delta by (auto intro: stored_delta)
  qed
  then show "chunk_stored env recs i x \<Longrightarrow> chunk_stored env recs' i x" by (auto simp: chunk_stored_def)
qed

lemma stored_update:
  assumes "\<And>y. chunk_stored env recs i y \<Longrightarrow> y = x" and "chunk_stored env (recs(i \<mapsto> r)) i x" and "chunk_stored env recs j y"
  shows "chunk_stored env (recs(i \<mapsto> r)) j y"
  by (rule stored_transfer [OF _ assms(3)]) (use assms in auto)

section \<open>Reading through the index\<close>

definition seq_bytes :: "chunk_store \<Rightarrow> chunk_disk \<Rightarrow> nat \<Rightarrow> bytes option" where
  "seq_bytes st d seq =
     (if seq = ap_seq (cs_active st) then Some (pack_bytes_of d seq) else bt_get (cs_sealed st) seq)"

definition rec_at :: "chunk_store \<Rightarrow> chunk_disk \<Rightarrow> location \<Rightarrow> chunk_rec option" where
  "rec_at st d loc = (case seq_bytes st d (fst loc) of None \<Rightarrow> None | Some f \<Rightarrow> rec_in f (snd loc))"

definition recs_of :: "chunk_store \<Rightarrow> chunk_disk \<Rightarrow> rec_map" where
  "recs_of st d i = (case map_of (cs_index st) i of None \<Rightarrow> None | Some loc \<Rightarrow> rec_at st d loc)"

lemma read_header_rec: "rec_at st d loc = Some r \<Longrightarrow> read_rec_header st d i loc = Inr (fst r)"
  by (cases loc)
    (auto simp: rec_at_def seq_bytes_def read_rec_header_def read_exact_at_def rec_in_def Let_def add.commute
      split: option.splits if_splits)

lemma read_record_rec: "rec_at st d loc = Some r \<Longrightarrow> read_record st d i loc = Inr r"
  using read_header_rec [of st d loc r i]
  by (cases loc)
    (auto simp: rec_at_def seq_bytes_def read_record_def read_exact_at_def rec_in_def Let_def
      split: option.splits if_splits)

lemma read_base_id_rec:
  "rec_at st d loc = Some (hdr, p) \<Longrightarrow> 32 \<le> length p \<Longrightarrow> read_base_id st d i loc = Inr (take 32 p)"
  by (cases loc)
    (auto simp: rec_at_def seq_bytes_def read_base_id_def read_exact_at_def rec_in_def Let_def min_def
      split: option.splits if_splits)

section \<open>The invariant\<close>

type_synonym content = "chunk_id \<Rightarrow> bytes option"
type_synonym packs = "(nat \<times> chunk_rec list) list"

text \<open>The directory holds packs of whole records, every one but the last with its index.\<close>

definition disk_holds :: "chunk_disk \<Rightarrow> packs \<Rightarrow> nat \<Rightarrow> chunk_rec list \<Rightarrow> bool" where
  "disk_holds d olds seq rs \<longleftrightarrow>
     cd_packs d = map (\<lambda>(s, rs). (s, pack_file rs)) (olds @ [(seq, rs)]) \<and>
     sorted_wrt (<) (map fst (olds @ [(seq, rs)])) \<and> bt_ok (cd_idxs d) \<and>
     (\<forall>(s, qs) \<in> set (olds @ [(seq, rs)]). list_all rec_ok qs) \<and>
     (\<forall>(s, qs) \<in> set olds. \<exists>b es. bt_get (cd_idxs d) s = Some b \<and> altidx_read b = Inr es \<and> set es = set (entries_of qs))"

definition store_on :: "chunk_store \<Rightarrow> packs \<Rightarrow> nat \<Rightarrow> chunk_rec list \<Rightarrow> bool" where
  "store_on st olds seq rs \<longleftrightarrow>
     cs_sealed st = map (\<lambda>(s, rs). (s, pack_file rs)) olds \<and>
     cs_active st = \<lparr>ap_seq = seq, ap_len = length (pack_file rs), ap_entries = entries_of rs\<rparr>"

text \<open>The entries a reload takes for a sealed pack, and the index it arrives at.\<close>

definition idx_of :: "chunk_disk \<Rightarrow> nat \<Rightarrow> idx_entries" where
  "idx_of d s = (case bt_get (cd_idxs d) s of None \<Rightarrow> [] | Some b \<Rightarrow> (case altidx_read b of Inl _ \<Rightarrow> [] | Inr es \<Rightarrow> es))"

definition sealed_view :: "chunk_disk \<Rightarrow> packs \<Rightarrow> chunk_index" where
  "sealed_view d olds = fold (\<lambda>(s, _). index_pack s (idx_of d s)) olds []"

definition disk_view :: "chunk_disk \<Rightarrow> packs \<Rightarrow> nat \<Rightarrow> chunk_rec list \<Rightarrow> chunk_index" where
  "disk_view d olds seq rs = index_pack seq (entries_of rs) (sealed_view d olds)"

text \<open>An address has its own record, or one that holds its content in full.\<close>

definition full_of :: "store_env \<Rightarrow> content \<Rightarrow> chunk_id \<Rightarrow> chunk_rec \<Rightarrow> bool" where
  "full_of env m i r \<longleftrightarrow> rh_id (fst r) = i \<and> full_decode env r \<noteq> None \<and> full_decode env r = m i"

definition rec_good :: "store_env \<Rightarrow> content \<Rightarrow> rec_map \<Rightarrow> chunk_rec \<Rightarrow> bool" where
  "rec_good env m recs r \<longleftrightarrow> recs (rh_id (fst r)) = Some r \<or> full_of env m (rh_id (fst r)) r"

definition chunk_cache_ok :: "content \<Rightarrow> delta_cache_state \<Rightarrow> bool" where
  "chunk_cache_ok m c \<longleftrightarrow> (\<forall>i x. map_of (dk_map c) i = Some x \<longrightarrow> m i = Some x)"

text \<open>\<open>find_rec\<close> looks a location up in the packs.\<close>

definition find_rec :: "packs \<Rightarrow> location \<Rightarrow> chunk_rec option" where
  "find_rec packs loc =
     (case map_of packs (fst loc) of None \<Rightarrow> None | Some qs \<Rightarrow> map_of (recs_at ALTP_HEADER_LEN qs) (snd loc))"

definition index_recs :: "packs \<Rightarrow> chunk_index \<Rightarrow> rec_map" where
  "index_recs packs index i = (case map_of index i of None \<Rightarrow> None | Some loc \<Rightarrow> find_rec packs loc)"

definition index_ok :: "packs \<Rightarrow> chunk_index \<Rightarrow> bool" where
  "index_ok packs index \<longleftrightarrow>
     (\<forall>i loc. map_of index i = Some loc \<longrightarrow> (\<exists>r. find_rec packs loc = Some r \<and> rh_id (fst r) = i))"

record chunk_ghost =
  cg_olds :: packs
  cg_seq :: nat
  cg_recs :: "chunk_rec list"

definition packs_of :: "chunk_ghost \<Rightarrow> packs" where
  "packs_of g = cg_olds g @ [(cg_seq g, cg_recs g)]"

definition content_ok :: "store_env \<Rightarrow> content \<Rightarrow> rec_map \<Rightarrow> bool" where
  "content_ok env m recs \<longleftrightarrow>
     (\<forall>i. m i = None \<longleftrightarrow> recs i = None) \<and> (\<forall>i x. m i = Some x \<longrightarrow> chunk_stored env recs i x \<and> se_hash env x = i)"

definition view_ok :: "store_env \<Rightarrow> content \<Rightarrow> rec_map \<Rightarrow> rec_map \<Rightarrow> bool" where
  "view_ok env m recs vrecs \<longleftrightarrow>
     (\<forall>i. vrecs i = None \<longleftrightarrow> recs i = None) \<and> (\<forall>i r. vrecs i = Some r \<longrightarrow> rh_id (fst r) = i \<and> rec_good env m recs r)"

definition active_ok :: "store_env \<Rightarrow> content \<Rightarrow> rec_map \<Rightarrow> chunk_index \<Rightarrow> nat \<Rightarrow> chunk_rec list \<Rightarrow> bool" where
  "active_ok env m recs index seq rs \<longleftrightarrow>
     (\<forall>(off, r) \<in> set (recs_at ALTP_HEADER_LEN rs). rec_good env m recs r) \<and>
     (\<forall>i off. map_of (rev (entries_of rs)) i = Some off \<longrightarrow> map_of index i = Some (seq, off))"

definition view_recs :: "chunk_disk \<Rightarrow> chunk_ghost \<Rightarrow> rec_map" where
  "view_recs d g = index_recs (packs_of g) (disk_view d (cg_olds g) (cg_seq g) (cg_recs g))"

definition chunk_inv :: "store_env \<Rightarrow> chunk_store \<Rightarrow> chunk_disk \<Rightarrow> content \<Rightarrow> chunk_ghost \<Rightarrow> bool" where
  "chunk_inv env st d m g \<longleftrightarrow>
     disk_holds d (cg_olds g) (cg_seq g) (cg_recs g) \<and> store_on st (cg_olds g) (cg_seq g) (cg_recs g) \<and>
     distinct (map fst (cs_index st)) \<and>
     index_ok (packs_of g) (cs_index st) \<and> index_ok (packs_of g) (disk_view d (cg_olds g) (cg_seq g) (cg_recs g)) \<and>
     content_ok env m (index_recs (packs_of g) (cs_index st)) \<and>
     view_ok env m (index_recs (packs_of g) (cs_index st)) (view_recs d g) \<and>
     active_ok env m (index_recs (packs_of g) (cs_index st)) (cs_index st) (cg_seq g) (cg_recs g)"

definition chunk_holds :: "store_env \<Rightarrow> chunk_store \<Rightarrow> chunk_disk \<Rightarrow> content \<Rightarrow> bool" where
  "chunk_holds env st d m \<longleftrightarrow> (\<exists>g. chunk_inv env st d m g) \<and> chunk_cache_ok m (cs_cache st) \<and>
     ap_len (cs_active st) < 2 ^ 63 \<and> co_seal_threshold (cs_opts st) \<le> 2 ^ 63"

section \<open>Looking records up\<close>

lemma recs_at_before: "list_all rec_ok rs \<Longrightarrow> (off, r) \<in> set (recs_at at rs) \<Longrightarrow> off < at + length (recs_bytes rs)"
proof (induction rs arbitrary: at)
  case (Cons q rs)
  then have "0 < length (rec_bytes q)" by (simp add: length_rec_bytes REC_HEADER_LEN_def)
  then show ?case using Cons.prems by (auto dest!: Cons.IH)
qed simp

lemma recs_at_distinct: "list_all rec_ok rs \<Longrightarrow> distinct (map fst (recs_at at rs))"
proof (induction rs arbitrary: at)
  case (Cons q rs)
  then have "0 < length (rec_bytes q)" by (simp add: length_rec_bytes REC_HEADER_LEN_def)
  moreover have "at \<notin> fst ` set (recs_at (at + length (rec_bytes q)) rs)"
    using calculation by (auto dest: recs_at_less)
  ultimately show ?case using Cons by simp
qed simp

lemma find_rec_snoc:
  assumes "seq \<notin> fst ` set olds" and "list_all rec_ok rs"
  shows "find_rec (olds @ [(seq, rs @ [r])]) loc =
    (if loc = (seq, length (pack_file rs)) then Some r else find_rec (olds @ [(seq, rs)]) loc)"
proof -
  have "map_of olds seq = None" using assms(1) by (auto simp: map_of_eq_None_iff)
  moreover have "map_of (recs_at ALTP_HEADER_LEN rs) (length (pack_file rs)) = None"
    using recs_at_before [OF assms(2)] by (fastforce simp: map_of_eq_None_iff pack_file_def)
  ultimately show ?thesis
    by (cases loc) (auto simp: find_rec_def map_of_append pack_file_def map_add_def split: option.splits)
qed

lemma find_rec_fresh: "seq \<notin> fst ` set packs \<Longrightarrow> find_rec (packs @ [(seq, [])]) loc = find_rec packs loc"
  by (cases "map_of packs (fst loc)")
    (auto simp: find_rec_def map_add_def map_of_eq_None_iff split: option.split dest!: map_of_SomeD intro: rev_image_eqI)

lemma find_rec_mem:
  assumes "find_rec packs (s, off) = Some r"
  obtains qs where "(s, qs) \<in> set packs" "(off, r) \<in> set (recs_at ALTP_HEADER_LEN qs)"
  using assms by (auto simp: find_rec_def split: option.splits dest!: map_of_SomeD)

lemma find_rec_intro:
  "distinct (map fst packs) \<Longrightarrow> list_all rec_ok qs \<Longrightarrow> (s, qs) \<in> set packs \<Longrightarrow>
   (off, r) \<in> set (recs_at ALTP_HEADER_LEN qs) \<Longrightarrow> find_rec packs (s, off) = Some r"
  by (simp add: find_rec_def recs_at_distinct)

lemma rec_at_find:
  assumes "disk_holds d olds seq rs" and "store_on st olds seq rs" and "find_rec (olds @ [(seq, rs)]) loc = Some r"
  shows "rec_at st d loc = Some r"
proof -
  obtain s off where loc: "loc = (s, off)" by (cases loc)
  with assms(3) obtain qs where qs: "(s, qs) \<in> set (olds @ [(seq, rs)])" "(off, r) \<in> set (recs_at ALTP_HEADER_LEN qs)"
    by (blast elim: find_rec_mem)
  have dist: "distinct (map fst (cd_packs d))"
    using assms(1) by (auto simp: disk_holds_def case_prod_unfold comp_def strict_sorted_iff)
  have "(s, pack_file qs) \<in> set (cd_packs d)" using qs(1) assms(1) by (auto simp: disk_holds_def)
  then have pk: "bt_get (cd_packs d) s = Some (pack_file qs)" using dist by simp
  have rd: "rec_in (pack_file qs) off = Some r"
    using qs assms(1) by (intro rec_in_pack_file) (auto simp: disk_holds_def)
  show ?thesis
  proof (cases "s = seq")
    case True
    then show ?thesis using assms(2) pk rd loc by (simp add: rec_at_def seq_bytes_def store_on_def pack_bytes_of_def)
  next
    case False
    have "distinct (map fst (cs_sealed st))" using dist assms by (simp add: disk_holds_def store_on_def)
    moreover have "(s, pack_file qs) \<in> set (cs_sealed st)" using qs(1) False assms(2) by (auto simp: store_on_def)
    ultimately have "bt_get (cs_sealed st) s = Some (pack_file qs)" by simp
    then show ?thesis using assms(2) rd loc False by (simp add: rec_at_def seq_bytes_def store_on_def)
  qed
qed

lemma index_recs_update:
  assumes "find_rec packs loc = None" and "\<And>l. find_rec packs' l = (if l = loc then Some r else find_rec packs l)"
    and "index_ok packs index"
  shows "index_recs packs' (AList.update i loc index) = (index_recs packs index)(i \<mapsto> r)"
proof
  fix j
  have "map_of index j = Some l \<Longrightarrow> l \<noteq> loc" for l
    using assms(1,3) unfolding index_ok_def by (metis option.distinct(1))
  then show "index_recs packs' (AList.update i loc index) j = ((index_recs packs index)(i \<mapsto> r)) j"
    by (auto simp: index_recs_def AList.update_conv' assms(2) split: option.split)
qed

lemma index_ok_update:
  assumes "find_rec packs loc = None" and "\<And>l. find_rec packs' l = (if l = loc then Some r else find_rec packs l)"
    and "index_ok packs index" and "rh_id (fst r) = i"
  shows "index_ok packs' (AList.update i loc index)"
  unfolding index_ok_def
proof (intro allI impI)
  fix j l
  assume l: "map_of (AList.update i loc index) j = Some l"
  show "\<exists>r. find_rec packs' l = Some r \<and> rh_id (fst r) = j"
  proof (cases "j = i")
    case True
    with l assms(2,4) show ?thesis by (simp add: AList.update_conv')
  next
    case False
    with l have "map_of index j = Some l" by (simp add: AList.update_conv')
    with assms(3) obtain q where "find_rec packs l = Some q" "rh_id (fst q) = j" unfolding index_ok_def by blast
    with assms(1,2) show ?thesis by (metis option.distinct(1))
  qed
qed

lemma index_ok_cong: "(\<And>l. find_rec packs' l = find_rec packs l) \<Longrightarrow> index_ok packs' index = index_ok packs index"
  by (simp add: index_ok_def)

lemma index_recs_cong: "(\<And>l. find_rec packs' l = find_rec packs l) \<Longrightarrow> index_recs packs' index = index_recs packs index"
  by (auto simp: index_recs_def split: option.split)

lemma map_of_index_pack:
  "map_of (index_pack s es index) i = (case map_of (rev es) i of Some off \<Rightarrow> Some (s, off) | None \<Rightarrow> map_of index i)"
  by (induction es arbitrary: index)
    (auto simp: index_pack_def AList.update_conv' map_add_def split: option.splits)

lemma index_pack_snoc: "index_pack s (es @ [(i, off)]) index = AList.update i (s, off) (index_pack s es index)"
  by (simp add: index_pack_def)

lemma distinct_index_pack: "distinct (map fst index) \<Longrightarrow> distinct (map fst (index_pack s es index))"
  by (induction es arbitrary: index) (auto simp: index_pack_def intro: AList.distinct_update)

section \<open>Appending a record\<close>

text \<open>What is asked of the libraries.\<close>

definition env_ok :: "store_env \<Rightarrow> bool" where
  "env_ok env \<longleftrightarrow>
     (\<forall>x. length (se_hash env x) = 32) \<and>
     (\<forall>es. mset (se_usort env es) = mset es) \<and>
     (\<forall>lvl x z. se_encode env lvl x = Some z \<longrightarrow> se_decode env z = Some x) \<and>
     (\<forall>x b lvl z. se_encode_with env x b lvl = Some z \<longrightarrow> se_decode_with env z b (length x) = Some x)"

lemma file_write_end [simp]: "file_write (length f) bs f = f @ bs"
  by (simp add: file_write_def)

lemma bt_insert_end:
  "\<forall>k \<in> fst ` set m. k < k' \<Longrightarrow> bt_insert k' v (m @ [(k', v0)]) = m @ [(k', v)]"
  "\<forall>k \<in> fst ` set m. k < k' \<Longrightarrow> bt_insert k' v m = m @ [(k', v)]"
  by (induction m) (auto split: prod.splits)

lemma disk_holds_active:
  assumes "disk_holds d olds seq rs"
  shows "pack_bytes_of d seq = pack_file rs" "seq \<notin> fst ` set olds" "list_all rec_ok rs"
    "\<forall>k \<in> fst ` set (map (\<lambda>(s, rs). (s, pack_file rs)) olds). k < seq" "distinct (map fst (olds @ [(seq, rs)]))"
proof -
  have srt: "sorted_wrt (<) (map fst (olds @ [(seq, rs)]))" using assms by (simp add: disk_holds_def)
  then show lt: "\<forall>k \<in> fst ` set (map (\<lambda>(s, rs). (s, pack_file rs)) olds). k < seq"
    by (auto simp: sorted_wrt_append)
  show "distinct (map fst (olds @ [(seq, rs)]))" using srt strict_sorted_iff by blast
  show fresh: "seq \<notin> fst ` set olds" using srt by (auto simp: sorted_wrt_append)
  show "list_all rec_ok rs" using assms by (simp add: disk_holds_def)
  have "map_of (map (\<lambda>(s, rs). (s, pack_file rs)) olds) seq = None" using lt by (auto simp: map_of_eq_None_iff)
  then show "pack_bytes_of d seq = pack_file rs"
    using assms by (simp add: disk_holds_def pack_bytes_of_def map_add_def)
qed

lemma disk_holds_append:
  assumes "disk_holds d olds seq rs" and "rec_ok r"
  shows "disk_holds (put_pack seq (pack_file rs @ rec_bytes r) d) olds seq (rs @ [r])"
  using assms bt_insert_end(1) [OF disk_holds_active(4) [OF assms(1)]]
  by (simp add: disk_holds_def put_pack_def pack_file_snoc)

lemma idx_of_put_pack [simp]: "idx_of (put_pack s f d) q = idx_of d q" "idx_of (sync_pack s d) q = idx_of d q"
  by (simp_all add: idx_of_def put_pack_def sync_pack_def)

lemma disk_view_append:
  "disk_view (put_pack s f d) olds seq (rs @ [r]) =
     AList.update (rh_id (fst r)) (seq, length (pack_file rs)) (disk_view d olds seq rs)"
  by (simp add: disk_view_def sealed_view_def entries_of_snoc index_pack_snoc)

lemma content_ok_update:
  assumes "content_ok env m recs" and "chunk_stored env (recs(i \<mapsto> r)) i x" and "se_hash env x = i" and "m i = None \<or> m i = Some x"
  shows "content_ok env (m(i \<mapsto> x)) (recs(i \<mapsto> r))"
proof -
  have same: "y = x" if "chunk_stored env recs i y" for y
  proof -
    from that have "recs i \<noteq> None" by (auto elim: stored_cases)
    then have "m i = Some x" using assms(1,4) by (auto simp: content_ok_def)
    then have "chunk_stored env recs i x" using assms(1) by (simp add: content_ok_def)
    then show ?thesis using that by (rule stored_det)
  qed
  have "chunk_stored env (recs(i \<mapsto> r)) j y" if "m j = Some y" for j y
    using stored_update [OF same assms(2)] assms(1) that by (auto simp: content_ok_def)
  then show ?thesis using assms by (auto simp: content_ok_def)
qed

lemma rec_good_update:
  assumes "rec_good env m recs q" and "\<And>r0. recs i = Some r0 \<Longrightarrow> full_of env (m(i \<mapsto> x)) i r0" and "m i = None \<or> m i = Some x"
  shows "rec_good env (m(i \<mapsto> x)) (recs(i \<mapsto> r)) q"
proof (cases "rh_id (fst q) = i")
  case True
  have "full_of env (m(i \<mapsto> x)) i q"
    using assms(1)
    unfolding rec_good_def True
  proof
    assume "full_of env m i q"
    then show ?thesis using assms(3) by (auto simp: full_of_def)
  qed (rule assms(2))
  then show ?thesis by (simp add: rec_good_def True)
next
  case False
  then show ?thesis using assms(1) by (simp add: rec_good_def full_of_def)
qed

lemma chunk_inv_append:
  assumes inv: "chunk_inv env st d m g" and r: "rec_ok r" "rh_id (fst r) = i"
    and prev: "\<And>r0. index_recs (packs_of g) (cs_index st) i = Some r0 \<Longrightarrow> full_of env (m(i \<mapsto> x)) i r0"
    and new: "chunk_stored env ((index_recs (packs_of g) (cs_index st))(i \<mapsto> r)) i x" "se_hash env x = i" "m i = None \<or> m i = Some x"
    and st': "cs_sealed st' = cs_sealed st"
      "cs_index st' = AList.update i (cg_seq g, length (pack_file (cg_recs g))) (cs_index st)"
      "cs_active st' = \<lparr>ap_seq = cg_seq g, ap_len = length (pack_file (cg_recs g @ [r])), ap_entries = entries_of (cg_recs g @ [r])\<rparr>"
  shows "chunk_inv env st' (put_pack (cg_seq g) (pack_file (cg_recs g) @ rec_bytes r) d) (m(i \<mapsto> x)) (g\<lparr>cg_recs := cg_recs g @ [r]\<rparr>)"
proof -
  let ?rs = "cg_recs g" and ?seq = "cg_seq g" and ?g = "g\<lparr>cg_recs := cg_recs g @ [r]\<rparr>"
  let ?d = "put_pack ?seq (pack_file ?rs @ rec_bytes r) d" and ?recs = "index_recs (packs_of g) (cs_index st)"
  let ?loc = "(?seq, length (pack_file ?rs))"
  have dh: "disk_holds d (cg_olds g) ?seq ?rs" and so: "store_on st (cg_olds g) ?seq ?rs"
    and io: "index_ok (packs_of g) (cs_index st)" and co: "content_ok env m ?recs"
    and vio: "index_ok (packs_of g) (disk_view d (cg_olds g) ?seq ?rs)" and vo: "view_ok env m ?recs (view_recs d g)"
    and ao: "active_ok env m ?recs (cs_index st) ?seq ?rs" and dist: "distinct (map fst (cs_index st))"
    using inv by (auto simp: chunk_inv_def)
  note act = disk_holds_active [OF dh]
  have find: "find_rec (packs_of ?g) l = (if l = ?loc then Some r else find_rec (packs_of g) l)" for l
    using find_rec_snoc [OF act(2,3), of r l] by (simp add: packs_of_def)
  have "map_of (recs_at ALTP_HEADER_LEN ?rs) (length (pack_file ?rs)) = None"
    using recs_at_before [OF act(3)] by (fastforce simp: map_of_eq_None_iff pack_file_def)
  then have none: "find_rec (packs_of g) ?loc = None" using act(2) by (simp add: find_rec_def packs_of_def map_add_def map_of_eq_None_iff [THEN iffD2])
  have recs: "index_recs (packs_of ?g) (cs_index st') = ?recs(i \<mapsto> r)"
    unfolding st' by (rule index_recs_update [OF none find io])
  have vrecs: "view_recs ?d ?g = (view_recs d g)(i \<mapsto> r)"
    unfolding view_recs_def using index_recs_update [OF none find vio, of i] r(2) by (simp add: disk_view_append)
  have good: "rec_good env (m(i \<mapsto> x)) (?recs(i \<mapsto> r)) q" if "rec_good env m ?recs q" for q
    by (rule rec_good_update [OF that prev new(3)])
  have newgood: "rec_good env (m(i \<mapsto> x)) (?recs(i \<mapsto> r)) r" by (simp add: rec_good_def r)
  show ?thesis
    unfolding chunk_inv_def recs vrecs
  proof (intro conjI)
    show "disk_holds ?d (cg_olds ?g) (cg_seq ?g) (cg_recs ?g)" using disk_holds_append [OF dh r(1)] by simp
    show "store_on st' (cg_olds ?g) (cg_seq ?g) (cg_recs ?g)" using so st' by (simp add: store_on_def)
    show "distinct (map fst (cs_index st'))" unfolding st' by (rule AList.distinct_update [OF dist])
    show "index_ok (packs_of ?g) (cs_index st')" unfolding st' by (rule index_ok_update [OF none find io r(2)])
    show "index_ok (packs_of ?g) (disk_view ?d (cg_olds ?g) (cg_seq ?g) (cg_recs ?g))"
      using index_ok_update [OF none find vio r(2)] r(2) by (simp add: disk_view_append)
    show "content_ok env (m(i \<mapsto> x)) (?recs(i \<mapsto> r))" by (rule content_ok_update [OF co new])
    show "view_ok env (m(i \<mapsto> x)) (?recs(i \<mapsto> r)) ((view_recs d g)(i \<mapsto> r))"
      using vo good newgood r(2) by (auto simp: view_ok_def)
    show "active_ok env (m(i \<mapsto> x)) (?recs(i \<mapsto> r)) (cs_index st') (cg_seq ?g) (cg_recs ?g)"
      using ao good newgood r(2)
      by (auto simp: active_ok_def entries_of_snoc st' AList.update_conv' pack_file_def split: if_splits)
  qed
qed

section \<open>Sealing\<close>

lemma length_recs_at [simp]: "length (recs_at at rs) = length rs"
  by (induction rs arbitrary: at) auto

lemma recs_count: "list_all rec_ok rs \<Longrightarrow> length rs \<le> length (recs_bytes rs)"
  by (induction rs) (auto simp: length_rec_bytes REC_HEADER_LEN_def)

lemma entries_idx_ok:
  assumes "list_all rec_ok rs" and "length (pack_file rs) < 2 ^ 64"
  shows "idx_ok (entries_of rs)"
proof -
  have "length i = 32 \<and> off < 2 ^ 64" if "(i, off) \<in> set (entries_of rs)" for i off
  proof -
    from that obtain r where r: "(off, r) \<in> set (recs_at ALTP_HEADER_LEN rs)" "rh_id (fst r) = i"
      by (auto simp: entries_of_mem)
    then show ?thesis using recs_at_before [OF assms(1) r(1)] recs_at_ok [OF assms(1) r(1)] assms(2)
      by (auto simp: rec_ok_def pack_file_def)
  qed
  moreover have "length (entries_of rs) < 2 ^ 64"
    using assms recs_count [OF assms(1)] by (simp add: entries_of_def pack_file_def)
  ultimately show ?thesis by (auto simp: idx_ok_def)
qed

lemma altidx_usort:
  assumes "env_ok env" and "idx_ok es"
  shows "altidx_read (altidx_write (se_usort env) es) = Inr (se_usort env es)" "set (se_usort env es) = set es"
proof -
  have m: "mset (se_usort env es) = mset es" using assms(1) by (simp add: env_ok_def)
  then show "set (se_usort env es) = set es" by (metis mset_eq_setD)
  moreover have "length (se_usort env es) = length es" using m by (metis mset_eq_length)
  ultimately have "idx_ok (se_usort env es)" using assms(2) by (simp add: idx_ok_def)
  then show "altidx_read (altidx_write (se_usort env) es) = Inr (se_usort env es)" by (rule altidx_round_trip)
qed

lemma idx_of_put_idx [simp]:
  "altidx_read b = Inr es \<Longrightarrow> bt_ok (cd_idxs d) \<Longrightarrow> idx_of (put_idx s b d) q = (if q = s then es else idx_of d q)"
  by (simp add: idx_of_def put_idx_def)

lemma sealed_view_cong: "(\<And>s. s \<in> fst ` set olds \<Longrightarrow> idx_of d' s = idx_of d s) \<Longrightarrow> sealed_view d' olds = sealed_view d olds"
  unfolding sealed_view_def by (rule fold_cong) (auto simp: case_prod_unfold intro!: arg_cong2 [where f = "\<lambda>s. index_pack s"])

text \<open>The index of the new sealed pack names some record of each of its addresses.\<close>

lemma view_roll:
  assumes es: "set es = set (entries_of rs)" and fresh: "seq \<notin> fst ` set olds"
    and rs: "list_all rec_ok rs" and dist: "distinct (map fst (olds @ [(seq, rs)]))"
    and vio: "index_ok (olds @ [(seq, rs)]) (index_pack seq (entries_of rs) sv)"
    and vo: "view_ok env m recs (index_recs (olds @ [(seq, rs)]) (index_pack seq (entries_of rs) sv))"
    and ao: "active_ok env m recs index seq rs"
  shows "index_ok (olds @ [(seq, rs)]) (index_pack seq es sv)"
    "view_ok env m recs (index_recs (olds @ [(seq, rs)]) (index_pack seq es sv))"
proof -
  let ?packs = "olds @ [(seq, rs)]" and ?old = "index_pack seq (entries_of rs) sv" and ?new = "index_pack seq es sv"
  have none: "map_of (rev es) i = None \<longleftrightarrow> map_of (rev (entries_of rs)) i = None" for i
    using es by (simp add: map_of_eq_None_iff)
  have sealed: "\<exists>r. find_rec ?packs (seq, off) = Some r \<and> rh_id (fst r) = i \<and> rec_good env m recs r"
    if "map_of (rev es) i = Some off" for i off
  proof -
    from that have "(i, off) \<in> set (entries_of rs)" using es map_of_SomeD by fastforce
    then obtain r where r: "(off, r) \<in> set (recs_at ALTP_HEADER_LEN rs)" "rh_id (fst r) = i" by (auto simp: entries_of_mem)
    moreover have "find_rec ?packs (seq, off) = Some r" by (rule find_rec_intro [OF dist rs _ r(1)]) simp
    moreover have "rec_good env m recs r" using ao r(1) by (auto simp: active_ok_def)
    ultimately show ?thesis by blast
  qed
  have same: "map_of ?new i = map_of ?old i" if "map_of (rev es) i = None" for i
    using that none [of i] by (simp add: map_of_index_pack)
  have pick: "\<exists>r. find_rec ?packs loc = Some r \<and> rh_id (fst r) = i \<and> rec_good env m recs r"
    if "map_of ?new i = Some loc" for i loc
  proof (cases "map_of (rev es) i")
    case None
    then have "map_of ?old i = Some loc" using same that by simp
    moreover from this obtain r where r: "find_rec ?packs loc = Some r" "rh_id (fst r) = i"
      using vio unfolding index_ok_def by blast
    ultimately have "index_recs ?packs ?old i = Some r" by (simp add: index_recs_def)
    then have "rec_good env m recs r" using vo unfolding view_ok_def by blast
    with r show ?thesis by blast
  next
    case (Some off)
    with that have "loc = (seq, off)" by (simp add: map_of_index_pack)
    with sealed [OF Some] show ?thesis by simp
  qed
  have dom: "map_of ?new i = None \<longleftrightarrow> map_of ?old i = None" for i
    using none [of i] by (auto simp: map_of_index_pack split: option.split)
  show "index_ok ?packs ?new" using pick unfolding index_ok_def by blast
  have "index_recs ?packs ?new i = None \<longleftrightarrow> recs i = None" for i
  proof -
    have "index_recs ?packs ?new i = None \<longleftrightarrow> map_of ?new i = None"
      using pick [of i] by (auto simp: index_recs_def split: option.split)
    also have "\<dots> \<longleftrightarrow> index_recs ?packs ?old i = None"
      using dom [of i] vio unfolding index_ok_def index_recs_def by (auto split: option.split) (metis option.distinct(1))
    finally show ?thesis using vo by (simp add: view_ok_def)
  qed
  moreover have "rh_id (fst r) = i \<and> rec_good env m recs r" if "index_recs ?packs ?new i = Some r" for i r
  proof -
    from that obtain loc where loc: "map_of ?new i = Some loc" "find_rec ?packs loc = Some r"
      by (auto simp: index_recs_def split: option.splits)
    from pick [OF loc(1)] loc(2) show ?thesis by auto
  qed
  ultimately show "view_ok env m recs (index_recs ?packs ?new)" by (simp add: view_ok_def)
qed

lemma sealed_idxs:
  assumes "disk_holds d olds seq rs" and "(s, qs) \<in> set olds"
  shows "\<exists>b es. bt_get (cd_idxs d) s = Some b \<and> altidx_read b = Inr es \<and> set es = set (entries_of qs)"
  using assms by (auto simp: disk_holds_def)

lemma chunk_inv_roll:
  assumes env: "env_ok env" and inv: "chunk_inv env st d m g" and room: "ap_len (cs_active st) < 2 ^ 64"
  shows "\<exists>st' d'. seal_and_roll env st d = (Inr (), st', d') \<and>
    chunk_inv env st' d' m \<lparr>cg_olds = packs_of g, cg_seq = cg_seq g + 1, cg_recs = []\<rparr> \<and>
    cs_index st' = cs_index st \<and> cs_opts st' = cs_opts st \<and> cs_cache st' = cs_cache st \<and>
    ap_len (cs_active st') = ALTP_HEADER_LEN \<and> ap_seq (cs_active st') = ap_seq (cs_active st) + 1"
proof -
  let ?rs = "cg_recs g" and ?seq = "cg_seq g" and ?olds = "cg_olds g"
  let ?g = "\<lparr>cg_olds = packs_of g, cg_seq = ?seq + 1, cg_recs = []\<rparr>"
  have dh: "disk_holds d ?olds ?seq ?rs" and so: "store_on st ?olds ?seq ?rs"
    using inv by (auto simp: chunk_inv_def)
  note act = disk_holds_active [OF dh]
  have a: "cs_active st = \<lparr>ap_seq = ?seq, ap_len = length (pack_file ?rs), ap_entries = entries_of ?rs\<rparr>"
    using so by (simp add: store_on_def)
  have ok: "idx_ok (entries_of ?rs)" by (rule entries_idx_ok [OF act(3)]) (use room a in simp)
  note idx = altidx_usort [OF env ok]
  let ?b = "altidx_write (se_usort env) (entries_of ?rs)"
  let ?d1 = "put_idx ?seq ?b (sync_pack ?seq d)"
  let ?d = "sync_pack (?seq + 1) (put_pack (?seq + 1) altp_file_header ?d1)"
  let ?st = "st\<lparr>cs_sealed := cs_sealed st @ [(?seq, pack_file ?rs)],
    cs_active := \<lparr>ap_seq = ?seq + 1, ap_len = ALTP_HEADER_LEN, ap_entries = []\<rparr>\<rparr>"
  let ?files = "map (\<lambda>(s, rs). (s, pack_file rs))"
  have packs: "cd_packs d = ?files (packs_of g)" "cd_packs ?d1 = ?files (packs_of g)"
    using dh by (simp_all add: disk_holds_def packs_of_def put_idx_def sync_pack_def)
  have bt: "bt_ok (cd_idxs d)" using dh by (simp add: disk_holds_def)
  have below: "\<forall>k \<in> fst ` set (?files (packs_of g)). k < ?seq + 1"
    using act(4) by (auto simp: packs_of_def)
  then have "map_of (?files (packs_of g)) (?seq + 1) = None" by (auto simp: map_of_eq_None_iff)
  then have opened: "open_active (?seq + 1) True ?d1 = (Inr \<lparr>ap_seq = ?seq + 1, ap_len = ALTP_HEADER_LEN, ap_entries = []\<rparr>, ?d)"
    by (simp add: open_active_def packs)
  have new_packs: "cd_packs ?d = ?files (packs_of g) @ [(?seq + 1, altp_file_header)]"
    using bt_insert_end(2) [OF below] packs by (simp add: put_pack_def sync_pack_def)
  have sealed: "bt_insert ?seq (pack_file ?rs) (cs_sealed st) = cs_sealed st @ [(?seq, pack_file ?rs)]"
    using bt_insert_end(2) [OF act(4)] so by (simp add: store_on_def)
  have bytes: "pack_bytes_of ?d1 ?seq = pack_file ?rs" "pack_bytes_of d ?seq = pack_file ?rs"
    using act(1) by (simp_all add: pack_bytes_of_def put_idx_def sync_pack_def)
  have idxs: "idx_of ?d s = (if s = ?seq then se_usort env (entries_of ?rs) else idx_of d s)" for s
    using idx bt by (simp add: sync_pack_def idx_of_def put_idx_def put_pack_def)
  have run: "seal_and_roll env st d = (Inr (), ?st, ?d)"
    using opened sealed bytes a by (simp add: seal_and_roll_def Let_def)
  have "sealed_view ?d ?olds = sealed_view d ?olds" by (rule sealed_view_cong) (metis idxs act(2))
  moreover have "sealed_view ?d (packs_of g) = index_pack ?seq (idx_of ?d ?seq) (sealed_view ?d ?olds)"
    by (simp add: sealed_view_def packs_of_def)
  moreover have "entries_of [] = []" "index_pack s [] ix = ix" for s ix by (simp_all add: entries_of_def index_pack_def)
  ultimately have view: "disk_view ?d (cg_olds ?g) (cg_seq ?g) (cg_recs ?g) =
      index_pack ?seq (se_usort env (entries_of ?rs)) (sealed_view d ?olds)"
    using idxs [of ?seq] by (simp add: disk_view_def)
  have find: "find_rec (packs_of ?g) l = find_rec (packs_of g) l" for l
  proof -
    have "?seq + 1 \<notin> fst ` set (packs_of g)" using below by (auto simp: case_prod_unfold)
    moreover have "packs_of ?g = packs_of g @ [(?seq + 1, [])]" by (subst packs_of_def) simp
    ultimately show ?thesis by (metis find_rec_fresh)
  qed
  have cond: "index_ok (?olds @ [(?seq, ?rs)]) (index_pack ?seq (entries_of ?rs) (sealed_view d ?olds))"
    "view_ok env m (index_recs (packs_of g) (cs_index st)) (index_recs (?olds @ [(?seq, ?rs)]) (index_pack ?seq (entries_of ?rs) (sealed_view d ?olds)))"
    "active_ok env m (index_recs (packs_of g) (cs_index st)) (cs_index st) ?seq ?rs"
    using inv by (simp_all add: chunk_inv_def view_recs_def disk_view_def packs_of_def)
  note new_view = view_roll [OF idx(2) act(2,3,5) cond]
  have "chunk_inv env ?st ?d m ?g"
    unfolding chunk_inv_def view_recs_def view index_recs_cong [OF find] index_ok_cong [OF find]
  proof (intro conjI)
    show "disk_holds ?d (cg_olds ?g) (cg_seq ?g) (cg_recs ?g)"
      unfolding disk_holds_def
    proof (intro conjI)
      show "cd_packs ?d = ?files (cg_olds ?g @ [(cg_seq ?g, cg_recs ?g)])" using new_packs by (simp add: pack_file_def)
      show "sorted_wrt (<) (map fst (cg_olds ?g @ [(cg_seq ?g, cg_recs ?g)]))"
        using dh below by (auto simp: disk_holds_def packs_of_def sorted_wrt_append)
      show "bt_ok (cd_idxs ?d)" using bt by (simp add: sync_pack_def put_pack_def put_idx_def)
      show "\<forall>(s, qs) \<in> set (cg_olds ?g @ [(cg_seq ?g, cg_recs ?g)]). list_all rec_ok qs"
        using dh by (auto simp: disk_holds_def packs_of_def)
      have "bt_get (cd_idxs ?d) s = (if s = ?seq then Some ?b else bt_get (cd_idxs d) s)" for s
        using bt by (simp add: sync_pack_def put_pack_def put_idx_def)
      then have "\<exists>b es. bt_get (cd_idxs ?d) s = Some b \<and> altidx_read b = Inr es \<and> set es = set (entries_of qs)"
        if "(s, qs) \<in> set (?olds @ [(?seq, ?rs)])" for s qs
        using that idx sealed_idxs [OF dh, of s qs] act(2) by (cases "s = ?seq") (auto intro: rev_image_eqI)
      then show "\<forall>(s, qs) \<in> set (cg_olds ?g). \<exists>b es. bt_get (cd_idxs ?d) s = Some b \<and> altidx_read b = Inr es \<and> set es = set (entries_of qs)"
        by (auto simp: packs_of_def)
    qed
    show "store_on ?st (cg_olds ?g) (cg_seq ?g) (cg_recs ?g)"
      using so by (simp add: store_on_def packs_of_def pack_file_def entries_of_def)
    show "active_ok env m (index_recs (packs_of g) (cs_index ?st)) (cs_index ?st) (cg_seq ?g) (cg_recs ?g)"
      by (simp add: active_ok_def entries_of_def)
  qed (use inv new_view in \<open>simp_all add: chunk_inv_def packs_of_def\<close>)
  with run a show ?thesis by (intro exI [of _ ?st] exI [of _ ?d]) simp
qed

section \<open>Every append\<close>

text \<open>A store moves on by whole records behind those of its active pack, or to a later active pack.\<close>

definition grown :: "chunk_ghost \<Rightarrow> chunk_disk \<Rightarrow> chunk_ghost \<Rightarrow> chunk_disk \<Rightarrow> bool" where
  "grown g d g' d' \<longleftrightarrow> cg_seq g < cg_seq g' \<or>
     (cg_seq g' = cg_seq g \<and> cg_olds g' = cg_olds g \<and> cd_idxs d' = cd_idxs d \<and> (\<exists>rs. cg_recs g' = cg_recs g @ rs))"

lemma grown_refl [simp]: "grown g d g d"
  by (simp add: grown_def)

lemma grown_trans: "grown g d g' d' \<Longrightarrow> grown g' d' g'' d'' \<Longrightarrow> grown g d g'' d''"
  by (auto simp: grown_def)

lemma append_record_inv:
  assumes env: "env_ok env" and inv: "chunk_inv env st d m g"
    and room: "ap_len (cs_active st) < 2 ^ 63" "co_seal_threshold (cs_opts st) \<le> 2 ^ 63"
    and r: "rec_ok (hdr, p)" "rh_id hdr = i"
    and prev: "\<And>r0. index_recs (packs_of g) (cs_index st) i = Some r0 \<Longrightarrow> full_of env (m(i \<mapsto> x)) i r0"
    and new: "chunk_stored env ((index_recs (packs_of g) (cs_index st))(i \<mapsto> (hdr, p))) i x" "se_hash env x = i"
      "m i = None \<or> m i = Some x"
  shows "\<exists>st' d' g'. append_record env hdr p st d = (Inr (), st', d') \<and> chunk_inv env st' d' (m(i \<mapsto> x)) g' \<and>
    grown g d g' d' \<and> cs_cache st' = cs_cache st \<and> cs_opts st' = cs_opts st \<and> ap_len (cs_active st') < 2 ^ 63"
proof -
  let ?seq = "cg_seq g" and ?f = "pack_file (cg_recs g)" and ?n = "REC_HEADER_LEN + length p"
  have a: "cs_active st = \<lparr>ap_seq = ?seq, ap_len = length ?f, ap_entries = entries_of (cg_recs g)\<rparr>"
    using inv by (simp add: chunk_inv_def store_on_def)
  have bytes: "pack_bytes_of d ?seq = ?f" using inv by (auto simp: chunk_inv_def dest: disk_holds_active)
  let ?d = "put_pack ?seq (?f @ rec_bytes (hdr, p)) d"
  let ?st = "st\<lparr>cs_active := \<lparr>ap_seq = ?seq, ap_len = length ?f + ?n, ap_entries = entries_of (cg_recs g) @ [(i, length ?f)]\<rparr>,
    cs_counters := (cs_counters st)\<lparr>cn_bytes_written := cn_bytes_written (cs_counters st) + ?n\<rparr>,
    cs_index := AList.update i (?seq, length ?f) (cs_index st)\<rparr>"
  let ?g = "g\<lparr>cg_recs := cg_recs g @ [(hdr, p)]\<rparr>"
  have len: "length (rec_bytes (hdr, p)) = ?n" using length_rec_bytes [OF r(1)] by simp
  have next_inv: "chunk_inv env ?st ?d (m(i \<mapsto> x)) ?g"
    by (rule chunk_inv_append [OF inv r(1) _ prev new]) (use r(2) len in \<open>simp_all add: pack_file_snoc entries_of_snoc\<close>)
  have run: "append_record env hdr p st d =
      (if co_seal_threshold (cs_opts st) \<le> length ?f + ?n then seal_and_roll env ?st ?d else (Inr (), ?st, ?d))"
    using bytes r(2) by (simp add: append_record_def Let_def a rec_bytes_def)
  have small: "length p < 2 ^ 32" using r(1) unat_u32_less [of "rh_stored_len hdr"] by (simp add: rec_ok_def)
  show ?thesis
  proof (cases "co_seal_threshold (cs_opts st) \<le> length ?f + ?n")
    case True
    have "ap_len (cs_active ?st) < 2 ^ 64" using room(1) small a by (simp add: REC_HEADER_LEN_def)
    from chunk_inv_roll [OF env next_inv this] obtain st' d' where
      "seal_and_roll env ?st ?d = (Inr (), st', d')"
      "chunk_inv env st' d' (m(i \<mapsto> x)) \<lparr>cg_olds = packs_of ?g, cg_seq = cg_seq ?g + 1, cg_recs = []\<rparr>"
      "cs_opts st' = cs_opts st" "cs_cache st' = cs_cache st" "ap_len (cs_active st') = ALTP_HEADER_LEN" by auto
    with run True show ?thesis
      by (intro exI [of _ st'] exI [of _ d'] exI [of _ "\<lparr>cg_olds = packs_of ?g, cg_seq = cg_seq ?g + 1, cg_recs = []\<rparr>"])
        (simp add: grown_def ALTP_HEADER_LEN_def)
  next
    case False
    then have "ap_len (cs_active ?st) < 2 ^ 63" using room(2) by simp
    with run False next_inv show ?thesis
      by (intro exI [of _ ?st] exI [of _ ?d] exI [of _ ?g]) (simp add: grown_def put_pack_def)
  qed
qed

lemma index_recs_rec_at:
  assumes "chunk_inv env st d m g" and "index_recs (packs_of g) (cs_index st) i = Some r"
  obtains loc where "map_of (cs_index st) i = Some loc" "rec_at st d loc = Some r"
  using assms rec_at_find [of d "cg_olds g" "cg_seq g" "cg_recs g" st]
  by (auto simp: index_recs_def chunk_inv_def packs_of_def split: option.splits)

lemma inv_index: "chunk_inv env st d m g \<Longrightarrow> map_of (cs_index st) i = None \<longleftrightarrow> m i = None"
  unfolding chunk_inv_def content_ok_def index_ok_def index_recs_def
  by (auto split: option.splits) (metis option.distinct(1))+

lemma chunk_inv_cong:
  "chunk_inv env st d m g \<Longrightarrow> cs_sealed st' = cs_sealed st \<Longrightarrow> cs_active st' = cs_active st \<Longrightarrow>
   cs_index st' = cs_index st \<Longrightarrow> chunk_inv env st' d m g"
  by (simp add: chunk_inv_def store_on_def)

section \<open>Putting\<close>

lemma full_decode_put:
  assumes "env_ok env" and "length x < 2 ^ 32" and "enc = ENC_RAW \<and> p = x \<or> enc = ENC_ZSTD \<and> se_encode env lvl x = Some p"
  shows "full_decode env (\<lparr>rh_id = i, rh_encoding = enc, rh_orig_len = of_nat (length x), rh_stored_len = n\<rparr>, p) = Some x"
  using assms by (auto simp: full_decode_def env_ok_def codec_simps)

definition put_if_absent :: "chunk_id \<Rightarrow> bytes \<Rightarrow> content \<Rightarrow> content" where
  "put_if_absent i x m = (case m i of None \<Rightarrow> m(i \<mapsto> x) | Some _ \<Rightarrow> m)"

text \<open>What holds of a store and its files through any run, from the ghost state \<open>g0\<close> and disk \<open>d0\<close> on.\<close>

definition chunk_since ::
  "store_env \<Rightarrow> chunk_store \<Rightarrow> chunk_disk \<Rightarrow> content \<Rightarrow> chunk_ghost \<Rightarrow> chunk_disk \<Rightarrow> chunk_opts \<Rightarrow> bool" where
  "chunk_since env st d m g0 d0 opts \<longleftrightarrow>
     (\<exists>g. chunk_inv env st d m g \<and> grown g0 d0 g d) \<and> chunk_cache_ok m (cs_cache st) \<and>
     ap_len (cs_active st) < 2 ^ 63 \<and> cs_opts st = opts \<and> co_seal_threshold opts \<le> 2 ^ 63"

lemma chunk_holds_since:
  "chunk_holds env st d m \<longleftrightarrow> (\<exists>g0 d0. chunk_since env st d m g0 d0 (cs_opts st))"
  by (auto simp: chunk_holds_def chunk_since_def intro: grown_refl)

lemma chunk_put_since:
  assumes env: "env_ok env" and since: "chunk_since env st d m g0 d0 opts"
  shows "\<exists>r st' d'. chunk_put env x st d = (r, st', d') \<and>
    (case r of Inl e \<Rightarrow> chunk_since env st' d' m g0 d0 opts \<and> 
        (e = ChunkTooLarge (length x) \<and> 2 ^ 32 \<le> length x \<or>
         e = StoreIo ''zstd'' \<and> co_raw_threshold (cs_opts st) \<le> length x \<and> se_encode env (co_zstd_level (cs_opts st)) x = None)
     | Inr i \<Rightarrow> i = se_hash env x \<and> chunk_since env st' d' (put_if_absent i x m) g0 d0 opts)"
proof -
  obtain g where g: "chunk_inv env st d m g" "grown g0 d0 g d" using since by (auto simp: chunk_since_def)
  let ?i = "se_hash env x" and ?cn = "cs_counters st"
  let ?st = "st\<lparr>cs_counters := ?cn\<lparr>cn_puts := cn_puts ?cn + 1, cn_bytes_in := cn_bytes_in ?cn + length x\<rparr>\<rparr>"
  let ?st1 = "st\<lparr>cs_counters := ?cn\<lparr>cn_puts := cn_puts ?cn + 1, cn_bytes_in := cn_bytes_in ?cn + length x,
    cn_dedup_hits := cn_dedup_hits ?cn + 1\<rparr>\<rparr>"
  have keep: "chunk_since env (st\<lparr>cs_counters := c\<rparr>) d m g0 d0 opts" for c
    using since chunk_inv_cong [of env st d m _ "st\<lparr>cs_counters := c\<rparr>"] by (auto simp: chunk_since_def)
  show ?thesis
  proof (cases "m ?i = None")
    case False
    then obtain y where "put_if_absent ?i x m = m" "m ?i = Some y" by (auto simp: put_if_absent_def)
    moreover from this have "map_of (cs_index st) ?i \<noteq> None" using inv_index [OF g(1), of ?i] by simp
    ultimately show ?thesis using keep by (simp add: chunk_put_def Let_def)
  next
    case True
    then have absent: "map_of (cs_index st) ?i = None" using inv_index [OF g(1)] by blast
    let ?compressed = "if length x < co_raw_threshold (cs_opts st) then Inr None
      else case se_encode env (co_zstd_level (cs_opts st)) x of None \<Rightarrow> Inl (StoreIo ''zstd'') | Some z \<Rightarrow> Inr (Some z)"
    consider (large) "2 ^ 32 \<le> length x" | (fail) "length x < 2 ^ 32" "?compressed = Inl (StoreIo ''zstd'')"
      | (ok) c where "length x < 2 ^ 32" "?compressed = Inr c"
    proof (cases ?compressed)
      case (Inl e)
      then have "?compressed = Inl (StoreIo ''zstd'')" by (auto split: if_splits option.splits)
      then show ?thesis using that(1,2) not_le by blast
    next
      case (Inr c)
      then show ?thesis using that(1,3) not_le by blast
    qed
    then show ?thesis
    proof cases
      case large
      then show ?thesis using absent keep by (simp add: chunk_put_def Let_def)
    next
      case fail
      then have "\<not> length x < co_raw_threshold (cs_opts st)" "se_encode env (co_zstd_level (cs_opts st)) x = None"
        by (auto split: if_splits option.splits)
      then show ?thesis using absent fail(1) keep by (simp add: chunk_put_def Let_def)
    next
      case ok
      obtain enc p where ep: "(case c of Some z \<Rightarrow> if length z < length x then (ENC_ZSTD, z) else (ENC_RAW, x)
          | None \<Rightarrow> (ENC_RAW, x)) = (enc, p)" by (rule prod.exhaust)
      have enc: "enc = ENC_RAW \<and> p = x \<or> enc = ENC_ZSTD \<and> se_encode env (co_zstd_level (cs_opts st)) x = Some p"
        and short: "length p \<le> length x"
        using ep ok(2) by (auto split: option.splits if_splits)
      let ?hdr = "\<lparr>rh_id = ?i, rh_encoding = enc, rh_orig_len = of_nat (length x), rh_stored_len = of_nat (length p)\<rparr>"
      have r: "rec_ok (?hdr, p)" using env short ok(1) enc
        by (auto simp: rec_ok_def env_ok_def codec_simps ENC_RAW_def ENC_ZSTD_def ENC_RESERVED_MAX_def)
      have dec: "full_decode env (?hdr, p) = Some x" by (rule full_decode_put [OF env ok(1) enc])
      have none: "index_recs (packs_of g) (cs_index ?st) ?i = None" using absent by (simp add: index_recs_def)
      have inv: "chunk_inv env ?st d m g" by (rule chunk_inv_cong [OF g(1)]) simp_all
      have room: "ap_len (cs_active ?st) < 2 ^ 63" "co_seal_threshold (cs_opts ?st) \<le> 2 ^ 63"
        using since by (auto simp: chunk_since_def)
      have "chunk_stored env ((index_recs (packs_of g) (cs_index ?st))(?i \<mapsto> (?hdr, p))) ?i x"
        using dec by (auto intro!: stored_full)
      from append_record_inv [OF env inv room r _ _ this refl] True none obtain st' d' g' where
        app: "append_record env ?hdr p ?st d = (Inr (), st', d')"
        and post: "chunk_inv env st' d' (m(?i \<mapsto> x)) g'" "grown g d g' d'" "cs_cache st' = cs_cache ?st"
          "cs_opts st' = cs_opts ?st" "ap_len (cs_active st') < 2 ^ 63" by auto
      have run: "chunk_put env x st d = (Inr ?i, st', d')"
        using absent ok ep app
        by (cases "length x < co_raw_threshold (cs_opts st)"; cases "se_encode env (co_zstd_level (cs_opts st)) x")
          (simp_all add: chunk_put_def Let_def)
      have "chunk_cache_ok (m(?i \<mapsto> x)) (cs_cache st)" using since True by (auto simp: chunk_since_def chunk_cache_ok_def)
      moreover have "grown g0 d0 g' d'" by (rule grown_trans [OF g(2) post(2)])
      moreover have "put_if_absent ?i x m = m(?i \<mapsto> x)" using True by (simp add: put_if_absent_def)
      moreover have "cs_opts st = opts" "co_seal_threshold opts \<le> 2 ^ 63" using since by (simp_all add: chunk_since_def)
      ultimately have "chunk_since env st' d' (put_if_absent ?i x m) g0 d0 opts"
        using post(1,3,4,5) unfolding chunk_since_def by auto
      with run show ?thesis by auto
    qed
  qed
qed

end
