(* ===== verification/Chunk_Ops.thy ===== *)
theory Chunk_Ops
  imports Chunk_Inv
begin

text \<open>
  The operations of the chunk store against the map of \<^verbatim>\<open>Chunk_Inv\<close>: reads, re-encoding, opening
  after a crash, rewinding and compaction.
\<close>

section \<open>Reading\<close>

lemma cache_ok_evict: "chunk_cache_ok m c \<Longrightarrow> chunk_cache_ok m (delta_cache_evict order c)"
proof (induction order c rule: delta_cache_evict.induct)
  case (2 old order c)
  have "chunk_cache_ok m (case map_of (dk_map c) old of None \<Rightarrow> c\<lparr>dk_order := order\<rparr>
      | Some data \<Rightarrow> \<lparr>dk_map = AList.delete old (dk_map c), dk_order = order, dk_bytes = dk_bytes c - length data\<rparr>)"
    using "2.prems" by (auto simp: chunk_cache_ok_def AList.delete_conv' split: option.split)
  then show ?case using 2 by simp
qed simp

lemma cache_ok_update: "chunk_cache_ok m c \<Longrightarrow> m i = Some x \<Longrightarrow> chunk_cache_ok m (delta_cache_put i x c)"
  by (auto simp: delta_cache_put_def Let_def chunk_cache_ok_def [of _ "\<lparr>dk_map = _, dk_order = _, dk_bytes = _\<rparr>"]
      AList.update_conv' intro!: cache_ok_evict) (simp add: chunk_cache_ok_def)

fun layers :: "store_env \<Rightarrow> content \<Rightarrow> delta_frame list \<Rightarrow> chunk_id \<Rightarrow> bytes \<Rightarrow> (chunk_id \<times> bytes) option" where
  "layers env m [] base y = Some (base, y)"
| "layers env m ((fid, orig_len, z) # fs) base y =
     (case se_decode_with env z y orig_len of
        None \<Rightarrow> None
      | Some out \<Rightarrow> if length out = orig_len \<and> m fid = Some out then layers env m fs fid out else None)"

lemma layers_append:
  "layers env m (fs @ gs) base y =
     (case layers env m fs base y of None \<Rightarrow> None | Some (base', y') \<Rightarrow> layers env m gs base' y')"
  by (induction env m fs base y rule: layers.induct) (auto split: option.split)

definition hashed :: "store_env \<Rightarrow> content \<Rightarrow> bool" where
  "hashed env m \<longleftrightarrow> (\<forall>i x. m i = Some x \<longrightarrow> se_hash env x = i)"

lemma unwind_layers:
  assumes "hashed env m"
  shows "layers env m fs base y = Some (i, x) \<Longrightarrow> m base = Some y \<Longrightarrow> chunk_cache_ok m c \<Longrightarrow>
    \<exists>c'. unwind env verify fs base y c = (Inr x, c') \<and> chunk_cache_ok m c'"
proof (induction fs arbitrary: base y c)
  case (Cons f frames)
  obtain fid orig_len z where f: "f = (fid, orig_len, z)" by (cases f)
  with Cons.prems obtain out where out: "se_decode_with env z y orig_len = Some out" "length out = orig_len" "m fid = Some out"
    "layers env m frames fid out = Some (i, x)" by (auto split: option.splits if_splits)
  have "verified env verify (frames = []) fid out = Inr out"
    using assms out(3) by (simp add: verified_def check_hash_def hashed_def)
  moreover obtain c' where "unwind env verify frames fid out (delta_cache_put base y c) = (Inr x, c')" "chunk_cache_ok m c'"
    using Cons.IH [OF out(4,3)] cache_ok_update Cons.prems by blast
  ultimately show ?case using out f by (simp add: sized_def)
qed simp

lemma full_decode_cases:
  assumes "full_decode env (hdr, p) = Some x"
  obtains "rh_encoding hdr = ENC_RAW" "p = x" "length x = unat (rh_orig_len hdr)"
  | "rh_encoding hdr = ENC_ZSTD" "se_decode env p = Some x" "length x = unat (rh_orig_len hdr)"
  using assms by (auto simp: full_decode_def split: if_splits option.splits)

lemma inv_content: "chunk_inv env st d m g \<Longrightarrow> content_ok env m (index_recs (packs_of g) (cs_index st))"
  by (simp add: chunk_inv_def)

lemma inv_hashed: "chunk_inv env st d m g \<Longrightarrow> hashed env m"
  by (auto dest: inv_content simp: content_ok_def hashed_def)

lemma content_stored:
  assumes "content_ok env m recs" and "chunk_stored env recs i x"
  shows "m i = Some x"
proof -
  have "recs i \<noteq> None" using assms(2) by (auto elim: stored_cases)
  then have "m i \<noteq> None" using assms(1) by (simp add: content_ok_def)
  then obtain y where "m i = Some y" by blast
  moreover from this have "chunk_stored env recs i y" using assms(1) by (simp add: content_ok_def)
  ultimately show ?thesis using stored_det [OF assms(2)] by auto
qed

lemma descend_reads:
  assumes inv: "chunk_inv env st d m g" and cache: "chunk_cache_ok m (cs_cache st)"
  shows "chunk_at env (index_recs (packs_of g) (cs_index st)) n cur x \<Longrightarrow>
    \<forall>f \<in> set frames. \<exists>k y. n < k \<and> chunk_at env (index_recs (packs_of g) (cs_index st)) k (fst f) y \<Longrightarrow>
    \<exists>fs base y. descend env st d verify frames cur = Inr (fs @ frames, base, y) \<and>
      layers env m fs base y = Some (cur, x) \<and> m base = Some y"
proof (induction arbitrary: frames rule: chunk_at.induct)
  case (full i r x)
  let ?recs = "index_recs (packs_of g) (cs_index st)"
  obtain hdr p where r: "r = (hdr, p)" by (cases r)
  have at: "chunk_at env ?recs 0 i x" using full.hyps by (rule chunk_at.full)
  then have mi: "m i = Some x" using content_stored [OF inv_content [OF inv]] by (auto simp: chunk_stored_def)
  have "se_hash env x = i" using mi inv_hashed [OF inv] by (simp add: hashed_def)
  then have ver: "verified env verify b i x = Inr x" for b by (simp add: verified_def check_hash_def)
  have new: "i \<notin> set (map fst frames)" using full.prems at by (auto dest!: chunk_at_det [OF at])
  obtain loc where loc: "map_of (cs_index st) i = Some loc" "rec_at st d loc = Some r"
    by (rule index_recs_rec_at [OF inv full.hyps(1)])
  note rd = read_record_rec [OF loc(2), of i]
  let ?cached = "if verify \<noteq> VerifyDeep \<and> frames \<noteq> [] then map_of (dk_map (cs_cache st)) i else None"
  have "descend env st d verify frames i = Inr (frames, i, x)"
  proof (cases ?cached)
    case None
    from full.hyps(3) [unfolded r] show ?thesis
      by (rule full_decode_cases)
        (use None new loc(1) rd r full.hyps(2) ver in \<open>simp_all add: descend.simps [of env st d verify frames i] sized_def\<close>)
  next
    case (Some hit)
    then have "map_of (dk_map (cs_cache st)) i = Some hit" by (simp split: if_splits)
    then have "hit = x" using cache mi by (auto simp: chunk_cache_ok_def)
    with Some show ?thesis by (simp add: descend.simps [of env st d verify frames i])
  qed
  then show ?case using mi by (intro exI [of _ "[]"] exI [of _ i] exI [of _ x]) simp
next
  case (delta i hdr p n b x)
  let ?recs = "index_recs (packs_of g) (cs_index st)"
  have at: "chunk_at env ?recs (Suc n) i x" using delta.hyps by (auto intro: chunk_at.delta)
  then have mi: "m i = Some x" using content_stored [OF inv_content [OF inv]] by (auto simp: chunk_stored_def)
  have new: "i \<notin> set (map fst frames)" using delta.prems at by (fastforce dest: chunk_at_det [OF at])
  obtain loc where loc: "map_of (cs_index st) i = Some loc" "rec_at st d loc = Some (hdr, p)"
    by (rule index_recs_rec_at [OF inv delta.hyps(1)])
  note rd = read_record_rec [OF loc(2), of i]
  let ?cached = "if verify \<noteq> VerifyDeep \<and> frames \<noteq> [] then map_of (dk_map (cs_cache st)) i else None"
  let ?f = "(i, unat (rh_orig_len hdr), drop 32 p)"
  show ?case
  proof (cases ?cached)
    case None
    have "\<forall>f \<in> set (?f # frames). \<exists>k y. n < k \<and> chunk_at env ?recs k (fst f) y"
    proof
      fix f
      assume "f \<in> set (?f # frames)"
      then consider "f = ?f" | "f \<in> set frames" by auto
      then show "\<exists>k y. n < k \<and> chunk_at env ?recs k (fst f) y"
      proof cases
        case 1
        with at show ?thesis by (intro exI [of _ "Suc n"]) auto
      next
        case 2
        with delta.prems show ?thesis using Suc_lessD by blast
      qed
    qed
    from delta.IH [OF this] obtain fs base y where more:
      "descend env st d verify (?f # frames) (take 32 p) = Inr (fs @ ?f # frames, base, y)"
      "layers env m fs base y = Some (take 32 p, b)" "m base = Some y" by blast
    have "descend env st d verify frames i = Inr ((fs @ [?f]) @ frames, base, y)"
      using None new loc(1) rd delta.hyps(2,3,4) more(1) by (simp add: descend.simps [of env st d verify frames i])
    moreover have "layers env m (fs @ [?f]) base y = Some (i, x)"
      using more(2) delta.hyps(6,7) mi by (simp add: layers_append)
    ultimately show ?thesis using more(3) by blast
  next
    case (Some hit)
    then have "map_of (dk_map (cs_cache st)) i = Some hit" by (simp split: if_splits)
    then have "hit = x" using cache mi by (auto simp: chunk_cache_ok_def)
    with Some have "descend env st d verify frames i = Inr ([] @ frames, i, x)"
      by (simp add: descend.simps [of env st d verify frames i])
    then show ?thesis using mi by (metis layers.simps(1))
  qed
qed

lemma chunk_resolve_inv:
  assumes inv: "chunk_inv env st d m g" and cache: "chunk_cache_ok m (cs_cache st)"
  shows "\<exists>c. chunk_resolve env d verify i st =
    (case m i of Some x \<Rightarrow> Inr x | None \<Rightarrow> Inl (ChunkNotFound i), st\<lparr>cs_cache := c\<rparr>) \<and> chunk_cache_ok m c"
proof (cases "m i")
  case None
  then have "map_of (cs_index st) i = None" using inv_index [OF inv] by simp
  then have "chunk_resolve env d verify i st = (Inl (ChunkNotFound i), st)"
    by (simp add: chunk_resolve_def descend.simps [of env st d verify "[]" i])
  with None cache show ?thesis by (intro exI [of _ "cs_cache st"]) simp
next
  case (Some x)
  then obtain n where "chunk_at env (index_recs (packs_of g) (cs_index st)) n i x"
    using inv_content [OF inv] unfolding content_ok_def chunk_stored_def by blast
  from descend_reads [OF inv cache this, of "[]" verify] obtain fs base y where
    down: "descend env st d verify [] i = Inr (fs, base, y)" and up: "layers env m fs base y = Some (i, x)" "m base = Some y"
    by auto
  obtain c where "unwind env verify fs base y (cs_cache st) = (Inr x, c)" "chunk_cache_ok m c"
    using unwind_layers [OF inv_hashed [OF inv] up cache] by blast
  with down Some show ?thesis by (intro exI [of _ c]) (simp add: chunk_resolve_def)
qed

lemma since_cache:
  "chunk_since env st d m g0 d0 opts \<Longrightarrow> chunk_cache_ok m c \<Longrightarrow> chunk_since env (st\<lparr>cs_cache := c\<rparr>) d m g0 d0 opts"
  using chunk_inv_cong [of env st d m _ "st\<lparr>cs_cache := c\<rparr>"] by (auto simp: chunk_since_def)

lemma chunk_resolve_since:
  assumes "chunk_since env st d m g0 d0 opts"
  shows "\<exists>c. chunk_resolve env d verify i st =
      (case m i of Some x \<Rightarrow> Inr x | None \<Rightarrow> Inl (ChunkNotFound i), st\<lparr>cs_cache := c\<rparr>) \<and>
    chunk_since env (st\<lparr>cs_cache := c\<rparr>) d m g0 d0 opts"
proof -
  obtain g where "chunk_inv env st d m g" "chunk_cache_ok m (cs_cache st)" using assms by (auto simp: chunk_since_def)
  from chunk_resolve_inv [OF this, of verify i] since_cache [OF assms] show ?thesis by blast
qed

section \<open>Re-encoding\<close>

text \<open>A chain the walk accepts does not pass through the chunk to be re-encoded.\<close>

lemma base_walk_avoids:
  assumes inv: "chunk_inv env st d m g"
  shows "m node = Some y \<Longrightarrow> \<exists>v. base_walk st d i node hops = Inr v \<and>
    (v \<longrightarrow> chunk_stored env ((index_recs (packs_of g) (cs_index st))(i \<mapsto> r)) node y)"
proof (induction "MAX_DELTA_DEPTH - hops" arbitrary: node hops y rule: less_induct)
  case less
  let ?recs = "index_recs (packs_of g) (cs_index st)"
  show ?case
  proof (cases "node = i")
    case True
    then show ?thesis by (intro exI [of _ False]) (simp add: base_walk.simps [of st d i i])
  next
    case other: False
    have "chunk_stored env ?recs node y" using inv_content [OF inv] less.prems by (simp add: content_ok_def)
    then show ?thesis
    proof (cases rule: stored_cases)
      case (full q)
      obtain hdr p where q: "q = (hdr, p)" by (cases q)
      obtain loc where loc: "map_of (cs_index st) node = Some loc" "rec_at st d loc = Some q"
        by (rule index_recs_rec_at [OF inv full(1)])
      have "rh_encoding hdr \<noteq> ENC_DELTA" using full(3) q by auto
      then have "base_walk st d i node hops = Inr True"
        using other loc(1) read_header_rec [OF loc(2), of node] q by (simp add: base_walk.simps [of st d i node])
      moreover have "chunk_stored env (?recs(i \<mapsto> r)) node y"
        by (rule stored_full [where r = q]) (use full other in simp_all)
      ultimately show ?thesis by blast
    next
      case (delta hdr p b)
      obtain loc where loc: "map_of (cs_index st) node = Some loc" "rec_at st d loc = Some (hdr, p)"
        by (rule index_recs_rec_at [OF inv delta(1)])
      have step: "base_walk st d i node hops = (if MAX_DELTA_DEPTH < hops + 1 then Inr False else base_walk st d i (take 32 p) (hops + 1))"
        using other loc(1) read_header_rec [OF loc(2), of node] read_base_id_rec [OF loc(2) delta(4), of node] delta(3)
        by (simp add: base_walk.simps [of st d i node])
      show ?thesis
      proof (cases "MAX_DELTA_DEPTH < hops + 1")
        case True
        then show ?thesis using step by (intro exI [of _ False]) simp
      next
        case False
        have "m (take 32 p) = Some b" by (rule content_stored [OF inv_content [OF inv] delta(5)])
        moreover have "MAX_DELTA_DEPTH - (hops + 1) < MAX_DELTA_DEPTH - hops" using False by simp
        ultimately have "\<exists>v. base_walk st d i (take 32 p) (hops + 1) = Inr v \<and>
            (v \<longrightarrow> chunk_stored env (?recs(i \<mapsto> r)) (take 32 p) b)" by (intro less.hyps)
        then obtain v where
          v: "base_walk st d i (take 32 p) (hops + 1) = Inr v" "v \<longrightarrow> chunk_stored env (?recs(i \<mapsto> r)) (take 32 p) b" by auto
        have "chunk_stored env (?recs(i \<mapsto> r)) node y" if v
          by (rule stored_delta [where hdr = hdr and p = p and b = b]) (use that v(2) delta other in simp_all)
        with v(1) step False show ?thesis by simp
      qed
    qed
  qed
qed

lemma reencode_record:
  assumes env: "env_ok env" and inv: "chunk_inv env st d m g"
    and room: "ap_len (cs_active st) < 2 ^ 63" "co_seal_threshold (cs_opts st) \<le> 2 ^ 63"
    and cur: "index_recs (packs_of g) (cs_index st) i = Some (current, p0)" "rh_encoding current \<noteq> ENC_DELTA"
    and m: "m i = Some x" "m base = Some b" and walk: "base_walk st d i base 1 = Inr True"
    and z: "se_encode_with env x b lvl = Some z" "32 + length z < unat (rh_stored_len current)"
  defines "hdr \<equiv> \<lparr>rh_id = i, rh_encoding = ENC_DELTA, rh_orig_len = rh_orig_len current, rh_stored_len = of_nat (32 + length z)\<rparr>"
  shows "\<exists>st' d' g'. append_record env hdr (base @ z) st d = (Inr (), st', d') \<and> chunk_inv env st' d' m g' \<and>
    grown g d g' d' \<and> cs_cache st' = cs_cache st \<and> cs_opts st' = cs_opts st \<and> ap_len (cs_active st') < 2 ^ 63"
proof -
  let ?recs = "index_recs (packs_of g) (cs_index st)"
  have co: "content_ok env m ?recs" by (rule inv_content [OF inv])
  have hash: "se_hash env x = i" "se_hash env b = base" using inv_hashed [OF inv] m by (simp_all add: hashed_def)
  have len: "length i = 32" "length base = 32" using hash env unfolding env_ok_def by blast+
  have "chunk_stored env ?recs i x" using co m(1) by (simp add: content_ok_def)
  then have full: "full_decode env (current, p0) = Some x" "rh_id current = i"
    using cur by (cases rule: stored_cases; simp)+
  have xlen: "length x = unat (rh_orig_len current)" using full(1) by (rule full_decode_cases)
  have small: "32 + length z < 4294967296" using z(2) unat_u32_less [of "rh_stored_len current"] by simp
  have "unat (of_nat (32 + length z) :: u32) = 32 + length z" by (rule unat_of_nat_u32 [OF small])
  then have ok: "rec_ok (hdr, base @ z)"
    using len unfolding rec_ok_def hdr_def by (simp add: ENC_DELTA_def ENC_RESERVED_MAX_def)
  have same: "m(i \<mapsto> x) = m" using m(1) by (simp add: fun_upd_idem)
  have sb: "chunk_stored env (?recs(i \<mapsto> (hdr, base @ z))) base b"
    using base_walk_avoids [OF inv m(2), of i 1] walk by fastforce
  have "se_decode_with env z b (length x) = Some x" using env z(1) unfolding env_ok_def by blast
  then have dec: "se_decode_with env z b (unat (rh_orig_len hdr)) = Some x" by (simp add: xlen hdr_def)
  have new: "chunk_stored env (?recs(i \<mapsto> (hdr, base @ z))) i x"
  proof (rule stored_delta [where hdr = hdr and p = "base @ z" and b = b])
    show "chunk_stored env (?recs(i \<mapsto> (hdr, base @ z))) (take 32 (base @ z)) b" using sb len by simp
    show "se_decode_with env (drop 32 (base @ z)) b (unat (rh_orig_len hdr)) = Some x" using dec len by simp
  qed (use len xlen in \<open>simp_all add: hdr_def\<close>)
  have prev: "full_of env (m(i \<mapsto> x)) i r0" if "?recs i = Some r0" for r0
    using that cur(1) full by (auto simp: full_of_def)
  show ?thesis
    using append_record_inv [OF env inv room ok _ prev new hash(1)] m(1) by (simp add: same hdr_def)
qed

lemma base_walk_cong:
  "cs_active st' = cs_active st \<Longrightarrow> cs_sealed st' = cs_sealed st \<Longrightarrow> cs_index st' = cs_index st \<Longrightarrow>
   base_walk st' d i node hops = base_walk st d i node hops"
proof (induction "MAX_DELTA_DEPTH - hops" arbitrary: node hops rule: less_induct)
  case less
  then show ?case
    by (simp add: base_walk.simps [of st' d i node] base_walk.simps [of st d i node] read_rec_header_def read_base_id_def
        split: option.split sum.split)
qed

lemma reencode_since:
  assumes env: "env_ok env" and since: "chunk_since env st d m g0 d0 opts"
  shows "\<exists>r st' d'. reencode_as_delta env i base st d = (r, st', d') \<and> chunk_since env st' d' m g0 d0 opts \<and>
    (r = Inl (ChunkNotFound i) \<and> m i = None \<or> r = Inl (ChunkNotFound base) \<and> m base = None \<or> (\<exists>b. r = Inr b))"
proof -
  obtain g where inv: "chunk_inv env st d m g" and g: "grown g0 d0 g d" using since by (auto simp: chunk_since_def)
  let ?recs = "index_recs (packs_of g) (cs_index st)"
  note index = inv_index [OF inv]
  show ?thesis
  proof (cases "i = base \<or> m i = None \<or> m base = None")
    case True
    then show ?thesis
      using since index [of i] index [of base] by (cases "map_of (cs_index st) i") (auto simp: reencode_as_delta_def)
  next
    case False
    then obtain x b where xb: "i \<noteq> base" "m i = Some x" "m base = Some b" by auto
    have "?recs i \<noteq> None" using inv_content [OF inv] xb(2) unfolding content_ok_def by (metis option.distinct(1))
    then obtain current p0 where cur: "?recs i = Some (current, p0)" by auto
    obtain loc where loc: "map_of (cs_index st) i = Some loc" "rec_at st d loc = Some (current, p0)"
      by (rule index_recs_rec_at [OF inv cur])
    have base: "map_of (cs_index st) base \<noteq> None" using index [of base] xb(3) by simp
    note hdr = read_header_rec [OF loc(2), of i, simplified]
    show ?thesis
    proof (cases "rh_encoding current = ENC_DELTA")
      case True
      then show ?thesis using since xb(1) loc(1) base hdr by (auto simp: reencode_as_delta_def)
    next
      case full: False
      obtain v where v: "base_walk st d i base 1 = Inr v" using base_walk_avoids [OF inv xb(3), of i 1] by blast
      show ?thesis
      proof (cases v)
        case False
        then show ?thesis using since xb(1) loc(1) base hdr full v by (auto simp: reencode_as_delta_def)
      next
        case True
        obtain c1 where get1: "chunk_get env d i st = (Inr x, st\<lparr>cs_cache := c1\<rparr>)"
          and s1: "chunk_since env (st\<lparr>cs_cache := c1\<rparr>) d m g0 d0 opts"
          using chunk_resolve_since [OF since, of VerifyBoundary i] xb(2) by (auto simp: chunk_get_def)
        obtain c2 where get2: "chunk_get env d base (st\<lparr>cs_cache := c1\<rparr>) = (Inr b, st\<lparr>cs_cache := c2\<rparr>)"
          and s2: "chunk_since env (st\<lparr>cs_cache := c2\<rparr>) d m g0 d0 opts"
          using chunk_resolve_since [OF s1, of VerifyBoundary base] xb(3) by (auto simp: chunk_get_def)
        let ?st = "st\<lparr>cs_cache := c2\<rparr>"
        note before = xb(1) loc(1) base hdr full v True get1 get2
        show ?thesis
        proof (cases "se_encode_with env x b (co_zstd_level (cs_opts st))")
          case None
          then show ?thesis using before s2 by (auto simp: reencode_as_delta_def)
        next
          case (Some z)
          show ?thesis
          proof (cases "unat (rh_stored_len current) \<le> 32 + length z")
            case True
            then show ?thesis using before s2 Some by (auto simp: reencode_as_delta_def Let_def)
          next
            case win: False
            have inv2: "chunk_inv env ?st d m g" by (rule chunk_inv_cong [OF inv]) simp_all
            have room: "ap_len (cs_active ?st) < 2 ^ 63" "co_seal_threshold (cs_opts ?st) \<le> 2 ^ 63"
              using s2 by (auto simp: chunk_since_def)
            have walk: "base_walk ?st d i base 1 = Inr True"
              using v True base_walk_cong [of ?st st d i base 1] by simp
            from reencode_record [OF env inv2 room _ full xb(2,3) walk Some _] cur win obtain st' d' g' where
              app: "append_record env \<lparr>rh_id = i, rh_encoding = ENC_DELTA, rh_orig_len = rh_orig_len current,
                rh_stored_len = of_nat (32 + length z)\<rparr> (base @ z) ?st d = (Inr (), st', d')"
              and post: "chunk_inv env st' d' m g'" "grown g d g' d'" "cs_cache st' = cs_cache ?st"
                "cs_opts st' = cs_opts ?st" "ap_len (cs_active st') < 2 ^ 63" by auto
            let ?cn = "cs_counters st'"
            let ?st' = "st'\<lparr>cs_counters := ?cn\<lparr>cn_lineage_deltas := cn_lineage_deltas ?cn + 1,
              cn_bytes_superseded := cn_bytes_superseded ?cn + REC_HEADER_LEN + unat (rh_stored_len current)\<rparr>\<rparr>"
            have run: "reencode_as_delta env i base st d = (Inr True, ?st', d')"
              using before Some win app by (simp add: reencode_as_delta_def Let_def)
            have "chunk_inv env ?st' d' m g'" by (rule chunk_inv_cong [OF post(1)]) simp_all
            moreover have "grown g0 d0 g' d'" by (rule grown_trans [OF g post(2)])
            ultimately have "chunk_since env ?st' d' m g0 d0 opts"
              using s2 post(3,4,5) unfolding chunk_since_def by auto
            with run show ?thesis by blast
          qed
        qed
      qed
    qed
  qed
qed

end
