(* ===== verification/Chunk_Disk.thy ===== *)
theory Chunk_Disk
  imports Chunk_Ops
begin

text \<open>
  The chunk store and its files: loading them, also when the last append was cut short, rewinding to a
  checkpoint and compaction, and the promise of the whole store over any run of its operations.
\<close>

section \<open>Loading\<close>

lemma load_sealed_packs:
  assumes "\<forall>(s, qs) \<in> set xs. bt_get (cd_packs d) s = Some (pack_file qs) \<and>
      (\<exists>b es. bt_get (cd_idxs d) s = Some b \<and> altidx_read b = Inr es)"
    and "sorted_wrt (<) (map fst sealed @ map fst xs)"
  shows "load_sealed env (map fst xs) sealed index d =
    (Inr (sealed @ map (\<lambda>(s, qs). (s, pack_file qs)) xs, fold (\<lambda>(s, _). index_pack s (idx_of d s)) xs index), d)"
  using assms
proof (induction xs arbitrary: sealed index)
  case (Cons x xs)
  obtain s qs where x: "x = (s, qs)" by (cases x)
  obtain b es where pk: "bt_get (cd_packs d) s = Some (pack_file qs)" and ix: "bt_get (cd_idxs d) s = Some b" "altidx_read b = Inr es"
    using Cons.prems(1) x by auto
  have "sealed_entries env s (pack_file qs) d = (Inr (idx_of d s), d)"
    using ix by (simp add: sealed_entries_def idx_of_def)
  moreover have "bt_insert s (pack_file qs) sealed = sealed @ [(s, pack_file qs)]"
    using Cons.prems(2) x by (intro bt_insert_last) (auto simp: sorted_wrt_append)
  moreover have "check_altp_header (pack_file qs) = Inr ()" by (simp add: pack_file_def)
  ultimately show ?case
    using pk x Cons.IH [of "sealed @ [(s, pack_file qs)]"] Cons.prems by simp
qed simp

lemma disk_holds_get:
  assumes "disk_holds d olds seq rs" and "(s, qs) \<in> set (olds @ [(seq, rs)])"
  shows "bt_get (cd_packs d) s = Some (pack_file qs)"
proof -
  have "distinct (map fst (cd_packs d))"
    using assms(1) by (auto simp: disk_holds_def case_prod_unfold comp_def strict_sorted_iff)
  moreover have "(s, pack_file qs) \<in> set (cd_packs d)" using assms by (auto simp: disk_holds_def)
  ultimately show ?thesis by simp
qed

lemma no_record_Nil [simp]: "no_record []"
  by (simp add: no_record_def scan_records.simps REC_HEADER_LEN_def)

lemma put_pack_back:
  assumes "disk_holds d olds seq rs"
  shows "put_pack seq (pack_file rs) (put_pack seq f d) = d"
  using assms bt_insert_end(1) [OF disk_holds_active(4) [OF assms]]
  by (simp add: put_pack_def disk_holds_def)

lemma put_pack_same:
  assumes "disk_holds d olds seq rs"
  shows "put_pack seq (pack_file rs) d = d"
  using assms bt_insert_end(1) [OF disk_holds_active(4) [OF assms]] by (simp add: put_pack_def disk_holds_def)

text \<open>The directory after a crash in an append: the active pack has a tail in which no record starts.\<close>

lemma chunk_load_torn:
  assumes dh: "disk_holds d olds seq rs" and t: "no_record t"
  shows "chunk_load env (put_pack seq (pack_file rs @ t) d) =
    (Inr (map (\<lambda>(s, qs). (s, pack_file qs)) olds,
          \<lparr>ap_seq = seq, ap_len = length (pack_file rs), ap_entries = entries_of rs\<rparr>, disk_view d olds seq rs),
     if t = [] then d else sync_pack seq d)"
proof -
  let ?d = "put_pack seq (pack_file rs @ t) d"
  have packs: "cd_packs ?d = map (\<lambda>(s, qs). (s, pack_file qs)) olds @ [(seq, pack_file rs @ t)]"
    using dh bt_insert_end(1) [OF disk_holds_active(4) [OF dh]] by (simp add: put_pack_def disk_holds_def)
  have seqs: "list_pack_seqs ?d = map fst olds @ [seq]"
    by (simp add: list_pack_seqs_def packs case_prod_unfold comp_def)
  have srt: "sorted_wrt (<) (map fst (olds @ [(seq, rs)]))" using dh by (simp add: disk_holds_def)
  have get: "bt_get (cd_packs ?d) s = Some (pack_file qs)" if "(s, qs) \<in> set olds" for s qs
  proof -
    have "bt_ok (cd_packs d)" using dh by (auto simp: disk_holds_def bt_ok_def case_prod_unfold comp_def)
    moreover have "s \<noteq> seq" using that disk_holds_active(2) [OF dh] by force
    ultimately show ?thesis using disk_holds_get [OF dh, of s qs] that by (simp add: put_pack_def)
  qed
  have idxs: "idx_of ?d s = idx_of d s" for s by simp
  have "load_sealed env (map fst olds) [] [] ?d =
      (Inr (map (\<lambda>(s, qs). (s, pack_file qs)) olds, sealed_view d olds), ?d)"
  proof -
    have "\<forall>(s, qs) \<in> set olds. bt_get (cd_packs ?d) s = Some (pack_file qs) \<and>
      (\<exists>b es. bt_get (cd_idxs ?d) s = Some b \<and> altidx_read b = Inr es)"
      using get sealed_idxs [OF dh] by (fastforce simp: put_pack_def)
    then show ?thesis
      using load_sealed_packs [of olds ?d "[]" env "[]"] srt by (simp add: sealed_view_def sorted_wrt_append)
  qed
  moreover have "open_active seq False ?d =
      (Inr \<lparr>ap_seq = seq, ap_len = length (pack_file rs), ap_entries = entries_of rs\<rparr>, if t = [] then d else sync_pack seq d)"
  proof -
    have "seq \<notin> fst ` set (map (\<lambda>(s, qs). (s, pack_file qs)) olds)" using disk_holds_active(4) [OF dh] by blast
    then have "map_of (map (\<lambda>(s, qs). (s, pack_file qs)) olds) seq = None" by (simp only: map_of_eq_None_iff not_False_eq_True)
    then have "bt_get (cd_packs ?d) seq = Some (pack_file rs @ t)" by (simp add: packs map_add_def)
    moreover have "altpack_scan (pack_file rs @ t) = Inr (rec_offsets ALTP_HEADER_LEN rs, length (pack_file rs))"
      by (rule altpack_scan_file [OF disk_holds_active(3) [OF dh] t])
    moreover have "\<not> length (pack_file rs @ t) < ALTP_HEADER_LEN" "length (pack_file rs) \<noteq> 0"
      using trans_le_add1 [OF pack_file_nonempty(2), of rs "length t"] by (simp_all add: not_less)
    moreover have "t = [] \<Longrightarrow> ?d = d" using put_pack_same [OF dh] by simp
    ultimately show ?thesis
      using put_pack_back [OF dh] entries_of_scan [of rs] by (auto simp: open_active_def Let_def)
  qed
  ultimately show ?thesis
    by (simp add: chunk_load_def Let_def seqs disk_view_def)
qed

lemma chunk_load_holds:
  "disk_holds d olds seq rs \<Longrightarrow> chunk_load env d =
    (Inr (map (\<lambda>(s, qs). (s, pack_file qs)) olds,
          \<lparr>ap_seq = seq, ap_len = length (pack_file rs), ap_entries = entries_of rs\<rparr>, disk_view d olds seq rs), d)"
proof -
  assume dh: "disk_holds d olds seq rs"
  have "put_pack seq (pack_file rs @ []) d = d" using put_pack_same [OF dh] by simp
  then show ?thesis using chunk_load_torn [OF dh no_record_Nil, of env] by simp
qed

lemma sealed_view_distinct: "distinct (map fst (sealed_view d olds))"
proof -
  have "distinct (map fst ix) \<Longrightarrow> distinct (map fst (fold (\<lambda>(s, _). index_pack s (idx_of d s)) olds ix))" for ix
    by (induction olds arbitrary: ix) (auto intro: distinct_index_pack)
  then show ?thesis by (simp add: sealed_view_def)
qed

lemma chunk_inv_disk_cong:
  assumes "chunk_inv env st d m g" and "cd_packs d' = cd_packs d" and "cd_idxs d' = cd_idxs d"
  shows "chunk_inv env st d' m g"
proof -
  have "idx_of d' = idx_of d" using assms(3) by (auto simp: idx_of_def)
  then show ?thesis using assms by (simp add: chunk_inv_def disk_holds_def view_recs_def disk_view_def sealed_view_def)
qed

text \<open>The index a reload arrives at serves as well as the one the store had.\<close>

lemma chunk_inv_reload:
  assumes inv: "chunk_inv env st d m g"
    and st': "cs_sealed st' = cs_sealed st" "cs_active st' = cs_active st"
      "cs_index st' = disk_view d (cg_olds g) (cg_seq g) (cg_recs g)"
  shows "chunk_inv env st' d m g"
proof -
  let ?recs = "index_recs (packs_of g) (cs_index st)" and ?V = "view_recs d g"
  have co: "content_ok env m ?recs" and vo: "view_ok env m ?recs ?V"
    and ao: "active_ok env m ?recs (cs_index st) (cg_seq g) (cg_recs g)"
    using inv by (simp_all add: chunk_inv_def)
  have recs': "index_recs (packs_of g) (cs_index st') = ?V" by (simp add: st' view_recs_def)
  have pick: "?V j = ?recs j \<or> chunk_stored env ?V j y" if "chunk_stored env ?recs j y" for j y
  proof -
    have "?recs j \<noteq> None" using that by (auto elim: stored_cases)
    then have "?V j \<noteq> None" using vo by (simp add: view_ok_def)
    then obtain r where r: "?V j = Some r" by blast
    then have "rh_id (fst r) = j" "rec_good env m ?recs r" using vo unfolding view_ok_def by blast+
    moreover have "m j = Some y" by (rule content_stored [OF co that])
    ultimately show ?thesis using r stored_full [of ?V j r env y] by (auto simp: rec_good_def full_of_def)
  qed
  have "content_ok env m ?V"
    using co vo stored_transfer [OF pick] by (auto simp: content_ok_def view_ok_def)
  moreover have "view_ok env m ?V ?V" using vo by (auto simp: view_ok_def rec_good_def)
  moreover have "active_ok env m ?V (cs_index st') (cg_seq g) (cg_recs g)"
  proof -
    have last: "map_of (cs_index st') i = Some (cg_seq g, off)" if "map_of (rev (entries_of (cg_recs g))) i = Some off" for i off
      using that by (simp add: st' disk_view_def map_of_index_pack)
    have "rec_good env m ?V r" if mem: "(off, r) \<in> set (recs_at ALTP_HEADER_LEN (cg_recs g))" for off r
    proof -
      let ?i = "rh_id (fst r)"
      have "(?i, off) \<in> set (entries_of (cg_recs g))" unfolding entries_of_mem using mem by blast
      then have "?i \<in> fst ` set (rev (entries_of (cg_recs g)))" by (auto intro: rev_image_eqI)
      then have "map_of (rev (entries_of (cg_recs g))) ?i \<noteq> None" by (simp only: map_of_eq_None_iff not_not simp_thms)
      then obtain o' where o': "map_of (rev (entries_of (cg_recs g))) ?i = Some o'" by blast
      then have "map_of (cs_index st) ?i = map_of (cs_index st') ?i" using ao last by (simp add: active_ok_def)
      then have "?V ?i = ?recs ?i" unfolding recs' [symmetric] by (simp add: index_recs_def)
      moreover have "rec_good env m ?recs r" using ao mem by (auto simp: active_ok_def)
      ultimately show ?thesis by (simp add: rec_good_def)
    qed
    with last show ?thesis by (auto simp: active_ok_def)
  qed
  moreover have "distinct (map fst (cs_index st'))"
    by (simp add: st' disk_view_def distinct_index_pack sealed_view_distinct)
  ultimately show ?thesis
    using inv st' recs' by (simp add: chunk_inv_def store_on_def view_recs_def)
qed

section \<open>Opening, rewinding\<close>

lemma cache_ok_new [simp]: "chunk_cache_ok m delta_cache_new"
  by (simp add: chunk_cache_ok_def delta_cache_new_def)

lemma chunk_open_torn:
  assumes holds: "chunk_holds env st d m" and t: "no_record t" and opts: "co_seal_threshold opts \<le> 2 ^ 63"
  shows "\<exists>st' d'. chunk_open env opts (put_pack (ap_seq (cs_active st)) (pack_bytes_of d (ap_seq (cs_active st)) @ t) d) = (Inr st', d') \<and>
    chunk_holds env st' d' m \<and> cs_opts st' = opts \<and> d' = (if t = [] then d else sync_pack (ap_seq (cs_active st)) d)"
proof -
  obtain g where inv: "chunk_inv env st d m g" using holds by (auto simp: chunk_holds_def)
  have dh: "disk_holds d (cg_olds g) (cg_seq g) (cg_recs g)" and so: "store_on st (cg_olds g) (cg_seq g) (cg_recs g)"
    using inv by (auto simp: chunk_inv_def)
  let ?st = "\<lparr>cs_opts = opts, cs_sealed = cs_sealed st, cs_active = cs_active st,
    cs_index = disk_view d (cg_olds g) (cg_seq g) (cg_recs g), cs_counters = counters_default, cs_cache = delta_cache_new\<rparr>"
  let ?d = "if t = [] then d else sync_pack (cg_seq g) d"
  have a: "ap_seq (cs_active st) = cg_seq g" "pack_bytes_of d (cg_seq g) = pack_file (cg_recs g)"
    using so disk_holds_active(1) [OF dh] by (simp_all add: store_on_def)
  have "chunk_open env opts (put_pack (cg_seq g) (pack_file (cg_recs g) @ t) d) = (Inr ?st, ?d)"
    using chunk_load_torn [OF dh t, of env] so by (simp add: chunk_open_def store_on_def)
  moreover have "chunk_inv env ?st d m g" by (rule chunk_inv_reload [OF inv]) simp_all
  then have "chunk_inv env ?st ?d m g" by (rule chunk_inv_disk_cong) (simp_all add: sync_pack_def)
  then have "chunk_holds env ?st ?d m" using holds opts by (auto simp: chunk_holds_def)
  ultimately show ?thesis by (intro exI [of _ ?st] exI [of _ ?d]) (simp add: a)
qed

lemma chunk_sync_since:
  assumes "chunk_since env st d m g0 d0 opts"
  shows "chunk_sync_from_disk env st d = (Inr (), st, d)"
proof -
  obtain g where inv: "chunk_inv env st d m g" "grown g0 d0 g d" using assms by (auto simp: chunk_since_def)
  have dh: "disk_holds d (cg_olds g) (cg_seq g) (cg_recs g)" and so: "store_on st (cg_olds g) (cg_seq g) (cg_recs g)"
    using inv by (auto simp: chunk_inv_def)
  have seqs: "list_pack_seqs d = map fst (cs_sealed st) @ [ap_seq (cs_active st)]"
    using dh so by (simp add: list_pack_seqs_def disk_holds_def store_on_def)
  moreover have "sorted (list_pack_seqs d)"
    using dh by (auto simp: list_pack_seqs_def disk_holds_def case_prod_unfold comp_def strict_sorted_iff)
  ultimately have "sort (map fst (cs_sealed st) @ [ap_seq (cs_active st)]) = list_pack_seqs d" by (metis sorted_sort_id)
  then have "\<not> disk_changed st d"
    using so disk_holds_active(1) [OF dh] by (simp add: disk_changed_def store_on_def)
  then show ?thesis by (simp add: chunk_sync_from_disk_def)
qed

lemma chunk_rewind_since:
  assumes inv0: "chunk_inv env st0 d0 m0 g0" and room0: "ap_len (cs_active st0) < 2 ^ 63"
    and since: "chunk_since env st d m g0 d0 opts"
    and same: "ap_seq (cs_active st) = ap_seq (cs_active st0)"
  shows "\<exists>st' d'. chunk_rewind env (chunk_checkpoint_of st0) st d = (Inr (), st', d') \<and> chunk_holds env st' d' m0 \<and>
    cd_packs d' = cd_packs d0"
proof -
  obtain g where inv: "chunk_inv env st d m g" and gr: "grown g0 d0 g d" using since by (auto simp: chunk_since_def)
  have dh0: "disk_holds d0 (cg_olds g0) (cg_seq g0) (cg_recs g0)" and so0: "store_on st0 (cg_olds g0) (cg_seq g0) (cg_recs g0)"
    using inv0 by (auto simp: chunk_inv_def)
  have dh: "disk_holds d (cg_olds g) (cg_seq g) (cg_recs g)" and so: "store_on st (cg_olds g) (cg_seq g) (cg_recs g)"
    using inv by (auto simp: chunk_inv_def)
  have seq: "cg_seq g = cg_seq g0" using same so so0 by (simp add: store_on_def)
  with gr obtain rs where g: "cg_olds g = cg_olds g0" "cg_recs g = cg_recs g0 @ rs" "cd_idxs d = cd_idxs d0"
    by (auto simp: grown_def)
  let ?seq = "cg_seq g0" and ?f0 = "pack_file (cg_recs g0)"
  have f: "pack_bytes_of d ?seq = ?f0 @ recs_bytes rs"
    using disk_holds_active(1) [OF dh] seq g(2) by (simp add: pack_file_def)
  let ?d1 = "sync_pack ?seq (put_pack ?seq ?f0 d)"
  have packs: "cd_packs ?d1 = cd_packs d0"
    using dh dh0 bt_insert_end(1) [OF disk_holds_active(4) [OF dh]] seq g(1)
    by (simp add: sync_pack_def put_pack_def disk_holds_def)
  have idxs: "cd_idxs ?d1 = cd_idxs d0" using g(3) by (simp add: sync_pack_def put_pack_def)
  have inv1: "chunk_inv env st0 ?d1 m0 g0" by (rule chunk_inv_disk_cong [OF inv0 packs idxs])
  then have dh1: "disk_holds ?d1 (cg_olds g0) ?seq (cg_recs g0)" by (simp add: chunk_inv_def)
  let ?st = "st\<lparr>cs_sealed := cs_sealed st0, cs_active := cs_active st0, cs_index := disk_view ?d1 (cg_olds g0) ?seq (cg_recs g0),
    cs_cache := delta_cache_new\<rparr>"
  have run: "chunk_rewind env (chunk_checkpoint_of st0) st d = (Inr (), ?st, ?d1)"
    using so so0 seq g f pack_file_nonempty(2) [of "cg_recs g0"] chunk_load_holds [OF dh1, of env]
    by (simp add: chunk_rewind_def chunk_checkpoint_of_def store_on_def set_pack_len_def Let_def pack_file_def not_less)
  moreover have "chunk_inv env ?st ?d1 m0 g0" by (rule chunk_inv_reload [OF inv1]) simp_all
  then have "chunk_holds env ?st ?d1 m0" using since room0 by (auto simp: chunk_holds_def chunk_since_def)
  ultimately show ?thesis using packs by blast
qed

section \<open>Compaction\<close>

lemma disk_fields [simp]:
  "cd_packs (sync_pack s d) = cd_packs d" "cd_idxs (sync_pack s d) = cd_idxs d"
  "cd_packs (put_pack s f d) = bt_insert s f (cd_packs d)" "cd_idxs (put_pack s f d) = cd_idxs d"
  "cd_packs (put_idx s f d) = cd_packs d" "cd_idxs (put_idx s f d) = bt_insert s f (cd_idxs d)"
  by (simp_all add: sync_pack_def put_pack_def put_idx_def)

lemma copy_live_recs:
  assumes "\<forall>(i, loc) \<in> set live. rec_at st d loc = Some (f i)" and "\<forall>(i, loc) \<in> set live. rh_id (fst (f i)) = i"
  shows "copy_live st d live out =
    Inr (out @ recs_bytes (map (f \<circ> fst) live),
         map (\<lambda>(off, r). (rh_id (fst r), off)) (recs_at (length out) (map (f \<circ> fst) live)))"
  using assms
proof (induction live arbitrary: out)
  case (Cons x live)
  obtain i loc where x: "x = (i, loc)" by (cases x)
  obtain hdr p where f: "f i = (hdr, p)" by (cases "f i")
  have "read_record st d i loc = Inr (hdr, p)" using Cons.prems(1) x f read_record_rec by auto
  moreover have "rh_id hdr = i" using Cons.prems(2) x f by auto
  ultimately show ?case
    using x f Cons.IH [of "out @ rh_encode hdr @ p"] Cons.prems
    by (simp add: rec_bytes_def)
qed simp

lemma fold_bt_remove: "fold bt_remove ks m = filter (\<lambda>(k, _). k \<notin> set ks) m"
  by (induction ks arbitrary: m) (auto simp: bt_remove_def case_prod_unfold intro!: filter_cong)

lemma map_of_same_set:
  assumes "distinct (map fst xs)" and "distinct (map fst ys)" and "set xs = set ys"
  shows "map_of xs = map_of ys"
  using assms map_of_inject_set by blast

lemma map_of_located: "map_of (map (\<lambda>(i, off). (i, (s, off))) es) i = map_option (Pair s) (map_of es i)"
  by (induction es) auto

lemma rec_at_sync [simp]: "rec_at st (sync_pack s d) loc = rec_at st d loc"
  by (simp add: rec_at_def seq_bytes_def sync_pack_def pack_bytes_of_def)

lemma index_recs_id: "index_recs packs index i = Some r \<Longrightarrow> index_ok packs index \<Longrightarrow> rh_id (fst r) = i"
  unfolding index_ok_def index_recs_def by (fastforce split: option.splits)

lemma view_ok_refl: "index_ok packs index \<Longrightarrow> view_ok env m (index_recs packs index) (index_recs packs index)"
  unfolding view_ok_def rec_good_def using index_recs_id by metis

text \<open>The records of the compacted pack, and how the new index finds them.\<close>

lemma compacted_recs:
  fixes index :: chunk_index
  assumes io: "index_ok packs index" and dist: "distinct (map fst index)"
    and live: "set live = set index" "distinct (map fst live)"
    and rs: "rs = map ((\<lambda>i. the (index_recs packs index i)) \<circ> fst) live" and ok: "list_all rec_ok rs"
    and packs': "find_rec packs' = (\<lambda>(s', off). if s' = s then map_of (recs_at ALTP_HEADER_LEN rs) off else None)"
    and new: "\<And>i. map_of index' i = map_option (Pair s) (map_of (entries_of rs) i)"
  shows "distinct (map fst (entries_of rs))" "index_ok packs' index'" "index_recs packs' index' = index_recs packs index"
proof -
  let ?recs = "index_recs packs index"
  have recs: "\<exists>r. ?recs i = Some r \<and> rh_id (fst r) = i" if "(i, loc) \<in> set live" for i loc
  proof -
    from that have "map_of index i = Some loc" using live(1) dist by simp
    moreover from this obtain r where "find_rec packs loc = Some r" "rh_id (fst r) = i"
      using io unfolding index_ok_def by blast
    ultimately show ?thesis by (simp add: index_recs_def)
  qed
  have ids: "map (\<lambda>r. rh_id (fst r)) rs = map fst live"
    using recs by (fastforce simp: rs comp_def)
  have fsts: "map fst (entries_of rs) = map fst live"
  proof -
    have "map fst (map (\<lambda>(off, r). (rh_id (fst r), off)) (recs_at at rs)) = map (\<lambda>r. rh_id (fst r)) rs" for at
      by (induction rs arbitrary: at) auto
    then show ?thesis using ids by (simp add: entries_of_def)
  qed
  then show d: "distinct (map fst (entries_of rs))" using live(2) by simp
  have pick: "\<exists>r. find_rec packs' (s, off) = Some r \<and> rh_id (fst r) = i \<and> ?recs i = Some r"
    if "map_of (entries_of rs) i = Some off" for i off
  proof -
    from that have "(i, off) \<in> set (entries_of rs)" by (rule map_of_SomeD)
    then obtain r where r: "(off, r) \<in> set (recs_at ALTP_HEADER_LEN rs)" "rh_id (fst r) = i" unfolding entries_of_mem by blast
    have "r \<in> set rs"
    proof -
      have "r \<in> set qs" if "(off, r) \<in> set (recs_at at qs)" for at and qs :: "chunk_rec list"
        using that by (induction qs arbitrary: at) auto
      then show ?thesis using r(1) by blast
    qed
    then obtain j loc where j: "(j, loc) \<in> set live" "r = the (?recs j)" by (auto simp: rs)
    from recs [OF j(1)] j(2) r(2) have "?recs i = Some r" by auto
    moreover have "find_rec packs' (s, off) = Some r" using r(1) recs_at_distinct [OF ok] by (simp add: packs')
    ultimately show ?thesis using r(2) by blast
  qed
  show "index_ok packs' index'"
    unfolding index_ok_def using pick by (auto simp: new simp del: split_paired_Ex)
  show "index_recs packs' index' = ?recs"
  proof
    fix i
    show "index_recs packs' index' i = ?recs i"
    proof (cases "map_of (entries_of rs) i")
      case None
      then have "i \<notin> fst ` set live" using fsts by (metis list.set_map map_of_eq_None_iff)
      then have "map_of index i = None" using live(1) by (simp add: map_of_eq_None_iff)
      then show ?thesis by (simp add: index_recs_def new None)
    next
      case (Some off)
      with pick [OF Some] show ?thesis by (auto simp: index_recs_def [of packs'] new)
    qed
  qed
qed

text \<open>The compacted pack must fit the offsets of its index.\<close>

definition compacts_small :: "chunk_store \<Rightarrow> chunk_disk \<Rightarrow> bool" where
  "compacts_small st d \<longleftrightarrow>
     (case copy_live st d (sort_key snd (cs_index st)) altp_file_header of
        Inl _ \<Rightarrow> True | Inr (merged, entries) \<Rightarrow> length merged < 2 ^ 64)"

lemma chunk_compact_inv:
  assumes env: "env_ok env" and inv: "chunk_inv env st d m g" and small: "compacts_small st d"
  shows "\<exists>report st' d' g'. chunk_compact env st d = (Inr report, st', d') \<and> chunk_inv env st' d' m g' \<and>
    cg_seq g < cg_seq g' \<and> cs_cache st' = cs_cache st \<and> cs_opts st' = cs_opts st \<and>
    ap_len (cs_active st') = ALTP_HEADER_LEN \<and> cr_records report = length (cs_index st) \<and> cr_packs_after report = 2"
proof -
  let ?index = "cs_index st" and ?recs = "index_recs (packs_of g) (cs_index st)" and ?seq = "cg_seq g"
  let ?live = "sort_key snd ?index" and ?s = "?seq + 1"
  let ?rs = "map ((\<lambda>i. the (?recs i)) \<circ> fst) ?live"
  let ?files = "map (\<lambda>(s, rs). (s, pack_file rs))"
  have dh: "disk_holds d (cg_olds g) ?seq (cg_recs g)" and so: "store_on st (cg_olds g) ?seq (cg_recs g)"
    and io: "index_ok (packs_of g) ?index" and dist: "distinct (map fst ?index)"
    using inv by (auto simp: chunk_inv_def)
  have live: "set ?live = set ?index" by simp
  have "mset (map fst ?live) = mset (map fst ?index)" by simp
  then have live_dist: "distinct (map fst ?live)" using dist mset_eq_imp_distinct_iff by blast
  have some: "\<exists>r. ?recs i = Some r \<and> find_rec (packs_of g) loc = Some r \<and> rh_id (fst r) = i" if "(i, loc) \<in> set ?live" for i loc
  proof -
    from that have "map_of ?index i = Some loc" using dist by simp
    moreover from this obtain r where "find_rec (packs_of g) loc = Some r" "rh_id (fst r) = i" using io unfolding index_ok_def by blast
    ultimately show ?thesis by (simp add: index_recs_def)
  qed
  have ok_rec: "rec_ok r" if "find_rec (packs_of g) loc = Some r" for loc r
  proof -
    obtain s off where "loc = (s, off)" by (cases loc)
    with that obtain qs where "(s, qs) \<in> set (packs_of g)" "(off, r) \<in> set (recs_at ALTP_HEADER_LEN qs)"
      by (blast elim: find_rec_mem)
    moreover from this have "list_all rec_ok qs" using dh by (auto simp: disk_holds_def packs_of_def)
    ultimately show ?thesis using recs_at_ok by blast
  qed
  have ok: "list_all rec_ok ?rs" using some ok_rec by (fastforce simp: list_all_iff)
  have copied: "copy_live st d' ?live altp_file_header = Inr (pack_file ?rs, entries_of ?rs)" if "\<And>loc. rec_at st d' loc = rec_at st d loc" for d'
  proof -
    have "\<forall>(i, loc) \<in> set ?live. rec_at st d' loc = Some (the (?recs i))" "\<forall>(i, loc) \<in> set ?live. rh_id (fst (the (?recs i))) = i"
      using some rec_at_find [OF dh so] that by (fastforce simp: packs_of_def)+
    from copy_live_recs [OF this, of altp_file_header] show ?thesis by (simp add: pack_file_def entries_of_def)
  qed
  have room: "length (pack_file ?rs) < 2 ^ 64" using small copied [of d] by (simp add: compacts_small_def)
  note idx = altidx_usort [OF env entries_idx_ok [OF ok room]]
  let ?b = "altidx_write (se_usort env) (entries_of ?rs)"
  let ?d0 = "sync_pack ?seq d"
  let ?d1 = "sync_pack ?s (put_pack ?s (pack_file ?rs) (put_idx ?s ?b ?d0))"
  let ?d2 = "sync_pack (?s + 1) (put_pack (?s + 1) altp_file_header ?d1)"
  let ?old = "map fst (packs_of g)"
  let ?d3 = "?d2\<lparr>cd_packs := fold bt_remove ?old (cd_packs ?d2), cd_idxs := fold bt_remove ?old (cd_idxs ?d2)\<rparr>"
  let ?a = "\<lparr>ap_seq = ?s + 1, ap_len = ALTP_HEADER_LEN, ap_entries = []\<rparr>"
  let ?index' = "map (\<lambda>(i, off). (i, (?s, off))) (entries_of ?rs)"
  let ?st = "st\<lparr>cs_sealed := [(?s, pack_file ?rs)], cs_index := ?index', cs_active := ?a,
    cs_counters := (cs_counters st)\<lparr>cn_bytes_superseded := 0\<rparr>\<rparr>"
  let ?g = "\<lparr>cg_olds = [(?s, ?rs)], cg_seq = ?s + 1, cg_recs = []\<rparr>"
  have below: "\<forall>k \<in> set ?old. k \<le> ?seq" "?seq \<in> set ?old"
    using disk_holds_active(4) [OF dh] by (auto simp: packs_of_def intro: less_imp_le)
  have packs: "cd_packs d = ?files (packs_of g)" using dh by (simp add: disk_holds_def packs_of_def)
  have seqs: "list_pack_seqs ?d0 = ?old" by (simp add: list_pack_seqs_def sync_pack_def packs case_prod_unfold comp_def)
  have max: "Max (set ?old) = ?seq" by (rule Max_eqI) (use below in auto)
  have packs1: "cd_packs ?d1 = ?files (packs_of g) @ [(?s, pack_file ?rs)]"
  proof -
    have "\<forall>k \<in> fst ` set (?files (packs_of g)). k < ?s" using below(1) by (auto simp: case_prod_unfold)
    from bt_insert_last [OF this] show ?thesis by (simp add: packs)
  qed
  have packs2: "cd_packs ?d2 = ?files (packs_of g) @ [(?s, pack_file ?rs), (?s + 1, altp_file_header)]"
  proof -
    have "\<forall>k \<in> fst ` set (?files (packs_of g) @ [(?s, pack_file ?rs)]). k < ?s + 1"
      using below(1) by (auto simp: case_prod_unfold)
    from bt_insert_last [OF this] show ?thesis using packs1 by simp
  qed
  have packs3: "cd_packs ?d3 = [(?s, pack_file ?rs), (?s + 1, altp_file_header)]"
  proof -
    have "filter (\<lambda>(k, _). k \<notin> set ?old) (?files (packs_of g)) = []" by (force simp: filter_empty_conv)
    moreover have "?s \<notin> set ?old" "?s + 1 \<notin> set ?old" using below(1) by auto
    ultimately show ?thesis using packs2 by (simp add: fold_bt_remove)
  qed
  have bt: "bt_ok (cd_idxs d)" using dh by (simp add: disk_holds_def)
  have idxs3: "bt_ok (cd_idxs ?d3)" "bt_get (cd_idxs ?d3) ?s = Some ?b"
  proof -
    have "bt_ok (bt_insert ?s ?b (cd_idxs d))" using bt by simp
    then show ok3: "bt_ok (cd_idxs ?d3)" by (simp add: fold_bt_remove bt_ok_filter del: bt_ok_insert)
    have "(?s, ?b) \<in> set (bt_insert ?s ?b (cd_idxs d))" using bt by (simp add: map_of_SomeD)
    moreover have "?s \<notin> set ?old" using below(1) by auto
    ultimately have "(?s, ?b) \<in> set (cd_idxs ?d3)" by (simp add: fold_bt_remove)
    then show "bt_get (cd_idxs ?d3) ?s = Some ?b" using ok3 by (simp add: bt_ok_distinct)
  qed
  have opened: "open_active (?s + 1) True ?d1 = (Inr ?a, ?d2)"
  proof -
    have "bt_get (cd_packs ?d1) (?s + 1) = None"
      unfolding packs1 using below(1) by (auto simp: map_of_eq_None_iff case_prod_unfold)
    then show ?thesis by (simp add: open_active_def Let_def)
  qed
  have act: "ap_seq (cs_active st) = ?seq" using so by (simp add: store_on_def)
  have run: "\<exists>report. chunk_compact env st d = (Inr report, ?st, ?d3) \<and> cr_records report = length ?index \<and> cr_packs_after report = 2"
  proof -
    have comp: "copy_live st ?d0 ?live altp_file_header = Inr (pack_file ?rs, entries_of ?rs)" by (rule copied) simp
    have "old_seqs \<noteq> []" if "old_seqs = ?old" for old_seqs using that by (simp add: packs_of_def)
    moreover have "length (entries_of ?rs) = length ?index" by (simp add: entries_of_def)
    moreover have "length (list_pack_seqs ?d3) = 2" unfolding list_pack_seqs_def packs3 by simp
    ultimately show ?thesis
      using comp opened seqs max act
      by (simp add: chunk_compact_def Let_def)
  qed
  have packs': "find_rec (packs_of ?g) = (\<lambda>(s', off). if s' = ?s then map_of (recs_at ALTP_HEADER_LEN ?rs) off else None)"
    by (auto simp: find_rec_def packs_of_def fun_eq_iff)
  note new = compacted_recs [OF io dist live live_dist refl ok packs' map_of_located]
  have usorted: "map_of (rev (se_usort env (entries_of ?rs))) = map_of (entries_of ?rs)"
  proof (rule map_of_same_set)
    have "mset (se_usort env (entries_of ?rs)) = mset (entries_of ?rs)" using env by (simp add: env_ok_def)
    then have "mset (map fst (se_usort env (entries_of ?rs))) = mset (map fst (entries_of ?rs))"
      unfolding mset_map by (rule arg_cong)
    from mset_eq_imp_distinct_iff [OF this] new(1)
    show "distinct (map fst (rev (se_usort env (entries_of ?rs))))"
      unfolding rev_map [symmetric] distinct_rev by blast
  qed (use new(1) idx in simp_all)
  have "idx_of ?d3 ?s = se_usort env (entries_of ?rs)" unfolding idx_of_def using idxs3(2) idx(1) by simp
  then have view: "map_of (disk_view ?d3 (cg_olds ?g) (cg_seq ?g) (cg_recs ?g)) i = map_option (Pair ?s) (map_of (entries_of ?rs) i)" for i
    by (simp add: disk_view_def sealed_view_def map_of_index_pack entries_of_def [of "[]"] usorted split: option.split)
  note new_view = compacted_recs [OF io dist live live_dist refl ok packs' view]
  have inv3: "chunk_inv env ?st ?d3 m ?g"
    unfolding chunk_inv_def view_recs_def
  proof (intro conjI)
    show "disk_holds ?d3 (cg_olds ?g) (cg_seq ?g) (cg_recs ?g)"
      unfolding disk_holds_def using packs3 idxs3 ok idx by (simp add: pack_file_def)
    show "store_on ?st (cg_olds ?g) (cg_seq ?g) (cg_recs ?g)" by (simp add: store_on_def pack_file_def entries_of_def)
    show "distinct (map fst (cs_index ?st))" using new(1) by (simp add: comp_def case_prod_unfold)
    show "index_ok (packs_of ?g) (cs_index ?st)" using new(2) by simp
    show "index_ok (packs_of ?g) (disk_view ?d3 (cg_olds ?g) (cg_seq ?g) (cg_recs ?g))" by (rule new_view(2))
    show "content_ok env m (index_recs (packs_of ?g) (cs_index ?st))" using new(3) inv_content [OF inv] by simp
    show "view_ok env m (index_recs (packs_of ?g) (cs_index ?st))
        (index_recs (packs_of ?g) (disk_view ?d3 (cg_olds ?g) (cg_seq ?g) (cg_recs ?g)))"
      unfolding new_view(3) using new(3) view_ok_refl [OF io] by simp
    show "active_ok env m (index_recs (packs_of ?g) (cs_index ?st)) (cs_index ?st) (cg_seq ?g) (cg_recs ?g)"
      by (simp add: active_ok_def entries_of_def)
  qed
  obtain report where report: "chunk_compact env st d = (Inr report, ?st, ?d3)" "cr_records report = length ?index"
    "cr_packs_after report = 2" using run by blast
  have "cg_seq g < cg_seq ?g" "cs_cache ?st = cs_cache st" "cs_opts ?st = cs_opts st" "ap_len (cs_active ?st) = ALTP_HEADER_LEN"
    by simp_all
  with report inv3 show ?thesis by blast
qed

section \<open>Any run\<close>

type_synonym chunk_world = "chunk_store \<times> chunk_disk"

text \<open>
  What happens to a store and its directory: an operation of the process that holds it.  (That process
  ending in the middle of an append is the last part of \<open>chunk_store_refines\<close>.)
\<close>

inductive chunk_step :: "store_env \<Rightarrow> chunk_world \<Rightarrow> chunk_world \<Rightarrow> bool" for env where
  step_put: "chunk_put env x st d = (r, st', d') \<Longrightarrow> chunk_step env (st, d) (st', d')"
| step_get: "chunk_resolve env d verify i st = (r, st') \<Longrightarrow> chunk_step env (st, d) (st', d)"
| step_reencode: "reencode_as_delta env i base st d = (r, st', d') \<Longrightarrow> chunk_step env (st, d) (st', d')"
| step_compact: "compacts_small st d \<Longrightarrow> chunk_compact env st d = (r, st', d') \<Longrightarrow> chunk_step env (st, d) (st', d')"
| step_sync: "chunk_sync_from_disk env st d = (r, st', d') \<Longrightarrow> chunk_step env (st, d) (st', d')"
| step_flush: "chunk_step env (st, d) (st, chunk_flush relaxed st d)"

inductive chunk_run :: "store_env \<Rightarrow> chunk_world \<Rightarrow> chunk_world \<Rightarrow> bool" for env where
  run_none: "chunk_run env w w"
| run_more: "chunk_run env w w' \<Longrightarrow> chunk_step env w' w'' \<Longrightarrow> chunk_run env w w''"

inductive_cases chunk_step_cases: "chunk_step env (st, d) w"

text \<open>What a step may do to the content: nothing, or add one content under its hash.\<close>

definition content_step :: "store_env \<Rightarrow> content \<Rightarrow> content \<Rightarrow> bool" where
  "content_step env m m' \<longleftrightarrow> m' = m \<or> (\<exists>x. m' = put_if_absent (se_hash env x) x m)"

lemma chunk_flush_since:
  "chunk_since env st d m g0 d0 opts \<Longrightarrow> chunk_since env st (chunk_flush relaxed st d) m g0 d0 opts"
proof -
  assume since: "chunk_since env st d m g0 d0 opts"
  have packs: "cd_packs (chunk_flush relaxed st d) = cd_packs d" and idxs: "cd_idxs (chunk_flush relaxed st d) = cd_idxs d"
    by (simp_all add: chunk_flush_def chunk_fsync_def)
  have "grown g d g (chunk_flush relaxed st d)" for g by (simp add: grown_def idxs)
  then show ?thesis using since chunk_inv_disk_cong [OF _ packs idxs] grown_trans unfolding chunk_since_def by blast
qed

lemma chunk_compact_since:
  assumes "env_ok env" and "chunk_since env st d m g0 d0 opts" and "compacts_small st d"
  shows "\<exists>report st' d'. chunk_compact env st d = (Inr report, st', d') \<and> chunk_since env st' d' m g0 d0 opts \<and>
    cr_records report = length (cs_index st) \<and> cr_packs_after report = 2"
proof -
  obtain g where g: "chunk_inv env st d m g" "grown g0 d0 g d" using assms(2) by (auto simp: chunk_since_def)
  from chunk_compact_inv [OF assms(1) g(1) assms(3)] obtain report st' d' g' where
    run: "chunk_compact env st d = (Inr report, st', d')" "chunk_inv env st' d' m g'" "cg_seq g < cg_seq g'"
    "cs_cache st' = cs_cache st" "cs_opts st' = cs_opts st" "ap_len (cs_active st') = ALTP_HEADER_LEN"
    "cr_records report = length (cs_index st)" "cr_packs_after report = 2" by blast
  have "grown g0 d0 g' d'" using g(2) run(3) by (auto simp: grown_def)
  then have "chunk_since env st' d' m g0 d0 opts"
    using assms(2) run unfolding chunk_since_def by (auto simp: ALTP_HEADER_LEN_def)
  with run show ?thesis by blast
qed

lemma chunk_step_since:
  assumes env: "env_ok env" and since: "chunk_since env st d m g0 d0 opts" and step: "chunk_step env (st, d) (st', d')"
  shows "\<exists>m'. chunk_since env st' d' m' g0 d0 opts \<and> content_step env m m'"
  using step
proof (rule chunk_step_cases)
  fix x r a b
  assume "(st', d') = (a, b)" "chunk_put env x st d = (r, a, b)"
  then show ?thesis
    using chunk_put_since [OF env since, of x] by (auto simp: content_step_def split: sum.splits)
next
  fix verify i r a
  assume "(st', d') = (a, d)" "chunk_resolve env d verify i st = (r, a)"
  then show ?thesis using chunk_resolve_since [OF since, of verify i] by (auto simp: content_step_def)
next
  fix i base r a b
  assume "(st', d') = (a, b)" "reencode_as_delta env i base st d = (r, a, b)"
  then show ?thesis using reencode_since [OF env since, of i base] by (auto simp: content_step_def)
next
  fix r a b
  assume "(st', d') = (a, b)" "compacts_small st d" "chunk_compact env st d = (r, a, b)"
  then show ?thesis using chunk_compact_since [OF env since] by (auto simp: content_step_def)
next
  fix r a b
  assume "(st', d') = (a, b)" "chunk_sync_from_disk env st d = (r, a, b)"
  then show ?thesis using chunk_sync_since [OF since] since by (auto simp: content_step_def)
next
  fix relaxed
  assume "(st', d') = (st, chunk_flush relaxed st d)"
  then show ?thesis using chunk_flush_since [OF since] by (auto simp: content_step_def)
qed

lemma chunk_run_since:
  assumes env: "env_ok env" and run: "chunk_run env w w'"
  shows "chunk_since env (fst w) (snd w) m g0 d0 opts \<Longrightarrow>
    \<exists>m'. chunk_since env (fst w') (snd w') m' g0 d0 opts \<and> (content_step env)\<^sup>*\<^sup>* m m'"
  using run
proof (induction rule: chunk_run.induct)
  case (run_more w w' w'')
  then obtain m' where m': "chunk_since env (fst w') (snd w') m' g0 d0 opts" "(content_step env)\<^sup>*\<^sup>* m m'" by blast
  have "chunk_step env (fst w', snd w') (fst w'', snd w'')" using run_more.hyps by simp
  from chunk_step_since [OF env m'(1) this] m'(2) show ?case by (meson rtranclp.rtrancl_into_rtrancl)
qed auto

section \<open>What the store promises\<close>

lemma content_steps_le: "(content_step env)\<^sup>*\<^sup>* m m' \<Longrightarrow> m \<subseteq>\<^sub>m m'"
proof (induction rule: rtranclp_induct)
  case (step m' m'')
  then have "m' \<subseteq>\<^sub>m m''" by (auto simp: content_step_def put_if_absent_def map_le_def split: option.splits)
  with step.IH show ?case by (rule map_le_trans)
qed simp

lemma since_holds: "chunk_since env st d m g0 d0 opts \<Longrightarrow> chunk_holds env st d m"
  by (auto simp: chunk_holds_def chunk_since_def)

lemma chunk_store_known:
  assumes "env_ok env" and "chunk_holds env st d m" and "chunk_run env (st, d) (st', d')"
  shows "\<exists>m'. chunk_holds env st' d' m' \<and> m \<subseteq>\<^sub>m m' \<and> hashed env m' \<and>
    (\<forall>verify i. fst (chunk_resolve env d' verify i st') =
       (case m' i of Some x \<Rightarrow> Inr x | None \<Rightarrow> Inl (ChunkNotFound i))) \<and>
    (\<forall>x i st'' d''. chunk_put env x st' d' = (Inr i, st'', d'') \<longrightarrow>
       i = se_hash env x \<and> chunk_holds env st'' d'' (put_if_absent i x m')) \<and>
    (\<forall>x e st'' d''. chunk_put env x st' d' = (Inl e, st'', d'') \<longrightarrow>
       (2 ^ 32 \<le> length x \<or> se_encode env (co_zstd_level (cs_opts st')) x = None) \<and> chunk_holds env st'' d'' m') \<and>
    (\<forall>t opts. no_record t \<and> co_seal_threshold opts \<le> 2 ^ 63 \<longrightarrow>
       (\<exists>st'' d''. chunk_open env opts
          (put_pack (ap_seq (cs_active st')) (pack_bytes_of d' (ap_seq (cs_active st')) @ t) d') = (Inr st'', d'') \<and>
        chunk_holds env st'' d'' m'))"
proof -
  obtain g0 d0 where "chunk_since env st d m g0 d0 (cs_opts st)" using assms(2) chunk_holds_since by blast
  with chunk_run_since [OF assms(1,3), of m g0 d0 "cs_opts st", simplified]
  obtain m' where m': "chunk_since env st' d' m' g0 d0 (cs_opts st)" "(content_step env)\<^sup>*\<^sup>* m m'" by blast
  have holds: "chunk_holds env st' d' m'" by (rule since_holds [OF m'(1)])
  then obtain g where inv: "chunk_inv env st' d' m' g" by (auto simp: chunk_holds_def)
  have "chunk_holds env st'' d'' (put_if_absent i x m') \<and> i = se_hash env x" if "chunk_put env x st' d' = (Inr i, st'', d'')" for x i st'' d''
    using chunk_put_since [OF assms(1) m'(1), of x] that since_holds by auto
  moreover have "(2 ^ 32 \<le> length x \<or> se_encode env (co_zstd_level (cs_opts st')) x = None) \<and> chunk_holds env st'' d'' m'"
    if "chunk_put env x st' d' = (Inl e, st'', d'')" for x e st'' d''
    using chunk_put_since [OF assms(1) m'(1), of x] that since_holds by auto
  moreover have "fst (chunk_resolve env d' verify i st') = (case m' i of Some x \<Rightarrow> Inr x | None \<Rightarrow> Inl (ChunkNotFound i))" for verify i
    using chunk_resolve_since [OF m'(1), of verify i] by auto
  ultimately show ?thesis
    using holds content_steps_le [OF m'(2)] inv_hashed [OF inv] chunk_open_torn [OF holds] by blast
qed

text \<open>C2. 
  The chunk store refines a map from addresses to contents.  Through any run of puts, reads,
  re-encodings, compactions, syncs and flushes nothing that was stored is lost; a read, at any level
  of checking, gives the content of the address or, where there is none, that it is not found; a put
  returns the hash and adds the content where the address was free, and fails, changing nothing, only for
  a content of four gigabytes or when the compressor fails.  And whatever incomplete record a
  crash leaves behind the last whole one, opening the directory finds the same content.
\<close>

theorem chunk_store_refines:
  assumes "env_ok env" and "chunk_holds env st d m" and "chunk_run env (st, d) (st', d')"
  shows "\<exists>m'. chunk_holds env st' d' m' \<and> m \<subseteq>\<^sub>m m' \<and> hashed env m' \<and>
    (\<forall>verify i. fst (chunk_resolve env d' verify i st') =
       (case m' i of Some x \<Rightarrow> Inr x | None \<Rightarrow> Inl (ChunkNotFound i))) \<and>
    (\<forall>x i st'' d''. chunk_put env x st' d' = (Inr i, st'', d'') \<longrightarrow>
       i = se_hash env x \<and> chunk_holds env st'' d'' (put_if_absent i x m')) \<and>
    (\<forall>x e st'' d''. chunk_put env x st' d' = (Inl e, st'', d'') \<longrightarrow>
       (2 ^ 32 \<le> length x \<or> se_encode env (co_zstd_level (cs_opts st')) x = None) \<and> chunk_holds env st'' d'' m') \<and>
    (\<forall>t opts. no_record t \<and> co_seal_threshold opts \<le> 2 ^ 63 \<longrightarrow>
       (\<exists>st'' d''. chunk_open env opts
          (put_pack (ap_seq (cs_active st')) (pack_bytes_of d' (ap_seq (cs_active st')) @ t) d') = (Inr st'', d'') \<and>
        chunk_holds env st'' d'' m'))"
  by (rule chunk_store_known [OF assms])

lemma chunk_rewind_known:
  assumes "env_ok env" and "chunk_holds env st0 d0 m0" and "chunk_run env (st0, d0) (st, d)"
    and "ap_seq (cs_active st) = ap_seq (cs_active st0)"
  shows "\<exists>st' d'. chunk_rewind env (chunk_checkpoint_of st0) st d = (Inr (), st', d') \<and> chunk_holds env st' d' m0 \<and>
    cd_packs d' = cd_packs d0"
proof -
  obtain g0 where g0: "chunk_inv env st0 d0 m0 g0" using assms(2) by (auto simp: chunk_holds_def)
  then have "chunk_since env st0 d0 m0 g0 d0 (cs_opts st0)"
    using assms(2) by (auto simp: chunk_holds_def chunk_since_def intro: grown_refl)
  with chunk_run_since [OF assms(1,3), of m0 g0 d0 "cs_opts st0", simplified]
  obtain m where "chunk_since env st d m g0 d0 (cs_opts st0)" by blast
  from chunk_rewind_since [OF g0 _ this assms(4)] assms(2) show ?thesis by (auto simp: chunk_holds_def)
qed

text \<open>
  Rewinding undoes a batch: as long as the active pack has not been rolled since the checkpoint, whatever
  was put, re-encoded or read in between, rewinding succeeds, restores the very bytes of every pack and
  leaves a store with the content of the checkpoint.
\<close>

theorem chunk_rewind_undoes:
  assumes "env_ok env" and "chunk_holds env st0 d0 m0" and "chunk_run env (st0, d0) (st, d)"
    and "ap_seq (cs_active st) = ap_seq (cs_active st0)"
  shows "\<exists>st' d'. chunk_rewind env (chunk_checkpoint_of st0) st d = (Inr (), st', d') \<and> chunk_holds env st' d' m0 \<and>
    cd_packs d' = cd_packs d0"
  by (rule chunk_rewind_known [OF assms])

section \<open>A store to try it on\<close>

definition sample_store :: store_env where
  "sample_store = \<lparr>se_hash = (\<lambda>x. take 32 (x @ replicate 32 0)), se_encode = (\<lambda>lvl x. None), se_decode = (\<lambda>z. None),
     se_encode_with = (\<lambda>x b lvl. None), se_decode_with = (\<lambda>z b n. None), se_usort = (\<lambda>es. es)\<rparr>"

definition empty_chunk_disk :: chunk_disk where
  "empty_chunk_disk = \<lparr>cd_packs = [], cd_idxs = [], cd_synced = (\<lambda>_. 0)\<rparr>"

lemma sample_store_ok: "env_ok sample_store"
  by (auto simp: env_ok_def sample_store_def min_def)

text \<open>Opening an empty directory.\<close>

lemma chunk_open_empty:
  assumes "co_seal_threshold opts \<le> 2 ^ 63"
  shows "\<exists>st d. chunk_open env opts empty_chunk_disk = (Inr st, d) \<and> chunk_holds env st d Map.empty \<and> cs_opts st = opts \<and>
    cs_index st = [] \<and> cs_active st = \<lparr>ap_seq = 1, ap_len = ALTP_HEADER_LEN, ap_entries = []\<rparr>"
proof -
  let ?a = "\<lparr>ap_seq = 1, ap_len = ALTP_HEADER_LEN, ap_entries = []\<rparr>"
  let ?d = "sync_pack 1 (put_pack 1 altp_file_header empty_chunk_disk)"
  let ?st = "\<lparr>cs_opts = opts, cs_sealed = [], cs_active = ?a, cs_index = [], cs_counters = counters_default, cs_cache = delta_cache_new\<rparr>"
  let ?g = "\<lparr>cg_olds = [], cg_seq = 1, cg_recs = []\<rparr>"
  have "chunk_open env opts empty_chunk_disk = (Inr ?st, ?d)"
    by (simp add: chunk_open_def chunk_load_def list_pack_seqs_def empty_chunk_disk_def open_active_def)
  moreover have "chunk_inv env ?st ?d Map.empty ?g"
    by (simp add: chunk_inv_def disk_holds_def store_on_def index_ok_def content_ok_def view_ok_def active_ok_def view_recs_def
        disk_view_def sealed_view_def index_pack_def index_recs_def entries_of_def empty_chunk_disk_def pack_file_def)
  ultimately show ?thesis using assms by (auto simp: chunk_holds_def ALTP_HEADER_LEN_def)
qed

lemma sample_put_runs:
  assumes "cs_opts st = chunk_opts_default" and "cs_index st = []"
    and "cs_active st = \<lparr>ap_seq = 1, ap_len = ALTP_HEADER_LEN, ap_entries = []\<rparr>"
  shows "\<exists>st' d'. chunk_put sample_store [1, 2, 3] st d = (Inr (se_hash sample_store [1, 2, 3]), st', d') \<and> ap_seq (cs_active st') = 1"
  using assms
  by (simp add: chunk_put_def append_record_def Let_def chunk_opts_default_def ALTP_HEADER_LEN_def REC_HEADER_LEN_def)

lemma sample_put:
  "\<exists>st d st' d'. chunk_holds sample_store st d Map.empty \<and> chunk_run sample_store (st, d) (st', d') \<and>
     chunk_holds sample_store st' d' [se_hash sample_store [1, 2, 3] \<mapsto> [1, 2, 3]] \<and>
     ap_seq (cs_active st') = ap_seq (cs_active st)"
proof -
  obtain st d where st: "chunk_holds sample_store st d Map.empty" "cs_opts st = chunk_opts_default" "cs_index st = []"
    "cs_active st = \<lparr>ap_seq = 1, ap_len = ALTP_HEADER_LEN, ap_entries = []\<rparr>"
    using chunk_open_empty [of chunk_opts_default sample_store] by (auto simp: chunk_opts_default_def)
  then obtain g0 d0 where since: "chunk_since sample_store st d Map.empty g0 d0 chunk_opts_default"
    using chunk_holds_since [of sample_store st d Map.empty] by auto
  obtain st' d' where run: "chunk_put sample_store [1, 2, 3] st d = (Inr (se_hash sample_store [1, 2, 3]), st', d')" "ap_seq (cs_active st') = 1"
    using sample_put_runs [OF st(2-4), of d] by blast
  with chunk_put_since [OF sample_store_ok since, of "[1, 2, 3]"]
  have "chunk_holds sample_store st' d' [se_hash sample_store [1, 2, 3] \<mapsto> [1, 2, 3]]"
    by (auto simp: put_if_absent_def dest: since_holds)
  moreover have "ap_seq (cs_active st') = ap_seq (cs_active st)" using run(2) st(4) by simp
  ultimately show ?thesis using st(1) run(1) by (meson chunk_step.step_put run_more run_none)
qed

theorem chunk_store_refines_witness:
  "\<exists>st d m. m [1, 2, 3] = None \<and> chunk_holds sample_store st d m \<and> hashed sample_store m \<and>
     fst (chunk_resolve sample_store d VerifyDeep (se_hash sample_store [1, 2, 3]) st) = Inr [1, 2, 3]"
proof -
  obtain st d st' d' where ok: "chunk_holds sample_store st d Map.empty" "chunk_run sample_store (st, d) (st', d')"
    "chunk_holds sample_store st' d' [se_hash sample_store [1, 2, 3] \<mapsto> [1, 2, 3]]"
    using sample_put by blast
  from chunk_store_refines [OF sample_store_ok ok(3) run_none]
  obtain m where m: "chunk_holds sample_store st' d' m" "[se_hash sample_store [1, 2, 3] \<mapsto> [1, 2, 3]] \<subseteq>\<^sub>m m" "hashed sample_store m"
    "\<forall>verify i. fst (chunk_resolve sample_store d' verify i st') = (case m i of Some x \<Rightarrow> Inr x | None \<Rightarrow> Inl (ChunkNotFound i))"
    by blast
  have "m (se_hash sample_store [1, 2, 3]) = Some [1, 2, 3]" using m(2) by (auto simp: map_le_def)
  moreover have "m [1, 2, 3] = None"
  proof (cases "m [1, 2, 3]")
    case (Some x)
    with m(3) have "se_hash sample_store x = [1, 2, 3]" by (auto simp: hashed_def)
    moreover have "length (se_hash sample_store x) = 32" using sample_store_ok by (simp add: env_ok_def)
    ultimately show ?thesis by simp
  qed
  ultimately show ?thesis using m(1,3,4) by (intro exI [of _ st'] exI [of _ d'] exI [of _ m]) simp
qed

theorem chunk_rewind_undoes_witness:
  "\<exists>st0 d0 st d st' d'. chunk_holds sample_store st0 d0 Map.empty \<and> chunk_holds sample_store st d [se_hash sample_store [1, 2, 3] \<mapsto> [1, 2, 3]] \<and>
     chunk_rewind sample_store (chunk_checkpoint_of st0) st d = (Inr (), st', d') \<and> chunk_holds sample_store st' d' Map.empty \<and>
     cd_packs d' = cd_packs d0"
proof -
  obtain st d st' d' where ok: "chunk_holds sample_store st d Map.empty" "chunk_run sample_store (st, d) (st', d')"
    "chunk_holds sample_store st' d' [se_hash sample_store [1, 2, 3] \<mapsto> [1, 2, 3]]"
    "ap_seq (cs_active st') = ap_seq (cs_active st)"
    using sample_put by blast
  from chunk_rewind_undoes [OF sample_store_ok ok(1,2,4)] obtain st'' d'' where
    "chunk_rewind sample_store (chunk_checkpoint_of st) st' d' = (Inr (), st'', d'') \<and>
     chunk_holds sample_store st'' d'' Map.empty \<and> cd_packs d'' = cd_packs d" by auto
  with ok(1,3) show ?thesis by blast
qed

text \<open>C16. 
  No read lies: whatever the files hold, damaged or forged, a read that checks anything at all returns
  only bytes whose hash is the address that was asked for.
\<close>

theorem chunk_reads_never_lie:
  assumes "chunk_resolve env d verify i st = (Inr data, st')" and "verify \<noteq> VerifyNone"
  shows "se_hash env data = i"
  by (rule chunk_reads_hash [OF assms])

theorem chunk_reads_never_lie_witness:
  "\<exists>st d st'. chunk_resolve sample_store d VerifyDeep (se_hash sample_store [1, 2, 3]) st = (Inr [1, 2, 3], st') \<and>
     se_hash sample_store [1, 2, 3] = [1, 2, 3] @ replicate 29 0"
proof -
  obtain st d where ok: "chunk_holds sample_store st d [se_hash sample_store [1, 2, 3] \<mapsto> [1, 2, 3]]"
    using sample_put by blast
  then obtain g0 d0 where "chunk_since sample_store st d [se_hash sample_store [1, 2, 3] \<mapsto> [1, 2, 3]] g0 d0 (cs_opts st)"
    using chunk_holds_since by blast
  then have "fst (chunk_resolve sample_store d VerifyDeep (se_hash sample_store [1, 2, 3]) st) = Inr [1, 2, 3]"
    using chunk_resolve_since [of sample_store st d "[se_hash sample_store [1, 2, 3] \<mapsto> [1, 2, 3]]" g0 d0 "cs_opts st"
        VerifyDeep "se_hash sample_store [1, 2, 3]"] by auto
  then obtain st' where "chunk_resolve sample_store d VerifyDeep ([1, 2, 3] @ replicate 29 0) st = (Inr [1, 2, 3], st')"
    by (cases "chunk_resolve sample_store d VerifyDeep (se_hash sample_store [1, 2, 3]) st")
      (auto simp: sample_store_def numeral_eq_Suc)
  moreover from this have "se_hash sample_store [1, 2, 3] = [1, 2, 3] @ replicate 29 0"
    by (rule chunk_reads_never_lie) simp
  ultimately show ?thesis by metis
qed

end
