(* ===== verification/Chunk_Bulk.thy ===== *)
theory Chunk_Bulk
  imports Chunk_Disk
begin

text \<open>
  The bulk reads of \<^verbatim>\<open>alt-store/src/lib.rs\<close>: \<^verbatim>\<open>decode_no_verify\<close>, the zero-copy read of one chunk, and
  \<^verbatim>\<open>for_each_decoded\<close>, which decodes every chunk once by walking the forest of the delta chains from its
  full records.  The walk reports the chunks it hands to the callback, in that order.
\<close>

section \<open>One chunk\<close>

definition decode_no_verify ::
  "store_env \<Rightarrow> chunk_store \<Rightarrow> chunk_disk \<Rightarrow> chunk_id \<Rightarrow> bytes option \<Rightarrow> store_error + bytes" where
  "decode_no_verify env st d i base =
     (case map_of (cs_index st) i of
        None \<Rightarrow> Inl (ChunkNotFound i)
      | Some loc \<Rightarrow>
          bindR (read_record st d i loc) (\<lambda>(header, payload).
          bindR
            (if rh_encoding header = ENC_RAW \<and> base = None then Inr payload
             else if rh_encoding header = ENC_ZSTD \<and> base = None then
               ok_or (ChunkCorrupt i ''zstd decode failed'') (se_decode env payload)
             else case base of
               Some b \<Rightarrow>
                 if rh_encoding header \<noteq> ENC_DELTA then Inl (StoreFormat ''delta/full encoding mismatch'')
                 else if length payload < 32 then Inl (ChunkCorrupt i ''delta payload too short'')
                 else ok_or (ChunkCorrupt i ''delta decode failed'')
                        (se_decode_with env (drop 32 payload) b (unat (rh_orig_len header)))
             | None \<Rightarrow> Inl (StoreFormat ''delta/full encoding mismatch''))
          (\<lambda>data. sized i data (unat (rh_orig_len header)))))"

definition decode_chunk_unverified ::
  "store_env \<Rightarrow> chunk_disk \<Rightarrow> chunk_id \<Rightarrow> chunk_store \<Rightarrow> (store_error + bytes) \<times> chunk_store" where
  "decode_chunk_unverified env d i st =
     (case map_of (cs_index st) i of
        None \<Rightarrow> (Inl (ChunkNotFound i), st)
      | Some loc \<Rightarrow>
          (case read_rec_header st d i loc of
             Inl e \<Rightarrow> (Inl e, st)
           | Inr header \<Rightarrow>
               if rh_encoding header = ENC_DELTA then chunk_resolve env d VerifyNone i st
               else (decode_no_verify env st d i None, st)))"

section \<open>The forest\<close>

type_synonym chunk_deps = "(chunk_id \<times> chunk_id list) list"

definition deps_of :: "chunk_deps \<Rightarrow> chunk_id \<Rightarrow> chunk_id list" where
  "deps_of deps i = (case map_of deps i of None \<Rightarrow> [] | Some cs \<Rightarrow> cs)"

definition deps_push :: "chunk_id \<Rightarrow> chunk_id \<Rightarrow> chunk_deps \<Rightarrow> chunk_deps" where
  "deps_push base i deps = AList.update base (deps_of deps base @ [i]) deps"

fun bulk_forest ::
  "chunk_store \<Rightarrow> chunk_disk \<Rightarrow> chunk_index \<Rightarrow> chunk_deps \<Rightarrow> chunk_id list
     \<Rightarrow> store_error + chunk_deps \<times> chunk_id list" where
  "bulk_forest st d [] deps roots = Inr (deps, roots)"
| "bulk_forest st d ((i, loc) # index) deps roots =
     bindR (read_rec_header st d i loc) (\<lambda>header.
       if rh_encoding header = ENC_DELTA then
         bindR (read_base_id st d i loc) (\<lambda>base. bulk_forest st d index (deps_push base i deps) roots)
       else if rh_encoding header = ENC_RAW \<or> rh_encoding header = ENC_ZSTD then
         bulk_forest st d index deps (roots @ [i])
       else Inl (StoreFormat ''reserved record encoding''))"

lemma deps_delete_size:
  "sum_list (map (length \<circ> snd) (AList.delete i deps)) + length (deps_of deps i) \<le> sum_list (map (length \<circ> snd) deps)"
proof (induction deps)
  case (Cons p deps)
  have "sum_list (map (length \<circ> snd) (AList.delete i deps)) \<le> sum_list (map (length \<circ> snd) deps)"
    using Cons.IH by (rule add_leD1)
  then show ?case using Cons.IH by (cases p) (auto simp: deps_of_def split: option.splits)
qed (simp add: deps_of_def)

text \<open>The walk; the stack has its top in front.\<close>

function bulk_walk ::
  "store_env \<Rightarrow> chunk_store \<Rightarrow> chunk_disk \<Rightarrow> (chunk_id \<times> bytes option) list \<Rightarrow> chunk_deps
     \<Rightarrow> (chunk_id \<times> bytes) list \<Rightarrow> (store_error + unit) \<times> (chunk_id \<times> bytes) list" where
  "bulk_walk env st d [] deps out = (Inr (), out)"
| "bulk_walk env st d ((i, base) # stack) deps out =
     (case decode_no_verify env st d i base of
        Inl e \<Rightarrow> (Inl e, out)
      | Inr data \<Rightarrow>
          bulk_walk env st d (rev (map (\<lambda>c. (c, Some data)) (deps_of deps i)) @ stack) (AList.delete i deps) (out @ [(i, data)]))"
  by pat_completeness auto
termination
proof (relation "measure (\<lambda>(env, st, d, stack, deps, out). length stack + sum_list (map (length \<circ> snd) deps))")
  fix env st d i base stack deps out and data :: bytes
  show "((env, st, d, rev (map (\<lambda>c. (c, Some data)) (deps_of deps i)) @ stack, AList.delete i deps, out @ [(i, data)]),
      (env, st, d, (i, base) # stack, deps, out))
    \<in> measure (\<lambda>(env, st, d, stack, deps, out). length stack + sum_list (map (length \<circ> snd) deps))"
    using deps_delete_size [of i deps] by simp
qed simp

definition for_each_decoded ::
  "store_env \<Rightarrow> chunk_store \<Rightarrow> chunk_disk \<Rightarrow> (store_error + unit) \<times> (chunk_id \<times> bytes) list" where
  "for_each_decoded env st d =
     (case bulk_forest st d (cs_index st) [] [] of
        Inl e \<Rightarrow> (Inl e, [])
      | Inr (deps, roots) \<Rightarrow>
          (case bulk_walk env st d (rev (map (\<lambda>i. (i, None)) roots)) deps [] of
             (Inl e, out) \<Rightarrow> (Inl e, out)
           | (Inr _, out) \<Rightarrow>
               (if length out \<noteq> length (cs_index st) then Inl (StoreFormat ''bulk materialize missed chunks'') else Inr (),
                out)))"

section \<open>What the bulk reads return\<close>

text \<open>The base of a chunk: \<open>None\<close> for a full record.\<close>

definition chunk_base_of :: "rec_map \<Rightarrow> chunk_id \<Rightarrow> chunk_id option" where
  "chunk_base_of recs i =
     (case recs i of None \<Rightarrow> None
      | Some (hdr, p) \<Rightarrow> if rh_encoding hdr = ENC_DELTA then Some (take 32 p) else None)"

abbreviation index_of :: "chunk_store \<Rightarrow> chunk_ghost \<Rightarrow> rec_map" where
  "index_of st g \<equiv> index_recs (packs_of g) (cs_index st)"

lemma full_encoding: "full_decode env (hdr, p) = Some x \<Longrightarrow> rh_encoding hdr = ENC_RAW \<or> rh_encoding hdr = ENC_ZSTD"
  by (erule full_decode_cases) simp_all

lemma enc_distinct [simp]: "ENC_RAW \<noteq> ENC_DELTA" "ENC_ZSTD \<noteq> ENC_DELTA" "ENC_ZSTD \<noteq> ENC_RAW" "ENC_DELTA \<noteq> ENC_RAW" "ENC_DELTA \<noteq> ENC_ZSTD"
  by (simp_all add: ENC_RAW_def ENC_ZSTD_def ENC_DELTA_def)

lemma inv_chunk_at:
  assumes "chunk_inv env st d m g" and "m i = Some x"
  shows "\<exists>n. chunk_at env (index_of st g) n i x"
  using assms inv_content [OF assms(1)] by (auto simp: content_ok_def chunk_stored_def)

lemma decode_full:
  assumes inv: "chunk_inv env st d m g" and "m i = Some x" and "chunk_base_of (index_of st g) i = None"
  shows "decode_no_verify env st d i None = Inr x"
proof -
  obtain n where "chunk_at env (index_of st g) n i x" using inv_chunk_at [OF assms(1,2)] by blast
  then obtain hdr p where r: "index_of st g i = Some (hdr, p)" "full_decode env (hdr, p) = Some x"
    by (rule chunk_at_cases) (use assms(3) in \<open>auto simp: chunk_base_of_def\<close>)
  then obtain loc where "map_of (cs_index st) i = Some loc" "rec_at st d loc = Some (hdr, p)"
    using index_recs_rec_at [OF inv] by blast
  with r(2) show ?thesis
    by (auto elim!: full_decode_cases simp: decode_no_verify_def read_record_rec sized_def)
qed

lemma decode_delta:
  assumes inv: "chunk_inv env st d m g" and "m i = Some x" and "chunk_base_of (index_of st g) i = Some j" and "m j = Some b"
  shows "decode_no_verify env st d i (Some b) = Inr x"
proof -
  obtain n where at: "chunk_at env (index_of st g) n i x" using inv_chunk_at [OF assms(1,2)] by blast
  from at obtain hdr p b' k where r: "index_of st g i = Some (hdr, p)" "rh_encoding hdr = ENC_DELTA" "32 \<le> length p"
      "chunk_at env (index_of st g) k (take 32 p) b'"
      "se_decode_with env (drop 32 p) b' (unat (rh_orig_len hdr)) = Some x" "length x = unat (rh_orig_len hdr)"
    by (rule chunk_at_cases) (use assms(3) in \<open>auto simp: chunk_base_of_def dest: full_encoding split: if_splits\<close>)
  have "b' = b"
    using r(1,2,4) assms(3,4) content_stored [OF inv_content [OF inv]] by (force simp: chunk_base_of_def chunk_stored_def)
  obtain loc where "map_of (cs_index st) i = Some loc" "rec_at st d loc = Some (hdr, p)"
    by (rule index_recs_rec_at [OF inv r(1)])
  with r \<open>b' = b\<close> show ?thesis by (simp add: decode_no_verify_def read_record_rec sized_def)
qed

lemma decode_unverified_since:
  assumes "chunk_since env st d m g0 d0 opts"
  shows "\<exists>c. decode_chunk_unverified env d i st =
      (case m i of Some x \<Rightarrow> Inr x | None \<Rightarrow> Inl (ChunkNotFound i), st\<lparr>cs_cache := c\<rparr>) \<and>
    chunk_since env (st\<lparr>cs_cache := c\<rparr>) d m g0 d0 opts"
proof -
  obtain g where inv: "chunk_inv env st d m g" using assms by (auto simp: chunk_since_def)
  show ?thesis
  proof (cases "m i")
    case None
    then have "map_of (cs_index st) i = None" using inv_index [OF inv] by simp
    with None assms show ?thesis by (intro exI [of _ "cs_cache st"]) (simp add: decode_chunk_unverified_def)
  next
    case (Some x)
    then have "index_of st g i \<noteq> None" using inv_chunk_at [OF inv Some] by (auto elim: chunk_at_cases)
    then obtain hdr p where r: "index_of st g i = Some (hdr, p)" by auto
    then obtain loc where loc: "map_of (cs_index st) i = Some loc" "rec_at st d loc = Some (hdr, p)"
      using index_recs_rec_at [OF inv] by blast
    show ?thesis
    proof (cases "rh_encoding hdr = ENC_DELTA")
      case True
      then show ?thesis using chunk_resolve_since [OF assms, of VerifyNone i] loc read_header_rec [OF loc(2)]
        by (simp add: decode_chunk_unverified_def)
    next
      case False
      then have "decode_no_verify env st d i None = Inr x" using decode_full [OF inv Some] r by (simp add: chunk_base_of_def)
      then show ?thesis using False loc read_header_rec [OF loc(2)] Some assms
        by (intro exI [of _ "cs_cache st"]) (simp add: decode_chunk_unverified_def)
    qed
  qed
qed

section \<open>The forest reaches every chunk\<close>

lemma deps_of_push: "deps_of (deps_push base i deps) j = deps_of deps j @ (if j = base then [i] else [])"
  by (simp add: deps_push_def deps_of_def AList.update_conv')

lemma bulk_forest_reads:
  assumes inv: "chunk_inv env st d m g"
  shows "\<forall>(i, loc) \<in> set index. map_of (cs_index st) i = Some loc \<Longrightarrow> distinct (map fst deps) \<Longrightarrow>
    \<exists>deps'. bulk_forest st d index deps roots = Inr (deps', roots @ filter (\<lambda>i. chunk_base_of (index_of st g) i = None) (map fst index)) \<and>
      distinct (map fst deps') \<and> (\<forall>j. deps_of deps' j = deps_of deps j @ filter (\<lambda>i. chunk_base_of (index_of st g) i = Some j) (map fst index))"
proof (induction index arbitrary: deps roots)
  case (Cons p index)
  obtain i loc where p: "p = (i, loc)" by (cases p)
  have i: "map_of (cs_index st) i = Some loc" using Cons.prems(1) p by simp
  then have "m i \<noteq> None" using inv_index [OF inv, of i] by simp
  then obtain x n where at: "chunk_at env (index_of st g) n i x" using inv_chunk_at [OF inv] by blast
  then have "index_of st g i \<noteq> None" by (auto elim: chunk_at_cases)
  then obtain hdr q where r: "index_of st g i = Some (hdr, q)" by auto
  have rec: "rec_at st d loc = Some (hdr, q)" using index_recs_rec_at [OF inv r] i by auto
  show ?case
  proof (cases "rh_encoding hdr = ENC_DELTA")
    case True
    have len: "32 \<le> length q" using at by (rule chunk_at_cases) (use r True in auto)
    have base: "chunk_base_of (index_of st g) i = Some (take 32 q)" using r True by (simp add: chunk_base_of_def)
    have "distinct (map fst (deps_push (take 32 q) i deps))"
      using Cons.prems(2) by (simp add: deps_push_def AList.distinct_update)
    then obtain deps' where deps': "bulk_forest st d index (deps_push (take 32 q) i deps) roots =
        Inr (deps', roots @ filter (\<lambda>i. chunk_base_of (index_of st g) i = None) (map fst index))" "distinct (map fst deps')"
      "\<And>j. deps_of deps' j = deps_of (deps_push (take 32 q) i deps) j @ filter (\<lambda>i. chunk_base_of (index_of st g) i = Some j) (map fst index)"
      using Cons.IH [of "deps_push (take 32 q) i deps" roots] Cons.prems(1) by auto
    have "bulk_forest st d (p # index) deps roots =
        Inr (deps', roots @ filter (\<lambda>i. chunk_base_of (index_of st g) i = None) (map fst (p # index)))"
      using deps'(1) p True rec base len by (simp add: read_header_rec read_base_id_rec)
    moreover have "deps_of deps' j = deps_of deps j @ filter (\<lambda>i. chunk_base_of (index_of st g) i = Some j) (map fst (p # index))" for j
      using deps'(3) [of j] p base by (simp add: deps_of_push)
    ultimately show ?thesis using deps'(2) by blast
  next
    case False
    have "rh_encoding hdr = ENC_RAW \<or> rh_encoding hdr = ENC_ZSTD"
      using at by (rule chunk_at_cases) (use r False in \<open>auto dest: full_encoding\<close>)
    moreover have "chunk_base_of (index_of st g) i = None" using r False by (simp add: chunk_base_of_def)
    ultimately show ?thesis using Cons.IH [of deps "roots @ [i]"] Cons.prems p False rec
      by (simp add: read_header_rec)
  qed
qed simp

definition walk_ok ::
  "chunk_store \<Rightarrow> content \<Rightarrow> rec_map \<Rightarrow> (chunk_id \<times> bytes option) list \<Rightarrow> chunk_deps \<Rightarrow> (chunk_id \<times> bytes) list \<Rightarrow> bool" where
  "walk_ok st m recs stack deps out \<longleftrightarrow>
     mset (map fst out) + mset (map fst stack) + mset (concat (map snd deps)) = mset (map fst (cs_index st)) \<and>
     (\<forall>(i, b) \<in> set stack. b = Option.bind (chunk_base_of recs i) m \<and> (\<forall>j. chunk_base_of recs i = Some j \<longrightarrow> m j \<noteq> None)) \<and>
     distinct (map fst deps) \<and>
     (\<forall>(j, cs) \<in> set deps. j \<notin> fst ` set out \<and> (\<forall>c \<in> set cs. chunk_base_of recs c = Some j)) \<and>
     (\<forall>(i, x) \<in> set out. m i = Some x)"

lemma deps_split:
  "distinct (map fst deps) \<Longrightarrow>
   mset (concat (map snd deps)) = mset (deps_of deps i) + mset (concat (map snd (AList.delete i deps)))"
proof (induction deps)
  case (Cons p deps)
  show ?case
  proof (cases "fst p = i")
    case True
    then have "AList.delete i deps = deps" using Cons.prems by (intro AList.delete_id) auto
    with True show ?thesis by (cases p) (simp add: deps_of_def)
  next
    case False
    with Cons show ?thesis by (cases p) (simp add: deps_of_def)
  qed
qed (simp add: deps_of_def)

lemma deps_of_mem: "c \<in> set (deps_of deps i) \<Longrightarrow> \<exists>cs. (i, cs) \<in> set deps \<and> c \<in> set cs"
  by (cases "map_of deps i") (auto simp: deps_of_def dest: map_of_SomeD)

lemma set_delete: "p \<in> set (AList.delete i deps) \<longleftrightarrow> p \<in> set deps \<and> fst p \<noteq> i"
  by (auto simp: AList.delete_eq)

lemma dom_index: "chunk_inv env st d m g \<Longrightarrow> i \<in> set (map fst (cs_index st)) \<longleftrightarrow> m i \<noteq> None"
  using inv_index [of env st d m g i] by (auto simp: map_of_eq_None_iff)

lemma walk_ids:
  assumes inv: "chunk_inv env st d m g" and ok: "walk_ok st m recs stack deps out"
  shows "m i \<noteq> None \<longleftrightarrow> i \<in> fst ` set out \<or> i \<in> fst ` set stack \<or> i \<in> set (concat (map snd deps))"
proof -
  have "set_mset (mset (map fst out) + mset (map fst stack) + mset (concat (map snd deps))) = set_mset (mset (map fst (cs_index st)))"
    using ok unfolding walk_ok_def by (metis (no_types))
  then have "set (map fst out) \<union> set (map fst stack) \<union> set (concat (map snd deps)) = set (map fst (cs_index st))"
    unfolding set_mset_union set_mset_mset .
  then show ?thesis using dom_index [OF inv, of i] by auto
qed

lemma walk_deps:
  "walk_ok st m recs stack deps out \<Longrightarrow> (j, cs) \<in> set deps \<Longrightarrow> j \<notin> fst ` set out \<and> (c \<in> set cs \<longrightarrow> chunk_base_of recs c = Some j)"
  unfolding walk_ok_def by blast

lemma walk_listed:
  assumes "walk_ok st m recs stack deps out" and "i \<in> set (concat (map snd deps))"
  obtains j where "chunk_base_of recs i = Some j" "j \<notin> fst ` set out"
  using assms(2) walk_deps [OF assms(1)] by auto

lemma walk_step:
  assumes inv: "chunk_inv env st d m g" and ok: "walk_ok st m (index_of st g) ((i, base) # stack) deps out"
  obtains x where "decode_no_verify env st d i base = Inr x"
    "walk_ok st m (index_of st g) (rev (map (\<lambda>c. (c, Some x)) (deps_of deps i)) @ stack) (AList.delete i deps) (out @ [(i, x)])"
proof -
  let ?recs = "index_of st g"
  have "m i \<noteq> None" using walk_ids [OF inv ok, of i] by simp
  then obtain x where mi: "m i = Some x" by blast
  have base: "base = Option.bind (chunk_base_of ?recs i) m" "\<forall>j. chunk_base_of ?recs i = Some j \<longrightarrow> m j \<noteq> None"
    using ok by (auto simp: walk_ok_def)
  have "decode_no_verify env st d i base = Inr x"
    using decode_full [OF inv mi] decode_delta [OF inv mi] base by (cases "chunk_base_of ?recs i") auto
  moreover have "walk_ok st m ?recs (rev (map (\<lambda>c. (c, Some x)) (deps_of deps i)) @ stack) (AList.delete i deps) (out @ [(i, x)])"
    unfolding walk_ok_def
  proof (intro conjI)
    have dist: "distinct (map fst deps)" using ok by (simp add: walk_ok_def)
    show "mset (map fst (out @ [(i, x)])) + mset (map fst (rev (map (\<lambda>c. (c, Some x)) (deps_of deps i)) @ stack)) +
        mset (concat (map snd (AList.delete i deps))) = mset (map fst (cs_index st))"
      using ok deps_split [OF dist, of i] by (simp add: walk_ok_def rev_map comp_def ac_simps)
    show "distinct (map fst (AList.delete i deps))" using dist by (rule AList.distinct_delete)
    show "\<forall>(j, cs) \<in> set (AList.delete i deps). j \<notin> fst ` set (out @ [(i, x)]) \<and> (\<forall>c \<in> set cs. chunk_base_of ?recs c = Some j)"
    proof (clarify, intro conjI ballI)
      fix j cs
      assume "(j, cs) \<in> set (AList.delete i deps)"
      then have j: "(j, cs) \<in> set deps" "j \<noteq> i" by (simp_all add: set_delete)
      then show "j \<notin> fst ` set (out @ [(i, x)])" using walk_deps [OF ok j(1)] by simp
      show "chunk_base_of ?recs c = Some j" if "c \<in> set cs" for c using walk_deps [OF ok j(1)] that by blast
    qed
    show "\<forall>(c, b) \<in> set (rev (map (\<lambda>c. (c, Some x)) (deps_of deps i)) @ stack).
        b = Option.bind (chunk_base_of ?recs c) m \<and> (\<forall>j. chunk_base_of ?recs c = Some j \<longrightarrow> m j \<noteq> None)"
    proof -
      have "chunk_base_of ?recs c = Some i" if "c \<in> set (deps_of deps i)" for c
        using deps_of_mem [OF that] walk_deps [OF ok] by blast
      with mi show ?thesis using ok by (auto simp: walk_ok_def)
    qed
    show "\<forall>(i, y) \<in> set (out @ [(i, x)]). m i = Some y" using ok mi by (auto simp: walk_ok_def)
  qed
  ultimately show ?thesis by (rule that)
qed

lemma walk_end:
  assumes inv: "chunk_inv env st d m g" and ok: "walk_ok st m (index_of st g) [] deps out"
  shows "concat (map snd deps) = []"
proof -
  let ?recs = "index_of st g"
  have none: "chunk_at env ?recs n c x \<Longrightarrow> c \<notin> set (concat (map snd deps))" for n c x
  proof (induction rule: chunk_at.induct)
    case (full i r x)
    then have "chunk_base_of ?recs i = None" by (cases r) (auto simp: chunk_base_of_def dest: full_encoding)
    then show ?case using walk_listed [OF ok, of i] by auto
  next
    case (delta i hdr p n b x)
    then have base: "chunk_base_of ?recs i = Some (take 32 p)" by (simp add: chunk_base_of_def)
    have "m (take 32 p) = Some b" using delta.hyps content_stored [OF inv_content [OF inv]] by (auto simp: chunk_stored_def)
    then have "take 32 p \<in> fst ` set out \<or> take 32 p \<in> set (concat (map snd deps))"
      using walk_ids [OF inv ok, of "take 32 p"] by simp
    with delta.IH have "take 32 p \<in> fst ` set out" by blast
    then show ?case using walk_listed [OF ok, of i] base by auto
  qed
  show ?thesis
  proof (rule ccontr)
    let ?c = "hd (concat (map snd deps))"
    assume "concat (map snd deps) \<noteq> []"
    then have c: "?c \<in> set (concat (map snd deps))" by (rule hd_in_set)
    then have "m ?c \<noteq> None" using walk_ids [OF inv ok, of ?c] by blast
    then obtain x n where "chunk_at env ?recs n ?c x" using inv_chunk_at [OF inv] by blast
    from none [OF this] c show False by contradiction
  qed
qed

lemma walk_reads:
  assumes inv: "chunk_inv env st d m g"
  shows "walk_ok st m (index_of st g) stack deps out \<Longrightarrow>
    \<exists>deps' out'. bulk_walk env st d stack deps out = (Inr (), out') \<and> walk_ok st m (index_of st g) [] deps' out'"
proof (induction "length stack + sum_list (map (length \<circ> snd) deps)" arbitrary: stack deps out rule: less_induct)
  case less
  show ?case
  proof (cases stack)
    case Nil
    with less.prems show ?thesis by auto
  next
    case (Cons p stack')
    obtain i base where p: "p = (i, base)" by (cases p)
    obtain x where x: "decode_no_verify env st d i base = Inr x"
      "walk_ok st m (index_of st g) (rev (map (\<lambda>c. (c, Some x)) (deps_of deps i)) @ stack') (AList.delete i deps) (out @ [(i, x)])"
      using walk_step [OF inv] less.prems Cons p by blast
    have "length (rev (map (\<lambda>c. (c, Some x)) (deps_of deps i)) @ stack') + sum_list (map (length \<circ> snd) (AList.delete i deps))
        < length stack + sum_list (map (length \<circ> snd) deps)"
      using deps_delete_size [of i deps] Cons by simp
    from less.hyps [OF this x(2)] x(1) Cons p show ?thesis by simp
  qed
qed

lemma deps_distinct:
  "distinct (map fst deps) \<Longrightarrow> \<forall>(j, cs) \<in> set deps. distinct cs \<and> (\<forall>c \<in> set cs. chunk_base_of recs c = Some j) \<Longrightarrow>
   distinct (concat (map snd deps))"
proof (induction deps)
  case (Cons p deps)
  obtain j cs where p: "p = (j, cs)" by (cases p)
  have "c \<notin> set (concat (map snd deps))" if "c \<in> set cs" for c
  proof
    assume "c \<in> set (concat (map snd deps))"
    then obtain k ds where "(k, ds) \<in> set deps" "c \<in> set ds" by auto
    moreover from this have "chunk_base_of recs c = Some k" using Cons.prems(2) by fastforce
    moreover have "chunk_base_of recs c = Some j" using Cons.prems(2) p that by simp
    ultimately have "k = j" "k \<in> fst ` set deps" by (auto intro: rev_image_eqI)
    with Cons.prems(1) p show False by simp
  qed
  with Cons p show ?case by auto
qed simp

lemma forest_ok:
  assumes inv: "chunk_inv env st d m g"
  shows "\<exists>deps roots. bulk_forest st d (cs_index st) [] [] = Inr (deps, roots) \<and>
    walk_ok st m (index_of st g) (rev (map (\<lambda>i. (i, None)) roots)) deps []"
proof -
  let ?recs = "index_of st g" and ?ids = "map fst (cs_index st)"
  have dist: "distinct ?ids" using inv by (simp add: chunk_inv_def)
  then have "\<forall>(i, loc) \<in> set (cs_index st). map_of (cs_index st) i = Some loc" by auto
  from bulk_forest_reads [OF inv this, of "[]" "[]"] obtain deps where
    run: "bulk_forest st d (cs_index st) [] [] = Inr (deps, filter (\<lambda>i. chunk_base_of ?recs i = None) ?ids)"
    and keys: "distinct (map fst deps)" and lists: "\<And>j. deps_of deps j = filter (\<lambda>i. chunk_base_of ?recs i = Some j) ?ids"
    by (auto simp: deps_of_def)
  have dep: "cs = filter (\<lambda>i. chunk_base_of ?recs i = Some j) ?ids" if "(j, cs) \<in> set deps" for j cs
    using lists [of j] that keys by (simp add: deps_of_def)
  have "distinct (concat (map snd deps))" 
  proof (rule deps_distinct [OF keys], clarify)
    fix j cs
    assume "(j, cs) \<in> set deps"
    then have "cs = filter (\<lambda>i. chunk_base_of ?recs i = Some j) ?ids" by (rule dep)
    then show "distinct cs \<and> (\<forall>c \<in> set cs. chunk_base_of ?recs c = Some j)" using dist by simp
  qed
  moreover have "set (concat (map snd deps)) = {i \<in> set ?ids. chunk_base_of ?recs i \<noteq> None}"
  proof (intro set_eqI iffI)
    fix i
    assume "i \<in> {i \<in> set ?ids. chunk_base_of ?recs i \<noteq> None}"
    then obtain j where "i \<in> set (deps_of deps j)" using lists by auto
    then obtain cs where "(j, cs) \<in> set deps" "i \<in> set cs" using deps_of_mem by blast
    then show "i \<in> set (concat (map snd deps))" by (auto intro!: bexI [of _ "(j, cs)"])
  next
    fix i
    assume "i \<in> set (concat (map snd deps))"
    then obtain j cs where "(j, cs) \<in> set deps" "i \<in> set cs" by auto
    then show "i \<in> {i \<in> set ?ids. chunk_base_of ?recs i \<noteq> None}" using dep [of j cs] by simp
  qed
  ultimately have rest: "mset (concat (map snd deps)) = mset (filter (\<lambda>i. chunk_base_of ?recs i \<noteq> None) ?ids)"
    using dist by (subst set_eq_iff_mset_eq_distinct [symmetric]) simp_all
  have bases: "m j \<noteq> None" if "chunk_base_of ?recs i = Some j" for i j
  proof -
    from that obtain hdr p where r: "?recs i = Some (hdr, p)" "rh_encoding hdr = ENC_DELTA" "j = take 32 p"
      by (auto simp: chunk_base_of_def split: option.splits if_splits)
    then have "map_of (cs_index st) i \<noteq> None" by (auto simp: index_recs_def split: option.splits)
    then have "m i \<noteq> None" using inv_index [OF inv, of i] by simp
    then obtain x n where "chunk_at env ?recs n i x" using inv_chunk_at [OF inv] by blast
    then obtain b k where "chunk_at env ?recs k j b" by (rule chunk_at_cases) (use r in auto)
    then show ?thesis using content_stored [OF inv_content [OF inv]] by (auto simp: chunk_stored_def)
  qed
  have "walk_ok st m ?recs (rev (map (\<lambda>i. (i, None)) (filter (\<lambda>i. chunk_base_of ?recs i = None) ?ids))) deps []"
    unfolding walk_ok_def
  proof (intro conjI)
    show "mset (map fst ([] :: (chunk_id \<times> bytes) list)) +
        mset (map fst (rev (map (\<lambda>i. (i, None :: bytes option)) (filter (\<lambda>i. chunk_base_of ?recs i = None) ?ids)))) +
        mset (concat (map snd deps)) = mset ?ids"
      unfolding rest by (simp add: rev_map comp_def flip: mset_map)
    show "\<forall>(j, cs) \<in> set deps. j \<notin> fst ` set ([] :: (chunk_id \<times> bytes) list) \<and> (\<forall>c \<in> set cs. chunk_base_of ?recs c = Some j)"
    proof clarify
      fix j cs
      assume "(j, cs) \<in> set deps"
      from dep [OF this] show "j \<notin> fst ` set ([] :: (chunk_id \<times> bytes) list) \<and> (\<forall>c \<in> set cs. chunk_base_of ?recs c = Some j)" by simp
    qed
  qed (use keys bases in auto)
  with run show ?thesis by blast
qed

text \<open>C40. 
  The bulk walk hands out every chunk of the store exactly once, each with its content, whatever deltas
  the chunks are stored as.
\<close>

theorem bulk_reads_all_once:
  assumes "chunk_holds env st d m"
  shows "\<exists>out. for_each_decoded env st d = (Inr (), out) \<and> distinct (map fst out) \<and> map_of out = m"
proof -
  obtain g where inv: "chunk_inv env st d m g" using assms by (auto simp: chunk_holds_def)
  obtain deps roots where f: "bulk_forest st d (cs_index st) [] [] = Inr (deps, roots)"
    "walk_ok st m (index_of st g) (rev (map (\<lambda>i. (i, None)) roots)) deps []" using forest_ok [OF inv] by blast
  obtain deps' out where w: "bulk_walk env st d (rev (map (\<lambda>i. (i, None)) roots)) deps [] = (Inr (), out)"
    "walk_ok st m (index_of st g) [] deps' out" using walk_reads [OF inv f(2)] by blast
  have ids: "mset (map fst out) = mset (map fst (cs_index st))"
    using w(2) walk_end [OF inv w(2)] by (simp add: walk_ok_def del: mset_map)
  then have dist: "distinct (map fst out)" using inv by (metis chunk_inv_def mset_eq_imp_distinct_iff)
  have len: "length out = length (cs_index st)" using ids by (metis length_map mset_eq_length)
  have "map_of out i = m i" for i
  proof (cases "map_of out i")
    case None
    then have "i \<notin> fst ` set out" by (simp add: map_of_eq_None_iff)
    then show ?thesis using None walk_ids [OF inv w(2), of i] walk_end [OF inv w(2)] by simp
  next
    case (Some x)
    then have "(i, x) \<in> set out" by (rule map_of_SomeD)
    then show ?thesis using Some w(2) by (auto simp: walk_ok_def)
  qed
  with f(1) w(1) len dist show ?thesis by (auto simp: for_each_decoded_def)
qed

theorem bulk_reads_all_once_witness:
  "\<exists>st d out. for_each_decoded sample_store st d = (Inr (), out) \<and> out = [(se_hash sample_store [1, 2, 3], [1, 2, 3])]"
proof -
  obtain st d where ok: "chunk_holds sample_store st d [se_hash sample_store [1, 2, 3] \<mapsto> [1, 2, 3]]"
    using sample_put by blast
  from bulk_reads_all_once [OF ok] obtain out where out: "for_each_decoded sample_store st d = (Inr (), out)"
    "distinct (map fst out)" "map_of out = [se_hash sample_store [1, 2, 3] \<mapsto> [1, 2, 3]]" by blast
  then have keys: "fst ` set out = {se_hash sample_store [1, 2, 3]}" by (metis dom_map_of_conv_image_fst dom_empty dom_fun_upd option.distinct(1))
  then have "set (map fst out) = {se_hash sample_store [1, 2, 3]}" by simp
  with out(2) have "length (map fst out) = 1" by (metis distinct_card is_singletonI is_singleton_altdef)
  then obtain p where "out = [p]" by (cases out) auto
  then have "out = [(se_hash sample_store [1, 2, 3], [1, 2, 3])]" using fun_cong [OF out(3), of "se_hash sample_store [1, 2, 3]"] keys by (cases p) simp
  with out(1) show ?thesis by blast
qed

end
