(* ===== verification/Rec_Log.thy ===== *)
theory Rec_Log
  imports Alt_Pack
begin

text \<open>
  The append-only files of checksummed, fixed-length records that the blob map
  (\<^verbatim>\<open>alt-store/src/blobmap.rs\<close>), the object map (\<^verbatim>\<open>alt-odb/src/map.rs\<close>) and the Tier 1 map
  (\<^verbatim>\<open>alt-odb/src/tier1.rs\<close>) are.  The three spell the same code out over their own record
  types; here it is written once over a \<open>log_format\<close>, which they instantiate.  A process holds the
  in-memory state of the records it has read, how far it has read and the cursor of its file handle;
  the file is shared.  I/O errors are left out, except where the code provokes one.
\<close>

section \<open>Files\<close>

record disk_file =
  df_bytes :: bytes
  df_synced :: nat

definition df_set_len :: "nat \<Rightarrow> disk_file \<Rightarrow> disk_file" where
  "df_set_len n f = \<lparr>df_bytes = take n (df_bytes f) @ replicate (n - length (df_bytes f)) 0,
                     df_synced = min n (df_synced f)\<rparr>"

definition df_sync :: "disk_file \<Rightarrow> disk_file" where
  "df_sync f = f\<lparr>df_synced := length (df_bytes f)\<rparr>"

definition df_write :: "nat \<Rightarrow> bytes \<Rightarrow> disk_file \<Rightarrow> disk_file" where
  "df_write pos b f =
     f\<lparr>df_bytes := take pos (df_bytes f) @ replicate (pos - length (df_bytes f)) 0 @ b
                   @ drop (pos + length b) (df_bytes f)\<rparr>"

lemma df_bytes_simps [simp]:
  "df_bytes (df_set_len n f) = take n (df_bytes f) @ replicate (n - length (df_bytes f)) 0"
  "df_bytes (df_sync f) = df_bytes f"
  "df_bytes (df_write pos b f) = take pos (df_bytes f) @ replicate (pos - length (df_bytes f)) 0 @ b
     @ drop (pos + length b) (df_bytes f)"
  by (simp_all add: df_set_len_def df_sync_def df_write_def)

lemma df_write_end: "pos = length (df_bytes f) \<Longrightarrow> df_bytes (df_write pos b f) = df_bytes f @ b"
  by simp

section \<open>The format\<close>

text \<open>
  \<open>lf_name\<close> is the file's name in the error messages, \<open>lf_hash\<close> is BLAKE3, \<open>lf_checked\<close> the
  length of the checked part of a record, \<open>lf_insert\<close> what a record does to the state in memory.
\<close>

record ('e, 's) log_format =
  lf_name :: string
  lf_magic :: bytes
  lf_version :: u8
  lf_hash :: "bytes \<Rightarrow> bytes"
  lf_checked :: nat
  lf_encode :: "'e \<Rightarrow> bytes"
  lf_parse :: "bytes \<Rightarrow> string + 'e"
  lf_insert :: "'e \<Rightarrow> 's \<Rightarrow> 's"
  lf_empty :: 's

definition LOG_HEADER_LEN :: nat where "LOG_HEADER_LEN = 5"

definition lf_header :: "('e, 's) log_format \<Rightarrow> bytes" where
  "lf_header fmt = lf_magic fmt @ [lf_version fmt]"

definition lf_rec_len :: "('e, 's) log_format \<Rightarrow> nat" where
  "lf_rec_len fmt = lf_checked fmt + 8"

definition lf_checksum :: "('e, 's) log_format \<Rightarrow> bytes \<Rightarrow> bytes" where
  "lf_checksum fmt checked = take 8 (lf_hash fmt checked)"

definition lf_record :: "('e, 's) log_format \<Rightarrow> 'e \<Rightarrow> bytes" where
  "lf_record fmt e = lf_encode fmt e @ lf_checksum fmt (lf_encode fmt e)"

text \<open>Whether a record of the right length carries its checksum.\<close>

definition lf_intact :: "('e, 's) log_format \<Rightarrow> bytes \<Rightarrow> bool" where
  "lf_intact fmt r \<longleftrightarrow> lf_checksum fmt (take (lf_checked fmt) r) = drop (lf_checked fmt) r"

text \<open>What a process holds.\<close>

record 's rec_log =
  rl_state :: 's
  rl_len :: nat
  rl_pos :: nat

section \<open>Opening\<close>

text \<open>The record loop of \<^verbatim>\<open>open\<close>: a bad record ends the file if it is the last, else it is an error.\<close>

function rec_scan :: "('e, 's) log_format \<Rightarrow> bytes \<Rightarrow> nat \<Rightarrow> 's \<Rightarrow> string + 's \<times> nat" where
  "rec_scan fmt data valid s =
     (case take_n (lf_rec_len fmt) data of
        None \<Rightarrow> Inr (s, valid)
      | Some (r, data') \<Rightarrow>
          if \<not> lf_intact fmt r then
            (if data' = [] then Inr (s, valid) else Inl (lf_name fmt @ '' record corrupt''))
          else bindR (lf_parse fmt r) (\<lambda>e. rec_scan fmt data' (valid + lf_rec_len fmt) (lf_insert fmt e s)))"
  by pat_completeness auto
termination
  by (relation "measure (\<lambda>(fmt, data, _). length data)") (auto simp: take_n_eq_Some lf_rec_len_def)

declare rec_scan.simps [simp del]

definition log_file_open ::
  "('e, 's) log_format \<Rightarrow> disk_file option \<Rightarrow> (string + 's rec_log) \<times> disk_file option" where
  "log_file_open fmt fo =
     (case fo of
        None \<Rightarrow>
          (Inr \<lparr>rl_state = lf_empty fmt, rl_len = LOG_HEADER_LEN, rl_pos = LOG_HEADER_LEN\<rparr>,
           Some (df_sync \<lparr>df_bytes = lf_header fmt, df_synced = 0\<rparr>))
      | Some f \<Rightarrow>
          let data = df_bytes f in
          if length data < LOG_HEADER_LEN \<and> strip_prefix data (lf_header fmt) = None
          then (Inl (''bad '' @ lf_name fmt @ '' header''), fo)
          else if \<not> length data < LOG_HEADER_LEN \<and> take 4 data \<noteq> lf_magic fmt
          then (Inl (''bad '' @ lf_name fmt @ '' header''), fo)
          else if \<not> length data < LOG_HEADER_LEN \<and> data ! 4 \<noteq> lf_version fmt
          then (Inl (''unsupported '' @ lf_name fmt @ '' version''), fo)
          else
            let start = min LOG_HEADER_LEN (length data) in
            case rec_scan fmt (drop start data) start (lf_empty fmt) of
              Inl e \<Rightarrow> (Inl e, fo)
            | Inr (s, valid) \<Rightarrow>
                if valid < LOG_HEADER_LEN then
                  (Inr \<lparr>rl_state = s, rl_len = LOG_HEADER_LEN, rl_pos = LOG_HEADER_LEN\<rparr>,
                   Some (df_sync (df_write 0 (lf_header fmt) (df_set_len 0 f))))
                else
                  (Inr \<lparr>rl_state = s, rl_len = valid, rl_pos = valid\<rparr>,
                   Some (if valid < length data then df_sync (df_set_len valid f) else f)))"

section \<open>Appending and catching up\<close>

definition rec_append :: "('e, 's) log_format \<Rightarrow> 'e \<Rightarrow> 's rec_log \<Rightarrow> disk_file \<Rightarrow> 's rec_log \<times> disk_file" where
  "rec_append fmt e log f =
     (\<lparr>rl_state = lf_insert fmt e (rl_state log), rl_len = rl_len log + lf_rec_len fmt,
       rl_pos = rl_pos log + lf_rec_len fmt\<rparr>,
      df_write (rl_pos log) (lf_record fmt e) f)"

text \<open>The record loop of \<^verbatim>\<open>sync_from_disk\<close>: any bad record ends the tail.\<close>

function rec_tail :: "('e, 's) log_format \<Rightarrow> bytes \<Rightarrow> nat \<Rightarrow> 's \<Rightarrow> (string + nat) \<times> 's" where
  "rec_tail fmt tail at s =
     (case take_n (lf_rec_len fmt) tail of
        None \<Rightarrow> (Inr at, s)
      | Some (r, tail') \<Rightarrow>
          if \<not> lf_intact fmt r then (Inr at, s)
          else case lf_parse fmt r of
                 Inl e \<Rightarrow> (Inl e, s)
               | Inr e \<Rightarrow> rec_tail fmt tail' (at + lf_rec_len fmt) (lf_insert fmt e s))"
  by pat_completeness auto
termination
  by (relation "measure (\<lambda>(fmt, data, _). length data)") (auto simp: take_n_eq_Some lf_rec_len_def)

declare rec_tail.simps [simp del]

definition rec_sync_from_disk ::
  "('e, 's) log_format \<Rightarrow> 's rec_log \<Rightarrow> disk_file \<Rightarrow> (string + unit) \<times> 's rec_log \<times> disk_file" where
  "rec_sync_from_disk fmt log f =
     (let size = length (df_bytes f) in
      if size \<le> rl_len log then (Inr (), log, f)
      else
        let tail = drop (rl_len log) (df_bytes f) in
        case rec_tail fmt tail 0 (rl_state log) of
          (Inl e, s) \<Rightarrow> (Inl e, log\<lparr>rl_state := s, rl_pos := size\<rparr>, f)
        | (Inr at, s) \<Rightarrow>
            let new_len = rl_len log + at in
            if at < length tail then
              (Inr (), \<lparr>rl_state = s, rl_len = new_len, rl_pos = new_len\<rparr>, df_sync (df_set_len new_len f))
            else (Inr (), \<lparr>rl_state = s, rl_len = new_len, rl_pos = size\<rparr>, f))"

section \<open>Rewinding\<close>

text \<open>The checks of \<^verbatim>\<open>rewind\<close>: the number of bytes to drop, or the refusal.\<close>

definition rewind_bytes :: "('e, 's) log_format \<Rightarrow> nat \<Rightarrow> 's rec_log \<Rightarrow> string + nat" where
  "rewind_bytes fmt target log =
     (if rl_len log < target then Inl (lf_name fmt @ '' rewind target above cursor'')
      else if target < LOG_HEADER_LEN then Inl (lf_name fmt @ '' rewind target below header'')
      else if \<not> lf_rec_len fmt dvd (rl_len log - target) then Inl (lf_name fmt @ '' rewind target mid-record'')
      else Inr (rl_len log - target))"

text \<open>The end of \<^verbatim>\<open>rewind\<close>, once the state in memory has been brought back to \<open>s\<close>.\<close>

definition rewind_to :: "nat \<Rightarrow> 's \<Rightarrow> 's rec_log \<Rightarrow> disk_file \<Rightarrow> 's rec_log \<times> disk_file" where
  "rewind_to target s log f =
     (\<lparr>rl_state = s, rl_len = target, rl_pos = target\<rparr>, df_sync (df_set_len target f))"

section \<open>The files that records make\<close>

definition log_bytes :: "('e, 's) log_format \<Rightarrow> 'e list \<Rightarrow> bytes" where
  "log_bytes fmt es = lf_header fmt @ concat (map (lf_record fmt) es)"

definition log_state :: "('e, 's) log_format \<Rightarrow> 'e list \<Rightarrow> 's" where
  "log_state fmt es = fold (lf_insert fmt) es (lf_empty fmt)"

text \<open>What a crash in the middle of an append leaves behind the last whole record.\<close>

definition log_torn :: "('e, 's) log_format \<Rightarrow> bytes \<Rightarrow> bool" where
  "log_torn fmt t \<longleftrightarrow> length t < lf_rec_len fmt \<or> length t = lf_rec_len fmt \<and> \<not> lf_intact fmt t"

text \<open>A process has read the records \<open>es\<close> and its cursor stands behind them.\<close>

definition log_knows :: "('e, 's) log_format \<Rightarrow> 's rec_log \<Rightarrow> 'e list \<Rightarrow> bool" where
  "log_knows fmt log es \<longleftrightarrow>
     log = \<lparr>rl_state = log_state fmt es, rl_len = length (log_bytes fmt es), rl_pos = length (log_bytes fmt es)\<rparr>"

lemma log_torn_Nil [simp]: "log_torn fmt []"
  by (simp add: log_torn_def lf_rec_len_def)

lemma log_bytes_append: "log_bytes fmt (es @ fs) = log_bytes fmt es @ concat (map (lf_record fmt) fs)"
  by (simp add: log_bytes_def)

lemma log_state_snoc: "log_state fmt (es @ [e]) = lf_insert fmt e (log_state fmt es)"
  by (simp add: log_state_def)

text \<open>What the three formats promise: fixed length records that parse back.\<close>

locale rec_log_format =
  fixes fmt :: "('e, 's) log_format" and ok :: "'e \<Rightarrow> bool"
  assumes magic_length: "length (lf_magic fmt) = 4"
    and encode_length: "ok e \<Longrightarrow> length (lf_encode fmt e) = lf_checked fmt"
    and parse_record: "ok e \<Longrightarrow> lf_parse fmt (lf_record fmt e) = Inr e"
    and checksum_length: "ok e \<Longrightarrow> length (lf_checksum fmt (lf_encode fmt e)) = 8"
begin

lemma record_length: "ok e \<Longrightarrow> length (lf_record fmt e) = lf_rec_len fmt"
  by (simp add: lf_record_def lf_rec_len_def encode_length checksum_length)

lemma record_intact: "ok e \<Longrightarrow> lf_intact fmt (lf_record fmt e)"
  by (simp add: lf_intact_def lf_record_def encode_length)

lemma header_length: "length (lf_header fmt) = LOG_HEADER_LEN"
  by (simp add: lf_header_def magic_length LOG_HEADER_LEN_def)

lemma records_length: "\<forall>e \<in> set es. ok e \<Longrightarrow> length (concat (map (lf_record fmt) es)) = lf_rec_len fmt * length es"
  by (induction es) (simp_all add: record_length)

lemma log_bytes_length: "\<forall>e \<in> set es. ok e \<Longrightarrow> length (log_bytes fmt es) = LOG_HEADER_LEN + lf_rec_len fmt * length es"
  by (simp add: log_bytes_def header_length records_length)

lemma torn_ends:
  assumes "log_torn fmt t"
  shows "take_n (lf_rec_len fmt) t = None \<or> (\<exists>r. take_n (lf_rec_len fmt) t = Some (r, []) \<and> \<not> lf_intact fmt r)"
  using assms unfolding log_torn_def
proof
  assume "length t < lf_rec_len fmt"
  then show ?thesis by (simp add: take_n_eq_None)
next
  assume "length t = lf_rec_len fmt \<and> \<not> lf_intact fmt t"
  then show ?thesis by (simp add: take_n_exact)
qed

lemma scan_records:
  assumes "log_torn fmt t"
  shows "\<forall>e \<in> set es. ok e \<Longrightarrow> rec_scan fmt (concat (map (lf_record fmt) es) @ t) valid s =
    Inr (fold (lf_insert fmt) es s, valid + lf_rec_len fmt * length es)"
proof (induction es arbitrary: valid s)
  case Nil
  show ?case using torn_ends [OF assms] by (subst rec_scan.simps) auto
next
  case (Cons e es)
  have "take_n (lf_rec_len fmt) (lf_record fmt e @ concat (map (lf_record fmt) es) @ t) =
      Some (lf_record fmt e, concat (map (lf_record fmt) es) @ t)"
    using Cons.prems by (simp add: take_n_append record_length)
  then show ?case using Cons by (subst rec_scan.simps) (simp add: record_intact parse_record)
qed

lemma tail_records:
  assumes "log_torn fmt t"
  shows "\<forall>e \<in> set es. ok e \<Longrightarrow> rec_tail fmt (concat (map (lf_record fmt) es) @ t) at s =
    (Inr (at + lf_rec_len fmt * length es), fold (lf_insert fmt) es s)"
proof (induction es arbitrary: at s)
  case Nil
  show ?case using torn_ends [OF assms] by (subst rec_tail.simps) auto
next
  case (Cons e es)
  have "take_n (lf_rec_len fmt) (lf_record fmt e @ concat (map (lf_record fmt) es) @ t) =
      Some (lf_record fmt e, concat (map (lf_record fmt) es) @ t)"
    using Cons.prems by (simp add: take_n_append record_length)
  then show ?case using Cons by (subst rec_tail.simps) (simp add: record_intact parse_record)
qed

lemma header_reads:
  "take 4 (log_bytes fmt es @ t) = lf_magic fmt" "(log_bytes fmt es @ t) ! 4 = lf_version fmt"
  "\<not> length (log_bytes fmt es @ t) < LOG_HEADER_LEN"
  "drop LOG_HEADER_LEN (log_bytes fmt es @ t) = concat (map (lf_record fmt) es) @ t"
  using magic_length by (simp_all add: log_bytes_def lf_header_def LOG_HEADER_LEN_def nth_append)

lemma open_new:
  "\<exists>f. log_file_open fmt None = (Inr \<lparr>rl_state = log_state fmt [], rl_len = length (log_bytes fmt []), rl_pos = length (log_bytes fmt [])\<rparr>, Some f) \<and>
    df_bytes f = log_bytes fmt []"
  by (simp add: log_file_open_def log_state_def log_bytes_def header_length)

lemma open_torn:
  assumes "\<forall>e \<in> set es. ok e" and "log_torn fmt t" and "df_bytes f = log_bytes fmt es @ t"
  shows "\<exists>log f'. log_file_open fmt (Some f) = (Inr log, Some f') \<and> log_knows fmt log es \<and> df_bytes f' = log_bytes fmt es"
proof -
  let ?n = "LOG_HEADER_LEN + lf_rec_len fmt * length es"
  have scan: "rec_scan fmt (drop LOG_HEADER_LEN (df_bytes f)) LOG_HEADER_LEN (lf_empty fmt) = Inr (log_state fmt es, ?n)"
    unfolding assms(3) header_reads(4) log_state_def by (rule scan_records [OF assms(2,1)])
  have start: "min LOG_HEADER_LEN (length (df_bytes f)) = LOG_HEADER_LEN" using header_reads(3) [of es t] assms(3) by simp
  have n: "length (log_bytes fmt es) = ?n" by (rule log_bytes_length [OF assms(1)])
  have "log_file_open fmt (Some f) = (Inr \<lparr>rl_state = log_state fmt es, rl_len = ?n, rl_pos = ?n\<rparr>,
      Some (if ?n < length (df_bytes f) then df_sync (df_set_len ?n f) else f))"
    using header_reads(1-3) [of es t] scan by (simp add: log_file_open_def Let_def start flip: assms(3))
  moreover have "df_bytes (if ?n < length (df_bytes f) then df_sync (df_set_len ?n f) else f) = log_bytes fmt es"
    using n assms(3) by auto
  ultimately show ?thesis using n by (simp add: log_knows_def)
qed

lemma open_short:
  assumes "length (df_bytes f) < LOG_HEADER_LEN" and "df_bytes f = take (length (df_bytes f)) (lf_header fmt)"
  shows "\<exists>log f'. log_file_open fmt (Some f) = (Inr log, Some f') \<and> log_knows fmt log [] \<and> df_bytes f' = log_bytes fmt []"
proof -
  have "strip_prefix (df_bytes f) (lf_header fmt) \<noteq> None"
    using assms(2) strip_prefix_append by (metis append_take_drop_id option.distinct(1))
  moreover have "rec_scan fmt [] v s = Inr (s, v)" for v s
    using scan_records [of "[]" "[]" v s] by simp
  ultimately show ?thesis using assms(1) header_length
    by (simp add: log_file_open_def Let_def log_knows_def log_state_def log_bytes_def)
qed

lemma append_knows:
  assumes "log_knows fmt log es" and "df_bytes f = log_bytes fmt es" and "ok e"
  shows "\<exists>log' f'. rec_append fmt e log f = (log', f') \<and> log_knows fmt log' (es @ [e]) \<and> df_bytes f' = log_bytes fmt (es @ [e])"
  using assms by (simp add: rec_append_def log_knows_def log_state_snoc log_bytes_append record_length)

lemma sync_catches_up:
  assumes "log_knows fmt log es" and "\<forall>e \<in> set (es @ fs). ok e" and "log_torn fmt t" and "df_bytes f = log_bytes fmt (es @ fs) @ t"
  shows "\<exists>log' f'. rec_sync_from_disk fmt log f = (Inr (), log', f') \<and> log_knows fmt log' (es @ fs) \<and>
    df_bytes f' = log_bytes fmt (es @ fs)"
proof (cases "length (df_bytes f) \<le> rl_len log")
  case True
  have "concat (map (lf_record fmt) fs) @ t = []" using True assms(1,4) by (simp add: log_knows_def log_bytes_append)
  moreover from this have "length (concat (map (lf_record fmt) fs)) = 0" by simp
  then have "lf_rec_len fmt * length fs = 0" using records_length [of fs] assms(2) by simp
  ultimately have "fs = []" "t = []" by (auto simp: lf_rec_len_def)
  then show ?thesis using assms(1,4) True by (simp add: rec_sync_from_disk_def)
next
  case False
  let ?n = "length (log_bytes fmt es)" and ?m = "lf_rec_len fmt * length fs"
  have len: "rl_len log = ?n" using assms(1) by (simp add: log_knows_def)
  have tail: "drop ?n (df_bytes f) = concat (map (lf_record fmt) fs) @ t" by (simp add: assms(4) log_bytes_append)
  have "rec_tail fmt (drop ?n (df_bytes f)) 0 (rl_state log) = (Inr ?m, log_state fmt (es @ fs))"
    using tail_records [OF assms(3), of fs 0] assms(1,2) by (simp add: tail log_knows_def log_state_def)
  moreover have m: "length (concat (map (lf_record fmt) fs)) = ?m" using records_length assms(2) by simp
  moreover have total: "length (log_bytes fmt (es @ fs)) = ?n + ?m" by (simp add: log_bytes_append m)
  moreover from this have "length (df_bytes f) = ?n + ?m + length t" by (simp add: assms(4))
  ultimately show ?thesis using False len assms(4)
    by (cases "t = []") (simp_all add: rec_sync_from_disk_def Let_def log_knows_def tail)
qed

lemma rewind_known:
  assumes "log_knows fmt log (es @ fs)" and "\<forall>e \<in> set (es @ fs). ok e"
  shows "rewind_bytes fmt (length (log_bytes fmt es)) log = Inr (lf_rec_len fmt * length fs)"
  using assms by (simp add: rewind_bytes_def log_knows_def log_bytes_length algebra_simps)

lemma rewind_drops:
  assumes "df_bytes f = log_bytes fmt (es @ fs)" and "rewind_to (length (log_bytes fmt es)) (log_state fmt es) log f = (log', f')"
  shows "log_knows fmt log' es \<and> df_bytes f' = log_bytes fmt es"
  using assms by (auto simp: rewind_to_def log_knows_def log_bytes_append)

text \<open>
  A process that has read records which another one then rewinds does not notice, and its next append
  leaves a hole of zeros: the file no longer opens.
\<close>

lemma stale_hole:
  assumes "log_knows fmt log (es @ fs)" and "\<forall>e \<in> set (es @ fs @ [e]). ok e" and "fs \<noteq> []" and "df_bytes f = log_bytes fmt es"
    and zeros: "\<not> lf_intact fmt (replicate (lf_rec_len fmt) 0)"
  shows "rec_sync_from_disk fmt log f = (Inr (), log, f) \<and>
    (\<exists>log' f'. rec_append fmt e log f = (log', f') \<and>
       fst (log_file_open fmt (Some f')) = Inl (lf_name fmt @ '' record corrupt''))"
proof -
  let ?z = "replicate (lf_rec_len fmt * length fs) 0 @ lf_record fmt e"
  have len: "length (log_bytes fmt (es @ fs)) = length (log_bytes fmt es) + lf_rec_len fmt * length fs"
    using assms(2) by (simp add: log_bytes_append records_length)
  have sync: "rec_sync_from_disk fmt log f = (Inr (), log, f)"
    using assms(1,4) len by (simp add: rec_sync_from_disk_def log_knows_def Let_def)
  obtain log' f' where app: "rec_append fmt e log f = (log', f')" by (rule prod.exhaust)
  have f': "df_bytes f' = log_bytes fmt es @ ?z"
    using app assms(1,4) len by (auto simp: rec_append_def log_knows_def)
  have first: "take_n (lf_rec_len fmt) ?z = Some (replicate (lf_rec_len fmt) 0, replicate (lf_rec_len fmt * (length fs - 1)) 0 @ lf_record fmt e)"
  proof -
    obtain k where "length fs = Suc k" using assms(3) by (cases fs) auto
    then have "?z = replicate (lf_rec_len fmt) 0 @ replicate (lf_rec_len fmt * (length fs - 1)) 0 @ lf_record fmt e"
      by (simp add: replicate_add)
    then show ?thesis by (simp add: take_n_append)
  qed
  have "rec_scan fmt (concat (map (lf_record fmt) xs) @ ?z) v s = Inl (lf_name fmt @ '' record corrupt'')"
    if "\<forall>e \<in> set xs. ok e" for xs v s
    using that
  proof (induction xs arbitrary: v s)
    case Nil
    have "lf_record fmt e \<noteq> []" using record_length [of e] assms(2) by (auto simp: lf_rec_len_def)
    then show ?case using first zeros by (subst rec_scan.simps) simp
  next
    case (Cons x xs)
    then show ?case by (subst rec_scan.simps) (simp add: take_n_append record_length record_intact parse_record)
  qed
  then have scan: "rec_scan fmt (drop LOG_HEADER_LEN (df_bytes f')) LOG_HEADER_LEN (lf_empty fmt) = Inl (lf_name fmt @ '' record corrupt'')"
    unfolding f' header_reads(4) using assms(2) by simp
  have "min LOG_HEADER_LEN (length (df_bytes f')) = LOG_HEADER_LEN" using header_reads(3) [of es ?z] f' by simp
  then have "fst (log_file_open fmt (Some f')) = Inl (lf_name fmt @ '' record corrupt'')"
    using header_reads(1-3) [of es ?z] scan by (simp add: log_file_open_def Let_def flip: f')
  with sync app show ?thesis by blast
qed

end

end
