(* ===== verification/Blob_Store.thy ===== *)
theory Blob_Store
  imports Chunk_Bulk Rec_Log Cdc
begin

text \<open>
  \<^verbatim>\<open>alt-store/src/blobmap.rs\<close> and \<^verbatim>\<open>alt-store/src/blob.rs\<close>: byte streams over the chunk store.  A
  stream that the chunker leaves in one piece is a chunk under its own hash; any other is cut into
  chunks, listed by a tree of manifest nodes that are chunks themselves, and the blob map records
  the root of the tree.  An option result is \<open>None\<close> where the code panics.
\<close>

section \<open>The blob map\<close>

type_synonym blob_entry = "blob_id \<times> chunk_id \<times> u64"
type_synonym blob_roots = "blob_id \<Rightarrow> (chunk_id \<times> u64) option"

definition blobmap_format :: "(bytes \<Rightarrow> bytes) \<Rightarrow> (blob_entry, blob_roots) log_format" where
  "blobmap_format h =
     \<lparr>lf_name = ''blobmap'', lf_magic = lit ''ALTB'', lf_version = 1, lf_hash = h, lf_checked = 72,
      lf_encode = (\<lambda>(blob, root, total_len). blob @ root @ le_bytes 8 total_len),
      lf_parse = (\<lambda>r. Inr (take 32 r, take 32 (drop 32 r), from_le (take 8 (drop 64 r)))),
      lf_insert = (\<lambda>(blob, root, total_len) m. m(blob \<mapsto> (root, total_len))),
      lf_empty = Map.empty\<rparr>"

type_synonym blob_map = "blob_roots rec_log"

definition blobmap_open ::
  "(bytes \<Rightarrow> bytes) \<Rightarrow> disk_file option \<Rightarrow> (store_error + blob_map) \<times> disk_file option" where
  "blobmap_open h fo = (let (r, fo') = log_file_open (blobmap_format h) fo in (map_err StoreFormat r, fo'))"

definition blobmap_append ::
  "(bytes \<Rightarrow> bytes) \<Rightarrow> blob_id \<Rightarrow> chunk_id \<Rightarrow> u64 \<Rightarrow> blob_map \<Rightarrow> disk_file \<Rightarrow> blob_map \<times> disk_file" where
  "blobmap_append h blob root total_len = rec_append (blobmap_format h) (blob, root, total_len)"

definition blobmap_sync_from_disk ::
  "(bytes \<Rightarrow> bytes) \<Rightarrow> blob_map \<Rightarrow> disk_file \<Rightarrow> (store_error + unit) \<times> blob_map \<times> disk_file" where
  "blobmap_sync_from_disk h log f =
     (let (r, log', f') = rec_sync_from_disk (blobmap_format h) log f in (map_err StoreFormat r, log', f'))"

definition blobmap_get :: "blob_map \<Rightarrow> blob_id \<Rightarrow> (chunk_id \<times> u64) option" where
  "blobmap_get log blob = rl_state log blob"

definition blobmap_contains :: "blob_map \<Rightarrow> blob_id \<Rightarrow> bool" where
  "blobmap_contains log blob \<longleftrightarrow> rl_state log blob \<noteq> None"

text \<open>\<^verbatim>\<open>as_chunks\<close>: the whole groups of \<open>n\<close> at the front.\<close>

function as_chunks :: "nat \<Rightarrow> 'a list \<Rightarrow> 'a list list" where
  "as_chunks n xs =
     (case take_n n xs of None \<Rightarrow> [] | Some (g, xs') \<Rightarrow> if g = [] then [] else g # as_chunks n xs')"
  by pat_completeness auto
termination
  by (relation "measure (\<lambda>(n, xs). length xs)") (auto simp: take_n_eq_Some)

declare as_chunks.simps [simp del]

definition blobmap_rewind ::
  "(bytes \<Rightarrow> bytes) \<Rightarrow> nat \<Rightarrow> blob_map \<Rightarrow> disk_file \<Rightarrow> (store_error + unit) \<times> blob_map \<times> disk_file" where
  "blobmap_rewind h target log f =
     (case rewind_bytes (blobmap_format h) target log of
        Inl e \<Rightarrow> (Inl (StoreFormat e), log, f)
      | Inr drop_bytes \<Rightarrow>
          (case (if 0 < drop_bytes then read_exact_at (df_bytes f) drop_bytes target else Inr []) of
             Inl e \<Rightarrow> (Inl e, log\<lparr>rl_pos := target\<rparr>, f)
           | Inr tail \<Rightarrow>
               let m = fold (\<lambda>r m. m(take 32 r := None)) (as_chunks 80 tail) (rl_state log);
                   (log', f') = rewind_to target m log f
               in (Inr (), log', f')))"

section \<open>Manifest nodes\<close>

definition NODE_MAGIC :: bytes where "NODE_MAGIC = lit ''ALTM''"
definition NODE_VERSION :: u8 where "NODE_VERSION = 1"
definition NODE_HEADER_LEN :: nat where "NODE_HEADER_LEN = 10"
definition NODE_ENTRY_LEN :: nat where "NODE_ENTRY_LEN = 40"

record node_entry =
  ne_id :: chunk_id
  ne_span :: u64

definition node_entry_bytes :: "node_entry \<Rightarrow> bytes" where
  "node_entry_bytes e = ne_id e @ le_bytes 8 (ne_span e)"

definition encode_node :: "u8 \<Rightarrow> node_entry list \<Rightarrow> bytes" where
  "encode_node level entries =
     NODE_MAGIC @ [NODE_VERSION, level] @ le_bytes 4 (of_nat (length entries) :: u32)
     @ concat (map node_entry_bytes entries)"

definition parse_node :: "bytes \<Rightarrow> store_error + u8 \<times> node_entry list" where
  "parse_node data =
     (if length data < NODE_HEADER_LEN \<or> take 4 data \<noteq> NODE_MAGIC then Inl (StoreFormat ''bad manifest node header'')
      else if data ! 4 \<noteq> NODE_VERSION then Inl (StoreFormat ''unsupported manifest node version'')
      else
        let level = data ! 5;
            n = unat (from_le (take 4 (drop 6 data)) :: u32)
        in if n * NODE_ENTRY_LEN + NODE_HEADER_LEN \<noteq> length data
           then Inl (StoreFormat ''manifest node length mismatch'')
           else Inr (level, map (\<lambda>raw. \<lparr>ne_id = take 32 raw, ne_span = from_le (drop 32 raw)\<rparr>)
                              (as_chunks NODE_ENTRY_LEN (drop NODE_HEADER_LEN data))))"

section \<open>The store\<close>

record blob_opts =
  bo_chunks :: chunk_opts
  bo_cdc :: cdc_params
  bo_fanout :: nat

definition blob_opts_default :: blob_opts where
  "blob_opts_default = \<lparr>bo_chunks = chunk_opts_default, bo_cdc = DEFAULT_PARAMS, bo_fanout = 4096\<rparr>"

record blob_store =
  bs_chunks :: chunk_store
  bs_map :: blob_map
  bs_opts :: blob_opts

text \<open>The directory: the packs and the blob map file.\<close>

record blob_disk =
  bd_chunks :: chunk_disk
  bd_map :: "disk_file option"

definition bd_map_file :: "blob_disk \<Rightarrow> disk_file" where
  "bd_map_file d = (case bd_map d of None \<Rightarrow> \<lparr>df_bytes = [], df_synced = 0\<rparr> | Some f \<Rightarrow> f)"

definition blob_open ::
  "store_env \<Rightarrow> blob_opts \<Rightarrow> blob_disk \<Rightarrow> ((store_error + blob_store) \<times> blob_disk) option" where
  "blob_open env opts d =
     (if bo_fanout opts < 2 then None
      else Some
       (case chunk_open env (bo_chunks opts) (bd_chunks d) of
          (Inl e, cd) \<Rightarrow> (Inl e, d\<lparr>bd_chunks := cd\<rparr>)
        | (Inr cs, cd) \<Rightarrow>
            (case blobmap_open (se_hash env) (bd_map d) of
               (Inl e, fo) \<Rightarrow> (Inl e, \<lparr>bd_chunks = cd, bd_map = fo\<rparr>)
             | (Inr log, fo) \<Rightarrow>
                 (Inr \<lparr>bs_chunks = cs, bs_map = log, bs_opts = opts\<rparr>, \<lparr>bd_chunks = cd, bd_map = fo\<rparr>))))"

definition blob_contains :: "blob_store \<Rightarrow> blob_id \<Rightarrow> bool" where
  "blob_contains bs i \<longleftrightarrow> blobmap_contains (bs_map bs) i \<or> chunk_contains (bs_chunks bs) i"

definition is_multi_chunk :: "blob_store \<Rightarrow> blob_id \<Rightarrow> bool" where
  "is_multi_chunk bs i \<longleftrightarrow> blobmap_contains (bs_map bs) i"

section \<open>Writing\<close>

text \<open>\<^verbatim>\<open>level.chunks(fanout)\<close>: groups of \<open>n\<close>, the last one possibly shorter.\<close>

function slice_chunks :: "nat \<Rightarrow> 'a list \<Rightarrow> 'a list list" where
  "slice_chunks n xs = (if n = 0 \<or> xs = [] then [] else take n xs # slice_chunks n (drop n xs))"
  by pat_completeness auto
termination
  by (relation "measure (\<lambda>(n, xs). length xs)") auto

declare slice_chunks.simps [simp del]

text \<open>A batch of puts, the data with the span each stands for, until one fails.\<close>

fun put_entries ::
  "store_env \<Rightarrow> (bytes \<times> u64) list \<Rightarrow> chunk_store \<Rightarrow> chunk_disk
     \<Rightarrow> (store_error + node_entry list) \<times> chunk_store \<times> chunk_disk" where
  "put_entries env [] cs d = (Inr [], cs, d)"
| "put_entries env ((data, span) # rest) cs d =
     (case chunk_put env data cs d of
        (Inl e, cs', d') \<Rightarrow> (Inl e, cs', d')
      | (Inr i, cs', d') \<Rightarrow>
          (case put_entries env rest cs' d' of
             (Inl e, cs'', d'') \<Rightarrow> (Inl e, cs'', d'')
           | (Inr es, cs'', d'') \<Rightarrow> (Inr (\<lparr>ne_id = i, ne_span = span\<rparr> # es), cs'', d'')))"

definition level_nodes :: "nat \<Rightarrow> u8 \<Rightarrow> node_entry list \<Rightarrow> (bytes \<times> u64) list" where
  "level_nodes fanout depth level =
     map (\<lambda>es. (encode_node depth es, sum_list (map ne_span es))) (slice_chunks fanout level)"

lemma depth_grows: "depth \<noteq> 255 \<Longrightarrow> unat (depth + 1 :: u8) = unat depth + 1 \<and> unat depth < 255"
proof -
  assume "depth \<noteq> 255"
  then have "unat depth \<noteq> unat (255 :: u8)" by (simp add: word_unat_eq_iff)
  then have "unat depth \<noteq> 255" by simp
  moreover have "unat depth < 256" by (rule unat_u8_less)
  ultimately show ?thesis by (simp add: unat_word_ariths)
qed

text \<open>The loop over the levels of the manifest: the root entry.\<close>

function put_tree ::
  "store_env \<Rightarrow> nat \<Rightarrow> u8 \<Rightarrow> node_entry list \<Rightarrow> chunk_store \<Rightarrow> chunk_disk
     \<Rightarrow> (store_error + node_entry) \<times> chunk_store \<times> chunk_disk" where
  "put_tree env fanout depth level cs d =
     (if length level \<le> 1 then (Inr (hd level), cs, d)
      else case put_entries env (level_nodes fanout depth level) cs d of
             (Inl e, cs', d') \<Rightarrow> (Inl e, cs', d')
           | (Inr parents, cs', d') \<Rightarrow>
               if depth = 255 then (Inl (StoreFormat ''manifest tree too deep''), cs', d')
               else put_tree env fanout (depth + 1) parents cs' d')"
  by pat_completeness auto
termination
  by (relation "measure (\<lambda>(env, fanout, depth, level, cs, d). 255 - unat depth)") (auto dest!: depth_grows)

declare put_tree.simps [simp del]

text \<open>A piece of the stream and the span of its entry.\<close>

definition piece_item :: "bytes \<Rightarrow> bytes \<times> u64" where
  "piece_item piece = (piece, of_nat (length piece))"

definition blob_put ::
  "store_env \<Rightarrow> bytes \<Rightarrow> blob_store \<Rightarrow> blob_disk \<Rightarrow> ((store_error + blob_id) \<times> blob_store \<times> blob_disk) option" where
  "blob_put env data bs d =
     (let i = se_hash env data in
      if blob_contains bs i then Some (Inr i, bs, d)
      else case cdc_chunks data (bo_cdc (bs_opts bs)) of
        None \<Rightarrow> None
      | Some pieces \<Rightarrow>
          if length pieces \<le> 1 then
            (case chunk_put env data (bs_chunks bs) (bd_chunks d) of
               (Inl e, cs, cd) \<Rightarrow> Some (Inl e, bs\<lparr>bs_chunks := cs\<rparr>, d\<lparr>bd_chunks := cd\<rparr>)
             | (Inr _, cs, cd) \<Rightarrow> Some (Inr i, bs\<lparr>bs_chunks := cs\<rparr>, d\<lparr>bd_chunks := cd\<rparr>))
          else if bo_fanout (bs_opts bs) = 0 then None
          else
            (case put_entries env (map piece_item pieces) (bs_chunks bs) (bd_chunks d) of
               (Inl e, cs, cd) \<Rightarrow> Some (Inl e, bs\<lparr>bs_chunks := cs\<rparr>, d\<lparr>bd_chunks := cd\<rparr>)
             | (Inr level, cs, cd) \<Rightarrow>
                 (case put_tree env (bo_fanout (bs_opts bs)) 0 level cs cd of
                    (Inl e, cs, cd) \<Rightarrow> Some (Inl e, bs\<lparr>bs_chunks := cs\<rparr>, d\<lparr>bd_chunks := cd\<rparr>)
                  | (Inr root, cs, cd) \<Rightarrow>
                      let (log, f) = blobmap_append (se_hash env) i (ne_id root) (of_nat (length data)) (bs_map bs) (bd_map_file d)
                      in Some (Inr i, bs\<lparr>bs_chunks := cs, bs_map := log\<rparr>, \<lparr>bd_chunks = cd, bd_map = Some f\<rparr>))))"

section \<open>Reading\<close>

datatype chunk_read = ReadFast | ReadDeep | ReadBulk

text \<open>How the assembler reads one chunk.\<close>

definition read_chunk ::
  "store_env \<Rightarrow> chunk_disk \<Rightarrow> chunk_read \<Rightarrow> chunk_id \<Rightarrow> chunk_store \<Rightarrow> (store_error + bytes) \<times> chunk_store" where
  "read_chunk env d mode i cs =
     (case mode of
        ReadDeep \<Rightarrow> read_deep env d i cs
      | ReadFast \<Rightarrow> read_unverified env d i cs
      | ReadBulk \<Rightarrow> decode_chunk_unverified env d i cs)"

lemma parse_node_level: "parse_node data = Inr (level, entries) \<Longrightarrow> unat level < 256"
  by (rule unat_u8_less)

lemma level_falls: "level \<noteq> 0 \<Longrightarrow> unat (level - 1 :: u8) + 1 = unat level"
  by (simp add: unat_minus_one unat_gt_0)

lemma rank_bound: "2 * unat (level :: u8) < 512"
  using unat_u8_less [of level] by simp

lemma rank_falls: "level \<noteq> 0 \<Longrightarrow> Suc (2 * unat (level - 1 :: u8)) < 2 * unat level"
  using level_falls [of level] by simp

text \<open>
  \<^verbatim>\<open>walk\<close> and its loop over the entries of a node, with what the loop has put out so far.  Levels go
  down by one at each step, so the walk ends whatever the chunks hold.
\<close>

function blob_walk ::
  "store_env \<Rightarrow> chunk_disk \<Rightarrow> chunk_read \<Rightarrow> chunk_id \<Rightarrow> u8 option \<Rightarrow> chunk_store \<Rightarrow> (store_error + bytes) \<times> chunk_store"
and walk_entries ::
  "store_env \<Rightarrow> chunk_disk \<Rightarrow> chunk_read \<Rightarrow> u8 \<Rightarrow> node_entry list \<Rightarrow> bytes \<Rightarrow> chunk_store
     \<Rightarrow> (store_error + bytes) \<times> chunk_store" where
  "blob_walk env d mode node expect cs =
     (case read_chunk env d mode node cs of
        (Inl e, cs1) \<Rightarrow> (Inl e, cs1)
      | (Inr data, cs1) \<Rightarrow>
          (case parse_node data of
             Inl e \<Rightarrow> (Inl e, cs1)
           | Inr (level, entries) \<Rightarrow>
               if expect \<noteq> None \<and> expect \<noteq> Some level then (Inl (StoreFormat ''manifest level mismatch''), cs1)
               else walk_entries env d mode level entries [] cs1))"
| "walk_entries env d mode level [] out cs = (Inr out, cs)"
| "walk_entries env d mode level (e # entries) out cs =
     (if level = 0 then
        (case read_chunk env d mode (ne_id e) cs of
           (Inl err, cs1) \<Rightarrow> (Inl err, cs1)
         | (Inr piece, cs1) \<Rightarrow>
             if length piece \<noteq> unat (ne_span e) then (Inl (ChunkCorrupt (ne_id e) ''manifest span mismatch''), cs1)
             else walk_entries env d mode level entries (out @ piece) cs1)
      else
        (case blob_walk env d mode (ne_id e) (Some (level - 1)) cs of
           (Inl err, cs1) \<Rightarrow> (Inl err, cs1)
         | (Inr piece, cs1) \<Rightarrow> walk_entries env d mode level entries (out @ piece) cs1))"
  by pat_completeness auto

termination
  by (relation "measures
    [case_sum (\<lambda>(env, d, mode, node, expect, cs). case expect of None \<Rightarrow> 512 | Some l \<Rightarrow> 2 * unat l + 1)
              (\<lambda>(env, d, mode, level, entries, out, cs). 2 * unat level),
     case_sum (\<lambda>_. 0) (\<lambda>(env, d, mode, level, entries, out, cs). length entries)]") (auto simp: rank_bound rank_falls split: option.split)

declare blob_walk.simps [simp del]
declare walk_entries.simps(2) [simp del]

text \<open>\<^verbatim>\<open>materialize\<close>; a deep read of a blob that is one chunk only checks it.\<close>

definition materialize ::
  "store_env \<Rightarrow> blob_disk \<Rightarrow> chunk_read \<Rightarrow> bool \<Rightarrow> blob_id \<Rightarrow> blob_store \<Rightarrow> (store_error + bytes) \<times> blob_store" where
  "materialize env d mode hash_boundary i bs =
     (case blobmap_get (bs_map bs) i of
        None \<Rightarrow>
          let (res, cs) =
                (case mode of
                   ReadDeep \<Rightarrow> (let (r, cs) = verify_chunk env (bd_chunks d) i (bs_chunks bs) in (map_sum (\<lambda>e. e) (\<lambda>_. []) r, cs))
                 | ReadFast \<Rightarrow> chunk_get env (bd_chunks d) i (bs_chunks bs)
                 | ReadBulk \<Rightarrow> decode_chunk_unverified env (bd_chunks d) i (bs_chunks bs))
          in (case res of
                Inr data \<Rightarrow> Inr data
              | Inl (ChunkNotFound _) \<Rightarrow> Inl (BlobNotFound i)
              | Inl e \<Rightarrow> Inl e,
              bs\<lparr>bs_chunks := cs\<rparr>)
      | Some (root, total_len) \<Rightarrow>
          let (res, cs) = blob_walk env (bd_chunks d) mode root None (bs_chunks bs)
          in (bindR res (\<lambda>out.
                if length out \<noteq> unat total_len then Inl (ChunkCorrupt root ''manifest span mismatch'')
                else if hash_boundary \<and> se_hash env out \<noteq> i then Inl (ChunkCorrupt root ''blob hash mismatch'')
                else Inr out),
              bs\<lparr>bs_chunks := cs\<rparr>))"

definition blob_get :: "store_env \<Rightarrow> blob_disk \<Rightarrow> blob_id \<Rightarrow> blob_store \<Rightarrow> (store_error + bytes) \<times> blob_store" where
  "blob_get env d i bs = materialize env d ReadFast True i bs"

definition blob_verify :: "store_env \<Rightarrow> blob_disk \<Rightarrow> blob_id \<Rightarrow> blob_store \<Rightarrow> (store_error + unit) \<times> blob_store" where
  "blob_verify env d i bs = (let (r, bs') = materialize env d ReadDeep True i bs in (bindR r (\<lambda>_. Inr ()), bs'))"

definition blob_get_unverified :: "store_env \<Rightarrow> blob_disk \<Rightarrow> blob_id \<Rightarrow> blob_store \<Rightarrow> (store_error + bytes) \<times> blob_store" where
  "blob_get_unverified env d i bs = materialize env d ReadBulk False i bs"

section \<open>The other operations\<close>

definition blob_lineage_delta ::
  "store_env \<Rightarrow> blob_id \<Rightarrow> blob_id \<Rightarrow> blob_store \<Rightarrow> blob_disk \<Rightarrow> (store_error + bool) \<times> blob_store \<times> blob_disk" where
  "blob_lineage_delta env blob base bs d =
     (if blob = base \<or> blobmap_contains (bs_map bs) blob \<or> blobmap_contains (bs_map bs) base then (Inr False, bs, d)
      else if \<not> chunk_contains (bs_chunks bs) blob \<or> \<not> chunk_contains (bs_chunks bs) base then (Inr False, bs, d)
      else let (r, cs, cd) = reencode_as_delta env blob base (bs_chunks bs) (bd_chunks d)
           in (r, bs\<lparr>bs_chunks := cs\<rparr>, d\<lparr>bd_chunks := cd\<rparr>))"

definition blob_compact ::
  "store_env \<Rightarrow> blob_store \<Rightarrow> blob_disk \<Rightarrow> (store_error + compact_report) \<times> blob_store \<times> blob_disk" where
  "blob_compact env bs d =
     (let (r, cs, cd) = chunk_compact env (bs_chunks bs) (bd_chunks d)
      in (r, bs\<lparr>bs_chunks := cs\<rparr>, d\<lparr>bd_chunks := cd\<rparr>))"

definition blob_flush :: "bool \<Rightarrow> blob_store \<Rightarrow> blob_disk \<Rightarrow> blob_disk" where
  "blob_flush relaxed bs d =
     \<lparr>bd_chunks = chunk_flush relaxed (bs_chunks bs) (bd_chunks d),
      bd_map = map_option (\<lambda>f. if relaxed then f else df_sync f) (bd_map d)\<rparr>"

definition blob_fsync :: "blob_store \<Rightarrow> blob_disk \<Rightarrow> blob_disk" where
  "blob_fsync bs d = \<lparr>bd_chunks = chunk_fsync (bs_chunks bs) (bd_chunks d), bd_map = map_option df_sync (bd_map d)\<rparr>"

definition blob_sync_from_disk ::
  "store_env \<Rightarrow> blob_store \<Rightarrow> blob_disk \<Rightarrow> (store_error + unit) \<times> blob_store \<times> blob_disk" where
  "blob_sync_from_disk env bs d =
     (case chunk_sync_from_disk env (bs_chunks bs) (bd_chunks d) of
        (Inl e, cs, cd) \<Rightarrow> (Inl e, bs\<lparr>bs_chunks := cs\<rparr>, d\<lparr>bd_chunks := cd\<rparr>)
      | (Inr _, cs, cd) \<Rightarrow>
          let (r, log, f) = blobmap_sync_from_disk (se_hash env) (bs_map bs) (bd_map_file d)
          in (r, bs\<lparr>bs_chunks := cs, bs_map := log\<rparr>, \<lparr>bd_chunks = cd, bd_map = Some f\<rparr>))"

definition blob_appended_lens :: "blob_store \<Rightarrow> nat \<times> nat" where
  "blob_appended_lens bs = (ap_len (cs_active (bs_chunks bs)), rl_len (bs_map bs))"

definition blob_file_lens :: "blob_store \<Rightarrow> blob_disk \<Rightarrow> nat \<times> nat" where
  "blob_file_lens bs d =
     (length (pack_bytes_of (bd_chunks d) (ap_seq (cs_active (bs_chunks bs)))), length (df_bytes (bd_map_file d)))"

record store_checkpoint =
  sk_chunks :: chunk_checkpoint
  sk_blobmap_len :: nat

definition blob_checkpoint :: "blob_store \<Rightarrow> store_checkpoint" where
  "blob_checkpoint bs = \<lparr>sk_chunks = chunk_checkpoint_of (bs_chunks bs), sk_blobmap_len = rl_len (bs_map bs)\<rparr>"

definition blob_rewind ::
  "store_env \<Rightarrow> store_checkpoint \<Rightarrow> blob_store \<Rightarrow> blob_disk \<Rightarrow> (store_error + unit) \<times> blob_store \<times> blob_disk" where
  "blob_rewind env kp bs d =
     (case chunk_rewind env (sk_chunks kp) (bs_chunks bs) (bd_chunks d) of
        (Inl e, cs, cd) \<Rightarrow> (Inl e, bs\<lparr>bs_chunks := cs\<rparr>, d\<lparr>bd_chunks := cd\<rparr>)
      | (Inr _, cs, cd) \<Rightarrow>
          let (r, log, f) = blobmap_rewind (se_hash env) (sk_blobmap_len kp) (bs_map bs) (bd_map_file d)
          in (r, bs\<lparr>bs_chunks := cs, bs_map := log\<rparr>, \<lparr>bd_chunks = cd, bd_map = Some f\<rparr>))"

end
