(* ===== verification/Blob_Tree.thy ===== *)
theory Blob_Tree
  imports Blob_Store
begin

text \<open>
  Manifest trees, seen as what they are for: reading a tree out of the content of a chunk store, the
  walk that reads it through the store, and the loop that writes it.
\<close>

section \<open>Groups of a list\<close>

lemma as_chunks_Cons: "length g = n \<Longrightarrow> g \<noteq> [] \<Longrightarrow> as_chunks n (g @ xs) = g # as_chunks n xs"
  by (subst as_chunks.simps) (simp add: take_n_append)

lemma as_chunks_concat:
  "0 < n \<Longrightarrow> \<forall>g \<in> set gs. length g = n \<Longrightarrow> as_chunks n (concat gs) = gs"
proof (induction gs)
  case Nil
  then show ?case by (subst as_chunks.simps) (simp add: take_n_def)
next
  case (Cons g gs)
  then show ?case by (auto simp: as_chunks_Cons)
qed

lemma concat_slice_chunks: "0 < n \<Longrightarrow> concat (slice_chunks n xs) = xs"
  by (induction n xs rule: slice_chunks.induct) (simp add: slice_chunks.simps [of n xs for n xs])

lemma slice_chunks_bounds: "g \<in> set (slice_chunks n xs) \<Longrightarrow> g \<noteq> [] \<and> length g \<le> n \<and> set g \<subseteq> set xs"
proof (induction n xs rule: slice_chunks.induct)
  case (1 n xs)
  have "set (drop n xs) \<subseteq> set xs" "set (take n xs) \<subseteq> set xs" by (rule set_drop_subset set_take_subset)+
  with 1 show ?case by (subst (asm) slice_chunks.simps) (auto split: if_splits)
qed

lemma slice_chunks_Nil_iff: "0 < n \<Longrightarrow> slice_chunks n xs = [] \<longleftrightarrow> xs = []"
  by (subst slice_chunks.simps) simp

section \<open>Nodes\<close>

definition node_entry_ok :: "node_entry \<Rightarrow> bool" where
  "node_entry_ok e \<longleftrightarrow> length (ne_id e) = 32"

lemma node_entry_length: "node_entry_ok e \<Longrightarrow> length (node_entry_bytes e) = NODE_ENTRY_LEN"
  by (simp add: node_entry_ok_def node_entry_bytes_def NODE_ENTRY_LEN_def)

lemma node_round_trip:
  assumes "\<forall>e \<in> set es. node_entry_ok e" and "length es < 2 ^ 32"
  shows "parse_node (encode_node level es) = Inr (level, es)"
proof -
  let ?b = "concat (map node_entry_bytes es)"
  have len: "length ?b = NODE_ENTRY_LEN * length es"
    using assms(1) by (induction es) (simp_all add: node_entry_length)
  have "as_chunks NODE_ENTRY_LEN ?b = map node_entry_bytes es"
    using assms(1) by (intro as_chunks_concat) (auto simp: node_entry_length NODE_ENTRY_LEN_def)
  moreover have "map (\<lambda>raw. \<lparr>ne_id = take 32 raw, ne_span = from_le (drop 32 raw)\<rparr>) (map node_entry_bytes es) = es"
    using assms(1) by (intro map_idI [THEN trans [OF map_map]]) (auto simp: node_entry_bytes_def node_entry_ok_def codec_simps)
  ultimately show ?thesis using len assms(2)
    by (simp add: parse_node_def encode_node_def NODE_MAGIC_def NODE_HEADER_LEN_def NODE_ENTRY_LEN_def lit_def codec_simps Let_def)
qed

section \<open>Reading a tree\<close>

fun entries_read :: "(node_entry \<Rightarrow> bytes option) \<Rightarrow> node_entry list \<Rightarrow> bytes option" where
  "entries_read f [] = Some []"
| "entries_read f (e # es) =
     (case f e of None \<Rightarrow> None | Some x \<Rightarrow> (case entries_read f es of None \<Rightarrow> None | Some y \<Rightarrow> Some (x @ y)))"

definition leaf_read :: "content \<Rightarrow> node_entry \<Rightarrow> bytes option" where
  "leaf_read m e = (case m (ne_id e) of None \<Rightarrow> None | Some x \<Rightarrow> if length x = unat (ne_span e) then Some x else None)"

definition node_entries :: "content \<Rightarrow> nat \<Rightarrow> chunk_id \<Rightarrow> node_entry list option" where
  "node_entries m l node =
     (case m node of None \<Rightarrow> None
      | Some data \<Rightarrow> (case parse_node data of Inl _ \<Rightarrow> None | Inr (level, es) \<Rightarrow> if unat level = l then Some es else None))"

fun manifest_read :: "content \<Rightarrow> nat \<Rightarrow> chunk_id \<Rightarrow> bytes option" where
  "manifest_read m 0 node = Option.bind (node_entries m 0 node) (entries_read (leaf_read m))"
| "manifest_read m (Suc l) node =
     Option.bind (node_entries m (Suc l) node) (entries_read (\<lambda>e. manifest_read m l (ne_id e)))"

text \<open>The level of a root is the one its node names.\<close>

definition manifest :: "content \<Rightarrow> chunk_id \<Rightarrow> bytes option" where
  "manifest m root =
     (case m root of None \<Rightarrow> None
      | Some data \<Rightarrow> (case parse_node data of Inl _ \<Rightarrow> None | Inr (level, _) \<Rightarrow> manifest_read m (unat level) root))"

lemma node_entries_mono: "node_entries m l node = Some es \<Longrightarrow> m \<subseteq>\<^sub>m m' \<Longrightarrow> node_entries m' l node = Some es"
  by (cases "m node") (auto simp: node_entries_def map_le_def dom_def)

lemma entries_read_mono:
  "entries_read f es = Some x \<Longrightarrow> (\<And>e y. e \<in> set es \<Longrightarrow> f e = Some y \<Longrightarrow> f' e = Some y) \<Longrightarrow> entries_read f' es = Some x"
proof (induction es arbitrary: x)
  case (Cons e es)
  then obtain y z where "f e = Some y" "entries_read f es = Some z" "x = y @ z" by (auto split: option.splits)
  with Cons show ?case by simp
qed simp

lemma leaf_read_mono: "leaf_read m e = Some y \<Longrightarrow> m \<subseteq>\<^sub>m m' \<Longrightarrow> leaf_read m' e = Some y"
  by (cases "m (ne_id e)") (auto simp: leaf_read_def map_le_def dom_def split: if_splits)

lemma manifest_read_mono: "manifest_read m l node = Some x \<Longrightarrow> m \<subseteq>\<^sub>m m' \<Longrightarrow> manifest_read m' l node = Some x"
proof (induction l arbitrary: node x)
  case 0
  then obtain es where es: "node_entries m 0 node = Some es" "entries_read (leaf_read m) es = Some x"
    by (auto simp: bind_eq_Some_conv)
  have "entries_read (leaf_read m') es = Some x" by (rule entries_read_mono [OF es(2)]) (rule leaf_read_mono [OF _ 0(2)])
  then show ?case using node_entries_mono [OF es(1) 0(2)] by simp
next
  case (Suc l)
  then obtain es where es: "node_entries m (Suc l) node = Some es" "entries_read (\<lambda>e. manifest_read m l (ne_id e)) es = Some x"
    by (auto simp: bind_eq_Some_conv)
  have "entries_read (\<lambda>e. manifest_read m' l (ne_id e)) es = Some x"
    by (rule entries_read_mono [OF es(2)]) (rule Suc.IH [OF _ Suc.prems(2)])
  then show ?case using node_entries_mono [OF es(1) Suc.prems(2)] by simp
qed

lemma manifest_mono: "manifest m root = Some x \<Longrightarrow> m \<subseteq>\<^sub>m m' \<Longrightarrow> manifest m' root = Some x"
  by (cases "m root") (auto simp: manifest_def map_le_def dom_def intro: manifest_read_mono split: sum.splits)

lemma manifest_read_manifest: "manifest_read m l root = Some x \<Longrightarrow> manifest m root = Some x"
  by (cases l) (auto simp: manifest_def node_entries_def bind_eq_Some_conv split: option.splits sum.splits if_splits)

lemma entries_read_append:
  "entries_read f (es @ fs) =
     (case entries_read f es of None \<Rightarrow> None | Some x \<Rightarrow> (case entries_read f fs of None \<Rightarrow> None | Some y \<Rightarrow> Some (x @ y)))"
  by (induction es) (auto split: option.splits)

section \<open>The walk reads the tree\<close>

lemma read_chunk_since:
  assumes "chunk_since env st d m g0 d0 opts"
  shows "\<exists>c. read_chunk env d mode i st =
      (case m i of Some x \<Rightarrow> Inr x | None \<Rightarrow> Inl (ChunkNotFound i), st\<lparr>cs_cache := c\<rparr>) \<and>
    chunk_since env (st\<lparr>cs_cache := c\<rparr>) d m g0 d0 opts"
  using chunk_resolve_since [OF assms] decode_unverified_since [OF assms, of i]
  by (cases mode) (simp_all add: read_chunk_def read_deep_def read_unverified_def)

lemma walk_leaves:
  "entries_read (leaf_read m) es = Some y \<Longrightarrow> chunk_since env st d m g0 d0 opts \<Longrightarrow>
   \<exists>c. walk_entries env d mode 0 es out st = (Inr (out @ y), st\<lparr>cs_cache := c\<rparr>) \<and>
     chunk_since env (st\<lparr>cs_cache := c\<rparr>) d m g0 d0 opts"
proof (induction es arbitrary: y out st)
  case Nil
  then show ?case by (intro exI [of _ "cs_cache st"]) simp
next
  case (Cons e es)
  then obtain x z where r: "leaf_read m e = Some x" "entries_read (leaf_read m) es = Some z" "y = x @ z"
    by (auto split: option.splits)
  then have e: "m (ne_id e) = Some x" "length x = unat (ne_span e)" "entries_read (leaf_read m) es = Some z" "y = x @ z"
    by (auto simp: leaf_read_def split: option.splits if_splits)
  obtain c where c: "read_chunk env d mode (ne_id e) st = (Inr x, st\<lparr>cs_cache := c\<rparr>)"
    "chunk_since env (st\<lparr>cs_cache := c\<rparr>) d m g0 d0 opts"
    using read_chunk_since [OF Cons.prems(2), of mode "ne_id e"] e(1) by auto
  from Cons.IH [OF e(3) c(2), of "out @ x"] c(1) e show ?case by (auto simp: walk_entries.simps(2))
qed

lemma walk_inner:
  assumes "level \<noteq> 0"
    and "\<And>node x st. manifest_read m l node = Some x \<Longrightarrow> chunk_since env st d m g0 d0 opts \<Longrightarrow>
      \<exists>c. blob_walk env d mode node (Some (level - 1)) st = (Inr x, st\<lparr>cs_cache := c\<rparr>) \<and>
        chunk_since env (st\<lparr>cs_cache := c\<rparr>) d m g0 d0 opts"
  shows "entries_read (\<lambda>e. manifest_read m l (ne_id e)) es = Some y \<Longrightarrow> chunk_since env st d m g0 d0 opts \<Longrightarrow>
   \<exists>c. walk_entries env d mode level es out st = (Inr (out @ y), st\<lparr>cs_cache := c\<rparr>) \<and>
     chunk_since env (st\<lparr>cs_cache := c\<rparr>) d m g0 d0 opts"
proof (induction es arbitrary: y out st)
  case Nil
  then show ?case by (intro exI [of _ "cs_cache st"]) simp
next
  case (Cons e es)
  then obtain x z where e: "manifest_read m l (ne_id e) = Some x" "entries_read (\<lambda>e. manifest_read m l (ne_id e)) es = Some z" "y = x @ z"
    by (auto split: option.splits)
  from assms(2) [OF e(1) Cons.prems(2)] obtain c where c: "blob_walk env d mode (ne_id e) (Some (level - 1)) st = (Inr x, st\<lparr>cs_cache := c\<rparr>)"
    "chunk_since env (st\<lparr>cs_cache := c\<rparr>) d m g0 d0 opts" by blast
  from Cons.IH [OF e(2) c(2), of "out @ x"] c(1) e assms(1) show ?case by (auto simp: walk_entries.simps(2))
qed

lemma node_entries_parse:
  "node_entries m l node = Some es \<Longrightarrow> \<exists>data level. m node = Some data \<and> parse_node data = Inr (level, es) \<and> unat level = l"
  by (auto simp: node_entries_def split: option.splits sum.splits if_splits)

lemma walk_reads_manifest:
  "manifest_read m l node = Some x \<Longrightarrow> expect = None \<or> (\<exists>level. expect = Some level \<and> unat level = l) \<Longrightarrow>
   chunk_since env st d m g0 d0 opts \<Longrightarrow>
   \<exists>c. blob_walk env d mode node expect st = (Inr x, st\<lparr>cs_cache := c\<rparr>) \<and> chunk_since env (st\<lparr>cs_cache := c\<rparr>) d m g0 d0 opts"
proof (induction l arbitrary: node x expect st)
  case 0
  then obtain es where es: "node_entries m 0 node = Some es" "entries_read (leaf_read m) es = Some x"
    by (auto simp: bind_eq_Some_conv)
  obtain data where data: "m node = Some data" "parse_node data = Inr (0, es)"
    using node_entries_parse [OF es(1)] by (auto simp: unat_eq_0)
  obtain c where c: "read_chunk env d mode node st = (Inr data, st\<lparr>cs_cache := c\<rparr>)" "chunk_since env (st\<lparr>cs_cache := c\<rparr>) d m g0 d0 opts"
    using read_chunk_since [OF "0.prems"(3), of mode node] data(1) by auto
  have "expect = None \<or> expect = Some 0" using "0.prems"(2) by (auto simp: unat_eq_0)
  with walk_leaves [OF es(2) c(2), of mode "[]"] data c(1) show ?case by (auto simp: blob_walk.simps [of env d mode node])
next
  case (Suc l)
  then obtain es where es: "node_entries m (Suc l) node = Some es" "entries_read (\<lambda>e. manifest_read m l (ne_id e)) es = Some x"
    by (auto simp: bind_eq_Some_conv)
  obtain data level where data: "m node = Some data" "parse_node data = Inr (level, es)" "unat level = Suc l"
    using node_entries_parse [OF es(1)] by blast
  have nz: "level \<noteq> 0" using data(3) by auto
  then have below: "unat (level - 1) = l" using level_falls [of level] data(3) by simp
  obtain c where c: "read_chunk env d mode node st = (Inr data, st\<lparr>cs_cache := c\<rparr>)" "chunk_since env (st\<lparr>cs_cache := c\<rparr>) d m g0 d0 opts"
    using read_chunk_since [OF Suc.prems(3), of mode node] data(1) by auto
  have expect: "expect = None \<or> expect = Some level" using Suc.prems(2) data(3) by (auto simp: word_unat_eq_iff)
  have "\<exists>c. blob_walk env d mode node' (Some (level - 1)) st' = (Inr x', st'\<lparr>cs_cache := c\<rparr>) \<and>
      chunk_since env (st'\<lparr>cs_cache := c\<rparr>) d m g0 d0 opts"
    if "manifest_read m l node' = Some x'" "chunk_since env st' d m g0 d0 opts" for node' x' st'
    using Suc.IH [OF that(1) _ that(2)] below by blast
  from walk_inner [OF nz this es(2) c(2), of "[]"] data c(1) expect show ?case
    by (auto simp: blob_walk.simps [of env d mode node])
qed

lemma walk_manifest:
  assumes "manifest m root = Some x" and "chunk_since env st d m g0 d0 opts"
  shows "\<exists>c. blob_walk env d mode root None st = (Inr x, st\<lparr>cs_cache := c\<rparr>) \<and> chunk_since env (st\<lparr>cs_cache := c\<rparr>) d m g0 d0 opts"
  using assms by (auto simp: manifest_def split: option.splits sum.splits intro!: walk_reads_manifest)

section \<open>Writing a tree\<close>

text \<open>
  Reads find what was written under a hash only while no two contents share it: \<open>U\<close> is a set of
  contents without collisions that holds everything the store is given.
\<close>

lemma since_hashed: "chunk_since env st d m g0 d0 opts \<Longrightarrow> m i = Some x \<Longrightarrow> se_hash env x = i"
  using inv_hashed by (auto simp: chunk_since_def hashed_def)

lemma chunk_put_in:
  assumes env: "env_ok env" and inj: "inj_on (se_hash env) U" and since: "chunk_since env st d m g0 d0 opts"
    and m: "ran m \<subseteq> U" and x: "x \<in> U" and run: "chunk_put env x st d = (r, st', d')"
  shows "\<exists>m'. chunk_since env st' d' m' g0 d0 opts \<and> m \<subseteq>\<^sub>m m' \<and> ran m' \<subseteq> U \<and>
    (\<forall>i. r = Inr i \<longrightarrow> i = se_hash env x \<and> m' i = Some x)"
proof (cases r)
  case (Inl e)
  then show ?thesis using chunk_put_since [OF env since, of x] run m by (intro exI [of _ m]) auto
next
  case (Inr i)
  then have i: "i = se_hash env x" and since': "chunk_since env st' d' (put_if_absent i x m) g0 d0 opts"
    using chunk_put_since [OF env since, of x] run by auto
  have le: "m \<subseteq>\<^sub>m put_if_absent i x m" by (auto simp: put_if_absent_def map_le_def split: option.split)
  have ran: "ran (put_if_absent i x m) \<subseteq> U"
    using m x by (auto simp: put_if_absent_def ran_def split: option.splits if_splits)
  have at: "put_if_absent i x m i = Some x"
  proof (cases "m i")
    case (Some y)
    then have "y \<in> U" using m by (auto simp: ran_def)
    moreover have "se_hash env y = se_hash env x" using since_hashed [OF since Some] i by simp
    ultimately have "y = x" using inj x by (auto dest: inj_onD)
    with Some show ?thesis by (simp add: put_if_absent_def)
  qed (simp add: put_if_absent_def)
  from since' le ran at i Inr show ?thesis by (intro exI [of _ "put_if_absent i x m"]) simp
qed

definition item_entry :: "store_env \<Rightarrow> bytes \<times> u64 \<Rightarrow> node_entry" where
  "item_entry env p = \<lparr>ne_id = se_hash env (fst p), ne_span = snd p\<rparr>"

lemma item_node_ok: "env_ok env \<Longrightarrow> node_entry_ok (item_entry env p)"
  by (simp add: env_ok_def node_entry_ok_def item_entry_def)

lemma put_entries_since:
  assumes env: "env_ok env" and inj: "inj_on (se_hash env) U"
  shows "chunk_since env st d m g0 d0 opts \<Longrightarrow> ran m \<subseteq> U \<Longrightarrow> fst ` set items \<subseteq> U \<Longrightarrow>
    put_entries env items st d = (r, st', d') \<Longrightarrow>
    \<exists>m'. chunk_since env st' d' m' g0 d0 opts \<and> m \<subseteq>\<^sub>m m' \<and> ran m' \<subseteq> U \<and>
      (\<forall>es. r = Inr es \<longrightarrow> es = map (item_entry env) items \<and> (\<forall>x \<in> fst ` set items. m' (se_hash env x) = Some x))"
proof (induction items arbitrary: st d m r st' d')
  case Nil
  then show ?case by (intro exI [of _ m]) auto
next
  case (Cons p items)
  obtain x n where p: "p = (x, n)" by (cases p)
  obtain r1 st1 d1 where one: "chunk_put env x st d = (r1, st1, d1)" by (rule prod_cases3)
  have "x \<in> U" using Cons.prems(3) p by simp
  from chunk_put_in [OF env inj Cons.prems(1,2) this one] obtain m1 where
    m1: "chunk_since env st1 d1 m1 g0 d0 opts" "m \<subseteq>\<^sub>m m1" "ran m1 \<subseteq> U" "\<forall>i. r1 = Inr i \<longrightarrow> i = se_hash env x \<and> m1 i = Some x" by blast
  show ?case
  proof (cases r1)
    case (Inl e)
    then show ?thesis using Cons.prems(4) p one m1 by auto
  next
    case (Inr i)
    obtain r2 st2 d2 where two: "put_entries env items st1 d1 = (r2, st2, d2)" by (rule prod_cases3)
    have "fst ` set items \<subseteq> U" using Cons.prems(3) by auto
    from Cons.IH [OF m1(1,3) this two] obtain m2 where
      m2: "chunk_since env st2 d2 m2 g0 d0 opts" "m1 \<subseteq>\<^sub>m m2" "ran m2 \<subseteq> U"
        "\<forall>es. r2 = Inr es \<longrightarrow> es = map (item_entry env) items \<and> (\<forall>x \<in> fst ` set items. m2 (se_hash env x) = Some x)" by blast
    have "m2 (se_hash env x) = Some x" using m1(4) m2(2) Inr by (auto simp: map_le_def dom_def)
    moreover have "m \<subseteq>\<^sub>m m2" using m1(2) m2(2) by (rule map_le_trans)
    moreover have same: "st' = st2" "d' = d2" "r = (case r2 of Inl e \<Rightarrow> Inl e | Inr es \<Rightarrow> Inr (\<lparr>ne_id = i, ne_span = n\<rparr> # es))"
      using Cons.prems(4) p one two Inr by (auto split: sum.splits)
    moreover have "es = map (item_entry env) (p # items) \<and> (\<forall>x \<in> fst ` set (p # items). m2 (se_hash env x) = Some x)"
      if es: "r = Inr es" for es
    proof -
      obtain es2 where "r2 = Inr es2" "es = \<lparr>ne_id = i, ne_span = n\<rparr> # es2"
        using es same(3) by (cases r2) auto
      then show ?thesis using m2(4) m1(4) Inr p \<open>m2 (se_hash env x) = Some x\<close> by (simp add: item_entry_def)
    qed
    ultimately show ?thesis using m2(1,3) by blast
  qed
qed

definition level_reader :: "content \<Rightarrow> nat \<Rightarrow> node_entry \<Rightarrow> bytes option" where
  "level_reader m depth = (case depth of 0 \<Rightarrow> leaf_read m | Suc l \<Rightarrow> (\<lambda>e. manifest_read m l (ne_id e)))"

lemma manifest_read_level: "manifest_read m l node = Option.bind (node_entries m l node) (entries_read (level_reader m l))"
  by (cases l) (simp_all add: level_reader_def)

lemma level_reader_mono: "level_reader m l e = Some x \<Longrightarrow> m \<subseteq>\<^sub>m m' \<Longrightarrow> level_reader m' l e = Some x"
  using leaf_read_mono [of m e x m'] manifest_read_mono [of m _ "ne_id e" x m'] by (cases l) (auto simp: level_reader_def)

lemma entries_read_groups:
  "\<forall>g \<in> set gs. h (k g) = entries_read f g \<Longrightarrow> entries_read h (map k gs) = entries_read f (concat gs)"
proof (induction gs)
  case (Cons g gs)
  then have "h (k g) = entries_read f g" "entries_read h (map k gs) = entries_read f (concat gs)" by simp_all
  then show ?case by (simp add: entries_read_append del: map_eq_conv cong: option.case_cong)
qed simp

lemma parents_read:
  assumes env: "env_ok env" and fan: "0 < fanout" "fanout < 2 ^ 32" and ok: "\<forall>e \<in> set level. node_entry_ok e"
    and put: "\<forall>x \<in> fst ` set (level_nodes fanout depth level). m (se_hash env x) = Some x"
    and lower: "entries_read (level_reader m (unat depth)) level = Some x"
  shows "entries_read (level_reader m (Suc (unat depth))) (map (item_entry env) (level_nodes fanout depth level)) = Some x"
proof -
  have "manifest_read m (unat depth) (se_hash env (encode_node depth g)) = entries_read (level_reader m (unat depth)) g"
    if "g \<in> set (slice_chunks fanout level)" for g
  proof -
    have "length g < 2 ^ 32" "\<forall>e \<in> set g. node_entry_ok e" using slice_chunks_bounds [OF that] fan(2) ok by auto
    then have "parse_node (encode_node depth g) = Inr (depth, g)" by (intro node_round_trip)
    moreover have "m (se_hash env (encode_node depth g)) = Some (encode_node depth g)"
      using put that by (auto simp: level_nodes_def)
    ultimately show ?thesis by (simp add: manifest_read_level node_entries_def)
  qed
  then have "entries_read (level_reader m (Suc (unat depth)))
      (map (\<lambda>g. item_entry env (encode_node depth g, sum_list (map ne_span g))) (slice_chunks fanout level)) =
    entries_read (level_reader m (unat depth)) (concat (slice_chunks fanout level))"
    by (intro entries_read_groups) (simp add: level_reader_def item_entry_def)
  then show ?thesis using lower fan(1) by (simp add: level_nodes_def concat_slice_chunks comp_def)
qed

text \<open>The nodes the loop over the levels writes.\<close>

function manifest_nodes :: "store_env \<Rightarrow> nat \<Rightarrow> u8 \<Rightarrow> node_entry list \<Rightarrow> bytes list" where
  "manifest_nodes env fanout depth level =
     (if length level \<le> 1 then []
      else map fst (level_nodes fanout depth level) @
        (if depth = 255 then []
         else manifest_nodes env fanout (depth + 1) (map (item_entry env) (level_nodes fanout depth level))))"
  by pat_completeness auto
termination
  by (relation "measure (\<lambda>(env, fanout, depth, level). 255 - unat depth)") (auto dest!: depth_grows)

declare manifest_nodes.simps [simp del]

lemma put_tree_since:
  assumes env: "env_ok env" and inj: "inj_on (se_hash env) U" and fan: "0 < fanout" "fanout < 2 ^ 32"
  shows "chunk_since env st d m g0 d0 opts \<Longrightarrow> ran m \<subseteq> U \<Longrightarrow> set (manifest_nodes env fanout depth level) \<subseteq> U \<Longrightarrow>
    level \<noteq> [] \<Longrightarrow> \<forall>e \<in> set level. node_entry_ok e \<Longrightarrow> entries_read (level_reader m (unat depth)) level = Some x \<Longrightarrow>
    put_tree env fanout depth level st d = (r, st', d') \<Longrightarrow>
    \<exists>m'. chunk_since env st' d' m' g0 d0 opts \<and> m \<subseteq>\<^sub>m m' \<and> ran m' \<subseteq> U \<and>
      (\<forall>root. r = Inr root \<longrightarrow> node_entry_ok root \<and>
        (\<exists>k. unat depth + (if 1 < length level then 1 else 0) \<le> k \<and> level_reader m' k root = Some x))"
proof (induction "255 - unat depth" arbitrary: depth level st d m rule: less_induct)
  case less
  show ?case
  proof (cases "length level \<le> 1")
    case True
    then obtain e where "level = [e]" using less.prems(4) by (cases level) auto
    moreover have "put_tree env fanout depth [e] st d = (Inr e, st, d)" by (simp add: put_tree.simps [of env fanout depth "[e]"])
    moreover from calculation have "r = Inr e" "st' = st" "d' = d" using less.prems(7) by simp_all
    ultimately show ?thesis using less.prems(1,2,5,6) by (intro exI [of _ m]) (auto split: option.splits)
  next
    case False
    let ?items = "level_nodes fanout depth level"
    obtain r1 st1 d1 where one: "put_entries env ?items st d = (r1, st1, d1)" by (rule prod_cases3)
    have "fst ` set ?items \<subseteq> U" using less.prems(3) False by (simp add: manifest_nodes.simps [of env fanout depth level])
    from put_entries_since [OF env inj less.prems(1,2) this one] obtain m1 where
      m1: "chunk_since env st1 d1 m1 g0 d0 opts" "m \<subseteq>\<^sub>m m1" "ran m1 \<subseteq> U"
        "\<forall>es. r1 = Inr es \<longrightarrow> es = map (item_entry env) ?items \<and> (\<forall>x \<in> fst ` set ?items. m1 (se_hash env x) = Some x)" by blast
    show ?thesis
    proof (cases "\<exists>e. r1 = Inl e \<or> depth = 255")
      case True
      then have "\<exists>e. r = Inl e" "st' = st1" "d' = d1"
        using less.prems(7) False one by (auto simp: put_tree.simps [of env fanout depth level] split: sum.splits if_splits)
      with m1 show ?thesis by blast
    next
      case go: False
      then obtain es where r1: "r1 = Inr es" by (cases r1) auto
      have es: "es = map (item_entry env) ?items" using m1(4) r1 by blast
      have rest: "put_tree env fanout (depth + 1) es st1 d1 = (r, st', d')"
        using less.prems(7) False one r1 go by (simp add: put_tree.simps [of env fanout depth level])
      have "entries_read (level_reader m1 (unat depth)) level = Some x"
        by (rule entries_read_mono [OF less.prems(6)]) (rule level_reader_mono [OF _ m1(2)])
      then have up: "entries_read (level_reader m1 (unat (depth + 1))) es = Some x"
        unfolding es using m1(4) r1 depth_grows [of depth] go by (auto intro!: parents_read less.prems(5) fan env)
      have nodes: "set (manifest_nodes env fanout (depth + 1) es) \<subseteq> U"
        using less.prems(3) False go by (simp add: manifest_nodes.simps [of env fanout depth level] es)
      have ne: "es \<noteq> []" using less.prems(4) fan(1) by (simp add: es level_nodes_def slice_chunks_Nil_iff)
      have ok: "\<forall>e \<in> set es. node_entry_ok e" using item_node_ok [OF env] by (auto simp: es)
      have fall: "255 - unat (depth + 1) < 255 - unat depth" using depth_grows [of depth] go by auto
      from less.hyps [OF fall m1(1,3) nodes ne ok up rest] obtain m2 where
        m2: "chunk_since env st' d' m2 g0 d0 opts" "m1 \<subseteq>\<^sub>m m2" "ran m2 \<subseteq> U"
          "\<forall>root. r = Inr root \<longrightarrow> node_entry_ok root \<and>
             (\<exists>k. unat (depth + 1) + (if 1 < length es then 1 else 0) \<le> k \<and> level_reader m2 k root = Some x)" by blast
      have "unat depth + 1 \<le> k" if "unat (depth + 1) + (if 1 < length es then 1 else 0) \<le> k" for k
        using that depth_grows [of depth] go by (auto split: if_splits)
      then have "\<forall>root. r = Inr root \<longrightarrow> node_entry_ok root \<and>
          (\<exists>k. unat depth + (if 1 < length level then 1 else 0) \<le> k \<and> level_reader m2 k root = Some x)"
        using m2(4) False by (metis linorder_not_le)
      then show ?thesis using m2(1,3) map_le_trans [OF m1(2) m2(2)] by blast
    qed
  qed
qed

end
