(* ===== verification/Blob_Spec.thy ===== *)
theory Blob_Spec
  imports Blob_Tree
begin

text \<open>
  What the blob store promises: it refines a map from addresses to byte streams.  The content of the
  store is read off the content of its chunk store and the records of its blob map.
\<close>

section \<open>The blob map as a log\<close>

definition blob_entry_ok :: "(bytes \<Rightarrow> bytes) \<Rightarrow> blob_entry \<Rightarrow> bool" where
  "blob_entry_ok h e \<longleftrightarrow> length (fst e) = 32 \<and> length (fst (snd e)) = 32 \<and>
     length (lf_checksum (blobmap_format h) (lf_encode (blobmap_format h) e)) = 8"

interpretation bm: rec_log_format "blobmap_format h" "blob_entry_ok h" for h
  by unfold_locales (auto simp: blobmap_format_def lit_def blob_entry_ok_def lf_record_def codec_simps)

lemma blob_entry_okI: "env_ok env \<Longrightarrow> length i = 32 \<Longrightarrow> length root = 32 \<Longrightarrow> blob_entry_ok (se_hash env) (i, root, n)"
  by (simp add: blob_entry_ok_def lf_checksum_def blobmap_format_def env_ok_def)

lemma blobmap_insert [simp]: "lf_insert (blobmap_format h) (i, p) m = m(i \<mapsto> p)"
  by (cases p) (simp add: blobmap_format_def)

lemma blobmap_empty [simp]: "lf_empty (blobmap_format h) = Map.empty"
  by (simp add: blobmap_format_def)

lemma blobmap_state:
  "distinct (map fst es) \<Longrightarrow> log_state (blobmap_format h) es = map_of es"
proof (induction es rule: rev_induct)
  case (snoc e es)
  obtain i p where e: "e = (i, p)" by (cases e)
  then have "map_of es i = None" using snoc.prems by (auto simp: map_of_eq_None_iff)
  with snoc e show ?case by (auto simp: log_state_snoc fun_eq_iff map_add_def split: option.split)
qed (simp add: log_state_def)

lemma blobmap_rec_len [simp]: "lf_rec_len (blobmap_format h) = 80"
  by (simp add: lf_rec_len_def blobmap_format_def)

section \<open>The content\<close>

definition blob_entries_ok :: "store_env \<Rightarrow> bytes set \<Rightarrow> content \<Rightarrow> blob_entry list \<Rightarrow> bool" where
  "blob_entries_ok env U m es \<longleftrightarrow>
     distinct (map fst es) \<and>
     (\<forall>(i, root, n) \<in> set es. blob_entry_ok (se_hash env) (i, root, n) \<and>
        (\<exists>x \<in> U. manifest m root = Some x \<and> length x = unat n \<and> se_hash env x = i))"

definition blob_view :: "content \<Rightarrow> blob_entry list \<Rightarrow> content" where
  "blob_view m es i = (case map_of es i of None \<Rightarrow> m i | Some (root, n) \<Rightarrow> manifest m root)"

text \<open>
  The store and its files, over the chunk content \<open>m\<close> and the blob map records \<open>es\<close>; \<open>U\<close> is a set of
  contents without collisions, \<open>g0\<close> and \<open>d0\<close> the ghost and the disk the chunk store began with.
\<close>

definition blob_at ::
  "store_env \<Rightarrow> bytes set \<Rightarrow> blob_store \<Rightarrow> blob_disk \<Rightarrow> content \<Rightarrow> blob_entry list \<Rightarrow> chunk_ghost \<Rightarrow> chunk_disk \<Rightarrow> bool" where
  "blob_at env U bs d m es g0 d0 \<longleftrightarrow>
     chunk_since env (bs_chunks bs) (bd_chunks d) m g0 d0 (cs_opts (bs_chunks bs)) \<and> ran m \<subseteq> U \<and>
     (\<exists>f. bd_map d = Some f \<and> df_bytes f = log_bytes (blobmap_format (se_hash env)) es) \<and>
     log_knows (blobmap_format (se_hash env)) (bs_map bs) es \<and> blob_entries_ok env U m es"

definition blob_holds :: "store_env \<Rightarrow> bytes set \<Rightarrow> blob_store \<Rightarrow> blob_disk \<Rightarrow> content \<Rightarrow> bool" where
  "blob_holds env U bs d B \<longleftrightarrow> (\<exists>m es g0 d0. blob_at env U bs d m es g0 d0 \<and> B = blob_view m es)"

lemma blob_entries_each: "blob_entries_ok env U m es \<Longrightarrow> distinct (map fst es) \<and> (\<forall>e \<in> set es. blob_entry_ok (se_hash env) e)"
  unfolding blob_entries_ok_def by (simp add: split_beta)

lemma blob_view_mono:
  assumes "blob_entries_ok env U m es" and "m \<subseteq>\<^sub>m m'"
  shows "blob_view m es \<subseteq>\<^sub>m blob_view m' es"
proof -
  have "blob_view m' es i = Some x" if "blob_view m es i = Some x" for i x
    using that assms(2) manifest_mono [OF _ assms(2)]
    by (auto simp: blob_view_def map_le_def dom_def split: option.splits)
  then show ?thesis by (auto simp: map_le_def)
qed

lemma blob_entries_mono: "blob_entries_ok env U m es \<Longrightarrow> m \<subseteq>\<^sub>m m' \<Longrightarrow> blob_entries_ok env U m' es"
  unfolding blob_entries_ok_def using manifest_mono by blast

lemma blob_entry_read:
  assumes "blob_entries_ok env U m es" and "map_of es i = Some (root, n)"
  obtains x where "x \<in> U" "manifest m root = Some x" "length x = unat n" "se_hash env x = i"
  using assms(1) map_of_SomeD [OF assms(2)] unfolding blob_entries_ok_def by blast

lemma blob_view_in:
  assumes "blob_entries_ok env U m es" and "ran m \<subseteq> U" and "hashed env m" and "blob_view m es i = Some x"
  shows "x \<in> U \<and> se_hash env x = i"
proof (cases "map_of es i")
  case None
  then show ?thesis using assms(2,3,4) by (auto simp: blob_view_def hashed_def ran_def)
next
  case (Some p)
  obtain root n where p: "p = (root, n)" by (cases p)
  then obtain y where "y \<in> U" "manifest m root = Some y" "se_hash env y = i"
    using blob_entry_read [OF assms(1)] Some by blast
  then show ?thesis using assms(4) Some p by (simp add: blob_view_def)
qed

lemma since_chunk_hashed: "chunk_since env st d m g0 d0 opts \<Longrightarrow> hashed env m"
  using inv_hashed by (auto simp: chunk_since_def)

lemma since_index: "chunk_since env st d m g0 d0 opts \<Longrightarrow> chunk_contains st i \<longleftrightarrow> m i \<noteq> None"
  using inv_index [of env st d m _ i] by (auto simp: chunk_since_def chunk_contains_def)

lemma blob_at_state: "blob_at env U bs d m es g0 d0 \<Longrightarrow> rl_state (bs_map bs) = map_of es"
  by (simp add: blob_at_def log_knows_def blob_entries_ok_def blobmap_state)

lemma blob_at_view:
  assumes "blob_at env U bs d m es g0 d0" and "blob_view m es i = Some x"
  shows "x \<in> U \<and> se_hash env x = i"
  using assms blob_view_in [of env U m es i x] since_chunk_hashed by (auto simp: blob_at_def)

lemma blob_at_contains:
  assumes "blob_at env U bs d m es g0 d0"
  shows "blob_contains bs i \<longleftrightarrow> blob_view m es i \<noteq> None"
proof -
  have "chunk_contains (bs_chunks bs) i \<longleftrightarrow> m i \<noteq> None" using assms since_index by (auto simp: blob_at_def)
  moreover have "manifest m root \<noteq> None" if "map_of es i = Some (root, n)" for root n
    using assms that by (auto simp: blob_at_def elim: blob_entry_read)
  ultimately show ?thesis using blob_at_state [OF assms]
    by (cases "map_of es i") (auto simp: blob_contains_def blobmap_contains_def blob_view_def)
qed

text \<open>A change of the chunk store alone.\<close>

lemma blob_at_chunks:
  assumes "blob_at env U bs d m es g0 d0"
    and "chunk_since env cs cd m' g0 d0 (cs_opts (bs_chunks bs))" and "m \<subseteq>\<^sub>m m'" and "ran m' \<subseteq> U"
  shows "blob_at env U (bs\<lparr>bs_chunks := cs\<rparr>) (d\<lparr>bd_chunks := cd\<rparr>) m' es g0 d0 \<and> blob_view m es \<subseteq>\<^sub>m blob_view m' es"
proof -
  have "cs_opts cs = cs_opts (bs_chunks bs)" using assms(2) by (simp add: chunk_since_def)
  moreover have "blob_entries_ok env U m es" using assms(1) by (simp add: blob_at_def)
  ultimately show ?thesis using assms blob_entries_mono [OF _ assms(3)] blob_view_mono [OF _ assms(3)] by (simp add: blob_at_def)
qed

section \<open>Reading\<close>

lemma materialize_since:
  assumes at: "blob_at env U bs d m es g0 d0"
  shows "\<exists>bs'. materialize env d mode check i bs =
      (case blob_view m es i of None \<Rightarrow> Inl (BlobNotFound i)
       | Some x \<Rightarrow> Inr (if mode = ReadDeep \<and> \<not> is_multi_chunk bs i then [] else x), bs') \<and>
    blob_at env U bs' d m es g0 d0 \<and> bs_map bs' = bs_map bs \<and> bs_opts bs' = bs_opts bs"
proof -
  have s: "chunk_since env (bs_chunks bs) (bd_chunks d) m g0 d0 (cs_opts (bs_chunks bs))" "ran m \<subseteq> U" "blob_entries_ok env U m es"
    using at by (simp_all add: blob_at_def)
  note state = blob_at_state [OF at]
  have keep: "blob_at env U (bs\<lparr>bs_chunks := (bs_chunks bs)\<lparr>cs_cache := c\<rparr>\<rparr>) d m es g0 d0"
    if "chunk_since env ((bs_chunks bs)\<lparr>cs_cache := c\<rparr>) (bd_chunks d) m g0 d0 (cs_opts (bs_chunks bs))" for c
    using blob_at_chunks [OF at that] s(2) by simp
  show ?thesis
  proof (cases "map_of es i")
    case None
    then have B: "blob_view m es i = m i" by (simp add: blob_view_def)
    have none: "blobmap_get (bs_map bs) i = None" "\<not> is_multi_chunk bs i"
      using None state by (simp_all add: blobmap_get_def is_multi_chunk_def blobmap_contains_def)
    obtain c where c: "read_chunk env (bd_chunks d) mode i (bs_chunks bs) =
        (case m i of Some x \<Rightarrow> Inr x | None \<Rightarrow> Inl (ChunkNotFound i), (bs_chunks bs)\<lparr>cs_cache := c\<rparr>)"
      "chunk_since env ((bs_chunks bs)\<lparr>cs_cache := c\<rparr>) (bd_chunks d) m g0 d0 (cs_opts (bs_chunks bs))"
      using read_chunk_since [OF s(1)] by blast
    obtain c' where c': "chunk_get env (bd_chunks d) i (bs_chunks bs) =
        (case m i of Some x \<Rightarrow> Inr x | None \<Rightarrow> Inl (ChunkNotFound i), (bs_chunks bs)\<lparr>cs_cache := c'\<rparr>)"
      "chunk_since env ((bs_chunks bs)\<lparr>cs_cache := c'\<rparr>) (bd_chunks d) m g0 d0 (cs_opts (bs_chunks bs))"
      using chunk_resolve_since [OF s(1)] unfolding chunk_get_def by blast
    show ?thesis
    proof (cases mode)
      case ReadFast
      with c'(1) keep [OF c'(2)] none B show ?thesis
        by (intro exI [of _ "bs\<lparr>bs_chunks := (bs_chunks bs)\<lparr>cs_cache := c'\<rparr>\<rparr>"]) (simp add: materialize_def split: option.split)
    next
      case ReadDeep
      then have "chunk_resolve env (bd_chunks d) VerifyDeep i (bs_chunks bs) =
        (case m i of Some x \<Rightarrow> Inr x | None \<Rightarrow> Inl (ChunkNotFound i), (bs_chunks bs)\<lparr>cs_cache := c\<rparr>)"
        using c(1) by (simp add: read_chunk_def read_deep_def)
      with ReadDeep keep [OF c(2)] none B show ?thesis
        by (intro exI [of _ "bs\<lparr>bs_chunks := (bs_chunks bs)\<lparr>cs_cache := c\<rparr>\<rparr>"])
          (simp add: materialize_def verify_chunk_def read_deep_def split: option.split)
    next
      case ReadBulk
      with c(1) keep [OF c(2)] none B show ?thesis
        by (intro exI [of _ "bs\<lparr>bs_chunks := (bs_chunks bs)\<lparr>cs_cache := c\<rparr>\<rparr>"])
          (simp add: materialize_def read_chunk_def split: option.split)
    qed
  next
    case (Some p)
    obtain root n where p: "p = (root, n)" by (cases p)
    then obtain x where x: "manifest m root = Some x" "length x = unat n" "se_hash env x = i"
      using blob_entry_read [OF s(3)] Some by blast
    have B: "blob_view m es i = Some x" using Some p x(1) by (simp add: blob_view_def)
    have some: "blobmap_get (bs_map bs) i = Some (root, n)" "is_multi_chunk bs i"
      using Some p state by (simp_all add: blobmap_get_def is_multi_chunk_def blobmap_contains_def)
    obtain c where c: "blob_walk env (bd_chunks d) mode root None (bs_chunks bs) = (Inr x, (bs_chunks bs)\<lparr>cs_cache := c\<rparr>)"
      "chunk_since env ((bs_chunks bs)\<lparr>cs_cache := c\<rparr>) (bd_chunks d) m g0 d0 (cs_opts (bs_chunks bs))"
      using walk_manifest [OF x(1) s(1)] by blast
    from c(1) keep [OF c(2)] some B x show ?thesis
      by (intro exI [of _ "bs\<lparr>bs_chunks := (bs_chunks bs)\<lparr>cs_cache := c\<rparr>\<rparr>"]) (simp add: materialize_def)
  qed
qed

section \<open>Writing\<close>

text \<open>Everything a put hands to the chunk store.\<close>

definition blob_writes :: "store_env \<Rightarrow> blob_opts \<Rightarrow> bytes \<Rightarrow> bytes list" where
  "blob_writes env opts data =
     (case cdc_chunks data (bo_cdc opts) of
        None \<Rightarrow> []
      | Some pieces \<Rightarrow>
          if length pieces \<le> 1 then []
          else pieces @ manifest_nodes env (bo_fanout opts) 0 (map (item_entry env \<circ> piece_item) pieces))"

text \<open>What a set without collisions has to contain for a stream to be stored faithfully.\<close>

definition blob_fits :: "store_env \<Rightarrow> bytes set \<Rightarrow> blob_opts \<Rightarrow> bytes \<Rightarrow> bool" where
  "blob_fits env U opts data \<longleftrightarrow> data \<in> U \<and> set (blob_writes env opts data) \<subseteq> U \<and> length data < 2 ^ 64"

definition blob_env_ok :: "store_env \<Rightarrow> bytes set \<Rightarrow> blob_opts \<Rightarrow> bool" where
  "blob_env_ok env U opts \<longleftrightarrow> env_ok env \<and> inj_on (se_hash env) U \<and> 2 \<le> bo_fanout opts \<and> bo_fanout opts < 2 ^ 32"

lemma pieces_read:
  "\<forall>x \<in> set pieces. m (se_hash env x) = Some x \<and> length x < 2 ^ 64 \<Longrightarrow>
   entries_read (leaf_read m) (map (item_entry env \<circ> piece_item) pieces) = Some (concat pieces)"
  by (induction pieces) (simp_all add: leaf_read_def item_entry_def piece_item_def codec_simps)

lemma concat_piece_length: "x \<in> set xs \<Longrightarrow> length x \<le> length (concat xs)"
  by (induction xs) auto

lemma put_pieces_at:
  assumes ok: "blob_env_ok env U opts" and since: "chunk_since env cs cd m g0 d0 copts" and m: "ran m \<subseteq> U"
    and fits: "blob_fits env U opts data" and pieces: "cdc_chunks data (bo_cdc opts) = Some pieces" "1 < length pieces"
    and one: "put_entries env (map piece_item pieces) cs cd = (Inr level, cs1, cd1)"
    and two: "put_tree env (bo_fanout opts) 0 level cs1 cd1 = (r, cs2, cd2)"
  shows "\<exists>m'. chunk_since env cs2 cd2 m' g0 d0 copts \<and> m \<subseteq>\<^sub>m m' \<and> ran m' \<subseteq> U \<and>
    (\<forall>root. r = Inr root \<longrightarrow> length (ne_id root) = 32 \<and> manifest m' (ne_id root) = Some data)"
proof -
  have env: "env_ok env" "inj_on (se_hash env) U" "0 < bo_fanout opts" "bo_fanout opts < 2 ^ 32"
    using ok by (simp_all add: blob_env_ok_def)
  have writes: "set pieces \<subseteq> U" "set (manifest_nodes env (bo_fanout opts) 0 (map (item_entry env \<circ> piece_item) pieces)) \<subseteq> U"
    using fits pieces by (simp_all add: blob_fits_def blob_writes_def)
  have "fst ` set (map piece_item pieces) \<subseteq> U" using writes(1) by (auto simp: piece_item_def)
  from put_entries_since [OF env(1,2) since m this one] obtain m1 where
    m1: "chunk_since env cs1 cd1 m1 g0 d0 copts" "m \<subseteq>\<^sub>m m1" "ran m1 \<subseteq> U"
      "level = map (item_entry env) (map piece_item pieces)" "\<forall>x \<in> set pieces. m1 (se_hash env x) = Some x"
    by (auto simp: piece_item_def)
  have level: "level = map (item_entry env \<circ> piece_item) pieces" using m1(4) by simp
  have data: "concat pieces = data" by (rule chunks_concat [OF pieces(1)])
  have "length x < 2 ^ 64" if "x \<in> set pieces" for x
    using concat_piece_length [OF that] fits unfolding data blob_fits_def by linarith
  then have "\<forall>x \<in> set pieces. m1 (se_hash env x) = Some x \<and> length x < 2 ^ 64" using m1(5) by blast
  from pieces_read [OF this] have low: "entries_read (level_reader m1 (unat (0 :: u8))) level = Some data"
    by (simp add: level data level_reader_def)
  have nodes: "set (manifest_nodes env (bo_fanout opts) 0 level) \<subseteq> U" using writes(2) level by simp
  have ne: "level \<noteq> []" "1 < length level" using pieces(2) level by auto
  have entries: "\<forall>e \<in> set level. node_entry_ok e" using item_node_ok [OF env(1)] by (auto simp: level)
  from put_tree_since [OF env m1(1,3) nodes ne(1) entries low two] obtain m2 where
    m2: "chunk_since env cs2 cd2 m2 g0 d0 copts" "m1 \<subseteq>\<^sub>m m2" "ran m2 \<subseteq> U"
      "\<forall>root. r = Inr root \<longrightarrow> node_entry_ok root \<and> (\<exists>k. 1 \<le> k \<and> level_reader m2 k root = Some data)"
    using ne(2) by auto
  have "length (ne_id root) = 32 \<and> manifest m2 (ne_id root) = Some data" if root: "r = Inr root" for root
  proof -
    obtain k where k: "node_entry_ok root" "1 \<le> k" "level_reader m2 k root = Some data" using m2(4) root by blast
    then obtain l where "k = Suc l" by (cases k) auto
    then have "manifest_read m2 l (ne_id root) = Some data" using k(3) by (simp add: level_reader_def)
    then show ?thesis using k(1) manifest_read_manifest by (simp add: node_entry_ok_def)
  qed
  then show ?thesis using m2(1,3) map_le_trans [OF m1(2) m2(2)] by blast
qed

lemma blob_append_at:
  assumes env: "env_ok env" and at: "blob_at env U bs d m es g0 d0" and new: "i \<notin> fst ` set es"
    and free: "\<And>y. m i = Some y \<Longrightarrow> y = x"
    and entry: "length root = 32" "manifest m root = Some x" "x \<in> U" "se_hash env x = i" "length x < 2 ^ 64"
    and run: "blobmap_append (se_hash env) i root (of_nat (length x)) (bs_map bs) (bd_map_file d) = (log, f)"
  shows "\<exists>es'. blob_at env U (bs\<lparr>bs_map := log\<rparr>) (d\<lparr>bd_map := Some f\<rparr>) m (es @ es') g0 d0 \<and>
    blob_view m es \<subseteq>\<^sub>m blob_view m (es @ es') \<and> blob_view m (es @ es') i = Some x"
proof -
  let ?e = "(i, root, of_nat (length x)) :: blob_entry"
  have "length i = 32" using env entry(4) by (auto simp: env_ok_def)
  then have ok: "blob_entry_ok (se_hash env) ?e" using blob_entry_okI [OF env] entry(1) by blast
  have fbytes: "df_bytes (bd_map_file d) = log_bytes (blobmap_format (se_hash env)) es"
    using at by (auto simp: blob_at_def bd_map_file_def)
  have knows: "log_knows (blobmap_format (se_hash env)) (bs_map bs) es" using at by (simp add: blob_at_def)
  from bm.append_knows [OF knows fbytes ok] run have
    post: "log_knows (blobmap_format (se_hash env)) log (es @ [?e])" "df_bytes f = log_bytes (blobmap_format (se_hash env)) (es @ [?e])"
    by (simp_all add: blobmap_append_def)
  have "blob_entries_ok env U m (es @ [?e])"
    using at new ok entry by (auto simp: blob_at_def blob_entries_ok_def codec_simps)
  moreover have "blob_view m es \<subseteq>\<^sub>m blob_view m (es @ [?e])"
    using entry(2) free by (auto simp: map_le_def blob_view_def map_add_def split: option.splits)
  moreover have "blob_view m (es @ [?e]) i = Some x"
    using new entry(2) by (simp add: blob_view_def map_add_def map_of_eq_None_iff [THEN iffD2] split: option.split)
  ultimately show ?thesis using at post by (intro exI [of _ "[?e]"]) (simp add: blob_at_def)
qed

lemma blob_put_at:
  assumes ok: "blob_env_ok env U (bs_opts bs)" and at: "blob_at env U bs d m es g0 d0"
    and fits: "blob_fits env U (bs_opts bs) data" and run: "blob_put env data bs d = Some (r, bs', d')"
  shows "bs_opts bs' = bs_opts bs \<and> (\<exists>m' es'. blob_at env U bs' d' m' (es @ es') g0 d0 \<and> blob_view m es \<subseteq>\<^sub>m blob_view m' (es @ es') \<and>
    (\<forall>i. r = Inr i \<longrightarrow> i = se_hash env data \<and> blob_view m' (es @ es') i = Some data))"
proof -
  let ?i = "se_hash env data"
  have env: "env_ok env" "inj_on (se_hash env) U" using ok by (simp_all add: blob_env_ok_def)
  have data: "data \<in> U" "length data < 2 ^ 64" using fits by (simp_all add: blob_fits_def)
  have since: "chunk_since env (bs_chunks bs) (bd_chunks d) m g0 d0 (cs_opts (bs_chunks bs))" and m: "ran m \<subseteq> U"
    using at by (simp_all add: blob_at_def)
  have none: "\<exists>m' es'. blob_at env U (bs\<lparr>bs_chunks := cs\<rparr>) (d\<lparr>bd_chunks := cd\<rparr>) m' (es @ es') g0 d0 \<and>
      blob_view m es \<subseteq>\<^sub>m blob_view m' (es @ es')"
    if "chunk_since env cs cd m' g0 d0 (cs_opts (bs_chunks bs))" "m \<subseteq>\<^sub>m m'" "ran m' \<subseteq> U" for cs cd m'
    using blob_at_chunks [OF at that] by (intro exI [of _ m'] exI [of _ "[]"]) simp
  show ?thesis
  proof (cases "blob_contains bs ?i")
    case True
    then obtain y where y: "blob_view m es ?i = Some y" using blob_at_contains [OF at] by auto
    then have "y = data" using blob_at_view [OF at y] env(2) data(1) by (auto dest: inj_onD)
    moreover have "r = Inr ?i" "bs' = bs" "d' = d" using run True by (simp_all add: blob_put_def)
    ultimately show ?thesis using at y by (intro conjI exI [of _ m] exI [of _ "[]"]) simp_all
  next
    case False
    then have fresh: "blob_view m es ?i = None" using blob_at_contains [OF at] by auto
    obtain pieces where pieces: "cdc_chunks data (bo_cdc (bs_opts bs)) = Some pieces"
      using run False by (cases "cdc_chunks data (bo_cdc (bs_opts bs))") (auto simp: blob_put_def Let_def)
    show ?thesis
    proof (cases "length pieces \<le> 1")
      case True
      obtain r1 cs cd where one: "chunk_put env data (bs_chunks bs) (bd_chunks d) = (r1, cs, cd)" by (rule prod_cases3)
      from chunk_put_in [OF env since m data(1) one] obtain m' where
        m': "chunk_since env cs cd m' g0 d0 (cs_opts (bs_chunks bs))" "m \<subseteq>\<^sub>m m'" "ran m' \<subseteq> U"
          "\<forall>i. r1 = Inr i \<longrightarrow> i = ?i \<and> m' i = Some data" by blast
      have res: "bs' = bs\<lparr>bs_chunks := cs\<rparr>" "d' = d\<lparr>bd_chunks := cd\<rparr>" "r = (case r1 of Inl e \<Rightarrow> Inl e | Inr _ \<Rightarrow> Inr ?i)"
        using run False pieces True one by (auto simp: blob_put_def Let_def split: sum.splits)
      have "map_of es ?i = None"
        using fresh at by (auto simp: blob_view_def blob_at_def elim: blob_entry_read split: option.splits)
      then have "blob_view m' es ?i = m' ?i" by (simp add: blob_view_def)
      then have "\<forall>i. r = Inr i \<longrightarrow> i = ?i \<and> blob_view m' es i = Some data" using m'(4) res(3) by (auto split: sum.splits)
      with blob_at_chunks [OF at m'(1-3)] res(1,2) show ?thesis
        by (intro conjI exI [of _ m'] exI [of _ "[]"]) simp_all
    next
      case many: False
      have fan: "bo_fanout (bs_opts bs) \<noteq> 0" using ok by (simp add: blob_env_ok_def)
      obtain r1 cs cd where one: "put_entries env (map piece_item pieces) (bs_chunks bs) (bd_chunks d) = (r1, cs, cd)" by (rule prod_cases3)
      have put: "blob_put env data bs d =
        (case r1 of
           Inl e \<Rightarrow> Some (Inl e, bs\<lparr>bs_chunks := cs\<rparr>, d\<lparr>bd_chunks := cd\<rparr>)
         | Inr level \<Rightarrow>
             (case put_tree env (bo_fanout (bs_opts bs)) 0 level cs cd of
                (Inl e, cs, cd) \<Rightarrow> Some (Inl e, bs\<lparr>bs_chunks := cs\<rparr>, d\<lparr>bd_chunks := cd\<rparr>)
              | (Inr root, cs, cd) \<Rightarrow>
                  let (log, f) = blobmap_append (se_hash env) ?i (ne_id root) (of_nat (length data)) (bs_map bs) (bd_map_file d)
                  in Some (Inr ?i, bs\<lparr>bs_chunks := cs, bs_map := log\<rparr>, \<lparr>bd_chunks = cd, bd_map = Some f\<rparr>)))"
        using False pieces many fan one by (simp add: blob_put_def Let_def split: sum.split)
      show ?thesis
      proof (cases r1)
        case (Inl e)
        have "fst ` set (map piece_item pieces) \<subseteq> U"
          using fits pieces many by (auto simp: blob_fits_def blob_writes_def piece_item_def)
        from put_entries_since [OF env since m this one] obtain m1 where
          "chunk_since env cs cd m1 g0 d0 (cs_opts (bs_chunks bs))" "m \<subseteq>\<^sub>m m1" "ran m1 \<subseteq> U" by blast
        with none have "\<exists>m' es'. blob_at env U (bs\<lparr>bs_chunks := cs\<rparr>) (d\<lparr>bd_chunks := cd\<rparr>) m' (es @ es') g0 d0 \<and>
          blob_view m es \<subseteq>\<^sub>m blob_view m' (es @ es')" by blast
        with run put Inl show ?thesis by auto
      next
        case (Inr level)
        obtain r2 cs2 cd2 where two: "put_tree env (bo_fanout (bs_opts bs)) 0 level cs cd = (r2, cs2, cd2)" by (rule prod_cases3)
        from put_pieces_at [OF ok since m fits pieces _ one [unfolded Inr] two] many obtain m2 where
          m2: "chunk_since env cs2 cd2 m2 g0 d0 (cs_opts (bs_chunks bs))" "m \<subseteq>\<^sub>m m2" "ran m2 \<subseteq> U"
            "\<forall>root. r2 = Inr root \<longrightarrow> length (ne_id root) = 32 \<and> manifest m2 (ne_id root) = Some data" by auto
        show ?thesis
        proof (cases r2)
          case (Inl e)
          with run put Inr two none [OF m2(1-3)] show ?thesis by auto
        next
          case root: (Inr root)
          let ?bs = "bs\<lparr>bs_chunks := cs2\<rparr>" and ?d = "d\<lparr>bd_chunks := cd2\<rparr>"
          have at2: "blob_at env U ?bs ?d m2 es g0 d0" and le: "blob_view m es \<subseteq>\<^sub>m blob_view m2 es"
            using blob_at_chunks [OF at m2(1-3)] by simp_all
          have "map_of es ?i = None"
            using fresh at by (auto simp: blob_view_def blob_at_def elim: blob_entry_read split: option.splits)
          then have new: "?i \<notin> fst ` set es" by (simp add: map_of_eq_None_iff)
          have free: "y = data" if "m2 ?i = Some y" for y
            using that m2(3) env(2) data(1) since_hashed [OF m2(1) that] by (auto simp: ran_def dest: inj_onD)
          obtain log f where app: "blobmap_append (se_hash env) ?i (ne_id root) (of_nat (length data)) (bs_map ?bs) (bd_map_file ?d) = (log, f)"
            by (rule prod.exhaust)
          from blob_append_at [OF env(1) at2 new free _ _ data(1) refl data(2) app] m2(4) root obtain es' where
            es': "blob_at env U (?bs\<lparr>bs_map := log\<rparr>) (?d\<lparr>bd_map := Some f\<rparr>) m2 (es @ es') g0 d0"
              "blob_view m2 es \<subseteq>\<^sub>m blob_view m2 (es @ es')" "blob_view m2 (es @ es') ?i = Some data" by auto
          have "bs' = ?bs\<lparr>bs_map := log\<rparr>" "d' = ?d\<lparr>bd_map := Some f\<rparr>" "r = Inr ?i"
            using run put Inr two root app by (auto simp: bd_map_file_def)
          with es' map_le_trans [OF le es'(2)] show ?thesis by (intro conjI exI [of _ m2] exI [of _ es']) simp_all
        qed
      qed
    qed
  qed
qed

section \<open>Steps\<close>

type_synonym blob_world = "blob_store \<times> blob_disk"

text \<open>What a process does with its store; the streams it stores are to come from \<open>U\<close>.\<close>

inductive blob_step :: "store_env \<Rightarrow> bytes set \<Rightarrow> blob_world \<Rightarrow> blob_world \<Rightarrow> bool" for env U where
  blob_step_put: "blob_fits env U (bs_opts bs) x \<Longrightarrow> blob_put env x bs d = Some (r, bs', d') \<Longrightarrow> blob_step env U (bs, d) (bs', d')"
| blob_step_read: "materialize env d mode check i bs = (r, bs') \<Longrightarrow> blob_step env U (bs, d) (bs', d)"
| blob_step_lineage: "blob_lineage_delta env i base bs d = (r, bs', d') \<Longrightarrow> blob_step env U (bs, d) (bs', d')"
| blob_step_compact: "compacts_small (bs_chunks bs) (bd_chunks d) \<Longrightarrow> blob_compact env bs d = (r, bs', d') \<Longrightarrow>
    blob_step env U (bs, d) (bs', d')"
| blob_step_sync: "blob_sync_from_disk env bs d = (r, bs', d') \<Longrightarrow> blob_step env U (bs, d) (bs', d')"
| blob_step_flush: "blob_step env U (bs, d) (bs, blob_flush relaxed bs d)"

inductive blob_run :: "store_env \<Rightarrow> bytes set \<Rightarrow> blob_world \<Rightarrow> blob_world \<Rightarrow> bool" for env U where
  blob_run_none: "blob_run env U w w"
| blob_run_more: "blob_run env U w w' \<Longrightarrow> blob_step env U w' w'' \<Longrightarrow> blob_run env U w w''"

inductive_cases blob_step_cases: "blob_step env U (bs, d) w"

lemma blob_at_same_chunks:
  assumes "blob_at env U bs d m es g0 d0" and "chunk_since env cs cd m g0 d0 (cs_opts (bs_chunks bs))"
  shows "blob_at env U (bs\<lparr>bs_chunks := cs\<rparr>) (d\<lparr>bd_chunks := cd\<rparr>) m es g0 d0"
  using blob_at_chunks [OF assms] assms(1) by (simp add: blob_at_def)

lemma blobmap_sync_same:
  assumes "log_knows (blobmap_format h) log es" and "df_bytes f = log_bytes (blobmap_format h) es"
  shows "blobmap_sync_from_disk h log f = (Inr (), log, f)"
  using assms by (simp add: blobmap_sync_from_disk_def rec_sync_from_disk_def log_knows_def Let_def)

lemma blob_sync_at:
  assumes at: "blob_at env U bs d m es g0 d0"
  shows "blob_sync_from_disk env bs d = (Inr (), bs, d)"
proof -
  have since: "chunk_since env (bs_chunks bs) (bd_chunks d) m g0 d0 (cs_opts (bs_chunks bs))" using at by (simp add: blob_at_def)
  obtain f where f: "bd_map d = Some f" "df_bytes f = log_bytes (blobmap_format (se_hash env)) es"
    and knows: "log_knows (blobmap_format (se_hash env)) (bs_map bs) es" using at by (auto simp: blob_at_def)
  show ?thesis
    using chunk_sync_since [OF since] f(1) blobmap_sync_same [OF knows f(2)]
    by (cases bs; cases d) (simp add: blob_sync_from_disk_def bd_map_file_def)
qed

lemma blob_flush_at: "blob_at env U bs d m es g0 d0 \<Longrightarrow> blob_at env U bs (blob_flush relaxed bs d) m es g0 d0"
  using chunk_flush_since [of env "bs_chunks bs" "bd_chunks d" m g0 d0 "cs_opts (bs_chunks bs)" relaxed]
  by (cases relaxed) (auto simp: blob_at_def blob_flush_def)

lemma blob_step_at:
  assumes ok: "blob_env_ok env U (bs_opts bs)" and at: "blob_at env U bs d m es g0 d0" and step: "blob_step env U (bs, d) (bs', d')"
  shows "bs_opts bs' = bs_opts bs \<and>
    (\<exists>m' es'. blob_at env U bs' d' m' (es @ es') g0 d0 \<and> blob_view m es \<subseteq>\<^sub>m blob_view m' (es @ es'))"
proof -
  have env: "env_ok env" using ok by (simp add: blob_env_ok_def)
  have since: "chunk_since env (bs_chunks bs) (bd_chunks d) m g0 d0 (cs_opts (bs_chunks bs))" using at by (simp add: blob_at_def)
  have same: ?thesis if "blob_at env U bs' d' m es g0 d0" "bs_opts bs' = bs_opts bs"
    using that by (intro conjI exI [of _ m] exI [of _ "[]"]) simp_all
  from step show ?thesis
  proof (rule blob_step_cases)
    fix x r a b
    assume "(bs', d') = (a, b)" "blob_fits env U (bs_opts bs) x" "blob_put env x bs d = Some (r, a, b)"
    then show ?thesis using blob_put_at [OF ok at, of x r a b] by blast
  next
    fix mode check i r a
    assume "(bs', d') = (a, d)" "materialize env d mode check i bs = (r, a)"
    then show ?thesis using materialize_since [OF at, of mode check i] same by auto
  next
    fix i base r a b
    assume w: "(bs', d') = (a, b)" "blob_lineage_delta env i base bs d = (r, a, b)"
    obtain r1 cs cd where re: "reencode_as_delta env i base (bs_chunks bs) (bd_chunks d) = (r1, cs, cd)"
      "chunk_since env cs cd m g0 d0 (cs_opts (bs_chunks bs))"
      using reencode_since [OF env since, of i base] by blast
    have "a = bs \<and> b = d \<or> a = bs\<lparr>bs_chunks := cs\<rparr> \<and> b = d\<lparr>bd_chunks := cd\<rparr>"
      using w(2) re(1) by (auto simp: blob_lineage_delta_def split: if_splits)
    then show ?thesis using w(1) same at blob_at_same_chunks [OF at re(2)] by auto
  next
    fix r a b
    assume w: "(bs', d') = (a, b)" "compacts_small (bs_chunks bs) (bd_chunks d)" "blob_compact env bs d = (r, a, b)"
    obtain rep cs cd where c: "chunk_compact env (bs_chunks bs) (bd_chunks d) = (Inr rep, cs, cd)"
      "chunk_since env cs cd m g0 d0 (cs_opts (bs_chunks bs))"
      using chunk_compact_since [OF env since w(2)] by blast
    then show ?thesis using w(1,3) same blob_at_same_chunks [OF at c(2)] by (auto simp: blob_compact_def)
  next
    fix r a b
    assume "(bs', d') = (a, b)" "blob_sync_from_disk env bs d = (r, a, b)"
    then show ?thesis using blob_sync_at [OF at] same at by auto
  next
    fix relaxed
    assume "(bs', d') = (bs, blob_flush relaxed bs d)"
    then show ?thesis using blob_flush_at [OF at] same by auto
  qed
qed

lemma blob_run_at:
  assumes run: "blob_run env U w w'"
  shows "blob_env_ok env U (bs_opts (fst w)) \<Longrightarrow> blob_at env U (fst w) (snd w) m es g0 d0 \<Longrightarrow>
    bs_opts (fst w') = bs_opts (fst w) \<and>
    (\<exists>m' es'. blob_at env U (fst w') (snd w') m' (es @ es') g0 d0 \<and> blob_view m es \<subseteq>\<^sub>m blob_view m' (es @ es'))"
  using run
proof (induction rule: blob_run.induct)
  case (blob_run_none w)
  then show ?case by (intro conjI exI [of _ m] exI [of _ "[]"]) simp_all
next
  case (blob_run_more w w' w'')
  then obtain m1 es1 where m1: "bs_opts (fst w') = bs_opts (fst w)" "blob_at env U (fst w') (snd w') m1 (es @ es1) g0 d0"
    "blob_view m es \<subseteq>\<^sub>m blob_view m1 (es @ es1)" by blast
  have "blob_step env U (fst w', snd w') (fst w'', snd w'')" using blob_run_more.hyps by simp
  with blob_step_at [of env U "fst w'" "snd w'" m1 "es @ es1" g0 d0 "fst w''" "snd w''"] m1 blob_run_more.prems(1)
  obtain m2 es2 where m2: "bs_opts (fst w'') = bs_opts (fst w')" "blob_at env U (fst w'') (snd w'') m2 ((es @ es1) @ es2) g0 d0"
    "blob_view m1 (es @ es1) \<subseteq>\<^sub>m blob_view m2 ((es @ es1) @ es2)" by auto
  show ?case
    using m1(1) m2 map_le_trans [OF m1(3) m2(3)] by (intro conjI exI [of _ m2] exI [of _ "es1 @ es2"]) simp_all
qed

section \<open>Opening after a crash\<close>

text \<open>What a crash may leave: a torn record behind the last pack and another behind the blob map.\<close>

definition blob_torn :: "store_env \<Rightarrow> blob_store \<Rightarrow> blob_disk \<Rightarrow> blob_disk \<Rightarrow> bool" where
  "blob_torn env bs d d' \<longleftrightarrow>
     (\<exists>t u f f'. no_record t \<and> log_torn (blobmap_format (se_hash env)) u \<and>
        bd_chunks d' = put_pack (ap_seq (cs_active (bs_chunks bs)))
          (pack_bytes_of (bd_chunks d) (ap_seq (cs_active (bs_chunks bs))) @ t) (bd_chunks d) \<and>
        bd_map d = Some f \<and> bd_map d' = Some f' \<and> df_bytes f' = df_bytes f @ u)"

lemma blob_open_torn:
  assumes at: "blob_at env U bs d m es g0 d0" and torn: "blob_torn env bs d d'" and opts: "2 \<le> bo_fanout opts"
    "co_seal_threshold (bo_chunks opts) \<le> 2 ^ 63"
  shows "\<exists>bs'' d'' g1 d1. blob_open env opts d' = Some (Inr bs'', d'') \<and> blob_at env U bs'' d'' m es g1 d1 \<and> bs_opts bs'' = opts"
proof -
  obtain t u f f' where t: "no_record t" "log_torn (blobmap_format (se_hash env)) u"
    "bd_chunks d' = put_pack (ap_seq (cs_active (bs_chunks bs)))
       (pack_bytes_of (bd_chunks d) (ap_seq (cs_active (bs_chunks bs))) @ t) (bd_chunks d)"
    "bd_map d = Some f" "bd_map d' = Some f'" "df_bytes f' = df_bytes f @ u" using torn by (auto simp: blob_torn_def)
  have "chunk_holds env (bs_chunks bs) (bd_chunks d) m" using at since_holds by (auto simp: blob_at_def)
  from chunk_open_torn [OF this t(1) opts(2)] obtain cs cd where
    cs: "chunk_open env (bo_chunks opts) (bd_chunks d') = (Inr cs, cd)" "chunk_holds env cs cd m" "cs_opts cs = bo_chunks opts"
    by (auto simp: t(3))
  obtain g1 d1 where since: "chunk_since env cs cd m g1 d1 (cs_opts cs)" using cs(2) chunk_holds_since by blast
  have entries: "\<forall>e \<in> set es. blob_entry_ok (se_hash env) e" using at blob_entries_each [of env U m es] by (simp add: blob_at_def)
  have "df_bytes f' = log_bytes (blobmap_format (se_hash env)) es @ u" using at t(4,6) by (simp add: blob_at_def)
  from bm.open_torn [OF entries t(2) this] obtain log f'' where
    log: "log_file_open (blobmap_format (se_hash env)) (Some f') = (Inr log, Some f'')"
      "log_knows (blobmap_format (se_hash env)) log es" "df_bytes f'' = log_bytes (blobmap_format (se_hash env)) es" by blast
  let ?bs = "\<lparr>bs_chunks = cs, bs_map = log, bs_opts = opts\<rparr>" and ?d = "\<lparr>bd_chunks = cd, bd_map = Some f''\<rparr>"
  have "blob_open env opts d' = Some (Inr ?bs, ?d)"
    using cs(1) log(1) t(5) opts(1) by (simp add: blob_open_def blobmap_open_def)
  moreover have "blob_at env U ?bs ?d m es g1 d1" using at since log(2,3) by (simp add: blob_at_def)
  ultimately show ?thesis by (metis blob_store.select_convs(3))
qed

section \<open>Rewinding\<close>

lemma forget_keys: "fold (\<lambda>r m. m(k r := None)) rs m = (\<lambda>i. if i \<in> k ` set rs then None else m i)"
  by (induction rs arbitrary: m) (auto simp: fun_eq_iff)

lemma rewind_state:
  assumes "distinct (map fst (es @ fs))" and "\<forall>e \<in> set fs. blob_entry_ok h e"
  shows "fold (\<lambda>r m. m(take 32 r := None)) (map (lf_record (blobmap_format h)) fs) (map_of (es @ fs)) = map_of es"
proof -
  have "take 32 (lf_record (blobmap_format h) e) = fst e" if "e \<in> set fs" for e
    using assms(2) that by (cases e) (auto simp: lf_record_def blobmap_format_def blob_entry_ok_def)
  then have keys: "(\<lambda>r. take 32 r) ` set (map (lf_record (blobmap_format h)) fs) = fst ` set fs" by (simp add: image_image)
  have "(if i \<in> fst ` set fs then None else map_of (es @ fs) i) = map_of es i" for i
  proof (cases "i \<in> fst ` set fs")
    case True
    then have "i \<notin> fst ` set es" using assms(1) by auto
    then have "map_of es i = None" by (simp add: map_of_eq_None_iff)
    with True show ?thesis by simp
  next
    case False
    then have "map_of fs i = None" by (simp add: map_of_eq_None_iff)
    with False show ?thesis by (simp add: map_add_def split: option.split)
  qed
  with keys show ?thesis by (simp only: forget_keys)
qed

lemma blobmap_rewind_known:
  assumes "log_knows (blobmap_format h) log (es @ fs)" and "df_bytes f = log_bytes (blobmap_format h) (es @ fs)"
    and "distinct (map fst (es @ fs))" and ok: "\<forall>e \<in> set (es @ fs). blob_entry_ok h e"
  shows "\<exists>log' f'. blobmap_rewind h (length (log_bytes (blobmap_format h) es)) log f = (Inr (), log', f') \<and>
    log_knows (blobmap_format h) log' es \<and> df_bytes f' = log_bytes (blobmap_format h) es"
proof -
  let ?fmt = "blobmap_format h" and ?n = "80 * length fs"
  let ?target = "length (log_bytes ?fmt es)" and ?recs = "map (lf_record (blobmap_format h)) fs"
  have bytes: "rewind_bytes ?fmt ?target log = Inr ?n" using bm.rewind_known [OF assms(1) ok] by simp
  have len: "length (concat ?recs) = ?n" using bm.records_length [of fs h] ok by simp
  have tail: "(if 0 < ?n then read_exact_at (df_bytes f) ?n ?target else Inr []) = Inr (concat ?recs)"
    using len by (auto simp: assms(2) read_exact_at_def log_bytes_append)
  have "as_chunks 80 (concat ?recs) = ?recs"
    using ok bm.record_length [of h] by (intro as_chunks_concat) auto
  then have "fold (\<lambda>r m. m(take 32 r := None)) (as_chunks 80 (concat ?recs)) (rl_state log) = map_of es"
    using assms(1,3) rewind_state [OF assms(3)] ok by (simp add: log_knows_def blobmap_state del: map_of_append)
  moreover have "log_state ?fmt es = map_of es" using assms(3) by (simp add: blobmap_state)
  moreover obtain log' f' where rw: "rewind_to ?target (map_of es) log f = (log', f')" by (rule prod.exhaust)
  ultimately show ?thesis using bytes tail bm.rewind_drops [OF assms(2), of log log' f'] by (simp add: blobmap_rewind_def)
qed

lemma blob_rewind_at:
  assumes at0: "blob_at env U bs0 d0 m0 es0 g0 (bd_chunks d0)" and inv0: "chunk_inv env (bs_chunks bs0) (bd_chunks d0) m0 g0"
    and at: "blob_at env U bs d m (es0 @ es) g0 (bd_chunks d0)"
    and same: "ap_seq (cs_active (bs_chunks bs)) = ap_seq (cs_active (bs_chunks bs0))"
  shows "\<exists>bs' d' g1 d1. blob_rewind env (blob_checkpoint bs0) bs d = (Inr (), bs', d') \<and> blob_at env U bs' d' m0 es0 g1 d1 \<and>
    cd_packs (bd_chunks d') = cd_packs (bd_chunks d0) \<and> map_option df_bytes (bd_map d') = map_option df_bytes (bd_map d0)"
proof -
  have room: "ap_len (cs_active (bs_chunks bs0)) < 2 ^ 63" using at0 by (simp add: blob_at_def chunk_since_def)
  have since: "chunk_since env (bs_chunks bs) (bd_chunks d) m g0 (bd_chunks d0) (cs_opts (bs_chunks bs))" using at by (simp add: blob_at_def)
  from chunk_rewind_since [OF inv0 room since same] obtain cs cd where
    cs: "chunk_rewind env (chunk_checkpoint_of (bs_chunks bs0)) (bs_chunks bs) (bd_chunks d) = (Inr (), cs, cd)"
      "chunk_holds env cs cd m0" "cd_packs cd = cd_packs (bd_chunks d0)" by blast
  obtain g1 d1 where g1: "chunk_since env cs cd m0 g1 d1 (cs_opts cs)" using cs(2) chunk_holds_since by blast
  let ?fmt = "blobmap_format (se_hash env)"
  obtain f where f: "bd_map d = Some f" "df_bytes f = log_bytes ?fmt (es0 @ es)" and knows: "log_knows ?fmt (bs_map bs) (es0 @ es)"
    using at by (auto simp: blob_at_def)
  have dist: "distinct (map fst (es0 @ es))" "\<forall>e \<in> set (es0 @ es). blob_entry_ok (se_hash env) e"
    using at blob_entries_each [of env U m "es0 @ es"] by (simp_all add: blob_at_def)
  from blobmap_rewind_known [OF knows f(2) dist] obtain log f' where
    rw: "blobmap_rewind (se_hash env) (length (log_bytes ?fmt es0)) (bs_map bs) f = (Inr (), log, f')"
      "log_knows ?fmt log es0" "df_bytes f' = log_bytes ?fmt es0" by blast
  have "rl_len (bs_map bs0) = length (log_bytes ?fmt es0)" using at0 by (simp add: blob_at_def log_knows_def)
  then have "blob_rewind env (blob_checkpoint bs0) bs d =
      (Inr (), bs\<lparr>bs_chunks := cs, bs_map := log\<rparr>, \<lparr>bd_chunks = cd, bd_map = Some f'\<rparr>)"
    using cs(1) rw(1) f(1) by (simp add: blob_rewind_def blob_checkpoint_def bd_map_file_def)
  moreover have "blob_at env U (bs\<lparr>bs_chunks := cs, bs_map := log\<rparr>) \<lparr>bd_chunks = cd, bd_map = Some f'\<rparr> m0 es0 g1 d1"
    using at0 g1 rw(2,3) by (simp add: blob_at_def)
  moreover have "map_option df_bytes (Some f') = map_option df_bytes (bd_map d0)" using at0 rw(3) by (auto simp: blob_at_def)
  ultimately show ?thesis using cs(3) by (metis blob_disk.select_convs(1,2))
qed

lemma blob_at_restart:
  "blob_at env U bs d m es g0 d0 \<Longrightarrow> \<exists>g. chunk_inv env (bs_chunks bs) (bd_chunks d) m g \<and> blob_at env U bs d m es g (bd_chunks d)"
  by (auto simp: blob_at_def chunk_since_def intro: grown_refl)

section \<open>What the store promises\<close>

lemma blob_holds_in: "blob_holds env U bs d B \<Longrightarrow> B i = Some x \<Longrightarrow> x \<in> U \<and> se_hash env x = i"
  using blob_at_view by (auto simp: blob_holds_def)

lemma blob_get_holds:
  assumes "blob_holds env U bs d B"
  shows "fst (blob_get env d i bs) = (case B i of None \<Rightarrow> Inl (BlobNotFound i) | Some x \<Rightarrow> Inr x)"
    and "fst (blob_get_unverified env d i bs) = (case B i of None \<Rightarrow> Inl (BlobNotFound i) | Some x \<Rightarrow> Inr x)"
proof -
  obtain m es g0 d0 where at: "blob_at env U bs d m es g0 d0" "B = blob_view m es" using assms by (auto simp: blob_holds_def)
  show "fst (blob_get env d i bs) = (case B i of None \<Rightarrow> Inl (BlobNotFound i) | Some x \<Rightarrow> Inr x)"
    using materialize_since [OF at(1), of ReadFast True i] at(2) by (auto simp: blob_get_def split: option.split)
  show "fst (blob_get_unverified env d i bs) = (case B i of None \<Rightarrow> Inl (BlobNotFound i) | Some x \<Rightarrow> Inr x)"
    using materialize_since [OF at(1), of ReadBulk False i] at(2) by (auto simp: blob_get_unverified_def split: option.split)
qed

lemma blob_put_holds:
  assumes "blob_env_ok env U (bs_opts bs)" and "blob_holds env U bs d B" and "blob_fits env U (bs_opts bs) x"
    and "blob_put env x bs d = Some (r, bs', d')"
  shows "\<exists>B'. blob_holds env U bs' d' B' \<and> B \<subseteq>\<^sub>m B' \<and> (\<forall>i. r = Inr i \<longrightarrow> i = se_hash env x \<and> B' i = Some x)"
proof -
  obtain m es g0 d0 where at: "blob_at env U bs d m es g0 d0" "B = blob_view m es" using assms(2) by (auto simp: blob_holds_def)
  from blob_put_at [OF assms(1) at(1) assms(3,4)] at(2) show ?thesis unfolding blob_holds_def by blast
qed

lemma blob_run_holds:
  assumes "blob_env_ok env U (bs_opts bs)" and "blob_holds env U bs d B" and "blob_run env U (bs, d) (bs', d')"
  shows "\<exists>B'. blob_holds env U bs' d' B' \<and> B \<subseteq>\<^sub>m B' \<and> bs_opts bs' = bs_opts bs"
proof -
  obtain m es g0 d0 where at: "blob_at env U bs d m es g0 d0" "B = blob_view m es" using assms(2) by (auto simp: blob_holds_def)
  have "bs_opts bs' = bs_opts bs \<and> (\<exists>m' es'. blob_at env U bs' d' m' (es @ es') g0 d0 \<and> blob_view m es \<subseteq>\<^sub>m blob_view m' (es @ es'))"
    using blob_run_at [OF assms(3)] assms(1) at(1) by simp
  with at(2) show ?thesis unfolding blob_holds_def by blast
qed

text \<open>C3. 
  The blob store refines a map from addresses to byte streams.  Through any run of puts, reads, delta
  re-encodings, compactions, syncs and flushes nothing is lost; every stream is read back, at the boundary
  or in bulk, byte for byte from under its hash, whatever chunks and manifest levels it was cut into; a
  put returns the hash; and a crash in the middle of an append to either file leaves a store that opens
  with the same content.  (\<open>U\<close> is a set of contents on which the hash has no collision.)
\<close>

theorem blob_store_refines:
  assumes "blob_env_ok env U (bs_opts bs)" and "blob_holds env U bs d B" and "blob_run env U (bs, d) (bs', d')"
  shows "\<exists>B'. blob_holds env U bs' d' B' \<and> B \<subseteq>\<^sub>m B' \<and> (\<forall>i x. B' i = Some x \<longrightarrow> se_hash env x = i) \<and>
    (\<forall>i. fst (blob_get env d' i bs') = (case B' i of None \<Rightarrow> Inl (BlobNotFound i) | Some x \<Rightarrow> Inr x)) \<and>
    (\<forall>i. fst (blob_get_unverified env d' i bs') = (case B' i of None \<Rightarrow> Inl (BlobNotFound i) | Some x \<Rightarrow> Inr x)) \<and>
    (\<forall>x i bs'' d''. blob_fits env U (bs_opts bs) x \<and> blob_put env x bs' d' = Some (Inr i, bs'', d'') \<longrightarrow>
       i = se_hash env x \<and> (\<exists>B''. blob_holds env U bs'' d'' B'' \<and> B' \<subseteq>\<^sub>m B'' \<and> B'' i = Some x)) \<and>
    (\<forall>d2 opts. blob_torn env bs' d' d2 \<and> 2 \<le> bo_fanout opts \<and> co_seal_threshold (bo_chunks opts) \<le> 2 ^ 63 \<longrightarrow>
       (\<exists>bs'' d''. blob_open env opts d2 = Some (Inr bs'', d'') \<and> blob_holds env U bs'' d'' B'))"
proof -
  obtain B' where B': "blob_holds env U bs' d' B'" "B \<subseteq>\<^sub>m B'" "bs_opts bs' = bs_opts bs"
    using blob_run_holds [OF assms] by blast
  obtain m es g0 d0 where at: "blob_at env U bs' d' m es g0 d0" "B' = blob_view m es" using B'(1) by (auto simp: blob_holds_def)
  have ok: "blob_env_ok env U (bs_opts bs')" using assms(1) B'(3) by simp
  have put: "\<forall>x i bs'' d''. blob_fits env U (bs_opts bs) x \<and> blob_put env x bs' d' = Some (Inr i, bs'', d'') \<longrightarrow>
       i = se_hash env x \<and> (\<exists>B''. blob_holds env U bs'' d'' B'' \<and> B' \<subseteq>\<^sub>m B'' \<and> B'' i = Some x)"
    using blob_put_holds [OF ok B'(1)] B'(3) by fastforce
  have opens: "\<forall>d2 opts. blob_torn env bs' d' d2 \<and> 2 \<le> bo_fanout opts \<and> co_seal_threshold (bo_chunks opts) \<le> 2 ^ 63 \<longrightarrow>
       (\<exists>bs'' d''. blob_open env opts d2 = Some (Inr bs'', d'') \<and> blob_holds env U bs'' d'' B')"
    using blob_open_torn [OF at(1)] at(2) unfolding blob_holds_def by blast
  have hash: "\<forall>i x. B' i = Some x \<longrightarrow> se_hash env x = i" using blob_holds_in [OF B'(1)] by blast
  show ?thesis
    by (rule exI [of _ B'], intro conjI) (fact B'(1) B'(2) hash put opens | intro allI, fact blob_get_holds [OF B'(1)])+
qed

text \<open>
  Rewinding the blob store undoes a batch: unless the active pack was rolled since the checkpoint, it
  succeeds, drops every stream the batch stored, keeps every other one, and restores the bytes of the
  packs and of the blob map.
\<close>

theorem blob_rewind_undoes:
  assumes "blob_env_ok env U (bs_opts bs0)" and "blob_holds env U bs0 d0 B0" and "blob_run env U (bs0, d0) (bs, d)"
    and "ap_seq (cs_active (bs_chunks bs)) = ap_seq (cs_active (bs_chunks bs0))"
  shows "\<exists>bs' d'. blob_rewind env (blob_checkpoint bs0) bs d = (Inr (), bs', d') \<and> blob_holds env U bs' d' B0 \<and>
    cd_packs (bd_chunks d') = cd_packs (bd_chunks d0) \<and> map_option df_bytes (bd_map d') = map_option df_bytes (bd_map d0)"
proof -
  obtain m0 es0 g d1 where at: "blob_at env U bs0 d0 m0 es0 g d1" "B0 = blob_view m0 es0" using assms(2) by (auto simp: blob_holds_def)
  obtain g0 where g0: "chunk_inv env (bs_chunks bs0) (bd_chunks d0) m0 g0" "blob_at env U bs0 d0 m0 es0 g0 (bd_chunks d0)"
    using blob_at_restart [OF at(1)] by blast
  obtain m es where "blob_at env U bs d m (es0 @ es) g0 (bd_chunks d0)"
    using blob_run_at [OF assms(3), of m0 es0 g0 "bd_chunks d0", simplified, OF assms(1) g0(2)] by blast
  from blob_rewind_at [OF g0(2,1) this assms(4)] at(2) show ?thesis unfolding blob_holds_def by blast
qed

section \<open>A store to try it on\<close>

definition empty_blob_disk :: blob_disk where
  "empty_blob_disk = \<lparr>bd_chunks = empty_chunk_disk, bd_map = None\<rparr>"

lemma sample_blob_env: "blob_env_ok sample_store {[1, 2, 3]} blob_opts_default"
  by (simp add: blob_env_ok_def sample_store_ok blob_opts_default_def)

lemma sample_blob_fits: "blob_fits sample_store {[1, 2, 3]} blob_opts_default [1, 2, 3]"
proof -
  show ?thesis using chunks_small by (simp add: blob_fits_def blob_writes_def blob_opts_default_def)
qed

lemma sample_blob_empty:
  "\<exists>bs d. blob_open sample_store blob_opts_default empty_blob_disk = Some (Inr bs, d) \<and> blob_holds sample_store U bs d Map.empty \<and>
     bs_opts bs = blob_opts_default \<and> cs_index (bs_chunks bs) = [] \<and> cs_opts (bs_chunks bs) = chunk_opts_default \<and>
     cs_active (bs_chunks bs) = \<lparr>ap_seq = 1, ap_len = ALTP_HEADER_LEN, ap_entries = []\<rparr>"
proof -
  obtain cs cd where cs: "chunk_open sample_store chunk_opts_default empty_chunk_disk = (Inr cs, cd)"
    "chunk_holds sample_store cs cd Map.empty" "cs_opts cs = chunk_opts_default" "cs_index cs = []"
    "cs_active cs = \<lparr>ap_seq = 1, ap_len = ALTP_HEADER_LEN, ap_entries = []\<rparr>"
    using chunk_open_empty [of chunk_opts_default sample_store] by (auto simp: chunk_opts_default_def)
  obtain g0 d0 where since: "chunk_since sample_store cs cd Map.empty g0 d0 (cs_opts cs)" using cs(2) chunk_holds_since by blast
  obtain f where f: "log_file_open (blobmap_format (se_hash sample_store)) None =
      (Inr \<lparr>rl_state = log_state (blobmap_format (se_hash sample_store)) [],
            rl_len = length (log_bytes (blobmap_format (se_hash sample_store)) []),
            rl_pos = length (log_bytes (blobmap_format (se_hash sample_store)) [])\<rparr>, Some f)"
    "df_bytes f = log_bytes (blobmap_format (se_hash sample_store)) []"
    using bm.open_new by blast
  let ?log = "\<lparr>rl_state = log_state (blobmap_format (se_hash sample_store)) [],
            rl_len = length (log_bytes (blobmap_format (se_hash sample_store)) []),
            rl_pos = length (log_bytes (blobmap_format (se_hash sample_store)) [])\<rparr>"
  let ?bs = "\<lparr>bs_chunks = cs, bs_map = ?log, bs_opts = blob_opts_default\<rparr>" and ?d = "\<lparr>bd_chunks = cd, bd_map = Some f\<rparr>"
  have "blob_open sample_store blob_opts_default empty_blob_disk = Some (Inr ?bs, ?d)"
    using cs(1) f(1) by (simp add: blob_open_def blobmap_open_def empty_blob_disk_def blob_opts_default_def)
  moreover have "blob_at sample_store U ?bs ?d Map.empty [] g0 d0"
    using since f(2) by (simp add: blob_at_def log_knows_def blob_entries_ok_def)
  then have "blob_holds sample_store U ?bs ?d (blob_view Map.empty [])" unfolding blob_holds_def by blast
  moreover have "blob_view Map.empty [] = Map.empty" by (simp add: blob_view_def fun_eq_iff)
  ultimately show ?thesis using cs(3,4,5) by auto
qed

lemma sample_blob_put:
  "\<exists>bs d bs' d' B. blob_holds sample_store {[1, 2, 3]} bs d Map.empty \<and> bs_opts bs = blob_opts_default \<and>
     blob_run sample_store {[1, 2, 3]} (bs, d) (bs', d') \<and> blob_holds sample_store {[1, 2, 3]} bs' d' B \<and>
     B (se_hash sample_store [1, 2, 3]) = Some [1, 2, 3] \<and>
     ap_seq (cs_active (bs_chunks bs')) = ap_seq (cs_active (bs_chunks bs))"
proof -
  obtain bs d where bs: "blob_holds sample_store {[1, 2, 3]} bs d Map.empty" "bs_opts bs = blob_opts_default"
    "cs_index (bs_chunks bs) = []" "cs_opts (bs_chunks bs) = chunk_opts_default"
    "cs_active (bs_chunks bs) = \<lparr>ap_seq = 1, ap_len = ALTP_HEADER_LEN, ap_entries = []\<rparr>"
    using sample_blob_empty by blast
  obtain cs cd where put: "chunk_put sample_store [1, 2, 3] (bs_chunks bs) (bd_chunks d) = (Inr (se_hash sample_store [1, 2, 3]), cs, cd)"
    "ap_seq (cs_active cs) = 1" using sample_put_runs [OF bs(4,3,5)] by blast
  have ok: "blob_env_ok sample_store {[1, 2, 3]} (bs_opts bs)" "blob_fits sample_store {[1, 2, 3]} (bs_opts bs) [1, 2, 3]"
    using sample_blob_env sample_blob_fits bs(2) by simp_all
  obtain m es g0 d0 where at: "blob_at sample_store {[1, 2, 3]} bs d m es g0 d0" "Map.empty = blob_view m es"
    using bs(1) unfolding blob_holds_def by blast
  have "\<not> blob_contains bs (se_hash sample_store [1, 2, 3])" using blob_at_contains [OF at(1)] by (simp flip: at(2))
  then have run: "blob_put sample_store [1, 2, 3] bs d = Some (Inr (se_hash sample_store [1, 2, 3]), bs\<lparr>bs_chunks := cs\<rparr>, d\<lparr>bd_chunks := cd\<rparr>)"
    using put(1) bs(2) chunks_small by (simp add: blob_put_def blob_opts_default_def)
  from blob_put_holds [OF ok(1) bs(1) ok(2) run] obtain B where
    "blob_holds sample_store {[1, 2, 3]} (bs\<lparr>bs_chunks := cs\<rparr>) (d\<lparr>bd_chunks := cd\<rparr>) B"
    "B (se_hash sample_store [1, 2, 3]) = Some [1, 2, 3]" by blast
  moreover have "blob_run sample_store {[1, 2, 3]} (bs, d) (bs\<lparr>bs_chunks := cs\<rparr>, d\<lparr>bd_chunks := cd\<rparr>)"
    using blob_run_more [OF blob_run_none blob_step_put [OF ok(2) run]] .
  ultimately show ?thesis using bs(1,2,5) put(2)
    by (intro exI [of _ bs] exI [of _ d] exI [of _ "bs\<lparr>bs_chunks := cs\<rparr>"] exI [of _ "d\<lparr>bd_chunks := cd\<rparr>"] exI [of _ B]) simp
qed

theorem blob_store_refines_witness:
  "\<exists>bs d. fst (blob_get sample_store d (se_hash sample_store [1, 2, 3]) bs) = Inr [1, 2, 3]"
proof -
  obtain bs d bs' d' B where s: "blob_holds sample_store {[1, 2, 3]} bs d Map.empty" "bs_opts bs = blob_opts_default"
    "blob_run sample_store {[1, 2, 3]} (bs, d) (bs', d')" "blob_holds sample_store {[1, 2, 3]} bs' d' B"
    "B (se_hash sample_store [1, 2, 3]) = Some [1, 2, 3]" using sample_blob_put by blast
  have opts: "bs_opts bs' = blob_opts_default"
    using blob_run_holds [OF _ s(1,3)] sample_blob_env s(2) by simp
  then have "blob_env_ok sample_store {[1, 2, 3]} (bs_opts bs')" using sample_blob_env by simp
  from blob_store_refines [OF this s(4) blob_run_none] obtain B' where
    "B \<subseteq>\<^sub>m B'" "\<forall>i. fst (blob_get sample_store d' i bs') = (case B' i of None \<Rightarrow> Inl (BlobNotFound i) | Some x \<Rightarrow> Inr x)" by blast
  moreover from this have "B' (se_hash sample_store [1, 2, 3]) = Some [1, 2, 3]" using s(5) by (auto simp: map_le_def dom_def)
  ultimately have "fst (blob_get sample_store d' (se_hash sample_store [1, 2, 3]) bs') = Inr [1, 2, 3]" by simp
  then show ?thesis by blast
qed

theorem blob_rewind_undoes_witness:
  "\<exists>bs0 d0 bs d bs' d'. blob_holds sample_store {[1, 2, 3]} bs0 d0 Map.empty \<and> fst (blob_get sample_store d (se_hash sample_store [1, 2, 3]) bs) = Inr [1, 2, 3] \<and>
     blob_rewind sample_store (blob_checkpoint bs0) bs d = (Inr (), bs', d') \<and> cd_packs (bd_chunks d') = cd_packs (bd_chunks d0) \<and>
     fst (blob_get sample_store d' (se_hash sample_store [1, 2, 3]) bs') = Inl (BlobNotFound (se_hash sample_store [1, 2, 3]))"
proof -
  obtain bs d bs' d' B where s: "blob_holds sample_store {[1, 2, 3]} bs d Map.empty" "bs_opts bs = blob_opts_default"
    "blob_run sample_store {[1, 2, 3]} (bs, d) (bs', d')" "blob_holds sample_store {[1, 2, 3]} bs' d' B"
    "B (se_hash sample_store [1, 2, 3]) = Some [1, 2, 3]" "ap_seq (cs_active (bs_chunks bs')) = ap_seq (cs_active (bs_chunks bs))"
    using sample_blob_put by blast
  have "blob_env_ok sample_store {[1, 2, 3]} (bs_opts bs)" using sample_blob_env s(2) by simp
  from blob_rewind_undoes [OF this s(1,3,6)] obtain bs2 d2 where
    "blob_rewind sample_store (blob_checkpoint bs) bs' d' = (Inr (), bs2, d2)" "blob_holds sample_store {[1, 2, 3]} bs2 d2 Map.empty"
    "cd_packs (bd_chunks d2) = cd_packs (bd_chunks d)" by blast
  moreover from this blob_get_holds(1)
  have "fst (blob_get sample_store d2 (se_hash sample_store [1, 2, 3]) bs2) = Inl (BlobNotFound (se_hash sample_store [1, 2, 3]))" by fastforce
  moreover have "fst (blob_get sample_store d' (se_hash sample_store [1, 2, 3]) bs') = Inr [1, 2, 3]"
    using blob_get_holds(1) [OF s(4)] s(5) by simp
  ultimately show ?thesis using s(1) by blast
qed

end
