(* ===== verification/Odb_Maps.thy ===== *)
theory Odb_Maps
  imports Blob_Spec Git_Object
begin

text \<open>
  The files the object database keeps beside its blob store: \<^verbatim>\<open>alt-odb/src/map.rs\<close>, the map between
  git ids and contents, and \<^verbatim>\<open>alt-odb/src/tier1.rs\<close>, the streams stored decomposed, with the text of
  their records; and \<^verbatim>\<open>alt-prism/src/lib.rs\<close>, the registry of the decomposers.
\<close>

section \<open>Map entries\<close>

record map_entry =
  me_git :: object_id
  me_alt :: blob_id
  me_kind :: object_kind
  me_size :: u64

fun algo_byte :: "hash_algo \<Rightarrow> u8" where
  "algo_byte Sha1 = 1"
| "algo_byte Sha256 = 2"

fun kind_byte :: "object_kind \<Rightarrow> u8" where
  "kind_byte Blob = 0"
| "kind_byte Tree = 1"
| "kind_byte Commit = 2"
| "kind_byte Tag = 3"

definition parse_kind :: "u8 \<Rightarrow> string + object_kind" where
  "parse_kind b =
     (if b = 0 then Inr Blob else if b = 1 then Inr Tree else if b = 2 then Inr Commit else if b = 3 then Inr Tag
      else Inl ''bad object kind in map.alt'')"

text \<open>The checked part of a record; the id is padded to 32 bytes.\<close>

definition entry_encode :: "map_entry \<Rightarrow> bytes" where
  "entry_encode e =
     (let oid = oid_as_bytes (me_git e)
      in [algo_byte (oid_algo (me_git e))] @ oid @ replicate (32 - length oid) 0 @ me_alt e
         @ [kind_byte (me_kind e)] @ le_bytes 8 (me_size e))"

definition entry_parse :: "bytes \<Rightarrow> string + map_entry" where
  "entry_parse r =
     bindR (if r ! 0 = 1 then Inr Sha1 else if r ! 0 = 2 then Inr Sha256 else Inl ''bad hash algo in map.alt'') (\<lambda>algo.
     bindR (parse_kind (r ! 65)) (\<lambda>kind.
       Inr \<lparr>me_git = mk_oid algo (take (raw_len algo) (drop 1 r)), me_alt = take 32 (drop 33 r), me_kind = kind,
            me_size = from_le (take 8 (drop 66 r))\<rparr>))"

section \<open>The object map\<close>

text \<open>The entries in append order, and the positions of a git id and of a content among them.\<close>

record object_map =
  om_entries :: "map_entry list"
  om_by_git :: "object_id \<Rightarrow> u32 option"
  om_by_alt :: "blob_id \<Rightarrow> u32 list option"

definition om_empty :: object_map where
  "om_empty = \<lparr>om_entries = [], om_by_git = Map.empty, om_by_alt = Map.empty\<rparr>"

definition om_insert :: "map_entry \<Rightarrow> object_map \<Rightarrow> object_map" where
  "om_insert e om =
     (let at = of_nat (length (om_entries om)) :: u32
      in \<lparr>om_entries = om_entries om @ [e], om_by_git = (om_by_git om)(me_git e \<mapsto> at),
          om_by_alt = (om_by_alt om)(me_alt e \<mapsto> (case om_by_alt om (me_alt e) of None \<Rightarrow> [] | Some l \<Rightarrow> l) @ [at])\<rparr>)"

definition object_map_format :: "(bytes \<Rightarrow> bytes) \<Rightarrow> (map_entry, object_map) log_format" where
  "object_map_format h =
     \<lparr>lf_name = ''map.alt'', lf_magic = lit ''ALTG'', lf_version = 1, lf_hash = h, lf_checked = 74,
      lf_encode = entry_encode, lf_parse = entry_parse, lf_insert = om_insert, lf_empty = om_empty\<rparr>"

type_synonym object_map_log = "object_map rec_log"

definition object_map_open ::
  "(bytes \<Rightarrow> bytes) \<Rightarrow> disk_file option \<Rightarrow> (string + object_map_log) \<times> disk_file option" where
  "object_map_open h = log_file_open (object_map_format h)"

definition object_map_append :: "(bytes \<Rightarrow> bytes) \<Rightarrow> map_entry \<Rightarrow> object_map_log \<Rightarrow> disk_file \<Rightarrow> object_map_log \<times> disk_file" where
  "object_map_append h = rec_append (object_map_format h)"

definition object_map_sync_from_disk ::
  "(bytes \<Rightarrow> bytes) \<Rightarrow> object_map_log \<Rightarrow> disk_file \<Rightarrow> (string + unit) \<times> object_map_log \<times> disk_file" where
  "object_map_sync_from_disk h = rec_sync_from_disk (object_map_format h)"

text \<open>Lookups; the positions are in range, as \<open>om_ok\<close> below says.\<close>

definition by_git :: "object_map \<Rightarrow> object_id \<Rightarrow> map_entry option" where
  "by_git om oid = map_option (\<lambda>at. om_entries om ! unat at) (om_by_git om oid)"

definition by_alt :: "object_map \<Rightarrow> blob_id \<Rightarrow> map_entry list" where
  "by_alt om i = map (\<lambda>at. om_entries om ! unat at) (case om_by_alt om i of None \<Rightarrow> [] | Some l \<Rightarrow> l)"

text \<open>One dropped entry of a rewind.\<close>

definition om_forget :: "u32 \<Rightarrow> map_entry \<Rightarrow> object_map \<Rightarrow> object_map" where
  "om_forget kept_at e om =
     om\<lparr>om_by_git := (om_by_git om)(me_git e := None),
        om_by_alt := (case om_by_alt om (me_alt e) of
                        None \<Rightarrow> om_by_alt om
                      | Some slots \<Rightarrow>
                          let slots' = filter (\<lambda>at. at < kept_at) slots
                          in (om_by_alt om)(me_alt e := (if slots' = [] then None else Some slots')))\<rparr>"

definition object_map_rewind ::
  "(bytes \<Rightarrow> bytes) \<Rightarrow> nat \<Rightarrow> object_map_log \<Rightarrow> disk_file \<Rightarrow> (string + unit) \<times> object_map_log \<times> disk_file" where
  "object_map_rewind h target log f =
     (case rewind_bytes (object_map_format h) target log of
        Inl e \<Rightarrow> (Inl e, log, f)
      | Inr drop_bytes \<Rightarrow>
          let om = rl_state log;
              keep = length (om_entries om) - drop_bytes div lf_rec_len (object_map_format h);
              dropped = drop keep (om_entries om);
              om' = fold (om_forget (of_nat keep)) dropped (om\<lparr>om_entries := take keep (om_entries om)\<rparr>);
              (log', f') = rewind_to target om' log f
          in (Inr (), log', f'))"

section \<open>The Tier 1 map\<close>

type_synonym tier1_map = "blob_id \<Rightarrow> blob_id option"

definition tier1_format :: "(bytes \<Rightarrow> bytes) \<Rightarrow> (blob_id \<times> blob_id, tier1_map) log_format" where
  "tier1_format h =
     \<lparr>lf_name = ''tier1'', lf_magic = lit ''ALT1'', lf_version = 1, lf_hash = h, lf_checked = 64,
      lf_encode = (\<lambda>(blob, rec). blob @ rec), lf_parse = (\<lambda>r. Inr (take 32 r, take 32 (drop 32 r))),
      lf_insert = (\<lambda>(blob, rec) m. m(blob \<mapsto> rec)), lf_empty = Map.empty\<rparr>"

type_synonym tier1_log = "tier1_map rec_log"

definition tier1_open :: "(bytes \<Rightarrow> bytes) \<Rightarrow> disk_file option \<Rightarrow> (store_error + tier1_log) \<times> disk_file option" where
  "tier1_open h fo = (let (r, fo') = log_file_open (tier1_format h) fo in (map_err StoreFormat r, fo'))"

definition tier1_append :: "(bytes \<Rightarrow> bytes) \<Rightarrow> blob_id \<Rightarrow> blob_id \<Rightarrow> tier1_log \<Rightarrow> disk_file \<Rightarrow> tier1_log \<times> disk_file" where
  "tier1_append h blob rec = rec_append (tier1_format h) (blob, rec)"

definition tier1_get :: "tier1_log \<Rightarrow> blob_id \<Rightarrow> blob_id option" where
  "tier1_get log blob = rl_state log blob"

definition tier1_contains :: "tier1_log \<Rightarrow> blob_id \<Rightarrow> bool" where
  "tier1_contains log blob \<longleftrightarrow> rl_state log blob \<noteq> None"

text \<open>The file is opened for writing only, so the read of the dropped records fails.\<close>

definition tier1_rewind ::
  "(bytes \<Rightarrow> bytes) \<Rightarrow> nat \<Rightarrow> tier1_log \<Rightarrow> disk_file \<Rightarrow> (store_error + unit) \<times> tier1_log \<times> disk_file" where
  "tier1_rewind h target log f =
     (case rewind_bytes (tier1_format h) target log of
        Inl e \<Rightarrow> (Inl (StoreFormat e), log, f)
      | Inr drop_bytes \<Rightarrow>
          if 0 < drop_bytes then (Inl (StoreIo ''not opened for reading''), log\<lparr>rl_pos := target\<rparr>, f)
          else let (log', f') = rewind_to target (rl_state log) log f in (Inr (), log', f'))"

section \<open>Tier 1 records\<close>

datatype record_error = Truncated | TrailingBytes

definition encode_record :: "u16 \<Rightarrow> bytes \<Rightarrow> blob_id list \<Rightarrow> bytes" where
  "encode_record prism recipe parts =
     le_bytes 2 prism @ le_bytes 4 (of_nat (length recipe) :: u32) @ recipe
     @ le_bytes 4 (of_nat (length parts) :: u32) @ concat parts"

fun decode_parts :: "nat \<Rightarrow> bytes \<Rightarrow> record_error + blob_id list \<times> bytes" where
  "decode_parts 0 r = Inr ([], r)"
| "decode_parts (Suc n) r =
     (case take_n 32 r of
        None \<Rightarrow> Inl Truncated
      | Some (p, r') \<Rightarrow> bindR (decode_parts n r') (\<lambda>(ps, r''). Inr (p # ps, r'')))"

definition decode_record :: "bytes \<Rightarrow> record_error + u16 \<times> bytes \<times> blob_id list" where
  "decode_record r0 =
     bindR (ok_or Truncated (take_n 2 r0)) (\<lambda>(prism, r1).
     bindR (ok_or Truncated (take_n 4 r1)) (\<lambda>(recipe_len, r2).
     bindR (ok_or Truncated (take_n (unat (from_le recipe_len :: u32)) r2)) (\<lambda>(recipe, r3).
     bindR (ok_or Truncated (take_n 4 r3)) (\<lambda>(n, r4).
     bindR (decode_parts (unat (from_le n :: u32)) r4) (\<lambda>(parts, r5).
       if r5 \<noteq> [] then Inl TrailingBytes else Inr (from_le prism, recipe, parts))))))"

lemma decode_parts_concat: "\<forall>p \<in> set ps. length p = 32 \<Longrightarrow> decode_parts (length ps) (concat ps @ r) = Inr (ps, r)"
  by (induction ps) (simp_all add: take_n_append)

lemma record_round_trip:
  assumes "length recipe < 2 ^ 32" and "length parts < 2 ^ 32" and "\<forall>p \<in> set parts. length p = 32"
  shows "decode_record (encode_record prism recipe parts) = Inr (prism, recipe, parts)"
  using assms decode_parts_concat [of parts "[]"]
  by (simp add: decode_record_def encode_record_def take_n_append codec_simps)

section \<open>Prisms\<close>

text \<open>A decomposer, as far as the registry sees it: \<^verbatim>\<open>Prism\<close> is a trait.\<close>

record decomposition =
  dc_recipe :: bytes
  dc_parts :: "bytes list"

record prism =
  pr_id :: u16
  pr_decompose :: "bytes \<Rightarrow> decomposition option"
  pr_recompose :: "bytes \<Rightarrow> bytes list \<Rightarrow> bytes option"

type_synonym registry = "prism list"

definition register :: "prism \<Rightarrow> registry \<Rightarrow> registry" where
  "register p reg = reg @ [p]"

fun decompose_verified :: "registry \<Rightarrow> bytes \<Rightarrow> (u16 \<times> decomposition) option" where
  "decompose_verified [] data = None"
| "decompose_verified (p # reg) data =
     (case pr_decompose p data of
        None \<Rightarrow> decompose_verified reg data
      | Some dc \<Rightarrow>
          if pr_recompose p (dc_recipe dc) (dc_parts dc) = Some data then Some (pr_id p, dc)
          else decompose_verified reg data)"

definition registry_recompose :: "registry \<Rightarrow> u16 \<Rightarrow> bytes \<Rightarrow> bytes list \<Rightarrow> bytes option" where
  "registry_recompose reg i recipe parts =
     (case filter (\<lambda>p. pr_id p = i) reg of [] \<Rightarrow> None | p # _ \<Rightarrow> pr_recompose p recipe parts)"

lemma decompose_verified_member:
  "decompose_verified reg data = Some (i, dc) \<Longrightarrow>
   \<exists>p \<in> set reg. pr_id p = i \<and> pr_recompose p (dc_recipe dc) (dc_parts dc) = Some data"
  by (induction reg) (auto split: option.splits if_splits)

lemma registry_recompose_member:
  "distinct (map pr_id reg) \<Longrightarrow> p \<in> set reg \<Longrightarrow> registry_recompose reg (pr_id p) recipe parts = pr_recompose p recipe parts"
  by (induction reg) (auto simp: registry_recompose_def filter_empty_conv intro: rev_image_eqI split: list.split)

text \<open>
  The iron law needs the ids of the prisms to be distinct: a decomposition is verified by the prism that
  made it and recomposed by the first one with its id.
\<close>

lemma decompose_recompose:
  assumes "distinct (map pr_id reg)" and "decompose_verified reg data = Some (i, dc)"
  shows "registry_recompose reg i (dc_recipe dc) (dc_parts dc) = Some data"
  using decompose_verified_member [OF assms(2)] registry_recompose_member [OF assms(1)] by metis

end
