(* ===== verification/Odb.thy ===== *)
theory Odb
  imports Odb_Maps
begin

text \<open>
  \<^verbatim>\<open>alt-odb/src/lib.rs\<close>: the object database, git objects over the blob store.  A process holds an
  \<open>odb\<close>, the files are an \<open>odb_disk\<close>.  The write lock makes a batch atomic towards other processes, so it
  is only the flag that says whether this process holds it; \<open>sha\<close> are the git hashes.  A result
  is \<open>None\<close> where the code panics.
\<close>

section \<open>State\<close>

datatype odb_error =
    OdbStore store_error
  | OdbFormat string
  | HashMismatch object_id object_id
  | SizeMismatch object_id u64
  | Tier1Record blob_id record_error
  | Tier1Recompose blob_id
  | Tier1HashMismatch blob_id

record odb =
  od_blobs :: blob_store
  od_map :: object_map_log
  od_tier1 :: tier1_log
  od_registry :: registry
  od_held :: bool
  od_defer :: bool
  od_write_count :: nat

record odb_disk =
  dd_blobs :: blob_disk
  dd_map :: "disk_file option"
  dd_tier1 :: "disk_file option"
  dd_marker :: "bytes option"

definition the_file :: "disk_file option \<Rightarrow> disk_file" where
  "the_file fo = (case fo of None \<Rightarrow> \<lparr>df_bytes = [], df_synced = 0\<rparr> | Some f \<Rightarrow> f)"

definition odb_open ::
  "store_env \<Rightarrow> registry \<Rightarrow> blob_opts \<Rightarrow> odb_disk \<Rightarrow> ((odb_error + odb) \<times> odb_disk) option" where
  "odb_open env default_registry opts d =
     (case blob_open env opts (dd_blobs d) of
        None \<Rightarrow> None
      | Some (Inl e, bd) \<Rightarrow> Some (Inl (OdbStore e), d\<lparr>dd_blobs := bd\<rparr>)
      | Some (Inr bs, bd) \<Rightarrow>
          Some
          (case object_map_open (se_hash env) (dd_map d) of
             (Inl e, mf) \<Rightarrow> (Inl (OdbFormat e), d\<lparr>dd_blobs := bd, dd_map := mf\<rparr>)
           | (Inr om, mf) \<Rightarrow>
               (case tier1_open (se_hash env) (dd_tier1 d) of
                  (Inl e, tf) \<Rightarrow> (Inl (OdbStore e), d\<lparr>dd_blobs := bd, dd_map := mf, dd_tier1 := tf\<rparr>)
                | (Inr t1, tf) \<Rightarrow>
                    (Inr \<lparr>od_blobs = bs, od_map = om, od_tier1 = t1, od_registry = default_registry, od_held = False,
                          od_defer = False, od_write_count = 0\<rparr>,
                     d\<lparr>dd_blobs := bd, dd_map := mf, dd_tier1 := tf\<rparr>))))"

section \<open>The write lock\<close>

definition odb_acquire :: "store_env \<Rightarrow> odb \<Rightarrow> odb_disk \<Rightarrow> (odb_error + unit) \<times> odb \<times> odb_disk" where
  "odb_acquire env od d =
     (if od_held od then (Inr (), od, d)
      else case blob_sync_from_disk env (od_blobs od) (dd_blobs d) of
             (Inl e, bs, bd) \<Rightarrow> (Inl (OdbStore e), od\<lparr>od_held := True, od_blobs := bs\<rparr>, d\<lparr>dd_blobs := bd\<rparr>)
           | (Inr _, bs, bd) \<Rightarrow>
               let (r, om, mf) = object_map_sync_from_disk (se_hash env) (od_map od) (the_file (dd_map d))
               in (map_err OdbFormat r, od\<lparr>od_held := True, od_blobs := bs, od_map := om\<rparr>,
                   d\<lparr>dd_blobs := bd, dd_map := Some mf\<rparr>))"

definition odb_release :: "odb \<Rightarrow> odb" where
  "odb_release od = od\<lparr>od_held := False\<rparr>"

definition odb_refresh :: "store_env \<Rightarrow> odb \<Rightarrow> odb_disk \<Rightarrow> (odb_error + unit) \<times> odb \<times> odb_disk" where
  "odb_refresh env od d =
     (case odb_acquire env od d of
        (Inl e, od', d') \<Rightarrow> (Inl e, od', d')
      | (Inr _, od', d') \<Rightarrow> (Inr (), odb_release od', d'))"

section \<open>Writing\<close>

text \<open>The parts of a decomposition, each put as a blob.\<close>

fun put_parts ::
  "store_env \<Rightarrow> bytes list \<Rightarrow> blob_store \<Rightarrow> blob_disk \<Rightarrow> ((store_error + blob_id list) \<times> blob_store \<times> blob_disk) option" where
  "put_parts env [] bs d = Some (Inr [], bs, d)"
| "put_parts env (p # ps) bs d =
     (case blob_put env p bs d of
        None \<Rightarrow> None
      | Some (Inl e, bs', d') \<Rightarrow> Some (Inl e, bs', d')
      | Some (Inr i, bs', d') \<Rightarrow>
          (case put_parts env ps bs' d' of
             None \<Rightarrow> None
           | Some (Inl e, bs'', d'') \<Rightarrow> Some (Inl e, bs'', d'')
           | Some (Inr is, bs'', d'') \<Rightarrow> Some (Inr (i # is), bs'', d'')))"

definition put_blob ::
  "store_env \<Rightarrow> bytes \<Rightarrow> odb \<Rightarrow> odb_disk \<Rightarrow> ((store_error + blob_id) \<times> odb \<times> odb_disk) option" where
  "put_blob env data od d =
     (let i = se_hash env data in
      if tier1_contains (od_tier1 od) i \<or> blob_contains (od_blobs od) i then Some (Inr i, od, d)
      else case decompose_verified (od_registry od) data of
        Some (prism, dc) \<Rightarrow>
          (case put_parts env (dc_parts dc) (od_blobs od) (dd_blobs d) of
             None \<Rightarrow> None
           | Some (Inl e, bs, bd) \<Rightarrow> Some (Inl e, od\<lparr>od_blobs := bs\<rparr>, d\<lparr>dd_blobs := bd\<rparr>)
           | Some (Inr part_ids, bs, bd) \<Rightarrow>
               (case blob_put env (encode_record prism (dc_recipe dc) part_ids) bs bd of
                  None \<Rightarrow> None
                | Some (Inl e, bs', bd') \<Rightarrow> Some (Inl e, od\<lparr>od_blobs := bs'\<rparr>, d\<lparr>dd_blobs := bd'\<rparr>)
                | Some (Inr record_id, bs', bd') \<Rightarrow>
                    let (t1, tf) = tier1_append (se_hash env) i record_id (od_tier1 od) (the_file (dd_tier1 d))
                    in Some (Inr i, od\<lparr>od_blobs := bs', od_tier1 := t1\<rparr>, d\<lparr>dd_blobs := bd', dd_tier1 := Some tf\<rparr>)))
      | None \<Rightarrow>
          (case blob_put env data (od_blobs od) (dd_blobs d) of
             None \<Rightarrow> None
           | Some (r, bs, bd) \<Rightarrow> Some (r, od\<lparr>od_blobs := bs\<rparr>, d\<lparr>dd_blobs := bd\<rparr>)))"

definition odb_put ::
  "store_env \<Rightarrow> (hash_algo \<Rightarrow> bytes \<Rightarrow> bytes) \<Rightarrow> object_id \<Rightarrow> object_kind \<Rightarrow> bytes \<Rightarrow> odb \<Rightarrow> odb_disk
     \<Rightarrow> ((odb_error + blob_id) \<times> odb \<times> odb_disk) option" where
  "odb_put env sha oid kind data od d =
     (case odb_acquire env od d of
        (Inl e, od1, d1) \<Rightarrow> Some (Inl e, od1, d1)
      | (Inr _, od1, d1) \<Rightarrow>
          (case by_git (rl_state (od_map od1)) oid of
             Some entry \<Rightarrow> Some (Inr (me_alt entry), od1, d1)
           | None \<Rightarrow>
               let actual = hash_object sha (oid_algo oid) kind data
               in if actual \<noteq> oid then Some (Inl (HashMismatch oid actual), od1, d1)
                  else (case put_blob env data od1 d1 of
                          None \<Rightarrow> None
                        | Some (Inl e, od2, d2) \<Rightarrow> Some (Inl (OdbStore e), od2, d2)
                        | Some (Inr alt, od2, d2) \<Rightarrow>
                            let (om, mf) = object_map_append (se_hash env)
                                  \<lparr>me_git = oid, me_alt = alt, me_kind = kind, me_size = of_nat (length data)\<rparr>
                                  (od_map od2) (the_file (dd_map d2))
                            in Some (Inr alt, od2\<lparr>od_map := om\<rparr>, d2\<lparr>dd_map := Some mf\<rparr>))))"

definition odb_put_content ::
  "store_env \<Rightarrow> bytes \<Rightarrow> odb \<Rightarrow> odb_disk \<Rightarrow> ((odb_error + blob_id) \<times> odb \<times> odb_disk) option" where
  "odb_put_content env data od d =
     (case odb_acquire env od d of
        (Inl e, od1, d1) \<Rightarrow> Some (Inl e, od1, d1)
      | (Inr _, od1, d1) \<Rightarrow> map_option (\<lambda>(r, od2, d2). (map_err OdbStore r, od2, d2)) (put_blob env data od1 d1))"

section \<open>Reading\<close>

fun get_parts ::
  "store_env \<Rightarrow> blob_disk \<Rightarrow> blob_id list \<Rightarrow> blob_store \<Rightarrow> (store_error + bytes list) \<times> blob_store" where
  "get_parts env d [] bs = (Inr [], bs)"
| "get_parts env d (i # is) bs =
     (case blob_get_unverified env d i bs of
        (Inl e, bs') \<Rightarrow> (Inl e, bs')
      | (Inr x, bs') \<Rightarrow>
          (case get_parts env d is bs' of
             (Inl e, bs'') \<Rightarrow> (Inl e, bs'')
           | (Inr xs, bs'') \<Rightarrow> (Inr (x # xs), bs'')))"

definition fetch_blob :: "store_env \<Rightarrow> odb_disk \<Rightarrow> blob_id \<Rightarrow> odb \<Rightarrow> (odb_error + bytes) \<times> odb" where
  "fetch_blob env d alt od =
     (case tier1_get (od_tier1 od) alt of
        None \<Rightarrow>
          let (r, bs) = blob_get env (dd_blobs d) alt (od_blobs od) in (map_err OdbStore r, od\<lparr>od_blobs := bs\<rparr>)
      | Some record_id \<Rightarrow>
          (case blob_get env (dd_blobs d) record_id (od_blobs od) of
             (Inl e, bs) \<Rightarrow> (Inl (OdbStore e), od\<lparr>od_blobs := bs\<rparr>)
           | (Inr rec, bs) \<Rightarrow>
               (case decode_record rec of
                  Inl e \<Rightarrow> (Inl (Tier1Record alt e), od\<lparr>od_blobs := bs\<rparr>)
                | Inr (prism, recipe, part_ids) \<Rightarrow>
                    (case get_parts env (dd_blobs d) part_ids bs of
                       (Inl e, bs') \<Rightarrow> (Inl (OdbStore e), od\<lparr>od_blobs := bs'\<rparr>)
                     | (Inr parts, bs') \<Rightarrow>
                         (case registry_recompose (od_registry od) prism recipe parts of
                            None \<Rightarrow> Inl (Tier1Recompose alt)
                          | Some data \<Rightarrow> if se_hash env data \<noteq> alt then Inl (Tier1HashMismatch alt) else Inr data,
                          od\<lparr>od_blobs := bs'\<rparr>)))))"

definition odb_get ::
  "store_env \<Rightarrow> odb_disk \<Rightarrow> object_id \<Rightarrow> odb \<Rightarrow> (odb_error + (object_kind \<times> bytes) option) \<times> odb" where
  "odb_get env d oid od =
     (case by_git (rl_state (od_map od)) oid of
        None \<Rightarrow> (Inr None, od)
      | Some entry \<Rightarrow>
          let (r, od') = fetch_blob env d (me_alt entry) od
          in (bindR r (\<lambda>data.
                if length data \<noteq> unat (me_size entry) then Inl (SizeMismatch oid (me_size entry))
                else Inr (Some (me_kind entry, data))), od'))"

definition odb_get_content ::
  "store_env \<Rightarrow> odb_disk \<Rightarrow> blob_id \<Rightarrow> odb \<Rightarrow> (odb_error + bytes option) \<times> odb" where
  "odb_get_content env d i od =
     (if \<not> tier1_contains (od_tier1 od) i \<and> \<not> blob_contains (od_blobs od) i then (Inr None, od)
      else let (r, od') = fetch_blob env d i od in (bindR r (\<lambda>x. Inr (Some x)), od'))"

definition odb_lookup :: "odb \<Rightarrow> object_id \<Rightarrow> map_entry option" where
  "odb_lookup od oid = by_git (rl_state (od_map od)) oid"

definition odb_lookup_by_alt :: "odb \<Rightarrow> blob_id \<Rightarrow> map_entry list" where
  "odb_lookup_by_alt od i = by_alt (rl_state (od_map od)) i"

definition odb_contains :: "odb \<Rightarrow> object_id \<Rightarrow> bool" where
  "odb_contains od oid \<longleftrightarrow> by_git (rl_state (od_map od)) oid \<noteq> None"

definition odb_entries :: "odb \<Rightarrow> map_entry list" where
  "odb_entries od = om_entries (rl_state (od_map od))"

text \<open>The loop of \<^verbatim>\<open>lookup_by_prefix\<close>; the capacity is checked after a push.\<close>

fun prefix_loop :: "bytes \<Rightarrow> nat \<Rightarrow> map_entry list \<Rightarrow> map_entry list \<Rightarrow> map_entry list" where
  "prefix_loop lower cap [] out = out"
| "prefix_loop lower cap (e # es) out =
     (if strip_prefix lower (oid_to_string (me_git e)) \<noteq> None then
        (let out' = out @ [e] in if cap \<le> length out' then out' else prefix_loop lower cap es out')
      else prefix_loop lower cap es out)"

definition is_hexdigit :: "u8 \<Rightarrow> bool" where
  "is_hexdigit b \<longleftrightarrow> (0x30 \<le> b \<and> b \<le> 0x39) \<or> (0x61 \<le> b \<and> b \<le> 0x66) \<or> (0x41 \<le> b \<and> b \<le> 0x46)"

definition lower_byte :: "u8 \<Rightarrow> u8" where
  "lower_byte b = (if 0x41 \<le> b \<and> b \<le> 0x5a then b + 32 else b)"

definition odb_lookup_by_prefix :: "odb \<Rightarrow> bytes \<Rightarrow> nat \<Rightarrow> map_entry list" where
  "odb_lookup_by_prefix od prefix cap =
     (if length prefix < 4 \<or> 64 \<le> length prefix then []
      else if \<not> list_all is_hexdigit prefix then []
      else prefix_loop (map lower_byte prefix) cap (om_entries (rl_state (od_map od))) [])"

section \<open>Storage\<close>

definition odb_lineage_delta ::
  "store_env \<Rightarrow> object_id \<Rightarrow> object_id \<Rightarrow> odb \<Rightarrow> odb_disk \<Rightarrow> (odb_error + bool) \<times> odb \<times> odb_disk" where
  "odb_lineage_delta env old new od d =
     (case odb_acquire env od d of
        (Inl e, od1, d1) \<Rightarrow> (Inl e, od1, d1)
      | (Inr _, od1, d1) \<Rightarrow>
          (case (by_git (rl_state (od_map od1)) old, by_git (rl_state (od_map od1)) new) of
             (Some old_entry, Some new_entry) \<Rightarrow>
               let (r, bs, bd) = blob_lineage_delta env (me_alt old_entry) (me_alt new_entry) (od_blobs od1) (dd_blobs d1)
               in (map_err OdbStore r, od1\<lparr>od_blobs := bs\<rparr>, d1\<lparr>dd_blobs := bd\<rparr>)
           | _ \<Rightarrow> (Inr False, od1, d1)))"

definition odb_compact ::
  "store_env \<Rightarrow> odb \<Rightarrow> odb_disk \<Rightarrow> (odb_error + compact_report) \<times> odb \<times> odb_disk" where
  "odb_compact env od d =
     (case odb_acquire env od d of
        (Inl e, od1, d1) \<Rightarrow> (Inl e, od1, d1)
      | (Inr _, od1, d1) \<Rightarrow>
          let (r, bs, bd) = blob_compact env (od_blobs od1) (dd_blobs d1)
          in (map_err OdbStore r, od1\<lparr>od_blobs := bs\<rparr>, d1\<lparr>dd_blobs := bd\<rparr>))"

section \<open>Durability\<close>

text \<open>The marker file: how far the active pack, the blob map and the object map are durable.\<close>

type_synonym eofs = "nat \<times> nat \<times> nat"

definition odb_read_durable :: "odb_disk \<Rightarrow> eofs" where
  "odb_read_durable d =
     (case dd_marker d of
        Some b \<Rightarrow>
          if 24 \<le> length b then
            (unat (from_le (take 8 b) :: u64), unat (from_le (take 8 (drop 8 b)) :: u64),
             unat (from_le (take 8 (drop 16 b)) :: u64))
          else (0, 0, 0)
      | None \<Rightarrow> (0, 0, 0))"

definition odb_write_durable :: "eofs \<Rightarrow> odb_disk \<Rightarrow> odb_disk" where
  "odb_write_durable e d =
     (case e of (a, b, c) \<Rightarrow>
        d\<lparr>dd_marker := Some (le_bytes 8 (of_nat a :: u64) @ le_bytes 8 (of_nat b :: u64) @ le_bytes 8 (of_nat c :: u64))\<rparr>)"

definition covers :: "eofs \<Rightarrow> eofs \<Rightarrow> bool" where
  "covers durable target \<longleftrightarrow>
     fst target \<le> fst durable \<and> fst (snd target) \<le> fst (snd durable) \<and> snd (snd target) \<le> snd (snd durable)"

definition odb_fsync :: "odb \<Rightarrow> odb_disk \<Rightarrow> odb_disk" where
  "odb_fsync od d =
     d\<lparr>dd_blobs := blob_fsync (od_blobs od) (dd_blobs d), dd_tier1 := map_option df_sync (dd_tier1 d),
       dd_map := map_option df_sync (dd_map d)\<rparr>"

text \<open>\<open>others\<close> is what other processes do until this one has the sync lock.\<close>

definition odb_sync_to :: "(odb_disk \<Rightarrow> odb_disk) \<Rightarrow> eofs \<Rightarrow> odb \<Rightarrow> odb_disk \<Rightarrow> odb_disk" where
  "odb_sync_to others target od d =
     (if covers (odb_read_durable d) target then d
      else
        let d1 = others d in
        if covers (odb_read_durable d1) target then d1
        else
          let (pf, bf) = blob_file_lens (od_blobs od) (dd_blobs d1);
              eofs = (pf, bf, length (df_bytes (the_file (dd_map d1))))
          in odb_write_durable eofs (odb_fsync od d1))"

definition odb_flush :: "bool \<Rightarrow> (odb_disk \<Rightarrow> odb_disk) \<Rightarrow> odb \<Rightarrow> odb_disk \<Rightarrow> odb \<times> odb_disk" where
  "odb_flush relaxed others od d =
     (let (pack, blobmap) = blob_appended_lens (od_blobs od);
          target = (pack, blobmap, rl_len (od_map od));
          od1 = odb_release od
      in if relaxed then (od1, d)
         else if od_defer od1 then (od1\<lparr>od_write_count := od_write_count od1 + 1\<rparr>, d)
         else (od1, odb_sync_to others target od1 d))"

section \<open>Checkpoints\<close>

record odb_checkpoint =
  ok_blobs :: store_checkpoint
  ok_tier1_len :: nat
  ok_map_len :: nat

definition odb_cursor :: "odb \<Rightarrow> odb_checkpoint" where
  "odb_cursor od =
     \<lparr>ok_blobs = blob_checkpoint (od_blobs od), ok_tier1_len = rl_len (od_tier1 od), ok_map_len = rl_len (od_map od)\<rparr>"

definition odb_checkpoint_op :: "store_env \<Rightarrow> odb \<Rightarrow> odb_disk \<Rightarrow> (odb_error + odb_checkpoint) \<times> odb \<times> odb_disk" where
  "odb_checkpoint_op env od d =
     (case odb_acquire env od d of
        (Inl e, od1, d1) \<Rightarrow> (Inl e, od1, d1)
      | (Inr _, od1, d1) \<Rightarrow> (Inr (odb_cursor od1), odb_release od1, d1))"

definition odb_rewind ::
  "store_env \<Rightarrow> odb_checkpoint \<Rightarrow> odb \<Rightarrow> odb_disk \<Rightarrow> (odb_error + unit) \<times> odb \<times> odb_disk" where
  "odb_rewind env kp od d =
     (case blob_rewind env (ok_blobs kp) (od_blobs od) (dd_blobs d) of
        (Inl e, bs, bd) \<Rightarrow> (Inl (OdbStore e), od\<lparr>od_blobs := bs\<rparr>, d\<lparr>dd_blobs := bd\<rparr>)
      | (Inr _, bs, bd) \<Rightarrow>
          (case tier1_rewind (se_hash env) (ok_tier1_len kp) (od_tier1 od) (the_file (dd_tier1 d)) of
             (Inl e, t1, tf) \<Rightarrow>
               (Inl (OdbStore e), od\<lparr>od_blobs := bs, od_tier1 := t1\<rparr>, d\<lparr>dd_blobs := bd, dd_tier1 := Some tf\<rparr>)
           | (Inr _, t1, tf) \<Rightarrow>
               (case object_map_rewind (se_hash env) (ok_map_len kp) (od_map od) (the_file (dd_map d)) of
                  (Inl e, om, mf) \<Rightarrow>
                    (Inl (OdbFormat e), od\<lparr>od_blobs := bs, od_tier1 := t1, od_map := om\<rparr>,
                     d\<lparr>dd_blobs := bd, dd_tier1 := Some tf, dd_map := Some mf\<rparr>)
                | (Inr _, om, mf) \<Rightarrow>
                    let (pack, blobmap) = blob_appended_lens bs
                    in (Inr (), od\<lparr>od_blobs := bs, od_tier1 := t1, od_map := om\<rparr>,
                        odb_write_durable (pack, blobmap, rl_len om)
                          (d\<lparr>dd_blobs := bd, dd_tier1 := Some tf, dd_map := Some mf\<rparr>)))))"

end
