(* ===== verification/Odb_Log.thy ===== *)
theory Odb_Log
  imports Odb
begin

text \<open>
  The object map and the Tier 1 map as logs: what a process holds after reading a list of records, and
  that rewinding brings exactly the earlier records back.
\<close>

section \<open>The object map\<close>

definition map_entry_ok :: "(bytes \<Rightarrow> bytes) \<Rightarrow> map_entry \<Rightarrow> bool" where
  "map_entry_ok h e \<longleftrightarrow> wf_oid (me_git e) \<and> length (me_alt e) = 32 \<and>
     length (lf_checksum (object_map_format h) (entry_encode e)) = 8"

lemma wf_oid_length: "wf_oid oid \<Longrightarrow> length (oid_as_bytes oid) = raw_len (oid_algo oid)" "raw_len a \<le> 32"
  by (simp add: wf_oid_def) (cases a; simp)

lemma entry_encode_length: "wf_oid (me_git e) \<Longrightarrow> length (me_alt e) = 32 \<Longrightarrow> length (entry_encode e) = 74"
  using wf_oid_length(1) [of "me_git e"] wf_oid_length(2) [of "oid_algo (me_git e)"]
  by (simp add: entry_encode_def Let_def codec_simps)

lemma parse_kind_byte [simp]: "parse_kind (kind_byte k) = Inr k"
  by (cases k) (simp_all add: parse_kind_def)

lemma entry_parse_encode:
  assumes "wf_oid (me_git e)" and "length (me_alt e) = 32"
  shows "entry_parse (entry_encode e @ t) = Inr e"
proof -
  let ?o = "oid_as_bytes (me_git e)" and ?a = "oid_algo (me_git e)"
  let ?size = "le_bytes 8 (me_size e)"
  have o: "length ?o = raw_len ?a" "length ?o \<le> 32" using assms wf_oid_length(1) wf_oid_length(2) [of ?a] by simp_all
  obtain P where P: "P = ?o @ replicate (32 - length ?o) (0 :: u8)" by blast
  have enc: "entry_encode e @ t = algo_byte ?a # P @ me_alt e @ kind_byte (me_kind e) # ?size @ t"
    by (simp add: entry_encode_def Let_def P)
  have len: "length P = 32" "take (raw_len ?a) P = ?o" using o by (simp_all add: P)
  have r: "raw_len ?a - 32 = 0" using wf_oid_length(2) by simp
  have "(entry_encode e @ t) ! 0 = algo_byte ?a" "drop 1 (entry_encode e @ t) = P @ me_alt e @ kind_byte (me_kind e) # ?size @ t"
    "drop 33 (entry_encode e @ t) = me_alt e @ kind_byte (me_kind e) # ?size @ t"
    "(entry_encode e @ t) ! 65 = kind_byte (me_kind e)" "drop 66 (entry_encode e @ t) = ?size @ t"
    unfolding enc using len(1) assms(2) by (simp_all add: nth_append)
  moreover have "mk_oid ?a ?o = me_git e" by simp
  moreover have "algo_byte ?a = 1 \<and> ?a = Sha1 \<or> algo_byte ?a = 2 \<and> ?a = Sha256" by (cases ?a) auto
  ultimately show ?thesis using assms(2) len r
    by (elim disjE) (auto simp: entry_parse_def codec_simps)
qed

interpretation om: rec_log_format "object_map_format h" "map_entry_ok h" for h
  by unfold_locales (auto simp: object_map_format_def lit_def map_entry_ok_def lf_record_def entry_encode_length entry_parse_encode)

lemma object_map_fields [simp]:
  "lf_insert (object_map_format h) = om_insert" "lf_empty (object_map_format h) = om_empty"
  "lf_rec_len (object_map_format h) = 82"
  by (simp_all add: object_map_format_def lf_rec_len_def)

text \<open>The state after some records: the records, the position of a git id, the positions of a content.\<close>

definition alt_positions :: "map_entry list \<Rightarrow> blob_id \<Rightarrow> nat list" where
  "alt_positions es i = filter (\<lambda>at. me_alt (es ! at) = i) [0..<length es]"

definition om_state :: "map_entry list \<Rightarrow> object_map" where
  "om_state es = \<lparr>om_entries = es, om_by_git = map_of (zip (map me_git es) (map of_nat [0..<length es])),
     om_by_alt = (\<lambda>i. if alt_positions es i = [] then None else Some (map of_nat (alt_positions es i)))\<rparr>"

lemma alt_positions_append:
  "alt_positions (es @ fs) i = alt_positions es i @ filter (\<lambda>at. me_alt ((es @ fs) ! at) = i) [length es..<length es + length fs]"
proof -
  have split: "[0..<length (es @ fs)] = [0..<length es] @ [length es..<length es + length fs]"
    by (metis add_0 length_append upt_add_eq_append zero_le)
  have "filter (\<lambda>at. me_alt ((es @ fs) ! at) = i) [0..<length es] = alt_positions es i"
    unfolding alt_positions_def by (rule filter_cong) (simp_all add: nth_append)
  then show ?thesis unfolding alt_positions_def split by simp
qed

lemma map_of_snoc:
  assumes "k \<notin> fst ` set ps"
  shows "map_of (ps @ [(k, v)]) = (map_of ps)(k \<mapsto> v)"
proof -
  have "map_of ps k = None" using assms by (simp add: map_of_eq_None_iff)
  then show ?thesis by (auto simp: fun_eq_iff map_add_def split: option.split)
qed

lemma map_of_older:
  assumes "k \<notin> fst ` set qs"
  shows "map_of (ps @ qs) k = map_of ps k"
proof -
  have "map_of qs k = None" using assms by (simp add: map_of_eq_None_iff)
  then show ?thesis by (simp add: map_add_def split: option.split)
qed

lemma om_insert_state:
  assumes "me_git e \<notin> me_git ` set es"
  shows "om_insert e (om_state es) = om_state (es @ [e])"
proof -
  let ?z = "zip (map me_git es) (map (of_nat :: nat \<Rightarrow> u32) [0..<length es])"
  have "fst ` set ?z = me_git ` set es" by (metis length_map length_upt diff_zero list.set_map map_fst_zip)
  then have git: "map_of (?z @ [(me_git e, of_nat (length es))]) = (map_of ?z)(me_git e \<mapsto> of_nat (length es))"
    using assms by (intro map_of_snoc) auto
  have alt: "alt_positions (es @ [e]) i = alt_positions es i @ (if me_alt e = i then [length es] else [])" for i
    by (simp add: alt_positions_append)
  show ?thesis using git by (simp add: om_insert_def om_state_def Let_def alt fun_eq_iff)
qed

lemma om_log_state: "distinct (map me_git es) \<Longrightarrow> log_state (object_map_format h) es = om_state es"
proof (induction es rule: rev_induct)
  case Nil
  show ?case by (simp add: log_state_def om_empty_def om_state_def alt_positions_def)
next
  case (snoc e es)
  then show ?case by (simp add: log_state_snoc om_insert_state)
qed

lemma of_nat_position: "length es < 2 ^ 32 \<Longrightarrow> at < length es \<Longrightarrow> unat (of_nat at :: u32) = at"
  by (simp add: unat_of_nat_u32)

lemma by_git_state:
  assumes "length es < 2 ^ 32" and "distinct (map me_git es)"
  shows "by_git (om_state es) oid = map_of (map (\<lambda>e. (me_git e, e)) es) oid"
proof (cases "oid \<in> me_git ` set es")
  case True
  then obtain at where at: "at < length es" "me_git (es ! at) = oid" by (metis imageE in_set_conv_nth)
  have "map_of (zip (map me_git es) (map (of_nat :: nat \<Rightarrow> u32) [0..<length es])) oid = Some (of_nat at)"
    using map_of_zip_nth [of "map me_git es" "map of_nat [0..<length es]" at] assms(2) at by simp
  moreover have "map_of (map (\<lambda>e. (me_git e, e)) es) oid = Some (es ! at)"
    using at assms(2) by (intro map_of_is_SomeI) (auto simp: o_def intro: rev_image_eqI)
  ultimately show ?thesis using at(1) of_nat_position [OF assms(1)] by (simp add: by_git_def om_state_def)
next
  case False
  then have "map_of (map (\<lambda>e. (me_git e, e)) es) oid = None" by (auto simp: map_of_eq_None_iff)
  moreover have "map_of (zip (map me_git es) (map (of_nat :: nat \<Rightarrow> u32) [0..<length es])) oid = None"
    using False by (auto simp: map_of_eq_None_iff dest!: set_zip_leftD)
  ultimately show ?thesis by (simp add: by_git_def om_state_def)
qed

lemma by_alt_state:
  assumes "length es < 2 ^ 32"
  shows "by_alt (om_state es) i = filter (\<lambda>e. me_alt e = i) es"
proof -
  have "by_alt (om_state es) i = map (\<lambda>at. es ! unat (of_nat at :: u32)) (alt_positions es i)"
    by (simp add: by_alt_def om_state_def)
  also have "\<dots> = map (\<lambda>at. es ! at) (alt_positions es i)"
    using of_nat_position [OF assms] by (simp add: alt_positions_def)
  also have "\<dots> = filter (\<lambda>e. me_alt e = i) (map (\<lambda>at. es ! at) [0..<length es])"
    by (simp add: alt_positions_def filter_map o_def)
  finally show ?thesis by (simp add: map_nth)
qed

section \<open>Rewinding the object map\<close>

definition keep_slots :: "u32 \<Rightarrow> u32 list option \<Rightarrow> u32 list option" where
  "keep_slots k slots =
     (case slots of None \<Rightarrow> None | Some l \<Rightarrow> let l' = filter (\<lambda>at. at < k) l in if l' = [] then None else Some l')"

lemma keep_slots_twice [simp]: "keep_slots k (keep_slots k slots) = keep_slots k slots"
  by (simp add: keep_slots_def Let_def split: option.splits if_splits)

lemma keep_slots_if:
  "keep_slots k (if l = [] then None else Some l) =
   (if filter (\<lambda>at. at < k) l = [] then None else Some (filter (\<lambda>at. at < k) l))"
  by (cases "l = []") (simp_all add: keep_slots_def Let_def)

lemma om_forget_fields:
  "om_entries (om_forget k e s) = om_entries s"
  "om_by_git (om_forget k e s) = (om_by_git s)(me_git e := None)"
  "om_by_alt (om_forget k e s) = (om_by_alt s)(me_alt e := keep_slots k (om_by_alt s (me_alt e)))"
  by (simp_all add: om_forget_def keep_slots_def Let_def fun_eq_iff split: option.split)

lemma forget_fields:
  "om_entries (fold (om_forget k) fs s) = om_entries s"
  "om_by_git (fold (om_forget k) fs s) = (\<lambda>oid. if oid \<in> me_git ` set fs then None else om_by_git s oid)"
  "om_by_alt (fold (om_forget k) fs s) = (\<lambda>i. if i \<in> me_alt ` set fs then keep_slots k (om_by_alt s i) else om_by_alt s i)"
  by (induction fs arbitrary: s) (auto simp: om_forget_fields fun_eq_iff)

lemma small_positions:
  assumes "n < 2 ^ 32" and "k \<le> n"
  shows "filter (\<lambda>at. at < (of_nat k :: u32)) (map of_nat (filter P [0..<k] @ filter P [k..<n])) = map of_nat (filter P [0..<k])"
proof -
  have unat: "unat (of_nat at :: u32) = at" if "at \<le> n" for at using assms(1) that by (simp add: unat_of_nat_u32)
  have "(of_nat at :: u32) < of_nat k \<longleftrightarrow> at < k" if "at \<le> n" for at
    using unat [OF that] unat [OF assms(2)] by (simp add: word_less_nat_alt)
  then have "filter (\<lambda>at. (of_nat at :: u32) < of_nat k) (filter P [0..<k]) = filter P [0..<k]"
    "filter (\<lambda>at. (of_nat at :: u32) < of_nat k) (filter P [k..<n]) = []"
    using assms(2) by (intro filter_True filter_False; auto)+
  then show ?thesis by (simp add: filter_map o_def)
qed

lemma om_rewind_state:
  assumes "distinct (map me_git (es @ fs))" and "length (es @ fs) < 2 ^ 32"
  shows "fold (om_forget (of_nat (length es))) fs ((om_state (es @ fs))\<lparr>om_entries := es\<rparr>) = om_state es"
proof -
  let ?s = "(om_state (es @ fs))\<lparr>om_entries := es\<rparr>" and ?k = "of_nat (length es) :: u32"
  have git: "(if oid \<in> me_git ` set fs then None else om_by_git ?s oid) = om_by_git (om_state es) oid" for oid
  proof -
    let ?z = "zip (map me_git es) (map (of_nat :: nat \<Rightarrow> u32) [0..<length es])"
    let ?y = "zip (map me_git fs) (map (of_nat :: nat \<Rightarrow> u32) [length es..<length es + length fs])"
    have "[0..<length (es @ fs)] = [0..<length es] @ [length es..<length es + length fs]"
      by (metis add_0 length_append upt_add_eq_append zero_le)
    then have z: "om_by_git ?s = map_of (?z @ ?y)" by (simp add: om_state_def)
    have keys: "fst ` set ?z = me_git ` set es" "fst ` set ?y = me_git ` set fs"
      by (metis length_map length_upt diff_zero list.set_map map_fst_zip, metis length_map length_upt add_diff_cancel_left' list.set_map map_fst_zip)
    show ?thesis
    proof (cases "oid \<in> me_git ` set fs")
      case True
      then have "oid \<notin> fst ` set ?z" using assms(1) keys(1) by auto
      then have "om_by_git (om_state es) oid = None" using keys(1) by (simp add: om_state_def)
      then show ?thesis using True by simp
    next
      case False
      then have "map_of (?z @ ?y) oid = map_of ?z oid" using keys(2) by (intro map_of_older) simp
      then show ?thesis using False by (simp only: z) (simp add: om_state_def del: map_of_append)
    qed
  qed
  have alt: "(if i \<in> me_alt ` set fs then keep_slots ?k (om_by_alt ?s i) else om_by_alt ?s i) = om_by_alt (om_state es) i" for i
  proof -
    let ?old = "alt_positions es i" and ?new = "filter (\<lambda>at. me_alt ((es @ fs) ! at) = i) [length es..<length es + length fs]"
    have eq: "?old = filter (\<lambda>at. me_alt ((es @ fs) ! at) = i) [0..<length es]"
      unfolding alt_positions_def by (rule filter_cong) (simp_all add: nth_append)
    have pos: "alt_positions (es @ fs) i = ?old @ ?new" by (rule alt_positions_append)
    have small: "filter (\<lambda>at. at < ?k) (map of_nat (?old @ ?new)) = map of_nat ?old"
      using small_positions [of "length es + length fs" "length es" "\<lambda>at. me_alt ((es @ fs) ! at) = i"] assms(2) by (simp add: eq)
    show ?thesis
    proof (cases "i \<in> me_alt ` set fs")
      case True
      have "om_by_alt ?s i = (if map of_nat (?old @ ?new) = ([] :: u32 list) then None else Some (map of_nat (?old @ ?new)))"
        by (simp add: om_state_def pos)
      then have "keep_slots ?k (om_by_alt ?s i) = (if map of_nat ?old = ([] :: u32 list) then None else Some (map of_nat ?old))"
        by (simp only: keep_slots_if small)
      then show ?thesis using True by (simp add: om_state_def)
    next
      case False
      then have "?new = []" by (auto simp: filter_empty_conv nth_append)
      with False show ?thesis by (simp add: om_state_def pos)
    qed
  qed
  let ?r = "fold (om_forget ?k) fs ?s"
  have "om_entries ?r = om_entries (om_state es)" by (simp add: forget_fields) (simp add: om_state_def)
  moreover have "om_by_git ?r = om_by_git (om_state es)" by (simp only: forget_fields git)
  moreover have "om_by_alt ?r = om_by_alt (om_state es)" by (simp only: forget_fields alt)
  ultimately show ?thesis by (intro object_map.equality) simp_all
qed

lemma object_map_rewind_known:
  assumes "log_knows (object_map_format h) log (es @ fs)" and "df_bytes f = log_bytes (object_map_format h) (es @ fs)"
    and dist: "distinct (map me_git (es @ fs))" and ok: "\<forall>e \<in> set (es @ fs). map_entry_ok h e" and len: "length (es @ fs) < 2 ^ 32"
  shows "\<exists>log' f'. object_map_rewind h (length (log_bytes (object_map_format h) es)) log f = (Inr (), log', f') \<and>
    log_knows (object_map_format h) log' es \<and> df_bytes f' = log_bytes (object_map_format h) es"
proof -
  let ?target = "length (log_bytes (object_map_format h) es)"
  have bytes: "rewind_bytes (object_map_format h) ?target log = Inr (82 * length fs)" using om.rewind_known [OF assms(1) ok] by simp
  have state: "rl_state log = om_state (es @ fs)" using assms(1) om_log_state [OF dist] by (simp add: log_knows_def)
  have entries: "om_entries (om_state (es @ fs)) = es @ fs" by (simp add: om_state_def)
  have restored: "fold (om_forget (of_nat (length es))) fs ((om_state (es @ fs))\<lparr>om_entries := es\<rparr>) = log_state (object_map_format h) es"
    using om_rewind_state [OF dist len] om_log_state [of es] dist by simp
  obtain log' f' where rw: "rewind_to ?target (log_state (object_map_format h) es) log f = (log', f')" by (rule prod.exhaust)
  have "object_map_rewind h ?target log f = (Inr (), log', f')"
    using bytes restored rw by (simp add: object_map_rewind_def Let_def state entries)
  then show ?thesis using om.rewind_drops [OF assms(2) rw] by blast
qed

section \<open>The Tier 1 map\<close>

definition tier1_entry_ok :: "(bytes \<Rightarrow> bytes) \<Rightarrow> blob_id \<times> blob_id \<Rightarrow> bool" where
  "tier1_entry_ok h e \<longleftrightarrow> length (fst e) = 32 \<and> length (snd e) = 32 \<and> length (lf_checksum (tier1_format h) (fst e @ snd e)) = 8"

interpretation t1: rec_log_format "tier1_format h" "tier1_entry_ok h" for h
  by unfold_locales (auto simp: tier1_format_def lit_def tier1_entry_ok_def lf_record_def split_beta)

lemma tier1_insert [simp]: "lf_insert (tier1_format h) e m = m(fst e \<mapsto> snd e)"
  by (simp add: tier1_format_def split_beta)

lemma tier1_state: "distinct (map fst es) \<Longrightarrow> log_state (tier1_format h) es = map_of es"
proof (induction es rule: rev_induct)
  case Nil
  show ?case by (simp add: log_state_def tier1_format_def)
next
  case (snoc e es)
  have "map_of (es @ [(fst e, snd e)]) = (map_of es)(fst e \<mapsto> snd e)" using snoc.prems by (intro map_of_snoc) auto
  with snoc show ?case by (simp add: log_state_snoc)
qed

text \<open>A rewind that drops no record.\<close>

lemma tier1_rewind_same:
  assumes "log_knows (tier1_format h) log es" and "\<forall>e \<in> set es. tier1_entry_ok h e" and "df_bytes f = log_bytes (tier1_format h) es"
  shows "\<exists>log' f'. tier1_rewind h (rl_len log) log f = (Inr (), log', f') \<and> log_knows (tier1_format h) log' es \<and>
    df_bytes f' = log_bytes (tier1_format h) es"
proof -
  have len: "rl_len log = length (log_bytes (tier1_format h) es)" and state: "rl_state log = log_state (tier1_format h) es"
    using assms(1) by (simp_all add: log_knows_def)
  have "rewind_bytes (tier1_format h) (rl_len log) log = Inr 0"
    using t1.rewind_known [of h log es "[]"] assms(1,2) len by simp
  moreover obtain log' f' where rw: "rewind_to (rl_len log) (log_state (tier1_format h) es) log f = (log', f')" by (rule prod.exhaust)
  moreover have "log_knows (tier1_format h) log' es \<and> df_bytes f' = log_bytes (tier1_format h) es"
    using t1.rewind_drops [of f h es "[]" log log' f'] assms(3) rw len by simp
  ultimately show ?thesis by (simp add: tier1_rewind_def state)
qed

text \<open>A rewind over records reads them back through a handle that cannot read.\<close>

lemma tier1_rewind_fails:
  assumes "log_knows (tier1_format h) log (es @ fs)" and "\<forall>e \<in> set (es @ fs). tier1_entry_ok h e" and "fs \<noteq> []"
  shows "\<exists>e log'. tier1_rewind h (length (log_bytes (tier1_format h) es)) log f = (Inl e, log', f) \<and> rl_state log' = rl_state log"
  using t1.rewind_known [OF assms(1,2)] assms(3) by (simp add: tier1_rewind_def lf_rec_len_def)

end
