(* ===== verification/Odb_Typed.thy ===== *)
theory Odb_Typed
  imports Odb_Log
begin

text \<open>
  The positions the object map keeps: whatever bytes its file holds, they stay inside the entry list and
  lead to an entry of the right id, so that no lookup indexes out of bounds.
\<close>

definition entry_typed :: "map_entry \<Rightarrow> bool" where
  "entry_typed e \<longleftrightarrow> wf_oid (me_git e) \<and> length (me_alt e) = 32"

definition om_ok :: "object_map \<Rightarrow> bool" where
  "om_ok s \<longleftrightarrow> (\<forall>e \<in> set (om_entries s). entry_typed e) \<and>
     (\<forall>oid at. om_by_git s oid = Some at \<longrightarrow>
        unat at < length (om_entries s) \<and> me_git (om_entries s ! unat at) = oid) \<and>
     (\<forall>i slots at. om_by_alt s i = Some slots \<and> at \<in> set slots \<longrightarrow>
        unat at < length (om_entries s) \<and> me_alt (om_entries s ! unat at) = i)"

lemma om_ok_empty: "om_ok om_empty"
  by (simp add: om_ok_def om_empty_def)

lemma entry_parse_typed:
  assumes "length r = 82" and "entry_parse r = Inr e"
  shows "entry_typed e"
  using assms by (auto simp: entry_parse_def entry_typed_def wf_oid_def bindR_eq_Inr split: if_splits)

lemma om_insert_ok:
  assumes ok: "om_ok s" and e: "entry_typed e" and len: "length (om_entries s) < 2 ^ 32"
  shows "om_ok (om_insert e s)"
proof -
  have new: "unat (of_nat (length (om_entries s)) :: u32) = length (om_entries s)" using len by (simp add: codec_simps)
  have git: "unat at < length (om_entries s @ [e]) \<and> me_git ((om_entries s @ [e]) ! unat at) = oid"
    if "om_by_git (om_insert e s) oid = Some at" for oid at
    using that ok new by (auto simp: om_insert_def Let_def om_ok_def nth_append split: if_splits)
  have alt: "unat at < length (om_entries s @ [e]) \<and> me_alt ((om_entries s @ [e]) ! unat at) = i"
    if "om_by_alt (om_insert e s) i = Some slots" "at \<in> set slots" for i slots at
    using that ok new by (fastforce simp: om_insert_def Let_def om_ok_def nth_append split: if_splits option.splits)
  have "om_entries (om_insert e s) = om_entries s @ [e]" by (simp add: om_insert_def Let_def)
  moreover have "\<forall>e' \<in> set (om_entries s @ [e]). entry_typed e'" using ok e by (simp add: om_ok_def)
  ultimately show ?thesis unfolding om_ok_def using git alt by metis
qed

lemma object_map_parse [simp]: "lf_parse (object_map_format h) = entry_parse"
  by (simp add: object_map_format_def)

lemma take_n_length: "take_n n xs = Some (r, xs') \<Longrightarrow> length r = n \<and> length xs = n + length xs'"
  by (auto simp: take_n_eq_Some)

lemma scan_ok:
  "om_ok s \<Longrightarrow> length (om_entries s) + length data < 2 ^ 32 \<Longrightarrow>
   rec_scan (object_map_format h) data valid s = Inr (s', valid') \<Longrightarrow> om_ok s'"
proof (induction "object_map_format h" data valid s rule: rec_scan.induct)
  case (1 data valid s)
  show ?case
  proof (cases "take_n 82 data")
    case None
    then show ?thesis using 1 by (subst (asm) rec_scan.simps) simp
  next
    case (Some p)
    obtain r data' where p: "take_n 82 data = Some (r, data')" using Some by (cases p) simp
    note len = take_n_length [OF p]
    show ?thesis
    proof (cases "lf_intact (object_map_format h) r")
      case False
      then show ?thesis using 1(2,4) p by (subst (asm) rec_scan.simps) (simp split: if_splits)
    next
      case True
      have "rec_scan (object_map_format h) data valid s =
          bindR (entry_parse r) (\<lambda>e. rec_scan (object_map_format h) data' (valid + 82) (om_insert e s))"
        by (subst rec_scan.simps) (simp add: p True)
      with 1(4) obtain e where e: "entry_parse r = Inr e"
        "rec_scan (object_map_format h) data' (valid + 82) (om_insert e s) = Inr (s', valid')" by (auto simp: bindR_eq_Inr)
      have "om_ok (om_insert e s)" using om_insert_ok [OF 1(2) entry_parse_typed [OF _ e(1)]] 1(3) len by simp
      moreover have "length (om_entries (om_insert e s)) + length data' < 2 ^ 32" using 1(3) len by (simp add: om_insert_def Let_def)
      ultimately show ?thesis using 1(1) p True e by simp
    qed
  qed
qed

lemma tail_ok:
  "om_ok s \<Longrightarrow> length (om_entries s) + length data < 2 ^ 32 \<Longrightarrow>
   rec_tail (object_map_format h) data at s = (r, s') \<Longrightarrow> om_ok s'"
proof (induction "object_map_format h" data at s rule: rec_tail.induct)
  case (1 data at s)
  show ?case
  proof (cases "take_n 82 data")
    case None
    then show ?thesis using 1 by (subst (asm) rec_tail.simps) simp
  next
    case (Some p)
    obtain q data' where p: "take_n 82 data = Some (q, data')" using Some by (cases p) simp
    note len = take_n_length [OF p]
    show ?thesis
    proof (cases "lf_intact (object_map_format h) q")
      case False
      then show ?thesis using 1(2,4) p by (subst (asm) rec_tail.simps) simp
    next
      case True
      show ?thesis
      proof (cases "lf_parse (object_map_format h) q")
        case (Inl err)
        then show ?thesis using True 1(2,4) p by (subst (asm) rec_tail.simps) simp
      next
        case (Inr e)
        then have parse: "entry_parse q = Inr e" by simp
        have "om_ok (om_insert e s)" using om_insert_ok [OF 1(2) entry_parse_typed [OF _ parse]] 1(3) len by simp
        moreover have "length (om_entries (om_insert e s)) + length data' < 2 ^ 32" using 1(3) len by (simp add: om_insert_def Let_def)
        moreover have "rec_tail (object_map_format h) data at s = rec_tail (object_map_format h) data' (at + 82) (om_insert e s)"
          by (subst rec_tail.simps) (use Inr in \<open>simp add: p True\<close>)
        ultimately show ?thesis using 1(1,4) p True Inr by simp
      qed
    qed
  qed
qed

lemma rewind_ok:
  assumes ok: "om_ok s" and len: "length (om_entries s) < 2 ^ 32" and keep: "keep \<le> length (om_entries s)"
  shows "om_ok (fold (om_forget (of_nat keep)) (drop keep (om_entries s)) (s\<lparr>om_entries := take keep (om_entries s)\<rparr>))"
proof -
  let ?es = "om_entries s" and ?k = "of_nat keep :: u32"
  have k: "unat ?k = keep" using len keep by (simp add: codec_simps)
  have below: "unat at < keep" if "unat at < length ?es" "?es ! unat at \<notin> set (drop keep ?es)" for at :: u32
  proof (rule ccontr)
    assume "\<not> unat at < keep"
    then have "drop keep ?es ! (unat at - keep) = ?es ! unat at" "unat at - keep < length (drop keep ?es)" using that(1) by simp_all
    then show False using that(2) nth_mem by metis
  qed
  have git: "unat at < keep \<and> me_git (?es ! unat at) = oid"
    if "oid \<notin> me_git ` set (drop keep ?es)" "om_by_git s oid = Some at" for oid at
  proof -
    have at: "unat at < length ?es" "me_git (?es ! unat at) = oid" using ok that(2) by (auto simp: om_ok_def)
    moreover from this have "?es ! unat at \<notin> set (drop keep ?es)" using that(1) by blast
    ultimately show ?thesis using below by blast
  qed
  have alt: "unat at < keep \<and> me_alt (?es ! unat at) = i"
    if "om_by_alt s i = Some slots" "at \<in> set slots" "i \<notin> me_alt ` set (drop keep ?es) \<or> at < ?k" for i slots at
  proof -
    have at: "unat at < length ?es" "me_alt (?es ! unat at) = i" using ok that(1,2) by (auto simp: om_ok_def)
    have "unat at < keep" using that(3)
    proof
      assume "i \<notin> me_alt ` set (drop keep ?es)"
      then have "?es ! unat at \<notin> set (drop keep ?es)" using at(2) by blast
      then show ?thesis using below at(1) by blast
    next
      assume "at < ?k"
      then show ?thesis using k by (simp add: word_less_nat_alt)
    qed
    then show ?thesis using at(2) by blast
  qed
  have "length (take keep ?es) = keep" using keep by simp
  moreover have "\<forall>e \<in> set (take keep ?es). entry_typed e" using ok by (auto simp: om_ok_def dest: in_set_takeD)
  ultimately show ?thesis using git alt
    unfolding om_ok_def forget_fields by (auto simp: keep_slots_def Let_def split: if_splits option.splits)
qed

lemma open_ok:
  assumes "length (df_bytes f) < 2 ^ 32" and "object_map_open h (Some f) = (Inr log', fo')"
  shows "om_ok (rl_state log')"
proof -
  let ?start = "min LOG_HEADER_LEN (length (df_bytes f))"
  obtain s valid where scan: "rec_scan (object_map_format h) (drop ?start (df_bytes f)) ?start om_empty = Inr (s, valid)"
    and state: "rl_state log' = s"
    using assms(2) by (auto simp: object_map_open_def log_file_open_def Let_def split: if_splits sum.splits)
  have "length (om_entries om_empty) + length (drop ?start (df_bytes f)) < 2 ^ 32" using assms(1) by (simp add: om_empty_def)
  from scan_ok [OF om_ok_empty this scan] state show ?thesis by simp
qed

lemma append_ok:
  "om_ok (rl_state log) \<Longrightarrow> entry_typed e \<Longrightarrow> length (om_entries (rl_state log)) < 2 ^ 32 \<Longrightarrow>
   om_ok (rl_state (fst (object_map_append h e log f)))"
  using om_insert_ok by (simp add: object_map_append_def rec_append_def)

lemma sync_ok:
  assumes "om_ok (rl_state log)" and "length (om_entries (rl_state log)) + length (df_bytes f) < 2 ^ 32"
  shows "om_ok (rl_state (fst (snd (object_map_sync_from_disk h log f))))"
proof -
  obtain r s where tail: "rec_tail (object_map_format h) (drop (rl_len log) (df_bytes f)) 0 (rl_state log) = (r, s)" by (rule prod.exhaust)
  have "length (om_entries (rl_state log)) + length (drop (rl_len log) (df_bytes f)) < 2 ^ 32" using assms(2) by simp
  from tail_ok [OF assms(1) this tail] assms(1) show ?thesis
    by (auto simp: object_map_sync_from_disk_def rec_sync_from_disk_def Let_def tail split: sum.split)
qed

lemma object_map_rewind_ok:
  assumes "om_ok (rl_state log)" and "length (om_entries (rl_state log)) < 2 ^ 32"
  shows "om_ok (rl_state (fst (snd (object_map_rewind h target log f))))"
  using assms(1) rewind_ok [OF assms, OF diff_le_self]
  by (auto simp: object_map_rewind_def Let_def rewind_to_def split: sum.split)

lemma by_git_ok: "om_ok s \<Longrightarrow> by_git s oid = Some e \<Longrightarrow> e \<in> set (om_entries s) \<and> me_git e = oid"
  by (auto simp: by_git_def om_ok_def)

lemma by_alt_ok: "om_ok s \<Longrightarrow> e \<in> set (by_alt s i) \<Longrightarrow> e \<in> set (om_entries s) \<and> me_alt e = i"
  by (cases "om_by_alt s i") (auto simp: by_alt_def om_ok_def)

text \<open>C8. 
  The object map stays well formed through opening, appending, catching up and rewinding, whatever bytes
  its file holds: every entry is a well-formed git id and content address, and every position the lookups
  use is inside the entry list, at an entry of the id looked up.  (The entries together with the bytes of
  the file stay below \<open>2 ^ 32\<close>, as a position has 32 bits.)
\<close>

theorem object_map_stays_typed:
  assumes "om_ok (rl_state log)" and "length (om_entries (rl_state log)) + length (df_bytes f) < 2 ^ 32"
  shows "(\<forall>log' fo'. object_map_open h (Some f) = (Inr log', fo') \<longrightarrow> om_ok (rl_state log')) \<and>
    (\<forall>e. entry_typed e \<longrightarrow> om_ok (rl_state (fst (object_map_append h e log f)))) \<and>
    om_ok (rl_state (fst (snd (object_map_sync_from_disk h log f)))) \<and>
    om_ok (rl_state (fst (snd (object_map_rewind h target log f)))) \<and>
    (\<forall>oid e. by_git (rl_state log) oid = Some e \<longrightarrow> e \<in> set (om_entries (rl_state log)) \<and> me_git e = oid) \<and>
    (\<forall>i e. e \<in> set (by_alt (rl_state log) i) \<longrightarrow> e \<in> set (om_entries (rl_state log)) \<and> me_alt e = i)"
proof -
  have len: "length (om_entries (rl_state log)) < 2 ^ 32" "length (df_bytes f) < 2 ^ 32" using assms(2) by simp_all
  show ?thesis
    using open_ok [OF len(2)] append_ok [OF assms(1) _ len(1)] sync_ok [OF assms] object_map_rewind_ok [OF assms(1) len(1)]
      by_git_ok [OF assms(1)] by_alt_ok [OF assms(1)] by blast
qed

theorem object_map_stays_typed_witness:
  "\<exists>e. by_git (rl_state \<lparr>rl_state = om_insert \<lparr>me_git = OidSha1 (replicate 20 9), me_alt = replicate 32 8, me_kind = Blob, me_size = 3\<rparr> om_empty,
       rl_len = 87, rl_pos = 87\<rparr>) (OidSha1 (replicate 20 9)) = Some e \<and> me_alt e = replicate 32 8 \<and> me_git e = OidSha1 (replicate 20 9)"
proof -
  let ?e = "\<lparr>me_git = OidSha1 (replicate 20 9), me_alt = replicate 32 8, me_kind = Blob, me_size = 3\<rparr>"
  let ?log = "\<lparr>rl_state = om_insert ?e om_empty, rl_len = 87, rl_pos = 87\<rparr>" and ?f = "\<lparr>df_bytes = [], df_synced = 0\<rparr>"
  have typed: "entry_typed ?e" by (simp add: entry_typed_def wf_oid_def)
  have "om_ok (rl_state ?log)" using om_insert_ok [OF om_ok_empty typed] by (simp add: om_empty_def)
  moreover have "length (om_entries (rl_state ?log)) + length (df_bytes ?f) < 2 ^ 32" by (simp add: om_insert_def om_empty_def Let_def)
  moreover have "by_git (rl_state ?log) (OidSha1 (replicate 20 9)) = Some ?e" by (simp add: by_git_def om_insert_def om_empty_def Let_def)
  ultimately have "me_git ?e = OidSha1 (replicate 20 9)" using object_map_stays_typed [of ?log ?f "\<lambda>x. x" 0] by blast
  with \<open>by_git (rl_state ?log) (OidSha1 (replicate 20 9)) = Some ?e\<close> show ?thesis by (intro exI [of _ ?e]) simp
qed

end
