(* ===== verification/Odb_Spec.thy ===== *)
theory Odb_Spec
  imports Odb_Log
begin

text \<open>
  What the object database promises: it refines a map from git ids to objects.  The objects are read off
  the blobs, the Tier 1 records and the object map.
\<close>

section \<open>The blob store below\<close>

text \<open>
  Where a run began: the ghost, the disk and the blob map records of the blob store, and what does not
  change, its options and the prisms.
\<close>

record odb_origin =
  oo_ghost :: chunk_ghost
  oo_disk :: chunk_disk
  oo_entries :: "blob_entry list"
  oo_opts :: blob_opts
  oo_registry :: registry

definition blob_from ::
  "store_env \<Rightarrow> bytes set \<Rightarrow> blob_store \<Rightarrow> blob_disk \<Rightarrow> content \<Rightarrow> odb_origin \<Rightarrow> bool" where
  "blob_from env U bs d B og \<longleftrightarrow> bs_opts bs = oo_opts og \<and>
     (\<exists>m es. blob_at env U bs d m (oo_entries og @ es) (oo_ghost og) (oo_disk og) \<and> B = blob_view m (oo_entries og @ es))"

definition odb_env_ok :: "store_env \<Rightarrow> bytes set \<Rightarrow> odb_origin \<Rightarrow> bool" where
  "odb_env_ok env U og \<longleftrightarrow> blob_env_ok env U (oo_opts og) \<and> distinct (map pr_id (oo_registry og))"

lemma odb_env: "odb_env_ok env U og \<Longrightarrow> env_ok env" "odb_env_ok env U og \<Longrightarrow> inj_on (se_hash env) U"
  by (simp_all add: odb_env_ok_def blob_env_ok_def)

lemma hash_length: "odb_env_ok env U og \<Longrightarrow> length (se_hash env x) = 32"
  using odb_env(1) by (auto simp: env_ok_def)

lemma fromI:
  "bs_opts bs = oo_opts og \<Longrightarrow> blob_at env U bs d m (oo_entries og @ es) (oo_ghost og) (oo_disk og) \<Longrightarrow>
   blob_from env U bs d (blob_view m (oo_entries og @ es)) og"
  unfolding blob_from_def by blast

lemma from_step:
  assumes "odb_env_ok env U og" and "blob_from env U bs d B og" and "blob_step env U (bs, d) (bs', d')"
  shows "\<exists>B'. blob_from env U bs' d' B' og \<and> B \<subseteq>\<^sub>m B'"
proof -
  obtain m es where at: "bs_opts bs = oo_opts og" "blob_at env U bs d m (oo_entries og @ es) (oo_ghost og) (oo_disk og)"
    "B = blob_view m (oo_entries og @ es)" using assms(2) by (auto simp: blob_from_def)
  have "blob_env_ok env U (bs_opts bs)" using assms(1) at(1) by (simp add: odb_env_ok_def)
  from blob_step_at [OF this at(2) assms(3)] obtain m' es' where
    "bs_opts bs' = bs_opts bs" "blob_at env U bs' d' m' (oo_entries og @ (es @ es')) (oo_ghost og) (oo_disk og)"
    "B \<subseteq>\<^sub>m blob_view m' (oo_entries og @ (es @ es'))" using at(3) by auto
  with at(1) show ?thesis unfolding blob_from_def by metis
qed

lemma from_put:
  assumes "odb_env_ok env U og" and "blob_from env U bs d B og" and "blob_fits env U (oo_opts og) x"
    and "blob_put env x bs d = Some (r, bs', d')"
  shows "\<exists>B'. blob_from env U bs' d' B' og \<and> B \<subseteq>\<^sub>m B' \<and> (\<forall>i. r = Inr i \<longrightarrow> i = se_hash env x \<and> B' i = Some x)"
proof -
  obtain m es where at: "bs_opts bs = oo_opts og" "blob_at env U bs d m (oo_entries og @ es) (oo_ghost og) (oo_disk og)"
    "B = blob_view m (oo_entries og @ es)" using assms(2) by (auto simp: blob_from_def)
  have ok: "blob_env_ok env U (bs_opts bs)" "blob_fits env U (bs_opts bs) x" using assms(1,3) at(1) by (simp_all add: odb_env_ok_def)
  from blob_put_at [OF ok(1) at(2) ok(2) assms(4)] obtain m' es' where
    "bs_opts bs' = bs_opts bs" "blob_at env U bs' d' m' (oo_entries og @ (es @ es')) (oo_ghost og) (oo_disk og)"
    "B \<subseteq>\<^sub>m blob_view m' (oo_entries og @ (es @ es'))"
    "\<forall>i. r = Inr i \<longrightarrow> i = se_hash env x \<and> blob_view m' (oo_entries og @ (es @ es')) i = Some x" using at(3) by auto
  with at(1) show ?thesis unfolding blob_from_def by metis
qed

lemma from_read:
  assumes "blob_from env U bs d B og"
  shows "\<exists>bs'. blob_get env d i bs = (case B i of None \<Rightarrow> Inl (BlobNotFound i) | Some x \<Rightarrow> Inr x, bs') \<and> blob_from env U bs' d B og"
    and "\<exists>bs'. blob_get_unverified env d i bs = (case B i of None \<Rightarrow> Inl (BlobNotFound i) | Some x \<Rightarrow> Inr x, bs') \<and> blob_from env U bs' d B og"
proof -
  obtain m es where at: "bs_opts bs = oo_opts og" "blob_at env U bs d m (oo_entries og @ es) (oo_ghost og) (oo_disk og)"
    "B = blob_view m (oo_entries og @ es)" using assms by (auto simp: blob_from_def)
  obtain bs1 where one: "materialize env d ReadFast True i bs = (case B i of None \<Rightarrow> Inl (BlobNotFound i) | Some x \<Rightarrow> Inr x, bs1)"
    "blob_at env U bs1 d m (oo_entries og @ es) (oo_ghost og) (oo_disk og)" "bs_opts bs1 = bs_opts bs"
    using materialize_since [OF at(2), of ReadFast True i] at(3) by (auto split: option.split)
  obtain bs2 where two: "materialize env d ReadBulk False i bs = (case B i of None \<Rightarrow> Inl (BlobNotFound i) | Some x \<Rightarrow> Inr x, bs2)"
    "blob_at env U bs2 d m (oo_entries og @ es) (oo_ghost og) (oo_disk og)" "bs_opts bs2 = bs_opts bs"
    using materialize_since [OF at(2), of ReadBulk False i] at(3) by (auto split: option.split)
  show "\<exists>bs'. blob_get env d i bs = (case B i of None \<Rightarrow> Inl (BlobNotFound i) | Some x \<Rightarrow> Inr x, bs') \<and> blob_from env U bs' d B og"
    using one(1) fromI [OF _ one(2)] one(3) at(1,3) by (intro exI [of _ bs1]) (simp add: blob_get_def)
  show "\<exists>bs'. blob_get_unverified env d i bs = (case B i of None \<Rightarrow> Inl (BlobNotFound i) | Some x \<Rightarrow> Inr x, bs') \<and> blob_from env U bs' d B og"
    using two(1) fromI [OF _ two(2)] two(3) at(1,3) by (intro exI [of _ bs2]) (simp add: blob_get_unverified_def)
qed

lemma from_sync: "blob_from env U bs d B og \<Longrightarrow> blob_sync_from_disk env bs d = (Inr (), bs, d)"
  using blob_sync_at by (auto simp: blob_from_def)

lemma from_contains: "blob_from env U bs d B og \<Longrightarrow> blob_contains bs i \<longleftrightarrow> B i \<noteq> None"
  using blob_at_contains by (auto simp: blob_from_def)

lemma from_in: "blob_from env U bs d B og \<Longrightarrow> B i = Some x \<Longrightarrow> x \<in> U \<and> se_hash env x = i"
  using blob_at_view by (auto simp: blob_from_def)

lemma from_fsync:
  assumes "blob_from env U bs d B og"
  shows "blob_from env U bs (blob_fsync bs d) B og"
proof -
  obtain m es where at: "bs_opts bs = oo_opts og" "blob_at env U bs d m (oo_entries og @ es) (oo_ghost og) (oo_disk og)"
    "B = blob_view m (oo_entries og @ es)" using assms by (auto simp: blob_from_def)
  have "blob_fsync bs d = blob_flush False bs d" by (simp add: blob_flush_def blob_fsync_def chunk_flush_def)
  then show ?thesis using fromI [OF at(1) blob_flush_at [OF at(2)]] at(3) by simp
qed

section \<open>The content\<close>

text \<open>What a Tier 1 record stands for, and the content under an address.\<close>

definition tier1_read :: "registry \<Rightarrow> content \<Rightarrow> blob_id \<Rightarrow> bytes option" where
  "tier1_read reg B record_id =
     (case B record_id of
        None \<Rightarrow> None
      | Some rec \<Rightarrow>
          (case decode_record rec of
             Inl _ \<Rightarrow> None
           | Inr (prism, recipe, part_ids) \<Rightarrow>
               (case those (map B part_ids) of None \<Rightarrow> None | Some parts \<Rightarrow> registry_recompose reg prism recipe parts)))"

definition odb_content :: "registry \<Rightarrow> content \<Rightarrow> tier1_map \<Rightarrow> content" where
  "odb_content reg B t i = (case t i of None \<Rightarrow> B i | Some record_id \<Rightarrow> tier1_read reg B record_id)"

definition tier1_ok :: "store_env \<Rightarrow> bytes set \<Rightarrow> registry \<Rightarrow> content \<Rightarrow> (blob_id \<times> blob_id) list \<Rightarrow> bool" where
  "tier1_ok env U reg B ts \<longleftrightarrow> distinct (map fst ts) \<and>
     (\<forall>e \<in> set ts. tier1_entry_ok (se_hash env) e \<and> (\<exists>x \<in> U. tier1_read reg B (snd e) = Some x \<and> se_hash env x = fst e))"

definition map_ok :: "store_env \<Rightarrow> (hash_algo \<Rightarrow> bytes \<Rightarrow> bytes) \<Rightarrow> content \<Rightarrow> map_entry list \<Rightarrow> bool" where
  "map_ok env sha C es \<longleftrightarrow> distinct (map me_git es) \<and> length es < 2 ^ 32 \<and>
     (\<forall>e \<in> set es. map_entry_ok (se_hash env) e \<and>
        (\<exists>x. C (me_alt e) = Some x \<and> length x = unat (me_size e) \<and>
             hash_object sha (oid_algo (me_git e)) (me_kind e) x = me_git e))"

type_synonym objects = "object_id \<Rightarrow> (object_kind \<times> bytes) option"

definition map_entry_of :: "map_entry list \<Rightarrow> object_id \<Rightarrow> map_entry option" where
  "map_entry_of es = map_of (map (\<lambda>e. (me_git e, e)) es)"

definition odb_view :: "content \<Rightarrow> map_entry list \<Rightarrow> objects" where
  "odb_view C es oid =
     (case map_entry_of es oid of None \<Rightarrow> None | Some e \<Rightarrow> map_option (Pair (me_kind e)) (C (me_alt e)))"

definition log_bytes_in :: "('e, 's) log_format \<Rightarrow> disk_file option \<Rightarrow> 'e list \<Rightarrow> bool" where
  "log_bytes_in fmt fo es \<longleftrightarrow> (\<exists>f. fo = Some f \<and> df_bytes f = log_bytes fmt es)"

abbreviation omf :: "store_env \<Rightarrow> (map_entry, object_map) log_format" where
  "omf env \<equiv> object_map_format (se_hash env)"

abbreviation t1f :: "store_env \<Rightarrow> (blob_id \<times> blob_id, tier1_map) log_format" where
  "t1f env \<equiv> tier1_format (se_hash env)"

definition odb_at ::
  "store_env \<Rightarrow> bytes set \<Rightarrow> (hash_algo \<Rightarrow> bytes \<Rightarrow> bytes) \<Rightarrow> odb \<Rightarrow> odb_disk \<Rightarrow> content \<Rightarrow> map_entry list
     \<Rightarrow> (blob_id \<times> blob_id) list \<Rightarrow> odb_origin \<Rightarrow> bool" where
  "odb_at env U sha od d B es ts og \<longleftrightarrow>
     od_registry od = oo_registry og \<and> blob_from env U (od_blobs od) (dd_blobs d) B og \<and>
     log_bytes_in (omf env) (dd_map d) es \<and> log_knows (omf env) (od_map od) es \<and>
     log_bytes_in (t1f env) (dd_tier1 d) ts \<and> log_knows (t1f env) (od_tier1 od) ts \<and>
     tier1_ok env U (oo_registry og) B ts \<and> map_ok env sha (odb_content (oo_registry og) B (map_of ts)) es"

lemma those_mono:
  "B \<subseteq>\<^sub>m B' \<Longrightarrow> those (map B is) = Some xs \<Longrightarrow> those (map B' is) = Some xs"
proof (induction "is" arbitrary: xs)
  case (Cons i ids)
  then obtain y ys where ys: "B i = Some y" "those (map B ids) = Some ys" "xs = y # ys" by (auto split: option.splits)
  moreover have "B' i = Some y" using Cons.prems(1) ys(1) by (metis domI map_le_def)
  ultimately show ?case using Cons.IH [OF Cons.prems(1) ys(2)] by simp
qed simp

lemma tier1_read_mono:
  assumes "B \<subseteq>\<^sub>m B'" and "tier1_read reg B r = Some x"
  shows "tier1_read reg B' r = Some x"
proof -
  obtain rec where rec: "B r = Some rec" using assms(2) by (auto simp: tier1_read_def split: option.splits)
  moreover from this have "B' r = Some rec" using assms(1) by (metis domI map_le_def)
  ultimately show ?thesis using assms(2) those_mono [OF assms(1)]
    by (auto simp: tier1_read_def split: option.splits sum.splits)
qed

lemma tier1_ok_mono: "tier1_ok env U reg B ts \<Longrightarrow> B \<subseteq>\<^sub>m B' \<Longrightarrow> tier1_ok env U reg B' ts"
  using tier1_read_mono unfolding tier1_ok_def by blast

lemma content_mono:
  assumes "B \<subseteq>\<^sub>m B'"
  shows "odb_content reg B t \<subseteq>\<^sub>m odb_content reg B' t"
proof -
  have "odb_content reg B' t i = Some x" if "odb_content reg B t i = Some x" for i x
    using that assms tier1_read_mono [OF assms] by (auto simp: odb_content_def map_le_def dom_def split: option.splits)
  then show ?thesis by (auto simp: map_le_def)
qed

lemma map_ok_mono: "map_ok env sha C es \<Longrightarrow> C \<subseteq>\<^sub>m C' \<Longrightarrow> map_ok env sha C' es"
  unfolding map_ok_def by (metis domI map_le_def)

lemma map_entry_of_in: "map_entry_of es oid = Some e \<Longrightarrow> e \<in> set es \<and> me_git e = oid"
  by (auto simp: map_entry_of_def dest!: map_of_SomeD)

lemma odb_view_mono:
  assumes "map_ok env sha C es" and "C \<subseteq>\<^sub>m C'"
  shows "odb_view C' es = odb_view C es"
proof
  fix oid
  show "odb_view C' es oid = odb_view C es oid"
  proof (cases "map_entry_of es oid")
    case (Some e)
    then obtain x where "C (me_alt e) = Some x" using assms(1) map_entry_of_in unfolding map_ok_def by blast
    moreover from this have "C' (me_alt e) = Some x" using assms(2) by (metis domI map_le_def)
    ultimately show ?thesis using Some by (simp add: odb_view_def)
  qed (simp add: odb_view_def)
qed

lemma odb_view_hash:
  assumes "map_ok env sha C es" and "odb_view C es oid = Some (k, x)"
  shows "hash_object sha (oid_algo oid) k x = oid"
proof -
  obtain e where e: "map_entry_of es oid = Some e" "C (me_alt e) = Some x" "k = me_kind e"
    using assms(2) by (auto simp: odb_view_def split: option.splits)
  then show ?thesis using assms(1) map_entry_of_in [OF e(1)] by (auto simp: map_ok_def)
qed

lemma odb_atE:
  assumes "odb_at env U sha od d B es ts og"
  shows "od_registry od = oo_registry og" "blob_from env U (od_blobs od) (dd_blobs d) B og"
    "log_bytes_in (omf env) (dd_map d) es" "log_knows (omf env) (od_map od) es"
    "log_bytes_in (t1f env) (dd_tier1 d) ts" "log_knows (t1f env) (od_tier1 od) ts"
    "tier1_ok env U (oo_registry og) B ts" "map_ok env sha (odb_content (oo_registry og) B (map_of ts)) es"
  using assms by (simp_all add: odb_at_def)

text \<open>A change of the blob store alone.\<close>

lemma odb_at_blobs:
  assumes "odb_at env U sha od d B es ts og" and "blob_from env U bs bd B' og" and "B \<subseteq>\<^sub>m B'"
  shows "odb_at env U sha (od\<lparr>od_blobs := bs\<rparr>) (d\<lparr>dd_blobs := bd\<rparr>) B' es ts og"
  using assms tier1_ok_mono [OF _ assms(3)] map_ok_mono [OF _ content_mono [OF assms(3)]] by (simp add: odb_at_def)

lemma odb_at_read:
  "odb_at env U sha od d B es ts og \<Longrightarrow> blob_from env U bs (dd_blobs d) B og \<Longrightarrow> odb_at env U sha (od\<lparr>od_blobs := bs\<rparr>) d B es ts og"
  by (simp add: odb_at_def)

lemma odb_at_flags:
  assumes "odb_at env U sha od d B es ts og"
  shows "odb_at env U sha (od\<lparr>od_held := held\<rparr>) d B es ts og" "odb_at env U sha (od\<lparr>od_write_count := n\<rparr>) d B es ts og"
    "odb_at env U sha od (d\<lparr>dd_marker := mk\<rparr>) B es ts og"
  using assms by (simp_all add: odb_at_def)

lemma tier1_known: "odb_at env U sha od d B es ts og \<Longrightarrow> rl_state (od_tier1 od) = map_of ts"
  by (simp add: odb_at_def log_knows_def tier1_ok_def tier1_state)

lemma map_known: "odb_at env U sha od d B es ts og \<Longrightarrow> by_git (rl_state (od_map od)) oid = map_entry_of es oid"
  using by_git_state [of es oid] by (simp add: odb_at_def log_knows_def map_ok_def om_log_state map_entry_of_def)

lemma content_in:
  assumes "odb_at env U sha od d B es ts og" and "odb_content (oo_registry og) B (map_of ts) i = Some x"
  shows "x \<in> U \<and> se_hash env x = i"
proof (cases "map_of ts i")
  case None
  then show ?thesis using from_in [OF odb_atE(2) [OF assms(1)]] assms(2) by (simp add: odb_content_def)
next
  case (Some r)
  then have "\<exists>x \<in> U. tier1_read (oo_registry og) B r = Some x \<and> se_hash env x = i"
    using odb_atE(7) [OF assms(1)] map_of_SomeD [OF Some] by (auto simp: tier1_ok_def)
  then show ?thesis using assms(2) Some by (auto simp: odb_content_def)
qed

lemma content_known:
  assumes "odb_at env U sha od d B es ts og"
  shows "tier1_contains (od_tier1 od) i \<or> blob_contains (od_blobs od) i \<longleftrightarrow>
    map_of ts i \<noteq> None \<or> B i \<noteq> None"
  using tier1_known [OF assms] from_contains [OF odb_atE(2) [OF assms]] by (simp add: tier1_contains_def)

section \<open>Putting a blob\<close>

text \<open>What a set without collisions has to contain for a content to be stored faithfully.\<close>

definition odb_fits :: "store_env \<Rightarrow> bytes set \<Rightarrow> blob_opts \<Rightarrow> registry \<Rightarrow> bytes \<Rightarrow> bool" where
  "odb_fits env U opts reg data \<longleftrightarrow>
     data \<in> U \<and> length data < 2 ^ 64 \<and>
     (case decompose_verified reg data of
        None \<Rightarrow> blob_fits env U opts data
      | Some (prism, dc) \<Rightarrow>
          list_all (blob_fits env U opts) (dc_parts dc) \<and>
          blob_fits env U opts (encode_record prism (dc_recipe dc) (map (se_hash env) (dc_parts dc))) \<and>
          length (dc_recipe dc) < 2 ^ 32 \<and> length (dc_parts dc) < 2 ^ 32)"

lemma put_parts_from:
  assumes ok: "odb_env_ok env U og"
  shows "blob_from env U bs d B og \<Longrightarrow> list_all (blob_fits env U (oo_opts og)) ps \<Longrightarrow> put_parts env ps bs d = Some (r, bs', d') \<Longrightarrow>
    \<exists>B'. blob_from env U bs' d' B' og \<and> B \<subseteq>\<^sub>m B' \<and>
      (\<forall>ids. r = Inr ids \<longrightarrow> ids = map (se_hash env) ps \<and> those (map B' ids) = Some ps)"
proof (induction ps arbitrary: bs d B r bs' d')
  case Nil
  then show ?case by (intro exI [of _ B]) auto
next
  case (Cons p ps)
  obtain r1 bs1 d1 where one: "blob_put env p bs d = Some (r1, bs1, d1)" using Cons.prems(3) by (auto split: option.splits)
  from from_put [OF ok Cons.prems(1) _ one] Cons.prems(2) obtain B1 where
    B1: "blob_from env U bs1 d1 B1 og" "B \<subseteq>\<^sub>m B1" "\<forall>i. r1 = Inr i \<longrightarrow> i = se_hash env p \<and> B1 i = Some p" by auto
  show ?case
  proof (cases r1)
    case (Inl e)
    then show ?thesis using Cons.prems(3) one B1(1,2) by auto
  next
    case (Inr i)
    obtain r2 bs2 d2 where two: "put_parts env ps bs1 d1 = Some (r2, bs2, d2)"
      using Cons.prems(3) one Inr by (auto split: option.splits)
    from Cons.IH [OF B1(1) _ two] Cons.prems(2) obtain B2 where
      B2: "blob_from env U bs2 d2 B2 og" "B1 \<subseteq>\<^sub>m B2"
        "\<forall>ids. r2 = Inr ids \<longrightarrow> ids = map (se_hash env) ps \<and> those (map B2 ids) = Some ps" by auto
    have i: "i = se_hash env p" "B2 i = Some p" using B1(3) Inr B2(2) by (auto simp: map_le_def dom_def)
    have "bs' = bs2 \<and> d' = d2 \<and> r = (case r2 of Inl e \<Rightarrow> Inl e | Inr ids \<Rightarrow> Inr (i # ids))"
      using Cons.prems(3) one Inr two by (auto split: sum.splits)
    then show ?thesis using B2 i map_le_trans [OF B1(2) B2(2)] by (intro exI [of _ B2]) (auto split: sum.splits)
  qed
qed

lemma tier1_append_at:
  assumes ok: "odb_env_ok env U og" and at: "odb_at env U sha od d B es ts og" and new: "map_of ts i = None" "B i = None \<or> B i = Some x"
    and read: "tier1_read (oo_registry og) B r = Some x" "x \<in> U" "se_hash env x = i" "length r = 32"
    and run: "tier1_append (se_hash env) i r (od_tier1 od) (the_file (dd_tier1 d)) = (t1, tf)"
  shows "odb_at env U sha (od\<lparr>od_tier1 := t1\<rparr>) (d\<lparr>dd_tier1 := Some tf\<rparr>) B es (ts @ [(i, r)]) og \<and>
    odb_content (oo_registry og) B (map_of ts) \<subseteq>\<^sub>m odb_content (oo_registry og) B (map_of (ts @ [(i, r)])) \<and>
    odb_content (oo_registry og) B (map_of (ts @ [(i, r)])) i = Some x"
proof -
  let ?ts = "ts @ [(i, r)]"
  have entry: "tier1_entry_ok (se_hash env) (i, r)"
    using odb_env(1) [OF ok] read(3,4) by (auto simp: tier1_entry_ok_def lf_checksum_def tier1_format_def env_ok_def)
  have tail: "df_bytes (the_file (dd_tier1 d)) = log_bytes (t1f env) ts"
    using odb_atE(5) [OF at] by (auto simp: log_bytes_in_def the_file_def)
  from t1.append_knows [OF odb_atE(6) [OF at] tail entry] run have
    post: "log_knows (t1f env) t1 ?ts" "df_bytes tf = log_bytes (t1f env) ?ts" by (simp_all add: tier1_append_def)
  have state: "map_of ?ts = (map_of ts)(i \<mapsto> r)" using new(1) by (intro map_of_snoc) (auto simp: map_of_eq_None_iff)
  have grow: "odb_content (oo_registry og) B (map_of ts) \<subseteq>\<^sub>m odb_content (oo_registry og) B (map_of ?ts)"
    using new read(1) by (auto simp: state odb_content_def map_le_def dom_def split: option.splits if_splits)
  have "i \<notin> fst ` set ts" using new(1) by (simp add: map_of_eq_None_iff)
  then have "tier1_ok env U (oo_registry og) B ?ts"
    using odb_atE(7) [OF at] entry read by (auto simp: tier1_ok_def)
  moreover have "map_ok env sha (odb_content (oo_registry og) B (map_of ?ts)) es"
    by (rule map_ok_mono [OF odb_atE(8) [OF at] grow])
  ultimately show ?thesis using at post grow read(1) by (simp add: odb_at_def log_bytes_in_def odb_content_def state del: map_of_append)
qed

lemma put_blob_at:
  assumes ok: "odb_env_ok env U og" and at: "odb_at env U sha od d B es ts og" and fits: "odb_fits env U (oo_opts og) (oo_registry og) data"
    and run: "put_blob env data od d = Some (r, od', d')"
  shows "\<exists>B' ts'. odb_at env U sha od' d' B' es (ts @ ts') og \<and>
    odb_content (oo_registry og) B (map_of ts) \<subseteq>\<^sub>m odb_content (oo_registry og) B' (map_of (ts @ ts')) \<and>
    (\<forall>i. r = Inr i \<longrightarrow> i = se_hash env data \<and> odb_content (oo_registry og) B' (map_of (ts @ ts')) i = Some data)"
proof -
  let ?i = "se_hash env data" and ?reg = "oo_registry og"
  have data: "data \<in> U" using fits by (simp add: odb_fits_def)
  have same: "x = data" if "x \<in> U" "se_hash env x = ?i" for x using odb_env(2) [OF ok] data that by (auto dest: inj_onD)
  note reg = odb_atE(1) [OF at]
  show ?thesis
  proof (cases "tier1_contains (od_tier1 od) ?i \<or> blob_contains (od_blobs od) ?i")
    case True
    then obtain x where x: "odb_content ?reg B (map_of ts) ?i = Some x"
      using content_known [OF at] odb_atE(7) [OF at]
      by (cases "map_of ts ?i") (auto simp: odb_content_def tier1_ok_def dest!: map_of_SomeD)
    then have "x = data" using content_in [OF at x] same by blast
    moreover have "r = Inr ?i" "od' = od" "d' = d" using run True by (auto simp: put_blob_def Let_def)
    ultimately show ?thesis using at x by (intro exI [of _ B] exI [of _ "[]"]) simp
  next
    case False
    then have new: "map_of ts ?i = None" "B ?i = None" using content_known [OF at, of ?i] by auto
    show ?thesis
    proof (cases "decompose_verified ?reg data")
      case None
      then have fit: "blob_fits env U (oo_opts og) data" using fits by (simp add: odb_fits_def)
      obtain bs bd where put: "blob_put env data (od_blobs od) (dd_blobs d) = Some (r, bs, bd)"
        "od' = od\<lparr>od_blobs := bs\<rparr>" "d' = d\<lparr>dd_blobs := bd\<rparr>"
        using run False None reg by (auto simp: put_blob_def Let_def split: option.splits)
      from from_put [OF ok odb_atE(2) [OF at] fit put(1)] obtain B' where
        B': "blob_from env U bs bd B' og" "B \<subseteq>\<^sub>m B'" "\<forall>i. r = Inr i \<longrightarrow> i = ?i \<and> B' i = Some data" by blast
      show ?thesis
        using odb_at_blobs [OF at B'(1,2)] content_mono [OF B'(2)] B'(3) new(1) put(2,3)
        by (intro exI [of _ B'] exI [of _ "[]"]) (auto simp: odb_content_def)
    next
      case (Some pd)
      obtain prism dc where pd: "pd = (prism, dc)" by (cases pd)
      then have fit: "list_all (blob_fits env U (oo_opts og)) (dc_parts dc)"
        "blob_fits env U (oo_opts og) (encode_record prism (dc_recipe dc) (map (se_hash env) (dc_parts dc)))"
        "length (dc_recipe dc) < 2 ^ 32" "length (dc_parts dc) < 2 ^ 32" using fits Some by (simp_all add: odb_fits_def)
      obtain r1 bs1 bd1 where one: "put_parts env (dc_parts dc) (od_blobs od) (dd_blobs d) = Some (r1, bs1, bd1)"
        using run False Some pd reg by (auto simp: put_blob_def Let_def split: option.splits)
      from put_parts_from [OF ok odb_atE(2) [OF at] fit(1) one] obtain B1 where
        B1: "blob_from env U bs1 bd1 B1 og" "B \<subseteq>\<^sub>m B1"
          "\<forall>ids. r1 = Inr ids \<longrightarrow> ids = map (se_hash env) (dc_parts dc) \<and> those (map B1 ids) = Some (dc_parts dc)" by blast
      show ?thesis
      proof (cases r1)
        case (Inl e)
        then have "od' = od\<lparr>od_blobs := bs1\<rparr>" "d' = d\<lparr>dd_blobs := bd1\<rparr>" "\<exists>e. r = Inl e"
          using run False Some pd reg one by (auto simp: put_blob_def Let_def)
        then show ?thesis using odb_at_blobs [OF at B1(1,2)] content_mono [OF B1(2)] by (intro exI [of _ B1] exI [of _ "[]"]) auto
      next
        case (Inr ids)
        let ?rec = "encode_record prism (dc_recipe dc) ids"
        have ids: "ids = map (se_hash env) (dc_parts dc)" "those (map B1 ids) = Some (dc_parts dc)" using B1(3) Inr by auto
        obtain r2 bs2 bd2 where two: "blob_put env ?rec bs1 bd1 = Some (r2, bs2, bd2)"
          using run False Some pd reg one Inr by (auto simp: put_blob_def Let_def split: option.splits)
        from from_put [OF ok B1(1) _ two] fit(2) ids(1) obtain B2 where
          B2: "blob_from env U bs2 bd2 B2 og" "B1 \<subseteq>\<^sub>m B2" "\<forall>i. r2 = Inr i \<longrightarrow> i = se_hash env ?rec \<and> B2 i = Some ?rec" by auto
        have le: "B \<subseteq>\<^sub>m B2" by (rule map_le_trans [OF B1(2) B2(2)])
        have at2: "odb_at env U sha (od\<lparr>od_blobs := bs2\<rparr>) (d\<lparr>dd_blobs := bd2\<rparr>) B2 es ts og" by (rule odb_at_blobs [OF at B2(1) le])
        show ?thesis
        proof (cases r2)
          case (Inl e)
          then have "od' = od\<lparr>od_blobs := bs2\<rparr>" "d' = d\<lparr>dd_blobs := bd2\<rparr>" "\<exists>e. r = Inl e"
            using run False Some pd reg one Inr two by (auto simp: put_blob_def Let_def)
          then show ?thesis using at2 content_mono [OF le] by (intro exI [of _ B2] exI [of _ "[]"]) auto
        next
          case rid: (Inr rid)
          have "decode_record ?rec = Inr (prism, dc_recipe dc, ids)"
            using fit(3,4) ids(1) hash_length [OF ok] by (intro record_round_trip) auto
          moreover have "those (map B2 ids) = Some (dc_parts dc)" by (rule those_mono [OF B2(2) ids(2)])
          moreover have "registry_recompose ?reg prism (dc_recipe dc) (dc_parts dc) = Some data"
            using decompose_recompose Some pd ok by (auto simp: odb_env_ok_def)
          moreover have "B2 rid = Some ?rec" using B2(3) rid by blast
          ultimately have read: "tier1_read ?reg B2 rid = Some data" by (simp add: tier1_read_def)
          obtain t1 tf where app: "tier1_append (se_hash env) ?i rid (od_tier1 od) (the_file (dd_tier1 d)) = (t1, tf)"
            by (rule prod.exhaust)
          have "B2 ?i = None \<or> B2 ?i = Some data" using from_in [OF B2(1)] same by (cases "B2 ?i") auto
          from tier1_append_at [OF ok at2 new(1) this read data refl] app B2(3) rid hash_length [OF ok] have
            "odb_at env U sha (od\<lparr>od_blobs := bs2, od_tier1 := t1\<rparr>) (d\<lparr>dd_blobs := bd2, dd_tier1 := Some tf\<rparr>) B2 es (ts @ [(?i, rid)]) og"
            "odb_content ?reg B2 (map_of ts) \<subseteq>\<^sub>m odb_content ?reg B2 (map_of (ts @ [(?i, rid)]))"
            "odb_content ?reg B2 (map_of (ts @ [(?i, rid)])) ?i = Some data" by simp_all
          moreover have "od' = od\<lparr>od_blobs := bs2, od_tier1 := t1\<rparr>" "d' = d\<lparr>dd_blobs := bd2, dd_tier1 := Some tf\<rparr>" "r = Inr ?i"
            using run False Some pd reg one Inr two rid app by (auto simp: put_blob_def Let_def)
          ultimately show ?thesis using map_le_trans [OF content_mono [OF le]] by blast
        qed
      qed
    qed
  qed
qed

end
