(* ===== verification/Odb_Refine.thy ===== *)
theory Odb_Refine
  imports Odb_Spec
begin

text \<open>
  The operations of the object database against its content, runs of them, opening after a crash, and
  rewinding.
\<close>

section \<open>Reading\<close>

lemma get_parts_from:
  "blob_from env U bs d B og \<Longrightarrow> those (map B ids) = Some ps \<Longrightarrow>
   \<exists>bs'. get_parts env d ids bs = (Inr ps, bs') \<and> blob_from env U bs' d B og"
proof (induction ids arbitrary: bs ps)
  case (Cons i ids)
  then obtain p ps' where ps: "B i = Some p" "those (map B ids) = Some ps'" "ps = p # ps'" by (auto split: option.splits)
  obtain bs1 where one: "blob_get_unverified env d i bs = (Inr p, bs1)" "blob_from env U bs1 d B og"
    using from_read(2) [OF Cons.prems(1), of i] ps(1) by auto
  from Cons.IH [OF one(2) ps(2)] one(1) ps(3) show ?case by auto
qed simp

lemma fetch_at:
  assumes at: "odb_at env U sha od d B es ts og"
  shows "\<exists>bs. fetch_blob env d i od =
      (case odb_content (oo_registry og) B (map_of ts) i of None \<Rightarrow> Inl (OdbStore (BlobNotFound i)) | Some x \<Rightarrow> Inr x,
       od\<lparr>od_blobs := bs\<rparr>) \<and> odb_at env U sha (od\<lparr>od_blobs := bs\<rparr>) d B es ts og"
proof (cases "map_of ts i")
  case None
  obtain bs where bs: "blob_get env (dd_blobs d) i (od_blobs od) = (case B i of None \<Rightarrow> Inl (BlobNotFound i) | Some x \<Rightarrow> Inr x, bs)"
    "blob_from env U bs (dd_blobs d) B og" using from_read(1) [OF odb_atE(2) [OF at]] by blast
  then have "fetch_blob env d i od =
      (case odb_content (oo_registry og) B (map_of ts) i of None \<Rightarrow> Inl (OdbStore (BlobNotFound i)) | Some x \<Rightarrow> Inr x, od\<lparr>od_blobs := bs\<rparr>)"
    using None tier1_known [OF at] by (simp add: fetch_blob_def tier1_get_def odb_content_def split: option.split)
  then show ?thesis using odb_at_read [OF at bs(2)] by blast
next
  case (Some r)
  then obtain x where x: "tier1_read (oo_registry og) B r = Some x" "se_hash env x = i"
    using odb_atE(7) [OF at] map_of_SomeD [OF Some] by (auto simp: tier1_ok_def)
  obtain rec prism recipe ids ps where rec: "B r = Some rec" "decode_record rec = Inr (prism, recipe, ids)"
    "those (map B ids) = Some ps" "registry_recompose (oo_registry og) prism recipe ps = Some x"
    using x(1) by (auto simp: tier1_read_def split: option.splits sum.splits)
  obtain bs1 where one: "blob_get env (dd_blobs d) r (od_blobs od) = (Inr rec, bs1)" "blob_from env U bs1 (dd_blobs d) B og"
    using from_read(1) [OF odb_atE(2) [OF at], of r] rec(1) by auto
  obtain bs2 where two: "get_parts env (dd_blobs d) ids bs1 = (Inr ps, bs2)" "blob_from env U bs2 (dd_blobs d) B og"
    using get_parts_from [OF one(2) rec(3)] by blast
  have "fetch_blob env d i od = (Inr x, od\<lparr>od_blobs := bs2\<rparr>)"
    using Some tier1_known [OF at] odb_atE(1) [OF at] one(1) rec two(1) x(2) by (simp add: fetch_blob_def tier1_get_def)
  then show ?thesis using odb_at_read [OF at two(2)] Some x(1) by (auto simp: odb_content_def)
qed

lemma odb_get_at:
  assumes at: "odb_at env U sha od d B es ts og"
  shows "\<exists>bs. odb_get env d oid od = (Inr (odb_view (odb_content (oo_registry og) B (map_of ts)) es oid), od\<lparr>od_blobs := bs\<rparr>) \<and>
    odb_at env U sha (od\<lparr>od_blobs := bs\<rparr>) d B es ts og"
proof (cases "map_entry_of es oid")
  case None
  then show ?thesis using at map_known [OF at]
    by (intro exI [of _ "od_blobs od"]) (simp add: odb_get_def odb_view_def)
next
  case (Some e)
  then obtain x where x: "odb_content (oo_registry og) B (map_of ts) (me_alt e) = Some x" "length x = unat (me_size e)"
    using odb_atE(8) [OF at] map_entry_of_in [OF Some] by (auto simp: map_ok_def)
  obtain bs where bs: "fetch_blob env d (me_alt e) od = (Inr x, od\<lparr>od_blobs := bs\<rparr>)" "odb_at env U sha (od\<lparr>od_blobs := bs\<rparr>) d B es ts og"
    using fetch_at [OF at, of "me_alt e"] x(1) by auto
  then show ?thesis using map_known [OF at] Some x
    by (intro exI [of _ bs]) (simp add: odb_get_def odb_view_def)
qed

lemma odb_get_content_at:
  assumes at: "odb_at env U sha od d B es ts og"
  shows "\<exists>bs. odb_get_content env d i od = (Inr (odb_content (oo_registry og) B (map_of ts) i), od\<lparr>od_blobs := bs\<rparr>) \<and>
    odb_at env U sha (od\<lparr>od_blobs := bs\<rparr>) d B es ts og"
proof (cases "tier1_contains (od_tier1 od) i \<or> blob_contains (od_blobs od) i")
  case True
  then obtain x where x: "odb_content (oo_registry og) B (map_of ts) i = Some x"
    using content_known [OF at] odb_atE(7) [OF at]
    by (cases "map_of ts i") (auto simp: odb_content_def tier1_ok_def dest!: map_of_SomeD)
  then show ?thesis using fetch_at [OF at, of i] True by (auto simp: odb_get_content_def)
next
  case False
  then have "odb_content (oo_registry og) B (map_of ts) i = None" using content_known [OF at, of i] by (auto simp: odb_content_def)
  then show ?thesis using False at by (intro exI [of _ "od_blobs od"]) (simp add: odb_get_content_def)
qed

section \<open>The write lock\<close>

lemma object_map_sync_same:
  assumes "log_knows (object_map_format h) log es" and "df_bytes f = log_bytes (object_map_format h) es"
  shows "object_map_sync_from_disk h log f = (Inr (), log, f)"
  using assms by (simp add: object_map_sync_from_disk_def rec_sync_from_disk_def log_knows_def Let_def)

lemma odb_acquire_same:
  assumes at: "odb_at env U sha od d B es ts og"
  shows "odb_acquire env od d = (Inr (), od\<lparr>od_held := True\<rparr>, d)"
proof (cases "od_held od")
  case True
  then show ?thesis by (cases od) (simp add: odb_acquire_def)
next
  case False
  obtain f where f: "dd_map d = Some f" "df_bytes f = log_bytes (omf env) es" using odb_atE(3) [OF at] by (auto simp: log_bytes_in_def)
  show ?thesis
    using False from_sync [OF odb_atE(2) [OF at]] object_map_sync_same [OF odb_atE(4) [OF at] f(2)] f(1)
    by (cases od; cases d) (simp add: odb_acquire_def the_file_def)
qed

lemma odb_acquire_at:
  "odb_at env U sha od d B es ts og \<Longrightarrow> \<exists>od'. odb_acquire env od d = (Inr (), od', d) \<and> odb_at env U sha od' d B es ts og"
  using odb_acquire_same odb_at_flags(1) by blast

section \<open>Putting an object\<close>

lemma map_entry_of_snoc: "map_entry_of es (me_git e) = None \<Longrightarrow> map_entry_of (es @ [e]) = (map_entry_of es)(me_git e \<mapsto> e)"
  unfolding map_entry_of_def map_append list.map by (rule map_of_snoc) (simp add: map_of_eq_None_iff)

lemma object_map_append_at:
  assumes ok: "odb_env_ok env U og" and at: "odb_at env U sha od d B es ts og" and new: "map_entry_of es oid = None"
    and oid: "wf_oid oid" "hash_object sha (oid_algo oid) kind x = oid" and len: "length es + 1 < 2 ^ 32" "length x < 2 ^ 64"
    and content: "odb_content (oo_registry og) B (map_of ts) i = Some x"
    and run: "object_map_append (se_hash env) \<lparr>me_git = oid, me_alt = i, me_kind = kind, me_size = of_nat (length x)\<rparr>
      (od_map od) (the_file (dd_map d)) = (log, mf)"
  shows "\<exists>es'. odb_at env U sha (od\<lparr>od_map := log\<rparr>) (d\<lparr>dd_map := Some mf\<rparr>) B (es @ es') ts og \<and>
    odb_view (odb_content (oo_registry og) B (map_of ts)) (es @ es') =
      (odb_view (odb_content (oo_registry og) B (map_of ts)) es)(oid \<mapsto> (kind, x))"
proof -
  let ?e = "\<lparr>me_git = oid, me_alt = i, me_kind = kind, me_size = of_nat (length x)\<rparr>"
  have "length i = 32" using content_in [OF at content] hash_length [OF ok] by blast
  then have entry: "map_entry_ok (se_hash env) ?e"
    using oid(1) odb_env(1) [OF ok] by (simp add: map_entry_ok_def lf_checksum_def object_map_format_def env_ok_def)
  have tail: "df_bytes (the_file (dd_map d)) = log_bytes (omf env) es" using odb_atE(3) [OF at] by (auto simp: log_bytes_in_def the_file_def)
  from om.append_knows [OF odb_atE(4) [OF at] tail entry] run have
    post: "log_knows (omf env) log (es @ [?e])" "df_bytes mf = log_bytes (omf env) (es @ [?e])" by (simp_all add: object_map_append_def)
  have fresh: "oid \<notin> me_git ` set es"
    using new by (simp add: map_entry_of_def map_of_eq_None_iff image_image)
  have "map_ok env sha (odb_content (oo_registry og) B (map_of ts)) (es @ [?e])"
    using odb_atE(8) [OF at] entry oid(2) content len fresh by (auto simp: map_ok_def codec_simps)
  then have "odb_at env U sha (od\<lparr>od_map := log\<rparr>) (d\<lparr>dd_map := Some mf\<rparr>) B (es @ [?e]) ts og"
    using at post by (simp add: odb_at_def log_bytes_in_def)
  moreover have "map_entry_of (es @ [?e]) = (map_entry_of es)(oid \<mapsto> ?e)" using map_entry_of_snoc [of es ?e] new by simp
  then have "odb_view (odb_content (oo_registry og) B (map_of ts)) (es @ [?e]) =
      (odb_view (odb_content (oo_registry og) B (map_of ts)) es)(oid \<mapsto> (kind, x))"
    using content by (simp add: fun_eq_iff odb_view_def)
  ultimately show ?thesis by blast
qed

text \<open>The state as a caller sees it: the contents and the objects.\<close>

definition odb_state ::
  "store_env \<Rightarrow> bytes set \<Rightarrow> (hash_algo \<Rightarrow> bytes \<Rightarrow> bytes) \<Rightarrow> odb \<Rightarrow> odb_disk \<Rightarrow> content \<Rightarrow> objects \<Rightarrow> content
     \<Rightarrow> map_entry list \<Rightarrow> (blob_id \<times> blob_id) list \<Rightarrow> odb_origin \<Rightarrow> bool" where
  "odb_state env U sha od d C M B es ts og \<longleftrightarrow>
     odb_at env U sha od d B es ts og \<and> C = odb_content (oo_registry og) B (map_of ts) \<and> M = odb_view C es"

text \<open>What putting an object does to the objects, and its result.\<close>

definition put_object :: "(hash_algo \<Rightarrow> bytes \<Rightarrow> bytes) \<Rightarrow> object_id \<Rightarrow> object_kind \<Rightarrow> bytes \<Rightarrow> objects \<Rightarrow> objects" where
  "put_object sha oid kind x M = (if M oid = None then M(oid \<mapsto> (kind, x)) else M)"

lemma view_none:
  assumes "odb_at env U sha od d B es ts og"
  shows "odb_view (odb_content (oo_registry og) B (map_of ts)) es oid = None \<longleftrightarrow> map_entry_of es oid = None"
proof (cases "map_entry_of es oid")
  case (Some e)
  then have "\<exists>x. odb_content (oo_registry og) B (map_of ts) (me_alt e) = Some x"
    using odb_atE(8) [OF assms] map_entry_of_in [OF Some] by (auto simp: map_ok_def)
  then show ?thesis using Some by (auto simp: odb_view_def)
qed (simp add: odb_view_def)

lemma odb_put_at:
  assumes ok: "odb_env_ok env U og" and st: "odb_state env U sha od d C M B es ts og"
    and fits: "odb_fits env U (oo_opts og) (oo_registry og) x" and oid: "wf_oid oid" and room: "length es + 1 < 2 ^ 32"
    and run: "odb_put env sha oid kind x od d = Some (r, od', d')"
  shows "\<exists>C' M' B' es' ts'. odb_state env U sha od' d' C' M' B' (es @ es') (ts @ ts') og \<and> C \<subseteq>\<^sub>m C' \<and>
    (case r of Inl _ \<Rightarrow> M' = M | Inr i \<Rightarrow> M' = put_object sha oid kind x M \<and> C' i = map_option snd (M' oid)) \<and>
    (M oid = None \<and> hash_object sha (oid_algo oid) kind x \<noteq> oid \<longrightarrow>
       r = Inl (HashMismatch oid (hash_object sha (oid_algo oid) kind x)))"
proof -
  have at: "odb_at env U sha od d B es ts og" and C: "C = odb_content (oo_registry og) B (map_of ts)" and M: "M = odb_view C es"
    using st by (simp_all add: odb_state_def)
  obtain od1 where od1: "odb_acquire env od d = (Inr (), od1, d)" "odb_at env U sha od1 d B es ts og"
    using odb_acquire_at [OF at] by blast
  have none: "M oid = None \<longleftrightarrow> map_entry_of es oid = None" using view_none [OF at] C M by simp
  show ?thesis
  proof (cases "map_entry_of es oid")
    case (Some e)
    then obtain y where y: "C (me_alt e) = Some y" using odb_atE(8) [OF at] map_entry_of_in [OF Some] C by (auto simp: map_ok_def)
    have "r = Inr (me_alt e)" "od' = od1" "d' = d" using run od1(1) map_known [OF od1(2)] Some by (simp_all add: odb_put_def)
    moreover have "M oid = Some (me_kind e, y)" using Some y M by (simp add: odb_view_def)
    ultimately show ?thesis using od1(2) C M y
      by (intro exI [of _ C] exI [of _ M] exI [of _ B] exI [of _ "[]"]) (simp add: odb_state_def put_object_def)
  next
    case None
    show ?thesis
    proof (cases "hash_object sha (oid_algo oid) kind x = oid")
      case False
      then have "r = Inl (HashMismatch oid (hash_object sha (oid_algo oid) kind x))" "od' = od1" "d' = d"
        using run od1(1) map_known [OF od1(2)] None by (simp_all add: odb_put_def)
      then show ?thesis using od1(2) C M
        by (intro exI [of _ C] exI [of _ M] exI [of _ B] exI [of _ "[]"]) (simp add: odb_state_def)
    next
      case True
      obtain r1 od2 d2 where put: "put_blob env x od1 d = Some (r1, od2, d2)"
        using run od1(1) map_known [OF od1(2)] None True by (auto simp: odb_put_def split: option.splits)
      from put_blob_at [OF ok od1(2) fits put] obtain B' ts' where
        B': "odb_at env U sha od2 d2 B' es (ts @ ts') og" "C \<subseteq>\<^sub>m odb_content (oo_registry og) B' (map_of (ts @ ts'))"
          "\<forall>i. r1 = Inr i \<longrightarrow> i = se_hash env x \<and> odb_content (oo_registry og) B' (map_of (ts @ ts')) i = Some x"
        unfolding C by blast
      let ?C = "odb_content (oo_registry og) B' (map_of (ts @ ts'))"
      have "map_ok env sha C es" using odb_atE(8) [OF at] C by simp
      then have view: "odb_view ?C es = M" using odb_view_mono [OF _ B'(2)] M by simp
      show ?thesis
      proof (cases r1)
        case (Inl e)
        then have "r = Inl (OdbStore e)" "od' = od2" "d' = d2"
          using run od1(1) map_known [OF od1(2)] None True put by (simp_all add: odb_put_def)
        then show ?thesis using B'(1,2) view True
          by (intro exI [of _ ?C] exI [of _ M] exI [of _ B'] exI [of _ "[]"] exI [of _ ts']) (simp add: odb_state_def del: map_of_append)
      next
        case (Inr i)
        obtain log mf where app: "object_map_append (se_hash env) \<lparr>me_git = oid, me_alt = i, me_kind = kind, me_size = of_nat (length x)\<rparr>
            (od_map od2) (the_file (dd_map d2)) = (log, mf)" by (rule prod.exhaust)
        have res: "r = Inr i" "od' = od2\<lparr>od_map := log\<rparr>" "d' = d2\<lparr>dd_map := Some mf\<rparr>"
          using run od1(1) map_known [OF od1(2)] None True put Inr app by (simp_all add: odb_put_def)
        have "length x < 2 ^ 64" using fits by (simp add: odb_fits_def)
        moreover have "?C i = Some x" using B'(3) Inr by blast
        ultimately obtain es' where
          es': "odb_at env U sha od' d' B' (es @ es') (ts @ ts') og" "odb_view ?C (es @ es') = M(oid \<mapsto> (kind, x))"
          using object_map_append_at [OF ok B'(1) None oid True room _ _ app] view res(2,3) by auto
        then show ?thesis using res(1) B'(2) \<open>?C i = Some x\<close> True none None
          by (intro exI [of _ ?C] exI [of _ "M(oid \<mapsto> (kind, x))"] exI [of _ B'] exI [of _ es'] exI [of _ ts'])
            (simp add: odb_state_def put_object_def del: map_of_append)
      qed
    qed
  qed
qed

section \<open>Steps\<close>

type_synonym odb_world = "odb \<times> odb_disk"

text \<open>
  What a process does with its database; what it stores is to come from \<open>U\<close>, and the object map counts
  its entries in 32 bits.
\<close>

inductive odb_step :: "store_env \<Rightarrow> bytes set \<Rightarrow> (hash_algo \<Rightarrow> bytes \<Rightarrow> bytes) \<Rightarrow> odb_world \<Rightarrow> odb_world \<Rightarrow> bool"
  for env U sha where
  odb_step_put: "odb_fits env U (bs_opts (od_blobs od)) (od_registry od) x \<Longrightarrow> wf_oid oid \<Longrightarrow> length (odb_entries od) + 1 < 2 ^ 32 \<Longrightarrow>
    odb_put env sha oid kind x od d = Some (r, od', d') \<Longrightarrow> odb_step env U sha (od, d) (od', d')"
| odb_step_content: "odb_fits env U (bs_opts (od_blobs od)) (od_registry od) x \<Longrightarrow> odb_put_content env x od d = Some (r, od', d') \<Longrightarrow>
    odb_step env U sha (od, d) (od', d')"
| odb_step_get: "odb_get env d oid od = (r, od') \<Longrightarrow> odb_step env U sha (od, d) (od', d)"
| odb_step_get_content: "odb_get_content env d i od = (r, od') \<Longrightarrow> odb_step env U sha (od, d) (od', d)"
| odb_step_lineage: "odb_lineage_delta env old new od d = (r, od', d') \<Longrightarrow> odb_step env U sha (od, d) (od', d')"
| odb_step_compact: "odb_acquire env od d = (r1, od1, d1) \<Longrightarrow> compacts_small (bs_chunks (od_blobs od1)) (bd_chunks (dd_blobs d1)) \<Longrightarrow>
    odb_compact env od d = (r, od', d') \<Longrightarrow> odb_step env U sha (od, d) (od', d')"
| odb_step_refresh: "odb_refresh env od d = (r, od', d') \<Longrightarrow> odb_step env U sha (od, d) (od', d')"
| odb_step_checkpoint: "odb_checkpoint_op env od d = (r, od', d') \<Longrightarrow> odb_step env U sha (od, d) (od', d')"
| odb_step_flush: "odb_flush relaxed (\<lambda>d. d) od d = (od', d') \<Longrightarrow> odb_step env U sha (od, d) (od', d')"

inductive odb_run :: "store_env \<Rightarrow> bytes set \<Rightarrow> (hash_algo \<Rightarrow> bytes \<Rightarrow> bytes) \<Rightarrow> odb_world \<Rightarrow> odb_world \<Rightarrow> bool"
  for env U sha where
  odb_run_none: "odb_run env U sha w w"
| odb_run_more: "odb_run env U sha w w' \<Longrightarrow> odb_step env U sha w' w'' \<Longrightarrow> odb_run env U sha w w''"

inductive_cases odb_step_cases: "odb_step env U sha (od, d) w"

text \<open>Some later state of a run: nothing is lost.\<close>

definition odb_later ::
  "store_env \<Rightarrow> bytes set \<Rightarrow> (hash_algo \<Rightarrow> bytes \<Rightarrow> bytes) \<Rightarrow> odb \<Rightarrow> odb_disk \<Rightarrow> content \<Rightarrow> objects
     \<Rightarrow> map_entry list \<Rightarrow> (blob_id \<times> blob_id) list \<Rightarrow> odb_origin \<Rightarrow> bool" where
  "odb_later env U sha od d C M es ts og \<longleftrightarrow>
     (\<exists>C' M' B' es' ts'. odb_state env U sha od d C' M' B' (es @ es') (ts @ ts') og \<and> C \<subseteq>\<^sub>m C' \<and> M \<subseteq>\<^sub>m M')"

lemma odb_laterI:
  "odb_state env U sha od d C' M' B' (es @ es') (ts @ ts') og \<Longrightarrow> C \<subseteq>\<^sub>m C' \<Longrightarrow> M \<subseteq>\<^sub>m M' \<Longrightarrow>
   odb_later env U sha od d C M es ts og"
  unfolding odb_later_def by blast

lemma later_same:
  assumes "odb_state env U sha od d C M B es ts og" and "odb_at env U sha od' d' B es ts og"
  shows "odb_later env U sha od' d' C M es ts og"
  using assms by (intro odb_laterI [of env U sha od' d' C M B es "[]" ts "[]"]) (simp_all add: odb_state_def)

lemma later_blobs:
  assumes st: "odb_state env U sha od0 d0 C M B es ts og" and at: "odb_at env U sha od d B es ts og"
    and "blob_from env U bs bd B' og" and "B \<subseteq>\<^sub>m B'"
  shows "odb_later env U sha (od\<lparr>od_blobs := bs\<rparr>) (d\<lparr>dd_blobs := bd\<rparr>) C M es ts og"
proof -
  let ?C = "odb_content (oo_registry og) B' (map_of ts)"
  have C: "C \<subseteq>\<^sub>m ?C" using st content_mono [OF assms(4)] by (simp add: odb_state_def)
  have "odb_view ?C es = M" using st odb_view_mono [of env sha C es ?C] C odb_atE(8) [OF at] by (simp add: odb_state_def)
  then show ?thesis using odb_at_blobs [OF at assms(3,4)] C
    by (intro odb_laterI [of env U sha _ _ ?C M B' es "[]" ts "[]"]) (simp_all add: odb_state_def)
qed

lemma put_object_keeps: "M \<subseteq>\<^sub>m put_object sha oid kind x M"
  by (auto simp: put_object_def map_le_def)

lemma odb_put_content_at:
  assumes ok: "odb_env_ok env U og" and st: "odb_state env U sha od d C M B es ts og"
    and fits: "odb_fits env U (oo_opts og) (oo_registry og) x" and run: "odb_put_content env x od d = Some (r, od', d')"
  shows "\<exists>C' B' ts'. odb_state env U sha od' d' C' M B' es (ts @ ts') og \<and> C \<subseteq>\<^sub>m C' \<and>
    (\<forall>i. r = Inr i \<longrightarrow> i = se_hash env x \<and> C' i = Some x)"
proof -
  have at: "odb_at env U sha od d B es ts og" and C: "C = odb_content (oo_registry og) B (map_of ts)" and M: "M = odb_view C es"
    using st by (simp_all add: odb_state_def)
  obtain od1 where od1: "odb_acquire env od d = (Inr (), od1, d)" "odb_at env U sha od1 d B es ts og"
    using odb_acquire_at [OF at] by blast
  obtain r1 where put: "put_blob env x od1 d = Some (r1, od', d')" "r = map_err OdbStore r1"
    using run od1(1) by (auto simp: odb_put_content_def)
  from put_blob_at [OF ok od1(2) fits put(1)] obtain B' ts' where
    B': "odb_at env U sha od' d' B' es (ts @ ts') og" "C \<subseteq>\<^sub>m odb_content (oo_registry og) B' (map_of (ts @ ts'))"
      "\<forall>i. r1 = Inr i \<longrightarrow> i = se_hash env x \<and> odb_content (oo_registry og) B' (map_of (ts @ ts')) i = Some x"
    unfolding C by blast
  have "map_ok env sha C es" using odb_atE(8) [OF at] C by simp
  from odb_view_mono [OF this B'(2)] M
  have "odb_state env U sha od' d' (odb_content (oo_registry og) B' (map_of (ts @ ts'))) M B' es (ts @ ts') og"
    using B'(1) by (simp add: odb_state_def del: map_of_append)
  moreover have "\<forall>i. r = Inr i \<longrightarrow> i = se_hash env x \<and> odb_content (oo_registry og) B' (map_of (ts @ ts')) i = Some x"
    using B'(3) put(2) by (auto simp: map_err_eq_Inr simp del: map_of_append)
  ultimately show ?thesis using B'(2) by blast
qed

lemma odb_lineage_at:
  assumes ok: "odb_env_ok env U og" and st: "odb_state env U sha od d C M B es ts og"
    and run: "odb_lineage_delta env old new od d = (r, od', d')"
  shows "odb_later env U sha od' d' C M es ts og"
proof -
  have at: "odb_at env U sha od d B es ts og" using st by (simp add: odb_state_def)
  obtain od1 where od1: "odb_acquire env od d = (Inr (), od1, d)" "odb_at env U sha od1 d B es ts og"
    using odb_acquire_at [OF at] by blast
  show ?thesis
  proof (cases "by_git (rl_state (od_map od1)) old = None \<or> by_git (rl_state (od_map od1)) new = None")
    case True
    then have "od' = od1" "d' = d" using run od1(1) by (auto simp: odb_lineage_delta_def split: option.splits)
    then show ?thesis using later_same [OF st od1(2)] by simp
  next
    case False
    then obtain a b where e: "by_git (rl_state (od_map od1)) old = Some a" "by_git (rl_state (od_map od1)) new = Some b" by auto
    obtain r1 bs bd where lin: "blob_lineage_delta env (me_alt a) (me_alt b) (od_blobs od1) (dd_blobs d) = (r1, bs, bd)" by (rule prod_cases3)
    from from_step [OF ok odb_atE(2) [OF od1(2)] blob_step_lineage [OF lin]] obtain B' where
      B': "blob_from env U bs bd B' og" "B \<subseteq>\<^sub>m B'" by blast
    have "od' = od1\<lparr>od_blobs := bs\<rparr>" "d' = d\<lparr>dd_blobs := bd\<rparr>" using run od1(1) e lin by (simp_all add: odb_lineage_delta_def)
    then show ?thesis using later_blobs [OF st od1(2) B'] by simp
  qed
qed

lemma odb_compact_at:
  assumes ok: "odb_env_ok env U og" and st: "odb_state env U sha od d C M B es ts og"
    and small: "odb_acquire env od d = (r1, od1, d1)" "compacts_small (bs_chunks (od_blobs od1)) (bd_chunks (dd_blobs d1))"
    and run: "odb_compact env od d = (r, od', d')"
  shows "odb_later env U sha od' d' C M es ts og"
proof -
  have at: "odb_at env U sha od d B es ts og" using st by (simp add: odb_state_def)
  have od1: "r1 = Inr ()" "d1 = d" "odb_at env U sha od1 d B es ts og" using odb_acquire_at [OF at] small(1) by auto
  obtain r2 bs bd where com: "blob_compact env (od_blobs od1) (dd_blobs d) = (r2, bs, bd)" by (rule prod_cases3)
  from small(2) od1(2) have "compacts_small (bs_chunks (od_blobs od1)) (bd_chunks (dd_blobs d))" by simp
  from from_step [OF ok odb_atE(2) [OF od1(3)] blob_step_compact [OF this com]] obtain B' where
    B': "blob_from env U bs bd B' og" "B \<subseteq>\<^sub>m B'" by blast
  have "od' = od1\<lparr>od_blobs := bs\<rparr>" "d' = d\<lparr>dd_blobs := bd\<rparr>" using run small(1) od1(1,2) com by (simp_all add: odb_compact_def)
  then show ?thesis using later_blobs [OF st od1(3) B'] by simp
qed

lemma odb_fsync_at: "odb_at env U sha od d B es ts og \<Longrightarrow> odb_at env U sha od (odb_fsync od d) B es ts og"
  using from_fsync by (auto simp: odb_at_def odb_fsync_def log_bytes_in_def)

lemma odb_flush_at:
  assumes at: "odb_at env U sha od d B es ts og" and run: "odb_flush relaxed (\<lambda>d. d) od d = (od', d')"
  shows "odb_at env U sha od' d' B es ts og"
proof -
  have rel: "odb_at env U sha (odb_release od) d B es ts og" using odb_at_flags(1) [OF at] by (simp add: odb_release_def)
  have durable: "odb_at env U sha od1 (odb_sync_to (\<lambda>d. d) t od1 d) B es ts og" if "odb_at env U sha od1 d B es ts og" for od1 t
    using that odb_at_flags(3) [OF odb_fsync_at [OF that]]
    by (auto simp: odb_sync_to_def odb_write_durable_def Let_def split: prod.split)
  from run rel durable [OF rel] odb_at_flags(2) [OF rel] show ?thesis
    by (auto simp: odb_flush_def Let_def split: prod.splits if_splits)
qed

lemma odb_state_at: "odb_state env U sha od d C M B es ts og \<Longrightarrow> odb_at env U sha od d B es ts og"
  by (simp add: odb_state_def)

lemma state_opts: "odb_state env U sha od d C M B es ts og \<Longrightarrow> bs_opts (od_blobs od) = oo_opts og \<and> od_registry od = oo_registry og"
  by (auto simp: odb_state_def odb_at_def blob_from_def)

lemma state_entries: "odb_state env U sha od d C M B es ts og \<Longrightarrow> odb_entries od = es"
  by (simp add: odb_state_def odb_at_def map_ok_def log_knows_def om_log_state odb_entries_def) (simp add: om_state_def)

lemma odb_step_at:
  assumes ok: "odb_env_ok env U og" and st: "odb_state env U sha od d C M B es ts og" and step: "odb_step env U sha (od, d) (od', d')"
  shows "odb_later env U sha od' d' C M es ts og"
proof -
  note at = odb_state_at [OF st]
  note opts = state_opts [OF st]
  from step show ?thesis
  proof (rule odb_step_cases)
    fix x oid kind r a b
    assume w: "(od', d') = (a, b)" "odb_fits env U (bs_opts (od_blobs od)) (od_registry od) x" "wf_oid oid"
      "length (odb_entries od) < 4294967295" "odb_put env sha oid kind x od d = Some (r, a, b)"
    have "odb_fits env U (oo_opts og) (oo_registry og) x" "length es + 1 < 2 ^ 32" using w(2,4) opts state_entries [OF st] by simp_all
    from odb_put_at [OF ok st this(1) w(3) this(2) w(5)] obtain C' M' B' es' ts' where
      "odb_state env U sha a b C' M' B' (es @ es') (ts @ ts') og" "C \<subseteq>\<^sub>m C'"
      "case r of Inl _ \<Rightarrow> M' = M | Inr i \<Rightarrow> M' = put_object sha oid kind x M \<and> C' i = map_option snd (M' oid)" by blast
    moreover from this(3) have "M \<subseteq>\<^sub>m M'" using put_object_keeps by (auto split: sum.splits)
    ultimately show ?thesis using w(1) odb_laterI by blast
  next
    fix x r a b
    assume w: "(od', d') = (a, b)" "odb_fits env U (bs_opts (od_blobs od)) (od_registry od) x" "odb_put_content env x od d = Some (r, a, b)"
    from odb_put_content_at [OF ok st _ w(3)] w(2) opts obtain C' B' ts' where
      "odb_state env U sha a b C' M B' es (ts @ ts') og" "C \<subseteq>\<^sub>m C'" by auto
    then show ?thesis using w(1) odb_laterI [of env U sha a b C' M B' es "[]" ts ts' og C M] by simp
  next
    fix oid r a
    assume "(od', d') = (a, d)" "odb_get env d oid od = (r, a)"
    then show ?thesis using odb_get_at [OF at, of oid] later_same [OF st] by auto
  next
    fix i r a
    assume "(od', d') = (a, d)" "odb_get_content env d i od = (r, a)"
    then show ?thesis using odb_get_content_at [OF at, of i] later_same [OF st] by auto
  next
    fix old new r a b
    assume "(od', d') = (a, b)" "odb_lineage_delta env old new od d = (r, a, b)"
    then show ?thesis using odb_lineage_at [OF ok st] by blast
  next
    fix r1 od1 d1 r a b
    assume "(od', d') = (a, b)" "odb_acquire env od d = (r1, od1, d1)" "compacts_small (bs_chunks (od_blobs od1)) (bd_chunks (dd_blobs d1))"
      "odb_compact env od d = (r, a, b)"
    then show ?thesis using odb_compact_at [OF ok st] by blast
  next
    fix r a b
    assume "(od', d') = (a, b)" "odb_refresh env od d = (r, a, b)"
    then show ?thesis using odb_acquire_at [OF at] later_same [OF st] odb_at_flags(1) [of env U sha _ d B es ts og False]
      by (auto simp: odb_refresh_def odb_release_def)
  next
    fix r a b
    assume "(od', d') = (a, b)" "odb_checkpoint_op env od d = (r, a, b)"
    then show ?thesis using odb_acquire_at [OF at] later_same [OF st] odb_at_flags(1) [of env U sha _ d B es ts og False]
      by (auto simp: odb_checkpoint_op_def odb_release_def)
  next
    fix relaxed a b
    assume "(od', d') = (a, b)" "odb_flush relaxed (\<lambda>d. d) od d = (a, b)"
    then show ?thesis using odb_flush_at [OF at] later_same [OF st] by auto
  qed
qed

lemma odb_run_at:
  assumes run: "odb_run env U sha w w'" and ok: "odb_env_ok env U og"
  shows "odb_state env U sha (fst w) (snd w) C M B es ts og \<Longrightarrow> odb_later env U sha (fst w') (snd w') C M es ts og"
  using run
proof (induction rule: odb_run.induct)
  case (odb_run_none w)
  show ?case by (rule later_same [OF odb_run_none odb_state_at [OF odb_run_none]])
next
  case (odb_run_more w w' w'')
  then obtain C1 M1 B1 es1 ts1 where one: "odb_state env U sha (fst w') (snd w') C1 M1 B1 (es @ es1) (ts @ ts1) og"
    "C \<subseteq>\<^sub>m C1" "M \<subseteq>\<^sub>m M1" unfolding odb_later_def by blast
  have "odb_step env U sha (fst w', snd w') (fst w'', snd w'')" using odb_run_more.hyps by simp
  from odb_step_at [OF ok one(1) this] obtain C2 M2 B2 es2 ts2 where
    two: "odb_state env U sha (fst w'') (snd w'') C2 M2 B2 (es @ (es1 @ es2)) (ts @ (ts1 @ ts2)) og" "C1 \<subseteq>\<^sub>m C2" "M1 \<subseteq>\<^sub>m M2"
    by (auto simp: odb_later_def)
  show ?case by (rule odb_laterI [OF two(1) map_le_trans [OF one(2) two(2)] map_le_trans [OF one(3) two(3)]])
qed

section \<open>Opening after a crash\<close>

text \<open>What a crash may leave: torn records at the ends of the files.\<close>

definition odb_torn :: "store_env \<Rightarrow> odb \<Rightarrow> odb_disk \<Rightarrow> odb_disk \<Rightarrow> bool" where
  "odb_torn env od d d' \<longleftrightarrow> blob_torn env (od_blobs od) (dd_blobs d) (dd_blobs d') \<and>
     (\<exists>u f f'. log_torn (omf env) u \<and> dd_map d = Some f \<and> dd_map d' = Some f' \<and> df_bytes f' = df_bytes f @ u) \<and>
     (\<exists>u f f'. log_torn (t1f env) u \<and> dd_tier1 d = Some f \<and> dd_tier1 d' = Some f' \<and> df_bytes f' = df_bytes f @ u)"

lemma odb_open_torn:
  assumes st: "odb_state env U sha od d C M B es ts og" and torn: "odb_torn env od d d'"
    and opts: "2 \<le> bo_fanout opts" "co_seal_threshold (bo_chunks opts) \<le> 2 ^ 63"
  shows "\<exists>od'' d'' og'. odb_open env (od_registry od) opts d' = Some (Inr od'', d'') \<and> odb_state env U sha od'' d'' C M B es ts og'"
proof -
  note at = odb_state_at [OF st]
  obtain m bes where blob: "blob_at env U (od_blobs od) (dd_blobs d) m bes (oo_ghost og) (oo_disk og)" "B = blob_view m bes"
    using odb_atE(2) [OF at] by (auto simp: blob_from_def)
  have "blob_torn env (od_blobs od) (dd_blobs d) (dd_blobs d')" using torn by (simp add: odb_torn_def)
  from blob_open_torn [OF blob(1) this opts] obtain bs bd g1 d1 where
    bs: "blob_open env opts (dd_blobs d') = Some (Inr bs, bd)" "blob_at env U bs bd m bes g1 d1" "bs_opts bs = opts" by blast
  let ?og = "\<lparr>oo_ghost = g1, oo_disk = d1, oo_entries = bes, oo_opts = opts, oo_registry = oo_registry og\<rparr>"
  have from_: "blob_from env U bs bd B ?og" using fromI [of bs ?og env U bd m "[]"] bs(2,3) blob(2) by simp
  obtain u f' where u: "log_torn (omf env) u" "dd_map d' = Some f'" "df_bytes f' = log_bytes (omf env) es @ u"
    using torn odb_atE(3) [OF at] by (auto simp: odb_torn_def log_bytes_in_def)
  have "\<forall>e \<in> set es. map_entry_ok (se_hash env) e" using odb_atE(8) [OF at] by (simp add: map_ok_def)
  from om.open_torn [OF this u(1,3)] obtain om mf where
    om: "object_map_open (se_hash env) (dd_map d') = (Inr om, Some mf)" "log_knows (omf env) om es" "df_bytes mf = log_bytes (omf env) es"
    by (auto simp: object_map_open_def u(2))
  obtain v g' where v: "log_torn (t1f env) v" "dd_tier1 d' = Some g'" "df_bytes g' = log_bytes (t1f env) ts @ v"
    using torn odb_atE(5) [OF at] by (auto simp: odb_torn_def log_bytes_in_def)
  have "\<forall>e \<in> set ts. tier1_entry_ok (se_hash env) e" using odb_atE(7) [OF at] by (simp add: tier1_ok_def)
  from t1.open_torn [OF this v(1,3)] obtain t1 tf where
    t1: "tier1_open (se_hash env) (dd_tier1 d') = (Inr t1, Some tf)" "log_knows (t1f env) t1 ts" "df_bytes tf = log_bytes (t1f env) ts"
    by (auto simp: tier1_open_def v(2))
  let ?od = "\<lparr>od_blobs = bs, od_map = om, od_tier1 = t1, od_registry = od_registry od, od_held = False, od_defer = False, od_write_count = 0\<rparr>"
  let ?d = "d'\<lparr>dd_blobs := bd, dd_map := Some mf, dd_tier1 := Some tf\<rparr>"
  have "odb_open env (od_registry od) opts d' = Some (Inr ?od, ?d)" using bs(1) om(1) t1(1) by (simp add: odb_open_def)
  moreover have "odb_state env U sha ?od ?d C M B es ts ?og"
    using st from_ om(2,3) t1(2,3) by (simp add: odb_state_def odb_at_def log_bytes_in_def)
  ultimately show ?thesis by blast
qed

section \<open>What the database promises\<close>

definition odb_ready :: "store_env \<Rightarrow> bytes set \<Rightarrow> odb \<Rightarrow> bool" where
  "odb_ready env U od \<longleftrightarrow> blob_env_ok env U (bs_opts (od_blobs od)) \<and> distinct (map pr_id (od_registry od))"

definition odb_holds ::
  "store_env \<Rightarrow> bytes set \<Rightarrow> (hash_algo \<Rightarrow> bytes \<Rightarrow> bytes) \<Rightarrow> odb \<Rightarrow> odb_disk \<Rightarrow> content \<Rightarrow> objects \<Rightarrow> bool" where
  "odb_holds env U sha od d C M \<longleftrightarrow> (\<exists>B es ts og. odb_state env U sha od d C M B es ts og)"

lemma ready_env: "odb_ready env U od \<Longrightarrow> odb_state env U sha od d C M B es ts og \<Longrightarrow> odb_env_ok env U og"
  using state_opts by (simp add: odb_ready_def odb_env_ok_def)

lemma odb_reads:
  assumes "odb_holds env U sha od d C M"
  shows "fst (odb_get env d oid od) = Inr (M oid)" and "fst (odb_get_content env d i od) = Inr (C i)"
    and "M oid = Some (k, x) \<Longrightarrow> hash_object sha (oid_algo oid) k x = oid" and "C i = Some y \<Longrightarrow> se_hash env y = i"
proof -
  obtain B es ts og where st: "odb_state env U sha od d C M B es ts og" using assms by (auto simp: odb_holds_def)
  note at = odb_state_at [OF st]
  have C: "C = odb_content (oo_registry og) B (map_of ts)" and M: "M = odb_view C es" using st by (simp_all add: odb_state_def)
  show "fst (odb_get env d oid od) = Inr (M oid)" using odb_get_at [OF at, of oid] C M by auto
  show "fst (odb_get_content env d i od) = Inr (C i)" using odb_get_content_at [OF at, of i] C by auto
  show "M oid = Some (k, x) \<Longrightarrow> hash_object sha (oid_algo oid) k x = oid"
    using odb_view_hash [OF odb_atE(8) [OF at]] C M by simp
  show "C i = Some y \<Longrightarrow> se_hash env y = i" using content_in [OF at] C by simp
qed

lemma odb_put_holds:
  assumes "odb_ready env U od" and "odb_holds env U sha od d C M"
    and "odb_fits env U (bs_opts (od_blobs od)) (od_registry od) x" and "wf_oid oid" and "length (odb_entries od) + 1 < 2 ^ 32"
    and "odb_put env sha oid kind x od d = Some (r, od', d')"
  shows "\<exists>C' M'. odb_holds env U sha od' d' C' M' \<and> C \<subseteq>\<^sub>m C' \<and>
    (case r of Inl _ \<Rightarrow> M' = M | Inr i \<Rightarrow> M' = put_object sha oid kind x M \<and> C' i = map_option snd (M' oid)) \<and>
    (M oid = None \<and> hash_object sha (oid_algo oid) kind x \<noteq> oid \<longrightarrow>
       r = Inl (HashMismatch oid (hash_object sha (oid_algo oid) kind x)))"
proof -
  obtain B es ts og where st: "odb_state env U sha od d C M B es ts og" using assms(2) by (auto simp: odb_holds_def)
  have "odb_fits env U (oo_opts og) (oo_registry og) x" "length es + 1 < 2 ^ 32"
    using assms(3,5) state_opts [OF st] state_entries [OF st] by simp_all
  from odb_put_at [OF ready_env [OF assms(1) st] st this(1) assms(4) this(2) assms(6)]
  show ?thesis unfolding odb_holds_def by blast
qed

lemma odb_run_holds:
  assumes "odb_ready env U od" and "odb_holds env U sha od d C M" and "odb_run env U sha (od, d) (od', d')"
  shows "\<exists>C' M'. odb_holds env U sha od' d' C' M' \<and> C \<subseteq>\<^sub>m C' \<and> M \<subseteq>\<^sub>m M' \<and> odb_ready env U od' \<and>
    bs_opts (od_blobs od') = bs_opts (od_blobs od) \<and> od_registry od' = od_registry od"
proof -
  obtain B es ts og where st: "odb_state env U sha od d C M B es ts og" using assms(2) by (auto simp: odb_holds_def)
  have "odb_later env U sha od' d' C M es ts og"
    using odb_run_at [OF assms(3) ready_env [OF assms(1) st], of C M B es ts] st by simp
  then obtain C' M' B' es' ts' where later: "odb_state env U sha od' d' C' M' B' (es @ es') (ts @ ts') og" "C \<subseteq>\<^sub>m C'" "M \<subseteq>\<^sub>m M'"
    unfolding odb_later_def by blast
  then have "odb_holds env U sha od' d' C' M'" unfolding odb_holds_def by blast
  moreover have "bs_opts (od_blobs od') = bs_opts (od_blobs od)" "od_registry od' = od_registry od"
    using state_opts [OF st] state_opts [OF later(1)] by simp_all
  ultimately show ?thesis using later(2,3) assms(1) by (auto simp: odb_ready_def)
qed

text \<open>C1. 
  The object database refines a map from git ids to objects.  Through any run of puts, reads, delta
  re-encodings, compactions, refreshes, checkpoints and flushes nothing is lost; every object and every
  content is read back exactly, whether it is stored verbatim or decomposed by a prism; every object
  hashes to the id it is under; a put adds exactly the one object, or changes no object if it is known or
  refused, and it refuses a wrong id; and a crash in the middle of the appends leaves a database that
  opens with the same objects.  (\<open>U\<close> is a set of contents on which the content hash has no collision.)
\<close>

theorem odb_refines:
  assumes "odb_ready env U od" and "odb_holds env U sha od d C M" and "odb_run env U sha (od, d) (od', d')"
  shows "\<exists>C' M'. odb_holds env U sha od' d' C' M' \<and> C \<subseteq>\<^sub>m C' \<and> M \<subseteq>\<^sub>m M' \<and>
    (\<forall>oid. fst (odb_get env d' oid od') = Inr (M' oid)) \<and> (\<forall>i. fst (odb_get_content env d' i od') = Inr (C' i)) \<and>
    (\<forall>oid k x. M' oid = Some (k, x) \<longrightarrow> hash_object sha (oid_algo oid) k x = oid) \<and> (\<forall>i x. C' i = Some x \<longrightarrow> se_hash env x = i) \<and>
    (\<forall>oid k x r od'' d''. odb_fits env U (bs_opts (od_blobs od)) (od_registry od) x \<and> wf_oid oid \<and>
       length (odb_entries od') + 1 < 2 ^ 32 \<and> odb_put env sha oid k x od' d' = Some (r, od'', d'') \<longrightarrow>
       (\<exists>C'' M''. odb_holds env U sha od'' d'' C'' M'' \<and> C' \<subseteq>\<^sub>m C'' \<and>
          (case r of Inl _ \<Rightarrow> M'' = M' | Inr i \<Rightarrow> M'' = put_object sha oid k x M' \<and> C'' i = map_option snd (M'' oid)) \<and>
          (M' oid = None \<and> hash_object sha (oid_algo oid) k x \<noteq> oid \<longrightarrow>
             r = Inl (HashMismatch oid (hash_object sha (oid_algo oid) k x))))) \<and>
    (\<forall>d2 opts. odb_torn env od' d' d2 \<and> 2 \<le> bo_fanout opts \<and> co_seal_threshold (bo_chunks opts) \<le> 2 ^ 63 \<longrightarrow>
       (\<exists>od'' d''. odb_open env (od_registry od) opts d2 = Some (Inr od'', d'') \<and> odb_holds env U sha od'' d'' C' M'))"
proof -
  obtain C' M' where H: "odb_holds env U sha od' d' C' M'" "C \<subseteq>\<^sub>m C'" "M \<subseteq>\<^sub>m M'" "odb_ready env U od'"
    "bs_opts (od_blobs od') = bs_opts (od_blobs od)" "od_registry od' = od_registry od" using odb_run_holds [OF assms] by blast
  obtain B es ts og where st: "odb_state env U sha od' d' C' M' B es ts og" using H(1) by (auto simp: odb_holds_def)
  have put: "\<forall>oid k x r od'' d''. odb_fits env U (bs_opts (od_blobs od)) (od_registry od) x \<and> wf_oid oid \<and>
       length (odb_entries od') + 1 < 2 ^ 32 \<and> odb_put env sha oid k x od' d' = Some (r, od'', d'') \<longrightarrow>
       (\<exists>C'' M''. odb_holds env U sha od'' d'' C'' M'' \<and> C' \<subseteq>\<^sub>m C'' \<and>
          (case r of Inl _ \<Rightarrow> M'' = M' | Inr i \<Rightarrow> M'' = put_object sha oid k x M' \<and> C'' i = map_option snd (M'' oid)) \<and>
          (M' oid = None \<and> hash_object sha (oid_algo oid) k x \<noteq> oid \<longrightarrow>
             r = Inl (HashMismatch oid (hash_object sha (oid_algo oid) k x))))"
    by (intro allI impI, rule odb_put_holds [OF H(4,1)]) (use H(5,6) in auto)
  have opens: "\<forall>d2 opts. odb_torn env od' d' d2 \<and> 2 \<le> bo_fanout opts \<and> co_seal_threshold (bo_chunks opts) \<le> 2 ^ 63 \<longrightarrow>
       (\<exists>od'' d''. odb_open env (od_registry od) opts d2 = Some (Inr od'', d'') \<and> odb_holds env U sha od'' d'' C' M')"
    using odb_open_torn [OF st] H(6) unfolding odb_holds_def by metis
  have ids: "\<forall>oid k x. M' oid = Some (k, x) \<longrightarrow> hash_object sha (oid_algo oid) k x = oid" "\<forall>i x. C' i = Some x \<longrightarrow> se_hash env x = i"
    using odb_reads(3,4) [OF H(1)] by blast+
  show ?thesis
    by (rule exI [of _ C'], rule exI [of _ M'], intro conjI)
      (fact H(1) H(2) H(3) ids put opens | intro allI, fact odb_reads(1,2) [OF H(1)])+
qed

end
