(* ===== verification/Odb_Rewind.thy ===== *)
theory Odb_Rewind
  imports Odb_Refine
begin

text \<open>
  Rewinding the object database after a rejected push, and what it does when the push stored a stream
  decomposed or another push relied on the same objects.
\<close>

section \<open>Rewinding\<close>

lemma blob_rewind_opts: "blob_rewind env kp bs d = (r, bs', d') \<Longrightarrow> bs_opts bs' = bs_opts bs"
  by (auto simp: blob_rewind_def Let_def split: prod.splits sum.splits)

text \<open>The state a checkpoint is taken in, as the beginning of a run.\<close>

lemma from_restart:
  assumes "blob_from env U bs0 d0 B0 og"
  obtains og0 where "blob_from env U bs0 d0 B0 og0" "oo_registry og0 = oo_registry og" "oo_opts og0 = oo_opts og"
    "\<And>bs d B. blob_from env U bs d B og0 \<Longrightarrow> ap_seq (cs_active (bs_chunks bs)) = ap_seq (cs_active (bs_chunks bs0)) \<Longrightarrow>
       \<exists>bs' d' og1. blob_rewind env (blob_checkpoint bs0) bs d = (Inr (), bs', d') \<and> blob_from env U bs' d' B0 og1 \<and>
         oo_registry og1 = oo_registry og \<and> cd_packs (bd_chunks d') = cd_packs (bd_chunks d0)"
proof -
  obtain m bes where at: "blob_at env U bs0 d0 m bes (oo_ghost og) (oo_disk og)" "B0 = blob_view m bes" "bs_opts bs0 = oo_opts og"
    using assms by (auto simp: blob_from_def)
  obtain g where g: "chunk_inv env (bs_chunks bs0) (bd_chunks d0) m g" "blob_at env U bs0 d0 m bes g (bd_chunks d0)"
    using blob_at_restart [OF at(1)] by blast
  let ?og = "\<lparr>oo_ghost = g, oo_disk = bd_chunks d0, oo_entries = bes, oo_opts = oo_opts og, oo_registry = oo_registry og\<rparr>"
  show ?thesis
  proof (rule that [of ?og])
    show "blob_from env U bs0 d0 B0 ?og" using fromI [of bs0 ?og env U d0 m "[]"] g(2) at(2,3) by simp
  next
    fix bs d B
    assume "blob_from env U bs d B ?og" and same: "ap_seq (cs_active (bs_chunks bs)) = ap_seq (cs_active (bs_chunks bs0))"
    then obtain m' es where later: "blob_at env U bs d m' (bes @ es) g (bd_chunks d0)" "bs_opts bs = oo_opts og" by (auto simp: blob_from_def)
    from blob_rewind_at [OF g(2,1) later(1) same] obtain bs' d' g1 d1 where
      rw: "blob_rewind env (blob_checkpoint bs0) bs d = (Inr (), bs', d')" "blob_at env U bs' d' m bes g1 d1"
        "cd_packs (bd_chunks d') = cd_packs (bd_chunks d0)" by blast
    let ?og1 = "\<lparr>oo_ghost = g1, oo_disk = d1, oo_entries = bes, oo_opts = oo_opts og, oo_registry = oo_registry og\<rparr>"
    have "blob_from env U bs' d' B0 ?og1"
      using fromI [of bs' ?og1 env U d' m "[]"] rw(2) blob_rewind_opts [OF rw(1)] later(2) at(2) by simp
    then show "\<exists>bs' d' og1. blob_rewind env (blob_checkpoint bs0) bs d = (Inr (), bs', d') \<and> blob_from env U bs' d' B0 og1 \<and>
         oo_registry og1 = oo_registry og \<and> cd_packs (bd_chunks d') = cd_packs (bd_chunks d0)"
      using rw(1,3) by (intro exI [of _ bs'] exI [of _ d'] exI [of _ ?og1]) simp
  qed simp_all
qed

lemma state_restart:
  assumes "odb_state env U sha od0 d0 C0 M0 B0 es0 ts0 og"
  obtains og0 where "odb_state env U sha od0 d0 C0 M0 B0 es0 ts0 og0" "oo_registry og0 = oo_registry og" "oo_opts og0 = oo_opts og"
    "\<And>bs d B. blob_from env U bs d B og0 \<Longrightarrow> ap_seq (cs_active (bs_chunks bs)) = ap_seq (cs_active (bs_chunks (od_blobs od0))) \<Longrightarrow>
       \<exists>bs' d' og1. blob_rewind env (blob_checkpoint (od_blobs od0)) bs d = (Inr (), bs', d') \<and> blob_from env U bs' d' B0 og1 \<and>
         oo_registry og1 = oo_registry og \<and> cd_packs (bd_chunks d') = cd_packs (bd_chunks (dd_blobs d0))"
proof -
  note at = odb_state_at [OF assms]
  obtain og0 where og0: "blob_from env U (od_blobs od0) (dd_blobs d0) B0 og0" "oo_registry og0 = oo_registry og" "oo_opts og0 = oo_opts og"
    "\<And>bs d B. blob_from env U bs d B og0 \<Longrightarrow> ap_seq (cs_active (bs_chunks bs)) = ap_seq (cs_active (bs_chunks (od_blobs od0))) \<Longrightarrow>
       \<exists>bs' d' og1. blob_rewind env (blob_checkpoint (od_blobs od0)) bs d = (Inr (), bs', d') \<and> blob_from env U bs' d' B0 og1 \<and>
         oo_registry og1 = oo_registry og \<and> cd_packs (bd_chunks d') = cd_packs (bd_chunks (dd_blobs d0))"
    using from_restart [OF odb_atE(2) [OF at]] by metis
  have "odb_state env U sha od0 d0 C0 M0 B0 es0 ts0 og0" using assms og0(1,2) by (simp add: odb_state_def odb_at_def)
  from that [OF this og0(2,3,4)] show ?thesis .
qed

text \<open>A later state, seen from a checkpoint.\<close>

lemma rewind_setup:
  assumes "odb_ready env U od0" and "odb_holds env U sha od0 d0 C0 M0" and "odb_run env U sha (od0, d0) (od, d)"
    and "ap_seq (cs_active (bs_chunks (od_blobs od))) = ap_seq (cs_active (bs_chunks (od_blobs od0)))"
  obtains B0 es0 ts0 og0 C M B es ts bs bd og1 where
    "odb_state env U sha od0 d0 C0 M0 B0 es0 ts0 og0" "odb_state env U sha od d C M B (es0 @ es) (ts0 @ ts) og0"
    "blob_rewind env (blob_checkpoint (od_blobs od0)) (od_blobs od) (dd_blobs d) = (Inr (), bs, bd)" "blob_from env U bs bd B0 og1"
    "oo_registry og1 = oo_registry og0" "cd_packs (bd_chunks bd) = cd_packs (bd_chunks (dd_blobs d0))"
proof -
  obtain B0 es0 ts0 og where st0: "odb_state env U sha od0 d0 C0 M0 B0 es0 ts0 og" using assms(2) by (auto simp: odb_holds_def)
  obtain og0 where og0: "odb_state env U sha od0 d0 C0 M0 B0 es0 ts0 og0" "oo_registry og0 = oo_registry og"
    "\<And>bs d B. blob_from env U bs d B og0 \<Longrightarrow> ap_seq (cs_active (bs_chunks bs)) = ap_seq (cs_active (bs_chunks (od_blobs od0))) \<Longrightarrow>
       \<exists>bs' d' og1. blob_rewind env (blob_checkpoint (od_blobs od0)) bs d = (Inr (), bs', d') \<and> blob_from env U bs' d' B0 og1 \<and>
         oo_registry og1 = oo_registry og \<and> cd_packs (bd_chunks d') = cd_packs (bd_chunks (dd_blobs d0))"
    using state_restart [OF st0] by metis
  have "odb_later env U sha od d C0 M0 es0 ts0 og0"
    using odb_run_at [OF assms(3) ready_env [OF assms(1) og0(1)], of C0 M0 B0 es0 ts0] og0(1) by simp
  then obtain C M B es ts where later: "odb_state env U sha od d C M B (es0 @ es) (ts0 @ ts) og0" unfolding odb_later_def by blast
  from og0(3) [OF odb_atE(2) [OF odb_state_at [OF later]] assms(4)] obtain bs bd og1 where
    "blob_rewind env (blob_checkpoint (od_blobs od0)) (od_blobs od) (dd_blobs d) = (Inr (), bs, bd)" "blob_from env U bs bd B0 og1"
    "oo_registry og1 = oo_registry og" "cd_packs (bd_chunks bd) = cd_packs (bd_chunks (dd_blobs d0))" by blast
  from that [OF og0(1) later this(1,2) _ this(4)] this(3) og0(2) show ?thesis by simp
qed

lemma tier1_length:
  assumes "odb_state env U sha od d C M B es ts og"
  shows "rl_len (od_tier1 od) = 5 + 72 * length ts"
proof -
  have "\<forall>e \<in> set ts. tier1_entry_ok (se_hash env) e" using odb_atE(7) [OF odb_state_at [OF assms]] by (simp add: tier1_ok_def)
  from t1.log_bytes_length [OF this] odb_atE(6) [OF odb_state_at [OF assms]]
  show ?thesis by (simp add: log_knows_def LOG_HEADER_LEN_def lf_rec_len_def) (simp add: tier1_format_def)
qed

lemma rewind_state_at:
  assumes st0: "odb_state env U sha od0 d0 C0 M0 B0 es0 ts0 og0" and st: "odb_state env U sha od d C M B (es0 @ es) ts0 og0"
    and rw: "blob_rewind env (blob_checkpoint (od_blobs od0)) (od_blobs od) (dd_blobs d) = (Inr (), bs, bd)"
    and blobs: "blob_from env U bs bd B0 og1" "oo_registry og1 = oo_registry og0"
  shows "\<exists>od' d'. odb_rewind env (odb_cursor od0) od d = (Inr (), od', d') \<and> odb_state env U sha od' d' C0 M0 B0 es0 ts0 og1 \<and>
    dd_blobs d' = bd \<and> odb_read_durable d' = (ap_len (cs_active (bs_chunks bs)) mod 2 ^ 64, rl_len (bs_map bs) mod 2 ^ 64, rl_len (od_map od0) mod 2 ^ 64)"
proof -
  note at0 = odb_state_at [OF st0] and at = odb_state_at [OF st]
  have t0: "rl_len (od_tier1 od0) = rl_len (od_tier1 od)" using tier1_length [OF st0] tier1_length [OF st] by simp
  have tok: "\<forall>e \<in> set ts0. tier1_entry_ok (se_hash env) e" using odb_atE(7) [OF at] by (simp add: tier1_ok_def)
  have tb: "df_bytes (the_file (dd_tier1 d)) = log_bytes (t1f env) ts0" using odb_atE(5) [OF at] by (auto simp: log_bytes_in_def the_file_def)
  from tier1_rewind_same [OF odb_atE(6) [OF at] tok tb] obtain t1 tf where
    t1: "tier1_rewind (se_hash env) (rl_len (od_tier1 od)) (od_tier1 od) (the_file (dd_tier1 d)) = (Inr (), t1, tf)"
      "log_knows (t1f env) t1 ts0" "df_bytes tf = log_bytes (t1f env) ts0" by blast
  have mb: "df_bytes (the_file (dd_map d)) = log_bytes (omf env) (es0 @ es)" using odb_atE(3) [OF at] by (auto simp: log_bytes_in_def the_file_def)
  have mok: "distinct (map me_git (es0 @ es))" "\<forall>e \<in> set (es0 @ es). map_entry_ok (se_hash env) e" "length (es0 @ es) < 2 ^ 32"
    using odb_atE(8) [OF at] by (auto simp: map_ok_def)
  from object_map_rewind_known [OF odb_atE(4) [OF at] mb mok] obtain om mf where
    om: "object_map_rewind (se_hash env) (length (log_bytes (omf env) es0)) (od_map od) (the_file (dd_map d)) = (Inr (), om, mf)"
      "log_knows (omf env) om es0" "df_bytes mf = log_bytes (omf env) es0" by blast
  have m0: "rl_len (od_map od0) = length (log_bytes (omf env) es0)" using odb_atE(4) [OF at0] by (simp add: log_knows_def)
  let ?od = "od\<lparr>od_blobs := bs, od_tier1 := t1, od_map := om\<rparr>"
  let ?d = "odb_write_durable (ap_len (cs_active (bs_chunks bs)), rl_len (bs_map bs), rl_len om)
    (d\<lparr>dd_blobs := bd, dd_tier1 := Some tf, dd_map := Some mf\<rparr>)"
  have "odb_rewind env (odb_cursor od0) od d = (Inr (), ?od, ?d)"
    using rw t1(1) om(1) by (simp add: odb_rewind_def odb_cursor_def t0 m0 blob_appended_lens_def)
  moreover have "odb_state env U sha ?od ?d C0 M0 B0 es0 ts0 og1"
    using st0 at blobs t1(2,3) om(2,3) by (simp add: odb_state_def odb_at_def log_bytes_in_def odb_write_durable_def)
  moreover have "rl_len om = rl_len (od_map od0)" using om(2) m0 by (simp add: log_knows_def)
  ultimately show ?thesis by (auto simp: odb_read_durable_def odb_write_durable_def codec_simps unat_of_nat)
qed


text \<open>C9. 
  A rewind after a rejected push can lose another push.  If the second push sent an object that the first
  one had already stored, its put only finds it: it succeeds and leaves the cursor where it was.  The
  check that no other writer came between, which compares the cursors, then passes, and the rewind takes
  the object away from the push that was accepted.
\<close>

theorem rewind_loses_deduplicated:
  assumes "odb_ready env U od0" and "odb_holds env U sha od0 d0 C0 M0" and "odb_run env U sha (od0, d0) (od, d)"
    and "ap_seq (cs_active (bs_chunks (od_blobs od))) = ap_seq (cs_active (bs_chunks (od_blobs od0)))"
    and "rl_len (od_tier1 od) = rl_len (od_tier1 od0)"
    and "odb_holds env U sha od d C M" and "M oid \<noteq> None" and "M0 oid = None"
  shows "\<exists>i od1 od2 od' d'. odb_put env sha oid kind x od d = Some (Inr i, od1, d) \<and>
    odb_checkpoint_op env od1 d = (Inr (odb_cursor od), od2, d) \<and>
    odb_rewind env (odb_cursor od0) od2 d = (Inr (), od', d') \<and> fst (odb_get env d' oid od') = Inr None"
proof -
  obtain B0 es0 ts0 og0 C1 M1 B es ts bs bd og1 where
    st: "odb_state env U sha od0 d0 C0 M0 B0 es0 ts0 og0" "odb_state env U sha od d C1 M1 B (es0 @ es) (ts0 @ ts) og0"
      "blob_rewind env (blob_checkpoint (od_blobs od0)) (od_blobs od) (dd_blobs d) = (Inr (), bs, bd)" "blob_from env U bs bd B0 og1"
      "oo_registry og1 = oo_registry og0" "cd_packs (bd_chunks bd) = cd_packs (bd_chunks (dd_blobs d0))"
    using rewind_setup [OF assms(1-4)] .
  note at = odb_state_at [OF st(2)]
  let ?od = "od\<lparr>od_held := True\<rparr>" and ?od2 = "od\<lparr>od_held := False\<rparr>"
  have "ts = []" using tier1_length [OF st(1)] tier1_length [OF st(2)] assms(5) by simp
  then have st2: "odb_state env U sha ?od2 d C1 M1 B (es0 @ es) ts0 og0"
    using st(2) odb_at_flags(1) [OF at, of False] by (simp add: odb_state_def)
  have same: "fst (odb_get env d oid od) = Inr (M oid)" "fst (odb_get env d oid od) = Inr (M1 oid)"
    using odb_reads(1) [OF assms(6)] odb_reads(1) [of env U sha od d C1 M1] st(2) unfolding odb_holds_def by blast+
  then have "M1 oid \<noteq> None" using assms(7) by simp
  moreover have "M1 oid = None \<longleftrightarrow> map_entry_of (es0 @ es) oid = None" using view_none [OF at, of oid] st(2) by (simp add: odb_state_def)
  ultimately have "map_entry_of (es0 @ es) oid \<noteq> None" by simp
  then obtain e where e: "by_git (rl_state (od_map od)) oid = Some e" using map_known [OF at, of oid] by auto
  have put: "odb_put env sha oid kind x od d = Some (Inr (me_alt e), ?od, d)"
    using odb_acquire_same [OF at] e by (simp add: odb_put_def)
  have "odb_acquire env ?od d = (Inr (), ?od, d)" by (simp add: odb_acquire_def)
  then have check: "odb_checkpoint_op env ?od d = (Inr (odb_cursor od), ?od2, d)"
    by (simp add: odb_checkpoint_op_def odb_release_def odb_cursor_def)
  have "blob_rewind env (blob_checkpoint (od_blobs od0)) (od_blobs ?od2) (dd_blobs d) = (Inr (), bs, bd)" using st(3) by simp
  from rewind_state_at [OF st(1) st2 this st(4,5)] obtain od' d' where
    rw: "odb_rewind env (odb_cursor od0) ?od2 d = (Inr (), od', d')" "odb_state env U sha od' d' C0 M0 B0 es0 ts0 og1" by blast
  then have "odb_holds env U sha od' d' C0 M0" unfolding odb_holds_def by blast
  from odb_reads(1) [OF this] assms(8) have "fst (odb_get env d' oid od') = Inr None" by simp
  with put check rw(1) show ?thesis by blast
qed

text \<open>C10. 
  A rewind over a stream that was stored decomposed fails half way: the blobs are rewound, but reading
  the dropped Tier 1 records back fails, as their file is open for writing only, and the object map keeps
  the objects of the push.  It lists objects whose content is gone, and reading them fails.
\<close>

theorem rewind_stops_at_tier1:
  assumes "odb_ready env U od0" and "odb_holds env U sha od0 d0 C0 M0" and "odb_run env U sha (od0, d0) (od, d)"
    and "ap_seq (cs_active (bs_chunks (od_blobs od))) = ap_seq (cs_active (bs_chunks (od_blobs od0)))"
    and "rl_len (od_tier1 od) \<noteq> rl_len (od_tier1 od0)"
  shows "\<exists>e od' d'. odb_rewind env (odb_cursor od0) od d = (Inl e, od', d') \<and>
    dd_map d' = dd_map d \<and> odb_entries od' = odb_entries od \<and>
    cd_packs (bd_chunks (dd_blobs d')) = cd_packs (bd_chunks (dd_blobs d0)) \<and>
    (\<forall>oid entry r. odb_lookup od oid = Some entry \<and> tier1_get (od_tier1 od) (me_alt entry) = Some r \<and>
       \<not> blob_contains (od_blobs od0) r \<longrightarrow> fst (odb_get env d' oid od') = Inl (OdbStore (BlobNotFound r))) \<and>
    (\<forall>oid entry. odb_lookup od oid = Some entry \<and> tier1_get (od_tier1 od) (me_alt entry) = None \<and>
       \<not> blob_contains (od_blobs od0) (me_alt entry) \<longrightarrow> fst (odb_get env d' oid od') = Inl (OdbStore (BlobNotFound (me_alt entry))))"
proof -
  obtain B0 es0 ts0 og0 C M B es ts bs bd og1 where
    st: "odb_state env U sha od0 d0 C0 M0 B0 es0 ts0 og0" "odb_state env U sha od d C M B (es0 @ es) (ts0 @ ts) og0"
      "blob_rewind env (blob_checkpoint (od_blobs od0)) (od_blobs od) (dd_blobs d) = (Inr (), bs, bd)" "blob_from env U bs bd B0 og1"
      "oo_registry og1 = oo_registry og0" "cd_packs (bd_chunks bd) = cd_packs (bd_chunks (dd_blobs d0))"
    using rewind_setup [OF assms(1-4)] .
  note at0 = odb_state_at [OF st(1)] and at = odb_state_at [OF st(2)]
  have ts: "ts \<noteq> []" using tier1_length [OF st(1)] tier1_length [OF st(2)] assms(5) by auto
  have tok: "\<forall>e \<in> set (ts0 @ ts). tier1_entry_ok (se_hash env) e" using odb_atE(7) [OF at] by (simp add: tier1_ok_def)
  obtain f where f: "dd_tier1 d = Some f" using odb_atE(5) [OF at] by (auto simp: log_bytes_in_def)
  have t0: "rl_len (od_tier1 od0) = length (log_bytes (t1f env) ts0)" using odb_atE(6) [OF at0] by (simp add: log_knows_def)
  from tier1_rewind_fails [OF odb_atE(6) [OF at] tok ts] obtain e t1 where
    t1: "tier1_rewind (se_hash env) (rl_len (od_tier1 od0)) (od_tier1 od) f = (Inl e, t1, f)" "rl_state t1 = rl_state (od_tier1 od)"
    by (metis t0)
  let ?od = "od\<lparr>od_blobs := bs, od_tier1 := t1\<rparr>" and ?d = "d\<lparr>dd_blobs := bd, dd_tier1 := Some f\<rparr>"
  have rw: "odb_rewind env (odb_cursor od0) od d = (Inl (OdbStore e), ?od, ?d)"
    using st(3) t1(1) f by (simp add: odb_rewind_def odb_cursor_def the_file_def)
  have gone: "\<exists>bs'. blob_get env bd i bs = (Inl (BlobNotFound i), bs')" if "\<not> blob_contains (od_blobs od0) i" for i
    using from_contains [OF odb_atE(2) [OF at0], of i] that from_read(1) [OF st(4), of i] by auto
  have "fst (odb_get env ?d oid ?od) = Inl (OdbStore (BlobNotFound r))"
    if "odb_lookup od oid = Some entry" "tier1_get (od_tier1 od) (me_alt entry) = Some r" "\<not> blob_contains (od_blobs od0) r" for oid entry r
    using that gone [OF that(3)] t1(2) by (auto simp: odb_get_def odb_lookup_def fetch_blob_def tier1_get_def)
  moreover have "fst (odb_get env ?d oid ?od) = Inl (OdbStore (BlobNotFound (me_alt entry)))"
    if "odb_lookup od oid = Some entry" "tier1_get (od_tier1 od) (me_alt entry) = None" "\<not> blob_contains (od_blobs od0) (me_alt entry)" for oid entry
    using that gone [OF that(3)] t1(2) by (auto simp: odb_get_def odb_lookup_def fetch_blob_def tier1_get_def)
  ultimately show ?thesis using rw st(6)
    by (intro exI [of _ "OdbStore e"] exI [of _ ?od] exI [of _ ?d]) (simp add: odb_entries_def)
qed

section \<open>A second process\<close>

lemma acquire_keeps_tier1: "od_tier1 (fst (snd (odb_acquire env od d))) = od_tier1 od" "dd_tier1 (snd (snd (odb_acquire env od d))) = dd_tier1 d"
  by (auto simp: odb_acquire_def Let_def split: prod.split sum.split)

lemma blob_put_id: "blob_put env x bs d = Some (Inr i, bs', d') \<Longrightarrow> i = se_hash env x"
  by (auto simp: blob_put_def Let_def split: option.splits if_splits sum.splits prod.splits)

text \<open>C11. 
  Taking the write lock brings the blobs and the object map up to date, but not the Tier 1 map.  A
  process that has not seen the records another one appended writes its next record over them.
\<close>

theorem stale_tier1_overwrites:
  assumes "env_ok env" and "log_knows (t1f env) (od_tier1 od) ts" and "log_bytes_in (t1f env) (dd_tier1 d) (ts @ [a])"
    and "\<forall>e \<in> set (ts @ [a]). tier1_entry_ok (se_hash env) e"
    and "odb_acquire env od d = (Inr (), od1, d1)" and "put_blob env data od1 d1 = Some (Inr i, od2, d2)"
    and "decompose_verified (od_registry od1) data \<noteq> None"
    and "tier1_get (od_tier1 od) (se_hash env data) = None" and "\<not> blob_contains (od_blobs od1) (se_hash env data)"
  shows "\<exists>rec. log_bytes_in (t1f env) (dd_tier1 d2) (ts @ [(se_hash env data, rec)])"
proof -
  obtain prism dc where dv: "decompose_verified (od_registry od1) data = Some (prism, dc)" using assms(7) by auto
  have t1: "od_tier1 od1 = od_tier1 od" "dd_tier1 d1 = dd_tier1 d" using acquire_keeps_tier1 [of env od d] assms(5) by simp_all
  then have new: "\<not> tier1_contains (od_tier1 od1) (se_hash env data)" using assms(8) by (simp add: tier1_get_def tier1_contains_def)
  obtain part_ids bs bd where one: "put_parts env (dc_parts dc) (od_blobs od1) (dd_blobs d1) = Some (Inr part_ids, bs, bd)"
    using assms(6,9) new dv by (auto simp: put_blob_def Let_def split: option.splits sum.splits)
  obtain rec bs' bd' where two: "blob_put env (encode_record prism (dc_recipe dc) part_ids) bs bd = Some (Inr rec, bs', bd')"
    using assms(6,9) new dv one by (auto simp: put_blob_def Let_def split: option.splits sum.splits)
  obtain t1' tf where app: "tier1_append (se_hash env) (se_hash env data) rec (od_tier1 od1) (the_file (dd_tier1 d1)) = (t1', tf)"
    by (rule prod.exhaust)
  have d2: "dd_tier1 d2 = Some tf" using assms(6,9) new dv one two app by (auto simp: put_blob_def Let_def)
  let ?b = "(se_hash env data, rec)"
  have b: "tier1_entry_ok (se_hash env) ?b" "tier1_entry_ok (se_hash env) a"
    using assms(1,4) blob_put_id [OF two] by (auto simp: tier1_entry_ok_def lf_checksum_def tier1_format_def env_ok_def)
  have "df_bytes (the_file (dd_tier1 d)) = log_bytes (t1f env) ts @ lf_record (t1f env) a"
    using assms(3) by (auto simp: log_bytes_in_def the_file_def log_bytes_append)
  moreover have "length (lf_record (t1f env) a) = length (lf_record (t1f env) ?b)" using t1.record_length b by metis
  ultimately have "df_bytes tf = log_bytes (t1f env) (ts @ [?b])" using assms(2) app t1
    by (auto simp: tier1_append_def rec_append_def log_knows_def log_bytes_append)
  then show ?thesis using d2 by (auto simp: log_bytes_in_def)
qed

end
