(* ===== verification/Odb_Sample.thy ===== *)
theory Odb_Sample
  imports Odb_Rewind
begin

text \<open>A small database on which the theorems are applied: one object, stored verbatim or by a prism.\<close>

section \<open>The parts\<close>

definition sample_prism :: prism where
  "sample_prism = \<lparr>pr_id = 7, pr_decompose = (\<lambda>x. if x = [1, 2, 3] then Some \<lparr>dc_recipe = [], dc_parts = []\<rparr> else None),
     pr_recompose = (\<lambda>recipe parts. Some [1, 2, 3])\<rparr>"

definition sample_sha :: "hash_algo \<Rightarrow> bytes \<Rightarrow> bytes" where
  "sample_sha a x = replicate (raw_len a) 9"

definition sample_id :: object_id where
  "sample_id = OidSha1 (replicate 20 9)"

definition sample_rec :: bytes where
  "sample_rec = [7, 0, 0, 0, 0, 0, 0, 0, 0, 0]"

abbreviation sample_U :: "bytes set" where
  "sample_U \<equiv> {[1, 2, 3], sample_rec}"

definition sample_written :: "registry \<Rightarrow> bytes" where
  "sample_written reg = (if reg = [] then [1, 2, 3] else sample_rec)"

lemma sample_record: "encode_record 7 [] [] = sample_rec"
  by code_simp

lemma sample_pieces: "cdc_chunks sample_rec DEFAULT_PARAMS = Some [sample_rec]"
  using default_valid by (simp add: cdc_chunks.simps next_cut_def sample_rec_def) (simp add: DEFAULT_PARAMS_def)

lemma written_pieces: "cdc_chunks (sample_written reg) DEFAULT_PARAMS = Some [sample_written reg]"
  using chunks_small sample_pieces by (simp add: sample_written_def)

lemma sample_env: "blob_env_ok sample_store sample_U blob_opts_default"
proof -
  have "inj_on (se_hash sample_store) sample_U" by (simp add: inj_on_def sample_rec_def sample_store_def)
  then show ?thesis by (simp add: blob_env_ok_def sample_store_ok blob_opts_default_def)
qed

lemma sample_fits_blob: "blob_fits sample_store sample_U blob_opts_default (sample_written reg)"
  using written_pieces [of reg]
  by (simp add: blob_fits_def blob_writes_def blob_opts_default_def) (simp add: sample_written_def sample_rec_def)

lemma sample_oid: "wf_oid sample_id" "hash_object sample_sha (oid_algo sample_id) k x = sample_id"
  by (simp_all add: sample_id_def wf_oid_def hash_object_def sample_sha_def)

lemma sample_chunk_put:
  assumes "cs_opts st = chunk_opts_default" and "cs_index st = []"
    and "cs_active st = \<lparr>ap_seq = 1, ap_len = ALTP_HEADER_LEN, ap_entries = []\<rparr>"
  shows "\<exists>st' d'. chunk_put sample_store (sample_written reg) st d = (Inr (se_hash sample_store (sample_written reg)), st', d') \<and>
    ap_seq (cs_active st') = 1"
  using assms
  by (cases "reg = []")
    (simp_all add: sample_written_def sample_rec_def chunk_put_def append_record_def Let_def chunk_opts_default_def ALTP_HEADER_LEN_def REC_HEADER_LEN_def)

section \<open>An empty database\<close>

definition sample_fresh :: "registry \<Rightarrow> odb \<Rightarrow> odb_disk \<Rightarrow> odb_origin \<Rightarrow> bool" where
  "sample_fresh reg od d og \<longleftrightarrow>
     odb_state sample_store sample_U sample_sha od d Map.empty Map.empty Map.empty [] [] og \<and>
     od_registry od = reg \<and> bs_opts (od_blobs od) = blob_opts_default \<and> \<not> od_held od \<and>
     cs_index (bs_chunks (od_blobs od)) = [] \<and> cs_opts (bs_chunks (od_blobs od)) = chunk_opts_default \<and>
     cs_active (bs_chunks (od_blobs od)) = \<lparr>ap_seq = 1, ap_len = ALTP_HEADER_LEN, ap_entries = []\<rparr>"

definition empty_odb_disk :: odb_disk where
  "empty_odb_disk = \<lparr>dd_blobs = empty_blob_disk, dd_map = None, dd_tier1 = None, dd_marker = None\<rparr>"

lemma sample_open:
  "\<exists>od d og. odb_open sample_store reg blob_opts_default empty_odb_disk = Some (Inr od, d) \<and> sample_fresh reg od d og"
proof -
  obtain bs bd where bs: "blob_open sample_store blob_opts_default empty_blob_disk = Some (Inr bs, bd)"
    "blob_holds sample_store sample_U bs bd Map.empty" "bs_opts bs = blob_opts_default" "cs_index (bs_chunks bs) = []"
    "cs_opts (bs_chunks bs) = chunk_opts_default" "cs_active (bs_chunks bs) = \<lparr>ap_seq = 1, ap_len = ALTP_HEADER_LEN, ap_entries = []\<rparr>"
    using sample_blob_empty by blast
  obtain m es g0 d0 where at: "blob_at sample_store sample_U bs bd m es g0 d0" "Map.empty = blob_view m es"
    using bs(2) unfolding blob_holds_def by blast
  let ?og = "\<lparr>oo_ghost = g0, oo_disk = d0, oo_entries = es, oo_opts = blob_opts_default, oo_registry = reg\<rparr>"
  have from_: "blob_from sample_store sample_U bs bd Map.empty ?og"
    using fromI [of bs ?og sample_store sample_U bd m "[]"] at bs(3) by simp
  obtain om mf where om: "object_map_open (se_hash sample_store) None = (Inr om, Some mf)"
    "log_knows (omf sample_store) om []" "df_bytes mf = log_bytes (omf sample_store) []"
    using om.open_new [of "se_hash sample_store"] by (auto simp: object_map_open_def log_knows_def)
  obtain t1 tf where t1: "tier1_open (se_hash sample_store) None = (Inr t1, Some tf)"
    "log_knows (t1f sample_store) t1 []" "df_bytes tf = log_bytes (t1f sample_store) []"
    using t1.open_new [of "se_hash sample_store"] by (auto simp: tier1_open_def log_knows_def)
  let ?od = "\<lparr>od_blobs = bs, od_map = om, od_tier1 = t1, od_registry = reg, od_held = False, od_defer = False, od_write_count = 0\<rparr>"
  let ?d = "empty_odb_disk\<lparr>dd_blobs := bd, dd_map := Some mf, dd_tier1 := Some tf\<rparr>"
  have "odb_open sample_store reg blob_opts_default empty_odb_disk = Some (Inr ?od, ?d)"
    using bs(1) om(1) t1(1) by (simp add: odb_open_def empty_odb_disk_def)
  moreover have "odb_state sample_store sample_U sample_sha ?od ?d Map.empty Map.empty Map.empty [] [] ?og"
    using from_ om(2,3) t1(2,3)
    by (simp add: odb_state_def odb_at_def log_bytes_in_def tier1_ok_def map_ok_def odb_content_def odb_view_def map_entry_of_def fun_eq_iff)
  ultimately show ?thesis using bs(3-6) by (auto simp: sample_fresh_def)
qed

section \<open>One object\<close>

definition sample_registry :: "registry \<Rightarrow> bool" where
  "sample_registry reg \<longleftrightarrow> reg = [] \<or> reg = [sample_prism]"

lemma sample_decompose:
  "decompose_verified [sample_prism] [1, 2, 3] = Some (7, \<lparr>dc_recipe = [], dc_parts = []\<rparr>)"
  by (simp add: sample_prism_def)

lemma sample_fits:
  assumes "sample_registry reg"
  shows "odb_fits sample_store sample_U blob_opts_default reg [1, 2, 3]"
  using assms sample_fits_blob [of "[]"] sample_fits_blob [of "[sample_prism]"]
  by (auto simp: sample_registry_def odb_fits_def sample_decompose sample_record sample_written_def
    simp del: decompose_verified.simps(2))

lemma sample_ready:
  assumes "sample_registry reg" and "sample_fresh reg od d og"
  shows "odb_ready sample_store sample_U od"
  using assms sample_env by (auto simp: odb_ready_def sample_fresh_def sample_registry_def)

lemma sample_blob:
  assumes "sample_fresh reg od d og"
  shows "\<exists>bs bd. blob_put sample_store (sample_written reg') (od_blobs od) (dd_blobs d) =
      Some (Inr (se_hash sample_store (sample_written reg')), bs, bd) \<and> ap_seq (cs_active (bs_chunks bs)) = 1"
proof -
  have st: "cs_opts (bs_chunks (od_blobs od)) = chunk_opts_default" "cs_index (bs_chunks (od_blobs od)) = []"
    "cs_active (bs_chunks (od_blobs od)) = \<lparr>ap_seq = 1, ap_len = ALTP_HEADER_LEN, ap_entries = []\<rparr>" "bs_opts (od_blobs od) = blob_opts_default"
    and at: "odb_at sample_store sample_U sample_sha od d Map.empty [] [] og"
    using assms odb_state_at by (auto simp: sample_fresh_def)
  obtain cs cd where put: "chunk_put sample_store (sample_written reg') (bs_chunks (od_blobs od)) (bd_chunks (dd_blobs d)) =
      (Inr (se_hash sample_store (sample_written reg')), cs, cd)" "ap_seq (cs_active cs) = 1" using sample_chunk_put [OF st(1-3)] by blast
  have "\<not> blob_contains (od_blobs od) i" for i using from_contains [OF odb_atE(2) [OF at], of i] by simp
  then show ?thesis using put written_pieces [of reg'] st(4) by (simp add: blob_put_def blob_opts_default_def)
qed

lemma sample_put_blob:
  assumes reg: "sample_registry reg" and fresh: "sample_fresh reg od d og"
  shows "\<exists>od' d'. put_blob sample_store [1, 2, 3] (od\<lparr>od_held := True\<rparr>) d = Some (Inr (se_hash sample_store [1, 2, 3]), od', d') \<and>
    ap_seq (cs_active (bs_chunks (od_blobs od'))) = 1 \<and>
    tier1_get (od_tier1 od') (se_hash sample_store [1, 2, 3]) = (if reg = [] then None else Some (se_hash sample_store sample_rec)) \<and>
    rl_len (od_tier1 od') = (if reg = [] then rl_len (od_tier1 od) else rl_len (od_tier1 od) + 72)"
proof -
  have at: "odb_at sample_store sample_U sample_sha od d Map.empty [] [] og" and r: "od_registry od = reg"
    using fresh odb_state_at by (auto simp: sample_fresh_def)
  have none: "\<not> tier1_contains (od_tier1 od) (se_hash sample_store [1, 2, 3])" "\<not> blob_contains (od_blobs od) (se_hash sample_store [1, 2, 3])"
    using content_known [OF at, of "se_hash sample_store [1, 2, 3]"] by simp_all
  have t1: "rl_state (od_tier1 od) = Map.empty" using tier1_known [OF at] by simp
  show ?thesis
  proof (cases "reg = []")
    case True
    obtain bs bd where "blob_put sample_store [1, 2, 3] (od_blobs od) (dd_blobs d) = Some (Inr (se_hash sample_store [1, 2, 3]), bs, bd)"
      "ap_seq (cs_active (bs_chunks bs)) = 1" using sample_blob [OF fresh, of "[]"] by (auto simp: sample_written_def)
    then show ?thesis using none True r t1 by (simp add: put_blob_def tier1_contains_def tier1_get_def)
  next
    case False
    then have p: "od_registry od = [sample_prism]" using reg r by (auto simp: sample_registry_def)
    obtain bs bd where "blob_put sample_store sample_rec (od_blobs od) (dd_blobs d) = Some (Inr (se_hash sample_store sample_rec), bs, bd)"
      "ap_seq (cs_active (bs_chunks bs)) = 1" using sample_blob [OF fresh, of "[sample_prism]"] by (auto simp: sample_written_def)
    then show ?thesis using none False p
      by (simp add: put_blob_def tier1_contains_def tier1_get_def sample_decompose sample_record tier1_append_def rec_append_def Let_def
          del: decompose_verified.simps(2))
        (simp add: lf_rec_len_def tier1_format_def)
  qed
qed

text \<open>A database before and after one push, its state seen from outside.\<close>

definition sample_odb_push :: "registry \<Rightarrow> odb \<Rightarrow> odb_disk \<Rightarrow> odb \<Rightarrow> odb_disk \<Rightarrow> content \<Rightarrow> bool" where
  "sample_odb_push reg od d od' d' C \<longleftrightarrow>
     odb_ready sample_store sample_U od \<and> odb_ready sample_store sample_U od' \<and> od_registry od' = reg \<and>
     odb_holds sample_store sample_U sample_sha od d Map.empty Map.empty \<and>
     odb_run sample_store sample_U sample_sha (od, d) (od', d') \<and>
     odb_holds sample_store sample_U sample_sha od' d' C [sample_id \<mapsto> (Blob, [1, 2, 3])] \<and>
     ap_seq (cs_active (bs_chunks (od_blobs od'))) = ap_seq (cs_active (bs_chunks (od_blobs od))) \<and>
     (rl_len (od_tier1 od') = rl_len (od_tier1 od) \<longleftrightarrow> reg = []) \<and> (\<forall>i. \<not> blob_contains (od_blobs od) i) \<and>
     (\<exists>entry. odb_lookup od' sample_id = Some entry \<and>
        tier1_get (od_tier1 od') (me_alt entry) = (if reg = [] then None else Some (se_hash sample_store sample_rec)))"

lemma sample_odb:
  assumes reg: "sample_registry reg"
  shows "\<exists>od d od' d' C. sample_odb_push reg od d od' d' C"
proof -
  obtain od d og where fresh: "sample_fresh reg od d og" using sample_open by blast
  have st: "odb_state sample_store sample_U sample_sha od d Map.empty Map.empty Map.empty [] [] og" and opts: "bs_opts (od_blobs od) = blob_opts_default"
    "od_registry od = reg" "ap_seq (cs_active (bs_chunks (od_blobs od))) = 1" using fresh by (simp_all add: sample_fresh_def)
  note at = odb_state_at [OF st]
  have ready: "odb_ready sample_store sample_U od" by (rule sample_ready [OF reg fresh])
  have holds: "odb_holds sample_store sample_U sample_sha od d Map.empty Map.empty" using st unfolding odb_holds_def by blast
  obtain od1 d1 where pb: "put_blob sample_store [1, 2, 3] (od\<lparr>od_held := True\<rparr>) d = Some (Inr (se_hash sample_store [1, 2, 3]), od1, d1)"
    "ap_seq (cs_active (bs_chunks (od_blobs od1))) = 1"
    "tier1_get (od_tier1 od1) (se_hash sample_store [1, 2, 3]) = (if reg = [] then None else Some (se_hash sample_store sample_rec))"
    "rl_len (od_tier1 od1) = (if reg = [] then rl_len (od_tier1 od) else rl_len (od_tier1 od) + 72)"
    using sample_put_blob [OF reg fresh] by blast
  let ?e = "\<lparr>me_git = sample_id, me_alt = se_hash sample_store [1, 2, 3], me_kind = Blob, me_size = of_nat (length [1, 2, 3 :: u8])\<rparr>"
  obtain log mf where app: "object_map_append (se_hash sample_store) ?e (od_map od1) (the_file (dd_map d1)) = (log, mf)" by (rule prod.exhaust)
  let ?od = "od1\<lparr>od_map := log\<rparr>" and ?d = "d1\<lparr>dd_map := Some mf\<rparr>"
  have "by_git (rl_state (od_map od)) sample_id = None" using map_known [OF at] by (simp add: map_entry_of_def)
  then have put: "odb_put sample_store sample_sha sample_id Blob [1, 2, 3] od d = Some (Inr (se_hash sample_store [1, 2, 3]), ?od, ?d)"
    using odb_acquire_same [OF at] pb(1) app by (simp add: odb_put_def sample_oid)
  have small: "length (odb_entries od) + 1 < 2 ^ 32" using state_entries [OF st] by simp
  have fits: "odb_fits sample_store sample_U (bs_opts (od_blobs od)) (od_registry od) [1, 2, 3]" using sample_fits [OF reg] opts by simp
  from odb_put_holds [OF ready holds fits sample_oid(1) small put] obtain C M where
    after: "odb_holds sample_store sample_U sample_sha ?od ?d C M" "M = put_object sample_sha sample_id Blob [1, 2, 3] Map.empty" by auto
  have run: "odb_run sample_store sample_U sample_sha (od, d) (?od, ?d)"
    using odb_run_more [OF odb_run_none odb_step_put [OF fits sample_oid(1) small put]] .
  have "odb_ready sample_store sample_U ?od" "od_registry ?od = reg" using odb_run_holds [OF ready holds run] opts(2) by auto
  moreover have "M = [sample_id \<mapsto> (Blob, [1, 2, 3])]" using after(2) by (simp add: put_object_def)
  moreover have none: "\<forall>i. \<not> blob_contains (od_blobs od) i" using from_contains [OF odb_atE(2) [OF at]] by simp
  moreover obtain entry where entry: "odb_lookup ?od sample_id = Some entry" "me_alt entry = se_hash sample_store [1, 2, 3]"
  proof -
    obtain B es ts og' where st': "odb_state sample_store sample_U sample_sha ?od ?d C M B es ts og'" using after(1) unfolding odb_holds_def by blast
    have "M sample_id = Some (Blob, [1, 2, 3])" using after(2) by (simp add: put_object_def)
    then have "\<exists>e. map_entry_of es sample_id = Some e \<and> C (me_alt e) = Some [1, 2, 3]"
      using st' by (auto simp: odb_state_def odb_view_def split: option.splits)
    then obtain e where e: "map_entry_of es sample_id = Some e" "C (me_alt e) = Some [1, 2, 3]" by blast
    have "se_hash sample_store [1, 2, 3] = me_alt e" using odb_reads(4) [OF after(1) e(2)] .
    then show ?thesis using that [of e] map_known [OF odb_state_at [OF st'], of sample_id] e(1) by (simp add: odb_lookup_def)
  qed
  ultimately show ?thesis using ready holds run after(1) pb(2-4) opts(3)
    by (intro exI [of _ od] exI [of _ d] exI [of _ ?od] exI [of _ ?d] exI [of _ C]) (auto simp: sample_odb_push_def)
qed

section \<open>The theorems on it\<close>

lemma sample_odb_push_with:
  obtains od d od' d' C where "sample_odb_push [sample_prism] od d od' d' C"
  using sample_odb [of "[sample_prism]"] by (auto simp: sample_registry_def)

lemma sample_odb_push_without:
  obtains od d od' d' C where "sample_odb_push [] od d od' d' C"
  using sample_odb [of "[]"] by (auto simp: sample_registry_def)

theorem odb_refines_witness:
  "\<exists>od d. od_registry od = [sample_prism] \<and> fst (odb_get sample_store d sample_id od) = Inr (Some (Blob, [1, 2, 3]))"
proof -
  obtain od d od' d' C where "sample_odb_push [sample_prism] od d od' d' C" by (rule sample_odb_push_with)
  then have s: "odb_ready sample_store sample_U od'" "odb_holds sample_store sample_U sample_sha od' d' C [sample_id \<mapsto> (Blob, [1, 2, 3])]"
    "od_registry od' = [sample_prism]" by (simp_all add: sample_odb_push_def)
  from odb_refines [OF s(1,2) odb_run_none] obtain M where
    "[sample_id \<mapsto> (Blob, [1, 2, 3])] \<subseteq>\<^sub>m M" "\<forall>oid. fst (odb_get sample_store d' oid od') = Inr (M oid)" by blast
  then have "fst (odb_get sample_store d' sample_id od') = Inr (Some (Blob, [1, 2, 3]))" by (auto simp: map_le_def)
  then show ?thesis using s(3) by blast
qed


theorem rewind_loses_deduplicated_witness:
  "\<exists>od0 od d i od1 od2 od' d'. odb_put sample_store sample_sha sample_id Blob [1, 2, 3] od d = Some (Inr i, od1, d) \<and>
     odb_checkpoint_op sample_store od1 d = (Inr (odb_cursor od), od2, d) \<and>
     odb_rewind sample_store (odb_cursor od0) od2 d = (Inr (), od', d') \<and> fst (odb_get sample_store d' sample_id od') = Inr None"
proof -
  obtain od0 d0 od d C where "sample_odb_push [] od0 d0 od d C" by (rule sample_odb_push_without)
  then have s: "odb_ready sample_store sample_U od0" "odb_holds sample_store sample_U sample_sha od0 d0 Map.empty Map.empty"
    "odb_run sample_store sample_U sample_sha (od0, d0) (od, d)"
    "ap_seq (cs_active (bs_chunks (od_blobs od))) = ap_seq (cs_active (bs_chunks (od_blobs od0)))" "rl_len (od_tier1 od) = rl_len (od_tier1 od0)"
    "odb_holds sample_store sample_U sample_sha od d C [sample_id \<mapsto> (Blob, [1, 2, 3])]" by (simp_all add: sample_odb_push_def)
  from rewind_loses_deduplicated [OF s, of sample_id Blob "[1, 2, 3]"] show ?thesis by simp blast
qed

theorem rewind_stops_at_tier1_witness:
  "\<exists>od0 od d e od' d'. fst (odb_get sample_store d sample_id od) = Inr (Some (Blob, [1, 2, 3])) \<and>
     odb_rewind sample_store (odb_cursor od0) od d = (Inl e, od', d') \<and> odb_entries od' = odb_entries od \<and>
     fst (odb_get sample_store d' sample_id od') = Inl (OdbStore (BlobNotFound (se_hash sample_store sample_rec)))"
proof -
  obtain od0 d0 od d C where "sample_odb_push [sample_prism] od0 d0 od d C" by (rule sample_odb_push_with)
  then have s: "odb_ready sample_store sample_U od0" "odb_holds sample_store sample_U sample_sha od0 d0 Map.empty Map.empty"
    "odb_run sample_store sample_U sample_sha (od0, d0) (od, d)"
    "ap_seq (cs_active (bs_chunks (od_blobs od))) = ap_seq (cs_active (bs_chunks (od_blobs od0)))" "rl_len (od_tier1 od) \<noteq> rl_len (od_tier1 od0)"
    "odb_holds sample_store sample_U sample_sha od d C [sample_id \<mapsto> (Blob, [1, 2, 3])]"
    and none: "\<forall>i. \<not> blob_contains (od_blobs od0) i"
    and entry: "\<exists>entry. odb_lookup od sample_id = Some entry \<and> tier1_get (od_tier1 od) (me_alt entry) = Some (se_hash sample_store sample_rec)"
    by (simp_all add: sample_odb_push_def)
  from rewind_stops_at_tier1 [OF s(1-5)] obtain e od' d' where
    rw: "odb_rewind sample_store (odb_cursor od0) od d = (Inl e, od', d')" "odb_entries od' = odb_entries od"
      "\<forall>oid entry r. odb_lookup od oid = Some entry \<and> tier1_get (od_tier1 od) (me_alt entry) = Some r \<and>
         \<not> blob_contains (od_blobs od0) r \<longrightarrow> fst (odb_get sample_store d' oid od') = Inl (OdbStore (BlobNotFound r))" by blast
  have "fst (odb_get sample_store d' sample_id od') = Inl (OdbStore (BlobNotFound (se_hash sample_store sample_rec)))"
    using rw(3) none entry by blast
  moreover have "fst (odb_get sample_store d sample_id od) = Inr (Some (Blob, [1, 2, 3]))" using odb_reads(1) [OF s(6)] by simp
  ultimately show ?thesis using rw(1,2) by blast
qed

text \<open>Two processes open the same empty database; each stores a stream decomposed, the second one blind to the first.\<close>

theorem stale_tier1_overwrites_witness:
  "\<exists>od d i od2 d2 rec. log_bytes_in (t1f sample_store) (dd_tier1 d) [(replicate 32 8, replicate 32 8)] \<and>
     put_blob sample_store [1, 2, 3] od d = Some (Inr i, od2, d2) \<and>
     log_bytes_in (t1f sample_store) (dd_tier1 d2) [(se_hash sample_store [1, 2, 3], rec)]"
proof -
  have reg: "sample_registry [sample_prism]" by (simp add: sample_registry_def)
  obtain od d og where fresh: "sample_fresh [sample_prism] od d og" using sample_open by blast
  have at: "odb_at sample_store sample_U sample_sha od d Map.empty [] [] og" and r: "od_registry od = [sample_prism]"
    using fresh odb_state_at by (auto simp: sample_fresh_def)
  let ?a = "(replicate 32 8, replicate 32 8) :: blob_id \<times> blob_id"
  have a: "tier1_entry_ok (se_hash sample_store) ?a"
    by (simp add: tier1_entry_ok_def lf_checksum_def tier1_format_def sample_store_def)
  let ?f = "\<lparr>df_bytes = log_bytes (t1f sample_store) [?a], df_synced = 0\<rparr>"
  let ?d = "d\<lparr>dd_tier1 := Some ?f\<rparr>" and ?od = "od\<lparr>od_held := True\<rparr>"
  have acq: "odb_acquire sample_store ?od ?d = (Inr (), ?od, ?d)" by (simp add: odb_acquire_def)
  have none: "tier1_get (od_tier1 ?od) (se_hash sample_store [1, 2, 3]) = None" "\<not> blob_contains (od_blobs ?od) (se_hash sample_store [1, 2, 3])"
    using content_known [OF at, of "se_hash sample_store [1, 2, 3]"] by (simp_all add: tier1_get_def tier1_contains_def)
  obtain bs bd where blob: "blob_put sample_store sample_rec (od_blobs od) (dd_blobs d) = Some (Inr (se_hash sample_store sample_rec), bs, bd)"
    using sample_blob [OF fresh, of "[sample_prism]"] by (auto simp: sample_written_def)
  have put: "\<exists>od2 d2. put_blob sample_store [1, 2, 3] ?od ?d = Some (Inr (se_hash sample_store [1, 2, 3]), od2, d2)"
    using none blob r
    by (simp add: put_blob_def tier1_contains_def tier1_get_def sample_decompose sample_record tier1_append_def rec_append_def Let_def
          del: decompose_verified.simps(2))
  then obtain od2 d2 where put: "put_blob sample_store [1, 2, 3] ?od ?d = Some (Inr (se_hash sample_store [1, 2, 3]), od2, d2)" by blast
  have knows: "log_knows (t1f sample_store) (od_tier1 ?od) []" using odb_atE(6) [OF at] by simp
  have tail: "log_bytes_in (t1f sample_store) (dd_tier1 ?d) ([] @ [?a])" by (simp add: log_bytes_in_def)
  have "\<forall>e \<in> set ([] @ [?a]). tier1_entry_ok (se_hash sample_store) e" using a by simp
  from stale_tier1_overwrites [OF sample_store_ok knows tail this acq put _ none] r
  obtain rec where "log_bytes_in (t1f sample_store) (dd_tier1 d2) [(se_hash sample_store [1, 2, 3], rec)]"
    by (auto simp: sample_decompose simp del: decompose_verified.simps(2))
  moreover have "log_bytes_in (t1f sample_store) (dd_tier1 ?d) [(replicate 32 8, replicate 32 8)]" using tail by simp
  ultimately show ?thesis using put by blast
qed

end
