(* ===== verification/Spec2Isabelle.thy ===== *)
theory Spec2Isabelle
  imports Prelude Rust_Str Btree_Map Git_Object Git_Tree Git_Delta Git_Pack Git_Idx Delta_Cache Pack_Store Git_Index
    Wire_Pkt Wire_Lines Wire_LsRefs Wire_Caps Wire_Fetch Wire_Push Op_Log Ref_Tx Ref_Store
    Line_Diff Diff_Hunks Unified_Text Merge3 Policy_Glob Policy Flow Write_Gate
    Sign_Text Group_Commit Wire_Receive Wire_Auth Cdc Alt_Pack Chunk_Store Chunk_Inv Chunk_Ops Chunk_Disk
    Chunk_Bulk Rec_Log Blob_Store Blob_Tree Blob_Spec Odb_Maps Odb Odb_Log Odb_Typed Odb_Spec Odb_Refine Odb_Rewind Odb_Sample
begin

text \<open>
  A verification of the core of \<^verbatim>\<open>alt\<close>, a version control system in Rust that stores git objects in a
  content-addressed store of its own and speaks git's wire protocol.  Paths below are under
  \<^verbatim>\<open>src/crates\<close>.

  \<^bold>\<open>The program.\<close>  Bytes that come from a working tree, an imported repository or a push become git
  objects (\<^verbatim>\<open>alt-git-codec\<close>, \<^verbatim>\<open>alt-git-pack\<close>).  The object database (\<^verbatim>\<open>alt-odb\<close>) checks the
  claimed id, possibly decomposes the stream with a prism (\<^verbatim>\<open>alt-prism\<close>), and hands bytes to the blob
  store (\<^verbatim>\<open>alt-store\<close>), which cuts them (\<^verbatim>\<open>alt-cdc\<close>), deduplicates the chunks and appends them to packs.
  Refs are a fold over a hash-chained operation log (\<^verbatim>\<open>alt-oplog\<close>, \<^verbatim>\<open>alt-refs\<close>), written by
  compare-and-swap transactions that pass the gates of a capability policy (\<^verbatim>\<open>alt-cli\<close>).  The server
  authorizes requests, checks push signatures, ingests packs, commits the ref transaction and waits for
  a shared flush.  Diffs and merges (\<^verbatim>\<open>alt-diff\<close>, \<^verbatim>\<open>alt-merge\<close>) work on line lists.

  \<^bold>\<open>Common ground.\<close>
  \<^item> \<^verbatim>\<open>Prelude\<close>: words, results, little- and big-endian integers, the locales \<open>prefix_codec\<close> and
    \<open>canonical_codec\<close> that the binary formats instantiate, the lemma collections \<open>codec_simps\<close> and \<open>reads\<close>.
  \<^item> \<^verbatim>\<open>Rust_Str\<close>, \<^verbatim>\<open>Btree_Map\<close>: the parts of Rust's strings and ordered maps that the code uses.

  \<^bold>\<open>Storage, bottom up.\<close>
  \<^item> \<^verbatim>\<open>Cdc\<close> (\<^verbatim>\<open>alt-cdc/src/lib.rs\<close>): cut points; the chunks are a partition within the size bounds.
  \<^item> \<^verbatim>\<open>Alt_Pack\<close> (\<^verbatim>\<open>alt-store/src/pack.rs\<close>, \<^verbatim>\<open>idx.rs\<close>): record headers, the recovery scan, indexes.
  \<^item> \<^verbatim>\<open>Chunk_Store\<close> (\<^verbatim>\<open>alt-store/src/lib.rs\<close>, \<^verbatim>\<open>delta.rs\<close>): the state of a process (\<open>chunk_store\<close>), the
    directory (\<open>chunk_disk\<close>) and every operation.  \<^verbatim>\<open>Chunk_Inv\<close> has the abstract map, the invariant and
    a ghost of the records in the files; \<^verbatim>\<open>Chunk_Ops\<close> proves the operations, \<^verbatim>\<open>Chunk_Disk\<close> opening after
    a crash, rewinding, compaction and the refinement over runs, \<^verbatim>\<open>Chunk_Bulk\<close> the bulk walk.
  \<^item> \<^verbatim>\<open>Rec_Log\<close>: the files of checksummed fixed-length records, written once over a \<open>log_format\<close> with
    the locale \<open>rec_log_format\<close>.  The code spells the same operations out in \<^verbatim>\<open>alt-store/src/blobmap.rs\<close>,
    \<^verbatim>\<open>alt-odb/src/map.rs\<close> and \<^verbatim>\<open>alt-odb/src/tier1.rs\<close>; the interpretations \<open>bm\<close>, \<open>om\<close> and \<open>t1\<close> are these.
  \<^item> \<^verbatim>\<open>Blob_Store\<close>, \<^verbatim>\<open>Blob_Tree\<close>, \<^verbatim>\<open>Blob_Spec\<close> (\<^verbatim>\<open>alt-store/src/blob.rs\<close>, \<^verbatim>\<open>blobmap.rs\<close>): manifest trees, the
    operations, and the refinement of a map from hashes to byte streams, with crashes and rewinds.
  \<^item> \<^verbatim>\<open>Odb_Maps\<close>, \<^verbatim>\<open>Odb\<close> (\<^verbatim>\<open>alt-odb/src/map.rs\<close>, \<^verbatim>\<open>tier1.rs\<close>, \<^verbatim>\<open>lib.rs\<close>, \<^verbatim>\<open>alt-prism/src/lib.rs\<close>): the
    object map, the Tier 1 map, the prism registry and the database.  \<^verbatim>\<open>Odb_Log\<close> says what the maps hold
    after a list of records, \<^verbatim>\<open>Odb_Typed\<close> that no lookup leaves the entry list, \<^verbatim>\<open>Odb_Spec\<close> and
    \<^verbatim>\<open>Odb_Refine\<close> that the database refines a map from git ids to objects, \<^verbatim>\<open>Odb_Rewind\<close> what rewinding
    undoes and where it goes wrong, \<^verbatim>\<open>Odb_Sample\<close> a small database on which these theorems are applied.

  The three stores are refined in the same way, each on top of the one below: \<open>_at\<close> relates a state
  and its files to an abstract content, each operation preserves it and never loses content, a \<open>_step\<close>
  relation collects the operations of one process, and its runs are handled by rule induction.

  \<^bold>\<open>git formats.\<close>
  \<^item> \<^verbatim>\<open>Git_Object\<close>, \<^verbatim>\<open>Git_Tree\<close> (\<^verbatim>\<open>alt-git-codec\<close>): ids, headers, commits, tags, trees.
  \<^item> \<^verbatim>\<open>Git_Delta\<close>, \<^verbatim>\<open>Git_Pack\<close>, \<^verbatim>\<open>Git_Idx\<close>, \<^verbatim>\<open>Delta_Cache\<close>, \<^verbatim>\<open>Pack_Store\<close> (\<^verbatim>\<open>alt-git-pack\<close>): deltas, packs,
    indexes, the delta-base cache (locale \<open>lossy_cache\<close>), reading a pack through delta chains and writing one.
  \<^item> \<^verbatim>\<open>Git_Index\<close> (\<^verbatim>\<open>alt-git-index\<close>): the index file, read in versions 2 to 4 and written in 2 or 3; what
    is written reads back, sorted, and is written again as the same bytes.

  \<^bold>\<open>Wire and server.\<close>
  \<^item> \<^verbatim>\<open>Wire_Pkt\<close>, \<^verbatim>\<open>Wire_Lines\<close>, \<^verbatim>\<open>Wire_LsRefs\<close>, \<^verbatim>\<open>Wire_Caps\<close>, \<^verbatim>\<open>Wire_Fetch\<close>, \<^verbatim>\<open>Wire_Push\<close> (\<^verbatim>\<open>alt-wire\<close>): framing and
    the messages, both sides.
  \<^item> \<^verbatim>\<open>Wire_Receive\<close>, \<^verbatim>\<open>Wire_Auth\<close> (\<^verbatim>\<open>alt-cli/src/bin/altd_server.rs\<close>): nonces, signatures, the decision on a
    push, credentials and permissions; \<^verbatim>\<open>Group_Commit\<close> (\<^verbatim>\<open>alt-cli/src/group_commit.rs\<close>): tickets and flushes
    as a step relation over threads; \<^verbatim>\<open>Sign_Text\<close> (\<^verbatim>\<open>alt-sign\<close>, \<^verbatim>\<open>alt-cli/src/commit_sign.rs\<close>).

  \<^bold>\<open>Refs and gates.\<close>
  \<^item> \<^verbatim>\<open>Op_Log\<close>, \<^verbatim>\<open>Ref_Tx\<close>, \<^verbatim>\<open>Ref_Store\<close>: the log, its repair and durability marker, transactions, snapshots
    and the store (locales \<open>checked_log\<close> and \<open>replica\<close>: several processes over one log refine one map).
  \<^item> \<^verbatim>\<open>Policy_Glob\<close>, \<^verbatim>\<open>Policy\<close>, \<^verbatim>\<open>Flow\<close>, \<^verbatim>\<open>Write_Gate\<close> (\<^verbatim>\<open>alt-cli\<close>, \<^verbatim>\<open>alt-flow\<close>): globs, capabilities,
    identities, the branch model, and the gates of every ref write.

  \<^bold>\<open>Diff and merge.\<close>  \<^verbatim>\<open>Line_Diff\<close>, \<^verbatim>\<open>Diff_Hunks\<close>, \<^verbatim>\<open>Unified_Text\<close> (\<^verbatim>\<open>alt-diff\<close>), \<^verbatim>\<open>Merge3\<close> (\<^verbatim>\<open>alt-merge\<close>).

  \<^bold>\<open>Conventions.\<close>  A result is a sum with the error on the left; where the code panics the result is
  \<open>None\<close>.  Machine integers of the formats are words; lengths and offsets in memory are naturals, with
  the bound that the code needs as a hypothesis (entries of the object map below \<open>2 ^ 32\<close>, streams below
  \<open>2 ^ 64\<close> bytes, pack files below \<open>2 ^ 63\<close>).  No definition uses fuel: loops are structural or have a
  measure, and the one loop of the program that need not end, the walk along an ofs-delta chain, is a
  \<open>partial_function\<close> whose result is proved to exist on packs that the writer makes.  BLAKE3, SHA-1,
  SHA-256, zstd, zlib, signature checks and unstable sorting are parameters; \<open>env_ok\<close> lists what is
  assumed of them, and a set \<open>U\<close> of contents on which the hash is injective stands for collision freedom.
  An operation that holds a file lock is one step; where the code gives the lock up, what others do in
  between is an argument.

  \<^bold>\<open>Not modelled.\<close>  Terminal output, argument parsing, the commands behind the gates, the working tree
  and repository import and export are file system traffic.  The prisms, the pack indexer, the image, document and
  syntax-tree diffs, the HTTP layers and the large-file client rest on libraries outside the repository
  whose results they pass on.  The readers of git config and the refs of an imported
  repository are separate components that nothing modelled here calls.  Of the object database the reports of
  \<^verbatim>\<open>storage_view.rs\<close> and the bulk object walk, and of the blob store the leaf listing, are left out: they
  only read and print.  I/O errors are left out except where the code itself provokes one.
\<close>

end
